(* ===== verification/Prelude.thy ===== *)
theory Prelude
  imports Main "HOL-Library.Word" "HOL-Library.Monad_Syntax"
begin

text \<open>
  The prelude of the os0x development: the machine integer types of the x86-64 target, the
  collections the component theories fill (\<open>masks\<close>: hexadecimal masks as bit ranges;
  \<open>page_simps\<close>: page arithmetic), and the generic lemmas on words and lists the
  components share.

  Conventions of the whole development.  A C or C++ unsigned integer is a word of its width,
  so \<open>+\<close>, \<open>-\<close> and \<open>*\<close> wrap around as in the source.  A value of type \<open>'a option\<close> whose
  \<open>None\<close> is documented as \<^emph>\<open>undefined behaviour\<close> stands for code that leaves what the
  language or the machine defines (a null or out-of-range access, a page fault): every
  access that can do so is a branch of the model.  Errors that the source itself reports are
  values of the source's own status types.
\<close>

type_synonym u8 = "8 word"
type_synonym u16 = "16 word"
type_synonym u32 = "32 word"
type_synonym u64 = "64 word"

unbundle bit_operations_syntax

named_theorems masks
named_theorems page_simps

subsection \<open>Masks\<close>

lemma mask9_eq [masks]: "(0x1FF :: 'a::len word) = mask 9"
  by (simp add: mask_eq_exp_minus_1)

lemma mask12_eq [masks]: "(0xFFF :: 'a::len word) = mask 12"
  by (simp add: mask_eq_exp_minus_1)

lemma mask3_eq [masks]: "(0x7 :: 'a::len word) = mask 3"
  by (simp add: mask_eq_exp_minus_1)

lemma mask_addr_eq [masks]: "(0x000FFFFFFFFFF000 :: u64) = push_bit 12 (mask 40)"
  by (simp add: mask_eq_exp_minus_1 push_bit_eq_mult)

lemma mask_attr_eq [masks]: "(0xFFF0000000000FFF :: u64) = NOT (push_bit 12 (mask 40))"
  by (simp add: mask_eq_exp_minus_1 push_bit_eq_mult not_eq_complement)

lemma mask_tables_eq [masks]: "(0x7FFFFFF000 :: u64) = push_bit 12 (mask 27)"
  by (simp add: mask_eq_exp_minus_1 push_bit_eq_mult)

lemma base_tables_eq [masks]: "(0xFFFFFF8000000000 :: u64) = push_bit 39 (mask 25)"
  by (simp add: mask_eq_exp_minus_1 push_bit_eq_mult)

subsection \<open>Words\<close>

lemma word_eq_bits: "(\<And>n. n < LENGTH('a) \<Longrightarrow> bit x n \<longleftrightarrow> bit y n) \<Longrightarrow> x = (y :: 'a::len word)"
  by (rule bit_word_eqI)

lemma bit_less_exp:
  assumes "unat (i :: 'a::len word) < 2 ^ k" "bit i n"
  shows "n < k"
proof -
  have "take_bit k (unat i) = unat i"
    using assms(1) by (rule take_bit_nat_eq_self)
  moreover have "bit (unat i) n" using assms(2) by (simp add: bit_simps bit_imp_le_length)
  ultimately show ?thesis by (metis bit_take_bit_iff)
qed

lemma unat_and_mask9_less: "unat ((x :: u64) AND 0x1FF) < 512"
proof -
  have "unat (x AND 0x1FF) \<le> unat (0x1FF :: u64)"
    by (rule word_and_le1 [THEN word_le_nat_alt [THEN iffD1]])
  then show ?thesis by simp
qed

lemma unat_add_small:
  fixes a b :: "'a::len word"
  assumes "unat a + unat b < 2 ^ LENGTH('a)"
  shows "unat (a + b) = unat a + unat b"
  using assms by (simp add: unat_word_ariths)

lemma unat_of_nat_small: "n < 2 ^ LENGTH('a) \<Longrightarrow> unat (of_nat n :: 'a::len word) = n"
  by (simp add: unat_of_nat take_bit_eq_mod)

lemma unat_sub_small:
  fixes a b :: "'a::len word"
  assumes "b \<le> a"
  shows "unat (a - b) = unat a - unat b"
  using assms by (rule unat_sub)

subsection \<open>Lists\<close>

lemma nth_list_update_cases:
  "i < length xs \<Longrightarrow> xs[i := v] ! j = (if i = j then v else xs ! j)"
  by simp

lemma take_Suc_snoc: "n < length xs \<Longrightarrow> take (Suc n) xs = take n xs @ [xs ! n]"
  by (rule take_Suc_conv_app_nth)

lemma bind_Some_iff: "(x \<bind> f = Some y) \<longleftrightarrow> (\<exists>a. x = Some a \<and> f a = Some y)"
  by (cases x) simp_all


lemma unat_Suc: "unat (x::u64) + 1 < 2 ^ 64 \<Longrightarrow> unat (x + 1) = unat x + 1"
  using unat_add_small [of x 1] by simp

end
