(* ===== verification/Status.thy ===== *)
theory Status
  imports Prelude
begin

text \<open>
  Status codes and \<open>rtk::StatusOr<T>\<close> (include/core/status.h, core/src/main/cpp/status.cpp).
  The list \<open>STATUS_LIST\<close> is the single source of the enumeration, of the three switch
  functions over it and of their texts, as the X macro makes it in the header.

  A \<open>StatusOr\<close> object is its flag \<open>hasT\<close> and the union of \<open>status_\<close> and \<open>item_\<close>; the
  union is a datatype that records which member is live, and reading the other member is
  undefined behaviour (\<open>None\<close>).  The trap \<open>StatusTrap\<close> has an empty body in this build, so
  \<open>get\<close> on an error goes on to read \<open>item_\<close>.  Operations on two objects take and return
  both; they model calls on distinct objects (the self-assignment guard is \<open>assign_self\<close>).
\<close>

subsection \<open>Status codes\<close>

datatype StatusCode =
    Ok | Unknown | Unspecified | OutOfBounds | NotImplemented | OutOfMemory
  | OutOfRange | Uninitialized | InitializationError | ValueNotPresent

text \<open>One entry \<open>X(val, name, msg)\<close>: the value, its spelling, the name, the message.\<close>

type_synonym status_entry = "int \<times> string \<times> StatusCode \<times> string \<times> string"

definition STATUS_LIST :: "status_entry list" where
  "STATUS_LIST =
    [(0x00000000, ''0x00000000'', Ok, ''Ok'', ''Success''),
     (0x00000001, ''0x00000001'', Unknown, ''Unknown'', ''Unknown status''),
     (0x00000002, ''0x00000002'', Unspecified, ''Unspecified'', ''Unspecified error''),
     (0x00000003, ''0x00000003'', OutOfBounds, ''OutOfBounds'', ''Access out of bounds''),
     (0x00000004, ''0x00000004'', NotImplemented, ''NotImplemented'', ''Function not implemented''),
     (0x00000005, ''0x00000005'', OutOfMemory, ''OutOfMemory'', ''Out of memory''),
     (0x00000006, ''0x00000006'', OutOfRange, ''OutOfRange'', ''Argument or value out of range''),
     (0x00000007, ''0x00000007'', Uninitialized, ''Uninitialized'', ''Using an uninitialized object''),
     (0x00000008, ''0x00000008'', InitializationError, ''InitializationError'', ''Failed to initialize''),
     (0x00000009, ''0x00000009'', ValueNotPresent, ''ValueNotPresent'', ''The requested value is not present'')]"

definition STATUS_UNDEFINED :: string where
  "STATUS_UNDEFINED = ''Undefined status code''"

text \<open>The underlying value of an enumerator.\<close>

fun status_value :: "StatusCode \<Rightarrow> int" where
  "status_value Ok = 0"
| "status_value Unknown = 1"
| "status_value Unspecified = 2"
| "status_value OutOfBounds = 3"
| "status_value NotImplemented = 4"
| "status_value OutOfMemory = 5"
| "status_value OutOfRange = 6"
| "status_value Uninitialized = 7"
| "status_value InitializationError = 8"
| "status_value ValueNotPresent = 9"

text \<open>
  A variable of the enumeration type may hold any \<open>int\<close>; the switches have a \<open>default\<close>
  for the values outside the list.
\<close>

fun status_case :: "status_entry list \<Rightarrow> int \<Rightarrow> status_entry option" where
  "status_case [] code = None"
| "status_case (e # es) code = (if fst e = code then Some e else status_case es code)"

definition StatusName :: "int \<Rightarrow> string" where
  "StatusName code = (case status_case STATUS_LIST code of
     Some (val, lit, c, name, msg) \<Rightarrow> name | None \<Rightarrow> '''')"

definition StatusDescription :: "int \<Rightarrow> string" where
  "StatusDescription code = (case status_case STATUS_LIST code of
     Some (val, lit, c, name, msg) \<Rightarrow> msg | None \<Rightarrow> STATUS_UNDEFINED)"

definition StatusString :: "int \<Rightarrow> string" where
  "StatusString code = (case status_case STATUS_LIST code of
     Some (val, lit, c, name, msg) \<Rightarrow> name @ '' ('' @ lit @ ''): '' @ msg
   | None \<Rightarrow> STATUS_UNDEFINED)"

lemma status_value_inj: "status_value a = status_value b \<Longrightarrow> a = b"
  by (cases a; cases b) simp_all

lemma status_case_value:
  "\<exists>lit name msg. status_case STATUS_LIST (status_value c) = Some (status_value c, lit, c, name, msg)"
  by (cases c) (simp_all add: STATUS_LIST_def)

lemma status_case_default:
  "code \<notin> {0..9} \<Longrightarrow> status_case STATUS_LIST code = None"
  by (simp add: STATUS_LIST_def) linarith

subsection \<open>StatusOr\<close>

datatype 'a status_slot = StatusSlot StatusCode | ItemSlot 'a

record 'a StatusOr =
  hasT :: bool
  slot :: "'a status_slot"

definition StatusOr_status :: "StatusCode \<Rightarrow> 'a StatusOr" where
  "StatusOr_status s = \<lparr>hasT = False, slot = StatusSlot s\<rparr>"

definition StatusOr_item :: "'a \<Rightarrow> 'a StatusOr" where
  "StatusOr_item t = \<lparr>hasT = True, slot = ItemSlot t\<rparr>"

definition StatusOr_default :: "'a StatusOr" where
  "StatusOr_default = StatusOr_status Unknown"

text \<open>Reads of a union member.\<close>

definition read_status :: "'a StatusOr \<Rightarrow> StatusCode option" where
  "read_status x = (case slot x of StatusSlot s \<Rightarrow> Some s | ItemSlot _ \<Rightarrow> None)"

definition read_item :: "'a StatusOr \<Rightarrow> 'a option" where
  "read_item x = (case slot x of StatusSlot _ \<Rightarrow> None | ItemSlot t \<Rightarrow> Some t)"

text \<open>\<open>reset\<close> destroys a live item and leaves \<open>Unknown\<close>.\<close>

definition reset_or :: "'a StatusOr \<Rightarrow> 'a StatusOr" where
  "reset_or x =
     (let y = (if hasT x then x\<lparr>hasT := False\<rparr> else x)
      in y\<lparr>slot := StatusSlot Unknown\<rparr>)"

text \<open>\<open>operator=(const StatusOr&)\<close> on another object, and on itself.  The union's item is assigned to although
  none was constructed there; for the types without own assignment that the kernel uses this is a store.\<close>

definition assign_copy :: "'a StatusOr \<Rightarrow> 'a StatusOr \<Rightarrow> 'a StatusOr option" where
  "assign_copy this other =
     (let t = (reset_or this)\<lparr>hasT := hasT other\<rparr> in
      if \<not> hasT t then
        do { s \<leftarrow> read_status other; Some (t\<lparr>slot := StatusSlot s\<rparr>) }
      else
        do { i \<leftarrow> read_item other; Some (t\<lparr>slot := ItemSlot i\<rparr>) })"

definition assign_self :: "'a StatusOr \<Rightarrow> 'a StatusOr" where
  "assign_self this = this"

text \<open>\<open>operator=(StatusOr&&)\<close>: the new value of the target and what is left in the source.\<close>

definition assign_move :: "'a StatusOr \<Rightarrow> 'a StatusOr \<Rightarrow> ('a StatusOr \<times> 'a StatusOr) option" where
  "assign_move this other =
     do { t \<leftarrow> assign_copy this other; Some (t, reset_or other) }"

text \<open>\<open>operator=(T&&)\<close>.\<close>

definition assign_item :: "'a StatusOr \<Rightarrow> 'a \<Rightarrow> 'a StatusOr" where
  "assign_item this item = (reset_or this)\<lparr>hasT := True, slot := ItemSlot item\<rparr>"

text \<open>\<open>operator=(StatusCode)\<close>: the object at the end of the body, and the returned
  reference.  The function is declared to return a reference and has no \<open>return\<close>: flowing
  off its end is undefined.\<close>

definition assign_status :: "'a StatusOr \<Rightarrow> StatusCode \<Rightarrow> 'a StatusOr \<times> unit option" where
  "assign_status this s = ((reset_or this)\<lparr>slot := StatusSlot s\<rparr>, None)"

definition copy_construct :: "'a StatusOr \<Rightarrow> 'a StatusOr option" where
  "copy_construct other = assign_copy StatusOr_default other"

text \<open>
  The move constructor default-constructs the object and calls \<open>swap(*this, other)\<close>, whose
  first statement \<open>StatusOr temp = move(a)\<close> is a move construction again.  The two
  functions are one recursion; \<open>None\<close> is not returning.  The result is the new object and
  what is left in \<open>other\<close>.
\<close>

partial_function (option) move_construct ::
  "'a StatusOr \<Rightarrow> ('a StatusOr \<times> 'a StatusOr) option" where
  "move_construct other =
     do { (temp, a) \<leftarrow> move_construct StatusOr_default;
          (a', b) \<leftarrow> assign_move a other;
          (b', _) \<leftarrow> assign_move b temp;
          Some (a', b') }"

definition swap_or :: "'a StatusOr \<Rightarrow> 'a StatusOr \<Rightarrow> ('a StatusOr \<times> 'a StatusOr) option" where
  "swap_or a b =
     do { (temp, a1) \<leftarrow> move_construct a;
          (a2, b1) \<leftarrow> assign_move a1 b;
          (b2, _) \<leftarrow> assign_move b1 temp;
          Some (a2, b2) }"

text \<open>Observers.\<close>

definition to_StatusCode :: "'a StatusOr \<Rightarrow> StatusCode option" where
  "to_StatusCode x = (if hasT x then Some Ok else read_status x)"

definition status_or :: "'a StatusOr \<Rightarrow> StatusCode option" where
  "status_or x = (if hasT x then Some Ok else read_status x)"

definition ok_or :: "'a StatusOr \<Rightarrow> bool" where
  "ok_or x = hasT x"

definition not_or :: "'a StatusOr \<Rightarrow> bool" where
  "not_or x = (\<not> hasT x)"

text \<open>\<open>check\<close> calls \<open>StatusTrap(status_)\<close>, whose body is empty (status.cpp).\<close>

definition StatusTrap :: "StatusCode \<Rightarrow> unit" where
  "StatusTrap status = ()"

definition check_or :: "'a StatusOr \<Rightarrow> unit option" where
  "check_or x = (if \<not> hasT x then do { s \<leftarrow> read_status x; Some (StatusTrap s) } else Some ())"

definition get_or_trap :: "'a StatusOr \<Rightarrow> 'a option" where
  "get_or_trap x = do { _ \<leftarrow> check_or x; read_item x }"

definition get_or :: "'a StatusOr \<Rightarrow> 'a \<Rightarrow> 'a option" where
  "get_or x default_value = (if hasT x then read_item x else Some default_value)"

definition get_or_else :: "'a StatusOr \<Rightarrow> (unit \<Rightarrow> 'a) \<Rightarrow> 'a option" where
  "get_or_else x fallback_fn = (if hasT x then read_item x else Some (fallback_fn ()))"

definition get_or_default :: "'a::zero StatusOr \<Rightarrow> 'a option" where
  "get_or_default x = (if hasT x then read_item x else Some 0)"

definition map_or :: "('a \<Rightarrow> 'b) \<Rightarrow> 'a StatusOr \<Rightarrow> 'b StatusOr option" where
  "map_or f x =
     (if \<not> ok_or x then do { s \<leftarrow> read_status x; Some (StatusOr_status s) }
      else do { t \<leftarrow> read_item x; Some (StatusOr_item (f t)) })"

definition and_then :: "'a StatusOr \<Rightarrow> ('a \<Rightarrow> 'b StatusOr) \<Rightarrow> 'b StatusOr option" where
  "and_then x f =
     (if \<not> ok_or x then do { s \<leftarrow> read_status x; Some (StatusOr_status s) }
      else do { t \<leftarrow> read_item x; Some (f t) })"

subsection \<open>The union invariant\<close>

text \<open>The flag says which member is live.\<close>

definition wf_or :: "'a StatusOr \<Rightarrow> bool" where
  "wf_or x \<longleftrightarrow> (hasT x \<longleftrightarrow> (\<exists>t. slot x = ItemSlot t))"

text \<open>The abstract value: an error status or an item.\<close>

definition or_abs :: "'a StatusOr \<Rightarrow> StatusCode + 'a" where
  "or_abs x = (case slot x of StatusSlot s \<Rightarrow> Inl s | ItemSlot t \<Rightarrow> Inr t)"

lemma wf_or_cases:
  assumes "wf_or x"
  obtains (err) s where "x = StatusOr_status s" | (item) t where "x = StatusOr_item t"
  using assms
  by (cases x; cases "slot x") (auto simp: wf_or_def StatusOr_status_def StatusOr_item_def)

lemma wf_constructors [simp]:
  "wf_or (StatusOr_status s)" "wf_or (StatusOr_item t)" "wf_or StatusOr_default"
  by (simp_all add: wf_or_def StatusOr_status_def StatusOr_item_def StatusOr_default_def)

lemma abs_constructors [simp]:
  "or_abs (StatusOr_status s) = Inl s" "or_abs (StatusOr_item t) = Inr t"
  by (simp_all add: or_abs_def StatusOr_status_def StatusOr_item_def)

lemma reset_or_eq [simp]: "reset_or x = \<lparr>hasT = False, slot = StatusSlot Unknown\<rparr>"
  by (simp add: reset_or_def Let_def)

lemmas or_op_defs =
  assign_copy_def assign_move_def assign_item_def copy_construct_def read_status_def
  read_item_def to_StatusCode_def status_or_def ok_or_def not_or_def check_or_def
  get_or_trap_def get_or_def get_or_else_def get_or_default_def map_or_def and_then_def
  StatusOr_status_def StatusOr_item_def StatusOr_default_def or_abs_def wf_or_def

lemma assign_copy_wf: "wf_or other \<Longrightarrow> assign_copy this other = Some other"
  by (erule wf_or_cases) (simp_all add: or_op_defs)

lemma assign_move_wf: "wf_or other \<Longrightarrow> assign_move this other = Some (other, StatusOr_default)"
  by (simp add: assign_move_def assign_copy_wf StatusOr_default_def StatusOr_status_def)

lemma get_or_trap_item [simp]: "get_or_trap (StatusOr_item t) = Some t"
  by (simp add: or_op_defs)

lemma get_or_trap_error [simp]: "get_or_trap (StatusOr_status s) = None"
  by (simp add: or_op_defs)

lemma status_or_simps [simp]:
  "status_or (StatusOr_item t) = Some Ok" "status_or (StatusOr_status s) = Some s"
  "ok_or (StatusOr_item t)" "\<not> ok_or (StatusOr_status s)"
  by (simp_all add: or_op_defs)

lemma read_item_simps [simp]:
  "read_item (StatusOr_item t) = Some t" "\<not> not_or (StatusOr_item t)" "not_or (StatusOr_status s)"
  by (simp_all add: or_op_defs)

lemma map_or_simps [simp]:
  "map_or f (StatusOr_item t) = Some (StatusOr_item (f t))"
  "map_or f (StatusOr_status s) = Some (StatusOr_status s)"
  by (simp_all add: or_op_defs)

lemma and_then_simps [simp]:
  "and_then (StatusOr_item t) f = Some (f t)"
  "and_then (StatusOr_status s) f = Some (StatusOr_status s)"
  by (simp_all add: or_op_defs)

lemma move_construct_diverges: "move_construct x = None"
proof (rule ccontr)
  assume "move_construct x \<noteq> None"
  then obtain r where "move_construct x = Some r" by auto
  then have False
    by (rule move_construct.raw_induct [where P = "\<lambda>_ _. False", rotated])
      (auto simp: bind_Some_iff split: prod.splits)
  then show False .
qed

end
