(* ===== verification/StatusProps.thy ===== *)
theory StatusProps
  imports Status
begin

text \<open>
  Properties of \<open>StatusCode\<close> and \<open>StatusOr\<close> (include/core/status.h): the operations refine those
  of the sum of an error status and an item, and the move constructor and \<open>swap\<close>, which are
  written in terms of each other, never return.
\<close>

text \<open>C17: on well-formed objects the operations of \<open>StatusOr\<close> act as on a sum of an error and an
  item: \<open>map\<close> maps the item, \<open>and_then\<close> chains, \<open>get_or\<close> supplies the default, \<open>get\<close> traps exactly
  on an error, assignments copy the value, and a moved-from object is the default error.\<close>

theorem StatusOr_refines_sum:
  assumes "wf_or x"
  shows "(\<exists>y. map_or f x = Some y \<and> wf_or y \<and> or_abs y = map_sum id f (or_abs x))
    \<and> (\<exists>y. and_then x g = Some y \<and> y = (case or_abs x of Inl s \<Rightarrow> StatusOr_status s | Inr a \<Rightarrow> g a))
    \<and> get_or x d = Some (case or_abs x of Inl s \<Rightarrow> d | Inr a \<Rightarrow> a)
    \<and> get_or_trap x = (case or_abs x of Inl s \<Rightarrow> None | Inr a \<Rightarrow> Some a)
    \<and> status_or x = Some (case or_abs x of Inl s \<Rightarrow> s | Inr a \<Rightarrow> Ok)
    \<and> (ok_or x \<longleftrightarrow> (\<exists>a. or_abs x = Inr a))
    \<and> assign_copy z x = Some x \<and> assign_move z x = Some (x, StatusOr_default)"
  using assms
  by (rule wf_or_cases)
    (auto simp: assign_copy_wf assign_move_wf get_or_def read_item_def
      StatusOr_status_def StatusOr_item_def ok_or_def or_abs_def map_or_def and_then_def wf_or_def
      get_or_trap_def check_or_def status_or_def read_status_def)

lemma StatusOr_refines_sum_witness:
  "(\<exists>y. map_or Suc (StatusOr_item 41) = Some y \<and> or_abs y = Inr 42)
    \<and> get_or (StatusOr_item (41::nat)) 7 = Some 41"
proof -
  have "wf_or (StatusOr_item (41::nat))" by simp
  from StatusOr_refines_sum [OF this, where f = Suc and d = 7] show ?thesis by auto
qed

text \<open>C18: the move constructor of \<open>StatusOr\<close> calls \<open>swap\<close>, whose first line is a move construction:
  neither ever returns.\<close>

theorem move_construct_never_returns:
  "move_construct (x :: 'a StatusOr) = None \<and> swap_or x y = None"
  by (simp add: move_construct_diverges swap_or_def)

end
