(* ===== verification/Memory.thy ===== *)
theory Memory
  imports Prelude
begin

text \<open>
  Physical memory as the loader and the kernel see it: one byte per 64-bit address.  A page
  table entry is read and written as the eight bytes of a little-endian quadword
  (\<open>read64\<close>, \<open>write64\<close>), blocks are filled and copied byte by byte with the loops of
  \<open>rtk::memset\<close> and \<open>rtk::memcpy\<close> (kernel/src/main/cpp/lib/c/runtime_support.cpp; the
  same loops stand in include/packages/efi/minc.h as \<open>_memset\<close> and \<open>_memcpy\<close>).
  The locale \<open>quad_memory\<close> is the interface the page-table code uses: a read of the
  quadword just written, and of an aligned quadword elsewhere.
\<close>

type_synonym mem = "u64 \<Rightarrow> u8"

subsection \<open>Quadwords\<close>

definition read64 :: "mem \<Rightarrow> u64 \<Rightarrow> u64" where
  "read64 m a =
     ucast (m a) OR push_bit 8 (ucast (m (a + 1))) OR push_bit 16 (ucast (m (a + 2)))
     OR push_bit 24 (ucast (m (a + 3))) OR push_bit 32 (ucast (m (a + 4)))
     OR push_bit 40 (ucast (m (a + 5))) OR push_bit 48 (ucast (m (a + 6)))
     OR push_bit 56 (ucast (m (a + 7)))"

definition write64 :: "mem \<Rightarrow> u64 \<Rightarrow> u64 \<Rightarrow> mem" where
  "write64 m a v =
     m(a := ucast v, a + 1 := ucast (drop_bit 8 v), a + 2 := ucast (drop_bit 16 v),
       a + 3 := ucast (drop_bit 24 v), a + 4 := ucast (drop_bit 32 v),
       a + 5 := ucast (drop_bit 40 v), a + 6 := ucast (drop_bit 48 v),
       a + 7 := ucast (drop_bit 56 v))"

lemma bit_ucast_byte:
  "bit (ucast (x :: u8) :: u64) n \<longleftrightarrow> n < 8 \<and> bit x n"
  by (auto simp: bit_simps dest: bit_imp_le_length)

lemma bit_ucast_byte_push:
  "bit (push_bit k (ucast (x :: u8)) :: u64) n \<longleftrightarrow> n < 64 \<and> k \<le> n \<and> n - k < 8 \<and> bit x (n - k)"
  by (auto simp: bit_push_bit_iff bit_ucast_byte dest: bit_imp_le_length)

lemma byte_index_cases:
  assumes "n < (64 :: nat)"
  obtains k r where "n = 8 * k + r" "n div 8 = k" "n mod 8 = r" "r < 8"
    "k \<in> {0, 1, 2, 3, 4, 5, 6, 7}"
proof
  show "n = 8 * (n div 8) + n mod 8" "n mod 8 < 8" by simp_all
  have "n div 8 < 8" using assms by simp
  then show "n div 8 \<in> {0, 1, 2, 3, 4, 5, 6, 7}"
    unfolding insert_iff empty_iff by linarith
qed (rule refl)+

lemma bit_read64:
  assumes "n < 64"
  shows "bit (read64 m a) n \<longleftrightarrow> bit (m (a + of_nat (n div 8))) (n mod 8)"
proof -
  obtain k r where n: "n = 8 * k + r" "n div 8 = k" "n mod 8 = r" and r: "r < 8"
    and k: "k \<in> {0, 1, 2, 3, 4, 5, 6, 7}"
    using assms by (rule byte_index_cases)
  have "bit (read64 m a) (8 * k + r) \<longleftrightarrow> bit (m (a + of_nat k)) r"
  proof -
    from k consider "k = 0" | "k = 1" | "k = 2" | "k = 3" | "k = 4" | "k = 5" | "k = 6" | "k = 7"
      by blast
    then show ?thesis
      unfolding read64_def using r
      by cases (simp_all add: bit_or_iff bit_ucast_byte bit_ucast_byte_push)
  qed
  then show ?thesis unfolding n(2,3) by (simp only: n(1))
qed

lemma bit_byte_of: "bit (ucast (drop_bit k (v :: u64)) :: u8) r \<longleftrightarrow> r < 8 \<and> bit v (k + r)"
  by (auto simp: bit_simps dest: bit_imp_le_length)

lemma write64_at:
  assumes "k \<in> {0, 1, 2, 3, 4, 5, 6, 7 :: nat}"
  shows "write64 m a v (a + of_nat k) = ucast (drop_bit (8 * k) v)"
proof -
  from assms consider "k = 0" | "k = 1" | "k = 2" | "k = 3" | "k = 4" | "k = 5" | "k = 6" | "k = 7"
    by blast
  then show ?thesis by cases (simp_all add: write64_def)
qed

lemma read64_write64_same [simp]: "read64 (write64 m a v) a = v"
proof (rule word_eq_bits)
  fix n assume "n < LENGTH(64)"
  then have n64: "n < 64" by simp
  obtain k r where n: "n = 8 * k + r" "n div 8 = k" "n mod 8 = r" and r: "r < 8"
    and k: "k \<in> {0, 1, 2, 3, 4, 5, 6, 7}"
    using n64 by (rule byte_index_cases)
  have "bit (read64 (write64 m a v) a) n = bit (write64 m a v (a + of_nat k)) r"
    using n64 by (simp only: bit_read64 n(2,3))
  also have "\<dots> = bit v n"
    using r by (simp add: write64_at [OF k] bit_byte_of n(1))
  finally show "bit (read64 (write64 m a v) a) n = bit v n" .
qed

definition quad_aligned :: "u64 \<Rightarrow> bool" where
  "quad_aligned a \<longleftrightarrow> a AND 7 = 0"

lemma quad_aligned_bit: "quad_aligned x \<Longrightarrow> bit x n \<Longrightarrow> 3 \<le> n"
proof (rule ccontr)
  assume *: "quad_aligned x" "bit x n" "\<not> 3 \<le> n"
  then have "bit (x AND 7) n" by (simp add: mask3_eq bit_and_iff bit_mask_iff)
  with *(1) show False by (simp add: quad_aligned_def)
qed

lemma quad_bits:
  fixes x i :: u64
  assumes "quad_aligned x" "i < 8"
  shows "bit (x + i) n \<longleftrightarrow> (if n < 3 then bit i n else bit x n)"
proof -
  have lo: "n < 3" if "bit i n" for n
    using assms(2) that bit_less_exp [of i 3 n] by (simp add: word_less_nat_alt)
  note hi = quad_aligned_bit [OF assms(1)]
  have "\<not> (bit x k \<and> bit i k)" for k
    using hi [of k] lo [of k] by linarith
  then have "x AND i = 0"
    by (intro bit_eqI) (simp add: bit_and_iff)
  then have "x + i = x OR i" by (rule disjunctive_add_eq_or)
  then show ?thesis using hi [of n] lo [of n] by (auto simp: bit_or_iff)
qed

lemma quad_disjoint:
  assumes "quad_aligned a" "quad_aligned b" "a \<noteq> b" "i < 8" "j < 8"
  shows "a + i \<noteq> b + (j :: u64)"
proof
  assume eq: "a + i = b + j"
  have "bit a n = bit b n" for n
  proof (cases "n < 3")
    case True
    with assms(1,2) show ?thesis by (auto dest: quad_aligned_bit)
  next
    case False
    with eq quad_bits [OF assms(1,4), of n] quad_bits [OF assms(2,5), of n] show ?thesis by simp
  qed
  with assms(3) show False by (auto intro: bit_eqI)
qed

lemma write64_other:
  assumes "\<And>i. i < 8 \<Longrightarrow> b \<noteq> a + i"
  shows "write64 m a v b = m b"
  using assms [of 0] assms [of 1] assms [of 2] assms [of 3] assms [of 4] assms [of 5]
    assms [of 6] assms [of 7] by (simp add: write64_def)

lemma read64_cong:
  assumes "\<And>i. i < 8 \<Longrightarrow> m (a + i) = m' (a + i)"
  shows "read64 m a = read64 m' a"
  using assms [of 0] assms [of 1] assms [of 2] assms [of 3] assms [of 4] assms [of 5]
    assms [of 6] assms [of 7] by (simp add: read64_def)

lemma read64_write64_other:
  assumes "quad_aligned a" "quad_aligned b" "a \<noteq> b"
  shows "read64 (write64 m a v) b = read64 m b"
  using assms by (intro read64_cong write64_other) (metis quad_disjoint)

subsection \<open>Block fill and block copy\<close>

text \<open>\<open>for (size_t i = 0; i < n; i++) ((unsigned char*)dest)[i] = val\<close>; the counter is
  a \<open>size_t\<close>, so the loop runs \<open>n\<close> times.\<close>

primrec memset_loop :: "mem \<Rightarrow> u64 \<Rightarrow> u8 \<Rightarrow> nat \<Rightarrow> mem" where
  "memset_loop m dest val 0 = m"
| "memset_loop m dest val (Suc n) = memset_loop (m(dest := val)) (dest + 1) val n"

definition memset :: "mem \<Rightarrow> u64 \<Rightarrow> u8 \<Rightarrow> u64 \<Rightarrow> mem" where
  "memset m dest val n = memset_loop m dest val (unat n)"

text \<open>\<open>while (n--) *d++ = *s++\<close>: byte by byte, upwards, so an overlapping copy to a higher
  address repeats the first bytes.\<close>

primrec memcpy_loop :: "mem \<Rightarrow> u64 \<Rightarrow> u64 \<Rightarrow> nat \<Rightarrow> mem" where
  "memcpy_loop m d s 0 = m"
| "memcpy_loop m d s (Suc n) = memcpy_loop (m(d := m s)) (d + 1) (s + 1) n"

definition memcpy :: "mem \<Rightarrow> u64 \<Rightarrow> u64 \<Rightarrow> u64 \<Rightarrow> mem" where
  "memcpy m dest src n = memcpy_loop m dest src (unat n)"

definition in_block :: "u64 \<Rightarrow> nat \<Rightarrow> u64 \<Rightarrow> bool" where
  "in_block a n x \<longleftrightarrow> unat (x - a) < n"

lemma in_block_iff: "n \<le> 2 ^ 64 \<Longrightarrow> in_block a n x \<longleftrightarrow> (\<exists>i<n. x = a + of_nat i)"
proof
  assume "in_block a n x"
  then show "\<exists>i<n. x = a + of_nat i"
    by (intro exI [of _ "unat (x - a)"]) (simp add: in_block_def)
next
  assume n: "n \<le> 2 ^ 64" and "\<exists>i<n. x = a + of_nat i"
  then obtain i where "i < n" "x = a + of_nat i" by blast
  with n show "in_block a n x" by (simp add: in_block_def unat_of_nat take_bit_eq_mod)
qed

lemma in_block_Suc: "n < 2 ^ 64 \<Longrightarrow> in_block a (Suc n) x \<longleftrightarrow> x = a \<or> in_block (a + 1) n x"
proof -
  assume n: "n < 2 ^ 64"
  have "unat (x - a) < Suc n \<longleftrightarrow> x = a \<or> unat (x - (a + 1)) < n"
  proof (cases "x = a")
    case False
    then have "x - a \<noteq> 0" by simp
    then have "unat (x - a) = Suc (unat (x - a - 1))"
      using unat_gt_0 [of "x - a"] by (simp add: unat_minus_one)
    with False show ?thesis by (simp add: diff_diff_eq)
  qed simp
  then show ?thesis by (simp add: in_block_def)
qed

lemma memset_loop_at:
  "n \<le> 2 ^ 64 \<Longrightarrow> memset_loop m a v n x = (if in_block a n x then v else m x)"
proof (induction n arbitrary: m a)
  case 0
  then show ?case by (simp add: in_block_def)
next
  case (Suc n)
  then show ?case by (simp add: in_block_Suc)
qed

lemma memset_at: "memset m a v n x = (if in_block a (unat n) x then v else m x)"
  unfolding memset_def using unsigned_less [of n] by (intro memset_loop_at less_imp_le) simp


lemma memcpy_loop_at:
  assumes "n < 2 ^ 64" "\<And>i j. i < n \<Longrightarrow> j < n \<Longrightarrow> d + of_nat i \<noteq> s + of_nat j"
  shows "memcpy_loop m d s n x = (if in_block d n x then m (s + (x - d)) else m x)"
  using assms
proof (induction n arbitrary: m d s)
  case 0
  then show ?case by (simp add: in_block_def)
next
  case (Suc n)
  have IH: "memcpy_loop (m(d := m s)) (d + 1) (s + 1) n x
      = (if in_block (d + 1) n x then (m(d := m s)) (s + 1 + (x - (d + 1))) else (m(d := m s)) x)"
    using Suc.prems(1) Suc.prems(2) [of "Suc _" "Suc _"]
    by (intro Suc.IH) (simp_all add: add.assoc)
  have b: "in_block d (Suc n) x \<longleftrightarrow> x = d \<or> in_block (d + 1) n x"
    using Suc.prems(1) by (intro in_block_Suc) simp
  have "s + (x - d) \<noteq> d" if "in_block (d + 1) n x"
  proof -
    have "in_block d (Suc n) x" using that b by simp
    then obtain i where "i < Suc n" "x = d + of_nat i"
      using Suc.prems(1) in_block_iff [of "Suc n" d x] by auto
    then show ?thesis using Suc.prems(2) [of 0 i] by auto
  qed
  moreover have "\<not> in_block (d + 1) n d"
    using Suc.prems(1) by (simp add: in_block_def unsigned_minus_1_eq_mask mask_eq_exp_minus_1)
  ultimately show ?case using IH b by (auto simp: algebra_simps)
qed

lemma memcpy_at:
  assumes "\<And>i j. i < unat n \<Longrightarrow> j < unat n \<Longrightarrow> d + of_nat i \<noteq> s + of_nat j"
  shows "memcpy m d s n x = (if in_block d (unat n) x then m (s + (x - d)) else m x)"
  unfolding memcpy_def using unsigned_less [where 'a = nat, of n] assms
  by (intro memcpy_loop_at) simp_all

end
