(* ===== verification/PageEntry.thy ===== *)
theory PageEntry
  imports Memory Status
begin

text \<open>
  Page table entries and attributes (include/kernel/paging.h: \<open>PageAttr\<close>, \<open>PageEntry\<close>;
  include/packages/efi/paging.h: \<open>PageAttributes\<close>, \<open>PAGE_ADDR_MASK\<close>).  An entry is the
  64-bit word of the union's \<open>value_\<close>; the bit-field struct that overlays it has its nine
  flags in bits 0 to 8, a reserved field in bits 9 to 11, the 40 address bits 12 to 51, a
  reserved field in bits 52 to 62 and \<open>nx_\<close> in bit 63 (System V x86-64 bit-field layout).
  The locale \<open>entry_field\<close> is the contract of a bit field: what a read returns after a write,
  that writing back changes nothing, and that the last write wins.  Every field of the struct
  is an interpretation of it.
\<close>

subsection \<open>Attributes\<close>

definition Present :: u64 where "Present = push_bit 0 1"
definition RW :: u64 where "RW = push_bit 1 1"
definition User :: u64 where "User = push_bit 2 1"
definition PWT :: u64 where "PWT = push_bit 3 1"
definition PCD :: u64 where "PCD = push_bit 4 1"
definition Accessed :: u64 where "Accessed = push_bit 5 1"
definition Dirty :: u64 where "Dirty = push_bit 6 1"
definition PAT :: u64 where "PAT = push_bit 7 1"
definition Global :: u64 where "Global = push_bit 8 1"
definition NX :: u64 where "NX = push_bit 63 1"

lemmas attr_defs =
  Present_def RW_def User_def PWT_def PCD_def Accessed_def Dirty_def PAT_def Global_def NX_def

definition attr_or :: "u64 \<Rightarrow> u64 \<Rightarrow> u64" where "attr_or a b = a OR b"
definition attr_and :: "u64 \<Rightarrow> u64 \<Rightarrow> u64" where "attr_and a b = a AND b"

text \<open>\<open>operator~(PageAttr& a)\<close> assigns the complement to its argument and returns it: the
  second component is the new value of \<open>a\<close>.\<close>

definition attr_not :: "u64 \<Rightarrow> u64 \<times> u64" where
  "attr_not a = (let a' = NOT a in (a', a'))"

subsection \<open>Entries\<close>

definition PageEntry_zero :: u64 where "PageEntry_zero = 0"

definition PageEntry_value :: "u64 \<Rightarrow> u64" where "PageEntry_value entry = entry"

definition PageEntry_make :: "u64 \<Rightarrow> u64 \<Rightarrow> u64" where
  "PageEntry_make pageBase attributes = (pageBase AND 0x000FFFFFFFFFF000) OR attributes"

text \<open>\<open>PageEntry(void*, PageAttr)\<close> delegates to the one-argument constructor: no mask.\<close>

definition PageEntry_ptr :: "u64 \<Rightarrow> u64 \<Rightarrow> u64" where
  "PageEntry_ptr pageBase attributes = PageEntry_value (pageBase OR attributes)"

definition attributes_of :: "u64 \<Rightarrow> u64" where
  "attributes_of v = v AND 0xFFF0000000000FFF"

definition clear_entry :: "u64 \<Rightarrow> u64" where
  "clear_entry v = 0"

definition setAttributes :: "u64 \<Rightarrow> u64 \<Rightarrow> u64" where
  "setAttributes v newAttributes = (v AND 0x000FFFFFFFFFF000) OR newAttributes"

definition addAttributes :: "u64 \<Rightarrow> u64 \<Rightarrow> u64" where
  "addAttributes v newAttributes = v OR newAttributes"

definition intersectAttributes :: "u64 \<Rightarrow> u64 \<Rightarrow> u64" where
  "intersectAttributes v otherAttributes = setAttributes v (attr_and (attributes_of v) otherAttributes)"

text \<open>The argument is passed by value, so the complement written back into it is lost.\<close>

definition removeAttributes :: "u64 \<Rightarrow> u64 \<Rightarrow> u64" where
  "removeAttributes v oldAttributes =
     (let (compl, oldAttributes') = attr_not oldAttributes
      in setAttributes v (attr_and (attributes_of v) compl))"

subsection \<open>Bit fields\<close>

definition get_flag :: "nat \<Rightarrow> u64 \<Rightarrow> bool" where
  "get_flag k v = bit v k"

definition put_flag :: "nat \<Rightarrow> u64 \<Rightarrow> bool \<Rightarrow> u64" where
  "put_flag k v b = (if b then set_bit k v else unset_bit k v)"

definition addressPart :: "u64 \<Rightarrow> u64" where
  "addressPart v = take_bit 40 (drop_bit 12 v)"

definition put_addressPart :: "u64 \<Rightarrow> u64 \<Rightarrow> u64" where
  "put_addressPart v x = (v AND NOT (push_bit 12 (mask 40))) OR push_bit 12 (take_bit 40 x)"

definition physicalAddress :: "u64 \<Rightarrow> u64" where
  "physicalAddress v = push_bit 12 (addressPart v)"

definition setPhysicalAddress :: "u64 \<Rightarrow> u64 \<Rightarrow> u64" where
  "setPhysicalAddress v address = put_addressPart v (drop_bit 12 address)"

text \<open>The accessors of the ten flags, in the header's order; the one-argument \<open>setX()\<close> and
  \<open>clearX()\<close> are the setter at \<open>true\<close> and \<open>false\<close>.\<close>

definition present :: "u64 \<Rightarrow> bool" where "present = get_flag 0"
definition setPresent :: "u64 \<Rightarrow> bool \<Rightarrow> u64" where "setPresent = put_flag 0"
definition rw :: "u64 \<Rightarrow> bool" where "rw = get_flag 1"
definition setRw :: "u64 \<Rightarrow> bool \<Rightarrow> u64" where "setRw = put_flag 1"
definition user :: "u64 \<Rightarrow> bool" where "user = get_flag 2"
definition setUser :: "u64 \<Rightarrow> bool \<Rightarrow> u64" where "setUser = put_flag 2"
definition pwt :: "u64 \<Rightarrow> bool" where "pwt = get_flag 3"
definition setPwt :: "u64 \<Rightarrow> bool \<Rightarrow> u64" where "setPwt = put_flag 3"
definition pcd :: "u64 \<Rightarrow> bool" where "pcd = get_flag 4"
definition setPcd :: "u64 \<Rightarrow> bool \<Rightarrow> u64" where "setPcd = put_flag 4"
definition accessed :: "u64 \<Rightarrow> bool" where "accessed = get_flag 5"
definition setAccessed :: "u64 \<Rightarrow> bool \<Rightarrow> u64" where "setAccessed = put_flag 5"
definition dirty :: "u64 \<Rightarrow> bool" where "dirty = get_flag 6"
definition setDirty :: "u64 \<Rightarrow> bool \<Rightarrow> u64" where "setDirty = put_flag 6"
definition pat :: "u64 \<Rightarrow> bool" where "pat = get_flag 7"
definition setPat :: "u64 \<Rightarrow> bool \<Rightarrow> u64" where "setPat = put_flag 7"
definition global :: "u64 \<Rightarrow> bool" where "global = get_flag 8"
definition setGlobal :: "u64 \<Rightarrow> bool \<Rightarrow> u64" where "setGlobal = put_flag 8"
definition nx :: "u64 \<Rightarrow> bool" where "nx = get_flag 63"
definition setNx :: "u64 \<Rightarrow> bool \<Rightarrow> u64" where "setNx = put_flag 63"

lemmas flag_defs =
  present_def setPresent_def rw_def setRw_def user_def setUser_def pwt_def setPwt_def
  pcd_def setPcd_def accessed_def setAccessed_def dirty_def setDirty_def pat_def setPat_def
  global_def setGlobal_def nx_def setNx_def

text \<open>The contract of a field.\<close>

locale entry_field =
  fixes get :: "u64 \<Rightarrow> 'v" and put :: "u64 \<Rightarrow> 'v \<Rightarrow> u64" and fits :: "'v \<Rightarrow> bool"
  assumes get_put: "fits x \<Longrightarrow> get (put v x) = x"
    and put_get: "put v (get v) = v"
    and put_put: "put (put v x) y = put v y"
    and fits_get: "fits (get v)"
begin

lemma put_same: "get v = x \<Longrightarrow> put v x = v"
  using put_get by blast

lemma put_inject: "fits x \<Longrightarrow> fits y \<Longrightarrow> put v x = put v y \<Longrightarrow> x = y"
  by (metis get_put)

lemma restore: "put (put v x) (get v) = v"
  by (simp add: put_put put_get)

end

lemma bit_put_flag: "k < 64 \<Longrightarrow> bit (put_flag k v b) n \<longleftrightarrow> (if n = k then b else bit v n)"
  by (auto simp: put_flag_def bit_set_bit_iff bit_unset_bit_iff)

lemma flag_field: "k < 64 \<Longrightarrow> entry_field (get_flag k) (put_flag k) (\<lambda>_. True)"
proof
  fix v x y
  assume k: "k < 64"
  show "get_flag k (put_flag k v x) = x" using k by (simp add: get_flag_def bit_put_flag)
  show "put_flag k v (get_flag k v) = v"
    by (rule bit_eqI) (simp add: k bit_put_flag get_flag_def)
  show "put_flag k (put_flag k v x) y = put_flag k v y"
    by (rule bit_eqI) (simp add: k bit_put_flag)
qed simp

lemma bit_put_addressPart:
  "bit (put_addressPart v x) n \<longleftrightarrow>
     (if 12 \<le> n \<and> n < 52 then bit x (n - 12) else bit v n)"
  by (auto simp: put_addressPart_def bit_simps dest: bit_imp_le_length)

interpretation present: entry_field present setPresent "\<lambda>_. True"
  unfolding flag_defs by (rule flag_field) simp
interpretation rw: entry_field rw setRw "\<lambda>_. True"
  unfolding flag_defs by (rule flag_field) simp
interpretation user: entry_field user setUser "\<lambda>_. True"
  unfolding flag_defs by (rule flag_field) simp
interpretation pwt: entry_field pwt setPwt "\<lambda>_. True"
  unfolding flag_defs by (rule flag_field) simp
interpretation pcd: entry_field pcd setPcd "\<lambda>_. True"
  unfolding flag_defs by (rule flag_field) simp
interpretation accessed: entry_field accessed setAccessed "\<lambda>_. True"
  unfolding flag_defs by (rule flag_field) simp
interpretation dirty: entry_field dirty setDirty "\<lambda>_. True"
  unfolding flag_defs by (rule flag_field) simp
interpretation pat: entry_field pat setPat "\<lambda>_. True"
  unfolding flag_defs by (rule flag_field) simp
interpretation global: entry_field global setGlobal "\<lambda>_. True"
  unfolding flag_defs by (rule flag_field) simp
interpretation nx: entry_field nx setNx "\<lambda>_. True"
  unfolding flag_defs by (rule flag_field) simp

text \<open>A physical address fits when it is page aligned and below \<open>2 ^ 52\<close>.\<close>

definition frame_addr :: "u64 \<Rightarrow> bool" where
  "frame_addr a \<longleftrightarrow> a AND 0x000FFFFFFFFFF000 = a"

lemma bit_mask_addr_int: "bit (0x000FFFFFFFFFF000 :: int) n \<longleftrightarrow> 12 \<le> n \<and> n < 52"
proof -
  have "(0x000FFFFFFFFFF000 :: int) = push_bit 12 (mask 40)"
    by (simp add: mask_eq_exp_minus_1 push_bit_eq_mult)
  then have "bit (0x000FFFFFFFFFF000 :: int) n \<longleftrightarrow> bit (push_bit 12 (mask 40) :: int) n"
    by (simp only:)
  also have "\<dots> \<longleftrightarrow> 12 \<le> n \<and> n < 52"
    unfolding bit_push_bit_iff bit_mask_iff by auto
  finally show ?thesis .
qed

lemma bit_mask_addr_word: "bit (0x000FFFFFFFFFF000 :: u64) n \<longleftrightarrow> 12 \<le> n \<and> n < 52"
  by (auto simp: mask_addr_eq bit_push_bit_iff bit_mask_iff)

lemmas bit_mask_addr = bit_mask_addr_word bit_mask_addr_int

lemma frame_addr_bit: "frame_addr a \<longleftrightarrow> (\<forall>n. bit a n \<longrightarrow> 12 \<le> n \<and> n < 52)"
proof
  assume "frame_addr a"
  then show "\<forall>n. bit a n \<longrightarrow> 12 \<le> n \<and> n < 52"
    unfolding frame_addr_def by (metis bit_and_iff bit_mask_addr_word)
next
  assume *: "\<forall>n. bit a n \<longrightarrow> 12 \<le> n \<and> n < 52"
  show "frame_addr a"
    unfolding frame_addr_def by (rule bit_eqI) (use * in \<open>auto simp: bit_and_iff bit_mask_addr\<close>)
qed

lemma frame_addr_mask [simp]: "frame_addr (v AND 0x000FFFFFFFFFF000)"
  by (simp add: frame_addr_def and.assoc)

lemma bit_physicalAddress: "bit (physicalAddress v) n \<longleftrightarrow> 12 \<le> n \<and> n < 52 \<and> bit v n"
  by (auto simp: physicalAddress_def addressPart_def bit_simps dest: bit_imp_le_length)

lemma physicalAddress_mask: "physicalAddress v = v AND 0x000FFFFFFFFFF000"
  by (rule bit_eqI) (auto simp: bit_physicalAddress bit_and_iff bit_mask_addr)

lemma bit_setPhysicalAddress:
  "bit (setPhysicalAddress v a) n \<longleftrightarrow> (if 12 \<le> n \<and> n < 52 then bit a n else bit v n)"
  by (simp add: setPhysicalAddress_def bit_put_addressPart bit_drop_bit_eq)

interpretation address: entry_field physicalAddress setPhysicalAddress frame_addr
proof
  show "physicalAddress (setPhysicalAddress v x) = x" if "frame_addr x" for x v
    using that by (intro bit_eqI) (auto simp: bit_physicalAddress bit_setPhysicalAddress frame_addr_bit)
  show "setPhysicalAddress v (physicalAddress v) = v" for v
    by (rule bit_eqI) (simp add: bit_setPhysicalAddress bit_physicalAddress)
  show "setPhysicalAddress (setPhysicalAddress v x) y = setPhysicalAddress v y" for v x y
    by (rule bit_eqI) (simp add: bit_setPhysicalAddress)
  show "frame_addr (physicalAddress v)" for v by (simp add: physicalAddress_mask)
qed

subsection \<open>What the constructor stores\<close>

lemma bit_attributes_of: "bit (attributes_of v) n \<longleftrightarrow> \<not> (12 \<le> n \<and> n < 52) \<and> bit v n"
  by (auto simp: attributes_of_def mask_attr_eq bit_and_iff bit_not_iff bit_push_bit_iff
      bit_mask_iff dest: bit_imp_le_length)

definition attr_word :: "u64 \<Rightarrow> bool" where
  "attr_word a \<longleftrightarrow> a AND 0x000FFFFFFFFFF000 = 0"

lemma attr_word_bit: "attr_word a \<Longrightarrow> bit a n \<Longrightarrow> \<not> (12 \<le> n \<and> n < 52)"
  unfolding attr_word_def by (metis bit_0_eq bit_and_iff bit_mask_addr_word bot_apply bot_bool_def)

lemma bit_PageEntry_make:
  "bit (PageEntry_make p a) n \<longleftrightarrow> (12 \<le> n \<and> n < 52 \<and> bit p n) \<or> bit a n"
  by (auto simp: PageEntry_make_def bit_and_iff bit_or_iff bit_mask_addr)

lemma physicalAddress_make:
  "attr_word a \<Longrightarrow> physicalAddress (PageEntry_make p a) = p AND 0x000FFFFFFFFFF000"
  by (rule bit_eqI)
    (auto simp: bit_physicalAddress bit_PageEntry_make bit_and_iff bit_mask_addr dest: attr_word_bit)

lemma attributes_of_make: "attr_word a \<Longrightarrow> attributes_of (PageEntry_make p a) = a"
  by (rule bit_eqI) (auto simp: bit_attributes_of bit_PageEntry_make dest: attr_word_bit)

lemma entry_split: "physicalAddress v OR attributes_of v = v"
  by (rule bit_eqI) (auto simp: bit_or_iff bit_physicalAddress bit_attributes_of)

lemma attr_word_consts [simp]:
  "attr_word Present" "attr_word RW" "attr_word User" "attr_word NX" "attr_word PWT"
  "attr_word PCD" "attr_word Accessed" "attr_word Dirty" "attr_word PAT" "attr_word Global"
  by (simp_all add: attr_word_def attr_defs)

lemma attr_word_or [simp]: "attr_word (attr_or a b) \<longleftrightarrow> attr_word a \<and> attr_word b"
  unfolding attr_word_def attr_or_def
  by (simp add: bit.conj_disj_distrib2) (metis or_eq_0_iff)

lemma present_bit: "present v \<longleftrightarrow> v AND Present \<noteq> 0"
proof -
  have "v AND Present = of_bool (bit v 0)"
    by (simp add: attr_defs and_one_eq bit_0 mod_2_eq_odd)
  then show ?thesis by (simp add: present_def get_flag_def)
qed

text \<open>C16: the address and the attributes of a page entry are independent: an entry made of both has
  both, setting one keeps the other, and the two together are the whole entry.\<close>

theorem PageEntry_address_attributes:
  assumes "attr_word a" "frame_addr p"
  shows "physicalAddress (PageEntry_make p a) = p \<and> attributes_of (PageEntry_make p a) = a
    \<and> physicalAddress (setPhysicalAddress v p) = p
    \<and> attributes_of (setPhysicalAddress v p) = attributes_of v
    \<and> attributes_of (setAttributes v a) = a \<and> physicalAddress (setAttributes v a) = physicalAddress v
    \<and> PageEntry_make (physicalAddress v) (attributes_of v) = v"
proof -
  have p: "bit p n \<Longrightarrow> 12 \<le> n \<and> n < 52" for n using assms(2) by (simp add: frame_addr_bit)
  have a: "bit a n \<Longrightarrow> \<not> (12 \<le> n \<and> n < 52)" for n using attr_word_bit [OF assms(1)] .
  have s: "bit (setAttributes v a) n \<longleftrightarrow> (12 \<le> n \<and> n < 52) \<and> bit v n \<or> bit a n" for n
    by (auto simp: setAttributes_def bit_or_iff bit_and_iff bit_mask_addr)
  have "physicalAddress (PageEntry_make p a) = p"
    by (rule bit_eqI) (use p a in \<open>auto simp: bit_physicalAddress bit_PageEntry_make\<close>)
  moreover have "attributes_of (setPhysicalAddress v p) = attributes_of v"
    by (rule bit_eqI) (auto simp: bit_attributes_of bit_setPhysicalAddress)
  moreover have "attributes_of (setAttributes v a) = a"
    by (rule bit_eqI) (use a s in \<open>auto simp: bit_attributes_of\<close>)
  moreover have "physicalAddress (setAttributes v a) = physicalAddress v"
    by (rule bit_eqI) (use a s in \<open>auto simp: bit_physicalAddress\<close>)
  moreover have "PageEntry_make (physicalAddress v) (attributes_of v) = v"
    by (rule bit_eqI) (auto simp: bit_PageEntry_make bit_physicalAddress bit_attributes_of)
  ultimately show ?thesis
    using attributes_of_make [OF assms(1)] address.get_put [OF assms(2)] by simp
qed

lemma PageEntry_address_attributes_witness:
  "physicalAddress (PageEntry_make 0x5000 (attr_or Present RW)) = 0x5000
    \<and> attributes_of (PageEntry_make 0x5000 (attr_or Present RW)) = attr_or Present RW"
proof -
  have "attr_word (attr_or Present RW)" by simp
  moreover have "frame_addr 0x5000" by (simp add: frame_addr_def)
  ultimately show ?thesis using PageEntry_address_attributes by blast
qed

end
