(* ===== verification/Paging.thy ===== *)
theory Paging
  imports PageEntry
begin

text \<open>
  The address arithmetic of x86-64 paging as the two headers have it: the kernel's memory
  layout, page levels, page tables and the recursive-mapping formulas
  (include/kernel/paging.h), and the \<open>PT_*\<close> macros of the loader
  (include/packages/efi/paging.h).  An address is four nine-bit table indices and a twelve-bit
  offset.  With the top-level table mapped into its own last slot, the entry that maps an
  address is itself at a virtual address, which \<open>entryAddr\<close> and \<open>PT_ENTRY\<close> compute.
\<close>

definition kPageSize :: u64 where "kPageSize = 0x1000"

record PageSet =
  ps_pageSize :: u64
  ps_address :: u64
  ps_count :: u64

subsection \<open>The kernel memory layout\<close>

record KernelMemoryLayout =
  userStart :: u64
  userEnd :: u64
  kernelStart :: u64
  kernelEnd :: u64
  identityStart :: u64
  identityEnd :: u64
  heapStart :: u64
  heapEnd :: u64
  kernelImageStart :: u64
  mmapsStart :: u64
  mmapsEnd :: u64
  pgtablesStart :: u64
  pgtablesEnd :: u64
  pgtableAddr :: u64

definition DefaultKernelMemoryLayout :: KernelMemoryLayout where
  "DefaultKernelMemoryLayout = \<lparr>
     userStart = 0x0000000000000000,
     userEnd = 0x00007FFFFFFFFFFF,
     kernelStart = 0xFFFF800000000000,
     kernelEnd = 0xFFFFFFFFFFFFFFFF,
     identityStart = 0xFFFF800000000000,
     identityEnd = 0xFFFF800FFFFFFFFF,
     heapStart = 0xFFFF801000000000,
     heapEnd = 0xFFFFFEFFFFFFFFFF,
     kernelImageStart = 0xFFFFFF0000000000,
     mmapsStart = 0xFFFF801000000000,
     mmapsEnd = 0xFFFFFF7FFFFFFFFF,
     pgtablesStart = 0xFFFFFF8000000000,
     pgtablesEnd = 0xFFFFFFFFFFFFFFFF,
     pgtableAddr = 0xFFFFFFFFFFFFF000\<rparr>"

text \<open>The named regions of a layout, with their inclusive bounds.\<close>

definition regions :: "KernelMemoryLayout \<Rightarrow> (u64 \<times> u64) list" where
  "regions l = [(userStart l, userEnd l), (identityStart l, identityEnd l),
     (heapStart l, heapEnd l), (mmapsStart l, mmapsEnd l), (pgtablesStart l, pgtablesEnd l)]"

definition overlap :: "u64 \<times> u64 \<Rightarrow> u64 \<times> u64 \<Rightarrow> bool" where
  "overlap r s \<longleftrightarrow> fst r \<le> snd s \<and> fst s \<le> snd r"

subsection \<open>Page levels\<close>

text \<open>\<open>enum class PageLevel : int\<close> with its arithmetic; a level can leave the four
  enumerators (\<open>PML4 + 1\<close>), so it is its underlying \<open>int\<close>.\<close>

type_synonym PageLevel = int

definition PT :: PageLevel where "PT = 1"
definition PD :: PageLevel where "PD = 2"
definition PDP :: PageLevel where "PDP = 3"
definition PML4 :: PageLevel where "PML4 = 4"

lemmas level_defs = PT_def PD_def PDP_def PML4_def

definition level_add :: "PageLevel \<Rightarrow> int \<Rightarrow> PageLevel" where "level_add level amount = level + amount"
definition level_sub :: "PageLevel \<Rightarrow> int \<Rightarrow> PageLevel" where "level_sub level amount = level - amount"

text \<open>Postfix operators: the result and the new value of the variable.\<close>

definition level_postinc :: "PageLevel \<Rightarrow> PageLevel \<times> PageLevel" where
  "level_postinc level = (level, level_add level 1)"

definition level_postdec :: "PageLevel \<Rightarrow> PageLevel \<times> PageLevel" where
  "level_postdec level = (level, level_sub level 1)"

subsection \<open>Page tables in memory\<close>

definition kNumEntries :: u64 where "kNumEntries = kPageSize div 8"

text \<open>\<open>PageTable::getEntry\<close> returns the address of the entry; \<open>table\<close> is \<open>this\<close>.\<close>

definition getEntry :: "u64 \<Rightarrow> u64 \<Rightarrow> u64 StatusOr" where
  "getEntry table index =
     (if index \<ge> kNumEntries then StatusOr_status OutOfBounds
      else StatusOr_item (table + 8 * index))"

definition setEntry :: "mem \<Rightarrow> u64 \<Rightarrow> u64 \<Rightarrow> u64 \<Rightarrow> mem \<times> StatusCode" where
  "setEntry m table index entry =
     (if index \<ge> kNumEntries then (m, OutOfBounds)
      else (write64 m (table + 8 * index) entry, Ok))"

definition clear_table :: "mem \<Rightarrow> u64 \<Rightarrow> mem" where
  "clear_table m table = memset m table 0 kPageSize"

subsection \<open>Address formulas of the kernel\<close>

definition entryAddr :: "u64 \<Rightarrow> u64 \<Rightarrow> u64" where
  "entryAddr tablesStart address = tablesStart OR (drop_bit 9 address AND NOT 0x7)"

definition entryIndex :: "u64 \<Rightarrow> PageLevel \<Rightarrow> u64" where
  "entryIndex addr level = drop_bit (nat (12 + (level - 1) * 9)) addr AND 0x1FF"

definition tableAddress :: "u64 \<Rightarrow> u64 \<Rightarrow> PageLevel \<Rightarrow> u64" where
  "tableAddress tablesStart vaddr level =
     tablesStart OR drop_bit (nat (9 * level)) vaddr
     OR (push_bit (nat (9 * (4 - level))) 0x7FFFFFF000 AND 0x7FFFFFF000)"

text \<open>The formula that the comment above the function derives.\<close>

definition tableAddress_doc :: "u64 \<Rightarrow> u64 \<Rightarrow> PageLevel \<Rightarrow> u64" where
  "tableAddress_doc tablesStart vaddr level =
     tablesStart OR ((drop_bit (nat (9 * level)) vaddr OR push_bit (nat (9 * (4 - level))) 0x7FFFFFF000)
       AND 0x7FFFFFF000)"

subsection \<open>The loader's macros\<close>

definition PAGE_SIZE :: u64 where "PAGE_SIZE = 4096"
definition PAGE_TABLE_ENTRY_COUNT :: u64 where "PAGE_TABLE_ENTRY_COUNT = 512"
definition PAGE_ADDR_MASK :: u64 where "PAGE_ADDR_MASK = 0x000FFFFFFFFFF000"
definition PAGE_MASK :: u64 where "PAGE_MASK = 0xFFF"

definition PT_L4_IDX :: "u64 \<Rightarrow> u64" where "PT_L4_IDX addr = drop_bit 39 addr AND 0x1FF"
definition PT_L3_IDX :: "u64 \<Rightarrow> u64" where "PT_L3_IDX addr = drop_bit 30 addr AND 0x1FF"
definition PT_L2_IDX :: "u64 \<Rightarrow> u64" where "PT_L2_IDX addr = drop_bit 21 addr AND 0x1FF"
definition PT_L1_IDX :: "u64 \<Rightarrow> u64" where "PT_L1_IDX addr = drop_bit 12 addr AND 0x1FF"

definition PT_IDX :: "u64 \<Rightarrow> int \<Rightarrow> u64" where
  "PT_IDX addr level = drop_bit (nat (12 + (level - 1) * 9)) addr AND 0x1FF"

definition PT_BASE :: u64 where "PT_BASE = 0xFFFFFF8000000000"
definition PT_L1_SIZE :: u64 where "PT_L1_SIZE = 0x0000000000001000"
definition PT_L2_SIZE :: u64 where "PT_L2_SIZE = 0x0000000000200000"
definition PT_L3_SIZE :: u64 where "PT_L3_SIZE = 0x0000000040000000"
definition PT_L4_SIZE :: u64 where "PT_L4_SIZE = 0x0000008000000000"
definition PT_L4_BASE :: u64 where "PT_L4_BASE = 0xFFFFFFFFFFFFF000"

definition PT_ENTRY :: "u64 \<Rightarrow> u64" where
  "PT_ENTRY addr = PT_BASE OR (drop_bit 9 addr AND NOT 0x7)"

definition PT_PAGE_BASE :: "u64 \<Rightarrow> u64" where
  "PT_PAGE_BASE pt_entry = pt_entry AND NOT 0xFFF"

text \<open>\<open>PT_COMPUTE_ENTRIES\<close>: the four out-parameters, from the PT entry up.\<close>

definition PT_COMPUTE_ENTRIES :: "u64 \<Rightarrow> u64 \<times> u64 \<times> u64 \<times> u64" where
  "PT_COMPUTE_ENTRIES addr =
     (let ptEntry = PT_ENTRY addr;
          pdEntry = PT_ENTRY ptEntry;
          pdptEntry = PT_ENTRY pdEntry;
          pml4Entry = PT_ENTRY pdptEntry
      in (ptEntry, pdEntry, pdptEntry, pml4Entry))"

subsection \<open>Bits of the formulas\<close>

lemma bit_mask9_int: "bit (0x1FF :: int) n \<longleftrightarrow> n < 9"
proof -
  have "(0x1FF :: int) = mask 9" by (simp add: mask_eq_exp_minus_1)
  then show ?thesis by (simp only: bit_mask_iff) simp
qed

lemma bit_mask9: "bit (0x1FF :: u64) n \<longleftrightarrow> n < 9"
  by (auto simp: mask9_eq bit_mask_iff)

lemma bit_mask12_int: "bit (0xFFF :: int) n \<longleftrightarrow> n < 12"
proof -
  have "(0xFFF :: int) = mask 12" by (simp add: mask_eq_exp_minus_1)
  then show ?thesis by (simp only: bit_mask_iff) simp
qed

lemma bit_mask12: "bit (0xFFF :: u64) n \<longleftrightarrow> n < 12"
  by (auto simp: mask12_eq bit_mask_iff)

lemma bit_base: "bit (0xFFFFFF8000000000 :: u64) n \<longleftrightarrow> 39 \<le> n \<and> n < 64"
  by (auto simp: base_tables_eq bit_push_bit_iff bit_mask_iff)

lemma bit_tables_mask: "bit (0x7FFFFFF000 :: u64) n \<longleftrightarrow> 12 \<le> n \<and> n < 39"
  by (auto simp: mask_tables_eq bit_push_bit_iff bit_mask_iff)

lemma bit_not7: "bit (NOT 0x7 :: u64) n \<longleftrightarrow> 3 \<le> n \<and> n < 64"
  unfolding mask3_eq by (auto simp: bit_not_iff bit_mask_iff)

lemma bit_not_FFF: "bit (NOT 0xFFF :: u64) n \<longleftrightarrow> 12 \<le> n \<and> n < 64"
  unfolding mask12_eq by (auto simp: bit_not_iff bit_mask_iff)

lemma bit_PT_IDX: "bit (PT_IDX a l) n \<longleftrightarrow> n < 9 \<and> bit a (nat (12 + (l - 1) * 9) + n)"
  unfolding PT_IDX_def bit_and_iff bit_drop_bit_eq bit_mask9 by auto

lemma bit_push_PT_IDX:
  "bit (push_bit (nat (12 + (l - 1) * 9)) (PT_IDX a l)) n \<longleftrightarrow>
     nat (12 + (l - 1) * 9) \<le> n \<and> n < nat (12 + (l - 1) * 9) + 9 \<and> bit a n"
  unfolding bit_push_bit_iff bit_PT_IDX by (auto dest: bit_imp_le_length)

lemma entryIndex_PT_IDX: "entryIndex = PT_IDX"
  by (simp add: fun_eq_iff entryIndex_def PT_IDX_def)

lemma PT_IDX_levels:
  "PT_IDX a 4 = PT_L4_IDX a" "PT_IDX a 3 = PT_L3_IDX a"
  "PT_IDX a 2 = PT_L2_IDX a" "PT_IDX a 1 = PT_L1_IDX a"
  by (simp_all add: PT_IDX_def PT_L4_IDX_def PT_L3_IDX_def PT_L2_IDX_def PT_L1_IDX_def)

lemma PT_IDX_less: "PT_IDX a l < 512"
proof -
  have "PT_IDX a l \<le> 0x1FF" unfolding PT_IDX_def by (rule word_and_le1)
  then show ?thesis by (rule order.strict_trans1) simp
qed

lemma getEntry_ok: "index < 512 \<Longrightarrow> getEntry table index = StatusOr_item (table + 8 * index)"
  by (simp add: getEntry_def kNumEntries_def kPageSize_def)

lemma bit_entryAddr:
  "bit (entryAddr 0xFFFFFF8000000000 a) n \<longleftrightarrow>
     n < 64 \<and> (39 \<le> n \<or> (3 \<le> n \<and> bit a (9 + n)))"
  unfolding entryAddr_def bit_or_iff bit_and_iff bit_drop_bit_eq bit_base bit_not7 by auto

lemma PT_ENTRY_entryAddr: "PT_ENTRY a = entryAddr 0xFFFFFF8000000000 a"
  by (simp add: PT_ENTRY_def entryAddr_def PT_BASE_def)

lemmas bit_PT_ENTRY = bit_entryAddr [folded PT_ENTRY_entryAddr]

text \<open>The address of an entry walks through the self map once, then through the first three
  indices of the address it maps.\<close>

lemma PT_ENTRY_indices:
  "PT_L4_IDX (PT_ENTRY a) = 511"
  "PT_L3_IDX (PT_ENTRY a) = PT_L4_IDX a"
  "PT_L2_IDX (PT_ENTRY a) = PT_L3_IDX a"
  "PT_L1_IDX (PT_ENTRY a) = PT_L2_IDX a"
proof -
  have 511: "(511 :: u64) = mask 9" by (simp add: mask_eq_exp_minus_1)
  show "PT_L4_IDX (PT_ENTRY a) = 511"
    unfolding 511 PT_IDX_levels [symmetric]
    by (rule bit_eqI) (auto simp: bit_PT_IDX bit_PT_ENTRY bit_mask_iff)
  show "PT_L3_IDX (PT_ENTRY a) = PT_L4_IDX a"
    unfolding PT_IDX_levels [symmetric]
    by (rule bit_eqI) (auto simp: bit_PT_IDX bit_PT_ENTRY add.commute)
  show "PT_L2_IDX (PT_ENTRY a) = PT_L3_IDX a"
    unfolding PT_IDX_levels [symmetric]
    by (rule bit_eqI) (auto simp: bit_PT_IDX bit_PT_ENTRY add.commute)
  show "PT_L1_IDX (PT_ENTRY a) = PT_L2_IDX a"
    unfolding PT_IDX_levels [symmetric]
    by (rule bit_eqI) (auto simp: bit_PT_IDX bit_PT_ENTRY add.commute)
qed

lemma PT_ENTRY_offset: "PT_ENTRY a AND PAGE_MASK = 8 * PT_L1_IDX a"
proof -
  have "8 * PT_L1_IDX a = push_bit 3 (PT_IDX a 1)"
    by (simp add: PT_IDX_levels push_bit_eq_mult mult.commute)
  moreover have "PT_ENTRY a AND PAGE_MASK = push_bit 3 (PT_IDX a 1)"
    unfolding PAGE_MASK_def
    by (rule bit_eqI)
      (auto simp: bit_and_iff bit_mask12 bit_mask12_int bit_PT_ENTRY bit_push_bit_iff bit_PT_IDX add.commute)
  ultimately show ?thesis by simp
qed

lemma quad_aligned_PT_ENTRY: "quad_aligned (PT_ENTRY a)"
proof -
  have "PT_ENTRY a AND mask 3 = 0"
    by (rule bit_eqI) (auto simp: bit_and_iff bit_PT_ENTRY bit_mask_iff)
  then show ?thesis by (simp add: quad_aligned_def mask3_eq)
qed

text \<open>The address is determined by its indices and its offset, up to bit 47.\<close>

lemma address_decomposition:
  "take_bit 48 a = push_bit 39 (PT_L4_IDX a) OR push_bit 30 (PT_L3_IDX a)
     OR push_bit 21 (PT_L2_IDX a) OR push_bit 12 (PT_L1_IDX a) OR (a AND PAGE_MASK)"
proof (rule bit_eqI)
  fix n
  have "bit (push_bit 39 (PT_IDX a 4)) n \<longleftrightarrow> 39 \<le> n \<and> n < 48 \<and> bit a n"
    "bit (push_bit 30 (PT_IDX a 3)) n \<longleftrightarrow> 30 \<le> n \<and> n < 39 \<and> bit a n"
    "bit (push_bit 21 (PT_IDX a 2)) n \<longleftrightarrow> 21 \<le> n \<and> n < 30 \<and> bit a n"
    "bit (push_bit 12 (PT_IDX a 1)) n \<longleftrightarrow> 12 \<le> n \<and> n < 21 \<and> bit a n"
    using bit_push_PT_IDX [of 4 a n] bit_push_PT_IDX [of 3 a n] bit_push_PT_IDX [of 2 a n]
      bit_push_PT_IDX [of 1 a n] by simp_all
  then show "bit (take_bit 48 a) n = bit (push_bit 39 (PT_L4_IDX a) OR push_bit 30 (PT_L3_IDX a)
     OR push_bit 21 (PT_L2_IDX a) OR push_bit 12 (PT_L1_IDX a) OR (a AND PAGE_MASK)) n"
    unfolding bit_or_iff bit_take_bit_iff bit_and_iff PAGE_MASK_def bit_mask12 PT_IDX_levels
    by auto
qed

end
