(* ===== verification/PhysAlloc.thy ===== *)
theory PhysAlloc
  imports Paging
begin

text \<open>
  The kernel's physical page allocator (kernel/src/main/cpp/paging.cpp,
  \<open>DefaultPhysicalMemoryAllocator\<close>; include/kernel/paging.h): a bitmap with one bit per page
  frame, 1 for used.  The bitmap is the list of its \<open>bitmapSize_\<close> bytes; the 64-bit, 32-bit,
  16-bit and 8-bit views that the fast path takes of it are runs of its bytes.

  The abstract allocator \<open>nalloc\<close> works on the set of used page numbers with unbounded
  numbers; \<open>alloc_loop_refines\<close> shows that the code's loop on words and bytes computes the
  same, and so that it ends.
\<close>

subsection \<open>Masks of consecutive pages\<close>

text \<open>The do-while loop of \<open>makeSetBitsMask\<close>.\<close>

function set_bits_loop :: "u8 \<Rightarrow> u64 \<Rightarrow> u64 \<Rightarrow> u8 \<times> u64" where
  "set_bits_loop byteMask currentPage endPage =
     (let currentBit = currentPage mod 8;
          byteMask = byteMask OR push_bit (unat currentBit) 1;
          currentPage = currentPage + 1
      in if currentPage mod 8 \<noteq> 0 \<and> currentPage < endPage
         then set_bits_loop byteMask currentPage endPage else (byteMask, currentPage))"
  by pat_completeness auto
termination
proof (relation "measure (\<lambda>(m, c, e). 8 - unat (c mod 8))")
  fix byteMask :: u8 and currentPage endPage x xa xb :: u64
  fix xc :: u8
  assume *: "x = currentPage mod 8" "xb = currentPage + 1" "xb mod 8 \<noteq> 0 \<and> xb < endPage"
  have u: "unat (y mod 8) = unat y mod 8" for y :: u64 by (simp add: unat_mod_distrib)
  have "currentPage + 1 \<noteq> 0" using * by auto
  then have "unat (currentPage + 1) = Suc (unat currentPage)"
    by (metis Suc_eq_plus1 add.commute unatSuc)
  moreover have "unat (currentPage + 1) mod 8 \<noteq> 0"
    using *(2,3) u [of "currentPage + 1"] by (metis unat_eq_zero)
  ultimately show "((xc, xb, endPage), byteMask, currentPage, endPage)
      \<in> measure (\<lambda>(m, c, e). 8 - unat (c mod 8))"
    using *(2) by (simp add: u mod_Suc split: if_splits)
qed simp

declare set_bits_loop.simps [simp del]

definition makeSetBitsMask :: "u64 \<Rightarrow> u64 \<Rightarrow> u8 \<times> u64" where
  "makeSetBitsMask currentPage endPage =
     (if currentPage \<ge> endPage then (0, currentPage) else set_bits_loop 0 currentPage endPage)"

definition makeUnsetBitsMask :: "u64 \<Rightarrow> u64 \<Rightarrow> u8 \<times> u64" where
  "makeUnsetBitsMask currentPage endPage =
     (let (m, p) = makeSetBitsMask currentPage endPage in (NOT m, p))"

subsection \<open>The allocator\<close>

record phys_alloc =
  pa_memorySize :: u64
  pa_bitmapSize :: u64
  pa_bitmap :: "u8 list"
  pa_lowestFreePage :: u64
  pa_status :: StatusCode

text \<open>The constructor: the bitmap members are not initialised before \<open>init\<close>, and nothing
  reads them while the status is not \<open>Ok\<close>.\<close>

definition phys_alloc_construct :: "u64 \<Rightarrow> u64 \<Rightarrow> u8 list \<Rightarrow> phys_alloc" where
  "phys_alloc_construct memSize indeterminateSize indeterminateBitmap =
     \<lparr>pa_memorySize = memSize, pa_bitmapSize = indeterminateSize, pa_bitmap = indeterminateBitmap,
      pa_lowestFreePage = 0xFFFFFFFFFFFFFFFF, pa_status = Uninitialized\<rparr>"

text \<open>\<open>alignedFreeCheckAdvanceAndMark<T>\<close> for a \<open>T\<close> of \<open>sizeBits\<close> bits: whether a chunk was
  taken, the bitmap, \<open>pageNo\<close> and \<open>*pagesAllocated\<close> afterwards.\<close>

definition alignedFreeCheckAdvanceAndMark ::
  "u64 \<Rightarrow> u64 \<Rightarrow> u8 list \<Rightarrow> u64 \<Rightarrow> u64 \<Rightarrow> u64 \<Rightarrow> bool \<times> u8 list \<times> u64 \<times> u64" where
  "alignedFreeCheckAdvanceAndMark sizeBits bitmapSize bitmap pageNo count pagesAllocated =
     (let pageMapBits = bitmapSize * 8 in
      if pageNo + sizeBits > pageMapBits then (False, bitmap, pageNo, pagesAllocated)
      else if count - pagesAllocated < sizeBits then (False, bitmap, pageNo, pagesAllocated)
      else
        let i = unat (pageNo div sizeBits);
            k = unat (sizeBits div 8);
            isFree = list_all (\<lambda>b. b = 0) (take k (drop (i * k) bitmap))
        in if isFree then
             (True, take (i * k) bitmap @ replicate k 0xFF @ drop (i * k + k) bitmap,
              pageNo + (sizeBits - 1), pagesAllocated + sizeBits)
           else (False, bitmap, pageNo, pagesAllocated))"

text \<open>The switch over \<open>align\<close>: which chunk is tried.\<close>

definition try_chunk :: "u64 \<Rightarrow> u8 list \<Rightarrow> u64 \<Rightarrow> u64 \<Rightarrow> u64 \<Rightarrow> bool \<times> u8 list \<times> u64 \<times> u64" where
  "try_chunk bitmapSize bitmap page count pagesAllocated =
     (let bit = page mod 8;
          align = bit mod 64
      in if align = 0 then
           alignedFreeCheckAdvanceAndMark 64 bitmapSize bitmap page count pagesAllocated
         else if align = 32 then
           alignedFreeCheckAdvanceAndMark 32 bitmapSize bitmap page count pagesAllocated
         else if align = 16 \<or> align = 16 * 3 then
           alignedFreeCheckAdvanceAndMark 16 bitmapSize bitmap page count pagesAllocated
         else if align = 8 \<or> align = 8 * 3 \<or> align = 8 * 5 \<or> align = 8 * 7 then
           alignedFreeCheckAdvanceAndMark 8 bitmapSize bitmap page count pagesAllocated
         else (False, bitmap, page, pagesAllocated))"

text \<open>The loop of \<open>allocatePages\<close>; the result is the bitmap, \<open>pagesAllocated\<close> and
  \<open>lowestFreePage_\<close> when it ends, and \<open>None\<close> if it does not end.\<close>

partial_function (option) alloc_loop ::
  "u64 \<Rightarrow> u64 \<Rightarrow> u64 \<Rightarrow> u8 list \<Rightarrow> u64 \<Rightarrow> u64 \<Rightarrow> (u8 list \<times> u64 \<times> u64) option" where
  "alloc_loop bitmapSize count page bitmap pagesAllocated lowest =
     (if \<not> page < bitmapSize * 8 then Some (bitmap, pagesAllocated, lowest)
      else
        let pagesNeeded = count - pagesAllocated;
            byte = unat (page div 8);
            bit = unat (page mod 8);
            chunk = try_chunk bitmapSize bitmap page count pagesAllocated
        in
        if fst chunk then
          alloc_loop bitmapSize count (fst (snd (snd chunk)) + 1) (fst (snd chunk))
            (snd (snd (snd chunk))) lowest
        else
          let mask = push_bit bit 1;
              isFree = (bitmap ! byte AND mask = 0)
          in
          if \<not> isFree then
            (if pagesAllocated = 0 then
               alloc_loop bitmapSize count (page + 1) bitmap pagesAllocated lowest
             else Some (bitmap, pagesAllocated, lowest))
          else if pagesNeeded = 0 then Some (bitmap, pagesAllocated, page)
          else
            alloc_loop bitmapSize count (page + 1) (bitmap[byte := bitmap ! byte OR mask])
              (pagesAllocated + 1) lowest)"

definition allocatePages :: "phys_alloc \<Rightarrow> u64 \<Rightarrow> (PageSet StatusOr \<times> phys_alloc) option" where
  "allocatePages s count =
     (if pa_status s \<noteq> Ok then Some (StatusOr_status InitializationError, s)
      else if count = 0 then Some (StatusOr_status OutOfRange, s)
      else
        let startPage = pa_lowestFreePage s;
            bitmapPages = pa_bitmapSize s * 8
        in do {
          (bm, pagesAllocated, lowest) \<leftarrow>
            alloc_loop (pa_bitmapSize s) count startPage (pa_bitmap s) 0 (pa_lowestFreePage s);
          let s1 = s\<lparr>pa_bitmap := bm, pa_lowestFreePage := lowest\<rparr>;
          if pagesAllocated = 0 then
            Some (StatusOr_status OutOfMemory, s1\<lparr>pa_lowestFreePage := bitmapPages\<rparr>)
          else
            Some (StatusOr_item \<lparr>ps_pageSize = kPageSize, ps_address = startPage * kPageSize,
                    ps_count = pagesAllocated\<rparr>, s1)
        })"

definition allocatePage :: "phys_alloc \<Rightarrow> (u64 StatusOr \<times> phys_alloc) option" where
  "allocatePage s =
     do { (r, s') \<leftarrow> allocatePages s 1; r' \<leftarrow> map_or ps_address r; Some (r', s') }"

subsection \<open>Marking a range free\<close>

text \<open>A byte store \<open>bitmap_[i] &= m\<close> or \<open>bitmap_[i] = m\<close>; out of the bitmap is undefined.\<close>

definition and_byte :: "u8 list \<Rightarrow> u64 \<Rightarrow> u8 \<Rightarrow> u8 list option" where
  "and_byte bm i m = (if unat i < length bm then Some (bm[unat i := bm ! unat i AND m]) else None)"

definition put_byte :: "u8 list \<Rightarrow> u64 \<Rightarrow> u8 \<Rightarrow> u8 list option" where
  "put_byte bm i m = (if unat i < length bm then Some (bm[unat i := m]) else None)"

text \<open>\<open>for (; currentPage + UINT8_WIDTH <= endPage; currentPage += UINT8_WIDTH)\<close>.\<close>

partial_function (option) clear_bytes :: "u8 list \<Rightarrow> u64 \<Rightarrow> u64 \<Rightarrow> (u8 list \<times> u64) option" where
  "clear_bytes bm currentPage endPage =
     (if currentPage + 8 \<le> endPage then
        do { bm' \<leftarrow> put_byte bm (currentPage div 8) 0;
             clear_bytes bm' (currentPage + 8) endPage }
      else Some (bm, currentPage))"

text \<open>The bits of the first byte, up to the next byte or the end, and those of the last one.\<close>

definition mark_first :: "u8 list \<Rightarrow> u64 \<Rightarrow> u64 \<Rightarrow> (u8 list \<times> u64) option" where
  "mark_first bm startPage endPage =
     (if startPage mod 8 \<noteq> 0 then
        (let (byteMask, currentPage) = makeUnsetBitsMask startPage endPage
         in do { bm \<leftarrow> and_byte bm (startPage div 8) byteMask; Some (bm, currentPage) })
      else Some (bm, startPage))"

definition mark_last :: "u8 list \<Rightarrow> u64 \<Rightarrow> u64 \<Rightarrow> u8 list option" where
  "mark_last bm currentPage endPage =
     (if currentPage < endPage then
        and_byte bm (currentPage div 8) (fst (makeUnsetBitsMask currentPage endPage))
      else Some bm)"

text \<open>The body of the loop over the free ranges in \<open>init\<close>.\<close>

definition mark_range :: "u8 list \<times> u64 \<Rightarrow> PageSet \<Rightarrow> (u8 list \<times> u64) option" where
  "mark_range st pages =
     (let (bm, lowest) = st;
          startPage = ps_address pages div kPageSize;
          endPage = startPage + ps_count pages;
          lowest = (if startPage < lowest then startPage else lowest)
      in do {
        (bm, currentPage) \<leftarrow> mark_first bm startPage endPage;
        (bm, currentPage) \<leftarrow> clear_bytes bm currentPage endPage;
        bm \<leftarrow> mark_last bm currentPage endPage;
        Some (bm, lowest) })"

subsection \<open>The abstract allocator\<close>

definition chunk_at :: "nat \<Rightarrow> nat set" where
  "chunk_at page = {64 * (page div 64) ..< 64 * (page div 64) + 64}"

definition chunk_taken :: "nat \<Rightarrow> nat \<Rightarrow> nat \<Rightarrow> nat set \<Rightarrow> nat \<Rightarrow> bool" where
  "chunk_taken N count page U pa \<longleftrightarrow>
     page mod 8 = 0 \<and> page + 64 \<le> N \<and> 64 \<le> count - pa \<and> chunk_at page \<inter> U = {}"

function nalloc :: "nat \<Rightarrow> nat \<Rightarrow> nat \<Rightarrow> nat set \<Rightarrow> nat \<Rightarrow> nat \<Rightarrow> nat set \<times> nat \<times> nat" where
  "nalloc N count page U pa low =
     (if \<not> page < N then (U, pa, low)
      else if chunk_taken N count page U pa then
        nalloc N count (page + 64) (U \<union> chunk_at page) (pa + 64) low
      else if page \<in> U then (if pa = 0 then nalloc N count (page + 1) U pa low else (U, pa, low))
      else if count = pa then (U, pa, page)
      else nalloc N count (page + 1) (insert page U) (pa + 1) low)"
  by pat_completeness auto
termination
  by (relation "measure (\<lambda>(N, count, page, U, pa, low). N - page)") auto

declare nalloc.simps [simp del]

definition used_pages :: "u8 list \<Rightarrow> nat set" where
  "used_pages bm = {p. p < 8 * length bm \<and> bit (bm ! (p div 8)) (p mod 8)}"


lemma used_pages_iff: "p \<in> used_pages bm \<longleftrightarrow> p < 8 * length bm \<and> bit (bm ! (p div 8)) (p mod 8)"
  by (simp add: used_pages_def)

lemma bit_push_bit_1_byte: "bit (push_bit k (1::u8)) n \<longleftrightarrow> n = k \<and> k < 8"
  unfolding bit_push_bit_iff bit_1_iff by auto

lemma used_pages_update:
  assumes "p < 8 * length bm"
  shows "used_pages (bm[p div 8 := bm ! (p div 8) OR push_bit (p mod 8) 1]) = insert p (used_pages bm)"
proof (rule set_eqI)
  fix q
  have b: "bit (push_bit (p mod 8) (1::u8)) n \<longleftrightarrow> n = p mod 8" for n
    using bit_push_bit_1_byte [of "p mod 8" n] by auto
  show "q \<in> used_pages (bm[p div 8 := bm ! (p div 8) OR push_bit (p mod 8) 1])
      \<longleftrightarrow> q \<in> insert p (used_pages bm)"
  proof (cases "q div 8 = p div 8")
    case True
    then have "q mod 8 = p mod 8 \<longleftrightarrow> q = p" by (metis div_mult_mod_eq)
    moreover have "p div 8 < length bm" using assms by linarith
    moreover have "q < 8 * length bm"
      using assms True by (metis div_less_iff_less_mult mult.commute zero_less_numeral)
    ultimately show ?thesis using assms True by (auto simp: used_pages_iff bit_or_iff b simp del: push_bit_of_1)
  next
    case False
    then show ?thesis by (auto simp: used_pages_iff)
  qed
qed

lemma bit_0xFF: "bit (0xFF::u8) n \<longleftrightarrow> n < 8"
proof -
  have "(0xFF::u8) = mask 8" by (simp add: mask_eq_exp_minus_1)
  then show ?thesis by (simp only: bit_mask_iff) simp
qed

lemma bit_0xFF_mod [simp]: "bit (255::u8) (p mod 8)"
  using iffD2 [OF bit_0xFF, of "p mod 8"] mod_less_divisor [of 8 p] by (metis zero_less_numeral)

lemma used_pages_fill:
  assumes "a + k \<le> length bm"
  shows "used_pages (take a bm @ replicate k 0xFF @ drop (a + k) bm)
    = used_pages bm \<union> {8 * a ..< 8 * (a + k)}"
proof (rule set_eqI)
  fix p
  let ?bm = "take a bm @ replicate k 0xFF @ drop (a + k) bm"
  have len: "length ?bm = length bm" using assms by simp
  have "?bm ! (p div 8) = (if p div 8 < a then bm ! (p div 8) else
      if p div 8 < a + k then 0xFF else bm ! (p div 8))" if "p < 8 * length bm"
    using assms that by (auto simp: nth_append)
  moreover have "p div 8 < a \<longleftrightarrow> p < 8 * a" "p div 8 < a + k \<longleftrightarrow> p < 8 * (a + k)"
    by (auto simp: less_mult_imp_div_less div_less_iff_less_mult)
  moreover have "bit (0xFF::u8) (p mod 8)" by (rule bit_0xFF_mod)
  ultimately show "p \<in> used_pages ?bm \<longleftrightarrow> p \<in> used_pages bm \<union> {8 * a ..< 8 * (a + k)}"
    using assms by (auto simp: used_pages_iff len bit_0xFF split: if_splits)
qed

lemma byte_zero_iff: "b = (0::u8) \<longleftrightarrow> (\<forall>n<8. \<not> bit b n)"
  by (auto intro!: word_eq_bits)

lemma free_chunk_iff:
  assumes "a + k \<le> length bm"
  shows "list_all (\<lambda>b. b = 0) (take k (drop a bm)) \<longleftrightarrow> {8 * a ..< 8 * (a + k)} \<inter> used_pages bm = {}"
proof -
  have "list_all (\<lambda>b. b = 0) (take k (drop a bm)) \<longleftrightarrow> (\<forall>i<k. bm ! (a + i) = 0)"
    using assms by (simp add: list_all_length)
  also have "\<dots> \<longleftrightarrow> (\<forall>i<k. \<forall>n<8. \<not> bit (bm ! (a + i)) n)" by (simp add: byte_zero_iff)
  also have "\<dots> \<longleftrightarrow> (\<forall>p. 8 * a \<le> p \<and> p < 8 * (a + k) \<longrightarrow> \<not> bit (bm ! (p div 8)) (p mod 8))"
  proof (intro iffI allI impI)
    fix p assume *: "\<forall>i<k. \<forall>n<8. \<not> bit (bm ! (a + i)) n" "8 * a \<le> p \<and> p < 8 * (a + k)"
    have "p div 8 - a < k" "a + (p div 8 - a) = p div 8" using *(2) by auto
    then show "\<not> bit (bm ! (p div 8)) (p mod 8)" using *(1) by (metis mod_less_divisor zero_less_numeral)
  next
    fix i n :: nat
    assume *: "\<forall>p. 8 * a \<le> p \<and> p < 8 * (a + k) \<longrightarrow> \<not> bit (bm ! (p div 8)) (p mod 8)"
      and "i < k" "n < 8"
    then have "8 * a \<le> 8 * (a + i) + n" "8 * (a + i) + n < 8 * (a + k)"
      "(8 * (a + i) + n) div 8 = a + i"
      by auto
    moreover have "(8 * (a + i) + n) mod 8 = n"
      using \<open>n < 8\<close> by (metis add.commute mod_less mod_mult_self2)
    ultimately
    show "\<not> bit (bm ! (a + i)) n" using * by metis
  qed
  also have "\<dots> \<longleftrightarrow> {8 * a ..< 8 * (a + k)} \<inter> used_pages bm = {}"
    using assms by (auto simp: used_pages_iff)
  finally show ?thesis .
qed

lemma byte_and_bit: "(b :: u8) AND push_bit n 1 = 0 \<longleftrightarrow> \<not> bit b n \<or> 8 \<le> n"
proof -
  have "bit (b AND push_bit n 1) m \<longleftrightarrow> bit b n \<and> m = n \<and> n < 8" for m
    unfolding bit_and_iff bit_push_bit_1_byte by auto
  note b = this
  show ?thesis
  proof
    assume "b AND push_bit n 1 = 0"
    then show "\<not> bit b n \<or> 8 \<le> n" using b [of n] by auto
  next
    assume "\<not> bit b n \<or> 8 \<le> n"
    then show "b AND push_bit n 1 = 0" by (intro word_eq_bits) (use b in auto)
  qed
qed


subsection \<open>The loop computes the abstract allocator\<close>

text \<open>A bitmap of the size its allocator claims, whose number of bits leaves room for one chunk
  below \<open>2^64\<close>.\<close>

definition bitmap_ok :: "u64 \<Rightarrow> u8 list \<Rightarrow> bool" where
  "bitmap_ok bsz bm \<longleftrightarrow> length bm = unat bsz \<and> 8 * unat bsz + 64 < 2 ^ 64"

lemma bitmap_okD:
  assumes "bitmap_ok bsz bm"
  shows "unat (bsz * 8) = 8 * length bm" "8 * length bm + 64 < 2 ^ 64" "length bm = unat bsz"
  using assms unat_mult_lem [of bsz 8] by (auto simp: bitmap_ok_def)

lemma used_pages_bound: "used_pages bm \<subseteq> {..< 8 * length bm}"
  by (auto simp: used_pages_iff)

lemma align_cases: "unat ((page::u64) mod 8 mod 64) = unat page mod 8"
  by (simp add: unat_mod_distrib)

lemma try_chunk_align:
  assumes "unat page mod 8 \<noteq> 0"
  shows "try_chunk bsz bm page count pa = (False, bm, page, pa)"
proof -
  have gen: "w \<notin> {0, 32, 16, 16 * 3, 8, 8 * 3, 8 * 5, 8 * 7}"
    if "unat w < 8" "unat w \<noteq> 0" for w :: u64 using that by auto
  define w where "w = page mod 8 mod 64"
  have "w \<notin> {0, 32, 16, 16 * 3, 8, 8 * 3, 8 * 5, 8 * 7}"
    by (rule gen) (use assms in \<open>simp_all only: w_def align_cases mod_less_divisor zero_less_numeral
      not_False_eq_True\<close>)
  then show ?thesis unfolding try_chunk_def Let_def w_def [symmetric] by simp
qed

lemma try_chunk_refines:
  assumes ok: "bitmap_ok bsz bm" and "pa \<le> count" and "page < bsz * 8"
  shows "fst (try_chunk bsz bm page count pa)
      \<longleftrightarrow> chunk_taken (8 * length bm) (unat count) (unat page) (used_pages bm) (unat pa)"
    and "fst (try_chunk bsz bm page count pa) \<Longrightarrow>
      length (fst (snd (try_chunk bsz bm page count pa))) = length bm
      \<and> used_pages (fst (snd (try_chunk bsz bm page count pa))) = used_pages bm \<union> chunk_at (unat page)
      \<and> unat (fst (snd (snd (try_chunk bsz bm page count pa))) + 1) = unat page + 64
      \<and> unat (snd (snd (snd (try_chunk bsz bm page count pa)))) = unat pa + 64"
proof -
  note ok' = bitmap_okD [OF ok]
  have lt: "unat page < 8 * length bm" using \<open>page < bsz * 8\<close> ok' by (simp add: word_less_nat_alt)
  have p64: "unat (page + 64) = unat page + 64"
    using lt ok' unat_add_small [of page 64] by simp
  have c: "unat (count - pa) = unat count - unat pa" using \<open>pa \<le> count\<close> by (simp add: unat_sub)
  have d: "unat (page div 64) * unat ((64::u64) div 8) = 8 * (unat page div 64)"
    "unat (page div 64) * 8 = 8 * (unat page div 64)"
    by (simp_all add: unat_div)
  have k: "unat ((64::u64) div 8) = 8" by simp
  have r: "{8 * (8 * (unat page div 64)) ..< 8 * (8 * (unat page div 64) + 8)} = chunk_at (unat page)"
    by (auto simp: chunk_at_def)
  have aligned: "try_chunk bsz bm page count pa
      = alignedFreeCheckAdvanceAndMark 64 bsz bm page count pa" if "unat page mod 8 = 0"
  proof -
    have "page mod 8 mod 64 = 0" using that by (metis align_cases unat_eq_zero)
    then show ?thesis by (simp add: try_chunk_def)
  qed
  have b1: "page + 64 > bsz * 8 \<longleftrightarrow> \<not> unat page + 64 \<le> 8 * length bm"
    by (simp only: word_less_nat_alt p64 ok') auto
  have b2: "count - pa < 64 \<longleftrightarrow> \<not> 64 \<le> unat count - unat pa"
    by (simp only: word_less_nat_alt c) auto
  have fits: "8 * (unat page div 64) + 8 \<le> length bm"
    if "unat page + 64 \<le> 8 * length bm" using that by linarith
  note a = alignedFreeCheckAdvanceAndMark_def Let_def d k b1 b2
  show "fst (try_chunk bsz bm page count pa)
      \<longleftrightarrow> chunk_taken (8 * length bm) (unat count) (unat page) (used_pages bm) (unat pa)"
  proof (cases "unat page mod 8 = 0")
    case True
    show ?thesis
      using free_chunk_iff [OF fits] r
      by (auto simp: aligned [OF True] chunk_taken_def True a)
  next
    case False
    then show ?thesis by (simp add: try_chunk_align chunk_taken_def)
  qed
  assume taken: "fst (try_chunk bsz bm page count pa)"
  then have al: "unat page mod 8 = 0" using try_chunk_align by (metis fst_conv)
  have t: "unat page + 64 \<le> 8 * length bm" "64 \<le> unat count - unat pa"
    using taken by (auto simp: aligned [OF al] a split: if_splits)
  have pa64: "unat (pa + 64) = unat pa + 64"
    using t(2) unsigned_less [where 'a = nat, of count] unat_add_small [of pa 64] by simp
  have v: "try_chunk bsz bm page count pa = (True, take (8 * (unat page div 64)) bm @ replicate 8 0xFF
      @ drop (8 * (unat page div 64) + 8) bm, page + (64 - 1), pa + 64)"
    using taken by (auto simp: aligned [OF al] a split: if_splits)
  have "unat (page + (64 - 1) + 1) = unat page + 64" using p64 by (simp add: algebra_simps)
  then show "length (fst (snd (try_chunk bsz bm page count pa))) = length bm
      \<and> used_pages (fst (snd (try_chunk bsz bm page count pa))) = used_pages bm \<union> chunk_at (unat page)
      \<and> unat (fst (snd (snd (try_chunk bsz bm page count pa))) + 1) = unat page + 64
      \<and> unat (snd (snd (snd (try_chunk bsz bm page count pa)))) = unat pa + 64"
    using fits [OF t(1)] used_pages_fill [OF fits [OF t(1)]] r by (simp add: v pa64)
qed


text \<open>Each call of the loop ends, and computes the abstract allocator on the used pages.\<close>

definition alloc_agrees :: "u64 \<Rightarrow> u64 \<Rightarrow> u64 \<Rightarrow> u8 list \<Rightarrow> u64 \<Rightarrow> u64 \<Rightarrow> bool" where
  "alloc_agrees bsz count page bm pa low \<longleftrightarrow>
     (\<exists>bm' pa' low'. alloc_loop bsz count page bm pa low = Some (bm', pa', low')
       \<and> length bm' = length bm \<and> pa' \<le> count
       \<and> nalloc (8 * length bm) (unat count) (unat page) (used_pages bm) (unat pa) (unat low)
           = (used_pages bm', unat pa', unat low'))"

lemma alloc_loop_agrees:
  assumes "bitmap_ok bsz bm" "pa \<le> count"
  shows "alloc_agrees bsz count page bm pa low"
  using assms
proof (induction "8 * length bm - unat page" arbitrary: bm page pa rule: less_induct)
  case (less bm page pa)
  note ok = bitmap_okD [OF less.prems(1)]
  let ?N = "8 * length bm"
  let ?chunk = "try_chunk bsz bm page count pa"
  note L = alloc_loop.simps [of bsz count page bm pa low]
  note A = nalloc.simps [of ?N "unat count" "unat page" "used_pages bm" "unat pa" "unat low"]
  have lt: "page < bsz * 8 \<longleftrightarrow> unat page < ?N" by (simp add: word_less_nat_alt ok)
  consider (stop) "\<not> page < bsz * 8"
    | (chunk) "page < bsz * 8" "fst ?chunk"
    | (slow) "page < bsz * 8" "\<not> fst ?chunk" by blast
  then show ?case
  proof cases
    case stop
    then show ?thesis using L A less.prems lt by (simp add: alloc_agrees_def)
  next
    case chunk
    note r = try_chunk_refines [OF less.prems chunk(1)]
    obtain b bm' page' pa' where c: "?chunk = (b, bm', page', pa')" by (metis prod_cases4)
    have r': "length bm' = length bm" "used_pages bm' = used_pages bm \<union> chunk_at (unat page)"
      "unat (page' + 1) = unat page + 64" "unat pa' = unat pa + 64"
      using r(2) [OF chunk(2)] by (simp_all add: c)
    have t: "chunk_taken ?N (unat count) (unat page) (used_pages bm) (unat pa)"
      using r(1) chunk(2) by blast
    then have "64 \<le> unat count - unat pa" by (simp add: chunk_taken_def)
    then have "pa' \<le> count" unfolding word_le_nat_alt r' by linarith
    moreover have "bitmap_ok bsz bm'" using less.prems r' by (simp add: bitmap_ok_def)
    moreover have "8 * length bm' - unat (page' + 1) < ?N - unat page"
      using r' chunk(1) lt by simp
    ultimately have "alloc_agrees bsz count (page' + 1) bm' pa' low" using less.hyps by blast
    moreover have "alloc_loop bsz count page bm pa low = alloc_loop bsz count (page' + 1) bm' pa' low"
      using L chunk c by simp
    moreover have "nalloc ?N (unat count) (unat page) (used_pages bm) (unat pa) (unat low)
        = nalloc ?N (unat count) (unat page + 64) (used_pages bm \<union> chunk_at (unat page))
            (unat pa + 64) (unat low)"
      using A t chunk(1) lt by simp
    ultimately show ?thesis by (simp add: alloc_agrees_def r')
  next
    case slow
    have nt: "\<not> chunk_taken ?N (unat count) (unat page) (used_pages bm) (unat pa)"
      using try_chunk_refines(1) [OF less.prems slow(1)] slow(2) by blast
    have b: "bm ! unat (page div 8) AND push_bit (unat (page mod 8)) 1 = 0 \<longleftrightarrow> unat page \<notin> used_pages bm"
      using slow(1) lt
      by (simp only: byte_and_bit used_pages_iff unat_div unat_mod_distrib) auto
    have p1: "unat (page + 1) = unat page + 1" using slow(1) lt ok by (intro unat_Suc) simp
    have dec: "?N - unat (page + 1) < ?N - unat page" using slow(1) lt p1 by simp
    have eq: "count - pa = 0 \<longleftrightarrow> unat count = unat pa"
      by (metis right_minus_eq word_unat_eq_iff)
    consider (used) "unat page \<in> used_pages bm"
      | (full) "unat page \<notin> used_pages bm" "unat count = unat pa"
      | (mark) "unat page \<notin> used_pages bm" "unat count \<noteq> unat pa" by blast
    then show ?thesis
    proof cases
      case used
      then have u: "bm ! unat (page div 8) AND push_bit (unat (page mod 8)) 1 \<noteq> 0" using b by blast
      show ?thesis
      proof (cases "pa = 0")
        case True
        have "alloc_agrees bsz count (page + 1) bm pa low"
          using less.hyps [OF dec less.prems] .
        moreover have "alloc_loop bsz count page bm pa low = alloc_loop bsz count (page + 1) bm pa low"
          using L slow u True by (simp add: Let_def del: push_bit_of_1)
        moreover have "nalloc ?N (unat count) (unat page) (used_pages bm) (unat pa) (unat low)
            = nalloc ?N (unat count) (unat page + 1) (used_pages bm) (unat pa) (unat low)"
          using A nt slow(1) lt used True by simp
        ultimately show ?thesis by (simp add: alloc_agrees_def p1)
      next
        case False
        then have "alloc_loop bsz count page bm pa low = Some (bm, pa, low)"
          using L slow u by (simp add: Let_def del: push_bit_of_1)
        moreover have "unat pa \<noteq> 0" using False by (simp only: unat_eq_zero not_False_eq_True)
        then have "nalloc ?N (unat count) (unat page) (used_pages bm) (unat pa) (unat low)
            = (used_pages bm, unat pa, unat low)"
          using A nt slow(1) lt used by simp
        ultimately show ?thesis using less.prems by (simp add: alloc_agrees_def)
      qed
    next
      case full
      have "alloc_loop bsz count page bm pa low = Some (bm, pa, page)"
        using L slow b full eq by (simp add: Let_def del: push_bit_of_1)
      moreover have "nalloc ?N (unat count) (unat page) (used_pages bm) (unat pa) (unat low)
          = (used_pages bm, unat pa, unat page)"
        using A nt slow(1) lt full by simp
      ultimately show ?thesis using less.prems by (simp add: alloc_agrees_def)
    next
      case mark
      let ?byte = "unat (page div 8)" and ?bit = "unat (page mod 8)"
      let ?bm = "bm[?byte := bm ! ?byte OR push_bit ?bit 1]"
      have u: "used_pages ?bm = insert (unat page) (used_pages bm)"
        using used_pages_update [of "unat page" bm] slow(1) lt
        by (simp add: unat_div unat_mod_distrib del: push_bit_of_1)
      have "unat pa < unat count" using less.prems(2) mark(2) by (simp add: word_le_nat_alt)
      then have pa1: "unat (pa + 1) = unat pa + 1"
        using unsigned_less [where 'a = nat, of count] by (intro unat_Suc) simp
      have "pa + 1 \<le> count" using \<open>unat pa < unat count\<close> by (simp add: word_le_nat_alt pa1)
      then have "alloc_agrees bsz count (page + 1) ?bm (pa + 1) low"
        using less.hyps [of ?bm "page + 1" "pa + 1"] dec less.prems(1) by (simp add: bitmap_ok_def)
      moreover have "alloc_loop bsz count page bm pa low
          = alloc_loop bsz count (page + 1) ?bm (pa + 1) low"
        using L slow b mark eq by (simp add: Let_def del: push_bit_of_1)
      moreover have "nalloc ?N (unat count) (unat page) (used_pages bm) (unat pa) (unat low)
          = nalloc ?N (unat count) (unat page + 1) (insert (unat page) (used_pages bm)) (unat pa + 1)
              (unat low)"
        using A nt slow(1) lt mark by simp
      ultimately show ?thesis by (simp add: alloc_agrees_def p1 pa1 u del: push_bit_of_1)
    qed
  qed
qed


subsection \<open>What the abstract allocator takes\<close>

text \<open>The pages taken from \<open>page\<close> on: \<open>n\<close> of them, a run that starts at \<open>first\<close>, the first
  free page, unless part of the run has been taken already.\<close>

definition takes_run ::
  "nat \<Rightarrow> nat \<Rightarrow> nat \<Rightarrow> nat set \<Rightarrow> nat \<Rightarrow> nat \<Rightarrow> nat \<Rightarrow> nat \<Rightarrow> nat set \<times> nat \<times> nat \<Rightarrow> bool" where
  "takes_run N count page U pa low first n r \<longleftrightarrow>
     r = (U \<union> {first ..< first + n}, pa + n, if pa + n = count \<and> first + n < N \<and> first + n \<notin> U
          then first + n else low)
     \<and> page \<le> first \<and> {page ..< first} \<subseteq> U \<and> {first ..< first + n} \<inter> U = {}
     \<and> (pa > 0 \<longrightarrow> first = page) \<and> pa + n \<le> count
     \<and> (n > 0 \<longrightarrow> first + n \<le> N) \<and> (pa + n = 0 \<and> count > 0 \<longrightarrow> N \<le> first)
     \<and> (pa + n = count \<or> first + n \<ge> N \<or> first + n \<in> U)"

lemma chunk_at_boundary:
  assumes "{..< page} \<subseteq> U" "chunk_at page \<inter> U = {}"
  shows "chunk_at page = {page ..< page + 64}"
proof -
  have "64 * (page div 64) \<in> chunk_at page" by (simp add: chunk_at_def)
  then have "\<not> 64 * (page div 64) < page" using assms by blast
  then have "64 * (page div 64) = page" using div_times_less_eq_dividend [of page 64] by simp
  then show ?thesis by (simp add: chunk_at_def)
qed

lemma atLeastLessThan_join: "a \<le> b \<Longrightarrow> b \<le> c \<Longrightarrow> {a..<b} \<union> {b..<c} = {a..<(c::nat)}"
  by auto

lemma takes_run_extend:
  assumes r: "takes_run N count (page + k) (U \<union> {page ..< page + k}) (pa + k) low first n r"
    and k: "0 < k" "page + k \<le> N" "{page ..< page + k} \<inter> U = {}"
  shows "takes_run N count page U pa low page (k + n) r"
proof -
  have f: "first = page + k" using r k by (simp add: takes_run_def)
  have "{page ..< page + (k + n)} = {page ..< page + k} \<union> {page + k ..< page + k + n}"
    by (simp add: atLeastLessThan_join add.assoc)
  then show ?thesis using r k by (auto simp: takes_run_def f add.assoc)
qed

lemma takes_run_skip:
  assumes "takes_run N count (page + 1) U 0 low first n r" "page \<in> U"
  shows "takes_run N count page U 0 low first n r"
proof -
  have "{page ..< first} \<subseteq> U" if "{page + 1 ..< first} \<subseteq> U"
  proof
    fix x assume "x \<in> {page ..< first}"
    then show "x \<in> U" using assms(2) that by (cases "x = page") auto
  qed
  then show ?thesis using assms by (auto simp: takes_run_def)
qed

lemma nalloc_takes_run:
  assumes "pa \<le> count" "{..< page} \<inter> {..< N} \<subseteq> U" "U \<subseteq> {..< N}"
  shows "\<exists>first n. takes_run N count page U pa low first n (nalloc N count page U pa low)"
  using assms
proof (induction N count page U pa low rule: nalloc.induct)
  case (1 N count page U pa low)
  note A = nalloc.simps [of N count page U pa low]
  consider (stop) "\<not> page < N"
    | (chunk) "page < N" "chunk_taken N count page U pa"
    | (used) "page < N" "\<not> chunk_taken N count page U pa" "page \<in> U"
    | (full) "page < N" "\<not> chunk_taken N count page U pa" "page \<notin> U" "count = pa"
    | (mark) "page < N" "\<not> chunk_taken N count page U pa" "page \<notin> U" "count \<noteq> pa" by blast
  then show ?case
  proof cases
    case stop
    then have "takes_run N count page U pa low page 0 (nalloc N count page U pa low)"
      using A 1 by (auto simp: takes_run_def)
    then show ?thesis by blast
  next
    case chunk
    have below: "{..< page} \<subseteq> U" using 1 chunk(1) by auto
    have c: "chunk_at page = {page ..< page + 64}" "page + 64 \<le> N" "64 \<le> count - pa"
      "chunk_at page \<inter> U = {}"
      using chunk chunk_at_boundary [OF below] by (auto simp: chunk_taken_def)
    have "{..< page + 64} \<inter> {..< N} \<subseteq> U \<union> chunk_at page" using below c by auto
    moreover have "U \<union> chunk_at page \<subseteq> {..< N}" "pa + 64 \<le> count" using 1 c by auto
    ultimately obtain first n where
      "takes_run N count (page + 64) (U \<union> chunk_at page) (pa + 64) low first n
        (nalloc N count (page + 64) (U \<union> chunk_at page) (pa + 64) low)"
      using 1(1) chunk by blast
    then have "takes_run N count page U pa low page (64 + n) (nalloc N count page U pa low)"
      using A chunk c takes_run_extend [of N count page 64 U pa low first n] by simp
    then show ?thesis by blast
  next
    case used
    show ?thesis
    proof (cases "pa = 0")
      case True
      have "{..< page + 1} \<inter> {..< N} \<subseteq> U" using 1 used by (auto simp: less_Suc_eq)
      then obtain first n where
        "takes_run N count (page + 1) U pa low first n (nalloc N count (page + 1) U pa low)"
        using 1 used True by blast
      then have "takes_run N count page U pa low first n (nalloc N count page U pa low)"
        using A used True takes_run_skip by simp
      then show ?thesis by blast
    next
      case False
      then have "takes_run N count page U pa low page 0 (nalloc N count page U pa low)"
        using A used 1 by (auto simp: takes_run_def)
      then show ?thesis by blast
    qed
  next
    case full
    then have "takes_run N count page U pa low page 0 (nalloc N count page U pa low)"
      using A 1 by (auto simp: takes_run_def)
    then show ?thesis by blast
  next
    case mark
    have "{..< page + 1} \<inter> {..< N} \<subseteq> insert page U" "insert page U \<subseteq> {..< N}" "pa + 1 \<le> count"
      using 1 mark by (auto simp: less_Suc_eq)
    then obtain first n where
      "takes_run N count (page + 1) (insert page U) (pa + 1) low first n
        (nalloc N count (page + 1) (insert page U) (pa + 1) low)"
      using 1(3) mark by blast
    moreover have "insert page U = U \<union> {page ..< page + 1}" by auto
    moreover have "nalloc N count page U pa low = nalloc N count (page + 1) (insert page U) (pa + 1) low"
      using A mark by simp
    ultimately have "takes_run N count (page + 1) (U \<union> {page ..< page + 1}) (pa + 1) low first n
      (nalloc N count page U pa low)" by metis
    then have "takes_run N count page U pa low page (1 + n) (nalloc N count page U pa low)"
      by (rule takes_run_extend) (use mark in auto)
    then show ?thesis by blast
  qed
qed


subsection \<open>The allocator's operations\<close>

abbreviation pa_used :: "phys_alloc \<Rightarrow> nat set" where
  "pa_used s \<equiv> used_pages (pa_bitmap s)"

abbreviation pa_pages :: "phys_alloc \<Rightarrow> nat" where
  "pa_pages s \<equiv> 8 * length (pa_bitmap s)"

text \<open>The invariant: the bitmap has its size, and no page below \<open>lowestFreePage_\<close> is free.\<close>

definition pa_inv :: "phys_alloc \<Rightarrow> bool" where
  "pa_inv s \<longleftrightarrow> bitmap_ok (pa_bitmapSize s) (pa_bitmap s)
     \<and> {..< unat (pa_lowestFreePage s)} \<inter> {..< pa_pages s} \<subseteq> pa_used s"

definition alloc_result :: "phys_alloc \<Rightarrow> nat \<Rightarrow> PageSet StatusOr" where
  "alloc_result s n =
     (if n = 0 then StatusOr_status OutOfMemory
      else StatusOr_item \<lparr>ps_pageSize = kPageSize, ps_address = pa_lowestFreePage s * kPageSize,
             ps_count = of_nat n\<rparr>)"

lemma alloc_loop_takes_run:
  assumes "pa_inv s"
  obtains bm' n low' first where
    "alloc_loop (pa_bitmapSize s) count (pa_lowestFreePage s) (pa_bitmap s) 0 (pa_lowestFreePage s)
       = Some (bm', of_nat n, low')"
    "length bm' = length (pa_bitmap s)" "n \<le> unat count"
    "takes_run (pa_pages s) (unat count) (unat (pa_lowestFreePage s)) (pa_used s) 0
       (unat (pa_lowestFreePage s)) first n (used_pages bm', n, unat low')"
proof -
  have ok: "bitmap_ok (pa_bitmapSize s) (pa_bitmap s)" using assms by (simp add: pa_inv_def)
  obtain bm' pa' low' where l:
    "alloc_loop (pa_bitmapSize s) count (pa_lowestFreePage s) (pa_bitmap s) 0 (pa_lowestFreePage s)
       = Some (bm', pa', low')" "length bm' = length (pa_bitmap s)" "pa' \<le> count"
    and a: "nalloc (pa_pages s) (unat count) (unat (pa_lowestFreePage s)) (pa_used s) 0
      (unat (pa_lowestFreePage s)) = (used_pages bm', unat pa', unat low')"
    using alloc_loop_agrees [OF ok, of 0 count "pa_lowestFreePage s" "pa_lowestFreePage s"]
    by (auto simp: alloc_agrees_def)
  obtain first n where t: "takes_run (pa_pages s) (unat count) (unat (pa_lowestFreePage s)) (pa_used s) 0
      (unat (pa_lowestFreePage s)) first n (used_pages bm', unat pa', unat low')"
    using nalloc_takes_run [of 0 "unat count" "unat (pa_lowestFreePage s)" "pa_pages s" "pa_used s"
        "unat (pa_lowestFreePage s)"] assms a used_pages_bound [of "pa_bitmap s"]
    by (auto simp: pa_inv_def)
  then have n: "n = unat pa'" by (simp add: takes_run_def)
  show ?thesis
    by (rule that [of bm' n low' first]) (use l t n in \<open>simp_all add: word_le_nat_alt\<close>)
qed

text \<open>What a call takes: the longest run of at most \<open>count\<close> free pages that starts at the first
  free page.\<close>

definition marks_run :: "phys_alloc \<Rightarrow> nat \<Rightarrow> phys_alloc \<Rightarrow> nat \<Rightarrow> nat \<Rightarrow> bool" where
  "marks_run s count s' first n \<longleftrightarrow>
     {..< first} \<inter> {..< pa_pages s} \<subseteq> pa_used s
     \<and> n \<le> count \<and> {first ..< first + n} \<inter> pa_used s = {} \<and> (n > 0 \<longrightarrow> first + n \<le> pa_pages s)
     \<and> (n = count \<or> first + n \<ge> pa_pages s \<or> first + n \<in> pa_used s)
     \<and> pa_used s' = pa_used s \<union> {first ..< first + n} \<and> pa_pages s' = pa_pages s"

lemma allocatePages_run:
  assumes "pa_inv s" "pa_status s = Ok" "count \<noteq> 0"
  obtains s' first n where
    "allocatePages s count = Some (alloc_result s n, s')" "pa_inv s'" "pa_status s' = Ok"
    "marks_run s (unat count) s' first n" "n = 0 \<longleftrightarrow> {..< pa_pages s} \<subseteq> pa_used s"
    "0 < n \<Longrightarrow> unat (pa_lowestFreePage s') =
       (if n = unat count \<and> first + n < pa_pages s \<and> first + n \<notin> pa_used s then first + n
        else unat (pa_lowestFreePage s))"
proof -
  obtain bm' n low' first where l:
    "alloc_loop (pa_bitmapSize s) count (pa_lowestFreePage s) (pa_bitmap s) 0 (pa_lowestFreePage s)
       = Some (bm', of_nat n, low')"
    "length bm' = length (pa_bitmap s)" "n \<le> unat count"
    and t: "takes_run (pa_pages s) (unat count) (unat (pa_lowestFreePage s)) (pa_used s) 0
       (unat (pa_lowestFreePage s)) first n (used_pages bm', n, unat low')"
    using alloc_loop_takes_run [OF assms(1)] by blast
  have count: "0 < unat count" using assms(3) by (simp add: unat_gt_0)
  have "unat (of_nat n :: u64) = n"
    by (rule unat_of_nat_small) (use l(3) unsigned_less [where 'a = nat, of count] in simp)
  then have n0: "of_nat n = (0::u64) \<longleftrightarrow> n = 0" by (metis unat_eq_zero)
  define s' where "s' = s\<lparr>pa_bitmap := bm', pa_lowestFreePage :=
      (if n = 0 then pa_bitmapSize s * 8 else low')\<rparr>"
  have res: "allocatePages s count = Some (alloc_result s n, s')"
    using assms l n0 by (simp add: allocatePages_def Let_def alloc_result_def s'_def)
  let ?low = "unat (pa_lowestFreePage s)"
  have T: "used_pages bm' = pa_used s \<union> {first ..< first + n}"
    "unat low' = (if n = unat count \<and> first + n < pa_pages s \<and> first + n \<notin> pa_used s then first + n
       else ?low)"
    "{?low ..< first} \<subseteq> pa_used s" "{first ..< first + n} \<inter> pa_used s = {}"
    "n > 0 \<longrightarrow> first + n \<le> pa_pages s" "n = 0 \<longrightarrow> pa_pages s \<le> first"
    "n = unat count \<or> first + n \<ge> pa_pages s \<or> first + n \<in> pa_used s"
    using t count unfolding takes_run_def by simp_all
  have inv0: "{..< ?low} \<inter> {..< pa_pages s} \<subseteq> pa_used s" using assms(1) by (simp add: pa_inv_def)
  have below: "{..< first} \<inter> {..< pa_pages s} \<subseteq> pa_used s"
  proof
    fix x assume x: "x \<in> {..< first} \<inter> {..< pa_pages s}"
    show "x \<in> pa_used s"
    proof (cases "x < ?low")
      case True
      then show ?thesis using inv0 x by blast
    next
      case False
      then have "x \<in> {?low ..< first}" using x by simp
      then show ?thesis using T(3) by blast
    qed
  qed
  have bm: "bitmap_ok (pa_bitmapSize s) bm'" using assms(1) l by (simp add: pa_inv_def bitmap_ok_def)
  have none: "{..< pa_pages s} \<subseteq> pa_used s" if "n = 0"
    using below T(6) that by fastforce
  have some: "\<not> {..< pa_pages s} \<subseteq> pa_used s" if "n > 0"
  proof -
    have "first \<in> {first ..< first + n}" "first \<in> {..< pa_pages s}" using T(5) that by simp_all
    then show ?thesis using T(4) by blast
  qed
  have inv: "pa_inv s'"
  proof -
    have "{..< unat low'} \<inter> {..< pa_pages s} \<subseteq> used_pages bm'"
    proof (cases "n = unat count \<and> first + n < pa_pages s \<and> first + n \<notin> pa_used s")
      case True
      then have low': "unat low' = first + n" using T(2) by metis
      have "{..< first + n} = {..< first} \<union> {first ..< first + n}" by auto
      then show ?thesis using below unfolding low' T(1) by blast
    next
      case False
      then have low': "unat low' = ?low" using T(2) by metis
      then show ?thesis using inv0 unfolding low' T(1) by blast
    qed
    then show ?thesis using bm l none T(1) by (cases "n = 0") (auto simp: pa_inv_def s'_def)
  qed
  have f: "pa_status s' = Ok" "pa_pages s' = pa_pages s" "pa_used s' = pa_used s \<union> {first ..< first + n}"
    using assms(2) l(2) T(1) by (simp_all add: s'_def)
  have g: "{first ..< first + n} \<inter> pa_used s = {}" "n > 0 \<longrightarrow> first + n \<le> pa_pages s"
    "n = unat count \<or> first + n \<ge> pa_pages s \<or> first + n \<in> pa_used s"
    using T by blast+
  show ?thesis
    by (rule that [of n s' first])
      (use res inv f g l(3) below none some T(2) in \<open>simp_all add: marks_run_def s'_def, blast\<close>)
qed

text \<open>Before \<open>init\<close> succeeds, and for no pages, the allocator only reports an error.\<close>

lemma allocatePages_error:
  assumes "pa_status s \<noteq> Ok \<or> count = 0"
  shows "allocatePages s count
    = Some (StatusOr_status (if pa_status s \<noteq> Ok then InitializationError else OutOfRange), s)"
  using assms by (simp add: allocatePages_def)

lemma allocatePage_run:
  assumes "pa_inv s" "pa_status s = Ok"
  obtains s' p where
    "allocatePage s = Some (if {..< pa_pages s} \<subseteq> pa_used s then StatusOr_status OutOfMemory
       else StatusOr_item (pa_lowestFreePage s * kPageSize), s')"
    "pa_inv s'" "pa_status s' = Ok" "pa_pages s' = pa_pages s"
    "pa_used s' = (if {..< pa_pages s} \<subseteq> pa_used s then pa_used s else insert p (pa_used s))"
    "\<not> {..< pa_pages s} \<subseteq> pa_used s \<Longrightarrow> p < pa_pages s \<and> p \<notin> pa_used s \<and> {..< p} \<subseteq> pa_used s"
    "\<not> {..< pa_pages s} \<subseteq> pa_used s \<Longrightarrow> p + 1 \<in> pa_used s \<Longrightarrow>
      pa_lowestFreePage s' = pa_lowestFreePage s"
proof -
  have one: "(1::u64) \<noteq> 0" "unat (1::u64) = 1" by simp_all
  obtain s' first n where r: "allocatePages s 1 = Some (alloc_result s n, s')" "pa_inv s'"
    "pa_status s' = Ok" and m: "marks_run s 1 s' first n"
    and n: "n = 0 \<longleftrightarrow> {..< pa_pages s} \<subseteq> pa_used s"
    and l: "0 < n \<Longrightarrow> unat (pa_lowestFreePage s') =
       (if n = 1 \<and> first + n < pa_pages s \<and> first + n \<notin> pa_used s then first + n
        else unat (pa_lowestFreePage s))"
    by (rule allocatePages_run [OF assms one(1)]) (simp only: one(2))
  have n1: "n = (if {..< pa_pages s} \<subseteq> pa_used s then 0 else 1)"
    using n m by (auto simp: marks_run_def)
  have u: "pa_used s' = (if {..< pa_pages s} \<subseteq> pa_used s then pa_used s else insert first (pa_used s))"
    using m n1 by (auto simp: marks_run_def)
  have f: "first < pa_pages s \<and> first \<notin> pa_used s \<and> {..< first} \<subseteq> pa_used s"
    if "\<not> {..< pa_pages s} \<subseteq> pa_used s"
  proof -
    have "n = 1" using n1 that by simp
    then have *: "first + 1 \<le> pa_pages s" "{first ..< first + 1} \<inter> pa_used s = {}"
      "{..< first} \<inter> {..< pa_pages s} \<subseteq> pa_used s" using m by (simp_all add: marks_run_def)
    then have "{..< first} \<inter> {..< pa_pages s} = {..< first}" by auto
    then show ?thesis using * by auto
  qed
  have "map_or ps_address (alloc_result s n)
      = Some (if {..< pa_pages s} \<subseteq> pa_used s then StatusOr_status OutOfMemory
       else StatusOr_item (pa_lowestFreePage s * kPageSize))"
    using n1 by (simp add: alloc_result_def)
  moreover have "pa_lowestFreePage s' = pa_lowestFreePage s"
    if "\<not> {..< pa_pages s} \<subseteq> pa_used s" "first + 1 \<in> pa_used s"
    using l n1 that by (simp add: word_unat_eq_iff)
  ultimately show ?thesis
    by (intro that [of s' first])
      (use r m u f in \<open>simp_all add: allocatePage_def marks_run_def\<close>)
qed

subsection \<open>Marking free ranges\<close>

lemma set_bits_loop_bits:
  assumes "currentPage < endPage"
  shows "\<exists>m p. set_bits_loop byteMask currentPage endPage = (m, p)
    \<and> unat p = min (unat endPage) (8 * (unat currentPage div 8) + 8)
    \<and> (\<forall>n<8. bit m n \<longleftrightarrow> bit byteMask n
          \<or> unat currentPage mod 8 \<le> n \<and> 8 * (unat currentPage div 8) + n < unat endPage)"
  using assms
proof (induction byteMask currentPage endPage rule: set_bits_loop.induct)
  case (1 byteMask currentPage endPage)
  let ?c = "unat currentPage"
  have c1: "unat (currentPage + 1) = ?c + 1"
    using 1(2) unsigned_less [where 'a = nat, of endPage]
    by (intro unat_Suc) (simp add: word_less_nat_alt)
  have m: "unat (y mod 8) = unat y mod 8" for y :: u64 by (simp add: unat_mod_distrib)
  have m0: "(currentPage + 1) mod 8 = 0 \<longleftrightarrow> (?c + 1) mod 8 = 0"
    by (metis c1 m unat_eq_zero)
  have lt: "currentPage + 1 < endPage \<longleftrightarrow> ?c + 1 < unat endPage"
    by (simp add: word_less_nat_alt c1)
  have cl: "?c < unat endPage" using 1(2) by (simp add: word_less_nat_alt)
  let ?m = "byteMask OR push_bit (unat (currentPage mod 8)) 1"
  have bit_m: "bit ?m n \<longleftrightarrow> bit byteMask n \<or> n = ?c mod 8" for n
    unfolding bit_or_iff bit_push_bit_1_byte m by auto
  note S = set_bits_loop.simps [of byteMask currentPage endPage]
  show ?case
  proof (cases "(currentPage + 1) mod 8 \<noteq> 0 \<and> currentPage + 1 < endPage")
    case True
    then obtain m' p where r: "set_bits_loop ?m (currentPage + 1) endPage = (m', p)"
      "unat p = min (unat endPage) (8 * ((?c + 1) div 8) + 8)"
      "\<forall>n<8. bit m' n \<longleftrightarrow> bit ?m n \<or> (?c + 1) mod 8 \<le> n \<and> 8 * ((?c + 1) div 8) + n < unat endPage"
      using 1(1) [OF refl refl refl True] c1 by (metis conjunct2)
    have d: "(?c + 1) div 8 = ?c div 8" "(?c + 1) mod 8 = ?c mod 8 + 1"
      using True m0 by (auto simp: mod_Suc div_Suc split: if_splits)
    have "8 * (?c div 8) + ?c mod 8 = ?c" by simp
    then have "bit m' n \<longleftrightarrow> bit byteMask n \<or> ?c mod 8 \<le> n \<and> 8 * (?c div 8) + n < unat endPage"
      if "n < 8" for n
      using r(3) that bit_m [of n] cl unfolding d by (cases "n = ?c mod 8") auto
    then show ?thesis using r S True d by (simp add: Let_def del: push_bit_of_1)
  next
    case False
    then have "(?c + 1) mod 8 = 0 \<or> unat endPage = ?c + 1" using m0 lt cl by linarith
    then have e: "?c mod 8 = 7 \<or> unat endPage = ?c + 1" by (auto simp: mod_Suc split: if_splits)
    have l8: "?c mod 8 < 8" by simp
    have q: "8 * (?c div 8) + ?c mod 8 = ?c" by simp
    have "unat (currentPage + 1) = min (unat endPage) (8 * (?c div 8) + 8)"
      unfolding c1 min_def using e q cl l8 by (split if_split, intro conjI impI; linarith)
    moreover have "?c mod 8 \<le> n \<and> 8 * (?c div 8) + n < unat endPage \<longleftrightarrow> n = ?c mod 8" if "n < 8" for n
      using e q cl that l8 by linarith
    ultimately show ?thesis using S False bit_m by (simp add: Let_def del: push_bit_of_1)
  qed
qed


lemma diff_interval_join:
  "a \<le> b \<Longrightarrow> b \<le> c \<Longrightarrow> X - {a..<b} - {b..<c} = X - {a..<(c::nat)}"
  by auto

lemma makeUnsetBitsMask_bits:
  assumes "currentPage \<le> endPage"
  obtains m p where "makeUnsetBitsMask currentPage endPage = (m, p)"
    "unat p = min (unat endPage) (8 * (unat currentPage div 8) + 8)"
    "\<And>n. n < 8 \<Longrightarrow> bit m n \<longleftrightarrow> \<not> (unat currentPage mod 8 \<le> n
       \<and> 8 * (unat currentPage div 8) + n < unat endPage)"
proof (cases "currentPage < endPage")
  case True
  obtain m p where r: "set_bits_loop 0 currentPage endPage = (m, p)"
    "unat p = min (unat endPage) (8 * (unat currentPage div 8) + 8)"
    "\<forall>n<8. bit m n \<longleftrightarrow> unat currentPage mod 8 \<le> n \<and> 8 * (unat currentPage div 8) + n < unat endPage"
    using set_bits_loop_bits [OF True, of 0] by auto
  have mk: "makeUnsetBitsMask currentPage endPage = (NOT m, p)"
    using r(1) iffD2 [OF linorder_not_le True] by (simp add: makeUnsetBitsMask_def makeSetBitsMask_def)
  show ?thesis by (rule that [OF mk r(2)]) (use r(3) in \<open>simp add: bit_not_iff\<close>)
next
  case False
  then have e: "endPage = currentPage" using assms by simp
  have "unat currentPage = min (unat endPage) (8 * (unat currentPage div 8) + 8)"
    unfolding e min_def by (split if_split) presburger
  moreover have "bit (NOT 0 :: u8) n \<longleftrightarrow> \<not> (unat currentPage mod 8 \<le> n
       \<and> 8 * (unat currentPage div 8) + n < unat endPage)" if "n < 8" for n
    using that div_mult_mod_eq [of "unat currentPage" 8]
    unfolding e bit_not_iff by (simp, linarith)
  ultimately show ?thesis
    by (intro that [of "NOT 0" currentPage]) (simp_all add: makeUnsetBitsMask_def makeSetBitsMask_def e)
qed

lemma and_byte_used:
  assumes m: "\<And>n. n < 8 \<Longrightarrow> bit m n \<longleftrightarrow> \<not> (c mod 8 \<le> n \<and> 8 * (c div 8) + n < e)"
    and i: "unat i = c div 8" "c < 8 * length bm"
  shows "\<exists>bm'. and_byte bm i m = Some bm' \<and> length bm' = length bm
    \<and> used_pages bm' = used_pages bm - {c ..< min e (8 * (c div 8) + 8)}"
proof -
  have l: "c div 8 < length bm" using i(2) by linarith
  let ?bm = "bm[c div 8 := bm ! (c div 8) AND m]"
  have "q \<in> used_pages ?bm \<longleftrightarrow> q \<in> used_pages bm - {c ..< min e (8 * (c div 8) + 8)}" for q
  proof (cases "q div 8 = c div 8")
    case True
    have e: "q = 8 * (q div 8) + q mod 8" "c = 8 * (q div 8) + c mod 8"
      using True div_mult_mod_eq [of q 8] div_mult_mod_eq [of c 8] by linarith+
    have l8: "q mod 8 < 8" by simp
    have "bit m (q mod 8) \<longleftrightarrow> \<not> (c \<le> q \<and> q < e)"
      unfolding m [OF l8] True [symmetric] using e by linarith
    moreover have "q < 8 * (c div 8) + 8" using True by linarith
    ultimately show ?thesis using l True by (auto simp: used_pages_iff bit_and_iff)
  next
    case False
    then have "q \<notin> {c ..< min e (8 * (c div 8) + 8)}" by auto
    then show ?thesis using False by (auto simp: used_pages_iff)
  qed
  then have "used_pages ?bm = used_pages bm - {c ..< min e (8 * (c div 8) + 8)}" by blast
  then show ?thesis using i l by (simp add: and_byte_def)
qed

lemma put_byte_zero_used:
  assumes "unat i = k" "k < length bm"
  shows "\<exists>bm'. put_byte bm i 0 = Some bm' \<and> length bm' = length bm
    \<and> used_pages bm' = used_pages bm - {8 * k ..< 8 * k + 8}"
proof -
  have "q \<in> used_pages (bm[k := 0]) \<longleftrightarrow> q \<in> used_pages bm - {8 * k ..< 8 * k + 8}" for q
    using assms(2) by (cases "q div 8 = k") (auto simp: used_pages_iff)
  then have "used_pages (bm[k := 0]) = used_pages bm - {8 * k ..< 8 * k + 8}" by blast
  then show ?thesis using assms by (simp add: put_byte_def)
qed

lemma clear_bytes_used:
  assumes "unat currentPage mod 8 = 0" "unat currentPage \<le> unat endPage"
    "unat endPage \<le> 8 * length bm" "8 * length bm + 64 < 2 ^ 64"
  shows "\<exists>bm' c. clear_bytes bm currentPage endPage = Some (bm', c) \<and> length bm' = length bm
    \<and> unat c = 8 * (unat endPage div 8)
    \<and> used_pages bm' = used_pages bm - {unat currentPage ..< unat c}"
  using assms
proof (induction "unat endPage - unat currentPage" arbitrary: currentPage bm rule: less_induct)
  case less
  let ?c = "unat currentPage"
  have c8: "unat (currentPage + 8) = ?c + 8" using less.prems unat_add_small [of currentPage 8] by simp
  have le: "currentPage + 8 \<le> endPage \<longleftrightarrow> ?c + 8 \<le> unat endPage" by (simp add: word_le_nat_alt c8)
  have k: "unat (currentPage div 8) = ?c div 8" "8 * (?c div 8) = ?c"
    using less.prems(1) by (auto simp: unat_div)
  note S = clear_bytes.simps [of bm currentPage endPage]
  show ?case
  proof (cases "?c + 8 \<le> unat endPage")
    case True
    then have "?c div 8 < length bm" using less.prems(3) by linarith
    then obtain bm1 where b: "put_byte bm (currentPage div 8) 0 = Some bm1" "length bm1 = length bm"
      "used_pages bm1 = used_pages bm - {8 * (?c div 8) ..< 8 * (?c div 8) + 8}"
      using put_byte_zero_used [OF k(1)] by blast
    have dec: "unat endPage - unat (currentPage + 8) < unat endPage - ?c" using True c8 by simp
    have pre: "unat (currentPage + 8) mod 8 = 0" "unat (currentPage + 8) \<le> unat endPage"
      "unat endPage \<le> 8 * length bm1" "8 * length bm1 + 64 < 2 ^ 64"
      unfolding c8 b(2) using True less.prems by simp_all
    obtain bm' c where r: "clear_bytes bm1 (currentPage + 8) endPage = Some (bm', c)"
      "length bm' = length bm1" "unat c = 8 * (unat endPage div 8)"
      "used_pages bm' = used_pages bm1 - {?c + 8 ..< unat c}"
      using less.hyps [OF dec pre] unfolding c8 by (elim exE conjE)
    have "?c div 8 + 1 \<le> unat endPage div 8" using div_le_mono [OF True, of 8] by simp
    then have "?c + 8 \<le> unat c" unfolding r(3) using k(2) by linarith
    then have "used_pages bm' = used_pages bm - {?c ..< unat c}"
      unfolding r(4) b(3) k(2) by (simp add: diff_interval_join)
    then show ?thesis using S True le b(1,2) r(1-3) by simp
  next
    case False
    have "unat endPage div 8 = ?c div 8"
      by (rule div_nat_eqI, unfold mult_Suc_right k(2)) (use False less.prems(2) in linarith)+
    then have "8 * (unat endPage div 8) = ?c" using k(2) by simp
    then show ?thesis using S False le by simp
  qed
qed


lemma word_mod_8: "w mod 8 = 0 \<longleftrightarrow> unat w mod 8 = 0" "unat (w div 8) = unat w div 8" for w :: u64
  by (simp_all add: unat_div flip: unat_eq_zero) (simp_all add: unat_mod_distrib)

lemma mark_first_used:
  assumes "s \<le> e" "unat e \<le> 8 * length bm"
  obtains bm1 p where "mark_first bm s e = Some (bm1, p)" "length bm1 = length bm"
    "unat s \<le> unat p" "unat p \<le> unat e" "unat p mod 8 = 0 \<or> unat p = unat e"
    "used_pages bm1 = used_pages bm - {unat s ..< unat p}"
proof (cases "s mod 8 = 0")
  case True
  then have "mark_first bm s e = Some (bm, s)" by (simp add: mark_first_def)
  then show ?thesis
    by (rule that) (use assms True in \<open>simp_all add: word_mod_8(1) word_le_nat_alt\<close>)
next
  case False
  obtain m p where m: "makeUnsetBitsMask s e = (m, p)"
    "unat p = min (unat e) (8 * (unat s div 8) + 8)"
    "\<And>n. n < 8 \<Longrightarrow> bit m n \<longleftrightarrow> \<not> (unat s mod 8 \<le> n \<and> 8 * (unat s div 8) + n < unat e)"
    using makeUnsetBitsMask_bits [OF assms(1)] by metis
  have le: "unat s \<le> unat e" using assms(1) by (simp add: word_le_nat_alt)
  have "unat s mod 8 \<noteq> 0" using False by (simp only: word_mod_8(1) not_False_eq_True)
  then have "unat s < 8 * length bm" using assms(2) le by presburger
  then obtain bm1 where b: "and_byte bm (s div 8) m = Some bm1" "length bm1 = length bm"
    "used_pages bm1 = used_pages bm - {unat s ..< unat p}"
    using and_byte_used [of m "unat s" "unat e" "s div 8" bm] m(2,3) word_mod_8(2) by auto
  have f: "mark_first bm s e = Some (bm1, p)" using False m(1) b(1) by (simp add: mark_first_def)
  have "unat s \<le> 8 * (unat s div 8) + 8" by presburger
  then have "unat s \<le> unat p" "unat p \<le> unat e" "unat p mod 8 = 0 \<or> unat p = unat e"
    using le m(2) by (simp_all add: min_def)
  then show ?thesis using that f b(2,3) by metis
qed

lemma clear_bytes_rest:
  assumes "unat p mod 8 = 0 \<or> unat p = unat e" "unat p \<le> unat e"
    and fits: "unat e \<le> 8 * length bm" "8 * length bm + 64 < 2 ^ 64"
  obtains bm' c where "clear_bytes bm p e = Some (bm', c)" "length bm' = length bm"
    "unat p \<le> unat c" "unat c \<le> unat e" "unat c mod 8 = 0 \<and> unat e < unat c + 8 \<or> unat c = unat e"
    "used_pages bm' = used_pages bm - {unat p ..< unat c}"
proof (cases "unat p mod 8 = 0")
  case True
  obtain bm' c where r: "clear_bytes bm p e = Some (bm', c)" "length bm' = length bm"
    "unat c = 8 * (unat e div 8)" "used_pages bm' = used_pages bm - {unat p ..< unat c}"
    using clear_bytes_used [OF True assms(2) fits] by metis
  have "unat p \<le> unat c" "unat c \<le> unat e" "unat c mod 8 = 0 \<and> unat e < unat c + 8 \<or> unat c = unat e"
    unfolding r(3) using True assms(2) by presburger+
  then show ?thesis using that r(1,2,4) by metis
next
  case False
  then have p: "unat p = unat e" using assms(1) by simp
  then have "unat (p + 8) = unat e + 8" using unat_add_small [of p 8] fits by simp
  then have "\<not> p + 8 \<le> e" by (simp add: word_le_nat_alt)
  then have "clear_bytes bm p e = Some (bm, p)" by (simp add: clear_bytes.simps [of bm p e])
  then show ?thesis by (rule that) (use p in simp_all)
qed

lemma mark_last_used:
  assumes "unat c mod 8 = 0 \<and> unat e < unat c + 8 \<or> unat c = unat e" "unat c \<le> unat e"
    "unat e \<le> 8 * length bm"
  obtains bm' where "mark_last bm c e = Some bm'" "length bm' = length bm"
    "used_pages bm' = used_pages bm - {unat c ..< unat e}"
proof (cases "c < e")
  case True
  have lt: "unat c < unat e" using True by (simp add: word_less_nat_alt)
  obtain m q where m: "makeUnsetBitsMask c e = (m, q)"
    "\<And>n. n < 8 \<Longrightarrow> bit m n \<longleftrightarrow> \<not> (unat c mod 8 \<le> n \<and> 8 * (unat c div 8) + n < unat e)"
    using makeUnsetBitsMask_bits [OF order_less_imp_le [OF True]] by metis
  have "min (unat e) (8 * (unat c div 8) + 8) = unat e" using assms(1) lt by auto
  moreover have "unat c < 8 * length bm" using lt assms(3) by simp
  ultimately show ?thesis
    using and_byte_used [of m "unat c" "unat e" "c div 8" bm] m word_mod_8(2) True that
    by (auto simp: mark_last_def)
next
  case False
  then have "unat c = unat e" using assms(2) by (simp add: word_less_nat_alt)
  then show ?thesis using False by (intro that [of bm]) (simp_all add: mark_last_def)
qed

text \<open>Clearing a range of pages clears those bits and no others.\<close>

lemma mark_range_used:
  assumes start: "unat (ps_address pages div kPageSize) = start" and n: "unat (ps_count pages) = n"
    and fits: "start + n \<le> 8 * length bm" "8 * length bm + 64 < 2 ^ 64"
  obtains bm' where
    "mark_range (bm, lowest) pages = Some (bm', min lowest (ps_address pages div kPageSize))"
    "length bm' = length bm" "used_pages bm' = used_pages bm - {start ..< start + n}"
proof -
  define s where "s = ps_address pages div kPageSize"
  define e where "e = s + ps_count pages"
  have s: "unat s = start" and e: "unat e = start + n"
    using start n fits unat_add_small [of s "ps_count pages"] by (simp_all add: s_def e_def)
  have le: "s \<le> e" by (simp add: word_le_nat_alt s e)
  obtain bm1 p where h: "mark_first bm s e = Some (bm1, p)" "length bm1 = length bm"
    "start \<le> unat p" "unat p \<le> unat e" "unat p mod 8 = 0 \<or> unat p = unat e"
    "used_pages bm1 = used_pages bm - {start ..< unat p}"
    using mark_first_used [OF le, of bm] fits unfolding s e by metis
  obtain bm2 c where t: "clear_bytes bm1 p e = Some (bm2, c)" "length bm2 = length bm"
    "unat p \<le> unat c" "unat c \<le> unat e" "unat c mod 8 = 0 \<and> unat e < unat c + 8 \<or> unat c = unat e"
    "used_pages bm2 = used_pages bm1 - {unat p ..< unat c}"
    using clear_bytes_rest [OF h(5,4), of bm1] fits h(2) unfolding e by metis
  obtain bm3 where l: "mark_last bm2 c e = Some bm3" "length bm3 = length bm"
    "used_pages bm3 = used_pages bm2 - {unat c ..< start + n}"
    using mark_last_used [OF t(5,4), of bm2] fits t(2) unfolding e by metis
  have "used_pages bm2 = used_pages bm - {start ..< unat c}"
    unfolding t(6) h(6) by (rule diff_interval_join [OF h(3) t(3)])
  then have "used_pages bm3 = used_pages bm - {start ..< start + n}"
    unfolding l(3) using t(3,4) h(3) e by (simp add: diff_interval_join)
  moreover have "(if s < lowest then s else lowest) = min lowest s" by (auto simp: min_def)
  then have "mark_range (bm, lowest) pages = Some (bm3, min lowest s)"
    using h(1) t(1) l(1) by (simp add: mark_range_def Let_def flip: s_def e_def)
  ultimately show ?thesis using that l(2) s_def by metis
qed

end
