(* ===== verification/PhysProps.thy ===== *)
theory PhysProps
  imports PhysAlloc
begin

text \<open>
  Properties of the kernel's physical page allocator: what \<open>allocatePages\<close> marks and which
  address it returns, and what marking a free range does, for every bitmap that satisfies the
  allocator's invariant.
\<close>

text \<open>An allocator of 16 pages of which 0 and 2 are free.\<close>

definition pa_demo :: phys_alloc where
  "pa_demo = \<lparr>pa_memorySize = 0x10000, pa_bitmapSize = 2, pa_bitmap = [0xFA, 0xFF],
     pa_lowestFreePage = 0, pa_status = Ok\<rparr>"

lemma pa_demo_simps [simp]:
  "pa_status pa_demo = Ok" "pa_pages pa_demo = 16" "pa_lowestFreePage pa_demo = 0"
  by (simp_all add: pa_demo_def)

lemma pa_demo_used: "p \<in> pa_used pa_demo \<longleftrightarrow> p < 16 \<and> p \<noteq> 0 \<and> p \<noteq> 2"
proof -
  have "list_all (\<lambda>p. bit ([0xFA, 0xFF :: u8] ! (p div 8)) (p mod 8) \<longleftrightarrow> p \<noteq> 0 \<and> p \<noteq> 2) [0..<16]"
    by (simp add: upt_rec)
  then have "bit ([0xFA, 0xFF :: u8] ! (p div 8)) (p mod 8) \<longleftrightarrow> p \<noteq> 0 \<and> p \<noteq> 2" if "p < 16"
    using that by (simp add: list_all_iff)
  then show ?thesis by (auto simp: used_pages_iff pa_demo_def)
qed

lemma pa_demo_inv: "pa_inv pa_demo"
  by (simp add: pa_inv_def) (simp add: bitmap_ok_def pa_demo_def)

text \<open>C9: on an initialised allocator, \<open>allocatePages\<close> ends, and marks exactly the longest run of at
  most \<open>count\<close> free pages that starts at the first free page, reports how many it took
  (\<open>OutOfMemory\<close> when no page at all is free), and keeps the invariant.\<close>

theorem allocatePages_marks_first_run:
  assumes "pa_inv s" "pa_status s = Ok" "count \<noteq> 0"
  shows "\<exists>s' first n. allocatePages s count = Some (alloc_result s n, s')
    \<and> pa_inv s' \<and> pa_status s' = Ok \<and> marks_run s (unat count) s' first n
    \<and> (n = 0 \<longleftrightarrow> {..< pa_pages s} \<subseteq> pa_used s)"
  using allocatePages_run [OF assms] by metis

text \<open>The address returned is that of \<open>lowestFreePage_\<close>, so it is the run's when that page is
  free.\<close>

theorem allocatePages_address:
  assumes "pa_inv s" "pa_status s = Ok" "count \<noteq> 0"
    and free: "unat (pa_lowestFreePage s) < pa_pages s" "unat (pa_lowestFreePage s) \<notin> pa_used s"
  shows "\<exists>s' n. allocatePages s count = Some (StatusOr_item \<lparr>ps_pageSize = kPageSize,
           ps_address = pa_lowestFreePage s * kPageSize, ps_count = of_nat n\<rparr>, s')
    \<and> 0 < n \<and> marks_run s (unat count) s' (unat (pa_lowestFreePage s)) n"
proof -
  obtain s' first n where r: "allocatePages s count = Some (alloc_result s n, s')"
    "marks_run s (unat count) s' first n" "n = 0 \<longleftrightarrow> {..< pa_pages s} \<subseteq> pa_used s"
    using allocatePages_run [OF assms(1-3)] by metis
  let ?low = "unat (pa_lowestFreePage s)"
  have n: "0 < n" using r(3) free by blast
  have "first \<in> {first ..< first + n}" using n by simp
  moreover have "{first ..< first + n} \<inter> pa_used s = {}" "first + n \<le> pa_pages s"
    using r(2) n by (simp_all add: marks_run_def)
  ultimately have first: "first \<in> {..< pa_pages s}" "first \<notin> pa_used s"
    using n by (simp, blast)
  have "\<not> ?low < first" using r(2) free by (auto simp: marks_run_def)
  moreover have "\<not> first < ?low" using first assms(1) by (auto simp: pa_inv_def)
  ultimately have "first = ?low" by simp
  moreover have "alloc_result s n = StatusOr_item \<lparr>ps_pageSize = kPageSize,
      ps_address = pa_lowestFreePage s * kPageSize, ps_count = of_nat n\<rparr>"
    using n by (simp add: alloc_result_def)
  ultimately show ?thesis using r(1,2) n by metis
qed

text \<open>C15: when the page of \<open>lowestFreePage_\<close> is in use and another one is free, the address
  returned is that of the page in use: \<open>startPage\<close> is not moved over the pages that the
  loop skips.\<close>

theorem allocatePages_stale_address:
  assumes "pa_inv s" "pa_status s = Ok" "count \<noteq> 0"
    and "unat (pa_lowestFreePage s) \<in> pa_used s" and "q < pa_pages s" "q \<notin> pa_used s"
  shows "\<exists>s' n. allocatePages s count = Some (StatusOr_item \<lparr>ps_pageSize = kPageSize,
           ps_address = pa_lowestFreePage s * kPageSize, ps_count = of_nat n\<rparr>, s')
    \<and> 0 < n \<and> unat (pa_lowestFreePage s) \<notin> pa_used s' - pa_used s"
proof -
  obtain s' n where r: "allocatePages s count = Some (alloc_result s n, s')"
    "n = 0 \<longleftrightarrow> {..< pa_pages s} \<subseteq> pa_used s"
    using allocatePages_run [OF assms(1-3)] by metis
  have n: "0 < n" using r(2) assms(5,6) by blast
  have "alloc_result s n = StatusOr_item \<lparr>ps_pageSize = kPageSize,
      ps_address = pa_lowestFreePage s * kPageSize, ps_count = of_nat n\<rparr>"
    using n by (simp add: alloc_result_def)
  moreover have "unat (pa_lowestFreePage s) \<notin> pa_used s' - pa_used s" using assms(4) by blast
  ultimately show ?thesis using r(1) n by metis
qed



lemma allocatePages_marks_first_run_witness:
  "\<exists>s' n first. allocatePages pa_demo 3 = Some (alloc_result pa_demo n, s')
     \<and> marks_run pa_demo 3 s' first n \<and> n \<noteq> 0"
proof -
  have "(3::u64) \<noteq> 0" "unat (3::u64) = 3" by simp_all
  moreover have "0 \<in> {..< 16 :: nat}" "0 \<notin> pa_used pa_demo" using pa_demo_used [of 0] by simp_all
  then have "\<not> {..< 16} \<subseteq> pa_used pa_demo" by blast
  ultimately show ?thesis
    using allocatePages_marks_first_run [OF pa_demo_inv, of 3] by (metis pa_demo_simps(1,2))
qed

lemma allocatePages_address_witness:
  "\<exists>s' n. allocatePages pa_demo 3 = Some (StatusOr_item \<lparr>ps_pageSize = kPageSize,
     ps_address = 0, ps_count = of_nat n\<rparr>, s') \<and> 0 < n"
proof -
  have "(3::u64) \<noteq> 0" "unat (pa_lowestFreePage pa_demo) < pa_pages pa_demo"
    "unat (pa_lowestFreePage pa_demo) \<notin> pa_used pa_demo"
    using pa_demo_used [of 0] by simp_all
  from allocatePages_address [OF pa_demo_inv _ this] show ?thesis by auto
qed

text \<open>The same allocator after page 0 has been taken: \<open>lowestFreePage_\<close> still is 0.\<close>

definition pa_demo_stale :: phys_alloc where
  "pa_demo_stale = pa_demo\<lparr>pa_bitmap := [0xFB, 0xFF]\<rparr>"

lemma pa_demo_stale_used: "p \<in> pa_used pa_demo_stale \<longleftrightarrow> p < 16 \<and> p \<noteq> 2"
proof -
  have "list_all (\<lambda>p. bit ([0xFB, 0xFF :: u8] ! (p div 8)) (p mod 8) \<longleftrightarrow> p \<noteq> 2) [0..<16]"
    by (simp add: upt_rec)
  then have "bit ([0xFB, 0xFF :: u8] ! (p div 8)) (p mod 8) \<longleftrightarrow> p \<noteq> 2" if "p < 16"
    using that by (simp add: list_all_iff)
  then show ?thesis by (auto simp: used_pages_iff pa_demo_stale_def)
qed

lemma allocatePages_stale_address_witness:
  "\<exists>s' n. allocatePages pa_demo_stale 1 = Some (StatusOr_item \<lparr>ps_pageSize = kPageSize,
     ps_address = 0, ps_count = of_nat n\<rparr>, s') \<and> 0 \<in> pa_used pa_demo_stale"
proof -
  have s: "pa_status pa_demo_stale = Ok" "pa_pages pa_demo_stale = 16" "pa_lowestFreePage pa_demo_stale = 0"
    by (simp_all add: pa_demo_stale_def pa_demo_def)
  have "pa_inv pa_demo_stale" by (simp add: pa_inv_def s) (simp add: bitmap_ok_def pa_demo_stale_def pa_demo_def)
  moreover have "unat (pa_lowestFreePage pa_demo_stale) \<in> pa_used pa_demo_stale" "2 < pa_pages pa_demo_stale"
    "2 \<notin> pa_used pa_demo_stale"
    using pa_demo_stale_used [of 0] pa_demo_stale_used [of 2] by (simp_all add: s)
  ultimately show ?thesis
    using allocatePages_stale_address [of pa_demo_stale 1 2] pa_demo_stale_used [of 0] by (auto simp: s)
qed

text \<open>Two successive one-page allocations return the same page whenever the page after
  \<open>lowestFreePage_\<close> is in use and another one is free.\<close>

theorem allocatePage_twice_same:
  assumes "pa_inv s" "pa_status s = Ok"
    and "unat (pa_lowestFreePage s) < pa_pages s" "unat (pa_lowestFreePage s) \<notin> pa_used s"
    and "unat (pa_lowestFreePage s) + 1 \<in> pa_used s"
    and "q < pa_pages s" "q \<notin> pa_used s" "q \<noteq> unat (pa_lowestFreePage s)"
  shows "\<exists>s1 s2. allocatePage s = Some (StatusOr_item (pa_lowestFreePage s * kPageSize), s1)
    \<and> allocatePage s1 = Some (StatusOr_item (pa_lowestFreePage s * kPageSize), s2)"
proof -
  let ?low = "unat (pa_lowestFreePage s)"
  obtain s1 p where r1: "allocatePage s = Some (if {..< pa_pages s} \<subseteq> pa_used s
      then StatusOr_status OutOfMemory else StatusOr_item (pa_lowestFreePage s * kPageSize), s1)"
    and i1: "pa_inv s1" "pa_status s1 = Ok" "pa_pages s1 = pa_pages s"
    and u1: "pa_used s1 = (if {..< pa_pages s} \<subseteq> pa_used s then pa_used s else insert p (pa_used s))"
    and p1: "\<not> {..< pa_pages s} \<subseteq> pa_used s \<Longrightarrow> p < pa_pages s \<and> p \<notin> pa_used s \<and> {..< p} \<subseteq> pa_used s"
    and low1: "\<not> {..< pa_pages s} \<subseteq> pa_used s \<Longrightarrow> p + 1 \<in> pa_used s \<Longrightarrow>
      pa_lowestFreePage s1 = pa_lowestFreePage s"
    by (rule allocatePage_run [OF assms(1,2)]) blast
  have ne: "\<not> {..< pa_pages s} \<subseteq> pa_used s" using assms(3,4) by blast
  have "p = ?low"
  proof (rule ccontr)
    assume "p \<noteq> ?low"
    then consider "p < ?low" | "?low < p" by linarith
    then show False using p1 [OF ne] assms(1,4) by cases (auto simp: pa_inv_def)
  qed
  then have low: "pa_lowestFreePage s1 = pa_lowestFreePage s" and used1: "pa_used s1 = insert ?low (pa_used s)"
    using low1 [OF ne] u1 ne assms(5) by auto
  have "\<not> {..< pa_pages s1} \<subseteq> pa_used s1" using assms(6-8) i1(3) used1 by auto
  moreover obtain s2 p2 where "allocatePage s1 = Some (if {..< pa_pages s1} \<subseteq> pa_used s1
      then StatusOr_status OutOfMemory else StatusOr_item (pa_lowestFreePage s1 * kPageSize), s2)"
    by (rule allocatePage_run [OF i1(1,2)]) blast
  ultimately show ?thesis using r1 ne low by simp
qed

lemma allocatePage_twice_same_witness:
  "\<exists>s1 s2. allocatePage pa_demo = Some (StatusOr_item 0, s1)
    \<and> allocatePage s1 = Some (StatusOr_item 0, s2)"
  using allocatePage_twice_same [OF pa_demo_inv, of 2] pa_demo_used [of 0] pa_demo_used [of 1]
    pa_demo_used [of 2] by simp

text \<open>C12: marking a range of pages free clears exactly the bits of those pages, whatever the
  alignment of its ends, and lowers \<open>lowestFreePage_\<close> to its first page.\<close>

theorem mark_range_correct:
  assumes "unat (ps_address pages div kPageSize) + unat (ps_count pages) \<le> 8 * length bm"
    and "8 * length bm + 64 < 2 ^ 64"
  shows "\<exists>bm'. mark_range (bm, lowest) pages = Some (bm', min lowest (ps_address pages div kPageSize))
    \<and> length bm' = length bm
    \<and> used_pages bm' = used_pages bm - {unat (ps_address pages div kPageSize) ..<
        unat (ps_address pages div kPageSize) + unat (ps_count pages)}"
  using mark_range_used [OF refl refl assms] by metis

lemma mark_range_correct_witness:
  "\<exists>bm'. mark_range ([0xFF, 0xFF, 0xFF], 9) \<lparr>ps_pageSize = kPageSize, ps_address = 0x3000, ps_count = 15\<rparr>
     = Some (bm', 3) \<and> used_pages bm' = used_pages [0xFF, 0xFF, 0xFF] - {3..<18}"
  using mark_range_correct [of "\<lparr>ps_pageSize = kPageSize, ps_address = 0x3000, ps_count = 15\<rparr>"
      "[0xFF, 0xFF, 0xFF]" 9] by (auto simp: kPageSize_def min_def)

end
