(* ===== verification/PageTree.thy ===== *)
theory PageTree
  imports Paging "HOL-Library.Sublist"
begin

text \<open>
  What page tables in memory mean: the walk of the memory management unit over four levels of
  4 KiB tables, and the invariant of a set of tables that the loader keeps.  A table is found by
  the list of indices that leads to it from the top (\<open>table_at\<close>); the walk of a virtual
  address reads the slot of its last index in the table of its first three.  \<open>pt_inv\<close> says
  that every table reached without passing through the self map is a frame of its own, so a
  write to one slot changes the translation of the addresses of that slot and no other.

  The locale \<open>quad_memory\<close> is the interface between page-table code and memory.
\<close>

subsection \<open>Slots\<close>

locale quad_memory =
  fixes rd :: "'m \<Rightarrow> u64 \<Rightarrow> u64" and wr :: "'m \<Rightarrow> u64 \<Rightarrow> u64 \<Rightarrow> 'm"
  assumes rd_same: "rd (wr m a v) a = v"
    and rd_other: "quad_aligned a \<Longrightarrow> quad_aligned b \<Longrightarrow> a \<noteq> b \<Longrightarrow> rd (wr m a v) b = rd m b"

definition slot_addr :: "u64 \<Rightarrow> u64 \<Rightarrow> u64" where
  "slot_addr t i = t + 8 * i"

lemma bit_index_less: "i < (512 :: u64) \<Longrightarrow> bit i n \<Longrightarrow> n < 9"
  by (rule bit_less_exp [of i 9]) (simp_all add: word_less_nat_alt)

lemma bit_slot_addr:
  assumes "frame_addr t" "i < 512"
  shows "bit (slot_addr t i) n \<longleftrightarrow> (if n < 12 then 3 \<le> n \<and> bit i (n - 3) else bit t n)"
proof -
  have t: "bit t k \<Longrightarrow> 12 \<le> k" for k using assms(1) by (simp add: frame_addr_bit)
  have i: "bit (push_bit 3 i) k \<longleftrightarrow> 3 \<le> k \<and> k < 12 \<and> bit i (k - 3)" for k
    using bit_index_less [OF assms(2), of "k - 3"]
    by (auto simp: bit_push_bit_iff dest: bit_imp_le_length)
  have "\<not> (bit t k \<and> bit (push_bit 3 i) k)" for k
    using t [of k] i [of k] by linarith
  then have "t AND push_bit 3 i = 0" by (intro bit_eqI) (simp add: bit_and_iff)
  then have "t + push_bit 3 i = t OR push_bit 3 i" by (rule disjunctive_add_eq_or)
  moreover have "slot_addr t i = t + push_bit 3 i"
    by (simp add: slot_addr_def push_bit_eq_mult mult.commute)
  ultimately show ?thesis using t [of n] i [of n] by (auto simp: bit_or_iff)
qed

lemma slot_addr_inj:
  assumes "frame_addr t" "i < 512" "frame_addr t'" "j < 512" "slot_addr t i = slot_addr t' j"
  shows "t = t' \<and> i = j"
proof
  note b = bit_slot_addr [OF assms(1,2)] bit_slot_addr [OF assms(3,4)]
  show "t = t'"
  proof (rule bit_eqI)
    fix n
    show "bit t n = bit t' n"
      using b [of n] assms(1,3,5) by (cases "n < 12") (auto simp: frame_addr_bit)
  qed
  show "i = j"
  proof (rule bit_eqI)
    fix n
    show "bit i n = bit j n"
    proof (cases "n < 9")
      case True
      then show ?thesis using b [of "n + 3"] assms(5) by simp
    next
      case False
      then show ?thesis using bit_index_less assms(2,4) by blast
    qed
  qed
qed

lemma quad_aligned_slot: "frame_addr t \<Longrightarrow> i < 512 \<Longrightarrow> quad_aligned (slot_addr t i)"
proof -
  assume "frame_addr t" "i < 512"
  then have "slot_addr t i AND mask 3 = 0"
    by (intro bit_eqI) (auto simp: bit_and_iff bit_mask_iff bit_slot_addr)
  then show ?thesis by (simp add: quad_aligned_def mask3_eq)
qed

text \<open>\<open>PT_PAGE_BASE\<close> is the frame of an address; the bytes of a slot lie in its frame.\<close>

lemma bit_PT_PAGE_BASE: "bit (PT_PAGE_BASE x) n \<longleftrightarrow> 12 \<le> n \<and> bit x n"
  unfolding PT_PAGE_BASE_def bit_and_iff bit_not_FFF by (auto dest: bit_imp_le_length)

lemma frame_of_slot:
  assumes "frame_addr t" "i < 512" "d < 8"
  shows "PT_PAGE_BASE (slot_addr t i + d) = t"
proof (rule bit_eqI)
  fix n
  have "bit t n \<Longrightarrow> 12 \<le> n" using assms(1) by (auto simp: frame_addr_bit)
  then show "bit (PT_PAGE_BASE (slot_addr t i + d)) n = bit t n"
    using quad_bits [OF quad_aligned_slot [OF assms(1,2)] assms(3), of n]
    by (auto simp: bit_PT_PAGE_BASE bit_slot_addr [OF assms(1,2)])
qed

context quad_memory
begin

lemma rd_slot_other:
  assumes "frame_addr t" "i < 512" "frame_addr t'" "j < 512" "t \<noteq> t' \<or> i \<noteq> j"
  shows "rd (wr m (slot_addr t i) v) (slot_addr t' j) = rd m (slot_addr t' j)"
  using assms slot_addr_inj by (intro rd_other quad_aligned_slot) auto

lemma rd_slot_upd:
  assumes "frame_addr t" "i < 512" "frame_addr t'" "j < 512"
  shows "rd (wr m (slot_addr t i) v) (slot_addr t' j) =
    (if t = t' \<and> i = j then v else rd m (slot_addr t' j))"
  using assms rd_slot_other by (auto simp: rd_same)

end

interpretation quad: quad_memory read64 write64
  by unfold_locales (simp_all add: read64_write64_other)

text \<open>Filling a frame leaves the slots of the other frames alone and sets its own.\<close>

lemma page_split: "x = PT_PAGE_BASE x + take_bit 12 x"
proof -
  have "PT_PAGE_BASE x AND take_bit 12 x = 0"
    by (rule bit_eqI) (auto simp: bit_and_iff bit_PT_PAGE_BASE bit_take_bit_iff)
  then have "PT_PAGE_BASE x + take_bit 12 x = PT_PAGE_BASE x OR take_bit 12 x"
    by (rule disjunctive_add_eq_or)
  also have "\<dots> = x"
    by (rule bit_eqI) (auto simp: bit_or_iff bit_PT_PAGE_BASE bit_take_bit_iff)
  finally show ?thesis by simp
qed

lemma page_aligned_add:
  assumes "PT_PAGE_BASE p = p" "unat d < 4096"
  shows "PT_PAGE_BASE (p + d) = p"
proof -
  have d: "bit d n \<Longrightarrow> n < 12" for n using assms(2) by (intro bit_less_exp [of d 12]) simp_all
  have p: "bit p n \<Longrightarrow> 12 \<le> n" for n using assms(1) bit_PT_PAGE_BASE by metis
  have "p AND d = 0" by (rule bit_eqI) (auto simp: bit_and_iff dest!: d p)
  then have "p + d = p OR d" by (rule disjunctive_add_eq_or)
  then show ?thesis by (intro bit_eqI) (auto simp: bit_PT_PAGE_BASE bit_or_iff dest: d p)
qed

lemma frame_addr_base: "frame_addr p \<Longrightarrow> PT_PAGE_BASE p = p"
  by (rule bit_eqI) (auto simp: bit_PT_PAGE_BASE frame_addr_bit)

lemma frame_block:
  assumes "PT_PAGE_BASE p = p" shows "in_block p 4096 x \<longleftrightarrow> PT_PAGE_BASE x = p"
proof
  assume "in_block p 4096 x"
  then have "unat (x - p) < 4096" by (simp add: in_block_def)
  with page_aligned_add [OF assms this] show "PT_PAGE_BASE x = p" by simp
next
  assume *: "PT_PAGE_BASE x = p"
  then have "x - p = take_bit 12 x" using page_split [of x] by (simp add: algebra_simps)
  moreover have "unat (take_bit 12 x) < 2 ^ 12"
    unfolding unsigned_take_bit_eq by (rule take_bit_nat_less_exp)
  ultimately show "in_block p 4096 x" by (simp add: in_block_def)
qed

lemma clear_table_at:
  assumes "frame_addr p"
  shows "clear_table m p x = (if PT_PAGE_BASE x = p then 0 else m x)"
  using frame_block [OF frame_addr_base [OF assms]]
  by (simp add: clear_table_def kPageSize_def memset_at)

lemma read64_zero: "(\<And>i. i < 8 \<Longrightarrow> m (a + i) = 0) \<Longrightarrow> read64 m a = 0"
proof -
  assume "\<And>i. i < 8 \<Longrightarrow> m (a + i) = 0"
  then have "read64 m a = read64 (\<lambda>_. 0) a" by (rule read64_cong)
  then show ?thesis by (simp add: read64_def)
qed

lemma read64_clear_table:
  assumes "frame_addr p" "frame_addr t" "i < 512"
  shows "read64 (clear_table m p) (slot_addr t i) = (if t = p then 0 else read64 m (slot_addr t i))"
proof (cases "t = p")
  case True
  then show ?thesis
    using assms by (auto intro!: read64_zero simp: clear_table_at frame_of_slot)
next
  case False
  then show ?thesis
    using assms by (auto intro!: read64_cong simp: clear_table_at frame_of_slot)
qed

subsection \<open>Tables and walks\<close>

lemma write64_slot_other:
  assumes "frame_addr t" "i < 512" "PT_PAGE_BASE x \<noteq> t"
  shows "write64 m (slot_addr t i) v x = m x"
proof (rule write64_other)
  fix d :: u64
  assume "d < 8"
  then show "x \<noteq> slot_addr t i + d" using frame_of_slot [OF assms(1,2)] assms(3) by auto
qed

text \<open>One level of the walk: the frame a present entry points to.\<close>

definition next_table :: "mem \<Rightarrow> u64 \<Rightarrow> u64 \<Rightarrow> u64 option" where
  "next_table m t i =
     (let e = read64 m (slot_addr t i) in
      if e AND Present = 0 then None else Some (e AND PAGE_ADDR_MASK))"

fun table_at :: "mem \<Rightarrow> u64 \<Rightarrow> u64 list \<Rightarrow> u64 option" where
  "table_at m t [] = Some t"
| "table_at m t (i # is) = (case next_table m t i of None \<Rightarrow> None | Some t' \<Rightarrow> table_at m t' is)"

definition path_of :: "u64 \<Rightarrow> u64 list" where
  "path_of v = [PT_L4_IDX v, PT_L3_IDX v, PT_L2_IDX v]"

text \<open>The leaf entry that maps an address, if every level is present.\<close>

definition leaf_entry :: "mem \<Rightarrow> u64 \<Rightarrow> u64 \<Rightarrow> u64" where
  "leaf_entry m t v = read64 m (slot_addr t (PT_L1_IDX v))"

definition walk :: "mem \<Rightarrow> u64 \<Rightarrow> u64 \<Rightarrow> u64 option" where
  "walk m root v =
     (case table_at m root (path_of v) of None \<Rightarrow> None
      | Some t \<Rightarrow> (let e = leaf_entry m t v in if e AND Present = 0 then None else Some e))"

text \<open>The physical address of a virtual address.\<close>

definition translate :: "mem \<Rightarrow> u64 \<Rightarrow> u64 \<Rightarrow> u64 option" where
  "translate m root v =
     map_option (\<lambda>e. (e AND PAGE_ADDR_MASK) OR (v AND PAGE_MASK)) (walk m root v)"

lemma table_at_append:
  "table_at m t (is @ js) = (case table_at m t is of None \<Rightarrow> None | Some t' \<Rightarrow> table_at m t' js)"
  by (induction "is" arbitrary: t) (auto split: option.splits)

lemma next_table_frame: "next_table m t i = Some t' \<Longrightarrow> frame_addr t'"
  by (auto simp: next_table_def Let_def PAGE_ADDR_MASK_def split: if_splits)

lemma table_at_frame: "frame_addr t \<Longrightarrow> table_at m t is = Some t' \<Longrightarrow> frame_addr t'"
  by (induction "is" arbitrary: t) (auto split: option.splits dest: next_table_frame)

subsection \<open>The tree of tables\<close>

definition tree_path :: "u64 list \<Rightarrow> bool" where
  "tree_path is \<longleftrightarrow>
     length is \<le> 3 \<and> (\<forall>i \<in> set is. i < 512) \<and> (case is of [] \<Rightarrow> True | i # _ \<Rightarrow> i \<noteq> 511)"

lemma tree_path_Nil [simp]: "tree_path []"
  by (simp add: tree_path_def)

lemma tree_path_prefix: "tree_path (is @ js) \<Longrightarrow> tree_path is"
  by (auto simp: tree_path_def split: list.splits)

lemma tree_path_snoc:
  "tree_path is \<Longrightarrow> length is < 3 \<Longrightarrow> i < 512 \<Longrightarrow> (is = [] \<Longrightarrow> i \<noteq> 511) \<Longrightarrow> tree_path (is @ [i])"
  by (auto simp: tree_path_def split: list.splits)

lemma tree_path_index: "tree_path (is @ i # js) \<Longrightarrow> i < 512 \<and> (is = [] \<longrightarrow> i \<noteq> 511)"
  by (auto simp: tree_path_def split: list.splits)

lemma PT_L1_IDX_less [simp]: "PT_L1_IDX v < 512"
  using PT_IDX_less [of v 1] by (simp add: PT_IDX_levels)

lemma tree_path_of: "PT_L4_IDX v \<noteq> 511 \<Longrightarrow> tree_path (path_of v)"
  using PT_IDX_less [of v 4] PT_IDX_less [of v 3] PT_IDX_less [of v 2]
  by (simp add: tree_path_def path_of_def PT_IDX_levels)

definition pt_inv :: "mem \<Rightarrow> u64 \<Rightarrow> u64 set \<Rightarrow> bool" where
  "pt_inv m root owned \<longleftrightarrow>
     frame_addr root \<and>
     read64 m (slot_addr root 511) = root OR (Present OR RW) \<and>
     (\<forall>is t. tree_path is \<longrightarrow> table_at m root is = Some t \<longrightarrow> t \<in> owned) \<and>
     (\<forall>is js t. tree_path is \<longrightarrow> tree_path js \<longrightarrow> table_at m root is = Some t \<longrightarrow>
        table_at m root js = Some t \<longrightarrow> is = js)"

lemma pt_inv_root: "pt_inv m root owned \<Longrightarrow> frame_addr root"
  by (simp add: pt_inv_def)

lemma pt_inv_self: "pt_inv m root owned \<Longrightarrow> read64 m (slot_addr root 511) = root OR (Present OR RW)"
  by (simp add: pt_inv_def)

lemma pt_inv_owned: "pt_inv m root owned \<Longrightarrow> tree_path is \<Longrightarrow> table_at m root is = Some t \<Longrightarrow> t \<in> owned"
  by (simp add: pt_inv_def)

lemma pt_inv_inj:
  "pt_inv m root owned \<Longrightarrow> tree_path is \<Longrightarrow> tree_path js \<Longrightarrow> table_at m root is = Some t \<Longrightarrow>
   table_at m root js = Some t \<Longrightarrow> is = js"
  unfolding pt_inv_def by blast

lemma pt_inv_frame: "pt_inv m root owned \<Longrightarrow> table_at m root is = Some t \<Longrightarrow> frame_addr t"
  using table_at_frame pt_inv_root by blast

lemma pt_inv_mono: "pt_inv m root owned \<Longrightarrow> owned \<subseteq> owned' \<Longrightarrow> pt_inv m root owned'"
  unfolding pt_inv_def by blast

lemma table_at_cong:
  assumes "\<And>ks k rest t'. is = ks @ k # rest \<Longrightarrow> table_at m t ks = Some t' \<Longrightarrow>
    read64 m' (slot_addr t' k) = read64 m (slot_addr t' k)"
  shows "table_at m' t is = table_at m t is"
  using assms
proof (induction "is" arbitrary: t)
  case (Cons i js)
  have "next_table m' t i = next_table m t i"
    using Cons.prems [of "[]" i js t] by (simp add: next_table_def)
  moreover have "table_at m' t'' js = table_at m t'' js" if "next_table m t i = Some t''" for t''
    using that Cons.prems [of "i # _"] by (intro Cons.IH) simp
  ultimately show ?case by (simp split: option.split)
qed simp

text \<open>The tree only depends on the memory of its tables.\<close>

lemma table_at_mem_cong:
  assumes inv: "pt_inv m root T" and mem: "\<And>x. PT_PAGE_BASE x \<in> T \<Longrightarrow> m' x = m x"
    and path: "tree_path is"
  shows "table_at m' root is = table_at m root is"
proof (rule table_at_cong)
  fix ks k rest t'
  assume "is": "is = ks @ k # rest" and t: "table_at m root ks = Some t'"
  have "tree_path ks" using path tree_path_prefix "is" by blast
  then have "t' \<in> T" by (rule pt_inv_owned [OF inv _ t])
  moreover have "k < 512" using path tree_path_index "is" by blast
  ultimately show "read64 m' (slot_addr t' k) = read64 m (slot_addr t' k)"
    using pt_inv_frame [OF inv t] by (intro read64_cong mem) (simp add: frame_of_slot)
qed

lemma pt_inv_mem_cong:
  assumes inv: "pt_inv m root T" and mem: "\<And>x. PT_PAGE_BASE x \<in> T \<Longrightarrow> m' x = m x"
  shows "pt_inv m' root T"
proof -
  have root: "frame_addr root" "root \<in> T"
    using pt_inv_root [OF inv] pt_inv_owned [OF inv, of "[]" root] by simp_all
  have "read64 m' (slot_addr root 511) = read64 m (slot_addr root 511)"
    using root by (intro read64_cong mem) (simp add: frame_of_slot)
  then show ?thesis
    using inv table_at_mem_cong [OF inv mem] unfolding pt_inv_def by (metis (no_types, lifting))
qed

lemma walk_mem_cong:
  assumes inv: "pt_inv m root T" and mem: "\<And>x. PT_PAGE_BASE x \<in> T \<Longrightarrow> m' x = m x"
    and v: "PT_L4_IDX v \<noteq> 511"
  shows "walk m' root v = walk m root v"
proof -
  have t: "table_at m' root (path_of v) = table_at m root (path_of v)"
    by (rule table_at_mem_cong [OF inv mem tree_path_of [OF v]])
  have "leaf_entry m' t v = leaf_entry m t v" if "table_at m root (path_of v) = Some t" for t
    unfolding leaf_entry_def using pt_inv_owned [OF inv tree_path_of [OF v] that] pt_inv_frame [OF inv that]
    by (intro read64_cong mem) (simp add: frame_of_slot)
  then show ?thesis unfolding walk_def t by (auto split: option.split)
qed

text \<open>A memory that differs from another in one slot of the tree only.\<close>

definition same_slots :: "u64 set \<Rightarrow> u64 \<Rightarrow> u64 \<Rightarrow> mem \<Rightarrow> mem \<Rightarrow> bool" where
  "same_slots owned t i m m' \<longleftrightarrow>
     (\<forall>t' k. t' \<in> owned \<longrightarrow> frame_addr t' \<longrightarrow> k < 512 \<longrightarrow> t' \<noteq> t \<or> k \<noteq> i \<longrightarrow>
        read64 m' (slot_addr t' k) = read64 m (slot_addr t' k))"

lemma table_at_upd:
  assumes inv: "pt_inv m root owned" and path: "tree_path is" and t: "table_at m root is = Some t"
    and same: "same_slots owned t i m m'"
    and js: "tree_path js" "\<not> prefix (is @ [i]) js"
  shows "table_at m' root js = table_at m root js"
proof (rule table_at_cong)
  fix ks k rest t'
  assume split: "js = ks @ k # rest" and t': "table_at m root ks = Some t'"
  have ks: "tree_path ks" "k < 512"
    using js(1) split tree_path_prefix tree_path_index by blast+
  have "t' \<noteq> t \<or> k \<noteq> i"
  proof (rule ccontr)
    assume "\<not> (t' \<noteq> t \<or> k \<noteq> i)"
    with t' have "table_at m root ks = Some t" "k = i" by simp_all
    with pt_inv_inj [OF inv ks(1) path _ t] split js(2) show False by (simp add: prefix_def)
  qed
  with same ks t' show "read64 m' (slot_addr t' k) = read64 m (slot_addr t' k)"
    unfolding same_slots_def using pt_inv_owned [OF inv] pt_inv_frame [OF inv] by blast
qed

text \<open>Linking a fresh, cleared frame into a free slot.\<close>

definition link_table :: "mem \<Rightarrow> u64 \<Rightarrow> u64 \<Rightarrow> u64 \<Rightarrow> mem" where
  "link_table m t i p = write64 (clear_table m p) (slot_addr t i) (p OR (Present OR RW))"

lemma link_table_read:
  assumes "frame_addr t" "i < 512" "frame_addr p" "frame_addr t'" "k < 512"
  shows "read64 (link_table m t i p) (slot_addr t' k) =
    (if t' = t \<and> k = i then p OR (Present OR RW)
     else if t' = p then 0 else read64 m (slot_addr t' k))"
  using assms unfolding link_table_def by (auto simp: quad.rd_slot_upd read64_clear_table)

lemma link_table_other:
  assumes "frame_addr t" "i < 512" "frame_addr p" "PT_PAGE_BASE x \<noteq> t" "PT_PAGE_BASE x \<noteq> p"
  shows "link_table m t i p x = m x"
  using assms by (simp add: link_table_def write64_slot_other clear_table_at)

lemma frame_link_entry:
  assumes "frame_addr p"
  shows "(p OR (Present OR RW)) AND PAGE_ADDR_MASK = p" "(p OR (Present OR RW)) AND Present \<noteq> 0"
proof -
  have pr: "Present OR RW = (3 :: u64)" by (simp add: attr_defs)
  have "bit (3 :: u64) n \<longleftrightarrow> n < 2" for n
  proof -
    have "(3 :: u64) = mask 2" by (simp add: mask_eq_exp_minus_1)
    then show ?thesis by (simp only: bit_mask_iff) auto
  qed
  then show "(p OR (Present OR RW)) AND PAGE_ADDR_MASK = p"
    using assms unfolding pr PAGE_ADDR_MASK_def
    by (intro bit_eqI) (simp only: bit_and_iff bit_or_iff bit_mask_addr_word, auto simp: frame_addr_bit)
  show "(p OR (Present OR RW)) AND Present \<noteq> 0"
    by (simp add: present_bit [symmetric] present_def get_flag_def pr bit_0 even_or_iff)
qed

lemma link_table_tables:
  assumes inv: "pt_inv m root owned" and path: "tree_path is" and t: "table_at m root is = Some t"
    and len: "length is < 3" and i: "i < 512" "is = [] \<longrightarrow> i \<noteq> 511"
    and p: "frame_addr p" "p \<notin> owned"
    and js: "tree_path js"
  shows "table_at (link_table m t i p) root js =
    (if js = is @ [i] then Some p
     else if prefix (is @ [i]) js then None else table_at m root js)"
proof -
  let ?m = "link_table m t i p"
  have ft: "frame_addr t" by (rule pt_inv_frame [OF inv t])
  have own: "t \<in> owned" by (rule pt_inv_owned [OF inv path t])
  have same: "same_slots owned t i m ?m"
    unfolding same_slots_def using link_table_read [OF ft i(1) p(1)] p(2) by metis
  note upd = table_at_upd [OF inv path t same]
  have "table_at ?m root is = Some t"
    using upd [OF path] t by (simp add: prefix_def)
  moreover have "next_table ?m t i = Some p"
    using link_table_read [OF ft i(1) p(1) ft i(1)] frame_link_entry [OF p(1)]
    by (simp add: next_table_def)
  ultimately have at_p: "table_at ?m root (is @ [i] @ ks) = table_at ?m p ks" for ks
    by (simp add: table_at_append)
  show ?thesis
  proof (cases "prefix (is @ [i]) js")
    case True
    then obtain ks where ks: "js = is @ [i] @ ks" by (auto simp: prefix_def)
    show ?thesis
    proof (cases ks)
      case Nil
      then show ?thesis using at_p [of "[]"] ks by simp
    next
      case (Cons k rest)
      then have "k < 512" using js ks tree_path_index [of "is @ [i]" k rest] by simp
      then have "next_table ?m p k = None"
        using link_table_read [OF ft i(1) p(1) p(1), of k] own p(2) by (auto simp: next_table_def)
      then show ?thesis using at_p [of ks] ks Cons by simp
    qed
  next
    case False
    then show ?thesis using upd [OF js False] by auto
  qed
qed

lemma table_at_free:
  assumes "table_at m root is = Some t" "next_table m t i = None"
  shows "prefix (is @ [i]) js \<Longrightarrow> table_at m root js = None"
  using assms by (auto simp: prefix_def table_at_append)

lemma link_table_inv:
  assumes inv: "pt_inv m root owned" and path: "tree_path is" and t: "table_at m root is = Some t"
    and len: "length is < 3" and i: "i < 512" "is = [] \<longrightarrow> i \<noteq> 511"
    and p: "frame_addr p" "p \<notin> owned"
  shows "pt_inv (link_table m t i p) root (insert p owned)"
proof -
  let ?m = "link_table m t i p"
  note tabs = link_table_tables [OF assms]
  have root: "frame_addr root" "root \<in> owned"
    using pt_inv_root [OF inv] pt_inv_owned [OF inv, of "[]"] by auto
  have ft: "frame_addr t" by (rule pt_inv_frame [OF inv t])
  have not_slot: "root \<noteq> t \<or> 511 \<noteq> i"
  proof (rule ccontr)
    assume "\<not> ?thesis"
    then have "is = []" "i = 511" using pt_inv_inj [OF inv path, of "[]" t] t by auto
    with i(2) show False by simp
  qed
  show ?thesis
    unfolding pt_inv_def
  proof (intro conjI allI impI)
    show "frame_addr root" by (rule root(1))
    show "read64 ?m (slot_addr root 511) = root OR (Present OR RW)"
      using link_table_read [OF ft i(1) p(1) root(1), of 511] not_slot root(2) p(2) pt_inv_self [OF inv]
      by auto
  next
    fix js t'
    assume "tree_path js" "table_at ?m root js = Some t'"
    then show "t' \<in> insert p owned"
      using tabs pt_inv_owned [OF inv] by (auto split: if_splits)
  next
    fix js ks t'
    assume js: "tree_path js" "tree_path ks" "table_at ?m root js = Some t'" "table_at ?m root ks = Some t'"
    have other: "t'' \<noteq> p" if "tree_path ls" "table_at m root ls = Some t''" for ls t''
      using pt_inv_owned [OF inv that] p(2) by auto
    show "js = ks"
      using js tabs [OF js(1)] tabs [OF js(2)] other pt_inv_inj [OF inv js(1,2)]
      by (auto split: if_splits)
  qed
qed

lemma walk_None_table: "table_at m root (path_of v) = None \<Longrightarrow> walk m root v = None"
  by (simp add: walk_def)

lemma link_table_walk:
  assumes inv: "pt_inv m root owned" and path: "tree_path is" and t: "table_at m root is = Some t"
    and len: "length is < 3" and i: "i < 512" "is = [] \<longrightarrow> i \<noteq> 511"
    and free: "next_table m t i = None" and p: "frame_addr p" "p \<notin> owned"
    and v: "PT_L4_IDX v \<noteq> 511"
  shows "walk (link_table m t i p) root v = walk m root v"
proof -
  let ?m = "link_table m t i p"
  have ft: "frame_addr t" by (rule pt_inv_frame [OF inv t])
  have own: "t \<in> owned" by (rule pt_inv_owned [OF inv path t])
  note tabs = link_table_tables [OF assms(1-6,8,9) tree_path_of [OF v]]
  show ?thesis
  proof (cases "prefix (is @ [i]) (path_of v)")
    case True
    then have "walk m root v = None"
      using table_at_free [OF t free] walk_None_table by blast
    moreover have "walk ?m root v = None"
    proof (cases "path_of v = is @ [i]")
      case eq: True
      have "leaf_entry ?m p v = 0"
        using link_table_read [OF ft i(1) p(1) p(1), of "PT_L1_IDX v"] own p(2)
        by (auto simp: leaf_entry_def)
      then show ?thesis using tabs eq by (simp add: walk_def)
    next
      case False
      then show ?thesis using tabs True walk_None_table by simp
    qed
    ultimately show ?thesis by simp
  next
    case False
    then have at: "table_at ?m root (path_of v) = table_at m root (path_of v)" using tabs by auto
    have "leaf_entry ?m t' v = leaf_entry m t' v" if "table_at m root (path_of v) = Some t'" for t'
    proof -
      have "t' \<noteq> t"
        using pt_inv_inj [OF inv tree_path_of [OF v] path that] t len by (auto simp: path_of_def)
      moreover have "t' \<noteq> p" using pt_inv_owned [OF inv tree_path_of [OF v] that] p(2) by auto
      ultimately show ?thesis
        using link_table_read [OF ft i(1) p(1) pt_inv_frame [OF inv that], of "PT_L1_IDX v"]
        by (simp add: leaf_entry_def)
    qed
    with at show ?thesis by (simp add: walk_def split: option.split)
  qed
qed

text \<open>Writing a leaf entry.\<close>

lemma leaf_write_tables:
  assumes inv: "pt_inv m root owned" and path: "tree_path is" "length is = 3"
    and t: "table_at m root is = Some t" and i: "i < 512" and js: "tree_path js"
  shows "table_at (write64 m (slot_addr t i) e) root js = table_at m root js"
proof -
  have ft: "frame_addr t" by (rule pt_inv_frame [OF inv t])
  have "same_slots owned t i m (write64 m (slot_addr t i) e)"
    unfolding same_slots_def using quad.rd_slot_other [OF ft i] by metis
  moreover have "\<not> prefix (is @ [i]) js"
    using js path(2) by (auto simp: tree_path_def prefix_def)
  ultimately show ?thesis by (rule table_at_upd [OF inv path(1) t _ js])
qed

lemma leaf_write_inv:
  assumes inv: "pt_inv m root owned" and path: "tree_path is" "length is = 3"
    and t: "table_at m root is = Some t" and i: "i < 512"
  shows "pt_inv (write64 m (slot_addr t i) e) root owned"
proof -
  have ft: "frame_addr t" by (rule pt_inv_frame [OF inv t])
  have "root \<noteq> t" using pt_inv_inj [OF inv path(1), of "[]" t] path(2) t by auto
  then have "read64 (write64 m (slot_addr t i) e) (slot_addr root 511) = read64 m (slot_addr root 511)"
    using quad.rd_slot_other [OF ft i pt_inv_root [OF inv], of 511] by simp
  then show ?thesis
    using inv leaf_write_tables [OF assms] unfolding pt_inv_def by simp
qed

lemma leaf_write_walk:
  assumes inv: "pt_inv m root owned" and v: "PT_L4_IDX v \<noteq> 511" "PT_L4_IDX w \<noteq> 511"
    and t: "table_at m root (path_of v) = Some t"
  shows "walk (write64 m (slot_addr t (PT_L1_IDX v)) e) root w =
    (if path_of w = path_of v \<and> PT_L1_IDX w = PT_L1_IDX v
     then if e AND Present = 0 then None else Some e
     else walk m root w)"
proof -
  let ?m = "write64 m (slot_addr t (PT_L1_IDX v)) e"
  have ft: "frame_addr t" by (rule pt_inv_frame [OF inv t])
  have at: "table_at ?m root (path_of w) = table_at m root (path_of w)"
    by (rule leaf_write_tables [OF inv tree_path_of [OF v(1)] _ t _ tree_path_of [OF v(2)]])
      (simp_all add: path_of_def)
  show ?thesis
  proof (cases "table_at m root (path_of w)")
    case None
    then show ?thesis using at t walk_None_table by auto
  next
    case (Some t')
    then have "t' = t \<longleftrightarrow> path_of w = path_of v"
      using pt_inv_inj [OF inv tree_path_of [OF v(2)] tree_path_of [OF v(1)]] t by auto
    moreover have "leaf_entry ?m t' w =
        (if t' = t \<and> PT_L1_IDX w = PT_L1_IDX v then e else leaf_entry m t' w)"
      unfolding leaf_entry_def
      using quad.rd_slot_upd [OF ft _ pt_inv_frame [OF inv Some]] by auto
    ultimately show ?thesis using at Some by (simp add: walk_def)
  qed
qed

end
