(* ===== verification/Boot.thy ===== *)
theory Boot
  imports PageTree
begin

text \<open>
  The loader's page-table code (efi/src/main/cpp/virtual.cpp): creating the top-level table
  with its self map, mapping one page, a run of pages and freshly allocated pages, and the
  loader's own check of a mapping.

  The firmware is not part of the repository: its services are the fields of the parameter
  \<open>'f efi\<close>, which act on an opaque firmware state \<open>'f\<close>.  \<open>efi_alloc_laws\<close> states what the
  code relies on of \<open>AllocatePages\<close> (UEFI specification, 7.2): an error changes nothing, a
  success gives page-aligned pages that were not handed out before.  Messages of the \<open>Trace\<close>
  macros are not modelled; the variable \<open>logLevel\<close> that \<open>map_pages\<close> changes is.
\<close>

subsection \<open>Firmware\<close>

datatype EFI_MEMORY_TYPE =
    EfiReservedMemoryType | EfiLoaderCode | EfiLoaderData | EfiBootServicesCode
  | EfiBootServicesData | EfiRuntimeServicesCode | EfiRuntimeServicesData
  | EfiConventionalMemory | EfiUnusableMemory | EfiACPIReclaimMemory | EfiACPIMemoryNVS
  | EfiMemoryMappedIO | EfiMemoryMappedIOPortSpace | EfiPalCode | EfiPersistentMemory
  | EfiUnacceptedMemoryType | EfiMaxMemoryType | EfiOtherType u32

record EFI_MEMORY_DESCRIPTOR =
  Type :: EFI_MEMORY_TYPE
  PhysicalStart :: u64
  NumberOfPages :: u64

record 'f efi =
  EFI_ERROR :: "u64 \<Rightarrow> bool"
  EFI_LOAD_ERROR :: u64
  EFI_SIZE_TO_PAGES :: "u64 \<Rightarrow> u64"
  AllocatePages :: "'f \<Rightarrow> u64 \<Rightarrow> u64 \<times> u64 \<times> 'f"

definition page_span :: "u64 \<Rightarrow> nat \<Rightarrow> u64 set" where
  "page_span a n = (\<lambda>i. a + 4096 * of_nat i) ` {..<n}"

definition efi_alloc_laws :: "'f efi \<Rightarrow> ('f \<Rightarrow> u64 set) \<Rightarrow> bool" where
  "efi_alloc_laws efi owned \<longleftrightarrow>
     (\<forall>f n st a f'. AllocatePages efi f n = (st, a, f') \<longrightarrow>
        (if EFI_ERROR efi st then owned f' = owned f
         else frame_addr a \<and> unat a + 4096 * unat n \<le> 2 ^ 52 \<and>
           page_span a (unat n) \<inter> owned f = {} \<and> owned f' = owned f \<union> page_span a (unat n)))"

lemma efi_alloc_error:
  "efi_alloc_laws efi owned \<Longrightarrow> AllocatePages efi f n = (st, a, f') \<Longrightarrow> EFI_ERROR efi st \<Longrightarrow>
   owned f' = owned f"
  unfolding efi_alloc_laws_def by meson

lemma efi_alloc_page:
  assumes "efi_alloc_laws efi owned" "AllocatePages efi f 1 = (st, a, f')" "\<not> EFI_ERROR efi st"
  shows "frame_addr a" "a \<notin> owned f" "owned f' = insert a (owned f)"
proof -
  have s: "page_span a 1 = {a}" by (auto simp: page_span_def)
  have "frame_addr a \<and> page_span a (unat (1 :: u64)) \<inter> owned f = {} \<and>
      owned f' = owned f \<union> page_span a (unat (1 :: u64))"
    using assms unfolding efi_alloc_laws_def by meson
  then show "frame_addr a" "a \<notin> owned f" "owned f' = insert a (owned f)"
    using s by auto
qed

lemma efi_alloc_owned_mono:
  "efi_alloc_laws efi owned \<Longrightarrow> AllocatePages efi f n = (st, a, f') \<Longrightarrow> owned f \<subseteq> owned f'"
  unfolding efi_alloc_laws_def by (metis Un_upper1 order_refl)

subsection \<open>State and the error macros\<close>

record 'f boot =
  bmem :: mem
  fw :: 'f
  logLevel :: int

definition ErrorLevel :: int where "ErrorLevel = 0"
definition InfoLevel :: int where "InfoLevel = 1"
definition WarningLevel :: int where "WarningLevel = 2"
definition DebugLevel :: int where "DebugLevel = 3"
definition TraceLevel :: int where "TraceLevel = 4"

text \<open>A call's state and either the error status it returns or its result.\<close>

type_synonym ('f, 'a) outcome = "'f boot \<times> (u64 + 'a)"

definition TRYWRAPFN ::
  "('f, 'a) outcome \<Rightarrow> ('f boot \<Rightarrow> 'a \<Rightarrow> ('f, 'b) outcome) \<Rightarrow> ('f, 'b) outcome" where
  "TRYWRAPFN fn k = (case fn of (s, Inl status) \<Rightarrow> (s, Inl status) | (s, Inr a) \<Rightarrow> k s a)"

lemma TRYWRAPFN_simps [simp]:
  "TRYWRAPFN (s, Inl status) k = (s, Inl status)" "TRYWRAPFN (s, Inr a) k = k s a"
  by (simp_all add: TRYWRAPFN_def)

text \<open>\<open>TRYWRAP((BS->AllocatePages, 4, AllocateAnyPages, EfiLoaderData, pages, &addr))\<close>.\<close>

definition alloc_pages :: "'f efi \<Rightarrow> 'f boot \<Rightarrow> u64 \<Rightarrow> ('f, u64) outcome" where
  "alloc_pages efi s pages =
     (let (status, addr, f') = AllocatePages efi (fw s) pages in
      if EFI_ERROR efi status then (s\<lparr>fw := f'\<rparr>, Inl status) else (s\<lparr>fw := f'\<rparr>, Inr addr))"

subsection \<open>Creating and changing page tables\<close>

definition create_page_tables :: "'f efi \<Rightarrow> 'f boot \<Rightarrow> ('f, u64) outcome" where
  "create_page_tables efi s =
     TRYWRAPFN (alloc_pages efi s 1) (\<lambda>s pageTable.
       let m1 = memset (bmem s) pageTable 0 (PAGE_TABLE_ENTRY_COUNT * 8);
           m2 = write64 m1 (slot_addr pageTable 511) ((pageTable AND PAGE_ADDR_MASK) OR (Present OR RW))
       in (s\<lparr>bmem := m2\<rparr>, Inr pageTable))"

text \<open>One iteration of the loop of \<open>map_page\<close>: the next table, created if absent.\<close>

definition map_level :: "'f efi \<Rightarrow> u64 \<Rightarrow> int \<Rightarrow> 'f boot \<Rightarrow> u64 \<Rightarrow> ('f, u64) outcome" where
  "map_level efi virt_addr level s entries =
     (let idx = PT_IDX virt_addr level;
          page_entry = read64 (bmem s) (slot_addr entries idx) in
      if page_entry AND Present = 0 then
        TRYWRAPFN (alloc_pages efi s 1) (\<lambda>s page_addr.
          let m1 = memset (bmem s) page_addr 0 PAGE_SIZE;
              page_entry = (page_addr AND PAGE_ADDR_MASK) OR (Present OR RW);
              m2 = write64 m1 (slot_addr entries idx) page_entry
          in (s\<lparr>bmem := m2\<rparr>, Inr (page_entry AND PAGE_ADDR_MASK)))
      else (s, Inr (page_entry AND PAGE_ADDR_MASK)))"

text \<open>\<open>for (int level = 4; level >= 2; level--)\<close>: the counter is the number of levels left.\<close>

fun map_levels :: "'f efi \<Rightarrow> u64 \<Rightarrow> nat \<Rightarrow> 'f boot \<Rightarrow> u64 \<Rightarrow> ('f, u64) outcome" where
  "map_levels efi virt_addr 0 s entries = (s, Inr entries)"
| "map_levels efi virt_addr (Suc k) s entries =
     TRYWRAPFN (map_level efi virt_addr (int k + 2) s entries) (map_levels efi virt_addr k)"

definition map_page :: "'f efi \<Rightarrow> u64 \<Rightarrow> u64 \<Rightarrow> u64 \<Rightarrow> u64 \<Rightarrow> 'f boot \<Rightarrow> ('f, unit) outcome" where
  "map_page efi virt_addr phys_addr attrs pageTable s =
     TRYWRAPFN (map_levels efi virt_addr 3 s pageTable) (\<lambda>s entries.
       let idx = PT_L1_IDX virt_addr;
           page_entry = (phys_addr AND PAGE_ADDR_MASK) OR attrs
       in (s\<lparr>bmem := write64 (bmem s) (slot_addr entries idx) page_entry\<rparr>, Inr ()))"

text \<open>\<open>map_pages\<close>: \<open>i\<close> counts up to \<open>pages\<close>, a C \<open>int\<close> to which the callers convert their counts; the recursion is
  on the pages left.\<close>

fun map_pages_loop ::
  "'f efi \<Rightarrow> int \<Rightarrow> u64 \<Rightarrow> int \<Rightarrow> int \<Rightarrow> u64 \<Rightarrow> nat \<Rightarrow> u64 \<Rightarrow> u64 \<Rightarrow> 'f boot \<Rightarrow> ('f, unit) outcome" where
  "map_pages_loop efi prevLevel attr pages i pageTable 0 virt_addr phys_addr s = (s, Inr ())"
| "map_pages_loop efi prevLevel attr pages i pageTable (Suc left) virt_addr phys_addr s =
     (let s = (if i = 1 \<and> logLevel s > WarningLevel \<and> pages > 2
               then s\<lparr>logLevel := DebugLevel\<rparr> else s);
          s = (if i = pages - 1 then s\<lparr>logLevel := prevLevel\<rparr> else s)
      in TRYWRAPFN (map_page efi virt_addr phys_addr attr pageTable s) (\<lambda>s _.
           map_pages_loop efi prevLevel attr pages (i + 1) pageTable left
             (virt_addr + PAGE_SIZE) (phys_addr + PAGE_SIZE) s))"

definition map_pages ::
  "'f efi \<Rightarrow> u64 \<Rightarrow> u64 \<Rightarrow> u64 \<Rightarrow> int \<Rightarrow> u64 \<Rightarrow> 'f boot \<Rightarrow> ('f, unit) outcome" where
  "map_pages efi virt_addr phys_addr attr pages pageTable s =
     map_pages_loop efi (logLevel s) attr pages 0 pageTable (nat pages) virt_addr phys_addr s"

definition map_new_pages ::
  "'f efi \<Rightarrow> u64 \<Rightarrow> u64 \<Rightarrow> int \<Rightarrow> u64 \<Rightarrow> 'f boot \<Rightarrow> ('f, u64) outcome" where
  "map_new_pages efi virt_addr attr pages pageTable s =
     TRYWRAPFN (alloc_pages efi s (word_of_int pages)) (\<lambda>s phys_addr.
       TRYWRAPFN (map_pages efi virt_addr phys_addr attr pages pageTable s) (\<lambda>s _.
         (s, Inr phys_addr)))"

text \<open>\<open>check_addr\<close> follows the four levels without looking at the present bits.\<close>

definition check_addr :: "'f efi \<Rightarrow> u64 \<Rightarrow> u64 \<Rightarrow> 'f boot \<Rightarrow> ('f, unit) outcome" where
  "check_addr efi vaddr pageTable s =
     (let m = bmem s;
          l3 = read64 m (slot_addr pageTable (PT_L4_IDX vaddr));
          pageTable = l3 AND PAGE_ADDR_MASK;
          l2 = read64 m (slot_addr pageTable (PT_L3_IDX vaddr));
          pageTable = l2 AND PAGE_ADDR_MASK;
          l1 = read64 m (slot_addr pageTable (PT_L2_IDX vaddr));
          pageTable = l1 AND PAGE_ADDR_MASK;
          entry = read64 m (slot_addr pageTable (PT_L1_IDX vaddr));
          paddr = entry AND PAGE_ADDR_MASK
      in if paddr = 0 then (s, Inl (EFI_LOAD_ERROR efi)) else (s, Inr ()))"

subsection \<open>The invariant of the loader\<close>

text \<open>The tables lie in the pages that the firmware handed out, apart from the pages \<open>D\<close> that
  hold data.\<close>

definition boot_inv :: "('f \<Rightarrow> u64 set) \<Rightarrow> u64 set \<Rightarrow> u64 \<Rightarrow> 'f boot \<Rightarrow> bool" where
  "boot_inv owned D root s \<longleftrightarrow> pt_inv (bmem s) root (owned (fw s) - D) \<and> D \<subseteq> owned (fw s)"

text \<open>What every call of this file keeps: the invariant, the pages the firmware handed out, and
  all memory but that of the tables.\<close>

definition boot_step :: "('f \<Rightarrow> u64 set) \<Rightarrow> u64 set \<Rightarrow> u64 \<Rightarrow> 'f boot \<Rightarrow> 'f boot \<Rightarrow> bool" where
  "boot_step owned D root s s' \<longleftrightarrow> boot_inv owned D root s' \<and> owned (fw s) \<subseteq> owned (fw s') \<and>
     (\<forall>x. PT_PAGE_BASE x \<notin> owned (fw s') - D \<longrightarrow> bmem s' x = bmem s x)"

lemma alloc_pages_cases:
  obtains st a f' where "AllocatePages efi (fw s) n = (st, a, f')"
    "alloc_pages efi s n = (s\<lparr>fw := f'\<rparr>, if EFI_ERROR efi st then Inl st else Inr a)"
  by (cases "AllocatePages efi (fw s) n") (auto simp: alloc_pages_def)

lemma memset_page: "memset m p 0 PAGE_SIZE = clear_table m p"
  by (simp add: clear_table_def PAGE_SIZE_def kPageSize_def)

lemma next_table_read:
  "next_table m t i = (if read64 m (slot_addr t i) AND Present = 0 then None
     else Some (read64 m (slot_addr t i) AND PAGE_ADDR_MASK))"
  by (simp add: next_table_def Let_def)

text \<open>What one level does, on the tree of tables: the result is the next table on the path,
  and the translation of every address outside the self map is as before.\<close>

lemma map_level_spec:
  assumes laws: "efi_alloc_laws efi owned" and inv: "boot_inv owned D root s"
    and path: "tree_path is" and t: "table_at (bmem s) root is = Some t" and len: "length is < 3"
    and i: "PT_IDX v level = i" "is = [] \<longrightarrow> i \<noteq> 511"
    and call: "map_level efi v level s t = (s', r)"
  shows "boot_step owned D root s s'" and "logLevel s' = logLevel s"
    and "PT_L4_IDX w \<noteq> 511 \<Longrightarrow> walk (bmem s') root w = walk (bmem s) root w"
    and "r = Inr t' \<Longrightarrow> table_at (bmem s') root (is @ [i]) = Some t'"
proof -
  let ?m = "bmem s"
  have pinv: "pt_inv ?m root (owned (fw s) - D)" and D: "D \<subseteq> owned (fw s)"
    using inv by (simp_all add: boot_inv_def)
  have i512: "i < 512" using i(1) PT_IDX_less by auto
  have "boot_step owned D root s s' \<and> logLevel s' = logLevel s \<and>
    (PT_L4_IDX w \<noteq> 511 \<longrightarrow> walk (bmem s') root w = walk ?m root w) \<and>
    (r = Inr t' \<longrightarrow> table_at (bmem s') root (is @ [i]) = Some t')"
  proof (cases "next_table ?m t i")
    case (Some t1)
    then have "s' = s" "r = Inr t1"
      using call i(1) by (auto simp: map_level_def Let_def next_table_read split: if_splits)
    then show ?thesis using inv t Some by (auto simp: table_at_append boot_step_def)
  next
    case free: None
    obtain st a f' where al: "AllocatePages efi (fw s) 1 = (st, a, f')"
      and ap: "alloc_pages efi s 1 = (s\<lparr>fw := f'\<rparr>, if EFI_ERROR efi st then Inl st else Inr a)"
      by (rule alloc_pages_cases)
    show ?thesis
    proof (cases "EFI_ERROR efi st")
      case True
      then have "s' = s\<lparr>fw := f'\<rparr>" "r = Inl st"
        using call free i(1) ap
        by (auto simp: map_level_def Let_def next_table_read split: if_splits)
      then show ?thesis using inv efi_alloc_error [OF laws al True]
        by (simp add: boot_inv_def boot_step_def)
    next
      case False
      note page = efi_alloc_page [OF laws al False]
      have am: "a AND PAGE_ADDR_MASK = a"
        using page(1) by (simp add: frame_addr_def PAGE_ADDR_MASK_def)
      have s': "s' = s\<lparr>fw := f', bmem := link_table ?m t i a\<rparr>" and r: "r = Inr a"
        using call free i(1) ap False frame_link_entry [OF page(1)]
        by (auto simp: map_level_def Let_def next_table_read am memset_page link_table_def
            split: if_splits)
      have fresh: "a \<notin> owned (fw s) - D" using page(2) by simp
      have own: "owned f' - D = insert a (owned (fw s) - D)" using page(2,3) D by auto
      have td: "t \<in> owned (fw s) - D" by (rule pt_inv_owned [OF pinv path t])
      have mem: "link_table ?m t i a x = ?m x" if "PT_PAGE_BASE x \<notin> owned f' - D" for x
        by (rule link_table_other [OF pt_inv_frame [OF pinv t] i512 page(1)])
          (use that td own in auto)
      note link = pinv path t len i512 i(2) page(1) fresh
      note walk = link_table_walk [OF pinv path t len i512 i(2) free page(1) fresh, of w]
      show ?thesis
        using link_table_inv [OF link] walk
          link_table_tables [OF link tree_path_snoc [OF path len i512]] i(2) page(3) own D mem
        by (auto simp: s' r boot_inv_def boot_step_def)
    qed
  qed
  then show "boot_step owned D root s s'" "logLevel s' = logLevel s"
    "PT_L4_IDX w \<noteq> 511 \<Longrightarrow> walk (bmem s') root w = walk ?m root w"
    "r = Inr t' \<Longrightarrow> table_at (bmem s') root (is @ [i]) = Some t'"
    by blast+
qed

definition same_walks :: "u64 \<Rightarrow> 'f boot \<Rightarrow> 'f boot \<Rightarrow> bool" where
  "same_walks root s s' \<longleftrightarrow> (\<forall>w. PT_L4_IDX w \<noteq> 511 \<longrightarrow> walk (bmem s') root w = walk (bmem s) root w)"

lemma boot_step_trans: "boot_step owned D root s s' \<Longrightarrow> boot_step owned D root s' s'' \<Longrightarrow> boot_step owned D root s s''"
  by (auto simp: boot_step_def)

lemma boot_step_refl: "boot_inv owned D root s \<Longrightarrow> boot_step owned D root s s"
  by (simp add: boot_step_def)

lemma boot_step_inv: "boot_step owned D root s s' \<Longrightarrow> boot_inv owned D root s'"
  by (simp add: boot_step_def)

lemma same_walks_trans: "same_walks root s s' \<Longrightarrow> same_walks root s' s'' \<Longrightarrow> same_walks root s s''"
  by (simp add: same_walks_def)

fun idx_path :: "u64 \<Rightarrow> nat \<Rightarrow> u64 list" where
  "idx_path v 0 = []"
| "idx_path v (Suc k) = PT_IDX v (int k + 2) # idx_path v k"

lemma idx_path_3: "idx_path v 3 = path_of v"
  by (simp add: numeral_eq_Suc path_of_def PT_IDX_levels [simplified numeral_eq_Suc])

lemma map_levels_spec:
  assumes laws: "efi_alloc_laws efi owned"
  shows "boot_inv owned D root s \<Longrightarrow> tree_path (is @ idx_path v k) \<Longrightarrow>
    table_at (bmem s) root is = Some t \<Longrightarrow> length is + k = 3 \<Longrightarrow>
    map_levels efi v k s t = (s', r) \<Longrightarrow>
    boot_step owned D root s s' \<and> same_walks root s s' \<and> logLevel s' = logLevel s \<and>
    (\<forall>t'. r = Inr t' \<longrightarrow> table_at (bmem s') root (is @ idx_path v k) = Some t')"
proof (induction k arbitrary: "is" s t)
  case 0
  then show ?case by (auto simp: boot_step_refl same_walks_def)
next
  case (Suc k)
  let ?i = "PT_IDX v (int k + 2)"
  obtain s1 r1 where call: "map_level efi v (int k + 2) s t = (s1, r1)" by fastforce
  have path: "tree_path is" "is = [] \<longrightarrow> ?i \<noteq> 511"
    using Suc.prems(2) tree_path_prefix [of "is" "idx_path v (Suc k)"]
      tree_path_index [of "is" ?i "idx_path v k"] by simp_all
  have len: "length is < 3" using Suc.prems(4) by simp
  note lev = map_level_spec [OF laws Suc.prems(1) path(1) Suc.prems(3) len refl path(2) call]
  have step: "boot_step owned D root s s1" "same_walks root s s1"
    using lev(1,3) by (auto simp: same_walks_def)
  show ?case
  proof (cases r1)
    case (Inl st)
    then show ?thesis using Suc.prems(5) call step lev(2) by auto
  next
    case (Inr t1)
    have "boot_step owned D root s1 s' \<and> same_walks root s1 s' \<and> logLevel s' = logLevel s1 \<and>
      (\<forall>t'. r = Inr t' \<longrightarrow> table_at (bmem s') root ((is @ [?i]) @ idx_path v k) = Some t')"
      using Suc.prems boot_step_inv [OF lev(1)] lev(4) [OF Inr] call Inr by (intro Suc.IH [of s1 "is @ [?i]" t1]) auto
    then show ?thesis
      using step lev(2) boot_step_trans same_walks_trans by fastforce
  qed
qed

text \<open>Two addresses in one page, and in particular the page an address is mapped in.\<close>

definition same_page :: "u64 \<Rightarrow> u64 \<Rightarrow> bool" where
  "same_page v w \<longleftrightarrow> path_of v = path_of w \<and> PT_L1_IDX v = PT_L1_IDX w"

definition leaf_for :: "u64 \<Rightarrow> u64 \<Rightarrow> u64 option" where
  "leaf_for phys attrs =
     (let e = (phys AND PAGE_ADDR_MASK) OR attrs in if e AND Present = 0 then None else Some e)"

lemma map_page_spec:
  assumes laws: "efi_alloc_laws efi owned" and inv: "boot_inv owned D root s"
    and v: "PT_L4_IDX v \<noteq> 511" and call: "map_page efi v p attrs root s = (s', r)"
  shows "boot_step owned D root s s'" and "logLevel s' = logLevel s"
    and "r = Inr () \<Longrightarrow> PT_L4_IDX w \<noteq> 511 \<Longrightarrow>
      walk (bmem s') root w = (if same_page v w then leaf_for p attrs else walk (bmem s) root w)"
    and "r = Inl st \<Longrightarrow> same_walks root s s'"
proof -
  obtain s1 r1 where lv: "map_levels efi v 3 s root = (s1, r1)" by fastforce
  have tp: "tree_path ([] @ idx_path v 3)" using tree_path_of [OF v] by (simp add: idx_path_3)
  note levs = map_levels_spec [OF laws inv tp _ _ lv, simplified idx_path_3]
  have "boot_step owned D root s s' \<and> logLevel s' = logLevel s \<and>
    (r = Inr () \<longrightarrow> PT_L4_IDX w \<noteq> 511 \<longrightarrow>
      walk (bmem s') root w = (if same_page v w then leaf_for p attrs else walk (bmem s) root w)) \<and>
    (r = Inl st \<longrightarrow> same_walks root s s')"
  proof (cases r1)
    case (Inl st1)
    then show ?thesis using call lv levs by (auto simp: map_page_def)
  next
    case (Inr t)
    let ?e = "(p AND PAGE_ADDR_MASK) OR attrs"
    have at: "table_at (bmem s1) root (path_of v) = Some t" using levs Inr by simp
    have pinv: "pt_inv (bmem s1) root (owned (fw s1) - D)" and step: "boot_step owned D root s s1"
      using levs by (simp_all add: boot_step_def boot_inv_def)
    have s': "s' = s1\<lparr>bmem := write64 (bmem s1) (slot_addr t (PT_L1_IDX v)) ?e\<rparr>" and r: "r = Inr ()"
      using call lv Inr by (simp_all add: map_page_def Let_def)
    have "pt_inv (bmem s') root (owned (fw s') - D)"
      using leaf_write_inv [OF pinv tree_path_of [OF v] _ at] by (simp add: s' path_of_def)
    moreover have "bmem s' x = bmem s1 x" if "PT_PAGE_BASE x \<notin> owned (fw s') - D" for x
    proof -
      have "PT_PAGE_BASE x \<noteq> t"
        using that pt_inv_owned [OF pinv tree_path_of [OF v] at] by (auto simp: s')
      then show ?thesis
        using write64_slot_other [OF pt_inv_frame [OF pinv at] PT_L1_IDX_less] by (simp add: s')
    qed
    ultimately have "boot_step owned D root s1 s'"
      using step by (simp add: boot_step_def boot_inv_def s')
    then have "boot_step owned D root s s'" using step boot_step_trans by blast
    moreover have "walk (bmem s') root w = (if same_page v w then leaf_for p attrs else walk (bmem s) root w)"
      if "PT_L4_IDX w \<noteq> 511"
      using leaf_write_walk [OF pinv v that at, of ?e] levs that
      by (auto simp: s' same_page_def leaf_for_def Let_def same_walks_def)
    ultimately show ?thesis using levs r by (simp add: s')
  qed
  then show "boot_step owned D root s s'" "logLevel s' = logLevel s"
    "r = Inr () \<Longrightarrow> PT_L4_IDX w \<noteq> 511 \<Longrightarrow>
      walk (bmem s') root w = (if same_page v w then leaf_for p attrs else walk (bmem s) root w)"
    "r = Inl st \<Longrightarrow> same_walks root s s'"
    by blast+
qed

text \<open>The top-level table right after its creation.\<close>

lemma create_page_tables_spec:
  assumes laws: "efi_alloc_laws efi owned" and call: "create_page_tables efi s = (s', Inr root)"
    and D: "D \<subseteq> owned (fw s)"
  shows "boot_inv owned D root s'" and "PT_L4_IDX w \<noteq> 511 \<Longrightarrow> walk (bmem s') root w = None"
    and "root \<notin> owned (fw s)"
proof -
  obtain st a f' where al: "AllocatePages efi (fw s) 1 = (st, a, f')"
    and ap: "alloc_pages efi s 1 = (s\<lparr>fw := f'\<rparr>, if EFI_ERROR efi st then Inl st else Inr a)"
    by (rule alloc_pages_cases)
  have ne: "\<not> EFI_ERROR efi st" using call ap by (auto simp: create_page_tables_def)
  note page = efi_alloc_page [OF laws al ne]
  have am: "a AND PAGE_ADDR_MASK = a" using page(1) by (simp add: frame_addr_def PAGE_ADDR_MASK_def)
  have sz: "memset m q 0 (PAGE_TABLE_ENTRY_COUNT * 8) = clear_table m q" for m q
    by (simp add: clear_table_def kPageSize_def PAGE_TABLE_ENTRY_COUNT_def)
  have root: "root = a" and s': "s' = s\<lparr>fw := f', bmem := link_table (bmem s) a 511 a\<rparr>"
    using call ap ne by (auto simp: create_page_tables_def Let_def am sz link_table_def)
  have rd: "read64 (bmem s') (slot_addr a k) = (if k = 511 then a OR (Present OR RW) else 0)" if "k < 512" for k
    using link_table_read [OF page(1) _ page(1) page(1) that, of 511] by (simp add: s')
  have none: "table_at (bmem s') a is = None" if path: "tree_path is" "is \<noteq> []" for "is"
  proof -
    obtain i js where "is = i # js" using path(2) by (cases "is") auto
    then show ?thesis using path(1) rd [of i] by (auto simp: tree_path_def next_table_read)
  qed
  have nil: "is = []" if "tree_path is" "table_at (bmem s') a is = Some t" for "is" t
    using none that by fastforce
  show "boot_inv owned D root s'"
    unfolding boot_inv_def pt_inv_def root
  proof (intro conjI allI impI)
    show "read64 (bmem s') (slot_addr a 511) = a OR (Present OR RW)" using rd [of 511] by simp
    show "t \<in> owned (fw s') - D" if "tree_path is" "table_at (bmem s') a is = Some t" for "is" t
      using nil [OF that] that page(2,3) D by (auto simp: s')
    show "is = js" if "tree_path is" "tree_path js" "table_at (bmem s') a is = Some t"
      "table_at (bmem s') a js = Some t" for "is" js t
      using nil that by metis
    show "D \<subseteq> owned (fw s')" using page(3) D by (auto simp: s')
  qed (rule page(1))
  show "PT_L4_IDX w \<noteq> 511 \<Longrightarrow> walk (bmem s') root w = None"
    using none [OF tree_path_of [of w]] by (simp add: walk_def root path_of_def)
  show "root \<notin> owned (fw s)" using page(2) root by simp
qed

subsection \<open>Runs of pages\<close>

text \<open>Two addresses are in one page when they agree in bits 12 to 47.\<close>

lemma bit_low: "bit (PT_IDX v l) (n - nat (12 + (l - 1) * 9)) \<longleftrightarrow> bit v n"
  if "nat (12 + (l - 1) * 9) \<le> n" "n < nat (12 + (l - 1) * 9) + 9"
  unfolding bit_PT_IDX using that by auto

lemma same_page_bits:
  "same_page v w \<longleftrightarrow> (\<forall>n. 12 \<le> n \<longrightarrow> n < 48 \<longrightarrow> bit v n = bit w n)"
proof
  assume "same_page v w"
  then have idx: "PT_IDX v 4 = PT_IDX w 4" "PT_IDX v 3 = PT_IDX w 3" "PT_IDX v 2 = PT_IDX w 2"
    "PT_IDX v 1 = PT_IDX w 1"
    by (simp_all add: same_page_def path_of_def PT_IDX_levels)
  show "\<forall>n. 12 \<le> n \<longrightarrow> n < 48 \<longrightarrow> bit v n = bit w n"
  proof (intro allI impI)
    fix n :: nat
    assume "12 \<le> n" "n < 48"
    then consider "12 \<le> n \<and> n < 21" | "21 \<le> n \<and> n < 30" | "30 \<le> n \<and> n < 39" | "39 \<le> n \<and> n < 48"
      by linarith
    then show "bit v n = bit w n"
    proof cases
      case 1
      then show ?thesis using bit_low [of 1 n v] bit_low [of 1 n w] idx(4) by simp
    next
      case 2
      then show ?thesis using bit_low [of 2 n v] bit_low [of 2 n w] idx(3) by simp
    next
      case 3
      then show ?thesis using bit_low [of 3 n v] bit_low [of 3 n w] idx(2) by simp
    next
      case 4
      then show ?thesis using bit_low [of 4 n v] bit_low [of 4 n w] idx(1) by simp
    qed
  qed
next
  assume *: "\<forall>n. 12 \<le> n \<longrightarrow> n < 48 \<longrightarrow> bit v n = bit w n"
  have "PT_IDX v l = PT_IDX w l" if "l \<in> {1, 2, 3, 4}" for l
    using that * by (intro bit_eqI) (auto simp: bit_PT_IDX)
  then show "same_page v w" by (simp add: same_page_def path_of_def PT_IDX_levels [symmetric])
qed

lemma same_page_refl [simp]: "same_page v v"
  by (simp add: same_page_def)

lemma same_page_nat:
  "same_page v w \<longleftrightarrow> unat v div 4096 mod 2 ^ 36 = unat w div 4096 mod 2 ^ 36"
proof -
  have n: "unat x div 4096 mod 2 ^ 36 = unat (take_bit 36 (drop_bit 12 x))" for x :: u64
  proof -
    have "unat (take_bit 36 (drop_bit 12 x)) = take_bit 36 (drop_bit 12 (unat x))"
      by (simp only: unsigned_take_bit_eq unsigned_drop_bit_eq)
        (rule bit_eqI, auto simp: bit_simps dest: bit_imp_le_length)
    then show ?thesis by (simp only: take_bit_eq_mod drop_bit_eq_div) simp
  qed
  have "same_page v w \<longleftrightarrow> take_bit 36 (drop_bit 12 v) = take_bit 36 (drop_bit 12 w)"
  proof
    assume "same_page v w"
    then show "take_bit 36 (drop_bit 12 v) = take_bit 36 (drop_bit 12 w)"
      unfolding same_page_bits by (intro bit_eqI) (auto simp: bit_take_bit_iff bit_drop_bit_eq)
  next
    assume eq: "take_bit 36 (drop_bit 12 v) = take_bit 36 (drop_bit 12 w)"
    have "bit v n = bit w n" if "12 \<le> n" "n < 48" for n
    proof -
      have "bit (take_bit 36 (drop_bit 12 v)) (n - 12) = bit v n"
        "bit (take_bit 36 (drop_bit 12 w)) (n - 12) = bit w n"
        using that by (auto simp: bit_take_bit_iff bit_drop_bit_eq)
      with eq show ?thesis by simp
    qed
    then show "same_page v w" unfolding same_page_bits by blast
  qed
  then show ?thesis unfolding n by (auto dest: injD [OF inj_unsigned])
qed

lemma page_index_add:
  "i < 2 ^ 36 \<Longrightarrow>
   unat (v + 4096 * of_nat i :: u64) div 4096 mod 2 ^ 36 = (unat v div 4096 + i) mod 2 ^ 36"
proof -
  assume i: "i < 2 ^ 36"
  have "unat (4096 * of_nat i :: u64) = 4096 * i"
    using i by (simp add: unat_word_ariths unat_of_nat take_bit_eq_mod)
  then have u: "unat (v + 4096 * of_nat i) = (unat v + 4096 * i) mod 2 ^ 64"
    by (simp add: unat_word_ariths)
  have "(x mod 2 ^ 64) div 4096 mod 2 ^ 36 = x div 4096 mod (2 ^ 36 :: nat)" for x :: nat
  proof -
    have "x mod 2 ^ 64 = take_bit 64 x" "x div 4096 = drop_bit 12 x"
      "take_bit 64 x div 4096 = drop_bit 12 (take_bit 64 x)" "y mod 2 ^ 36 = take_bit 36 y" for y
      by (simp_all add: take_bit_eq_mod drop_bit_eq_div)
    moreover have "take_bit 36 (drop_bit 12 (take_bit 64 x)) = take_bit 36 (drop_bit 12 x)"
      by (rule bit_eqI) (auto simp: bit_take_bit_iff bit_drop_bit_eq)
    ultimately show ?thesis by (simp add: take_bit_eq_mod)
  qed
  then show ?thesis unfolding u by (simp add: add.commute)
qed

lemma mod_add_inj: "(a + i) mod (n :: nat) = (a + j) mod n \<Longrightarrow> i < n \<Longrightarrow> j < n \<Longrightarrow> i = j"
proof (induction i j rule: linorder_wlog)
  case (le i j)
  then have "n dvd (a + j) - (a + i)" using mod_eq_dvd_iff_nat [of "a + i" "a + j" n] by simp
  with le show ?case by (auto dest: dvd_imp_le)
qed simp

lemma same_page_run:
  assumes "i < 2 ^ 36" "j < 2 ^ 36"
  shows "same_page (v + 4096 * of_nat i) (v + 4096 * of_nat j) \<longleftrightarrow> i = j"
proof
  assume "same_page (v + 4096 * of_nat i) (v + 4096 * of_nat j)"
  then have "(unat v div 4096 + i) mod 2 ^ 36 = (unat v div 4096 + j) mod 2 ^ 36"
    using assms by (simp only: same_page_nat page_index_add)
  with assms show "i = j" by (auto dest: mod_add_inj)
qed simp

text \<open>What a run of \<open>n\<close> pages at \<open>v\<close> to \<open>p\<close> leaves: every page of the run is mapped to its
  frame, every other page as before.\<close>

definition mapped_run :: "u64 \<Rightarrow> u64 \<Rightarrow> u64 \<Rightarrow> nat \<Rightarrow> u64 \<Rightarrow> 'f boot \<Rightarrow> 'f boot \<Rightarrow> bool" where
  "mapped_run v p attrs n root s s' \<longleftrightarrow>
     (\<forall>i < n. walk (bmem s') root (v + 4096 * of_nat i) = leaf_for (p + 4096 * of_nat i) attrs) \<and>
     (\<forall>w. PT_L4_IDX w \<noteq> 511 \<longrightarrow> (\<forall>i < n. \<not> same_page (v + 4096 * of_nat i) w) \<longrightarrow>
        walk (bmem s') root w = walk (bmem s) root w)"

text \<open>The run lies outside the 512 GiB of the self map.\<close>

definition run_outside :: "u64 \<Rightarrow> nat \<Rightarrow> bool" where
  "run_outside v n \<longleftrightarrow> (\<forall>i < n. PT_L4_IDX (v + 4096 * of_nat i) \<noteq> 511)"

lemma run_outside_Suc: "run_outside v (Suc n) \<longleftrightarrow> PT_L4_IDX v \<noteq> 511 \<and> run_outside (v + 4096) n"
  unfolding run_outside_def less_Suc_eq_0_disj by (auto simp: algebra_simps)

lemma mapped_run_Suc:
  assumes n: "n < 2 ^ 36" and out: "PT_L4_IDX v \<noteq> 511"
    and first: "\<And>w. PT_L4_IDX w \<noteq> 511 \<Longrightarrow>
      walk (bmem s1) root w = (if same_page v w then leaf_for p attrs else walk (bmem s) root w)"
    and rest: "mapped_run (v + 4096) (p + 4096) attrs n root s1 s'"
  shows "mapped_run v p attrs (Suc n) root s s'"
proof -
  have shift: "v + 4096 + 4096 * of_nat i = v + 4096 * of_nat (Suc i)"
    "p + 4096 + 4096 * of_nat i = p + 4096 * of_nat (Suc i)" for i
    by (simp_all add: algebra_simps)
  have "\<not> same_page (v + 4096 + 4096 * of_nat i) v" if "i < n" for i
    using that n same_page_run [of "Suc i" 0 v] unfolding shift by simp
  then have "walk (bmem s') root v = leaf_for p attrs"
    using rest out first [OF out] by (simp add: mapped_run_def)
  moreover have "walk (bmem s') root (v + 4096 * of_nat (Suc i)) = leaf_for (p + 4096 * of_nat (Suc i)) attrs"
    if "i < n" for i
    using rest that by (simp add: mapped_run_def shift)
  moreover have "walk (bmem s') root w = walk (bmem s) root w"
    if w: "PT_L4_IDX w \<noteq> 511" "\<forall>i < Suc n. \<not> same_page (v + 4096 * of_nat i) w" for w
  proof -
    have "\<not> same_page v w" using spec [OF w(2), of 0] by simp
    moreover have "\<forall>i < n. \<not> same_page (v + 4096 + 4096 * of_nat i) w"
      unfolding shift using w(2) Suc_less_eq by blast
    ultimately show ?thesis using rest first [OF w(1)] w(1) by (simp add: mapped_run_def)
  qed
  ultimately show ?thesis
    unfolding mapped_run_def less_Suc_eq_0_disj by auto
qed

lemma map_pages_loop_spec:
  assumes laws: "efi_alloc_laws efi owned"
  shows "boot_inv owned D root s \<Longrightarrow> run_outside v n \<Longrightarrow> n \<le> 2 ^ 36 \<Longrightarrow> i + int n = pages \<Longrightarrow>
    map_pages_loop efi prev attr pages i root n v p s = (s', r) \<Longrightarrow>
    boot_step owned D root s s' \<and>
    (r = Inr () \<longrightarrow> mapped_run v p attr n root s s' \<and> (0 < n \<longrightarrow> logLevel s' = prev))"
proof (induction n arbitrary: v p s i)
  case 0
  then show ?case by (simp add: boot_step_refl mapped_run_def)
next
  case (Suc n)
  define s0 where "s0 = (let s = (if i = 1 \<and> logLevel s > WarningLevel \<and> pages > 2
    then s\<lparr>logLevel := DebugLevel\<rparr> else s) in (if i = pages - 1 then s\<lparr>logLevel := prev\<rparr> else s))"
  have s0: "bmem s0 = bmem s" "fw s0 = fw s" by (simp_all add: s0_def Let_def)
  have l0: "n = 0 \<Longrightarrow> logLevel s0 = prev" using Suc.prems(4) by (auto simp: s0_def Let_def)
  obtain s1 r1 where mp: "map_page efi v p attr root s0 = (s1, r1)" by fastforce
  have call: "TRYWRAPFN (s1, r1) (\<lambda>s _. map_pages_loop efi prev attr pages (i + 1) root n
      (v + PAGE_SIZE) (p + PAGE_SIZE) s) = (s', r)"
    using Suc.prems(5) mp by (simp add: s0_def Let_def cong: if_cong)
  have inv0: "boot_inv owned D root s0" using Suc.prems(1) by (simp add: boot_inv_def s0)
  have out: "PT_L4_IDX v \<noteq> 511" "run_outside (v + 4096) n"
    using Suc.prems(2) by (simp_all add: run_outside_Suc)
  note page = map_page_spec [OF laws inv0 out(1) mp]
  have step: "boot_step owned D root s s1" using page(1) by (simp add: boot_step_def s0)
  show ?case
  proof (cases r1)
    case (Inl st)
    then show ?thesis using call step by auto
  next
    case (Inr u)
    then have r1: "r1 = Inr ()" by simp
    have rest: "map_pages_loop efi prev attr pages (i + 1) root n (v + 4096) (p + 4096) s1 = (s', r)"
      using call r1 by (simp add: PAGE_SIZE_def)
    have IH: "boot_step owned D root s1 s' \<and> (r = Inr () \<longrightarrow>
        mapped_run (v + 4096) (p + 4096) attr n root s1 s' \<and> (0 < n \<longrightarrow> logLevel s' = prev))"
      using Suc.prems(3,4) by (intro Suc.IH [OF boot_step_inv [OF step] out(2) _ _ rest]) simp_all
    have run: "mapped_run v p attr (Suc n) root s s'" if "r = Inr ()"
    proof (rule mapped_run_Suc [OF _ out(1)])
      show "n < 2 ^ 36" using Suc.prems(3) by simp
      show "mapped_run (v + 4096) (p + 4096) attr n root s1 s'" using IH that by simp
      show "walk (bmem s1) root w = (if same_page v w then leaf_for p attr else walk (bmem s) root w)"
        if "PT_L4_IDX w \<noteq> 511" for w using page(3) [OF r1 that] by (simp add: s0)
    qed
    have "logLevel s' = prev" if "r = Inr ()"
    proof (cases "n = 0")
      case True
      then show ?thesis using rest l0 page(2) by simp
    next
      case False
      then show ?thesis using IH that by simp
    qed
    with run IH step boot_step_trans show ?thesis by blast
  qed
qed

lemma map_pages_spec:
  assumes laws: "efi_alloc_laws efi owned" and inv: "boot_inv owned D root s"
    and run: "run_outside v (nat pages)" "nat pages \<le> 2 ^ 36"
    and call: "map_pages efi v p attr pages root s = (s', r)"
  shows "boot_step owned D root s s'"
    and "r = Inr () \<Longrightarrow> mapped_run v p attr (nat pages) root s s' \<and> logLevel s' = logLevel s"
proof -
  have loop: "map_pages_loop efi (logLevel s) attr pages 0 root (nat pages) v p s = (s', r)"
    using call by (simp add: map_pages_def)
  have "boot_step owned D root s s' \<and>
    (r = Inr () \<longrightarrow> mapped_run v p attr (nat pages) root s s' \<and> logLevel s' = logLevel s)"
  proof (cases "0 < pages")
    case True
    then show ?thesis using map_pages_loop_spec [OF laws inv run _ loop] by simp
  next
    case False
    then show ?thesis using loop inv by (simp add: boot_step_refl mapped_run_def)
  qed
  then show "boot_step owned D root s s'"
    "r = Inr () \<Longrightarrow> mapped_run v p attr (nat pages) root s s' \<and> logLevel s' = logLevel s"
    by auto
qed

text \<open>The new pages hold data from now on, so they are none of the tables'.\<close>

definition new_data :: "('f \<Rightarrow> u64 set) \<Rightarrow> u64 set \<Rightarrow> u64 \<Rightarrow> u64 \<Rightarrow> nat \<Rightarrow> 'f boot \<Rightarrow> 'f boot \<Rightarrow> bool" where
  "new_data owned D root p n s s' \<longleftrightarrow>
     frame_addr p \<and> unat p + 4096 * n \<le> 2 ^ 52 \<and> page_span p n \<inter> owned (fw s) = {} \<and>
     boot_inv owned (D \<union> page_span p n) root s' \<and>
     (\<forall>x. PT_PAGE_BASE x \<notin> owned (fw s') - (D \<union> page_span p n) \<longrightarrow> bmem s' x = bmem s x)"

lemma efi_alloc_span:
  assumes "efi_alloc_laws efi owned" "AllocatePages efi f n = (st, a, f')" "\<not> EFI_ERROR efi st"
  shows "frame_addr a" "unat a + 4096 * unat n \<le> 2 ^ 52" "page_span a (unat n) \<inter> owned f = {}"
    "owned f' = owned f \<union> page_span a (unat n)"
  using assms unfolding efi_alloc_laws_def by meson+

lemma map_new_pages_spec:
  assumes laws: "efi_alloc_laws efi owned" and inv: "boot_inv owned D root s"
    and run: "run_outside v (nat pages)" "nat pages \<le> 2 ^ 36" and pos: "0 \<le> pages"
    and call: "map_new_pages efi v attr pages root s = (s', r)"
  shows "boot_step owned D root s s'"
    and "r = Inr p \<Longrightarrow> mapped_run v p attr (nat pages) root s s' \<and> logLevel s' = logLevel s \<and>
      new_data owned D root p (nat pages) s s'"
proof -
  obtain st a f' where al: "AllocatePages efi (fw s) (word_of_int pages) = (st, a, f')"
    and ap: "alloc_pages efi s (word_of_int pages) =
      (s\<lparr>fw := f'\<rparr>, if EFI_ERROR efi st then Inl st else Inr a)"
    by (rule alloc_pages_cases)
  let ?s1 = "s\<lparr>fw := f'\<rparr>" and ?S = "page_span a (nat pages)"
  have sub: "owned (fw s) \<subseteq> owned f'" by (rule efi_alloc_owned_mono [OF laws al])
  have inv1: "boot_inv owned D root ?s1"
    using inv sub pt_inv_mono [of "bmem s" root "owned (fw s) - D" "owned f' - D"]
    by (auto simp: boot_inv_def)
  have step1: "boot_step owned D root s ?s1" using inv1 sub by (simp add: boot_step_def)
  have "boot_step owned D root s s' \<and> (r = Inr p \<longrightarrow> mapped_run v p attr (nat pages) root s s' \<and>
      logLevel s' = logLevel s \<and> new_data owned D root p (nat pages) s s')"
  proof (cases "EFI_ERROR efi st")
    case True
    then show ?thesis using call ap step1 by (auto simp: map_new_pages_def)
  next
    case False
    have n: "unat (word_of_int pages :: u64) = nat pages"
    proof -
      have e: "word_of_int pages = (of_nat (nat pages) :: u64)" using pos by simp
      show ?thesis unfolding e by (rule unat_of_nat_small) (use run(2) in simp)
    qed
    note span = efi_alloc_span [OF laws al False, unfolded n]
    obtain s2 r2 where mp: "map_pages efi v a attr pages root ?s1 = (s2, r2)" by fastforce
    have inv2: "boot_inv owned (D \<union> ?S) root ?s1"
      using inv span(3,4) pt_inv_mono [of "bmem s" root "owned (fw s) - D" "owned f' - (D \<union> ?S)"]
      by (auto simp: boot_inv_def)
    note ms = map_pages_spec [OF laws inv1 run mp] and ms2 = map_pages_spec [OF laws inv2 run mp]
    have r: "s' = s2" "r = Inr p \<Longrightarrow> p = a \<and> r2 = Inr ()"
      using call ap False mp by (auto simp: map_new_pages_def split: sum.splits) (cases r2; auto)+
    have "new_data owned D root a (nat pages) s s'"
      using ms2(1) span by (simp add: new_data_def boot_step_def r(1))
    then show ?thesis using ms step1 boot_step_trans r by (fastforce simp: mapped_run_def)
  qed
  then show "boot_step owned D root s s'"
    "r = Inr p \<Longrightarrow> mapped_run v p attr (nat pages) root s s' \<and> logLevel s' = logLevel s \<and>
      new_data owned D root p (nat pages) s s'"
    by blast+
qed

text \<open>\<open>check_addr\<close> accepts every address that \<open>map_page\<close> has mapped to a frame other than 0.\<close>

lemma check_addr_walk:
  assumes "walk (bmem s) root v = Some e" "e AND PAGE_ADDR_MASK \<noteq> 0"
  shows "check_addr efi v root s = (s, Inr ())"
proof -
  obtain t where t: "table_at (bmem s) root (path_of v) = Some t" and e: "leaf_entry (bmem s) t v = e"
    using assms(1) by (auto simp: walk_def Let_def split: option.splits if_splits)
  then show ?thesis
    using assms(2)
    by (auto simp: check_addr_def Let_def path_of_def next_table_read leaf_entry_def
        split: option.splits if_splits)
qed

end
