(* ===== verification/Elf.thy ===== *)
theory Elf
  imports Memory
begin

text \<open>
  The ELF structures the loader reads (include/packages/elf/elf.h): the 64-bit file header and
  program header with the field offsets of the System V x86-64 layout, the readers that take
  them out of memory byte by byte in little-endian order, the symbol and relocation macros, and
  the symbol hash \<open>elf64_hash\<close>.
\<close>

subsection \<open>Little-endian fields\<close>

definition read16 :: "mem \<Rightarrow> u64 \<Rightarrow> u16" where
  "read16 m a = ucast (m a) OR push_bit 8 (ucast (m (a + 1)))"

definition read32 :: "mem \<Rightarrow> u64 \<Rightarrow> u32" where
  "read32 m a = ucast (m a) OR push_bit 8 (ucast (m (a + 1)))
     OR push_bit 16 (ucast (m (a + 2))) OR push_bit 24 (ucast (m (a + 3)))"

lemma read32_cong: "(\<And>i. i < 4 \<Longrightarrow> m (a + i) = m' (a + i)) \<Longrightarrow> read32 m a = read32 m' a"
proof -
  assume *: "\<And>i. i < 4 \<Longrightarrow> m (a + i) = m' (a + i)"
  show ?thesis using * [of 0] * [of 1] * [of 2] * [of 3] by (simp add: read32_def)
qed

subsection \<open>Constants\<close>

definition EI_NIDENT :: nat where "EI_NIDENT = 16"
definition ELFMAG0 :: u8 where "ELFMAG0 = 0x7f"
definition ELFMAG1 :: u8 where "ELFMAG1 = 0x45"
definition ELFMAG2 :: u8 where "ELFMAG2 = 0x4C"
definition ELFMAG3 :: u8 where "ELFMAG3 = 0x46"
definition PT_NULL :: u32 where "PT_NULL = 0"
definition PT_LOAD :: u32 where "PT_LOAD = 1"
definition PF_X :: u32 where "PF_X = 1"
definition PF_W :: u32 where "PF_W = 2"
definition PF_R :: u32 where "PF_R = 4"

subsection \<open>Headers\<close>

record Elf64_Ehdr =
  e_ident :: "u8 list"
  e_type :: u16
  e_machine :: u16
  e_version :: u32
  e_entry :: u64
  e_phoff :: u64
  e_shoff :: u64
  e_flags :: u32
  e_ehsize :: u16
  e_phentsize :: u16
  e_phnum :: u16
  e_shentsize :: u16
  e_shnum :: u16
  e_shstrndx :: u16

definition read_Ehdr :: "mem \<Rightarrow> u64 \<Rightarrow> Elf64_Ehdr" where
  "read_Ehdr m a = \<lparr>
     e_ident = map (\<lambda>i. m (a + of_nat i)) [0..<EI_NIDENT],
     e_type = read16 m (a + 16),
     e_machine = read16 m (a + 18),
     e_version = read32 m (a + 20),
     e_entry = read64 m (a + 24),
     e_phoff = read64 m (a + 32),
     e_shoff = read64 m (a + 40),
     e_flags = read32 m (a + 48),
     e_ehsize = read16 m (a + 52),
     e_phentsize = read16 m (a + 54),
     e_phnum = read16 m (a + 56),
     e_shentsize = read16 m (a + 58),
     e_shnum = read16 m (a + 60),
     e_shstrndx = read16 m (a + 62)\<rparr>"

record Elf64_Phdr =
  p_type :: u32
  p_flags :: u32
  p_offset :: u64
  p_vaddr :: u64
  p_paddr :: u64
  p_filesz :: u64
  p_memsz :: u64
  p_align :: u64

definition read_Phdr :: "mem \<Rightarrow> u64 \<Rightarrow> Elf64_Phdr" where
  "read_Phdr m a = \<lparr>
     p_type = read32 m a,
     p_flags = read32 m (a + 4),
     p_offset = read64 m (a + 8),
     p_vaddr = read64 m (a + 16),
     p_paddr = read64 m (a + 24),
     p_filesz = read64 m (a + 32),
     p_memsz = read64 m (a + 40),
     p_align = read64 m (a + 48)\<rparr>"

definition sizeof_Phdr :: u64 where "sizeof_Phdr = 56"

subsection \<open>Symbol and relocation words\<close>

definition ELF32_ST_BIND :: "u8 \<Rightarrow> u8" where "ELF32_ST_BIND i = drop_bit 4 i"
definition ELF32_ST_TYPE :: "u8 \<Rightarrow> u8" where "ELF32_ST_TYPE i = i AND 0xf"
definition ELF32_ST_INFO :: "u8 \<Rightarrow> u8 \<Rightarrow> u8" where "ELF32_ST_INFO b t = push_bit 4 b + (t AND 0xf)"
definition ELF64_R_SYM :: "u64 \<Rightarrow> u64" where "ELF64_R_SYM i = drop_bit 32 i"
definition ELF64_R_TYPE :: "u64 \<Rightarrow> u64" where "ELF64_R_TYPE i = i AND 0xffffffff"
definition ELF64_R_INFO :: "u64 \<Rightarrow> u64 \<Rightarrow> u64" where
  "ELF64_R_INFO s t = push_bit 32 s + (t AND 0xffffffff)"

lemma disjoint_low_high:
  fixes b t :: "'a::len word"
  shows "push_bit k b + take_bit k t = push_bit k b OR take_bit k t"
  by (rule disjunctive_add_eq_or) (auto simp: bit_simps intro!: bit_eqI)

lemma ELF64_R_roundtrip:
  "ELF64_R_TYPE (ELF64_R_INFO s t) = take_bit 32 t"
  "take_bit 32 (ELF64_R_SYM (ELF64_R_INFO s t)) = take_bit 32 s"
proof -
  have m: "(0xffffffff :: u64) = mask 32" by (simp add: mask_eq_exp_minus_1)
  have t: "x AND 0xffffffff = take_bit 32 x" for x :: u64
    unfolding m by (simp add: take_bit_eq_mask)
  show "ELF64_R_TYPE (ELF64_R_INFO s t) = take_bit 32 t"
    unfolding ELF64_R_TYPE_def ELF64_R_INFO_def t disjoint_low_high
    by (rule bit_eqI) (auto simp: bit_simps)
  show "take_bit 32 (ELF64_R_SYM (ELF64_R_INFO s t)) = take_bit 32 s"
    unfolding ELF64_R_SYM_def ELF64_R_INFO_def t disjoint_low_high
    by (rule bit_eqI) (auto simp: bit_simps)
qed

subsection \<open>The symbol hash\<close>

text \<open>One iteration of \<open>elf64_hash\<close>: \<open>h\<close> is an \<open>unsigned long\<close> of 64 bits; \<open>name\<close> is the
  bytes of the string before its terminating zero.\<close>

definition elf64_hash_step :: "u64 \<Rightarrow> u8 \<Rightarrow> u64" where
  "elf64_hash_step h c =
     (let h1 = push_bit 4 h + ucast c;
          g = h1 AND 0xf0000000;
          h2 = (if g \<noteq> 0 then h1 XOR drop_bit 24 g else h1)
      in h2 AND 0x0fffffff)"

definition elf64_hash :: "u8 list \<Rightarrow> u64" where
  "elf64_hash name = foldl elf64_hash_step 0 name"

text \<open>The System V definition, on 32-bit words with \<open>h &= ~g\<close>, as in the commented
  \<open>elf_hash\<close> further down the header.\<close>

definition sysv_hash_step :: "u32 \<Rightarrow> u8 \<Rightarrow> u32" where
  "sysv_hash_step h c =
     (let h1 = push_bit 4 h + ucast c;
          g = h1 AND 0xf0000000;
          h2 = (if g \<noteq> 0 then h1 XOR drop_bit 24 g else h1)
      in h2 AND NOT g)"

definition sysv_hash :: "u8 list \<Rightarrow> u32" where
  "sysv_hash name = foldl sysv_hash_step 0 name"

lemma xor_if_zero: "(if g \<noteq> 0 then h XOR drop_bit k g else h) = h XOR drop_bit k (g :: 'a::len word)"
  by simp

lemma bit_f0000000: "bit (0xf0000000 :: u64) n \<longleftrightarrow> 28 \<le> n \<and> n < 32"
  "bit (0xf0000000 :: u32) n \<longleftrightarrow> 28 \<le> n \<and> n < 32"
proof -
  have "(0xf0000000 :: u64) = push_bit 28 (mask 4)" "(0xf0000000 :: u32) = push_bit 28 (mask 4)"
    by (simp_all add: mask_eq_exp_minus_1 push_bit_eq_mult)
  then show "bit (0xf0000000 :: u64) n \<longleftrightarrow> 28 \<le> n \<and> n < 32"
    "bit (0xf0000000 :: u32) n \<longleftrightarrow> 28 \<le> n \<and> n < 32"
    by (simp_all only: bit_push_bit_iff bit_mask_iff) auto
qed

lemma bit_0fffffff: "bit (0x0fffffff :: u64) n \<longleftrightarrow> n < 28"
proof -
  have "(0x0fffffff :: u64) = mask 28" by (simp add: mask_eq_exp_minus_1)
  then show ?thesis by (simp only: bit_mask_iff) auto
qed

lemma hash_add:
  "(ucast (push_bit 4 (ucast h) + ucast c :: u64) :: u32) = push_bit 4 h + ucast (c :: u8)" for h :: u32
proof -
  have p: "push_bit 4 (ucast h :: u64) = 16 * ucast h" "push_bit 4 h = 16 * h"
    by (simp_all add: push_bit_eq_mult)
  have c: "unat (ucast c :: u64) = unat c" "unat (ucast c :: u32) = unat c"
    "unat (ucast h :: u64) = unat h"
    by (simp_all add: unsigned_ucast_eq take_bit_nat_eq_self unsigned_less [THEN order.strict_trans2])
  have "unat h < 2 ^ 32" "unat c < 2 ^ 8" using unsigned_less [of h] unsigned_less [of c] by simp_all
  then have "unat (16 * ucast h + ucast c :: u64) = 16 * unat h + unat c"
    by (simp add: unat_word_ariths c)
  moreover have "unat (16 * h + ucast c) = (16 * unat h + unat c) mod 2 ^ 32"
    by (simp add: unat_word_ariths c mod_simps)
  ultimately have "unat (ucast (16 * ucast h + ucast c :: u64) :: u32) = unat (16 * h + ucast c)"
    by (simp add: unsigned_ucast_eq take_bit_eq_mod)
  then show ?thesis unfolding p by (rule injD [OF inj_unsigned])
qed

lemma bit_hash_add:
  "n < 32 \<Longrightarrow> bit (push_bit 4 (ucast (h :: u32)) + ucast (c :: u8) :: u64) n
     \<longleftrightarrow> bit (push_bit 4 h + ucast c :: u32) n"
  unfolding hash_add [symmetric] by (simp add: bit_simps)

lemma elf64_hash_step_sysv: "elf64_hash_step (ucast h) c = ucast (sysv_hash_step h c)"
proof (rule bit_eqI)
  fix n
  let ?a = "push_bit 4 (ucast h) + ucast c :: u64" and ?b = "push_bit 4 h + ucast c :: u32"
  have l: "bit (elf64_hash_step (ucast h) c) n \<longleftrightarrow>
      n < 28 \<and> (bit ?a n \<noteq> (4 \<le> n \<and> n < 8 \<and> bit ?a (24 + n)))"
    unfolding elf64_hash_step_def Let_def xor_if_zero bit_and_iff bit_xor_iff bit_drop_bit_eq
      bit_f0000000 bit_0fffffff by auto
  have b: "bit ?b k \<Longrightarrow> k < 32" for k by (auto dest: bit_imp_le_length)
  have "bit (sysv_hash_step h c) n \<longleftrightarrow>
      n < 32 \<and> (bit ?b n \<noteq> (bit ?b (24 + n) \<and> 28 \<le> 24 + n \<and> 24 + n < 32)) \<and>
      \<not> (bit ?b n \<and> 28 \<le> n \<and> n < 32)"
    unfolding sysv_hash_step_def Let_def xor_if_zero bit_and_iff bit_xor_iff bit_drop_bit_eq
      bit_f0000000 bit_not_iff using b by auto
  then have "bit (sysv_hash_step h c) n \<longleftrightarrow>
      n < 28 \<and> (bit ?b n \<noteq> (4 \<le> n \<and> n < 8 \<and> bit ?b (24 + n)))"
    using b [of n] b [of "24 + n"] by (cases "n < 28") auto
  then have r: "bit (ucast (sysv_hash_step h c) :: u64) n \<longleftrightarrow>
      n < 28 \<and> (bit ?b n \<noteq> (4 \<le> n \<and> n < 8 \<and> bit ?b (24 + n)))"
    by (auto simp: bit_ucast_iff)
  show "bit (elf64_hash_step (ucast h) c) n = bit (ucast (sysv_hash_step h c) :: u64) n"
    unfolding l r using bit_hash_add [of n h c] bit_hash_add [of "24 + n" h c] by auto
qed

lemma elf64_hash_fold: "foldl elf64_hash_step (ucast h) name = ucast (foldl sysv_hash_step h name)"
  by (induction name arbitrary: h) (simp_all add: elf64_hash_step_sysv)

text \<open>\<open>elf64_hash\<close>, which keeps a 64-bit accumulator and masks it to 28 bits, computes the hash
  function of the System V ABI on 32-bit words, for every name.\<close>

theorem elf64_hash_sysv: "elf64_hash name = ucast (sysv_hash name)"
  using elf64_hash_fold [of 0 name] by (simp add: elf64_hash_def sysv_hash_def)

end
