(* ===== verification/Minc.thy ===== *)
theory Minc
  imports Memory
begin

text \<open>
  The loader's small C library (include/packages/efi/minc.h) and its search of the initial ram
  disk (\<open>find_cpio_file\<close> in include/packages/efi/bootinfo.h).  A \<open>char*\<close> is an address of the
  memory; loops that a counter bounds recurse on it, the others are partial functions, with
  \<open>None\<close> for a loop that does not end.
\<close>

subsection \<open>Strings and blocks\<close>

text \<open>One hexadecimal digit after \<open>| 0x20\<close>; \<open>None\<close> is the branch that returns 0.  A \<open>char\<close>
  of 128 or more is negative in the source and in neither range, as here.\<close>

definition hex_digit :: "u8 \<Rightarrow> u32 option" where
  "hex_digit p =
     (let c = p OR 0x20 in
      if 0x30 \<le> c \<and> c \<le> 0x39 then Some (ucast (c - 0x30))
      else if 0x61 \<le> c \<and> c \<le> 0x66 then Some (ucast (c - 0x61 + 10)) else None)"

fun strtoul_loop :: "mem \<Rightarrow> nat \<Rightarrow> u64 \<Rightarrow> u32 \<Rightarrow> u32" where
  "strtoul_loop m 0 p n = n"
| "strtoul_loop m (Suc c) p n =
     (if m p = 0 then n
      else case hex_digit (m p) of None \<Rightarrow> 0 | Some i \<Rightarrow> strtoul_loop m c (p + 1) (n * 16 + i))"

definition strtoul :: "mem \<Rightarrow> u64 \<Rightarrow> u32" where
  "strtoul m p = strtoul_loop m 8 p 0"

fun strncmp :: "mem \<Rightarrow> u64 \<Rightarrow> u64 \<Rightarrow> nat \<Rightarrow> int" where
  "strncmp m a b 0 = 0"
| "strncmp m a b (Suc n) =
     (if m a \<noteq> 0 \<or> m b \<noteq> 0 then
        if m a \<noteq> m b then uint (m a) - uint (m b) else strncmp m (a + 1) (b + 1) n
      else 0)"

partial_function (option) strlen_loop :: "mem \<Rightarrow> u64 \<Rightarrow> u64 \<Rightarrow> u64 option" where
  "strlen_loop m s len = (if m s = 0 then Some len else strlen_loop m (s + 1) (len + 1))"

definition strlen :: "mem \<Rightarrow> u64 \<Rightarrow> u64 option" where
  "strlen m s = strlen_loop m s 0"

text \<open>\<open>_memcmp\<close> on the bytes of its two blocks.\<close>

definition block :: "mem \<Rightarrow> u64 \<Rightarrow> nat \<Rightarrow> u8 list" where
  "block m p n = map (\<lambda>i. m (p + of_nat i)) [0..<n]"

fun memcmp :: "u8 list \<Rightarrow> u8 list \<Rightarrow> int" where
  "memcmp (a # as) (b # bs) = (if a \<noteq> b then uint a - uint b else memcmp as bs)"
| "memcmp _ _ = 0"

subsection \<open>The ram disk\<close>

definition align4 :: "u64 \<Rightarrow> u64" where
  "align4 p = (p + 3) AND NOT 3"

text \<open>The bytes of \<open>"070701"\<close>.\<close>

definition cpio_magic :: "u8 list" where
  "cpio_magic = [0x30, 0x37, 0x30, 0x37, 0x30, 0x31]"

text \<open>The result is the address of the file's data and its size, or \<open>NULL\<close>; the size is stored
  when the caller passes \<open>out_size\<close>.\<close>

partial_function (option) find_cpio_loop ::
  "mem \<Rightarrow> u64 \<Rightarrow> u64 \<Rightarrow> u64 \<Rightarrow> (u64 \<times> u64) option option" where
  "find_cpio_loop m p end' filename =
     (if \<not> p + 110 \<le> end' then Some None
      else if memcmp (block m p 6) cpio_magic \<noteq> 0 then Some None
      else
        let namesize = strtoul m (p + 94);
            filesize = strtoul m (p + 54);
            name = p + 110;
            data = align4 (name + ucast namesize)
        in
        if strncmp m name filename (unat (namesize - 1)) = 0 then Some (Some (data, ucast filesize))
        else find_cpio_loop m (align4 (data + ucast filesize)) end' filename)"

definition find_cpio_file :: "mem \<Rightarrow> u64 \<Rightarrow> u64 \<Rightarrow> u64 \<Rightarrow> (u64 \<times> u64) option option" where
  "find_cpio_file m base size' filename = find_cpio_loop m base (base + size') filename"

subsection \<open>Lemmas on strings\<close>

lemma uint_diff_eq_0: "uint a - uint b = 0 \<longleftrightarrow> a = (b :: u8)"
  by (simp add: word_uint_eq_iff)

lemma memcmp_eq:
  "length as = length bs \<Longrightarrow> memcmp as bs = 0 \<longleftrightarrow> as = bs"
proof (induction as bs rule: memcmp.induct)
  case (1 a as b bs)
  then show ?case using uint_diff_eq_0 [of a b] by auto
qed auto

lemma length_block [simp]: "length (block m p n) = n"
  by (simp add: block_def)

text \<open>The string at an address: the bytes up to the first NUL.\<close>

definition cstring_at :: "mem \<Rightarrow> u64 \<Rightarrow> u8 list \<Rightarrow> bool" where
  "cstring_at m p s \<longleftrightarrow> 0 \<notin> set s \<and> block m p (length s) = s \<and> m (p + of_nat (length s)) = 0"

lemma block_Suc: "block m p (Suc n) = m p # block m (p + 1) n"
  unfolding block_def by (simp add: upt_conv_Cons map_Suc_upt [symmetric] add.assoc del: upt_Suc)

lemma cstring_at_Nil [simp]: "cstring_at m p [] \<longleftrightarrow> m p = 0"
  by (simp add: cstring_at_def block_def)

lemma cstring_at_Cons [simp]:
  "cstring_at m p (c # s) \<longleftrightarrow> m p = c \<and> c \<noteq> 0 \<and> cstring_at m (p + 1) s"
  by (auto simp: cstring_at_def block_Suc add.assoc)

text \<open>Comparing at least the length of the first string tests for a prefix.\<close>

lemma strncmp_prefix:
  "cstring_at m a s \<Longrightarrow> cstring_at m b t \<Longrightarrow> strncmp m a b (length s) = 0 \<longleftrightarrow> take (length s) t = s"
proof (induction s arbitrary: a b t)
  case (Cons c s)
  have "m a = c" "c \<noteq> 0" "cstring_at m (a + 1) s" using Cons.prems(1) by simp_all
  moreover have "uint c - uint (m b) = 0 \<longleftrightarrow> c = m b" by (rule uint_diff_eq_0)
  ultimately show ?case using Cons.IH Cons.prems(2) by (cases t) auto
qed simp

lemma strlen_cstring:
  "cstring_at m p s \<Longrightarrow> strlen_loop m p n = Some (n + of_nat (length s))"
proof (induction s arbitrary: p n)
  case Nil
  then show ?case by (simp add: strlen_loop.simps)
next
  case (Cons c s)
  then show ?case using strlen_loop.simps [of m p n] by (simp add: add.assoc)
qed


subsection \<open>Reading a number\<close>

text \<open>The eight hexadecimal digits of a header field, most significant first.\<close>

definition hex_char :: "u8 \<Rightarrow> u8" where
  "hex_char d = (if d < 10 then 0x30 + d else 0x61 + (d - 10))"

definition hex8 :: "u32 \<Rightarrow> u8 list" where
  "hex8 n = map (\<lambda>k. hex_char (ucast (drop_bit (4 * (7 - k)) n AND 0xF))) [0..<8]"

lemma hex_digit_char:
  assumes "d < 16"
  shows "hex_digit (hex_char d) = Some (ucast d)" and "hex_char d \<noteq> 0"
proof -
  have "unat d < 16" using assms by (simp add: word_less_nat_alt)
  then have "d \<in> of_nat ` {..<16}" by (intro image_eqI [of _ _ "unat d"]) simp_all
  then have "d \<in> {0, 1, 2, 3, 4, 5, 6, 7, 8, 9, 10, 11, 12, 13, 14, 15}"
    by (auto simp: numeral_eq_Suc less_Suc_eq)
  then show "hex_digit (hex_char d) = Some (ucast d)" "hex_char d \<noteq> 0"
    by (auto simp: hex_char_def hex_digit_def)
qed


lemma strtoul_digits:
  "block m p (length ds) = map hex_char ds \<Longrightarrow> \<forall>d \<in> set ds. d < 16 \<Longrightarrow>
   strtoul_loop m (length ds) p n = foldl (\<lambda>n d. n * 16 + ucast d) n ds"
proof (induction ds arbitrary: p n)
  case (Cons d ds)
  then have "m p = hex_char d" "d < 16" "block m (p + 1) (length ds) = map hex_char ds"
    by (simp_all add: block_Suc)
  then show ?case using hex_digit_char [of d] Cons by simp
qed simp

lemma nibble_mod: "y AND 0xF = y mod 16" for y :: u32
  using take_bit_eq_mask [of 4 y] take_bit_eq_mod [of 4 y] by (simp add: mask_eq_exp_minus_1)

lemma nibble_step: "drop_bit k x = drop_bit (k + 4) x * 16 + (drop_bit k x AND 0xF)" for x :: u32
proof -
  have "drop_bit (k + 4) x = drop_bit 4 (drop_bit k x)"
    by (simp add: drop_bit_drop_bit add.commute)
  also have "\<dots> = drop_bit k x div 16" using drop_bit_eq_div [of 4 "drop_bit k x"] by simp
  finally show ?thesis unfolding nibble_mod by (metis div_mult_mod_eq)
qed

lemma nibble_cast:
  fixes y :: u32
  shows "(ucast (y AND 0xF) :: u8) < 16" and "ucast (ucast (y AND 0xF) :: u8) = y AND 0xF"
proof -
  have l: "unat (y AND 0xF) < 16" by (simp add: nibble_mod unat_mod_distrib)
  have u: "unat (ucast (y AND 0xF) :: u8) = unat (y AND 0xF)"
    using l by (simp add: unsigned_ucast_eq take_bit_eq_mod unat_mod_distrib)
  show "(ucast (y AND 0xF) :: u8) < 16" using l u by (simp add: word_less_nat_alt)
  have "unat (ucast (ucast (y AND 0xF) :: u8) :: u32) = unat (y AND 0xF)"
    using l u by (simp add: unsigned_ucast_eq take_bit_eq_mod unat_mod_distrib)
  then show "ucast (ucast (y AND 0xF) :: u8) = y AND 0xF" by (simp only: word_unat_eq_iff)
qed

lemma strtoul_hex8:
  assumes "block m p 8 = hex8 n"
  shows "strtoul m p = n"
proof -
  define nib where "nib k = (ucast (drop_bit k n AND 0xF) :: u8)" for k
  define ds where "ds = [nib 28, nib 24, nib 20, nib 16, nib 12, nib 8, nib 4, nib 0]"
  have small: "\<forall>d \<in> set ds. d < 16" by (auto simp: ds_def nib_def nibble_cast(1) simp del: ucast_id)
  have e: "hex8 n = map hex_char ds" "length ds = 8"
    by (simp_all add: hex8_def ds_def nib_def upt_rec)
  have cast: "ucast (nib k) = drop_bit k n AND 0xF" for k by (simp add: nib_def nibble_cast(2))
  have step: "drop_bit k n = drop_bit (k + 4) n * 16 + ucast (nib k)" for k
    unfolding cast by (rule nibble_step)
  have high: "drop_bit 32 n = 0" by (rule bit_word_eqI) (auto simp: bit_drop_bit_eq dest: bit_imp_le_length)
  have "strtoul m p = foldl (\<lambda>n d. n * 16 + ucast d) 0 ds"
    unfolding strtoul_def using strtoul_digits [of m p ds 0] assms e small by simp
  also have "\<dots> = n"
    using step [of 28] step [of 24] step [of 20] step [of 16] step [of 12] step [of 8] step [of 4]
      step [of 0] high by (simp add: ds_def)
  finally show ?thesis .
qed

lemma unat_ucast_up: "unat (ucast x :: u64) = unat (x :: u32)"
  using unsigned_less [where 'a = nat, of x] by (simp add: unsigned_ucast_eq take_bit_eq_mod unat_mod_distrib)

subsection \<open>The files of an archive\<close>

text \<open>One entry: a header whose name and file sizes are read at their offsets, the name with its
  NUL, padding to four bytes, the data, padding.\<close>

record cpio_entry =
  ce_name :: "u8 list"
  ce_size :: u32

definition ce_data :: "u64 \<Rightarrow> cpio_entry \<Rightarrow> u64" where
  "ce_data p e = align4 (p + 110 + of_nat (length (ce_name e) + 1))"

definition ce_next :: "u64 \<Rightarrow> cpio_entry \<Rightarrow> u64" where
  "ce_next p e = align4 (ce_data p e + ucast (ce_size e))"

definition cpio_entry_at :: "mem \<Rightarrow> u64 \<Rightarrow> cpio_entry \<Rightarrow> bool" where
  "cpio_entry_at m p e \<longleftrightarrow>
     block m p 6 = cpio_magic \<and> length (ce_name e) + 1 < 2 ^ 32
     \<and> block m (p + 94) 8 = hex8 (of_nat (length (ce_name e) + 1))
     \<and> block m (p + 54) 8 = hex8 (ce_size e) \<and> cstring_at m (p + 110) (ce_name e)"

fun cpio_at :: "mem \<Rightarrow> u64 \<Rightarrow> u64 \<Rightarrow> cpio_entry list \<Rightarrow> bool" where
  "cpio_at m p end' [] \<longleftrightarrow> \<not> p + 110 \<le> end' \<or> block m p 6 \<noteq> cpio_magic"
| "cpio_at m p end' (e # es) \<longleftrightarrow>
     p + 110 \<le> end' \<and> cpio_entry_at m p e \<and> cpio_at m (ce_next p e) end' es"

text \<open>The first entry whose name is a prefix of the file name.\<close>

fun cpio_lookup :: "u64 \<Rightarrow> cpio_entry list \<Rightarrow> u8 list \<Rightarrow> (u64 \<times> u64) option" where
  "cpio_lookup p [] filename = None"
| "cpio_lookup p (e # es) filename =
     (if take (length (ce_name e)) filename = ce_name e then Some (ce_data p e, ucast (ce_size e))
      else cpio_lookup (ce_next p e) es filename)"

text \<open>C11: on an archive, \<open>find_cpio_file\<close> ends and returns the data and the size of the first entry
  whose name is a prefix of the file name asked for (comparing \<open>namesize - 1\<close> characters does not
  see the end of the name), and \<open>NULL\<close> when there is none.\<close>

theorem find_cpio_file_first_prefix:
  assumes "cpio_at m base (base + size') es" "cstring_at m filename fn"
  shows "find_cpio_file m base size' filename = Some (cpio_lookup base es fn)"
proof -
  have "find_cpio_loop m p (base + size') filename = Some (cpio_lookup p es fn)"
    if "cpio_at m p (base + size') es" for p
    using that
  proof (induction es arbitrary: p)
    case Nil
    have "memcmp (block m p 6) cpio_magic \<noteq> 0 \<longleftrightarrow> block m p 6 \<noteq> cpio_magic"
      by (simp add: memcmp_eq cpio_magic_def)
    then show ?case using Nil by (auto simp: find_cpio_loop.simps [of m p])
  next
    case (Cons e es)
    let ?n = "of_nat (length (ce_name e) + 1) :: u32"
    have c: "p + 110 \<le> base + size'" "cpio_entry_at m p e" "cpio_at m (ce_next p e) (base + size') es"
      using Cons.prems by simp_all
    have f: "strtoul m (p + 94) = ?n" "strtoul m (p + 54) = ce_size e"
      "memcmp (block m p 6) cpio_magic = 0" and nm: "cstring_at m (p + 110) (ce_name e)"
      using c(2) unfolding cpio_entry_at_def by (simp_all add: strtoul_hex8 memcmp_eq)
    have len: "length (ce_name e) + 1 < 2 ^ 32" using c(2) by (simp add: cpio_entry_at_def)
    have "?n - 1 = of_nat (length (ce_name e))" by simp
    then have n: "unat (?n - 1) = length (ce_name e)"
      using len unat_of_nat_small [of "length (ce_name e)", where 'a = 32] by simp
    have u: "unat ?n = length (ce_name e) + 1" by (rule unat_of_nat_small) (use len in simp)
    have "unat (ucast ?n :: u64) = unat ?n" by (rule unat_ucast_up)
    also have "\<dots> = unat (of_nat (length (ce_name e) + 1) :: u64)"
      unfolding u by (rule unat_of_nat_small [symmetric]) (use len in simp)
    finally have n': "ucast ?n = (of_nat (length (ce_name e) + 1) :: u64)"
      by (simp only: word_unat_eq_iff)
    show ?case
      using c f Cons.IH [OF c(3)] strncmp_prefix [OF nm assms(2)] n n'
      by (simp add: find_cpio_loop.simps [of m p] Let_def ce_data_def ce_next_def)
  qed
  then show ?thesis using assms(1) by (simp add: find_cpio_file_def)
qed


definition demo_archive :: mem where
  "demo_archive p =
     (if p < 6 then cpio_magic ! unat p
      else if 54 \<le> p \<and> p < 62 then (if p = 61 then 0x35 else 0x30)
      else if 94 \<le> p \<and> p < 102 then (if p = 101 then 0x32 else 0x30)
      else if p = 110 \<or> p = 0x1000 then 0x61 else if p = 0x1001 then 0x62 else 0)"

lemma find_cpio_file_first_prefix_witness:
  "find_cpio_file demo_archive 0 116 0x1000 = Some (Some (112, 5))"
proof -
  let ?e = "\<lparr>ce_name = [0x61], ce_size = 5\<rparr>"
  have "block demo_archive 0 6 = cpio_magic" "block demo_archive 94 8 = hex8 2"
    "block demo_archive 54 8 = hex8 5"
    by (simp_all add: block_def demo_archive_def upt_rec hex8_def hex_char_def cpio_magic_def)
  moreover have "cstring_at demo_archive 110 [0x61]" by (simp add: demo_archive_def)
  ultimately have "cpio_entry_at demo_archive 0 ?e" by (simp add: cpio_entry_at_def)
  moreover have "ce_next 0 ?e = 120" "ce_data 0 ?e = 112"
    by (simp_all add: ce_next_def ce_data_def align4_def)
  ultimately have a: "cpio_at demo_archive 0 (0 + 116) [?e]" by simp
  have f: "cstring_at demo_archive 0x1000 [0x61, 0x62]" by (simp add: demo_archive_def)
  show ?thesis
    using find_cpio_file_first_prefix [OF a f] by (simp add: ce_data_def align4_def)
qed

end
