(* ===== verification/BootLoad.thy ===== *)
theory BootLoad
  imports Boot Elf Minc
begin

text \<open>
  The rest of the loader: mapping the kernel image, the stacks, the frame buffer, the ram disk
  and the loader itself (efi/src/main/cpp/virtual.cpp), and the start of the program
  (efi/src/main/cpp/main.cpp, without the file protocol's set-up).

  \<open>boot_info_t\<close> and \<open>kernel_image_t\<close> are records passed along; the address of the former is a
  parameter where the code uses it.  The services that only these functions call are the
  fields of \<open>'f services\<close>, and the layout of an \<open>EFI_MEMORY_DESCRIPTOR\<close>, which the firmware's
  headers define, is its field \<open>descriptor_at\<close>.
\<close>

subsection \<open>Data\<close>

record boot_memmap =
  mm_memory_map :: u64
  mm_memory_map_size :: u64
  mm_descriptor_size :: u64
  mm_descriptor_version :: u32

record graphics_info =
  gi_framebuffer_base :: u64
  gi_framebuffer_virtual_base :: u64
  gi_framebuffer_size :: u64
  gi_framebuffer_width :: u32
  gi_framebuffer_height :: u32
  gi_pixels_per_scanline :: u32

record boot_info =
  bi_magic :: u32
  bi_initrd_base :: u64
  bi_initrd_size :: u64
  bi_page_table_physical :: u64
  bi_page_table_virtual :: u64
  bi_graphics_info :: graphics_info
  bi_memory_map :: boot_memmap
  bi_memory_end :: u64
  bi_cpu_count :: u64
  bi_stack_area_base :: u64
  bi_stack_pages_per_cpu :: u64
  bi_idt_addr :: u64

definition BOOTINFO_MAGIC :: u32 where "BOOTINFO_MAGIC = 0x1BADB002"

record kernel_image =
  ki_entry :: u64
  ki_kernel_base :: u64
  ki_kernel_virtual_base :: u64
  ki_kernel_code_pages :: u64
  ki_kernel_page_count :: u64
  ki_current_page :: int

record 'f services =
  core :: "'f efi"
  GetMemoryMap :: "'f \<Rightarrow> mem \<Rightarrow> u64 \<Rightarrow> u64 \<Rightarrow> u64 \<times> mem \<times> boot_memmap \<times> u64 \<times> 'f"
  AllocatePool :: "'f \<Rightarrow> u64 \<Rightarrow> u64 \<times> u64 \<times> 'f"
  FreePool :: "'f \<Rightarrow> u64 \<Rightarrow> u64 \<times> 'f"
  LocateMpServices :: "'f \<Rightarrow> u64 \<times> 'f"
  GetNumberOfProcessors :: "'f \<Rightarrow> u64 \<times> u64 \<times> 'f"
  ExitBootServices :: "'f \<Rightarrow> u64 \<Rightarrow> u64 \<times> 'f"
  descriptor_at :: "mem \<Rightarrow> u64 \<Rightarrow> EFI_MEMORY_DESCRIPTOR"

definition STACK_SIZE :: u64 where "STACK_SIZE = 0x10000"

text \<open>A conversion to \<open>int\<close> keeps the low 32 bits.\<close>

definition int_of_u64 :: "u64 \<Rightarrow> int" where
  "int_of_u64 x = sint (ucast x :: u32)"

text \<open>\<open>TRYWRAP\<close> of a service that only changes the firmware's state.\<close>

definition efi_call :: "'f efi \<Rightarrow> 'f boot \<Rightarrow> u64 \<times> 'f \<Rightarrow> ('f, unit) outcome" where
  "efi_call efi s r =
     (if EFI_ERROR efi (fst r) then (s\<lparr>fw := snd r\<rparr>, Inl (fst r)) else (s\<lparr>fw := snd r\<rparr>, Inr ()))"

subsection \<open>The kernel image\<close>

definition segment_attr :: "Elf64_Phdr \<Rightarrow> u64" where
  "segment_attr ph =
     (let attr = Present;
          attr = (if p_flags ph AND PF_X = 0 then attr OR NX else attr)
      in if p_flags ph AND PF_W \<noteq> 0 then attr OR RW else attr)"

definition segment_pages :: "'f efi \<Rightarrow> Elf64_Phdr \<Rightarrow> u64" where
  "segment_pages efi ph = EFI_SIZE_TO_PAGES efi (p_memsz ph)"

text \<open>The body of the loop over the program headers, for a segment to load; \<open>next\<close> is
  \<open>*next_page\<close>.\<close>

definition load_segment ::
  "'f efi \<Rightarrow> u64 \<Rightarrow> u64 \<Rightarrow> Elf64_Phdr \<Rightarrow> u64 \<Rightarrow> 'f boot \<Rightarrow> ('f, unit) outcome" where
  "load_segment efi root elf_data ph next s =
     TRYWRAPFN (map_new_pages efi next (segment_attr ph) (int_of_u64 (segment_pages efi ph)) root s)
       (\<lambda>s physaddr.
         let m1 = memcpy (bmem s) physaddr (elf_data + p_offset ph) (p_filesz ph);
             m2 = (if p_memsz ph > p_filesz ph
                   then memset m1 (physaddr + p_filesz ph) 0 (p_memsz ph - p_filesz ph) else m1)
         in (s\<lparr>bmem := m2\<rparr>, Inr ()))"

text \<open>\<open>for (int i = 0; i < ehdr->e_phnum; ++i)\<close>: the counter is the number of headers left, the
  headers are read when their turn comes, the number \<open>e_phnum\<close> once, before the loop, as the loader does not
  write to the file it reads; results are the state, \<open>kernel_page_count\<close>,
  \<open>*next_page\<close> and the status.\<close>

fun load_segments ::
  "'f efi \<Rightarrow> u64 \<Rightarrow> u64 \<Rightarrow> nat \<Rightarrow> u64 \<Rightarrow> u64 \<Rightarrow> u64 \<Rightarrow> 'f boot \<Rightarrow> 'f boot \<times> u64 \<times> u64 \<times> (u64 + unit)" where
  "load_segments efi root elf_data 0 ph_addr count next s = (s, count, next, Inr ())"
| "load_segments efi root elf_data (Suc left) ph_addr count next s =
     (let ph = read_Phdr (bmem s) ph_addr in
      if p_type ph \<noteq> PT_LOAD then
        load_segments efi root elf_data left (ph_addr + sizeof_Phdr) count next s
      else case load_segment efi root elf_data ph next s of
          (s, Inl st) \<Rightarrow> (s, count, next, Inl st)
        | (s, Inr _) \<Rightarrow>
            load_segments efi root elf_data left (ph_addr + sizeof_Phdr)
              (count + segment_pages efi ph) (next + segment_pages efi ph * PAGE_SIZE) s)"

text \<open>The out-parameters \<open>*out\<close>, \<open>*first_page\<close> and \<open>*next_page\<close> keep what they held, \<open>ki\<close>,
  \<open>first\<close> and \<open>next\<close>, when the magic is wrong.\<close>

definition map_kernel ::
  "'f efi \<Rightarrow> u64 \<Rightarrow> u64 \<Rightarrow> kernel_image \<Rightarrow> u64 \<Rightarrow> u64 \<Rightarrow> 'f boot
    \<Rightarrow> 'f boot \<times> kernel_image \<times> u64 \<times> u64 \<times> (u64 + unit)" where
  "map_kernel efi root elf_data ki first next s =
     (let ehdr = read_Ehdr (bmem s) elf_data;
          elfmag = [ELFMAG0, ELFMAG1, ELFMAG2, ELFMAG3]
      in if memcmp (take 4 (e_ident ehdr)) elfmag \<noteq> 0 then (s, ki, first, next, Inl (EFI_LOAD_ERROR efi))
      else
        let phdrs = elf_data + e_phoff ehdr;
            ph0 = read_Phdr (bmem s) phdrs;
            ki = ki\<lparr>ki_kernel_page_count := 0, ki_kernel_virtual_base := p_vaddr ph0,
                    ki_entry := e_entry ehdr,
                    ki_kernel_code_pages := EFI_SIZE_TO_PAGES efi (p_memsz ph0)\<rparr>;
            (s, count, next, r) =
              load_segments efi root elf_data (unat (e_phnum ehdr)) phdrs 0 (p_vaddr ph0) s
        in (s, ki\<lparr>ki_kernel_page_count := count\<rparr>, p_vaddr ph0, next, r))"


subsection \<open>Firmware queries\<close>

text \<open>The first call only asks for the sizes, with an empty buffer, and its status is ignored.\<close>

definition get_memmap :: "'f services \<Rightarrow> 'f boot \<Rightarrow> ('f, boot_memmap \<times> u64) outcome" where
  "get_memmap sv s =
     (let efi = core sv;
          (_, m0, sizes, _, f0) = GetMemoryMap sv (fw s) (bmem s) 0 0;
          mapSize = mm_memory_map_size sizes + mm_descriptor_size sizes * 8;
          (status, memMap, f1) = AllocatePool sv f0 mapSize
      in if EFI_ERROR efi status then (s\<lparr>bmem := m0, fw := f1\<rparr>, Inl status)
      else
        let (status, m2, mm, mapKey, f2) = GetMemoryMap sv f1 m0 mapSize memMap;
            s = s\<lparr>bmem := m2, fw := f2\<rparr>
        in if EFI_ERROR efi status then (s, Inl status)
           else (s, Inr (mm\<lparr>mm_memory_map := memMap\<rparr>, mapKey)))"

definition get_mp_info :: "'f services \<Rightarrow> 'f boot \<Rightarrow> ('f, u64) outcome" where
  "get_mp_info sv s =
     TRYWRAPFN (efi_call (core sv) s (LocateMpServices sv (fw s))) (\<lambda>s _.
       let (status, cpuCount, f) = GetNumberOfProcessors sv (fw s) in
       if EFI_ERROR (core sv) status then (s\<lparr>fw := f\<rparr>, Inl status) else (s\<lparr>fw := f\<rparr>, Inr cpuCount))"

subsection \<open>The virtual address space\<close>

text \<open>The loop over the processors: a guard page and a zeroed stack each.\<close>

fun map_stacks :: "'f efi \<Rightarrow> u64 \<Rightarrow> int \<Rightarrow> nat \<Rightarrow> u64 \<Rightarrow> 'f boot \<Rightarrow> ('f, u64) outcome" where
  "map_stacks efi root stack_pages 0 next_page s = (s, Inr next_page)"
| "map_stacks efi root stack_pages (Suc left) next_page s =
     (let next_page = next_page + PAGE_SIZE in
      TRYWRAPFN (map_new_pages efi next_page (Present OR RW OR NX) stack_pages root s)
        (\<lambda>s stack_addr.
          map_stacks efi root stack_pages left (next_page + STACK_SIZE)
            (s\<lparr>bmem := memset (bmem s) stack_addr 0 STACK_SIZE\<rparr>)))"

text \<open>The frame buffer, with messages kept down to the level of \<open>Debug\<close> meanwhile; the product
  with \<open>EFI_PAGE_SIZE\<close> is an \<open>int\<close>, exact for buffers below 2 GiB.\<close>

definition map_framebuffer ::
  "'f efi \<Rightarrow> u64 \<Rightarrow> graphics_info \<Rightarrow> u64 \<Rightarrow> 'f boot \<Rightarrow> ('f, graphics_info \<times> u64) outcome" where
  "map_framebuffer efi root gi next_page s =
     (let framebuf_pages = int_of_u64 (EFI_SIZE_TO_PAGES efi (gi_framebuffer_size gi));
          gi = gi\<lparr>gi_framebuffer_virtual_base := next_page\<rparr>;
          prevLevel = logLevel s;
          s = (if logLevel s > DebugLevel then s\<lparr>logLevel := DebugLevel\<rparr> else s)
      in TRYWRAPFN (map_pages efi (gi_framebuffer_virtual_base gi) (gi_framebuffer_base gi)
             (Present OR RW OR NX) framebuf_pages root s)
           (\<lambda>s _. (s\<lparr>logLevel := prevLevel\<rparr>, Inr (gi, next_page + word_of_int (framebuf_pages * 4096)))))"

definition map_initrd ::
  "'f efi \<Rightarrow> u64 \<Rightarrow> boot_info \<Rightarrow> u64 \<Rightarrow> 'f boot \<Rightarrow> ('f, boot_info \<times> u64) outcome" where
  "map_initrd efi root bi next_page s =
     (let initrd_pages = int_of_u64 (EFI_SIZE_TO_PAGES efi (bi_initrd_size bi)) in
      TRYWRAPFN (map_pages efi next_page (bi_initrd_base bi) (Present OR RW OR NX) initrd_pages root s)
        (\<lambda>s _. (s, Inr (bi\<lparr>bi_initrd_base := next_page\<rparr>,
                  next_page + word_of_int (initrd_pages * 4096)))))"

text \<open>The switch over one descriptor of the memory map: only the loader's own sections are
  mapped, to themselves.  \<open>lp\<close> and \<open>cp\<close> are \<open>loader_page\<close> and \<open>loader_code_page\<close>.\<close>

definition map_section ::
  "'f efi \<Rightarrow> u64 \<Rightarrow> EFI_MEMORY_DESCRIPTOR \<Rightarrow> u64 \<Rightarrow> u64 \<Rightarrow> 'f boot \<Rightarrow> ('f, u64 \<times> u64) outcome" where
  "map_section efi root d lp cp s =
     (case Type d of
        EfiLoaderCode \<Rightarrow>
          TRYWRAPFN (map_pages efi (PhysicalStart d) (PhysicalStart d) Present
              (int_of_u64 (NumberOfPages d)) root s)
            (\<lambda>s _. (s, Inr (lp, PhysicalStart d)))
      | EfiLoaderData \<Rightarrow>
          let lp = (if PhysicalStart d < lp then PhysicalStart d else lp) in
          TRYWRAPFN (map_pages efi (PhysicalStart d) (PhysicalStart d) (Present OR RW OR NX)
              (int_of_u64 (NumberOfPages d)) root s)
            (\<lambda>s _. (s, Inr (lp, cp)))
      | _ \<Rightarrow> (s, Inr (lp, cp)))"

text \<open>\<open>None\<close> when the loop does not end (a descriptor size of 0).\<close>

partial_function (option) map_sections ::
  "'f services \<Rightarrow> u64 \<Rightarrow> boot_memmap \<Rightarrow> u64 \<Rightarrow> u64 \<Rightarrow> u64 \<Rightarrow> 'f boot \<Rightarrow> ('f, u64 \<times> u64) outcome option" where
  "map_sections sv root mm i lp cp s =
     (if \<not> i < mm_memory_map_size mm then Some (s, Inr (lp, cp))
      else case map_section (core sv) root (descriptor_at sv (bmem s) (mm_memory_map mm + i)) lp cp s of
          (s, Inl st) \<Rightarrow> Some (s, Inl st)
        | (s, Inr (lp, cp)) \<Rightarrow> map_sections sv root mm (i + mm_descriptor_size mm) lp cp s)"

text \<open>\<open>check_addr\<close> on a list of addresses, in order.\<close>

fun check_addrs :: "'f efi \<Rightarrow> u64 list \<Rightarrow> u64 \<Rightarrow> 'f boot \<Rightarrow> ('f, unit) outcome" where
  "check_addrs efi [] root s = (s, Inr ())"
| "check_addrs efi (a # as) root s = TRYWRAPFN (check_addr efi a root s) (\<lambda>s _. check_addrs efi as root s)"

text \<open>The first part of \<open>map_virtual_address_space\<close>: the kernel, the stacks, the frame buffer and
  the ram disk.  The status of \<open>map_kernel\<close> is not looked at.  \<open>first\<close> and \<open>next\<close> are the
  indeterminate values of the two variables it sets.  The result is the kernel image, the boot
  information, the stack pointer, the four first addresses and the next page.\<close>

definition map_images ::
  "'f services \<Rightarrow> u64 \<Rightarrow> u64 \<Rightarrow> kernel_image \<Rightarrow> boot_info \<Rightarrow> u64 \<Rightarrow> u64 \<Rightarrow> 'f boot
    \<Rightarrow> ('f, kernel_image \<times> boot_info \<times> u64 \<times> u64 list \<times> u64) outcome" where
  "map_images sv root kern ki bi first next s =
     (let efi = core sv;
          (s, ki, first_page, next_page, _) = map_kernel efi root kern ki first next s
      in TRYWRAPFN (check_addrs efi [first_page, ki_entry ki] root s) (\<lambda>s _.
         TRYWRAPFN (get_mp_info sv s) (\<lambda>s cpuCount.
         let bi = bi\<lparr>bi_cpu_count := cpuCount\<rparr>;
             stack_pointer = next_page + PAGE_SIZE + STACK_SIZE;
             stack_pages = int_of_u64 (EFI_SIZE_TO_PAGES efi STACK_SIZE)
         in TRYWRAPFN (map_stacks efi root stack_pages (unat cpuCount) next_page s) (\<lambda>s next_page.
            TRYWRAPFN (check_addr efi (stack_pointer - 8) root s) (\<lambda>s _.
            let framebuf_page = next_page in
            TRYWRAPFN (map_framebuffer efi root (bi_graphics_info bi) next_page s) (\<lambda>s (gi, next_page).
            TRYWRAPFN (check_addr efi framebuf_page root s) (\<lambda>s _.
            let initrd_page = next_page in
            TRYWRAPFN (map_initrd efi root (bi\<lparr>bi_graphics_info := gi\<rparr>) next_page s) (\<lambda>s (bi, next_page).
            TRYWRAPFN (check_addr efi initrd_page root s) (\<lambda>s _.
            (s, Inr (ki, bi, stack_pointer,
               [first_page, ki_entry ki, stack_pointer - 8, framebuf_page, initrd_page], next_page)))))))))))"

text \<open>\<open>bi_addr\<close> is the address of \<open>*bi\<close>, \<open>code\<close> the indeterminate \<open>loader_code_page\<close>.\<close>

definition map_virtual_address_space ::
  "'f services \<Rightarrow> u64 \<Rightarrow> u64 \<Rightarrow> kernel_image \<Rightarrow> boot_info \<Rightarrow> u64 \<Rightarrow> u64 \<times> u64 \<times> u64 \<Rightarrow> 'f boot
    \<Rightarrow> ('f, kernel_image \<times> boot_info \<times> u64) outcome option" where
  "map_virtual_address_space sv root kern ki bi bi_addr indeterminate s =
     (let efi = core sv; (first, next, code) = indeterminate in
      case map_images sv root kern ki bi first next s of
        (s, Inl st) \<Rightarrow> Some (s, Inl st)
      | (s, Inr (ki, bi, stack_pointer, pages, next_page)) \<Rightarrow>
        (case get_memmap sv s of
          (s, Inl st) \<Rightarrow> Some (s, Inl st)
        | (s, Inr (mm, mapKey)) \<Rightarrow> do {
            (s, r) \<leftarrow> map_sections sv root mm 0 0xFFFFFFFFFFFFFFFF code s;
            Some (case r of
                Inl st \<Rightarrow> (s, Inl st)
              | Inr (loader_page, loader_code_page) \<Rightarrow>
                TRYWRAPFN (efi_call efi s (FreePool sv (fw s) (mm_memory_map mm))) (\<lambda>s _.
                TRYWRAPFN (check_addrs efi (pages @ [loader_page, loader_code_page, bi_addr]) root s) (\<lambda>s _.
                (s, Inr (ki, bi\<lparr>bi_memory_end := next_page\<rparr>, stack_pointer)))))
          }))"

subsection \<open>Starting the kernel\<close>

text \<open>What the trampoline is called with: the page table, the stack pointer, the boot
  information and the entry point.\<close>

record handover =
  ho_page_table :: u64
  ho_stack_pointer :: u64
  ho_boot_info :: u64
  ho_entry :: u64

definition enter_kernel ::
  "'f services \<Rightarrow> kernel_image \<Rightarrow> u64 \<Rightarrow> u64 \<Rightarrow> u64 \<Rightarrow> u64 \<Rightarrow> 'f boot \<Rightarrow> ('f, handover) outcome" where
  "enter_kernel sv ki stack_pointer page_table bi_addr mapKey s =
     TRYWRAPFN (efi_call (core sv) s (ExitBootServices sv (fw s) mapKey)) (\<lambda>s _.
       (s, Inr \<lparr>ho_page_table = page_table, ho_stack_pointer = stack_pointer, ho_boot_info = bi_addr,
                ho_entry = ki_entry ki\<rparr>))"

text \<open>\<open>load_kernel\<close>, with the boot information it leaves.  The listing of the top-level table and
  \<open>enable_nxe\<close> do not change the state.\<close>

definition load_kernel ::
  "'f services \<Rightarrow> u64 \<Rightarrow> kernel_image \<Rightarrow> boot_info \<Rightarrow> u64 \<Rightarrow> u64 \<times> u64 \<times> u64 \<Rightarrow> 'f boot
    \<Rightarrow> ('f, boot_info \<times> handover) outcome option" where
  "load_kernel sv kern ki bi bi_addr indeterminate s =
     (case create_page_tables (core sv) s of
        (s, Inl st) \<Rightarrow> Some (s, Inl st)
      | (s, Inr pageTable) \<Rightarrow>
        let bi = bi\<lparr>bi_page_table_physical := pageTable, bi_page_table_virtual := PT_L4_BASE\<rparr> in
        do {
          (s, r) \<leftarrow> map_virtual_address_space sv pageTable kern ki bi bi_addr indeterminate s;
          Some (case r of
              Inl st \<Rightarrow> (s, Inl st)
            | Inr (ki, bi, stack_pointer) \<Rightarrow>
              TRYWRAPFN (get_memmap sv (s\<lparr>logLevel := ErrorLevel\<rparr>)) (\<lambda>s (mm, mapKey).
              TRYWRAPFN (enter_kernel sv ki stack_pointer pageTable bi_addr mapKey s) (\<lambda>s h.
              (s, Inr (bi\<lparr>bi_memory_map := mm\<rparr>, h)))))
        })"

end
