(* ===== verification/KernelLoad.thy ===== *)
theory KernelLoad
  imports BootLoad
begin

text \<open>
  What \<open>map_kernel\<close> loads.  For an image that lies in data pages (\<open>D\<close>), every segment of type
  \<open>PT_LOAD\<close> gets fresh pages that hold its file bytes followed by zeros and that are mapped with
  the attributes of its flags, one segment after the other from the first page on.
\<close>

subsection \<open>Blocks of pages\<close>

lemma page_base_aligned: "PT_PAGE_BASE p = p \<Longrightarrow> PT_PAGE_BASE (p + 4096 * y) = p + 4096 * y"
proof -
  assume p: "PT_PAGE_BASE p = p"
  have push: "PT_PAGE_BASE (push_bit 12 z) = push_bit 12 z" for z
    by (rule bit_eqI) (auto simp: bit_PT_PAGE_BASE bit_push_bit_iff)
  have "p = push_bit 12 (drop_bit 12 p)"
  proof (rule bit_eqI)
    fix n
    have "bit p n \<longleftrightarrow> 12 \<le> n \<and> bit p n" using bit_PT_PAGE_BASE [of p n] unfolding p .
    then show "bit p n \<longleftrightarrow> bit (push_bit 12 (drop_bit 12 p)) n"
      by (auto simp: bit_push_bit_iff bit_drop_bit_eq dest: bit_imp_le_length)
  qed
  then have "p + 4096 * y = push_bit 12 (drop_bit 12 p + y)"
    by (simp add: push_bit_eq_mult algebra_simps)
  then show ?thesis using push by simp
qed

lemma span_frame:
  assumes "frame_addr p" "in_block p (4096 * n) x" "n \<le> 2 ^ 52"
  shows "PT_PAGE_BASE x \<in> page_span p n"
proof -
  have "in_block p (4096 * n) x \<longleftrightarrow> (\<exists>i < 4096 * n. x = p + of_nat i)"
    using assms(3) by (intro in_block_iff) simp
  then obtain i where i: "i < 4096 * n" "x = p + of_nat i" using assms(2) by blast
  have "of_nat i = (of_nat (i mod 4096 + 4096 * (i div 4096)) :: u64)" by simp
  then have "x = p + 4096 * of_nat (i div 4096) + of_nat (i mod 4096)"
    unfolding i(2) by (simp only: of_nat_add of_nat_mult of_nat_numeral) (simp add: algebra_simps)
  moreover have "unat (of_nat (i mod 4096) :: u64) < 4096"
    using unat_of_nat_small [of "i mod 4096", where 'a = 64] by (simp add: less_imp_le_nat)
  ultimately have "PT_PAGE_BASE x = p + 4096 * of_nat (i div 4096)"
    using page_aligned_add [OF page_base_aligned [OF frame_addr_base [OF assms(1)]]] by simp
  moreover have "i div 4096 < n" using i(1) by (simp add: less_mult_imp_div_less mult.commute)
  ultimately show ?thesis by (auto simp: page_span_def)
qed

lemma in_block_mono: "in_block a k x \<Longrightarrow> k \<le> n \<Longrightarrow> in_block a n x"
  by (simp add: in_block_def)

lemma in_block_offset: "i < 2 ^ 64 \<Longrightarrow> in_block a n (a + of_nat i) \<longleftrightarrow> i < n"
  by (simp add: in_block_def unat_of_nat_small)

subsection \<open>One segment\<close>

text \<open>\<open>EFI_SIZE_TO_PAGES\<close> rounds up to whole pages.\<close>

definition efi_size_law :: "'f efi \<Rightarrow> bool" where
  "efi_size_law efi \<longleftrightarrow> (\<forall>x. unat (EFI_SIZE_TO_PAGES efi x) = (unat x + 4095) div 4096)"

definition seg_pages :: "Elf64_Phdr \<Rightarrow> nat" where
  "seg_pages ph = (unat (p_memsz ph) + 4095) div 4096"

text \<open>A segment whose file part fits in it, whose size fits an \<open>int\<close> number of pages and whose
  bytes lie in data pages.\<close>

definition seg_ok :: "u64 set \<Rightarrow> u64 \<Rightarrow> Elf64_Phdr \<Rightarrow> bool" where
  "seg_ok D elf ph \<longleftrightarrow> p_filesz ph \<le> p_memsz ph \<and> unat (p_memsz ph) < 2 ^ 42 \<and>
     (\<forall>i < unat (p_filesz ph). PT_PAGE_BASE (elf + p_offset ph + of_nat i) \<in> D)"

definition seg_bytes :: "mem \<Rightarrow> u64 \<Rightarrow> Elf64_Phdr \<Rightarrow> u64 \<Rightarrow> mem \<Rightarrow> bool" where
  "seg_bytes m elf ph p m' \<longleftrightarrow>
     (\<forall>i < unat (p_filesz ph). m' (p + of_nat i) = m (elf + p_offset ph + of_nat i)) \<and>
     (\<forall>i. unat (p_filesz ph) \<le> i \<and> i < unat (p_memsz ph) \<longrightarrow> m' (p + of_nat i) = 0)"

lemma seg_pages_word:
  assumes "efi_size_law efi" "unat (p_memsz ph) < 2 ^ 42"
  shows "int_of_u64 (segment_pages efi ph) = int (seg_pages ph)"
    and "unat (segment_pages efi ph) = seg_pages ph" and "seg_pages ph \<le> 2 ^ 30"
    and "unat (p_memsz ph) \<le> 4096 * seg_pages ph"
proof -
  show u: "unat (segment_pages efi ph) = seg_pages ph"
    using assms(1) by (simp add: segment_pages_def seg_pages_def efi_size_law_def)
  show l: "seg_pages ph \<le> 2 ^ 30" using assms(2) by (simp add: seg_pages_def)
  have "unat (ucast (segment_pages efi ph) :: u32) = seg_pages ph"
    using u l by (simp add: unsigned_ucast_eq take_bit_eq_mod unat_mod_distrib)
  then have "(ucast (segment_pages efi ph) :: u32) = of_nat (seg_pages ph)"
    by (metis of_nat_unat ucast_id)
  moreover have "sint (of_nat (seg_pages ph) :: u32) = int (seg_pages ph)"
    using l by (simp add: signed_of_nat signed_take_bit_int_eq_self)
  ultimately show "int_of_u64 (segment_pages efi ph) = int (seg_pages ph)"
    by (simp add: int_of_u64_def)
  show "unat (p_memsz ph) \<le> 4096 * seg_pages ph" unfolding seg_pages_def by linarith
qed


text \<open>Copying the file bytes and clearing the rest, in memory.\<close>

definition segment_fill :: "mem \<Rightarrow> u64 \<Rightarrow> Elf64_Phdr \<Rightarrow> u64 \<Rightarrow> mem" where
  "segment_fill m elf ph p =
     (let m1 = memcpy m p (elf + p_offset ph) (p_filesz ph)
      in if p_memsz ph > p_filesz ph
         then memset m1 (p + p_filesz ph) 0 (p_memsz ph - p_filesz ph) else m1)"

lemma in_block_shift:
  assumes "f \<le> i" "i < 2 ^ 64"
  shows "in_block (p + of_nat f) k (p + of_nat i) \<longleftrightarrow> i - f < k"
proof -
  have "p + of_nat i - (p + of_nat f) = (of_nat (i - f) :: u64)" using assms by (simp add: of_nat_diff)
  moreover have "unat (of_nat (i - f) :: u64) = i - f"
    by (rule unat_of_nat_small) (use assms(2) in simp)
  ultimately have "unat (p + of_nat i - (p + of_nat f)) = i - f" by simp
  then show ?thesis by (simp only: in_block_def)
qed

lemma segment_fill_bytes:
  assumes le: "p_filesz ph \<le> p_memsz ph"
    and sep: "\<And>i j. i < unat (p_memsz ph) \<Longrightarrow> j < unat (p_filesz ph) \<Longrightarrow>
      p + of_nat i \<noteq> elf + p_offset ph + of_nat j"
  shows "seg_bytes m elf ph p (segment_fill m elf ph p)"
    and "\<not> in_block p (unat (p_memsz ph)) x \<Longrightarrow> segment_fill m elf ph p x = m x"
proof -
  let ?f = "unat (p_filesz ph)" and ?n = "unat (p_memsz ph)" and ?src = "elf + p_offset ph"
  have fn: "?f \<le> ?n" and n64: "?n < 2 ^ 64" using le unsigned_less [where 'a = nat, of "p_memsz ph"]
    by (simp_all add: word_le_nat_alt)
  have d: "unat (p_memsz ph - p_filesz ph) = ?n - ?f" by (rule unat_sub_small [OF le])
  have cpy: "memcpy m p ?src (p_filesz ph) x = (if in_block p ?f x then m (?src + (x - p)) else m x)" for x
    using sep fn by (intro memcpy_at) simp
  have fill: "segment_fill m elf ph p x = (if in_block (p + p_filesz ph) (?n - ?f) x then 0
      else if in_block p ?f x then m (?src + (x - p)) else m x)" for x
  proof (cases "p_memsz ph > p_filesz ph")
    case True
    then show ?thesis by (simp add: segment_fill_def memset_at cpy d)
  next
    case False
    then have "?n - ?f = 0" by (simp add: word_less_nat_alt)
    then show ?thesis using False by (simp add: segment_fill_def cpy in_block_def)
  qed
  have le64: "?n - ?f \<le> 2 ^ 64" using n64 by simp
  have pf: "p + p_filesz ph = p + of_nat ?f" by simp
  show "seg_bytes m elf ph p (segment_fill m elf ph p)"
    unfolding seg_bytes_def
  proof (intro conjI allI impI)
    fix i assume i: "i < ?f"
    have i64: "i < 2 ^ 64" using i fn n64 by simp
    have "\<not> in_block (p + p_filesz ph) (?n - ?f) (p + of_nat i)"
    proof
      assume "in_block (p + p_filesz ph) (?n - ?f) (p + of_nat i)"
      then obtain k where k: "k < ?n - ?f" "p + of_nat i = p + p_filesz ph + of_nat k"
        using iffD1 [OF in_block_iff [OF le64]] by blast
      then have "unat (of_nat i :: u64) = unat (of_nat (?f + k) :: u64)" by simp
      moreover have "unat (of_nat i :: u64) = i" by (rule unat_of_nat_small) (use i64 in simp)
      moreover have "unat (of_nat (?f + k) :: u64) = ?f + k"
        by (rule unat_of_nat_small) (use k(1) n64 in simp)
      ultimately show False using i by simp
    qed
    then show "segment_fill m elf ph p (p + of_nat i) = m (?src + of_nat i)"
      using fill [of "p + of_nat i"] in_block_offset [OF i64, of p ?f] i by simp
  next
    fix i assume i: "?f \<le> i \<and> i < ?n"
    then have "in_block (p + p_filesz ph) (?n - ?f) (p + of_nat i)"
      unfolding pf using n64 by (subst in_block_shift) auto
    then show "segment_fill m elf ph p (p + of_nat i) = 0" using fill by simp
  qed
  assume x: "\<not> in_block p ?n x"
  have "\<not> in_block p ?f x" using x in_block_mono fn by blast
  moreover have "\<not> in_block (p + p_filesz ph) (?n - ?f) x"
  proof
    assume "in_block (p + p_filesz ph) (?n - ?f) x"
    then obtain k where k: "k < ?n - ?f" "x = p + p_filesz ph + of_nat k"
      using iffD1 [OF in_block_iff [OF le64]] by blast
    then have "x = p + of_nat (?f + k)" by simp
    moreover have "?f + k < 2 ^ 64" using k(1) n64 by simp
    ultimately have "in_block p ?n x" using in_block_offset [of "?f + k" p ?n] k(1) by simp
    with x show False by simp
  qed
  ultimately show "segment_fill m elf ph p x = m x" using fill by simp
qed


lemma load_segment_fill:
  "load_segment efi root elf ph v s =
     TRYWRAPFN (map_new_pages efi v (segment_attr ph) (int_of_u64 (segment_pages efi ph)) root s)
       (\<lambda>s p. (s\<lparr>bmem := segment_fill (bmem s) elf ph p\<rparr>, Inr ()))"
  by (simp add: load_segment_def segment_fill_def Let_def)

text \<open>What a loaded segment has at \<open>v\<close>: pages \<open>p\<close> that hold its bytes and are mapped there.\<close>

definition seg_loaded :: "mem \<Rightarrow> u64 \<Rightarrow> u64 \<Rightarrow> u64 set \<Rightarrow> u64 \<Rightarrow> Elf64_Phdr \<Rightarrow> 'f boot \<Rightarrow> bool" where
  "seg_loaded m elf root D v ph s \<longleftrightarrow>
     (\<exists>p. frame_addr p \<and> page_span p (seg_pages ph) \<subseteq> D \<and> seg_bytes m elf ph p (bmem s) \<and>
        (\<forall>i < seg_pages ph. walk (bmem s) root (v + 4096 * of_nat i)
           = leaf_for (p + 4096 * of_nat i) (segment_attr ph)))"

lemma load_segment_spec:
  assumes laws: "efi_alloc_laws efi owned" "efi_size_law efi"
    and inv: "boot_inv owned D root s" and ok: "seg_ok D elf ph"
    and out: "run_outside v (seg_pages ph)"
    and call: "load_segment efi root elf ph v s = (s', Inr ())"
  obtains S where "boot_inv owned (D \<union> S) root s'" "S \<inter> D = {}" "owned (fw s) \<subseteq> owned (fw s')"
    "\<And>x. PT_PAGE_BASE x \<in> D \<Longrightarrow> bmem s' x = bmem s x"
    "\<And>w. PT_L4_IDX w \<noteq> 511 \<Longrightarrow> \<forall>i < seg_pages ph. \<not> same_page (v + 4096 * of_nat i) w \<Longrightarrow>
       walk (bmem s') root w = walk (bmem s) root w"
    "seg_loaded (bmem s) elf root (D \<union> S) v ph s'"
proof -
  let ?n = "seg_pages ph"
  have size: "unat (p_memsz ph) < 2 ^ 42" and le: "p_filesz ph \<le> p_memsz ph"
    using ok by (simp_all add: seg_ok_def)
  note n = seg_pages_word [OF laws(2) size]
  obtain s1 r1 where mp: "map_new_pages efi v (segment_attr ph) (int ?n) root s = (s1, r1)" by fastforce
  obtain p where r1: "r1 = Inr p" and s': "s' = s1\<lparr>bmem := segment_fill (bmem s1) elf ph p\<rparr>"
    using call mp n(1) by (cases r1) (auto simp: load_segment_fill)
  have run: "run_outside v (nat (int ?n))" "nat (int ?n) \<le> 2 ^ 36" using out n(3) by simp_all
  note spec = map_new_pages_spec [OF laws(1) inv run _ mp]
  have step: "boot_step owned D root s s1" using spec(1) by simp
  let ?S = "page_span p ?n"
  have m: "mapped_run v p (segment_attr ph) ?n root s s1" and nd: "new_data owned D root p ?n s s1"
    using spec(2) [of p] r1 by simp_all
  have p: "frame_addr p" "unat p + 4096 * ?n \<le> 2 ^ 52" "?S \<inter> owned (fw s) = {}"
    and inv1: "boot_inv owned (D \<union> ?S) root s1"
    and same: "\<And>x. PT_PAGE_BASE x \<notin> owned (fw s1) - (D \<union> ?S) \<Longrightarrow> bmem s1 x = bmem s x"
    using nd by (auto simp: new_data_def)
  have SD: "?S \<inter> D = {}" using p(3) inv by (auto simp: boot_inv_def)
  have frame: "PT_PAGE_BASE x \<in> ?S" if "in_block p (unat (p_memsz ph)) x" for x
    by (rule span_frame [OF p(1) in_block_mono [OF that n(4)]]) (use n(3) in simp)
  have sep: "p + of_nat i \<noteq> elf + p_offset ph + of_nat j"
    if "i < unat (p_memsz ph)" "j < unat (p_filesz ph)" for i j
  proof
    assume e: "p + of_nat i = elf + p_offset ph + of_nat j"
    have "in_block p (unat (p_memsz ph)) (p + of_nat i)"
      using in_block_offset [of i p] that(1) size by simp
    then have "PT_PAGE_BASE (p + of_nat i) \<in> ?S" by (rule frame)
    moreover have "PT_PAGE_BASE (p + of_nat i) \<in> D" unfolding e using ok that(2) by (simp add: seg_ok_def)
    ultimately show False using SD by blast
  qed
  note fill = segment_fill_bytes [OF le, of p elf, OF sep]
  have kept: "bmem s' x = bmem s1 x" if "PT_PAGE_BASE x \<notin> ?S" for x
    using fill(2) [of x] frame that by (auto simp: s')
  have T: "PT_PAGE_BASE x \<notin> ?S" if "PT_PAGE_BASE x \<in> owned (fw s1) - (D \<union> ?S)" for x using that by blast
  have pinv1: "pt_inv (bmem s1) root (owned (fw s1) - (D \<union> ?S))" using inv1 by (simp add: boot_inv_def)
  have fw: "fw s' = fw s1" by (simp add: s')
  have inv': "boot_inv owned (D \<union> ?S) root s'"
    using pt_inv_mem_cong [OF pinv1, of "bmem s'"] kept T inv1 by (simp add: boot_inv_def fw)
  have walks: "walk (bmem s') root w = walk (bmem s1) root w" if "PT_L4_IDX w \<noteq> 511" for w
    using walk_mem_cong [OF pinv1 _ that, of "bmem s'"] kept T by blast
  have src: "bmem s1 (elf + p_offset ph + of_nat i) = bmem s (elf + p_offset ph + of_nat i)"
    if "i < unat (p_filesz ph)" for i
    using ok that by (intro same) (simp add: seg_ok_def)
  have bytes: "seg_bytes (bmem s) elf ph p (bmem s')"
    using fill(1) src by (simp add: seg_bytes_def s')
  have mapped: "walk (bmem s') root (v + 4096 * of_nat i) = leaf_for (p + 4096 * of_nat i) (segment_attr ph)"
    if "i < ?n" for i
    using m that walks out by (simp add: mapped_run_def run_outside_def)
  show ?thesis
  proof (rule that [OF inv' SD])
    show "owned (fw s) \<subseteq> owned (fw s')" using step by (simp add: boot_step_def fw)
    show "bmem s' x = bmem s x" if "PT_PAGE_BASE x \<in> D" for x
      using kept [of x] same [of x] that SD by auto
    show "walk (bmem s') root w = walk (bmem s) root w"
      if "PT_L4_IDX w \<noteq> 511" "\<forall>i < ?n. \<not> same_page (v + 4096 * of_nat i) w" for w
      using m that walks by (simp add: mapped_run_def)
    show "seg_loaded (bmem s) elf root (D \<union> ?S) v ph s'"
      using p(1) bytes mapped by (auto simp: seg_loaded_def)
  qed
qed


subsection \<open>All segments\<close>

fun phdrs_at :: "mem \<Rightarrow> u64 \<Rightarrow> nat \<Rightarrow> Elf64_Phdr list" where
  "phdrs_at m a 0 = []"
| "phdrs_at m a (Suc k) = read_Phdr m a # phdrs_at m (a + sizeof_Phdr) k"

definition loads :: "Elf64_Phdr list \<Rightarrow> Elf64_Phdr list" where
  "loads phs = filter (\<lambda>ph. p_type ph = PT_LOAD) phs"

definition total_pages :: "Elf64_Phdr list \<Rightarrow> nat" where
  "total_pages phs = sum_list (map seg_pages phs)"

text \<open>Where the segments are put: one after the other, without regard to \<open>p_vaddr\<close>.\<close>

fun placed :: "u64 \<Rightarrow> Elf64_Phdr list \<Rightarrow> (u64 \<times> Elf64_Phdr) list" where
  "placed v [] = []"
| "placed v (ph # phs) = (v, ph) # placed (v + 4096 * of_nat (seg_pages ph)) phs"

text \<open>The bytes of the header table lie in data pages.\<close>

definition table_in :: "u64 set \<Rightarrow> u64 \<Rightarrow> nat \<Rightarrow> bool" where
  "table_in D a k \<longleftrightarrow> (\<forall>i < 56 * k. PT_PAGE_BASE (a + of_nat i) \<in> D)"

lemma table_in_Suc:
  assumes "table_in D a (Suc k)"
  shows "table_in D (a + sizeof_Phdr) k"
proof -
  have "PT_PAGE_BASE (a + sizeof_Phdr + of_nat i) \<in> D" if "i < 56 * k" for i
    using assms [unfolded table_in_def, rule_format, of "56 + i"] that
    by (simp add: sizeof_Phdr_def algebra_simps)
  then show ?thesis by (simp add: table_in_def)
qed

lemma read64_at_cong:
  assumes "\<And>i. i < 8 \<Longrightarrow> m (a + of_nat (k + i)) = m' (a + of_nat (k + i))"
  shows "read64 m (a + of_nat k) = read64 m' (a + of_nat k)"
proof (rule read64_cong)
  fix i :: u64
  assume "i < 8"
  then have "unat i < 8" by (simp add: word_less_nat_alt)
  then show "m (a + of_nat k + i) = m' (a + of_nat k + i)"
    using assms [of "unat i"] by (simp add: add.assoc)
qed

lemma read32_at_cong:
  assumes "\<And>i. i < 4 \<Longrightarrow> m (a + of_nat (k + i)) = m' (a + of_nat (k + i))"
  shows "read32 m (a + of_nat k) = read32 m' (a + of_nat k)"
proof (rule read32_cong)
  fix i :: u64
  assume "i < 4"
  then have "unat i < 4" by (simp add: word_less_nat_alt)
  then show "m (a + of_nat k + i) = m' (a + of_nat k + i)"
    using assms [of "unat i"] by (simp add: add.assoc)
qed

lemma read_Phdr_cong:
  assumes "\<And>i. i < 56 \<Longrightarrow> m (a + of_nat i) = m' (a + of_nat i)"
  shows "read_Phdr m a = read_Phdr m' a"
proof -
  have q: "read64 m (a + of_nat k) = read64 m' (a + of_nat k)" if "k + 8 \<le> 56" for k
    by (rule read64_at_cong, rule assms) (use that in simp)
  have d: "read32 m (a + of_nat k) = read32 m' (a + of_nat k)" if "k + 4 \<le> 56" for k
    by (rule read32_at_cong, rule assms) (use that in simp)
  show ?thesis
    unfolding read_Phdr_def
    using q [of 8] q [of 16] q [of 24] q [of 32] q [of 40] q [of 48] d [of 0] d [of 4] by simp
qed

lemma phdrs_at_cong:
  assumes "table_in D a k" "\<And>x. PT_PAGE_BASE x \<in> D \<Longrightarrow> m' x = m x"
  shows "phdrs_at m' a k = phdrs_at m a k"
  using assms(1)
proof (induction k arbitrary: a)
  case (Suc k)
  have "read_Phdr m' a = read_Phdr m a"
    using Suc.prems assms(2) by (intro read_Phdr_cong) (simp add: table_in_def)
  then show ?case using Suc.IH [OF table_in_Suc [OF Suc.prems]] by simp
qed simp

lemma seg_bytes_cong:
  assumes "seg_bytes m elf ph p m1" and p: "frame_addr p" "page_span p (seg_pages ph) \<subseteq> D"
    and size: "unat (p_memsz ph) < 2 ^ 42" and le: "p_filesz ph \<le> p_memsz ph"
    and same: "\<And>x. PT_PAGE_BASE x \<in> D \<Longrightarrow> m2 x = m1 x"
  shows "seg_bytes m elf ph p m2"
proof -
  have n: "unat (p_memsz ph) \<le> 4096 * seg_pages ph" unfolding seg_pages_def by linarith
  have n': "seg_pages ph \<le> 2 ^ 52" using size by (simp add: seg_pages_def)
  have "m2 (p + of_nat i) = m1 (p + of_nat i)" if "i < unat (p_memsz ph)" for i
  proof (rule same)
    have "in_block p (4096 * seg_pages ph) (p + of_nat i)"
      using in_block_offset [of i p] that n size by simp
    then show "PT_PAGE_BASE (p + of_nat i) \<in> D" using span_frame [OF p(1) _ n'] p(2) by blast
  qed
  moreover have "unat (p_filesz ph) \<le> unat (p_memsz ph)" using le by (simp add: word_le_nat_alt)
  ultimately show ?thesis using assms(1) by (simp add: seg_bytes_def)
qed

lemma seg_loaded_mono:
  assumes loaded: "seg_loaded m elf root D v ph s" and ok: "seg_ok D0 elf ph" and D: "D \<subseteq> D'"
    and same: "\<And>x. PT_PAGE_BASE x \<in> D \<Longrightarrow> bmem s' x = bmem s x"
    and walks: "\<And>i. i < seg_pages ph \<Longrightarrow>
      walk (bmem s') root (v + 4096 * of_nat i) = walk (bmem s) root (v + 4096 * of_nat i)"
  shows "seg_loaded m elf root D' v ph s'"
proof -
  obtain p where p: "frame_addr p" "page_span p (seg_pages ph) \<subseteq> D" "seg_bytes m elf ph p (bmem s)"
    "\<forall>i < seg_pages ph. walk (bmem s) root (v + 4096 * of_nat i)
       = leaf_for (p + 4096 * of_nat i) (segment_attr ph)"
    using loaded unfolding seg_loaded_def by blast
  have "seg_bytes m elf ph p (bmem s')"
    by (rule seg_bytes_cong [OF p(3,1,2) _ _ same]) (use ok in \<open>simp_all add: seg_ok_def\<close>)
  then show ?thesis using p D walks unfolding seg_loaded_def by (intro exI [of _ p]) auto
qed

lemma run_outside_add:
  "run_outside v (m + n) \<Longrightarrow> run_outside v m \<and> run_outside (v + 4096 * of_nat m) n"
  unfolding run_outside_def
proof (intro conjI allI impI)
  fix i assume *: "\<forall>i < m + n. PT_L4_IDX (v + 4096 * of_nat i) \<noteq> 511"
  show "i < m \<Longrightarrow> PT_L4_IDX (v + 4096 * of_nat i) \<noteq> 511" using * by simp
  show "i < n \<Longrightarrow> PT_L4_IDX (v + 4096 * of_nat m + 4096 * of_nat i) \<noteq> 511"
    using spec [OF *, of "m + i"] by (simp add: algebra_simps)
qed


text \<open>What loading a list of segments from \<open>v\<close> on achieves.\<close>

definition segs_loaded ::
  "('f \<Rightarrow> u64 set) \<Rightarrow> u64 set \<Rightarrow> u64 \<Rightarrow> u64 \<Rightarrow> Elf64_Phdr list \<Rightarrow> u64 \<Rightarrow> 'f boot \<Rightarrow> 'f boot \<Rightarrow> bool" where
  "segs_loaded owned D elf root phs v s s' \<longleftrightarrow>
     (\<exists>D'. D \<subseteq> D' \<and> boot_inv owned D' root s'
        \<and> (\<forall>(u, ph) \<in> set (placed v phs). seg_loaded (bmem s) elf root D' u ph s'))
     \<and> owned (fw s) \<subseteq> owned (fw s')
     \<and> (\<forall>x. PT_PAGE_BASE x \<in> D \<longrightarrow> bmem s' x = bmem s x)
     \<and> (\<forall>w. PT_L4_IDX w \<noteq> 511 \<longrightarrow> (\<forall>i < total_pages phs. \<not> same_page (v + 4096 * of_nat i) w) \<longrightarrow>
          walk (bmem s') root w = walk (bmem s) root w)"

lemma seg_loaded_source:
  assumes "seg_loaded m elf root D v ph s" "seg_ok D0 elf ph"
    and "\<And>x. PT_PAGE_BASE x \<in> D0 \<Longrightarrow> m x = m0 x"
  shows "seg_loaded m0 elf root D v ph s"
proof -
  have "seg_bytes m elf ph p m' \<Longrightarrow> seg_bytes m0 elf ph p m'" for p m'
    using assms(2,3) by (simp add: seg_bytes_def seg_ok_def)
  then show ?thesis using assms(1) unfolding seg_loaded_def by blast
qed

lemma placed_set: "(u, q) \<in> set (placed v phs) \<Longrightarrow> q \<in> set phs"
  by (induction phs arbitrary: v) auto

lemma segs_loaded_Cons:
  assumes ok: "seg_ok D elf ph" "\<forall>ph \<in> set phs. seg_ok D elf ph"
    and out: "run_outside v (total_pages (ph # phs))" "total_pages (ph # phs) \<le> 2 ^ 36"
    and mono: "owned (fw s) \<subseteq> owned (fw s1)"
    and kept: "\<And>x. PT_PAGE_BASE x \<in> D \<Longrightarrow> bmem s1 x = bmem s x"
    and walks: "\<And>w. PT_L4_IDX w \<noteq> 511 \<Longrightarrow> \<forall>i < seg_pages ph. \<not> same_page (v + 4096 * of_nat i) w \<Longrightarrow>
       walk (bmem s1) root w = walk (bmem s) root w"
    and loaded: "seg_loaded (bmem s) elf root (D \<union> S) v ph s1"
    and rest: "segs_loaded owned (D \<union> S) elf root phs (v + 4096 * of_nat (seg_pages ph)) s1 s'"
  shows "segs_loaded owned D elf root (ph # phs) v s s'"
proof -
  let ?n = "seg_pages ph" and ?t = "total_pages phs"
  have T: "total_pages (ph # phs) = ?n + ?t" by (simp add: total_pages_def)
  have shift: "v + 4096 * of_nat ?n + 4096 * of_nat i = v + 4096 * of_nat (?n + i)" for i
    by (simp add: algebra_simps)
  obtain D' where D': "D \<union> S \<subseteq> D'" "boot_inv owned D' root s'"
    "\<forall>(u, ph) \<in> set (placed (v + 4096 * of_nat ?n) phs). seg_loaded (bmem s1) elf root D' u ph s'"
    and mono': "owned (fw s1) \<subseteq> owned (fw s')"
    and kept': "\<forall>x. PT_PAGE_BASE x \<in> D \<union> S \<longrightarrow> bmem s' x = bmem s1 x"
    and walks': "\<forall>w. PT_L4_IDX w \<noteq> 511 \<longrightarrow> (\<forall>i < ?t. \<not> same_page (v + 4096 * of_nat (?n + i)) w) \<longrightarrow>
      walk (bmem s') root w = walk (bmem s1) root w"
    using rest unfolding segs_loaded_def shift by blast
  have later: "\<not> same_page (v + 4096 * of_nat (?n + j)) (v + 4096 * of_nat i)" if "i < ?n" "j < ?t" for i j
    using same_page_run [of "?n + j" i v] that out(2) unfolding T by simp
  have "seg_loaded (bmem s) elf root D' v ph s'"
  proof (rule seg_loaded_mono [OF loaded ok(1) D'(1)])
    show "bmem s' x = bmem s1 x" if "PT_PAGE_BASE x \<in> D \<union> S" for x using kept' that by blast
    show "walk (bmem s') root (v + 4096 * of_nat i) = walk (bmem s1) root (v + 4096 * of_nat i)"
      if "i < ?n" for i
      using walks' later [OF that] out(1) that unfolding T run_outside_def by simp
  qed
  moreover have "seg_loaded (bmem s) elf root D' u q s'"
    if "(u, q) \<in> set (placed (v + 4096 * of_nat ?n) phs)" for u q
  proof -
    have "q \<in> set phs" using that by (rule placed_set)
    then have "seg_ok D elf q" using ok(2) by blast
    moreover have "seg_loaded (bmem s1) elf root D' u q s'" using D'(3) that by blast
    ultimately show ?thesis using seg_loaded_source kept by blast
  qed
  moreover have "walk (bmem s') root w = walk (bmem s) root w"
    if w: "PT_L4_IDX w \<noteq> 511" "\<forall>i < ?n + ?t. \<not> same_page (v + 4096 * of_nat i) w" for w
  proof -
    have "\<forall>i < ?t. \<not> same_page (v + 4096 * of_nat (?n + i)) w"
      "\<forall>i < ?n. \<not> same_page (v + 4096 * of_nat i) w" using w(2) by (metis nat_add_left_cancel_less trans_less_add1)+
    then show ?thesis using walks' walks [OF w(1)] w(1) by metis
  qed
  ultimately show ?thesis
    using D'(1,2) mono mono' kept kept' unfolding segs_loaded_def T by (auto intro!: exI [of _ D'])
qed

lemma load_segments_spec:
  assumes laws: "efi_alloc_laws efi owned" "efi_size_law efi"
  shows "boot_inv owned D root s \<Longrightarrow> table_in D a k \<Longrightarrow> phs = loads (phdrs_at (bmem s) a k) \<Longrightarrow>
    \<forall>ph \<in> set phs. seg_ok D elf ph \<Longrightarrow>
    run_outside v (total_pages phs) \<Longrightarrow> total_pages phs \<le> 2 ^ 36 \<Longrightarrow>
    load_segments efi root elf k a count v s = (s', count', v', Inr ()) \<Longrightarrow>
    segs_loaded owned D elf root phs v s s'
      \<and> count' = count + of_nat (total_pages phs) \<and> v' = v + 4096 * of_nat (total_pages phs)"
proof (induction k arbitrary: a count v s D phs)
  case 0
  then show ?case by (auto simp: loads_def total_pages_def segs_loaded_def)
next
  case (Suc k)
  let ?ph = "read_Phdr (bmem s) a" and ?rest = "loads (phdrs_at (bmem s) (a + sizeof_Phdr) k)"
  note tab = table_in_Suc [OF Suc.prems(2)]
  show ?case
  proof (cases "p_type ?ph = PT_LOAD")
    case False
    then have L: "phs = ?rest" using Suc.prems(3) by (simp add: loads_def)
    have call: "load_segments efi root elf k (a + sizeof_Phdr) count v s = (s', count', v', Inr ())"
      using Suc.prems(7) False by simp
    show ?thesis by (rule Suc.IH [OF Suc.prems(1) tab L Suc.prems(4-6) call])
  next
    case True
    let ?n = "seg_pages ?ph" and ?t = "total_pages ?rest"
    have L: "phs = ?ph # ?rest" using Suc.prems(3) True by (simp add: loads_def)
    have T: "total_pages phs = ?n + ?t" by (simp add: total_pages_def L)
    have ok: "seg_ok D elf ?ph" "\<forall>ph \<in> set ?rest. seg_ok D elf ph" using Suc.prems(4) L by simp_all
    have out: "run_outside v ?n" "run_outside (v + 4096 * of_nat ?n) ?t" and n36: "?n + ?t \<le> 2 ^ 36"
      using Suc.prems(5,6) run_outside_add unfolding T by blast+
    obtain s1 where ls: "load_segment efi root elf ?ph v s = (s1, Inr ())"
      and call: "load_segments efi root elf k (a + sizeof_Phdr) (count + segment_pages efi ?ph)
        (v + segment_pages efi ?ph * PAGE_SIZE) s1 = (s', count', v', Inr ())"
      using Suc.prems(7) True by (auto simp: Let_def split: prod.splits sum.splits)
    obtain S where one: "boot_inv owned (D \<union> S) root s1" "S \<inter> D = {}" "owned (fw s) \<subseteq> owned (fw s1)"
      "\<And>x. PT_PAGE_BASE x \<in> D \<Longrightarrow> bmem s1 x = bmem s x"
      "\<And>w. PT_L4_IDX w \<noteq> 511 \<Longrightarrow> \<forall>i < ?n. \<not> same_page (v + 4096 * of_nat i) w \<Longrightarrow>
         walk (bmem s1) root w = walk (bmem s) root w"
      "seg_loaded (bmem s) elf root (D \<union> S) v ?ph s1"
      using load_segment_spec [OF laws Suc.prems(1) ok(1) out(1) ls] by metis
    have same_phs: "?rest = loads (phdrs_at (bmem s1) (a + sizeof_Phdr) k)"
      using phdrs_at_cong [OF tab one(4)] by simp
    have word: "segment_pages efi ?ph = of_nat ?n"
      using seg_pages_word(2) [OF laws(2), of ?ph] ok(1) unfolding seg_ok_def
      by (metis of_nat_unat ucast_id)
    have sub: "table_in (D \<union> S) (a + sizeof_Phdr) k" "\<forall>ph \<in> set ?rest. seg_ok (D \<union> S) elf ph"
      using tab ok(2) by (auto simp: table_in_def seg_ok_def)
    have v1: "v + of_nat ?n * PAGE_SIZE = v + 4096 * of_nat ?n"
      by (simp add: PAGE_SIZE_def mult.commute)
    have "?t \<le> 2 ^ 36" using n36 by simp
    note IH = Suc.IH [OF one(1) sub(1) same_phs sub(2) out(2) this call [unfolded word v1]]
    have "segs_loaded owned D elf root (?ph # ?rest) v s s'"
      using segs_loaded_Cons [OF ok _ _ one(3-6)] IH Suc.prems(5,6) unfolding L by blast
    then show ?thesis using IH unfolding L [symmetric] T by (simp add: L algebra_simps)
  qed
qed


subsection \<open>The kernel image\<close>

text \<open>An image at \<open>elf\<close> with the ELF magic whose header table and segments lie in data pages.\<close>

definition image_loads :: "mem \<Rightarrow> u64 \<Rightarrow> Elf64_Phdr list" where
  "image_loads m elf =
     (let eh = read_Ehdr m elf in loads (phdrs_at m (elf + e_phoff eh) (unat (e_phnum eh))))"

definition image_first :: "mem \<Rightarrow> u64 \<Rightarrow> u64" where
  "image_first m elf = p_vaddr (read_Phdr m (elf + e_phoff (read_Ehdr m elf)))"

definition image_ok :: "u64 set \<Rightarrow> mem \<Rightarrow> u64 \<Rightarrow> bool" where
  "image_ok D m elf \<longleftrightarrow>
     block m elf 4 = [ELFMAG0, ELFMAG1, ELFMAG2, ELFMAG3]
     \<and> table_in D (elf + e_phoff (read_Ehdr m elf)) (unat (e_phnum (read_Ehdr m elf)))
     \<and> (\<forall>ph \<in> set (image_loads m elf). seg_ok D elf ph)
     \<and> run_outside (image_first m elf) (total_pages (image_loads m elf))
     \<and> total_pages (image_loads m elf) \<le> 2 ^ 36"

lemma map_kernel_magic:
  "memcmp (take 4 (e_ident (read_Ehdr m elf))) [ELFMAG0, ELFMAG1, ELFMAG2, ELFMAG3] = 0
    \<longleftrightarrow> block m elf 4 = [ELFMAG0, ELFMAG1, ELFMAG2, ELFMAG3]"
proof -
  have "take 4 (e_ident (read_Ehdr m elf)) = block m elf 4"
    by (simp add: read_Ehdr_def block_def EI_NIDENT_def take_map)
  then show ?thesis by (simp add: memcmp_eq)
qed

lemma map_kernel_spec:
  assumes laws: "efi_alloc_laws efi owned" "efi_size_law efi"
    and inv: "boot_inv owned D root s" and ok: "image_ok D (bmem s) elf"
    and call: "map_kernel efi root elf ki f n s = (s', ki', first, next', Inr ())"
  shows "segs_loaded owned D elf root (image_loads (bmem s) elf) first s s'
    \<and> first = image_first (bmem s) elf
    \<and> next' = first + 4096 * of_nat (total_pages (image_loads (bmem s) elf))
    \<and> ki_kernel_page_count ki' = of_nat (total_pages (image_loads (bmem s) elf))
    \<and> ki_entry ki' = e_entry (read_Ehdr (bmem s) elf) \<and> ki_kernel_virtual_base ki' = first"
proof -
  let ?eh = "read_Ehdr (bmem s) elf"
  have magic: "memcmp (take 4 (e_ident ?eh)) [ELFMAG0, ELFMAG1, ELFMAG2, ELFMAG3] = 0"
    using ok map_kernel_magic by (simp add: image_ok_def)
  obtain count where ls: "load_segments efi root elf (unat (e_phnum ?eh)) (elf + e_phoff ?eh) 0
      (image_first (bmem s) elf) s = (s', count, next', Inr ())"
    and r: "first = image_first (bmem s) elf" "ki_kernel_page_count ki' = count"
      "ki_entry ki' = e_entry ?eh" "ki_kernel_virtual_base ki' = first"
    using call magic by (auto simp: map_kernel_def Let_def image_first_def split: prod.splits)
  have "segs_loaded owned D elf root (image_loads (bmem s) elf) (image_first (bmem s) elf) s s'
      \<and> count = 0 + of_nat (total_pages (image_loads (bmem s) elf))
      \<and> next' = image_first (bmem s) elf + 4096 * of_nat (total_pages (image_loads (bmem s) elf))"
    by (rule load_segments_spec [OF laws inv _ _ _ _ _ ls])
      (use ok in \<open>simp_all add: image_ok_def image_loads_def Let_def\<close>)
  then show ?thesis using r by simp
qed

end
