(* ===== verification/BootProps.thy ===== *)
theory BootProps
  imports Boot
begin

text \<open>
  What the loader's page-table code achieves, stated for any firmware that keeps its
  allocation contract, with a concrete firmware that keeps it: a bump allocator of the pages
  \<open>1 .. 2^40 - 1\<close>, on which the properties are instantiated.
\<close>

subsection \<open>A concrete firmware\<close>

definition demo_alloc :: "nat \<Rightarrow> u64 \<Rightarrow> u64 \<times> u64 \<times> nat" where
  "demo_alloc f n = (if f + unat n < 2 ^ 40 - 1 then (0, 4096 * of_nat (Suc f), f + unat n) else (1, 0, f))"

definition demo_efi :: "nat efi" where
  "demo_efi = \<lparr>EFI_ERROR = (\<lambda>st. st \<noteq> 0), EFI_LOAD_ERROR = 1,
     EFI_SIZE_TO_PAGES = (\<lambda>n. n div 4096 + (if n mod 4096 = 0 then 0 else 1)),
     AllocatePages = demo_alloc\<rparr>"

definition demo_owned :: "nat \<Rightarrow> u64 set" where
  "demo_owned f = page_span 4096 f"

lemma page_span_add:
  "page_span a (m + n) = page_span a m \<union> page_span (a + 4096 * of_nat m) n"
proof -
  have "{..< m + n} = {..< m} \<union> (\<lambda>i. m + i) ` {..< n}"
  proof (intro equalityI subsetI)
    fix x assume "x \<in> {..< m + n}"
    then show "x \<in> {..< m} \<union> (\<lambda>i. m + i) ` {..< n}"
      by (cases "x < m") (auto intro!: image_eqI [of _ _ "x - m"])
  qed auto
  then show ?thesis by (simp add: page_span_def image_Un image_image algebra_simps)
qed

lemma unat_page:
  assumes "k < 2 ^ 40"
  shows "unat (4096 * of_nat k :: u64) = 4096 * k"
proof -
  have e: "4096 * of_nat k = (of_nat (4096 * k) :: u64)" by simp
  show ?thesis unfolding e by (rule unat_of_nat_small) (use assms in simp)
qed

lemma frame_addr_page:
  assumes "k < 2 ^ 40"
  shows "frame_addr (4096 * of_nat k)"
  unfolding frame_addr_bit
proof (intro allI impI)
  fix n assume b: "bit (4096 * of_nat k :: u64) n"
  have "4096 * of_nat k = push_bit 12 (of_nat k :: u64)" by (simp add: push_bit_eq_mult)
  then have "12 \<le> n" using b by (simp add: bit_push_bit_iff)
  moreover have "unat (4096 * of_nat k :: u64) < 2 ^ 52" using unat_page [OF assms] assms by simp
  ultimately show "12 \<le> n \<and> n < 52" using b bit_less_exp by blast
qed

lemma demo_laws: "efi_alloc_laws demo_efi demo_owned"
  unfolding efi_alloc_laws_def
proof (intro allI impI)
  fix f f' :: nat and n st a :: u64
  assume call: "AllocatePages demo_efi f n = (st, a, f')"
  show "if EFI_ERROR demo_efi st then demo_owned f' = demo_owned f
    else frame_addr a \<and> unat a + 4096 * unat n \<le> 2 ^ 52 \<and>
      page_span a (unat n) \<inter> demo_owned f = {} \<and> demo_owned f' = demo_owned f \<union> page_span a (unat n)"
  proof (cases "f + unat n < 2 ^ 40 - 1")
    case True
    then have r: "st = 0" "a = 4096 * of_nat (Suc f)" "f' = f + unat n"
      using call by (auto simp: demo_efi_def demo_alloc_def)
    have "page_span a (unat n) \<inter> demo_owned f = {}"
    proof -
      have "4096 * of_nat (Suc f) + 4096 * of_nat i \<noteq> 4096 + 4096 * (of_nat j :: u64)"
        if "i < unat n" "j < f" for i j
      proof -
        have "4096 * of_nat (Suc f) + 4096 * of_nat i = 4096 * (of_nat (Suc f + i) :: u64)"
          "4096 + 4096 * (of_nat j :: u64) = 4096 * of_nat (Suc j)"
          by (simp_all add: algebra_simps)
        moreover have "unat (4096 * (of_nat (Suc f + i) :: u64)) = 4096 * (Suc f + i)"
          "unat (4096 * (of_nat (Suc j) :: u64)) = 4096 * Suc j"
          using that True by (intro unat_page; simp)+
        ultimately show ?thesis using that by (metis add_lessD1 mult_cancel1 nat_neq_iff
            not_add_less1 Suc_less_eq add_Suc zero_neq_numeral)
      qed
      then show ?thesis by (auto simp: page_span_def demo_owned_def r)
    qed
    moreover have "demo_owned f' = demo_owned f \<union> page_span a (unat n)"
      by (simp add: demo_owned_def r page_span_add algebra_simps)
    moreover have "frame_addr a" unfolding r(2) by (rule frame_addr_page) (use True in simp)
    moreover have "unat a = 4096 * Suc f" unfolding r(2) by (rule unat_page) (use True in simp)
    ultimately show ?thesis using True r(1) by (simp add: demo_efi_def)
  next
    case False
    then have "st = 1" "f' = f" using call by (auto simp: demo_efi_def demo_alloc_def)
    then show ?thesis by (simp add: demo_efi_def)
  qed
qed

definition demo_boot :: "nat boot" where
  "demo_boot = \<lparr>bmem = (\<lambda>_. 0), fw = 0, logLevel = 1\<rparr>"


subsection \<open>Properties\<close>

lemma create_page_tables_error:
  assumes "create_page_tables efi s = (s', Inl st)"
  shows "EFI_ERROR efi st \<and> bmem s' = bmem s"
  using assms
  by (auto simp: create_page_tables_def TRYWRAPFN_def alloc_pages_def Let_def
      split: prod.splits if_splits sum.splits)

lemma map_level_error: "map_level efi v level s t = (s', Inl st) \<Longrightarrow> EFI_ERROR efi st"
  by (auto simp: map_level_def TRYWRAPFN_def alloc_pages_def Let_def
      split: prod.splits if_splits sum.splits)

lemma map_levels_error: "map_levels efi v k s t = (s', Inl st) \<Longrightarrow> EFI_ERROR efi st"
  by (induction k arbitrary: s t)
    (auto simp: TRYWRAPFN_def split: prod.splits sum.splits dest: map_level_error)

lemma map_page_error: "map_page efi v p attrs t s = (s', Inl st) \<Longrightarrow> EFI_ERROR efi st"
  by (auto simp: map_page_def TRYWRAPFN_def Let_def split: prod.splits sum.splits
      dest: map_levels_error)

lemma demo_inv:
  obtains s where "create_page_tables demo_efi demo_boot = (s, Inr 4096)"
    "boot_inv demo_owned {} 4096 s" "\<And>w. PT_L4_IDX w \<noteq> 511 \<Longrightarrow> walk (bmem s) 4096 w = None"
proof -
  obtain s where c: "create_page_tables demo_efi demo_boot = (s, Inr 4096)"
    by (simp add: create_page_tables_def alloc_pages_def demo_efi_def demo_alloc_def demo_boot_def Let_def)
  show ?thesis
    by (rule that [OF c]) (use create_page_tables_spec [OF demo_laws c, of "{}"] in auto)+
qed

text \<open>C13: \<open>create_page_tables\<close> returns a fresh page whose tables satisfy the loader's invariant (the
  self map in entry 511, no table reached twice) and translate nothing outside the self map; when
  the firmware fails it changes no memory.\<close>

theorem create_page_tables_correct:
  assumes "efi_alloc_laws efi owned" "create_page_tables efi s = (s', r)"
  shows "case r of
      Inl st \<Rightarrow> EFI_ERROR efi st \<and> bmem s' = bmem s
    | Inr root \<Rightarrow> boot_inv owned {} root s' \<and> root \<notin> owned (fw s)
        \<and> (\<forall>w. PT_L4_IDX w \<noteq> 511 \<longrightarrow> walk (bmem s') root w = None)"
proof (cases r)
  case (Inl st)
  then show ?thesis using create_page_tables_error assms(2) by (simp add: create_page_tables_error)
next
  case (Inr root)
  then show ?thesis using create_page_tables_spec [OF assms(1) assms(2) [unfolded Inr], of "{}"] by auto
qed

lemma create_page_tables_correct_witness:
  "\<exists>s root. create_page_tables demo_efi demo_boot = (s, Inr root) \<and> boot_inv demo_owned {} root s"
proof -
  obtain s where c: "create_page_tables demo_efi demo_boot = (s, Inr 4096)" by (rule demo_inv)
  show ?thesis using c create_page_tables_correct [OF demo_laws c] by auto
qed

text \<open>C1: \<open>map_page\<close> maps the page of \<open>virt_addr\<close> to the given frame with the given attributes,
  leaves the translation of every other page as it was, changes no memory but that of the tables
  and keeps their tree well formed; an error is one of the firmware's and leaves every translation as it was.\<close>

theorem map_page_correct:
  assumes "efi_alloc_laws efi owned" "boot_inv owned D root s" "PT_L4_IDX v \<noteq> 511"
    and "map_page efi v p attrs root s = (s', r)"
  shows "boot_step owned D root s s' \<and> (case r of
      Inl st \<Rightarrow> EFI_ERROR efi st \<and> same_walks root s s'
    | Inr _ \<Rightarrow> \<forall>w. PT_L4_IDX w \<noteq> 511 \<longrightarrow>
        walk (bmem s') root w = (if same_page v w then leaf_for p attrs else walk (bmem s) root w))"
proof -
  note spec = map_page_spec [OF assms]
  show ?thesis
  proof (cases r)
    case (Inl st)
    then show ?thesis using spec(1,4) map_page_error assms(4) by auto
  next
    case (Inr u)
    then have "r = Inr ()" by simp
    then show ?thesis using spec(1,3) by auto
  qed
qed

lemma map_page_demo:
  assumes "create_page_tables demo_efi demo_boot = (s, Inr 4096)"
  shows "\<exists>s'. map_page demo_efi 0x200000 0x5000 3 4096 s = (s', Inr ())"
proof -
  have "fw s = 1" using assms
    by (simp add: create_page_tables_def alloc_pages_def demo_efi_def demo_alloc_def demo_boot_def Let_def)
      auto
  have lvl: "\<exists>s' t'. map_level demo_efi v l s t = (s', Inr t') \<and> fw s' \<le> Suc (fw s)"
    if "fw s < 4" for v l s t
    using that by (auto simp: map_level_def Let_def alloc_pages_def demo_efi_def demo_alloc_def)
  then have "\<exists>s' t'. map_levels demo_efi v k s t = (s', Inr t')" if "fw s + k \<le> 4" for v k s t
    using that
  proof (induction k arbitrary: s t)
    case (Suc k)
    then have "fw s < 4" by simp
    then obtain s1 t1 where "map_level demo_efi v (int k + 2) s t = (s1, Inr t1)" "fw s1 \<le> Suc (fw s)"
      using lvl by blast
    then show ?case using Suc.IH [of s1 t1] Suc.prems by auto
  qed simp
  then obtain s' t' where "map_levels demo_efi 0x200000 3 s 4096 = (s', Inr t')"
    using \<open>fw s = 1\<close> by fastforce
  then show ?thesis by (simp add: map_page_def Let_def)
qed

lemma map_page_correct_witness:
  "\<exists>s s'. map_page demo_efi 0x200000 0x5000 3 4096 s = (s', Inr ())
    \<and> walk (bmem s') 4096 0x200000 = Some 0x5003"
proof -
  obtain s where c: "create_page_tables demo_efi demo_boot = (s, Inr 4096)"
    and i: "boot_inv demo_owned {} 4096 s" by (rule demo_inv)
  obtain s' where m: "map_page demo_efi 0x200000 0x5000 3 4096 s = (s', Inr ())"
    using map_page_demo [OF c] by blast
  have v: "PT_L4_IDX 0x200000 \<noteq> 511" by (simp add: PT_L4_IDX_def)
  have "leaf_for 0x5000 3 = Some 0x5003"
    by (simp add: leaf_for_def Let_def PAGE_ADDR_MASK_def Present_def)
  then show ?thesis using map_page_correct [OF demo_laws i v m] m v by fastforce
qed


text \<open>C2: \<open>map_pages\<close> maps a run of pages outside the self map to consecutive frames, keeps every
  translation outside the run, the tree of tables, and the level of messages.\<close>

theorem map_pages_correct:
  assumes "efi_alloc_laws efi owned" "boot_inv owned D root s"
    and "run_outside v (nat pages)" "nat pages \<le> 2 ^ 36"
    and "map_pages efi v p attr pages root s = (s', r)"
  shows "boot_step owned D root s s'
    \<and> (r = Inr () \<longrightarrow> mapped_run v p attr (nat pages) root s s' \<and> logLevel s' = logLevel s)"
  using map_pages_spec [OF assms] by simp

lemma map_pages_correct_witness:
  "\<exists>s s'. map_pages demo_efi 0x200000 0x5000 3 1 4096 s = (s', Inr ())
    \<and> mapped_run 0x200000 0x5000 3 1 4096 s s'"
proof -
  obtain s where c: "create_page_tables demo_efi demo_boot = (s, Inr 4096)"
    and i: "boot_inv demo_owned {} 4096 s" by (rule demo_inv)
  have "fw s = 1" "logLevel s = 1" using c
    by (auto simp: create_page_tables_def alloc_pages_def demo_efi_def demo_alloc_def demo_boot_def Let_def)
  then have s: "s\<lparr>logLevel := logLevel s\<rparr> = s" "s\<lparr>logLevel := 1\<rparr> = s" by simp_all
  obtain s' where "map_page demo_efi 0x200000 0x5000 3 4096 s = (s', Inr ())"
    using map_page_demo [OF c] by blast
  then have m: "map_pages demo_efi 0x200000 0x5000 3 1 4096 s = (s', Inr ())"
    by (simp add: map_pages_def Let_def s \<open>logLevel s = 1\<close>)
  have v: "run_outside 0x200000 (nat 1)" by (simp add: run_outside_def PT_L4_IDX_def)
  show ?thesis using map_pages_correct [OF demo_laws i v _ m] m by auto
qed

text \<open>After \<open>map_page\<close> has mapped a present page to a frame other than 0, \<open>check_addr\<close>
  accepts every address of that page.\<close>

theorem check_addr_after_map_page:
  assumes "efi_alloc_laws efi owned" "boot_inv owned D root s" "PT_L4_IDX v \<noteq> 511"
    and "map_page efi v p attrs root s = (s', Inr ())"
    and "leaf_for p attrs = Some e" "e AND PAGE_ADDR_MASK \<noteq> 0" "same_page v w" "PT_L4_IDX w \<noteq> 511"
  shows "check_addr efi w root s' = (s', Inr ())"
proof (rule check_addr_walk)
  show "walk (bmem s') root w = Some e"
    using map_page_spec(3) [OF assms(1-4) refl assms(8)] assms(5,7) by simp
qed (rule assms(6))

lemma check_addr_after_map_page_witness:
  "\<exists>s s'. map_page demo_efi 0x200000 0x5000 3 4096 s = (s', Inr ())
    \<and> check_addr demo_efi 0x200abc 4096 s' = (s', Inr ())"
proof -
  obtain s where c: "create_page_tables demo_efi demo_boot = (s, Inr 4096)"
    and i: "boot_inv demo_owned {} 4096 s" by (rule demo_inv)
  obtain s' where m: "map_page demo_efi 0x200000 0x5000 3 4096 s = (s', Inr ())"
    using map_page_demo [OF c] by blast
  have v: "PT_L4_IDX 0x200000 \<noteq> 511" "PT_L4_IDX 0x200abc \<noteq> 511" by (simp_all add: PT_L4_IDX_def)
  have l: "leaf_for 0x5000 3 = Some 0x5003"
    by (simp add: leaf_for_def Let_def PAGE_ADDR_MASK_def Present_def)
  have n: "(0x5003 :: u64) AND PAGE_ADDR_MASK \<noteq> 0" by (simp add: PAGE_ADDR_MASK_def)
  have sp: "same_page 0x200000 0x200abc"
    by (simp add: same_page_def path_of_def PT_L4_IDX_def PT_L3_IDX_def PT_L2_IDX_def PT_L1_IDX_def)
  show ?thesis using check_addr_after_map_page [OF demo_laws i v(1) m l n sp v(2)] m by blast
qed

end
