(* ===== verification/KernelProps.thy ===== *)
theory KernelProps
  imports KernelLoad BootProps
begin

text \<open>
  The property of \<open>map_kernel\<close>, with an image of one segment on which it is instantiated: its
  header and its bytes are in the page \<open>0x1000\<close>, which the firmware handed out before the page
  \<open>0x2000\<close> of the top-level table.
\<close>

definition demo_image :: mem where
  "demo_image x =
     (if x = 0x1000 then 0x7f else if x = 0x1001 then 0x45 else if x = 0x1002 then 0x4C
      else if x = 0x1003 then 0x46 else if x = 0x1020 then 0x40 else if x = 0x1038 then 1
      else if x = 0x1040 then 1 else if x = 0x1044 then 5 else if x = 0x1048 then 0x80
      else if x = 0x1052 then 0x20 else if x = 0x1060 then 3 else if x = 0x1068 then 5
      else if x = 0x1080 then 10 else if x = 0x1081 then 11 else if x = 0x1082 then 12 else 0)"

definition demo_ph :: Elf64_Phdr where
  "demo_ph = \<lparr>p_type = 1, p_flags = 5, p_offset = 0x80, p_vaddr = 0x200000, p_paddr = 0,
     p_filesz = 3, p_memsz = 5, p_align = 0\<rparr>"

lemma demo_map_page:
  assumes "fw s < 1000"
  shows "\<exists>s'. map_page demo_efi v p a t s = (s', Inr ())"
proof -
  have lvl: "\<exists>s' t'. map_level demo_efi v l s t = (s', Inr t') \<and> fw s' \<le> Suc (fw s)"
    if "fw s < 2000" for l s t
    using that by (auto simp: map_level_def Let_def alloc_pages_def demo_efi_def demo_alloc_def)
  have "\<exists>s' t'. map_levels demo_efi v k s t = (s', Inr t')" if "fw s + k < 2000" for k s t
    using that
  proof (induction k arbitrary: s t)
    case (Suc k)
    then have "fw s < 2000" by simp
    then obtain s1 t1 where "map_level demo_efi v (int k + 2) s t = (s1, Inr t1)" "fw s1 \<le> Suc (fw s)"
      using lvl by blast
    then show ?case using Suc.IH [of s1 t1] Suc.prems by auto
  qed simp
  then obtain s' t' where "map_levels demo_efi v 3 s t = (s', Inr t')"
    using assms by fastforce
  then show ?thesis by (simp add: map_page_def Let_def)
qed

lemma demo_load:
  assumes "fw s < 900"
  shows "\<exists>s'. load_segment demo_efi t elf demo_ph v s = (s', Inr ())"
proof -
  have n: "int_of_u64 (segment_pages demo_efi demo_ph) = 1"
    by (simp add: segment_pages_def demo_efi_def demo_ph_def int_of_u64_def)
  obtain a s1 where al: "alloc_pages demo_efi s 1 = (s1, Inr a)" "fw s1 < 1000"
    using assms by (auto simp: alloc_pages_def demo_efi_def demo_alloc_def)
  have lvl: "fw (s1\<lparr>logLevel := l\<rparr>) < 1000" for l using al(2) by simp
  obtain s2 where "map_page demo_efi v a (segment_attr demo_ph) t (s1\<lparr>logLevel := logLevel s1\<rparr>) = (s2, Inr ())"
    using demo_map_page [OF lvl] by blast
  then have "map_new_pages demo_efi v (segment_attr demo_ph) 1 t s = (s2, Inr a)"
    using al(1) by (simp add: map_new_pages_def map_pages_def Let_def)
  then show ?thesis by (simp add: load_segment_fill n)
qed

lemma demo_size_law: "efi_size_law demo_efi"
proof -
  have "unat (x div 4096 + (if x mod 4096 = 0 then 0 else 1)) = (unat x + 4095) div 4096" for x :: u64
  proof -
    have m: "x mod 4096 = 0 \<longleftrightarrow> unat x mod 4096 = 0"
      by (simp add: unat_mod_distrib flip: unat_eq_zero)
    have d: "unat (x div 4096) = unat x div 4096" by (simp add: unat_div)
    show ?thesis
    proof (cases "x mod 4096 = 0")
      case True
      then show ?thesis using m d by auto
    next
      case False
      have "unat (x div 4096 + 1) = unat x div 4096 + 1"
        using unat_Suc [of "x div 4096"] d unsigned_less [where 'a = nat, of x] by simp
      moreover have "(unat x + 4095) div 4096 = unat x div 4096 + 1"
      proof -
        define q r where "q = unat x div 4096" and "r = unat x mod 4096"
        have "0 < r" "r < 4096" "unat x = 4096 * q + r" using False m by (simp_all add: q_def r_def)
        then have "unat x + 4095 = 4096 * (q + 1) + (r - 1)" "r - 1 < 4096" by simp_all
        then have "(unat x + 4095) div 4096 = q + 1" by (intro div_nat_eqI) simp_all
        then show ?thesis by (simp add: q_def)
      qed
      ultimately show ?thesis using False by simp
    qed
  qed
  then show ?thesis by (simp add: efi_size_law_def demo_efi_def)
qed


text \<open>C10: \<open>map_kernel\<close>, when it succeeds on a well-formed image, loads every segment of type
  \<open>PT_LOAD\<close>: the segments follow each other from the first header's \<open>p_vaddr\<close> on, each in fresh
  pages that hold its file bytes and then zeros, mapped with the attributes of its flags; all
  other translations and the image itself are as before; the page count and the next page are
  those of the sum.\<close>

theorem map_kernel_correct:
  assumes "efi_alloc_laws efi owned" "efi_size_law efi" "boot_inv owned D root s"
    and "image_ok D (bmem s) elf" "map_kernel efi root elf ki f n s = (s', ki', first, next', Inr ())"
  shows "segs_loaded owned D elf root (image_loads (bmem s) elf) first s s'
    \<and> first = image_first (bmem s) elf
    \<and> next' = first + 4096 * of_nat (total_pages (image_loads (bmem s) elf))
    \<and> ki_kernel_page_count ki' = of_nat (total_pages (image_loads (bmem s) elf))
    \<and> ki_entry ki' = e_entry (read_Ehdr (bmem s) elf) \<and> ki_kernel_virtual_base ki' = first"
  by (rule map_kernel_spec [OF assms])

text \<open>The tables of the demonstration, with the image in the data page.\<close>

lemma demo_image_state:
  obtains s where "boot_inv demo_owned {0x1000} 0x2000 s" "fw s < 900"
    "\<And>x. bmem s x = (if PT_PAGE_BASE x = 0x1000 then demo_image x else bmem s x)"
proof -
  let ?s0 = "demo_boot\<lparr>fw := 1\<rparr>"
  obtain s1 where c: "create_page_tables demo_efi ?s0 = (s1, Inr 0x2000)" and f: "fw s1 = 2"
    by (simp add: create_page_tables_def alloc_pages_def demo_efi_def demo_alloc_def demo_boot_def Let_def)
  have D: "{0x1000} \<subseteq> demo_owned (fw ?s0)" by (simp add: demo_owned_def page_span_def)
  have i: "boot_inv demo_owned {0x1000} 0x2000 s1" by (rule create_page_tables_spec(1) [OF demo_laws c D])
  let ?m = "\<lambda>x. if PT_PAGE_BASE x = 0x1000 then demo_image x else bmem s1 x"
  let ?s = "s1\<lparr>bmem := ?m\<rparr>"
  have "pt_inv ?m 0x2000 (demo_owned (fw s1) - {0x1000})"
    by (rule pt_inv_mem_cong [of "bmem s1"]) (use i in \<open>auto simp: boot_inv_def\<close>)
  then have "boot_inv demo_owned {0x1000} 0x2000 ?s" using i by (simp add: boot_inv_def)
  then show ?thesis by (rule that) (simp_all add: f)
qed

lemma map_kernel_correct_witness:
  "\<exists>s s' ki ki'. map_kernel demo_efi 0x2000 0x1000 ki 0 0 s = (s', ki', 0x200000, 0x201000, Inr ())
     \<and> segs_loaded demo_owned {0x1000} 0x1000 0x2000 [demo_ph] 0x200000 s s'"
proof -
  obtain s where i: "boot_inv demo_owned {0x1000} 0x2000 s" and f: "fw s < 900"
    and m: "\<And>x. bmem s x = (if PT_PAGE_BASE x = 0x1000 then demo_image x else bmem s x)"
    by (rule demo_image_state) blast
  have m': "bmem s x = demo_image x" if "PT_PAGE_BASE x = 0x1000" for x using m [of x] that by simp
  have eh: "read_Ehdr (bmem s) 0x1000 = read_Ehdr demo_image 0x1000"
    by (simp add: read_Ehdr_def read16_def read32_def read64_def m' PT_PAGE_BASE_def EI_NIDENT_def upt_rec)
  have e: "e_phoff (read_Ehdr demo_image 0x1000) = 0x40" "e_phnum (read_Ehdr demo_image 0x1000) = 1"
    by (simp_all add: read_Ehdr_def read16_def read64_def demo_image_def)
  have ph: "read_Phdr (bmem s) 0x1040 = demo_ph"
    by (simp add: read_Phdr_def read32_def read64_def m' PT_PAGE_BASE_def demo_image_def demo_ph_def)
  have loads: "image_loads (bmem s) 0x1000 = [demo_ph]" "image_first (bmem s) 0x1000 = 0x200000"
    using ph by (simp_all add: image_loads_def image_first_def eh e loads_def demo_ph_def PT_LOAD_def)
  have blk: "block (bmem s) 0x1000 4 = [ELFMAG0, ELFMAG1, ELFMAG2, ELFMAG3]"
    by (simp add: block_def upt_rec m' PT_PAGE_BASE_def demo_image_def ELFMAG0_def ELFMAG1_def
        ELFMAG2_def ELFMAG3_def)
  have magic: "memcmp (take 4 (e_ident (read_Ehdr demo_image 0x1000)))
      [ELFMAG0, ELFMAG1, ELFMAG2, ELFMAG3] = 0"
    unfolding eh [symmetric] map_kernel_magic by (rule blk)
  have frame: "PT_PAGE_BASE (0x1000 + of_nat k) = 0x1000" if "k < 4096" for k
  proof (rule page_aligned_add)
    have "unat (of_nat k :: u64) = k" by (rule unat_of_nat_small) (use that in simp)
    then show "unat (of_nat k :: u64) < 4096" using that by simp
  qed (simp add: PT_PAGE_BASE_def)
  have seg: "seg_ok {0x1000} 0x1000 demo_ph"
  proof -
    have "PT_PAGE_BASE (0x1080 + of_nat i) = 0x1000" if "i < 3" for i
      using frame [where k = "0x80 + i"] that by (simp add: add.assoc [symmetric])
    then show ?thesis by (simp add: seg_ok_def demo_ph_def)
  qed
  have tab: "table_in {0x1000} 0x1040 1"
  proof -
    have "PT_PAGE_BASE (0x1040 + of_nat i) = 0x1000" if "i < 56" for i
      using frame [where k = "0x40 + i"] that by (simp add: add.assoc [symmetric])
    then show ?thesis by (simp add: table_in_def)
  qed
  have ok: "image_ok {0x1000} (bmem s) 0x1000"
    using blk seg tab
    by (simp add: image_ok_def eh e loads total_pages_def seg_pages_def demo_ph_def run_outside_def
        PT_L4_IDX_def)
  obtain s' where ls: "load_segment demo_efi 0x2000 0x1000 demo_ph 0x200000 s = (s', Inr ())"
    using demo_load [OF f] by blast
  obtain ki ki' where mk: "map_kernel demo_efi 0x2000 0x1000 ki 0 0 s = (s', ki', 0x200000, 0x201000, Inr ())"
    using magic ph ls
    by (simp add: map_kernel_def Let_def eh e) (simp add: demo_ph_def PT_LOAD_def segment_pages_def demo_efi_def PAGE_SIZE_def)
  have "segs_loaded demo_owned {0x1000} 0x1000 0x2000 [demo_ph] 0x200000 s s'"
    using map_kernel_correct [OF demo_laws demo_size_law i ok mk] unfolding loads by blast
  then show ?thesis using mk by blast
qed

end
