(* ===== verification/UefiShim.thy ===== *)
theory UefiShim
  imports BootLoad
begin

text \<open>
  The kernel's view of the firmware's memory map (packages/efi_shim): the bootstrap page
  allocator, which cuts pages off free descriptors, the reservation of virtual memory, the
  enumeration of the remaining free ranges and the size of memory.

  The memory map is the list \<open>ub_map\<close> of its descriptors, in the order of their addresses
  \<open>memory_map + i * descriptor_size\<close>; the layout of one is the firmware's.  \<open>ub_ok\<close> says that
  it has \<open>descriptorCount_\<close> elements.  A division by a descriptor size of 0 traps and is \<open>None\<close>.
\<close>

subsection \<open>Types of memory\<close>

fun isFreeMem :: "EFI_MEMORY_TYPE \<Rightarrow> bool" where
  "isFreeMem EfiConventionalMemory = True"
| "isFreeMem _ = False"

fun shouldBeUnmapped :: "EFI_MEMORY_TYPE \<Rightarrow> bool" where
  "shouldBeUnmapped EfiLoaderCode = True"
| "shouldBeUnmapped EfiLoaderData = True"
| "shouldBeUnmapped _ = False"

subsection \<open>The memory map\<close>

definition descriptorCount :: "boot_memmap \<Rightarrow> u64 option" where
  "descriptorCount mm =
     (if mm_descriptor_size mm = 0 then None
      else Some (mm_memory_map_size mm div mm_descriptor_size mm))"

text \<open>The address of a descriptor, \<open>nullptr\<close> (0) past the end.\<close>

definition descriptor :: "boot_memmap \<Rightarrow> u64 \<Rightarrow> u64 option" where
  "descriptor mm i =
     do { n \<leftarrow> descriptorCount mm;
          Some (if i \<ge> n then 0 else mm_memory_map mm + i * mm_descriptor_size mm) }"

text \<open>One iteration of \<open>calcMemSize\<close>, and the loop over the descriptors.\<close>

definition mem_extent :: "EFI_MEMORY_DESCRIPTOR \<Rightarrow> u64 \<Rightarrow> u64" where
  "mem_extent d extent =
     (if isFreeMem (Type d) then
        let end' = PhysicalStart d + PAGE_SIZE * NumberOfPages d in
        if end' > extent then end' else extent
      else extent)"

definition calcMemSize :: "EFI_MEMORY_DESCRIPTOR list \<Rightarrow> u64" where
  "calcMemSize ds = fold mem_extent ds 0"

subsection \<open>The bootstrapper\<close>

text \<open>\<open>ub_current\<close> is \<open>current_\<close> of its one \<open>UefiFreePhysicalMemoryRange\<close>.\<close>

record uefi_bootstrapper =
  ub_layout :: KernelMemoryLayout
  ub_pageTablePhysicalAddress :: u64
  ub_memoryMap :: boot_memmap
  ub_map :: "EFI_MEMORY_DESCRIPTOR list"
  ub_descriptorCount :: u64
  ub_descriptorIndex :: int
  ub_current :: PageSet
  ub_nextFreeVirtualPage :: u64
  ub_memSize :: u64

definition PageSet_zero :: PageSet where
  "PageSet_zero = \<lparr>ps_pageSize = 0, ps_address = 0, ps_count = 0\<rparr>"

text \<open>The constructor.  \<open>descriptorIndex_\<close> is first \<open>-1\<close>; the constructor of the range, which
  runs after, makes it \<open>0\<close>.\<close>

definition uefi_construct ::
  "boot_info \<Rightarrow> EFI_MEMORY_DESCRIPTOR list \<Rightarrow> PageSet \<Rightarrow> uefi_bootstrapper option" where
  "uefi_construct bi ds indeterminate =
     do { n \<leftarrow> descriptorCount (bi_memory_map bi);
          let ub = \<lparr>ub_layout = DefaultKernelMemoryLayout,
                    ub_pageTablePhysicalAddress = bi_page_table_physical bi,
                    ub_memoryMap = bi_memory_map bi, ub_map = ds, ub_descriptorCount = n,
                    ub_descriptorIndex = -1, ub_current = indeterminate,
                    ub_nextFreeVirtualPage = bi_memory_end bi, ub_memSize = calcMemSize ds\<rparr>;
          Some (ub\<lparr>ub_descriptorIndex := 0\<rparr>) }"

text \<open>The guard that both loops over the descriptors have.\<close>

definition free_desc :: "EFI_MEMORY_DESCRIPTOR \<Rightarrow> bool" where
  "free_desc d \<longleftrightarrow> NumberOfPages d > 0 \<and> isFreeMem (Type d)"

subsection \<open>Virtual memory\<close>

definition reserveVirtualMemory :: "uefi_bootstrapper \<Rightarrow> u64 \<Rightarrow> u64 StatusOr \<times> uefi_bootstrapper" where
  "reserveVirtualMemory ub pageCount =
     (if ub_nextFreeVirtualPage ub + pageCount * kPageSize > mmapsEnd (ub_layout ub)
      then (StatusOr_status OutOfMemory, ub)
      else let newAddr = ub_nextFreeVirtualPage ub in
        (StatusOr_item newAddr,
         ub\<lparr>ub_nextFreeVirtualPage := ub_nextFreeVirtualPage ub + pageCount * PAGE_SIZE\<rparr>))"

subsection \<open>The bootstrap allocator\<close>

text \<open>The loop of \<open>allocatePages\<close> from index \<open>i\<close> on, with \<open>left\<close> iterations left.\<close>

fun boot_alloc_loop ::
  "EFI_MEMORY_DESCRIPTOR list \<Rightarrow> u64 \<Rightarrow> nat \<Rightarrow> nat \<Rightarrow> PageSet StatusOr \<times> EFI_MEMORY_DESCRIPTOR list" where
  "boot_alloc_loop ds count 0 i = (StatusOr_status OutOfMemory, ds)"
| "boot_alloc_loop ds count (Suc left) i =
     (let d = ds ! i in
      if free_desc d then
        let pagesAllocated = (if count < NumberOfPages d then count else NumberOfPages d);
            d' = d\<lparr>NumberOfPages := NumberOfPages d - pagesAllocated,
                   PhysicalStart := PhysicalStart d + pagesAllocated * PAGE_SIZE\<rparr>
        in (StatusOr_item \<lparr>ps_pageSize = kPageSize, ps_address = PhysicalStart d,
                           ps_count = pagesAllocated\<rparr>, ds[i := d'])
      else boot_alloc_loop ds count left (Suc i))"

definition boot_allocatePages :: "uefi_bootstrapper \<Rightarrow> u64 \<Rightarrow> PageSet StatusOr \<times> uefi_bootstrapper" where
  "boot_allocatePages ub count =
     (let i = nat (ub_descriptorIndex ub + 1);
          (r, ds) = boot_alloc_loop (ub_map ub) count (unat (ub_descriptorCount ub) - i) i
      in (r, ub\<lparr>ub_map := ds\<rparr>))"

definition boot_allocatePage :: "uefi_bootstrapper \<Rightarrow> u64 StatusOr option \<times> uefi_bootstrapper" where
  "boot_allocatePage ub =
     (let (r, ub) = boot_allocatePages ub 1 in (map_or ps_address r, ub))"

subsection \<open>The remaining free ranges\<close>

text \<open>\<open>move_next\<close>: \<open>left\<close> counts the descriptors not looked at yet, up to the count cast to \<open>int\<close>.\<close>

fun move_next_loop :: "uefi_bootstrapper \<Rightarrow> nat \<Rightarrow> bool \<times> uefi_bootstrapper" where
  "move_next_loop ub 0 = (False, ub)"
| "move_next_loop ub (Suc left) =
     (let i = nat (ub_descriptorIndex ub); d = ub_map ub ! i in
      if free_desc d then
        (True, ub\<lparr>ub_current := \<lparr>ps_pageSize = PAGE_SIZE, ps_address = PhysicalStart d,
                                  ps_count = NumberOfPages d\<rparr>,
                  ub_map := (ub_map ub)[i := d\<lparr>NumberOfPages := 0\<rparr>]\<rparr>)
      else move_next_loop (ub\<lparr>ub_descriptorIndex := ub_descriptorIndex ub + 1\<rparr>) left)"

definition move_next :: "uefi_bootstrapper \<Rightarrow> bool \<times> uefi_bootstrapper" where
  "move_next ub =
     move_next_loop ub (nat (sint (ucast (ub_descriptorCount ub) :: 32 word) - ub_descriptorIndex ub))"

text \<open>\<open>MemoryRangeIterator\<close> on this source, and the loop \<open>for (auto range : ...)\<close> over it.\<close>

record range_iterator =
  it_value :: PageSet
  it_iteration :: int

definition iterator_end :: range_iterator where
  "iterator_end = \<lparr>it_value = PageSet_zero, it_iteration = -1\<rparr>"

definition iterator_next :: "uefi_bootstrapper \<Rightarrow> range_iterator \<Rightarrow> uefi_bootstrapper \<times> range_iterator" where
  "iterator_next ub it =
     (case move_next ub of
        (True, ub) \<Rightarrow> (ub, \<lparr>it_value = ub_current ub, it_iteration = it_iteration it + 1\<rparr>)
      | (False, ub) \<Rightarrow> (ub, iterator_end))"

definition iterator_begin :: "uefi_bootstrapper \<Rightarrow> uefi_bootstrapper \<times> range_iterator" where
  "iterator_begin ub = iterator_next ub iterator_end"

definition iterator_ne :: "range_iterator \<Rightarrow> range_iterator \<Rightarrow> bool" where
  "iterator_ne a b \<longleftrightarrow> it_iteration a \<noteq> it_iteration b"

partial_function (option) range_loop ::
  "('a \<Rightarrow> PageSet \<Rightarrow> 'a option) \<Rightarrow> 'a \<Rightarrow> uefi_bootstrapper \<Rightarrow> range_iterator
    \<Rightarrow> ('a \<times> uefi_bootstrapper) option" where
  "range_loop body acc ub it =
     (if \<not> iterator_ne it iterator_end then Some (acc, ub)
      else case body acc (it_value it) of
          None \<Rightarrow> None
        | Some acc \<Rightarrow>
            (case iterator_next ub it of (ub, it) \<Rightarrow> range_loop body acc ub it))"

definition for_free_ranges ::
  "('a \<Rightarrow> PageSet \<Rightarrow> 'a option) \<Rightarrow> 'a \<Rightarrow> uefi_bootstrapper \<Rightarrow> ('a \<times> uefi_bootstrapper) option" where
  "for_free_ranges body acc ub =
     (case iterator_begin ub of (ub, it) \<Rightarrow> range_loop body acc ub it)"

end
