(* ===== verification/KernelMap.thy ===== *)
theory KernelMap
  imports PhysAlloc UefiShim
begin

text \<open>
  The kernel's own page tables (\<open>RecursivePageTables\<close>, include/kernel/paging.h and
  kernel/src/main/cpp/paging.cpp), the start of the page allocator (\<open>init\<close>) and the kernel
  context (kernel/src/main/cpp/init.cpp), on virtual memory: every access of the kernel goes
  through the tables of \<open>root\<close>, and an access to an address they do not map is a page fault,
  \<open>None\<close>.  Stores through the self map change the tables themselves; \<open>invalidate_page\<close> keeps the
  processor's cached translations equal to the tables, so they are not modelled.

  The page allocator a \<open>RecursivePageTables\<close> is given is an object with virtual functions:
  \<open>map\<close> takes its \<open>allocatePage\<close> and its state as parameters.  The bitmap of the page allocator
  is in virtual memory while \<open>init\<close> fills it; its bytes are then the list of PhysAlloc.
\<close>

subsection \<open>Access to virtual memory\<close>

text \<open>The physical addresses of \<open>n\<close> consecutive bytes.\<close>

definition vaddrs :: "mem \<Rightarrow> u64 \<Rightarrow> u64 \<Rightarrow> nat \<Rightarrow> u64 list option" where
  "vaddrs m root v n = those (map (\<lambda>i. translate m root (v + of_nat i)) [0..<n])"

definition vread64 :: "mem \<Rightarrow> u64 \<Rightarrow> u64 \<Rightarrow> u64 option" where
  "vread64 m root v =
     do { as \<leftarrow> vaddrs m root v 8; Some (read64 (\<lambda>i. m (as ! unat i)) 0) }"

definition word_bytes :: "u64 \<Rightarrow> u8 list" where
  "word_bytes x = map (\<lambda>i. ucast (drop_bit (8 * i) x)) [0..<8]"

definition vwrite64 :: "mem \<Rightarrow> u64 \<Rightarrow> u64 \<Rightarrow> u64 \<Rightarrow> mem option" where
  "vwrite64 m root v x =
     do { as \<leftarrow> vaddrs m root v 8;
          Some (fold (\<lambda>(a, b) m. m(a := b)) (zip as (word_bytes x)) m) }"

text \<open>\<open>memset\<close> on virtual memory: each byte is translated when its turn comes.\<close>

fun vmemset :: "mem \<Rightarrow> u64 \<Rightarrow> u64 \<Rightarrow> u8 \<Rightarrow> nat \<Rightarrow> mem option" where
  "vmemset m root v val 0 = Some m"
| "vmemset m root v val (Suc n) =
     (case translate m root v of None \<Rightarrow> None
      | Some a \<Rightarrow> vmemset (m(a := val)) root (v + 1) val n)"

subsection \<open>RecursivePageTables\<close>

record recursive_tables =
  rt_pml4 :: u64
  rt_pml4Paddr :: u64
  rt_tablesStart :: u64

definition recursive_construct :: "KernelMemoryLayout \<Rightarrow> u64 \<Rightarrow> recursive_tables" where
  "recursive_construct layout pageTablePhysicalAddress =
     \<lparr>rt_pml4 = pgtableAddr layout, rt_pml4Paddr = pageTablePhysicalAddress,
      rt_tablesStart = pgtablesStart layout\<rparr>"

definition mapNoTables :: "recursive_tables \<Rightarrow> mem \<Rightarrow> u64 \<Rightarrow> u64 \<Rightarrow> u64 \<Rightarrow> u64 \<Rightarrow> mem option" where
  "mapNoTables rt m root virtAddr physAddr attributes =
     vwrite64 m root (entryAddr (rt_tablesStart rt) virtAddr) (PageEntry_make physAddr attributes)"

definition unMapNoInvalidate :: "recursive_tables \<Rightarrow> mem \<Rightarrow> u64 \<Rightarrow> u64 \<Rightarrow> mem option" where
  "unMapNoInvalidate rt m root virtAddr =
     vwrite64 m root (entryAddr (rt_tablesStart rt) virtAddr) PageEntry_zero"

text \<open>One iteration of the loop of \<open>map\<close>: an error status or the next table.\<close>

definition kmap_level ::
  "recursive_tables \<Rightarrow> ('s \<Rightarrow> (u64 StatusOr \<times> 's) option) \<Rightarrow> u64 \<Rightarrow> u64 \<Rightarrow> PageLevel \<Rightarrow> mem \<times> 's \<Rightarrow> u64
    \<Rightarrow> ((mem \<times> 's) \<times> (StatusCode + u64)) option" where
  "kmap_level rt alloc root virtAddr level st table =
     (let (m, s) = st;
          idx = entryIndex virtAddr level;
          entryResult = getEntry table idx
      in if \<not> ok_or entryResult then do { e \<leftarrow> status_or entryResult; Some ((m, s), Inl e) }
      else do {
        entry \<leftarrow> read_item entryResult;
        value \<leftarrow> vread64 m root entry;
        let subtable = tableAddress (rt_tablesStart rt) virtAddr (level_sub level 1);
        if \<not> present value then do {
          (allocateResult, s) \<leftarrow> alloc s;
          if not_or allocateResult then do { e \<leftarrow> status_or allocateResult; Some ((m, s), Inl e) }
          else do {
            subtableNewPaddr \<leftarrow> read_item allocateResult;
            m \<leftarrow> mapNoTables rt m root subtable subtableNewPaddr (Present OR RW);
            m \<leftarrow> vmemset m root subtable 0 (unat kPageSize);
            Some ((m, s), Inr subtable)
          }
        }
        else Some ((m, s), Inr subtable)
      })"

text \<open>\<open>for (level = PML4; level > PT; level--)\<close>: \<open>left\<close> levels are left.\<close>

fun kmap_levels ::
  "recursive_tables \<Rightarrow> ('s \<Rightarrow> (u64 StatusOr \<times> 's) option) \<Rightarrow> u64 \<Rightarrow> u64 \<Rightarrow> nat \<Rightarrow> PageLevel \<Rightarrow> mem \<times> 's \<Rightarrow> u64
    \<Rightarrow> ((mem \<times> 's) \<times> (StatusCode + u64)) option" where
  "kmap_levels rt alloc root virtAddr 0 level st table = Some (st, Inr table)"
| "kmap_levels rt alloc root virtAddr (Suc left) level st table =
     (case kmap_level rt alloc root virtAddr level st table of
        None \<Rightarrow> None
      | Some (st, Inl e) \<Rightarrow> Some (st, Inl e)
      | Some (st, Inr table) \<Rightarrow>
          kmap_levels rt alloc root virtAddr left (snd (level_postdec level)) st table)"

definition kernel_map ::
  "recursive_tables \<Rightarrow> ('s \<Rightarrow> (u64 StatusOr \<times> 's) option) \<Rightarrow> u64 \<Rightarrow> u64 \<Rightarrow> u64 \<Rightarrow> u64 \<Rightarrow> mem \<times> 's
    \<Rightarrow> ((mem \<times> 's) \<times> StatusCode) option" where
  "kernel_map rt alloc root virtAddr physAddr attributes st =
     (case kmap_levels rt alloc root virtAddr (nat (PML4 - PT)) PML4 st (rt_pml4 rt) of
        None \<Rightarrow> None
      | Some (st, Inl e) \<Rightarrow> Some (st, e)
      | Some ((m, s), Inr table) \<Rightarrow>
          do { m \<leftarrow> mapNoTables rt m root virtAddr physAddr attributes; Some ((m, s), Ok) })"

text \<open>\<open>PageTables::map\<close> for \<open>count\<close> pages.\<close>

fun kernel_map_pages ::
  "recursive_tables \<Rightarrow> ('s \<Rightarrow> (u64 StatusOr \<times> 's) option) \<Rightarrow> u64 \<Rightarrow> nat \<Rightarrow> u64 \<Rightarrow> u64 \<Rightarrow> u64 \<Rightarrow> mem \<times> 's
    \<Rightarrow> ((mem \<times> 's) \<times> StatusCode) option" where
  "kernel_map_pages rt alloc root 0 vaddr paddr attributes st = Some (st, Ok)"
| "kernel_map_pages rt alloc root (Suc left) vaddr paddr attributes st =
     do { (st, status) \<leftarrow> kernel_map rt alloc root vaddr paddr attributes st;
          if status \<noteq> Ok then Some (st, status)
          else kernel_map_pages rt alloc root left (vaddr + kPageSize) (paddr + kPageSize) attributes st }"


subsection \<open>Starting the page allocator\<close>

definition kBitsPerPage :: u64 where "kBitsPerPage = kPageSize * 8"

text \<open>The loop that backs the bitmap with pages of the bootstrap allocator, maps them and fills
  them with ones; \<open>None\<close> is a page fault.  \<open>True\<close>: the whole bitmap is there; \<open>False\<close>: \<open>init\<close>
  has returned.  The tables' allocator is the one that is being initialised.\<close>

partial_function (option) init_chunks ::
  "recursive_tables \<Rightarrow> u64 \<Rightarrow> u64 \<Rightarrow> u64 \<Rightarrow> mem \<Rightarrow> phys_alloc \<Rightarrow> uefi_bootstrapper
    \<Rightarrow> (bool \<times> mem \<times> phys_alloc \<times> uefi_bootstrapper) option" where
  "init_chunks rt root currentPage pagesNeeded m pa ub =
     (if pagesNeeded = 0 then Some (True, m, pa, ub)
      else
        case boot_allocatePages ub pagesNeeded of (memResult, ub) \<Rightarrow>
        (if \<not> ok_or memResult then Some (False, m, pa, ub)
         else
           case read_item memResult of None \<Rightarrow> None | Some newPages \<Rightarrow>
           (case kernel_map_pages rt allocatePage root (unat (ps_count newPages)) currentPage
                (ps_address newPages) (Present OR RW) (m, pa) of
              None \<Rightarrow> None
            | Some ((m, pa), status) \<Rightarrow>
              let pa = pa\<lparr>pa_status := status\<rparr> in
              if status \<noteq> Ok then Some (False, m, pa, ub)
              else
                (case vmemset m root currentPage 0xFF (unat kPageSize) of None \<Rightarrow> None
                 | Some m \<Rightarrow>
                   init_chunks rt root (currentPage + ps_count newPages * kPageSize)
                     (pagesNeeded - ps_count newPages) m pa ub))))"

text \<open>\<open>DefaultPhysicalMemoryAllocator::init\<close>.  The marks are made in the bytes of the bitmap, whose physical
  addresses are \<open>as\<close>.\<close>

definition store_bytes :: "u64 list \<Rightarrow> u8 list \<Rightarrow> mem \<Rightarrow> mem" where
  "store_bytes as bs m = fold (\<lambda>(a, b) m. m(a := b)) (zip as bs) m"

definition bitmap_pages :: "u64 \<Rightarrow> u64" where
  "bitmap_pages memorySize =
     (let totalMemPages = memorySize div kPageSize in
      (totalMemPages + kBitsPerPage - 1) div kBitsPerPage)"

definition init ::
  "recursive_tables \<Rightarrow> u64 \<Rightarrow> mem \<Rightarrow> phys_alloc \<Rightarrow> uefi_bootstrapper
    \<Rightarrow> (mem \<times> phys_alloc \<times> uefi_bootstrapper) option" where
  "init rt root m pa ub =
     (let pagesNeeded = bitmap_pages (ub_memSize ub);
          pa = pa\<lparr>pa_bitmapSize := pagesNeeded * kPageSize\<rparr>;
          (memResult, ub) = reserveVirtualMemory ub pagesNeeded
      in if not_or memResult then Some (m, pa, ub)
      else do {
        bitmapStart \<leftarrow> read_item memResult;
        (mapped, m, pa, ub) \<leftarrow> init_chunks rt root bitmapStart pagesNeeded m pa ub;
        if \<not> mapped then Some (m, pa, ub)
        else do {
          as \<leftarrow> vaddrs m root bitmapStart (unat (pa_bitmapSize pa));
          ((bm, lowest), ub) \<leftarrow> for_free_ranges mark_range (map m as, pa_lowestFreePage pa) ub;
          Some (store_bytes as bm m, pa\<lparr>pa_bitmap := bm, pa_lowestFreePage := lowest, pa_status := Ok\<rparr>, ub)
        }
      })"

subsection \<open>The kernel context\<close>

text \<open>\<open>kc_bootstrap\<close>: \<open>pageAllocatorPtr_\<close> still points to the bootstrap allocator.\<close>

record kernel_context =
  kc_memoryLayout :: KernelMemoryLayout
  kc_pageAllocator :: phys_alloc
  kc_bootstrap :: bool
  kc_pageTables :: recursive_tables

definition CreateContext ::
  "u64 \<Rightarrow> mem \<Rightarrow> u64 \<times> u8 list \<Rightarrow> uefi_bootstrapper \<Rightarrow> (mem \<times> kernel_context \<times> uefi_bootstrapper) option" where
  "CreateContext root m indeterminate ub =
     (let layout = DefaultKernelMemoryLayout;
          kc = \<lparr>kc_memoryLayout = layout,
                kc_pageAllocator = phys_alloc_construct (ub_memSize ub) (fst indeterminate) (snd indeterminate),
                kc_bootstrap = True,
                kc_pageTables = recursive_construct layout (ub_pageTablePhysicalAddress ub)\<rparr>
      in do {
        (m, pa, ub) \<leftarrow> init (kc_pageTables kc) root m (kc_pageAllocator kc) ub;
        Some (m, kc\<lparr>kc_pageAllocator := pa, kc_bootstrap := False\<rparr>, ub)
      })"

definition kernel_main :: "kernel_context \<Rightarrow> StatusCode" where
  "kernel_main _ = Ok"

text \<open>The destructor of the bootstrapper: the pages of the first descriptor of the loader are
  unmapped, then the loop is left.\<close>

fun unmap_pages :: "mem \<Rightarrow> u64 \<Rightarrow> u64 \<Rightarrow> nat \<Rightarrow> mem option" where
  "unmap_pages m root addr 0 = Some m"
| "unmap_pages m root addr (Suc left) =
     (case vwrite64 m root (PT_ENTRY addr) 0 of None \<Rightarrow> None
      | Some m \<Rightarrow> unmap_pages m root (addr + PAGE_SIZE) left)"

fun uefi_destruct :: "mem \<Rightarrow> u64 \<Rightarrow> EFI_MEMORY_DESCRIPTOR list \<Rightarrow> mem option" where
  "uefi_destruct m root [] = Some m"
| "uefi_destruct m root (d # ds) =
     (if shouldBeUnmapped (Type d) then unmap_pages m root (PhysicalStart d) (unat (NumberOfPages d))
      else uefi_destruct m root ds)"

text \<open>\<open>kernel_boot_uefi\<close>: what memory and the context are when it freezes the processor, and
  whether the kernel was started.\<close>

definition kernel_boot_uefi ::
  "u64 \<Rightarrow> mem \<Rightarrow> boot_info option \<Rightarrow> EFI_MEMORY_DESCRIPTOR list \<Rightarrow> PageSet \<Rightarrow> u64 \<times> u8 list
    \<Rightarrow> (mem \<times> (kernel_context \<times> StatusCode) option) option" where
  "kernel_boot_uefi root m bootInfo ds indeterminate indeterminate' =
     (case bootInfo of
        None \<Rightarrow> Some (m, None)
      | Some bi \<Rightarrow>
        if bi_magic bi \<noteq> BOOTINFO_MAGIC then Some (m, None)
        else do {
          ub \<leftarrow> uefi_construct bi ds indeterminate;
          (m, kc, ub) \<leftarrow> CreateContext root m indeterminate' ub;
          m \<leftarrow> uefi_destruct m root (ub_map ub);
          Some (m, Some (kc, kernel_main kc))
        })"

end
