(* ===== verification/SelfMap.thy ===== *)
theory SelfMap
  imports BootProps
begin

text \<open>
  The self map: entry 511 of the top-level table points to the table itself, so the address that
  \<open>PT_ENTRY\<close> (include/packages/efi/paging.h) and \<open>entryAddr\<close> (include/kernel/paging.h) compute for
  an address translates to the slot of its leaf entry, and the same formula applied again reaches
  the entries of the levels above.
\<close>

lemma self_entry:
  assumes "pt_inv m root T"
  shows "next_table m root 511 = Some root"
proof -
  have f: "frame_addr root" by (rule pt_inv_root [OF assms])
  have "root AND PAGE_ADDR_MASK = root" using f by (simp add: frame_addr_def PAGE_ADDR_MASK_def)
  then show ?thesis
    using pt_inv_self [OF assms] frame_link_entry [OF f] by (simp add: next_table_def Let_def)
qed

lemma slot_or: "frame_addr t \<Longrightarrow> i < 512 \<Longrightarrow> t OR 8 * i = slot_addr t i"
proof -
  assume t: "frame_addr t" "i < 512"
  have i: "8 * i = push_bit 3 i" by (simp add: push_bit_eq_mult mult.commute)
  have "bit (t OR 8 * i) n \<longleftrightarrow> bit (slot_addr t i) n" for n
  proof -
    have "bit t n \<Longrightarrow> 12 \<le> n" using t(1) by (auto simp: frame_addr_bit)
    moreover have "bit i (n - 3) \<Longrightarrow> n - 3 < 9" by (rule bit_index_less [OF t(2)])
    ultimately show ?thesis
      unfolding bit_slot_addr [OF t] bit_or_iff i bit_push_bit_iff
      by (auto dest: bit_imp_le_length)
  qed
  then show ?thesis by (rule bit_eqI)
qed

lemma translate_PT_ENTRY:
  assumes inv: "pt_inv m root T" and t: "table_at m root (path_of v) = Some t"
  shows "translate m root (PT_ENTRY v) = Some (slot_addr t (PT_L1_IDX v))"
proof -
  obtain t3 t2 where l: "next_table m root (PT_L4_IDX v) = Some t3" "next_table m t3 (PT_L3_IDX v) = Some t2"
    "next_table m t2 (PT_L2_IDX v) = Some t"
    using t by (auto simp: path_of_def split: option.splits)
  have p: "path_of (PT_ENTRY v) = [511, PT_L4_IDX v, PT_L3_IDX v]"
    by (simp add: path_of_def PT_ENTRY_indices)
  have e: "leaf_entry m t2 (PT_ENTRY v) AND Present \<noteq> 0" "leaf_entry m t2 (PT_ENTRY v) AND PAGE_ADDR_MASK = t"
    using l(3) by (auto simp: leaf_entry_def PT_ENTRY_indices next_table_def Let_def split: if_splits)
  have "table_at m root (path_of (PT_ENTRY v)) = Some t2"
    unfolding p using self_entry [OF inv] l by simp
  then have "walk m root (PT_ENTRY v) = Some (leaf_entry m t2 (PT_ENTRY v))"
    using e by (simp add: walk_def Let_def)
  moreover have "frame_addr t" by (rule pt_inv_frame [OF inv t])
  ultimately show ?thesis
    using e by (simp add: translate_def PT_ENTRY_offset slot_or)
qed

text \<open>C14: whenever the tables of an address exist, the address that the self map gives its leaf
  entry translates to the slot of that entry, so a store there sets exactly the mapping of the
  address.\<close>

theorem PT_ENTRY_reaches_entry:
  assumes "pt_inv m root T" "table_at m root (path_of v) = Some t"
  shows "translate m root (PT_ENTRY v) = Some (slot_addr t (PT_L1_IDX v))
    \<and> entryAddr 0xFFFFFF8000000000 v = PT_ENTRY v
    \<and> walk m root v = (let e = read64 m (slot_addr t (PT_L1_IDX v)) in
          if e AND Present = 0 then None else Some e)"
  using translate_PT_ENTRY [OF assms] assms(2)
  by (simp add: PT_ENTRY_entryAddr walk_def leaf_entry_def)

lemma PT_ENTRY_reaches_entry_witness:
  "\<exists>s. create_page_tables demo_efi demo_boot = (s, Inr 0x1000)
    \<and> translate (bmem s) 0x1000 (PT_ENTRY 0xFFFFFFFFFFFFF000) = Some (slot_addr 0x1000 511)"
proof -
  obtain s where c: "create_page_tables demo_efi demo_boot = (s, Inr 4096)"
    and i: "boot_inv demo_owned {} 4096 s" by (rule demo_inv)
  have inv: "pt_inv (bmem s) 0x1000 (demo_owned (fw s) - {})" using i by (simp add: boot_inv_def)
  have p: "path_of 0xFFFFFFFFFFFFF000 = [511, 511, 511]" "PT_L1_IDX 0xFFFFFFFFFFFFF000 = 511"
    by (simp_all add: path_of_def PT_L4_IDX_def PT_L3_IDX_def PT_L2_IDX_def PT_L1_IDX_def)
  have "table_at (bmem s) 0x1000 (path_of 0xFFFFFFFFFFFFF000) = Some 0x1000"
    unfolding p using self_entry [OF inv] by simp
  then show ?thesis using PT_ENTRY_reaches_entry [OF inv] c p by simp
qed

end
