(* ===== verification/VirtualMem.thy ===== *)
theory VirtualMem
  imports KernelMap SelfMap
begin

text \<open>
  Access to virtual memory through the self map: a page is translated as a whole, eight bytes
  and a page at the address of a table or of an entry are those of the physical table, and the
  two stores by which \<open>RecursivePageTables::map\<close> adds a table are \<open>link_table\<close>.
\<close>

subsection \<open>Pages\<close>

lemma page_offset_bits:
  assumes "PT_PAGE_BASE A = A" "unat d < 4096"
  shows "bit (A + d) n \<longleftrightarrow> (if n < 12 then bit d n else bit A n)"
proof -
  have d: "bit d n \<Longrightarrow> n < 12" for n using assms(2) by (intro bit_less_exp [of d 12]) simp_all
  have p: "bit A n \<Longrightarrow> 12 \<le> n" for n using assms(1) bit_PT_PAGE_BASE by metis
  have "\<not> (bit A k \<and> bit d k)" for k using d [of k] p [of k] by linarith
  then have "A AND d = 0" by (intro bit_eqI) (simp add: bit_and_iff)
  then have "A + d = A OR d" by (rule disjunctive_add_eq_or)
  then show ?thesis using d [of n] p [of n] by (auto simp: bit_or_iff)
qed

lemma PT_IDX_offset:
  assumes "PT_PAGE_BASE A = A" "unat d < 4096" "1 \<le> l"
  shows "PT_IDX (A + d) l = PT_IDX A l"
proof (rule bit_eqI)
  fix n
  have "12 \<le> nat (12 + (l - 1) * 9) + n" using assms(3) by simp
  then show "bit (PT_IDX (A + d) l) n = bit (PT_IDX A l) n"
    by (simp add: bit_PT_IDX page_offset_bits [OF assms(1,2)])
qed

lemma walk_offset:
  assumes "PT_PAGE_BASE A = A" "unat d < 4096"
  shows "walk m root (A + d) = walk m root A"
proof -
  have "path_of (A + d) = path_of A" "PT_L1_IDX (A + d) = PT_L1_IDX A"
    using PT_IDX_offset [OF assms, of 1] PT_IDX_offset [OF assms, of 2] PT_IDX_offset [OF assms, of 3]
      PT_IDX_offset [OF assms, of 4]
    by (simp_all add: path_of_def PT_IDX_levels)
  then show ?thesis unfolding walk_def leaf_entry_def by (simp only:)
qed

lemma offset_mask:
  assumes "PT_PAGE_BASE A = A" "unat d < 4096"
  shows "(A + d) AND PAGE_MASK = d" "A AND PAGE_MASK = 0"
proof -
  have d: "bit d n \<Longrightarrow> n < 12" for n using assms(2) by (intro bit_less_exp [of d 12]) simp_all
  have p: "bit A n \<Longrightarrow> 12 \<le> n" for n using assms(1) bit_PT_PAGE_BASE by metis
  show "(A + d) AND PAGE_MASK = d"
    unfolding PAGE_MASK_def
    by (rule bit_eqI) (auto simp: bit_and_iff bit_mask12 bit_mask12_int page_offset_bits [OF assms] dest: d)
  show "A AND PAGE_MASK = 0"
    unfolding PAGE_MASK_def
    by (rule bit_eqI) (auto simp: bit_and_iff bit_mask12 bit_mask12_int dest: p)
qed

lemma frame_or_offset:
  assumes "frame_addr f" "unat d < 4096"
  shows "f OR d = f + d"
proof (rule bit_eqI)
  fix n
  have d: "bit d n \<Longrightarrow> n < 12" using assms(2) by (intro bit_less_exp [of d 12]) simp_all
  have f: "bit f n \<Longrightarrow> 12 \<le> n" using assms(1) by (simp add: frame_addr_bit)
  show "bit (f OR d) n = bit (f + d) n"
    using d f page_offset_bits [OF frame_addr_base [OF assms(1)] assms(2), of n] by (auto simp: bit_or_iff)
qed

lemma frame_masked: "frame_addr (e AND PAGE_ADDR_MASK)"
  by (simp add: frame_addr_def PAGE_ADDR_MASK_def)

text \<open>An address in a page translates to the same offset of the page's frame.\<close>

lemma translate_offset:
  assumes "PT_PAGE_BASE A = A" "unat d < 4096"
  shows "translate m root (A + d) = map_option (\<lambda>f. f + d) (translate m root A)"
proof -
  have "(e AND PAGE_ADDR_MASK) OR d = (e AND PAGE_ADDR_MASK) + d" for e
    by (rule frame_or_offset [OF frame_masked assms(2)])
  then show ?thesis
    unfolding translate_def walk_offset [OF assms] offset_mask [OF assms]
    by (cases "walk m root A") simp_all
qed

lemma translate_frame:
  assumes "PT_PAGE_BASE A = A" "translate m root A = Some f"
  shows "frame_addr f"
  using assms offset_mask(2) [OF assms(1), of 0] frame_masked by (auto simp: translate_def)

lemma PT_PAGE_BASE_idem [simp]: "PT_PAGE_BASE (PT_PAGE_BASE x) = PT_PAGE_BASE x"
  by (rule bit_eqI) (auto simp: bit_PT_PAGE_BASE)

lemma page_offset_less: "unat (take_bit 12 (x :: u64)) < 4096"
proof -
  have "unat (take_bit 12 x) < 2 ^ 12"
    unfolding unsigned_take_bit_eq by (rule take_bit_nat_less_exp)
  then show ?thesis by simp
qed

lemma translate_page:
  "translate m root x = map_option (\<lambda>f. f + take_bit 12 x) (translate m root (PT_PAGE_BASE x))"
  using translate_offset [OF PT_PAGE_BASE_idem page_offset_less, of m root x x] page_split [of x] by simp

subsection \<open>Eight bytes and a page\<close>

lemma vaddrs_page:
  assumes A: "PT_PAGE_BASE A = A" and tr: "translate m root A = Some f" and o: "unat d + n \<le> 4096"
  shows "vaddrs m root (A + d) n = Some (map (\<lambda>i. f + d + of_nat i) [0..<n])"
proof -
  have u: "unat (d + of_nat i) < 4096" if "i < n" for i
  proof -
    have "unat (of_nat i :: u64) = i" by (rule unat_of_nat_small) (use that o in simp)
    then have "unat (d + of_nat i) = unat d + i" by (subst unat_add_small) (use that o in simp_all)
    then show ?thesis using that o by simp
  qed
  have "translate m root (A + d + of_nat i) = Some (f + d + of_nat i)" if "i < n" for i
    using translate_offset [OF A u [OF that], of m root] tr by (simp add: add.assoc)
  then have e: "map (\<lambda>i. translate m root (A + d + of_nat i)) [0..<n] = map (\<lambda>i. Some (f + d + of_nat i)) [0..<n]"
    by simp
  have "those (map (\<lambda>i. Some (g i)) xs) = Some (map g xs)" for g :: "nat \<Rightarrow> u64" and xs
    by (induction xs) simp_all
  then show ?thesis unfolding vaddrs_def e by simp
qed

lemma upt_8: "[0..<8] = [0, 1, 2, 3, 4, 5, 6, 7]"
  by (simp add: upt_rec)

lemma vread64_page:
  assumes "PT_PAGE_BASE A = A" "translate m root A = Some f" "unat d + 8 \<le> 4096"
  shows "vread64 m root (A + d) = Some (read64 m (f + d))"
  unfolding vread64_def vaddrs_page [OF assms] upt_8
  by (simp add: read64_def numeral_2_eq_2 [symmetric])

lemma vwrite64_page:
  assumes "PT_PAGE_BASE A = A" "translate m root A = Some f" "unat d + 8 \<le> 4096"
  shows "vwrite64 m root (A + d) x = Some (write64 m (f + d) x)"
  unfolding vwrite64_def vaddrs_page [OF assms] word_bytes_def upt_8
  by (simp add: write64_def)

lemma vmemset_page:
  assumes A: "PT_PAGE_BASE A = A" and n: "unat d + n \<le> 4096"
    and tr: "\<And>m'. (\<And>x. PT_PAGE_BASE x \<noteq> f \<Longrightarrow> m' x = m x) \<Longrightarrow> translate m' root A = Some f"
    and f: "frame_addr f"
  shows "vmemset m root (A + d) val n = Some (memset_loop m (f + d) val n)"
  using n tr
proof (induction n arbitrary: m d)
  case (Suc n)
  have d: "unat d < 4096" using Suc.prems(1) by simp
  have t: "translate m root (A + d) = Some (f + d)"
    using translate_offset [OF A d, of m root] Suc.prems(2) [of m] by simp
  have fb: "PT_PAGE_BASE (f + d) = f" by (rule page_aligned_add [OF frame_addr_base [OF f] d])
  have "vmemset (m(f + d := val)) root (A + (d + 1)) val n = Some (memset_loop (m(f + d := val)) (f + (d + 1)) val n)"
    if "0 < n"
  proof (rule Suc.IH)
    show "unat (d + 1) + n \<le> 4096" using Suc.prems(1) that by (subst unat_Suc) simp_all
    show "translate m' root A = Some f" if "\<And>x. PT_PAGE_BASE x \<noteq> f \<Longrightarrow> m' x = (m(f + d := val)) x" for m'
      by (rule Suc.prems(2)) (use that fb in auto)
  qed
  then show ?case using t by (cases n) (simp_all add: add.assoc fun_upd_def)
qed simp


subsection \<open>Through the self map\<close>

lemma translate_entry_address:
  assumes inv: "pt_inv m root T" and path: "path_of e = replicate k 511 @ is"
    and t: "table_at m root is = Some t"
  shows "translate m root (PT_ENTRY e) = Some (slot_addr t (PT_L1_IDX e))"
    "translate m root (PT_PAGE_BASE (PT_ENTRY e)) = Some t"
proof -
  have "table_at m root (replicate k 511 @ is) = Some t"
    using t by (induction k) (simp_all add: self_entry [OF inv])
  then show e: "translate m root (PT_ENTRY e) = Some (slot_addr t (PT_L1_IDX e))"
    using translate_PT_ENTRY [OF inv] path by simp
  have ft: "frame_addr t" by (rule pt_inv_frame [OF inv t])
  obtain f where f: "translate m root (PT_PAGE_BASE (PT_ENTRY e)) = Some f"
    and s: "slot_addr t (PT_L1_IDX e) = f + take_bit 12 (PT_ENTRY e)"
    using e translate_page [of m root "PT_ENTRY e"] by auto
  have "frame_addr f" by (rule translate_frame [OF PT_PAGE_BASE_idem f])
  then have "PT_PAGE_BASE (slot_addr t (PT_L1_IDX e)) = f"
    unfolding s by (rule page_aligned_add [OF frame_addr_base page_offset_less])
  moreover have "PT_PAGE_BASE (slot_addr t (PT_L1_IDX e)) = t"
    using frame_of_slot [OF ft PT_L1_IDX_less, of 0 e] by simp
  ultimately show "translate m root (PT_PAGE_BASE (PT_ENTRY e)) = Some t" using f by simp
qed

text \<open>The page of \<open>e\<close>, whose tables are the self map and then those of \<open>is\<close>, is the table behind
  the entry of \<open>e\<close>.\<close>

lemma translate_table_page:
  assumes inv: "pt_inv m root T" and path: "path_of e = replicate k 511 @ is"
    and t: "table_at m root is = Some t" and p: "next_table m t (PT_L1_IDX e) = Some p"
  shows "translate m root (PT_PAGE_BASE e) = Some p"
proof -
  have "table_at m root (replicate k 511 @ is) = Some t"
    using t by (induction k) (simp_all add: self_entry [OF inv])
  then have "walk m root e = Some (leaf_entry m t e)" "leaf_entry m t e AND PAGE_ADDR_MASK = p"
    using p path by (auto simp: walk_def leaf_entry_def next_table_def Let_def split: if_splits)
  moreover have "walk m root e = walk m root (PT_PAGE_BASE e)"
    using walk_offset [OF PT_PAGE_BASE_idem page_offset_less, of m root e e] page_split [of e] by simp
  moreover have "PT_PAGE_BASE e AND PAGE_MASK = 0"
    using offset_mask(2) [OF PT_PAGE_BASE_idem, of 0] by simp
  ultimately show ?thesis by (simp add: translate_def)
qed

lemma take_bit_slot: "PT_ENTRY e = PT_PAGE_BASE (PT_ENTRY e) + 8 * PT_L1_IDX e"
proof -
  have "take_bit 12 (PT_ENTRY e) = PT_ENTRY e AND PAGE_MASK"
    unfolding PAGE_MASK_def mask12_eq by (simp add: take_bit_eq_mask)
  then show ?thesis using page_split [of "PT_ENTRY e"] PT_ENTRY_offset by simp
qed

lemma unat_slot_offset: "i < 512 \<Longrightarrow> unat (8 * i :: u64) = 8 * unat i"
  by (simp add: unat_word_ariths word_less_nat_alt)

text \<open>Reading any slot of the table at the page of entries.\<close>

lemma vread64_slot:
  assumes inv: "pt_inv m root T" and path: "path_of e = replicate k 511 @ is"
    and t: "table_at m root is = Some t" and i: "i < 512"
  shows "vread64 m root (PT_PAGE_BASE (PT_ENTRY e) + 8 * i) = Some (read64 m (slot_addr t i))"
proof -
  have "unat (8 * i) + 8 \<le> 4096" using i unat_slot_offset [OF i] by (simp add: word_less_nat_alt)
  then show ?thesis
    using vread64_page [OF PT_PAGE_BASE_idem translate_entry_address(2) [OF inv path t], of "8 * i"]
    by (simp add: slot_addr_def)
qed

lemma vwrite64_entry:
  assumes inv: "pt_inv m root T" and path: "path_of e = replicate k 511 @ is"
    and t: "table_at m root is = Some t"
  shows "vwrite64 m root (PT_ENTRY e) x = Some (write64 m (slot_addr t (PT_L1_IDX e)) x)"
proof -
  have i: "PT_L1_IDX e < 512" by simp
  have "unat (8 * PT_L1_IDX e) + 8 \<le> 4096"
    using i unat_slot_offset [OF i] by (simp add: word_less_nat_alt)
  then show ?thesis
    using vwrite64_page [OF PT_PAGE_BASE_idem translate_entry_address(2) [OF inv path t], of "8 * PT_L1_IDX e" x]
    by (simp add: slot_addr_def take_bit_slot [symmetric])
qed

text \<open>Linking a fresh frame and clearing it through the self map is \<open>link_table\<close>.\<close>

lemma link_table_swap:
  assumes "frame_addr t" "i < 512" "frame_addr p" "p \<noteq> t"
  shows "clear_table (write64 m (slot_addr t i) x) p = write64 (clear_table m p) (slot_addr t i) x"
proof
  fix a
  show "clear_table (write64 m (slot_addr t i) x) p a = write64 (clear_table m p) (slot_addr t i) x a"
  proof (cases "PT_PAGE_BASE a = p")
    case True
    then show ?thesis using assms by (simp add: clear_table_at write64_slot_other)
  next
    case False
    then have "clear_table m p a = m a" using assms by (simp add: clear_table_at)
    then have "write64 (clear_table m p) (slot_addr t i) x a = write64 m (slot_addr t i) x a"
      by (simp add: write64_def)
    then show ?thesis using False assms by (simp add: clear_table_at)
  qed
qed

lemma link_via_self_map:
  assumes inv: "pt_inv m root T" and path: "path_of e = replicate k 511 @ is"
    and "is": "tree_path is" "length is < 3" and t: "table_at m root is = Some t"
    and i: "is = [] \<longrightarrow> PT_L1_IDX e \<noteq> 511" and p: "frame_addr p" "p \<notin> T"
  shows "\<exists>m1. vwrite64 m root (PT_ENTRY e) (p OR (Present OR RW)) = Some m1
    \<and> vmemset m1 root (PT_PAGE_BASE e) 0 4096 = Some (link_table m t (PT_L1_IDX e) p)"
proof -
  let ?i = "PT_L1_IDX e" and ?x = "p OR (Present OR RW)"
  let ?m1 = "write64 m (slot_addr t ?i) ?x"
  let ?l = "link_table m t ?i p"
  have ft: "frame_addr t" by (rule pt_inv_frame [OF inv t])
  have tT: "t \<in> T" by (rule pt_inv_owned [OF inv "is"(1) t])
  have pt: "p \<noteq> t" using tT p(2) by auto
  have linv: "pt_inv ?l root (insert p T)"
    by (rule link_table_inv [OF inv "is"(1) t "is"(2) PT_L1_IDX_less i p])
  have lt: "table_at ?l root is = Some t"
    using link_table_tables [OF inv "is"(1) t "is"(2) PT_L1_IDX_less i p "is"(1)] t by (simp add: prefix_def)
  have ln: "next_table ?l t ?i = Some p"
    using link_table_read [OF ft PT_L1_IDX_less p(1) ft PT_L1_IDX_less] frame_link_entry [OF p(1)]
    by (simp add: next_table_def)
  have agree: "?m1 x = ?l x" if "PT_PAGE_BASE x \<noteq> p" for x
    unfolding link_table_def link_table_swap [OF ft PT_L1_IDX_less p(1) pt, symmetric]
    using that p(1) by (simp add: clear_table_at)
  have tr: "translate m' root (PT_PAGE_BASE e) = Some p" if m': "\<And>x. PT_PAGE_BASE x \<noteq> p \<Longrightarrow> m' x = ?m1 x" for m'
  proof -
    have mem: "m' x = ?l x" if "PT_PAGE_BASE x \<noteq> p" for x using m' [OF that] agree [OF that] by simp
    have slot: "read64 m' (slot_addr t' j) = read64 ?l (slot_addr t' j)"
      if "frame_addr t'" "j < 512" "t' \<noteq> p" for t' j
      using that by (intro read64_cong mem) (simp add: frame_of_slot)
    have root: "frame_addr root" "root \<noteq> p"
      using pt_inv_root [OF inv] pt_inv_owned [OF inv, of "[]" root] p(2) by auto
    have self: "next_table m' root 511 = Some root"
      using self_entry [OF linv] slot [OF root(1) _ root(2), of 511] by (simp add: next_table_def)
    have at: "table_at m' root is = table_at ?l root is"
    proof (rule table_at_cong)
      fix ks j rest t'
      assume s: "is = ks @ j # rest" and t': "table_at ?l root ks = Some t'"
      have ks: "tree_path ks" "j < 512" using "is"(1) s tree_path_prefix tree_path_index by blast+
      have "table_at ?l root ks = table_at m root ks"
        using link_table_tables [OF inv "is"(1) t "is"(2) PT_L1_IDX_less i p ks(1)] s
        by (auto simp: prefix_def)
      then have "t' \<in> T" using pt_inv_owned [OF inv ks(1)] t' by simp
      then show "read64 m' (slot_addr t' j) = read64 ?l (slot_addr t' j)"
        using pt_inv_frame [OF linv t'] ks(2) p(2) by (intro slot) auto
    qed
    have "table_at m' root (replicate k 511 @ is) = Some t"
      using at lt by (induction k) (simp_all add: self)
    then have "walk m' root e = Some (read64 ?l (slot_addr t ?i))"
      using slot [OF ft PT_L1_IDX_less pt [symmetric], of e] path ln
      by (auto simp: walk_def leaf_entry_def next_table_def Let_def split: if_splits)
    moreover have "walk m' root e = walk m' root (PT_PAGE_BASE e)"
      using walk_offset [OF PT_PAGE_BASE_idem page_offset_less, of m' root e e] page_split [of e] by simp
    moreover have "PT_PAGE_BASE e AND PAGE_MASK = 0"
      using offset_mask(2) [OF PT_PAGE_BASE_idem, of 0] by simp
    ultimately show ?thesis
      using ln by (auto simp: translate_def next_table_def Let_def split: if_splits)
  qed
  have "vmemset ?m1 root (PT_PAGE_BASE e + 0) 0 4096 = Some (memset_loop ?m1 (p + 0) 0 4096)"
    by (rule vmemset_page [OF PT_PAGE_BASE_idem _ tr p(1)]) simp_all
  moreover have "memset_loop ?m1 p 0 4096 = ?l"
    unfolding link_table_def link_table_swap [OF ft PT_L1_IDX_less p(1) pt, symmetric]
    by (simp add: clear_table_def memset_def kPageSize_def)
  ultimately show ?thesis using vwrite64_entry [OF inv path t, of ?x] by simp
qed

end
