(* ===== verification/FrameAlloc.thy ===== *)
theory FrameAlloc
  imports PhysAlloc
begin

text \<open>
  What the kernel's page tables need of their allocator, as a contract, and that the physical page
  allocator (\<open>DefaultPhysicalMemoryAllocator\<close>, kernel/src/main/cpp/paging.cpp) meets it as long as the
  pages at \<open>lowestFreePage_\<close> are free: then \<open>allocatePage\<close> returns the page it marks.  With a page in
  use there it would return that page, so the contract has a supply, the number of calls that are sure.
\<close>

subsection \<open>The contract\<close>

text \<open>\<open>avail n s\<close>: the next \<open>n\<close> calls each fail and take nothing, or return a frame that was not in use.\<close>

locale frame_allocator =
  fixes alloc :: "'s \<Rightarrow> (u64 StatusOr \<times> 's) option"
    and owned :: "'s \<Rightarrow> u64 set"
    and avail :: "nat \<Rightarrow> 's \<Rightarrow> bool"
  assumes avail_alloc: "avail (Suc n) s \<Longrightarrow> \<exists>r s'. alloc s = Some (r, s') \<and> avail n s' \<and>
      ((\<exists>e. r = StatusOr_status e \<and> e \<noteq> Ok \<and> owned s' = owned s) \<or>
       (\<exists>p. r = StatusOr_item p \<and> frame_addr p \<and> p \<notin> owned s \<and> owned s' = insert p (owned s)))"
    and avail_less: "avail (Suc n) s \<Longrightarrow> avail n s"
begin

lemma avail_0: "avail n s \<Longrightarrow> avail 0 s"
  by (induction n) (auto intro: avail_less)

end

text \<open>A supply that never fails.\<close>

locale frame_reserve = frame_allocator +
  assumes avail_item: "avail (Suc n) s \<Longrightarrow> alloc s \<noteq> Some (StatusOr_status e, s')"
begin

lemma avail_frame:
  assumes "avail (Suc n) s"
  obtains p s' where "alloc s = Some (StatusOr_item p, s')" "avail n s'" "frame_addr p" "p \<notin> owned s"
    "owned s' = insert p (owned s)"
  using avail_alloc [OF assms] avail_item [OF assms] by blast

end

subsection \<open>The page allocator\<close>

text \<open>The frames whose bits are set.\<close>

definition used_frames :: "phys_alloc \<Rightarrow> u64 set" where
  "used_frames s = (\<lambda>p. of_nat p * kPageSize) ` pa_used s"

text \<open>The bitmap covers at most the 52 bits of a physical address.\<close>

definition pa_physical :: "phys_alloc \<Rightarrow> bool" where
  "pa_physical s \<longleftrightarrow> pa_inv s \<and> pa_pages s \<le> 2 ^ 40"

text \<open>The \<open>n\<close> pages from \<open>lowestFreePage_\<close> are free.\<close>

definition frames_free :: "nat \<Rightarrow> phys_alloc \<Rightarrow> bool" where
  "frames_free n s \<longleftrightarrow> pa_physical s \<and> pa_status s = Ok
     \<and> (\<forall>i < n. unat (pa_lowestFreePage s) + i < pa_pages s \<and> unat (pa_lowestFreePage s) + i \<notin> pa_used s)"

text \<open>They are free, or the allocator can only fail: it is not initialised, or no page at all is free.\<close>

definition frames_ready :: "nat \<Rightarrow> phys_alloc \<Rightarrow> bool" where
  "frames_ready n s \<longleftrightarrow> frames_free n s \<or> pa_physical s \<and> (pa_status s \<noteq> Ok \<or> {..< pa_pages s} \<subseteq> pa_used s)"

lemma page_frame_number:
  assumes "k < 2 ^ 40"
  shows "unat (of_nat k * kPageSize) = k * 4096" "frame_addr (of_nat k * kPageSize)"
proof -
  have w: "(of_nat k * kPageSize :: u64) = of_nat (k * 4096)" by (simp add: kPageSize_def)
  have "k * 4096 < 2 ^ LENGTH(64)" using assms by simp
  then show u: "unat (of_nat k * kPageSize) = k * 4096" unfolding w by (rule unat_of_nat_small)
  have b: "bit (of_nat k * kPageSize :: u64) n \<Longrightarrow> 12 \<le> n \<and> n < 52" for n
  proof -
    assume "bit (of_nat k * kPageSize :: u64) n"
    then have "bit (k * 4096) n" unfolding u [symmetric] bit_unsigned_iff by simp
    then have p: "bit (push_bit 12 k) n" by (simp add: push_bit_eq_mult)
    then have "12 \<le> n" "bit k (n - 12)" by (simp_all add: bit_push_bit_iff)
    moreover have "take_bit 40 k = k" using assms by (simp add: take_bit_nat_eq_self)
    then have "n - 12 < 40" using \<open>bit k (n - 12)\<close> by (metis bit_take_bit_iff)
    ultimately show ?thesis by simp
  qed
  show "frame_addr (of_nat k * kPageSize)"
    unfolding frame_addr_bit using b by blast
qed

lemma used_frames_iff:
  assumes "pa_physical s" "k < 2 ^ 40"
  shows "of_nat k * kPageSize \<in> used_frames s \<longleftrightarrow> k \<in> pa_used s"
proof
  assume "of_nat k * kPageSize \<in> used_frames s"
  then obtain j where j: "j \<in> pa_used s" "of_nat k * kPageSize = (of_nat j * kPageSize :: u64)"
    by (auto simp: used_frames_def)
  then have "j < 2 ^ 40" using used_pages_bound [of "pa_bitmap s"] assms(1) by (force simp: pa_physical_def)
  then have "k * 4096 = j * 4096" using page_frame_number(1) assms(2) j(2) by metis
  then show "k \<in> pa_used s" using j(1) by simp
qed (auto simp: used_frames_def)

text \<open>\<open>allocatePage\<close> when the page of \<open>lowestFreePage_\<close> is free.\<close>

lemma allocatePage_free:
  assumes f: "frames_free (Suc n) s"
  obtains p s' where "allocatePage s = Some (StatusOr_item p, s')" "p = pa_lowestFreePage s * kPageSize" "frames_free n s'"
    "frame_addr p" "p \<notin> used_frames s" "used_frames s' = insert p (used_frames s)"
proof -
  let ?low = "unat (pa_lowestFreePage s)"
  have s: "pa_inv s" "pa_status s = Ok" "pa_pages s \<le> 2 ^ 40" using f by (simp_all add: frames_free_def pa_physical_def)
  have fr: "?low + i < pa_pages s \<and> ?low + i \<notin> pa_used s" if "i \<le> n" for i
    using f that by (simp add: frames_free_def)
  have low: "?low < pa_pages s" "?low \<notin> pa_used s" using fr [of 0] by simp_all
  then have ne: "\<not> {..< pa_pages s} \<subseteq> pa_used s" by blast
  have one: "(1::u64) \<noteq> 0" "unat (1::u64) = 1" by simp_all
  obtain s1 first k where r: "allocatePages s 1 = Some (alloc_result s k, s1)" "pa_inv s1" "pa_status s1 = Ok"
    and m: "marks_run s 1 s1 first k" and k: "k = 0 \<longleftrightarrow> {..< pa_pages s} \<subseteq> pa_used s"
    and l: "0 < k \<Longrightarrow> unat (pa_lowestFreePage s1) =
       (if k = 1 \<and> first + k < pa_pages s \<and> first + k \<notin> pa_used s then first + k else ?low)"
    by (rule allocatePages_run [OF s(1,2) one(1)]) (simp only: one(2))
  have k1: "k = 1" using k m ne by (simp add: marks_run_def)
  have m1: "{..< first} \<inter> {..< pa_pages s} \<subseteq> pa_used s" "first \<notin> pa_used s" "first < pa_pages s"
    "pa_used s1 = insert first (pa_used s)" "pa_pages s1 = pa_pages s"
    using m unfolding k1 marks_run_def by auto
  have first: "first = ?low"
  proof (rule antisym)
    have "?low \<notin> {..< first} \<inter> {..< pa_pages s}" using m1(1) low(2) by blast
    then show "first \<le> ?low" using low(1) by simp
    have "first \<notin> {..< ?low} \<inter> {..< pa_pages s}" using s(1) m1(2) unfolding pa_inv_def by blast
    then show "?low \<le> first" using m1(3) by simp
  qed
  have p: "pa_lowestFreePage s * kPageSize = (of_nat ?low * kPageSize :: u64)" by simp
  have lt: "?low < 2 ^ 40" using low(1) s(3) by simp
  have "allocatePage s = Some (StatusOr_item (pa_lowestFreePage s * kPageSize), s1)"
    using r(1) k1 by (simp add: allocatePage_def alloc_result_def)
  moreover have "pa_physical s1" using r(2) m1(5) s(3) by (simp add: pa_physical_def)
  then have "frames_free n s1"
  proof (cases n)
    case (Suc n')
    then have "first + 1 < pa_pages s \<and> first + 1 \<notin> pa_used s" using fr [of 1] first by simp
    then have l1: "unat (pa_lowestFreePage s1) = ?low + 1" using l k1 first by simp
    show ?thesis
      unfolding frames_free_def l1 m1(4,5)
      using \<open>pa_physical s1\<close> r(3) fr [of "Suc _"] first by auto
  qed (use r(3) in \<open>simp add: frames_free_def\<close>)
  moreover have "frame_addr (pa_lowestFreePage s * kPageSize)" unfolding p by (rule page_frame_number(2) [OF lt])
  moreover have "pa_lowestFreePage s * kPageSize \<notin> used_frames s"
    unfolding p using used_frames_iff [OF _ lt, of s] low(2) f by (simp add: frames_free_def)
  moreover have "used_frames s1 = insert (pa_lowestFreePage s * kPageSize) (used_frames s)"
    unfolding used_frames_def m1(4) first by simp
  ultimately show ?thesis using that by blast
qed

lemma allocatePage_fails:
  assumes "pa_physical s" "pa_status s \<noteq> Ok \<or> {..< pa_pages s} \<subseteq> pa_used s"
  obtains e s' where "allocatePage s = Some (StatusOr_status e, s')" "e \<noteq> Ok" "used_frames s' = used_frames s"
    "pa_physical s'" "pa_status s' \<noteq> Ok \<or> {..< pa_pages s'} \<subseteq> pa_used s'"
proof (cases "pa_status s = Ok")
  case False
  then have "allocatePage s = Some (StatusOr_status InitializationError, s)"
    using allocatePages_error [of s 1] by (simp add: allocatePage_def)
  then show ?thesis using that assms(1) False by blast
next
  case True
  have inv: "pa_inv s" using assms(1) by (simp add: pa_physical_def)
  have full: "{..< pa_pages s} \<subseteq> pa_used s" using assms(2) True by simp
  obtain s' p where s': "allocatePage s = Some (if {..< pa_pages s} \<subseteq> pa_used s then StatusOr_status OutOfMemory
       else StatusOr_item (pa_lowestFreePage s * kPageSize), s')" "pa_inv s'" "pa_pages s' = pa_pages s"
    "pa_used s' = (if {..< pa_pages s} \<subseteq> pa_used s then pa_used s else insert p (pa_used s))"
    by (rule allocatePage_run [OF inv True]) blast
  have "allocatePage s = Some (StatusOr_status OutOfMemory, s')" using s'(1) full by simp
  moreover have "pa_used s' = pa_used s" using s'(4) full by simp
  ultimately show ?thesis
    using that s'(2,3) assms(1) full by (simp add: used_frames_def pa_physical_def)
qed

lemma frames_free_less: "frames_free (Suc n) s \<Longrightarrow> frames_free n s"
  by (simp add: frames_free_def)

interpretation reserve: frame_reserve allocatePage used_frames frames_free
proof
  fix n s
  assume "frames_free (Suc n) s"
  then obtain p s' where "allocatePage s = Some (StatusOr_item p, s')" "frames_free n s'"
    "frame_addr p" "p \<notin> used_frames s" "used_frames s' = insert p (used_frames s)"
    by (rule allocatePage_free)
  then show "\<exists>r s'. allocatePage s = Some (r, s') \<and> frames_free n s' \<and>
      ((\<exists>e. r = StatusOr_status e \<and> e \<noteq> Ok \<and> used_frames s' = used_frames s) \<or>
       (\<exists>p. r = StatusOr_item p \<and> frame_addr p \<and> p \<notin> used_frames s \<and> used_frames s' = insert p (used_frames s)))"
    by blast
next
  fix n s e s'
  assume "frames_free (Suc n) s"
  then show "allocatePage s \<noteq> Some (StatusOr_status e, s')"
    by (rule allocatePage_free) (simp add: StatusOr_status_def StatusOr_item_def)
qed (rule frames_free_less)

interpretation ready: frame_allocator allocatePage used_frames frames_ready
proof
  fix n s
  assume "frames_ready (Suc n) s"
  then show "\<exists>r s'. allocatePage s = Some (r, s') \<and> frames_ready n s' \<and>
      ((\<exists>e. r = StatusOr_status e \<and> e \<noteq> Ok \<and> used_frames s' = used_frames s) \<or>
       (\<exists>p. r = StatusOr_item p \<and> frame_addr p \<and> p \<notin> used_frames s \<and> used_frames s' = insert p (used_frames s)))"
    unfolding frames_ready_def
  proof (elim disjE conjE)
    assume "frames_free (Suc n) s"
    then show "\<exists>r s'. allocatePage s = Some (r, s') \<and>
        (frames_free n s' \<or> pa_physical s' \<and> (pa_status s' \<noteq> Ok \<or> {..< pa_pages s'} \<subseteq> pa_used s')) \<and>
        ((\<exists>e. r = StatusOr_status e \<and> e \<noteq> Ok \<and> used_frames s' = used_frames s) \<or>
         (\<exists>p. r = StatusOr_item p \<and> frame_addr p \<and> p \<notin> used_frames s \<and> used_frames s' = insert p (used_frames s)))"
      using reserve.avail_alloc by blast
  next
    assume "pa_physical s" "pa_status s \<noteq> Ok"
    then show "\<exists>r s'. allocatePage s = Some (r, s') \<and>
        (frames_free n s' \<or> pa_physical s' \<and> (pa_status s' \<noteq> Ok \<or> {..< pa_pages s'} \<subseteq> pa_used s')) \<and>
        ((\<exists>e. r = StatusOr_status e \<and> e \<noteq> Ok \<and> used_frames s' = used_frames s) \<or>
         (\<exists>p. r = StatusOr_item p \<and> frame_addr p \<and> p \<notin> used_frames s \<and> used_frames s' = insert p (used_frames s)))"
      by (metis allocatePage_fails)
  next
    assume "pa_physical s" "{..< pa_pages s} \<subseteq> pa_used s"
    then show "\<exists>r s'. allocatePage s = Some (r, s') \<and>
        (frames_free n s' \<or> pa_physical s' \<and> (pa_status s' \<noteq> Ok \<or> {..< pa_pages s'} \<subseteq> pa_used s')) \<and>
        ((\<exists>e. r = StatusOr_status e \<and> e \<noteq> Ok \<and> used_frames s' = used_frames s) \<or>
         (\<exists>p. r = StatusOr_item p \<and> frame_addr p \<and> p \<notin> used_frames s \<and> used_frames s' = insert p (used_frames s)))"
      by (metis allocatePage_fails)
  qed
qed (auto simp: frames_ready_def dest: frames_free_less)

end
