(* ===== verification/KernelMapProps.thy ===== *)
theory KernelMapProps
  imports VirtualMem FrameAlloc
begin

text \<open>
  Properties of the kernel's \<open>RecursivePageTables\<close>: where \<open>tableAddress\<close> differs from the address
  its comment derives, the addresses \<open>map\<close> maps correctly, and what it destroys for others.
\<close>

subsection \<open>The addresses of tables\<close>

definition tables_base :: u64 where "tables_base = 0xFFFFFF8000000000"

lemma bit_tables_high:
  assumes "level \<in> {1, 2, 3}"
  shows "bit (push_bit (nat (9 * (4 - level))) 0x7FFFFFF000 AND 0x7FFFFFF000 :: u64) n
    \<longleftrightarrow> 12 + nat (9 * (4 - level)) \<le> n \<and> n < 39"
proof -
  have "bit (push_bit (nat (9 * (4 - level))) 0x7FFFFFF000 :: u64) n
      \<longleftrightarrow> n < 64 \<and> 12 + nat (9 * (4 - level)) \<le> n \<and> n < 39 + nat (9 * (4 - level))"
    unfolding bit_push_bit_iff bit_tables_mask by auto
  then show ?thesis unfolding bit_and_iff bit_tables_mask by auto
qed

lemma bit_tableAddress:
  assumes "level \<in> {1, 2, 3}"
  shows "bit (tableAddress tables_base v level) n
    \<longleftrightarrow> n < 64 \<and> (39 \<le> n \<or> 12 + nat (9 * (4 - level)) \<le> n \<or> bit v (nat (9 * level) + n))"
  unfolding tableAddress_def bit_or_iff bit_tables_high [OF assms] tables_base_def bit_base bit_drop_bit_eq
  using assms by (auto dest: bit_imp_le_length)

lemma bit_tableAddress_doc:
  assumes "level \<in> {1, 2, 3}"
  shows "bit (tableAddress_doc tables_base v level) n
    \<longleftrightarrow> n < 64 \<and> 12 \<le> n \<and> (39 \<le> n \<or> 12 + nat (9 * (4 - level)) \<le> n \<or> bit v (nat (9 * level) + n))"
proof -
  have "bit ((drop_bit (nat (9 * level)) v OR push_bit (nat (9 * (4 - level))) 0x7FFFFFF000) AND 0x7FFFFFF000) n
    \<longleftrightarrow> 12 \<le> n \<and> n < 39 \<and> (12 + nat (9 * (4 - level)) \<le> n \<or> bit v (nat (9 * level) + n))"
    using bit_tables_high [OF assms, of n]
    unfolding bit_and_iff bit_or_iff bit_tables_mask bit_drop_bit_eq by auto
  then show ?thesis
    unfolding tableAddress_doc_def bit_or_iff tables_base_def bit_base by auto
qed

text \<open>The entries of the four levels, by \<open>PT_ENTRY\<close> again and again.\<close>

definition entry_at :: "u64 \<Rightarrow> nat \<Rightarrow> u64" where
  "entry_at v k = (PT_ENTRY ^^ k) v"

lemma entry_at_simps [simp]: "entry_at v 0 = v" "entry_at v (Suc k) = PT_ENTRY (entry_at v k)"
  by (simp_all add: entry_at_def)

lemma bit_entry_at:
  assumes "1 \<le> k" "k \<le> 4"
  shows "bit (entry_at v k) n \<longleftrightarrow> n < 64 \<and> 3 \<le> n \<and> (39 \<le> n + 9 * (k - 1) \<or> bit v (9 * k + n))"
proof -
  have "k = 1 \<or> k = 2 \<or> k = 3 \<or> k = 4" using assms by auto
  then show ?thesis
    by (auto simp: numeral_eq_Suc bit_PT_ENTRY add.commute add.left_commute dest: bit_imp_le_length)
qed

lemma entry_paths:
  "path_of (entry_at v 1) = replicate 1 511 @ [PT_L4_IDX v, PT_L3_IDX v]" "PT_L1_IDX (entry_at v 1) = PT_L2_IDX v"
  "path_of (entry_at v 2) = replicate 2 511 @ [PT_L4_IDX v]" "PT_L1_IDX (entry_at v 2) = PT_L3_IDX v"
  "path_of (entry_at v 3) = replicate 3 511 @ []" "PT_L1_IDX (entry_at v 3) = PT_L4_IDX v"
  by (simp_all add: path_of_def PT_ENTRY_indices numeral_eq_Suc)

lemma tableAddress_doc_entry:
  assumes "level \<in> {1, 2, 3}"
  shows "tableAddress_doc tables_base v level = PT_PAGE_BASE (entry_at v (nat level))"
proof (rule bit_eqI)
  fix n
  show "bit (tableAddress_doc tables_base v level) n = bit (PT_PAGE_BASE (entry_at v (nat level))) n"
    using assms unfolding bit_tableAddress_doc [OF assms] bit_PT_PAGE_BASE
    by (subst bit_entry_at) (auto dest: bit_imp_le_length)
qed

definition low_part :: "u64 \<Rightarrow> int \<Rightarrow> u64" where
  "low_part v level = take_bit 12 (drop_bit (nat (9 * level)) v)"

lemma tableAddress_low_part:
  assumes "level \<in> {1, 2, 3}"
  shows "tableAddress tables_base v level = tableAddress_doc tables_base v level + low_part v level"
proof -
  have l: "unat (low_part v level) < 4096" unfolding low_part_def by (rule page_offset_less)
  have d: "PT_PAGE_BASE (tableAddress_doc tables_base v level) = tableAddress_doc tables_base v level"
    unfolding tableAddress_doc_entry [OF assms] by simp
  show ?thesis
  proof (rule bit_eqI)
    fix n
    show "bit (tableAddress tables_base v level) n = bit (tableAddress_doc tables_base v level + low_part v level) n"
      unfolding page_offset_bits [OF d l] bit_tableAddress [OF assms] bit_tableAddress_doc [OF assms]
      using assms by (auto simp: low_part_def bit_take_bit_iff bit_drop_bit_eq dest: bit_imp_le_length)
  qed
qed


subsection \<open>One level\<close>

definition kernel_tables :: "recursive_tables \<Rightarrow> bool" where
  "kernel_tables rt \<longleftrightarrow> rt_tablesStart rt = tables_base \<and> rt_pml4 rt = PT_L4_BASE"

lemma PageEntry_make_table:
  assumes "frame_addr p"
  shows "PageEntry_make p (Present OR RW) = p OR (Present OR RW)"
proof -
  have "p AND 0x000FFFFFFFFFF000 = p" using assms by (simp add: frame_addr_def)
  then show ?thesis by (simp add: PageEntry_make_def)
qed

lemma entryAddr_page: "unat d < 4096 \<Longrightarrow> entryAddr tables_base (PT_PAGE_BASE e + d) = PT_ENTRY e"
proof (rule bit_eqI)
  fix n
  assume d: "unat d < 4096"
  show "bit (entryAddr tables_base (PT_PAGE_BASE e + d)) n = bit (PT_ENTRY e) n"
    unfolding tables_base_def bit_entryAddr bit_PT_ENTRY page_offset_bits [OF PT_PAGE_BASE_idem d]
      bit_PT_PAGE_BASE by auto
qed

lemma next_table_present: "next_table m t i = None \<longleftrightarrow> \<not> present (read64 m (slot_addr t i))"
  by (simp add: next_table_def Let_def present_bit)

context frame_allocator
begin

text \<open>The iteration, when the slot read is \<open>j\<close> of the table of the level, and the sub-table's
  address is the right one: a present slot changes nothing, otherwise a table is linked into the
  slot of the address.\<close>

lemma kmap_level_step:
  assumes kt: "kernel_tables rt" and av: "avail (Suc n) s"
    and inv: "pt_inv m root (owned s)" and path: "path_of e = replicate k 511 @ is"
    and "is": "tree_path is" "length is < 3" and t: "table_at m root is = Some t"
    and i: "PT_L1_IDX e = entryIndex v level" "is = [] \<longrightarrow> PT_L1_IDX e \<noteq> 511"
    and tab: "table + 8 * entryIndex v level = PT_PAGE_BASE (PT_ENTRY e) + 8 * j" "j < 512"
    and sub: "tableAddress tables_base v (level - 1) = PT_PAGE_BASE e"
    and call: "kmap_level rt alloc root v level (m, s) table = R"
  shows "(next_table m t j \<noteq> None \<and> R = Some ((m, s), Inr (PT_PAGE_BASE e)))
    \<or> (next_table m t j = None \<and>
        ((\<exists>s' err. alloc s = Some (StatusOr_status err, s') \<and> avail n s'
              \<and> R = Some ((m, s'), Inl err) \<and> err \<noteq> Ok \<and> owned s' = owned s)
         \<or> (\<exists>s' p. alloc s = Some (StatusOr_item p, s') \<and> avail n s' \<and> R = Some ((link_table m t (PT_L1_IDX e) p, s'), Inr (PT_PAGE_BASE e))
              \<and> frame_addr p \<and> p \<notin> owned s \<and> owned s' = insert p (owned s))))"
proof -
  let ?idx = "entryIndex v level"
  have idx: "?idx < 512" unfolding entryIndex_PT_IDX by (rule PT_IDX_less)
  have ge: "getEntry table ?idx = StatusOr_item (PT_PAGE_BASE (PT_ENTRY e) + 8 * j)"
    using getEntry_ok [OF idx] tab(1) by simp
  have rd: "vread64 m root (PT_PAGE_BASE (PT_ENTRY e) + 8 * j) = Some (read64 m (slot_addr t j))"
    by (rule vread64_slot [OF inv path t tab(2)])
  have sub': "tableAddress (rt_tablesStart rt) v (level_sub level 1) = PT_PAGE_BASE e"
    using sub kt by (simp add: kernel_tables_def level_sub_def)
  show ?thesis
  proof (cases "next_table m t j")
    case (Some t')
    then have "present (read64 m (slot_addr t j))" using next_table_present [of m t j] by simp
    then show ?thesis using call Some ge rd sub'
      by (simp add: kmap_level_def Let_def)
  next
    case None
    then have np: "\<not> present (read64 m (slot_addr t j))" using next_table_present [of m t j] by simp
    obtain r s' where al: "alloc s = Some (r, s')" "avail n s'"
      and c: "(\<exists>err. r = StatusOr_status err \<and> err \<noteq> Ok \<and> owned s' = owned s)
           \<or> (\<exists>p. r = StatusOr_item p \<and> frame_addr p \<and> p \<notin> owned s \<and> owned s' = insert p (owned s))"
      using avail_alloc [OF av] by blast
    from c show ?thesis
    proof (elim disjE exE conjE)
      fix err assume "r = StatusOr_status err" "err \<noteq> Ok" "owned s' = owned s"
      then have "R = Some ((m, s'), Inl err) \<and> err \<noteq> Ok \<and> owned s' = owned s"
        using call ge rd sub' np al(1) by (auto simp: kmap_level_def Let_def)
      then show ?thesis using None al \<open>r = StatusOr_status err\<close> by blast
    next
      fix p assume p: "r = StatusOr_item p" "frame_addr p" "p \<notin> owned s" "owned s' = insert p (owned s)"
      obtain m1 where m1: "vwrite64 m root (PT_ENTRY e) (p OR (Present OR RW)) = Some m1"
        "vmemset m1 root (PT_PAGE_BASE e) 0 4096 = Some (link_table m t (PT_L1_IDX e) p)"
        using link_via_self_map [OF inv path "is" t i(2) p(2,3)] by blast
      have "mapNoTables rt m root (PT_PAGE_BASE e) p (Present OR RW) = Some m1"
        using m1(1) kt entryAddr_page [of 0 e] PageEntry_make_table [OF p(2)]
        by (simp add: mapNoTables_def kernel_tables_def)
      then have "R = Some ((link_table m t (PT_L1_IDX e) p, s'), Inr (PT_PAGE_BASE e))"
        using call ge rd sub' np al(1) p(1) m1(2)
        by (simp add: kmap_level_def Let_def kPageSize_def)
      then show ?thesis using None p al by blast
    qed
  qed
qed


end

text \<open>Whether the allocator may fail while it has frames available.\<close>

definition may_fail :: "('s \<Rightarrow> (u64 StatusOr \<times> 's) option) \<Rightarrow> (nat \<Rightarrow> 's \<Rightarrow> bool) \<Rightarrow> bool" where
  "may_fail alloc avail \<longleftrightarrow> (\<exists>n s e s'. avail (Suc n) s \<and> alloc s = Some (StatusOr_status e, s'))"

text \<open>What a level leaves: the invariant, and the translation of every address outside the self
  map; if it does not fail, the next table is there.  \<open>good\<close> holds of the allocator afterwards.\<close>

definition level_result ::
  "u64 \<Rightarrow> ('s \<Rightarrow> u64 set) \<Rightarrow> ('s \<Rightarrow> bool) \<Rightarrow> bool \<Rightarrow> mem \<Rightarrow> 's \<Rightarrow> u64 list \<Rightarrow> u64 \<Rightarrow> ((mem \<times> 's) \<times> (StatusCode + u64)) option \<Rightarrow> bool" where
  "level_result root owned good fails m s is sub R \<longleftrightarrow>
     (\<exists>m' s' r. R = Some ((m', s'), r) \<and> pt_inv m' root (owned s') \<and> owned s \<subseteq> owned s' \<and> good s'
       \<and> (\<forall>w. PT_L4_IDX w \<noteq> 511 \<longrightarrow> walk m' root w = walk m root w)
       \<and> (case r of Inl err \<Rightarrow> err \<noteq> Ok \<and> fails | Inr table \<Rightarrow> table = sub \<and> table_at m' root is \<noteq> None))"

context frame_allocator
begin

lemma kmap_level_good:
  assumes kt: "kernel_tables rt" and av: "avail (Suc n) s"
    and inv: "pt_inv m root (owned s)" and path: "path_of e = replicate k 511 @ is"
    and "is": "tree_path is" "length is < 3" and t: "table_at m root is = Some t"
    and i: "PT_L1_IDX e = entryIndex v level" "is = [] \<longrightarrow> PT_L1_IDX e \<noteq> 511"
    and tab: "table = PT_PAGE_BASE (PT_ENTRY e)"
    and sub: "tableAddress tables_base v (level - 1) = PT_PAGE_BASE e"
  shows "level_result root owned (avail n) (may_fail alloc avail) m s (is @ [PT_L1_IDX e]) (PT_PAGE_BASE e)
    (kmap_level rt alloc root v level (m, s) table)"
proof -
  let ?i = "PT_L1_IDX e"
  have tab': "table + 8 * entryIndex v level = PT_PAGE_BASE (PT_ENTRY e) + 8 * ?i"
    using tab i(1) by simp
  consider (present) t' where "next_table m t ?i = Some t'"
      "kmap_level rt alloc root v level (m, s) table = Some ((m, s), Inr (PT_PAGE_BASE e))"
    | (error) s' err where "kmap_level rt alloc root v level (m, s) table = Some ((m, s'), Inl err)"
        "err \<noteq> Ok" "owned s' = owned s" "alloc s = Some (StatusOr_status err, s')" "avail n s'"
    | (link) s' p where "next_table m t ?i = None"
        "kmap_level rt alloc root v level (m, s) table = Some ((link_table m t ?i p, s'), Inr (PT_PAGE_BASE e))"
        "frame_addr p" "p \<notin> owned s" "owned s' = insert p (owned s)" "avail n s'"
    using kmap_level_step [OF kt av inv path "is" t i tab' PT_L1_IDX_less sub refl] by blast
  then show ?thesis
  proof cases
    case present
    have "table_at m root (is @ [?i]) = Some t'" using t present(1) by (simp add: table_at_append)
    then show ?thesis using present(2) inv avail_less [OF av] by (simp add: level_result_def)
  next
    case error
    then have "may_fail alloc avail" unfolding may_fail_def using av by blast
    then show ?thesis using error inv by (simp add: level_result_def)
  next
    case link
    note l = inv "is"(1) t "is"(2) PT_L1_IDX_less i(2) link(3,4)
    have "tree_path (is @ [?i])" by (rule tree_path_snoc [OF "is" PT_L1_IDX_less]) (use i(2) in simp)
    then have "table_at (link_table m t ?i p) root (is @ [?i]) = Some p"
      using link_table_tables [OF l] by simp
    moreover have "walk (link_table m t ?i p) root w = walk m root w" if "PT_L4_IDX w \<noteq> 511" for w
      by (rule link_table_walk [OF inv "is"(1) t "is"(2) PT_L1_IDX_less i(2) link(1,3,4) that])
    ultimately show ?thesis
      using link_table_inv [OF l] link(2,5,6) by (auto simp: level_result_def)
  qed
qed

end

text \<open>The last store of \<open>map\<close>, when every table is there.\<close>

lemma map_leaf:
  assumes kt: "kernel_tables rt" and inv: "pt_inv m root T" and v: "PT_L4_IDX v \<noteq> 511"
    and t: "table_at m root (path_of v) \<noteq> None"
  shows "\<exists>m'. mapNoTables rt m root v p attrs = Some m' \<and> pt_inv m' root T
    \<and> (\<forall>w. PT_L4_IDX w \<noteq> 511 \<longrightarrow> walk m' root w = (if same_page v w then leaf_for p attrs else walk m root w))"
proof -
  obtain t' where t': "table_at m root (path_of v) = Some t'" using t by auto
  let ?m = "write64 m (slot_addr t' (PT_L1_IDX v)) (PageEntry_make p attrs)"
  have ts: "rt_tablesStart rt = 0xFFFFFF8000000000" using kt by (simp add: kernel_tables_def tables_base_def)
  have "mapNoTables rt m root v p attrs = Some ?m"
    using vwrite64_entry [OF inv, of v 0 "path_of v"] t'
    by (simp add: mapNoTables_def ts PT_ENTRY_entryAddr [symmetric])
  moreover have "pt_inv ?m root T"
    by (rule leaf_write_inv [OF inv tree_path_of [OF v] _ t' PT_L1_IDX_less]) (simp add: path_of_def)
  moreover have "walk ?m root w = (if same_page v w then leaf_for p attrs else walk m root w)"
    if "PT_L4_IDX w \<noteq> 511" for w
    using leaf_write_walk [OF inv v that t', of "PageEntry_make p attrs"]
    by (auto simp: same_page_def leaf_for_def PageEntry_make_def PAGE_ADDR_MASK_def Let_def)
  ultimately show ?thesis by blast
qed


lemma kmap_level_present:
  assumes kt: "kernel_tables rt" and inv: "pt_inv m root T" and path: "path_of e = replicate k 511 @ is"
    and t: "table_at m root is = Some t"
    and tab: "table + 8 * entryIndex v level = PT_PAGE_BASE (PT_ENTRY e) + 8 * j" "j < 512"
    and j: "next_table m t j \<noteq> None"
  shows "kmap_level rt alloc root v level (m, s) table
    = Some ((m, s), Inr (tableAddress tables_base v (level - 1)))"
proof -
  have idx: "entryIndex v level < 512" unfolding entryIndex_PT_IDX by (rule PT_IDX_less)
  have "getEntry table (entryIndex v level) = StatusOr_item (PT_PAGE_BASE (PT_ENTRY e) + 8 * j)"
    using getEntry_ok [OF idx] tab(1) by simp
  moreover have "vread64 m root (PT_PAGE_BASE (PT_ENTRY e) + 8 * j) = Some (read64 m (slot_addr t j))"
    by (rule vread64_slot [OF inv path t tab(2)])
  moreover have "present (read64 m (slot_addr t j))" using j next_table_present [of m t j] by simp
  ultimately show ?thesis using kt by (simp add: kmap_level_def Let_def kernel_tables_def level_sub_def)
qed

subsection \<open>All levels\<close>

lemma kmap_levels_Suc_result:
  assumes L: "level_result root owned good fails m s is sub (kmap_level rt alloc root v level (m, s) table)"
    and good: "\<And>s'. good s' \<Longrightarrow> good' s'"
    and rest: "\<And>m' s'. pt_inv m' root (owned s') \<Longrightarrow> table_at m' root is \<noteq> None \<Longrightarrow> good s' \<Longrightarrow>
      level_result root owned good' fails m' s' js sub' (kmap_levels rt alloc root v left (level - 1) (m', s') sub)"
  shows "level_result root owned good' fails m s js sub' (kmap_levels rt alloc root v (Suc left) level (m, s) table)"
proof -
  obtain m1 s1 r where 1: "kmap_level rt alloc root v level (m, s) table = Some ((m1, s1), r)"
    "pt_inv m1 root (owned s1)" "owned s \<subseteq> owned s1"
    "\<forall>w. PT_L4_IDX w \<noteq> 511 \<longrightarrow> walk m1 root w = walk m root w" and g: "good s1"
    and r: "case r of Inl err \<Rightarrow> err \<noteq> Ok \<and> fails | Inr table \<Rightarrow> table = sub \<and> table_at m1 root is \<noteq> None"
    using L unfolding level_result_def by blast
  show ?thesis
  proof (cases r)
    case (Inl err)
    then show ?thesis using 1 r good [OF g] by (simp add: level_result_def)
  next
    case (Inr tb)
    then have tb: "tb = sub" "table_at m1 root is \<noteq> None" using r by simp_all
    obtain m2 s2 r2 where 2: "kmap_levels rt alloc root v left (level - 1) (m1, s1) sub = Some ((m2, s2), r2)"
      "pt_inv m2 root (owned s2)" "owned s1 \<subseteq> owned s2"
      "\<forall>w. PT_L4_IDX w \<noteq> 511 \<longrightarrow> walk m2 root w = walk m1 root w"
      "good' s2" "case r2 of Inl err \<Rightarrow> err \<noteq> Ok \<and> fails | Inr table \<Rightarrow> table = sub' \<and> table_at m2 root js \<noteq> None"
      using rest [OF 1(2) tb(2) g] unfolding level_result_def by blast
    have "kmap_levels rt alloc root v (Suc left) level (m, s) table = Some ((m2, s2), r2)"
      using 1(1) 2(1) Inr tb(1) by (simp add: level_postdec_def level_sub_def)
    then show ?thesis using 1(3,4) 2(2-6) by (simp add: level_result_def)
  qed
qed

lemma level_resultE:
  assumes "level_result root owned good fails m s is sub R"
  obtains m' s' r where "R = Some ((m', s'), r)" "pt_inv m' root (owned s')"
    "\<forall>w. PT_L4_IDX w \<noteq> 511 \<longrightarrow> walk m' root w = walk m root w" "good s'" "owned s \<subseteq> owned s'"
    "case r of Inl err \<Rightarrow> err \<noteq> Ok \<and> fails | Inr tb \<Rightarrow> table_at m' root is \<noteq> None"
proof -
  obtain m' s' r where "R = Some ((m', s'), r)" "pt_inv m' root (owned s')"
    "\<forall>w. PT_L4_IDX w \<noteq> 511 \<longrightarrow> walk m' root w = walk m root w" "good s'" "owned s \<subseteq> owned s'"
    and c: "case r of Inl err \<Rightarrow> err \<noteq> Ok \<and> fails | Inr table \<Rightarrow> table = sub \<and> table_at m' root is \<noteq> None"
    using assms unfolding level_result_def by blast
  moreover have "case r of Inl err \<Rightarrow> err \<noteq> Ok \<and> fails | Inr tb \<Rightarrow> table_at m' root is \<noteq> None"
    using c by (cases r) simp_all
  ultimately show ?thesis using that by blast
qed

lemma kmap_levels_0_result:
  "pt_inv m root (owned s) \<Longrightarrow> table_at m root is \<noteq> None \<Longrightarrow> good s \<Longrightarrow>
   level_result root owned good fails m s is table (kmap_levels rt alloc root v 0 level (m, s) table)"
  by (simp add: level_result_def)

lemma table_address_good:
  assumes "low_part v level = 0" "level \<in> {1, 2, 3}"
  shows "tableAddress tables_base v level = PT_PAGE_BASE (entry_at v (nat level))"
  using tableAddress_low_part [OF assms(2), of v] tableAddress_doc_entry [OF assms(2), of v] assms(1) by simp

lemma entry_index_levels:
  "entryIndex v 4 = PT_L4_IDX v" "entryIndex v 3 = PT_L3_IDX v" "entryIndex v 2 = PT_L2_IDX v"
  by (simp_all add: entryIndex_PT_IDX PT_IDX_levels)

lemma pml4_address: "PT_PAGE_BASE (entry_at v 4) = PT_L4_BASE"
proof -
  have m: "(0xFFFFFFFFFFFFF000 :: u64) = NOT (mask 12)"
    by (simp add: mask_eq_exp_minus_1 not_eq_complement)
  have b: "bit (PT_L4_BASE) n \<longleftrightarrow> 12 \<le> n \<and> n < 64" for n
    unfolding PT_L4_BASE_def m bit_not_iff bit_mask_iff by auto
  show ?thesis
    by (rule bit_eqI) (auto simp: b bit_PT_PAGE_BASE bit_entry_at dest: bit_imp_le_length)
qed

context frame_allocator
begin

text \<open>The two levels below the second, on addresses for which their tables' addresses are right.\<close>

lemma kmap_levels_low:
  assumes kt: "kernel_tables rt" and av: "avail 1 s"
    and inv: "pt_inv m root (owned s)" and v: "PT_L4_IDX v \<noteq> 511"
    and low: "low_part v 1 = 0" and t: "table_at m root [PT_L4_IDX v, PT_L3_IDX v] \<noteq> None"
  shows "level_result root owned (avail 0) (may_fail alloc avail) m s (path_of v) (PT_PAGE_BASE (entry_at v 1))
    (kmap_levels rt alloc root v 1 2 (m, s) (PT_PAGE_BASE (entry_at v 2)))"
proof -
  obtain t' where t': "table_at m root [PT_L4_IDX v, PT_L3_IDX v] = Some t'" using t by auto
  have p: "tree_path [PT_L4_IDX v, PT_L3_IDX v]"
    using tree_path_of [OF v] tree_path_prefix [of "[PT_L4_IDX v, PT_L3_IDX v]" "[PT_L2_IDX v]"]
    by (simp add: path_of_def)
  have pv: "path_of v = [PT_L4_IDX v, PT_L3_IDX v] @ [PT_L1_IDX (entry_at v 1)]"
    using entry_paths(2) [of v] by (simp add: path_of_def)
  have A: "PT_PAGE_BASE (entry_at v 2) = PT_PAGE_BASE (PT_ENTRY (entry_at v 1))" by (simp add: numeral_2_eq_2)
  have sub: "tableAddress tables_base v (2 - 1) = PT_PAGE_BASE (entry_at v 1)"
    using table_address_good [OF low] by simp
  have "level_result root owned (avail 0) (may_fail alloc avail) m s (path_of v) (PT_PAGE_BASE (entry_at v 1))
      (kmap_level rt alloc root v 2 (m, s) (PT_PAGE_BASE (entry_at v 2)))"
    unfolding pv
    by (rule kmap_level_good [OF kt av [unfolded One_nat_def] inv entry_paths(1) p _ t' _ _ A sub])
      (simp_all add: entry_index_levels PT_ENTRY_indices)
  then show ?thesis
    unfolding One_nat_def by (rule kmap_levels_Suc_result) (assumption, rule kmap_levels_0_result)
qed

lemma kmap_levels_good:
  assumes kt: "kernel_tables rt" and av: "avail 3 s"
    and inv: "pt_inv m root (owned s)" and v: "PT_L4_IDX v \<noteq> 511"
    and low: "low_part v 1 = 0" "low_part v 2 = 0" "low_part v 3 = 0"
  shows "level_result root owned (avail 0) (may_fail alloc avail) m s (path_of v) (PT_PAGE_BASE (entry_at v 1))
    (kmap_levels rt alloc root v 3 4 (m, s) PT_L4_BASE)"
proof -
  let ?fails = "may_fail alloc avail"
  have p: "tree_path [PT_L4_IDX v]"
    using tree_path_of [OF v] tree_path_prefix [of "[PT_L4_IDX v]" "[PT_L3_IDX v, PT_L2_IDX v]"]
    by (simp add: path_of_def)
  have A4: "PT_L4_BASE = PT_PAGE_BASE (PT_ENTRY (entry_at v 3))"
    using pml4_address [of v] by (simp add: numeral_eq_Suc)
  have s4: "tableAddress tables_base v (4 - 1) = PT_PAGE_BASE (entry_at v 3)"
    using table_address_good [OF low(3)] by simp
  have L4: "level_result root owned (avail 2) ?fails m s ([] @ [PT_L4_IDX v]) (PT_PAGE_BASE (entry_at v 3))
      (kmap_level rt alloc root v 4 (m, s) PT_L4_BASE)"
    using kmap_level_good [OF kt av [unfolded numeral_3_eq_3] inv entry_paths(5) _ _ _ _ _ A4 s4, of root] v
    unfolding numeral_2_eq_2
    by (simp add: entry_index_levels entry_paths)
  have A3: "PT_PAGE_BASE (entry_at v 3) = PT_PAGE_BASE (PT_ENTRY (entry_at v 2))" by (simp add: numeral_eq_Suc)
  have s3: "tableAddress tables_base v (3 - 1) = PT_PAGE_BASE (entry_at v 2)"
    using table_address_good [OF low(2)] by simp
  have L3: "level_result root owned (avail 0) ?fails m' s' (path_of v) (PT_PAGE_BASE (entry_at v 1))
      (kmap_levels rt alloc root v 2 (4 - 1) (m', s') (PT_PAGE_BASE (entry_at v 3)))"
    if inv': "pt_inv m' root (owned s')" and t: "table_at m' root ([] @ [PT_L4_IDX v]) \<noteq> None" and av': "avail 2 s'" for m' s'
  proof -
    obtain t' where t': "table_at m' root [PT_L4_IDX v] = Some t'" using t by auto
    have "level_result root owned (avail 1) ?fails m' s' ([PT_L4_IDX v] @ [PT_L3_IDX v]) (PT_PAGE_BASE (entry_at v 2))
        (kmap_level rt alloc root v 3 (m', s') (PT_PAGE_BASE (entry_at v 3)))"
      using kmap_level_good [OF kt av' [unfolded numeral_2_eq_2] inv' entry_paths(3) p _ t' _ _ A3 s3]
      unfolding One_nat_def
      by (simp add: entry_index_levels entry_paths)
    then have "level_result root owned (avail 0) ?fails m' s' (path_of v) (PT_PAGE_BASE (entry_at v 1))
        (kmap_levels rt alloc root v (Suc 1) 3 (m', s') (PT_PAGE_BASE (entry_at v 3)))"
      by (rule kmap_levels_Suc_result) (erule avail_0, use kmap_levels_low [OF kt _ _ v low(1)] in simp)
    then show ?thesis by (simp add: numeral_2_eq_2)
  qed
  have "level_result root owned (avail 0) ?fails m s (path_of v) (PT_PAGE_BASE (entry_at v 1))
      (kmap_levels rt alloc root v (Suc 2) 4 (m, s) PT_L4_BASE)"
    by (rule kmap_levels_Suc_result [OF L4 avail_0 L3])
  then show ?thesis by (simp only: Suc_numeral semiring_norm)
qed


end

lemma low_part_aligned:
  assumes "v AND 0x7FFFFFFFFF = 0" "level \<in> {1, 2, 3}"
  shows "low_part v level = 0"
proof -
  have m: "(0x7FFFFFFFFF :: u64) = mask 39" by (simp add: mask_eq_exp_minus_1)
  have b: "\<not> bit v n" if "n < 39" for n
  proof
    assume "bit v n"
    then have "bit (v AND 0x7FFFFFFFFF) n" using that unfolding m bit_and_iff bit_mask_iff by simp
    then show False using assms(1) by simp
  qed
  show ?thesis
    using assms(2) unfolding low_part_def
    by (intro bit_eqI) (auto simp: bit_take_bit_iff bit_drop_bit_eq b)
qed

context frame_allocator
begin

text \<open>A call of \<open>map\<close> takes three frames at most.\<close>

lemma kernel_map_good:
  assumes kt: "kernel_tables rt" and av: "avail 3 s"
    and inv: "pt_inv m root (owned s)" and v: "PT_L4_IDX v \<noteq> 511" "v AND 0x7FFFFFFFFF = 0"
  shows "\<exists>m' s' status. kernel_map rt alloc root v p attrs (m, s) = Some ((m', s'), status)
    \<and> pt_inv m' root (owned s') \<and> avail 0 s' \<and> owned s \<subseteq> owned s' \<and> (status \<noteq> Ok \<longrightarrow> may_fail alloc avail)
    \<and> (\<forall>w. PT_L4_IDX w \<noteq> 511 \<longrightarrow>
        walk m' root w = (if status = Ok \<and> same_page v w then leaf_for p attrs else walk m root w))"
proof -
  have "level_result root owned (avail 0) (may_fail alloc avail) m s (path_of v) (PT_PAGE_BASE (entry_at v 1))
      (kmap_levels rt alloc root v 3 4 (m, s) PT_L4_BASE)"
    by (rule kmap_levels_good [OF kt av inv v(1)]) (rule low_part_aligned [OF v(2)], simp)+
  then obtain m1 s1 r where 1: "kmap_levels rt alloc root v 3 4 (m, s) PT_L4_BASE = Some ((m1, s1), r)"
    "pt_inv m1 root (owned s1)" "\<forall>w. PT_L4_IDX w \<noteq> 511 \<longrightarrow> walk m1 root w = walk m root w"
    and g: "avail 0 s1" "owned s \<subseteq> owned s1"
    and r: "case r of Inl err \<Rightarrow> err \<noteq> Ok \<and> may_fail alloc avail | Inr tb \<Rightarrow> table_at m1 root (path_of v) \<noteq> None"
    by (rule level_resultE)
  have call: "kernel_map rt alloc root v p attrs (m, s) =
     (case r of Inl e \<Rightarrow> Some ((m1, s1), e)
      | Inr tb \<Rightarrow> map_option (\<lambda>m. ((m, s1), Ok)) (mapNoTables rt m1 root v p attrs))"
    using 1(1) kt
    by (simp add: kernel_map_def kernel_tables_def PML4_def PT_def map_option_case bind_eq_Some_conv
        split: sum.split option.split)
  show ?thesis
  proof (cases r)
    case (Inl err)
    then show ?thesis using call 1 g r by auto
  next
    case (Inr tb)
    then have "table_at m1 root (path_of v) \<noteq> None" using r by simp
    from map_leaf [OF kt 1(2) v(1) this, of p attrs] show ?thesis using call 1(3) Inr g by auto
  qed
qed

end

text \<open>An address of the first page of a 1 GiB region other than the first of its table.\<close>

lemma gib_low_parts:
  assumes "v AND 0x3FFFFFFF = 0"
  shows "low_part v 1 = 0" "low_part v 2 = 0" "low_part v 3 = 8 * PT_L3_IDX v"
proof -
  have m: "(0x3FFFFFFF :: u64) = mask 30" by (simp add: mask_eq_exp_minus_1)
  have b: "\<not> bit v n" if "n < 30" for n
  proof
    assume "bit v n"
    then have "bit (v AND 0x3FFFFFFF) n" using that unfolding m bit_and_iff bit_mask_iff by simp
    then show False using assms by simp
  qed
  show "low_part v 1 = 0" "low_part v 2 = 0"
    unfolding low_part_def by (intro bit_eqI; auto simp: bit_take_bit_iff bit_drop_bit_eq b)+
  have e: "8 * PT_L3_IDX v = push_bit 3 (PT_IDX v 3)"
    by (simp add: PT_IDX_levels push_bit_eq_mult mult.commute)
  show "low_part v 3 = 8 * PT_L3_IDX v"
    unfolding e low_part_def
  proof (rule bit_eqI)
    fix n
    show "bit (take_bit 12 (drop_bit (nat (9 * 3)) v)) n = bit (push_bit 3 (PT_IDX v 3)) n"
    proof (cases "n < 3")
      case True
      then show ?thesis by (simp add: bit_take_bit_iff bit_drop_bit_eq b bit_push_bit_iff)
    next
      case False
      then have "27 + n = 30 + (n - 3)" by simp
      then show ?thesis using False
        by (auto simp: bit_take_bit_iff bit_drop_bit_eq bit_push_bit_iff bit_PT_IDX dest: bit_imp_le_length)
    qed
  qed
qed

context frame_reserve
begin

lemma never_fails: "\<not> may_fail alloc avail"
  using avail_item unfolding may_fail_def by blast

lemma kernel_map_destroys:
  assumes kt: "kernel_tables rt" and av: "avail 2 s"
    and inv: "pt_inv m root (owned s)" and v: "PT_L4_IDX v \<noteq> 511" "v AND 0x3FFFFFFF = 0" "PT_L3_IDX v < 256"
    and t: "next_table m root (PT_L4_IDX v) = Some t" "next_table m t (2 * PT_L3_IDX v) = None"
  shows "\<exists>m' s'. kernel_map rt alloc root v p attrs (m, s) = Some ((m', s'), Ok)
    \<and> pt_inv m' root (owned s') \<and> avail 0 s' \<and> owned s \<subseteq> owned s'
    \<and> walk m' root v = leaf_for p attrs
    \<and> (\<forall>w. PT_L4_IDX w = PT_L4_IDX v \<longrightarrow> PT_L3_IDX w = PT_L3_IDX v \<longrightarrow> \<not> same_page v w \<longrightarrow> walk m' root w = None)"
proof -
  let ?i4 = "PT_L4_IDX v" and ?i3 = "PT_L3_IDX v" and ?i2 = "PT_L2_IDX v"
  have av2: "avail (Suc (Suc 0)) s" using av by (simp add: numeral_2_eq_2)
  obtain q s1 where al1: "alloc s = Some (StatusOr_item q, s1)" "avail (Suc 0) s1" using avail_frame [OF av2] by metis
  obtain q' s2 where al2: "alloc s1 = Some (StatusOr_item q', s2)" "avail 0 s2" using avail_frame [OF al1(2)] by metis
  note al = al1(1) al2(1)
  have tp: "tree_path [?i4]"
    using tree_path_of [OF v(1)] tree_path_prefix [of "[?i4]" "[?i3, ?i2]"]
    by (simp add: path_of_def)
  have tt: "table_at m root [?i4] = Some t" using t(1) by simp
  note low = gib_low_parts [OF v(2)]
  have A4: "PT_L4_BASE + 8 * entryIndex v 4 = PT_PAGE_BASE (PT_ENTRY (entry_at v 3)) + 8 * ?i4"
    using pml4_address [of v] by (simp add: numeral_eq_Suc entry_index_levels [simplified numeral_eq_Suc])
  have i4: "?i4 < 512" using PT_IDX_less [of v 4] by (simp add: PT_IDX_levels)
  have i2: "?i2 < 512" using PT_IDX_less [of v 2] by (simp add: PT_IDX_levels)
  have r4: "kmap_level rt alloc root v 4 (m, s) PT_L4_BASE = Some ((m, s), Inr (tableAddress tables_base v (4 - 1)))"
    by (rule kmap_level_present [OF kt inv entry_paths(5) _ A4 i4, of root]) (simp_all add: t(1))
  have s4: "tableAddress tables_base v (4 - 1) = PT_PAGE_BASE (entry_at v 3) + 8 * ?i3"
    using tableAddress_low_part [of 3 v] tableAddress_doc_entry [of 3 v] low(3) by simp
  have A3: "tableAddress tables_base v (4 - 1) + 8 * entryIndex v 3
      = PT_PAGE_BASE (PT_ENTRY (entry_at v 2)) + 8 * (2 * ?i3)"
    unfolding s4 entry_index_levels by (simp add: numeral_3_eq_3 numeral_2_eq_2)
  have j: "2 * ?i3 < 512"
  proof -
    have "unat (2 * ?i3) = 2 * unat ?i3" using v(3) by (simp add: unat_word_ariths word_less_nat_alt)
    then show ?thesis using v(3) by (simp add: word_less_nat_alt)
  qed
  have s3: "tableAddress tables_base v (3 - 1) = PT_PAGE_BASE (entry_at v 2)"
    using table_address_good [OF low(2)] by simp
  have i3: "PT_L1_IDX (entry_at v 2) = entryIndex v 3" "[?i4] = [] \<longrightarrow> PT_L1_IDX (entry_at v 2) \<noteq> 511"
    by (simp_all add: entry_index_levels entry_paths)
  have r3: "kmap_level rt alloc root v 3 (m, s) (tableAddress tables_base v (4 - 1))
          = Some ((link_table m t ?i3 q, s1), Inr (PT_PAGE_BASE (entry_at v 2)))"
    and q: "frame_addr q" "q \<notin> owned s" "owned s1 = insert q (owned s)"
    using kmap_level_step [OF kt av2 inv entry_paths(3) tp _ tt i3 A3 j s3 refl] t(2) entry_paths(4) [of v] al(1)
    by (auto simp: StatusOr_status_def StatusOr_item_def)
  let ?m1 = "link_table m t ?i3 q"
  have i3': "?i3 < 512" using PT_IDX_less [of v 3] by (simp add: PT_IDX_levels)
  have n4: "[?i4] = [] \<longrightarrow> ?i3 \<noteq> 511" and l1: "length [?i4] < 3" by simp_all
  note L = inv tp tt l1 i3' n4 q(1,2)
  have inv1: "pt_inv ?m1 root (owned s1)" using link_table_inv [OF L] q(3) by simp
  have p1: "tree_path [?i4, ?i3]" using tree_path_snoc [OF tp l1 i3'] by simp
  have t1: "table_at ?m1 root [?i4, ?i3] = Some q"
    using link_table_tables [OF L p1] by simp
  have gone: "walk ?m1 root w = None" if "PT_L4_IDX w = ?i4" "PT_L3_IDX w = ?i3" for w
    using link_table_tables [OF L tree_path_of [of w]] that v(1)
    by (intro walk_None_table) (simp add: path_of_def)
  have free: "next_table ?m1 q ?i2 = None"
    using link_table_read [OF pt_inv_frame [OF inv tt] i3' q(1) q(1) i2]
      pt_inv_owned [OF inv tp tt] q(2) by (auto simp: next_table_def)
  have A2: "PT_PAGE_BASE (entry_at v 2) + 8 * entryIndex v 2 = PT_PAGE_BASE (PT_ENTRY (entry_at v 1)) + 8 * ?i2"
    by (simp add: entry_index_levels numeral_2_eq_2)
  have s2: "tableAddress tables_base v (2 - 1) = PT_PAGE_BASE (entry_at v 1)"
    using table_address_good [OF low(1)] by simp
  have i2e: "PT_L1_IDX (entry_at v 1) = entryIndex v 2" "[?i4, ?i3] = [] \<longrightarrow> PT_L1_IDX (entry_at v 1) \<noteq> 511"
    by (simp_all add: entry_index_levels PT_ENTRY_indices)
  have l2: "length [?i4, ?i3] < 3" by simp
  have e1: "PT_L1_IDX (entry_at v 1) = ?i2" by (simp add: PT_ENTRY_indices)
  have r2: "kmap_level rt alloc root v 2 (?m1, s1) (PT_PAGE_BASE (entry_at v 2))
          = Some ((link_table ?m1 q ?i2 q', s2), Inr (PT_PAGE_BASE (entry_at v 1)))"
    and q': "frame_addr q'" "q' \<notin> owned s1" "owned s2 = insert q' (owned s1)"
    using kmap_level_step [OF kt al1(2) inv1 entry_paths(1) p1 l2 t1 i2e A2 i2 s2 refl] free al(2) e1
    by (auto simp: StatusOr_status_def StatusOr_item_def)
  let ?m2 = "link_table ?m1 q ?i2 q'"
  have n2: "[?i4, ?i3] = [] \<longrightarrow> ?i2 \<noteq> 511" by simp
  note L2 = inv1 p1 t1 l2 i2 n2 q'(1,2)
  have inv2: "pt_inv ?m2 root (owned s2)" using link_table_inv [OF L2] q'(3) by simp
  have t2: "table_at ?m2 root (path_of v) \<noteq> None"
    using link_table_tables [OF L2 tree_path_of [OF v(1)]] by (simp add: path_of_def)
  have w2: "walk ?m2 root w = walk ?m1 root w" if "PT_L4_IDX w \<noteq> 511" for w
    by (rule link_table_walk [OF inv1 p1 t1 l2 i2 n2 free q'(1,2) that])
  obtain m3 where m3: "mapNoTables rt ?m2 root v p attrs = Some m3" "pt_inv m3 root (owned s2)"
      "\<forall>w. PT_L4_IDX w \<noteq> 511 \<longrightarrow> walk m3 root w = (if same_page v w then leaf_for p attrs else walk ?m2 root w)"
    using map_leaf [OF kt inv2 v(1) t2, of p attrs] by blast
  have "kmap_levels rt alloc root v 3 4 (m, s) PT_L4_BASE = Some ((?m2, s2), Inr (PT_PAGE_BASE (entry_at v 1)))"
    using r4 r3 r2 by (simp add: numeral_3_eq_3 level_postdec_def level_sub_def)
  then have "kernel_map rt alloc root v p attrs (m, s) = Some ((m3, s2), Ok)"
    using m3(1) kt by (simp add: kernel_map_def kernel_tables_def PML4_def PT_def)
  moreover have "walk m3 root v = leaf_for p attrs" using m3(3) v(1) by simp
  moreover have "walk m3 root w = None" if "PT_L4_IDX w = ?i4" "PT_L3_IDX w = ?i3" "\<not> same_page v w" for w
    using m3(3) w2 [of w] gone [OF that(1,2)] that v(1) by simp
  moreover have "owned s \<subseteq> owned s2" using q(3) q'(3) by blast
  ultimately show ?thesis using m3(2) al2(2) by blast
qed

end


subsection \<open>A concrete state\<close>

text \<open>A top-level table at \<open>0x1000\<close> that only maps itself, the tables \<open>0x2000\<close>, \<open>0x3000\<close> and
  \<open>0x4000\<close> below it for the second GiB, and an allocator of 16 pages of which the first five are in use.\<close>

definition demo_root :: mem where
  "demo_root = write64 (\<lambda>_. 0) (slot_addr 0x1000 511) (0x1000 OR (Present OR RW))"

definition demo_tables :: mem where
  "demo_tables = link_table (link_table (link_table demo_root 0x1000 0 0x2000) 0x2000 1 0x3000) 0x3000 0 0x4000"

definition demo_mem :: mem where
  "demo_mem = write64 demo_tables (slot_addr 0x4000 1) (0x9000 OR (Present OR RW))"

definition demo_pages :: phys_alloc where
  "demo_pages = \<lparr>pa_memorySize = 0x10000, pa_bitmapSize = 2, pa_bitmap = [0x1F, 0x00], pa_lowestFreePage = 5, pa_status = Ok\<rparr>"

lemma demo_pages_used: "pa_used demo_pages = {0, 1, 2, 3, 4}"
proof -
  have "list_all (\<lambda>p. bit ([0x1F, 0x00 :: u8] ! (p div 8)) (p mod 8) \<longleftrightarrow> p < 5) [0..<16]"
    by (simp add: upt_rec)
  then have b: "bit ([0x1F, 0x00 :: u8] ! (p div 8)) (p mod 8) \<longleftrightarrow> p < 5" if "p < 16" for p
    using that by (simp add: list_all_iff)
  have "p \<in> pa_used demo_pages \<longleftrightarrow> p < 5" for p
  proof -
    have bm: "pa_bitmap demo_pages = [0x1F, 0x00]" and l: "8 * length [0x1F, 0x00 :: u8] = 16"
      by (simp_all add: demo_pages_def)
    have "p < 5 \<Longrightarrow> p < 16" by simp
    then show ?thesis unfolding used_pages_iff bm l using b [of p] by blast
  qed
  moreover have "p < 5 \<longleftrightarrow> p \<in> {0, 1, 2, 3, 4}" for p :: nat by auto
  ultimately show ?thesis by blast
qed

lemma demo_pages_free: "frames_free 3 demo_pages" "frames_free 2 demo_pages"
proof -
  have s: "pa_pages demo_pages = 16" "unat (pa_lowestFreePage demo_pages) = 5" "pa_status demo_pages = Ok"
    by (simp_all add: demo_pages_def)
  have "bitmap_ok (pa_bitmapSize demo_pages) (pa_bitmap demo_pages)" by (simp add: bitmap_ok_def demo_pages_def)
  moreover have "{..<5} \<inter> {..<16} \<subseteq> {0, 1, 2, 3, 4 :: nat}" by auto
  ultimately have "pa_physical demo_pages" by (simp add: pa_physical_def pa_inv_def s demo_pages_used)
  moreover have "5 + i < (16 :: nat) \<and> 5 + i \<notin> {0, 1, 2, 3, 4}" if "i < 3" for i using that by auto
  ultimately have "frames_free 3 demo_pages" unfolding frames_free_def s demo_pages_used by blast
  then show "frames_free 3 demo_pages" "frames_free 2 demo_pages"
    using frames_free_less [of 2 demo_pages] by (simp_all add: numeral_3_eq_3 numeral_2_eq_2)
qed

lemma demo_pages_frames: "used_frames demo_pages = {0, 0x1000, 0x2000, 0x3000, 0x4000}"
  by (simp add: used_frames_def demo_pages_used kPageSize_def)

lemma demo_frames: "frame_addr 0x1000" "frame_addr 0x2000" "frame_addr 0x3000" "frame_addr 0x4000"
  by (simp_all add: frame_addr_def)

lemma demo_root_next:
  assumes "i < 512" "i \<noteq> 511"
  shows "next_table demo_root 0x1000 i = None"
proof -
  have "read64 demo_root (slot_addr 0x1000 i) = read64 (\<lambda>_. 0) (slot_addr 0x1000 i)"
    unfolding demo_root_def using assms demo_frames(1) by (simp add: quad.rd_slot_upd)
  then show ?thesis by (simp add: next_table_def read64_zero)
qed

lemma demo_root_inv: "pt_inv demo_root 0x1000 {0x1000}"
proof -
  have only: "is = []" if "tree_path is" "table_at demo_root 0x1000 is = Some t" for "is" t
  proof (cases "is")
    case (Cons i js)
    then have "i < 512" "i \<noteq> 511" using that(1) by (auto simp: tree_path_def)
    then show ?thesis using demo_root_next that(2) Cons by simp
  qed
  show ?thesis
    unfolding pt_inv_def
  proof (intro conjI allI impI)
    show "frame_addr 0x1000" by (rule demo_frames(1))
    show "read64 demo_root (slot_addr 0x1000 511) = 0x1000 OR (Present OR RW)"
      unfolding demo_root_def by (rule quad.rd_same)
  next
    fix "is" t assume "tree_path is" "table_at demo_root 0x1000 is = Some t"
    then show "t \<in> {0x1000}" using only by fastforce
  next
    fix "is" js t
    assume "tree_path is" "tree_path js" "table_at demo_root 0x1000 is = Some t" "table_at demo_root 0x1000 js = Some t"
    then show "is = js" using only by metis
  qed
qed

lemma demo_owned_4: "demo_owned 4 = {0x1000, 0x2000, 0x3000, 0x4000}"
  by (auto simp: demo_owned_def page_span_def lessThan_atLeast0 atLeastLessThan_upt upt_rec)

text \<open>Three tables linked one below the other.\<close>

lemma demo_chain:
  fixes i4 i3 i2 :: u64
  defines "m \<equiv> link_table (link_table (link_table demo_root 0x1000 i4 0x2000) 0x2000 i3 0x3000) 0x3000 i2 0x4000"
  assumes i: "i4 < 512" "i4 \<noteq> 511" "i3 < 512" "i2 < 512"
  shows "pt_inv m 0x1000 {0x4000, 0x3000, 0x2000, 0x1000}" "table_at m 0x1000 [i4, i3, i2] = Some 0x4000"
proof -
  let ?m1 = "link_table demo_root 0x1000 i4 0x2000"
  let ?m2 = "link_table ?m1 0x2000 i3 0x3000"
  have p: "tree_path [i4]" "tree_path [i4, i3]" "tree_path [i4, i3, i2]" using i by (simp_all add: tree_path_def)
  have i1: "pt_inv ?m1 0x1000 {0x2000, 0x1000}" and t1: "table_at ?m1 0x1000 [i4] = Some 0x2000"
    using link_table_inv [OF demo_root_inv tree_path_Nil _ _ _ _ demo_frames(2), where t = "0x1000" and i = i4]
      link_table_tables [OF demo_root_inv tree_path_Nil _ _ _ _ demo_frames(2), where t = "0x1000" and i = i4 and js = "[i4]"] p i
    by simp_all
  have i2: "pt_inv ?m2 0x1000 {0x3000, 0x2000, 0x1000}" and t2: "table_at ?m2 0x1000 [i4, i3] = Some 0x3000"
    using link_table_inv [OF i1 p(1) t1 _ _ _ demo_frames(3), where i = i3]
      link_table_tables [OF i1 p(1) t1 _ _ _ demo_frames(3), where i = i3 and js = "[i4, i3]"] p i by simp_all
  show "pt_inv m 0x1000 {0x4000, 0x3000, 0x2000, 0x1000}" "table_at m 0x1000 [i4, i3, i2] = Some 0x4000"
    using link_table_inv [OF i2 p(2) t2 _ _ _ demo_frames(4), where i = i2]
      link_table_tables [OF i2 p(2) t2 _ _ _ demo_frames(4), where i = i2 and js = "[i4, i3, i2]"] p i
    unfolding m_def by simp_all
qed

lemma demo_mem_inv:
  "pt_inv demo_mem 0x1000 (demo_owned 4)" "next_table demo_mem 0x1000 0 = Some 0x2000"
  "next_table demo_mem 0x2000 2 = None" "walk demo_mem 0x1000 0x40001000 = Some 0x9003"
proof -
  have p0: "tree_path [0, 1, 0]" by (simp add: tree_path_def)
  have i3: "pt_inv demo_tables 0x1000 {0x4000, 0x3000, 0x2000, 0x1000}"
    and t3: "table_at demo_tables 0x1000 [0, 1, 0] = Some 0x4000"
    using demo_chain [of 0 1 0] unfolding demo_tables_def by simp_all
  show "pt_inv demo_mem 0x1000 (demo_owned 4)"
    using leaf_write_inv [OF i3 p0 _ t3] unfolding demo_mem_def demo_owned_4 by (simp add: insert_commute)
  have idx: "path_of 0x40001000 = [0, 1, 0]" "PT_L4_IDX 0x40001000 = 0" "PT_L1_IDX 0x40001000 = 1"
    by (simp_all add: path_of_def PT_L4_IDX_def PT_L3_IDX_def PT_L2_IDX_def PT_L1_IDX_def)
  have pr: "Present = 1" "RW = 2" by (simp_all add: attr_defs)
  show "walk demo_mem 0x1000 0x40001000 = Some 0x9003"
    using leaf_write_walk [OF i3, of "0x40001000" "0x40001000" "0x4000" "0x9000 OR (Present OR RW)"] t3 idx
    unfolding demo_mem_def pr by simp
  show "next_table demo_mem 0x1000 0 = Some 0x2000"
    using frame_link_entry [OF demo_frames(2)] demo_frames
    by (simp add: next_table_def demo_mem_def demo_tables_def quad.rd_slot_upd link_table_read Let_def)
  show "next_table demo_mem 0x2000 2 = None"
    using demo_frames
    by (simp add: next_table_def demo_mem_def demo_tables_def quad.rd_slot_upd link_table_read Let_def)
qed

lemma demo_mem_pages: "pt_inv demo_mem 0x1000 (used_frames demo_pages)"
  by (rule pt_inv_mono [OF demo_mem_inv(1)]) (simp add: demo_owned_4 demo_pages_frames)

definition demo_rt :: recursive_tables where
  "demo_rt = recursive_construct DefaultKernelMemoryLayout 0x1000"

lemma demo_rt_tables: "kernel_tables demo_rt"
  by (simp add: kernel_tables_def demo_rt_def recursive_construct_def DefaultKernelMemoryLayout_def
      tables_base_def PT_L4_BASE_def)

subsection \<open>Properties\<close>

text \<open>\<open>tableAddress\<close> is the address its comment derives, the page of the entry of its level,
  plus the twelve bits above the indices that the formula shifts out and does not mask; the two
  agree exactly when these bits are 0.\<close>

theorem tableAddress_excess:
  assumes "level \<in> {1, 2, 3}"
  shows "tableAddress_doc 0xFFFFFF8000000000 v level = PT_PAGE_BASE ((PT_ENTRY ^^ nat level) v)
    \<and> tableAddress 0xFFFFFF8000000000 v level
      = tableAddress_doc 0xFFFFFF8000000000 v level + take_bit 12 (drop_bit (nat (9 * level)) v)
    \<and> (tableAddress 0xFFFFFF8000000000 v level = tableAddress_doc 0xFFFFFF8000000000 v level
        \<longleftrightarrow> take_bit 12 (drop_bit (nat (9 * level)) v) = 0)"
  using tableAddress_doc_entry [OF assms, of v] tableAddress_low_part [OF assms, of v]
  by (simp add: entry_at_def tables_base_def low_part_def)

lemma tableAddress_excess_witness:
  "tableAddress 0xFFFFFF8000000000 0x40000000 3 = tableAddress_doc 0xFFFFFF8000000000 0x40000000 3 + 8"
  using tableAddress_excess [of 3 "0x40000000"] by (simp add: take_bit_eq_mod)

text \<open>C19: on the kernel's page allocator, with the tables in frames its bitmap has marked, \<open>map\<close> of an address
  whose lower three indices and offset are 0, outside the self map, ends without a page fault; tables and
  allocator keep their invariants.  When the three pages from \<open>lowestFreePage_\<close> on are free it returns \<open>Ok\<close>, and
  when it does the page is mapped to the frame with the attributes; in any case, also when no page at all
  is free or the allocator is not initialised, every other page is translated as before.\<close>

theorem kernel_map_correct:
  assumes "kernel_tables rt" "frames_ready 3 s" "pt_inv m root (used_frames s)"
    and "PT_L4_IDX v \<noteq> 511" "v AND 0x7FFFFFFFFF = 0"
  shows "\<exists>m' s' status. kernel_map rt allocatePage root v p attrs (m, s) = Some ((m', s'), status)
    \<and> pt_inv m' root (used_frames s') \<and> pa_inv s' \<and> used_frames s \<subseteq> used_frames s'
    \<and> (frames_free 3 s \<longrightarrow> status = Ok)
    \<and> (\<forall>w. PT_L4_IDX w \<noteq> 511 \<longrightarrow>
        walk m' root w = (if status = Ok \<and> same_page v w then leaf_for p attrs else walk m root w))"
proof (cases "frames_free 3 s")
  case True
  then show ?thesis
    using reserve.kernel_map_good [OF assms(1) True assms(3-5), of p attrs] reserve.never_fails
    by (fastforce simp: frames_free_def pa_physical_def)
next
  case False
  have "pa_inv s'" if "frames_ready 0 s'" for s'
    using that by (auto simp: frames_ready_def frames_free_def pa_physical_def)
  then show ?thesis using ready.kernel_map_good [OF assms(1-5), of p attrs] False by blast
qed

lemma kernel_map_correct_witness:
  "\<exists>m' s'. kernel_map demo_rt allocatePage 0x1000 0x8000000000 0x7000 3 (demo_mem, demo_pages) = Some ((m', s'), Ok)
     \<and> pa_inv s' \<and> walk m' 0x1000 0x8000000000 = Some 0x7003 \<and> walk m' 0x1000 0x40001000 = Some 0x9003"
proof -
  have v: "PT_L4_IDX 0x8000000000 \<noteq> 511" "(0x8000000000 :: u64) AND 0x7FFFFFFFFF = 0"
    "PT_L4_IDX 0x40001000 \<noteq> 511" "\<not> same_page 0x8000000000 0x40001000" "same_page 0x8000000000 0x8000000000"
    by (simp_all add: PT_L4_IDX_def same_page_def path_of_def PT_L3_IDX_def)
  have ready: "frames_ready 3 demo_pages" using demo_pages_free by (simp add: frames_ready_def)
  have leaf: "leaf_for 0x7000 3 = Some 0x7003" by (simp add: leaf_for_def PAGE_ADDR_MASK_def attr_defs)
  show ?thesis
    using kernel_map_correct [OF demo_rt_tables ready demo_mem_pages v(1,2), where p = "0x7000" and attrs = 3]
      demo_pages_free(1) v leaf demo_mem_inv(4) by fastforce
qed

text \<open>C24: when the address is that of the first page of a GiB of the lower half of a 512 GiB table that is there
  (level-3 index below 256), outside the self map, and the entry at twice that index is absent, \<open>map\<close> looks
  at that entry instead of the address's own: with two free pages at \<open>lowestFreePage_\<close> it links a new table over
  the one of the address and returns \<open>Ok\<close>, and every other page of the GiB that was mapped is mapped no
  more.\<close>

theorem kernel_map_drops_mappings:
  assumes "kernel_tables rt" "frames_free 2 s" "pt_inv m root (used_frames s)"
    and "PT_L4_IDX v \<noteq> 511" "v AND 0x3FFFFFFF = 0" "PT_L3_IDX v < 256"
    and "next_table m root (PT_L4_IDX v) = Some t" "next_table m t (2 * PT_L3_IDX v) = None"
  shows "\<exists>m' s'. kernel_map rt allocatePage root v p attrs (m, s) = Some ((m', s'), Ok)
    \<and> walk m' root v = leaf_for p attrs
    \<and> (\<forall>w. PT_L4_IDX w = PT_L4_IDX v \<longrightarrow> PT_L3_IDX w = PT_L3_IDX v \<longrightarrow> \<not> same_page v w \<longrightarrow> walk m' root w = None)"
  using reserve.kernel_map_destroys [OF assms, of p attrs] by blast

lemma kernel_map_drops_mappings_witness:
  "walk demo_mem 0x1000 0x40001000 = Some 0x9003
    \<and> (\<exists>m' s'. kernel_map demo_rt allocatePage 0x1000 0x40000000 0x7000 3 (demo_mem, demo_pages) = Some ((m', s'), Ok)
         \<and> walk m' 0x1000 0x40001000 = None)"
proof -
  have v: "PT_L4_IDX 0x40000000 = 0" "PT_L3_IDX 0x40000000 = 1" "(0x40000000 :: u64) AND 0x3FFFFFFF = 0"
    "PT_L4_IDX 0x40001000 = 0" "PT_L3_IDX 0x40001000 = 1" "\<not> same_page 0x40000000 0x40001000"
    by (simp_all add: PT_L4_IDX_def same_page_def path_of_def PT_L3_IDX_def PT_L1_IDX_def)
  from kernel_map_drops_mappings [OF demo_rt_tables demo_pages_free(2) demo_mem_pages,
      where v = "0x40000000" and t = "0x2000" and p = "0x7000" and attrs = 3]
  show ?thesis using v demo_mem_inv by auto
qed

end
