(* ===== verification/UefiProps.thy ===== *)
theory UefiProps
  imports UefiShim
begin

text \<open>
  Properties of the memory map's users (packages/efi_shim): what the bootstrap allocator hands
  out is taken from the free frames, once; the enumeration of the free ranges ends and gives
  every remaining free descriptor from \<open>descriptorIndex_\<close> on; reservations of virtual memory do
  not overlap; \<open>calcMemSize\<close> bounds every free frame.

  \<open>page_source\<close> is the contract of a page allocator: the pages it can still give, and that an
  allocation takes its result out of them.
\<close>

subsection \<open>Spans of pages\<close>

lemma page_span_0 [simp]: "page_span a 0 = {}"
  by (simp add: page_span_def)

lemma page_span_append:
  "page_span a (k + n) = page_span a k \<union> page_span (a + 4096 * of_nat k) n"
proof -
  have "{..<k + n} = {..<k} \<union> (\<lambda>i. k + i) ` {..<n}" 
    by (simp add: lessThan_atLeast0 ivl_disj_un_two(3) add.commute)
  then show ?thesis by (simp add: page_span_def image_Un image_image algebra_simps)
qed

definition no_wrap :: "u64 \<Rightarrow> nat \<Rightarrow> bool" where
  "no_wrap a n \<longleftrightarrow> unat a + 4096 * n < 2 ^ 64"

lemma unat_page_in_span:
  assumes "no_wrap a n" "i < n"
  shows "unat (a + 4096 * of_nat i) = unat a + 4096 * i"
proof -
  have "unat (4096 * of_nat i :: u64) = 4096 * i"
  proof -
    have "unat (of_nat (4096 * i) :: u64) = 4096 * i"
      by (rule unat_of_nat_small) (use assms in \<open>simp add: no_wrap_def\<close>)
    then show ?thesis by simp
  qed
  then show ?thesis using assms by (subst unat_add_small) (simp_all add: no_wrap_def)
qed

lemma no_wrap_tail:
  assumes "no_wrap a (k + n)"
  shows "unat (a + 4096 * of_nat k) = unat a + 4096 * k" "no_wrap (a + 4096 * of_nat k) n"
proof -
  have "unat (of_nat (4096 * k) :: u64) = 4096 * k"
    by (rule unat_of_nat_small) (use assms in \<open>simp add: no_wrap_def\<close>)
  then have u: "unat (4096 * of_nat k :: u64) = 4096 * k" by simp
  then show e: "unat (a + 4096 * of_nat k) = unat a + 4096 * k"
    using assms by (subst unat_add_small) (simp_all add: no_wrap_def)
  show "no_wrap (a + 4096 * of_nat k) n"
    using assms unfolding no_wrap_def e by simp
qed

lemma page_span_bounds:
  assumes "no_wrap a n" "x \<in> page_span a n"
  shows "unat a \<le> unat x" "unat x < unat a + 4096 * n"
proof -
  obtain i where i: "i < n" "x = a + 4096 * of_nat i" using assms(2) by (auto simp: page_span_def)
  have "unat x = unat a + 4096 * i" using unat_page_in_span [OF assms(1) i(1)] i(2) by simp
  then show "unat a \<le> unat x" "unat x < unat a + 4096 * n" using i(1) by simp_all
qed

lemma page_span_disjoint:
  assumes "no_wrap a (k + n)"
  shows "page_span a k \<inter> page_span (a + 4096 * of_nat k) n = {}"
proof -
  have nk: "no_wrap a k" using assms by (simp add: no_wrap_def)
  have "unat x < unat a + 4096 * k" if "x \<in> page_span a k" for x
    using page_span_bounds(2) [OF nk that] .
  moreover have "unat a + 4096 * k \<le> unat x" if "x \<in> page_span (a + 4096 * of_nat k) n" for x
    using page_span_bounds(1) [OF no_wrap_tail(2) [OF assms] that] no_wrap_tail(1) [OF assms] by simp
  ultimately show ?thesis by fastforce
qed

subsection \<open>The contract of a page allocator\<close>

definition set_pages :: "PageSet \<Rightarrow> u64 set" where
  "set_pages p = page_span (ps_address p) (unat (ps_count p))"

text \<open>A sequence of requests; the page sets that were handed out.\<close>

fun alloc_run :: "('s \<Rightarrow> u64 \<Rightarrow> PageSet StatusOr \<times> 's) \<Rightarrow> 's \<Rightarrow> u64 list \<Rightarrow> PageSet list \<times> 's" where
  "alloc_run alloc s [] = ([], s)"
| "alloc_run alloc s (n # ns) =
     (case alloc s n of (r, s1) \<Rightarrow>
        (case alloc_run alloc s1 ns of (ps, s2) \<Rightarrow>
           ((case or_abs r of Inl e \<Rightarrow> ps | Inr p \<Rightarrow> p # ps), s2)))"

fun disjoint_sets :: "u64 set list \<Rightarrow> bool" where
  "disjoint_sets [] \<longleftrightarrow> True"
| "disjoint_sets (A # As) \<longleftrightarrow> (\<forall>B \<in> set As. A \<inter> B = {}) \<and> disjoint_sets As"

locale page_source =
  fixes alloc :: "'s \<Rightarrow> u64 \<Rightarrow> PageSet StatusOr \<times> 's"
    and pages :: "'s \<Rightarrow> u64 set"
    and ok :: "'s \<Rightarrow> bool"
  assumes alloc_keeps: "ok s \<Longrightarrow> alloc s n = (r, s') \<Longrightarrow> ok s'"
    and alloc_item: "ok s \<Longrightarrow> alloc s n = (r, s') \<Longrightarrow> or_abs r = Inr p \<Longrightarrow>
      set_pages p \<subseteq> pages s \<and> pages s' = pages s - set_pages p"
    and alloc_error: "ok s \<Longrightarrow> alloc s n = (r, s') \<Longrightarrow> or_abs r = Inl e \<Longrightarrow> pages s' = pages s"
begin

lemma run_spec:
  assumes "ok s" "alloc_run alloc s ns = (ps, s')"
  shows "ok s' \<and> disjoint_sets (map set_pages ps) \<and> \<Union> (set (map set_pages ps)) \<subseteq> pages s
    \<and> pages s' = pages s - \<Union> (set (map set_pages ps))"
  using assms
proof (induction ns arbitrary: s ps)
  case Nil
  then show ?case by simp
next
  case (Cons n ns)
  obtain r s1 where a: "alloc s n = (r, s1)" by fastforce
  obtain qs where q: "alloc_run alloc s1 ns = (qs, s')"
    using Cons.prems(2) a by (cases "alloc_run alloc s1 ns") simp
  note IH = Cons.IH [OF alloc_keeps [OF Cons.prems(1) a] q]
  show ?case
  proof (cases "or_abs r")
    case (Inl e)
    then have "ps = qs" using Cons.prems(2) a q by simp
    then show ?thesis using IH alloc_error [OF Cons.prems(1) a Inl] by auto
  next
    case (Inr p)
    then have ps: "ps = p # qs" using Cons.prems(2) a q by simp
    note p = alloc_item [OF Cons.prems(1) a Inr]
    have "set_pages p \<inter> B = {}" if "B \<in> set (map set_pages qs)" for B
      using IH p that by blast
    then show ?thesis using IH p unfolding ps by auto
  qed
qed

end


subsection \<open>Free frames of the memory map\<close>

definition desc_span :: "EFI_MEMORY_DESCRIPTOR \<Rightarrow> u64 set" where
  "desc_span d =
     (if isFreeMem (Type d) then page_span (PhysicalStart d) (unat (NumberOfPages d)) else {})"

definition free_frames :: "EFI_MEMORY_DESCRIPTOR list \<Rightarrow> u64 set" where
  "free_frames ds = (\<Union>i < length ds. desc_span (ds ! i))"

text \<open>The free descriptors of a memory map lie apart and do not run past the end of the address
  space.\<close>

definition map_ok :: "EFI_MEMORY_DESCRIPTOR list \<Rightarrow> bool" where
  "map_ok ds \<longleftrightarrow>
     (\<forall>i < length ds. isFreeMem (Type (ds ! i)) \<longrightarrow>
        no_wrap (PhysicalStart (ds ! i)) (unat (NumberOfPages (ds ! i))))
     \<and> (\<forall>i < length ds. \<forall>j < length ds. i \<noteq> j \<longrightarrow> desc_span (ds ! i) \<inter> desc_span (ds ! j) = {})"

definition ub_ok :: "uefi_bootstrapper \<Rightarrow> bool" where
  "ub_ok ub \<longleftrightarrow> length (ub_map ub) = unat (ub_descriptorCount ub) \<and> length (ub_map ub) < 2 ^ 31
     \<and> 0 \<le> ub_descriptorIndex ub \<and> map_ok (ub_map ub)"

lemma count_as_int:
  assumes "ub_ok ub"
  shows "sint (ucast (ub_descriptorCount ub) :: 32 word) = int (length (ub_map ub))"
proof -
  have n: "unat (ub_descriptorCount ub) = length (ub_map ub)" "length (ub_map ub) < 2 ^ 31"
    using assms by (simp_all add: ub_ok_def)
  have "(ucast (ub_descriptorCount ub) :: 32 word) = of_nat (length (ub_map ub))"
    unfolding n(1) [symmetric] by (simp add: unsigned_def)
  moreover have "sint (of_nat (length (ub_map ub)) :: 32 word) = int (length (ub_map ub))"
    using n(2) by (simp add: signed_of_nat signed_take_bit_int_eq_self)
  ultimately show ?thesis by simp
qed

text \<open>Taking pages off the start of a free descriptor.\<close>

definition cut_desc :: "EFI_MEMORY_DESCRIPTOR \<Rightarrow> u64 \<Rightarrow> EFI_MEMORY_DESCRIPTOR" where
  "cut_desc d k = d\<lparr>NumberOfPages := NumberOfPages d - k, PhysicalStart := PhysicalStart d + k * PAGE_SIZE\<rparr>"

lemma cut_span:
  assumes "isFreeMem (Type d)" "no_wrap (PhysicalStart d) (unat (NumberOfPages d))" "k \<le> NumberOfPages d"
  shows "desc_span d = page_span (PhysicalStart d) (unat k) \<union> desc_span (cut_desc d k)"
    "page_span (PhysicalStart d) (unat k) \<inter> desc_span (cut_desc d k) = {}"
    "no_wrap (PhysicalStart (cut_desc d k)) (unat (NumberOfPages (cut_desc d k)))"
proof -
  let ?n = "unat (NumberOfPages d - k)"
  have n: "unat (NumberOfPages d) = unat k + ?n" using assms(3) by (simp add: unat_sub word_le_nat_alt)
  have c: "desc_span (cut_desc d k) = page_span (PhysicalStart d + 4096 * of_nat (unat k)) ?n"
    using assms(1) by (simp add: desc_span_def cut_desc_def PAGE_SIZE_def mult.commute)
  show "desc_span d = page_span (PhysicalStart d) (unat k) \<union> desc_span (cut_desc d k)"
    unfolding c using assms(1) page_span_append [of "PhysicalStart d" "unat k" ?n] n
    by (simp add: desc_span_def)
  show "page_span (PhysicalStart d) (unat k) \<inter> desc_span (cut_desc d k) = {}"
    unfolding c by (rule page_span_disjoint) (use assms(2) n in simp)
  show "no_wrap (PhysicalStart (cut_desc d k)) (unat (NumberOfPages (cut_desc d k)))"
    using no_wrap_tail(2) [of "PhysicalStart d" "unat k" ?n] assms(2) n
    by (simp add: cut_desc_def PAGE_SIZE_def mult.commute)
qed

text \<open>Replacing one descriptor by one that spans less.\<close>

lemma free_frames_update:
  assumes "map_ok ds" "i < length ds" "desc_span (ds ! i) = A \<union> desc_span d'" "A \<inter> desc_span d' = {}"
    and "isFreeMem (Type d') \<Longrightarrow> no_wrap (PhysicalStart d') (unat (NumberOfPages d'))"
  shows "map_ok (ds[i := d'])" "A \<subseteq> free_frames ds" "free_frames (ds[i := d']) = free_frames ds - A"
proof -
  have sub: "desc_span (ds[i := d'] ! j) \<subseteq> desc_span (ds ! j)" if "j < length ds" for j
    using assms(3) that assms(2) by (cases "i = j") auto
  have dis: "desc_span (ds ! j) \<inter> desc_span (ds ! j') = {}" if "j < length ds" "j' < length ds" "j \<noteq> j'" for j j'
    using assms(1) that by (simp add: map_ok_def)
  show "map_ok (ds[i := d'])"
    unfolding map_ok_def
  proof (intro conjI allI impI)
    fix j assume j: "j < length (ds[i := d'])" and f: "isFreeMem (Type (ds[i := d'] ! j))"
    show "no_wrap (PhysicalStart (ds[i := d'] ! j)) (unat (NumberOfPages (ds[i := d'] ! j)))"
      using j f assms(1,2,5) by (cases "i = j") (simp_all add: map_ok_def)
  next
    fix j j' assume j: "j < length (ds[i := d'])" "j' < length (ds[i := d'])" "j \<noteq> j'"
    then have "desc_span (ds ! j) \<inter> desc_span (ds ! j') = {}"
      "desc_span (ds[i := d'] ! j) \<subseteq> desc_span (ds ! j)"
      "desc_span (ds[i := d'] ! j') \<subseteq> desc_span (ds ! j')"
      using dis sub by simp_all
    then show "desc_span (ds[i := d'] ! j) \<inter> desc_span (ds[i := d'] ! j') = {}" by blast
  qed
  show A: "A \<subseteq> free_frames ds" using assms(2,3) by (auto simp: free_frames_def)
  show "free_frames (ds[i := d']) = free_frames ds - A"
  proof
    show "free_frames (ds[i := d']) \<subseteq> free_frames ds - A"
    proof
      fix x assume "x \<in> free_frames (ds[i := d'])"
      then obtain j where j: "j < length ds" "x \<in> desc_span (ds[i := d'] ! j)" by (auto simp: free_frames_def)
      have x: "x \<in> desc_span (ds ! j)" using sub [OF j(1)] j(2) by blast
      have "x \<notin> A"
      proof (cases "i = j")
        case True
        then show ?thesis using j assms(4) by auto
      next
        case False
        then show ?thesis using dis [OF assms(2) j(1) False] x assms(3) by auto
      qed
      then show "x \<in> free_frames ds - A" using x j(1) by (auto simp: free_frames_def)
    qed
    show "free_frames ds - A \<subseteq> free_frames (ds[i := d'])"
    proof
      fix x assume x: "x \<in> free_frames ds - A"
      then obtain j where j: "j < length ds" "x \<in> desc_span (ds ! j)" by (auto simp: free_frames_def)
      have "x \<in> desc_span (ds[i := d'] ! j)"
        using j x assms(2,3) by (cases "i = j") auto
      then show "x \<in> free_frames (ds[i := d'])" using j(1) by (auto simp: free_frames_def)
    qed
  qed
qed

subsection \<open>The bootstrap allocator\<close>

lemma boot_alloc_loop_spec:
  assumes "map_ok ds" "i + left \<le> length ds" "boot_alloc_loop ds count left i = (r, ds')"
  shows "(case or_abs r of
       Inl e \<Rightarrow> ds' = ds \<and> e = OutOfMemory \<and> (\<forall>j. i \<le> j \<and> j < i + left \<longrightarrow> \<not> free_desc (ds ! j))
     | Inr p \<Rightarrow> \<exists>j. i \<le> j \<and> j < i + left \<and> free_desc (ds ! j) \<and> ps_pageSize p = kPageSize
         \<and> ps_address p = PhysicalStart (ds ! j) \<and> ps_count p = min count (NumberOfPages (ds ! j))
         \<and> ds' = ds[j := cut_desc (ds ! j) (ps_count p)])"
  using assms
proof (induction left arbitrary: i)
  case 0
  then show ?case by (auto simp: or_abs_def StatusOr_status_def)
next
  case (Suc left)
  show ?case
  proof (cases "free_desc (ds ! i)")
    case True
    then have "r = StatusOr_item \<lparr>ps_pageSize = kPageSize, ps_address = PhysicalStart (ds ! i),
                  ps_count = min count (NumberOfPages (ds ! i))\<rparr>"
        "ds' = ds[i := cut_desc (ds ! i) (min count (NumberOfPages (ds ! i)))]"
      using Suc.prems(3) by (auto simp: Let_def cut_desc_def min_def)
    then show ?thesis using True
      by (auto simp: or_abs_def StatusOr_item_def intro!: exI [of _ i])
  next
    case False
    then have "boot_alloc_loop ds count left (Suc i) = (r, ds')" using Suc.prems(3) by (simp add: Let_def)
    then have IH: "(case or_abs r of
       Inl e \<Rightarrow> ds' = ds \<and> e = OutOfMemory \<and> (\<forall>j. Suc i \<le> j \<and> j < Suc i + left \<longrightarrow> \<not> free_desc (ds ! j))
     | Inr p \<Rightarrow> \<exists>j. Suc i \<le> j \<and> j < Suc i + left \<and> free_desc (ds ! j) \<and> ps_pageSize p = kPageSize
         \<and> ps_address p = PhysicalStart (ds ! j) \<and> ps_count p = min count (NumberOfPages (ds ! j))
         \<and> ds' = ds[j := cut_desc (ds ! j) (ps_count p)])"
      using Suc.IH [of "Suc i"] Suc.prems(1,2) by simp
    then show ?thesis
    proof (cases "or_abs r")
      case (Inl e)
      have "\<not> free_desc (ds ! j)" if "i \<le> j" "j < i + Suc left" for j
        using IH Inl False that by (cases "i = j") auto
      then show ?thesis using IH Inl by simp
    next
      case (Inr p)
      then obtain j where j: "Suc i \<le> j" "j < Suc i + left" "free_desc (ds ! j)" "ps_pageSize p = kPageSize"
         "ps_address p = PhysicalStart (ds ! j)" "ps_count p = min count (NumberOfPages (ds ! j))"
         "ds' = ds[j := cut_desc (ds ! j) (ps_count p)]"
        using IH by auto
      then show ?thesis unfolding Inr sum.case by (intro exI [of _ j]) simp
    qed
  qed
qed


lemma boot_allocatePages_spec:
  assumes "ub_ok ub" "boot_allocatePages ub count = (r, ub')"
  shows "(case or_abs r of
       Inl e \<Rightarrow> ub' = ub \<and> e = OutOfMemory
         \<and> (\<forall>j. nat (ub_descriptorIndex ub) < j \<and> j < length (ub_map ub) \<longrightarrow> \<not> free_desc (ub_map ub ! j))
     | Inr p \<Rightarrow> \<exists>j. nat (ub_descriptorIndex ub) < j \<and> j < length (ub_map ub) \<and> free_desc (ub_map ub ! j)
         \<and> ps_pageSize p = kPageSize
         \<and> ps_address p = PhysicalStart (ub_map ub ! j)
         \<and> ps_count p = min count (NumberOfPages (ub_map ub ! j))
         \<and> ub' = ub\<lparr>ub_map := (ub_map ub)[j := cut_desc (ub_map ub ! j) (ps_count p)]\<rparr>)"
proof -
  let ?i = "nat (ub_descriptorIndex ub + 1)"
  let ?left = "unat (ub_descriptorCount ub) - ?i"
  obtain ds' where l: "boot_alloc_loop (ub_map ub) count ?left ?i = (r, ds')" and u: "ub' = ub\<lparr>ub_map := ds'\<rparr>"
    using assms(2) by (auto simp: boot_allocatePages_def Let_def split: prod.splits)
  have i: "?i = Suc (nat (ub_descriptorIndex ub))" using assms(1) by (simp add: ub_ok_def nat_add_distrib)
  show ?thesis
  proof (cases "?i \<le> length (ub_map ub)")
    case True
    then have e: "?i + ?left = length (ub_map ub)" using assms(1) by (simp add: ub_ok_def)
    have m: "map_ok (ub_map ub)" using assms(1) by (simp add: ub_ok_def)
    have S: "(case or_abs r of
       Inl e \<Rightarrow> ds' = ub_map ub \<and> e = OutOfMemory \<and> (\<forall>j. ?i \<le> j \<and> j < length (ub_map ub) \<longrightarrow> \<not> free_desc (ub_map ub ! j))
     | Inr p \<Rightarrow> \<exists>j. ?i \<le> j \<and> j < length (ub_map ub) \<and> free_desc (ub_map ub ! j) \<and> ps_pageSize p = kPageSize
         \<and> ps_address p = PhysicalStart (ub_map ub ! j) \<and> ps_count p = min count (NumberOfPages (ub_map ub ! j))
         \<and> ds' = (ub_map ub)[j := cut_desc (ub_map ub ! j) (ps_count p)])"
      using boot_alloc_loop_spec [OF m eq_imp_le [OF e] l] unfolding e .
    show ?thesis
    proof (cases "or_abs r")
      case (Inl e)
      then show ?thesis using S u unfolding i by (simp add: Suc_le_eq)
    next
      case (Inr p)
      then obtain j where "?i \<le> j" "j < length (ub_map ub)" "free_desc (ub_map ub ! j)" "ps_pageSize p = kPageSize"
         "ps_address p = PhysicalStart (ub_map ub ! j)" "ps_count p = min count (NumberOfPages (ub_map ub ! j))"
         "ds' = (ub_map ub)[j := cut_desc (ub_map ub ! j) (ps_count p)]"
        using S by auto
      then show ?thesis unfolding Inr sum.case i u by (intro exI [of _ j]) simp
    qed
  next
    case False
    then have "?left = 0" using assms(1) by (simp add: ub_ok_def)
    then show ?thesis using l u False unfolding i by auto
  qed
qed

interpretation boot: page_source boot_allocatePages "\<lambda>ub. free_frames (ub_map ub)" ub_ok
proof
  fix s s' :: uefi_bootstrapper and n r
  assume ok: "ub_ok s" and a: "boot_allocatePages s n = (r, s')"
  note S = boot_allocatePages_spec [OF ok a]
  have step: "ub_ok s' \<and> set_pages p \<subseteq> free_frames (ub_map s)
      \<and> free_frames (ub_map s') = free_frames (ub_map s) - set_pages p" if p: "or_abs r = Inr p" for p
  proof -
    obtain j where j: "j < length (ub_map s)" "free_desc (ub_map s ! j)"
      "ps_address p = PhysicalStart (ub_map s ! j)" "ps_count p = min n (NumberOfPages (ub_map s ! j))"
      "s' = s\<lparr>ub_map := (ub_map s)[j := cut_desc (ub_map s ! j) (ps_count p)]\<rparr>"
      using S p by auto
    let ?d = "ub_map s ! j"
    have m: "map_ok (ub_map s)" and f: "isFreeMem (Type ?d)" using ok j(2) by (simp_all add: ub_ok_def free_desc_def)
    have w: "no_wrap (PhysicalStart ?d) (unat (NumberOfPages ?d))" using m f j(1) by (simp add: map_ok_def)
    have k: "ps_count p \<le> NumberOfPages ?d" unfolding j(4) by simp
    note C = cut_span [OF f w k]
    note F = free_frames_update [OF m j(1) C(1) C(2) C(3)]
    show ?thesis using F ok j(3) unfolding j(5) by (simp add: ub_ok_def set_pages_def)
  qed
  show "ub_ok s'" using S step ok by (cases "or_abs r") auto
  show "set_pages p \<subseteq> free_frames (ub_map s) \<and> free_frames (ub_map s') = free_frames (ub_map s) - set_pages p"
    if "or_abs r = Inr p" for p
    using step [OF that] by simp
  show "free_frames (ub_map s') = free_frames (ub_map s)" if "or_abs r = Inl e" for e
    using S that by simp
qed

subsection \<open>Enumerating the free ranges\<close>

definition range_of :: "EFI_MEMORY_DESCRIPTOR \<Rightarrow> PageSet" where
  "range_of d = \<lparr>ps_pageSize = PAGE_SIZE, ps_address = PhysicalStart d, ps_count = NumberOfPages d\<rparr>"

definition emptied :: "EFI_MEMORY_DESCRIPTOR \<Rightarrow> EFI_MEMORY_DESCRIPTOR" where
  "emptied d = (if free_desc d then d\<lparr>NumberOfPages := 0\<rparr> else d)"

lemma emptied_simps [simp]:
  "\<not> free_desc (emptied d)" "\<not> free_desc d \<Longrightarrow> emptied d = d" "emptied (emptied d) = emptied d"
  by (auto simp: emptied_def free_desc_def)

text \<open>What \<open>move_next\<close> does from index \<open>i\<close> on: it stops at the first free descriptor and empties
  it, or runs to the end.\<close>

definition next_spec :: "nat \<Rightarrow> uefi_bootstrapper \<Rightarrow> bool \<Rightarrow> uefi_bootstrapper \<Rightarrow> bool" where
  "next_spec i ub b ub' \<longleftrightarrow>
     (if b then \<exists>j. i \<le> j \<and> j < length (ub_map ub) \<and> free_desc (ub_map ub ! j)
        \<and> (\<forall>k. i \<le> k \<and> k < j \<longrightarrow> \<not> free_desc (ub_map ub ! k))
        \<and> ub' = ub\<lparr>ub_current := range_of (ub_map ub ! j),
                   ub_map := (ub_map ub)[j := emptied (ub_map ub ! j)], ub_descriptorIndex := int j\<rparr>
      else (\<forall>k. i \<le> k \<and> k < length (ub_map ub) \<longrightarrow> \<not> free_desc (ub_map ub ! k))
        \<and> ub' = ub\<lparr>ub_descriptorIndex := int (length (ub_map ub))\<rparr>)"

lemma next_spec_skip:
  assumes "next_spec (Suc i) (ub\<lparr>ub_descriptorIndex := x\<rparr>) b ub'" "\<not> free_desc (ub_map ub ! i)"
  shows "next_spec i ub b ub'"
proof -
  have skip: "(\<forall>k. i \<le> k \<and> k < n \<longrightarrow> \<not> free_desc (ub_map ub ! k))"
    if "\<forall>k. Suc i \<le> k \<and> k < n \<longrightarrow> \<not> free_desc (ub_map ub ! k)" for n
    using that assms(2) by (metis Suc_leI le_neq_implies_less)
  show ?thesis
  proof (cases b)
    case True
    then obtain j where j: "Suc i \<le> j" "j < length (ub_map ub)" "free_desc (ub_map ub ! j)"
      "\<forall>k. Suc i \<le> k \<and> k < j \<longrightarrow> \<not> free_desc (ub_map ub ! k)"
      "ub' = ub\<lparr>ub_current := range_of (ub_map ub ! j),
                 ub_map := (ub_map ub)[j := emptied (ub_map ub ! j)], ub_descriptorIndex := int j\<rparr>"
      using assms(1) by (auto simp: next_spec_def)
    have "i \<le> j" using j(1) by simp
    then show ?thesis using True j(2,3,5) skip [OF j(4)] by (auto simp: next_spec_def)
  next
    case False
    then show ?thesis using assms(1) skip [of "length (ub_map ub)"] by (simp add: next_spec_def)
  qed
qed

lemma move_next_loop_spec:
  assumes "0 \<le> ub_descriptorIndex ub" "nat (ub_descriptorIndex ub) + left = length (ub_map ub)"
    and "move_next_loop ub left = (b, ub')"
  shows "next_spec (nat (ub_descriptorIndex ub)) ub b ub'"
  using assms
proof (induction left arbitrary: ub)
  case 0
  then show ?case by (auto simp: next_spec_def)
next
  case (Suc left)
  let ?i = "nat (ub_descriptorIndex ub)"
  show ?case
  proof (cases "free_desc (ub_map ub ! ?i)")
    case True
    then show ?thesis using Suc.prems
      by (auto simp: next_spec_def Let_def range_of_def emptied_def intro!: exI [of _ ?i])
  next
    case False
    let ?u = "ub\<lparr>ub_descriptorIndex := ub_descriptorIndex ub + 1\<rparr>"
    have n: "nat (ub_descriptorIndex ?u) = Suc ?i" using Suc.prems(1) by (simp add: nat_add_distrib)
    have l: "move_next_loop ?u left = (b, ub')" using Suc.prems(3) False by (simp add: Let_def)
    have "next_spec (nat (ub_descriptorIndex ?u)) ?u b ub'"
      by (rule Suc.IH [OF _ _ l]) (use Suc.prems(1,2) n in simp_all)
    then show ?thesis unfolding n by (rule next_spec_skip [OF _ False])
  qed
qed

lemma move_next_spec:
  assumes "ub_ok ub" "ub_descriptorIndex ub \<le> int (length (ub_map ub))" "move_next ub = (b, ub')"
  shows "next_spec (nat (ub_descriptorIndex ub)) ub b ub'"
proof -
  have "nat (ub_descriptorIndex ub) \<le> length (ub_map ub)" using assms(2) by linarith
  then show ?thesis
    by (intro move_next_loop_spec [where left = "length (ub_map ub) - nat (ub_descriptorIndex ub)"])
      (use assms count_as_int [OF assms(1)] in \<open>simp_all add: ub_ok_def move_next_def nat_diff_distrib\<close>)
qed

text \<open>The free ranges left, from the current index on, and the map once they are enumerated.\<close>

definition ranges_left :: "uefi_bootstrapper \<Rightarrow> PageSet list" where
  "ranges_left ub = map range_of (filter free_desc (drop (nat (ub_descriptorIndex ub)) (ub_map ub)))"

definition enumerated :: "uefi_bootstrapper \<Rightarrow> EFI_MEMORY_DESCRIPTOR list" where
  "enumerated ub = take (nat (ub_descriptorIndex ub)) (ub_map ub)
     @ map emptied (drop (nat (ub_descriptorIndex ub)) (ub_map ub))"

lemma drop_first_free:
  assumes "i \<le> j" "j < length ds" "\<forall>k. i \<le> k \<and> k < j \<longrightarrow> \<not> free_desc (ds ! k)"
  shows "drop i ds = drop i (take j ds) @ ds ! j # drop (Suc j) ds"
    "filter free_desc (drop i (take j ds)) = []" "map emptied (drop i (take j ds)) = drop i (take j ds)"
proof -
  show "drop i ds = drop i (take j ds) @ ds ! j # drop (Suc j) ds"
  proof -
    have "ds = take j ds @ ds ! j # drop (Suc j) ds" by (rule id_take_nth_drop [OF assms(2)])
    moreover have "drop i (take j ds @ ds ! j # drop (Suc j) ds) = drop i (take j ds) @ ds ! j # drop (Suc j) ds"
      using assms(1,2) by simp
    ultimately show ?thesis by simp
  qed
  have n: "\<forall>d \<in> set (drop i (take j ds)). \<not> free_desc d"
  proof
    fix d assume "d \<in> set (drop i (take j ds))"
    then obtain k where "k < length (drop i (take j ds))" "d = drop i (take j ds) ! k"
      by (auto simp: in_set_conv_nth)
    then show "\<not> free_desc d" using assms by simp
  qed
  then show "filter free_desc (drop i (take j ds)) = []" by (simp add: filter_empty_conv)
  show "map emptied (drop i (take j ds)) = drop i (take j ds)"
    using n by (intro map_idI) simp
qed


lemma emptied_span: "desc_span (emptied d) = (if free_desc d then {} else desc_span d)"
  by (simp add: emptied_def desc_span_def)

lemma map_ok_emptied:
  assumes "map_ok ds" "j < length ds"
  shows "map_ok (ds[j := emptied (ds ! j)])"
proof (rule free_frames_update(1) [where A = "if free_desc (ds ! j) then desc_span (ds ! j) else {}"])
  show "no_wrap (PhysicalStart (emptied (ds ! j))) (unat (NumberOfPages (emptied (ds ! j))))"
    if "isFreeMem (Type (emptied (ds ! j)))"
    using assms that by (auto simp: emptied_def map_ok_def no_wrap_def)
qed (use assms in \<open>simp_all add: emptied_span\<close>)

text \<open>One step of the enumeration.\<close>

lemma move_next_ranges:
  assumes "ub_ok ub" "ub_descriptorIndex ub \<le> int (length (ub_map ub))" "move_next ub = (b, ub')"
  shows "ub_ok ub' \<and> ub_descriptorIndex ub' \<le> int (length (ub_map ub')) \<and> enumerated ub' = enumerated ub
    \<and> (if b then ranges_left ub = ub_current ub' # ranges_left ub' else ranges_left ub = [] \<and> ub_map ub' = enumerated ub)
    \<and> ub' = ub\<lparr>ub_map := ub_map ub', ub_current := ub_current ub', ub_descriptorIndex := ub_descriptorIndex ub'\<rparr>"
proof -
  let ?i = "nat (ub_descriptorIndex ub)"
  note S = move_next_spec [OF assms]
  show ?thesis
  proof (cases b)
    case True
    then obtain j where j: "?i \<le> j" "j < length (ub_map ub)" "free_desc (ub_map ub ! j)"
      "\<forall>k. ?i \<le> k \<and> k < j \<longrightarrow> \<not> free_desc (ub_map ub ! k)"
      and u: "ub' = ub\<lparr>ub_current := range_of (ub_map ub ! j),
                 ub_map := (ub_map ub)[j := emptied (ub_map ub ! j)], ub_descriptorIndex := int j\<rparr>"
      using S by (auto simp: next_spec_def)
    note D = drop_first_free [OF j(1,2,4)]
    have dj: "drop j ((ub_map ub)[j := emptied (ub_map ub ! j)]) = emptied (ub_map ub ! j) # drop (Suc j) (ub_map ub)"
      using j(2) by (simp add: drop_update_swap Cons_nth_drop_Suc [symmetric])
    have r: "ranges_left ub = ub_current ub' # ranges_left ub'"
      unfolding ranges_left_def D(1) u using D(2) j(3) dj by simp
    have tk: "take j (ub_map ub) = take ?i (ub_map ub) @ drop ?i (take j (ub_map ub))"
      using j(1) by (metis append_take_drop_id min.absorb1 take_take)
    have e: "enumerated ub' = enumerated ub"
      unfolding enumerated_def u using D(1,3) dj tk by simp
    have "ub_ok ub'" using assms(1) map_ok_emptied [of "ub_map ub" j] j(2) by (simp add: u ub_ok_def)
    then show ?thesis using True r e j(2) by (simp add: u)
  next
    case False
    then have n: "\<forall>k. ?i \<le> k \<and> k < length (ub_map ub) \<longrightarrow> \<not> free_desc (ub_map ub ! k)"
      and u: "ub' = ub\<lparr>ub_descriptorIndex := int (length (ub_map ub))\<rparr>"
      using S by (auto simp: next_spec_def)
    have d: "\<forall>d \<in> set (drop ?i (ub_map ub)). \<not> free_desc d"
      using n by (auto simp: in_set_conv_nth)
    then have e: "enumerated ub = ub_map ub" by (simp add: enumerated_def map_idI)
    have "ranges_left ub = []" using d by (simp add: ranges_left_def filter_empty_conv)
    moreover have "ub_ok ub'" using assms(1) by (simp add: u ub_ok_def)
    ultimately show ?thesis using False e by (simp add: u enumerated_def)
  qed
qed

text \<open>The loop over the ranges runs its body on each of them, in order, and ends.\<close>

fun fold_option :: "('a \<Rightarrow> 'b \<Rightarrow> 'a option) \<Rightarrow> 'a \<Rightarrow> 'b list \<Rightarrow> 'a option" where
  "fold_option f a [] = Some a"
| "fold_option f a (x # xs) = (case f a x of None \<Rightarrow> None | Some a \<Rightarrow> fold_option f a xs)"

lemma range_loop_spec:
  assumes "ub_ok ub" "ub_descriptorIndex ub \<le> int (length (ub_map ub))" "iterator_next ub it = (ub1, it1)"
    and "it_iteration it \<ge> -1" "fold_option body acc (ranges_left ub) = Some acc'"
  shows "\<exists>ub'. range_loop body acc ub1 it1 = Some (acc', ub') \<and> ub_map ub' = enumerated ub"
  using assms
proof (induction "ranges_left ub" arbitrary: ub ub1 it it1 acc)
  case Nil
  obtain b u where m: "move_next ub = (b, u)" by fastforce
  have "\<not> b" "ub_map u = enumerated ub"
    using move_next_ranges [OF Nil.prems(1,2) m] Nil.hyps by (auto split: if_splits)
  then show ?case using Nil m
    by (auto simp: iterator_next_def range_loop.simps iterator_ne_def)
next
  case (Cons r rs)
  obtain b u where m: "move_next ub = (b, u)" by fastforce
  note M = move_next_ranges [OF Cons.prems(1,2) m]
  have b: "b" and r: "ub_current u = r" "ranges_left u = rs" using M Cons.hyps(2) by (auto split: if_splits)
  have i: "ub1 = u" "it1 = \<lparr>it_value = r, it_iteration = it_iteration it + 1\<rparr>"
    using Cons.prems(3) m b r by (simp_all add: iterator_next_def)
  obtain acc1 where acc1: "body acc r = Some acc1" "fold_option body acc1 rs = Some acc'"
    using Cons.prems(5) Cons.hyps(2) [symmetric] by (auto split: option.splits)
  obtain ub2 it2 where n: "iterator_next u it1 = (ub2, it2)" by fastforce
  have "\<exists>ub'. range_loop body acc1 ub2 it2 = Some (acc', ub') \<and> ub_map ub' = enumerated u"
    by (rule Cons.hyps(1) [OF r(2) [symmetric] _ _ n])
      (use M Cons.prems(4) i acc1 r in simp_all)
  moreover have "range_loop body acc ub1 it1 = range_loop body acc1 ub2 it2"
    using Cons.prems(4) acc1(1) n i
    by (subst range_loop.simps) (simp add: iterator_ne_def iterator_end_def)
  ultimately show ?case using M by simp
qed


lemma for_free_ranges_spec:
  assumes "ub_ok ub" "ub_descriptorIndex ub \<le> int (length (ub_map ub))"
    and "fold_option body acc (ranges_left ub) = Some acc'"
  shows "\<exists>ub'. for_free_ranges body acc ub = Some (acc', ub') \<and> ub_map ub' = enumerated ub"
proof -
  obtain ub1 it1 where i: "iterator_next ub iterator_end = (ub1, it1)" by fastforce
  have "\<exists>ub'. range_loop body acc ub1 it1 = Some (acc', ub') \<and> ub_map ub' = enumerated ub"
    by (rule range_loop_spec [OF assms(1,2) i _ assms(3)]) (simp add: iterator_end_def)
  then show ?thesis by (simp add: for_free_ranges_def iterator_begin_def i)
qed

lemma ranges_left_free:
  assumes "q \<in> set (ranges_left ub)"
  shows "set_pages q \<subseteq> free_frames (ub_map ub)"
proof -
  obtain d where d: "d \<in> set (drop (nat (ub_descriptorIndex ub)) (ub_map ub))" "free_desc d" "q = range_of d"
    using assms by (auto simp: ranges_left_def)
  then obtain i where "i < length (ub_map ub)" "d = ub_map ub ! i"
    by (metis in_set_conv_nth in_set_dropD)
  moreover have "set_pages q = desc_span d"
    using d(2,3) by (simp add: set_pages_def range_of_def desc_span_def free_desc_def)
  ultimately show ?thesis by (auto simp: free_frames_def)
qed

subsection \<open>The size of memory\<close>

lemma mem_extent_mono: "x \<le> mem_extent d x"
  by (auto simp: mem_extent_def Let_def)

lemma fold_mem_extent_ge: "x \<le> fold mem_extent ds x"
proof (induction ds arbitrary: x)
  case (Cons d ds)
  then show ?case using mem_extent_mono order_trans by (metis fold_simps(2))
qed simp

lemma calcMemSize_free:
  assumes "d \<in> set ds" "isFreeMem (Type d)"
  shows "PhysicalStart d + PAGE_SIZE * NumberOfPages d \<le> calcMemSize ds"
proof -
  obtain xs ys where ds: "ds = xs @ d # ys" using assms(1) by (meson split_list)
  have "PhysicalStart d + PAGE_SIZE * NumberOfPages d \<le> mem_extent d (fold mem_extent xs 0)"
    using assms(2) by (auto simp: mem_extent_def Let_def not_less)
  also have "\<dots> \<le> calcMemSize ds" unfolding calcMemSize_def ds by (simp add: fold_mem_extent_ge)
  finally show ?thesis .
qed

lemma no_wrap_end:
  assumes "no_wrap a (unat n)"
  shows "unat (a + PAGE_SIZE * n) = unat a + 4096 * unat n"
proof -
  have "unat (PAGE_SIZE * n) = 4096 * unat n"
    using assms by (simp add: PAGE_SIZE_def no_wrap_def unat_word_ariths)
  then show ?thesis using assms by (subst unat_add_small) (simp_all add: no_wrap_def)
qed

subsection \<open>Properties\<close>

text \<open>C21: the pages that a sequence of requests to the bootstrap allocator hands out are free
  frames of the memory map, no frame is handed out twice, and none of them lies in a range that
  is reported free afterwards.\<close>

theorem bootstrap_allocations_disjoint:
  assumes "ub_ok ub" "alloc_run boot_allocatePages ub ns = (ps, ub')"
  shows "disjoint_sets (map set_pages ps) \<and> \<Union> (set (map set_pages ps)) \<subseteq> free_frames (ub_map ub)
    \<and> (\<forall>q \<in> set (ranges_left ub'). \<forall>p \<in> set ps. set_pages q \<inter> set_pages p = {}) \<and> ub_ok ub'"
proof -
  note R = boot.run_spec [OF assms]
  have "set_pages q \<inter> set_pages p = {}" if "q \<in> set (ranges_left ub')" "p \<in> set ps" for p q
  proof -
    have "set_pages q \<subseteq> free_frames (ub_map ub) - \<Union> (set (map set_pages ps))"
      using ranges_left_free [OF that(1)] R by simp
    then show ?thesis using that(2) by auto
  qed
  then show ?thesis using R by simp
qed

text \<open>A memory map of four descriptors, two of them free.\<close>

definition demo_ub :: uefi_bootstrapper where
  "demo_ub = \<lparr>ub_layout = DefaultKernelMemoryLayout, ub_pageTablePhysicalAddress = 0,
     ub_memoryMap = \<lparr>mm_memory_map = 0, mm_memory_map_size = 160, mm_descriptor_size = 40,
                     mm_descriptor_version = 1\<rparr>,
     ub_map = [\<lparr>Type = EfiConventionalMemory, PhysicalStart = 0, NumberOfPages = 1\<rparr>,
               \<lparr>Type = EfiLoaderCode, PhysicalStart = 0x1000, NumberOfPages = 3\<rparr>,
               \<lparr>Type = EfiConventionalMemory, PhysicalStart = 0x8000, NumberOfPages = 3\<rparr>,
               \<lparr>Type = EfiPalCode, PhysicalStart = 0x20000, NumberOfPages = 1\<rparr>],
     ub_descriptorCount = 4, ub_descriptorIndex = 0, ub_current = PageSet_zero,
     ub_nextFreeVirtualPage = 0xFFFFFF0000400000, ub_memSize = 0xB000\<rparr>"

lemma demo_ub_ok: "ub_ok demo_ub"
proof -
  have s: "desc_span (ub_map demo_ub ! 0) = {0}" "desc_span (ub_map demo_ub ! 1) = {}"
      "desc_span (ub_map demo_ub ! 2) = {0x8000, 0x9000, 0xA000}" "desc_span (ub_map demo_ub ! 3) = {}"
    by (simp_all add: demo_ub_def desc_span_def page_span_def lessThan_atLeast0 atLeastLessThan_upt upt_rec)
  have "map_ok (ub_map demo_ub)"
    unfolding map_ok_def
  proof (intro conjI allI impI)
    fix i assume "i < length (ub_map demo_ub)"
    then show "no_wrap (PhysicalStart (ub_map demo_ub ! i)) (unat (NumberOfPages (ub_map demo_ub ! i)))"
      by (auto simp: demo_ub_def less_Suc_eq no_wrap_def)
  next
    fix i j :: nat assume "i < length (ub_map demo_ub)" "j < length (ub_map demo_ub)" "i \<noteq> j"
    then have "(i = 0 \<or> i = 1 \<or> i = 2 \<or> i = 3) \<and> (j = 0 \<or> j = 1 \<or> j = 2 \<or> j = 3) \<and> i \<noteq> j"
      by (simp add: demo_ub_def less_Suc_eq numeral_2_eq_2 numeral_3_eq_3)
    then show "desc_span (ub_map demo_ub ! i) \<inter> desc_span (ub_map demo_ub ! j) = {}"
      using s by auto
  qed
  then show ?thesis by (simp add: ub_ok_def) (simp add: demo_ub_def)
qed

lemma bootstrap_allocations_disjoint_witness:
  "\<exists>p q. alloc_run boot_allocatePages demo_ub [2, 5] = ([p, q], snd (alloc_run boot_allocatePages demo_ub [2, 5]))
     \<and> ps_address p = 0x8000 \<and> ps_count p = 2 \<and> ps_address q = 0xA000 \<and> ps_count q = 1
     \<and> set_pages p \<inter> set_pages q = {}"
proof -
  let ?p = "\<lparr>ps_pageSize = 4096, ps_address = 0x8000, ps_count = 2\<rparr>"
  let ?q = "\<lparr>ps_pageSize = 4096, ps_address = 0xA000, ps_count = 1\<rparr>"
  have "fst (alloc_run boot_allocatePages demo_ub [2, 5]) = [?p, ?q]"
    by code_simp
  then have a: "alloc_run boot_allocatePages demo_ub [2, 5] = ([?p, ?q], snd (alloc_run boot_allocatePages demo_ub [2, 5]))"
    by (metis prod.collapse)
  then have "set_pages ?p \<inter> set_pages ?q = {}"
    using bootstrap_allocations_disjoint [OF demo_ub_ok a] by simp
  then show ?thesis using a by (intro exI [of _ ?p] exI [of _ ?q]) simp
qed

text \<open>C22: the enumeration of the free physical memory ends; it runs its body once for every free
  descriptor from the current one on, in order, and leaves each of them empty, so that a second
  enumeration finds nothing.\<close>

theorem for_free_ranges_complete:
  assumes "ub_ok ub" "ub_descriptorIndex ub \<le> int (length (ub_map ub))"
    and "fold_option body acc (ranges_left ub) = Some acc'"
  shows "\<exists>ub'. for_free_ranges body acc ub = Some (acc', ub')
    \<and> (\<forall>d \<in> set (drop (nat (ub_descriptorIndex ub)) (ub_map ub')). \<not> free_desc d)"
proof -
  obtain ub' where ub': "for_free_ranges body acc ub = Some (acc', ub')" "ub_map ub' = enumerated ub"
    using for_free_ranges_spec [OF assms] by blast
  have "\<not> free_desc d" if "d \<in> set (drop (nat (ub_descriptorIndex ub)) (enumerated ub))" for d
    using that assms(2) by (auto simp: enumerated_def)
  then show ?thesis using ub' by auto
qed

lemma for_free_ranges_complete_witness:
  "\<exists>ub'. for_free_ranges (\<lambda>n r. Some (n + ps_count r)) 0 demo_ub = Some (4, ub')"
proof -
  have "fold_option (\<lambda>n r. Some (n + ps_count r)) 0 (ranges_left demo_ub) = Some (4 :: u64)"
    by (simp add: ranges_left_def demo_ub_def free_desc_def range_of_def)
  from for_free_ranges_complete [OF demo_ub_ok _ this] show ?thesis by (auto simp: demo_ub_def)
qed

text \<open>C23: \<open>calcMemSize\<close> is past the end of every free frame, so the page numbers of free memory
  are below its number of pages.\<close>

theorem calcMemSize_bounds_frames:
  assumes "map_ok ds" "x \<in> free_frames ds"
  shows "unat x < unat (calcMemSize ds)"
proof -
  obtain i where i: "i < length ds" "x \<in> desc_span (ds ! i)" using assms(2) by (auto simp: free_frames_def)
  then have f: "isFreeMem (Type (ds ! i))" and x: "x \<in> page_span (PhysicalStart (ds ! i)) (unat (NumberOfPages (ds ! i)))"
    by (auto simp: desc_span_def split: if_splits)
  have w: "no_wrap (PhysicalStart (ds ! i)) (unat (NumberOfPages (ds ! i)))"
    using assms(1) i(1) f by (simp add: map_ok_def)
  have "unat x < unat (PhysicalStart (ds ! i) + PAGE_SIZE * NumberOfPages (ds ! i))"
    using page_span_bounds(2) [OF w x] no_wrap_end [OF w] by simp
  also have "\<dots> \<le> unat (calcMemSize ds)"
    using calcMemSize_free [OF nth_mem [OF i(1)] f] by (simp add: word_le_nat_alt)
  finally show ?thesis .
qed

lemma calcMemSize_bounds_frames_witness:
  "unat (0xA000 :: u64) < unat (calcMemSize (ub_map demo_ub)) \<and> calcMemSize (ub_map demo_ub) = 0xB000"
proof -
  have "0xA000 \<in> desc_span (ub_map demo_ub ! 2)"
    by (auto simp: demo_ub_def desc_span_def page_span_def intro!: image_eqI [of _ _ 2])
  then have "0xA000 \<in> free_frames (ub_map demo_ub)"
    unfolding free_frames_def by (rule UN_I [rotated]) (simp add: demo_ub_def)
  moreover have "map_ok (ub_map demo_ub)" using demo_ub_ok by (simp add: ub_ok_def)
  ultimately show ?thesis
    using calcMemSize_bounds_frames by (auto simp: calcMemSize_def demo_ub_def mem_extent_def PAGE_SIZE_def)
qed

text \<open>A reservation of virtual memory that does not wrap around either fails and changes
  nothing or returns the next free page, ends before the end of the region and moves the next
  free page past it.\<close>

theorem reserveVirtualMemory_bounds:
  assumes "no_wrap (ub_nextFreeVirtualPage ub) (unat n)" "reserveVirtualMemory ub n = (r, ub')"
  shows "(case or_abs r of
      Inl e \<Rightarrow> e = OutOfMemory \<and> ub' = ub
        \<and> unat (ub_nextFreeVirtualPage ub) + 4096 * unat n > unat (mmapsEnd (ub_layout ub))
    | Inr a \<Rightarrow> a = ub_nextFreeVirtualPage ub
        \<and> unat (ub_nextFreeVirtualPage ub') = unat a + 4096 * unat n
        \<and> unat (ub_nextFreeVirtualPage ub') \<le> unat (mmapsEnd (ub_layout ub)))"
  using assms no_wrap_end [OF assms(1)]
  by (auto simp: reserveVirtualMemory_def kPageSize_def PAGE_SIZE_def Let_def mult.commute
      word_less_nat_alt word_le_nat_alt split: if_splits)

lemma reserveVirtualMemory_bounds_witness:
  "\<exists>ub'. reserveVirtualMemory demo_ub 2 = (StatusOr_item 0xFFFFFF0000400000, ub')
     \<and> unat (ub_nextFreeVirtualPage ub') = unat (0xFFFFFF0000400000 :: u64) + 8192"
proof -
  have w: "no_wrap (ub_nextFreeVirtualPage demo_ub) (unat (2 :: u64))"
    by (simp add: no_wrap_def demo_ub_def)
  obtain r ub' where r: "reserveVirtualMemory demo_ub 2 = (r, ub')" by fastforce
  then have "r = StatusOr_item 0xFFFFFF0000400000"
    by (simp add: reserveVirtualMemory_def demo_ub_def DefaultKernelMemoryLayout_def kPageSize_def)
  then show ?thesis using reserveVirtualMemory_bounds [OF w r] r by auto
qed

text \<open>The check of a reservation wraps around: a request for \<open>2 ^ 52\<close> pages is granted, and
  reserves nothing.\<close>

theorem reserveVirtualMemory_wraps:
  assumes "ub_nextFreeVirtualPage ub \<le> mmapsEnd (ub_layout ub)"
  shows "reserveVirtualMemory ub (2 ^ 52) = (StatusOr_item (ub_nextFreeVirtualPage ub), ub)"
proof -
  have z: "(2 ^ 52 * 4096 :: u64) = 0" by simp
  have "reserveVirtualMemory ub (2 ^ 52) =
     (if ub_nextFreeVirtualPage ub + 0 > mmapsEnd (ub_layout ub) then (StatusOr_status OutOfMemory, ub)
      else (StatusOr_item (ub_nextFreeVirtualPage ub),
            ub\<lparr>ub_nextFreeVirtualPage := ub_nextFreeVirtualPage ub + 0\<rparr>))"
    by (simp only: reserveVirtualMemory_def kPageSize_def PAGE_SIZE_def Let_def z)
  then show ?thesis using assms by (simp add: not_less)
qed

lemma reserveVirtualMemory_wraps_witness:
  "reserveVirtualMemory demo_ub (2 ^ 52) = (StatusOr_item 0xFFFFFF0000400000, demo_ub)"
proof -
  have "ub_nextFreeVirtualPage demo_ub \<le> mmapsEnd (ub_layout demo_ub)"
    by (simp add: demo_ub_def DefaultKernelMemoryLayout_def)
  from reserveVirtualMemory_wraps [OF this] show ?thesis by (simp add: demo_ub_def)
qed

end
