(* ===== verification/KernelInitProps.thy ===== *)
theory KernelInitProps
  imports KernelMapProps UefiProps
begin

text \<open>
  The start of the page allocator: how the memory map, the bootstrap allocator, the page tables
  and the bitmap fit together.  Marking the free ranges stays within the bitmap, because the
  bitmap has a bit for every page below \<open>memorySize()\<close>, and clears the bits of exactly the
  ranges that are still free.
\<close>

subsection \<open>The memory map while pages are taken from it\<close>

text \<open>Every free descriptor is page aligned and ends below \<open>M\<close>.\<close>

definition map_below :: "nat \<Rightarrow> EFI_MEMORY_DESCRIPTOR list \<Rightarrow> bool" where
  "map_below M ds \<longleftrightarrow>
     (\<forall>d \<in> set ds. isFreeMem (Type d) \<longrightarrow>
        unat (PhysicalStart d) mod 4096 = 0 \<and> unat (PhysicalStart d) + 4096 * unat (NumberOfPages d) \<le> M)"

lemma calcMemSize_map_below:
  assumes "map_ok ds" "\<And>d. d \<in> set ds \<Longrightarrow> isFreeMem (Type d) \<Longrightarrow> unat (PhysicalStart d) mod 4096 = 0"
  shows "map_below (unat (calcMemSize ds)) ds"
  unfolding map_below_def
proof (intro ballI impI conjI)
  fix d assume d: "d \<in> set ds" "isFreeMem (Type d)"
  show "unat (PhysicalStart d) mod 4096 = 0" by (rule assms(2) [OF d])
  have w: "no_wrap (PhysicalStart d) (unat (NumberOfPages d))"
    using assms(1) d by (auto simp: map_ok_def in_set_conv_nth)
  show "unat (PhysicalStart d) + 4096 * unat (NumberOfPages d) \<le> unat (calcMemSize ds)"
    using calcMemSize_free [OF d] no_wrap_end [OF w] by (simp add: word_le_nat_alt)
qed

lemma map_below_cut:
  assumes "map_below M ds" "map_ok ds" "j < length ds" "free_desc (ds ! j)" "k \<le> NumberOfPages (ds ! j)"
  shows "map_below M (ds[j := cut_desc (ds ! j) k])"
  unfolding map_below_def
proof
  let ?d = "ds ! j"
  fix d assume "d \<in> set (ds[j := cut_desc ?d k])"
  then consider "d \<in> set ds" | "d = cut_desc ?d k" by (meson insert_iff set_update_subset_insert subsetD)
  then show "isFreeMem (Type d) \<longrightarrow>
        unat (PhysicalStart d) mod 4096 = 0 \<and> unat (PhysicalStart d) + 4096 * unat (NumberOfPages d) \<le> M"
  proof cases
    case 1
    then show ?thesis using assms(1) by (simp add: map_below_def)
  next
    case 2
    have f: "isFreeMem (Type ?d)" using assms(4) by (simp add: free_desc_def)
    have b: "unat (PhysicalStart ?d) mod 4096 = 0"
      "unat (PhysicalStart ?d) + 4096 * unat (NumberOfPages ?d) \<le> M"
      using assms(1,3) f by (simp_all add: map_below_def)
    have w: "no_wrap (PhysicalStart ?d) (unat (NumberOfPages ?d))"
      using assms(2,3) f by (simp add: map_ok_def)
    have n: "unat (NumberOfPages ?d) = unat k + unat (NumberOfPages ?d - k)"
      using assms(5) by (simp add: unat_sub word_le_nat_alt)
    have e: "unat (PhysicalStart d) = unat (PhysicalStart ?d) + 4096 * unat k"
      using no_wrap_tail(1) [of "PhysicalStart ?d" "unat k" "unat (NumberOfPages ?d - k)"] w n
      by (simp add: 2 cut_desc_def PAGE_SIZE_def mult.commute)
    have "unat (NumberOfPages d) = unat (NumberOfPages ?d - k)" by (simp add: 2 cut_desc_def)
    then show ?thesis using e b n by (simp add: mod_add_eq [symmetric])
  qed
qed

definition boot_state :: "nat \<Rightarrow> uefi_bootstrapper \<Rightarrow> bool" where
  "boot_state M ub \<longleftrightarrow> ub_ok ub \<and> ub_descriptorIndex ub \<le> int (length (ub_map ub)) \<and> map_below M (ub_map ub)"

text \<open>What the bootstrap allocator leaves: a good state with no more free frames than before.\<close>

lemma boot_allocatePages_state:
  assumes "boot_state M ub" "boot_allocatePages ub n = (r, ub')"
  shows "boot_state M ub' \<and> (\<exists>ds. ub' = ub\<lparr>ub_map := ds\<rparr>) \<and> wf_or r"
proof -
  have ok: "ub_ok ub" using assms(1) by (simp add: boot_state_def)
  note S = boot_allocatePages_spec [OF ok assms(2)]
  have ok': "ub_ok ub'" by (rule boot.alloc_keeps [OF ok assms(2)])
  have wf: "wf_or r"
  proof -
    have "wf_or (fst (boot_alloc_loop ds c left i))" for ds c left i
      by (induction left arbitrary: i) (simp_all add: Let_def)
    then show ?thesis using assms(2) by (auto simp: boot_allocatePages_def Let_def split: prod.splits)
        (metis fst_conv)
  qed
  show ?thesis
  proof (cases "or_abs r")
    case (Inl e)
    then show ?thesis using S assms(1) wf by (auto intro!: exI [of _ "ub_map ub"])
  next
    case (Inr p)
    then obtain j where j: "j < length (ub_map ub)" "free_desc (ub_map ub ! j)"
      "ps_count p = min n (NumberOfPages (ub_map ub ! j))"
      "ub' = ub\<lparr>ub_map := (ub_map ub)[j := cut_desc (ub_map ub ! j) (ps_count p)]\<rparr>"
      using S by auto
    have "map_ok (ub_map ub)" using ok by (simp add: ub_ok_def)
    then have "map_below M (ub_map ub')"
      using map_below_cut [of M "ub_map ub" j "ps_count p"] assms(1) j by (simp add: boot_state_def)
    then show ?thesis using j(4) ok' assms(1) wf by (auto simp: boot_state_def)
  qed
qed

subsection \<open>Marking all ranges\<close>

definition range_pages :: "PageSet \<Rightarrow> nat set" where
  "range_pages p = {unat (ps_address p div kPageSize) ..< unat (ps_address p div kPageSize) + unat (ps_count p)}"

lemma mark_ranges_used:
  assumes "8 * length bm + 64 < 2 ^ 64"
    and "\<And>p. p \<in> set ps \<Longrightarrow> unat (ps_address p div kPageSize) + unat (ps_count p) \<le> 8 * length bm"
  shows "\<exists>bm' lowest'. fold_option mark_range (bm, lowest) ps = Some (bm', lowest') \<and> length bm' = length bm
    \<and> used_pages bm' = used_pages bm - \<Union> (range_pages ` set ps) \<and> lowest' \<le> lowest
    \<and> (\<forall>p \<in> set ps. lowest' \<le> ps_address p div kPageSize)"
  using assms
proof (induction ps arbitrary: bm lowest)
  case (Cons p ps)
  obtain bm1 where 1: "mark_range (bm, lowest) p = Some (bm1, min lowest (ps_address p div kPageSize))"
    "length bm1 = length bm"
    "used_pages bm1 = used_pages bm - {unat (ps_address p div kPageSize) ..< unat (ps_address p div kPageSize) + unat (ps_count p)}"
    using mark_range_used [OF refl refl, of p bm lowest] Cons.prems by auto
  obtain bm2 l2 where 2: "fold_option mark_range (bm1, min lowest (ps_address p div kPageSize)) ps = Some (bm2, l2)"
    "length bm2 = length bm1" "used_pages bm2 = used_pages bm1 - \<Union> (range_pages ` set ps)"
    "l2 \<le> min lowest (ps_address p div kPageSize)" "\<forall>p \<in> set ps. l2 \<le> ps_address p div kPageSize"
    using Cons.IH [of bm1 "min lowest (ps_address p div kPageSize)"] Cons.prems 1(2) by auto
  then show ?case using 1 by (auto simp: range_pages_def)
qed simp

text \<open>The bitmap has a bit for every page of memory.\<close>

lemma bitmap_covers:
  assumes "pagesNeeded = bitmap_pages memorySize"
  shows "unat memorySize div 4096 \<le> 8 * unat (pagesNeeded * kPageSize)"
    "8 * unat (pagesNeeded * kPageSize) + 64 < 2 ^ 64"
proof -
  let ?M = "unat memorySize" let ?T = "?M div 4096"
  have M: "?M < 2 ^ 64" using unsigned_less [where 'a = nat, of memorySize] by simp
  have T: "?T < 2 ^ 52" using M by (simp add: div_less_iff_less_mult)
  have t: "unat (memorySize div kPageSize) = ?T" by (simp add: kPageSize_def unat_div)
  have b: "unat (kBitsPerPage - 1) = 32767" "unat kBitsPerPage = 32768" by (simp_all add: kBitsPerPage_def kPageSize_def)
  have e: "memorySize div kPageSize + kBitsPerPage - 1 = memorySize div kPageSize + (kBitsPerPage - 1)"
    by (rule add_diff_eq [symmetric])
  have u: "unat (memorySize div kPageSize + (kBitsPerPage - 1)) = ?T + 32767"
    using T t b by (subst unat_add_small) simp_all
  have p: "unat pagesNeeded = (?T + 32767) div 32768"
    unfolding assms bitmap_pages_def Let_def e unat_div u b ..
  have "unat pagesNeeded < 2 ^ 38"
    unfolding p using T by (simp add: div_less_iff_less_mult)
  then have s: "unat (pagesNeeded * kPageSize) = 4096 * unat pagesNeeded"
    by (simp add: kPageSize_def unat_word_ariths)
  show "8 * unat (pagesNeeded * kPageSize) + 64 < 2 ^ 64"
    unfolding s using \<open>unat pagesNeeded < 2 ^ 38\<close> by simp
  have "?T \<le> 32768 * ((?T + 32767) div 32768)" by linarith
  then show "?T \<le> 8 * unat (pagesNeeded * kPageSize)" unfolding s p by simp
qed


subsection \<open>The bitmap's pages\<close>

lemma allocatePage_bitmapSize:
  "allocatePage s = Some (r, s') \<Longrightarrow> pa_bitmapSize s' = pa_bitmapSize s"
  by (auto simp: allocatePage_def allocatePages_def Let_def bind_Some_iff split: if_splits prod.splits)

lemma kmap_level_bitmapSize:
  "kmap_level rt allocatePage root v l (m, s) t = Some ((m', s'), r) \<Longrightarrow> pa_bitmapSize s' = pa_bitmapSize s"
  using allocatePage_bitmapSize
  by (auto simp: kmap_level_def Let_def bind_Some_iff split: if_splits prod.splits)

lemma kmap_levels_bitmapSize:
  "kmap_levels rt allocatePage root v n l (m, s) t = Some ((m', s'), r) \<Longrightarrow> pa_bitmapSize s' = pa_bitmapSize s"
proof (induction n arbitrary: l m s t)
  case (Suc n)
  obtain m1 s1 r1 where 1: "kmap_level rt allocatePage root v l (m, s) t = Some ((m1, s1), r1)"
    using Suc.prems by (auto split: option.splits)
  note e = kmap_level_bitmapSize [OF 1]
  show ?case
  proof (cases r1)
    case (Inl err)
    then show ?thesis using Suc.prems 1 e by simp
  next
    case (Inr tb)
    then show ?thesis using Suc.prems 1 e Suc.IH by simp
  qed
qed simp

lemma kernel_map_bitmapSize:
  assumes "kernel_map rt allocatePage root v p a (m, s) = Some ((m', s'), x)"
  shows "pa_bitmapSize s' = pa_bitmapSize s"
proof -
  obtain m1 s1 r1 where 1: "kmap_levels rt allocatePage root v (nat (PML4 - PT)) PML4 (m, s) (rt_pml4 rt) = Some ((m1, s1), r1)"
    using assms by (auto simp: kernel_map_def split: option.splits)
  then have "s' = s1" using assms by (cases r1) (auto simp: kernel_map_def bind_Some_iff)
  then show ?thesis using kmap_levels_bitmapSize [OF 1] by simp
qed

lemma kernel_map_pages_bitmapSize:
  "kernel_map_pages rt allocatePage root n v p a (m, s) = Some ((m', s'), x) \<Longrightarrow> pa_bitmapSize s' = pa_bitmapSize s"
proof (induction n arbitrary: v p m s)
  case (Suc n)
  obtain m1 s1 st where 1: "kernel_map rt allocatePage root v p a (m, s) = Some ((m1, s1), st)"
    using Suc.prems by (auto simp: bind_Some_iff)
  show ?case
    using Suc.prems Suc.IH kernel_map_bitmapSize [OF 1] 1 by (auto split: if_splits)
qed simp

lemma keep_refl [simp]: "\<exists>ds. ub = ub\<lparr>ub_map := ds\<rparr>"
  by (rule exI [of _ "ub_map ub"]) simp

definition chunks_keep :: "nat \<Rightarrow> uefi_bootstrapper \<Rightarrow> phys_alloc \<Rightarrow> bool \<times> mem \<times> phys_alloc \<times> uefi_bootstrapper \<Rightarrow> bool" where
  "chunks_keep M ub pa r \<longleftrightarrow> (case r of (mapped, m', pa', ub') \<Rightarrow>
     boot_state M ub' \<and> (\<exists>ds. ub' = ub\<lparr>ub_map := ds\<rparr>) \<and> pa_bitmapSize pa' = pa_bitmapSize pa)"

lemma init_chunks_state:
  assumes "init_chunks rt root cur need m pa ub = Some r" "boot_state M ub"
  shows "chunks_keep M ub pa r"
  using assms
proof (induction rule: init_chunks.raw_induct [rotated 1, consumes 1, case_names step])
  case (step init_chunks rt root cur need m pa ub r)
  note 1 = step
  obtain res ub1 where b: "boot_allocatePages ub need = (res, ub1)" by fastforce
  note st = boot_allocatePages_state [OF 1(3) b]
  show ?case
  proof (cases "need = 0 \<or> \<not> ok_or res")
    case True
    then show ?thesis using 1(2,3) b st by (auto simp: chunks_keep_def split: if_splits)
  next
    case False
    then obtain ps where ps: "read_item res = Some ps" using 1(2) b by (auto split: option.splits)
    obtain m1 pa1 status where km: "kernel_map_pages rt allocatePage root (unat (ps_count ps)) cur
                (ps_address ps) (Present OR RW) (m, pa) = Some ((m1, pa1), status)"
      using 1(2) b False ps by (auto split: option.splits)
    note sz = kernel_map_pages_bitmapSize [OF km]
    show ?thesis
    proof (cases "status = Ok")
      case f: False
      then have "r = (False, m1, pa1\<lparr>pa_status := status\<rparr>, ub1)"
        using 1(2) b False ps km by (simp add: Let_def)
      then show ?thesis using st sz by (simp add: chunks_keep_def)
    next
      case True
      then obtain m2 where m2: "vmemset m1 root cur 255 (unat kPageSize) = Some m2"
        using 1(2) b False ps km by (auto simp: Let_def split: option.splits)
      have rec: "init_chunks rt root (cur + ps_count ps * kPageSize) (need - ps_count ps) m2
          (pa1\<lparr>pa_status := Ok\<rparr>) ub1 = Some r"
        using 1(2) b False ps km True m2 by (simp add: Let_def)
      have "chunks_keep M ub1 (pa1\<lparr>pa_status := Ok\<rparr>) r"
        using 1(1) [OF rec] st by blast
      then show ?thesis using st sz by (cases r) (auto simp: chunks_keep_def)
    qed
  qed
qed

text \<open>The marking after the chunks, for any bitmap of the size that \<open>init\<close> gives it.\<close>

lemma range_fits:
  assumes "map_below (unat M) (ub_map ub)" "p \<in> set (ranges_left ub)"
  shows "unat (ps_address p div kPageSize) + unat (ps_count p) \<le> unat M div 4096"
    "unat (ps_address p) mod 4096 = 0"
proof -
  obtain d where d: "d \<in> set (ub_map ub)" "free_desc d" "p = range_of d"
    using assms(2) by (auto simp: ranges_left_def dest: in_set_dropD)
  then have b: "unat (PhysicalStart d) mod 4096 = 0"
    "unat (PhysicalStart d) + 4096 * unat (NumberOfPages d) \<le> unat M"
    using assms(1) by (simp_all add: map_below_def free_desc_def)
  have "(unat (PhysicalStart d) + 4096 * unat (NumberOfPages d)) div 4096 \<le> unat M div 4096"
    by (rule div_le_mono [OF b(2)])
  then show "unat (ps_address p div kPageSize) + unat (ps_count p) \<le> unat M div 4096"
    unfolding d(3) by (simp add: range_of_def kPageSize_def unat_div)
  show "unat (ps_address p) mod 4096 = 0" using b(1) d(3) by (simp add: range_of_def)
qed

lemma those_length: "those xs = Some ys \<Longrightarrow> length ys = length xs"
proof (induction xs arbitrary: ys)
  case (Cons x xs)
  then show ?case by (auto split: option.splits)
qed simp

lemma vaddrs_length: "vaddrs m root v n = Some as \<Longrightarrow> length as = n"
  unfolding vaddrs_def using those_length by fastforce

lemma init_marks:
  assumes st: "boot_state (unat (ub_memSize ub)) ub"
    and resv: "reserveVirtualMemory ub (bitmap_pages (ub_memSize ub)) = (StatusOr_item start, ub0)"
    and chunks: "init_chunks rt root start (bitmap_pages (ub_memSize ub)) m
      (pa\<lparr>pa_bitmapSize := bitmap_pages (ub_memSize ub) * kPageSize\<rparr>) ub0 = Some (True, m1, pa1, ub1)"
    and bytes: "vaddrs m1 root start (unat (bitmap_pages (ub_memSize ub) * kPageSize)) = Some as"
  shows "\<exists>pa' ub'. init rt root m pa ub = Some (store_bytes as (pa_bitmap pa') m1, pa', ub') \<and> pa_status pa' = Ok
    \<and> length (pa_bitmap pa') = length as
    \<and> used_pages (pa_bitmap pa') = used_pages (map m1 as) - \<Union> (range_pages ` set (ranges_left ub1))
    \<and> (\<forall>p \<in> set (ranges_left ub1). range_pages p \<subseteq> {..< 8 * length as} \<and> pa_lowestFreePage pa' \<le> ps_address p div kPageSize)
    \<and> bitmap_ok (pa_bitmapSize pa') (pa_bitmap pa')"
proof -
  let ?n = "bitmap_pages (ub_memSize ub)"
  have ub0: "boot_state (unat (ub_memSize ub)) ub0" "ub_memSize ub0 = ub_memSize ub"
  proof -
    have "ub_map ub0 = ub_map ub \<and> ub_descriptorCount ub0 = ub_descriptorCount ub
        \<and> ub_descriptorIndex ub0 = ub_descriptorIndex ub \<and> ub_memSize ub0 = ub_memSize ub"
      using resv by (auto simp: reserveVirtualMemory_def Let_def split: if_splits)
    then show "boot_state (unat (ub_memSize ub)) ub0" "ub_memSize ub0 = ub_memSize ub"
      using st unfolding boot_state_def ub_ok_def by metis+
  qed
  have k: "boot_state (unat (ub_memSize ub)) ub1" "pa_bitmapSize pa1 = ?n * kPageSize"
    using init_chunks_state [OF chunks ub0(1)] by (simp_all add: chunks_keep_def)
  have len: "length as = unat (?n * kPageSize)" by (rule vaddrs_length [OF bytes])
  note cov = bitmap_covers [OF refl, of "ub_memSize ub"]
  have fits: "unat (ps_address p div kPageSize) + unat (ps_count p) \<le> 8 * length (map m1 as)"
    if "p \<in> set (ranges_left ub1)" for p
    using range_fits(1) [OF _ that, of "ub_memSize ub"] k(1) cov(1) len by (simp add: boot_state_def)
  obtain bm' lowest' where mk: "fold_option mark_range (map m1 as, pa_lowestFreePage pa1) (ranges_left ub1) = Some (bm', lowest')"
    "length bm' = length (map m1 as)"
    "used_pages bm' = used_pages (map m1 as) - \<Union> (range_pages ` set (ranges_left ub1))"
    "\<forall>p \<in> set (ranges_left ub1). lowest' \<le> ps_address p div kPageSize"
    using mark_ranges_used [of "map m1 as" "ranges_left ub1" "pa_lowestFreePage pa1"] fits cov(2) len by auto
  obtain ub' where l: "for_free_ranges mark_range (map m1 as, pa_lowestFreePage pa1) ub1 = Some ((bm', lowest'), ub')"
    using for_free_ranges_spec [OF _ _ mk(1)] k(1) by (auto simp: boot_state_def)
  have "init rt root m pa ub
      = Some (store_bytes as bm' m1, pa1\<lparr>pa_bitmap := bm', pa_lowestFreePage := lowest', pa_status := Ok\<rparr>, ub')"
    using resv chunks bytes l k(2) by (simp add: init_def Let_def)
  moreover have "range_pages p \<subseteq> {..< 8 * length as}" if "p \<in> set (ranges_left ub1)" for p
    using fits [OF that] by (auto simp: range_pages_def)
  moreover have "bitmap_ok (?n * kPageSize) bm'" using mk(2) len cov(2) by (simp add: bitmap_ok_def)
  ultimately show ?thesis using mk k(2) by auto
qed


subsection \<open>A bitmap of one page\<close>

text \<open>Mapping an address whose tables exist needs no allocator, if \<open>map\<close> looks at the right entries.\<close>

lemma kernel_map_present:
  assumes kt: "kernel_tables rt" and inv: "pt_inv m root T" and v: "PT_L4_IDX v \<noteq> 511"
    and low: "low_part v 2 = 0" "low_part v 3 = 0"
    and t: "table_at m root (path_of v) = Some t"
  shows "kernel_map rt alloc root v p attrs (m, s)
    = Some ((write64 m (slot_addr t (PT_L1_IDX v)) (PageEntry_make p attrs), s), Ok)"
proof -
  obtain t3 t2 where l: "next_table m root (PT_L4_IDX v) = Some t3" "next_table m t3 (PT_L3_IDX v) = Some t2"
    "next_table m t2 (PT_L2_IDX v) = Some t"
    using t by (auto simp: path_of_def split: option.splits)
  have i: "PT_L4_IDX v < 512" "PT_L3_IDX v < 512" "PT_L2_IDX v < 512"
    using PT_IDX_less [of v 4] PT_IDX_less [of v 3] PT_IDX_less [of v 2] by (simp_all add: PT_IDX_levels)
  have A4: "PT_L4_BASE + 8 * entryIndex v 4 = PT_PAGE_BASE (PT_ENTRY (entry_at v 3)) + 8 * PT_L4_IDX v"
    using pml4_address [of v] by (simp add: numeral_eq_Suc entry_index_levels [simplified numeral_eq_Suc])
  have s: "tableAddress tables_base v 2 = PT_PAGE_BASE (entry_at v 2)" "tableAddress tables_base v 3 = PT_PAGE_BASE (entry_at v 3)"
    using table_address_good [OF low(1)] table_address_good [OF low(2)] by simp_all
  have A3: "tableAddress tables_base v (4 - 1) + 8 * entryIndex v 3 = PT_PAGE_BASE (PT_ENTRY (entry_at v 2)) + 8 * PT_L3_IDX v"
    using s(2) by (simp add: entry_index_levels numeral_3_eq_3 numeral_2_eq_2)
  have A2: "tableAddress tables_base v (3 - 1) + 8 * entryIndex v 2 = PT_PAGE_BASE (PT_ENTRY (entry_at v 1)) + 8 * PT_L2_IDX v"
    using s(1) by (simp add: entry_index_levels numeral_2_eq_2)
  have r4: "kmap_level rt alloc root v 4 (m, s) PT_L4_BASE = Some ((m, s), Inr (tableAddress tables_base v (4 - 1)))"
    by (rule kmap_level_present [OF kt inv entry_paths(5) _ A4 i(1), of root]) (simp_all add: l)
  have r3: "kmap_level rt alloc root v 3 (m, s) (tableAddress tables_base v (4 - 1))
      = Some ((m, s), Inr (tableAddress tables_base v (3 - 1)))"
    by (rule kmap_level_present [OF kt inv entry_paths(3) _ A3 i(2), of t3]) (simp_all add: l)
  have r2: "kmap_level rt alloc root v 2 (m, s) (tableAddress tables_base v (3 - 1))
      = Some ((m, s), Inr (tableAddress tables_base v (2 - 1)))"
    by (rule kmap_level_present [OF kt inv entry_paths(1) _ A2 i(3), of t2]) (simp_all add: l)
  have lv: "kmap_levels rt alloc root v 3 4 (m, s) PT_L4_BASE = Some ((m, s), Inr (tableAddress tables_base v (2 - 1)))"
    using r4 r3 r2 by (simp add: numeral_3_eq_3 level_postdec_def level_sub_def)
  have ts: "rt_tablesStart rt = 0xFFFFFF8000000000" using kt by (simp add: kernel_tables_def tables_base_def)
  have "mapNoTables rt m root v p attrs = Some (write64 m (slot_addr t (PT_L1_IDX v)) (PageEntry_make p attrs))"
    using vwrite64_entry [OF inv, of v 0 "path_of v"] t
    by (simp add: mapNoTables_def ts PT_ENTRY_entryAddr [symmetric])
  then show ?thesis using lv kt by (simp add: kernel_map_def kernel_tables_def PML4_def PT_def)
qed

text \<open>The page behind the mapped address stays the same while its bytes are written.\<close>

lemma mapped_page_stable:
  assumes inv: "pt_inv m root T" and v: "PT_L4_IDX v \<noteq> 511" and t: "table_at m root (path_of v) = Some t"
    and p: "frame_addr p" "p \<notin> T" and base: "PT_PAGE_BASE v = v"
    and m': "\<And>x. PT_PAGE_BASE x \<noteq> p \<Longrightarrow>
      m' x = write64 m (slot_addr t (PT_L1_IDX v)) (PageEntry_make p (Present OR RW)) x"
  shows "translate m' root v = Some p"
proof -
  let ?m1 = "write64 m (slot_addr t (PT_L1_IDX v)) (PageEntry_make p (Present OR RW))"
  have inv1: "pt_inv ?m1 root T"
    by (rule leaf_write_inv [OF inv tree_path_of [OF v] _ t PT_L1_IDX_less]) (simp add: path_of_def)
  have e: "PageEntry_make p (Present OR RW) = p OR (Present OR RW)" by (rule PageEntry_make_table [OF p(1)])
  have "walk ?m1 root v = Some (p OR (Present OR RW))"
    using leaf_write_walk [OF inv v v t, of "p OR (Present OR RW)"] frame_link_entry [OF p(1)] e by simp
  moreover have "walk m' root v = walk ?m1 root v"
  proof (rule walk_mem_cong [OF inv1 _ v])
    fix x assume "PT_PAGE_BASE x \<in> T"
    then have "PT_PAGE_BASE x \<noteq> p" using p(2) by auto
    then show "m' x = ?m1 x" by (rule m')
  qed
  ultimately show ?thesis
    using frame_link_entry [OF p(1)] offset_mask(2) [OF base, of 0] by (simp add: translate_def)
qed

text \<open>In the first 256 KiB of a 512 GiB region no bits leak into the addresses of the tables.\<close>

lemma near_base:
  assumes "v AND 0x7FFFFC0FFF = 0"
  shows "low_part v 2 = 0" "low_part v 3 = 0" "PT_PAGE_BASE v = v"
proof -
  have m: "(0x7FFFFC0FFF :: u64) = push_bit 18 (mask 21) OR mask 12"
    by (simp add: mask_eq_exp_minus_1 push_bit_eq_mult)
  have b: "\<not> bit v n" if "n < 12 \<or> 18 \<le> n \<and> n < 39" for n
  proof
    assume "bit v n"
    then have "bit (v AND 0x7FFFFC0FFF) n"
      using that unfolding m bit_and_iff bit_or_iff bit_push_bit_iff bit_mask_iff by auto
    then show False using assms by simp
  qed
  show "low_part v 2 = 0" "low_part v 3 = 0"
    unfolding low_part_def by (intro bit_eqI; auto simp: bit_take_bit_iff bit_drop_bit_eq b)+
  show "PT_PAGE_BASE v = v"
    by (rule bit_eqI) (use b in \<open>auto simp: bit_PT_PAGE_BASE not_less [symmetric]\<close>)
qed

text \<open>Bytes stored at distinct addresses.\<close>

lemma store_bytes_other: "x \<notin> set as \<Longrightarrow> store_bytes as bs m x = m x"
proof (induction as arbitrary: bs m)
  case (Cons a as)
  then show ?case by (cases bs) (simp_all add: store_bytes_def)
qed (simp add: store_bytes_def)

lemma store_bytes_read: "distinct as \<Longrightarrow> length bs = length as \<Longrightarrow> map (store_bytes as bs m) as = bs"
proof (induction as arbitrary: bs m)
  case (Cons a as)
  obtain b bs' where b: "bs = b # bs'" using Cons.prems(2) by (cases bs) simp_all
  define m1 where "m1 = m(a := b)"
  have s: "store_bytes (a # as) bs m = store_bytes as bs' m1" by (simp add: store_bytes_def b m1_def)
  have "store_bytes as bs' m1 a = b" using store_bytes_other [of a as bs' m1] Cons.prems(1) by (simp add: m1_def)
  then show ?case unfolding s using Cons.IH [of bs' m1] Cons.prems b by simp
qed simp

text \<open>The memory of a bitmap of one page after the chunks: all ones; what is stored in the page does not move it.\<close>

lemma init_chunks_one:
  assumes kt: "kernel_tables rt" and inv: "pt_inv m root T" and v: "PT_L4_IDX v \<noteq> 511" "v AND 0x7FFFFC0FFF = 0"
    and t: "table_at m root (path_of v) = Some t" and p: "frame_addr p" "p \<notin> T"
    and b: "boot_allocatePages ub 1 = (StatusOr_item ps, ub')" "ps_address ps = p" "ps_count ps = 1"
  shows "\<exists>m'. init_chunks rt root v 1 m pa ub = Some (True, m', pa\<lparr>pa_status := Ok\<rparr>, ub')
    \<and> (\<exists>as. map m' as = replicate 4096 0xFF \<and> distinct as
          \<and> (\<forall>m''. (\<forall>x. x \<notin> set as \<longrightarrow> m'' x = m' x) \<longrightarrow> vaddrs m'' root v 4096 = Some as))"
proof -
  let ?m1 = "write64 m (slot_addr t (PT_L1_IDX v)) (PageEntry_make p (Present OR RW))"
  let ?m2 = "memset_loop ?m1 p 0xFF 4096"
  note base = near_base(3) [OF v(2)]
  note stable = mapped_page_stable [OF inv v(1) t p base]
  have map1: "kernel_map_pages rt allocatePage root 1 v p (Present OR RW) (m, pa) = Some ((?m1, pa), Ok)"
    unfolding One_nat_def kernel_map_pages.simps
    using kernel_map_present [OF kt inv v(1) near_base(1,2) [OF v(2)] t, where alloc = allocatePage and p = p and attrs = "Present OR RW" and s = pa]
    by simp
  have set1: "vmemset ?m1 root v 0xFF 4096 = Some ?m2"
  proof -
    have "vmemset ?m1 root (v + 0) 0xFF 4096 = Some (memset_loop ?m1 (p + 0) 0xFF 4096)"
      by (rule vmemset_page [OF base _ stable p(1)]) simp_all
    then show ?thesis by simp
  qed
  have agree: "?m2 x = ?m1 x" if "PT_PAGE_BASE x \<noteq> p" for x
    using that frame_block [OF frame_addr_base [OF p(1)], of x] by (simp add: memset_loop_at)
  let ?as = "map (\<lambda>i. p + of_nat i) [0..<4096]"
  have page: "x \<in> set ?as \<Longrightarrow> PT_PAGE_BASE x = p" for x
    using frame_block [OF frame_addr_base [OF p(1)], of x] in_block_iff [of 4096 p x] by auto
  have addr: "vaddrs m'' root v 4096 = Some ?as" if "\<forall>x. x \<notin> set ?as \<longrightarrow> m'' x = ?m2 x" for m''
  proof -
    have "m'' x = ?m1 x" if "PT_PAGE_BASE x \<noteq> p" for x
      using that page [of x] agree [OF that] \<open>\<forall>x. x \<notin> set ?as \<longrightarrow> m'' x = ?m2 x\<close> by metis
    then have "vaddrs m'' root (v + 0) 4096 = Some (map (\<lambda>i. p + 0 + of_nat i) [0..<4096])"
      by (intro vaddrs_page [OF base stable]) simp_all
    then show ?thesis by simp
  qed
  have dist: "distinct ?as"
  proof -
    have "i = j" if "i < 4096" "j < 4096" "p + of_nat i = p + of_nat j" for i j :: nat
    proof -
      have "unat (of_nat i :: u64) = unat (of_nat j :: u64)" using that(3) by simp
      then show ?thesis using that(1,2) by (simp add: unat_of_nat_small)
    qed
    then show ?thesis by (auto simp: distinct_map inj_on_def)
  qed
  have "map ?m2 (map (\<lambda>i. p + of_nat i) [0..<4096]) = replicate 4096 0xFF"
  proof (rule nth_equalityI)
    fix i assume "i < length (map ?m2 (map (\<lambda>i. p + of_nat i) [0..<4096]))"
    then have i: "i < 4096" by simp
    then have "in_block p 4096 (p + of_nat i)" using in_block_iff [of 4096 p "p + of_nat i"] by auto
    then have "?m2 (p + of_nat i) = 0xFF" by (simp add: memset_loop_at)
    then show "map ?m2 (map (\<lambda>i. p + of_nat i) [0..<4096]) ! i = replicate 4096 0xFF ! i" using i by simp
  qed simp
  moreover have "init_chunks rt root v 1 m pa ub = Some (True, ?m2, pa\<lparr>pa_status := Ok\<rparr>, ub')"
    using b map1 set1
    by (subst init_chunks.simps, simp add: Let_def kPageSize_def) (simp add: init_chunks.simps)
  ultimately show ?thesis using dist addr by (intro exI [of _ ?m2] conjI exI [of _ ?as]) blast+
qed

text \<open>A table that is missing when the bitmap is mapped: the page tables ask the allocator that is
  being started.\<close>

lemma kmap_level_no_allocator:
  assumes inv: "pt_inv m root T" and path: "path_of e = replicate k 511 @ is" and t: "table_at m root is = Some t"
    and tab: "table + 8 * entryIndex v level = PT_PAGE_BASE (PT_ENTRY e) + 8 * j" "j < 512"
    and none: "next_table m t j = None" and s: "pa_status s \<noteq> Ok"
  shows "kmap_level rt allocatePage root v level (m, s) table = Some ((m, s), Inl InitializationError)"
proof -
  have idx: "entryIndex v level < 512" unfolding entryIndex_PT_IDX by (rule PT_IDX_less)
  have "getEntry table (entryIndex v level) = StatusOr_item (PT_PAGE_BASE (PT_ENTRY e) + 8 * j)"
    using getEntry_ok [OF idx] tab(1) by simp
  moreover have "vread64 m root (PT_PAGE_BASE (PT_ENTRY e) + 8 * j) = Some (read64 m (slot_addr t j))"
    by (rule vread64_slot [OF inv path t tab(2)])
  moreover have "\<not> present (read64 m (slot_addr t j))" using none next_table_present by simp
  moreover have "allocatePage s = Some (StatusOr_status InitializationError, s)"
  proof -
    have "read_status (StatusOr_status InitializationError :: PageSet StatusOr) = Some InitializationError"
      by (simp add: read_status_def StatusOr_status_def)
    then show ?thesis using s by (simp add: allocatePage_def allocatePages_def map_or_def read_item_simps)
  qed
  ultimately show ?thesis by (simp add: kmap_level_def Let_def read_item_simps)
qed

lemma pml4_slot: "PT_L4_BASE + 8 * entryIndex v 4 = PT_PAGE_BASE (PT_ENTRY (entry_at v 3)) + 8 * PT_L4_IDX v"
  using pml4_address [of v] by (simp add: numeral_eq_Suc entry_index_levels [simplified numeral_eq_Suc])

lemma PT_IDX_bounds: "PT_L4_IDX v < 512" "PT_L3_IDX v < 512" "PT_L2_IDX v < 512"
  using PT_IDX_less [of v 4] PT_IDX_less [of v 3] PT_IDX_less [of v 2] by (simp_all add: PT_IDX_levels)

text \<open>When \<open>map\<close> is refused a table for the first page of the bitmap, \<open>init\<close> is over.\<close>

lemma init_refused:
  assumes kt: "kernel_tables rt"
    and lv: "\<And>pa. pa_status pa \<noteq> Ok \<Longrightarrow>
      kmap_levels rt allocatePage root start 3 4 (m, pa) PT_L4_BASE = Some ((m, pa), Inl InitializationError)"
    and s: "pa_status pa \<noteq> Ok" and need: "bitmap_pages (ub_memSize ub) \<noteq> 0"
    and resv: "reserveVirtualMemory ub (bitmap_pages (ub_memSize ub)) = (StatusOr_item start, ub0)"
    and b: "boot_allocatePages ub0 (bitmap_pages (ub_memSize ub)) = (StatusOr_item ps, ub1)" "ps_count ps \<noteq> 0"
  shows "init rt root m pa ub
    = Some (m, pa\<lparr>pa_bitmapSize := bitmap_pages (ub_memSize ub) * kPageSize, pa_status := InitializationError\<rparr>, ub1)"
proof -
  let ?pa = "pa\<lparr>pa_bitmapSize := bitmap_pages (ub_memSize ub) * kPageSize\<rparr>"
  have km: "kernel_map rt allocatePage root start (ps_address ps) (Present OR RW) (m, ?pa)
      = Some ((m, ?pa), InitializationError)"
    using lv [of ?pa] kt s by (simp add: kernel_map_def kernel_tables_def PML4_def PT_def)
  obtain n where n: "unat (ps_count ps) = Suc n" using b(2) by (metis not0_implies_Suc unat_eq_zero)
  have "kernel_map_pages rt allocatePage root (unat (ps_count ps)) start (ps_address ps) (Present OR RW) (m, ?pa)
      = Some ((m, ?pa), InitializationError)"
    unfolding n kernel_map_pages.simps km by simp
  then have "init_chunks rt root start (bitmap_pages (ub_memSize ub)) m ?pa ub0
      = Some (False, m, ?pa\<lparr>pa_status := InitializationError\<rparr>, ub1)"
    using b need by (subst init_chunks.simps) (simp add: Let_def read_item_simps)
  then show ?thesis using resv by (simp add: init_def Let_def read_item_simps)
qed

lemma init_uninitialised:
  assumes kt: "kernel_tables rt" and inv: "pt_inv m root T"
    and none: "next_table m root (PT_L4_IDX start) = None" and s: "pa_status pa \<noteq> Ok"
    and need: "bitmap_pages (ub_memSize ub) \<noteq> 0"
    and resv: "reserveVirtualMemory ub (bitmap_pages (ub_memSize ub)) = (StatusOr_item start, ub0)"
    and b: "boot_allocatePages ub0 (bitmap_pages (ub_memSize ub)) = (StatusOr_item ps, ub1)" "ps_count ps \<noteq> 0"
  shows "init rt root m pa ub
    = Some (m, pa\<lparr>pa_bitmapSize := bitmap_pages (ub_memSize ub) * kPageSize, pa_status := InitializationError\<rparr>, ub1)"
proof (rule init_refused [OF kt _ s need resv b])
  fix pa :: phys_alloc
  assume "pa_status pa \<noteq> Ok"
  then have "kmap_level rt allocatePage root start 4 (m, pa) PT_L4_BASE = Some ((m, pa), Inl InitializationError)"
    by (intro kmap_level_no_allocator [OF inv entry_paths(5) _ pml4_slot PT_IDX_bounds(1), of root]) (simp_all add: none)
  then show "kmap_levels rt allocatePage root start 3 4 (m, pa) PT_L4_BASE = Some ((m, pa), Inl InitializationError)"
    by (simp add: numeral_3_eq_3)
qed

text \<open>The free pages left over do not include those the bootstrap allocator has handed out.\<close>

lemma unat_page_size: "unat (0x1000 :: u64) = 4096"
  by simp

lemma free_range_pages:
  assumes st: "boot_state M ub" and p: "frame_addr p" "p \<notin> free_frames (ub_map ub)"
    and r: "r \<in> set (ranges_left ub)"
  shows "unat (p div kPageSize) \<notin> range_pages r"
proof
  assume "unat (p div kPageSize) \<in> range_pages r"
  obtain d where d: "d \<in> set (ub_map ub)" "free_desc d" "r = range_of d"
    using r by (auto simp: ranges_left_def dest: in_set_dropD)
  then obtain j where j: "j < length (ub_map ub)" "d = ub_map ub ! j" by (auto simp: in_set_conv_nth)
  have f: "isFreeMem (Type d)" using d(2) by (simp add: free_desc_def)
  have w: "no_wrap (PhysicalStart d) (unat (NumberOfPages d))"
    using st j f by (simp add: boot_state_def ub_ok_def map_ok_def)
  have al: "unat (PhysicalStart d) mod 4096 = 0" using st d(1) f by (simp add: boot_state_def map_below_def)
  have pal: "unat p mod 4096 = 0"
  proof -
    have "p mod 4096 = take_bit 12 p" by (simp add: take_bit_eq_mod)
    also have "\<dots> = 0" using p(1) by (intro bit_eqI) (auto simp: bit_take_bit_iff frame_addr_bit)
    finally have "unat (p mod 4096) = 0" by simp
    then show ?thesis by (simp add: unat_mod)
  qed
  have in_range: "unat (PhysicalStart d) div 4096 \<le> unat p div 4096"
    "unat p div 4096 < unat (PhysicalStart d) div 4096 + unat (NumberOfPages d)"
    using \<open>unat (p div kPageSize) \<in> range_pages r\<close>
    by (simp_all only: range_pages_def d(3) range_of_def PageSet.simps kPageSize_def unat_div atLeastLessThan_iff)
      (simp_all only: unat_page_size)
  obtain i where i: "unat p div 4096 = unat (PhysicalStart d) div 4096 + i"
    using le_Suc_ex [OF in_range(1)] by blast
  then have less: "i < unat (NumberOfPages d)" using in_range(2) by linarith
  have q: "x = 4096 * (x div 4096)" if "x mod 4096 = 0" for x :: nat using mult_div_mod_eq [of 4096 x] that by simp
  have "unat p = 4096 * (unat (PhysicalStart d) div 4096 + i)" using q [OF pal] i by simp
  then have "unat p = unat (PhysicalStart d) + 4096 * i" using q [OF al] by simp
  then have "unat p = unat (PhysicalStart d + 4096 * of_nat i)" unfolding unat_page_in_span [OF w less] .
  then have "p = PhysicalStart d + 4096 * of_nat i" by (rule word_unat_eq_iff [THEN iffD2])
  then have "p \<in> desc_span d" using less f by (auto simp: desc_span_def page_span_def)
  then show False using p(2) j by (auto simp: free_frames_def)
qed

lemma boot_allocatePages_one:
  assumes "ub_ok ub" "boot_allocatePages ub 1 = (StatusOr_item ps, ub')"
  shows "ps_count ps = 1"
proof -
  obtain j where "free_desc (ub_map ub ! j)" "ps_count ps = min 1 (NumberOfPages (ub_map ub ! j))"
    using boot_allocatePages_spec [OF assms] by auto
  moreover have "1 \<le> x" if "0 < x" for x :: u64 using that inc_le [of 0 x] by simp
  ultimately show ?thesis by (simp add: free_desc_def min_def)
qed

lemma used_pages_full: "used_pages (replicate 4096 0xFF) = {..<32768}"
proof -
  have "bit (0xFF :: u8) i" if "i < 8" for i
  proof -
    have "(0xFF :: u8) = mask 8" by (simp add: mask_eq_exp_minus_1)
    then show ?thesis using that by (simp only: bit_mask_iff) simp
  qed
  then show ?thesis by (auto simp: used_pages_def)
qed

subsection \<open>Properties\<close>

text \<open>C20: starting the page allocator on memory whose bitmap fits one page, when the place reserved for the
  bitmap is page aligned and in the first 256 KiB of a 512 GiB region (bits 0 to 11 and 18 to 38 of its
  address are 0), outside the self map, its page tables exist, and the frame for it is not one of theirs:
  \<open>init\<close> ends with status \<open>Ok\<close> and the bitmap is in memory at that place; the pages in use are then exactly all of the 32768 pages of the bitmap
  except the free ranges that the bootstrap allocator has left, and the frame of the bitmap itself is in
  use.  The place is \<open>memory_end\<close>, in the region of the kernel's base \<open>0xFFFFFF0000000000\<close>; when the loader has
  mapped more than 256 KiB there, \<open>map\<close> reads other entries, see \<open>init_misreads_tables\<close>.\<close>

theorem init_small_memory_correct:
  assumes st: "boot_state (unat (ub_memSize ub)) ub" and one: "bitmap_pages (ub_memSize ub) = 1"
    and resv: "reserveVirtualMemory ub 1 = (StatusOr_item start, ub0)"
    and v: "PT_L4_IDX start \<noteq> 511" "start AND 0x7FFFFC0FFF = 0"
    and tables: "kernel_tables rt" "pt_inv m root T" "table_at m root (path_of start) = Some t"
    and b: "boot_allocatePages ub0 1 = (StatusOr_item ps, ub1)"
    and p: "frame_addr (ps_address ps)" "ps_address ps \<notin> T"
  shows "\<exists>m' pa' ub'. init rt root m pa ub = Some (m', pa', ub') \<and> pa_status pa' = Ok
    \<and> bitmap_ok (pa_bitmapSize pa') (pa_bitmap pa') \<and> length (pa_bitmap pa') = 4096
    \<and> (\<exists>as. vaddrs m' root start 4096 = Some as \<and> map m' as = pa_bitmap pa')
    \<and> used_pages (pa_bitmap pa') = {..<32768} - \<Union> (range_pages ` set (ranges_left ub1))
    \<and> unat (ps_address ps div kPageSize) \<notin> \<Union> (range_pages ` set (ranges_left ub1))"
proof -
  let ?pa = "pa\<lparr>pa_bitmapSize := 1 * kPageSize\<rparr>"
  have keep: "ub_map ub0 = ub_map ub" "ub_descriptorCount ub0 = ub_descriptorCount ub"
      "ub_descriptorIndex ub0 = ub_descriptorIndex ub"
    using resv by (auto simp: reserveVirtualMemory_def Let_def split: if_splits)
  have st0: "boot_state (unat (ub_memSize ub)) ub0" using st unfolding boot_state_def ub_ok_def keep .
  have ok0: "ub_ok ub0" using st0 by (simp add: boot_state_def)
  have taken: "set_pages ps \<subseteq> free_frames (ub_map ub0)" "free_frames (ub_map ub1) = free_frames (ub_map ub0) - set_pages ps"
    using boot.alloc_item [OF ok0 b] by simp_all
  have cnt: "ps_count ps = 1" using boot_allocatePages_one [OF ok0 b] .
  have st1: "boot_state (unat (ub_memSize ub)) ub1" using boot_allocatePages_state [OF st0 b] by simp
  obtain m1 as where c: "init_chunks rt root start 1 m ?pa ub0 = Some (True, m1, ?pa\<lparr>pa_status := Ok\<rparr>, ub1)"
    and c2: "map m1 as = replicate 4096 0xFF" "distinct as"
    and keep_as: "\<And>m''. (\<forall>x. x \<notin> set as \<longrightarrow> m'' x = m1 x) \<Longrightarrow> vaddrs m'' root start 4096 = Some as"
    using init_chunks_one [OF tables(1,2) v tables(3) p b refl cnt] by blast
  have at: "vaddrs m1 root start 4096 = Some as" by (rule keep_as) simp
  have bytes: "vaddrs m1 root start (unat (1 * kPageSize)) = Some as" using at by (simp add: kPageSize_def)
  have len: "length as = 4096" by (rule vaddrs_length [OF at])
  have all: "used_pages (replicate 4096 0xFF) = {..<32768}" by (rule used_pages_full)
  obtain pa' ub' where r: "init rt root m pa ub = Some (store_bytes as (pa_bitmap pa') m1, pa', ub')" "pa_status pa' = Ok"
    "length (pa_bitmap pa') = length as" "bitmap_ok (pa_bitmapSize pa') (pa_bitmap pa')"
    "used_pages (pa_bitmap pa') = used_pages (map m1 as) - \<Union> (range_pages ` set (ranges_left ub1))"
    using init_marks [OF st resv [folded one] c [folded one] bytes [folded one]] by blast
  have "vaddrs (store_bytes as (pa_bitmap pa') m1) root start 4096 = Some as"
    by (rule keep_as) (simp add: store_bytes_other)
  moreover have "map (store_bytes as (pa_bitmap pa') m1) as = pa_bitmap pa'"
    by (rule store_bytes_read [OF c2(2) r(3)])
  moreover have "ps_address ps \<notin> free_frames (ub_map ub1)"
    unfolding taken(2) set_pages_def cnt by (simp add: page_span_def)
  then have "unat (ps_address ps div kPageSize) \<notin> range_pages q" if "q \<in> set (ranges_left ub1)" for q
    by (rule free_range_pages [OF st1 p(1) _ that])
  ultimately show ?thesis using r unfolding c2(1) all len by blast
qed

text \<open>A machine with 44 KiB of memory whose bitmap goes to \<open>0xFFFFFF0000005000\<close>.\<close>

definition demo_bitmap_tables :: mem where
  "demo_bitmap_tables =
     link_table (link_table (link_table demo_root 0x1000 510 0x2000) 0x2000 0 0x3000) 0x3000 0 0x4000"

definition demo_boot :: uefi_bootstrapper where
  "demo_boot = demo_ub\<lparr>ub_nextFreeVirtualPage := 0xFFFFFF0000005000\<rparr>"

definition demo_pa :: phys_alloc where
  "demo_pa = phys_alloc_construct 0xB000 0 []"

lemma demo_bitmap_tables_inv:
  "pt_inv demo_bitmap_tables 0x1000 {0x4000, 0x3000, 0x2000, 0x1000}"
  "table_at demo_bitmap_tables 0x1000 [510, 0, 0] = Some 0x4000"
  using demo_chain [of 510 0 0] unfolding demo_bitmap_tables_def by simp_all

lemma demo_boot_state: "boot_state (unat (ub_memSize demo_boot)) demo_boot"
  using demo_ub_ok unfolding boot_state_def ub_ok_def demo_boot_def
  by (simp add: map_below_def) (simp add: demo_ub_def)

definition demo_boot_reserved :: uefi_bootstrapper where
  "demo_boot_reserved = demo_boot\<lparr>ub_nextFreeVirtualPage := 0xFFFFFF0000006000\<rparr>"

lemma demo_boot_steps:
  "bitmap_pages (ub_memSize demo_boot) = 1"
  "reserveVirtualMemory demo_boot 1 = (StatusOr_item 0xFFFFFF0000005000, demo_boot_reserved)"
  "boot_allocatePages demo_boot_reserved 1
    = (StatusOr_item \<lparr>ps_pageSize = 0x1000, ps_address = 0x8000, ps_count = 1\<rparr>,
       demo_boot_reserved\<lparr>ub_map := (ub_map demo_ub)[2 := \<lparr>Type = EfiConventionalMemory, PhysicalStart = 0x9000, NumberOfPages = 2\<rparr>]\<rparr>)"
  by code_simp+

lemma demo_bitmap_path: "path_of 0xFFFFFF0000005000 = [510, 0, 0]" "PT_L4_IDX 0xFFFFFF0000005000 = 510"
  "(0xFFFFFF0000005000 :: u64) AND 0x7FFFFC0FFF = 0"
  by (simp_all add: path_of_def PT_L4_IDX_def PT_L3_IDX_def PT_L2_IDX_def)

lemma init_small_memory_correct_witness:
  "\<exists>m' pa' ub'. init demo_rt 0x1000 demo_bitmap_tables demo_pa demo_boot = Some (m', pa', ub')
    \<and> pa_status pa' = Ok \<and> used_pages (pa_bitmap pa') = {..<32768} - ({0} \<union> {9, 10})"
proof -
  let ?ub1 = "demo_boot_reserved\<lparr>ub_map := (ub_map demo_ub)[2 := \<lparr>Type = EfiConventionalMemory, PhysicalStart = 0x9000, NumberOfPages = 2\<rparr>]\<rparr>"
  have r: "ranges_left ?ub1 = [\<lparr>ps_pageSize = 4096, ps_address = 0, ps_count = 1\<rparr>, \<lparr>ps_pageSize = 4096, ps_address = 0x9000, ps_count = 2\<rparr>]"
    by (simp add: ranges_left_def demo_boot_reserved_def demo_boot_def demo_ub_def free_desc_def range_of_def PAGE_SIZE_def)
  have u: "\<Union> (range_pages ` set (ranges_left ?ub1)) = {0} \<union> {9, 10}"
    unfolding r by (auto simp: range_pages_def kPageSize_def)
  have "PT_L4_IDX 0xFFFFFF0000005000 \<noteq> 511" using demo_bitmap_path by simp
  moreover have "table_at demo_bitmap_tables 0x1000 (path_of 0xFFFFFF0000005000) = Some 0x4000"
    using demo_bitmap_tables_inv(2) demo_bitmap_path(1) by simp
  moreover have "frame_addr (0x8000 :: u64)" by (simp add: frame_addr_def)
  ultimately show ?thesis
    using init_small_memory_correct [OF demo_boot_state demo_boot_steps(1,2) _ demo_bitmap_path(3) demo_rt_tables
        demo_bitmap_tables_inv(1) _ demo_boot_steps(3), of "0x4000", where pa = demo_pa]
    unfolding u by auto
qed

text \<open>C25: when the top-level table has no entry for the place of the bitmap, the page allocator
  cannot be started: the page tables ask the allocator that is being started for a table, which
  refuses; \<open>init\<close> returns with the status \<open>InitializationError\<close> and memory as it was, although
  the bootstrap allocator has handed out pages for the bitmap.\<close>

theorem init_needs_tables:
  assumes "kernel_tables rt" "pt_inv m root T"
    and "next_table m root (PT_L4_IDX start) = None" "pa_status pa \<noteq> Ok"
    and "bitmap_pages (ub_memSize ub) \<noteq> 0"
    and "reserveVirtualMemory ub (bitmap_pages (ub_memSize ub)) = (StatusOr_item start, ub0)"
    and "boot_allocatePages ub0 (bitmap_pages (ub_memSize ub)) = (StatusOr_item ps, ub1)" "ps_count ps \<noteq> 0"
  shows "\<exists>pa'. init rt root m pa ub = Some (m, pa', ub1) \<and> pa_status pa' = InitializationError
    \<and> allocatePage pa' = Some (StatusOr_status InitializationError, pa')"
proof -
  have "read_status (StatusOr_status InitializationError :: PageSet StatusOr) = Some InitializationError"
    by (simp add: read_status_def StatusOr_status_def)
  then have "allocatePage pa' = Some (StatusOr_status InitializationError, pa')"
    if "pa_status pa' = InitializationError" for pa'
    using that by (simp add: allocatePage_def allocatePages_def map_or_def read_item_simps)
  then show ?thesis using init_uninitialised [OF assms] by simp
qed

lemma init_needs_tables_witness:
  "\<exists>pa' ub'. init demo_rt 0x1000 demo_root demo_pa demo_boot = Some (demo_root, pa', ub')
    \<and> pa_status pa' = InitializationError"
proof -
  have "next_table demo_root 0x1000 (PT_L4_IDX 0xFFFFFF0000005000) = None"
    using demo_root_next [of 510] demo_bitmap_path(2) by simp
  moreover have "pa_status demo_pa \<noteq> Ok" by (simp add: demo_pa_def phys_alloc_construct_def)
  ultimately show ?thesis
    using init_needs_tables [OF demo_rt_tables demo_root_inv,
        where start = "0xFFFFFF0000005000" and pa = demo_pa and ub = demo_boot]
      demo_boot_steps by fastforce
qed

text \<open>The place of the bitmap 2 MiB or more above the base of the region: \<open>map\<close> looks at the entry of the third
  level at twice the index, and when that is absent it asks for a table although the right one exists.\<close>

lemma mib_low_parts:
  assumes "v AND 0x7FF81FFFFF = 0"
  shows "low_part v 2 = 8 * PT_L2_IDX v" "low_part v 3 = 0" "2 * PT_L2_IDX v < 512"
proof -
  have m: "(0x7FF81FFFFF :: u64) = push_bit 27 (mask 12) OR mask 21"
    by (simp add: mask_eq_exp_minus_1 push_bit_eq_mult)
  have b: "\<not> bit v n" if "n < 21 \<or> 27 \<le> n \<and> n < 39" for n
  proof
    assume "bit v n"
    then have "bit (v AND 0x7FF81FFFFF) n"
      using that unfolding m bit_and_iff bit_or_iff bit_push_bit_iff bit_mask_iff by auto
    then show False using assms by simp
  qed
  have i: "bit (PT_L2_IDX v) n \<longleftrightarrow> n < 6 \<and> bit v (21 + n)" for n
    using b [of "21 + n"] bit_PT_IDX [of v 2 n] by (cases "n < 6"; cases "n < 9") (simp_all add: PT_IDX_levels)
  have e: "8 * PT_L2_IDX v = push_bit 3 (PT_L2_IDX v)" by (simp add: push_bit_eq_mult mult.commute)
  show "low_part v 3 = 0"
    unfolding low_part_def by (intro bit_eqI) (auto simp: bit_take_bit_iff bit_drop_bit_eq b)
  show "low_part v 2 = 8 * PT_L2_IDX v"
    unfolding e low_part_def
  proof (rule bit_eqI)
    fix n
    show "bit (take_bit 12 (drop_bit (nat (9 * 2)) v)) n = bit (push_bit 3 (PT_L2_IDX v)) n"
    proof (cases "n < 3")
      case True
      then show ?thesis by (simp add: bit_take_bit_iff bit_drop_bit_eq b bit_push_bit_iff)
    next
      case False
      then have "18 + n = 21 + (n - 3)" by simp
      moreover have "bit v (18 + n) \<Longrightarrow> n < 12 \<Longrightarrow> n < 9" using b [of "18 + n"] by (cases "n < 9") simp_all
      ultimately show ?thesis using False
        by (auto simp: bit_take_bit_iff bit_drop_bit_eq bit_push_bit_iff i dest: bit_imp_le_length)
    qed
  qed
  have "take_bit 6 (PT_L2_IDX v) = PT_L2_IDX v" by (rule bit_eqI) (auto simp: bit_take_bit_iff i)
  then have "unat (PT_L2_IDX v) < 2 ^ 6" by (metis take_bit_nat_less_exp unsigned_take_bit_eq)
  then have "unat (2 * PT_L2_IDX v) = 2 * unat (PT_L2_IDX v)" "unat (PT_L2_IDX v) < 64"
    by (simp_all add: unat_word_ariths)
  then show "2 * PT_L2_IDX v < 512" by (simp add: word_less_nat_alt)
qed

theorem init_misreads_tables:
  assumes kt: "kernel_tables rt" and inv: "pt_inv m root T" and v: "PT_L4_IDX start \<noteq> 511" "start AND 0x7FF81FFFFF = 0"
    and tables: "next_table m root (PT_L4_IDX start) = Some t3" "next_table m t3 (PT_L3_IDX start) = Some t2"
    and none: "next_table m t2 (2 * PT_L2_IDX start) = None" and s: "pa_status pa \<noteq> Ok"
    and need: "bitmap_pages (ub_memSize ub) \<noteq> 0"
    and resv: "reserveVirtualMemory ub (bitmap_pages (ub_memSize ub)) = (StatusOr_item start, ub0)"
    and b: "boot_allocatePages ub0 (bitmap_pages (ub_memSize ub)) = (StatusOr_item ps, ub1)" "ps_count ps \<noteq> 0"
  shows "\<exists>pa'. init rt root m pa ub = Some (m, pa', ub1) \<and> pa_status pa' = InitializationError"
proof -
  note low = mib_low_parts [OF v(2)]
  have s3: "tableAddress tables_base start (4 - 1) = PT_PAGE_BASE (entry_at start 3)"
    using table_address_good [OF low(2)] by simp
  have s2: "tableAddress tables_base start (3 - 1) = PT_PAGE_BASE (entry_at start 2) + 8 * PT_L2_IDX start"
    using tableAddress_low_part [of 2 start] tableAddress_doc_entry [of 2 start] low(1) by simp
  have A3: "tableAddress tables_base start (4 - 1) + 8 * entryIndex start 3
      = PT_PAGE_BASE (PT_ENTRY (entry_at start 2)) + 8 * PT_L3_IDX start"
    unfolding s3 entry_index_levels by (simp add: numeral_3_eq_3 numeral_2_eq_2)
  have A2: "tableAddress tables_base start (3 - 1) + 8 * entryIndex start 2
      = PT_PAGE_BASE (PT_ENTRY (entry_at start 1)) + 8 * (2 * PT_L2_IDX start)"
    unfolding s2 entry_index_levels by (simp add: numeral_2_eq_2)
  have lv: "kmap_levels rt allocatePage root start 3 4 (m, pa) PT_L4_BASE = Some ((m, pa), Inl InitializationError)"
    if p: "pa_status pa \<noteq> Ok" for pa
  proof -
    have r4: "kmap_level rt allocatePage root start 4 (m, pa) PT_L4_BASE
        = Some ((m, pa), Inr (tableAddress tables_base start (4 - 1)))"
      by (rule kmap_level_present [OF kt inv entry_paths(5) _ pml4_slot PT_IDX_bounds(1), of root]) (simp_all add: tables)
    have r3: "kmap_level rt allocatePage root start 3 (m, pa) (tableAddress tables_base start (4 - 1))
        = Some ((m, pa), Inr (tableAddress tables_base start (3 - 1)))"
      by (rule kmap_level_present [OF kt inv entry_paths(3) _ A3 PT_IDX_bounds(2), of t3]) (simp_all add: tables)
    have r2: "kmap_level rt allocatePage root start 2 (m, pa) (tableAddress tables_base start (3 - 1))
        = Some ((m, pa), Inl InitializationError)"
      by (rule kmap_level_no_allocator [OF inv entry_paths(1) _ A2 low(3) none p]) (simp add: tables)
    show ?thesis using r4 r3 r2 by (simp add: numeral_3_eq_3 level_postdec_def level_sub_def)
  qed
  show ?thesis using init_refused [OF kt lv s need resv b] by simp
qed

text \<open>The tables of \<open>0xFFFFFF0000200000\<close>; the bitmap is to go there.\<close>

definition demo_high_tables :: mem where
  "demo_high_tables = link_table (link_table (link_table demo_root 0x1000 510 0x2000) 0x2000 0 0x3000) 0x3000 1 0x4000"

definition demo_high_boot :: uefi_bootstrapper where
  "demo_high_boot = demo_ub\<lparr>ub_nextFreeVirtualPage := 0xFFFFFF0000200000\<rparr>"

lemma demo_high_steps:
  "bitmap_pages (ub_memSize demo_high_boot) = 1"
  "reserveVirtualMemory demo_high_boot 1
    = (StatusOr_item 0xFFFFFF0000200000, demo_high_boot\<lparr>ub_nextFreeVirtualPage := 0xFFFFFF0000201000\<rparr>)"
  "\<exists>ub. boot_allocatePages (demo_high_boot\<lparr>ub_nextFreeVirtualPage := 0xFFFFFF0000201000\<rparr>) 1
    = (StatusOr_item \<lparr>ps_pageSize = 0x1000, ps_address = 0x8000, ps_count = 1\<rparr>, ub)"
proof -
  have "fst (boot_allocatePages (demo_high_boot\<lparr>ub_nextFreeVirtualPage := 0xFFFFFF0000201000\<rparr>) 1)
    = StatusOr_item \<lparr>ps_pageSize = 0x1000, ps_address = 0x8000, ps_count = 1\<rparr>" by code_simp
  then show "\<exists>ub. boot_allocatePages (demo_high_boot\<lparr>ub_nextFreeVirtualPage := 0xFFFFFF0000201000\<rparr>) 1
    = (StatusOr_item \<lparr>ps_pageSize = 0x1000, ps_address = 0x8000, ps_count = 1\<rparr>, ub)" by (metis prod.collapse)
qed code_simp+

lemma demo_high_tables_inv:
  "pt_inv demo_high_tables 0x1000 {0x4000, 0x3000, 0x2000, 0x1000}"
  "table_at demo_high_tables 0x1000 [510, 0, 1] = Some 0x4000"
  using demo_chain [of 510 0 1] unfolding demo_high_tables_def by simp_all

lemma init_misreads_tables_witness:
  "table_at demo_high_tables 0x1000 (path_of 0xFFFFFF0000200000) = Some 0x4000
    \<and> (\<exists>pa' ub'. init demo_rt 0x1000 demo_high_tables demo_pa demo_high_boot = Some (demo_high_tables, pa', ub')
          \<and> pa_status pa' = InitializationError)"
proof -
  have i: "path_of 0xFFFFFF0000200000 = [510, 0, 1]" "PT_L4_IDX 0xFFFFFF0000200000 = 510" "PT_L3_IDX 0xFFFFFF0000200000 = 0"
    "PT_L2_IDX 0xFFFFFF0000200000 = 1" "(0xFFFFFF0000200000 :: u64) AND 0x7FF81FFFFF = 0"
    by (simp_all add: path_of_def PT_L4_IDX_def PT_L3_IDX_def PT_L2_IDX_def)
  have n: "next_table demo_high_tables 0x1000 510 = Some 0x2000" "next_table demo_high_tables 0x2000 0 = Some 0x3000"
    "next_table demo_high_tables 0x3000 2 = None"
    using frame_link_entry [OF demo_frames(2)] frame_link_entry [OF demo_frames(3)] demo_frames
    by (simp_all add: next_table_def demo_high_tables_def quad.rd_slot_upd link_table_read Let_def)
  have s: "pa_status demo_pa \<noteq> Ok" by (simp add: demo_pa_def phys_alloc_construct_def)
  obtain ub where b: "boot_allocatePages (demo_high_boot\<lparr>ub_nextFreeVirtualPage := 0xFFFFFF0000201000\<rparr>) 1
      = (StatusOr_item \<lparr>ps_pageSize = 0x1000, ps_address = 0x8000, ps_count = 1\<rparr>, ub)"
    using demo_high_steps(3) by blast
  have "\<exists>pa'. init demo_rt 0x1000 demo_high_tables demo_pa demo_high_boot = Some (demo_high_tables, pa', ub)
      \<and> pa_status pa' = InitializationError"
    by (rule init_misreads_tables [OF demo_rt_tables demo_high_tables_inv(1) _ i(5) _ _ _ s,
          where ps = "\<lparr>ps_pageSize = 0x1000, ps_address = 0x8000, ps_count = 1\<rparr>"])
      (use i n b demo_high_steps(1,2) in simp_all)
  then show ?thesis using demo_high_tables_inv(2) i(1) by auto
qed

end
