(* ===== verification/Format.thy ===== *)
theory Format
  imports Prelude
begin

text \<open>
  The printf-style formatter (include/core/format.h, core/src/main/cpp/format.cpp).  A C string is
  the list of its characters before the terminator; \<open>fm_c\<close> is the rest of the format from \<open>c_\<close>
  on, so \<open>*c_\<close> is the terminator exactly when it is empty.  \<open>outputChars\<close> is virtual: the output
  is the list of the strings it is called with, in order.  The variable arguments are a list;
  reading one with a type other than its own, or one that is not there, is undefined and so is
  \<open>None\<close>, as are a signed overflow and a store outside the digit buffer.
\<close>

type_synonym chars_out = "string list"

abbreviation NUL :: char where "NUL \<equiv> CHR 0x00"

definition peek :: "string \<Rightarrow> char" where
  "peek s = (case s of [] \<Rightarrow> NUL | c # _ \<Rightarrow> c)"

subsection \<open>Digits\<close>

text \<open>\<open>*(--buffer) = c\<close>: the index of the buffer goes down by one.\<close>

definition put_before :: "char \<Rightarrow> string \<Rightarrow> int \<Rightarrow> (string \<times> int) option" where
  "put_before c buf pos =
     (if 0 < pos \<and> pos \<le> int (length buf) then Some (buf[nat (pos - 1) := c], pos - 1) else None)"

definition digit_char :: "u64 \<Rightarrow> bool \<Rightarrow> u64 \<Rightarrow> char" where
  "digit_char base upper rem =
     (if base = 16 then
        let alphastart = (if upper then 0x41 else 0x61) in
        char_of (unat (if rem < 10 then 0x30 + rem else alphastart + (rem - 10)))
      else char_of (unat (0x30 + rem)))"

text \<open>\<open>outdigits<base, upper>\<close>: the digits in reverse; the results are \<open>digits\<close>, the index
  \<open>buffer\<close> points to and the array.\<close>

partial_function (option) outdigits_loop ::
  "u64 \<Rightarrow> bool \<Rightarrow> u64 \<Rightarrow> int \<Rightarrow> string \<Rightarrow> int \<Rightarrow> (int \<times> string \<times> int) option" where
  "outdigits_loop base upper value digits buf pos =
     (if value > 0 then
        case put_before (digit_char base upper (value mod base)) buf pos of
          None \<Rightarrow> None
        | Some (buf, pos) \<Rightarrow> outdigits_loop base upper (value div base) (digits + 1) buf pos
      else Some (digits, buf, pos))"

definition outdigits ::
  "u64 \<Rightarrow> bool \<Rightarrow> u64 \<Rightarrow> int \<Rightarrow> string \<Rightarrow> int \<Rightarrow> (int \<times> string \<times> int) option" where
  "outdigits base upper value digits buf pos =
     do { (digits, buf, pos) \<leftarrow> outdigits_loop base upper value digits buf pos;
          if digits = 0 then do { (buf, pos) \<leftarrow> put_before (CHR ''0'') buf pos; Some (digits + 1, buf, pos) }
          else Some (digits, buf, pos) }"

text \<open>The C string at an index of an array.\<close>

definition cstr_at :: "string \<Rightarrow> int \<Rightarrow> string" where
  "cstr_at buf pos = takeWhile (\<lambda>c. c \<noteq> NUL) (drop (nat pos) buf)"

subsection \<open>Formatter\<close>

definition LeftJustify :: u32 where "LeftJustify = 1"
definition PlusPrefix :: u32 where "PlusPrefix = 2"
definition SpaceFlag :: u32 where "SpaceFlag = 4"
definition HashFlag :: u32 where "HashFlag = 8"
definition ZeroFlag :: u32 where "ZeroFlag = 16"

text \<open>\<open>format_\<close> is written and never read; it is left out.\<close>

record formatter =
  fm_c :: string
  fm_flags :: u32
  fm_size :: nat
  fm_width :: int
  fm_precision :: int

definition hasFlag :: "formatter \<Rightarrow> u32 \<Rightarrow> bool" where
  "hasFlag fm flag \<longleftrightarrow> fm_flags fm AND flag \<noteq> 0"

definition flag_of :: "char \<Rightarrow> u32 option" where
  "flag_of c =
     (if c = CHR ''-'' then Some LeftJustify
      else if c = CHR ''+'' then Some PlusPrefix
      else if c = CHR '' '' then Some SpaceFlag
      else if c = CHR ''#'' then Some HashFlag
      else if c = CHR ''0'' then Some ZeroFlag
      else None)"

fun parse_flags_loop :: "u32 \<Rightarrow> string \<Rightarrow> u32 \<times> string" where
  "parse_flags_loop flags [] = (flags, [])"
| "parse_flags_loop flags (c # s) =
     (case flag_of c of None \<Rightarrow> (flags, c # s)
      | Some f \<Rightarrow> parse_flags_loop (flags OR f) s)"

definition parseFlags :: "formatter \<Rightarrow> formatter" where
  "parseFlags fm =
     (let (flags, c) = parse_flags_loop 0 (fm_c fm) in fm\<lparr>fm_flags := flags, fm_c := c\<rparr>)"

text \<open>The two decimal fields, in an \<open>int\<close> of 32 bits.\<close>

definition int_ok :: "int \<Rightarrow> bool" where
  "int_ok n \<longleftrightarrow> - (2 ^ 31) \<le> n \<and> n < 2 ^ 31"

definition dec_digit :: "char \<Rightarrow> int option" where
  "dec_digit c =
     (let n = of_char c in if (48 :: int) \<le> n \<and> n \<le> 57 then Some (n - 48) else None)"

fun parse_int_loop :: "int \<Rightarrow> string \<Rightarrow> (int \<times> string) option" where
  "parse_int_loop n [] = Some (n, [])"
| "parse_int_loop n (c # s) =
     (case dec_digit c of None \<Rightarrow> Some (n, c # s)
      | Some d \<Rightarrow> if int_ok (n * 10 + d) then parse_int_loop (n * 10 + d) s else None)"

definition parseWidth :: "formatter \<Rightarrow> (int \<times> formatter) option" where
  "parseWidth fm =
     (if peek (fm_c fm) = CHR ''*'' then Some (-1, fm\<lparr>fm_c := tl (fm_c fm)\<rparr>)
      else do { (w, c) \<leftarrow> parse_int_loop 0 (fm_c fm);
                Some (w, fm\<lparr>fm_width := w, fm_c := c\<rparr>) })"

definition parsePrecision :: "formatter \<Rightarrow> formatter option" where
  "parsePrecision fm =
     (let fm = fm\<lparr>fm_precision := 0\<rparr> in
      if peek (fm_c fm) \<noteq> CHR ''.'' then Some fm
      else do { (p, c) \<leftarrow> parse_int_loop 0 (tl (fm_c fm));
                Some (fm\<lparr>fm_precision := p, fm_c := c\<rparr>) })"

definition parseLength :: "formatter \<Rightarrow> formatter" where
  "parseLength fm =
     (let c = fm_c fm; c1 = tl c; c2 = tl c1 in
      if peek c = CHR ''h'' then
        if peek c1 = CHR ''h'' then fm\<lparr>fm_c := c2, fm_size := 1\<rparr> else fm\<lparr>fm_c := c1, fm_size := 2\<rparr>
      else if peek c = CHR ''l'' then
        if peek c1 = CHR ''l'' then fm\<lparr>fm_c := c2, fm_size := 8\<rparr> else fm\<lparr>fm_c := c1, fm_size := 8\<rparr>
      else if peek c = CHR ''j'' then fm\<lparr>fm_c := c1, fm_size := 8\<rparr>
      else if peek c = CHR ''z'' then fm\<lparr>fm_c := c1, fm_size := 8\<rparr>
      else if peek c = CHR ''t'' then fm\<lparr>fm_c := c1, fm_size := 8\<rparr>
      else if peek c = CHR ''L'' then fm\<lparr>fm_c := c1, fm_size := 16\<rparr>
      else fm\<lparr>fm_size := 0\<rparr>)"

subsection \<open>Numbers\<close>

text \<open>\<open>while (digits < width_) { outputChars(fillch); digits++; }\<close>\<close>

function fill_loop :: "string \<Rightarrow> int \<Rightarrow> int \<Rightarrow> chars_out \<times> int" where
  "fill_loop fillch width digits =
     (if digits < width then
        let (out, d) = fill_loop fillch width (digits + 1) in (fillch # out, d)
      else ([], digits))"
  by pat_completeness auto
termination by (relation "measure (\<lambda>(_, width, digits). nat (width - digits))") auto

definition buffer_chrs :: nat where "buffer_chrs = 20"

definition digit_buffer :: string where "digit_buffer = replicate (buffer_chrs + 1) NUL"

text \<open>\<open>outputNumber\<close>.  Negating the least \<open>intmax_t\<close> is undefined.\<close>

definition outputNumber :: "formatter \<Rightarrow> u64 \<Rightarrow> bool \<Rightarrow> bool \<Rightarrow> u64 \<Rightarrow> chars_out option" where
  "outputNumber fm val isSigned upper base =
     (let buffer = digit_buffer;
          str = int buffer_chrs;
          fillch = (if hasFlag fm ZeroFlag then ''0'' else '' '');
          withSign = (isSigned \<and> base = 10);
          negative = sint val
      in
      if withSign \<and> negative = - (2 ^ 63) then None
      else do {
        let positive = (if withSign \<and> negative < 0 then of_int (- negative) else val);
        (digits, buffer, str) \<leftarrow>
          (if base = 16 then if upper then outdigits 16 True val 0 buffer str
                             else outdigits 16 False val 0 buffer str
           else if base = 8 then outdigits 8 False val 0 buffer str
           else outdigits 10 False positive 0 buffer str);
        let (sign, digits) =
          (if withSign then
             if negative < 0 then ([''-''], digits + 1)
             else if hasFlag fm PlusPrefix then ([''+''], digits + 1)
             else if hasFlag fm SpaceFlag then (['' ''], digits + 1)
             else ([], digits)
           else ([], digits));
        let (prefix, digits) =
          (if hasFlag fm HashFlag then
             if base = 8 \<and> val = 0 then ([''0''], digits + 1)
             else if base = 16 then ([if upper then ''0X'' else ''0x''], digits + 2)
             else ([], digits)
           else ([], digits));
        let (left, digits) =
          (if \<not> hasFlag fm LeftJustify then fill_loop fillch (fm_width fm) digits else ([], digits));
        let (right, digits) = fill_loop fillch (fm_width fm) digits;
        Some (sign @ prefix @ left @ [cstr_at buffer str] @ right)
      })"

subsection \<open>The format\<close>

text \<open>An argument after the default promotions: an \<open>int\<close> of either signedness, a 64-bit integer
  of either signedness, a floating point number (whose value nothing reads), a string, a pointer
  to an integer of so many bytes.\<close>

datatype va_arg = VInt u32 | VLong u64 | VDouble | VLongDouble | VString string | VIntPtr nat

fun va_int :: "va_arg list \<Rightarrow> (u32 \<times> va_arg list) option" where
  "va_int (VInt w # args) = Some (w, args)"
| "va_int _ = None"

fun va_long :: "va_arg list \<Rightarrow> (u64 \<times> va_arg list) option" where
  "va_long (VLong w # args) = Some (w, args)"
| "va_long _ = None"

fun va_double :: "bool \<Rightarrow> va_arg list \<Rightarrow> va_arg list option" where
  "va_double False (VDouble # args) = Some args"
| "va_double True (VLongDouble # args) = Some args"
| "va_double _ _ = None"

fun va_string :: "va_arg list \<Rightarrow> (string \<times> va_arg list) option" where
  "va_string (VString s # args) = Some (s, args)"
| "va_string _ = None"

fun va_int_ptr :: "nat \<Rightarrow> va_arg list \<Rightarrow> va_arg list option" where
  "va_int_ptr n (VIntPtr k # args) = (if k = n then Some args else None)"
| "va_int_ptr _ _ = None"

definition sizeof_wchar_t :: nat where "sizeof_wchar_t = 4"

definition skip :: "formatter \<Rightarrow> formatter" where
  "skip fm = fm\<lparr>fm_c := tl (fm_c fm)\<rparr>"

text \<open>The cases of the conversions, on a format whose next character is theirs.\<close>

definition conv_signed :: "formatter \<Rightarrow> va_arg list \<Rightarrow> (chars_out \<times> formatter \<times> va_arg list) option" where
  "conv_signed fm args =
     (let fm = skip fm in
      do { (widenedSigned, args) \<leftarrow>
             (if fm_size fm = 8 then va_long args
              else do { (w, args) \<leftarrow> va_int args; Some (scast w, args) });
           out \<leftarrow> outputNumber fm widenedSigned True False 10;
           Some (out, fm, args) })"

definition conv_unsigned :: "formatter \<Rightarrow> va_arg list \<Rightarrow> (chars_out \<times> formatter \<times> va_arg list) option" where
  "conv_unsigned fm args =
     (let c = peek (fm_c fm) in
      do { (widened, args) \<leftarrow>
             (if fm_size fm = 8 then va_long args
              else do { (w, args) \<leftarrow> va_int args; Some (ucast w, args) });
           let fm = skip fm;
           out \<leftarrow> (if c = CHR ''u'' then outputNumber fm widened False False 10
                   else if c = CHR ''o'' then outputNumber fm widened False False 8
                   else if c = CHR ''X'' then outputNumber fm widened False True 16
                   else outputNumber fm widened False False 16);
           Some (out, fm, args) })"

definition conv_float :: "formatter \<Rightarrow> va_arg list \<Rightarrow> (chars_out \<times> formatter \<times> va_arg list) option" where
  "conv_float fm args =
     (let fm = skip fm in
      do { args \<leftarrow> va_double (fm_size fm = 16) args; Some ([''?''], fm, args) })"

definition char_string :: "u32 \<Rightarrow> string" where
  "char_string w = (let c = char_of (unat w mod 256) in if c = NUL then [] else [c])"

definition conv_char :: "formatter \<Rightarrow> va_arg list \<Rightarrow> (chars_out \<times> formatter \<times> va_arg list) option" where
  "conv_char fm args =
     (let fm = skip fm in
      do { (w, args) \<leftarrow> va_int args;
           Some ([if fm_size fm = sizeof_wchar_t then ''?'' else char_string w], fm, args) })"

definition conv_string :: "formatter \<Rightarrow> va_arg list \<Rightarrow> (chars_out \<times> formatter \<times> va_arg list) option" where
  "conv_string fm args =
     (let fm = skip fm in
      if fm_size fm = sizeof_wchar_t then do { (_, args) \<leftarrow> va_int args; Some ([''?''], fm, args) }
      else do { (s, args) \<leftarrow> va_string args; Some ([s], fm, args) })"

definition conv_count :: "formatter \<Rightarrow> va_arg list \<Rightarrow> (chars_out \<times> formatter \<times> va_arg list) option" where
  "conv_count fm args =
     (let fm = skip fm in
      do { args \<leftarrow> va_int_ptr (if fm_size fm \<in> {8, 1, 2} then fm_size fm else 4) args;
           Some ([], fm, args) })"

definition convert :: "formatter \<Rightarrow> va_arg list \<Rightarrow> (chars_out \<times> formatter \<times> va_arg list) option" where
  "convert fm args =
     (let c = peek (fm_c fm) in
      if c \<in> {CHR ''d'', CHR ''i''} then conv_signed fm args
      else if c \<in> {CHR ''u'', CHR ''o'', CHR ''x'', CHR ''X'', CHR ''p''} then conv_unsigned fm args
      else if c \<in> {CHR ''f'', CHR ''e'', CHR ''E'', CHR ''g'', CHR ''G'', CHR ''a'', CHR ''A''}
        then conv_float fm args
      else if c = CHR ''c'' then conv_char fm args
      else if c = CHR ''s'' then conv_string fm args
      else if c = CHR ''n'' then conv_count fm args
      else if c = CHR ''%'' then Some ([fm_c fm], skip fm, args)
      else do { (_, args) \<leftarrow> va_int args; Some ([''?''], fm, args) })"

text \<open>One iteration of the loop of \<open>vparsef\<close>, on a format that is not at its end.\<close>

definition vparsef_step :: "formatter \<Rightarrow> va_arg list \<Rightarrow> (chars_out \<times> formatter \<times> va_arg list) option" where
  "vparsef_step fm args =
     (if peek (fm_c fm) \<noteq> CHR ''%'' then Some ([[peek (fm_c fm)]], skip fm, args)
      else do {
        let fm = parseFlags (skip fm);
        (w, fm) \<leftarrow> parseWidth fm;
        (fm, args) \<leftarrow>
          (if w = -1 then do { (w, args) \<leftarrow> va_int args; Some (fm\<lparr>fm_width := sint w\<rparr>, args) }
           else Some (fm, args));
        fm \<leftarrow> parsePrecision fm;
        convert (parseLength fm) args
      })"

subsection \<open>The loop ends\<close>

lemma parse_flags_shorter: "parse_flags_loop flags s = (flags', s') \<Longrightarrow> length s' \<le> length s"
  by (induction flags s rule: parse_flags_loop.induct) (auto split: option.splits)

lemma parse_int_shorter: "parse_int_loop n s = Some (n', s') \<Longrightarrow> length s' \<le> length s"
  by (induction n s rule: parse_int_loop.induct) (auto split: option.splits if_splits)

lemma parseFlags_shorter: "length (fm_c (parseFlags fm)) \<le> length (fm_c fm)"
  by (auto simp: parseFlags_def Let_def split: prod.splits dest: parse_flags_shorter)

lemma parseWidth_shorter: "parseWidth fm = Some (w, fm') \<Longrightarrow> length (fm_c fm') \<le> length (fm_c fm)"
  by (auto simp: parseWidth_def bind_Some_iff split: if_splits dest: parse_int_shorter)

lemma parsePrecision_shorter: "parsePrecision fm = Some fm' \<Longrightarrow> length (fm_c fm') \<le> length (fm_c fm)"
  by (fastforce simp: parsePrecision_def Let_def bind_Some_iff split: if_splits dest: parse_int_shorter)

lemma parseLength_shorter: "length (fm_c (parseLength fm)) \<le> length (fm_c fm)"
  by (auto simp: parseLength_def Let_def)

lemma skip_shorter: "length (fm_c (skip fm)) = length (fm_c fm) - 1"
  by (simp add: skip_def)

lemma convert_shorter:
  "convert fm args = Some (out, fm', args') \<Longrightarrow> length (fm_c fm') \<le> length (fm_c fm)"
  by (auto simp: convert_def conv_signed_def conv_unsigned_def conv_float_def conv_char_def
      conv_string_def conv_count_def Let_def bind_Some_iff skip_shorter split: if_splits)

lemma vparsef_step_shorter:
  assumes "vparsef_step fm args = Some (out, fm', args')" "fm_c fm \<noteq> []"
  shows "length (fm_c fm') < length (fm_c fm)"
proof (cases "peek (fm_c fm) = CHR ''%''")
  case True
  obtain w fm1 where 1: "parseWidth (parseFlags (skip fm)) = Some (w, fm1)"
    using assms(1) True by (auto simp: vparsef_step_def Let_def bind_Some_iff)
  obtain fm2 args2 fm3 where 2: "(if w = -1 then do { (w, args) \<leftarrow> va_int args; Some (fm1\<lparr>fm_width := sint w\<rparr>, args) }
      else Some (fm1, args)) = Some (fm2, args2)"
    and 3: "parsePrecision fm2 = Some fm3" "convert (parseLength fm3) args2 = Some (out, fm', args')"
    using assms(1) True 1 by (auto simp: vparsef_step_def Let_def bind_Some_iff simp del: if_split_asm)
  have "fm_c fm2 = fm_c fm1" using 2 by (auto simp: bind_Some_iff split: if_splits)
  note s = 1 this 3
  show ?thesis
    using parseWidth_shorter [OF s(1)] s(2) parsePrecision_shorter [OF s(3)] convert_shorter [OF s(4)]
      parseLength_shorter [of fm3] parseFlags_shorter [of "skip fm"] skip_shorter [of fm] assms(2)
    by (cases "fm_c fm") auto
next
  case False
  then show ?thesis using assms by (auto simp: vparsef_step_def skip_shorter)
qed

text \<open>\<open>vparsef\<close>: a terminating function, so its only undefined results are those of a step.\<close>

function vparsef_loop :: "formatter \<Rightarrow> va_arg list \<Rightarrow> (chars_out \<times> formatter \<times> va_arg list) option" where
  "vparsef_loop fm args =
     (if fm_c fm = [] then Some ([], fm, args)
      else case vparsef_step fm args of
          None \<Rightarrow> None
        | Some (out, fm, args) \<Rightarrow>
            (case vparsef_loop fm args of None \<Rightarrow> None
             | Some (out', fm, args) \<Rightarrow> Some (out @ out', fm, args)))"
  by pat_completeness auto
termination
  by (relation "measure (\<lambda>(fm, _). length (fm_c fm))") (auto dest: vparsef_step_shorter)

definition vparsef :: "formatter \<Rightarrow> string \<Rightarrow> va_arg list \<Rightarrow> chars_out option" where
  "vparsef fm format args = map_option fst (vparsef_loop (fm\<lparr>fm_c := format\<rparr>) args)"

declare vparsef_loop.simps [simp del] fill_loop.simps [simp del]

end
