(* ===== verification/FormatProps.thy ===== *)
theory FormatProps
  imports Format
begin

text \<open>
  What the formatter prints.  \<open>numeral_string\<close> is the reference: the usual numeral of a natural
  number in a base, most significant digit first; \<open>numeral_value\<close> reads one back.
\<close>

subsection \<open>Numerals\<close>

definition digit_of :: "nat \<Rightarrow> bool \<Rightarrow> nat \<Rightarrow> char" where
  "digit_of b upper d = (if d < 10 then char_of (48 + d) else char_of ((if upper then 55 else 87) + d))"

function numeral_string :: "nat \<Rightarrow> bool \<Rightarrow> nat \<Rightarrow> string" where
  "numeral_string b upper n =
     (if n < b \<or> b < 2 then [digit_of b upper n]
      else numeral_string b upper (n div b) @ [digit_of b upper (n mod b)])"
  by pat_completeness auto
termination by (relation "measure (\<lambda>(_, _, n). n)") auto

declare numeral_string.simps [simp del]

definition digit_value :: "char \<Rightarrow> nat" where
  "digit_value c =
     (let n = of_char c in if n < 58 then n - 48 else if n < 97 then n - 55 else n - 87)"

definition numeral_value :: "nat \<Rightarrow> string \<Rightarrow> nat" where
  "numeral_value b s = foldl (\<lambda>a c. a * b + digit_value c) 0 s"

lemma digit_of_code:
  "d < 16 \<Longrightarrow> of_char (digit_of b u d) = (if d < 10 then 48 + d else (if u then 55 else 87) + d)"
  by (simp add: digit_of_def)

lemma digit_value_of: "d < 16 \<Longrightarrow> digit_value (digit_of b u d) = d"
  by (simp add: digit_value_def digit_of_code)

lemma digit_of_not_NUL: "d < 16 \<Longrightarrow> digit_of b u d \<noteq> NUL"
proof
  assume "d < 16" "digit_of b u d = NUL"
  then have "of_char (digit_of b u d) = (0 :: nat)" by simp
  then show False using digit_of_code [OF \<open>d < 16\<close>, of b u] by (auto split: if_splits)
qed

lemma numeral_value_snoc: "numeral_value b (s @ [c]) = numeral_value b s * b + digit_value c"
  by (simp add: numeral_value_def)

lemma numeral_small: "n < b \<Longrightarrow> numeral_string b u n = [digit_of b u n]"
  by (simp add: numeral_string.simps)

lemma numeral_step:
  "2 \<le> b \<Longrightarrow> b \<le> n \<Longrightarrow> numeral_string b u n = numeral_string b u (n div b) @ [digit_of b u (n mod b)]"
  by (simp add: numeral_string.simps [of b u n])

lemma numeral_induct [consumes 1, case_names small step]:
  assumes "2 \<le> b" "\<And>n. n < b \<Longrightarrow> P n" "\<And>n. b \<le> n \<Longrightarrow> P (n div b) \<Longrightarrow> P n"
  shows "P (n :: nat)"
proof (induction n rule: less_induct)
  case (less n)
  have "n div b < n" if "b \<le> n" using that assms(1) by simp
  then show ?case using less assms(2,3) by (meson linorder_not_le)
qed

lemma numeral_round_trip_nat:
  assumes "2 \<le> b" "b \<le> 16"
  shows "numeral_value b (numeral_string b u n) = n"
  using assms(1)
proof (induction n rule: numeral_induct)
  case (small n)
  then show ?case using assms by (simp add: numeral_small numeral_value_def digit_value_of)
next
  case (step n)
  have "n mod b < b" using assms by simp
  then have "n mod b < 16" using assms(2) by (rule less_le_trans)
  then show ?case using step assms by (simp add: numeral_step numeral_value_snoc digit_value_of)
qed

lemma numeral_not_NUL:
  assumes "2 \<le> b" "b \<le> 16"
  shows "NUL \<notin> set (numeral_string b u n)"
  using assms(1)
proof (induction n rule: numeral_induct)
  case (small n)
  then show ?case using assms digit_of_not_NUL [of n b u] by (auto simp: numeral_small)
next
  case (step n)
  have "n mod b < b" using assms by simp
  then have "n mod b < 16" using assms(2) by (rule less_le_trans)
  then show ?case using step assms digit_of_not_NUL [of "n mod b" b u] by (auto simp: numeral_step)
qed

lemma numeral_length:
  assumes "2 \<le> b"
  shows "0 < k \<Longrightarrow> length (numeral_string b u n) \<le> k \<longleftrightarrow> n < b ^ k"
  using assms
proof (induction n arbitrary: k rule: numeral_induct)
  case (small n)
  moreover have "b ^ 1 \<le> b ^ k" using assms small by (intro power_increasing) simp_all
  ultimately show ?case by (simp add: numeral_small)
next
  case (step n)
  obtain j where k: "k = Suc j" using step by (cases k) auto
  show ?case
  proof (cases j)
    case 0
    have "numeral_string b u (n div b) \<noteq> []"
      by (cases "n div b < b \<or> b < 2") (simp_all add: numeral_string.simps [of b u "n div b"])
    then show ?thesis using step k 0 assms by (simp add: numeral_step Suc_le_eq)
  next
    case (Suc i)
    have "n div b < b ^ j \<longleftrightarrow> n < b ^ k" using assms k by (simp add: div_less_iff_less_mult mult.commute)
    then show ?thesis using step.IH [of j] Suc step.hyps k assms by (simp add: numeral_step)
  qed
qed

lemma numeral_not_Nil [simp]: "numeral_string b u n \<noteq> []"
  by (cases "n < b \<or> b < 2") (simp_all add: numeral_string.simps [of b u n])

subsection \<open>The digits of a number\<close>

text \<open>The bases of the code, with the case of the letters that \<open>outdigits\<close> is called with.\<close>

definition base_ok :: "u64 \<Rightarrow> bool \<Rightarrow> bool" where
  "base_ok base u \<longleftrightarrow> base = 16 \<or> (base = 8 \<or> base = 10) \<and> \<not> u"

lemma base_ok_bounds: "base_ok base u \<Longrightarrow> 2 \<le> unat base \<and> unat base \<le> 16"
  by (auto simp: base_ok_def)

lemma unat_add_digit:
  assumes "unat c + 16 < 2 ^ 64" "unat r < 16"
  shows "unat (c + r :: u64) = unat c + unat r"
  by (rule unat_add_small) (use assms in simp)

lemma digit_char_of:
  assumes "base_ok base u" "unat rem < unat base"
  shows "digit_char base u rem = digit_of (unat base) u (unat rem)"
proof (cases "rem < 10")
  case True
  then have "unat rem < 10" by (simp add: word_less_nat_alt)
  then show ?thesis using True unat_add_digit [of "0x30" rem] by (simp add: digit_char_def digit_of_def)
next
  case False
  then have ge: "\<not> unat rem < 10" by (simp add: word_less_nat_alt)
  then have b: "base = 16" using assms by (auto simp: base_ok_def)
  then have r: "unat rem < 16" using assms(2) by simp
  have "unat (rem + 0x37) = unat rem + 55" "unat (rem + 0x57) = unat rem + 87"
    by (subst unat_add_small; use r in simp)+
  then show ?thesis using False ge b r by (simp add: digit_char_def digit_of_def add.commute)
qed

lemma put_before_at:
  assumes "0 < p" "p \<le> length buf"
  shows "put_before c buf (int p) = Some (take (p - 1) buf @ c # drop p buf, int (p - 1))"
proof -
  obtain q where q: "p = Suc q" using assms(1) by (cases p) auto
  have e: "int (Suc q) - 1 = int q" by simp
  show ?thesis
    unfolding put_before_def q e nat_int using assms(2) q by (simp add: upd_conv_take_nth_drop)
qed

lemma outdigits_loop_eq:
  assumes ok: "base_ok base u" and v0: "0 < v" and p: "p \<le> length buf"
    and s: "s = numeral_string (unat base) u (unat v)"
  shows "outdigits_loop base u v d buf (int p) =
    (if length s \<le> p then Some (d + int (length s), take (p - length s) buf @ s @ drop p buf, int (p - length s))
     else None)"
  using base_ok_bounds [OF ok, THEN conjunct1] v0 p s
proof (induction "unat v" arbitrary: v d buf p s rule: numeral_induct)
  case small
  have "unat (v div base) = 0" "unat (v mod base) = unat v" using small(1) by (simp_all add: unat_div unat_mod)
  then have "v div base = 0" "v mod base = v" by (simp_all only: unat_eq_zero word_unat_eq_iff)
  then show ?case
    using small digit_char_of [OF ok small(1)] put_before_at [of p buf]
    by (cases "p = 0") (simp_all add: numeral_small outdigits_loop.simps [of base u v] outdigits_loop.simps [of base u 0]
        put_before_def)
next
  case step
  note b = base_ok_bounds [OF ok]
  have q: "unat (v div base) = unat v div unat base" "unat (v mod base) = unat v mod unat base"
    by (simp_all add: unat_div unat_mod)
  have v1: "0 < v div base" using step(1) b by (simp add: word_less_nat_alt q div_greater_zero_iff)
  have c: "digit_char base u (v mod base) = digit_of (unat base) u (unat v mod unat base)"
    using digit_char_of [OF ok, of "v mod base"] b by (simp add: q)
  let ?s = "numeral_string (unat base) u (unat v div unat base)"
  have s: "s = ?s @ [digit_char base u (v mod base)]" using step b c by (simp add: numeral_step)
  show ?case
  proof (cases "p = 0")
    case True
    then show ?thesis using step(3) s by (simp add: outdigits_loop.simps [of base u v] put_before_def)
  next
    case False
    let ?buf = "take (p - 1) buf @ digit_char base u (v mod base) # drop p buf"
    have IH: "outdigits_loop base u (v div base) (d + 1) ?buf (int (p - 1)) =
      (if length ?s \<le> p - 1 then Some (d + 1 + int (length ?s), take (p - 1 - length ?s) ?buf @ ?s @ drop (p - 1) ?buf,
         int (p - 1 - length ?s)) else None)"
      by (rule step(2)) (use v1 step(4) False in \<open>simp_all add: q\<close>)
    have e: "length s \<le> p \<longleftrightarrow> length ?s \<le> p - 1" using s False by auto
    have t: "take (p - 1 - length ?s) ?buf = take (p - length s) buf" "drop (p - 1) ?buf = digit_char base u (v mod base) # drop p buf"
      using step(4) s by (auto simp: min_def)
    show ?thesis
      using step(3,4) False put_before_at [of p buf] IH e t s
      by (simp add: outdigits_loop.simps [of base u v])
  qed
qed

text \<open>In the buffer of the code: 20 digits fit.\<close>

lemma cstr_at_digits:
  assumes "NUL \<notin> set s" "pos = int (length a)"
  shows "cstr_at (a @ s @ NUL # b) pos = s"
proof -
  have "takeWhile (\<lambda>c. c \<noteq> NUL) (s @ NUL # b) = s"
    by (subst takeWhile_append2) (use assms(1) in auto)
  then show ?thesis using assms(2) by (simp add: cstr_at_def)
qed

lemma digit_of_0: "digit_of b u 0 = CHR ''0''"
  unfolding digit_of_def by code_simp

lemma lower_digits:
  "digit_of b False 1 = CHR ''1''" "digit_of b False 2 = CHR ''2''" "digit_of b False 3 = CHR ''3''"
  "digit_of b False 4 = CHR ''4''" "digit_of b False 5 = CHR ''5''" "digit_of b False 6 = CHR ''6''"
  "digit_of b False 7 = CHR ''7''" "digit_of b False 8 = CHR ''8''" "digit_of b False 9 = CHR ''9''"
  "digit_of b False 10 = CHR ''a''" "digit_of b False 11 = CHR ''b''" "digit_of b False 12 = CHR ''c''"
  "digit_of b False 13 = CHR ''d''" "digit_of b False 14 = CHR ''e''" "digit_of b False 15 = CHR ''f''"
  unfolding digit_of_def by code_simp+

lemmas numeral_eval = numeral_string.simps digit_of_0 lower_digits

lemma outdigits_buffer:
  assumes ok: "base_ok base u" and s: "s = numeral_string (unat base) u (unat v)"
  shows "if length s \<le> 20
    then \<exists>buf pos. outdigits base u v 0 (replicate 21 NUL) 20 = Some (int (length s), buf, pos) \<and> cstr_at buf pos = s
    else outdigits base u v 0 (replicate 21 NUL) 20 = None"
proof (cases "v = 0")
  case True
  have "unat base > 0" using base_ok_bounds [OF ok] by simp
  then have s0: "s = ''0''" using s True by (simp add: numeral_small digit_of_0)
  have "put_before (CHR ''0'') (replicate 21 NUL) (int 20) = Some (replicate 19 NUL @ CHR ''0'' # [NUL], int 19)"
    by (subst put_before_at) (simp_all add: numeral_eq_Suc)
  moreover have "cstr_at (replicate 19 NUL @ ''0'' @ NUL # []) (int 19) = ''0''"
    by (rule cstr_at_digits) simp_all
  ultimately show ?thesis using s0 True by (simp add: outdigits_def outdigits_loop.simps [of base u 0])
next
  case False
  then have v: "0 < v" by (simp add: word_gt_0)
  have nn: "NUL \<notin> set s" using numeral_not_NUL base_ok_bounds [OF ok] s by simp
  have ne: "s \<noteq> []" using s by simp
  have loop: "outdigits_loop base u v 0 (replicate 21 NUL) 20 =
    (if length s \<le> 20 then Some (int (length s), take (20 - length s) (replicate 21 NUL) @ s @ drop 20 (replicate 21 NUL),
        int (20 - length s)) else None)"
    using outdigits_loop_eq [OF ok v _ s, of 20 "replicate 21 NUL" 0] by simp
  have "cstr_at (take (20 - length s) (replicate 21 NUL) @ s @ NUL # []) (int (20 - length s)) = s"
    by (rule cstr_at_digits [OF nn]) simp
  moreover have "drop 20 (replicate 21 NUL) = [NUL]" by (simp add: numeral_eq_Suc)
  ultimately show ?thesis using loop ne by (cases "length s \<le> 20") (simp_all add: outdigits_def of_nat_diff)
qed

lemma fill_loop_eq: "fill_loop f w d = (replicate (nat (w - d)) f, max w d)"
proof (induction f w d rule: fill_loop.induct)
  case (1 f w d)
  show ?case
  proof (cases "d < w")
    case True
    then have "nat (w - d) = Suc (nat (w - (d + 1)))" by simp
    then show ?thesis using True 1 by (simp add: fill_loop.simps [of f w d])
  qed (simp add: fill_loop.simps [of f w d])
qed

subsection \<open>Numbers\<close>

text \<open>What stands before the fill: the sign and the prefix of the base.\<close>

definition number_front :: "formatter \<Rightarrow> u64 \<Rightarrow> bool \<Rightarrow> bool \<Rightarrow> u64 \<Rightarrow> chars_out" where
  "number_front fm val isSigned upper base =
     (if isSigned \<and> base = 10 then
        if sint val < 0 then [''-''] else if hasFlag fm PlusPrefix then [''+'']
        else if hasFlag fm SpaceFlag then ['' ''] else []
      else [])
     @ (if hasFlag fm HashFlag then
          if base = 8 \<and> val = 0 then [''0''] else if base = 16 then [if upper then ''0X'' else ''0x''] else []
        else [])"

definition magnitude :: "bool \<Rightarrow> u64 \<Rightarrow> u64 \<Rightarrow> nat" where
  "magnitude isSigned base val = (if isSigned \<and> base = 10 then nat \<bar>sint val\<bar> else unat val)"

definition number_fill :: "formatter \<Rightarrow> nat \<Rightarrow> chars_out" where
  "number_fill fm n = replicate (nat (fm_width fm - int n)) (if hasFlag fm ZeroFlag then ''0'' else '' '')"

lemma unat_of_int_small: "0 \<le> k \<Longrightarrow> k < 2 ^ 64 \<Longrightarrow> unat (of_int k :: u64) = nat k"
  by (simp add: unat_eq_nat_uint uint_word_of_int)

lemma unat_positive:
  assumes "sint (val :: u64) < 0"
  shows "unat (of_int (- sint val) :: u64) = nat (- sint val)"
proof (rule unat_of_int_small)
  have "- (2 ^ 63) \<le> sint val" using sint_greater_eq [of val] by simp
  then show "0 \<le> - sint val" "- sint val < 2 ^ 64" using assms by simp_all
qed

lemma unat_nonneg:
  assumes "0 \<le> sint (val :: u64)"
  shows "unat val = nat (sint val)"
proof -
  have "unat (of_int (sint val) :: u64) = nat (sint val)"
    by (rule unat_of_int_small) (use assms sint_less [of val] in simp_all)
  then show ?thesis by simp
qed

lemma outputNumber_eq:
  assumes ok: "base_ok base upper" and min: "isSigned \<and> base = 10 \<longrightarrow> sint val \<noteq> - (2 ^ 63)"
    and s: "s = numeral_string (unat base) upper (magnitude isSigned base val)"
    and front: "front = number_front fm val isSigned upper base"
    and pad: "pad = number_fill fm (length (concat front) + length s)"
  shows "outputNumber fm val isSigned upper base =
    (if length s \<le> 20 then
       Some (front @ (if hasFlag fm LeftJustify then [s] @ pad else pad @ [s]))
     else None)"
proof -
  let ?v = "if isSigned \<and> base = 10 \<and> sint val < 0 then of_int (- sint val) else val"
  have v: "unat ?v = magnitude isSigned base val"
    using unat_positive [of val] unat_nonneg [of val] by (auto simp: magnitude_def not_less)
  have v16: "base \<noteq> 10 \<Longrightarrow> ?v = val" by simp
  have B: "digit_buffer = replicate 21 NUL" "int buffer_chrs = 20" by (simp_all add: digit_buffer_def buffer_chrs_def)
  note D = outdigits_buffer [OF ok, of s ?v, unfolded v, OF s, folded B(1)]
  have f: "fill_loop c w (max w d) = ([], max w d)" "fill_loop c w d = (replicate (nat (w - d)) c, max w d)" for c w d
    by (simp_all add: fill_loop_eq)
  note c = add.commute [of "int (length s)" 1] add.commute [of "int (length s)" 2]
  show ?thesis
  proof (cases "length s \<le> 20")
    case True
    then obtain buf pos where o: "outdigits base upper ?v 0 digit_buffer 20 = Some (int (length s), buf, pos)"
      "cstr_at buf pos = s" using D by auto
    consider "base = 16" | "base = 8" "\<not> upper" | "base = 10" "\<not> upper" using ok by (auto simp: base_ok_def)
    then show ?thesis
    proof cases
      case 1
      then show ?thesis
        using o True by (cases upper; cases "hasFlag fm HashFlag")
          (simp_all add: c outputNumber_def Let_def B(2) front pad f number_front_def number_fill_def)
    next
      case 2
      then show ?thesis
        using o True by (cases "hasFlag fm HashFlag")
          (simp_all add: c outputNumber_def Let_def B(2) front pad f number_front_def number_fill_def)
    next
      case 3
      show ?thesis
      proof (cases "isSigned \<and> sint val < 0")
        case True
        then show ?thesis using 3 o \<open>length s \<le> 20\<close> min
          by (simp add: c outputNumber_def Let_def B(2) front pad f number_front_def number_fill_def)
      next
        case False
        then show ?thesis using 3 o \<open>length s \<le> 20\<close> min
          by (cases isSigned) (simp_all add: c outputNumber_def Let_def B(2) front pad f number_front_def number_fill_def)
      qed
    qed
  next
    case False
    then have "outdigits base upper ?v 0 digit_buffer 20 = None" using D by simp
    then show ?thesis using ok False min
      by (cases "isSigned \<and> sint val < 0") (auto simp: outputNumber_def Let_def B(2) base_ok_def)
  qed
qed

lemma magnitude_less:
  "magnitude isSigned base val < 2 ^ 64"
proof -
  have "- (2 ^ 63) \<le> sint val" "sint val < 2 ^ 63" using sint_greater_eq [of val] sint_less [of val] by simp_all
  then have "nat \<bar>sint val\<bar> < 2 ^ 64" by simp
  moreover have "unat val < 2 ^ 64" using unsigned_less [where 'a = nat, of val] by simp
  ultimately show ?thesis by (simp add: magnitude_def)
qed

subsection \<open>Formats of plain conversions\<close>

datatype fmt_item = Text string | SDec u32 | SLong u64 | UDec u32 | Hex u64 | Str string

fun item_format :: "fmt_item \<Rightarrow> string" where
  "item_format (Text t) = t"
| "item_format (SDec _) = ''%d''"
| "item_format (SLong _) = ''%ld''"
| "item_format (UDec _) = ''%u''"
| "item_format (Hex _) = ''%lx''"
| "item_format (Str _) = ''%s''"

fun item_args :: "fmt_item \<Rightarrow> va_arg list" where
  "item_args (Text _) = []"
| "item_args (SDec x) = [VInt x]"
| "item_args (SLong x) = [VLong x]"
| "item_args (UDec x) = [VInt x]"
| "item_args (Hex x) = [VLong x]"
| "item_args (Str s) = [VString s]"

definition int_string :: "int \<Rightarrow> string" where
  "int_string n = (if n < 0 then ''-'' else []) @ numeral_string 10 False (nat \<bar>n\<bar>)"

fun item_text :: "fmt_item \<Rightarrow> string" where
  "item_text (Text t) = t"
| "item_text (SDec x) = int_string (sint x)"
| "item_text (SLong x) = int_string (sint x)"
| "item_text (UDec x) = numeral_string 10 False (unat x)"
| "item_text (Hex x) = numeral_string 16 False (unat x)"
| "item_text (Str s) = s"

fun item_ok :: "fmt_item \<Rightarrow> bool" where
  "item_ok (Text t) \<longleftrightarrow> CHR ''%'' \<notin> set t"
| "item_ok (SLong x) \<longleftrightarrow> sint x \<noteq> - (2 ^ 63)"
| "item_ok _ \<longleftrightarrow> True"

lemma plain_flags: "fm_flags fm = 0 \<Longrightarrow> \<not> hasFlag fm flag"
  by (simp add: hasFlag_def)

lemma outputNumber_plain:
  assumes "base_ok base False" "base \<noteq> 8" "isSigned \<and> base = 10 \<longrightarrow> sint val \<noteq> - (2 ^ 63)"
    and fm: "fm_flags fm = 0" "fm_width fm = 0"
  shows "\<exists>out. outputNumber fm val isSigned False base = Some out
    \<and> concat out = (if isSigned \<and> base = 10 \<and> sint val < 0 then ''-'' else [])
        @ numeral_string (unat base) False (magnitude isSigned base val)"
proof -
  let ?s = "numeral_string (unat base) False (magnitude isSigned base val)"
  have b: "10 \<le> unat base" using assms(1,2) by (auto simp: base_ok_def)
  have "(2 :: nat) ^ 64 \<le> 10 ^ 20" by simp
  moreover have "(10 :: nat) ^ 20 \<le> unat base ^ 20" by (rule power_mono [OF b]) simp
  ultimately have "magnitude isSigned base val < unat base ^ 20"
    using magnitude_less [of isSigned base val] by linarith
  then have l: "length ?s \<le> 20" using numeral_length [of "unat base" 20 False] b by simp
  note f = plain_flags [OF fm(1)]
  show ?thesis
    using outputNumber_eq [OF assms(1,3) refl refl refl, of fm] l f fm(2)
    by (auto simp: number_front_def number_fill_def)
qed

definition fm_plain :: "nat \<Rightarrow> string \<Rightarrow> formatter" where
  "fm_plain n rest = \<lparr>fm_c = rest, fm_flags = 0, fm_size = n, fm_width = 0, fm_precision = 0\<rparr>"

lemma fm_plain_simps [simp]:
  "fm_c (fm_plain n r) = r" "fm_flags (fm_plain n r) = 0" "fm_size (fm_plain n r) = n"
  "fm_width (fm_plain n r) = 0" "skip (fm_plain n r) = fm_plain n (tl r)"
  by (simp_all add: fm_plain_def skip_def)

text \<open>A conversion without flags, width and precision: everything up to it is parsed.\<close>

lemma plain_conversion:
  assumes "fm_c fm = CHR ''%'' # c # rest"
    and "flag_of c = None" "dec_digit c = None" "c \<noteq> CHR ''*''" "c \<noteq> CHR ''.''"
  shows "vparsef_step fm args = convert (parseLength (fm_plain (fm_size fm) (c # rest))) args"
  using assms
  by (cases fm) (simp add: vparsef_step_def peek_def parseFlags_def skip_def parseWidth_def parsePrecision_def
      Let_def fm_plain_def)

lemma conversion_letters:
  "flag_of CHR ''d'' = None" "dec_digit CHR ''d'' = None" "flag_of CHR ''l'' = None" "dec_digit CHR ''l'' = None"
  "flag_of CHR ''u'' = None" "dec_digit CHR ''u'' = None" "flag_of CHR ''s'' = None" "dec_digit CHR ''s'' = None"
  by code_simp+

lemma parseLength_plain:
  "parseLength (fm_plain n (CHR ''d'' # rest)) = fm_plain 0 (CHR ''d'' # rest)"
  "parseLength (fm_plain n (CHR ''u'' # rest)) = fm_plain 0 (CHR ''u'' # rest)"
  "parseLength (fm_plain n (CHR ''s'' # rest)) = fm_plain 0 (CHR ''s'' # rest)"
  "parseLength (fm_plain n (CHR ''l'' # CHR ''d'' # rest)) = fm_plain 8 (CHR ''d'' # rest)"
  "parseLength (fm_plain n (CHR ''l'' # CHR ''x'' # rest)) = fm_plain 8 (CHR ''x'' # rest)"
  by (simp_all add: parseLength_def peek_def fm_plain_def)

lemma convert_plain:
  "convert (fm_plain 0 (CHR ''d'' # r)) (VInt x # args)
    = do { out \<leftarrow> outputNumber (fm_plain 0 r) (scast x) True False 10; Some (out, fm_plain 0 r, args) }"
  "convert (fm_plain 8 (CHR ''d'' # r)) (VLong y # args)
    = do { out \<leftarrow> outputNumber (fm_plain 8 r) y True False 10; Some (out, fm_plain 8 r, args) }"
  "convert (fm_plain 0 (CHR ''u'' # r)) (VInt x # args)
    = do { out \<leftarrow> outputNumber (fm_plain 0 r) (ucast x) False False 10; Some (out, fm_plain 0 r, args) }"
  "convert (fm_plain 8 (CHR ''x'' # r)) (VLong y # args)
    = do { out \<leftarrow> outputNumber (fm_plain 8 r) y False False 16; Some (out, fm_plain 8 r, args) }"
  "convert (fm_plain 0 (CHR ''s'' # r)) (VString s # args) = Some ([s], fm_plain 0 r, args)"
  by (simp_all add: convert_def conv_signed_def conv_unsigned_def conv_string_def peek_def Let_def
      sizeof_wchar_t_def)

lemma sint_scast_32: "sint (scast (x :: u32) :: u64) = sint x"
proof -
  have b: "- (2 ^ 31) \<le> sint x" "sint x < 2 ^ 31" using sint_greater_eq [of x] sint_less [of x] by simp_all
  have "scast x = (of_int (sint x) :: u64)" by simp
  moreover have "sint (of_int (sint x) :: u64) = signed_take_bit 63 (sint x)" 
    by (simp only: signed_of_int) simp
  moreover have "signed_take_bit 63 (sint x) = sint x"
    by (rule signed_take_bit_int_eq_self) (use b in simp_all)
  ultimately show ?thesis by simp
qed

lemma unat_ucast_32: "unat (ucast (x :: u32) :: u64) = unat x"
proof -
  have "unat x < 2 ^ 32" using unsigned_less [where 'a = nat, of x] by simp
  then show ?thesis by (simp add: unsigned_ucast_eq take_bit_nat_eq_self)
qed

text \<open>The step of a conversion item.\<close>

lemma item_step:
  assumes "item_ok it" "fm_c fm = item_format it @ rest" "\<nexists>t. it = Text t"
  shows "\<exists>out fm'. vparsef_step fm (item_args it @ args) = Some (out, fm', args) \<and> fm_c fm' = rest
    \<and> concat out = item_text it"
proof -
  have ok: "base_ok 10 False" "base_ok 16 False" by (simp_all add: base_ok_def)
  note P = outputNumber_plain
  note step = plain_conversion [of fm] and L = conversion_letters
  have m: "magnitude True 10 v = nat \<bar>sint v\<bar>" "magnitude False b v = unat v" for v b
    by (simp_all add: magnitude_def)
  show ?thesis
  proof (cases it)
    case (Text t)
    then show ?thesis using assms(3) by simp
  next
    case (SDec x)
    have "sint x \<noteq> - (2 ^ 63)" using sint_greater_eq [of x] by simp
    then have "\<exists>out. outputNumber (fm_plain 0 rest) (scast x) True False 10 = Some out \<and> concat out = item_text it"
      using P [OF ok(1), of True "scast x" "fm_plain 0 rest"] SDec sint_scast_32 [of x]
      by (auto simp: int_string_def m)
    then show ?thesis
      using step [of "CHR ''d''" rest "item_args it @ args"] L assms(2) SDec
      by (auto simp: parseLength_plain convert_plain)
  next
    case (SLong x)
    then have "\<exists>out. outputNumber (fm_plain 8 rest) x True False 10 = Some out \<and> concat out = item_text it"
      using P [OF ok(1), of True x "fm_plain 8 rest"] assms(1) by (auto simp: int_string_def m)
    then show ?thesis
      using step [of "CHR ''l''" "CHR ''d'' # rest" "item_args it @ args"] L assms(2) SLong
      by (auto simp: parseLength_plain convert_plain)
  next
    case (UDec x)
    then have "\<exists>out. outputNumber (fm_plain 0 rest) (ucast x) False False 10 = Some out \<and> concat out = item_text it"
      using P [OF ok(1), of False "ucast x" "fm_plain 0 rest"] by (auto simp: m unat_ucast_32)
    then show ?thesis
      using step [of "CHR ''u''" rest "item_args it @ args"] L assms(2) UDec
      by (auto simp: parseLength_plain convert_plain)
  next
    case (Hex x)
    then have "\<exists>out. outputNumber (fm_plain 8 rest) x False False 16 = Some out \<and> concat out = item_text it"
      using P [OF ok(2), of False x "fm_plain 8 rest"] by (auto simp: m)
    then show ?thesis
      using step [of "CHR ''l''" "CHR ''x'' # rest" "item_args it @ args"] L assms(2) Hex
      by (auto simp: parseLength_plain convert_plain)
  next
    case (Str s)
    then show ?thesis
      using step [of "CHR ''s''" rest "item_args it @ args"] L assms(2)
      by (auto simp: parseLength_plain convert_plain)
  qed
qed

lemma vparsef_loop_Cons:
  assumes "vparsef_step fm args = Some (out, fm', args')" "fm_c fm \<noteq> []"
    and "vparsef_loop fm' args' = Some (out', fm'', args'')"
  shows "vparsef_loop fm args = Some (out @ out', fm'', args'')"
  using assms by (simp add: vparsef_loop.simps [of fm args])

lemma vparsef_loop_text:
  assumes "CHR ''%'' \<notin> set t" "fm_c fm = t @ r"
    and "vparsef_loop (fm\<lparr>fm_c := r\<rparr>) args = Some (out, fm', args')"
  shows "\<exists>out'. vparsef_loop fm args = Some (out', fm', args') \<and> concat out' = t @ concat out"
  using assms
proof (induction t arbitrary: fm)
  case Nil
  then have e: "fm\<lparr>fm_c := r\<rparr> = fm" by (cases fm) simp
  show ?case using Nil.prems(3) unfolding e by simp
next
  case (Cons c t)
  have step: "vparsef_step fm args = Some ([[c]], fm\<lparr>fm_c := t @ r\<rparr>, args)"
    using Cons.prems(1,2) by (auto simp: vparsef_step_def peek_def skip_def)
  obtain o2 where "vparsef_loop (fm\<lparr>fm_c := t @ r\<rparr>) args = Some (o2, fm', args')" "concat o2 = t @ concat out"
    using Cons.IH [of "fm\<lparr>fm_c := t @ r\<rparr>"] Cons.prems by auto
  then show ?case using vparsef_loop_Cons [OF step] Cons.prems(2) by fastforce
qed

lemma vparsef_loop_items:
  assumes "\<forall>it \<in> set items. item_ok it" "fm_c fm = concat (map item_format items)"
  shows "\<exists>out fm'. vparsef_loop fm (concat (map item_args items) @ args) = Some (out, fm', args)
    \<and> concat out = concat (map item_text items)"
  using assms
proof (induction items arbitrary: fm)
  case Nil
  then show ?case by (simp add: vparsef_loop.simps [of fm])
next
  case (Cons it items)
  let ?rest = "concat (map item_format items)"
  show ?case
  proof (cases "\<exists>t. it = Text t")
    case True
    then obtain t where t: "it = Text t" by blast
    obtain out fm' where l: "vparsef_loop (fm\<lparr>fm_c := ?rest\<rparr>) (concat (map item_args items) @ args) = Some (out, fm', args)"
      "concat out = concat (map item_text items)"
      using Cons.IH [of "fm\<lparr>fm_c := ?rest\<rparr>"] Cons.prems(1) by auto
    then show ?thesis using vparsef_loop_text [OF _ _ l(1), of t] Cons.prems t by auto
  next
    case False
    obtain out fm1 where step: "vparsef_step fm (item_args it @ (concat (map item_args items) @ args)) =
        Some (out, fm1, concat (map item_args items) @ args)" "fm_c fm1 = ?rest" "concat out = item_text it"
      using item_step [of it fm ?rest "concat (map item_args items) @ args"] Cons.prems False by auto
    obtain out' fm' where "vparsef_loop fm1 (concat (map item_args items) @ args) = Some (out', fm', args)"
      "concat out' = concat (map item_text items)"
      using Cons.IH [OF _ step(2)] Cons.prems(1) by auto
    moreover have "fm_c fm \<noteq> []" using Cons.prems(2) False by (cases it) auto
    ultimately show ?thesis using vparsef_loop_Cons [OF step(1)] step(3) by auto
  qed
qed

lemma percent_step:
  assumes "fm_c fm = ''%%'' @ s"
  shows "vparsef_step fm args = Some ([CHR ''%'' # s], fm_plain 0 s, args)"
proof -
  have l: "flag_of CHR ''%'' = None" "dec_digit CHR ''%'' = None" by code_simp+
  have "parseLength (fm_plain (fm_size fm) (CHR ''%'' # s)) = fm_plain 0 (CHR ''%'' # s)"
    by (simp add: parseLength_def peek_def fm_plain_def)
  then show ?thesis
    using plain_conversion [of fm "CHR ''%''" s args] l assms by (simp add: convert_def peek_def)
qed

lemma vparsef_items:
  assumes "\<forall>it \<in> set items. item_ok it"
  shows "\<exists>out. vparsef fm (concat (map item_format items)) (concat (map item_args items)) = Some out
    \<and> concat out = concat (map item_text items)"
  using vparsef_loop_items [OF assms, of "fm\<lparr>fm_c := concat (map item_format items)\<rparr>" "[]"]
  by (auto simp: vparsef_def)

subsection \<open>Properties\<close>

text \<open>C27: a format made of text, \<open>%d\<close>, \<open>%ld\<close>, \<open>%u\<close>, \<open>%lx\<close> and \<open>%s\<close> conversions, with an argument
  of the right type for each, is printed as the texts and the usual numerals of the arguments, in
  order; all arguments are used.\<close>

theorem vparsef_renders:
  assumes "\<forall>it \<in> set items. item_ok it"
  shows "\<exists>out. vparsef fm (concat (map item_format items)) (concat (map item_args items)) = Some out
    \<and> concat out = concat (map item_text items)"
  by (rule vparsef_items [OF assms])

definition demo_fm :: formatter where
  "demo_fm = \<lparr>fm_c = [], fm_flags = 7, fm_size = 3, fm_width = 12, fm_precision = 4\<rparr>"

lemma vparsef_renders_witness:
  "\<exists>out. vparsef demo_fm ''cpu %d of %s: 0x%lx'' [VInt (-3), VString ''os'', VLong 0xFFFF8000] = Some out
    \<and> concat out = ''cpu -3 of os: 0xffff8000''"
proof -
  let ?items = "[Text ''cpu '', SDec (-3), Text '' of '', Str ''os'', Text '': 0x'', Hex 0xFFFF8000]"
  have ok: "\<forall>it \<in> set ?items. item_ok it" by simp
  have t: "concat (map item_text ?items) = ''cpu -3 of os: 0xffff8000''"
    by (simp add: int_string_def numeral_eval)
  have f: "concat (map item_format ?items) = ''cpu %d of %s: 0x%lx''"
    "concat (map item_args ?items) = [VInt (-3), VString ''os'', VLong 0xFFFF8000]" by simp_all
  show ?thesis using vparsef_renders [OF ok, of demo_fm] unfolding t f .
qed

text \<open>C28: a number is printed in base 10 or 16 as its sign and prefix, the fill up to the width
  and the digits, the fill last when left justified; the digits read back in the base give the
  number's magnitude, and the text is as long as the width when it is wide enough.\<close>

theorem outputNumber_prints:
  assumes "base = 10 \<and> \<not> upper \<or> base = 16" "isSigned \<and> base = 10 \<longrightarrow> sint val \<noteq> - (2 ^ 63)"
  shows "\<exists>digits pad. outputNumber fm val isSigned upper base
      = Some (number_front fm val isSigned upper base
          @ (if hasFlag fm LeftJustify then [digits] @ pad else pad @ [digits]))
    \<and> numeral_value (unat base) digits = magnitude isSigned base val
    \<and> (\<forall>c \<in> set pad. c = (if hasFlag fm ZeroFlag then ''0'' else '' ''))
    \<and> (let n = length (concat (number_front fm val isSigned upper base)) + length digits
       in int (n + length pad) = max (fm_width fm) (int n))"
proof -
  have ok: "base_ok base upper" using assms(1) by (auto simp: base_ok_def)
  have b: "10 \<le> unat base" "unat base \<le> 16" using assms(1) by auto
  let ?s = "numeral_string (unat base) upper (magnitude isSigned base val)"
  have "(10 :: nat) ^ 20 \<le> unat base ^ 20" by (rule power_mono [OF b(1)]) simp
  then have "magnitude isSigned base val < unat base ^ 20"
    using magnitude_less [of isSigned base val] by (intro less_le_trans [OF _ \<open>10 ^ 20 \<le> unat base ^ 20\<close>]) simp
  then have l: "length ?s \<le> 20" using numeral_length [of "unat base" 20 upper] b by simp
  show ?thesis
    using outputNumber_eq [OF ok assms(2) refl refl refl, of fm] l numeral_round_trip_nat [of "unat base"] b
    by (intro exI [of _ ?s] exI [of _ "number_fill fm (length (concat (number_front fm val isSigned upper base)) + length ?s)"])
      (simp add: number_fill_def Let_def)
qed

lemma outputNumber_prints_witness:
  "\<exists>digits pad. outputNumber demo_fm (-250) True False 10 = Some (number_front demo_fm (-250) True False 10 @ [digits] @ pad)
    \<and> numeral_value 10 digits = 250 \<and> int (1 + length digits + length pad) = max 12 (int (1 + length digits))"
proof -
  have f: "hasFlag demo_fm LeftJustify" "fm_width demo_fm = 12" "magnitude True 10 (-250) = 250"
    "number_front demo_fm (-250) True False 10 = [''-'']"
    by code_simp+
  have "sint (-250 :: u64) \<noteq> - (2 ^ 63)" by simp
  then show ?thesis
    using outputNumber_prints [of 10 False True "-250" demo_fm] f by (auto simp: Let_def)
qed

text \<open>The digit buffer is too short for octal: a value of \<open>2 ^ 60\<close> or more has 21 or 22 octal
  digits, and the conversion stores in front of the buffer.\<close>

theorem outputNumber_octal_overflow:
  assumes "2 ^ 60 \<le> val"
  shows "outputNumber fm val isSigned False 8 = None"
proof -
  have "unat (2 ^ 60 :: u64) \<le> unat val" using assms by (simp only: word_le_nat_alt)
  then have "\<not> unat val < 8 ^ 20" by simp
  then have l: "\<not> length (numeral_string 8 False (unat val)) \<le> 20" using numeral_length [of 8 20 False "unat val"] by simp
  have "base_ok 8 False" by (simp add: base_ok_def)
  then show ?thesis using outputNumber_eq [OF _ _ refl refl refl, of 8 False isSigned val fm] l by (simp add: magnitude_def)
qed

lemma outputNumber_octal_overflow_witness: "outputNumber demo_fm 0xFFFFFFFFFFFFFFFF False False 8 = None"
  using outputNumber_octal_overflow [of "0xFFFFFFFFFFFFFFFF" demo_fm False] by simp

text \<open>The escape \<open>%%\<close> prints not one percent sign but the rest of the format from it on,
  which is then printed again.\<close>

theorem vparsef_percent_repeats:
  assumes "CHR ''%'' \<notin> set t"
  shows "\<exists>out. vparsef fm (''%%'' @ t) [] = Some out \<and> concat out = ''%'' @ t @ t"
proof -
  have last: "vparsef_loop (fm_plain 0 t\<lparr>fm_c := []\<rparr>) [] = Some ([], fm_plain 0 [], [])"
    by (simp add: vparsef_loop.simps fm_plain_def)
  obtain out where "vparsef_loop (fm_plain 0 t) [] = Some (out, fm_plain 0 [], [])" "concat out = t"
    using vparsef_loop_text [OF assms _ last] by auto
  then show ?thesis
    using vparsef_loop_Cons [OF percent_step [of "fm\<lparr>fm_c := ''%%'' @ t\<rparr>" t "[]"]] by (simp add: vparsef_def)
qed

lemma vparsef_percent_repeats_witness:
  "\<exists>out. vparsef demo_fm ''%% used'' [] = Some out \<and> concat out = ''% used used''"
  using vparsef_percent_repeats [of "'' used''" demo_fm] by simp

end
