(* ===== verification/Ostream.thy ===== *)
theory Ostream
  imports Format
begin

text \<open>
  The stream library (include/core/stdlib/ios.h, ostream.h, iomanip.h, sstream.h and
  core/src/main/cpp/stdlib/ostream.cpp).  Flags are words; a stream's own state is the record
  \<open>ios\<close>; \<open>write(const char*)\<close> is virtual, and what a stream writes is the list of the strings it
  is called with.  A manipulator is a function on the stream.
\<close>

subsection \<open>Flags\<close>

definition fmt_none :: u64 where "fmt_none = 0"
definition fmt_boolalpha :: u64 where "fmt_boolalpha = 0x0001"
definition fmt_showbase :: u64 where "fmt_showbase = 0x0002"
definition fmt_showpoint :: u64 where "fmt_showpoint = 0x0004"
definition fmt_showpos :: u64 where "fmt_showpos = 0x0008"
definition fmt_skipws :: u64 where "fmt_skipws = 0x0010"
definition fmt_unitbuf :: u64 where "fmt_unitbuf = 0x0020"
definition fmt_uppercase :: u64 where "fmt_uppercase = 0x0040"
definition fmt_dec :: u64 where "fmt_dec = 0x0080"
definition fmt_hex :: u64 where "fmt_hex = 0x0100"
definition fmt_oct :: u64 where "fmt_oct = 0x0200"
definition fmt_fixed :: u64 where "fmt_fixed = 0x0400"
definition fmt_scientific :: u64 where "fmt_scientific = 0x0800"
definition fmt_internal :: u64 where "fmt_internal = 0x1000"
definition fmt_left :: u64 where "fmt_left = 0x2000"
definition fmt_right :: u64 where "fmt_right = 0x4000"

definition fmt_or :: "u64 \<Rightarrow> u64 \<Rightarrow> u64" where "fmt_or a b = a OR b"
definition fmt_and :: "u64 \<Rightarrow> u64 \<Rightarrow> u64" where "fmt_and a b = a AND b"
definition fmt_xor :: "u64 \<Rightarrow> u64 \<Rightarrow> u64" where "fmt_xor a b = a XOR b"
definition fmt_compl :: "u64 \<Rightarrow> u64" where "fmt_compl a = NOT a"
definition fmt_not :: "u64 \<Rightarrow> bool" where "fmt_not a \<longleftrightarrow> a = fmt_none"

text \<open>The comparisons with an \<open>int\<close> look at the low 32 bits.\<close>

definition fmt_eq_int :: "u64 \<Rightarrow> u32 \<Rightarrow> bool" where "fmt_eq_int a b \<longleftrightarrow> ucast a = b"
definition fmt_ne_int :: "u64 \<Rightarrow> u32 \<Rightarrow> bool" where "fmt_ne_int a b \<longleftrightarrow> ucast a \<noteq> b"

subsection \<open>The state of a stream\<close>

record ios =
  st_width :: u64
  st_flags :: u64
  st_fill :: char

definition ios_init :: ios where
  "ios_init = \<lparr>st_width = 0, st_flags = fmt_none, st_fill = CHR '' ''\<rparr>"

definition setf :: "ios \<Rightarrow> u64 \<Rightarrow> ios" where
  "setf s f = s\<lparr>st_flags := fmt_or (st_flags s) f\<rparr>"

definition setf_mask :: "ios \<Rightarrow> u64 \<Rightarrow> u64 \<Rightarrow> ios" where
  "setf_mask s f m = s\<lparr>st_flags := fmt_or (fmt_and (st_flags s) (fmt_compl m)) (fmt_and f m)\<rparr>"

definition unsetf :: "ios \<Rightarrow> u64 \<Rightarrow> ios" where
  "unsetf s f = s\<lparr>st_flags := fmt_and (st_flags s) (fmt_compl f)\<rparr>"

definition set_width :: "ios \<Rightarrow> u64 \<Rightarrow> ios" where "set_width s w = s\<lparr>st_width := w\<rparr>"

definition set_fill :: "ios \<Rightarrow> char \<Rightarrow> ios" where "set_fill s c = s\<lparr>st_fill := c\<rparr>"

subsection \<open>Manipulators\<close>

definition m_boolalpha :: "ios \<Rightarrow> ios" where "m_boolalpha s = setf s fmt_boolalpha"
definition m_noboolalpha :: "ios \<Rightarrow> ios" where "m_noboolalpha s = unsetf s fmt_boolalpha"
definition m_showbase :: "ios \<Rightarrow> ios" where "m_showbase s = setf s fmt_showbase"
definition m_noshowbase :: "ios \<Rightarrow> ios" where "m_noshowbase s = unsetf s fmt_showbase"
definition m_showpoint :: "ios \<Rightarrow> ios" where "m_showpoint s = setf s fmt_showpoint"
definition m_noshowpoint :: "ios \<Rightarrow> ios" where "m_noshowpoint s = unsetf s fmt_showpoint"
definition m_showpos :: "ios \<Rightarrow> ios" where "m_showpos s = setf s fmt_showpos"
definition m_noshowpos :: "ios \<Rightarrow> ios" where "m_noshowpos s = unsetf s fmt_showpos"
definition m_skipws :: "ios \<Rightarrow> ios" where "m_skipws s = setf s fmt_skipws"
definition m_noskipws :: "ios \<Rightarrow> ios" where "m_noskipws s = unsetf s fmt_skipws"
definition m_unitbuf :: "ios \<Rightarrow> ios" where "m_unitbuf s = setf s fmt_unitbuf"
definition m_nounitbuf :: "ios \<Rightarrow> ios" where "m_nounitbuf s = unsetf s fmt_unitbuf"
definition m_uppercase :: "ios \<Rightarrow> ios" where "m_uppercase s = setf s fmt_uppercase"
definition m_nouppercase :: "ios \<Rightarrow> ios" where "m_nouppercase s = unsetf s fmt_uppercase"
definition m_dec :: "ios \<Rightarrow> ios" where "m_dec s = setf (unsetf s (fmt_hex OR fmt_oct)) fmt_dec"
definition m_hex :: "ios \<Rightarrow> ios" where "m_hex s = setf (unsetf s (fmt_dec OR fmt_oct)) fmt_hex"
definition m_oct :: "ios \<Rightarrow> ios" where "m_oct s = setf (unsetf s (fmt_hex OR fmt_dec)) fmt_oct"
definition m_fixed :: "ios \<Rightarrow> ios" where "m_fixed s = setf (unsetf s fmt_scientific) fmt_fixed"
definition m_scientific :: "ios \<Rightarrow> ios" where "m_scientific s = setf (unsetf s fmt_fixed) fmt_scientific"
definition m_internal :: "ios \<Rightarrow> ios" where "m_internal s = setf (unsetf s (fmt_left OR fmt_right)) fmt_internal"
definition m_left :: "ios \<Rightarrow> ios" where "m_left s = setf (unsetf s (fmt_internal OR fmt_right)) fmt_left"
definition m_right :: "ios \<Rightarrow> ios" where "m_right s = setf (unsetf s (fmt_left OR fmt_internal)) fmt_right"

text \<open>iomanip.h: \<open>setw\<close> converts its \<open>int\<close> to \<open>size_t\<close>.\<close>

definition m_setw :: "u32 \<Rightarrow> ios \<Rightarrow> ios" where "m_setw n s = set_width s (scast n)"
definition m_setiosflags :: "u64 \<Rightarrow> ios \<Rightarrow> ios" where "m_setiosflags f s = setf s f"
definition m_resetiosflags :: "u64 \<Rightarrow> ios \<Rightarrow> ios" where "m_resetiosflags f s = unsetf s f"
definition m_setfill :: "char \<Rightarrow> ios \<Rightarrow> ios" where "m_setfill c s = set_fill s c"
definition m_setbase :: "u32 \<Rightarrow> ios \<Rightarrow> ios" where
  "m_setbase b s = (if b = 10 then m_dec s else if b = 16 then m_hex s else if b = 8 then m_oct s else s)"

subsection \<open>Writing\<close>

definition cstring1 :: "char \<Rightarrow> string" where
  "cstring1 c = (if c = NUL then [] else [c])"

text \<open>\<open>for (; printed < width; printed++) stream << fillstr\<close>: \<open>printed\<close> is an \<open>int\<close>, which is
  converted to \<open>size_t\<close> for the comparison and must not overflow.\<close>

function pad_loop :: "string \<Rightarrow> u64 \<Rightarrow> int \<Rightarrow> (chars_out \<times> int) option" where
  "pad_loop fillstr width printed =
     (if of_int printed < width then
        if 2 ^ 31 \<le> printed + 1 then None
        else map_option (\<lambda>(out, printed). (fillstr # out, printed)) (pad_loop fillstr width (printed + 1))
      else Some ([], printed))"
  by pat_completeness auto
termination by (relation "measure (\<lambda>(_, _, printed). nat (2 ^ 31 - printed))") auto

declare pad_loop.simps [simp del]

text \<open>The sign and the prefix are counted before any padding is written.\<close>

definition count_front :: "bool \<Rightarrow> bool \<Rightarrow> bool \<Rightarrow> bool \<Rightarrow> bool \<Rightarrow> int \<Rightarrow> int" where
  "count_front showsign hex octal showbase nonzero printed =
     (let printed = (if showsign then printed + 1 else printed)
      in if (hex \<or> octal) \<and> showbase then printed + (if hex then 2 else if nonzero then 1 else 0)
         else printed)"

definition out_number :: "ios \<Rightarrow> u64 \<Rightarrow> bool \<Rightarrow> bool \<Rightarrow> chars_out option" where
  "out_number s value isSigned negative =
     (let flags = st_flags s;
          width = st_width s;
          showsign = ((isSigned \<and> negative) \<or> fmt_ne_int (fmt_and flags fmt_showpos) 0);
          upper = fmt_ne_int (fmt_and flags fmt_uppercase) 0;
          hex = fmt_ne_int (fmt_and flags fmt_hex) 0;
          octal = fmt_ne_int (fmt_and flags fmt_oct) 0;
          left = fmt_ne_int (fmt_and flags fmt_left) 0;
          internal = fmt_ne_int (fmt_and flags fmt_internal) 0;
          showbase = fmt_ne_int (fmt_and flags fmt_showbase) 0
      in do {
        (printed, buffer, str) \<leftarrow>
          (if hex then if upper then outdigits 16 True value 0 digit_buffer (int buffer_chrs)
                       else outdigits 16 False value 0 digit_buffer (int buffer_chrs)
           else if octal then outdigits 8 False value 0 digit_buffer (int buffer_chrs)
           else outdigits 10 False value 0 digit_buffer (int buffer_chrs));
        let fillstr = cstring1 (st_fill s);
        let printed = count_front showsign hex octal showbase (value \<noteq> 0) printed;
        let sign = (if showsign then [if negative then ''-'' else ''+''] else []);
        let prefix = (if showbase then
                        if hex then [if upper then ''0X'' else ''0x'']
                        else if octal \<and> value \<noteq> 0 then [''0''] else []
                      else []);
        (pad1, printed) \<leftarrow> (if left then pad_loop fillstr width printed else Some ([], printed));
        (pad2, printed) \<leftarrow> (if internal then pad_loop fillstr width printed else Some ([], printed));
        (pad3, printed) \<leftarrow> pad_loop fillstr width printed;
        Some (pad1 @ sign @ prefix @ pad2 @ [cstr_at buffer str] @ pad3)
      })"

text \<open>\<open>ostream::write(uintmax_t, bool)\<close>: the comparison \<open>value < 0\<close> is one of unsigned values.\<close>

definition write_number :: "ios \<Rightarrow> u64 \<Rightarrow> bool \<Rightarrow> chars_out option" where
  "write_number s value is_signed =
     (let positive = (if is_signed \<and> sint value < 0 then NOT value + 1 else value)
      in out_number s positive is_signed (value < 0))"

text \<open>The insertion operators: a string, an integer of a signed or an unsigned type, a truth
  value, a manipulator, \<open>flush\<close> and \<open>endl\<close>.\<close>

definition insert_string :: "ios \<Rightarrow> string \<Rightarrow> chars_out option" where
  "insert_string s str = Some [str]"

definition insert_signed :: "ios \<Rightarrow> 'a::len word \<Rightarrow> chars_out option" where
  "insert_signed s x = write_number s (scast x) True"

definition insert_unsigned :: "ios \<Rightarrow> 'a::len word \<Rightarrow> chars_out option" where
  "insert_unsigned s x = write_number s (ucast x) False"

definition insert_bool :: "ios \<Rightarrow> bool \<Rightarrow> chars_out option" where
  "insert_bool s b =
     insert_string s (if \<not> fmt_not (fmt_and (st_flags s) fmt_uppercase)
       then if b then ''TRUE'' else ''FALSE'' else if b then ''true'' else ''false'')"

text \<open>\<open>endl\<close>: a line end, then the stream's own \<open>flush\<close>.\<close>

datatype stream_event = Write string | Flush

definition stream_flush :: "stream_event list" where "stream_flush = [Flush]"

definition stream_endl :: "stream_event list" where
  "stream_endl = Write [CHR 0x0A] # stream_flush"

end
