(* ===== verification/OstreamProps.thy ===== *)
theory OstreamProps
  imports Ostream FormatProps
begin

text \<open>
  Properties of the streams: which flags can be set together when only manipulators set them,
  what a number is written as, and what becomes of its sign.
\<close>

subsection \<open>Flags\<close>

lemmas fmt_flag_defs = fmt_none_def fmt_boolalpha_def fmt_showbase_def fmt_showpoint_def fmt_showpos_def
  fmt_skipws_def fmt_unitbuf_def fmt_uppercase_def fmt_dec_def fmt_hex_def fmt_oct_def fmt_fixed_def
  fmt_scientific_def fmt_internal_def fmt_left_def fmt_right_def

lemmas fmt_op_defs = fmt_or_def fmt_and_def fmt_xor_def fmt_compl_def fmt_not_def

lemmas manipulator_defs = setf_def unsetf_def m_boolalpha_def m_noboolalpha_def m_showbase_def
  m_noshowbase_def m_showpoint_def m_noshowpoint_def m_showpos_def m_noshowpos_def m_skipws_def
  m_noskipws_def m_unitbuf_def m_nounitbuf_def m_uppercase_def m_nouppercase_def m_dec_def m_hex_def
  m_oct_def m_fixed_def m_scientific_def m_internal_def m_left_def m_right_def

text \<open>The manipulators without an argument that a user names; then all streams they lead to.\<close>

definition manipulators :: "(ios \<Rightarrow> ios) set" where
  "manipulators = {m_boolalpha, m_noboolalpha, m_showbase, m_noshowbase, m_showpoint, m_noshowpoint,
     m_showpos, m_noshowpos, m_skipws, m_noskipws, m_unitbuf, m_nounitbuf, m_uppercase, m_nouppercase,
     m_dec, m_hex, m_oct, m_fixed, m_scientific, m_internal, m_left, m_right}"

text \<open>The flags of which a stream should have at most one of a kind.\<close>

definition field_flags :: u64 where
  "field_flags = fmt_dec OR fmt_hex OR fmt_oct OR fmt_fixed OR fmt_scientific OR fmt_internal OR fmt_left OR fmt_right"

text \<open>Every manipulator of ios.h and iomanip.h; \<open>setiosflags\<close> only with flags of no such kind, because it
  sets a flag and does not clear the others of its kind.\<close>

inductive manipulated :: "ios \<Rightarrow> bool" where
  start: "manipulated ios_init"
| manip: "manipulated s \<Longrightarrow> f \<in> manipulators \<Longrightarrow> manipulated (f s)"
| setw: "manipulated s \<Longrightarrow> manipulated (m_setw n s)"
| setfill: "manipulated s \<Longrightarrow> manipulated (m_setfill c s)"
| setbase: "manipulated s \<Longrightarrow> manipulated (m_setbase b s)"
| setiosflags: "manipulated s \<Longrightarrow> f AND field_flags = 0 \<Longrightarrow> manipulated (m_setiosflags f s)"
| resetiosflags: "manipulated s \<Longrightarrow> manipulated (m_resetiosflags f s)"

text \<open>A flag is the bit of its number.\<close>

definition has :: "ios \<Rightarrow> nat \<Rightarrow> bool" where
  "has s n \<longleftrightarrow> bit (st_flags s) n"

definition at_most_one :: "ios \<Rightarrow> nat list \<Rightarrow> bool" where
  "at_most_one s ns \<longleftrightarrow> length (filter (has s) ns) \<le> 1"

definition flags_exclusive :: "ios \<Rightarrow> bool" where
  "flags_exclusive s \<longleftrightarrow> at_most_one s [7, 8, 9] \<and> at_most_one s [10, 11] \<and> at_most_one s [12, 13, 14]"

lemma flag_bits:
  "fmt_boolalpha = push_bit 0 1" "fmt_showbase = push_bit 1 1" "fmt_showpoint = push_bit 2 1"
  "fmt_showpos = push_bit 3 1" "fmt_skipws = push_bit 4 1" "fmt_unitbuf = push_bit 5 1"
  "fmt_uppercase = push_bit 6 1" "fmt_dec = push_bit 7 1" "fmt_hex = push_bit 8 1" "fmt_oct = push_bit 9 1"
  "fmt_fixed = push_bit 10 1" "fmt_scientific = push_bit 11 1" "fmt_internal = push_bit 12 1"
  "fmt_left = push_bit 13 1" "fmt_right = push_bit 14 1"
  by (simp_all add: fmt_flag_defs push_bit_eq_mult)

lemma bit_flag: "bit (push_bit k 1 :: u64) n \<longleftrightarrow> n = k \<and> k < 64"
  by (auto simp: bit_simps possible_bit_def)

lemma has_setf: "n < 64 \<Longrightarrow> has (setf s f) n \<longleftrightarrow> has s n \<or> bit f n"
  by (simp add: has_def setf_def fmt_op_defs bit_or_iff)

lemma has_unsetf: "n < 64 \<Longrightarrow> has (unsetf s f) n \<longleftrightarrow> has s n \<and> \<not> bit f n"
  by (simp add: has_def unsetf_def fmt_op_defs bit_and_iff bit_not_iff)

lemma bit_fmt_or: "bit (a OR b :: u64) n \<longleftrightarrow> bit a n \<or> bit b n"
  by (rule bit_or_iff)

lemma manipulator_exclusive:
  assumes "flags_exclusive s" "f \<in> manipulators"
  shows "flags_exclusive (f s)"
  using assms(2) assms(1)
  unfolding manipulators_def insert_iff empty_iff
  by (elim disjE)
    (simp_all add: flags_exclusive_def at_most_one_def manipulator_defs(3-) flag_bits has_setf has_unsetf
      bit_fmt_or bit_flag split: if_splits)

lemma flags_exclusive_keep [simp]:
  "flags_exclusive (m_setw n s) = flags_exclusive s" "flags_exclusive (m_setfill c s) = flags_exclusive s"
  by (simp_all add: flags_exclusive_def at_most_one_def has_def m_setw_def m_setfill_def set_width_def set_fill_def)

lemma field_flags_bits:
  assumes "f AND field_flags = 0" "n \<in> {7, 8, 9, 10, 11, 12, 13, 14}"
  shows "\<not> bit f n"
proof -
  have "bit field_flags n"
    using assms(2) unfolding field_flags_def flag_bits bit_fmt_or bit_flag by auto
  moreover have "bit (f AND field_flags) n \<longleftrightarrow> bit f n \<and> bit field_flags n" by (rule bit_and_iff)
  ultimately show ?thesis using assms(1) by simp
qed

lemma setiosflags_exclusive:
  assumes "flags_exclusive s" "f AND field_flags = 0"
  shows "flags_exclusive (m_setiosflags f s)"
proof -
  have e: "at_most_one (m_setiosflags f s) ns = at_most_one s ns" if "\<forall>n \<in> set ns. n < 64 \<and> \<not> bit f n" for ns
  proof -
    have "filter (has (m_setiosflags f s)) ns = filter (has s) ns"
      using that by (induction ns) (auto simp: m_setiosflags_def has_setf)
    then show ?thesis by (simp add: at_most_one_def)
  qed
  have b: "\<not> bit f 7" "\<not> bit f 8" "\<not> bit f 9" "\<not> bit f 10" "\<not> bit f 11" "\<not> bit f 12" "\<not> bit f 13" "\<not> bit f 14"
    by (rule field_flags_bits [OF assms(2)]; simp)+
  show ?thesis using assms(1) b by (simp add: flags_exclusive_def e)
qed

lemma resetiosflags_exclusive:
  assumes "flags_exclusive s"
  shows "flags_exclusive (m_resetiosflags f s)"
proof -
  have "at_most_one (m_resetiosflags f s) ns" if "at_most_one s ns" "\<forall>n \<in> set ns. n < 64" for ns
  proof -
    have "filter (has (m_resetiosflags f s)) ns = filter (\<lambda>n. \<not> bit f n) (filter (has s) ns)"
      using that(2) by (induction ns) (auto simp: m_resetiosflags_def has_unsetf)
    then show ?thesis
      using that(1) length_filter_le [of "\<lambda>n. \<not> bit f n" "filter (has s) ns"] by (simp add: at_most_one_def)
  qed
  then show ?thesis using assms by (simp add: flags_exclusive_def)
qed

lemma setiosflags_two_bases: "\<not> flags_exclusive (m_setiosflags fmt_hex (m_dec s))"
  by (simp add: flags_exclusive_def at_most_one_def m_setiosflags_def m_dec_def flag_bits has_setf has_unsetf
      bit_fmt_or bit_flag)

lemma manipulated_exclusive_spec: "manipulated s \<Longrightarrow> flags_exclusive s"
proof (induction rule: manipulated.induct)
  case start
  show ?case by (simp add: flags_exclusive_def at_most_one_def has_def ios_init_def fmt_flag_defs)
next
  case (setbase s b)
  have "m_dec \<in> manipulators" "m_hex \<in> manipulators" "m_oct \<in> manipulators" by (simp_all add: manipulators_def)
  then show ?case using setbase manipulator_exclusive by (simp add: m_setbase_def)
qed (simp_all add: manipulator_exclusive setiosflags_exclusive resetiosflags_exclusive)

subsection \<open>Numbers\<close>

lemma uint_less_31:
  assumes "unat (w :: u64) < 2 ^ 31"
  shows "uint w < 2 ^ 31"
proof -
  have "int (unat w) < int (2 ^ 31)" using assms by (simp only: of_nat_less_iff)
  then show ?thesis by simp
qed

lemma pad_loop_eq:
  assumes "0 \<le> p" "p < 2 ^ 31" "unat w < 2 ^ 31"
  shows "pad_loop f w p = Some (replicate (nat (uint w - p)) f, max (uint w) p)"
  using assms
proof (induction f w p rule: pad_loop.induct)
  case (1 f w p)
  have u: "uint (of_int p :: u64) = p" using 1(2,3) by (simp add: uint_word_of_int)
  have c: "of_int p < w \<longleftrightarrow> p < uint w" by (simp add: word_less_def u)
  have w: "uint w < 2 ^ 31" by (rule uint_less_31 [OF 1(4)])
  show ?case
  proof (cases "p < uint w")
    case True
    then have n: "nat (uint w - p) = Suc (nat (uint w - (p + 1)))" by simp
    have "pad_loop f w (p + 1) = Some (replicate (nat (uint w - (p + 1))) f, max (uint w) (p + 1))"
    proof (rule 1(1))
      show "of_int p < w" using True c by simp
      show "\<not> 2 ^ 31 \<le> p + 1" "p + 1 < 2 ^ 31" using True w by linarith+
      show "0 \<le> p + 1" using 1(2) by linarith
      show "unat w < 2 ^ 31" by (rule 1(4))
    qed
    then show ?thesis using True c w n by (simp add: pad_loop.simps [of f w p])
  next
    case False
    then show ?thesis using c by (simp add: pad_loop.simps [of f w p])
  qed
qed

text \<open>The flags that \<open>out\<close> looks at.\<close>

definition flag_set :: "ios \<Rightarrow> u64 \<Rightarrow> bool" where
  "flag_set s f \<longleftrightarrow> fmt_ne_int (fmt_and (st_flags s) f) 0"

definition stream_base :: "ios \<Rightarrow> u64" where
  "stream_base s = (if flag_set s fmt_hex then 16 else if flag_set s fmt_oct then 8 else 10)"

definition stream_upper :: "ios \<Rightarrow> bool" where
  "stream_upper s \<longleftrightarrow> flag_set s fmt_hex \<and> flag_set s fmt_uppercase"

definition stream_sign :: "ios \<Rightarrow> chars_out" where
  "stream_sign s = (if flag_set s fmt_showpos then [''+''] else [])"

definition stream_prefix :: "ios \<Rightarrow> u64 \<Rightarrow> chars_out" where
  "stream_prefix s v =
     (if flag_set s fmt_showbase then
        if flag_set s fmt_hex then [if flag_set s fmt_uppercase then ''0X'' else ''0x'']
        else if flag_set s fmt_oct \<and> v \<noteq> 0 then [''0''] else []
      else [])"

definition stream_pad :: "ios \<Rightarrow> nat \<Rightarrow> chars_out" where
  "stream_pad s n = replicate (nat (uint (st_width s) - int n)) (cstring1 (st_fill s))"

lemma out_number_eq:
  assumes w: "unat (st_width s) < 2 ^ 31"
    and d: "d = numeral_string (unat (stream_base s)) (stream_upper s) (unat v)"
    and n: "n = length (concat (stream_sign s @ stream_prefix s v)) + length d"
  shows "out_number s v isSigned False =
    (if length d \<le> 20 then
       Some (if flag_set s fmt_left then stream_pad s n @ stream_sign s @ stream_prefix s v @ [d]
             else if flag_set s fmt_internal then stream_sign s @ stream_prefix s v @ stream_pad s n @ [d]
             else stream_sign s @ stream_prefix s v @ [d] @ stream_pad s n)
     else None)"
proof -
  have ok: "base_ok (stream_base s) (stream_upper s)"
    by (simp add: base_ok_def stream_base_def stream_upper_def)
  have B: "digit_buffer = replicate 21 NUL" "int buffer_chrs = 20" by (simp_all add: digit_buffer_def buffer_chrs_def)
  note D = outdigits_buffer [OF ok d, folded B(1)]
  have O: "(if flag_set s fmt_hex then if flag_set s fmt_uppercase then outdigits 16 True v 0 digit_buffer (int buffer_chrs)
                       else outdigits 16 False v 0 digit_buffer (int buffer_chrs)
           else if flag_set s fmt_oct then outdigits 8 False v 0 digit_buffer (int buffer_chrs)
           else outdigits 10 False v 0 digit_buffer (int buffer_chrs))
      = outdigits (stream_base s) (stream_upper s) v 0 digit_buffer 20"
    by (simp add: stream_base_def stream_upper_def B(2))
  note unfold = out_number_def Let_def flag_set_def [symmetric] O
  show ?thesis
  proof (cases "length d \<le> 20")
    case True
    then obtain buf pos where o: "outdigits (stream_base s) (stream_upper s) v 0 digit_buffer 20 = Some (int (length d), buf, pos)"
      "cstr_at buf pos = d" using D by auto
    have n20: "n \<le> 23" using True by (auto simp: n stream_sign_def stream_prefix_def)
    have p: "pad_loop f (st_width s) (int n) = Some (replicate (nat (uint (st_width s) - int n)) f, max (uint (st_width s)) (int n))" for f
      by (rule pad_loop_eq) (use n20 w in simp_all)
    have q: "pad_loop f (st_width s) (max (uint (st_width s)) (int n)) = Some ([], max (uint (st_width s)) (int n))" for f
      using pad_loop_eq [of "max (uint (st_width s)) (int n)" "st_width s" f] w n20 uint_less_31 [OF w]
      by simp
    have pr: "count_front (flag_set s fmt_showpos) (flag_set s fmt_hex) (flag_set s fmt_oct) (flag_set s fmt_showbase)
        (v \<noteq> 0) (int (length d)) = int n"
      by (simp add: n stream_sign_def stream_prefix_def count_front_def Let_def)
    show ?thesis
      using True o p q pr unfolding unfold by (simp add: stream_sign_def stream_prefix_def stream_pad_def)
  next
    case False
    then have "outdigits (stream_base s) (stream_upper s) v 0 digit_buffer 20 = None" using D by simp
    then show ?thesis using False unfolding unfold by simp
  qed
qed

subsection \<open>Properties\<close>

text \<open>C29: whatever manipulators a stream goes through, at most one base, at most one of \<open>fixed\<close>
  and \<open>scientific\<close> and at most one adjustment are set, as long as \<open>setiosflags\<close> is not used for one of
  these flags; it clears no other flag, so that \<open>setiosflags\<close> of \<open>hex\<close> after \<open>dec\<close> sets two bases.\<close>

theorem manipulated_exclusive:
  assumes "manipulated s"
  shows "flags_exclusive s \<and> \<not> flags_exclusive (m_setiosflags fmt_hex (m_dec s))"
  using manipulated_exclusive_spec [OF assms] setiosflags_two_bases by blast

lemma manipulated_exclusive_witness:
  "flags_exclusive (m_left (m_internal (m_setw 8 (m_setiosflags fmt_showbase (m_setbase 16 (m_oct ios_init))))))"
proof (rule manipulated_exclusive [THEN conjunct1])
  have m: "m_oct \<in> manipulators" "m_internal \<in> manipulators" "m_left \<in> manipulators" by (simp_all add: manipulators_def)
  have f: "fmt_showbase AND field_flags = 0" by (simp add: field_flags_def fmt_flag_defs)
  show "manipulated (m_left (m_internal (m_setw 8 (m_setiosflags fmt_showbase (m_setbase 16 (m_oct ios_init))))))"
    by (rule manip [OF manip [OF setw [OF setiosflags [OF setbase [OF manip [OF start m(1)]] f]] m(2)] m(3)])
qed

text \<open>C30: a number that fits the digit buffer is written as its sign, its prefix and its digits
  with padding up to the width; the digits read back in the stream's base give the number; the
  padding comes first with the flag \<open>left\<close>, before the digits with \<open>internal\<close>, and otherwise,
  with \<open>right\<close> too, last.\<close>

theorem write_number_prints:
  assumes "unat (st_width s) < 2 ^ 31" "flag_set s fmt_hex \<or> \<not> flag_set s fmt_oct \<or> v < 2 ^ 60"
  shows "\<exists>digits pad. write_number s v False = Some
      (if flag_set s fmt_left then pad @ stream_sign s @ stream_prefix s v @ [digits]
       else if flag_set s fmt_internal then stream_sign s @ stream_prefix s v @ pad @ [digits]
       else stream_sign s @ stream_prefix s v @ [digits] @ pad)
    \<and> numeral_value (unat (stream_base s)) digits = unat v
    \<and> (\<forall>c \<in> set pad. c = cstring1 (st_fill s))
    \<and> (let n = length (concat (stream_sign s @ stream_prefix s v)) + length digits
       in int (n + length pad) = max (uint (st_width s)) (int n))"
proof -
  let ?b = "unat (stream_base s)"
  let ?d = "numeral_string ?b (stream_upper s) (unat v)"
  let ?n = "length (concat (stream_sign s @ stream_prefix s v)) + length ?d"
  have b: "2 \<le> ?b" "?b \<le> 16" by (simp_all add: stream_base_def)
  have "unat v < ?b ^ 20"
  proof (cases "?b = 8")
    case True
    then have "v < 2 ^ 60" using assms(2) by (auto simp: stream_base_def split: if_splits)
    then have "unat v < unat (2 ^ 60 :: u64)" by (simp only: word_less_nat_alt)
    then show ?thesis using True by simp
  next
    case False
    then have "10 \<le> ?b" by (auto simp: stream_base_def split: if_splits)
    then have "(10 :: nat) ^ 20 \<le> ?b ^ 20" by (rule power_mono) simp
    moreover have "unat v < 2 ^ 64" using unsigned_less [where 'a = nat, of v] by simp
    ultimately show ?thesis by (intro less_le_trans [OF _ \<open>10 ^ 20 \<le> ?b ^ 20\<close>]) simp
  qed
  then have l: "length ?d \<le> 20" using numeral_length [of ?b 20] b by simp
  show ?thesis
    using out_number_eq [OF assms(1) refl refl, of v False] l numeral_round_trip_nat [OF b]
    by (intro exI [of _ ?d] exI [of _ "stream_pad s ?n"]) (simp add: write_number_def Let_def stream_pad_def)
qed

definition demo_stream :: ios where
  "demo_stream = m_showbase (m_hex (m_internal (m_setfill CHR ''0'' (m_setw 10 ios_init))))"

lemma write_number_prints_witness:
  "\<exists>digits pad. write_number demo_stream 0xBEEF False = Some ([] @ [''0x''] @ pad @ [digits])
    \<and> numeral_value 16 digits = 0xBEEF \<and> int (2 + length digits + length pad) = max 10 (int (2 + length digits))"
proof -
  have f: "flag_set demo_stream fmt_hex" "\<not> flag_set demo_stream fmt_left" "flag_set demo_stream fmt_internal"
    "stream_sign demo_stream = []" "stream_prefix demo_stream 0xBEEF = [''0x'']" "stream_base demo_stream = 16"
    "st_width demo_stream = 10"
    by code_simp+
  then show ?thesis using write_number_prints [of demo_stream "0xBEEF"] by (auto simp: Let_def)
qed

text \<open>The sign of a negative number is lost: a negative value is written exactly as the value of
  the opposite sign, with or without \<open>showpos\<close>.\<close>

theorem write_number_loses_sign:
  assumes "sint v < 0" "sint v \<noteq> - (2 ^ 63)"
  shows "write_number s v True = write_number s (- v) True"
proof -
  have "- sint v < 2 ^ 63" "0 < - sint v" using assms sint_greater_eq [of v] by simp_all
  then have "signed_take_bit 63 (- sint v) = - sint v" by (intro signed_take_bit_int_eq_self) simp_all
  moreover have "sint (of_int (- sint v) :: u64) = signed_take_bit 63 (- sint v)" by (simp only: signed_of_int) simp
  ultimately have "sint (- v) = - sint v" by simp
  then show ?thesis
    using assms(1) by (simp add: write_number_def not_eq_complement)
qed

lemma write_number_loses_sign_witness:
  "write_number ios_init (-42) True = write_number ios_init 42 True"
  using write_number_loses_sign [of "-42" ios_init] by simp

end
