(* ===== verification/Display.thy ===== *)
theory Display
  imports Prelude "HOL-Library.Monad_Syntax"
begin

text \<open>
  The text display: the frame buffer (include/packages/framebuf/framebuf.h), the font
  (include/packages/mbedfont/mbedfont.h) and the console on it
  (include/packages/simpletext/simpletext.h).

  The pixels are the list of the frame buffer's memory; a pixel outside it is undefined and so
  is \<open>None\<close>.  A pointer into it is its index, a \<open>size_t\<close>.  A \<open>char\<close> is a byte, negative from 128
  on.  The loop counters of type \<open>int\<close> stay below the dimensions they are compared with.
\<close>

subsection \<open>Frame buffer\<close>

record frame_buffer =
  fb_pixels :: "u32 list"
  fb_width :: u64
  fb_height :: u64
  fb_stride :: u64

definition put_pixel :: "frame_buffer \<Rightarrow> u64 \<Rightarrow> u32 \<Rightarrow> frame_buffer option" where
  "put_pixel fb i color =
     (if unat i < length (fb_pixels fb) then Some (fb\<lparr>fb_pixels := (fb_pixels fb)[unat i := color]\<rparr>)
      else None)"

definition get_pixel :: "frame_buffer \<Rightarrow> u64 \<Rightarrow> u32 option" where
  "get_pixel fb i = (if unat i < length (fb_pixels fb) then Some (fb_pixels fb ! unat i) else None)"

definition setPixel :: "frame_buffer \<Rightarrow> u64 \<Rightarrow> u64 \<Rightarrow> u32 \<Rightarrow> frame_buffer option" where
  "setPixel fb x y color = put_pixel fb (y * fb_stride fb + x) color"

text \<open>\<open>clear\<close>: \<open>left\<close> counts the pixels of the row, or the rows, still to come.\<close>

fun fill_row :: "u32 \<Rightarrow> u64 \<Rightarrow> nat \<Rightarrow> frame_buffer \<Rightarrow> frame_buffer option" where
  "fill_row color p 0 fb = Some fb"
| "fill_row color p (Suc left) fb =
     do { fb \<leftarrow> put_pixel fb p color; fill_row color (p + 1) left fb }"

fun clear_rows :: "u32 \<Rightarrow> u64 \<Rightarrow> nat \<Rightarrow> frame_buffer \<Rightarrow> frame_buffer option" where
  "clear_rows color y 0 fb = Some fb"
| "clear_rows color y (Suc left) fb =
     do { fb \<leftarrow> fill_row color (y * fb_stride fb) (unat (fb_width fb)) fb;
          clear_rows color (y + 1) left fb }"

definition clear_buffer :: "u32 \<Rightarrow> frame_buffer \<Rightarrow> frame_buffer option" where
  "clear_buffer color fb = clear_rows color 0 (unat (fb_height fb)) fb"

subsection \<open>Font\<close>

definition kFont8x8Width :: u64 where "kFont8x8Width = 8"
definition kFont8x8Height :: u64 where "kFont8x8Height = 8"

definition font8x8_basic :: "u8 list list" where
  "font8x8_basic =
   [[0x00, 0x00, 0x00, 0x00, 0x00, 0x00, 0x00, 0x00],
    [0x00, 0x00, 0x00, 0x00, 0x00, 0x00, 0x00, 0x00],
    [0x00, 0x00, 0x00, 0x00, 0x00, 0x00, 0x00, 0x00],
    [0x00, 0x00, 0x00, 0x00, 0x00, 0x00, 0x00, 0x00],
    [0x00, 0x00, 0x00, 0x00, 0x00, 0x00, 0x00, 0x00],
    [0x00, 0x00, 0x00, 0x00, 0x00, 0x00, 0x00, 0x00],
    [0x00, 0x00, 0x00, 0x00, 0x00, 0x00, 0x00, 0x00],
    [0x00, 0x00, 0x00, 0x00, 0x00, 0x00, 0x00, 0x00],
    [0x00, 0x00, 0x00, 0x00, 0x00, 0x00, 0x00, 0x00],
    [0x00, 0x00, 0x00, 0x00, 0x00, 0x00, 0x00, 0x00],
    [0x00, 0x00, 0x00, 0x00, 0x00, 0x00, 0x00, 0x00],
    [0x00, 0x00, 0x00, 0x00, 0x00, 0x00, 0x00, 0x00],
    [0x00, 0x00, 0x00, 0x00, 0x00, 0x00, 0x00, 0x00],
    [0x00, 0x00, 0x00, 0x00, 0x00, 0x00, 0x00, 0x00],
    [0x00, 0x00, 0x00, 0x00, 0x00, 0x00, 0x00, 0x00],
    [0x00, 0x00, 0x00, 0x00, 0x00, 0x00, 0x00, 0x00],
    [0x00, 0x00, 0x00, 0x00, 0x00, 0x00, 0x00, 0x00],
    [0x00, 0x00, 0x00, 0x00, 0x00, 0x00, 0x00, 0x00],
    [0x00, 0x00, 0x00, 0x00, 0x00, 0x00, 0x00, 0x00],
    [0x00, 0x00, 0x00, 0x00, 0x00, 0x00, 0x00, 0x00],
    [0x00, 0x00, 0x00, 0x00, 0x00, 0x00, 0x00, 0x00],
    [0x00, 0x00, 0x00, 0x00, 0x00, 0x00, 0x00, 0x00],
    [0x00, 0x00, 0x00, 0x00, 0x00, 0x00, 0x00, 0x00],
    [0x00, 0x00, 0x00, 0x00, 0x00, 0x00, 0x00, 0x00],
    [0x00, 0x00, 0x00, 0x00, 0x00, 0x00, 0x00, 0x00],
    [0x00, 0x00, 0x00, 0x00, 0x00, 0x00, 0x00, 0x00],
    [0x00, 0x00, 0x00, 0x00, 0x00, 0x00, 0x00, 0x00],
    [0x00, 0x00, 0x00, 0x00, 0x00, 0x00, 0x00, 0x00],
    [0x00, 0x00, 0x00, 0x00, 0x00, 0x00, 0x00, 0x00],
    [0x00, 0x00, 0x00, 0x00, 0x00, 0x00, 0x00, 0x00],
    [0x00, 0x00, 0x00, 0x00, 0x00, 0x00, 0x00, 0x00],
    [0x00, 0x00, 0x00, 0x00, 0x00, 0x00, 0x00, 0x00],
    [0x00, 0x00, 0x00, 0x00, 0x00, 0x00, 0x00, 0x00],
    [0x18, 0x3C, 0x3C, 0x18, 0x18, 0x00, 0x18, 0x00],
    [0x36, 0x36, 0x00, 0x00, 0x00, 0x00, 0x00, 0x00],
    [0x36, 0x36, 0x7F, 0x36, 0x7F, 0x36, 0x36, 0x00],
    [0x0C, 0x3E, 0x03, 0x1E, 0x30, 0x1F, 0x0C, 0x00],
    [0x00, 0x63, 0x33, 0x18, 0x0C, 0x66, 0x63, 0x00],
    [0x1C, 0x36, 0x1C, 0x6E, 0x3B, 0x33, 0x6E, 0x00],
    [0x06, 0x06, 0x03, 0x00, 0x00, 0x00, 0x00, 0x00],
    [0x18, 0x0C, 0x06, 0x06, 0x06, 0x0C, 0x18, 0x00],
    [0x06, 0x0C, 0x18, 0x18, 0x18, 0x0C, 0x06, 0x00],
    [0x00, 0x66, 0x3C, 0xFF, 0x3C, 0x66, 0x00, 0x00],
    [0x00, 0x0C, 0x0C, 0x3F, 0x0C, 0x0C, 0x00, 0x00],
    [0x00, 0x00, 0x00, 0x00, 0x00, 0x0C, 0x0C, 0x06],
    [0x00, 0x00, 0x00, 0x3F, 0x00, 0x00, 0x00, 0x00],
    [0x00, 0x00, 0x00, 0x00, 0x00, 0x0C, 0x0C, 0x00],
    [0x60, 0x30, 0x18, 0x0C, 0x06, 0x03, 0x01, 0x00],
    [0x3E, 0x63, 0x73, 0x7B, 0x6F, 0x67, 0x3E, 0x00],
    [0x0C, 0x0E, 0x0C, 0x0C, 0x0C, 0x0C, 0x3F, 0x00],
    [0x1E, 0x33, 0x30, 0x1C, 0x06, 0x33, 0x3F, 0x00],
    [0x1E, 0x33, 0x30, 0x1C, 0x30, 0x33, 0x1E, 0x00],
    [0x38, 0x3C, 0x36, 0x33, 0x7F, 0x30, 0x78, 0x00],
    [0x3F, 0x03, 0x1F, 0x30, 0x30, 0x33, 0x1E, 0x00],
    [0x1C, 0x06, 0x03, 0x1F, 0x33, 0x33, 0x1E, 0x00],
    [0x3F, 0x33, 0x30, 0x18, 0x0C, 0x0C, 0x0C, 0x00],
    [0x1E, 0x33, 0x33, 0x1E, 0x33, 0x33, 0x1E, 0x00],
    [0x1E, 0x33, 0x33, 0x3E, 0x30, 0x18, 0x0E, 0x00],
    [0x00, 0x0C, 0x0C, 0x00, 0x00, 0x0C, 0x0C, 0x00],
    [0x00, 0x0C, 0x0C, 0x00, 0x00, 0x0C, 0x0C, 0x06],
    [0x18, 0x0C, 0x06, 0x03, 0x06, 0x0C, 0x18, 0x00],
    [0x00, 0x00, 0x3F, 0x00, 0x00, 0x3F, 0x00, 0x00],
    [0x06, 0x0C, 0x18, 0x30, 0x18, 0x0C, 0x06, 0x00],
    [0x1E, 0x33, 0x30, 0x18, 0x0C, 0x00, 0x0C, 0x00],
    [0x3E, 0x63, 0x7B, 0x7B, 0x7B, 0x03, 0x1E, 0x00],
    [0x0C, 0x1E, 0x33, 0x33, 0x3F, 0x33, 0x33, 0x00],
    [0x3F, 0x66, 0x66, 0x3E, 0x66, 0x66, 0x3F, 0x00],
    [0x3C, 0x66, 0x03, 0x03, 0x03, 0x66, 0x3C, 0x00],
    [0x1F, 0x36, 0x66, 0x66, 0x66, 0x36, 0x1F, 0x00],
    [0x7F, 0x46, 0x16, 0x1E, 0x16, 0x46, 0x7F, 0x00],
    [0x7F, 0x46, 0x16, 0x1E, 0x16, 0x06, 0x0F, 0x00],
    [0x3C, 0x66, 0x03, 0x03, 0x73, 0x66, 0x7C, 0x00],
    [0x33, 0x33, 0x33, 0x3F, 0x33, 0x33, 0x33, 0x00],
    [0x1E, 0x0C, 0x0C, 0x0C, 0x0C, 0x0C, 0x1E, 0x00],
    [0x78, 0x30, 0x30, 0x30, 0x33, 0x33, 0x1E, 0x00],
    [0x67, 0x66, 0x36, 0x1E, 0x36, 0x66, 0x67, 0x00],
    [0x0F, 0x06, 0x06, 0x06, 0x46, 0x66, 0x7F, 0x00],
    [0x63, 0x77, 0x7F, 0x7F, 0x6B, 0x63, 0x63, 0x00],
    [0x63, 0x67, 0x6F, 0x7B, 0x73, 0x63, 0x63, 0x00],
    [0x1C, 0x36, 0x63, 0x63, 0x63, 0x36, 0x1C, 0x00],
    [0x3F, 0x66, 0x66, 0x3E, 0x06, 0x06, 0x0F, 0x00],
    [0x1E, 0x33, 0x33, 0x33, 0x3B, 0x1E, 0x38, 0x00],
    [0x3F, 0x66, 0x66, 0x3E, 0x36, 0x66, 0x67, 0x00],
    [0x1E, 0x33, 0x07, 0x0E, 0x38, 0x33, 0x1E, 0x00],
    [0x3F, 0x2D, 0x0C, 0x0C, 0x0C, 0x0C, 0x1E, 0x00],
    [0x33, 0x33, 0x33, 0x33, 0x33, 0x33, 0x3F, 0x00],
    [0x33, 0x33, 0x33, 0x33, 0x33, 0x1E, 0x0C, 0x00],
    [0x63, 0x63, 0x63, 0x6B, 0x7F, 0x77, 0x63, 0x00],
    [0x63, 0x63, 0x36, 0x1C, 0x1C, 0x36, 0x63, 0x00],
    [0x33, 0x33, 0x33, 0x1E, 0x0C, 0x0C, 0x1E, 0x00],
    [0x7F, 0x63, 0x31, 0x18, 0x4C, 0x66, 0x7F, 0x00],
    [0x1E, 0x06, 0x06, 0x06, 0x06, 0x06, 0x1E, 0x00],
    [0x03, 0x06, 0x0C, 0x18, 0x30, 0x60, 0x40, 0x00],
    [0x1E, 0x18, 0x18, 0x18, 0x18, 0x18, 0x1E, 0x00],
    [0x08, 0x1C, 0x36, 0x63, 0x00, 0x00, 0x00, 0x00],
    [0x00, 0x00, 0x00, 0x00, 0x00, 0x00, 0x00, 0xFF],
    [0x0C, 0x0C, 0x18, 0x00, 0x00, 0x00, 0x00, 0x00],
    [0x00, 0x00, 0x1E, 0x30, 0x3E, 0x33, 0x6E, 0x00],
    [0x07, 0x06, 0x06, 0x3E, 0x66, 0x66, 0x3B, 0x00],
    [0x00, 0x00, 0x1E, 0x33, 0x03, 0x33, 0x1E, 0x00],
    [0x38, 0x30, 0x30, 0x3e, 0x33, 0x33, 0x6E, 0x00],
    [0x00, 0x00, 0x1E, 0x33, 0x3f, 0x03, 0x1E, 0x00],
    [0x1C, 0x36, 0x06, 0x0f, 0x06, 0x06, 0x0F, 0x00],
    [0x00, 0x00, 0x6E, 0x33, 0x33, 0x3E, 0x30, 0x1F],
    [0x07, 0x06, 0x36, 0x6E, 0x66, 0x66, 0x67, 0x00],
    [0x0C, 0x00, 0x0E, 0x0C, 0x0C, 0x0C, 0x1E, 0x00],
    [0x30, 0x00, 0x30, 0x30, 0x30, 0x33, 0x33, 0x1E],
    [0x07, 0x06, 0x66, 0x36, 0x1E, 0x36, 0x67, 0x00],
    [0x0E, 0x0C, 0x0C, 0x0C, 0x0C, 0x0C, 0x1E, 0x00],
    [0x00, 0x00, 0x33, 0x7F, 0x7F, 0x6B, 0x63, 0x00],
    [0x00, 0x00, 0x1F, 0x33, 0x33, 0x33, 0x33, 0x00],
    [0x00, 0x00, 0x1E, 0x33, 0x33, 0x33, 0x1E, 0x00],
    [0x00, 0x00, 0x3B, 0x66, 0x66, 0x3E, 0x06, 0x0F],
    [0x00, 0x00, 0x6E, 0x33, 0x33, 0x3E, 0x30, 0x78],
    [0x00, 0x00, 0x3B, 0x6E, 0x66, 0x06, 0x0F, 0x00],
    [0x00, 0x00, 0x3E, 0x03, 0x1E, 0x30, 0x1F, 0x00],
    [0x08, 0x0C, 0x3E, 0x0C, 0x0C, 0x2C, 0x18, 0x00],
    [0x00, 0x00, 0x33, 0x33, 0x33, 0x33, 0x6E, 0x00],
    [0x00, 0x00, 0x33, 0x33, 0x33, 0x1E, 0x0C, 0x00],
    [0x00, 0x00, 0x63, 0x6B, 0x7F, 0x7F, 0x36, 0x00],
    [0x00, 0x00, 0x63, 0x36, 0x1C, 0x36, 0x63, 0x00],
    [0x00, 0x00, 0x33, 0x33, 0x33, 0x3E, 0x30, 0x1F],
    [0x00, 0x00, 0x3F, 0x19, 0x0C, 0x26, 0x3F, 0x00],
    [0x38, 0x0C, 0x0C, 0x07, 0x0C, 0x0C, 0x38, 0x00],
    [0x18, 0x18, 0x18, 0x00, 0x18, 0x18, 0x18, 0x00],
    [0x07, 0x0C, 0x0C, 0x38, 0x0C, 0x0C, 0x07, 0x00],
    [0x6E, 0x3B, 0x00, 0x00, 0x00, 0x00, 0x00, 0x00],
    [0x00, 0x00, 0x00, 0x00, 0x00, 0x00, 0x00, 0x00]]"

subsection \<open>Characters\<close>

text \<open>One line of a character: the pixel \<open>cx\<close> is lit when bit \<open>7 - cx\<close> of the line is set.\<close>

fun draw_line :: "u8 \<Rightarrow> u32 \<Rightarrow> u32 \<Rightarrow> u64 \<Rightarrow> nat \<Rightarrow> nat \<Rightarrow> frame_buffer \<Rightarrow> frame_buffer option" where
  "draw_line charLine bgcolor fgcolor p cx 0 fb = Some fb"
| "draw_line charLine bgcolor fgcolor p cx (Suc left) fb =
     do { fb \<leftarrow> put_pixel fb (p + of_nat cx)
                 (if drop_bit cx 0x80 AND charLine \<noteq> 0 then fgcolor else bgcolor);
          draw_line charLine bgcolor fgcolor p (Suc cx) left fb }"

fun draw_lines :: "u8 list \<Rightarrow> u32 \<Rightarrow> u32 \<Rightarrow> u64 \<Rightarrow> frame_buffer \<Rightarrow> frame_buffer option" where
  "draw_lines [] bgcolor fgcolor p fb = Some fb"
| "draw_lines (charLine # lines) bgcolor fgcolor p fb =
     do { fb \<leftarrow> draw_line charLine bgcolor fgcolor p 0 (unat kFont8x8Width) fb;
          draw_lines lines bgcolor fgcolor (p + fb_stride fb) fb }"

definition drawCharacter :: "u8 \<Rightarrow> u64 \<Rightarrow> u64 \<Rightarrow> u32 \<Rightarrow> u32 \<Rightarrow> frame_buffer \<Rightarrow> frame_buffer option" where
  "drawCharacter c x y bgcolor fgcolor fb =
     (if sint c < 0 then Some fb
      else draw_lines (font8x8_basic ! unat c) bgcolor fgcolor (y * fb_stride fb + x) fb)"

subsection \<open>Console\<close>

datatype ConsoleColor = Black | DarkBlue | DarkGreen | DarkCyan | DarkRed | DarkMagenta | DarkYellow
  | Gray | DarkGray | Blue | Green | Cyan | Red | Magenta | Yellow | White

fun color_value :: "ConsoleColor \<Rightarrow> u8" where
  "color_value Black = 0" | "color_value DarkBlue = 1" | "color_value DarkGreen = 2"
| "color_value DarkCyan = 3" | "color_value DarkRed = 4" | "color_value DarkMagenta = 5"
| "color_value DarkYellow = 6" | "color_value Gray = 7" | "color_value DarkGray = 8"
| "color_value Blue = 9" | "color_value Green = 10" | "color_value Cyan = 11" | "color_value Red = 12"
| "color_value Magenta = 13" | "color_value Yellow = 14" | "color_value White = 15"

definition pallette :: "u32 list" where
  "pallette =
     [0x181825, 0xb4befe, 0x94e2d5, 0x89dceb, 0xeba0ac, 0xcba6f7, 0xfab387, 0x7f849c,
      0x313244, 0x89b4fa, 0xa6e3a1, 0x74c7ec, 0xf38ba8, 0xf5c2e7, 0xf9e2af, 0xcdd6f4]"

definition color_pixel :: "ConsoleColor \<Rightarrow> u32" where
  "color_pixel c = pallette ! unat (color_value c)"

record text_output =
  to_fb :: frame_buffer
  to_rows :: u64
  to_cols :: u64
  to_row :: u64
  to_col :: u64
  to_bg :: ConsoleColor
  to_fg :: ConsoleColor

definition text_construct :: "frame_buffer \<Rightarrow> text_output" where
  "text_construct fb =
     \<lparr>to_fb = fb, to_rows = fb_height fb div kFont8x8Height, to_cols = fb_width fb div kFont8x8Width,
      to_row = 0, to_col = 0, to_bg = Black, to_fg = White\<rparr>"

definition setBg :: "ConsoleColor \<Rightarrow> text_output \<Rightarrow> text_output" where
  "setBg c t = (if color_value c < 15 then t\<lparr>to_bg := c\<rparr> else t)"

definition setFg :: "ConsoleColor \<Rightarrow> text_output \<Rightarrow> text_output" where
  "setFg c t = (if color_value c < 15 then t\<lparr>to_fg := c\<rparr> else t)"

definition drawChar :: "u8 \<Rightarrow> text_output \<Rightarrow> text_output option" where
  "drawChar c t =
     do { fb \<leftarrow> drawCharacter c (to_col t * kFont8x8Width) (to_row t * kFont8x8Height)
                 (color_pixel (to_bg t)) (color_pixel (to_fg t)) (to_fb t);
          Some (t\<lparr>to_fb := fb\<rparr>) }"

text \<open>Scrolling: \<open>*(to++) = *(from++)\<close> for a row, and the loop over the rows from \<open>y\<close> on.\<close>

fun copy_row :: "u64 \<Rightarrow> u64 \<Rightarrow> nat \<Rightarrow> frame_buffer \<Rightarrow> frame_buffer option" where
  "copy_row from_p to_p 0 fb = Some fb"
| "copy_row from_p to_p (Suc left) fb =
     do { v \<leftarrow> get_pixel fb from_p; fb \<leftarrow> put_pixel fb to_p v;
          copy_row (from_p + 1) (to_p + 1) left fb }"

fun scroll_rows :: "u32 \<Rightarrow> u64 \<Rightarrow> nat \<Rightarrow> frame_buffer \<Rightarrow> frame_buffer option" where
  "scroll_rows bgcol y 0 fb = Some fb"
| "scroll_rows bgcol y (Suc left) fb =
     (let from_p = fb_stride fb * (y + kFont8x8Height);
          to_p = fb_stride fb * y
      in do { fb \<leftarrow> (if y + kFont8x8Height < fb_height fb
                     then copy_row from_p to_p (unat (fb_width fb)) fb
                     else fill_row bgcol to_p (unat (fb_width fb)) fb);
              scroll_rows bgcol (y + 1) left fb })"

definition scroll :: "text_output \<Rightarrow> text_output option" where
  "scroll t =
     do { fb \<leftarrow> scroll_rows (color_pixel (to_bg t)) 0 (unat (fb_height (to_fb t))) (to_fb t);
          Some (t\<lparr>to_fb := fb\<rparr>) }"

text \<open>\<open>for (; col_ < newCol && col_ < cols_; col_++) drawChar(' ')\<close>.\<close>

function tab_loop :: "u64 \<Rightarrow> text_output \<Rightarrow> text_output option" where
  "tab_loop newCol t =
     (if to_col t < newCol \<and> to_col t < to_cols t then
        case drawChar 32 t of None \<Rightarrow> None | Some t' \<Rightarrow> tab_loop newCol (t'\<lparr>to_col := to_col t + 1\<rparr>)
      else Some t)"
  by pat_completeness auto
termination
proof (relation "measure (\<lambda>(newCol, t). unat (newCol - to_col t))")
  fix newCol :: u64 and t :: text_output and t'
  assume "to_col t < newCol \<and> to_col t < to_cols t"
  then have l: "to_col t < newCol" by simp
  have c: "unat (to_col t) < unat newCol" using l by (simp only: word_less_nat_alt)
  have s: "unat (to_col t + 1) = unat (to_col t) + 1"
    using unat_add_small [of "to_col t" 1] c unsigned_less [where 'a = nat, of newCol] by simp
  have "unat (newCol - (to_col t + 1)) = unat newCol - unat (to_col t + 1)"
    "unat (newCol - to_col t) = unat newCol - unat (to_col t)"
    using c s by (simp_all only: unat_sub word_le_nat_alt)
  then have "unat (newCol - (to_col t + 1)) < unat (newCol - to_col t)" using c s by simp
  then show "((newCol, t'\<lparr>to_col := to_col t + 1\<rparr>), newCol, t) \<in> measure (\<lambda>(newCol, t). unat (newCol - to_col t))"
    by simp
qed simp

declare tab_loop.simps [simp del]

text \<open>One character of \<open>print\<close>, and the loop.\<close>

definition print_char :: "u8 \<Rightarrow> text_output \<Rightarrow> text_output option" where
  "print_char c t =
     (let t = (if c = 10 \<or> to_col t \<ge> to_cols t then t\<lparr>to_col := 0, to_row := to_row t + 1\<rparr> else t) in
      do {
        t \<leftarrow> (if to_row t \<ge> to_rows t then scroll t else Some t);
        (if c = 9 then tab_loop ((to_col t + 7) div 8 * 8) t
         else if sint c \<ge> 32 then drawChar c t
         else Some t)
      })"

fun print :: "u8 list \<Rightarrow> text_output \<Rightarrow> text_output option" where
  "print [] t = Some t"
| "print (c # cs) t = do { t \<leftarrow> print_char c t; print cs t }"

end
