(* ===== verification/DisplayProps.thy ===== *)
theory DisplayProps
  imports Display
begin

text \<open>
  What drawing does to the pixels: clearing and characters change exactly the pixels of their
  rectangle; then what that means for text: the console does not move on after a character, and
  does not come back to its last line after it has scrolled.
\<close>

subsection \<open>Pixels\<close>

text \<open>The result of an operation that only changes pixels: \<open>f i\<close> is the new value of pixel \<open>i\<close>.\<close>

definition repainted :: "frame_buffer \<Rightarrow> (nat \<Rightarrow> u32) \<Rightarrow> frame_buffer" where
  "repainted fb f = fb\<lparr>fb_pixels := map f [0..<length (fb_pixels fb)]\<rparr>"

lemma repainted_simps [simp]:
  "fb_width (repainted fb f) = fb_width fb" "fb_height (repainted fb f) = fb_height fb"
  "fb_stride (repainted fb f) = fb_stride fb" "length (fb_pixels (repainted fb f)) = length (fb_pixels fb)"
  "i < length (fb_pixels fb) \<Longrightarrow> fb_pixels (repainted fb f) ! i = f i"
  by (simp_all add: repainted_def)

lemma repainted_id: "repainted fb (\<lambda>i. fb_pixels fb ! i) = fb"
  by (cases fb) (simp add: repainted_def map_nth)

lemma repainted_same: "(\<And>i. i < length (fb_pixels fb) \<Longrightarrow> f i = fb_pixels fb ! i) \<Longrightarrow> repainted fb f = fb"
  by (cases fb) (auto simp: repainted_def intro: nth_equalityI)

lemma repainted_cong:
  "(\<And>i. i < length (fb_pixels fb) \<Longrightarrow> f i = g i) \<Longrightarrow> repainted fb f = repainted fb g"
  by (simp add: repainted_def)

lemma repainted_repainted:
  "repainted (repainted fb f) g = repainted fb g"
  by (simp add: repainted_def)

lemma put_pixel_repainted:
  assumes "unat p < length (fb_pixels fb)"
  shows "put_pixel fb p c = Some (repainted fb (\<lambda>i. if i = unat p then c else fb_pixels fb ! i))"
proof -
  have "(fb_pixels fb)[unat p := c] = map (\<lambda>i. if i = unat p then c else fb_pixels fb ! i) [0..<length (fb_pixels fb)]"
    by (rule nth_equalityI) (auto simp: nth_list_update)
  then show ?thesis using assms by (simp add: put_pixel_def repainted_def)
qed

lemma unat_plus_of_nat:
  "unat (p :: u64) + k < 2 ^ 64 \<Longrightarrow> unat (p + of_nat k) = unat p + k"
  by (simp add: unat_add_small unat_of_nat_small)

definition pixels_ok :: "frame_buffer \<Rightarrow> bool" where
  "pixels_ok fb \<longleftrightarrow> length (fb_pixels fb) < 2 ^ 64"

lemma pixels_ok_repainted [simp]: "pixels_ok (repainted fb f) = pixels_ok fb"
  by (simp add: pixels_ok_def)

lemma fill_row_repainted:
  assumes "pixels_ok fb" "unat p + n \<le> length (fb_pixels fb)"
  shows "fill_row c p n fb = Some (repainted fb (\<lambda>i. if unat p \<le> i \<and> i < unat p + n then c else fb_pixels fb ! i))"
  using assms
proof (induction n arbitrary: p fb)
  case 0
  then show ?case by (subst repainted_same) auto
next
  case (Suc n)
  let ?fb = "repainted fb (\<lambda>i. if i = unat p then c else fb_pixels fb ! i)"
  have 1: "put_pixel fb p c = Some ?fb" by (rule put_pixel_repainted) (use Suc.prems in simp)
  have p1: "unat (p + 1) = unat p + 1"
    using unat_plus_of_nat [of p 1] Suc.prems by (simp add: pixels_ok_def)
  have "fill_row c (p + 1) n ?fb
      = Some (repainted ?fb (\<lambda>i. if unat (p + 1) \<le> i \<and> i < unat (p + 1) + n then c else fb_pixels ?fb ! i))"
    by (rule Suc.IH) (use Suc.prems p1 in simp_all)
  also have "repainted ?fb (\<lambda>i. if unat (p + 1) \<le> i \<and> i < unat (p + 1) + n then c else fb_pixels ?fb ! i)
      = repainted fb (\<lambda>i. if unat p \<le> i \<and> i < unat p + Suc n then c else fb_pixels fb ! i)"
    unfolding repainted_repainted by (rule repainted_cong) (auto simp: p1)
  finally show ?case using 1 by simp
qed

lemma draw_line_repainted:
  assumes "pixels_ok fb" "unat p + 8 \<le> length (fb_pixels fb)" "cx + left = 8"
  shows "draw_line l bg fg p cx left fb = Some (repainted fb (\<lambda>i. if unat p + cx \<le> i \<and> i < unat p + 8
    then (if drop_bit (i - unat p) 0x80 AND l \<noteq> 0 then fg else bg) else fb_pixels fb ! i))"
  using assms
proof (induction left arbitrary: cx fb)
  case 0
  then show ?case by (subst repainted_same) auto
next
  case (Suc left)
  let ?c = "if drop_bit cx 0x80 AND l \<noteq> 0 then fg else bg"
  let ?fb = "repainted fb (\<lambda>i. if i = unat (p + of_nat cx) then ?c else fb_pixels fb ! i)"
  have u: "unat (p + of_nat cx) = unat p + cx"
    by (rule unat_plus_of_nat) (use Suc.prems in \<open>simp add: pixels_ok_def\<close>)
  have 1: "put_pixel fb (p + of_nat cx) ?c = Some ?fb" by (rule put_pixel_repainted) (use Suc.prems u in simp)
  have "draw_line l bg fg p (Suc cx) left ?fb = Some (repainted ?fb (\<lambda>i. if unat p + Suc cx \<le> i \<and> i < unat p + 8
      then (if drop_bit (i - unat p) 0x80 AND l \<noteq> 0 then fg else bg) else fb_pixels ?fb ! i))"
    by (rule Suc.IH) (use Suc.prems in simp_all)
  also have "repainted ?fb (\<lambda>i. if unat p + Suc cx \<le> i \<and> i < unat p + 8
      then (if drop_bit (i - unat p) 0x80 AND l \<noteq> 0 then fg else bg) else fb_pixels ?fb ! i)
    = repainted fb (\<lambda>i. if unat p + cx \<le> i \<and> i < unat p + 8
      then (if drop_bit (i - unat p) 0x80 AND l \<noteq> 0 then fg else bg) else fb_pixels fb ! i)"
    unfolding repainted_repainted
  proof (rule repainted_cong)
    fix i assume "i < length (fb_pixels fb)"
    then show "(if unat p + Suc cx \<le> i \<and> i < unat p + 8
        then (if drop_bit (i - unat p) 0x80 AND l \<noteq> 0 then fg else bg) else fb_pixels ?fb ! i)
      = (if unat p + cx \<le> i \<and> i < unat p + 8
        then (if drop_bit (i - unat p) 0x80 AND l \<noteq> 0 then fg else bg) else fb_pixels fb ! i)"
      using Suc.prems(3) by (cases "i = unat p + cx") (auto simp: u)
  qed
  finally show ?case using 1 by simp
qed

subsection \<open>Characters\<close>

text \<open>The pixel \<open>i\<close> belongs to a figure of \<open>n\<close> lines of 8 pixels at \<open>P\<close>, in rows of \<open>S\<close>.\<close>

definition in_figure :: "nat \<Rightarrow> nat \<Rightarrow> nat \<Rightarrow> nat \<Rightarrow> bool" where
  "in_figure S P n i \<longleftrightarrow> P \<le> i \<and> (i - P) div S < n \<and> (i - P) mod S < 8"

definition lit :: "u8 list \<Rightarrow> nat \<Rightarrow> nat \<Rightarrow> nat \<Rightarrow> bool" where
  "lit ls S P i \<longleftrightarrow> drop_bit ((i - P) mod S) 0x80 AND ls ! ((i - P) div S) \<noteq> 0"

definition figure :: "u8 list \<Rightarrow> u32 \<Rightarrow> u32 \<Rightarrow> nat \<Rightarrow> nat \<Rightarrow> frame_buffer \<Rightarrow> frame_buffer" where
  "figure ls bg fg S P fb = repainted fb (\<lambda>i. if in_figure S P (length ls) i
     then (if lit ls S P i then fg else bg) else fb_pixels fb ! i)"

lemma figure_Cons:
  assumes "8 \<le> S" "P \<le> i"
  shows "in_figure S P (Suc n) i \<longleftrightarrow> i < P + 8 \<or> in_figure S (P + S) n i"
    "P + S \<le> i \<Longrightarrow> lit (l # ls) S P i = lit ls S (P + S) i"
    "i < P + 8 \<Longrightarrow> lit (l # ls) S P i \<longleftrightarrow> drop_bit (i - P) 0x80 AND l \<noteq> 0"
proof -
  have far: "(i - P) div S = Suc ((i - (P + S)) div S)" "(i - P) mod S = (i - (P + S)) mod S" if "P + S \<le> i"
  proof -
    have e: "i - P = S + (i - (P + S))" using that by simp
    show "(i - P) div S = Suc ((i - (P + S)) div S)" "(i - P) mod S = (i - (P + S)) mod S"
      unfolding e using assms(1) by (simp_all add: div_add_self1)
  qed
  have near: "(i - P) div S = 0" "(i - P) mod S = i - P" if "i < P + S"
    using that assms by simp_all
  show "in_figure S P (Suc n) i \<longleftrightarrow> i < P + 8 \<or> in_figure S (P + S) n i"
  proof (cases "P + S \<le> i")
    case True
    then show ?thesis using far assms by (auto simp: in_figure_def)
  next
    case False
    then show ?thesis using near assms by (auto simp: in_figure_def)
  qed
  show "P + S \<le> i \<Longrightarrow> lit (l # ls) S P i = lit ls S (P + S) i" using far by (simp add: lit_def)
  show "i < P + 8 \<Longrightarrow> lit (l # ls) S P i \<longleftrightarrow> drop_bit (i - P) 0x80 AND l \<noteq> 0"
    using near assms(1) by (simp add: lit_def)
qed

lemma figure_below: "i < P \<Longrightarrow> \<not> in_figure S P n i"
  by (simp add: in_figure_def)

lemma draw_lines_figure:
  assumes "pixels_ok fb" "8 \<le> unat (fb_stride fb)"
    and "ls = [] \<or> unat p + (length ls - 1) * unat (fb_stride fb) + 8 \<le> length (fb_pixels fb)"
    and "length ls * unat (fb_stride fb) + unat p < 2 ^ 64"
  shows "draw_lines ls bg fg p fb = Some (figure ls bg fg (unat (fb_stride fb)) (unat p) fb)"
  using assms
proof (induction ls arbitrary: p fb)
  case Nil
  then show ?case by (simp add: figure_def in_figure_def repainted_id)
next
  case (Cons l ls)
  let ?S = "unat (fb_stride fb)" let ?P = "unat p"
  let ?f = "\<lambda>i. if ?P \<le> i \<and> i < ?P + 8 then (if drop_bit (i - ?P) 0x80 AND l \<noteq> 0 then fg else bg) else fb_pixels fb ! i"
  let ?fb = "repainted fb ?f"
  have len: "?P + length ls * ?S + 8 \<le> length (fb_pixels fb)" using Cons.prems(3) by simp
  have 1: "draw_line l bg fg p 0 8 fb = Some ?fb"
    using draw_line_repainted [of fb p 0 8] Cons.prems(1) len by simp
  have p1: "unat (p + fb_stride fb) = ?P + ?S"
    by (rule unat_add_small) (use Cons.prems(4) in simp)
  have "draw_lines ls bg fg (p + fb_stride fb) ?fb = Some (figure ls bg fg ?S (?P + ?S) ?fb)"
    using Cons.IH [of ?fb "p + fb_stride fb"] Cons.prems len p1 by (cases ls) (simp_all add: algebra_simps)
  moreover have "figure ls bg fg ?S (?P + ?S) ?fb = figure (l # ls) bg fg ?S ?P fb"
    unfolding figure_def repainted_repainted
  proof (rule repainted_cong)
    fix i assume i: "i < length (fb_pixels fb)"
    show "(if in_figure ?S (?P + ?S) (length ls) i then if lit ls ?S (?P + ?S) i then fg else bg else fb_pixels ?fb ! i)
      = (if in_figure ?S ?P (length (l # ls)) i then if lit (l # ls) ?S ?P i then fg else bg else fb_pixels fb ! i)"
    proof (cases "?P \<le> i")
      case True
      note F = figure_Cons [OF Cons.prems(2) True]
      show ?thesis
        using True i F(1) [of "length ls"] F(2,3) [of l ls] figure_below [of i "?P + ?S" ?S "length ls"] Cons.prems(2)
        by (cases "?P + ?S \<le> i") auto
    next
      case False
      then show ?thesis using i by (simp add: figure_below)
    qed
  qed
  ultimately show ?case using 1 by (simp add: kFont8x8Width_def)
qed

lemma font_lines: "n < 128 \<Longrightarrow> length (font8x8_basic ! n) = 8"
proof -
  have "length font8x8_basic = 128" "list_all (\<lambda>l. length l = 8) font8x8_basic"
    by (simp_all add: font8x8_basic_def)
  then show "n < 128 \<Longrightarrow> length (font8x8_basic ! n) = 8" by (simp add: list_all_length)
qed

subsection \<open>The console's cells\<close>

definition console_ok :: "text_output \<Rightarrow> bool" where
  "console_ok t \<longleftrightarrow> (let fb = to_fb t in
     length (fb_pixels fb) = unat (fb_height fb) * unat (fb_stride fb) \<and> length (fb_pixels fb) < 2 ^ 60
     \<and> unat (fb_stride fb) < 2 ^ 60 \<and> unat (fb_width fb) \<le> unat (fb_stride fb)
     \<and> to_rows t = fb_height fb div 8 \<and> to_cols t = fb_width fb div 8)"

definition cell_pixel :: "text_output \<Rightarrow> nat" where
  "cell_pixel t = unat (to_row t) * 8 * unat (fb_stride (to_fb t)) + unat (to_col t) * 8"

lemma unat_mult_small: "unat (a :: u64) * unat b < 2 ^ 64 \<Longrightarrow> unat (a * b) = unat a * unat b"
  by (simp add: unat_word_ariths)

lemma cell_bounds:
  assumes "console_ok t" "to_row t < to_rows t" "to_col t < to_cols t"
  shows "cell_pixel t + 7 * unat (fb_stride (to_fb t)) + 8 \<le> length (fb_pixels (to_fb t))"
    "8 \<le> unat (fb_stride (to_fb t))"
    "unat (to_row t * kFont8x8Height * fb_stride (to_fb t) + to_col t * kFont8x8Width) = cell_pixel t"
proof -
  let ?fb = "to_fb t"
  let ?S = "unat (fb_stride ?fb)" let ?H = "unat (fb_height ?fb)" let ?W = "unat (fb_width ?fb)"
  let ?r = "unat (to_row t)" let ?c = "unat (to_col t)"
  have "?r < ?H div 8" "?c < ?W div 8"
    using assms by (simp_all add: console_ok_def Let_def word_less_nat_alt unat_div)
  then have r: "?r * 8 + 8 \<le> ?H" and c: "?c * 8 + 8 \<le> ?W" by linarith+
  have l: "length (fb_pixels ?fb) = ?H * ?S" "?H * ?S < 2 ^ 60" "?W \<le> ?S" "?S < 2 ^ 60"
    using assms(1) by (simp_all add: console_ok_def Let_def)
  show S: "8 \<le> ?S" using c l(3) by linarith
  have m: "(?r * 8 + 8) * ?S \<le> ?H * ?S" by (rule mult_le_mono1 [OF r])
  then have m': "?r * 8 * ?S + 8 * ?S \<le> ?H * ?S" by (simp add: add_mult_distrib)
  show "cell_pixel t + 7 * ?S + 8 \<le> length (fb_pixels ?fb)"
    using m' c l(1,3) by (simp add: cell_pixel_def)
  have n: "x < 2 ^ 60 \<Longrightarrow> x < (2 :: nat) ^ 64" for x by (erule less_trans) simp
  have "?r * 8 * ?S \<le> ?H * ?S" using m' by (rule add_leD1)
  then have b1: "?r * 8 * ?S < 2 ^ 60" using l(2) by (rule le_less_trans)
  have "?r * 8 \<le> ?r * 8 * ?S" using S by simp
  then have b2: "?r * 8 < 2 ^ 60" using b1 by (rule le_less_trans)
  have "?c * 8 \<le> ?S" using c l(3) by linarith
  then have b3: "?c * 8 < 2 ^ 60" using l(4) by (rule le_less_trans)
  note b = n [OF b1] n [OF b2] n [OF b3]
  have "unat (to_row t * kFont8x8Height) = ?r * 8" "unat (to_col t * kFont8x8Width) = ?c * 8"
    using unat_mult_small [of "to_row t" 8] unat_mult_small [of "to_col t" 8] b
    by (simp_all add: kFont8x8Height_def kFont8x8Width_def)
  moreover from this have "unat (to_row t * kFont8x8Height * fb_stride ?fb) = ?r * 8 * ?S"
    using unat_mult_small [of "to_row t * kFont8x8Height" "fb_stride ?fb"] b by simp
  moreover have "?r * 8 * ?S + ?c * 8 < 2 ^ 64"
  proof -
    have "?r * 8 * ?S + ?c * 8 < 2 ^ 60 + 2 ^ 60" by (rule add_strict_mono [OF b1 b3])
    then show ?thesis by (rule less_trans) simp
  qed
  ultimately show "unat (to_row t * kFont8x8Height * fb_stride ?fb + to_col t * kFont8x8Width) = cell_pixel t"
    by (subst unat_add_small) (simp_all add: cell_pixel_def)
qed

definition painted :: "u8 \<Rightarrow> text_output \<Rightarrow> text_output" where
  "painted c t = t\<lparr>to_fb := figure (font8x8_basic ! unat c) (color_pixel (to_bg t)) (color_pixel (to_fg t))
     (unat (fb_stride (to_fb t))) (cell_pixel t) (to_fb t)\<rparr>"

lemma sint_ascii:
  assumes "unat (c :: u8) < 128"
  shows "sint c = int (unat c)"
proof -
  have "int (unat c) < int 128" using assms by (simp only: of_nat_less_iff)
  then have u: "uint c < 128" by simp
  have "sint c = signed_take_bit 7 (uint c)" by (simp add: sint_uint)
  also have "\<dots> = uint c" by (rule signed_take_bit_int_eq_self) (use u uint_ge_0 [of c] in \<open>simp_all, linarith?\<close>)
  finally show ?thesis by simp
qed

lemma drawChar_painted:
  assumes "console_ok t" "to_row t < to_rows t" "to_col t < to_cols t" and c: "unat c < 128"
  shows "drawChar c t = Some (painted c t)"
proof -
  let ?fb = "to_fb t" let ?S = "unat (fb_stride ?fb)"
  note B = cell_bounds [OF assms(1-3)]
  have l: "length (fb_pixels ?fb) < 2 ^ 60" "?S < 2 ^ 60" using assms(1) by (simp_all add: console_ok_def Let_def)
  let ?p = "to_row t * kFont8x8Height * fb_stride ?fb + to_col t * kFont8x8Width"
  have "draw_lines (font8x8_basic ! unat c) bg fg ?p ?fb = Some (figure (font8x8_basic ! unat c) bg fg ?S (unat ?p) ?fb)" for bg fg
  proof (rule draw_lines_figure)
    show "pixels_ok ?fb" using l by (simp add: pixels_ok_def)
    show "8 \<le> ?S" by (rule B(2))
    show "font8x8_basic ! unat c = [] \<or> unat ?p + (length (font8x8_basic ! unat c) - 1) * ?S + 8 \<le> length (fb_pixels ?fb)"
      using B(1,3) font_lines [OF c] by simp
    show "length (font8x8_basic ! unat c) * ?S + unat ?p < 2 ^ 64" using B(1,3) font_lines [OF c] l by simp
  qed
  moreover have "\<not> sint c < 0" using sint_ascii [OF c] by simp
  ultimately show ?thesis using B(3) by (simp add: drawChar_def drawCharacter_def painted_def)
qed

lemma painted_simps [simp]:
  "to_row (painted c t) = to_row t" "to_col (painted c t) = to_col t" "to_rows (painted c t) = to_rows t"
  "to_cols (painted c t) = to_cols t" "console_ok (painted c t) = console_ok t"
  by (simp_all add: painted_def console_ok_def figure_def Let_def)

lemma painted_painted:
  assumes "unat c < 128" "unat d < 128"
  shows "painted c (painted d t) = painted c t"
proof -
  have "figure ls bg fg S P (figure ms bg fg S P fb) = figure ls bg fg S P fb"
    if "length ms = length ls" for ls ms bg fg S P fb
    unfolding figure_def repainted_repainted by (rule repainted_cong) (simp add: that)
  moreover have "fb_stride (figure ls bg fg S P fb) = fb_stride fb" for ls bg fg S P fb
    by (simp add: figure_def)
  ultimately show ?thesis
    using font_lines [OF assms(1)] font_lines [OF assms(2)] by (simp add: painted_def cell_pixel_def)
qed

definition printable :: "u8 \<Rightarrow> bool" where
  "printable c \<longleftrightarrow> 32 \<le> unat c \<and> unat c < 128"

lemma print_char_printable:
  assumes "console_ok t" "to_row t < to_rows t" "to_col t < to_cols t" "printable c"
  shows "print_char c t = Some (painted c t)"
proof -
  have c: "32 \<le> unat c" "unat c < 128" using assms(4) by (simp_all add: printable_def)
  then have "c \<noteq> 10" "c \<noteq> 9" by auto
  moreover have "sint c \<ge> 32"
  proof -
    have "int 32 \<le> int (unat c)" using c(1) by (simp only: of_nat_le_iff)
    then show ?thesis using sint_ascii [OF c(2)] by simp
  qed
  ultimately show ?thesis
    using drawChar_painted [OF assms(1-3) c(2)] assms(2,3)
    by (simp add: print_char_def Let_def linorder_not_le [symmetric])
qed

lemma print_printable:
  assumes "console_ok t" "to_row t < to_rows t" "to_col t < to_cols t" "\<forall>c \<in> set cs. printable c" "cs \<noteq> []"
  shows "print cs t = Some (painted (last cs) t)"
  using assms
proof (induction cs arbitrary: t)
  case (Cons c cs)
  have 1: "print_char c t = Some (painted c t)" by (rule print_char_printable) (use Cons.prems in simp_all)
  show ?case
  proof (cases "cs = []")
    case True
    then show ?thesis using 1 by simp
  next
    case False
    have "print cs (painted c t) = Some (painted (last cs) (painted c t))"
      by (rule Cons.IH) (use Cons.prems False in simp_all)
    moreover have "unat (last cs) < 128" "unat c < 128" using Cons.prems(4) False by (auto simp: printable_def)
    ultimately show ?thesis using 1 False painted_painted by simp
  qed
qed simp

lemma put_pixel_outside: "length (fb_pixels fb) \<le> unat p \<Longrightarrow> put_pixel fb p c = None"
  by (simp add: put_pixel_def)

lemma scroll_rows_keep:
  "fill_row c p n fb = Some fb' \<Longrightarrow> length (fb_pixels fb') = length (fb_pixels fb)
    \<and> fb_width fb' = fb_width fb \<and> fb_height fb' = fb_height fb \<and> fb_stride fb' = fb_stride fb"
  "copy_row q p n fb = Some fb' \<Longrightarrow> length (fb_pixels fb') = length (fb_pixels fb)
    \<and> fb_width fb' = fb_width fb \<and> fb_height fb' = fb_height fb \<and> fb_stride fb' = fb_stride fb"
  "scroll_rows c y n fb = Some fb' \<Longrightarrow> length (fb_pixels fb') = length (fb_pixels fb)
    \<and> fb_width fb' = fb_width fb \<and> fb_height fb' = fb_height fb \<and> fb_stride fb' = fb_stride fb"
proof -
  have put: "put_pixel fb p c = Some fb' \<Longrightarrow> length (fb_pixels fb') = length (fb_pixels fb)
    \<and> fb_width fb' = fb_width fb \<and> fb_height fb' = fb_height fb \<and> fb_stride fb' = fb_stride fb" for fb p c fb'
    by (auto simp: put_pixel_def split: if_splits)
  have fill: "fill_row c p n fb = Some fb' \<Longrightarrow> length (fb_pixels fb') = length (fb_pixels fb)
    \<and> fb_width fb' = fb_width fb \<and> fb_height fb' = fb_height fb \<and> fb_stride fb' = fb_stride fb" for c p n fb fb'
    by (induction n arbitrary: p fb) (auto simp: bind_Some_iff dest!: put)
  have copy: "copy_row q p n fb = Some fb' \<Longrightarrow> length (fb_pixels fb') = length (fb_pixels fb)
    \<and> fb_width fb' = fb_width fb \<and> fb_height fb' = fb_height fb \<and> fb_stride fb' = fb_stride fb" for q p n fb fb'
    by (induction n arbitrary: q p fb) (auto simp: bind_Some_iff dest!: put)
  show "fill_row c p n fb = Some fb' \<Longrightarrow> length (fb_pixels fb') = length (fb_pixels fb)
    \<and> fb_width fb' = fb_width fb \<and> fb_height fb' = fb_height fb \<and> fb_stride fb' = fb_stride fb" by (rule fill)
  show "copy_row q p n fb = Some fb' \<Longrightarrow> length (fb_pixels fb') = length (fb_pixels fb)
    \<and> fb_width fb' = fb_width fb \<and> fb_height fb' = fb_height fb \<and> fb_stride fb' = fb_stride fb" by (rule copy)
  show "scroll_rows c y n fb = Some fb' \<Longrightarrow> length (fb_pixels fb') = length (fb_pixels fb)
    \<and> fb_width fb' = fb_width fb \<and> fb_height fb' = fb_height fb \<and> fb_stride fb' = fb_stride fb"
    by (induction n arbitrary: y fb) (auto simp: bind_Some_iff Let_def split: if_splits dest!: fill copy)
qed

lemma draw_below_screen:
  assumes "console_ok t" "to_row t = to_rows t" "to_col t = 0" "unat (fb_height (to_fb t)) mod 8 = 0" "unat c < 128"
  shows "drawChar c t = None"
proof -
  let ?fb = "to_fb t" let ?H = "unat (fb_height ?fb)" let ?S = "unat (fb_stride ?fb)"
  have l: "length (fb_pixels ?fb) = ?H * ?S" "?H * ?S < 2 ^ 60" "to_rows t = fb_height ?fb div 8"
    using assms(1) by (simp_all add: console_ok_def Let_def)
  have n: "x < 2 ^ 60 \<Longrightarrow> x < (2 :: nat) ^ 64" for x by (erule less_trans) simp
  have r: "unat (to_row t) * 8 = ?H"
    using assms(2,4) l(3) mult_div_mod_eq [of 8 ?H] by (simp add: unat_div mult.commute)
  have H: "?H < 2 ^ 64" using unsigned_less [where 'a = nat, of "fb_height ?fb"] by simp
  have "unat (to_row t * kFont8x8Height) = ?H"
    using unat_mult_small [of "to_row t" 8] r H by (simp add: kFont8x8Height_def)
  then have "unat (to_row t * kFont8x8Height * fb_stride ?fb) = ?H * ?S"
    using unat_mult_small [of "to_row t * kFont8x8Height" "fb_stride ?fb"] n [OF l(2)] by simp
  then have out: "put_pixel ?fb (to_row t * kFont8x8Height * fb_stride ?fb) v = None" for v
    using l(1) by (intro put_pixel_outside) simp
  obtain l0 ls where "font8x8_basic ! unat c = l0 # ls" using font_lines [OF assms(5)] by (cases "font8x8_basic ! unat c") simp_all
  moreover have "\<not> sint c < 0" using sint_ascii [OF assms(5)] by simp
  moreover have "draw_line l bg fg (to_row t * kFont8x8Height * fb_stride ?fb) 0 (unat kFont8x8Width) ?fb = None" for l bg fg
  proof -
    have w: "unat kFont8x8Width = Suc 7" by (simp add: kFont8x8Width_def)
    show ?thesis unfolding w draw_line.simps using out by simp
  qed
  ultimately show ?thesis
    using out assms(3) by (simp add: drawChar_def drawCharacter_def)
qed

lemma scroll_keep:
  assumes "scroll t = Some t'"
  shows "to_row t' = to_row t \<and> to_col t' = to_col t \<and> to_rows t' = to_rows t \<and> to_cols t' = to_cols t
    \<and> fb_height (to_fb t') = fb_height (to_fb t) \<and> (console_ok t \<longrightarrow> console_ok t')"
  using assms by (auto simp: scroll_def bind_Some_iff console_ok_def Let_def dest!: scroll_rows_keep(3))

lemma print_after_last_line:
  assumes "console_ok t" "to_row t + 1 = to_rows t" "0 < to_cols t" "unat (fb_height (to_fb t)) mod 8 = 0" "printable c"
  shows "print [10, c] t = None"
proof -
  let ?t1 = "t\<lparr>to_col := 0, to_row := to_row t + 1\<rparr>"
  have ok1: "console_ok ?t1" using assms(1) by (simp add: console_ok_def Let_def)
  have c: "unat c < 128" "c \<noteq> 10" "c \<noteq> 9" using assms(5) by (auto simp: printable_def)
  have s10: "\<not> 32 \<le> sint (10 :: u8)" by simp
  have p1: "print_char 10 t = scroll ?t1"
    using assms(2) s10 by (cases "scroll ?t1") (simp_all add: print_char_def Let_def)
  show ?thesis
  proof (cases "scroll ?t1")
    case None
    then show ?thesis using p1 by simp
  next
    case (Some t2)
    note K2 = scroll_keep [OF Some]
    have p2: "print_char c t2 = do { t \<leftarrow> scroll t2; (if sint c \<ge> 32 then drawChar c t else Some t) }"
    proof -
      have "\<not> to_cols t2 \<le> to_col t2" "to_rows t2 \<le> to_row t2" using K2 assms(2,3) by (simp_all add: not_le)
      then show ?thesis using c by (simp add: print_char_def Let_def)
    qed
    have "sint c \<ge> 32"
    proof -
      have "int 32 \<le> int (unat c)" using assms(5) by (simp only: of_nat_le_iff printable_def)
      then show ?thesis using sint_ascii [OF c(1)] by simp
    qed
    moreover have "drawChar c t3 = None" if "scroll t2 = Some t3" for t3
      by (rule draw_below_screen) (use scroll_keep [OF that] K2 ok1 assms(2,4) c in simp_all)
    ultimately have "print_char c t2 = None" using p2 by (cases "scroll t2") simp_all
    then show ?thesis using p1 Some by simp
  qed
qed

subsection \<open>Clearing\<close>

lemma clear_rows_repainted:
  assumes "pixels_ok fb" "unat (fb_width fb) \<le> unat (fb_stride fb)"
    and "(unat y + n) * unat (fb_stride fb) \<le> length (fb_pixels fb)" "unat y + n < 2 ^ 64"
  shows "clear_rows c y n fb = Some (repainted fb (\<lambda>i.
    if unat y \<le> i div unat (fb_stride fb) \<and> i div unat (fb_stride fb) < unat y + n
      \<and> i mod unat (fb_stride fb) < unat (fb_width fb) then c else fb_pixels fb ! i))"
  using assms
proof (induction n arbitrary: y fb)
  case 0
  then show ?case by (subst repainted_same) auto
next
  case (Suc n)
  let ?S = "unat (fb_stride fb)" let ?W = "unat (fb_width fb)" let ?y = "unat y"
  let ?f = "\<lambda>i. if ?y * ?S \<le> i \<and> i < ?y * ?S + ?W then c else fb_pixels fb ! i"
  let ?fb = "repainted fb ?f"
  have fit: "?y * ?S + ?S \<le> length (fb_pixels fb)" using Suc.prems(3) by (simp add: algebra_simps)
  then have "?y * ?S < 2 ^ 64 \<or> ?S = 0" using Suc.prems(1) by (auto simp: pixels_ok_def)
  then have p: "unat (y * fb_stride fb) = ?y * ?S" using unat_mult_small [of y "fb_stride fb"] by auto
  have 1: "fill_row c (y * fb_stride fb) ?W fb = Some ?fb"
    using fill_row_repainted [of fb "y * fb_stride fb" ?W c] Suc.prems(1,2) fit p by simp
  have y1: "unat (y + 1) = ?y + 1" using unat_plus_of_nat [of y 1] Suc.prems(4) by simp
  have "clear_rows c (y + 1) n ?fb = Some (repainted ?fb (\<lambda>i.
      if ?y + 1 \<le> i div ?S \<and> i div ?S < ?y + 1 + n \<and> i mod ?S < ?W then c else fb_pixels ?fb ! i))"
    using Suc.IH [of ?fb "y + 1"] Suc.prems y1 by simp
  also have "repainted ?fb (\<lambda>i. if ?y + 1 \<le> i div ?S \<and> i div ?S < ?y + 1 + n \<and> i mod ?S < ?W then c else fb_pixels ?fb ! i)
      = repainted fb (\<lambda>i. if ?y \<le> i div ?S \<and> i div ?S < ?y + Suc n \<and> i mod ?S < ?W then c else fb_pixels fb ! i)"
    unfolding repainted_repainted
  proof (rule repainted_cong)
    fix i assume i: "i < length (fb_pixels fb)"
    have row: "?y * ?S \<le> i \<and> i < ?y * ?S + ?W \<longleftrightarrow> i div ?S = ?y \<and> i mod ?S < ?W"
    proof
      assume a: "?y * ?S \<le> i \<and> i < ?y * ?S + ?W"
      define j where "j = i - ?y * ?S"
      have j: "i = ?y * ?S + j" "j < ?W" using a by (simp_all add: j_def) linarith
      then have "j < ?S" using Suc.prems(2) by simp
      then show "i div ?S = ?y \<and> i mod ?S < ?W" using j by simp
    next
      assume a: "i div ?S = ?y \<and> i mod ?S < ?W"
      then show "?y * ?S \<le> i \<and> i < ?y * ?S + ?W" using div_mult_mod_eq [of i ?S] by (metis add_less_cancel_left le_add1)
    qed
    show "(if ?y + 1 \<le> i div ?S \<and> i div ?S < ?y + 1 + n \<and> i mod ?S < ?W then c else fb_pixels ?fb ! i)
      = (if ?y \<le> i div ?S \<and> i div ?S < ?y + Suc n \<and> i mod ?S < ?W then c else fb_pixels fb ! i)"
      using i row by (simp only: repainted_simps(5)) auto
  qed
  finally show ?case using 1 by simp
qed

subsection \<open>Properties\<close>

text \<open>The picture of a character in the font, its lines from the top and its columns from the left.  The
  labels of the table settle the order: only with the lowest bit leftmost is the row labelled \<open>/\<close> a slash
  and the row labelled \<open>(\<close> an opening bracket.\<close>

definition glyph_pixel :: "u8 \<Rightarrow> nat \<Rightarrow> nat \<Rightarrow> bool" where
  "glyph_pixel c x y = bit (font8x8_basic ! unat c ! y) x"

lemma lit_mirrored:
  assumes "in_figure S P 8 i"
  shows "lit (font8x8_basic ! unat c) S P i = glyph_pixel c (7 - (i - P) mod S) ((i - P) div S)"
proof -
  have m: "drop_bit k 0x80 AND l \<noteq> 0 \<longleftrightarrow> bit l (7 - k)" if "k < 8" for k and l :: u8
  proof -
    have "drop_bit k (0x80 :: u8) = push_bit (7 - k) 1"
    proof -
      have "k = 0 \<or> k = 1 \<or> k = 2 \<or> k = 3 \<or> k = 4 \<or> k = 5 \<or> k = 6 \<or> k = 7" using that by linarith
      then show ?thesis by (elim disjE) simp_all
    qed
    then show ?thesis by (simp only: bit_iff_and_push_bit_not_eq_0 and.commute)
  qed
  have "(i - P) mod S < 8" using assms by (simp add: in_figure_def)
  then show ?thesis unfolding lit_def glyph_pixel_def by (rule m)
qed

text \<open>C31: drawing a character of the ASCII range in a cell of the console succeeds and changes
  exactly the 8 by 8 pixels of the cell, each to the foreground or the background colour.  The code takes
  the highest bit of a font line for the leftmost pixel, where the font has the lowest: what is painted is
  the picture of the character mirrored left to right, a backslash for a slash.\<close>

theorem drawChar_paints_cell:
  assumes "console_ok t" "to_row t < to_rows t" "to_col t < to_cols t" "unat c < 128"
  shows "\<exists>t'. drawChar c t = Some t' \<and> t' = t\<lparr>to_fb := to_fb t'\<rparr>
    \<and> length (fb_pixels (to_fb t')) = length (fb_pixels (to_fb t))
    \<and> (\<forall>i < length (fb_pixels (to_fb t)). fb_pixels (to_fb t') ! i =
        (let S = unat (fb_stride (to_fb t)); P = cell_pixel t in
         if in_figure S P 8 i
         then if glyph_pixel c (7 - (i - P) mod S) ((i - P) div S) then color_pixel (to_fg t) else color_pixel (to_bg t)
         else fb_pixels (to_fb t) ! i))"
  using drawChar_painted [OF assms] font_lines [OF assms(4)] by (simp add: painted_def figure_def Let_def lit_mirrored)

definition demo_console :: text_output where
  "demo_console = text_construct \<lparr>fb_pixels = replicate 512 0, fb_width = 32, fb_height = 16, fb_stride = 32\<rparr>"

lemma demo_console_ok: "console_ok demo_console" "to_row demo_console < to_rows demo_console"
  "to_col demo_console < to_cols demo_console" "to_rows demo_console = 2" "to_cols demo_console = 4"
  by (simp_all add: demo_console_def text_construct_def console_ok_def kFont8x8Height_def kFont8x8Width_def)

text \<open>The top line of the slash is its two columns 5 and 6; it is painted in the columns 2 and 1.\<close>

lemma drawChar_paints_cell_witness:
  "glyph_pixel 0x2F 6 0 \<and> \<not> glyph_pixel 0x2F 1 0
     \<and> (\<exists>t'. drawChar 0x2F demo_console = Some t' \<and> fb_pixels (to_fb t') ! 1 = 0xcdd6f4
          \<and> fb_pixels (to_fb t') ! 6 = 0x181825 \<and> fb_pixels (to_fb t') ! 8 = 0)"
proof -
  have P: "cell_pixel demo_console = 0" "unat (fb_stride (to_fb demo_console)) = 32" "length (fb_pixels (to_fb demo_console)) = 512"
    "fb_pixels (to_fb demo_console) ! 8 = 0"
    "color_pixel (to_fg demo_console) = 0xcdd6f4" "color_pixel (to_bg demo_console) = 0x181825"
    by (simp_all add: demo_console_def text_construct_def cell_pixel_def color_pixel_def pallette_def)
  have "font8x8_basic ! 47 ! 0 = 0x60" by (simp add: font8x8_basic_def)
  then have g: "glyph_pixel 0x2F 6 0" "\<not> glyph_pixel 0x2F 1 0" by (simp_all add: glyph_pixel_def bit_numeral_word_iff)
  obtain t' where t': "drawChar 0x2F demo_console = Some t'"
    "\<forall>i < 512. fb_pixels (to_fb t') ! i =
        (if in_figure 32 0 8 i then if glyph_pixel 0x2F (7 - i mod 32) (i div 32) then 0xcdd6f4 else 0x181825
         else fb_pixels (to_fb demo_console) ! i)"
    using drawChar_paints_cell [OF demo_console_ok(1-3), of "0x2F"] P by (auto simp: Let_def)
  have "fb_pixels (to_fb t') ! 1 = 0xcdd6f4" using t'(2) g by (simp add: in_figure_def)
  moreover have "fb_pixels (to_fb t') ! 6 = 0x181825" using t'(2) g by (simp add: in_figure_def)
  moreover have "fb_pixels (to_fb t') ! 8 = 0" using t'(2) P(4) by (simp add: in_figure_def)
  ultimately show ?thesis using t'(1) g by blast
qed

text \<open>The console does not advance: printing a text of printable characters leaves what
  printing only its last character leaves, one character in the cell where the text began.\<close>

theorem print_overwrites:
  assumes "console_ok t" "to_row t < to_rows t" "to_col t < to_cols t" "\<forall>c \<in> set cs. printable c" "cs \<noteq> []"
  shows "\<exists>t'. print cs t = Some t' \<and> print [last cs] t = Some t' \<and> to_col t' = to_col t"
proof -
  have "printable (last cs)" using assms(4,5) by simp
  then have "print [last cs] t = Some (painted (last cs) t)"
    using print_printable [OF assms(1-3), of "[last cs]"] by simp
  then show ?thesis using print_printable [OF assms] by simp
qed

lemma print_overwrites_witness: "print [0x4F, 0x4B] demo_console = print [0x4B] demo_console"
  using print_overwrites [OF demo_console_ok(1-3), of "[0x4F, 0x4B]"] by (auto simp: printable_def)

text \<open>The console does not come back from scrolling: after a line end in the last line the next
  printable character is drawn below the frame buffer.\<close>

theorem print_leaves_buffer:
  assumes "console_ok t" "to_row t + 1 = to_rows t" "0 < to_cols t" "unat (fb_height (to_fb t)) mod 8 = 0" "printable c"
  shows "print [10, c] t = None"
  using assms by (rule print_after_last_line)

lemma print_leaves_buffer_witness: "print [10, 0x41] (demo_console\<lparr>to_row := 1\<rparr>) = None"
  by (rule print_leaves_buffer)
    (simp_all add: demo_console_def text_construct_def console_ok_def kFont8x8Height_def kFont8x8Width_def printable_def)

text \<open>Clearing the frame buffer sets every pixel of its width and height to the colour and no
  pixel of the rest of the stride.\<close>

theorem clear_buffer_pixels:
  assumes "pixels_ok fb" "unat (fb_width fb) \<le> unat (fb_stride fb)"
    and "unat (fb_height fb) * unat (fb_stride fb) \<le> length (fb_pixels fb)"
  shows "\<exists>fb'. clear_buffer c fb = Some fb' \<and> length (fb_pixels fb') = length (fb_pixels fb)
    \<and> (\<forall>i < length (fb_pixels fb). fb_pixels fb' ! i =
        (if i div unat (fb_stride fb) < unat (fb_height fb) \<and> i mod unat (fb_stride fb) < unat (fb_width fb)
         then c else fb_pixels fb ! i))"
proof -
  have "unat (fb_height fb) < 2 ^ 64" using unsigned_less [where 'a = nat, of "fb_height fb"] by simp
  then show ?thesis
    using clear_rows_repainted [OF assms(1,2), of 0 "unat (fb_height fb)" c] assms(3)
    by (simp add: clear_buffer_def)
qed

lemma clear_buffer_pixels_witness:
  "\<exists>fb'. clear_buffer 7 \<lparr>fb_pixels = [1, 1, 1, 1, 1, 1], fb_width = 2, fb_height = 2, fb_stride = 3\<rparr> = Some fb'
    \<and> fb_pixels fb' = [7, 7, 1, 7, 7, 1]"
proof -
  let ?fb = "\<lparr>fb_pixels = [1, 1, 1, 1, 1, 1], fb_width = 2, fb_height = 2, fb_stride = 3\<rparr>"
  obtain fb' where fb': "clear_buffer 7 ?fb = Some fb'" "length (fb_pixels fb') = 6"
    "\<forall>i < 6. fb_pixels fb' ! i = (if i div 3 < 2 \<and> i mod 3 < 2 then 7 else [1, 1, 1, 1, 1, 1] ! i)"
    using clear_buffer_pixels [of ?fb 7] by (auto simp: pixels_ok_def)
  have "fb_pixels fb' = [7, 7, 1, 7, 7, 1]"
  proof (rule nth_equalityI)
    fix i assume "i < length (fb_pixels fb')"
    then have "i = 0 \<or> i = 1 \<or> i = 2 \<or> i = 3 \<or> i = 4 \<or> i = 5" using fb'(2) by auto
    then show "fb_pixels fb' ! i = [7, 7, 1, 7, 7, 1] ! i" using fb'(3) by (elim disjE) (simp_all add: nth_Cons')
  qed (simp add: fb'(2))
  then show ?thesis using fb'(1) by blast
qed

end
