(* ===== verification/EfiMain.thy ===== *)
theory EfiMain
  imports BootLoad
begin

text \<open>
  The loader's main program (efi/src/main/cpp/main.cpp, \<open>clear_screen\<close> of efi/include/main.h):
  it finds the frame buffer, reads the ram disk into memory, looks for the kernel in it and
  starts it.  The firmware's protocols are the fields of \<open>'f main_services\<close>: each returns its
  status, what it stores and the firmware's new state.  \<open>InitializeLib\<close> is the firmware
  library's; messages are not modelled.
\<close>

record loaded_image =
  li_ImageBase :: u64
  li_DeviceHandle :: u64

record graphics_mode =
  gm_FrameBufferBase :: u64
  gm_FrameBufferSize :: u64
  gm_HorizontalResolution :: u32
  gm_VerticalResolution :: u32
  gm_PixelsPerScanLine :: u32

record 'f main_services =
  services_of :: "'f services"
  HandleLoadedImage :: "'f \<Rightarrow> u64 \<Rightarrow> u64 \<times> loaded_image \<times> 'f"
  HandleFileSystem :: "'f \<Rightarrow> u64 \<Rightarrow> u64 \<times> u64 \<times> 'f"
  OpenVolume :: "'f \<Rightarrow> u64 \<Rightarrow> u64 \<times> u64 \<times> 'f"
  OpenFile :: "'f \<Rightarrow> u64 \<Rightarrow> string \<Rightarrow> u64 \<times> u64 \<times> 'f"
  GetFileInfo :: "'f \<Rightarrow> mem \<Rightarrow> u64 \<Rightarrow> u64 \<Rightarrow> u64 \<Rightarrow> u64 \<times> mem \<times> u64 \<times> 'f"
  ReadFile :: "'f \<Rightarrow> mem \<Rightarrow> u64 \<Rightarrow> u64 \<Rightarrow> u64 \<Rightarrow> u64 \<times> mem \<times> u64 \<times> 'f"
  LocateGraphics :: "'f \<Rightarrow> u64 \<times> graphics_mode \<times> 'f"
  ClearScreen :: "'f \<Rightarrow> u64 \<times> 'f"
  ResetInput :: "'f \<Rightarrow> u64 \<times> 'f"
  WaitForKeyEvent :: "'f \<Rightarrow> u64 \<times> 'f"
  ReadKeyStroke :: "'f \<Rightarrow> u64 \<times> 'f"
  sizeof_EFI_FILE_INFO :: u64

text \<open>A service that stores a result.\<close>

definition efi_get :: "'f efi \<Rightarrow> 'f boot \<Rightarrow> u64 \<times> 'a \<times> 'f \<Rightarrow> ('f, 'a) outcome" where
  "efi_get efi s r =
     (let (status, a, f) = r in
      if EFI_ERROR efi status then (s\<lparr>fw := f\<rparr>, Inl status) else (s\<lparr>fw := f\<rparr>, Inr a))"

definition write_debug_sentinel :: "loaded_image \<Rightarrow> mem \<Rightarrow> mem" where
  "write_debug_sentinel li m = write64 (write64 m 0x10008 (li_ImageBase li)) 0x10000 0xDEADBEEF"

subsection \<open>The screen\<close>

definition write32 :: "mem \<Rightarrow> u64 \<Rightarrow> u32 \<Rightarrow> mem" where
  "write32 m a v =
     m(a := ucast v, a + 1 := ucast (drop_bit 8 v), a + 2 := ucast (drop_bit 16 v),
       a + 3 := ucast (drop_bit 24 v))"

text \<open>The product of the row and the pixels per line is a 32-bit one.\<close>

fun clear_line :: "u64 \<Rightarrow> u32 \<Rightarrow> u32 \<Rightarrow> nat \<Rightarrow> mem \<Rightarrow> mem" where
  "clear_line p color x 0 m = m"
| "clear_line p color x (Suc left) m =
     clear_line p color (x + 1) left (write32 m (p + 4 * ucast x) color)"

fun clear_lines :: "graphics_info \<Rightarrow> u32 \<Rightarrow> u32 \<Rightarrow> nat \<Rightarrow> mem \<Rightarrow> mem" where
  "clear_lines gi color y 0 m = m"
| "clear_lines gi color y (Suc left) m =
     (let p = gi_framebuffer_base gi + 4 * ucast (y * gi_pixels_per_scanline gi) in
      clear_lines gi color (y + 1) left (clear_line p color 0 (unat (gi_framebuffer_width gi)) m))"

definition clear_screen :: "graphics_info \<Rightarrow> u32 \<Rightarrow> mem \<Rightarrow> mem" where
  "clear_screen gi color m = clear_lines gi color 0 (unat (gi_framebuffer_height gi)) m"

text \<open>The fields of \<open>*gi\<close> that are not set keep their value.\<close>

definition get_graphics_info :: "'f main_services \<Rightarrow> graphics_info \<Rightarrow> 'f boot \<Rightarrow> ('f, graphics_info) outcome" where
  "get_graphics_info ms gi s =
     TRYWRAPFN (efi_get (core (services_of ms)) s (LocateGraphics ms (fw s))) (\<lambda>s gop.
       (s, Inr (gi\<lparr>gi_framebuffer_base := gm_FrameBufferBase gop,
                   gi_framebuffer_size := gm_FrameBufferSize gop,
                   gi_framebuffer_width := gm_HorizontalResolution gop,
                   gi_framebuffer_height := gm_VerticalResolution gop,
                   gi_pixels_per_scanline := gm_PixelsPerScanLine gop\<rparr>)))"

subsection \<open>The ram disk\<close>

definition load_boot_image :: "'f main_services \<Rightarrow> u64 \<Rightarrow> boot_info \<Rightarrow> 'f boot \<Rightarrow> ('f, boot_info) outcome" where
  "load_boot_image ms ImageHandle bi s =
     (let sv = services_of ms; efi = core sv in
      TRYWRAPFN (efi_get efi s (HandleLoadedImage ms (fw s) ImageHandle)) (\<lambda>s LoadedImage.
      TRYWRAPFN (efi_get efi s (HandleFileSystem ms (fw s) (li_DeviceHandle LoadedImage))) (\<lambda>s FileSystem.
      TRYWRAPFN (efi_get efi s (OpenVolume ms (fw s) FileSystem)) (\<lambda>s Root.
      TRYWRAPFN (efi_get efi s (OpenFile ms (fw s) Root ''initrd.img'')) (\<lambda>s File.
      let fileInfoSize = sizeof_EFI_FILE_INFO ms + 200 in
      TRYWRAPFN (efi_get efi s (AllocatePool sv (fw s) fileInfoSize)) (\<lambda>s fileInfo.
      let (status, m, fileSize, f) = GetFileInfo ms (fw s) (bmem s) File fileInfoSize fileInfo;
          s = s\<lparr>bmem := m\<rparr>
      in TRYWRAPFN (efi_get efi s (status, fileSize, f)) (\<lambda>s fileSize.
      TRYWRAPFN (alloc_pages efi s (EFI_SIZE_TO_PAGES efi fileSize)) (\<lambda>s buffer.
      let (status, m, fileSize, f) = ReadFile ms (fw s) (bmem s) File fileSize buffer;
          s = s\<lparr>bmem := m\<rparr>
      in TRYWRAPFN (efi_get efi s (status, fileSize, f)) (\<lambda>s fileSize.
      (s, Inr (bi\<lparr>bi_initrd_base := buffer, bi_initrd_size := fileSize\<rparr>)))))))))))"

definition wait_for_key :: "'f main_services \<Rightarrow> 'f boot \<Rightarrow> ('f, unit) outcome" where
  "wait_for_key ms s =
     (let efi = core (services_of ms) in
      TRYWRAPFN (efi_call efi s (ResetInput ms (fw s))) (\<lambda>s _.
      TRYWRAPFN (efi_call efi s (WaitForKeyEvent ms (fw s))) (\<lambda>s _.
      efi_call efi s (ReadKeyStroke ms (fw s)))))"

subsection \<open>The main program\<close>

text \<open>\<open>boot_info_t\<close> has 152 bytes and is zeroed before its fields are set.\<close>

definition sizeof_boot_info :: u64 where "sizeof_boot_info = 152"

definition boot_info_zero :: boot_info where
  "boot_info_zero =
     \<lparr>bi_magic = 0, bi_initrd_base = 0, bi_initrd_size = 0, bi_page_table_physical = 0, bi_page_table_virtual = 0,
      bi_graphics_info = \<lparr>gi_framebuffer_base = 0, gi_framebuffer_virtual_base = 0, gi_framebuffer_size = 0,
        gi_framebuffer_width = 0, gi_framebuffer_height = 0, gi_pixels_per_scanline = 0\<rparr>,
      bi_memory_map = \<lparr>mm_memory_map = 0, mm_memory_map_size = 0, mm_descriptor_size = 0, mm_descriptor_version = 0\<rparr>,
      bi_memory_end = 0, bi_cpu_count = 0, bi_stack_area_base = 0, bi_stack_pages_per_cpu = 0, bi_idt_addr = 0\<rparr>"

text \<open>\<open>kernel_name\<close> is the address of the literal \<open>"kernel.elf"\<close>; \<open>gi\<close>, \<open>ki\<close> and \<open>pages\<close> are the
  indeterminate values of the local variables.  \<open>None\<close>: a loop of a callee does not end.\<close>

definition efi_main ::
  "'f main_services \<Rightarrow> u64 \<Rightarrow> u64 \<Rightarrow> graphics_info \<Rightarrow> kernel_image \<Rightarrow> u64 \<times> u64 \<times> u64 \<Rightarrow> 'f boot
    \<Rightarrow> ('f, handover) outcome option" where
  "efi_main ms ImageHandle kernel_name gi ki pages s =
     (let sv = services_of ms; efi = core sv;
          start =
            TRYWRAPFN (efi_get efi s (HandleLoadedImage ms (fw s) ImageHandle)) (\<lambda>s LoadedImage.
            let s = s\<lparr>bmem := write_debug_sentinel LoadedImage (bmem s)\<rparr> in
            TRYWRAPFN (efi_call efi s (ClearScreen ms (fw s))) (\<lambda>s _.
            TRYWRAPFN (get_graphics_info ms gi s) (\<lambda>s gi.
            let s = s\<lparr>bmem := clear_screen gi 0x00181825 (bmem s)\<rparr> in
            TRYWRAPFN (efi_get efi s (AllocatePool sv (fw s) sizeof_boot_info)) (\<lambda>s bi_addr.
            let s = s\<lparr>bmem := memset (bmem s) bi_addr 0 sizeof_boot_info\<rparr>;
                bi = boot_info_zero\<lparr>bi_magic := BOOTINFO_MAGIC, bi_graphics_info := gi\<rparr>
            in TRYWRAPFN (load_boot_image ms ImageHandle bi s) (\<lambda>s bi. (s, Inr (bi, bi_addr)))))))
      in case start of
          (s, Inl status) \<Rightarrow> Some (s, Inl status)
        | (s, Inr (bi, bi_addr)) \<Rightarrow>
          (case find_cpio_file (bmem s) (bi_initrd_base bi) (bi_initrd_size bi) kernel_name of
            None \<Rightarrow> None
          | Some None \<Rightarrow> Some (s, Inl (EFI_LOAD_ERROR efi))
          | Some (Some (kernel_elf, kernel_size)) \<Rightarrow>
            (case load_kernel sv kernel_elf ki bi bi_addr pages s of
              None \<Rightarrow> None
            | Some r \<Rightarrow> Some (TRYWRAPFN r (\<lambda>s (bi, h). TRYWRAPFN (wait_for_key ms s) (\<lambda>s _. (s, Inr h)))))))"

end
