(* ===== verification/UniquePtr.thy ===== *)
theory UniquePtr
  imports Prelude
begin

text \<open>
  Owning pointers (include/core/stdlib/memory.h) over a heap: a map from the addresses of live
  allocations to their elements.  A pointer is an address, 0 the null pointer.  Deleting an
  address that is not live and reading through a dangling or null pointer are undefined and so
  are \<open>None\<close>.  Where \<open>new\<close> places an object is the parameter \<open>place\<close>, 0 when memory is
  exhausted; \<open>T{}\<close> is the parameter \<open>dflt\<close>.
\<close>

type_synonym 'a heap = "u64 \<Rightarrow> 'a list option"

definition new_array :: "('a heap \<Rightarrow> u64 \<Rightarrow> u64) \<Rightarrow> 'a \<Rightarrow> 'a heap \<Rightarrow> u64 \<Rightarrow> u64 \<times> 'a heap" where
  "new_array place dflt h n =
     (let p = place h n in if p = 0 then (0, h) else (p, h(p := Some (replicate (unat n) dflt))))"

text \<open>\<open>heap_deleter\<close>: deleting null does nothing.\<close>

definition heap_delete :: "'a heap \<Rightarrow> u64 \<Rightarrow> 'a heap option" where
  "heap_delete h p =
     (if p = 0 then Some h else case h p of None \<Rightarrow> None | Some _ \<Rightarrow> Some (h(p := None)))"

definition heap_read :: "'a heap \<Rightarrow> u64 \<Rightarrow> nat \<Rightarrow> 'a option" where
  "heap_read h p i = (case h p of None \<Rightarrow> None | Some xs \<Rightarrow> if p \<noteq> 0 \<and> i < length xs then Some (xs ! i) else None)"

definition heap_write :: "'a heap \<Rightarrow> u64 \<Rightarrow> nat \<Rightarrow> 'a \<Rightarrow> 'a heap option" where
  "heap_write h p i x =
     (case h p of None \<Rightarrow> None
      | Some xs \<Rightarrow> if p \<noteq> 0 \<and> i < length xs then Some (h(p := Some (xs[i := x]))) else None)"

subsection \<open>unique_ptr\<close>

text \<open>A \<open>unique_ptr<T>\<close> is its \<open>ptr_\<close>; its object is an allocation of one element.\<close>

definition up_default :: "('a heap \<Rightarrow> u64 \<Rightarrow> u64) \<Rightarrow> 'a \<Rightarrow> 'a heap \<Rightarrow> u64 \<times> 'a heap" where
  "up_default place dflt h = new_array place dflt h 1"

definition up_construct :: "u64 \<Rightarrow> u64" where "up_construct ptr = ptr"

text \<open>Move assignment of two distinct objects, of an object to itself, and the move constructor;
  the results are \<open>*this\<close> and \<open>other\<close>.\<close>

definition up_move_assign :: "u64 \<Rightarrow> u64 \<Rightarrow> u64 \<times> u64" where
  "up_move_assign this other = (other, 0)"

definition up_move_construct :: "u64 \<Rightarrow> u64 \<times> u64" where
  "up_move_construct other = up_move_assign 0 other"

definition up_reset :: "'a heap \<Rightarrow> u64 \<Rightarrow> u64 \<Rightarrow> (u64 \<times> 'a heap) option" where
  "up_reset h this new_ptr = do { h \<leftarrow> heap_delete h this; Some (new_ptr, h) }"

definition up_release :: "u64 \<Rightarrow> u64 \<times> u64" where
  "up_release this = (this, 0)"

definition up_deref :: "'a heap \<Rightarrow> u64 \<Rightarrow> 'a option" where
  "up_deref h this = heap_read h this 0"

definition up_not :: "u64 \<Rightarrow> bool" where "up_not this \<longleftrightarrow> this = 0"

definition up_bool :: "u64 \<Rightarrow> bool" where "up_bool this \<longleftrightarrow> this \<noteq> 0"

definition up_destruct :: "'a heap \<Rightarrow> u64 \<Rightarrow> 'a heap option" where
  "up_destruct h this = heap_delete h this"

definition up_swap :: "u64 \<Rightarrow> u64 \<Rightarrow> u64 \<times> u64" where
  "up_swap a b = (b, a)"

subsection \<open>unique_ptr of arrays\<close>

record array_ptr =
  ap_ptr :: u64
  ap_len :: u64

definition ap_default :: array_ptr where "ap_default = \<lparr>ap_ptr = 0, ap_len = 0\<rparr>"

definition ap_construct :: "u64 \<Rightarrow> u64 \<Rightarrow> array_ptr" where
  "ap_construct ptr len = \<lparr>ap_ptr = ptr, ap_len = (if ptr \<noteq> 0 then len else 0)\<rparr>"

text \<open>The constructor from a length has no initialiser for its base, so the default constructor of
  \<open>unique_ptr_base\<close> runs first: it allocates a \<open>T{}\<close>, and nothing owns that once \<open>ptr_\<close> is overwritten.\<close>

definition ap_construct_len ::
  "('a heap \<Rightarrow> u64 \<Rightarrow> u64) \<Rightarrow> 'a \<Rightarrow> 'a heap \<Rightarrow> u64 \<Rightarrow> array_ptr \<times> 'a heap" where
  "ap_construct_len place dflt h len =
     (let (_, h) = up_default place dflt h in
      if len = 0 then (\<lparr>ap_ptr = 0, ap_len = 0\<rparr>, h)
      else let (newarr, h) = new_array place dflt h len in
        (\<lparr>ap_ptr = newarr, ap_len = (if newarr \<noteq> 0 then len else 0)\<rparr>, h))"

definition ap_move_assign :: "array_ptr \<Rightarrow> array_ptr \<Rightarrow> array_ptr \<times> array_ptr" where
  "ap_move_assign this other =
     (let (p, q) = up_move_assign (ap_ptr this) (ap_ptr other) in
      (\<lparr>ap_ptr = p, ap_len = ap_len other\<rparr>, \<lparr>ap_ptr = q, ap_len = 0\<rparr>))"

text \<open>So does the move constructor; the length, which has no initialiser, is \<open>indeterminate\<close> until it
  is assigned.\<close>

definition ap_move_construct ::
  "('a heap \<Rightarrow> u64 \<Rightarrow> u64) \<Rightarrow> 'a \<Rightarrow> u64 \<Rightarrow> 'a heap \<Rightarrow> array_ptr \<Rightarrow> array_ptr \<times> array_ptr \<times> 'a heap" where
  "ap_move_construct place dflt indeterminate h other =
     (let (ptr, h) = up_default place dflt h;
          (this, other) = ap_move_assign \<lparr>ap_ptr = ptr, ap_len = indeterminate\<rparr> other
      in (this, other, h))"

definition ap_length :: "array_ptr \<Rightarrow> u64" where
  "ap_length this = (if ap_ptr this \<noteq> 0 then ap_len this else 0)"

text \<open>\<open>operator[]\<close>: an index past the end dereferences null.\<close>

definition ap_index :: "'a heap \<Rightarrow> array_ptr \<Rightarrow> u64 \<Rightarrow> 'a option" where
  "ap_index h this index =
     (let ptr = (if index < ap_len this then ap_ptr this else 0);
          i = (if index < ap_len this then index else 0)
      in heap_read h ptr (unat i))"

definition ap_store :: "'a heap \<Rightarrow> array_ptr \<Rightarrow> u64 \<Rightarrow> 'a \<Rightarrow> 'a heap option" where
  "ap_store h this index x =
     (let ptr = (if index < ap_len this then ap_ptr this else 0);
          i = (if index < ap_len this then index else 0)
      in heap_write h ptr (unat i) x)"

definition ap_reset :: "'a heap \<Rightarrow> array_ptr \<Rightarrow> (array_ptr \<times> 'a heap) option" where
  "ap_reset h this = do { (p, h) \<leftarrow> up_reset h (ap_ptr this) 0; Some (\<lparr>ap_ptr = p, ap_len = 0\<rparr>, h) }"

definition ap_reset_to :: "'a heap \<Rightarrow> array_ptr \<Rightarrow> u64 \<Rightarrow> u64 \<Rightarrow> (array_ptr \<times> 'a heap) option" where
  "ap_reset_to h this ptr len = do { (_, h) \<leftarrow> ap_reset h this; Some (\<lparr>ap_ptr = ptr, ap_len = len\<rparr>, h) }"

definition make_unique_array :: "u64 \<Rightarrow> u64 \<Rightarrow> array_ptr" where
  "make_unique_array obj len = ap_construct obj len"

subsection \<open>Facts\<close>

text \<open>Where \<open>new\<close> puts an object nothing is alive.\<close>

definition place_laws :: "('a heap \<Rightarrow> u64 \<Rightarrow> u64) \<Rightarrow> bool" where
  "place_laws place \<longleftrightarrow> (\<forall>h n. place h n \<noteq> 0 \<longrightarrow> h (place h n) = None)"

text \<open>The heap after the allocation of the base constructor: what was live is live and unchanged.\<close>

definition after_base :: "('a heap \<Rightarrow> u64 \<Rightarrow> u64) \<Rightarrow> 'a \<Rightarrow> 'a heap \<Rightarrow> 'a heap" where
  "after_base place dflt h = snd (up_default place dflt h)"

lemma up_default_base: "up_default place dflt h = (place h 1, after_base place dflt h)"
  by (simp add: after_base_def up_default_def new_array_def Let_def)

lemma after_base_live:
  assumes "place_laws place" "h p = Some xs"
  shows "after_base place dflt h p = Some xs"
proof -
  have "place h 1 \<noteq> 0 \<longrightarrow> h (place h 1) = None" using assms(1) by (simp add: place_laws_def)
  then show ?thesis using assms(2) by (auto simp: after_base_def up_default_def new_array_def Let_def)
qed

text \<open>The object that the base constructor allocates is lost: it is live when the constructor returns, and
  the pointer constructed is not its address.\<close>

lemma ap_construct_len_leaks:
  assumes "place_laws place" "place h 1 \<noteq> 0"
  shows "case ap_construct_len place dflt h len of (a, h') \<Rightarrow>
    h' (place h 1) = Some [dflt] \<and> ap_ptr a \<noteq> place h 1"
proof -
  let ?h = "after_base place dflt h"
  have live: "?h (place h 1) = Some [dflt]"
    using assms(2) by (simp add: after_base_def up_default_def new_array_def Let_def)
  have "place ?h len \<noteq> 0 \<longrightarrow> ?h (place ?h len) = None" using assms(1) by (simp add: place_laws_def)
  then show ?thesis
    using live assms(2) by (auto simp: ap_construct_len_def up_default_base new_array_def Let_def)
qed

lemma ap_index_live:
  assumes "h (ap_ptr a) = Some xs" "ap_ptr a \<noteq> 0" "unat (ap_len a) = length xs"
  shows "ap_index h a i = (if unat i < length xs then Some (xs ! unat i) else None)"
  using assms by (auto simp: ap_index_def heap_read_def Let_def word_less_nat_alt split: option.splits)

lemma ap_store_live:
  assumes "h (ap_ptr a) = Some xs" "ap_ptr a \<noteq> 0" "unat (ap_len a) = length xs" "unat i < length xs"
  shows "ap_store h a i x = Some (h(ap_ptr a := Some (xs[unat i := x])))"
  using assms by (simp add: ap_store_def heap_write_def Let_def word_less_nat_alt)

lemma ap_move_assign_simps [simp]:
  "ap_move_assign this other = (other, \<lparr>ap_ptr = 0, ap_len = 0\<rparr>)"
  by (cases other) (simp add: ap_move_assign_def up_move_assign_def)

end
