(* ===== verification/Vector.thy ===== *)
theory Vector
  imports UniquePtr
begin

text \<open>
  \<open>rtk::vector<T>\<close> (include/core/stdlib/vector.h).  A vector's buffer is a \<open>unique_ptr<T[]>\<close> on
  the heap; the operations return the vector and the heap.  \<open>TRAP\<close> has an empty body in this
  build, so the code goes on after it.  Elements are values: moving one copies it, and a
  destructor leaves its bytes.
\<close>

record vec =
  v_size :: u64
  v_initial_capacity :: u64
  v_capacity :: u64
  v_elems :: array_ptr

definition default_initial_capacity :: u64 where "default_initial_capacity = 4"

definition vector_default :: vec where
  "vector_default = \<lparr>v_size = 0, v_initial_capacity = default_initial_capacity, v_capacity = 0, v_elems = ap_default\<rparr>"

definition vector_sized :: "u64 \<Rightarrow> vec" where
  "vector_sized n = \<lparr>v_size = n, v_initial_capacity = default_initial_capacity, v_capacity = 0, v_elems = ap_default\<rparr>"

definition vector_sized_capacity :: "u64 \<Rightarrow> u64 \<Rightarrow> vec" where
  "vector_sized_capacity n initial = \<lparr>v_size = n, v_initial_capacity = initial, v_capacity = 0, v_elems = ap_default\<rparr>"

subsection \<open>Growth\<close>

definition computeGrowth :: "vec \<Rightarrow> u64" where
  "computeGrowth v =
     (let new_capacity = (if v_capacity v = 0 then v_initial_capacity v else 3 * v_capacity v div 2)
      in if new_capacity = v_capacity v then new_capacity + 1 else new_capacity)"

text \<open>\<open>ptr[i] = move(prevptr[i])\<close> from \<open>i\<close> on, and \<open>new (ptr + i) T{}\<close>.  The first loop counts in an
  \<open>int\<close>, so the model is of vectors of at most \<open>2 ^ 31\<close> elements, and the properties keep to them.\<close>

fun move_items :: "'a heap \<Rightarrow> u64 \<Rightarrow> u64 \<Rightarrow> nat \<Rightarrow> nat \<Rightarrow> 'a heap option" where
  "move_items h ptr prevptr i 0 = Some h"
| "move_items h ptr prevptr i (Suc left) =
     do { x \<leftarrow> heap_read h prevptr i; h \<leftarrow> heap_write h ptr i x; move_items h ptr prevptr (Suc i) left }"

fun init_items :: "'a \<Rightarrow> 'a heap \<Rightarrow> u64 \<Rightarrow> nat \<Rightarrow> nat \<Rightarrow> 'a heap option" where
  "init_items dflt h ptr i 0 = Some h"
| "init_items dflt h ptr i (Suc left) =
     do { h \<leftarrow> heap_write h ptr i dflt; init_items dflt h ptr (Suc i) left }"

definition grow ::
  "('a heap \<Rightarrow> u64 \<Rightarrow> u64) \<Rightarrow> 'a \<Rightarrow> 'a heap \<Rightarrow> vec \<Rightarrow> u64 \<Rightarrow> (bool \<times> vec \<times> 'a heap) option" where
  "grow place dflt h v requested_size =
     (let new_capacity = v_capacity v;
          new_capacity = (if requested_size > v_capacity v then computeGrowth v else new_capacity);
          new_capacity = (if requested_size > new_capacity then requested_size else new_capacity)
      in if new_capacity \<le> v_capacity v then Some (False, v\<lparr>v_size := requested_size\<rparr>, h)
      else
        let (new_elems, h) = ap_construct_len place dflt h new_capacity in
        if ap_ptr new_elems = 0 then Some (False, v, h)
        else do {
          let v = v\<lparr>v_capacity := new_capacity\<rparr>;
          h \<leftarrow> move_items h (ap_ptr new_elems) (ap_ptr (v_elems v)) 0 (unat (v_size v));
          h \<leftarrow> init_items dflt h (ap_ptr new_elems) (unat (v_size v)) (unat new_capacity - unat (v_size v));
          let (elems, rest) = ap_move_assign (v_elems v) new_elems;
          h \<leftarrow> up_destruct h (ap_ptr rest);
          Some (True, v\<lparr>v_elems := elems, v_size := requested_size\<rparr>, h)
        })"

text \<open>The destructors of \<open>resize\<close> only have to find their elements.\<close>

fun retire_items :: "'a heap \<Rightarrow> array_ptr \<Rightarrow> u64 \<Rightarrow> nat \<Rightarrow> unit option" where
  "retire_items h elems i 0 = Some ()"
| "retire_items h elems i (Suc left) =
     do { _ \<leftarrow> ap_index h elems i; retire_items h elems (i + 1) left }"

definition vec_resize ::
  "('a heap \<Rightarrow> u64 \<Rightarrow> u64) \<Rightarrow> 'a \<Rightarrow> 'a heap \<Rightarrow> vec \<Rightarrow> u64 \<Rightarrow> (vec \<times> 'a heap) option" where
  "vec_resize place dflt h v new_size =
     (if new_size > v_size v then do { (_, v, h) \<leftarrow> grow place dflt h v new_size; Some (v, h) }
      else if new_size < v_size v then do {
        _ \<leftarrow> retire_items h (v_elems v) new_size (unat (v_size v) - unat new_size);
        Some (v\<lparr>v_size := new_size\<rparr>, h) }
      else Some (v, h))"

definition vec_reserve ::
  "('a heap \<Rightarrow> u64 \<Rightarrow> u64) \<Rightarrow> 'a \<Rightarrow> 'a heap \<Rightarrow> vec \<Rightarrow> u64 \<Rightarrow> (vec \<times> 'a heap) option" where
  "vec_reserve place dflt h v capacity =
     (if capacity = 0 then Some (v, h)
      else if v_capacity v = 0 then Some (v\<lparr>v_initial_capacity := capacity\<rparr>, h)
      else do { (_, v, h) \<leftarrow> grow place dflt h v capacity; Some (v, h) })"

subsection \<open>Elements\<close>

definition vec_at ::
  "('a heap \<Rightarrow> u64 \<Rightarrow> u64) \<Rightarrow> 'a \<Rightarrow> 'a heap \<Rightarrow> vec \<Rightarrow> u64 \<Rightarrow> ('a \<times> vec \<times> 'a heap) option" where
  "vec_at place dflt h v index =
     do { (v, h) \<leftarrow> (if v_capacity v = 0 then vec_resize place dflt h v (v_size v) else Some (v, h));
          x \<leftarrow> ap_index h (v_elems v) index;
          Some (x, v, h) }"

definition push_back ::
  "('a heap \<Rightarrow> u64 \<Rightarrow> u64) \<Rightarrow> 'a \<Rightarrow> 'a heap \<Rightarrow> vec \<Rightarrow> 'a \<Rightarrow> (vec \<times> 'a heap) option" where
  "push_back place dflt h v elem =
     (let old_size = v_size v in
      do { (v, h) \<leftarrow> vec_resize place dflt h v (v_size v + 1);
           if v_size v \<le> old_size then Some (v, h)
           else do { h \<leftarrow> ap_store h (v_elems v) old_size elem; Some (v, h) } })"

text \<open>\<open>emplace_back\<close> constructs the element in place, through the raw pointer.\<close>

definition emplace_back ::
  "('a heap \<Rightarrow> u64 \<Rightarrow> u64) \<Rightarrow> 'a \<Rightarrow> 'a heap \<Rightarrow> vec \<Rightarrow> 'a \<Rightarrow> (vec \<times> 'a heap) option" where
  "emplace_back place dflt h v elem =
     (let old_size = v_size v in
      do { (v, h) \<leftarrow> vec_resize place dflt h v (v_size v + 1);
           if v_size v \<le> old_size then Some (v, h)
           else do { h \<leftarrow> heap_write h (ap_ptr (v_elems v)) (unat old_size) elem; Some (v, h) } })"

definition pop_back ::
  "('a heap \<Rightarrow> u64 \<Rightarrow> u64) \<Rightarrow> 'a \<Rightarrow> 'a heap \<Rightarrow> vec \<Rightarrow> (vec \<times> 'a heap) option" where
  "pop_back place dflt h v =
     (if v_size v = 0 then Some (v, h) else vec_resize place dflt h v (v_size v - 1))"

end
