(* ===== verification/VectorProps.thy ===== *)
theory VectorProps
  imports Vector
begin

text \<open>
  A vector is a list: \<open>contents\<close> abstracts the live part of the buffer, \<open>vec_ok\<close> ties size,
  capacity and buffer together, and the operations are those of lists.  The interface is the
  locale \<open>list_buffer\<close>.
\<close>

locale list_buffer =
  fixes inv :: "'s \<Rightarrow> bool"
    and contents :: "'s \<Rightarrow> 'a list"
    and full :: "'s \<Rightarrow> bool"
    and push :: "'s \<Rightarrow> 'a \<Rightarrow> 's option"
    and pop :: "'s \<Rightarrow> 's option"
    and get :: "'s \<Rightarrow> nat \<Rightarrow> 'a option"
    and bound :: nat
  assumes push_law: "inv s \<Longrightarrow> length (contents s) < bound \<Longrightarrow>
      \<exists>s'. push s x = Some s' \<and> inv s' \<and> (if full s then contents s' = contents s else contents s' = contents s @ [x])"
    and pop_law: "inv s \<Longrightarrow> \<exists>s'. pop s = Some s' \<and> inv s' \<and> contents s' = butlast (contents s)"
    and get_law: "inv s \<Longrightarrow> i < length (contents s) \<Longrightarrow> get s i = Some (contents s ! i)"
begin

lemma push_pop:
  assumes "inv s" "length (contents s) < bound" "\<not> full s"
  shows "\<exists>s1 s2. push s x = Some s1 \<and> pop s1 = Some s2 \<and> inv s2 \<and> contents s2 = contents s"
proof -
  obtain s1 where 1: "push s x = Some s1" "inv s1" "contents s1 = contents s @ [x]"
    using push_law [OF assms(1,2), of x] assms(3) by auto
  then show ?thesis using pop_law [OF 1(2)] by auto
qed

lemma push_get:
  assumes "inv s" "length (contents s) < bound" "\<not> full s" "i \<le> length (contents s)"
  shows "\<exists>s1. push s x = Some s1 \<and> inv s1
    \<and> get s1 i = Some (if i = length (contents s) then x else contents s ! i)"
proof -
  obtain s1 where 1: "push s x = Some s1" "inv s1" "contents s1 = contents s @ [x]"
    using push_law [OF assms(1,2), of x] assms(3) by auto
  then show ?thesis using get_law [OF 1(2), of i] assms(4) by (simp add: nth_append)
qed

end

subsection \<open>The abstraction\<close>

definition vec_ok :: "vec \<Rightarrow> 'a heap \<Rightarrow> bool" where
  "vec_ok v h \<longleftrightarrow>
     (if v_capacity v = 0 then v_size v = 0 \<and> v_elems v = ap_default
      else ap_ptr (v_elems v) \<noteq> 0 \<and> ap_len (v_elems v) = v_capacity v \<and> v_size v \<le> v_capacity v
        \<and> (\<exists>xs. h (ap_ptr (v_elems v)) = Some xs \<and> length xs = unat (v_capacity v)))
     \<and> unat (v_capacity v) < 2 ^ 61 \<and> unat (v_initial_capacity v) < 2 ^ 61"

definition contents :: "vec \<Rightarrow> 'a heap \<Rightarrow> 'a list" where
  "contents v h =
     (if v_size v = 0 then [] else case h (ap_ptr (v_elems v)) of None \<Rightarrow> [] | Some xs \<Rightarrow> take (unat (v_size v)) xs)"

lemma contents_length:
  assumes "vec_ok v h"
  shows "length (contents v h) = unat (v_size v)"
  using assms by (auto simp: vec_ok_def contents_def word_le_nat_alt split: if_splits)

text \<open>The capacity that the next element makes \<open>grow\<close> ask for.\<close>

definition next_capacity :: "vec \<Rightarrow> u64" where
  "next_capacity v = (let c = computeGrowth v in if v_size v + 1 > c then v_size v + 1 else c)"

lemma computeGrowth_bounds:
  assumes "unat (v_capacity v) < 2 ^ 60" "unat (v_initial_capacity v) < 2 ^ 61"
  shows "v_capacity v < computeGrowth v" "unat (computeGrowth v) < 2 ^ 61"
    "unat (computeGrowth v) \<le> max (unat (v_initial_capacity v) + 1) (3 * unat (v_capacity v) div 2 + 1)"
proof -
  let ?c = "unat (v_capacity v)"
  have m: "unat (3 * v_capacity v) = 3 * ?c"
  proof -
    have "unat (3 :: u64) * ?c < 2 ^ 64" using assms(1) by simp
    then show ?thesis by (simp add: unat_word_ariths)
  qed
  have d: "unat (3 * v_capacity v div 2) = 3 * ?c div 2" by (simp add: unat_div m)
  have s: "unat (v_capacity v + 1) = ?c + 1" using assms(1) by (subst unat_add_small) simp_all
  consider "v_capacity v = 0" "v_initial_capacity v = 0" | "v_capacity v = 0" "v_initial_capacity v \<noteq> 0"
    | "v_capacity v \<noteq> 0" "3 * v_capacity v div 2 = v_capacity v" | "v_capacity v \<noteq> 0" "3 * v_capacity v div 2 \<noteq> v_capacity v"
    by blast
  then have "v_capacity v < computeGrowth v \<and> unat (computeGrowth v) < 2 ^ 61
    \<and> unat (computeGrowth v) \<le> max (unat (v_initial_capacity v) + 1) (3 * ?c div 2 + 1)"
  proof cases
    case 1
    then show ?thesis by (simp add: computeGrowth_def)
  next
    case 2
    then show ?thesis using assms(2) by (simp add: computeGrowth_def word_gt_0)
  next
    case 3
    then have "computeGrowth v = v_capacity v + 1" by (simp add: computeGrowth_def Let_def)
    moreover have "?c + 1 \<le> 3 * ?c div 2 + 1" by linarith
    ultimately show ?thesis using s assms(1) by (simp add: word_less_nat_alt)
  next
    case 4
    then have g: "computeGrowth v = 3 * v_capacity v div 2" by (simp add: computeGrowth_def Let_def)
    have "?c \<noteq> 3 * ?c div 2" using 4(2) d by (metis word_unat_eq_iff)
    moreover have "?c \<le> 3 * ?c div 2" by linarith
    moreover have "3 * ?c div 2 < 2 ^ 61" using assms(1) by simp
    ultimately show ?thesis unfolding g word_less_nat_alt d by simp
  qed
  then show "v_capacity v < computeGrowth v" "unat (computeGrowth v) < 2 ^ 61"
    "unat (computeGrowth v) \<le> max (unat (v_initial_capacity v) + 1) (3 * ?c div 2 + 1)" by simp_all
qed

lemma move_items_copies:
  assumes "h prevptr = Some xs" "prevptr \<noteq> 0" "h ptr = Some ys" "ptr \<noteq> 0" "ptr \<noteq> prevptr"
    and "i + n \<le> length xs" "i + n \<le> length ys"
  shows "move_items h ptr prevptr i n = Some (h(ptr := Some (take i ys @ take n (drop i xs) @ drop (i + n) ys)))"
  using assms
proof (induction n arbitrary: i h ys)
  case 0
  then show ?case by (simp add: fun_upd_idem)
next
  case (Suc n)
  let ?ys = "ys[i := xs ! i]"
  have r: "heap_read h prevptr i = Some (xs ! i)" "heap_write h ptr i (xs ! i) = Some (h(ptr := Some ?ys))"
    using Suc.prems by (simp_all add: heap_read_def heap_write_def)
  have "move_items (h(ptr := Some ?ys)) ptr prevptr (Suc i) n
      = Some ((h(ptr := Some ?ys))(ptr := Some (take (Suc i) ?ys @ take n (drop (Suc i) xs) @ drop (Suc i + n) ?ys)))"
    by (rule Suc.IH) (use Suc.prems in simp_all)
  moreover have "take (Suc i) ?ys = take i ys @ [xs ! i]" using Suc.prems by (simp add: take_Suc_conv_app_nth)
  moreover have "take (Suc n) (drop i xs) = xs ! i # take n (drop (Suc i) xs)"
    using Suc.prems(6) by (metis Cons_nth_drop_Suc add_Suc_right le_add1 less_le_trans less_Suc_eq_le take_Suc_Cons)
  ultimately show ?case using r by simp (simp add: fun_upd_def)
qed

lemma init_items_fills:
  assumes "h ptr = Some ys" "ptr \<noteq> 0" "i + n \<le> length ys"
  shows "init_items dflt h ptr i n = Some (h(ptr := Some (take i ys @ replicate n dflt @ drop (i + n) ys)))"
  using assms
proof (induction n arbitrary: i h ys)
  case 0
  then show ?case by (simp add: fun_upd_idem)
next
  case (Suc n)
  let ?ys = "ys[i := dflt]"
  have w: "heap_write h ptr i dflt = Some (h(ptr := Some ?ys))" using Suc.prems by (simp add: heap_write_def)
  have "init_items dflt (h(ptr := Some ?ys)) ptr (Suc i) n
      = Some ((h(ptr := Some ?ys))(ptr := Some (take (Suc i) ?ys @ replicate n dflt @ drop (Suc i + n) ?ys)))"
    by (rule Suc.IH) (use Suc.prems in simp_all)
  moreover have "take (Suc i) ?ys = take i ys @ [dflt]" using Suc.prems by (simp add: take_Suc_conv_app_nth)
  ultimately show ?case using w by simp (simp add: fun_upd_def)
qed

lemma vec_ok_buffer:
  assumes "vec_ok v h" "v_capacity v \<noteq> 0"
  obtains xs where "h (ap_ptr (v_elems v)) = Some xs" "length xs = unat (v_capacity v)" "ap_ptr (v_elems v) \<noteq> 0"
    "ap_len (v_elems v) = v_capacity v" "unat (v_size v) \<le> length xs" "contents v h = take (unat (v_size v)) xs"
proof -
  from assms obtain xs where "h (ap_ptr (v_elems v)) = Some xs" "length xs = unat (v_capacity v)" "ap_ptr (v_elems v) \<noteq> 0"
    "ap_len (v_elems v) = v_capacity v" "v_size v \<le> v_capacity v"
    by (auto simp: vec_ok_def)
  then show thesis by (intro that [of xs]) (simp_all add: contents_def word_le_nat_alt)
qed

text \<open>A bigger buffer: its first elements are the contents, the others \<open>T{}\<close>.\<close>

lemma grow_buffer:
  assumes ok: "vec_ok v h" and laws: "place_laws place" and cap: "v_capacity v < c" "unat c < 2 ^ 61"
    and p: "p = place h c" "p \<noteq> 0"
    and h': "h' = h(p := Some (replicate (unat c) dflt))"
  shows "\<exists>h''. do { h \<leftarrow> move_items h' p (ap_ptr (v_elems v)) 0 (unat (v_size v));
      init_items dflt h p (unat (v_size v)) (unat c - unat (v_size v)) } = Some h''
    \<and> h'' p = Some (contents v h @ replicate (unat c - unat (v_size v)) dflt)"
proof -
  let ?n = "unat (v_size v)" let ?c = "unat c"
  let ?zs = "contents v h @ replicate (?c - ?n) dflt"
  have len: "length (contents v h) = ?n" by (rule contents_length [OF ok])
  have nc: "?n \<le> ?c" using ok cap(1) by (auto simp: vec_ok_def word_le_nat_alt word_less_nat_alt split: if_splits)
  have fresh: "h p = None" using laws p by (simp add: place_laws_def)
  have mv: "move_items h' p (ap_ptr (v_elems v)) 0 ?n = Some (h'(p := Some ?zs))"
  proof (cases "v_capacity v = 0")
    case True
    then have "?n = 0" using ok by (simp add: vec_ok_def)
    then show ?thesis using h' len by simp
  next
    case False
    obtain xs where xs: "h (ap_ptr (v_elems v)) = Some xs" "ap_ptr (v_elems v) \<noteq> 0" "?n \<le> length xs"
      "contents v h = take ?n xs"
      using vec_ok_buffer [OF ok False] by metis
    have ne: "p \<noteq> ap_ptr (v_elems v)" using fresh xs(1) by auto
    show ?thesis
      using move_items_copies [of h' "ap_ptr (v_elems v)" xs p "replicate ?c dflt" 0 ?n] xs ne p(2) nc
      by (simp add: h' fun_upd_def)
  qed
  have "init_items dflt (h'(p := Some ?zs)) p ?n (?c - ?n)
      = Some ((h'(p := Some ?zs))(p := Some (take ?n ?zs @ replicate (?c - ?n) dflt @ drop (?n + (?c - ?n)) ?zs)))"
    by (rule init_items_fills) (use p(2) len in simp_all)
  then show ?thesis using mv len nc by simp
qed

lemma vec_ok_base:
  assumes "vec_ok v h" "place_laws place"
  shows "vec_ok v (after_base place dflt h)" "contents v (after_base place dflt h) = contents v h"
  using assms after_base_live [OF assms(2)]
  by (auto simp: vec_ok_def contents_def split: if_splits)

lemma push_back_spec:
  assumes ok: "vec_ok v h" and laws: "place_laws place" and small: "unat (v_size v) < 2 ^ 59" "unat (v_capacity v) < 2 ^ 60"
  shows "\<exists>v' h'. push_back place dflt h v x = Some (v', h') \<and> vec_ok v' h'
    \<and> contents v' h' = (if v_size v = v_capacity v \<and> place (after_base place dflt h) (next_capacity v) = 0
        then contents v h else contents v h @ [x])
    \<and> (v_size v < v_capacity v \<longrightarrow> v_capacity v' = v_capacity v)
    \<and> (v_size v = v_capacity v \<longrightarrow>
        v_capacity v' = (if place (after_base place dflt h) (next_capacity v) = 0 then v_capacity v else next_capacity v))"
proof -
  let ?n = "unat (v_size v)"
  have n1: "unat (v_size v + 1) = ?n + 1" using small(1) by (subst unat_add_small) simp_all
  have gt: "v_size v < v_size v + 1" by (simp only: word_less_nat_alt n1)
  have ngt: "\<not> v_size v + 1 \<le> v_size v" using gt by (simp only: not_le)
  have len: "length (contents v h) = ?n" by (rule contents_length [OF ok])
  have sc: "v_size v \<le> v_capacity v" using ok by (auto simp: vec_ok_def split: if_splits)
  show ?thesis
  proof (cases "v_size v = v_capacity v")
    case False
    then have lt: "v_size v < v_capacity v" using sc by simp
    then have c0: "v_capacity v \<noteq> 0" by auto
    obtain xs where xs: "h (ap_ptr (v_elems v)) = Some xs" "length xs = unat (v_capacity v)" "ap_ptr (v_elems v) \<noteq> 0"
      "ap_len (v_elems v) = v_capacity v" "contents v h = take ?n xs"
      using vec_ok_buffer [OF ok c0] by metis
    have le: "\<not> v_capacity v < v_size v + 1" using lt n1 by (simp add: word_less_nat_alt)
    have lx: "?n < length xs" using lt xs(2) by (simp add: word_less_nat_alt)
    let ?v = "v\<lparr>v_size := v_size v + 1\<rparr>" let ?h = "h(ap_ptr (v_elems v) := Some (xs[?n := x]))"
    have "vec_resize place dflt h v (v_size v + 1) = Some (?v, h)"
      using gt le by (simp add: vec_resize_def grow_def Let_def)
    moreover have "ap_store h (v_elems v) (v_size v) x = Some ?h"
      by (rule ap_store_live) (use xs lx in simp_all)
    ultimately have "push_back place dflt h v x = Some (?v, ?h)"
      using ngt by (simp add: push_back_def Let_def)
    moreover have "vec_ok ?v ?h"
      using ok c0 xs le by (auto simp: vec_ok_def not_less)
    moreover have "v_size v + 1 \<noteq> 0" using n1 by (metis Suc_eq_plus1 nat.distinct(1) unat_0)
    then have "contents ?v ?h = contents v h @ [x]"
      using xs(5) n1 lx by (simp add: contents_def take_Suc_conv_app_nth)
    ultimately show ?thesis using False by (intro exI [of _ ?v] exI [of _ ?h]) simp
  next
    case True
    let ?c = "next_capacity v"
    have gb: "v_capacity v < computeGrowth v" "unat (computeGrowth v) < 2 ^ 61"
      using computeGrowth_bounds [OF small(2)] ok by (simp_all add: vec_ok_def)
    have cb: "v_capacity v < ?c" "unat ?c < 2 ^ 61" "v_size v + 1 \<le> ?c"
    proof -
      have "unat (v_size v + 1) < 2 ^ 61" using n1 small(1) by simp
      then show "v_capacity v < ?c" "unat ?c < 2 ^ 61" "v_size v + 1 \<le> ?c"
        using gb gt True by (auto simp: next_capacity_def Let_def not_less)
    qed
    have c0: "?c \<noteq> 0" using cb(1) by auto
    have req: "v_size v + 1 > v_capacity v" using gt True by simp
    let ?h0 = "after_base place dflt h"
    note base = vec_ok_base [OF ok laws, of dflt]
    show ?thesis
    proof (cases "place ?h0 ?c = 0")
      case full: True
      have "grow place dflt h v (v_size v + 1) = Some (False, v, ?h0)"
        using req c0 full not_le [THEN iffD2, OF cb(1)]
        by (simp add: grow_def Let_def next_capacity_def [unfolded Let_def, symmetric] ap_construct_len_def up_default_base
            new_array_def)
      then have "push_back place dflt h v x = Some (v, ?h0)" using gt by (simp add: push_back_def vec_resize_def Let_def)
      then show ?thesis using base full True by simp
    next
      case room: False
      let ?p = "place ?h0 ?c"
      let ?h1 = "?h0(?p := Some (replicate (unat ?c) dflt))"
      obtain h2 where h2: "do { h \<leftarrow> move_items ?h1 ?p (ap_ptr (v_elems v)) 0 ?n;
          init_items dflt h ?p ?n (unat ?c - ?n) } = Some h2"
        "h2 ?p = Some (contents v h @ replicate (unat ?c - ?n) dflt)"
        using grow_buffer [OF base(1) laws cb(1,2) refl room refl, of dflt] unfolding base(2) by blast
      let ?v = "v\<lparr>v_capacity := ?c, v_elems := \<lparr>ap_ptr = ?p, ap_len = ?c\<rparr>, v_size := v_size v + 1\<rparr>"
      have g: "grow place dflt h v (v_size v + 1) = Some (True, ?v, h2)"
        using req cb(1) c0 room h2(1)
        by (simp add: grow_def Let_def next_capacity_def [unfolded Let_def, symmetric] ap_construct_len_def up_default_base
            new_array_def not_le up_destruct_def heap_delete_def bind_assoc) (simp add: bind_Some_iff)
      have nc: "?n < unat ?c" using cb(3) n1 by (simp add: word_le_nat_alt)
      let ?zs = "contents v h @ replicate (unat ?c - ?n) dflt"
      let ?h = "h2(?p := Some (?zs[?n := x]))"
      have lz: "length ?zs = unat ?c" using len nc by simp
      have "ap_store h2 (v_elems ?v) (v_size v) x = Some ?h"
        using ap_store_live [of h2 "v_elems ?v" ?zs "v_size v" x] h2(2) room lz nc by simp
      then have "push_back place dflt h v x = Some (?v, ?h)"
        using g gt ngt by (simp add: push_back_def vec_resize_def Let_def)
      moreover have "vec_ok ?v ?h" using c0 room cb ok lz by (simp add: vec_ok_def)
      moreover have "v_size v + 1 \<noteq> 0" using n1 by (metis Suc_eq_plus1 nat.distinct(1) unat_0)
      then have "contents ?v ?h = contents v h @ [x]"
        using n1 len nc by (cases "unat ?c - ?n") (simp_all add: contents_def list_update_append)
      ultimately show ?thesis using True room by (intro exI [of _ ?v] exI [of _ ?h]) simp
    qed
  qed
qed

lemma pop_back_spec:
  assumes ok: "vec_ok v h"
  shows "\<exists>v'. pop_back place dflt h v = Some (v', h) \<and> vec_ok v' h \<and> contents v' h = butlast (contents v h)
    \<and> v_capacity v' = v_capacity v \<and> v_initial_capacity v' = v_initial_capacity v"
proof (cases "v_size v = 0")
  case True
  then show ?thesis using ok by (simp add: pop_back_def contents_def)
next
  case False
  let ?n = "unat (v_size v)"
  have n1: "unat (v_size v - 1) = ?n - 1" using False by (metis unat_minus_one)
  have pos: "0 < ?n" using False by (simp add: unat_gt_0)
  then have lt: "v_size v - 1 < v_size v" by (simp only: word_less_nat_alt n1)
  have c0: "v_capacity v \<noteq> 0" using ok False by (auto simp: vec_ok_def)
  obtain xs where xs: "h (ap_ptr (v_elems v)) = Some xs" "length xs = unat (v_capacity v)" "ap_ptr (v_elems v) \<noteq> 0"
    "ap_len (v_elems v) = v_capacity v" "?n \<le> length xs" "contents v h = take ?n xs"
    using vec_ok_buffer [OF ok c0] by metis
  have k: "?n - (?n - 1) = Suc 0" using pos by simp
  have "ap_index h (v_elems v) (v_size v - 1) \<noteq> None"
    using ap_index_live [of h "v_elems v" xs "v_size v - 1"] xs(1-5) n1 pos by simp
  then have "retire_items h (v_elems v) (v_size v - 1) (?n - unat (v_size v - 1)) = Some ()"
    unfolding n1 k by (auto simp: bind_eq_Some_conv)
  then have "pop_back place dflt h v = Some (v\<lparr>v_size := v_size v - 1\<rparr>, h)"
    using False lt less_not_sym [OF lt] by (simp add: pop_back_def vec_resize_def)
  moreover have "vec_ok (v\<lparr>v_size := v_size v - 1\<rparr>) h"
    using ok c0 lt by (auto simp: vec_ok_def)
  moreover have "contents (v\<lparr>v_size := v_size v - 1\<rparr>) h = butlast (contents v h)"
  proof (cases "v_size v - 1 = 0")
    case True
    then have "?n = 1" using n1 pos by simp
    then show ?thesis using True xs(6) by (simp add: contents_def take_Suc) (cases xs; simp)
  next
    case f: False
    then show ?thesis using xs(1,5,6) n1 by (simp add: contents_def butlast_take)
  qed
  ultimately show ?thesis by simp
qed

lemma vec_at_spec:
  assumes ok: "vec_ok v h" and i: "i < v_size v"
  shows "vec_at place dflt h v i = Some (contents v h ! unat i, v, h)"
proof -
  have c0: "v_capacity v \<noteq> 0" using ok i by (auto simp: vec_ok_def split: if_splits)
  obtain xs where xs: "h (ap_ptr (v_elems v)) = Some xs" "length xs = unat (v_capacity v)" "ap_ptr (v_elems v) \<noteq> 0"
    "ap_len (v_elems v) = v_capacity v" "unat (v_size v) \<le> length xs" "contents v h = take (unat (v_size v)) xs"
    using vec_ok_buffer [OF ok c0] by metis
  have "unat i < unat (v_size v)" using i by (simp add: word_less_nat_alt)
  then show ?thesis
    using ap_index_live [of h "v_elems v" xs i] xs c0 by (simp add: vec_at_def)
qed

subsection \<open>The interface\<close>

definition vec_inv :: "('a heap \<Rightarrow> u64 \<Rightarrow> u64) \<Rightarrow> vec \<times> 'a heap \<Rightarrow> bool" where
  "vec_inv place s \<longleftrightarrow> place_laws place \<and> vec_ok (fst s) (snd s)
     \<and> unat (v_capacity (fst s)) < 2 ^ 42 \<and> unat (v_initial_capacity (fst s)) < 2 ^ 41"

text \<open>The next element needs a bigger buffer and there is no memory for it, once the constructor of the
  buffer's pointer has allocated its \<open>T{}\<close>.\<close>

definition vec_full :: "('a heap \<Rightarrow> u64 \<Rightarrow> u64) \<Rightarrow> 'a \<Rightarrow> vec \<times> 'a heap \<Rightarrow> bool" where
  "vec_full place dflt s \<longleftrightarrow>
     v_size (fst s) = v_capacity (fst s) \<and> place (after_base place dflt (snd s)) (next_capacity (fst s)) = 0"

definition vec_push :: "('a heap \<Rightarrow> u64 \<Rightarrow> u64) \<Rightarrow> 'a \<Rightarrow> vec \<times> 'a heap \<Rightarrow> 'a \<Rightarrow> (vec \<times> 'a heap) option" where
  "vec_push place dflt s x = push_back place dflt (snd s) (fst s) x"

definition vec_pop :: "('a heap \<Rightarrow> u64 \<Rightarrow> u64) \<Rightarrow> 'a \<Rightarrow> vec \<times> 'a heap \<Rightarrow> (vec \<times> 'a heap) option" where
  "vec_pop place dflt s = pop_back place dflt (snd s) (fst s)"

definition vec_get :: "('a heap \<Rightarrow> u64 \<Rightarrow> u64) \<Rightarrow> 'a \<Rightarrow> vec \<times> 'a heap \<Rightarrow> nat \<Rightarrow> 'a option" where
  "vec_get place dflt s i = map_option fst (vec_at place dflt (snd s) (fst s) (of_nat i))"

lemma push_back_initial:
  "push_back place dflt h v x = Some (v', h') \<Longrightarrow> v_initial_capacity v' = v_initial_capacity v"
  by (auto simp: push_back_def vec_resize_def grow_def Let_def bind_Some_iff split: if_splits prod.splits)

interpretation vl: list_buffer "vec_inv place" "\<lambda>s. contents (fst s) (snd s)" "vec_full place dflt"
  "vec_push place dflt" "vec_pop place dflt" "vec_get place dflt" "2 ^ 31"
  for place :: "'a heap \<Rightarrow> u64 \<Rightarrow> u64" and dflt :: 'a
proof
  fix s :: "vec \<times> 'a heap" and x :: 'a
  assume inv: "vec_inv place s" and l: "length (contents (fst s) (snd s)) < 2 ^ 31"
  let ?v = "fst s" let ?h = "snd s"
  have ok: "vec_ok ?v ?h" and laws: "place_laws place" and c: "unat (v_capacity ?v) < 2 ^ 42" "unat (v_initial_capacity ?v) < 2 ^ 41"
    using inv by (simp_all add: vec_inv_def)
  have n: "unat (v_size ?v) < 2 ^ 40" using l contents_length [OF ok] by simp
  obtain v' h' where r: "push_back place dflt ?h ?v x = Some (v', h')" "vec_ok v' h'"
    "contents v' h' = (if vec_full place dflt s then contents ?v ?h else contents ?v ?h @ [x])"
    "v_size ?v < v_capacity ?v \<longrightarrow> v_capacity v' = v_capacity ?v"
    "v_size ?v = v_capacity ?v \<longrightarrow> v_capacity v' = (if place (after_base place dflt ?h) (next_capacity ?v) = 0 then v_capacity ?v else next_capacity ?v)"
    using push_back_spec [OF ok laws, of dflt x] n c unfolding vec_full_def by auto
  have "unat (v_capacity v') < 2 ^ 42"
  proof (cases "v_size ?v < v_capacity ?v")
    case True
    then show ?thesis using r(4) c by simp
  next
    case False
    then have e: "v_size ?v = v_capacity ?v" using ok by (auto simp: vec_ok_def split: if_splits)
    have "unat (computeGrowth ?v) < 2 ^ 42"
      using computeGrowth_bounds(3) [of ?v] n c e by simp
    moreover have "unat (v_size ?v + 1) < 2 ^ 42" using n by (subst unat_add_small) simp_all
    ultimately show ?thesis using r(5) e c by (simp add: next_capacity_def Let_def)
  qed
  then have "vec_inv place (v', h')" using r(1,2) laws c push_back_initial [OF r(1)] by (simp add: vec_inv_def)
  then show "\<exists>s'. vec_push place dflt s x = Some s' \<and> vec_inv place s' \<and>
      (if vec_full place dflt s then contents (fst s') (snd s') = contents ?v ?h
       else contents (fst s') (snd s') = contents ?v ?h @ [x])"
    using r(1,3) by (intro exI [of _ "(v', h')"]) (simp add: vec_push_def)
next
  fix s :: "vec \<times> 'a heap"
  assume "vec_inv place s"
  then show "\<exists>s'. vec_pop place dflt s = Some s' \<and> vec_inv place s'
      \<and> contents (fst s') (snd s') = butlast (contents (fst s) (snd s))"
    using pop_back_spec [of "fst s" "snd s" place dflt] by (auto simp: vec_pop_def vec_inv_def)
next
  fix s :: "vec \<times> 'a heap" and i
  assume inv: "vec_inv place s" and i: "i < length (contents (fst s) (snd s))"
  have ok: "vec_ok (fst s) (snd s)" using inv by (simp add: vec_inv_def)
  have n: "i < unat (v_size (fst s))" using i contents_length [OF ok] by simp
  then have "unat (of_nat i :: u64) = i"
    using unsigned_less [where 'a = nat, of "v_size (fst s)"] by (intro unat_of_nat_small) simp
  then show "vec_get place dflt s i = Some (contents (fst s) (snd s) ! i)"
    using vec_at_spec [OF ok, of "of_nat i"] n by (simp add: vec_get_def word_less_nat_alt)
qed

subsection \<open>Properties\<close>

text \<open>Places the array at one more than its length; it serves concrete heaps below.\<close>

definition place_after :: "'a heap \<Rightarrow> u64 \<Rightarrow> u64" where
  "place_after h n = (if h (n + 1) = None then n + 1 else 0)"

lemma place_after_laws: "place_laws place_after"
  by (simp add: place_laws_def place_after_def)

text \<open>C26: a vector refines a list: in a well-formed vector below \<open>2 ^ 31\<close> elements whose growth finds
  memory after the \<open>T{}\<close> that its pointer's base constructor allocates and loses, \<open>push_back\<close> succeeds, keeps
  the vector well formed and appends to the list, reading an index gives the element of the list, and
  \<open>pop_back\<close> takes the element off again.\<close>

theorem vector_refines_list:
  assumes "vec_inv place (v, h)" "unat (v_size v) < 2 ^ 31" "\<not> vec_full place dflt (v, h)" "i \<le> v_size v"
  shows "\<exists>v1 h1. push_back place dflt h v x = Some (v1, h1) \<and> vec_inv place (v1, h1)
    \<and> contents v1 h1 = contents v h @ [x]
    \<and> map_option fst (vec_at place dflt h1 v1 i) = Some (if i = v_size v then x else contents v h ! unat i)
    \<and> (\<exists>v2 h2. pop_back place dflt h1 v1 = Some (v2, h2) \<and> vec_inv place (v2, h2)
         \<and> contents v2 h2 = contents v h)"
proof -
  have ok: "vec_ok v h" using assms(1) by (simp add: vec_inv_def)
  have len: "length (contents v h) = unat (v_size v)" by (rule contents_length [OF ok])
  obtain v1 h1 where p: "vec_push place dflt (v, h) x = Some (v1, h1)" "vec_inv place (v1, h1)"
    "contents v1 h1 = contents v h @ [x]"
    using vl.push_law [OF assms(1), of dflt x] assms(2,3) len by auto
  have "vec_get place dflt (v1, h1) (unat i) = Some ((contents v h @ [x]) ! unat i)"
    using vl.get_law [OF p(2), of "unat i" dflt] p(3) len assms(4) by (simp add: word_le_nat_alt)
  moreover have "(contents v h @ [x]) ! unat i = (if i = v_size v then x else contents v h ! unat i)"
    using len assms(4) by (auto simp: nth_append word_le_nat_alt word_unat_eq_iff)
  ultimately show ?thesis
    using p vl.pop_law [OF p(2), of dflt] by (auto simp: vec_push_def vec_pop_def vec_get_def)
qed

lemma vector_refines_list_witness:
  "\<exists>v1 h1. push_back place_after 0 (Map.empty :: nat heap) vector_default 7 = Some (v1, h1)
    \<and> vec_inv place_after (v1, h1) \<and> contents v1 h1 = [7]"
proof -
  have "vec_inv place_after (vector_default, Map.empty :: nat heap)"
    by (simp add: vec_inv_def place_after_laws vec_ok_def vector_default_def default_initial_capacity_def)
  moreover have "\<not> vec_full place_after 0 (vector_default, Map.empty :: nat heap)"
    by (simp add: vec_full_def after_base_def up_default_def new_array_def place_after_def next_capacity_def computeGrowth_def vector_default_def
        default_initial_capacity_def)
  moreover have "contents vector_default (Map.empty :: nat heap) = []" "unat (v_size vector_default) < 2 ^ 31"
    "0 \<le> v_size vector_default"
    by (simp_all add: contents_def vector_default_def)
  ultimately show ?thesis
    using vector_refines_list [of place_after vector_default "Map.empty :: nat heap" 0 0 7] by auto
qed

text \<open>\<open>reserve\<close> on a vector that has its buffer changes its size: it goes through \<open>grow\<close>, which
  sets \<open>size_\<close> to the request, so reserving room for \<open>n\<close> elements makes \<open>n\<close> elements, and a
  request below the size drops the elements past it without running their destructors.\<close>

theorem reserve_changes_size:
  assumes "vec_ok v h" "v_capacity v \<noteq> 0" "n \<noteq> 0" "n \<le> v_capacity v"
  shows "\<exists>v'. vec_reserve place dflt h v n = Some (v', h) \<and> v_size v' = n \<and> vec_ok v' h
    \<and> take (unat (v_size v)) (contents v' h) = take (unat n) (contents v h)"
proof -
  have "(v_capacity v < n) = False" using assms(4) by auto
  then have "vec_reserve place dflt h v n = Some (v\<lparr>v_size := n\<rparr>, h)"
    using assms(2-3) by (simp add: vec_reserve_def grow_def)
  moreover have "vec_ok (v\<lparr>v_size := n\<rparr>) h" using assms by (auto simp: vec_ok_def)
  moreover have "take (unat (v_size v)) (contents (v\<lparr>v_size := n\<rparr>) h) = take (unat n) (contents v h)"
    using assms(1-3) vec_ok_buffer [OF assms(1,2)]
    by (auto simp: contents_def take_take min.commute split: option.splits)
  ultimately show ?thesis by simp
qed

lemma reserve_changes_size_witness:
  "\<exists>v'. vec_reserve place_after 0 [9 \<mapsto> [1, 2, 3 :: nat]]
      \<lparr>v_size = 3, v_initial_capacity = 3, v_capacity = 3, v_elems = \<lparr>ap_ptr = 9, ap_len = 3\<rparr>\<rparr> 1
    = Some (v', [9 \<mapsto> [1, 2, 3]]) \<and> v_size v' = 1"
  using reserve_changes_size [of "\<lparr>v_size = 3, v_initial_capacity = 3, v_capacity = 3,
      v_elems = \<lparr>ap_ptr = 9, ap_len = 3\<rparr>\<rparr>" "[9 \<mapsto> [1, 2, 3 :: nat]]" 1 place_after 0]
  by (auto simp: vec_ok_def)

end
