(* ===== verification/CString.thy ===== *)
theory CString
  imports Minc
begin

text \<open>
  The C string functions of the core library (include/core/stdlib/cstring.h) on flat memory, and
  \<open>string_view\<close> (include/core/stdlib/string_view.h).  \<open>rtk::strlen\<close> counts in an \<open>int\<close>: a string of
  \<open>2 ^ 31\<close> characters is undefined behaviour and so \<open>None\<close>, as is a loop that does not end.
\<close>

partial_function (option) rtk_strlen_loop :: "mem \<Rightarrow> u64 \<Rightarrow> int \<Rightarrow> int option" where
  "rtk_strlen_loop m str len =
     (if m str = 0 then Some len
      else if len = 0x7FFFFFFF then None
      else rtk_strlen_loop m (str + 1) (len + 1))"

definition rtk_strlen :: "mem \<Rightarrow> u64 \<Rightarrow> u64 option" where
  "rtk_strlen m str = (if str = 0 then Some 0 else map_option of_int (rtk_strlen_loop m str 0))"

partial_function (option) rtk_strcpy_loop :: "mem \<Rightarrow> u64 \<Rightarrow> u64 \<Rightarrow> (mem \<times> u64) option" where
  "rtk_strcpy_loop m dest src =
     (if m src = 0 then Some (m, dest) else rtk_strcpy_loop (m(dest := m src)) (dest + 1) (src + 1))"

definition rtk_strcpy :: "mem \<Rightarrow> u64 \<Rightarrow> u64 \<Rightarrow> (mem \<times> u64) option" where
  "rtk_strcpy m dest src =
     (if dest \<noteq> 0 \<and> dest \<noteq> src \<and> src \<noteq> 0 then
        do { (m, p) \<leftarrow> rtk_strcpy_loop m dest src; Some (m(p := 0), dest) }
      else Some (m, dest))"

text \<open>The two loops of \<open>strncpy\<close>; the counter of the first one has been incremented once more when
  it stops because of \<open>n\<close>.\<close>

function strncpy_copy :: "mem \<Rightarrow> u64 \<Rightarrow> u64 \<Rightarrow> u64 \<Rightarrow> u64 \<Rightarrow> mem \<times> u64 \<times> u64" where
  "strncpy_copy m dest src n i =
     (if m src = 0 then (m, dest, i)
      else if \<not> i < n then (m, dest, i + 1)
      else strncpy_copy (m(dest := m src)) (dest + 1) (src + 1) n (i + 1))"
  by pat_completeness auto

lemma unat_step_less: "(i :: u64) < n \<Longrightarrow> unat n - unat (i + 1) < unat n - unat i"
proof -
  assume "i < n"
  then have lt: "unat i < unat n" by (simp add: word_less_nat_alt)
  have "unat n < 2 ^ 64" using unsigned_less [where 'a = nat, of n] by simp
  then have "unat (i + 1) = unat i + 1" using lt by (intro unat_Suc) linarith
  then show ?thesis using lt by linarith
qed

termination strncpy_copy
  by (relation "measure (\<lambda>(m, dest, src, n, i). unat n - unat i)") (simp_all add: unat_step_less)

function strncpy_fill :: "mem \<Rightarrow> u64 \<Rightarrow> u64 \<Rightarrow> u64 \<Rightarrow> mem" where
  "strncpy_fill m dest n i =
     (if i < n then strncpy_fill (m(dest := 0)) (dest + 1) n (i + 1) else m)"
  by pat_completeness auto

termination
  by (relation "measure (\<lambda>(m, dest, n, i). unat n - unat i)") (simp_all add: unat_step_less)

declare strncpy_copy.simps [simp del] strncpy_fill.simps [simp del]

definition rtk_strncpy :: "mem \<Rightarrow> u64 \<Rightarrow> u64 \<Rightarrow> u64 \<Rightarrow> mem" where
  "rtk_strncpy m dest src n =
     (if dest \<noteq> 0 \<and> dest \<noteq> src \<and> src \<noteq> 0 then
        (let (m, p, i) = strncpy_copy m dest src n 0 in strncpy_fill m p n i)
      else m)"

subsection \<open>string_view\<close>

record string_view =
  sv_ptr :: u64
  sv_len :: u64

definition view_empty :: string_view where
  "view_empty = \<lparr>sv_ptr = 0, sv_len = 0\<rparr>"

definition view_of :: "mem \<Rightarrow> u64 \<Rightarrow> string_view option" where
  "view_of m str = do { len \<leftarrow> rtk_strlen m str; Some \<lparr>sv_ptr = str, sv_len = len\<rparr> }"

subsection \<open>What they compute\<close>

lemma rtk_strlen_loop_cstring:
  "cstring_at m p s \<Longrightarrow> 0 \<le> n \<Longrightarrow> n + int (length s) \<le> 0x7FFFFFFF
    \<Longrightarrow> rtk_strlen_loop m p n = Some (n + int (length s))"
proof (induction s arbitrary: p n)
  case Nil
  then show ?case by (simp add: rtk_strlen_loop.simps)
next
  case (Cons c s)
  then have "rtk_strlen_loop m (p + 1) (n + 1) = Some (n + 1 + int (length s))" by simp
  then show ?case using Cons.prems rtk_strlen_loop.simps [of m p n] by simp
qed

lemma rtk_strlen_cstring:
  assumes "cstring_at m p s" "p \<noteq> 0" "length s < 2 ^ 31"
  shows "rtk_strlen m p = Some (of_nat (length s))"
  using rtk_strlen_loop_cstring [OF assms(1), of 0] assms(2,3) by (simp add: rtk_strlen_def)

definition apart :: "u64 \<Rightarrow> nat \<Rightarrow> u64 \<Rightarrow> nat \<Rightarrow> bool" where
  "apart p n q k \<longleftrightarrow> (\<forall>x. \<not> (in_block p n x \<and> in_block q k x))"

lemma apart_sym: "apart p n q k \<longleftrightarrow> apart q k p n"
  by (auto simp: apart_def)

lemma apart_mono: "apart p n q k \<Longrightarrow> n' \<le> n \<Longrightarrow> k' \<le> k \<Longrightarrow> apart p n' q k'"
  by (meson apart_def in_block_def less_le_trans)

lemma in_block_of_nat: "i < n \<Longrightarrow> n \<le> 2 ^ 64 \<Longrightarrow> in_block p n (p + of_nat i)"
  by (auto simp: in_block_iff)

lemma in_block_sub:
  assumes "in_block (p + of_nat i) n x" "i + n \<le> k" "k \<le> 2 ^ 64"
  shows "in_block p k x"
proof -
  obtain j where "j < n" "x = p + of_nat i + of_nat j" using assms by (auto simp: in_block_iff)
  then have "i + j < k" "x = p + of_nat (i + j)" using assms(2) by (simp_all add: add.assoc)
  then show ?thesis using assms(3) by (simp only: in_block_of_nat)
qed

lemma block_cong: "(\<And>i. i < n \<Longrightarrow> m (p + of_nat i) = m' (p + of_nat i)) \<Longrightarrow> block m p n = block m' p n"
  by (simp add: block_def)

lemma block_frame:
  "(\<And>x. in_block p n x \<Longrightarrow> m x = m' x) \<Longrightarrow> n \<le> 2 ^ 64 \<Longrightarrow> block m p n = block m' p n"
  by (intro block_cong) (simp add: in_block_of_nat)

lemma cstring_frame:
  assumes "cstring_at m p s" "\<And>x. in_block p (length s + 1) x \<Longrightarrow> m x = m' x" "length s < 2 ^ 64"
  shows "cstring_at m' p s"
proof -
  have "block m' p (length s) = block m p (length s)"
    using assms(2,3) by (intro block_cong) (simp add: in_block_of_nat)
  moreover have "m' (p + of_nat (length s)) = m (p + of_nat (length s))"
    using assms(2,3) by (simp add: in_block_of_nat)
  ultimately show ?thesis using assms(1) by (simp add: cstring_at_def)
qed

lemma strncpy_fill_at:
  "strncpy_fill m d n i x = (if in_block d (unat n - unat i) x then 0 else m x)"
proof (induction m d n i rule: strncpy_fill.induct)
  case (1 m d n i)
  show ?case
  proof (cases "i < n")
    case False
    then show ?thesis by (simp add: strncpy_fill.simps [of m d n i] word_less_nat_alt in_block_def)
  next
    case True
    then have lt: "unat i < unat n" by (simp add: word_less_nat_alt)
    have n: "unat n < 2 ^ 64" using unsigned_less [where 'a = nat, of n] by simp
    have i: "unat (i + 1) = unat i + 1" using lt n by (intro unat_Suc) linarith
    have k: "unat n - unat i = Suc (unat n - unat (i + 1))" using lt i by linarith
    have "in_block d (unat n - unat i) x \<longleftrightarrow> x = d \<or> in_block (d + 1) (unat n - unat (i + 1)) x"
      unfolding k using n by (intro in_block_Suc) linarith
    moreover have "strncpy_fill m d n i x = strncpy_fill (m(d := 0)) (d + 1) n (i + 1) x"
      using True by (simp only: strncpy_fill.simps [of m d n i] if_True)
    ultimately show ?thesis using 1 [OF True] by simp
  qed
qed

text \<open>The bytes from \<open>s\<close> up to offset \<open>k\<close> have a NUL.\<close>

definition ended :: "mem \<Rightarrow> u64 \<Rightarrow> nat \<Rightarrow> bool" where
  "ended m s k \<longleftrightarrow> (\<exists>j\<le>k. m (s + of_nat j) = 0)"

lemma ended_0: "m s = 0 \<Longrightarrow> ended m s k"
  by (auto simp: ended_def)

lemma ended_Suc: "m s \<noteq> 0 \<Longrightarrow> ended m s (Suc k) \<longleftrightarrow> ended m (s + 1) k"
proof -
  assume "m s \<noteq> 0"
  have "(\<exists>j\<le>Suc k. m (s + of_nat j) = 0) \<longleftrightarrow> m (s + of_nat 0) = 0 \<or> (\<exists>j\<le>k. m (s + of_nat (Suc j)) = 0)"
    by (metis Suc_le_mono not0_implies_Suc zero_le)
  with \<open>m s \<noteq> 0\<close> show ?thesis by (simp add: ended_def add.assoc)
qed

lemma ended_cong: "(\<And>j. j \<le> k \<Longrightarrow> m (s + of_nat j) = m' (s + of_nat j)) \<Longrightarrow> ended m s k = ended m' s k"
  by (auto simp: ended_def)

lemma apart_ne: "apart p n q k \<Longrightarrow> i < n \<Longrightarrow> j < k \<Longrightarrow> n \<le> 2 ^ 64 \<Longrightarrow> k \<le> 2 ^ 64
    \<Longrightarrow> p + of_nat i \<noteq> q + of_nat j"
  unfolding apart_def by (metis in_block_of_nat)

lemma strncpy_loops_at:
  assumes "unat i + k = unat n" "unat n + 1 < 2 ^ 64" "apart d k s k"
  shows "(case strncpy_copy m d s n i of (m', p, i') \<Rightarrow> strncpy_fill m' p n i') x
    = (if in_block d k x then if ended m s (unat (x - d)) then 0 else m (s + (x - d)) else m x)"
  using assms
proof (induction k arbitrary: m d s i)
  case 0
  then have "i = n" by (simp add: word_unat_eq_iff)
  moreover have "unat (n + 1) = unat n + 1" using 0(2) by (intro unat_Suc)
  ultimately show ?case
    by (simp add: strncpy_copy.simps [of m d s n n] strncpy_fill_at in_block_def)
next
  case (Suc k)
  have lt: "i < n" using Suc.prems(1) by (simp add: word_less_nat_alt)
  have i: "unat (i + 1) = unat i + 1" using Suc.prems(1,2) by (intro unat_Suc) linarith
  have kb: "Suc k \<le> 2 ^ 64" using Suc.prems(1,2) by linarith
  show ?case
  proof (cases "m s = 0")
    case True
    have "unat n - unat i = Suc k" using Suc.prems(1) by linarith
    then show ?thesis using True
      by (simp add: strncpy_copy.simps [of m d s n i] strncpy_fill_at ended_0)
  next
    case False
    let ?m = "m(d := m s)"
    have ap: "apart (d + 1) k (s + 1) k"
      using Suc.prems(3) in_block_sub [of d 1 k _ "Suc k"] in_block_sub [of s 1 k _ "Suc k"] kb
      by (auto simp: apart_def)
    have same: "?m (s + 1 + of_nat j) = m (s + 1 + of_nat j)" if "j < k" for j
      using apart_ne [OF Suc.prems(3), of 0 "Suc j"] that kb by (simp add: add.assoc)
    have IH: "(case strncpy_copy ?m (d + 1) (s + 1) n (i + 1) of (m', p, i') \<Rightarrow> strncpy_fill m' p n i') x
      = (if in_block (d + 1) k x then if ended ?m (s + 1) (unat (x - (d + 1))) then 0
         else ?m (s + 1 + (x - (d + 1))) else ?m x)"
      using Suc.prems(1,2) i ap by (intro Suc.IH) simp_all
    have step: "strncpy_copy m d s n i = strncpy_copy ?m (d + 1) (s + 1) n (i + 1)"
      using False lt by (simp only: strncpy_copy.simps [of m d s n i]) simp
    have b: "in_block d (Suc k) x \<longleftrightarrow> x = d \<or> in_block (d + 1) k x"
      using kb by (intro in_block_Suc) simp
    show ?thesis
    proof (cases "in_block (d + 1) k x")
      case True
      let ?j = "unat (x - (d + 1))"
      have j: "?j < k" using True by (simp add: in_block_def)
      have x: "x - (d + 1) = of_nat ?j" by simp
      have xd: "x - d = of_nat ?j + 1" unfolding x [symmetric] by simp
      have "unat (of_nat (Suc ?j) :: u64) = Suc ?j" using j kb by (intro unat_of_nat_small) simp
      moreover have "x - d = of_nat (Suc ?j)" using xd by (simp add: add.commute)
      ultimately have u: "unat (x - d) = Suc ?j" by (simp only:)
      have "ended ?m (s + 1) ?j = ended m (s + 1) ?j"
        using j by (intro ended_cong same) simp
      moreover have "?m (s + 1 + (x - (d + 1))) = m (s + (x - d))"
      proof -
        have "s + 1 + (x - (d + 1)) = s + (x - d)" by (simp add: algebra_simps)
        then show ?thesis using same [OF j] unfolding x [symmetric] by (simp only:)
      qed
      ultimately show ?thesis
        using True IH step b u ended_Suc [of m s ?j, OF False] by simp
    next
      case o: False
      show ?thesis
      proof (cases "x = d")
        case True
        then show ?thesis using o IH step b False by (simp add: ended_def)
      next
        case False
        then show ?thesis using o IH step b by simp
      qed
    qed
  qed
qed

text \<open>Copying at most \<open>n\<close> characters of a string to a place apart from it: the characters, then zeros.\<close>

lemma rtk_strncpy_at:
  assumes "d \<noteq> 0" "s \<noteq> 0" "d \<noteq> s" "unat n + 1 < 2 ^ 64" "apart d (unat n) s (unat n)"
  shows "rtk_strncpy m d s n x
    = (if in_block d (unat n) x then if ended m s (unat (x - d)) then 0 else m (s + (x - d)) else m x)"
  using strncpy_loops_at [of 0 "unat n" n d s m x] assms by (simp add: rtk_strncpy_def split_def Let_def)

lemma block_nth: "i < n \<Longrightarrow> block m p n ! i = m (p + of_nat i)"
  by (simp add: block_def)

lemma cstring_nth:
  assumes "cstring_at m s cs" "j < length cs"
  shows "m (s + of_nat j) = cs ! j"
proof -
  have "block m s (length cs) ! j = cs ! j" using assms(1) by (simp only: cstring_at_def)
  then show ?thesis using assms(2) by (simp only: block_nth)
qed

lemma ended_cstring:
  assumes "cstring_at m s cs"
  shows "ended m s k \<longleftrightarrow> length cs \<le> k"
proof
  have nz: "m (s + of_nat j) \<noteq> 0" if "j < length cs" for j
    using cstring_nth [OF assms that] nth_mem [OF that] assms by (auto simp: cstring_at_def)
  then show "length cs \<le> k" if "ended m s k"
    using that unfolding ended_def by (meson le_less_trans not_le)
  show "ended m s k" if "length cs \<le> k"
    using that assms by (auto simp: ended_def cstring_at_def)
qed

lemma strncpy_block:
  assumes "cstring_at m s cs" "d \<noteq> 0" "s \<noteq> 0" "d \<noteq> s" "unat n + 1 < 2 ^ 64" "apart d (unat n) s (unat n)"
  shows "block (rtk_strncpy m d s n) d (unat n) = take (unat n) (cs @ replicate (unat n - length cs) 0)"
proof (rule nth_equalityI)
  show "length (block (rtk_strncpy m d s n) d (unat n))
    = length (take (unat n) (cs @ replicate (unat n - length cs) 0))" by simp
  fix i assume "i < length (block (rtk_strncpy m d s n) d (unat n))"
  then have i: "i < unat n" by simp
  then have "unat (d + of_nat i - d) = i" "in_block d (unat n) (d + of_nat i)"
    using assms(5) by (simp_all add: unat_of_nat_small in_block_of_nat)
  then have "rtk_strncpy m d s n (d + of_nat i) = (if length cs \<le> i then 0 else m (s + of_nat i))"
    using rtk_strncpy_at [OF assms(2-6), of m "d + of_nat i"] ended_cstring [OF assms(1), of i] by simp
  then show "block (rtk_strncpy m d s n) d (unat n) ! i
      = take (unat n) (cs @ replicate (unat n - length cs) 0) ! i"
    using i cstring_nth [OF assms(1), of i] by (simp add: block_nth nth_append)
qed

end
