(* ===== verification/Strings.thy ===== *)
theory Strings
  imports CString
begin

text \<open>
  \<open>rtk::string\<close> (include/core/stdlib/string.h) on flat memory.  An object is the address of its
  union, 24 bytes (the pointer to the virtual functions before it plays no part).  Bit 0 of the first
  byte is \<open>is_short_\<close>.  A short string has its length in the other bits of that byte and its
  characters in the 23 bytes after it; a long one has its length in bits 1 to 63 of the first
  quadword, then the pointer and the length of its \<open>unique_ptr<char[]>\<close>.  The allocator's state
  is the list of the blocks handed out and not deleted; where \<open>new\<close> places a block is the parameter
  \<open>place\<close>, 0 when memory is exhausted.  Deleting what is not a live block is undefined and so
  \<open>None\<close>.
\<close>

record store =
  st_mem :: mem
  st_live :: "(u64 \<times> u64) list"

type_synonym placement = "(u64 \<times> u64) list \<Rightarrow> u64 \<Rightarrow> u64"

definition new_chars :: "placement \<Rightarrow> store \<Rightarrow> u64 \<Rightarrow> u64 \<times> store" where
  "new_chars place st n =
     (let p = place (st_live st) n in if p = 0 then (0, st) else (p, st\<lparr>st_live := (p, n) # st_live st\<rparr>))"

text \<open>\<open>new char{}\<close>, which is zero.\<close>

definition new_char :: "placement \<Rightarrow> store \<Rightarrow> u64 \<times> store" where
  "new_char place st =
     (let (p, st) = new_chars place st 1 in (p, if p = 0 then st else st\<lparr>st_mem := (st_mem st)(p := 0)\<rparr>))"

definition delete_chars :: "store \<Rightarrow> u64 \<Rightarrow> store option" where
  "delete_chars st p =
     (if p = 0 then Some st
      else if p \<in> fst ` set (st_live st)
        then Some (st\<lparr>st_live := filter (\<lambda>b. fst b \<noteq> p) (st_live st)\<rparr>)
      else None)"

subsection \<open>The union\<close>

definition kMaxShortLen :: u64 where "kMaxShortLen = 23"

definition is_short :: "mem \<Rightarrow> u64 \<Rightarrow> bool" where
  "is_short m this = bit (m this) 0"

definition set_is_short :: "mem \<Rightarrow> u64 \<Rightarrow> bool \<Rightarrow> mem" where
  "set_is_short m this b = m(this := (if b then m this OR 1 else m this AND 0xFE))"

definition shortlen :: "mem \<Rightarrow> u64 \<Rightarrow> u64" where
  "shortlen m this = ucast (drop_bit 1 (m this))"

definition set_shortlen :: "mem \<Rightarrow> u64 \<Rightarrow> u64 \<Rightarrow> mem" where
  "set_shortlen m this n = m(this := (m this AND 1) OR push_bit 1 (ucast n))"

definition shortstr :: "u64 \<Rightarrow> u64" where
  "shortstr this = this + 1"

definition long_len :: "mem \<Rightarrow> u64 \<Rightarrow> u64" where
  "long_len m this = drop_bit 1 (read64 m this)"

definition set_long_len :: "mem \<Rightarrow> u64 \<Rightarrow> u64 \<Rightarrow> mem" where
  "set_long_len m this n = write64 m this ((read64 m this AND 1) OR push_bit 1 n)"

definition cstr_ptr :: "mem \<Rightarrow> u64 \<Rightarrow> u64" where
  "cstr_ptr m this = read64 m (this + 8)"

text \<open>\<open>cstr_\<close> takes over an array; what it owned is not deleted (\<open>unique_ptr::operator=\<close>).\<close>

definition set_cstr :: "mem \<Rightarrow> u64 \<Rightarrow> u64 \<Rightarrow> u64 \<Rightarrow> mem" where
  "set_cstr m this ptr len = write64 (write64 m (this + 8) ptr) (this + 16) len"

definition c_str :: "mem \<Rightarrow> u64 \<Rightarrow> u64" where
  "c_str m this = (if is_short m this then shortstr this else cstr_ptr m this)"

definition str_length :: "mem \<Rightarrow> u64 \<Rightarrow> u64" where
  "str_length m this = (if is_short m this then shortlen m this else long_len m this)"

definition str_empty :: "mem \<Rightarrow> u64 \<Rightarrow> bool" where
  "str_empty m this = (long_len m this = 0)"

definition str_view :: "mem \<Rightarrow> u64 \<Rightarrow> string_view" where
  "str_view m this = \<lparr>sv_ptr = c_str m this, sv_len = str_length m this\<rparr>"

subsection \<open>Construction, assignment\<close>

definition str_default :: "store \<Rightarrow> u64 \<Rightarrow> store" where
  "str_default st this =
     st\<lparr>st_mem := memset (set_shortlen (set_is_short (st_mem st) this True) this 0) (shortstr this) 0 kMaxShortLen\<rparr>"

text \<open>Copying the empty literal fills the short buffer with zeros.\<close>

definition str_reset :: "store \<Rightarrow> u64 \<Rightarrow> store option" where
  "str_reset st this =
     do { st \<leftarrow> (if \<not> is_short (st_mem st) this then
                  do { st \<leftarrow> delete_chars st (cstr_ptr (st_mem st) this);
                       Some (st\<lparr>st_mem := set_is_short (set_cstr (st_mem st) this 0 0) this True\<rparr>) }
                else Some st);
          let m = set_shortlen (st_mem st) this 0;
          Some (st\<lparr>st_mem := strncpy_fill m (shortstr this) kMaxShortLen 0\<rparr>) }"

text \<open>The buffer's pointer is constructed from its length, so the constructor of its base first allocates a
  \<open>char\<close> that nothing owns afterwards.\<close>

definition copy_cstr ::
  "placement \<Rightarrow> store \<Rightarrow> u64 \<Rightarrow> u64 \<Rightarrow> u64 \<Rightarrow> store option" where
  "copy_cstr place st this original len =
     do { st \<leftarrow> str_reset st this;
          let st =
            (if len \<ge> kMaxShortLen then
               let arraylen = len + 1;
                   (_, st) = new_char place st;
                   (newptr, st) = (if arraylen = 0 then (0, st) else new_chars place st arraylen)
               in if newptr \<noteq> 0 then
                    st\<lparr>st_mem := set_cstr (set_long_len (set_is_short (st_mem st) this False) this len)
                                  this newptr arraylen\<rparr>
                  else st
             else st\<lparr>st_mem := set_shortlen (set_is_short (st_mem st) this True) this len\<rparr>);
          let m = rtk_strncpy (st_mem st) (c_str (st_mem st) this) original len;
          Some (st\<lparr>st_mem := m(c_str m this + len := 0)\<rparr>) }"

definition str_from_cstr :: "placement \<Rightarrow> store \<Rightarrow> u64 \<Rightarrow> u64 \<Rightarrow> store option" where
  "str_from_cstr place st this cstr =
     (let st = str_default st this in
      do { len \<leftarrow> rtk_strlen (st_mem st) cstr; copy_cstr place st this cstr len })"

definition str_from_view :: "placement \<Rightarrow> store \<Rightarrow> u64 \<Rightarrow> string_view \<Rightarrow> store option" where
  "str_from_view place st this sv = copy_cstr place (str_default st this) this (sv_ptr sv) (sv_len sv)"

definition str_assign_copy :: "placement \<Rightarrow> store \<Rightarrow> u64 \<Rightarrow> u64 \<Rightarrow> store option" where
  "str_assign_copy place st this other =
     (if this = other then Some st
      else copy_cstr place st this (c_str (st_mem st) other) (str_length (st_mem st) other))"

definition str_copy_construct :: "placement \<Rightarrow> store \<Rightarrow> u64 \<Rightarrow> u64 \<Rightarrow> store option" where
  "str_copy_construct place st this other = str_assign_copy place (str_default st this) this other"

definition str_assign_move :: "placement \<Rightarrow> store \<Rightarrow> u64 \<Rightarrow> u64 \<Rightarrow> store option" where
  "str_assign_move place st this other =
     (if this = other then Some st
      else do {
        st \<leftarrow> (if is_short (st_mem st) other then
                copy_cstr place st this (c_str (st_mem st) other) (str_length (st_mem st) other)
              else
                (let m = st_mem st;
                     m = set_long_len (set_is_short m this False) this (long_len m other);
                     m = set_cstr m this (cstr_ptr m other) (read64 m (other + 16));
                     m = set_cstr m other 0 0
                 in Some (st\<lparr>st_mem := m\<rparr>)));
        str_reset st other })"

text \<open>The move constructor swaps with a default string, and \<open>swap\<close> first move-constructs its
  temporary; \<open>temps\<close> are the addresses of the temporaries, one for each call.\<close>

partial_function (option) str_move_construct ::
  "placement \<Rightarrow> (nat \<Rightarrow> u64) \<Rightarrow> nat \<Rightarrow> store \<Rightarrow> u64 \<Rightarrow> u64 \<Rightarrow> store option" where
  "str_move_construct place temps depth st this other =
     (let st = str_default st this; temp = temps depth in
      do { st \<leftarrow> str_move_construct place temps (Suc depth) st temp this;
           st \<leftarrow> str_assign_move place st this other;
           st \<leftarrow> str_assign_move place st other temp;
           str_reset st temp })"

definition str_swap ::
  "placement \<Rightarrow> (nat \<Rightarrow> u64) \<Rightarrow> store \<Rightarrow> u64 \<Rightarrow> u64 \<Rightarrow> store option" where
  "str_swap place temps st a b =
     (let temp = temps 0 in
      do { st \<leftarrow> str_move_construct place temps 1 st temp a;
           st \<leftarrow> str_assign_move place st a b;
           st \<leftarrow> str_assign_move place st b temp;
           str_reset st temp })"

definition str_destruct :: "store \<Rightarrow> u64 \<Rightarrow> store option" where
  "str_destruct st this = str_reset st this"

definition str_clear :: "store \<Rightarrow> u64 \<Rightarrow> store option" where
  "str_clear st this = str_reset st this"

subsection \<open>Concatenation\<close>

text \<open>Without a buffer, \<open>new\<close> failing leaves a null pointer in \<open>dest\<close>, to which \<open>strncpy\<close> does not
  write; \<open>dest + len\<close> it does write to.\<close>

definition str_append :: "placement \<Rightarrow> store \<Rightarrow> u64 \<Rightarrow> string_view \<Rightarrow> store" where
  "str_append place st this other =
     (let len = str_length (st_mem st) this;
          otherlen = sv_len other;
          newlen = len + otherlen;
          need_buffer = len + otherlen > kMaxShortLen - 1;
          (dest, st) = (if need_buffer then new_chars place st (newlen + 1) else (shortstr this, st));
          m = st_mem st;
          m = (if need_buffer then rtk_strncpy m dest (c_str m this) len else m);
          m = rtk_strncpy m (dest + len) (sv_ptr other) (otherlen + 1);
          m = (if need_buffer then
                 let m = (if is_short m this then set_cstr m this 0 0 else m)
                 in set_cstr m this dest (if dest = 0 then 0 else newlen + 1)
               else m);
          m = set_is_short m this (\<not> need_buffer);
          m = (if need_buffer then set_long_len m this newlen else set_shortlen m this newlen)
      in st\<lparr>st_mem := m\<rparr>)"

text \<open>\<open>operator+\<close> builds its result, \<open>start\<close>, where it is returned.\<close>

definition str_plus :: "placement \<Rightarrow> store \<Rightarrow> u64 \<Rightarrow> u64 \<Rightarrow> string_view \<Rightarrow> store" where
  "str_plus place st start this other =
     (let st = str_default st start;
          len = str_length (st_mem st) this;
          otherlen = sv_len other;
          newlen = len + otherlen
      in if newlen < kMaxShortLen then
           str_append place (str_append place st start (str_view (st_mem st) this)) start other
         else
           let (ptr, st) = new_chars place st (newlen + 1);
               m = rtk_strncpy (st_mem st) ptr (c_str (st_mem st) this) len;
               m = rtk_strncpy m (ptr + len) (sv_ptr other) (otherlen + 1);
               m = set_long_len (set_is_short m start False) start newlen;
               m = set_cstr m start ptr (if ptr = 0 then 0 else newlen + 1)
           in st\<lparr>st_mem := m\<rparr>)"

subsection \<open>String streams\<close>

text \<open>\<open>ostringstream::write\<close> (include/core/stdlib/sstream.h) appends a C string to the stream's.\<close>

definition sstream_write :: "placement \<Rightarrow> store \<Rightarrow> u64 \<Rightarrow> u64 \<Rightarrow> store option" where
  "sstream_write place st str data =
     do { sv \<leftarrow> view_of (st_mem st) data; Some (str_append place st str sv) }"

definition sstream_flush :: "store \<Rightarrow> store" where
  "sstream_flush st = st"

end
