(* ===== verification/StringProps.thy ===== *)
theory StringProps
  imports Strings
begin

text \<open>
  \<open>rtk::string\<close> as a list of characters: \<open>holds st this cs\<close> says that the object at \<open>this\<close> is well formed
  and has the characters \<open>cs\<close>.  Assignment and \<open>append\<close> are those of lists as long as the source lies
  apart from what they write; the cases where it does not, and an allocation that fails, are what
  the last theorems are about.
\<close>

subsection \<open>The fields of the union\<close>

lemma bit_push: "bit (push_bit k n :: 'a::len word) i \<longleftrightarrow> k \<le> i \<and> i < LENGTH('a) \<and> bit n (i - k)"
  by (auto simp: bit_simps dest: bit_imp_le_length)

lemma bit_push1: "bit (push_bit 1 n :: 'a::len word) i \<longleftrightarrow> 0 < i \<and> i < LENGTH('a) \<and> bit n (i - 1)"
  using bit_push [of 1 n i] by (simp only: One_nat_def Suc_le_eq)

lemma bit_flag_field: "bit ((a AND 1) OR push_bit 1 n :: 'a::len word) i
    \<longleftrightarrow> (if i = 0 then bit a 0 else i < LENGTH('a) \<and> bit n (i - 1))"
  by (simp only: bit_or_iff bit_and_iff bit_push1 bit_1_iff) auto

lemma word8_bit0_cases:
  "bit (x OR 1 :: u8) 0" "\<not> bit (x AND 0xFE :: u8) 0"
  "drop_bit 1 (x OR 1 :: u8) = drop_bit 1 x" "drop_bit 1 (x AND 0xFE :: u8) = drop_bit 1 x"
proof -
  have fe: "(0xFE :: u8) = push_bit 1 (mask 7)" by (simp add: mask_eq_exp_minus_1)
  show "bit (x OR 1 :: u8) 0" "\<not> bit (x AND 0xFE :: u8) 0"
    unfolding fe by (simp_all only: bit_or_iff bit_and_iff bit_push1 bit_1_iff) simp_all
  show "drop_bit 1 (x OR 1 :: u8) = drop_bit 1 x"
    by (rule bit_word_eqI) (simp only: bit_drop_bit_eq bit_or_iff bit_1_iff comp_apply, simp)
  show "drop_bit 1 (x AND 0xFE :: u8) = drop_bit 1 x"
    unfolding fe
    by (rule bit_word_eqI) (auto simp only: bit_drop_bit_eq bit_and_iff bit_push1 bit_mask_iff comp_apply
        dest: bit_imp_le_length, auto dest: bit_imp_le_length)
qed

lemma set_is_short_fields [simp]:
  "is_short (set_is_short m this b) this = b"
  "shortlen (set_is_short m this b) this = shortlen m this"
  by (cases b; simp only: is_short_def set_is_short_def shortlen_def fun_upd_same if_True if_False word8_bit0_cases)+

lemma set_shortlen_short [simp]: "is_short (set_shortlen m this n) this = is_short m this"
  unfolding is_short_def set_shortlen_def fun_upd_same bit_flag_field by simp

lemma shortlen_set_shortlen:
  assumes "n < 128"
  shows "shortlen (set_shortlen m this n) this = n"
proof -
  have b: "i < 7" if "bit n i" for i
    using bit_less_exp [of n 7 i] assms that by (simp add: word_less_nat_alt)
  then have "i < 8" "i < 7" if "bit n i" for i using that by (auto dest: b)
  then show ?thesis
    unfolding shortlen_def set_shortlen_def fun_upd_same
    by (intro bit_word_eqI)
      (auto simp only: bit_ucast_byte bit_drop_bit_eq bit_flag_field comp_apply, auto simp: bit_simps)
qed

lemma bit0_read64: "bit (read64 m this) 0 = bit (m this) 0"
  using bit_read64 [of 0 m this] by simp

lemma set_long_len_fields:
  assumes "n < 2 ^ 63"
  shows "is_short (set_long_len m this n) this = is_short m this" "long_len (set_long_len m this n) this = n"
proof -
  have "bit n i \<Longrightarrow> i < 63" for i
    using bit_less_exp [of n 63 i] assms by (simp add: word_less_nat_alt)
  then show "long_len (set_long_len m this n) this = n"
    unfolding long_len_def set_long_len_def read64_write64_same
    by (intro bit_word_eqI) (auto simp only: bit_drop_bit_eq bit_flag_field comp_apply, auto)
  show "is_short (set_long_len m this n) this = is_short m this"
    unfolding is_short_def bit0_read64 [symmetric] set_long_len_def read64_write64_same bit_flag_field
    by simp
qed

lemma less8_cases: "(i :: u64) < 8 \<Longrightarrow> i \<in> {0, 1, 2, 3, 4, 5, 6, 7}"
proof -
  assume "i < 8"
  then have "unat i < 8" by (simp add: word_less_nat_alt)
  then have "unat i \<in> {0, 1, 2, 3, 4, 5, 6, 7}" unfolding insert_iff empty_iff by linarith
  then have "of_nat (unat i) \<in> (of_nat ` {0, 1, 2, 3, 4, 5, 6, 7} :: u64 set)" by (rule imageI)
  then show ?thesis by simp
qed

lemma quads_apart:
  assumes "i < 8" "j < (8 :: u64)"
  shows "p + i \<noteq> p + (8 + j)"
  using less8_cases [OF assms(1)] less8_cases [OF assms(2)] by auto

lemma write64_frame_quads:
  "read64 (write64 m (p + 8) v) p = read64 m p" "read64 (write64 m p v) (p + 8) = read64 m (p + 8)"
  by (intro read64_cong write64_other; use quads_apart in \<open>force simp: add.assoc\<close>)+


lemma read64_set_cstr:
  "cstr_ptr (set_cstr m this p n) this = p" "read64 (set_cstr m this p n) (this + 16) = n"
  "read64 (set_cstr m this p n) this = read64 m this"
proof -
  have e: "this + 8 + 8 = this + 16" by simp
  show "cstr_ptr (set_cstr m this p n) this = p"
    using write64_frame_quads(1) [of "write64 m (this + 8) p" "this + 8" n]
    unfolding e cstr_ptr_def set_cstr_def by (simp only: read64_write64_same)
  show "read64 (set_cstr m this p n) (this + 16) = n" by (simp add: set_cstr_def)
  have ne: "this + j \<noteq> this + 8 + i" "this + j \<noteq> this + 16 + i" if "i < 8" "j < 8" for i j
    using less8_cases [OF that(1)] less8_cases [OF that(2)] by auto
  then have "write64 m' (this + 8) v (this + j) = m' (this + j)"
    "write64 m' (this + 16) v (this + j) = m' (this + j)" if "j < 8" for m' v j
    using that by (auto intro!: write64_other)
  then show "read64 (set_cstr m this p n) this = read64 m this"
    unfolding set_cstr_def by (intro read64_cong) simp
qed

text \<open>Every setter changes only bytes of the object.\<close>

lemma in_object: "i < 24 \<Longrightarrow> in_block this 24 (this + i)"
  by (simp add: in_block_def word_less_nat_alt)

lemma setter_frame:
  assumes "\<not> in_block this 24 x"
  shows "set_is_short m this b x = m x" "set_shortlen m this n x = m x" "set_long_len m this n x = m x"
    "set_cstr m this p n x = m x"
proof -
  have ne: "x \<noteq> this + i" if "i < 24" for i using in_object [OF that, of this] assms by auto
  have "write64 m' (this + k) v x = m' x" if "k \<le> 16" for m' k v
  proof (rule write64_other)
    fix i :: u64 assume "i < 8"
    then have "unat k + unat i < 24" using that by (simp add: word_less_nat_alt word_le_nat_alt)
    then have "k + i < 24" by (simp add: word_less_nat_alt unat_add_small)
    then show "x \<noteq> this + k + i" using ne [of "k + i"] by (simp add: add.assoc)
  qed
  from this [of 0] this [of 8] this [of 16] ne [of 0]
  show "set_is_short m this b x = m x" "set_shortlen m this n x = m x" "set_long_len m this n x = m x"
    "set_cstr m this p n x = m x"
    by (simp_all add: set_is_short_def set_shortlen_def set_long_len_def set_cstr_def)
qed

lemma set_is_short_read64: "read64 (set_is_short m this b) (this + 8) = read64 m (this + 8)"
  "read64 (set_is_short m this b) (this + 16) = read64 m (this + 16)"
proof -
  have "this + 8 + i \<noteq> this" "this + 16 + i \<noteq> this" if "i < 8" for i
    using less8_cases [OF that] by auto
  then show "read64 (set_is_short m this b) (this + 8) = read64 m (this + 8)"
    "read64 (set_is_short m this b) (this + 16) = read64 m (this + 16)"
    unfolding set_is_short_def by (auto intro: read64_cong)
qed

lemma set_long_len_read64: "read64 (set_long_len m this n) (this + 8) = read64 m (this + 8)"
  "read64 (set_long_len m this n) (this + 16) = read64 m (this + 16)"
proof -
  have "this + 16 + i \<noteq> this + j" if "i < 8" "j < 8" for i j
    using less8_cases [OF that(1)] less8_cases [OF that(2)] by auto
  then show "read64 (set_long_len m this n) (this + 16) = read64 m (this + 16)"
    unfolding set_long_len_def by (intro read64_cong write64_other) auto
qed (simp add: set_long_len_def write64_frame_quads)

subsection \<open>The abstraction\<close>

definition place_fresh :: "placement \<Rightarrow> bool" where
  "place_fresh place \<longleftrightarrow> (\<forall>live n. place live n \<noteq> 0 \<longrightarrow>
     unat (place live n) + unat n < 2 ^ 64
     \<and> (\<forall>(b, k) \<in> set live. apart (place live n) (unat n) b (unat k)))"

definition holds :: "store \<Rightarrow> u64 \<Rightarrow> u8 list \<Rightarrow> bool" where
  "holds st this cs \<longleftrightarrow>
     (let m = st_mem st in
      cstring_at m (c_str m this) cs \<and> str_length m this = of_nat (length cs) \<and> length cs < 2 ^ 62
      \<and> this \<noteq> 0 \<and> unat this + 24 < 2 ^ 64 \<and> (this, 24) \<in> set (st_live st)
      \<and> (if is_short m this then length cs < 23 \<and> (cs = [] \<longrightarrow> long_len m this = 0)
         else 23 \<le> length cs \<and> cstr_ptr m this \<noteq> 0 \<and> read64 m (this + 16) = of_nat (length cs + 1)
           \<and> (cstr_ptr m this, of_nat (length cs + 1)) \<in> set (st_live st)
           \<and> apart (cstr_ptr m this) (length cs + 1) this 24))"

text \<open>The blocks that stay live when the string lets go of its buffer.\<close>

definition other_blocks :: "store \<Rightarrow> u64 \<Rightarrow> (u64 \<times> u64) list" where
  "other_blocks st this =
     (if is_short (st_mem st) this then st_live st
      else filter (\<lambda>b. fst b \<noteq> cstr_ptr (st_mem st) this) (st_live st))"

text \<open>\<open>n\<close> bytes at \<open>p\<close> lie in one of \<open>blocks\<close>, and apart from the object.\<close>

definition source_in :: "(u64 \<times> u64) list \<Rightarrow> u64 \<Rightarrow> u64 \<Rightarrow> nat \<Rightarrow> bool" where
  "source_in blocks this p n \<longleftrightarrow> p \<noteq> 0 \<and> apart p n this 24
     \<and> (\<exists>(b, k) \<in> set blocks. \<forall>x. in_block p n x \<longrightarrow> in_block b (unat k) x)"

lemma source_apart_fresh:
  assumes "source_in live this p n" "place_fresh place" "place live k \<noteq> 0"
  shows "apart (place live k) (unat k) p n"
  using assms unfolding source_in_def place_fresh_def apart_def by fast

lemma ucast_drop_byte: "(ucast (drop_bit 1 (b :: u8)) :: u64) = drop_bit 1 (ucast b)"
  by (rule bit_word_eqI) (auto simp: bit_simps dest: bit_imp_le_length)

lemma long_len_blank:
  assumes "shortlen m this = 0" "\<And>i. 0 < i \<Longrightarrow> i < 8 \<Longrightarrow> m (this + i) = 0"
  shows "long_len m this = 0"
proof -
  have r: "read64 m this = ucast (m this)"
    using assms(2) [of 1] assms(2) [of 2] assms(2) [of 3] assms(2) [of 4] assms(2) [of 5]
      assms(2) [of 6] assms(2) [of 7] by (simp add: read64_def)
  show ?thesis using assms(1) by (simp only: long_len_def shortlen_def ucast_drop_byte r)
qed

lemma short_cong:
  assumes "m this = m' this"
  shows "is_short m this = is_short m' this" "shortlen m this = shortlen m' this"
  using assms by (simp_all add: is_short_def shortlen_def)

lemma in_object_str: "i < 23 \<Longrightarrow> in_block this 24 (shortstr this + of_nat i)"
  by (simp add: in_block_iff shortstr_def add.assoc) (rule exI [of _ "Suc i"], simp)

text \<open>What a blank object is: a short string of length 0 with zeros behind.\<close>

definition blank :: "mem \<Rightarrow> u64 \<Rightarrow> bool" where
  "blank m this \<longleftrightarrow> is_short m this \<and> shortlen m this = 0 \<and> (\<forall>x. in_block (shortstr this) 23 x \<longrightarrow> m x = 0)"

lemma this_not_in_str: "\<not> in_block (shortstr this) 23 this"
  by (simp add: in_block_def shortstr_def unsigned_minus_1_eq_mask mask_eq_exp_minus_1)

lemma blank_long_len: "blank m this \<Longrightarrow> long_len m this = 0"
proof (rule long_len_blank)
  assume b: "blank m this"
  then show "shortlen m this = 0" by (simp add: blank_def)
  fix i :: u64 assume i: "0 < i" "i < 8"
  then have "unat (i - 1) < 23" using less8_cases [of i] by auto
  then have "in_block (shortstr this) 23 (this + i)"
    by (simp add: in_block_def shortstr_def algebra_simps)
  then show "m (this + i) = 0" using b by (simp add: blank_def)
qed

lemma set_shortlen_blank: "is_short m this \<Longrightarrow> (set_shortlen m this 0) this = 1"
  by (simp add: set_shortlen_def is_short_def bit_0 and_one_eq odd_iff_mod_2_eq_one)


lemma str_reset_spec:
  assumes "is_short (st_mem st) this \<or> cstr_ptr (st_mem st) this = 0
      \<or> cstr_ptr (st_mem st) this \<in> fst ` set (st_live st)"
  shows "\<exists>st'. str_reset st this = Some st' \<and> blank (st_mem st') this
    \<and> st_live st' = (if is_short (st_mem st) this \<or> cstr_ptr (st_mem st) this = 0 then st_live st
        else other_blocks st this)
    \<and> (\<forall>x. \<not> in_block this 24 x \<longrightarrow> st_mem st' x = st_mem st x)"
proof -
  let ?m = "st_mem st"
  let ?live = "if is_short ?m this \<or> cstr_ptr ?m this = 0 then st_live st else other_blocks st this"
  let ?m1 = "if is_short ?m this then ?m else set_is_short (set_cstr ?m this 0 0) this True"
  let ?m2 = "strncpy_fill (set_shortlen ?m1 this 0) (shortstr this) kMaxShortLen 0"
  have r: "str_reset st this = Some (st\<lparr>st_mem := ?m2, st_live := ?live\<rparr>)"
    using assms by (auto simp: str_reset_def delete_chars_def other_blocks_def)
  have fr: "?m2 x = (if in_block (shortstr this) 23 x then 0 else set_shortlen ?m1 this 0 x)" for x
    by (simp add: strncpy_fill_at kMaxShortLen_def)
  have s: "is_short ?m1 this" by simp
  have t: "?m2 this = set_shortlen ?m1 this 0 this" using fr this_not_in_str by simp
  have "is_short ?m2 this" "shortlen ?m2 this = 0"
    using short_cong [of ?m2 this "set_shortlen ?m1 this 0"] t s shortlen_set_shortlen [of 0 ?m1 this]
    by simp_all
  then have "blank ?m2 this" using fr by (simp add: blank_def)
  moreover have "?m2 x = ?m x" if "\<not> in_block this 24 x" for x
  proof -
    have "\<not> in_block (shortstr this) 23 x"
      using that in_block_sub [of this 1 23 x 24] by (auto simp: shortstr_def)
    then show ?thesis using fr [of x] setter_frame [OF that] by simp
  qed
  ultimately show ?thesis using r by simp
qed

lemma holds_resets:
  assumes "holds st this cs"
  shows "\<exists>st'. str_reset st this = Some st' \<and> blank (st_mem st') this \<and> st_live st' = other_blocks st this
    \<and> (\<forall>x. \<not> in_block this 24 x \<longrightarrow> st_mem st' x = st_mem st x)"
proof -
  have "is_short (st_mem st) this \<or> cstr_ptr (st_mem st) this \<noteq> 0 \<and> cstr_ptr (st_mem st) this \<in> fst ` set (st_live st)"
    using assms by (auto simp: holds_def Let_def split: if_splits intro: rev_image_eqI)
  then show ?thesis
    using str_reset_spec [of st this] by (cases "is_short (st_mem st) this") (simp_all add: other_blocks_def)
qed

text \<open>The object's own block stays live: it is not its buffer.\<close>

lemma object_stays_live:
  assumes "holds st this cs"
  shows "(this, 24) \<in> set (other_blocks st this)"
proof -
  have "cstr_ptr (st_mem st) this \<noteq> this" if "\<not> is_short (st_mem st) this"
  proof -
    have "apart (cstr_ptr (st_mem st) this) (length cs + 1) this 24"
      using assms that by (simp add: holds_def Let_def)
    then show ?thesis by (auto simp: apart_def in_block_def dest: spec [of _ this])
  qed
  then show ?thesis using assms by (auto simp: holds_def Let_def other_blocks_def)
qed


lemma set_cstr_fields [simp]:
  "is_short (set_cstr m this p n) this = is_short m this" "long_len (set_cstr m this p n) this = long_len m this"
  unfolding is_short_def bit0_read64 [symmetric] long_len_def read64_set_cstr by (rule refl)+

lemma object_cong:
  assumes "\<And>x. in_block this 24 x \<Longrightarrow> m x = m' x"
  shows "is_short m this = is_short m' this" "shortlen m this = shortlen m' this"
    "long_len m this = long_len m' this" "cstr_ptr m this = cstr_ptr m' this"
    "read64 m (this + 16) = read64 m' (this + 16)" "c_str m this = c_str m' this"
    "str_length m this = str_length m' this"
proof -
  have q: "read64 m (this + k) = read64 m' (this + k)" if "k \<le> 16" for k
  proof (rule read64_cong)
    fix i :: u64 assume "i < 8"
    then have "unat k + unat i < 24" using that by (simp add: word_less_nat_alt word_le_nat_alt)
    then have "k + i < 24" by (simp add: word_less_nat_alt unat_add_small)
    then show "m (this + k + i) = m' (this + k + i)"
      using assms in_object [of "k + i" this] by (simp add: add.assoc)
  qed
  have "m this = m' this" using assms in_object [of 0 this] by simp
  from short_cong [of m this m', OF this] q [of 0] q [of 8] q [of 16]
  show "is_short m this = is_short m' this" "shortlen m this = shortlen m' this"
    "long_len m this = long_len m' this" "cstr_ptr m this = cstr_ptr m' this"
    "read64 m (this + 16) = read64 m' (this + 16)" "c_str m this = c_str m' this"
    "str_length m this = str_length m' this"
    by (simp_all add: long_len_def cstr_ptr_def c_str_def str_length_def)
qed

lemma blank_holds:
  assumes "blank (st_mem st) this" "this \<noteq> 0" "unat this + 24 < 2 ^ 64" "(this, 24) \<in> set (st_live st)"
  shows "holds st this []"
proof -
  have "in_block (shortstr this) 23 (shortstr this)" by (simp add: in_block_def)
  then show ?thesis
    using assms blank_long_len [OF assms(1)]
    by (simp add: holds_def Let_def c_str_def str_length_def blank_def)
qed

text \<open>The characters of a string and its NUL, laid down at a place apart from where they come from.\<close>

lemma strncpy_lays:
  assumes "cstring_at m src ds" "d \<noteq> 0" "src \<noteq> 0" "apart d (length ds + 1) src (length ds + 1)" "length ds < 2 ^ 62"
  shows "cstring_at ((rtk_strncpy m d src (of_nat (length ds)))(d + of_nat (length ds) := 0)) d ds"
    "cstring_at (rtk_strncpy m d src (of_nat (length ds) + 1)) d ds"
    "\<not> in_block d (length ds) x \<Longrightarrow> rtk_strncpy m d src (of_nat (length ds)) x = m x"
    "\<not> in_block d (length ds + 1) x \<Longrightarrow> rtk_strncpy m d src (of_nat (length ds) + 1) x = m x"
    "block (rtk_strncpy m d src (of_nat (length ds))) d (length ds) = ds"
proof -
  let ?L = "length ds"
  have u0: "unat (of_nat ?L :: u64) = ?L" using assms(5) by (intro unat_of_nat_small) simp
  then have "unat (of_nat ?L + 1 :: u64) = ?L + 1" using assms(5) by (subst unat_Suc) simp_all
  note u = u0 this
  have ne: "d \<noteq> src" using assms(4) by (auto simp: apart_def in_block_def dest: spec [of _ d])
  have ap: "apart d ?L src ?L" using assms(4) by (rule apart_mono) simp_all
  note c0 = strncpy_block [OF assms(1-3) ne, of "of_nat ?L", unfolded u]
  note c1 = strncpy_block [OF assms(1-3) ne, of "of_nat ?L + 1", unfolded u]
  note f0 = rtk_strncpy_at [OF assms(2,3) ne, of "of_nat ?L", unfolded u]
  note f1 = rtk_strncpy_at [OF assms(2,3) ne, of "of_nat ?L + 1", unfolded u]
  have nz: "0 \<notin> set ds" using assms(1) by (simp add: cstring_at_def)
  let ?m = "rtk_strncpy m d src (of_nat ?L)"
  have "block (?m(d + of_nat ?L := 0)) d ?L = block ?m d ?L"
  proof (rule block_cong)
    fix i assume i: "i < ?L"
    then have "unat (of_nat i :: u64) \<noteq> unat (of_nat ?L :: u64)" using assms(5) u by (simp add: unat_of_nat_small)
    then have "d + of_nat i \<noteq> d + of_nat ?L" by auto
    then show "(?m(d + of_nat ?L := 0)) (d + of_nat i) = ?m (d + of_nat i)" by simp
  qed
  moreover show "block ?m d ?L = ds" using c0 ap assms(5) by simp
  ultimately show "cstring_at (?m(d + of_nat ?L := 0)) d ds"
    using nz by (simp add: cstring_at_def)
  have c1': "block (rtk_strncpy m d src (of_nat ?L + 1)) d (?L + 1) = ds @ [0]"
    using c1 assms(4,5) by simp
  have "block m' d (?L + 1) = block m' d ?L @ [m' (d + of_nat ?L)]" for m' by (simp add: block_def)
  then show "cstring_at (rtk_strncpy m d src (of_nat ?L + 1)) d ds"
    using c1' nz by (simp add: cstring_at_def)
  show "?m x = m x" if "\<not> in_block d ?L x" using f0 ap assms(5) that by simp
  show "rtk_strncpy m d src (of_nat ?L + 1) x = m x" if "\<not> in_block d (?L + 1) x"
    using f1 assms(4,5) that by simp
qed


lemma len_words:
  assumes "n < 2 ^ 62"
  shows "unat (of_nat n :: u64) = n" "unat (of_nat n + 1 :: u64) = n + 1" "(of_nat n :: u64) < 2 ^ 63"
    "kMaxShortLen \<le> of_nat n \<longleftrightarrow> 23 \<le> n" "(of_nat n + 1 :: u64) \<noteq> 0"
proof -
  show u: "unat (of_nat n :: u64) = n" using assms by (intro unat_of_nat_small) simp
  then show s: "unat (of_nat n + 1 :: u64) = n + 1" using assms by (subst unat_Suc) simp_all
  show "(of_nat n :: u64) < 2 ^ 63" "kMaxShortLen \<le> of_nat n \<longleftrightarrow> 23 \<le> n"
    using assms u by (simp_all add: word_less_nat_alt word_le_nat_alt kMaxShortLen_def)
  show "(of_nat n + 1 :: u64) \<noteq> 0" using s by (metis add_is_0 one_neq_zero unat_0)
qed

lemma shortstr_ne0: "unat this + 24 < 2 ^ 64 \<Longrightarrow> shortstr this \<noteq> 0"
proof -
  assume "unat this + 24 < 2 ^ 64"
  then have "unat (this + 1) = unat this + 1" by (intro unat_Suc) simp
  then show ?thesis unfolding shortstr_def by (metis Suc_eq_plus1 nat.distinct(1) unat_0)
qed

lemma copy_cstr_short:
  assumes bl: "blank (st_mem st1) this" and obj: "this \<noteq> 0" "unat this + 24 < 2 ^ 64" "(this, 24) \<in> set (st_live st1)"
    and ds: "cstring_at (st_mem st1) src ds" "length ds < 23" and src: "src \<noteq> 0" "apart src (length ds + 1) this 24"
  shows "let m2 = set_shortlen (set_is_short (st_mem st1) this True) this (of_nat (length ds));
             m3 = rtk_strncpy m2 (c_str m2 this) src (of_nat (length ds));
             st' = st1\<lparr>st_mem := m3(c_str m3 this + of_nat (length ds) := 0)\<rparr>
         in holds st' this ds \<and> (\<forall>x. \<not> in_block this 24 x \<longrightarrow> st_mem st' x = st_mem st1 x)"
proof -
  let ?L = "length ds" let ?m1 = "st_mem st1" let ?d = "shortstr this"
  let ?m2 = "set_shortlen (set_is_short ?m1 this True) this (of_nat ?L)"
  let ?m3 = "rtk_strncpy ?m2 ?d src (of_nat ?L)"
  let ?m4 = "?m3(?d + of_nat ?L := 0)"
  have L: "?L < 2 ^ 62" using ds(2) by simp
  note lw = len_words [OF L]
  have m2: "?m2 x = ?m1 x" if "x \<noteq> this" for x using that by (simp add: set_shortlen_def set_is_short_def)
  have src2: "cstring_at ?m2 src ds"
  proof (rule cstring_frame [OF ds(1)])
    fix x assume "in_block src (?L + 1) x"
    then have "x \<noteq> this" using src(2) by (auto simp: apart_def in_block_def)
    then show "?m1 x = ?m2 x" using m2 by simp
  qed (use L in simp)
  have d0: "?d \<noteq> 0" using obj(2) by (rule shortstr_ne0)
  have sub: "in_block this 24 x" if "in_block ?d (?L + 1) x" for x
    using in_block_sub [of this 1 "?L + 1" x 24] that ds(2) by (simp add: shortstr_def)
  have ap: "apart ?d (?L + 1) src (?L + 1)" using src(2) sub by (auto simp: apart_def)
  note lay = strncpy_lays [OF src2 d0 src(1) ap L]
  have inL: "in_block ?d (?L + 1) (?d + of_nat ?L)" by (rule in_block_of_nat) (use L in simp_all)
  have nt: "\<not> in_block ?d 23 this" by (rule this_not_in_str)
  then have nt': "\<not> in_block ?d ?L this" using ds(2) by (auto simp: in_block_def)
  have "in_block ?d 23 (?d + of_nat ?L)" by (rule in_block_of_nat) (use ds(2) in simp_all)
  then have nt2: "this \<noteq> ?d + of_nat ?L" using nt by metis
  have t3: "?m3 this = ?m2 this" using lay(3) nt' by simp
  have t4: "?m4 this = ?m2 this" using t3 nt2 by simp
  have sl: "is_short ?m2 this" "shortlen ?m2 this = of_nat ?L"
    using shortlen_set_shortlen [of "of_nat ?L"] ds(2) lw(1) by (simp_all add: word_less_nat_alt)
  have c: "c_str ?m2 this = ?d" "c_str ?m3 this = ?d" "c_str ?m4 this = ?d" "is_short ?m4 this"
    "str_length ?m4 this = of_nat ?L"
    using sl short_cong [of ?m3 this ?m2, OF t3] short_cong [of ?m4 this ?m2, OF t4]
    by (simp_all add: c_str_def str_length_def)
  have e: "long_len ?m4 this = 0" if "ds = []"
  proof (rule blank_long_len)
    have "?m4 x = 0" if "in_block ?d 23 x" for x
      using lay(3) [of x] \<open>ds = []\<close> bl that m2 [of x] nt by (auto simp: blank_def in_block_def)
    then show "blank ?m4 this"
      using c(4) \<open>ds = []\<close> sl(2) short_cong(2) [of ?m4 this ?m2, OF t4] by (simp add: blank_def)
  qed
  have "holds (st1\<lparr>st_mem := ?m4\<rparr>) this ds"
    using lay(1) c ds(2) obj e by (simp add: holds_def Let_def)
  moreover have "\<forall>x. \<not> in_block this 24 x \<longrightarrow> ?m4 x = ?m1 x"
  proof (intro allI impI)
    fix x assume that: "\<not> in_block this 24 x"
    have "\<not> in_block ?d (?L + 1) x" using that sub by auto
    then have "\<not> in_block ?d ?L x" "x \<noteq> ?d + of_nat ?L" using inL by (auto simp: in_block_def)
    moreover have "x \<noteq> this" using that by (auto simp: in_block_def)
    ultimately show "?m4 x = ?m1 x" using lay(3) m2 by simp
  qed
  moreover have "st_mem (st1\<lparr>st_mem := m\<rparr>) = m" for m by simp
  ultimately show ?thesis unfolding Let_def c by (simp only: simp_thms)
qed


lemma copy_cstr_long:
  fixes ds :: "u8 list"
  defines "n \<equiv> of_nat (length ds) :: u64"
  assumes obj: "this \<noteq> 0" "unat this + 24 < 2 ^ 64" "(this, 24) \<in> set (st_live st1)"
    and ds: "cstring_at (st_mem st1) src ds" "23 \<le> length ds" "length ds < 2 ^ 62"
    and src: "source_in (st_live st1) this src (length ds + 1)"
    and place: "place_fresh place" "d = place (st_live st1) (n + 1)" "d \<noteq> 0"
  shows "let m2 = set_cstr (set_long_len (set_is_short (st_mem st1) this False) this n) this d (n + 1);
             m3 = rtk_strncpy m2 (c_str m2 this) src n;
             st' = st1\<lparr>st_live := (d, n + 1) # st_live st1, st_mem := m3(c_str m3 this + n := 0)\<rparr>
         in holds st' this ds \<and> (\<forall>x. \<not> in_block this 24 x \<longrightarrow> \<not> in_block d (length ds + 1) x
              \<longrightarrow> st_mem st' x = st_mem st1 x)"
proof -
  let ?L = "length ds" let ?m1 = "st_mem st1"
  let ?m2 = "set_cstr (set_long_len (set_is_short ?m1 this False) this n) this d (n + 1)"
  let ?m3 = "rtk_strncpy ?m2 d src n"
  let ?m4 = "?m3(d + n := 0)"
  note lw = len_words [OF ds(3), folded n_def]
  have fresh: "apart d (?L + 1) this 24" "apart d (?L + 1) src (?L + 1)"
  proof -
    have "apart d (unat (n + 1)) this (unat (24 :: u64))"
      using place obj(3) unfolding place_fresh_def by fast
    then show "apart d (?L + 1) this 24" using lw(2) by simp
    show "apart d (?L + 1) src (?L + 1)"
      using source_apart_fresh [OF src place(1), of "n + 1"] place(2,3) lw(2) by (simp only:) simp
  qed
  have src': "src \<noteq> 0" "apart src (?L + 1) this 24" using src by (simp_all add: source_in_def)
  have m2: "?m2 x = ?m1 x" if "\<not> in_block this 24 x" for x using setter_frame [OF that] by simp
  have src2: "cstring_at ?m2 src ds"
    using cstring_frame [OF ds(1)] m2 src'(2) ds(3) unfolding apart_def by simp
  have f2: "\<not> is_short ?m2 this" "long_len ?m2 this = n" "cstr_ptr ?m2 this = d" "read64 ?m2 (this + 16) = n + 1"
    using set_long_len_fields [OF lw(3)] by (simp_all add: read64_set_cstr)
  note lay = strncpy_lays [OF src2 place(3) src'(1) fresh(2) ds(3), folded n_def]
  have inL: "in_block d (?L + 1) (d + n)" unfolding n_def by (rule in_block_of_nat) (use ds(3) in simp_all)
  have m3: "?m3 x = ?m2 x" "?m4 x = ?m2 x" if "\<not> in_block d (?L + 1) x" for x
  proof -
    have "\<not> in_block d ?L x" "x \<noteq> d + n" using that inL by (auto simp: in_block_def)
    then show "?m3 x = ?m2 x" "?m4 x = ?m2 x" using lay(3) by simp_all
  qed
  have o: "\<not> in_block d (?L + 1) x" if "in_block this 24 x" for x using fresh(1) that by (auto simp: apart_def)
  note c3 = object_cong [of this ?m3 ?m2, OF m3(1) [OF o]]
  note c4 = object_cong [of this ?m4 ?m2, OF m3(2) [OF o]]
  have c: "c_str ?m2 this = d" "c_str ?m3 this = d" "c_str ?m4 this = d" "str_length ?m4 this = n"
    using c3 c4 f2 by (simp_all add: c_str_def str_length_def)
  have "holds (st1\<lparr>st_live := (d, n + 1) # st_live st1, st_mem := ?m4\<rparr>) this ds"
    using lay(1) c obj ds(2,3) fresh(1) place(3) c4 f2
    by (simp add: holds_def Let_def n_def add.commute)
  moreover have "\<forall>x. \<not> in_block this 24 x \<longrightarrow> \<not> in_block d (?L + 1) x \<longrightarrow> ?m4 x = ?m1 x"
    using m2 m3(2) by metis
  moreover have "st_mem (st1\<lparr>st_live := l, st_mem := m\<rparr>) = m" for l m by simp
  ultimately show ?thesis unfolding Let_def c by (simp only: simp_thms)
qed

text \<open>The live blocks and the memory after \<open>new char{}\<close>: one block more, apart from the others.\<close>

definition base_live :: "placement \<Rightarrow> (u64 \<times> u64) list \<Rightarrow> (u64 \<times> u64) list" where
  "base_live place live = (if place live 1 = 0 then live else (place live 1, 1) # live)"

definition base_char :: "placement \<Rightarrow> (u64 \<times> u64) list \<Rightarrow> u64 \<Rightarrow> bool" where
  "base_char place live x \<longleftrightarrow> place live 1 \<noteq> 0 \<and> x = place live 1"

lemma new_char_store:
  "st_live (snd (new_char place st)) = base_live place (st_live st)"
  "\<not> base_char place (st_live st) x \<Longrightarrow> st_mem (snd (new_char place st)) x = st_mem st x"
  by (auto simp: new_char_def new_chars_def base_live_def base_char_def Let_def)

lemma base_live_in: "b \<in> set live \<Longrightarrow> b \<in> set (base_live place live)"
  by (simp add: base_live_def)

lemma base_char_fresh:
  assumes "place_fresh place" "(b, k) \<in> set live" "in_block b (unat k) x"
  shows "\<not> base_char place live x"
proof
  assume x: "base_char place live x"
  then have "apart (place live 1) (unat (1 :: u64)) b (unat k)"
    using assms(1,2) unfolding place_fresh_def base_char_def by fast
  moreover have "in_block (place live 1) (unat (1 :: u64)) x" using x by (simp add: base_char_def in_block_def)
  ultimately show False using assms(3) by (auto simp: apart_def)
qed

lemma source_not_base:
  "place_fresh place \<Longrightarrow> source_in live this p n \<Longrightarrow> in_block p n x \<Longrightarrow> \<not> base_char place live x"
  using base_char_fresh unfolding source_in_def by blast

lemma source_in_base: "source_in live this p n \<Longrightarrow> source_in (base_live place live) this p n"
  using base_live_in unfolding source_in_def by blast

lemma copy_cstr_spec:
  assumes "holds st this cs" "cstring_at (st_mem st) src ds" "length ds < 2 ^ 62"
    and "source_in (other_blocks st this) this src (length ds + 1)" "place_fresh place"
    and d: "d = place (base_live place (other_blocks st this)) (of_nat (length ds) + 1)" "23 \<le> length ds \<Longrightarrow> d \<noteq> 0"
  shows "\<exists>st'. copy_cstr place st this src (of_nat (length ds)) = Some st' \<and> holds st' this ds
    \<and> (\<forall>x. \<not> in_block this 24 x
          \<longrightarrow> \<not> (23 \<le> length ds \<and> (in_block d (length ds + 1) x \<or> base_char place (other_blocks st this) x))
          \<longrightarrow> st_mem st' x = st_mem st x)
    \<and> st_live st' = (if 23 \<le> length ds then (d, of_nat (length ds) + 1) # base_live place (other_blocks st this)
        else other_blocks st this)"
proof -
  let ?L = "length ds"
  obtain st1 where r: "str_reset st this = Some st1" "blank (st_mem st1) this" "st_live st1 = other_blocks st this"
    "\<And>x. \<not> in_block this 24 x \<Longrightarrow> st_mem st1 x = st_mem st x"
    using holds_resets [OF assms(1)] by auto
  have obj: "this \<noteq> 0" "unat this + 24 < 2 ^ 64" "(this, 24) \<in> set (st_live st1)"
    using assms(1) object_stays_live [OF assms(1)] r(3) by (simp_all add: holds_def Let_def)
  have src: "src \<noteq> 0" "apart src (?L + 1) this 24" using assms(4) by (simp_all add: source_in_def)
  have ds: "cstring_at (st_mem st1) src ds"
    using cstring_frame [OF assms(2)] r(4) src(2) assms(3) unfolding apart_def by simp
  note lw = len_words [OF assms(3)]
  show ?thesis
  proof (cases "?L < 23")
    case True
    then have "\<not> kMaxShortLen \<le> of_nat ?L" using lw(4) by simp
    then show ?thesis
      using copy_cstr_short [OF r(2) obj ds True src] r(1,3,4) True
      by (auto simp: copy_cstr_def Let_def)
  next
    case False
    then have k: "kMaxShortLen \<le> of_nat ?L" "23 \<le> ?L" using lw(4) by simp_all
    obtain q st2 where q: "new_char place st1 = (q, st2)" by fastforce
    have st2: "st_live st2 = base_live place (other_blocks st this)"
      "\<And>x. \<not> base_char place (other_blocks st this) x \<Longrightarrow> st_mem st2 x = st_mem st1 x"
      using new_char_store [of place st1] q r(3) by simp_all
    have new: "new_chars place st2 (of_nat ?L + 1) = (d, st2\<lparr>st_live := (d, of_nat ?L + 1) # st_live st2\<rparr>)"
      using d k(2) st2(1) by (simp add: new_chars_def Let_def)
    have src2: "source_in (st_live st2) this src (?L + 1)" using source_in_base [OF assms(4)] st2(1) by simp
    have ds2: "cstring_at (st_mem st2) src ds"
      using cstring_frame [OF ds] st2(2) source_not_base [OF assms(5,4)] assms(3) by simp
    have obj2: "(this, 24) \<in> set (st_live st2)" using obj(3) r(3) st2(1) base_live_in by simp
    note long = copy_cstr_long [OF obj(1,2) obj2 ds2 k(2) assms(3) src2 assms(5), of d, unfolded Let_def]
    have "d = place (st_live st2) (of_nat ?L + 1)" using d(1) st2(1) by simp
    note long = long [OF this d(2) [OF k(2)]]
    show ?thesis
      using long r(1,4) st2 k d lw(5) new q by (auto simp: copy_cstr_def Let_def)
  qed
qed


subsection \<open>Concatenation\<close>

lemma block_add: "block m p (a + b) = block m p a @ block m (p + of_nat a) b"
  by (rule nth_equalityI) (auto simp: block_def nth_append add.assoc simp flip: of_nat_add)

lemma cstring_append:
  assumes "block m p (length cs) = cs" "0 \<notin> set cs" "cstring_at m (p + of_nat (length cs)) ds"
  shows "cstring_at m p (cs @ ds)"
  using assms by (simp add: cstring_at_def block_add add.assoc)

lemma blank_byte: "is_short m this \<Longrightarrow> shortlen m this = 0 \<Longrightarrow> m this = 1"
proof (rule bit_word_eqI)
  fix n assume a: "is_short m this" "shortlen m this = 0" "n < LENGTH(8)"
  have "\<not> bit (m this) n" if "0 < n"
  proof -
    have "bit (shortlen m this) (n - 1) = bit (m this) n"
      using that a(3) by (auto simp: shortlen_def bit_ucast_byte bit_drop_bit_eq)
    then show ?thesis using a(2) by simp
  qed
  then show "bit (m this) n = bit (1 :: u8) n" using a(1) by (cases "n = 0") (auto simp: is_short_def bit_1_iff)
qed

lemma this_in_object: "in_block this 24 this"
  by (simp add: in_block_def)

lemma holds_short:
  "holds st this cs \<Longrightarrow> length cs < 23 \<Longrightarrow> is_short (st_mem st) this"
  by (auto simp: holds_def Let_def split: if_splits)

lemma append_short:
  assumes h: "holds st this cs" and ds: "cstring_at (st_mem st) src ds" "length cs + length ds < 23"
    and src: "src \<noteq> 0" "apart src (length ds + 1) this 24"
  shows "let st' = str_append place st this \<lparr>sv_ptr = src, sv_len = of_nat (length ds)\<rparr> in
    holds st' this (cs @ ds) \<and> st_live st' = st_live st \<and> (\<forall>x. \<not> in_block this 24 x \<longrightarrow> st_mem st' x = st_mem st x)"
proof -
  let ?L = "length cs" let ?K = "length ds" let ?m = "st_mem st" let ?d = "shortstr this"
  let ?m1 = "rtk_strncpy ?m (?d + of_nat ?L) src (of_nat ?K + 1)"
  let ?n = "of_nat (?L + ?K) :: u64"
  let ?m2 = "set_shortlen (set_is_short ?m1 this True) this ?n"
  have short: "is_short ?m this" using holds_short [OF h] ds(2) by simp
  have hh: "cstring_at ?m ?d cs" "shortlen ?m this = of_nat ?L" "cs = [] \<longrightarrow> long_len ?m this = 0"
    "this \<noteq> 0" "unat this + 24 < 2 ^ 64" "(this, 24) \<in> set (st_live st)"
    using h short by (simp_all add: holds_def Let_def c_str_def str_length_def)
  have n: "unat ?n = ?L + ?K" using ds(2) by (intro unat_of_nat_small) simp
  have nb: "\<not> ?n > kMaxShortLen - 1" using n ds(2) by (simp add: kMaxShortLen_def word_less_nat_alt)
  have st': "str_append place st this \<lparr>sv_ptr = src, sv_len = of_nat ?K\<rparr> = st\<lparr>st_mem := ?m2\<rparr>"
    using nb short hh(2) by (simp add: str_append_def str_length_def Let_def)
  have sub: "in_block this 24 x" if "in_block (?d + of_nat ?L) (?K + 1) x" for x
    using in_block_sub [of this "1 + ?L" "?K + 1" x 24] that ds(2) by (simp add: shortstr_def add.assoc)
  have "unat (this + of_nat (1 + ?L)) = unat this + (1 + ?L)"
    using hh(5) ds(2) unat_of_nat_small [of "1 + ?L", where 'a = 64]
    by (subst unat_add_small) (simp_all del: of_nat_add of_nat_Suc)
  moreover have "?d + of_nat ?L = this + of_nat (1 + ?L)" by (simp add: shortstr_def add.assoc)
  ultimately have "unat (?d + of_nat ?L) = unat this + (1 + ?L)" by (simp only:)
  then have d0: "?d + of_nat ?L \<noteq> 0" by (cases "?d + of_nat ?L = 0") simp_all
  have ap: "apart (?d + of_nat ?L) (?K + 1) src (?K + 1)" using src(2) sub by (auto simp: apart_def)
  note lay = strncpy_lays [OF ds(1) d0 src(1) ap]
  have K: "?K < 2 ^ 62" using ds(2) by simp
  have out: "\<not> in_block (?d + of_nat ?L) (?K + 1) (?d + of_nat i)" if "i < ?L" for i
  proof -
    have "in_block (?d + of_nat i) 1 (?d + of_nat i)" by (simp add: in_block_def)
    have "unat (of_nat i - of_nat ?L :: u64) = 2 ^ 64 - (?L - i)"
      using that ds(2) by (simp add: unat_word_ariths unat_sub_if' unat_of_nat_small)
    then show ?thesis using that ds(2) by (simp add: in_block_def)
  qed
  have this_out: "\<not> in_block (?d + of_nat ?L) (?K + 1) this"
  proof -
    have "in_block ?d 23 x" if "in_block (?d + of_nat ?L) (?K + 1) x" for x
      using in_block_sub [of ?d ?L "?K + 1" x 23] that ds(2) by simp
    then show ?thesis using this_not_in_str by blast
  qed
  have m1: "?m1 x = ?m x" if "\<not> in_block (?d + of_nat ?L) (?K + 1) x" for x using lay(4) K that by simp
  have m2: "?m2 x = ?m1 x" if "x \<noteq> this" for x using that by (simp add: set_shortlen_def set_is_short_def)
  have sl: "is_short ?m2 this" "shortlen ?m2 this = ?n"
    using shortlen_set_shortlen [of ?n] n ds(2) by (simp_all add: word_less_nat_alt)
  have c: "c_str ?m2 this = ?d" "str_length ?m2 this = ?n" using sl by (simp_all add: c_str_def str_length_def)
  have cs: "cstring_at ?m1 ?d (cs @ ds)"
  proof (rule cstring_append)
    have "block ?m1 ?d ?L = block ?m ?d ?L" using m1 out by (intro block_cong) simp
    then show "block ?m1 ?d ?L = cs" using hh(1) by (simp add: cstring_at_def)
    show "0 \<notin> set cs" using hh(1) by (simp add: cstring_at_def)
    show "cstring_at ?m1 (?d + of_nat ?L) ds" by (rule lay(2) [OF K])
  qed
  have "cstring_at ?m2 ?d (cs @ ds)"
  proof (rule cstring_frame [OF cs])
    fix x assume "in_block ?d (length (cs @ ds) + 1) x"
    then have "in_block ?d 23 x" using ds(2) by (simp add: in_block_def)
    then have "x \<noteq> this" using this_not_in_str by blast
    then show "?m1 x = ?m2 x" using m2 by simp
  qed (use ds(2) in simp)
  moreover have "long_len ?m2 this = 0" if e: "cs @ ds = []"
  proof -
    have one: "?m this = 1" using blank_byte [OF short] hh(2) e by simp
    have "?m1 this = ?m this" using m1 this_out by simp
    then have "?m2 this = ?m this" using one e by (simp add: set_shortlen_def set_is_short_def)
    moreover have "?m1 x = ?m x" for x
    proof (cases "in_block (?d + of_nat ?L) (?K + 1) x")
      case True
      then have "x = ?d" using e by (simp add: in_block_def unat_eq_zero)
      then show ?thesis using cs hh(1) e by simp
    qed (use m1 in simp)
    ultimately have "?m2 x = ?m x" for x using m2 by (cases "x = this") simp_all
    then show ?thesis using object_cong(3) [of this ?m2 ?m] hh(3) e by simp
  qed
  ultimately have "holds (st\<lparr>st_mem := ?m2\<rparr>) this (cs @ ds)"
    using c sl ds(2) hh(4-6) by (simp add: holds_def Let_def)
  moreover have "?m2 x = ?m x" if "\<not> in_block this 24 x" for x
  proof -
    have "x \<noteq> this" using that this_in_object [of this] by metis
    moreover have "\<not> in_block (?d + of_nat ?L) (?K + 1) x" using that sub by metis
    ultimately show ?thesis using m1 m2 by simp
  qed
  ultimately show ?thesis unfolding st' Let_def by simp
qed


lemma holds_source:
  assumes "holds st this cs"
  shows "c_str (st_mem st) this \<noteq> 0" "\<exists>(b, k) \<in> set (st_live st).
      \<forall>x. in_block (c_str (st_mem st) this) (length cs + 1) x \<longrightarrow> in_block b (unat k) x"
proof -
  let ?m = "st_mem st"
  have "c_str ?m this \<noteq> 0 \<and> (\<exists>(b, k) \<in> set (st_live st).
      \<forall>x. in_block (c_str ?m this) (length cs + 1) x \<longrightarrow> in_block b (unat k) x)"
  proof (cases "is_short ?m this")
    case True
    then have o: "(this, 24) \<in> set (st_live st)" "length cs < 23" "unat this + 24 < 2 ^ 64"
      using assms by (simp_all add: holds_def Let_def)
    have "\<forall>x. in_block (shortstr this) (length cs + 1) x \<longrightarrow> in_block this (unat (24 :: u64)) x"
      using in_block_sub [of this 1 "length cs + 1" _ 24] o(2) by (simp add: shortstr_def)
    then show ?thesis using True o(1) shortstr_ne0 [OF o(3)] by (auto simp: c_str_def intro!: bexI [of _ "(this, 24)"])
  next
    case False
    let ?k = "of_nat (length cs + 1) :: u64"
    have o: "(cstr_ptr ?m this, ?k) \<in> set (st_live st)" "cstr_ptr ?m this \<noteq> 0" "length cs < 2 ^ 62"
      using assms False by (simp_all add: holds_def Let_def)
    have "unat ?k = length cs + 1" using o(3) by (intro unat_of_nat_small) simp
    then show ?thesis using False o by (auto simp: c_str_def simp del: of_nat_add intro!: bexI [of _ "(cstr_ptr ?m this, ?k)"])
  qed
  then show "c_str ?m this \<noteq> 0" "\<exists>(b, k) \<in> set (st_live st).
      \<forall>x. in_block (c_str ?m this) (length cs + 1) x \<longrightarrow> in_block b (unat k) x" by simp_all
qed

lemma append_long:
  fixes cs ds :: "u8 list"
  defines "n \<equiv> of_nat (length cs + length ds) :: u64"
  assumes h: "holds st this cs" and ds: "cstring_at (st_mem st) src ds" "23 \<le> length cs + length ds"
    "length cs + length ds < 2 ^ 62"
    and src: "source_in (st_live st) this src (length ds + 1)"
    and place: "place_fresh place" "d = place (st_live st) (n + 1)" "d \<noteq> 0"
  shows "let st' = str_append place st this \<lparr>sv_ptr = src, sv_len = of_nat (length ds)\<rparr> in
    holds st' this (cs @ ds) \<and> st_live st' = (d, n + 1) # st_live st \<and> cstr_ptr (st_mem st') this = d
    \<and> (\<forall>x. \<not> in_block this 24 x \<longrightarrow> \<not> in_block d (length cs + length ds + 1) x \<longrightarrow> st_mem st' x = st_mem st x)"
proof -
  let ?L = "length cs" let ?K = "length ds" let ?N = "?L + ?K + 1" let ?m = "st_mem st"
  let ?s = "c_str ?m this"
  let ?m1 = "rtk_strncpy ?m d ?s (of_nat ?L)"
  let ?m2 = "rtk_strncpy ?m1 (d + of_nat ?L) src (of_nat ?K + 1)"
  let ?m3 = "set_cstr (if is_short ?m2 this then set_cstr ?m2 this 0 0 else ?m2) this d (n + 1)"
  let ?m4 = "set_long_len (set_is_short ?m3 this False) this n"
  note lw = len_words [OF ds(3), folded n_def]
  have hh: "cstring_at ?m ?s cs" "str_length ?m this = of_nat ?L"
    "this \<noteq> 0" "unat this + 24 < 2 ^ 64" "(this, 24) \<in> set (st_live st)"
    using h by (simp_all add: holds_def Let_def)
  have lim: "?L < 2 ^ 62" "?K < 2 ^ 62" using ds(3) by simp_all
  have nn: "of_nat ?L + of_nat ?K = n" by (simp add: n_def)
  have fresh: "apart d ?N this 24" "apart d ?N src (?K + 1)" "apart d ?N ?s (?L + 1)" "unat d + ?N < 2 ^ 64"
  proof -
    have pf: "unat d + unat (n + 1) < 2 ^ 64" "\<And>b k. (b, k) \<in> set (st_live st) \<Longrightarrow> apart d (unat (n + 1)) b (unat k)"
      using place unfolding place_fresh_def by fast+
    show "apart d ?N this 24" using pf(2) [OF hh(5)] lw(2) by simp
    show "unat d + ?N < 2 ^ 64" using pf(1) lw(2) by simp
    show "apart d ?N src (?K + 1)"
      using pf(2) src lw(2) unfolding source_in_def apart_def by fastforce
    show "apart d ?N ?s (?L + 1)"
      using pf(2) holds_source(2) [OF h] lw(2) unfolding apart_def by fastforce
  qed
  have st': "str_append place st this \<lparr>sv_ptr = src, sv_len = of_nat ?K\<rparr>
      = st\<lparr>st_live := (d, n + 1) # st_live st, st_mem := ?m4\<rparr>"
  proof -
    have "kMaxShortLen - 1 < n" using lw(1) ds(2) by (simp add: kMaxShortLen_def word_less_nat_alt)
    moreover have "new_chars place st (n + 1) = (d, st\<lparr>st_live := (d, n + 1) # st_live st\<rparr>)"
      using place(2,3) by (simp add: new_chars_def Let_def)
    ultimately show ?thesis using place(3) by (simp add: str_append_def hh(2) nn Let_def)
  qed
  have ap1: "apart d (?L + 1) ?s (?L + 1)" using fresh(3) by (rule apart_mono) simp_all
  note lay1 = strncpy_lays [OF hh(1) place(3) holds_source(1) [OF h] ap1 lim(1)]
  have sub: "in_block d ?N x" if "in_block (d + of_nat ?L) (?K + 1) x" for x
    using in_block_sub [of d ?L "?K + 1" x ?N] that ds(3) by simp
  have subL: "in_block d ?N x" if "in_block d ?L x" for x using that by (simp add: in_block_def)
  have m1: "?m1 x = ?m x" if "\<not> in_block d ?N x" for x using lay1(3) subL that by blast
  have src1: "cstring_at ?m1 src ds"
  proof (rule cstring_frame [OF ds(1)])
    fix x assume "in_block src (?K + 1) x"
    then have "\<not> in_block d ?N x" using fresh(2) unfolding apart_def by blast
    then show "?m x = ?m1 x" using m1 by simp
  qed (use lim in simp)
  have "unat (d + of_nat ?L) = unat d + ?L"
    using fresh(4) len_words(1) [OF lim(1)] by (subst unat_add_small) simp_all
  then have d1: "d + of_nat ?L \<noteq> 0" using place(3) by (auto simp: unat_eq_zero)
  have ap2: "apart (d + of_nat ?L) (?K + 1) src (?K + 1)" using fresh(2) sub unfolding apart_def by blast
  have src0: "src \<noteq> 0" using src by (simp add: source_in_def)
  note lay2 = strncpy_lays [OF src1 d1 src0 ap2 lim(2)]
  have m2: "?m2 x = ?m x" if "\<not> in_block d ?N x" for x using lay2(4) sub m1 that by metis
  have out: "\<not> in_block (d + of_nat ?L) (?K + 1) (d + of_nat i)" if "i < ?L" for i
  proof -
    have "unat (of_nat i - of_nat ?L :: u64) = 2 ^ 64 - (?L - i)"
      using that lim by (simp add: unat_word_ariths unat_sub_if' unat_of_nat_small)
    then show ?thesis using that ds(3) by (simp add: in_block_def)
  qed
  have cs2: "cstring_at ?m2 d (cs @ ds)"
  proof (rule cstring_append)
    have "block ?m2 d ?L = block ?m1 d ?L" using lay2(4) out by (intro block_cong) simp
    then show "block ?m2 d ?L = cs" using lay1(5) by simp
    show "0 \<notin> set cs" using hh(1) by (simp add: cstring_at_def)
    show "cstring_at ?m2 (d + of_nat ?L) ds" by (rule lay2(2))
  qed
  have m4: "?m4 x = ?m2 x" if "\<not> in_block this 24 x" for x using setter_frame [OF that] by simp
  have cs4: "cstring_at ?m4 d (cs @ ds)"
  proof (rule cstring_frame [OF cs2])
    fix x assume "in_block d (length (cs @ ds) + 1) x"
    then show "?m2 x = ?m4 x" using m4 fresh(1) unfolding apart_def by simp
  qed (use ds(3) in simp)
  have f4: "\<not> is_short ?m4 this" "long_len ?m4 this = n" "cstr_ptr ?m4 this = d" "read64 ?m4 (this + 16) = n + 1"
    using set_long_len_fields [OF lw(3)]
    by (simp_all add: cstr_ptr_def set_long_len_read64 set_is_short_read64 read64_set_cstr
        read64_set_cstr(1) [unfolded cstr_ptr_def])
  have c4: "c_str ?m4 this = d" "str_length ?m4 this = n" using f4 by (simp_all add: c_str_def str_length_def)
  have "holds (st\<lparr>st_live := (d, n + 1) # st_live st, st_mem := ?m4\<rparr>) this (cs @ ds)"
    using cs4 c4 f4 ds(2,3) hh(3-5) fresh(1) place(3) by (simp add: holds_def Let_def n_def add.commute)
  moreover have "\<forall>x. \<not> in_block this 24 x \<longrightarrow> \<not> in_block d ?N x \<longrightarrow> ?m4 x = ?m x" using m4 m2 by simp
  ultimately show ?thesis unfolding st' Let_def using f4(3) by simp
qed

lemma long_len_low: "long_len m this = 0 \<Longrightarrow> shortlen m this = 0"
proof -
  assume l: "long_len m this = 0"
  have "\<not> bit (shortlen m this) i" for i
  proof
    assume "bit (shortlen m this) i"
    then have b: "i < 8" "bit (m this) (i + 1)"
      by (simp_all add: shortlen_def bit_ucast_byte bit_drop_bit_eq)
    then have i: "i + 1 < 8" using bit_imp_le_length [OF b(2)] by simp
    have "bit (read64 m this) (i + 1)" using bit_read64 [of "i + 1" m this] b(2) i by simp
    then have "bit (long_len m this) i" by (simp add: long_len_def bit_drop_bit_eq)
    then show False using l by simp
  qed
  then show ?thesis by (intro bit_word_eqI) simp
qed

lemma holds_empty: "holds st this cs \<Longrightarrow> str_empty (st_mem st) this \<longleftrightarrow> cs = []"
proof -
  assume h: "holds st this cs"
  then have l: "length cs < 2 ^ 62" by (simp add: holds_def Let_def)
  have z: "(of_nat (length cs) :: u64) = 0 \<longleftrightarrow> cs = []"
  proof
    assume "(of_nat (length cs) :: u64) = 0"
    then have "length cs = 0" using len_words(1) [OF l] by simp
    then show "cs = []" by simp
  qed simp
  show ?thesis
  proof (cases "is_short (st_mem st) this")
    case True
    then show ?thesis using h z long_len_low [of "st_mem st" this]
      by (auto simp: holds_def Let_def str_length_def str_empty_def)
  next
    case False
    then show ?thesis using h z by (simp add: holds_def Let_def str_length_def str_empty_def)
  qed
qed

text \<open>Two strings that share nothing.\<close>

definition separate :: "store \<Rightarrow> u64 \<Rightarrow> u64 \<Rightarrow> bool" where
  "separate st this other \<longleftrightarrow>
     (let m = st_mem st in
      apart this 24 other 24 \<and> (\<not> is_short m this \<longrightarrow> cstr_ptr m this \<noteq> other)
      \<and> (\<not> is_short m other \<longrightarrow> apart (cstr_ptr m other) (unat (long_len m other) + 1) this 24
          \<and> (\<not> is_short m this \<longrightarrow> cstr_ptr m this \<noteq> cstr_ptr m other)))"

lemma separate_source:
  assumes this: "holds st this cs" and h: "holds st other ds" and sep: "separate st this other"
  shows "source_in (other_blocks st this) this (c_str (st_mem st) other) (length ds + 1)"
proof -
  let ?m = "st_mem st" let ?s = "c_str ?m other"
  have l: "length ds < 2 ^ 62" using h by (simp add: holds_def Let_def)
  have s0: "?s \<noteq> 0" using holds_source(1) [OF h] .
  show ?thesis
  proof (cases "is_short ?m other")
    case True
    have sub: "in_block other 24 x" if "in_block ?s (length ds + 1) x" for x
      using in_block_sub [of other 1 "length ds + 1" x 24] that True h
      by (simp add: c_str_def shortstr_def holds_def Let_def)
    have "(other, 24) \<in> set (other_blocks st this)"
      using sep h by (auto simp: separate_def other_blocks_def holds_def Let_def)
    moreover have "apart ?s (length ds + 1) this 24" using sep sub by (auto simp: separate_def Let_def apart_def)
    ultimately show ?thesis using s0 sub unfolding source_in_def by (auto intro!: bexI [of _ "(other, 24)"])
  next
    case False
    let ?k = "of_nat (length ds) + 1 :: u64"
    have "(?s, ?k) \<in> set (other_blocks st this)"
      using sep h False by (auto simp: separate_def other_blocks_def holds_def Let_def c_str_def add.commute)
    moreover have "apart ?s (length ds + 1) this 24"
      using False h by (simp add: c_str_def) (use sep False h len_words(1) [OF l] in
        \<open>simp add: separate_def Let_def holds_def str_length_def\<close>)
    ultimately show ?thesis
      using s0 len_words(2) [OF l] unfolding source_in_def by (auto intro!: bexI [of _ "(?s, ?k)"])
  qed
qed

lemma assign_copy_spec:
  assumes h: "holds st this cs" and o: "holds st other ds" and sep: "separate st this other"
    and place: "place_fresh place"
      "23 \<le> length ds \<Longrightarrow> place (base_live place (other_blocks st this)) (of_nat (length ds) + 1) \<noteq> 0"
  shows "\<exists>st'. str_assign_copy place st this other = Some st' \<and> holds st' this ds \<and> holds st' other ds"
proof -
  let ?m = "st_mem st" let ?blocks = "other_blocks st this"
  let ?d = "place (base_live place ?blocks) (of_nat (length ds) + 1)"
  let ?new = "\<lambda>x. 23 \<le> length ds \<and> (in_block ?d (length ds + 1) x \<or> base_char place ?blocks x)"
  have ne: "this \<noteq> other" using sep this_in_object [of this] by (auto simp: separate_def Let_def apart_def)
  have oo: "cstring_at ?m (c_str ?m other) ds" "str_length ?m other = of_nat (length ds)" "length ds < 2 ^ 62"
    "(other, 24) \<in> set (other_blocks st this)"
    using o sep by (auto simp: holds_def Let_def separate_def other_blocks_def)
  obtain st' where r: "copy_cstr place st this (c_str ?m other) (of_nat (length ds)) = Some st'" "holds st' this ds"
    "\<And>x. \<not> in_block this 24 x \<Longrightarrow> \<not> ?new x \<Longrightarrow> st_mem st' x = ?m x"
    "st_live st' = (if 23 \<le> length ds then (?d, of_nat (length ds) + 1) # base_live place ?blocks else ?blocks)"
    using copy_cstr_spec [OF h oo(1,3) separate_source [OF h o sep] place(1) refl place(2)] by auto
  have src: "apart (c_str ?m other) (length ds + 1) this 24"
    using separate_source [OF h o sep] by (simp add: source_in_def)
  note lw = len_words [OF oo(3)]
  have live: "b \<in> set (st_live st')" if "b \<in> set ?blocks" for b using that r(4) base_live_in by simp
  have fresh: "\<not> ?new x" if "(b, k) \<in> set ?blocks" "in_block b (unat k) x" for b k x
  proof (cases "23 \<le> length ds")
    case True
    have "apart ?d (unat (of_nat (length ds) + 1 :: u64)) b (unat k)"
      using place(1) place(2) [OF True] base_live_in [OF that(1)] unfolding place_fresh_def by fast
    then show ?thesis using that lw(2) base_char_fresh [OF place(1) that] by (auto simp: apart_def)
  qed simp
  have keep: "st_mem st' x = ?m x" if "in_block other 24 x" for x
  proof (rule r(3))
    show "\<not> in_block this 24 x" using sep that by (auto simp: separate_def Let_def apart_def)
    show "\<not> ?new x" using fresh [OF oo(4)] that by simp
  qed
  have keep2: "st_mem st' x = ?m x" if "in_block (c_str ?m other) (length ds + 1) x" for x
  proof (rule r(3))
    show "\<not> in_block this 24 x" using src that by (auto simp: apart_def)
    show "\<not> ?new x" using separate_source [OF h o sep] fresh that unfolding source_in_def by blast
  qed
  note c = object_cong [of other "st_mem st'" ?m, OF keep]
  have "cstring_at (st_mem st') (c_str ?m other) ds"
    using oo(3) keep2 by (intro cstring_frame [OF oo(1)]) simp_all
  moreover have "(cstr_ptr ?m other, of_nat (length ds) + 1) \<in> set (st_live st')" if "\<not> is_short ?m other"
    using that o sep by (intro live) (auto simp: separate_def other_blocks_def holds_def Let_def add.commute)
  ultimately have "holds st' other ds"
    using o c live [OF oo(4)] by (cases "is_short ?m other") (simp_all add: holds_def Let_def add.commute)
  moreover have "str_assign_copy place st this other = Some st'" using ne oo(2) r(1) by (simp add: str_assign_copy_def)
  ultimately show ?thesis using r(2) by blast
qed

subsection \<open>Where the source overlaps\<close>

text \<open>Copying from \<open>s\<close> to \<open>s + L\<close> after \<open>L\<close> characters meets no NUL: the copy runs ahead of it.\<close>

lemma overlapping_copy:
  assumes "unat i + k = unat n" "unat n + 1 < 2 ^ 64" "0 < L" "L + k < 2 ^ 63"
    and "\<And>j. j < L \<Longrightarrow> m (s + of_nat j) \<noteq> 0" "d = s + of_nat L"
  shows "\<exists>m' d'. strncpy_copy m d s n i = (m', d', n + 1) \<and> (\<forall>j<k. m' (d + of_nat j) \<noteq> 0)
    \<and> (\<forall>x. \<not> in_block d k x \<longrightarrow> m' x = m x)"
  using assms
proof (induction k arbitrary: m d s i)
  case 0
  then have "i = n" by (simp add: word_unat_eq_iff)
  then show ?case using 0(5) [of 0] 0(3) by (simp add: strncpy_copy.simps [of m d s n n])
next
  case (Suc k)
  let ?m = "m(d := m s)"
  have lt: "i < n" using Suc.prems(1) by (simp add: word_less_nat_alt)
  have i: "unat (i + 1) = unat i + 1" using Suc.prems(1,2) by (intro unat_Suc) linarith
  have s0: "m s \<noteq> 0" using Suc.prems(5) [of 0] Suc.prems(3) by simp
  have nz: "?m (s + 1 + of_nat j) \<noteq> 0" if "j < L" for j
  proof (cases "s + 1 + of_nat j = d")
    case False
    then have "Suc j \<noteq> L" using Suc.prems(6) by (auto simp: add.assoc)
    then have "m (s + of_nat (Suc j)) \<noteq> 0" using that by (intro Suc.prems(5)) simp
    then show ?thesis using False by (simp add: add.assoc)
  qed (use s0 in simp)
  have p1: "unat (i + 1) + k = unat n" using i Suc.prems(1) by linarith
  have p4: "L + k < 2 ^ 63" using Suc.prems(4) by linarith
  have e: "d + 1 = s + 1 + of_nat L" using Suc.prems(6) by simp
  obtain m' d' where r: "strncpy_copy ?m (d + 1) (s + 1) n (i + 1) = (m', d', n + 1)"
    "\<And>j. j < k \<Longrightarrow> m' (d + 1 + of_nat j) \<noteq> 0" "\<And>x. \<not> in_block (d + 1) k x \<Longrightarrow> m' x = ?m x"
    using Suc.IH [of "i + 1" ?m "s + 1" "d + 1", OF p1 Suc.prems(2,3) p4 nz e] by blast
  have step: "strncpy_copy m d s n i = (m', d', n + 1)"
    using s0 lt r(1) by (simp only: strncpy_copy.simps [of m d s n i]) simp
  have b: "in_block d (Suc k) x \<longleftrightarrow> x = d \<or> in_block (d + 1) k x" for x
    using Suc.prems(4) by (intro in_block_Suc) simp
  have dn: "\<not> in_block (d + 1) k d"
    using Suc.prems(4) by (simp add: in_block_def unsigned_minus_1_eq_mask mask_eq_exp_minus_1)
  have "m' (d + of_nat j) \<noteq> 0" if "j < Suc k" for j
  proof (cases j)
    case 0
    then show ?thesis using r(3) [OF dn] s0 by simp
  next
    case (Suc j')
    then show ?thesis using r(2) [of j'] that by (simp add: add.assoc)
  qed
  moreover have "m' x = m x" if "\<not> in_block d (Suc k) x" for x using r(3) [of x] that b by simp
  ultimately show ?case using step by blast
qed

lemma append_self_spec:
  assumes h: "holds st this cs" and c: "cs \<noteq> []" "2 * length cs < 23"
  shows "let st' = str_append place st this (str_view (st_mem st) this) in
    is_short (st_mem st') this \<and> str_length (st_mem st') this = of_nat (2 * length cs)
    \<and> st_mem st' (c_str (st_mem st') this + of_nat (2 * length cs)) \<noteq> 0"
proof -
  let ?L = "length cs" let ?m = "st_mem st" let ?d = "shortstr this" let ?n = "of_nat ?L + 1 :: u64"
  let ?m1 = "rtk_strncpy ?m (?d + of_nat ?L) ?d ?n"
  let ?m2 = "set_shortlen (set_is_short ?m1 this True) this (of_nat ?L + of_nat ?L)"
  have L12: "?L < 12" using c(2) by linarith
  have "0 < ?L" using c(1) by simp
  note L = this L12
  have l62: "?L < 2 ^ 62" using L by simp
  have short: "is_short ?m this" using holds_short [OF h] L by simp
  have hh: "cstring_at ?m ?d cs" "shortlen ?m this = of_nat ?L" "unat this + 24 < 2 ^ 64"
    using h short by (simp_all add: holds_def Let_def c_str_def str_length_def)
  have nn: "of_nat ?L + of_nat ?L = (of_nat (2 * ?L) :: u64)" by simp
  have u: "unat (of_nat (2 * ?L) :: u64) = 2 * ?L" using L(2) by (intro unat_of_nat_small) simp
  have nb: "\<not> of_nat ?L + of_nat ?L > kMaxShortLen - 1"
    unfolding nn using u c by (simp add: kMaxShortLen_def word_less_nat_alt)
  have st': "str_append place st this (str_view ?m this) = st\<lparr>st_mem := ?m2\<rparr>"
    using nb short hh(2) by (simp add: str_append_def str_view_def str_length_def c_str_def Let_def)
  have nz: "?m (?d + of_nat j) \<noteq> 0" if "j < ?L" for j
    using cstring_nth [OF hh(1) that] hh(1) nth_mem [OF that] by (auto simp: cstring_at_def)
  obtain m' d' where r: "strncpy_copy ?m (?d + of_nat ?L) ?d ?n 0 = (m', d', ?n + 1)"
    "\<And>j. j < ?L + 1 \<Longrightarrow> m' (?d + of_nat ?L + of_nat j) \<noteq> 0"
    "\<And>x. \<not> in_block (?d + of_nat ?L) (?L + 1) x \<Longrightarrow> m' x = ?m x"
    using overlapping_copy [of 0 "?L + 1" ?n ?L ?m ?d "?d + of_nat ?L"] L len_words(2) [OF l62] nz by auto
  have "unat (?n + 1) = ?L + 2" using L len_words(2) [OF l62] by (subst unat_Suc) simp_all
  then have "\<not> ?n + 1 < ?n" using len_words(2) [OF l62] by (simp add: word_less_nat_alt)
  then have f: "strncpy_fill m' d' ?n (?n + 1) = m'" by (simp add: strncpy_fill.simps [of m' d' ?n])
  have in23: "in_block ?d 23 x" if "in_block (?d + of_nat ?L) (?L + 1) x" for x
    using in_block_sub [of ?d ?L "?L + 1" x 23] that L by simp
  have in1: "in_block (?d + of_nat ?L) (?L + 1) (?d + of_nat ?L + of_nat ?L)"
    by (rule in_block_of_nat) (use L in simp_all)
  have ne: "?d + of_nat ?L \<noteq> 0 \<and> ?d + of_nat ?L \<noteq> ?d"
  proof -
    have "unat ?d = unat this + 1" unfolding shortstr_def using hh(3) by (intro unat_Suc) simp
    then have "unat (?d + of_nat ?L) = unat this + 1 + ?L"
      using hh(3) L len_words(1) [OF l62] by (subst unat_add_small) simp_all
    moreover have "(of_nat ?L :: u64) \<noteq> 0" using len_words(1) [OF l62] L by auto
    ultimately show ?thesis by (cases "?d + of_nat ?L = 0") simp_all
  qed
  have m1: "?m1 = m'" using ne r(1) f shortstr_ne0 [OF hh(3)] by (simp add: rtk_strncpy_def)
  have sl: "is_short ?m2 this" "shortlen ?m2 this = of_nat (2 * ?L)"
    using shortlen_set_shortlen [of "of_nat (2 * ?L)"] u L by (simp_all add: nn word_less_nat_alt)
  have "?d + of_nat ?L + of_nat ?L \<noteq> this" using in23 [OF in1] this_not_in_str by metis
  then have "?m2 (?d + of_nat ?L + of_nat ?L) = m' (?d + of_nat ?L + of_nat ?L)"
    by (simp add: m1 set_shortlen_def set_is_short_def)
  then have "?m2 (?d + of_nat (2 * ?L)) \<noteq> 0" using r(2) [of ?L] nn by (simp only: add.assoc) simp
  then show ?thesis unfolding st' Let_def using sl by (simp add: c_str_def str_length_def)
qed

lemma copy_without_memory:
  assumes h: "holds st this cs" and ds: "cstring_at (st_mem st) src ds" "23 \<le> length ds" "length ds < 2 ^ 62"
    and src: "src \<noteq> 0" "apart src (length ds + 1) this 24" "apart (shortstr this) (length ds + 1) src (length ds + 1)"
    and room: "unat this + length ds + 2 < 2 ^ 64"
    and none: "place (other_blocks st this) 1 = 0" "place (other_blocks st this) (of_nat (length ds) + 1) = 0"
  shows "\<exists>st'. copy_cstr place st this src (of_nat (length ds)) = Some st' \<and> is_short (st_mem st') this
    \<and> str_length (st_mem st') this = 0 \<and> cstring_at (st_mem st') (this + 1) ds"
proof -
  let ?L = "length ds" let ?d = "shortstr this"
  obtain st1 where r: "str_reset st this = Some st1" "blank (st_mem st1) this" "st_live st1 = other_blocks st this"
    "\<And>x. \<not> in_block this 24 x \<Longrightarrow> st_mem st1 x = st_mem st x"
    using holds_resets [OF h] by auto
  let ?m3 = "rtk_strncpy (st_mem st1) ?d src (of_nat ?L)"
  have ds1: "cstring_at (st_mem st1) src ds"
    using cstring_frame [OF ds(1)] r(4) src(2) ds(3) unfolding apart_def by simp
  have obj: "unat this + 24 < 2 ^ 64" using h by (simp add: holds_def Let_def)
  note lay = strncpy_lays [OF ds1 shortstr_ne0 [OF obj] src(1,3) ds(3)]
  have k: "kMaxShortLen \<le> of_nat ?L" using len_words(4) [OF ds(3)] ds(2) by simp
  have "unat (- 1 :: u64) = 2 ^ 64 - 1" by (simp add: unsigned_minus_1_eq_mask mask_eq_exp_minus_1)
  then have out: "\<not> in_block ?d (?L + 1) this" using ds(3) by (simp add: in_block_def shortstr_def)
  then have out': "\<not> in_block ?d ?L this" by (simp add: in_block_def)
  have "in_block ?d (?L + 1) (?d + of_nat ?L)" by (rule in_block_of_nat) (use ds(3) in simp_all)
  then have ne: "this \<noteq> ?d + of_nat ?L" using out by metis
  have t3: "?m3 this = st_mem st1 this" using lay(3) out' by simp
  have b: "is_short (st_mem st1) this" "shortlen (st_mem st1) this = 0" using r(2) by (simp_all add: blank_def)
  then have c: "c_str (st_mem st1) this = ?d" "c_str ?m3 this = ?d" "is_short ?m3 this"
    using short_cong(1) [of ?m3 this "st_mem st1", OF t3] by (simp_all add: c_str_def)
  let ?m4 = "?m3(?d + of_nat ?L := 0)"
  have "?m4 this = st_mem st1 this" using t3 ne by simp
  note s4 = short_cong [of ?m4 this "st_mem st1", OF this]
  have "copy_cstr place st this src (of_nat ?L) = Some (st1\<lparr>st_mem := ?m4\<rparr>)"
    using r(1,3) k none c len_words(5) [OF ds(3)] by (simp add: copy_cstr_def new_char_def new_chars_def Let_def)
  moreover have "is_short ?m4 this" "str_length ?m4 this = 0" using s4 b by (simp_all add: str_length_def)
  moreover have "cstring_at ?m4 (this + 1) ds" using lay(1) by (simp add: shortstr_def)
  moreover have "st_mem (st1\<lparr>st_mem := m\<rparr>) = m" for m by simp
  ultimately show ?thesis by (intro exI [of _ "st1\<lparr>st_mem := ?m4\<rparr>"]) (simp only: simp_thms)
qed

lemma append_leaks:
  assumes h: "holds st this cs" and ds: "cstring_at (st_mem st) src ds" "length cs + length ds < 2 ^ 62"
    and long: "\<not> is_short (st_mem st) this" and src: "source_in (st_live st) this src (length ds + 1)"
    and place: "place_fresh place" "place (st_live st) (of_nat (length cs + length ds) + 1) \<noteq> 0"
  shows "\<exists>st'. str_destruct (str_append place st this \<lparr>sv_ptr = src, sv_len = of_nat (length ds)\<rparr>) this = Some st'
    \<and> (cstr_ptr (st_mem st) this, of_nat (length cs) + 1) \<in> set (st_live st')"
proof -
  let ?d = "place (st_live st) (of_nat (length cs + length ds) + 1)" let ?p = "cstr_ptr (st_mem st) this"
  let ?st = "str_append place st this \<lparr>sv_ptr = src, sv_len = of_nat (length ds)\<rparr>"
  have hh: "23 \<le> length cs" "(?p, of_nat (length cs) + 1) \<in> set (st_live st)"
    using h long by (auto simp: holds_def Let_def add.commute)
  have a: "holds ?st this (cs @ ds)" "st_live ?st = (?d, of_nat (length cs + length ds) + 1) # st_live st"
    "cstr_ptr (st_mem ?st) this = ?d"
    using append_long [OF h ds(1) _ ds(2) src place(1) refl place(2)] hh(1) by (simp_all add: Let_def)
  have notshort: "\<not> is_short (st_mem ?st) this" using a(1) hh(1) by (auto simp: holds_def Let_def split: if_splits)
  obtain st' where r: "str_reset ?st this = Some st'" "st_live st' = other_blocks ?st this"
    using holds_resets [OF a(1)] by auto
  have "apart ?d (unat (of_nat (length cs + length ds) + 1 :: u64)) ?p (unat (of_nat (length cs) + 1 :: u64))"
    using place hh(2) unfolding place_fresh_def by fast
  then have "apart ?d (length cs + length ds + 1) ?p (length cs + 1)"
    using len_words(2) [OF ds(2)] len_words(2) [of "length cs"] ds(2) by simp
  then have "?p \<noteq> ?d" by (auto simp: apart_def in_block_def dest: spec [of _ ?d])
  then show ?thesis using r hh(2) notshort a(2,3) by (auto simp: str_destruct_def other_blocks_def)
qed

subsection \<open>Properties\<close>

lemma in_block_range: "unat p + n \<le> 2 ^ 64 \<Longrightarrow> in_block p n x \<longleftrightarrow> unat p \<le> unat x \<and> unat x < unat p + n"
proof -
  assume n: "unat p + n \<le> 2 ^ 64"
  show ?thesis
  proof (cases "p \<le> x")
    case True
    then show ?thesis by (simp add: in_block_def unat_sub_small word_le_nat_alt, linarith)
  next
    case False
    then have lt: "unat x < unat p" by (simp add: word_le_nat_alt)
    then have "unat (x - p) = 2 ^ 64 + unat x - unat p"
      using unsigned_less [where 'a = nat, of p] by (simp add: unat_sub_if')
    then show ?thesis using lt n by (simp add: in_block_def)
  qed
qed

lemma apart_ranges:
  assumes "unat p + n \<le> unat q \<or> unat q + k \<le> unat p" "unat p + n \<le> 2 ^ 64" "unat q + k \<le> 2 ^ 64"
  shows "apart p n q k"
  using assms unfolding apart_def by (auto simp: in_block_range)

lemma no_memory_fresh: "place_fresh (\<lambda>live n. 0)"
  by (simp add: place_fresh_def)

text \<open>C32: writing a C string to a string stream appends it: if the stream's string has the characters
  \<open>cs\<close> and a string \<open>ds\<close> lies in some live block apart from the object, and memory is found when the
  result does not fit the short buffer, then the string is well formed afterwards and has the characters
  \<open>cs @ ds\<close>; it is empty exactly when that list is, and clearing it makes it the empty string.\<close>

theorem string_append_refines_list:
  assumes "holds st this cs" "cstring_at (st_mem st) src ds" "length ds < 2 ^ 31" "length cs < 2 ^ 61"
    and "source_in (st_live st) this src (length ds + 1)" "place_fresh place"
    and "23 \<le> length cs + length ds \<Longrightarrow> place (st_live st) (of_nat (length cs + length ds) + 1) \<noteq> 0"
  shows "\<exists>st'. sstream_write place st this src = Some st' \<and> holds st' this (cs @ ds)
    \<and> (str_empty (st_mem st') this \<longleftrightarrow> cs @ ds = [])
    \<and> (\<exists>st''. str_clear st' this = Some st'' \<and> holds st'' this [])"
proof -
  let ?st = "str_append place st this \<lparr>sv_ptr = src, sv_len = of_nat (length ds)\<rparr>"
  have src: "src \<noteq> 0" "apart src (length ds + 1) this 24" using assms(5) by (simp_all add: source_in_def)
  have "sstream_write place st this src = Some ?st"
    using rtk_strlen_cstring [OF assms(2) src(1) assms(3)] by (simp add: sstream_write_def view_of_def)
  moreover have h: "holds ?st this (cs @ ds)"
  proof (cases "length cs + length ds < 23")
    case True
    then show ?thesis using append_short [OF assms(1,2) True src, of place] by (simp add: Let_def)
  next
    case False
    then show ?thesis
      using append_long [OF assms(1,2) _ _ assms(5,6) refl assms(7)] assms(3,4) by (simp add: Let_def)
  qed
  moreover obtain st'' where "str_reset ?st this = Some st''" "blank (st_mem st'') this" "st_live st'' = other_blocks ?st this"
    using holds_resets [OF h] by auto
  moreover have "holds st'' this []"
    using calculation h object_stays_live [OF h] by (intro blank_holds) (simp_all add: holds_def Let_def)
  ultimately show ?thesis using holds_empty [OF h] by (auto simp: str_clear_def)
qed

text \<open>Concrete strings for the witnesses: an empty string at \<open>0x1000\<close> and the text \<open>hi\<close> at \<open>0x2000\<close>.\<close>

definition demo_store :: store where
  "demo_store = \<lparr>st_mem = (\<lambda>x. 0)(0x1000 := 1, 0x2000 := 0x68, 0x2001 := 0x69),
     st_live = [(0x1000, 24), (0x2000, 16), (0x3000, 24)]\<rparr>"

lemma demo_blank: "blank (st_mem demo_store) 0x1000"
  unfolding blank_def
proof (intro conjI allI impI)
  fix x assume "in_block (shortstr 0x1000) 23 x"
  then have "unat (0x1001 :: u64) \<le> unat x" "unat x < unat (0x1001 :: u64) + 23"
    by (simp_all add: shortstr_def in_block_range)
  then have "x \<noteq> 0x1000" "x \<noteq> 0x2000" "x \<noteq> 0x2001" by auto
  then show "st_mem demo_store x = 0" by (simp add: demo_store_def)
qed (simp_all add: is_short_def shortlen_def demo_store_def)

lemma demo_holds: "holds demo_store 0x1000 []"
  by (rule blank_holds) (simp_all add: demo_blank, simp_all add: demo_store_def)

lemma default_blank: "blank (st_mem (str_default st this)) this"
proof -
  let ?m = "set_shortlen (set_is_short (st_mem st) this True) this 0"
  let ?m' = "memset ?m (shortstr this) 0 kMaxShortLen"
  have m: "?m' x = (if in_block (shortstr this) 23 x then 0 else ?m x)" for x
    by (simp add: memset_at kMaxShortLen_def)
  have "?m' this = ?m this" using m this_not_in_str by simp
  then have "is_short ?m' this" "shortlen ?m' this = 0"
    using short_cong [of ?m' this ?m] shortlen_set_shortlen [of 0 "set_is_short (st_mem st) this True" this]
    by simp_all
  then show ?thesis using m by (simp add: blank_def str_default_def)
qed

lemma demo_source: "cstring_at (st_mem demo_store) 0x2000 [0x68, 0x69]"
  "source_in (st_live demo_store) 0x1000 0x2000 (length [0x68, 0x69 :: u8] + 1)"
proof -
  show "cstring_at (st_mem demo_store) 0x2000 [0x68, 0x69]" by (simp add: demo_store_def)
  have "in_block 0x2000 3 x \<Longrightarrow> in_block 0x2000 (unat (16 :: u64)) x" for x by (simp add: in_block_def)
  moreover have "apart 0x2000 3 0x1000 24" by (rule apart_ranges) simp_all
  ultimately have "source_in (st_live demo_store) 0x1000 0x2000 3"
    by (auto simp: source_in_def demo_store_def)
  moreover have "length [0x68, 0x69 :: u8] + 1 = 3" by simp
  ultimately show "source_in (st_live demo_store) 0x1000 0x2000 (length [0x68, 0x69 :: u8] + 1)"
    by (simp only:)
qed

lemma string_append_refines_list_witness:
  "\<exists>st'. sstream_write (\<lambda>live n. 0) demo_store 0x1000 0x2000 = Some st' \<and> holds st' 0x1000 [0x68, 0x69]"
  using string_append_refines_list [OF demo_holds demo_source(1) _ _ demo_source(2) no_memory_fresh] by auto

text \<open>C33: assigning one string to another that shares nothing with it copies it: both have the
  characters of the source afterwards, in the short buffer or in a new one; for a new one memory has to
  be found after the \<open>char\<close> that its pointer's base constructor allocates and loses.\<close>

theorem string_assign_copies:
  assumes "holds st this cs" "holds st other ds" "separate st this other" "place_fresh place"
    and "23 \<le> length ds \<Longrightarrow> place (base_live place (other_blocks st this)) (of_nat (length ds) + 1) \<noteq> 0"
  shows "\<exists>st'. str_assign_copy place st this other = Some st' \<and> holds st' this ds \<and> holds st' other ds"
  by (rule assign_copy_spec [OF assms])

text \<open>A text of 30 characters at \<open>0x2000\<close> and empty strings at \<open>0x1000\<close> and \<open>0x3000\<close>; blocks are placed
  above those that are live.\<close>

definition demo_long_store :: store where
  "demo_long_store = \<lparr>st_mem = (\<lambda>x. if x = 0x1000 \<or> x = 0x3000 then 1 else if in_block 0x2000 30 x then 0x41 else 0),
     st_live = [(0x1000, 24), (0x2000, 31), (0x3000, 24)]\<rparr>"

definition demo_place :: placement where
  "demo_place live n =
     (let p = 0x10000 * of_nat (length live) in
      if list_all (\<lambda>(b, k). unat b + unat k \<le> unat p) live \<and> unat p + unat n < 2 ^ 64 then p else 0)"

lemma demo_place_fresh: "place_fresh demo_place"
  unfolding place_fresh_def
proof (intro allI impI conjI ballI)
  fix live n assume p: "demo_place live n \<noteq> 0"
  show w: "unat (demo_place live n) + unat n < 2 ^ 64"
    using p by (auto simp: demo_place_def Let_def split: if_splits)
  fix bk assume b: "bk \<in> set live"
  obtain b k where bk: "bk = (b, k)" by (cases bk)
  have "unat b + unat k \<le> unat (demo_place live n)"
    using p b bk by (auto simp: demo_place_def Let_def list_all_iff split: if_splits)
  then show "case bk of (b, k) \<Rightarrow> apart (demo_place live n) (unat n) b (unat k)"
    using w unfolding bk prod.case by (intro apart_ranges) simp_all
qed

lemma demo_long_bytes:
  "cstring_at (st_mem demo_long_store) 0x2000 (replicate 30 0x41)"
  "holds demo_long_store 0x1000 []" "holds demo_long_store 0x3000 []"
proof -
  let ?m = "st_mem demo_long_store"
  have r: "in_block 0x2000 30 x \<longleftrightarrow> 0x2000 \<le> unat x \<and> unat x < 0x201E" for x by (subst in_block_range) simp_all
  have bl: "blank ?m this" if "this = 0x1000 \<or> this = 0x3000" for this
    unfolding blank_def
  proof (intro conjI allI impI)
    fix x assume x: "in_block (shortstr this) 23 x"
    have "unat (shortstr this) \<le> unat x \<and> unat x < unat (shortstr this) + 23"
      using x that by (subst (asm) in_block_range) (auto simp: shortstr_def)
    then have "unat x \<noteq> unat (0x1000 :: u64)" "unat x \<noteq> unat (0x3000 :: u64)" "\<not> in_block 0x2000 30 x"
      using that by (auto simp: shortstr_def r)
    then have "x \<noteq> 0x1000" "x \<noteq> 0x3000" "\<not> in_block 0x2000 30 x" by auto
    then show "?m x = 0" by (simp add: demo_long_store_def)
  qed (use that in \<open>auto simp: is_short_def shortlen_def demo_long_store_def\<close>)
  show "holds demo_long_store 0x1000 []" "holds demo_long_store 0x3000 []"
    by (rule blank_holds [OF bl]; simp add: demo_long_store_def)+
  have u: "unat (0x2000 + of_nat i :: u64) = 0x2000 + i" if "i \<le> 30" for i :: nat
    using that by (subst unat_add_small) (simp_all add: unat_of_nat_small)
  have ne: "0x2000 + of_nat i \<noteq> (0x1000 :: u64)" "0x2000 + of_nat i \<noteq> (0x3000 :: u64)" if "i \<le> 30" for i :: nat
  proof -
    have "unat (0x2000 + of_nat i :: u64) \<noteq> unat (0x1000 :: u64)" "unat (0x2000 + of_nat i :: u64) \<noteq> unat (0x3000 :: u64)"
      using that unfolding u [OF that] by simp_all
    then show "0x2000 + of_nat i \<noteq> (0x1000 :: u64)" "0x2000 + of_nat i \<noteq> (0x3000 :: u64)" by metis+
  qed
  have "block ?m 0x2000 30 = replicate 30 0x41"
  proof (rule nth_equalityI)
    fix i assume "i < length (block ?m 0x2000 30)"
    then have i: "i < 30" by simp
    then have "in_block 0x2000 30 (0x2000 + of_nat i)" by (intro in_block_of_nat) simp_all
    then show "block ?m 0x2000 30 ! i = replicate 30 0x41 ! i"
      using i ne [of i] by (simp add: block_nth demo_long_store_def)
  qed simp
  moreover have "?m (0x2000 + of_nat 30) = 0" by (simp add: demo_long_store_def in_block_def)
  ultimately show "cstring_at ?m 0x2000 (replicate 30 0x41)" by (simp add: cstring_at_def)
qed

lemma string_assign_copies_witness:
  "\<exists>st st'. holds st 0x1000 [] \<and> str_assign_copy demo_place st 0x1000 0x3000 = Some st'
    \<and> holds st' 0x1000 (replicate 30 0x41) \<and> holds st' 0x3000 (replicate 30 0x41)"
proof -
  let ?ds = "replicate 30 (0x41 :: u8)" and ?s = demo_long_store
  let ?st = "str_append demo_place ?s 0x3000 \<lparr>sv_ptr = 0x2000, sv_len = of_nat (length ?ds)\<rparr>"
  have a: "apart 0x2000 31 0x3000 24" "apart 0x1000 24 0x3000 24" "apart 0x1000 24 0x30000 31" "apart 0x30000 31 0x1000 24"
    by (rule apart_ranges; simp)+
  have sub: "source_in (st_live ?s) 0x3000 0x2000 (length ?ds + 1)"
    using a(1) by (auto simp: source_in_def demo_long_store_def)
  have p: "demo_place (st_live ?s) (of_nat (length ([] :: u8 list) + length ?ds) + 1) = 0x30000"
    by (simp add: demo_place_def demo_long_store_def)
  have ap: "holds ?st 0x3000 ?ds" "st_live ?st = (0x30000, 31) # st_live ?s" "cstr_ptr (st_mem ?st) 0x3000 = 0x30000"
    "\<And>x. \<not> in_block 0x3000 24 x \<Longrightarrow> \<not> in_block 0x30000 31 x \<Longrightarrow> st_mem ?st x = st_mem ?s x"
    using append_long [OF demo_long_bytes(3,1) _ _ sub demo_place_fresh p [symmetric]] by (simp_all add: Let_def)
  have keep: "st_mem ?st x = st_mem ?s x" if "in_block 0x1000 24 x" for x
    using ap(4) a(2,3) that by (auto simp: apart_def)
  note c = object_cong [of "0x1000" "st_mem ?st" "st_mem ?s", OF keep]
  have s1: "is_short (st_mem ?st) 0x1000" using c(1) holds_short [OF demo_long_bytes(2)] by simp
  have h1: "holds ?st 0x1000 []"
  proof -
    have "cstring_at (st_mem ?st) (c_str (st_mem ?st) 0x1000) []"
    proof -
      have "in_block 0x1000 24 (shortstr 0x1000)" by (simp add: in_block_def shortstr_def)
      then show ?thesis using demo_long_bytes(2) keep c(6) s1 c(1) by (simp add: holds_def Let_def c_str_def)
    qed
    then show ?thesis using demo_long_bytes(2) c s1 ap(2) by (simp add: holds_def Let_def)
  qed
  have ns: "\<not> is_short (st_mem ?st) 0x3000" using ap(1) by (auto simp: holds_def Let_def)
  have "long_len (st_mem ?st) 0x3000 = 30" using ap(1) ns by (simp add: holds_def Let_def str_length_def)
  then have "separate ?st 0x1000 0x3000" using s1 ap(3) a(2,4) by (simp add: separate_def Let_def)
  moreover have "demo_place (base_live demo_place (other_blocks ?st 0x1000)) (of_nat (length ?ds) + 1) \<noteq> 0"
    using s1 ap(2) by (simp add: other_blocks_def base_live_def demo_place_def demo_long_store_def)
  ultimately show ?thesis using string_assign_copies [OF h1 ap(1) _ demo_place_fresh] h1 by blast
qed

text \<open>Appending a short string to itself so that the result is short overruns it: the copy goes on
  from the characters it has just written, so the length is doubled and no NUL stands at the end.\<close>

theorem append_self_unterminated:
  assumes "holds st this cs" "cs \<noteq> []" "2 * length cs < 23"
  shows "let st' = str_append place st this (str_view (st_mem st) this) in
    is_short (st_mem st') this \<and> str_length (st_mem st') this = of_nat (2 * length cs)
    \<and> st_mem st' (c_str (st_mem st') this + of_nat (2 * length cs)) \<noteq> 0"
  by (rule append_self_spec [OF assms])

lemma append_self_unterminated_witness:
  "\<exists>st this. holds st this [0x68, 0x69 :: u8] \<and>
    (let st' = str_append (\<lambda>live n. 0) st this (str_view (st_mem st) this) in
      str_length (st_mem st') this = 4 \<and> st_mem st' (c_str (st_mem st') this + 4) \<noteq> 0)"
proof -
  let ?st = "str_append (\<lambda>live n. 0) demo_store 0x1000 \<lparr>sv_ptr = 0x2000, sv_len = of_nat (length [0x68, 0x69 :: u8])\<rparr>"
  have "apart 0x2000 3 0x1000 24" by (rule apart_ranges) simp_all
  then have h: "holds ?st 0x1000 [0x68, 0x69]"
    using append_short [OF demo_holds demo_source(1), of "\<lambda>live n. 0"]
    by (simp add: Let_def numeral_3_eq_3)
  from append_self_unterminated [OF this, of "\<lambda>live n. 0"] show ?thesis
    using h by (intro exI [of _ ?st] exI [of _ "0x1000"]) (simp add: Let_def)
qed

text \<open>When memory is exhausted, copying a text of 23 characters or more writes all of it, and its
  NUL, into the short buffer: from the second byte of the object on to past its 24 bytes; the
  length stays 0.\<close>

theorem copy_without_memory_overflows:
  assumes "holds st this cs" "cstring_at (st_mem st) src ds" "23 \<le> length ds" "length ds < 2 ^ 62"
    and "src \<noteq> 0" "apart src (length ds + 1) this 24" "apart (this + 1) (length ds + 1) src (length ds + 1)"
    and "unat this + length ds + 2 < 2 ^ 64"
    and "place (other_blocks st this) 1 = 0" "place (other_blocks st this) (of_nat (length ds) + 1) = 0"
  shows "\<exists>st'. copy_cstr place st this src (of_nat (length ds)) = Some st' \<and> str_length (st_mem st') this = 0
    \<and> (\<forall>i < length ds. st_mem st' (this + 1 + of_nat i) = ds ! i) \<and> st_mem st' (this + 1 + of_nat (length ds)) = 0"
  using copy_without_memory [OF assms(1-6) _ assms(8), of place] assms(7,9,10)
  by (auto simp: shortstr_def cstring_nth) (auto simp: cstring_at_def)

lemma copy_without_memory_overflows_witness:
  "\<exists>st'. copy_cstr (\<lambda>live n. 0) demo_long_store 0x1000 0x2000 30 = Some st' \<and> st_mem st' 0x101C = 0x41"
proof -
  let ?ds = "replicate 30 (0x41 :: u8)"
  have a: "apart 0x2000 (length ?ds + 1) 0x1000 24" "apart (0x1000 + 1) (length ?ds + 1) 0x2000 (length ?ds + 1)"
    by (rule apart_ranges; simp)+
  obtain st' where "copy_cstr (\<lambda>live n. 0) demo_long_store 0x1000 0x2000 (of_nat (length ?ds)) = Some st'"
    "\<forall>i < length ?ds. st_mem st' (0x1000 + 1 + of_nat i) = ?ds ! i"
    using copy_without_memory_overflows [OF demo_long_bytes(2,1) _ _ _ a, of "\<lambda>live n. 0"] by auto
  moreover from this(2) have "st_mem st' 0x101C = 0x41" by (auto dest: spec [of _ 27])
  ultimately show ?thesis by auto
qed

end
