(* ===== verification/Logging.thy ===== *)
theory Logging
  imports FormatProps Status
begin

text \<open>
  Logging (include/core/logging.h, core/src/main/cpp/logging.cpp) and the status checks of
  include/core/check.h.  A stream is the list of the C strings written to it.  A logger is its
  level; its stream, a virtual member, is passed and returned.  The format is given as the C string
  of the \<open>string_view\<close>, and \<open>fm\<close> is the formatter whose members the constructor leaves
  indeterminate.  \<open>None\<close>: the format is outside what \<open>vparsef\<close> defines.
\<close>

datatype LogLevel = LogNone | Fatal | Error | Info | Warn | Debug | Trace

primrec level_value :: "LogLevel \<Rightarrow> int" where
  "level_value LogNone = 0"
| "level_value Fatal = 1"
| "level_value Error = 2"
| "level_value Info = 3"
| "level_value Warn = 4"
| "level_value Debug = 5"
| "level_value Trace = 6"

definition level_le :: "LogLevel \<Rightarrow> LogLevel \<Rightarrow> bool" where
  "level_le a b \<longleftrightarrow> level_value a \<le> level_value b"

definition level_gt :: "LogLevel \<Rightarrow> LogLevel \<Rightarrow> bool" where
  "level_gt a b \<longleftrightarrow> level_value a > level_value b"

type_synonym out_stream = "string list"

definition outputChars :: "out_stream \<Rightarrow> string \<Rightarrow> out_stream \<times> nat" where
  "outputChars stream chars = (let chrs = length chars in (stream @ [chars], chrs))"

record logger =
  lg_level :: LogLevel

definition logger_construct :: "LogLevel \<Rightarrow> logger" where
  "logger_construct level = \<lparr>lg_level = level\<rparr>"

text \<open>\<open>Logger::vlog(format, argp)\<close>: a formatter whose \<open>outputChars\<close> writes to the stream.\<close>

definition vlog :: "formatter \<Rightarrow> out_stream \<Rightarrow> string \<Rightarrow> va_arg list \<Rightarrow> out_stream option" where
  "vlog fm stream format argp =
     do { chars \<leftarrow> vparsef fm format argp;
          Some (fold (\<lambda>c stream. fst (outputChars stream c)) chars stream) }"

definition vlog_at :: "logger \<Rightarrow> formatter \<Rightarrow> out_stream \<Rightarrow> LogLevel \<Rightarrow> string \<Rightarrow> va_arg list \<Rightarrow> out_stream option" where
  "vlog_at lg fm stream level format argp =
     (if level_gt level (lg_level lg) then Some stream else vlog fm stream format argp)"

definition log_plain :: "formatter \<Rightarrow> out_stream \<Rightarrow> string \<Rightarrow> va_arg list \<Rightarrow> out_stream option" where
  "log_plain fm stream format args = vlog fm stream format args"

definition log_at :: "logger \<Rightarrow> formatter \<Rightarrow> out_stream \<Rightarrow> LogLevel \<Rightarrow> string \<Rightarrow> va_arg list \<Rightarrow> out_stream option" where
  "log_at lg fm stream level format args = vlog_at lg fm stream level format args"

text \<open>The message function is only run when its message is printed.\<close>

definition log_lazy :: "logger \<Rightarrow> formatter \<Rightarrow> out_stream \<Rightarrow> LogLevel \<Rightarrow> (unit \<Rightarrow> string) \<Rightarrow> out_stream option" where
  "log_lazy lg fm stream level msgFunc =
     (if level_le level (lg_level lg) then log_plain fm stream (msgFunc ()) [] else Some stream)"

definition setLevel :: "logger \<Rightarrow> LogLevel \<Rightarrow> logger" where
  "setLevel lg level = lg\<lparr>lg_level := level\<rparr>"

text \<open>\<open>fatal\<close>, \<open>error\<close>, \<open>info\<close>, \<open>warn\<close>, \<open>debug\<close> and \<open>trace\<close>, one for each level.\<close>

definition log_named :: "LogLevel \<Rightarrow> logger \<Rightarrow> formatter \<Rightarrow> out_stream \<Rightarrow> string \<Rightarrow> va_arg list \<Rightarrow> out_stream option" where
  "log_named level lg fm stream format args = vlog_at lg fm stream level format args"

text \<open>The message macros put a label and the place of the message before the format.\<close>

primrec level_label :: "LogLevel \<Rightarrow> string" where
  "level_label LogNone = ''''"
| "level_label Fatal = ''[FATAL] ''"
| "level_label Error = ''[ERROR] ''"
| "level_label Info = ''[INFO]  ''"
| "level_label Warn = ''[WARN]  ''"
| "level_label Debug = ''[DEBUG] ''"
| "level_label Trace = ''[TRACE] ''"

definition log_macro ::
  "logger \<Rightarrow> formatter \<Rightarrow> out_stream \<Rightarrow> LogLevel \<Rightarrow> string \<Rightarrow> string \<Rightarrow> string \<Rightarrow> va_arg list \<Rightarrow> out_stream option" where
  "log_macro lg fm stream level file line format args =
     log_at lg fm stream level (level_label level @ file @ '':'' @ line @ '': '' @ format) args"

subsection \<open>Checks\<close>

record log_stream =
  ls_stream :: out_stream
  ls_status :: int

definition ls_insert :: "log_stream \<Rightarrow> string \<Rightarrow> log_stream" where
  "ls_insert ls data = ls\<lparr>ls_stream := ls_stream ls @ [data]\<rparr>"

text \<open>\<open>_CHECK\<close>: either the code goes on (\<open>Inr\<close>, with \<open>status\<close> assigned) or it returns the status
  of the log stream (\<open>Inl\<close>), after the message \<open>rest\<close> that follows the macro.\<close>

definition check_macro ::
  "string \<Rightarrow> int \<Rightarrow> (int \<Rightarrow> bool) \<Rightarrow> string \<Rightarrow> string \<Rightarrow> string list \<Rightarrow> out_stream \<Rightarrow> out_stream \<times> (int + int)" where
  "check_macro name result fail_expression file line rest stream =
     (let status = result in
      if fail_expression status then
        let ls = \<lparr>ls_stream = stream, ls_status = status\<rparr>;
            ls = ls_insert ls (name @ '' failed: '' @ file @ '':'' @ line @ '': '');
            ls = ls_insert ls (StatusString status);
            ls = ls_insert ls ''. '';
            ls = fold (\<lambda>d ls. ls_insert ls d) rest ls
        in (ls_stream ls, Inl (ls_status ls))
      else (stream, Inr status))"

definition CHECK :: "StatusCode \<Rightarrow> int \<Rightarrow> string \<Rightarrow> string \<Rightarrow> string list \<Rightarrow> out_stream \<Rightarrow> out_stream \<times> (int + int)" where
  "CHECK expected result = check_macro ''CHECK'' result (\<lambda>status. status \<noteq> status_value expected)"

definition CHECK_FAILS :: "int \<Rightarrow> string \<Rightarrow> string \<Rightarrow> string list \<Rightarrow> out_stream \<Rightarrow> out_stream \<times> (int + int)" where
  "CHECK_FAILS result = check_macro ''CHECK_FAILS'' result (\<lambda>status. status = status_value Ok)"

definition CHECK_OK :: "int \<Rightarrow> string \<Rightarrow> string \<Rightarrow> string list \<Rightarrow> out_stream \<Rightarrow> out_stream \<times> (int + int)" where
  "CHECK_OK result = check_macro ''CHECK_OK'' result (\<lambda>status. status \<noteq> status_value Ok)"

definition LOG_IF :: "bool \<Rightarrow> string \<Rightarrow> string \<Rightarrow> string list \<Rightarrow> out_stream \<Rightarrow> out_stream" where
  "LOG_IF expression file line rest stream =
     (if expression then (stream @ [file @ '':'' @ line @ '': '']) @ rest else stream)"

subsection \<open>Properties\<close>

lemma fold_outputChars: "fold (\<lambda>c stream. fst (outputChars stream c)) chars stream = stream @ chars"
  by (induction chars arbitrary: stream) (simp_all add: outputChars_def)

text \<open>C34: a message whose level is at most the logger's appends to the stream exactly the text that its
  format and arguments render to; a message above the logger's level adds nothing.\<close>

theorem log_renders_when_enabled:
  assumes "\<forall>it \<in> set items. item_ok it"
  shows "\<exists>out. log_named level lg fm stream (concat (map item_format items)) (concat (map item_args items))
      = Some (stream @ out)
    \<and> concat out = (if level_le level (lg_level lg) then concat (map item_text items) else [])"
proof -
  obtain out where "vparsef fm (concat (map item_format items)) (concat (map item_args items)) = Some out"
    "concat out = concat (map item_text items)"
    using vparsef_items [OF assms] by blast
  then show ?thesis
    by (auto simp: log_named_def vlog_at_def vlog_def level_gt_def level_le_def fold_outputChars)
qed

lemma log_renders_when_enabled_witness:
  "(\<exists>out. log_named Error \<lparr>lg_level = Info\<rparr> demo_fm [''a''] ''cpu %d of %s'' [VInt (-3), VString ''os'']
      = Some (''a'' # out) \<and> concat out = ''cpu -3 of os'')
    \<and> (\<exists>out. log_named Warn \<lparr>lg_level = Info\<rparr> demo_fm [''a''] ''cpu %d of %s'' [VInt (-3), VString ''os'']
      = Some (''a'' # out) \<and> concat out = '''')"
proof -
  let ?items = "[Text ''cpu '', SDec (-3), Text '' of '', Str ''os'']"
  have ok: "\<forall>it \<in> set ?items. item_ok it" by simp
  have t: "concat (map item_text ?items) = ''cpu -3 of os''" by (simp add: int_string_def numeral_eval)
  have f: "concat (map item_format ?items) = ''cpu %d of %s''"
    "concat (map item_args ?items) = [VInt (-3), VString ''os'']" by simp_all
  show ?thesis
    using log_renders_when_enabled [OF ok, of Error "\<lparr>lg_level = Info\<rparr>" demo_fm "[''a'']"]
      log_renders_when_enabled [OF ok, of Warn "\<lparr>lg_level = Info\<rparr>" demo_fm "[''a'']"]
    unfolding t f by (simp add: level_le_def)
qed

end
