(* ===== verification/Checksum.thy ===== *)
theory Checksum
  imports Prelude
begin

text \<open>
  The checksums of miniz (src/packages/miniz/src/main/c/miniz.c): \<open>mz_adler32\<close> and the table-driven
  \<open>mz_crc32\<close>.  A buffer is \<open>None\<close>, the null pointer, or its bytes.  \<open>mz_ulong\<close> has 64 bits, the sums
  32.
\<close>

subsection \<open>Adler-32\<close>

definition MZ_ADLER32_INIT :: u64 where "MZ_ADLER32_INIT = 1"

definition adler_byte :: "u8 \<Rightarrow> u32 \<times> u32 \<Rightarrow> u32 \<times> u32" where
  "adler_byte b s = (let (s1, s2) = s; s1 = s1 + ucast b; s2 = s2 + s1 in (s1, s2))"

text \<open>The unrolled loop takes eight bytes at a time.\<close>

function adler_unrolled :: "nat \<Rightarrow> nat \<Rightarrow> u8 list \<Rightarrow> u32 \<times> u32 \<Rightarrow> nat \<times> u8 list \<times> u32 \<times> u32" where
  "adler_unrolled i block_len ptr s =
     (if i + 7 < block_len then
        let s = adler_byte (ptr ! 0) s; s = adler_byte (ptr ! 1) s; s = adler_byte (ptr ! 2) s;
            s = adler_byte (ptr ! 3) s; s = adler_byte (ptr ! 4) s; s = adler_byte (ptr ! 5) s;
            s = adler_byte (ptr ! 6) s; s = adler_byte (ptr ! 7) s
        in adler_unrolled (i + 8) block_len (drop 8 ptr) s
      else (i, ptr, s))"
  by pat_completeness auto
termination
  by (relation "measure (\<lambda>(i, block_len, _). block_len - i)") auto

function adler_rest :: "nat \<Rightarrow> nat \<Rightarrow> u8 list \<Rightarrow> u32 \<times> u32 \<Rightarrow> u8 list \<times> u32 \<times> u32" where
  "adler_rest i block_len ptr s =
     (if i < block_len then adler_rest (i + 1) block_len (tl ptr) (adler_byte (hd ptr) s) else (ptr, s))"
  by pat_completeness auto
termination
  by (relation "measure (\<lambda>(i, block_len, _). block_len - i)") auto

function adler_blocks :: "nat \<Rightarrow> nat \<Rightarrow> u8 list \<Rightarrow> u32 \<times> u32 \<Rightarrow> u32 \<times> u32" where
  "adler_blocks buf_len block_len ptr s =
     (if buf_len = 0 then s
      else
        let (i, ptr, s) = adler_unrolled 0 block_len ptr s;
            (ptr, s1, s2) = adler_rest i block_len ptr s
        in adler_blocks (buf_len - block_len) 5552 ptr (s1 mod 65521, s2 mod 65521))"
  by pat_completeness auto
termination
  by (relation "measures [\<lambda>(buf_len, _). buf_len, \<lambda>(_, block_len, _). 5552 - block_len]") auto

declare adler_unrolled.simps [simp del] adler_rest.simps [simp del] adler_blocks.simps [simp del]

definition mz_adler32 :: "u64 \<Rightarrow> u8 list option \<Rightarrow> u64" where
  "mz_adler32 adler ptr =
     (let s1 = ucast (adler AND 0xFFFF); s2 = ucast (drop_bit 16 adler) in
      case ptr of None \<Rightarrow> MZ_ADLER32_INIT
      | Some bs \<Rightarrow>
        (let (s1, s2) = adler_blocks (length bs) (length bs mod 5552) bs (s1, s2)
         in ucast (push_bit 16 s2 + s1 :: u32)))"

subsection \<open>CRC-32\<close>

definition s_crc_table :: "u32 list" where
  "s_crc_table =
    [0x00000000, 0x77073096, 0xEE0E612C, 0x990951BA, 0x076DC419, 0x706AF48F, 0xE963A535, 0x9E6495A3,
     0x0EDB8832, 0x79DCB8A4, 0xE0D5E91E, 0x97D2D988, 0x09B64C2B, 0x7EB17CBD, 0xE7B82D07, 0x90BF1D91,
     0x1DB71064, 0x6AB020F2, 0xF3B97148, 0x84BE41DE, 0x1ADAD47D, 0x6DDDE4EB, 0xF4D4B551, 0x83D385C7,
     0x136C9856, 0x646BA8C0, 0xFD62F97A, 0x8A65C9EC, 0x14015C4F, 0x63066CD9, 0xFA0F3D63, 0x8D080DF5,
     0x3B6E20C8, 0x4C69105E, 0xD56041E4, 0xA2677172, 0x3C03E4D1, 0x4B04D447, 0xD20D85FD, 0xA50AB56B,
     0x35B5A8FA, 0x42B2986C, 0xDBBBC9D6, 0xACBCF940, 0x32D86CE3, 0x45DF5C75, 0xDCD60DCF, 0xABD13D59,
     0x26D930AC, 0x51DE003A, 0xC8D75180, 0xBFD06116, 0x21B4F4B5, 0x56B3C423, 0xCFBA9599, 0xB8BDA50F,
     0x2802B89E, 0x5F058808, 0xC60CD9B2, 0xB10BE924, 0x2F6F7C87, 0x58684C11, 0xC1611DAB, 0xB6662D3D,
     0x76DC4190, 0x01DB7106, 0x98D220BC, 0xEFD5102A, 0x71B18589, 0x06B6B51F, 0x9FBFE4A5, 0xE8B8D433,
     0x7807C9A2, 0x0F00F934, 0x9609A88E, 0xE10E9818, 0x7F6A0DBB, 0x086D3D2D, 0x91646C97, 0xE6635C01,
     0x6B6B51F4, 0x1C6C6162, 0x856530D8, 0xF262004E, 0x6C0695ED, 0x1B01A57B, 0x8208F4C1, 0xF50FC457,
     0x65B0D9C6, 0x12B7E950, 0x8BBEB8EA, 0xFCB9887C, 0x62DD1DDF, 0x15DA2D49, 0x8CD37CF3, 0xFBD44C65,
     0x4DB26158, 0x3AB551CE, 0xA3BC0074, 0xD4BB30E2, 0x4ADFA541, 0x3DD895D7, 0xA4D1C46D, 0xD3D6F4FB,
     0x4369E96A, 0x346ED9FC, 0xAD678846, 0xDA60B8D0, 0x44042D73, 0x33031DE5, 0xAA0A4C5F, 0xDD0D7CC9,
     0x5005713C, 0x270241AA, 0xBE0B1010, 0xC90C2086, 0x5768B525, 0x206F85B3, 0xB966D409, 0xCE61E49F,
     0x5EDEF90E, 0x29D9C998, 0xB0D09822, 0xC7D7A8B4, 0x59B33D17, 0x2EB40D81, 0xB7BD5C3B, 0xC0BA6CAD,
     0xEDB88320, 0x9ABFB3B6, 0x03B6E20C, 0x74B1D29A, 0xEAD54739, 0x9DD277AF, 0x04DB2615, 0x73DC1683,
     0xE3630B12, 0x94643B84, 0x0D6D6A3E, 0x7A6A5AA8, 0xE40ECF0B, 0x9309FF9D, 0x0A00AE27, 0x7D079EB1,
     0xF00F9344, 0x8708A3D2, 0x1E01F268, 0x6906C2FE, 0xF762575D, 0x806567CB, 0x196C3671, 0x6E6B06E7,
     0xFED41B76, 0x89D32BE0, 0x10DA7A5A, 0x67DD4ACC, 0xF9B9DF6F, 0x8EBEEFF9, 0x17B7BE43, 0x60B08ED5,
     0xD6D6A3E8, 0xA1D1937E, 0x38D8C2C4, 0x4FDFF252, 0xD1BB67F1, 0xA6BC5767, 0x3FB506DD, 0x48B2364B,
     0xD80D2BDA, 0xAF0A1B4C, 0x36034AF6, 0x41047A60, 0xDF60EFC3, 0xA867DF55, 0x316E8EEF, 0x4669BE79,
     0xCB61B38C, 0xBC66831A, 0x256FD2A0, 0x5268E236, 0xCC0C7795, 0xBB0B4703, 0x220216B9, 0x5505262F,
     0xC5BA3BBE, 0xB2BD0B28, 0x2BB45A92, 0x5CB36A04, 0xC2D7FFA7, 0xB5D0CF31, 0x2CD99E8B, 0x5BDEAE1D,
     0x9B64C2B0, 0xEC63F226, 0x756AA39C, 0x026D930A, 0x9C0906A9, 0xEB0E363F, 0x72076785, 0x05005713,
     0x95BF4A82, 0xE2B87A14, 0x7BB12BAE, 0x0CB61B38, 0x92D28E9B, 0xE5D5BE0D, 0x7CDCEFB7, 0x0BDBDF21,
     0x86D3D2D4, 0xF1D4E242, 0x68DDB3F8, 0x1FDA836E, 0x81BE16CD, 0xF6B9265B, 0x6FB077E1, 0x18B74777,
     0x88085AE6, 0xFF0F6A70, 0x66063BCA, 0x11010B5C, 0x8F659EFF, 0xF862AE69, 0x616BFFD3, 0x166CCF45,
     0xA00AE278, 0xD70DD2EE, 0x4E048354, 0x3903B3C2, 0xA7672661, 0xD06016F7, 0x4969474D, 0x3E6E77DB,
     0xAED16A4A, 0xD9D65ADC, 0x40DF0B66, 0x37D83BF0, 0xA9BCAE53, 0xDEBB9EC5, 0x47B2CF7F, 0x30B5FFE9,
     0xBDBDF21C, 0xCABAC28A, 0x53B39330, 0x24B4A3A6, 0xBAD03605, 0xCDD70693, 0x54DE5729, 0x23D967BF,
     0xB3667A2E, 0xC4614AB8, 0x5D681B02, 0x2A6F2B94, 0xB40BBE37, 0xC30C8EA1, 0x5A05DF1B, 0x2D02EF8D]"

definition crc_step :: "u32 \<Rightarrow> u8 \<Rightarrow> u32" where
  "crc_step crc32 b = drop_bit 8 crc32 XOR s_crc_table ! unat ((crc32 XOR ucast b) AND 0xFF)"

fun crc_four :: "u32 \<Rightarrow> u8 list \<Rightarrow> u32 \<times> u8 list" where
  "crc_four crc32 (b0 # b1 # b2 # b3 # buf) =
     (let crc32 = crc_step crc32 b0; crc32 = crc_step crc32 b1; crc32 = crc_step crc32 b2;
          crc32 = crc_step crc32 b3
      in crc_four crc32 buf)"
| "crc_four crc32 buf = (crc32, buf)"

fun crc_rest :: "u32 \<Rightarrow> u8 list \<Rightarrow> u32" where
  "crc_rest crc32 [] = crc32"
| "crc_rest crc32 (b # buf) = crc_rest (crc_step crc32 b) buf"

definition mz_crc32 :: "u64 \<Rightarrow> u8 list \<Rightarrow> u64" where
  "mz_crc32 crc buf =
     (let crc32 = (ucast crc :: u32) XOR 0xFFFFFFFF; (crc32, buf) = crc_four crc32 buf
      in ucast (NOT (crc_rest crc32 buf)))"

subsection \<open>Adler-32 is a pair of sums\<close>

text \<open>The checksum as RFC 1950 defines it: two sums modulo 65521, byte by byte.\<close>

fun adler_ref :: "u8 list \<Rightarrow> nat \<times> nat \<Rightarrow> nat \<times> nat" where
  "adler_ref [] s = s"
| "adler_ref (b # bs) (a, c) =
     (let a = (a + unat b) mod 65521 in adler_ref bs (a, (c + a) mod 65521))"

fun adler_sums :: "u8 list \<Rightarrow> nat \<times> nat \<Rightarrow> nat \<times> nat" where
  "adler_sums [] s = s"
| "adler_sums (b # bs) (a, c) = adler_sums bs (a + unat b, c + (a + unat b))"

lemma adler_ref_append: "adler_ref (xs @ ys) s = adler_ref ys (adler_ref xs s)"
  by (induction xs s rule: adler_ref.induct) (simp_all add: Let_def)

lemma adler_ref_less: "a < 65521 \<Longrightarrow> c < 65521 \<Longrightarrow> adler_ref bs (a, c) = (a', c') \<Longrightarrow> a' < 65521 \<and> c' < 65521"
proof (induction bs arbitrary: a c)
  case (Cons b bs)
  then show ?case using Cons.IH [of "(a + unat b) mod 65521" "(c + (a + unat b) mod 65521) mod 65521"]
    by (simp add: Let_def)
qed simp

lemma adler_sums_mod:
  "adler_ref bs (a mod 65521, c mod 65521)
    = (fst (adler_sums bs (a, c)) mod 65521, snd (adler_sums bs (a, c)) mod 65521)"
proof (induction bs arbitrary: a c)
  case (Cons b bs)
  have e: "(c mod 65521 + (a + unat b) mod 65521) mod 65521 = (c + (a + unat b)) mod 65521"
    "(a mod 65521 + unat b) mod 65521 = (a + unat b) mod 65521"
    by (simp_all add: mod_simps)
  show ?case unfolding adler_ref.simps adler_sums.simps Let_def e by (rule Cons.IH)
qed simp

lemma adler_sums_bound:
  assumes "adler_sums bs (a, c) = (a', c')"
  shows "a' \<le> a + 255 * length bs \<and> 2 * c' \<le> 2 * c + 2 * length bs * a + 255 * (length bs * (length bs + 1))"
  using assms
proof (induction bs arbitrary: a c)
  case (Cons b bs)
  let ?n = "length bs"
  have b: "unat b \<le> 255" using unsigned_less [where 'a = nat, of b] by simp
  have IH: "a' \<le> a + unat b + 255 * ?n"
    "2 * c' \<le> 2 * (c + (a + unat b)) + 2 * ?n * (a + unat b) + 255 * (?n * (?n + 1))"
    using Cons.IH [of "a + unat b" "c + (a + unat b)"] Cons.prems by simp_all
  have "2 * c' \<le> 2 * (c + (a + 255)) + 2 * ?n * (a + 255) + 255 * (?n * (?n + 1))"
    by (rule order_trans [OF IH(2)]) (use b in \<open>intro add_mono mult_le_mono; simp\<close>)
  also have "\<dots> = 2 * c + 2 * length (b # bs) * a + 255 * (length (b # bs) * (length (b # bs) + 1))"
    by (simp add: algebra_simps)
  finally show ?case using IH(1) b by simp
qed simp

lemma adler_byte_of_nat: "adler_byte b (of_nat a, of_nat c) = (of_nat (a + unat b), of_nat (c + (a + unat b)))"
  by (simp add: adler_byte_def Let_def add.assoc)

lemma fold_adler_byte:
  "fold adler_byte bs (of_nat a, of_nat c) = (case adler_sums bs (a, c) of (a, c) \<Rightarrow> (of_nat a, of_nat c))"
  by (induction bs arbitrary: a c) (simp_all only: fold_simps adler_byte_of_nat adler_sums.simps prod.case)

lemma adler_rest_fold:
  "block_len \<le> i + length ptr \<Longrightarrow>
    adler_rest i block_len ptr s = (drop (block_len - i) ptr, fold adler_byte (take (block_len - i) ptr) s)"
proof (induction i block_len ptr s rule: adler_rest.induct)
  case (1 i block_len ptr s)
  show ?case
  proof (cases "i < block_len")
    case True
    then obtain b bs where p: "ptr = b # bs" using 1(2) by (cases ptr) auto
    have k: "block_len - i = Suc (block_len - (i + 1))" using True by simp
    show ?thesis unfolding k using 1(1) [OF True] 1(2) True p by (simp add: adler_rest.simps [of i])
  next
    case False
    then show ?thesis by (simp add: adler_rest.simps [of i])
  qed
qed

lemma adler_unrolled_fold:
  "block_len \<le> i + length ptr \<Longrightarrow>
    (case adler_unrolled i block_len ptr s of (i, ptr, s) \<Rightarrow> adler_rest i block_len ptr s)
      = (drop (block_len - i) ptr, fold adler_byte (take (block_len - i) ptr) s)"
proof (induction i block_len ptr s rule: adler_unrolled.induct)
  case (1 i block_len ptr s)
  show ?case
  proof (cases "i + 7 < block_len")
    case True
    then have l: "8 \<le> length ptr" using 1(2) by simp
    define tl8 where "tl8 = drop 8 ptr"
    have p: "ptr = [ptr ! 0, ptr ! 1, ptr ! 2, ptr ! 3, ptr ! 4, ptr ! 5, ptr ! 6, ptr ! 7] @ tl8"
    proof -
      have "take 8 ptr = [ptr ! 0, ptr ! 1, ptr ! 2, ptr ! 3, ptr ! 4, ptr ! 5, ptr ! 6, ptr ! 7]"
        by (rule nth_equalityI) (use l in \<open>auto simp: less_Suc_eq numeral_eq_Suc\<close>)
      then show ?thesis unfolding tl8_def by (metis append_take_drop_id)
    qed
    have k: "block_len - i = 8 + (block_len - (i + 8))" using True by simp
    let ?s = "fold adler_byte (take 8 ptr) s"
    have t8: "fold adler_byte (take 8 ptr) s = adler_byte (ptr ! 7) (adler_byte (ptr ! 6) (adler_byte (ptr ! 5)
      (adler_byte (ptr ! 4) (adler_byte (ptr ! 3) (adler_byte (ptr ! 2) (adler_byte (ptr ! 1) (adler_byte (ptr ! 0) s)))))))"
      by (subst p) simp
    have step: "adler_unrolled i block_len ptr s = adler_unrolled (i + 8) block_len (drop 8 ptr) ?s"
      using True unfolding t8 by (simp add: adler_unrolled.simps [of i] Let_def)
    have "(case adler_unrolled (i + 8) block_len (drop 8 ptr) ?s of (i, ptr, s) \<Rightarrow> adler_rest i block_len ptr s)
      = (drop (block_len - (i + 8)) (drop 8 ptr), fold adler_byte (take (block_len - (i + 8)) (drop 8 ptr)) ?s)"
      using 1(1) [OF True refl refl refl refl refl refl refl refl] 1(2) unfolding t8 by simp
    then show ?thesis unfolding step k by (simp add: take_add add.commute)
  next
    case False
    then show ?thesis using adler_rest_fold [OF 1(2)] by (simp add: adler_unrolled.simps [of i])
  qed
qed


lemma adler_rounds:
  assumes "length bs \<le> 5552" "a < 65521" "c < 65521" "fold adler_byte bs (of_nat a, of_nat c) = (s1, s2)"
  shows "(s1 mod 65521, s2 mod 65521) = (case adler_ref bs (a, c) of (a, c) \<Rightarrow> (of_nat a, of_nat c))"
proof -
  obtain a' c' where s: "adler_sums bs (a, c) = (a', c')" by (cases "adler_sums bs (a, c)") auto
  let ?n = "length bs"
  have b: "a' \<le> a + 255 * ?n" "2 * c' \<le> 2 * c + 2 * ?n * a + 255 * (?n * (?n + 1))"
    using adler_sums_bound [OF s] by simp_all
  have "2 * ?n * a \<le> 2 * 5552 * 65520" using assms(1,2) by (intro mult_le_mono) simp_all
  moreover have "?n * (?n + 1) \<le> 5552 * 5553" using assms(1) by (intro mult_le_mono) simp_all
  ultimately have "2 * c' \<le> 2 * 65520 + 2 * 5552 * 65520 + 255 * (5552 * 5553)"
    using b(2) assms(3) by linarith
  then have "c' < 2 ^ 32" by simp
  moreover have "a' < 2 ^ 32" using b(1) assms(1,2) by simp
  ultimately have "a' < 2 ^ 32" "c' < 2 ^ 32" by simp_all
  then have u: "unat (of_nat a' :: u32) = a'" "unat (of_nat c' :: u32) = c'" by (simp_all add: unat_of_nat_small)
  have "s1 = of_nat a'" "s2 = of_nat c'" using assms(4) s by (simp_all add: fold_adler_byte)
  then have m: "unat (s1 mod 65521) = a' mod 65521" "unat (s2 mod 65521) = c' mod 65521"
    using u by (simp_all add: unat_mod)
  have w: "x = of_nat (unat x)" for x :: u32 by simp
  have "s1 mod 65521 = of_nat (a' mod 65521)" "s2 mod 65521 = of_nat (c' mod 65521)"
    using w [of "s1 mod 65521"] w [of "s2 mod 65521"] unfolding m by simp_all
  then show ?thesis using adler_sums_mod [of bs a c] s assms(2,3) by simp
qed

lemma adler_blocks_ref:
  assumes "k \<le> length bs" "(length bs - k) mod 5552 = 0" "k \<le> 5552" "a < 65521" "c < 65521"
  shows "adler_blocks (length bs) k bs (of_nat a, of_nat c)
    = (case adler_ref bs (a, c) of (a, c) \<Rightarrow> (of_nat a, of_nat c))"
  using assms
proof (induction "length bs" k bs "(of_nat a :: u32, of_nat c :: u32)" arbitrary: a c rule: adler_blocks.induct)
  case (1 k bs)
  show ?case
  proof (cases "bs = []")
    case True
    then show ?thesis by (simp add: adler_blocks.simps)
  next
    case False
    obtain i ptr s where u: "adler_unrolled 0 k bs (of_nat a, of_nat c) = (i, ptr, s)" by (metis prod_cases3)
    obtain s1 s2 where f: "fold adler_byte (take k bs) (of_nat a, of_nat c) = (s1, s2)" by (metis surj_pair)
    have r: "adler_rest i k ptr s = (drop k bs, s1, s2)"
      using adler_unrolled_fold [of k 0 bs "(of_nat a, of_nat c)"] 1(2) u f by simp
    obtain a' c' where m: "adler_ref (take k bs) (a, c) = (a', c')" by (metis surj_pair)
    have m': "(s1 mod 65521, s2 mod 65521) = (of_nat a', of_nat c')"
      using adler_rounds [OF _ 1(5,6) f] 1(4) m by simp
    have l: "a' < 65521" "c' < 65521" using adler_ref_less [OF 1(5,6) m] by simp_all
    have whole: "adler_ref bs (a, c) = adler_ref (drop k bs) (a', c')"
      using adler_ref_append [of "take k bs" "drop k bs" "(a, c)"] m by simp
    have step: "adler_blocks (length bs) k bs (of_nat a, of_nat c)
        = adler_blocks (length (drop k bs)) 5552 (drop k bs) (of_nat a', of_nat c')"
      using False u r m' by (simp add: adler_blocks.simps [of "length bs" k] Let_def)
    show ?thesis
    proof (cases "drop k bs = []")
      case True
      then show ?thesis unfolding step whole by (simp add: adler_blocks.simps)
    next
      case f: False
      have d: "5552 \<le> length (drop k bs)" "(length (drop k bs) - 5552) mod 5552 = 0"
      proof -
        have "0 < length bs - k" "(length bs - k) mod 5552 = 0" using f 1(3) by simp_all
        then obtain q where "length bs - k = 5552 * q" "0 < q" by (metis mod_0_imp_dvd dvdE mult_0_right neq0_conv)
        then show "5552 \<le> length (drop k bs)" "(length (drop k bs) - 5552) mod 5552 = 0"
          by (simp_all add: mod_eq_0_iff_dvd dvd_diff_nat)
      qed
      show ?thesis unfolding step whole
        using 1(1) [OF _ u [symmetric] refl refl r [symmetric] refl] False m' d l by auto
    qed
  qed
qed


subsection \<open>CRC-32 bit by bit\<close>

text \<open>Division by the reflected polynomial \<open>0xEDB88320\<close>, one bit at a time.\<close>

definition crc_bit :: "u32 \<Rightarrow> u32" where
  "crc_bit c = (if bit c 0 then drop_bit 1 c XOR 0xEDB88320 else drop_bit 1 c)"

fun crc_bits :: "nat \<Rightarrow> u32 \<Rightarrow> u32" where
  "crc_bits 0 c = c"
| "crc_bits (Suc n) c = crc_bits n (crc_bit c)"

definition crc_ref :: "u8 list \<Rightarrow> u32 \<Rightarrow> u32" where
  "crc_ref bs c = fold (\<lambda>b c. crc_bits 8 (c XOR ucast b)) bs c"

lemma crc_bit_xor: "crc_bit (x XOR y) = crc_bit x XOR crc_bit y"
  by (auto simp: crc_bit_def bit_xor_iff drop_bit_xor ac_simps simp flip: xor.assoc)

lemma crc_bits_xor: "crc_bits n (x XOR y) = crc_bits n x XOR crc_bits n y"
  by (induction n arbitrary: x y) (simp_all add: crc_bit_xor)

lemma crc_bits_high: "(\<And>i. i < n \<Longrightarrow> \<not> bit c i) \<Longrightarrow> crc_bits n c = drop_bit n c"
proof (induction n arbitrary: c)
  case (Suc n)
  have "crc_bit c = drop_bit 1 c" using Suc.prems [of 0] by (simp add: crc_bit_def)
  moreover have "\<not> bit (drop_bit 1 c) i" if "i < n" for i
    using Suc.prems [of "Suc i"] that by (simp add: bit_drop_bit_eq)
  ultimately show ?case using Suc.IH [of "drop_bit 1 c"] by (simp add: drop_bit_drop_bit)
qed simp

text \<open>The table is linear: its upper half is its lower half plus one entry, for every power of two.\<close>

definition double_table :: "u32 list \<Rightarrow> u32 \<Rightarrow> u32 list" where
  "double_table ts b = ts @ map (\<lambda>t. b XOR t) ts"

lemma crc_table_doubled:
  "foldl double_table [0] [0x77073096, 0xEE0E612C, 0x076DC419, 0x0EDB8832, 0x1DB71064, 0x3B6E20C8,
     0x76DC4190, 0xEDB88320] = s_crc_table"
  unfolding s_crc_table_def by (simp add: double_table_def)

definition is_table :: "nat \<Rightarrow> u32 list \<Rightarrow> bool" where
  "is_table k ts \<longleftrightarrow> length ts = 2 ^ k \<and> (\<forall>n < 2 ^ k. ts ! n = crc_bits 8 (of_nat n))"

lemma is_table_double:
  assumes "is_table k ts" "b = crc_bits 8 (2 ^ k)" "k < 32"
  shows "is_table (Suc k) (double_table ts b)"
  unfolding is_table_def
proof (intro conjI allI impI)
  show "length (double_table ts b) = 2 ^ Suc k" using assms(1) by (simp add: is_table_def double_table_def)
  fix n :: nat assume n: "n < 2 ^ Suc k"
  show "double_table ts b ! n = crc_bits 8 (of_nat n)"
  proof (cases "n < 2 ^ k")
    case True
    then show ?thesis using assms(1) by (simp add: is_table_def double_table_def nth_append)
  next
    case False
    then obtain m where m: "n = 2 ^ k + m" "m < 2 ^ k"
      using n by (metis le_Suc_ex mult_2 nat_add_left_cancel_less not_less power_Suc)
    have "\<not> bit (of_nat m :: u32) i" if "k \<le> i" for i
    proof -
      have "unat (of_nat m :: u32) < 2 ^ k"
        using m(2) by (metis le_less_trans unat_of_nat mod_less_eq_dividend take_bit_eq_mod)
      then show ?thesis using bit_less_exp [of "of_nat m" k i] that by fastforce
    qed
    then have "(2 ^ k :: u32) AND of_nat m = 0"
      by (intro bit_eqI) (auto simp: bit_and_iff bit_exp_iff)
    then have "(2 ^ k :: u32) + of_nat m = 2 ^ k XOR of_nat m" by (simp add: disjunctive_add_eq_xor)
    then show ?thesis
      using m assms(1,2) by (simp add: is_table_def double_table_def nth_append crc_bits_xor)
  qed
qed

lemma crc_bits_8: "crc_bits 8 c = crc_bit (crc_bit (crc_bit (crc_bit (crc_bit (crc_bit (crc_bit (crc_bit c)))))))"
  by (simp add: numeral_eq_Suc)

lemma crc_table: "is_table 8 s_crc_table"
proof -
  have z: "is_table 0 [0]" by (simp add: is_table_def crc_bits_8 crc_bit_def)
  note t1 = is_table_double [OF z, of "0x77073096"]
  have e: "0x77073096 = crc_bits 8 (2 ^ 0)" "0xEE0E612C = crc_bits 8 (2 ^ 1)" "0x076DC419 = crc_bits 8 (2 ^ 2)"
    "0x0EDB8832 = crc_bits 8 (2 ^ 3)" "0x1DB71064 = crc_bits 8 (2 ^ 4)" "0x3B6E20C8 = crc_bits 8 (2 ^ 5)"
    "0x76DC4190 = crc_bits 8 (2 ^ 6)" "0xEDB88320 = crc_bits 8 (2 ^ 7)"
    by (simp_all add: crc_bits_8 crc_bit_def)
  have "is_table (Suc (Suc (Suc (Suc (Suc (Suc (Suc (Suc 0)))))))) s_crc_table"
    unfolding crc_table_doubled [symmetric] foldl.simps
    by (intro is_table_double z) (use e in \<open>simp_all add: numeral_eq_Suc\<close>)
  then show ?thesis by (simp add: numeral_eq_Suc)
qed

lemma crc_step_bits: "crc_step c b = crc_bits 8 (c XOR ucast b)"
proof -
  let ?x = "c XOR ucast b :: u32"
  have "y = (y AND NOT z) XOR (y AND z)" for y z :: u32
    by (intro bit_word_eqI) (auto simp: bit_simps)
  then have split: "?x = (?x AND NOT 0xFF) XOR (?x AND 0xFF)" .
  have m: "(0xFF :: u32) = mask 8" by (simp add: mask_eq_exp_minus_1)
  have "?x AND 0xFF \<le> 0xFF" by (rule word_and_le1)
  then have lt: "unat (?x AND 0xFF) < 2 ^ 8" by (simp add: word_le_nat_alt)
  have "\<not> bit (?x AND NOT 0xFF) i" if "i < 8" for i
    using that unfolding m by (simp add: bit_and_iff bit_not_iff bit_mask_iff)
  then have h: "crc_bits 8 (?x AND NOT 0xFF) = drop_bit 8 (?x AND NOT 0xFF)" by (rule crc_bits_high)
  also have "\<dots> = drop_bit 8 c"
    unfolding m by (intro bit_word_eqI) (auto simp: bit_simps dest: bit_imp_le_length)
  finally have "crc_bits 8 ?x = drop_bit 8 c XOR crc_bits 8 (?x AND 0xFF)"
    by (subst split) (simp only: crc_bits_xor)
  moreover have "s_crc_table ! unat (?x AND 0xFF) = crc_bits 8 (?x AND 0xFF)"
    using crc_table lt by (simp add: is_table_def)
  ultimately show ?thesis by (simp add: crc_step_def)
qed

lemma crc_rest_ref: "crc_rest c bs = crc_ref bs c"
  by (induction c bs rule: crc_rest.induct) (simp_all add: crc_ref_def crc_step_bits)

lemma crc_four_ref: "crc_four c bs = (c', bs') \<Longrightarrow> crc_ref bs' c' = crc_ref bs c"
  by (induction c bs rule: crc_four.induct) (auto simp: crc_ref_def crc_step_bits Let_def)


subsection \<open>Properties\<close>

definition adler_pack :: "nat \<times> nat \<Rightarrow> u64" where
  "adler_pack s = of_nat (snd s * 65536 + fst s)"

lemma adler_unpack:
  assumes "a < 65521" "c < 65521"
  shows "ucast (adler_pack (a, c) AND 0xFFFF) = (of_nat a :: u32)" "ucast (drop_bit 16 (adler_pack (a, c))) = (of_nat c :: u32)"
    "ucast (push_bit 16 (of_nat c) + of_nat a :: u32) = adler_pack (a, c)"
proof -
  let ?p = "adler_pack (a, c)"
  have "c * 65536 \<le> 65520 * 65536" using assms(2) by (intro mult_le_mono) simp_all
  then have "c * 65536 + a < 2 ^ LENGTH(64)" using assms by simp
  then have p: "unat ?p = c * 65536 + a" unfolding adler_pack_def fst_conv snd_conv by (rule unat_of_nat_small)
  have "(0xFFFF :: u64) = mask 16" by (simp add: mask_eq_exp_minus_1)
  then have m: "?p AND 0xFFFF = take_bit 16 ?p" by (simp add: take_bit_eq_mask)
  have "unat (?p AND 0xFFFF) = a" unfolding m unsigned_take_bit_eq p using assms by (simp add: take_bit_eq_mod)
  then have "unat (ucast (?p AND 0xFFFF) :: u32) = a" using assms by (simp add: unsigned_ucast_eq take_bit_eq_mod)
  moreover have "unat (of_nat a :: u32) = a" "unat (of_nat c :: u32) = c" using assms by (simp_all add: unat_of_nat_small)
  note u = this
  ultimately show "ucast (?p AND 0xFFFF) = (of_nat a :: u32)" by (simp only: word_unat_eq_iff)
  have "unat (drop_bit 16 ?p) = c" unfolding unat_drop_bit_eq p using assms by (simp add: drop_bit_eq_div)
  then have "unat (ucast (drop_bit 16 ?p) :: u32) = c" using assms by (simp add: unsigned_ucast_eq take_bit_eq_mod)
  then show "ucast (drop_bit 16 ?p) = (of_nat c :: u32)" using u by (simp only: word_unat_eq_iff)
  have pb: "unat (push_bit 16 (of_nat c) :: u32) = c * 65536"
    unfolding unsigned_push_bit_eq u using assms by (simp add: push_bit_eq_mult take_bit_eq_mod)
  then have "unat (push_bit 16 (of_nat c) + of_nat a :: u32) = c * 65536 + a"
    using u assms \<open>c * 65536 \<le> 65520 * 65536\<close> by (subst unat_add_small) simp_all
  then have "unat (ucast (push_bit 16 (of_nat c) + of_nat a :: u32) :: u64) = c * 65536 + a"
    using assms \<open>c * 65536 \<le> 65520 * 65536\<close> by (simp only: unsigned_ucast_eq) (simp add: take_bit_eq_mod)
  then show "ucast (push_bit 16 (of_nat c) + of_nat a :: u32) = ?p" using p by (simp only: word_unat_eq_iff)
qed

lemma mz_adler32_ref:
  assumes "a < 65521" "c < 65521"
  shows "mz_adler32 (adler_pack (a, c)) (Some bs) = adler_pack (adler_ref bs (a, c))"
proof -
  obtain a' c' where r: "adler_ref bs (a, c) = (a', c')" by (metis surj_pair)
  have l: "a' < 65521" "c' < 65521" using adler_ref_less [OF assms r] by simp_all
  have k: "length bs mod 5552 \<le> length bs" "(length bs - length bs mod 5552) mod 5552 = 0" "length bs mod 5552 \<le> 5552"
    by (simp_all add: minus_mod_eq_mult_div less_imp_le)
  show ?thesis
    using adler_blocks_ref [OF k assms] adler_unpack [OF assms] adler_unpack(3) [OF l] r
    by (simp add: mz_adler32_def)
qed

text \<open>C35: \<open>mz_adler32\<close>, with its blocks and unrolled loop on 32-bit sums, computes the checksum of RFC 1950,
  two sums modulo 65521, from any start whose halves are reduced: the sums of a block never wrap
  around.  It can be continued: the checksum of two buffers in a row is that of the second started
  from that of the first.\<close>

theorem mz_adler32_rfc1950:
  assumes "a < 65521" "c < 65521"
  shows "mz_adler32 (adler_pack (a, c)) (Some bs) = adler_pack (adler_ref bs (a, c))
    \<and> mz_adler32 (mz_adler32 (adler_pack (a, c)) (Some xs)) (Some ys) = mz_adler32 (adler_pack (a, c)) (Some (xs @ ys))"
proof -
  obtain a' c' where r: "adler_ref xs (a, c) = (a', c')" by (metis surj_pair)
  have "a' < 65521" "c' < 65521" using adler_ref_less [OF assms r] by simp_all
  then show ?thesis
    using mz_adler32_ref [OF assms] mz_adler32_ref [of a' c' ys] r by (simp add: adler_ref_append)
qed

lemma mz_adler32_rfc1950_witness: "mz_adler32 1 (Some [0x61, 0x62, 0x63]) = 0x024D0127"
  using mz_adler32_rfc1950 [of 1 0 "[0x61, 0x62, 0x63]"] by (simp add: adler_pack_def Let_def)

text \<open>C36: the table-driven \<open>mz_crc32\<close>, four bytes at a time, divides by the reflected polynomial of CRC-32
  bit by bit, with the register inverted before and after; and it can be continued over two
  buffers.\<close>

theorem mz_crc32_bitwise:
  "mz_crc32 crc bs = ucast (NOT (crc_ref bs (NOT (ucast crc))))
    \<and> mz_crc32 (mz_crc32 crc xs) ys = mz_crc32 crc (xs @ ys)"
proof -
  have m: "x XOR 0xFFFFFFFF = NOT x" for x :: u32
  proof -
    have e: "(0xFFFFFFFF :: u32) = - 1" by simp
    show ?thesis unfolding e by simp
  qed
  have r: "mz_crc32 c bs = ucast (NOT (crc_ref bs (NOT (ucast c))))" for c bs
    using crc_four_ref [of "ucast c XOR 0xFFFFFFFF" bs]
    by (simp add: mz_crc32_def Let_def crc_rest_ref m split: prod.splits)
  have "ucast (ucast x :: u64) = x" for x :: u32 by (rule bit_word_eqI) (simp add: bit_simps)
  then show ?thesis by (simp add: r crc_ref_def)
qed

end
