(* ===== verification/RadixSort.thy ===== *)
theory RadixSort
  imports Prelude "HOL-Library.Multiset"
begin

text \<open>
  \<open>tdefl_radix_sort_syms\<close> of miniz (src/packages/miniz/src/main/c/miniz.c): the symbols of a Huffman
  table, sorted by frequency in at most two counting passes.  The histogram is counted in numbers:
  no count exceeds the number of symbols, a 32-bit one.
\<close>

record sym_freq =
  m_key :: u16
  m_sym_index :: u16

definition key_byte :: "nat \<Rightarrow> sym_freq \<Rightarrow> nat" where
  "key_byte shift s = unat (drop_bit shift (m_key s) AND 0xFF)"

definition incr :: "nat list \<Rightarrow> nat \<Rightarrow> nat list" where
  "incr xs i = xs[i := xs ! i + 1]"

text \<open>One histogram for the low and one for the high byte of the key.\<close>

fun count_keys :: "sym_freq list \<Rightarrow> nat list \<Rightarrow> nat list" where
  "count_keys [] hist = hist"
| "count_keys (s # syms) hist =
     (let hist = incr hist (key_byte 0 s); hist = incr hist (256 + key_byte 8 s)
      in count_keys syms hist)"

fun offsets_loop :: "nat list \<Rightarrow> nat \<Rightarrow> nat list" where
  "offsets_loop [] cur_ofs = []"
| "offsets_loop (h # pHist) cur_ofs = cur_ofs # offsets_loop pHist (cur_ofs + h)"

fun scatter :: "nat \<Rightarrow> sym_freq list \<Rightarrow> nat list \<Rightarrow> sym_freq list \<Rightarrow> sym_freq list" where
  "scatter pass_shift [] offsets pNew_syms = pNew_syms"
| "scatter pass_shift (s # pCur_syms) offsets pNew_syms =
     (let b = key_byte pass_shift s in
      scatter pass_shift pCur_syms (incr offsets b) (pNew_syms[offsets ! b := s]))"

text \<open>The passes swap the two arrays; the sorted one is the first of the pair.\<close>

fun radix_passes :: "nat \<Rightarrow> nat \<Rightarrow> nat \<Rightarrow> nat list \<Rightarrow> sym_freq list \<times> sym_freq list \<Rightarrow> sym_freq list \<times> sym_freq list" where
  "radix_passes 0 pass pass_shift hist arrays = arrays"
| "radix_passes (Suc left) pass pass_shift hist (pCur_syms, pNew_syms) =
     (let pHist = take 256 (drop (256 * pass) hist);
          offsets = offsets_loop pHist 0;
          pNew_syms = scatter pass_shift pCur_syms offsets pNew_syms
      in radix_passes left (pass + 1) (pass_shift + 8) hist (pNew_syms, pCur_syms))"

definition tdefl_radix_sort_syms :: "sym_freq list \<Rightarrow> sym_freq list \<Rightarrow> sym_freq list" where
  "tdefl_radix_sort_syms pSyms0 pSyms1 =
     (let hist = count_keys pSyms0 (replicate 512 0);
          total_passes = (if length pSyms0 = hist ! 256 then 1 else 2)
      in fst (radix_passes total_passes 0 0 hist (pSyms0, pSyms1)))"

subsection \<open>Counting\<close>

lemma key_byte_less: "key_byte k s < 256"
proof -
  have "unat (drop_bit k (m_key s) AND 0xFF) \<le> unat (0xFF :: u16)"
    by (rule word_and_le1 [THEN word_le_nat_alt [THEN iffD1]])
  then show ?thesis by (simp add: key_byte_def)
qed

definition count_byte :: "nat \<Rightarrow> sym_freq list \<Rightarrow> nat \<Rightarrow> nat" where
  "count_byte k syms d = length (filter (\<lambda>s. key_byte k s = d) syms)"

lemma count_byte_simps [simp]:
  "count_byte k [] d = 0"
  "count_byte k (s # syms) d = (if key_byte k s = d then 1 else 0) + count_byte k syms d"
  by (simp_all add: count_byte_def)

lemma count_keys_counts:
  "length hist = 512 \<Longrightarrow> length (count_keys syms hist) = 512
    \<and> (\<forall>d < 256. count_keys syms hist ! d = hist ! d + count_byte 0 syms d
        \<and> count_keys syms hist ! (256 + d) = hist ! (256 + d) + count_byte 8 syms d)"
proof (induction syms arbitrary: hist)
  case (Cons s syms)
  let ?h = "incr (incr hist (key_byte 0 s)) (256 + key_byte 8 s)"
  have "length ?h = 512" using Cons.prems by (simp add: incr_def)
  moreover have "?h ! d = hist ! d + (if key_byte 0 s = d then 1 else 0)"
    "?h ! (256 + d) = hist ! (256 + d) + (if key_byte 8 s = d then 1 else 0)" if "d < 256" for d
    using Cons.prems that key_byte_less [of 0 s] key_byte_less [of 8 s] by (auto simp: incr_def nth_list_update)
  ultimately show ?case using Cons.IH [of ?h] by (simp add: Let_def)
qed simp

text \<open>The offset of a digit is the number of symbols with a smaller one.\<close>

lemma offsets_loop_length [simp]: "length (offsets_loop h c) = length h"
  by (induction h c rule: offsets_loop.induct) simp_all

lemma offsets_loop_nth: "d < length h \<Longrightarrow> offsets_loop h c ! d = c + sum_list (take d h)"
  by (induction h c arbitrary: d rule: offsets_loop.induct) (auto simp: nth_Cons' take_Cons' )

subsection \<open>A pass is a stable sort\<close>

definition buckets :: "nat \<Rightarrow> sym_freq list \<Rightarrow> nat \<Rightarrow> sym_freq list" where
  "buckets k syms n = concat (map (\<lambda>d. filter (\<lambda>s. key_byte k s = d) syms) [0..<n])"


lemma buckets_Suc: "buckets k syms (Suc n) = buckets k syms n @ filter (\<lambda>s. key_byte k s = n) syms"
  by (simp add: buckets_def)

lemma buckets_length: "length (buckets k syms n) = (\<Sum>d<n. count_byte k syms d)"
  by (induction n) (simp_all add: buckets_Suc count_byte_def, simp add: buckets_def)

lemma buckets_mset: "mset (buckets k syms n) = mset (filter (\<lambda>s. key_byte k s < n) syms)"
proof (induction n)
  case (Suc n)
  have "mset (filter (\<lambda>s. key_byte k s < Suc n) syms)
      = mset (filter (\<lambda>s. key_byte k s < n) syms) + mset (filter (\<lambda>s. key_byte k s = n) syms)"
    by (induction syms) auto
  then show ?case using Suc by (simp add: buckets_Suc)
qed (simp add: buckets_def)

lemma buckets_256_mset: "mset (buckets k syms 256) = mset syms"
  by (simp add: buckets_mset key_byte_less)

lemma buckets_filter:
  "filter (\<lambda>s. key_byte k s = d) (buckets k syms n) = (if d < n then filter (\<lambda>s. key_byte k s = d) syms else [])"
proof (induction n)
  case (Suc n)
  have "filter (\<lambda>s. key_byte k s = d) (filter (\<lambda>s. key_byte k s = n) syms)
      = (if d = n then filter (\<lambda>s. key_byte k s = d) syms else [])"
    by (auto simp: filter_empty_conv intro: filter_cong)
  then show ?case using Suc by (auto simp: buckets_Suc less_Suc_eq)
qed (simp add: buckets_def)

lemma buckets_sorted: "sorted (map (key_byte k) (buckets k syms n)) \<and> (\<forall>s \<in> set (buckets k syms n). key_byte k s < n)"
proof (induction n)
  case (Suc n)
  have "sorted (map (key_byte k) (filter (\<lambda>s. key_byte k s = n) syms))"
    by (induction syms) auto
  then show ?case using Suc by (force simp: buckets_Suc sorted_append)
qed (simp add: buckets_def)

lemma buckets_sort_key: "buckets k syms 256 = sort_key (key_byte k) syms"
proof (rule properties_for_sort_key [symmetric])
  fix s assume "s \<in> set (buckets k syms 256)"
  have eq: "(\<lambda>x. key_byte k s = key_byte k x) = (\<lambda>x. key_byte k x = key_byte k s)" by auto
  show "filter (\<lambda>x. key_byte k s = key_byte k x) (buckets k syms 256) = filter (\<lambda>x. key_byte k s = key_byte k x) syms"
    unfolding eq by (simp add: buckets_filter key_byte_less)
qed (simp_all add: buckets_256_mset buckets_sorted)

lemma scatter_length [simp]: "length (scatter k syms ofs new) = length new"
  by (induction syms arbitrary: ofs new) (simp_all add: Let_def)

lemma start_step: "d < d' \<Longrightarrow> length (buckets k xs d) + count_byte k xs d \<le> length (buckets k xs d')"
proof -
  assume "d < d'"
  then have "(\<Sum>i<Suc d. count_byte k xs i) \<le> (\<Sum>i<d'. count_byte k xs i)"
    by (intro sum_mono2) auto
  then show ?thesis by (simp add: buckets_length)
qed

lemma scatter_places:
  assumes "xs = zs @ ys" "length new = length xs" "length ofs = 256"
    and "\<And>d. d < 256 \<Longrightarrow> ofs ! d = length (buckets k xs d) + count_byte k zs d"
    and "\<And>d j. d < 256 \<Longrightarrow> j < count_byte k zs d \<Longrightarrow>
        new ! (length (buckets k xs d) + j) = filter (\<lambda>s. key_byte k s = d) zs ! j"
    and "d < 256" "j < count_byte k xs d"
  shows "scatter k ys ofs new ! (length (buckets k xs d) + j) = filter (\<lambda>s. key_byte k s = d) xs ! j"
  using assms
proof (induction ys arbitrary: zs ofs new)
  case (Cons s ys)
  let ?b = "key_byte k s" let ?st = "\<lambda>d. length (buckets k xs d)"
  let ?new = "new[ofs ! ?b := s]"
  have b: "?b < 256" by (rule key_byte_less)
  have total: "length xs = ?st 256"
    using mset_eq_length [OF buckets_256_mset [of k xs]] by simp
  have cb: "count_byte k zs ?b < count_byte k xs ?b"
    using Cons.prems(1) by (simp add: count_byte_def)
  have pos: "ofs ! ?b = ?st ?b + count_byte k zs ?b" using Cons.prems(4) b by simp
  have inb: "ofs ! ?b < length new"
    using pos cb start_step [OF b, of k xs] total Cons.prems(2) by simp
  have keep: "?st d + j \<noteq> ofs ! ?b" if "d < 256" "j < count_byte k zs d" for d j
  proof (cases "d = ?b")
    case False
    have "count_byte k zs d \<le> count_byte k xs d" using Cons.prems(1) by (simp add: count_byte_def)
    then show ?thesis
      using that False start_step [of d ?b k xs] start_step [of ?b d k xs] cb pos
      by (cases "d < ?b") simp_all
  qed (use that pos in simp)
  show ?case
    unfolding scatter.simps Let_def
  proof (rule Cons.IH)
    show "xs = (zs @ [s]) @ ys" "length ?new = length xs" "length (incr ofs ?b) = 256"
      using Cons.prems by (simp_all add: incr_def)
    show "incr ofs ?b ! d = ?st d + count_byte k (zs @ [s]) d" if "d < 256" for d
      using that b Cons.prems(3,4) by (simp add: incr_def nth_list_update count_byte_def)
    show "?new ! (?st d + j) = filter (\<lambda>s. key_byte k s = d) (zs @ [s]) ! j"
      if "d < 256" "j < count_byte k (zs @ [s]) d" for d j
    proof (cases "d = ?b \<and> j = count_byte k zs d")
      case True
      then show ?thesis using pos inb by (simp add: nth_append count_byte_def)
    next
      case False
      then have j: "j < count_byte k zs d" using that(2) by (auto simp: count_byte_def split: if_splits)
      then show ?thesis
        using keep [OF that(1) j] Cons.prems(5) [OF that(1) j] by (simp add: nth_append count_byte_def)
    qed
  qed (use Cons.prems in simp_all)
qed simp

lemma pass_sorts:
  assumes "length new = length xs" "length h = 256" "\<And>d. d < 256 \<Longrightarrow> h ! d = count_byte k xs d"
  shows "scatter k xs (offsets_loop h 0) new = sort_key (key_byte k) xs"
proof -
  let ?r = "scatter k xs (offsets_loop h 0) new" let ?st = "\<lambda>d. length (buckets k xs d)"
  have ofs: "offsets_loop h 0 ! d = ?st d" if "d < 256" for d
  proof -
    have "take d h = map (count_byte k xs) [0..<d]"
      using assms(2,3) that by (intro nth_equalityI) simp_all
    then show ?thesis
      using that assms(2) by (simp add: offsets_loop_nth buckets_length interv_sum_list_conv_sum_set_nat atLeast0LessThan)
  qed
  have total: "length xs = ?st 256"
    using mset_eq_length [OF buckets_256_mset [of k xs]] by simp
  have prefix: "take (?st d) ?r = buckets k xs d" if "d \<le> 256" for d
    using that
  proof (induction d)
    case (Suc d)
    have le: "?st (Suc d) \<le> length ?r"
      using Suc.prems start_step [of "Suc d" 256 k xs] total assms(1) by (cases "Suc d = 256") simp_all
    have "take (count_byte k xs d) (drop (?st d) ?r) = filter (\<lambda>s. key_byte k s = d) xs"
    proof (rule nth_equalityI)
      show "length (take (count_byte k xs d) (drop (?st d) ?r)) = length (filter (\<lambda>s. key_byte k s = d) xs)"
        using le by (simp add: buckets_Suc count_byte_def)
      fix j assume "j < length (take (count_byte k xs d) (drop (?st d) ?r))"
      then have "j < count_byte k xs d" by simp
      then show "take (count_byte k xs d) (drop (?st d) ?r) ! j = filter (\<lambda>s. key_byte k s = d) xs ! j"
        using scatter_places [of xs "[]" xs new "offsets_loop h 0" k d j] assms(1,2) ofs Suc.prems le
        by (simp add: buckets_Suc count_byte_def)
    qed
    moreover have "?st (Suc d) = ?st d + count_byte k xs d" by (simp add: buckets_Suc count_byte_def)
    ultimately show ?case using Suc by (simp add: take_add buckets_Suc)
  qed (simp add: buckets_def)
  have "take (?st 256) ?r = ?r" using total assms(1) by simp
  then show ?thesis using prefix [of 256] by (simp add: buckets_sort_key)
qed


subsection \<open>Two passes sort by the whole key\<close>

lemma m_key_bytes: "unat (m_key s) = 256 * key_byte 8 s + key_byte 0 s"
proof -
  have "unat (m_key s) < 65536" using unsigned_less [of "m_key s"] by simp
  moreover have "key_byte k s = unat (drop_bit k (m_key s)) mod 256" for k
  proof -
    have "(0xFF :: u16) = mask 8" by (simp add: mask_eq_exp_minus_1)
    then have "drop_bit k (m_key s) AND 0xFF = take_bit 8 (drop_bit k (m_key s))" by (simp only: take_bit_eq_mask)
    then show ?thesis
      unfolding key_byte_def by (simp only: unsigned_take_bit_eq) (simp add: take_bit_eq_mod)
  qed
  moreover have "unat (drop_bit 8 (m_key s)) = unat (m_key s) div 256" "drop_bit 0 (m_key s) = m_key s"
    by (simp_all add: drop_bit_eq_div unat_div_distrib)
  ultimately show ?thesis by simp
qed

lemma buckets_lexicographic:
  assumes "sorted (map (key_byte 0) ys)"
  shows "sorted (map (\<lambda>s. unat (m_key s)) (buckets 8 ys n)) \<and> (\<forall>s \<in> set (buckets 8 ys n). key_byte 8 s < n)"
proof (induction n)
  case (Suc n)
  let ?f = "filter (\<lambda>s. key_byte 8 s = n) ys"
  have "sorted (map (key_byte 0) ?f)" using assms by (rule sorted_filter)
  then have "sorted_wrt (\<lambda>s t. key_byte 0 s \<le> key_byte 0 t) ?f" by (simp add: sorted_map)
  then have "sorted (map (\<lambda>s. unat (m_key s)) ?f)"
    unfolding sorted_map by (rule sorted_wrt_mono_rel [rotated]) (auto simp: m_key_bytes)
  moreover have "unat (m_key s) \<le> unat (m_key t)" if "key_byte 8 s < n" "key_byte 8 t = n" for s t
    using that key_byte_less [of 0 s] by (simp add: m_key_bytes)
  ultimately show ?case using Suc by (auto simp: buckets_Suc sorted_append less_Suc_eq)
qed (simp add: buckets_def)

lemma two_passes:
  "sort_key (key_byte 8) (sort_key (key_byte 0) syms) = sort_key (\<lambda>s. unat (m_key s)) syms"
proof (rule properties_for_sort_key [symmetric])
  fix s
  let ?two = "sort_key (key_byte 8) (sort_key (key_byte 0) syms)"
  have refine: "filter (\<lambda>x. unat (m_key s) = unat (m_key x)) xs
      = filter (\<lambda>x. unat (m_key s) = unat (m_key x)) (filter (\<lambda>x. key_byte k x = key_byte k s) xs)" for k xs
    by (auto simp: word_unat_eq_iff [symmetric] key_byte_def intro!: filter_cong)
  show "filter (\<lambda>x. unat (m_key s) = unat (m_key x)) ?two = filter (\<lambda>x. unat (m_key s) = unat (m_key x)) syms"
    by (subst refine [of _ 8], subst sort_key_stable, subst refine [of _ 8, symmetric],
        subst refine [of _ 0], subst sort_key_stable, subst refine [of _ 0, symmetric]) (rule refl)
  show "sorted (map (\<lambda>s. unat (m_key s)) ?two)"
    using buckets_lexicographic [of "sort_key (key_byte 0) syms" 256] by (simp add: buckets_sort_key)
qed simp

lemma high_bytes_zero:
  assumes "count_byte 8 syms 0 = length syms"
  shows "sort_key (key_byte 8) (sort_key (key_byte 0) syms) = sort_key (key_byte 0) syms"
proof -
  have "\<forall>s \<in> set syms. key_byte 8 s = 0"
    using assms length_filter_less [of _ syms "\<lambda>s. key_byte 8 s = 0"] by (fastforce simp: count_byte_def)
  then have "map (key_byte 8) (sort_key (key_byte 0) syms) = replicate (length syms) 0"
    by (intro replicate_eqI) auto
  then have "sorted (map (key_byte 8) (sort_key (key_byte 0) syms))" by (simp only: sorted_replicate)
  then show ?thesis by (rule sort_key_id_if_sorted)
qed

lemma radix_sort_sorts:
  assumes "length pSyms1 = length pSyms0"
  shows "tdefl_radix_sort_syms pSyms0 pSyms1 = sort_key (\<lambda>s. unat (m_key s)) pSyms0"
proof -
  let ?hist = "count_keys pSyms0 (replicate 512 0)"
  have hist: "length ?hist = 512" "?hist ! d = count_byte 0 pSyms0 d" "?hist ! (256 + d) = count_byte 8 pSyms0 d"
    if "d < 256" for d
    using that count_keys_counts [of "replicate 512 0" pSyms0] by simp_all
  have one: "scatter 0 pSyms0 (offsets_loop (take 256 ?hist) 0) pSyms1 = sort_key (key_byte 0) pSyms0"
    using assms hist [of 0] by (intro pass_sorts) (simp_all add: hist(2))
  have two: "scatter 8 ys (offsets_loop (take 256 (drop 256 ?hist)) 0) pSyms0 = sort_key (key_byte 8) ys"
    if ys: "ys = sort_key (key_byte 0) pSyms0" for ys
  proof (rule pass_sorts)
    have "count_byte 8 ys d = count_byte 8 pSyms0 d" for d
      using ys by (simp add: count_byte_def flip: size_mset)
    then show "take 256 (drop 256 ?hist) ! d = count_byte 8 ys d" if "d < 256" for d
      using that hist [of d] by simp
  qed (use hist [of 0] ys in simp_all)
  show ?thesis
    using hist [of 0] one two [OF refl] two_passes [of pSyms0] high_bytes_zero [of pSyms0]
    by (simp add: tdefl_radix_sort_syms_def Let_def numeral_2_eq_2)
qed

text \<open>C40: the two passes of \<open>tdefl_radix_sort_syms\<close>, or the one when every frequency is below 256,
  sort the symbols by frequency and keep symbols of equal frequency in their order: the histogram,
  the offsets and the alternating arrays implement a stable sort on the whole 16-bit key, whatever
  the second array held before.\<close>

theorem tdefl_radix_sort_syms_stable:
  assumes "length pSyms1 = length pSyms0"
  shows "tdefl_radix_sort_syms pSyms0 pSyms1 = sort_key (\<lambda>s. unat (m_key s)) pSyms0"
  by (rule radix_sort_sorts [OF assms])

lemma tdefl_radix_sort_syms_stable_witness:
  "tdefl_radix_sort_syms [\<lparr>m_key = 7, m_sym_index = 0\<rparr>, \<lparr>m_key = 5, m_sym_index = 1\<rparr>, \<lparr>m_key = 7, m_sym_index = 2\<rparr>]
     (replicate 3 \<lparr>m_key = 0, m_sym_index = 0\<rparr>)
   = [\<lparr>m_key = 5, m_sym_index = 1\<rparr>, \<lparr>m_key = 7, m_sym_index = 0\<rparr>, \<lparr>m_key = 7, m_sym_index = 2\<rparr>]"
  using tdefl_radix_sort_syms_stable
    [of "replicate 3 \<lparr>m_key = 0, m_sym_index = 0\<rparr>"
        "[\<lparr>m_key = 7, m_sym_index = 0\<rparr>, \<lparr>m_key = 5, m_sym_index = 1\<rparr>, \<lparr>m_key = 7, m_sym_index = 2\<rparr>]"]
  by simp

end
