(* ===== verification/HuffLengths.thy ===== *)
theory HuffLengths
  imports RadixSort
begin

text \<open>
  \<open>tdefl_calculate_minimum_redundancy\<close> of miniz (src/packages/miniz/src/main/c/miniz.c): the lengths of a
  Huffman code, computed in the array of the sorted frequencies.  A first pass merges the two
  lightest nodes and leaves parent indices behind, a second one replaces them by depths of internal
  nodes, a third one gives the leaves their depths.  A write before the array is \<open>None\<close>.
\<close>

subsection \<open>The three passes\<close>

definition key_at :: "sym_freq list \<Rightarrow> nat \<Rightarrow> u16" where
  "key_at A i = m_key (A ! i)"

definition set_key :: "sym_freq list \<Rightarrow> nat \<Rightarrow> u16 \<Rightarrow> sym_freq list" where
  "set_key A i v = A[i := (A ! i)\<lparr>m_key := v\<rparr>]"

definition take_first :: "nat \<Rightarrow> nat \<Rightarrow> sym_freq list \<times> nat \<times> nat \<Rightarrow> sym_freq list \<times> nat \<times> nat" where
  "take_first n next' s =
     (case s of (A, root, leaf) \<Rightarrow>
        if leaf \<ge> n \<or> key_at A root < key_at A leaf then
          (let A = set_key A next' (key_at A root) in (set_key A root (of_nat next'), root + 1, leaf))
        else (set_key A next' (key_at A leaf), root, leaf + 1))"

definition take_second :: "nat \<Rightarrow> nat \<Rightarrow> sym_freq list \<times> nat \<times> nat \<Rightarrow> sym_freq list \<times> nat \<times> nat" where
  "take_second n next' s =
     (case s of (A, root, leaf) \<Rightarrow>
        if leaf \<ge> n \<or> (root < next' \<and> key_at A root < key_at A leaf) then
          (let A = set_key A next' (key_at A next' + key_at A root) in (set_key A root (of_nat next'), root + 1, leaf))
        else (set_key A next' (key_at A next' + key_at A leaf), root, leaf + 1))"

function merge_loop :: "nat \<Rightarrow> nat \<Rightarrow> sym_freq list \<times> nat \<times> nat \<Rightarrow> sym_freq list \<times> nat \<times> nat" where
  "merge_loop n next' s =
     (if next' < n - 1 then merge_loop n (next' + 1) (take_second n next' (take_first n next' s)) else s)"
  by pat_completeness auto
termination by (relation "measure (\<lambda>(n, next', _). n - next')") auto

fun depth_loop :: "nat \<Rightarrow> sym_freq list \<Rightarrow> sym_freq list" where
  "depth_loop 0 A = A"
| "depth_loop (Suc next') A = depth_loop next' (set_key A next' (key_at A (unat (key_at A next')) + 1))"

function count_internal :: "sym_freq list \<Rightarrow> nat \<Rightarrow> nat \<times> int \<Rightarrow> nat \<times> int" where
  "count_internal A dpth (used, root) =
     (if root \<ge> 0 \<and> unat (key_at A (nat root)) = dpth then count_internal A dpth (used + 1, root - 1)
      else (used, root))"
  by pat_completeness auto
termination by (relation "measure (\<lambda>(_, _, _, root). nat (root + 1))") auto

function place_leaves :: "nat \<Rightarrow> nat \<Rightarrow> nat \<Rightarrow> sym_freq list \<times> int \<Rightarrow> (sym_freq list \<times> int) option" where
  "place_leaves dpth used avbl (A, next') =
     (if avbl > used then
        if next' < 0 then None
        else place_leaves dpth used (avbl - 1) (set_key A (nat next') (of_nat dpth), next' - 1)
      else Some (A, next'))"
  by pat_completeness auto
termination by (relation "measure (\<lambda>(_, _, avbl, _). avbl)") auto

declare merge_loop.simps [simp del] count_internal.simps [simp del] place_leaves.simps [simp del]

lemma count_internal_root:
  "count_internal A dpth (used, root) = (used', root') \<Longrightarrow>
     root' + int used' = root + int used \<and> used \<le> used' \<and> (used < used' \<longrightarrow> root \<ge> 0)"
proof (induction A dpth "(used, root)" arbitrary: used root rule: count_internal.induct)
  case (1 A dpth used root)
  then show ?case
    by (subst (asm) count_internal.simps) (auto split: if_splits)
qed

text \<open>Every level either has internal nodes, and then fewer are left, or is the last one.\<close>

function levels :: "nat \<Rightarrow> nat \<Rightarrow> int \<Rightarrow> sym_freq list \<times> int \<Rightarrow> sym_freq list option" where
  "levels avbl dpth root (A, next') =
     (if avbl > 0 then
        let (used, root) = count_internal A dpth (0, root) in
        case place_leaves dpth used avbl (A, next') of
          None \<Rightarrow> None
        | Some (A, next') \<Rightarrow> levels (2 * used) (dpth + 1) root (A, next')
      else Some A)"
  by pat_completeness auto
termination
proof (relation "measures [\<lambda>(_, _, root, _). nat (root + 1), \<lambda>(avbl, _). avbl]", goal_cases)
  case (2 avbl dpth root A next' x used root' B next'')
  then have "count_internal A dpth (0, root) = (used, root')" by simp
  from count_internal_root [OF this] \<open>0 < avbl\<close> show ?case by (cases "used = 0") simp_all
qed simp

declare levels.simps [simp del]

definition tdefl_calculate_minimum_redundancy :: "sym_freq list \<Rightarrow> sym_freq list option" where
  "tdefl_calculate_minimum_redundancy A =
     (let n = length A in
      if n = 0 then Some A
      else if n = 1 then Some (set_key A 0 1)
      else
        let A = set_key A 0 (key_at A 0 + key_at A 1);
            (A, root, leaf) = merge_loop n 1 (A, 0, 2);
            A = set_key A (n - 2) 0;
            A = depth_loop (n - 2) A
        in levels 1 0 (int n - 2) (A, int n - 1))"

subsection \<open>Merging: parent indices\<close>

lemma length_set_key [simp]: "length (set_key A i v) = length A"
  by (simp add: set_key_def)

lemma key_at_set_key: "key_at (set_key A i v) j = (if i = j \<and> i < length A then v else key_at A j)"
  by (cases "i < length A") (simp_all add: key_at_def set_key_def nth_list_update list_update_beyond)

lemma sym_index_set_key [simp]: "map m_sym_index (set_key A i v) = map m_sym_index A"
  by (cases "i < length A") (simp_all add: set_key_def map_update list_update_same_conv list_update_beyond)

lemma of_nat_u16: "k < 65536 \<Longrightarrow> unat (of_nat k :: u16) = k"
  by (simp add: unat_of_nat take_bit_eq_mod)

text \<open>The parents of the \<open>root\<close> internal nodes merged so far: each lies above its child, they come in
  order, and no node has three children among them.\<close>

definition parents_ok :: "(nat \<Rightarrow> nat) \<Rightarrow> nat \<Rightarrow> nat \<Rightarrow> bool" where
  "parents_ok par root bound \<longleftrightarrow>
     (\<forall>i < root. i < par i \<and> par i < bound \<and> (\<forall>j < i. par j \<le> par i) \<and> (i \<ge> 2 \<longrightarrow> par (i - 2) < par i))"

lemma parents_okD:
  assumes "parents_ok par root bound"
  shows "i < root \<Longrightarrow> i < par i" "i < root \<Longrightarrow> par i < bound"
    "i \<le> j \<Longrightarrow> j < root \<Longrightarrow> par i \<le> par j" "i + 2 \<le> j \<Longrightarrow> j < root \<Longrightarrow> par i < par j"
proof -
  show 1: "i < par i" "par i < bound" if "i < root" using that assms by (auto simp: parents_ok_def)
  show mono: "par i \<le> par j" if "i \<le> j" "j < root" for i j
    using that assms by (cases "i = j") (auto simp: parents_ok_def)
  show "par i < par j" if "i + 2 \<le> j" "j < root"
  proof -
    have "par (j - 2) < par j" using that assms by (simp add: parents_ok_def)
    moreover have "par i \<le> par (j - 2)" using that by (intro mono) simp_all
    ultimately show ?thesis by simp
  qed
qed

lemma parents_extend:
  assumes "parents_ok par root next'" "\<And>i. i < root \<Longrightarrow> par' i = par i"
    "\<And>i. root \<le> i \<Longrightarrow> i < root' \<Longrightarrow> par' i = next'" "root \<le> root'" "root' \<le> root + 2" "root' \<le> next'"
  shows "parents_ok par' root' (Suc next')"
  unfolding parents_ok_def
proof (intro allI impI)
  fix i assume i: "i < root'"
  show "i < par' i \<and> par' i < Suc next' \<and> (\<forall>j < i. par' j \<le> par' i) \<and> (i \<ge> 2 \<longrightarrow> par' (i - 2) < par' i)"
  proof (cases "i < root")
    case True
    then show ?thesis using assms(1,2) by (auto simp: parents_ok_def less_Suc_eq)
  next
    case False
    then have "par' i = next'" using assms(3) i by simp
    moreover have "par' j \<le> next'" if "j < i" for j
      using assms(1,2,3) that i by (cases "j < root") (auto simp: parents_ok_def less_imp_le)
    moreover have "par' (i - 2) < next'" if "i \<ge> 2"
      using assms(1,2,5) that i by (auto simp: parents_ok_def)
    ultimately show ?thesis using i assms(6) by auto
  qed
qed

abbreviation par_of :: "sym_freq list \<Rightarrow> nat \<Rightarrow> nat" where
  "par_of A i \<equiv> unat (key_at A i)"

definition merge_inv :: "nat \<Rightarrow> nat \<Rightarrow> sym_freq list \<times> nat \<times> nat \<Rightarrow> bool" where
  "merge_inv n next' s \<longleftrightarrow>
     (case s of (A, root, leaf) \<Rightarrow>
        length A = n \<and> root + leaf = 2 * next' \<and> root < next' \<and> leaf \<le> n \<and> parents_ok (par_of A) root next')"

lemma take_first_step:
  assumes "length A = n" "next' < n" "next' < 65536" "root < next'" "leaf \<le> n" "take_first n next' (A, root, leaf) = (B, r, l)"
  shows "length B = n \<and> l \<le> n \<and> (\<forall>i < root. key_at B i = key_at A i)
    \<and> (r = root + 1 \<and> l = leaf \<and> par_of B root = next' \<or> r = root \<and> l = leaf + 1)"
  using assms by (auto simp: take_first_def Let_def key_at_set_key of_nat_u16 split: if_splits)

lemma take_second_step:
  assumes "length A = n" "next' < n" "next' < 65536" "root \<le> next'" "leaf \<le> n" "leaf = n \<Longrightarrow> root < next'"
    "take_second n next' (A, root, leaf) = (B, r, l)"
  shows "length B = n \<and> l \<le> n \<and> (\<forall>i < root. key_at B i = key_at A i)
    \<and> (r = root + 1 \<and> l = leaf \<and> par_of B root = next' \<and> root < next' \<or> r = root \<and> l = leaf + 1)"
  using assms by (auto simp: take_second_def Let_def key_at_set_key of_nat_u16 split: if_splits)

lemma merge_step:
  assumes inv: "merge_inv n next' s" and bounds: "next' < n - 1" "n < 65536"
  shows "merge_inv n (Suc next') (take_second n next' (take_first n next' s))"
proof -
  obtain A root leaf where s: "s = (A, root, leaf)" by (cases s)
  obtain B r l where B: "take_first n next' s = (B, r, l)" by (cases "take_first n next' s")
  obtain C r' l' where C: "take_second n next' (B, r, l) = (C, r', l')" by (cases "take_second n next' (B, r, l)")
  have A: "length A = n" "root + leaf = 2 * next'" "root < next'" "leaf \<le> n" "parents_ok (par_of A) root next'"
    using inv by (auto simp: merge_inv_def s)
  have first: "length B = n \<and> l \<le> n \<and> (\<forall>i < root. key_at B i = key_at A i)
      \<and> (r = root + 1 \<and> l = leaf \<and> par_of B root = next' \<or> r = root \<and> l = leaf + 1)"
    using A bounds B by (intro take_first_step) (simp_all add: s)
  have second: "length C = n \<and> l' \<le> n \<and> (\<forall>i < r. key_at C i = key_at B i)
      \<and> (r' = r + 1 \<and> l' = l \<and> par_of C r = next' \<and> r < next' \<or> r' = r \<and> l' = l + 1)"
    using A bounds first C by (intro take_second_step) auto
  have "parents_ok (par_of C) r' (Suc next')"
  proof (rule parents_extend [OF A(5)])
    show "par_of C i = par_of A i" if "i < root" for i using that first second by auto
    show "par_of C i = next'" if "root \<le> i" "i < r'" for i
      using that first second by (cases "i = root") (auto simp: less_Suc_eq)
  qed (use A first second in auto)
  then show ?thesis using A first second by (auto simp: B C merge_inv_def)
qed

lemma merge_loop_inv:
  assumes "merge_inv n next' s" "next' \<le> n - 1" "n < 65536"
  shows "merge_inv n (n - 1) (merge_loop n next' s)"
  using assms
proof (induction n next' s rule: merge_loop.induct)
  case (1 n next' s)
  then show ?case
    using merge_step [of n next' s] by (subst merge_loop.simps) auto
qed

lemma merge_loop_sym: "map m_sym_index (fst (merge_loop n next' s)) = map m_sym_index (fst s)"
proof (induction n next' s rule: merge_loop.induct)
  case (1 n next' s)
  have "map m_sym_index (fst (take_second n next' (take_first n next' s))) = map m_sym_index (fst s)"
    by (auto simp: take_first_def take_second_def Let_def split: prod.splits)
  then show ?case using 1 by (subst merge_loop.simps) simp
qed

subsection \<open>Depths of the internal nodes\<close>

definition depths_ok :: "nat \<Rightarrow> (nat \<Rightarrow> nat) \<Rightarrow> (nat \<Rightarrow> nat) \<Rightarrow> bool" where
  "depths_ok m par d \<longleftrightarrow> d m = 0 \<and> (\<forall>i < m. d i = Suc (d (par i)))"

lemma depth_loop_spec:
  assumes "length A = n" "m < n" "n < 65536" "k \<le> m" "parents_ok par m (Suc m)"
    "\<And>i. i < k \<Longrightarrow> par_of A i = par i"
    "\<And>i. k \<le> i \<Longrightarrow> i < m \<Longrightarrow> par_of A i = Suc (par_of A (par i))"
    "\<And>i. k \<le> i \<Longrightarrow> i \<le> m \<Longrightarrow> par_of A i \<le> m - i"
  shows "length (depth_loop k A) = n \<and> map m_sym_index (depth_loop k A) = map m_sym_index A
    \<and> depths_ok m par (par_of (depth_loop k A))"
  using assms
proof (induction k arbitrary: A)
  case 0
  then show ?case using "0.prems"(8) [of m] by (auto simp: depths_ok_def)
next
  case (Suc k)
  let ?A = "set_key A k (key_at A (unat (key_at A k)) + 1)"
  have par: "k < par i" "par i \<le> m" if "k \<le> i" "i < m" for i
    using that Suc.prems(5) by (force simp: parents_ok_def)+
  have "par_of A k = par k" using Suc.prems by simp
  moreover have "par_of A (par k) \<le> m - par k" using Suc.prems(4,8) par [of k] by simp
  then have "par_of A (par k) + 1 < 65536" using Suc.prems(2,3) by simp
  then have "unat (key_at A (par k) + 1) = Suc (par_of A (par k))" by (simp add: unat_word_ariths)
  ultimately have new: "par_of ?A k = Suc (par_of A (par k))"
    using Suc.prems by (simp add: key_at_set_key)
  have old: "par_of ?A i = par_of A i" if "i \<noteq> k" for i using that by (simp add: key_at_set_key)
  have "length (depth_loop k ?A) = n \<and> map m_sym_index (depth_loop k ?A) = map m_sym_index ?A
      \<and> depths_ok m par (par_of (depth_loop k ?A))"
  proof (rule Suc.IH)
    show "par_of ?A i = Suc (par_of ?A (par i))" if "k \<le> i" "i < m" for i
      using that new old par [of i] Suc.prems(7) [of i] by (cases "i = k") (simp_all add: Suc_le_eq)
    show "par_of ?A i \<le> m - i" if "k \<le> i" "i \<le> m" for i
    proof (cases "i = k")
      case True
      then show ?thesis using new \<open>par_of A (par k) \<le> m - par k\<close> par [of k] Suc.prems(4) by simp
    next
      case False
      then show ?thesis using that old Suc.prems(8) [of i] by simp
    qed
  qed (use Suc.prems old in simp_all)
  then show ?case by simp
qed

lemma depths_mono:
  assumes "parents_ok par m (Suc m)" "depths_ok m par d" "i \<le> j" "j \<le> m"
  shows "d j \<le> d i"
  using assms(3,4)
proof (induction "m - i" arbitrary: i j rule: less_induct)
  case less
  show ?case
  proof (cases "i = j \<or> j = m")
    case True
    then show ?thesis using assms(2) by (auto simp: depths_ok_def)
  next
    case False
    then have j: "i < j" "j < m" using less.prems by auto
    have "i < par i" "par i \<le> par j" "par j \<le> m" "i < m"
      using assms(1) j by (auto simp: parents_ok_def less_Suc_eq_le)
    then have "d (par j) \<le> d (par i)" using less.hyps [of "par i" "par j"] by auto
    then show ?thesis using assms(2) j \<open>i < m\<close> by (auto simp: depths_ok_def)
  qed
qed

definition level_set :: "nat \<Rightarrow> (nat \<Rightarrow> nat) \<Rightarrow> nat \<Rightarrow> nat set" where
  "level_set m d k = {i. i \<le> m \<and> d i = k}"

lemma level_set_finite [simp]: "finite (level_set m d k)"
  by (rule finite_subset [of _ "{..m}"]) (auto simp: level_set_def)

lemma level_set_double:
  assumes "parents_ok par m (Suc m)" "depths_ok m par d"
  shows "card (level_set m d (Suc k)) \<le> 2 * card (level_set m d k)"
proof -
  let ?f = "\<lambda>i. (par i, i mod 2)"
  have sub: "i < m" "par i \<le> m" if "i \<in> level_set m d (Suc k)" for i
    using that assms by (auto simp: level_set_def depths_ok_def parents_ok_def less_Suc_eq_le le_less)
  have "inj_on ?f (level_set m d (Suc k))"
  proof (rule linorder_inj_onI)
    fix i j assume ij: "i < j" "i \<in> level_set m d (Suc k)" "j \<in> level_set m d (Suc k)"
    show "?f i \<noteq> ?f j"
    proof (cases "j = Suc i")
      case True
      then show ?thesis by (auto simp: mod_Suc split: if_splits)
    next
      case False
      then have "par i < par j" using ij sub [of j] by (intro parents_okD [OF assms(1)]) simp_all
      then show ?thesis by simp
    qed
  qed auto
  moreover have "?f ` level_set m d (Suc k) \<subseteq> level_set m d k \<times> {0, 1}"
    using sub assms(2) by (fastforce simp: level_set_def depths_ok_def)
  ultimately have "card (level_set m d (Suc k)) \<le> card (level_set m d k \<times> {0, 1 :: nat})"
    by (intro card_inj_on_le) auto
  then show ?thesis by simp
qed

lemma level_set_0:
  assumes "depths_ok m par d"
  shows "level_set m d 0 = {m}"
  using assms by (auto simp: level_set_def depths_ok_def le_less)

subsection \<open>Depths of the leaves\<close>

lemma count_internal_spec:
  assumes "\<And>i j. i \<le> j \<Longrightarrow> int j \<le> root \<Longrightarrow> d j \<le> d i"
    "\<And>i. int i \<le> root \<Longrightarrow> par_of A i = d i \<and> dpth \<le> d i"
  shows "\<exists>c. count_internal A dpth (used, root) = (used + c, root - int c)
    \<and> {i. int i \<le> root \<and> d i = dpth} = {i. int i \<le> root \<and> root - int c < int i}
    \<and> (root < 0 \<longrightarrow> c = 0) \<and> (root \<ge> 0 \<longrightarrow> int c \<le> root + 1)"
  using assms
proof (induction A dpth "(used, root)" arbitrary: used root rule: count_internal.induct)
  case (1 A dpth used root)
  show ?case
  proof (cases "root \<ge> 0 \<and> d (nat root) = dpth")
    case True
    then have cond: "root \<ge> 0 \<and> par_of A (nat root) = dpth" using "1.prems"(2) [of "nat root"] by simp
    then have run: "count_internal A dpth (used, root) = count_internal A dpth (used + 1, root - 1)"
      by (subst count_internal.simps) simp
    obtain c where c: "count_internal A dpth (used + 1, root - 1) = (used + 1 + c, root - 1 - int c)"
      "{i. int i \<le> root - 1 \<and> d i = dpth} = {i. int i \<le> root - 1 \<and> root - 1 - int c < int i}"
      "root - 1 < 0 \<longrightarrow> c = 0" "root - 1 \<ge> 0 \<longrightarrow> int c \<le> root"
      using "1.hyps" [OF cond] "1.prems" True by force
    have "{i. int i \<le> root \<and> d i = dpth} = insert (nat root) {i. int i \<le> root - 1 \<and> d i = dpth}"
      using True by auto
    also have "\<dots> = {i. int i \<le> root \<and> root - int (Suc c) < int i}"
      unfolding c(2) using True by auto
    finally show ?thesis using run c True by (intro exI [of _ "Suc c"]) auto
  next
    case False
    have "d i \<noteq> dpth" if "int i \<le> root" for i
    proof -
      have "root \<ge> 0" "i \<le> nat root" using that by simp_all
      then show ?thesis
        using "1.prems"(1) [of i "nat root"] "1.prems"(2) [of "nat root"] False by auto
    qed
    then have "{i. int i \<le> root \<and> d i = dpth} = {}" by auto
    moreover have "count_internal A dpth (used, root) = (used, root)"
      using "1.prems"(2) [of "nat root"] False by (subst count_internal.simps) auto
    ultimately show ?thesis by (intro exI [of _ 0]) auto
  qed
qed

lemma place_leaves_spec:
  assumes "used \<le> avbl" "int (avbl - used) \<le> next' + 1" "next' < int (length A)"
  shows "\<exists>B. place_leaves dpth used avbl (A, next') = Some (B, next' - int (avbl - used))
    \<and> length B = length A \<and> map m_sym_index B = map m_sym_index A
    \<and> (\<forall>j. key_at B j = (if next' - int (avbl - used) < int j \<and> int j \<le> next' then of_nat dpth else key_at A j))"
  using assms
proof (induction dpth used avbl "(A, next')" arbitrary: A next' rule: place_leaves.induct)
  case (1 dpth used avbl A next')
  show ?case
  proof (cases "avbl > used")
    case True
    let ?A = "set_key A (nat next') (of_nat dpth)"
    have nonneg: "next' \<ge> 0" using True "1.prems"(2) by simp
    then have "\<not> next' < 0" by simp
    then obtain B where B: "place_leaves dpth used (avbl - 1) (?A, next' - 1) = Some (B, next' - 1 - int (avbl - 1 - used))"
      "length B = length A" "map m_sym_index B = map m_sym_index A"
      "\<And>j. key_at B j = (if next' - 1 - int (avbl - 1 - used) < int j \<and> int j \<le> next' - 1 then of_nat dpth else key_at ?A j)"
      using "1.hyps" [OF True] "1.prems" nonneg True by fastforce
    have run: "place_leaves dpth used avbl (A, next') = place_leaves dpth used (avbl - 1) (?A, next' - 1)"
      using True nonneg by (subst place_leaves.simps) simp
    have e: "next' - 1 - int (avbl - 1 - used) = next' - int (avbl - used)" using True by simp
    have "key_at B j = (if next' - int (avbl - used) < int j \<and> int j \<le> next' then of_nat dpth else key_at A j)" for j
    proof -
      obtain k where k: "next' = int k" using nonneg nonneg_eq_int by blast
      show ?thesis using "1.prems"(3) True unfolding B(4) e k by (auto simp: key_at_set_key)
    qed
    then show ?thesis using B(1-3) unfolding run e by blast
  next
    case False
    then have "place_leaves dpth used avbl (A, next') = Some (A, next')"
      by (subst place_leaves.simps) simp
    then show ?thesis using False "1.prems"(1) by auto
  qed
qed

text \<open>At the head of a level the leaves placed so far and the free places at this depth fill the code
  space: the sum of \<open>2 ^ -length\<close> is 1, scaled here by the greatest length there can be.\<close>

definition leaves_ok :: "nat \<Rightarrow> nat \<Rightarrow> int \<Rightarrow> sym_freq list \<Rightarrow> bool" where
  "leaves_ok m dpth next' A \<longleftrightarrow>
     (\<forall>j. next' < int j \<and> j < m + 2 \<longrightarrow> 1 \<le> par_of A j \<and> par_of A j < dpth \<and> par_of A j \<le> m + 1)
     \<and> (\<forall>j j'. next' < int j \<and> j \<le> j' \<and> j' < m + 2 \<longrightarrow> par_of A j' \<le> par_of A j)"

definition code_space :: "nat \<Rightarrow> int \<Rightarrow> sym_freq list \<Rightarrow> nat" where
  "code_space m next' A = (\<Sum>j | next' < int j \<and> j < m + 2. 2 ^ (m + 1 - par_of A j))"

text \<open>At each depth, the leaves and the internal nodes are the children of the nodes above.\<close>

definition slots :: "nat \<Rightarrow> (nat \<Rightarrow> nat) \<Rightarrow> nat \<Rightarrow> nat" where
  "slots m d k = (if k = 0 then 1 else 2 * card (level_set m d (k - 1)))"

definition leaf_count :: "nat \<Rightarrow> int \<Rightarrow> sym_freq list \<Rightarrow> nat \<Rightarrow> nat" where
  "leaf_count m next' A k = card {j. next' < int j \<and> j < m + 2 \<and> par_of A j = k}"

definition level_inv :: "nat \<Rightarrow> (nat \<Rightarrow> nat) \<Rightarrow> nat \<Rightarrow> nat \<Rightarrow> int \<Rightarrow> sym_freq list \<times> int \<Rightarrow> bool" where
  "level_inv m d avbl dpth root s \<longleftrightarrow>
     (case s of (A, next') \<Rightarrow>
        length A = m + 2 \<and> next' = root + int avbl \<and> -1 \<le> root \<and> root \<le> int m \<and> next' \<le> int m + 1
        \<and> (\<forall>i. int i \<le> root \<longrightarrow> par_of A i = d i \<and> dpth \<le> d i) \<and> (\<forall>i \<le> m. root < int i \<longrightarrow> d i < dpth)
        \<and> card (level_set m d dpth) \<le> avbl \<and> (dpth = 0 \<longrightarrow> avbl = 1) \<and> (0 < avbl \<longrightarrow> int dpth \<le> int m - root)
        \<and> leaves_ok m dpth next' A \<and> code_space m next' A + avbl * 2 ^ (m + 1 - dpth) = 2 ^ (m + 1)
        \<and> avbl = slots m d dpth \<and> (\<forall>k < dpth. leaf_count m next' A k + card (level_set m d k) = slots m d k))"

lemma level_nonempty:
  assumes "parents_ok par m (Suc m)" "depths_ok m par d" "level_inv m d avbl dpth root (A, next')" "root \<ge> 0"
  shows "nat root \<in> level_set m d dpth"
proof (cases "nat root = m")
  case True
  have "int (nat root) = root" using assms(4) by simp
  then have "dpth \<le> d m" using assms(3) unfolding level_inv_def True by simp
  then show ?thesis unfolding True using assms(2) by (simp add: level_set_def depths_ok_def)
next
  case False
  let ?r = "nat root"
  have r: "?r < m" "int ?r = root" using False assms(3,4) by (auto simp: level_inv_def)
  have "?r < par ?r" "par ?r \<le> m" using parents_okD(1,2) [OF assms(1) r(1)] by simp_all
  then have "d (par ?r) < dpth" using assms(3,4) by (auto simp: level_inv_def)
  moreover have "d ?r = Suc (d (par ?r))" using assms(2) r(1) by (simp add: depths_ok_def)
  moreover have "dpth \<le> d ?r" using assms(3) r(2) by (simp add: level_inv_def)
  ultimately show ?thesis using r by (simp add: level_set_def)
qed

lemma code_space_place:
  assumes "0 \<le> next'' + 1" "next'' \<le> next'" "next' \<le> int m + 1"
    "\<And>j. par_of B j = (if next'' < int j \<and> int j \<le> next' then dpth else par_of A j)"
  shows "code_space m next'' B = code_space m next' A + nat (next' - next'') * 2 ^ (m + 1 - dpth)"
proof -
  let ?new = "{j. next'' < int j \<and> int j \<le> next'}" and ?old = "{j. next' < int j \<and> j < m + 2}"
  have split: "{j. next'' < int j \<and> j < m + 2} = ?new \<union> ?old" using assms(2,3) by auto
  have fin: "finite ?new" by (rule finite_subset [of _ "{..nat next'}"]) auto
  have "?new = {nat (next'' + 1)..<nat (next' + 1)}" using assms(1) by auto
  then have card: "card ?new = nat (next' - next'')" using assms(1) by simp
  have "code_space m next'' B = (\<Sum>j\<in>?new. 2 ^ (m + 1 - par_of B j)) + (\<Sum>j\<in>?old. 2 ^ (m + 1 - par_of B j))"
    unfolding code_space_def split using fin by (intro sum.union_disjoint) auto
  also have "(\<Sum>j\<in>?new. 2 ^ (m + 1 - par_of B j)) = (\<Sum>j\<in>?new. 2 ^ (m + 1 - dpth))"
    by (intro sum.cong) (auto simp: assms(4))
  also have "(\<Sum>j\<in>?old. 2 ^ (m + 1 - par_of B j)) = code_space m next' A"
    unfolding code_space_def by (intro sum.cong) (auto simp: assms(4))
  finally show ?thesis using card by simp
qed

lemma leaf_count_place:
  assumes "0 \<le> next'' + 1" "next'' \<le> next'" "next' \<le> int m + 1"
    "\<And>j. par_of B j = (if next'' < int j \<and> int j \<le> next' then dpth else par_of A j)"
    "\<And>j. next' < int j \<Longrightarrow> j < m + 2 \<Longrightarrow> par_of A j < dpth"
  shows "leaf_count m next'' B k
    = (if k = dpth then nat (next' - next'') else leaf_count m next' A k)"
proof (cases "k = dpth")
  case True
  have that: "next' < int j \<Longrightarrow> j < m + 2 \<Longrightarrow> par_of A j \<noteq> dpth" for j using assms(5) [of j] by simp
  have "(next'' < int j \<and> j < m + 2 \<and> par_of B j = k) = (next'' < int j \<and> int j \<le> next')" for j
  proof (cases "int j \<le> next'")
    case True
    moreover from this have "j < m + 2" using assms(3) by linarith
    ultimately show ?thesis unfolding assms(4) \<open>k = dpth\<close> by simp
  next
    case False
    then show ?thesis using that [of j] unfolding assms(4) \<open>k = dpth\<close> by auto
  qed
  then have "{j. next'' < int j \<and> j < m + 2 \<and> par_of B j = k} = {j. next'' < int j \<and> int j \<le> next'}"
    by (intro Collect_cong)
  also have "\<dots> = {nat (next'' + 1)..<nat (next' + 1)}" using assms(1) by auto
  finally have "{j. next'' < int j \<and> j < m + 2 \<and> par_of B j = k} = {nat (next'' + 1)..<nat (next' + 1)}" .
  then show ?thesis using True assms(1) by (simp add: leaf_count_def)
next
  case False
  have "{j. next'' < int j \<and> j < m + 2 \<and> par_of B j = k} = {j. next' < int j \<and> j < m + 2 \<and> par_of A j = k}"
    using False assms(2) unfolding assms(4) by auto
  then show ?thesis using False by (simp add: leaf_count_def)
qed

lemma level_step:
  assumes par: "parents_ok par m (Suc m)" and d: "depths_ok m par d" and m: "m + 2 < 65536"
    and inv: "level_inv m d avbl dpth root (A, next')" and avbl: "avbl > 0"
  shows "\<exists>c root' B next''. count_internal A dpth (0, root) = (c, root')
    \<and> place_leaves dpth c avbl (A, next') = Some (B, next'')
    \<and> map m_sym_index B = map m_sym_index A \<and> level_inv m d (2 * c) (dpth + 1) root' (B, next'')"
proof -
  have A: "length A = m + 2" "next' = root + int avbl" "-1 \<le> root" "root \<le> int m" "next' \<le> int m + 1"
    "\<And>i. int i \<le> root \<Longrightarrow> par_of A i = d i \<and> dpth \<le> d i" "\<And>i. i \<le> m \<Longrightarrow> root < int i \<Longrightarrow> d i < dpth"
    "card (level_set m d dpth) \<le> avbl" "dpth = 0 \<Longrightarrow> avbl = 1" "int dpth \<le> int m - root"
    "leaves_ok m dpth next' A" "code_space m next' A + avbl * 2 ^ (m + 1 - dpth) = 2 ^ (m + 1)"
    "avbl = slots m d dpth" "\<And>k. k < dpth \<Longrightarrow> leaf_count m next' A k + card (level_set m d k) = slots m d k"
    using inv avbl by (auto simp: level_inv_def)
  obtain c where c: "count_internal A dpth (0, root) = (c, root - int c)"
    "{i. int i \<le> root \<and> d i = dpth} = {i. int i \<le> root \<and> root - int c < int i}"
    "root < 0 \<longrightarrow> c = 0" "root \<ge> 0 \<longrightarrow> int c \<le> root + 1"
    using count_internal_spec [of root d A dpth 0] depths_mono [OF par d] A(4,6) by fastforce
  have lev: "level_set m d dpth = {i. int i \<le> root \<and> d i = dpth}"
    using A(4,7) by (force simp: level_set_def)
  also have "\<dots> = {nat (root - int c + 1)..<nat (root + 1)}"
    unfolding c(2) using c(3,4) A(3) by auto
  finally have card: "card (level_set m d dpth) = c"
    using c(3,4) A(3) by (cases "root < 0") auto
  have cle: "c \<le> avbl" using A(8) card by simp
  have "int (avbl - c) \<le> int avbl" by simp
  then have room: "int (avbl - c) \<le> next' + 1" using A(2,3) by linarith
  obtain B where B: "place_leaves dpth c avbl (A, next') = Some (B, next' - int (avbl - c))"
    "length B = length A" "map m_sym_index B = map m_sym_index A"
    "\<And>j. key_at B j = (if next' - int (avbl - c) < int j \<and> int j \<le> next' then of_nat dpth else key_at A j)"
    using place_leaves_spec [OF cle room, of A] A(1,5) by auto
  let ?next = "next' - int (avbl - c)" and ?root = "root - int c"
  have next'': "?next = root + int c" using A(2) cle by simp
  have dpth: "dpth \<le> m + 1" using A(3,10) by simp
  have keys: "par_of B j = (if ?next < int j \<and> int j \<le> next' then dpth else par_of A j)" for j
    using dpth m by (simp add: B(4) of_nat_u16)
  have "code_space m ?next B = code_space m next' A + nat (next' - ?next) * 2 ^ (m + 1 - dpth)"
    using A(3,5) next'' c(4) cle by (intro code_space_place keys) auto
  moreover have "2 * c * 2 ^ (m + 1 - (dpth + 1)) = c * 2 ^ (m + 1 - dpth)"
    using A(3,10) c(3,4) by (cases "c = 0"; cases "dpth = m + 1") (auto simp: Suc_diff_le)
  moreover have "nat (next' - ?next) = avbl - c" by simp
  moreover have "(avbl - c) * 2 ^ (m + 1 - dpth) + c * 2 ^ (m + 1 - dpth) = avbl * 2 ^ (m + 1 - dpth)"
    using cle by (simp flip: add_mult_distrib)
  ultimately have space: "code_space m ?next B + 2 * c * 2 ^ (m + 1 - (dpth + 1)) = 2 ^ (m + 1)"
    using A(12) by (simp only: add.assoc)
  have lc: "leaf_count m ?next B k = (if k = dpth then avbl - c else leaf_count m next' A k)" for k
    using leaf_count_place [OF _ _ A(5) keys, of k] A(3,11) next'' c(4) cle by (auto simp: leaves_ok_def)
  have counts: "leaf_count m ?next B k + card (level_set m d k) = slots m d k" if "k < dpth + 1" for k
    using that A(13,14) card cle unfolding lc by (cases "k = dpth") simp_all
  have pos: "1 \<le> dpth" if "c < avbl"
    using that A(9) card level_set_0 [OF d] by (cases dpth) auto
  have "leaves_ok m (dpth + 1) ?next B"
    unfolding leaves_ok_def keys using A(11) pos dpth
    by (auto simp: leaves_ok_def less_imp_le intro: less_SucI)
  moreover have "par_of B i = d i \<and> dpth + 1 \<le> d i" if "int i \<le> ?root" for i
  proof -
    have "par_of A i = d i" "dpth \<le> d i" using A(6) [of i] that by auto
    moreover have "i \<notin> {i. int i \<le> root \<and> root - int c < int i}" using that by simp
    then have "d i \<noteq> dpth" unfolding c(2) [symmetric] using that by auto
    ultimately show ?thesis using that unfolding keys next'' by simp
  qed
  moreover have "d i < dpth + 1" if "i \<le> m" "?root < int i" for i
    using A(7) [of i] c(2) that by (cases "int i \<le> root") auto
  moreover have "card (level_set m d (dpth + 1)) \<le> 2 * c"
    using level_set_double [OF par d, of dpth] card by simp
  ultimately have "level_inv m d (2 * c) (dpth + 1) ?root (B, ?next)"
    using A(1,3,4,5,10) B(2) c(3,4) cle next'' space counts card by (auto simp: level_inv_def slots_def)
  then show ?thesis using c(1) B(1,3) by blast
qed

lemma levels_spec:
  assumes "parents_ok par m (Suc m)" "depths_ok m par d" "m + 2 < 65536" "level_inv m d avbl dpth root (A, next')"
  shows "\<exists>B. levels avbl dpth root (A, next') = Some B \<and> length B = m + 2 \<and> map m_sym_index B = map m_sym_index A
    \<and> leaves_ok m (m + 2) (-1) B \<and> code_space m (-1) B = 2 ^ (m + 1)
    \<and> (\<forall>k. leaf_count m (-1) B k + card (level_set m d k) = slots m d k)"
  using assms(4)
proof (induction avbl dpth root "(A, next')" arbitrary: A next' rule: levels.induct)
  case (1 avbl dpth root A next')
  show ?case
  proof (cases "avbl > 0")
    case True
    obtain c root' B next'' where step: "count_internal A dpth (0, root) = (c, root')"
      "place_leaves dpth c avbl (A, next') = Some (B, next'')"
      "map m_sym_index B = map m_sym_index A" "level_inv m d (2 * c) (dpth + 1) root' (B, next'')"
      using level_step [OF assms(1-3) "1.prems" True] by blast
    have "levels avbl dpth root (A, next') = levels (2 * c) (dpth + 1) root' (B, next'')"
      using True step(1,2) by (subst levels.simps) simp
    then show ?thesis using "1.hyps" [OF True step(1) [symmetric] refl step(2) refl step(4)] step(3) by simp
  next
    case False
    have "\<not> root \<ge> 0"
    proof
      assume "root \<ge> 0"
      then have "nat root \<in> level_set m d dpth" by (rule level_nonempty [OF assms(1,2) "1.prems"])
      then have "card (level_set m d dpth) > 0" using card_gt_0_iff level_set_finite by blast
      then show False using "1.prems" False by (simp add: level_inv_def)
    qed
    then have r: "root = -1" "next' = -1" using "1.prems" False by (auto simp: level_inv_def)
    have "leaf_count m (-1) A k + card (level_set m d k) = slots m d k" for k
    proof (cases "k < dpth")
      case True
      then show ?thesis using "1.prems" r by (simp add: level_inv_def)
    next
      case k: False
      have empty: "level_set m d i = {}" if "dpth \<le> i" for i
        using "1.prems" r that by (force simp: level_inv_def level_set_def)
      have "{j. j < m + 2 \<and> par_of A j = k} = {}"
        using "1.prems" r k by (force simp: level_inv_def leaves_ok_def)
      moreover have "slots m d k = 0"
        using "1.prems" False k empty [of "k - 1"] by (cases "k = dpth") (auto simp: level_inv_def slots_def)
      ultimately show ?thesis using empty [of k] k by (simp add: leaf_count_def)
    qed
    then show ?thesis
      using "1.prems" False r by (subst levels.simps) (auto simp: level_inv_def leaves_ok_def less_Suc_eq_le)
  qed
qed

subsection \<open>The whole routine\<close>

lemma level_inv_start:
  assumes "length A = m + 2" "depths_ok m par (par_of A)" "key_at A m = 0" "parents_ok par m (Suc m)"
  shows "level_inv m (par_of A) 1 0 (int m) (A, int m + 1)"
proof -
  have "card (level_set m (par_of A) 0) = 1" using level_set_0 [OF assms(2)] by simp
  moreover have "{j. int m + 1 < int j \<and> j < m + 2} = {}" by auto
  ultimately show ?thesis
    using assms(1) by (auto simp: level_inv_def leaves_ok_def code_space_def slots_def)
qed

lemma minimum_redundancy_lengths:
  assumes "length A = m + 2" "m + 2 < 65536"
  shows "\<exists>B A2 d. tdefl_calculate_minimum_redundancy A = Some B \<and> length B = m + 2 \<and> map m_sym_index B = map m_sym_index A
    \<and> leaves_ok m (m + 2) (-1) B \<and> code_space m (-1) B = 2 ^ (m + 1)
    \<and> merge_loop (m + 2) 1 (set_key A 0 (key_at A 0 + key_at A 1), 0, 2) = (A2, m, m + 2)
    \<and> parents_ok (par_of A2) m (Suc m) \<and> depths_ok m (par_of A2) d
    \<and> (\<forall>k. leaf_count m (-1) B k + card (level_set m d k) = slots m d k)"
proof -
  let ?n = "m + 2"
  let ?A1 = "set_key A 0 (key_at A 0 + key_at A 1)"
  obtain A2 root leaf where m: "merge_loop ?n 1 (?A1, 0, 2) = (A2, root, leaf)"
    by (cases "merge_loop ?n 1 (?A1, 0, 2)")
  let ?A3 = "set_key A2 m 0"
  let ?A4 = "depth_loop m ?A3"
  have "merge_inv ?n 1 (?A1, 0, 2)" using assms by (simp add: merge_inv_def parents_ok_def)
  then have "merge_inv ?n (?n - 1) (A2, root, leaf)"
    unfolding m [symmetric] by (rule merge_loop_inv) (use assms in simp_all)
  then have inv: "length A2 = ?n" "root = m" "leaf = m + 2" "parents_ok (par_of A2) root (Suc m)"
    by (auto simp: merge_inv_def)
  note A2 = inv(1) inv(4) [unfolded inv(2)]
  have "par_of ?A3 m = 0" "\<And>i. i < m \<Longrightarrow> par_of ?A3 i = par_of A2 i"
    using A2(1) by (simp_all add: key_at_set_key)
  then have A4: "length ?A4 = ?n" "map m_sym_index ?A4 = map m_sym_index ?A3" "depths_ok m (par_of A2) (par_of ?A4)"
    using depth_loop_spec [OF _ _ _ le_refl A2(2), of ?A3 ?n] A2(1) assms(2) by simp_all
  have "key_at ?A4 m = 0" using A4(3) unfolding depths_ok_def by (simp add: unat_eq_zero)
  then obtain B where B: "levels 1 0 (int m) (?A4, int m + 1) = Some B" "length B = ?n"
    "map m_sym_index B = map m_sym_index ?A4" "leaves_ok m (m + 2) (-1) B" "code_space m (-1) B = 2 ^ (m + 1)"
    "\<forall>k. leaf_count m (-1) B k + card (level_set m (par_of ?A4) k) = slots m (par_of ?A4) k"
    using levels_spec [OF A2(2) A4(3) assms(2) level_inv_start [OF A4(1,3) _ A2(2)]] by blast
  have "map m_sym_index A2 = map m_sym_index A" using merge_loop_sym [of ?n 1 "(?A1, 0, 2)"] m by simp
  moreover have "tdefl_calculate_minimum_redundancy A = levels 1 0 (int m) (?A4, int m + 1)"
    using assms(1) m by (simp add: tdefl_calculate_minimum_redundancy_def Let_def add.commute)
  ultimately show ?thesis
    using B A4(2) A2(2) A4(3) m inv(2,3)
    by - (rule exI [of _ B], rule exI [of _ A2], rule exI [of _ "par_of ?A4"], simp)
qed

definition code_lengths :: "sym_freq list \<Rightarrow> nat list" where
  "code_lengths B = map (\<lambda>s. unat (m_key s)) B"

text \<open>The space a code with these lengths takes, in units of \<open>2 ^ -N\<close>.\<close>

definition kraft :: "nat \<Rightarrow> nat list \<Rightarrow> nat" where
  "kraft N ls = (\<Sum>l \<leftarrow> ls. 2 ^ (N - l))"

lemma code_lengths_nth [simp]: "j < length B \<Longrightarrow> code_lengths B ! j = par_of B j"
  by (simp add: code_lengths_def key_at_def)

lemma code_lengths_length [simp]: "length (code_lengths B) = length B"
  by (simp add: code_lengths_def)

lemma kraft_nth: "kraft N ls = (\<Sum>j < length ls. 2 ^ (N - ls ! j))"
  by (simp add: kraft_def sum_list_sum_nth atLeast0LessThan)

lemma lengths_facts:
  assumes "length A = m + 2" "m + 2 < 65536"
  shows "\<exists>B. tdefl_calculate_minimum_redundancy A = Some B \<and> map m_sym_index B = map m_sym_index A
    \<and> sorted (rev (code_lengths B)) \<and> (\<forall>l \<in> set (code_lengths B). 1 \<le> l \<and> l < length A)
    \<and> kraft (length A - 1) (code_lengths B) = 2 ^ (length A - 1)"
proof -
  obtain B where B: "tdefl_calculate_minimum_redundancy A = Some B" "length B = m + 2"
    "map m_sym_index B = map m_sym_index A" "leaves_ok m (m + 2) (-1) B" "code_space m (-1) B = 2 ^ (m + 1)"
    using minimum_redundancy_lengths [OF assms] by auto
  have "code_lengths B ! j' \<le> code_lengths B ! j" if "j \<le> j'" "j' < m + 2" for j j'
    using that B(2,4) by (simp add: leaves_ok_def)
  then have "sorted (rev (code_lengths B))" using B(2) by (simp add: sorted_rev_iff_nth_mono)
  moreover have "1 \<le> l \<and> l < length A" if "l \<in> set (code_lengths B)" for l
    using that B(2,4) assms(1) by (fastforce simp: leaves_ok_def in_set_conv_nth)
  moreover have "{j. j < m + 2} = {..<m + 2}" by auto
  then have "kraft (m + 1) (code_lengths B) = 2 ^ (m + 1)"
    using B(2,5) by (simp add: kraft_nth code_space_def)
  ultimately show ?thesis using B(1,3) assms(1) by auto
qed

text \<open>On two symbols or more, whatever their keys, \<open>tdefl_calculate_minimum_redundancy\<close> ends and stays
  within its array: it keeps the symbols in their order and gives them lengths of a complete code,
  between 1 and the number of symbols less one, never increasing from one symbol to the next, and such
  that the sum of \<open>2 ^ -length\<close> is exactly 1.\<close>

theorem minimum_redundancy_complete:
  assumes "2 \<le> length A" "length A < 65536"
  shows "\<exists>B. tdefl_calculate_minimum_redundancy A = Some B \<and> map m_sym_index B = map m_sym_index A
    \<and> sorted (rev (code_lengths B)) \<and> (\<forall>l \<in> set (code_lengths B). 1 \<le> l \<and> l < length A)
    \<and> kraft (length A - 1) (code_lengths B) = 2 ^ (length A - 1)"
proof -
  obtain m where m: "length A = m + 2" using assms(1) by (metis add.commute le_Suc_ex)
  then show ?thesis using lengths_facts [OF m] assms(2) by simp
qed

lemma minimum_redundancy_complete_witness:
  "\<exists>B. tdefl_calculate_minimum_redundancy
     [\<lparr>m_key = 1, m_sym_index = 7\<rparr>, \<lparr>m_key = 2, m_sym_index = 3\<rparr>, \<lparr>m_key = 4, m_sym_index = 5\<rparr>] = Some B
   \<and> kraft 2 (code_lengths B) = 4"
  using minimum_redundancy_complete
    [of "[\<lparr>m_key = 1, m_sym_index = 7\<rparr>, \<lparr>m_key = 2, m_sym_index = 3\<rparr>, \<lparr>m_key = 4, m_sym_index = 5\<rparr>]"]
  by (auto simp: numeral_2_eq_2)

end
