(* ===== verification/HuffOptimal.thy ===== *)
theory HuffOptimal
  imports HuffLengths
begin

text \<open>
  The lengths \<open>tdefl_calculate_minimum_redundancy\<close> computes are those of a code of minimum redundancy,
  and none is longer than 32 bits for the frequencies of a block.  The algorithm of Huffman on
  multisets of weights is the specification in between: it is optimal among all lengths that leave
  room for a prefix code, and the array passes are one of its runs.
\<close>

subsection \<open>Optimality of merging the two lightest\<close>

inductive huff :: "nat multiset \<Rightarrow> nat \<Rightarrow> bool" where
  huff_done: "size F \<le> 1 \<Longrightarrow> huff F 0"
| huff_merge: "huff (add_mset (x + y) F) c \<Longrightarrow> x \<le> y \<Longrightarrow> (\<forall>z \<in># F. y \<le> z)
    \<Longrightarrow> huff (add_mset x (add_mset y F)) (x + y + c)"

text \<open>Symbols as pairs of weight and length.\<close>

definition space :: "nat \<Rightarrow> (nat \<times> nat) multiset \<Rightarrow> nat" where
  "space L P = (\<Sum>p \<in># P. 2 ^ (L - snd p))"

definition cost :: "(nat \<times> nat) multiset \<Rightarrow> nat" where
  "cost P = (\<Sum>p \<in># P. fst p * snd p)"

definition fits :: "nat \<Rightarrow> (nat \<times> nat) multiset \<Rightarrow> bool" where
  "fits L P \<longleftrightarrow> space L P \<le> 2 ^ L \<and> (\<forall>p \<in># P. snd p \<le> L)"

lemma space_simps [simp]: "space L {#} = 0" "space L (add_mset p P) = 2 ^ (L - snd p) + space L P"
  by (simp_all add: space_def)

lemma cost_simps [simp]: "cost {#} = 0" "cost (add_mset p P) = fst p * snd p + cost P"
  by (simp_all add: cost_def)

lemma space_even:
  assumes "\<forall>p \<in># R. snd p < M" "M \<le> L"
  shows "\<exists>s. space L R = 2 ^ (L - M) * (2 * s)"
  using assms(1)
proof (induction R)
  case empty
  then show ?case by auto
next
  case (add p R)
  then obtain s where s: "space L R = 2 ^ (L - M) * (2 * s)" by auto
  obtain k where k: "M = snd p + Suc k" using add.prems less_imp_Suc_add by fastforce
  have "L - snd p = (L - M) + Suc k" using k assms(2) by simp
  then have "2 ^ (L - snd p) = 2 ^ (L - M) * (2 * 2 ^ k :: nat)" by (simp only: power_add power_Suc)
  then show ?case using s by (intro exI [of _ "2 ^ k + s"]) (simp add: algebra_simps)
qed

text \<open>A deepest symbol without a neighbour can be moved up.\<close>

lemma shorten_single:
  assumes "fits L (add_mset (a, M) R)" "\<forall>p \<in># R. snd p < M" "R \<noteq> {#}"
  shows "fits L (add_mset (a, M - 1) R)"
proof -
  obtain s where s: "space L R = 2 ^ (L - M) * (2 * s)"
    using space_even [OF assms(2), of L] assms(1) by (auto simp: fits_def)
  obtain p where "p \<in># R" using assms(3) by (rule multiset_nonemptyE)
  then have M: "1 \<le> M" "M \<le> L" using assms(1,2) by (auto simp: fits_def)
  then have L: "2 ^ L = 2 ^ (L - M) * (2 * 2 ^ (M - 1) :: nat)"
    by (simp flip: power_Suc power_add)
  have "2 ^ (L - M) * (1 + 2 * s) \<le> 2 ^ (L - M) * (2 * 2 ^ (M - 1) :: nat)"
    using assms(1) s unfolding L [symmetric] by (simp add: fits_def algebra_simps)
  then have "1 + 2 * s \<le> 2 * 2 ^ (M - 1)" by (simp only: nat_mult_le_cancel_disj) simp
  then have "2 + 2 * s \<le> 2 * 2 ^ (M - 1)" by presburger
  then have "2 ^ (L - M) * (2 + 2 * s) \<le> 2 ^ L" unfolding L by (rule mult_le_mono2)
  moreover have "2 ^ (L - (M - 1)) = 2 ^ (L - M) * (2 :: nat)"
    using M by (simp add: Suc_diff_le flip: power_Suc2)
  ultimately show ?thesis using assms(1) s M by (auto simp: fits_def algebra_simps)
qed

lemma deepest_pair:
  assumes "fits L P" "size P \<ge> 2"
  shows "\<exists>a b M R. image_mset fst (add_mset (a, M) (add_mset (b, M) R)) = image_mset fst P
    \<and> fits L (add_mset (a, M) (add_mset (b, M) R)) \<and> cost (add_mset (a, M) (add_mset (b, M) R)) \<le> cost P
    \<and> 1 \<le> M \<and> (\<forall>p \<in># R. snd p \<le> M)"
  using assms
proof (induction "\<Sum>p \<in># P. snd p" arbitrary: P rule: less_induct)
  case less
  define M where "M = Max (snd ` set_mset P)"
  have "P \<noteq> {#}" using less.prems(2) by auto
  then have "M \<in> snd ` set_mset P" unfolding M_def by (intro Max_in) auto
  then obtain a Q where P: "P = add_mset (a, M) Q" by (metis imageE mset_add prod.collapse)
  have le: "snd p \<le> M" if "p \<in># P" for p using that by (simp add: M_def)
  have Q: "Q \<noteq> {#}" using less.prems(2) P by auto
  show ?case
  proof (cases "\<exists>p \<in># Q. snd p = M")
    case True
    then obtain b R where R: "Q = add_mset (b, M) R" by (metis mset_add prod.collapse)
    have "1 \<le> M"
    proof (rule ccontr)
      assume "\<not> 1 \<le> M"
      then have "M = 0" by simp
      then show False using less.prems(1) P R by (auto simp: fits_def)
    qed
    then show ?thesis using less.prems(1) P R le
      by - (rule exI [of _ a], rule exI [of _ b], rule exI [of _ M], rule exI [of _ R], auto)
  next
    case False
    then have lt: "\<forall>p \<in># Q. snd p < M" using le P by (auto simp: le_less)
    obtain q where "q \<in># Q" using Q by (rule multiset_nonemptyE)
    then have M: "1 \<le> M" using lt by auto
    let ?P = "add_mset (a, M - 1) Q"
    have "fits L ?P" using shorten_single [OF _ lt Q] less.prems(1) P by simp
    moreover have "(\<Sum>p \<in># ?P. snd p) < (\<Sum>p \<in># P. snd p)" using M P by simp
    moreover have "size ?P \<ge> 2" using less.prems(2) P by simp
    ultimately obtain a' b M' R where r: "image_mset fst (add_mset (a', M') (add_mset (b, M') R)) = image_mset fst ?P"
      "fits L (add_mset (a', M') (add_mset (b, M') R))" "cost (add_mset (a', M') (add_mset (b, M') R)) \<le> cost ?P"
      "1 \<le> M'" "\<forall>p \<in># R. snd p \<le> M'"
      using less.hyps [of ?P] by blast
    have "cost ?P \<le> cost P" using P by simp
    then have "cost (add_mset (a', M') (add_mset (b, M') R)) \<le> cost P" by (rule order_trans [OF r(3)])
    then show ?thesis using r(1,2,4,5) P
      by - (rule exI [of _ a'], rule exI [of _ b], rule exI [of _ M'], rule exI [of _ R], auto)
  qed
qed

text \<open>A lighter symbol can change places with a deeper one.\<close>

lemma exchange:
  assumes "x \<in># image_mset fst (add_mset (a, M) R)" "\<forall>z \<in># image_mset fst (add_mset (a, M) R). x \<le> z" "\<forall>p \<in># R. snd p \<le> M"
  shows "\<exists>R'. image_mset fst (add_mset (x, M) R') = image_mset fst (add_mset (a, M) R)
    \<and> image_mset snd R' = image_mset snd R \<and> cost (add_mset (x, M) R') \<le> cost (add_mset (a, M) R)"
proof (cases "x = a")
  case False
  then have "x \<in> fst ` set_mset R" using assms(1) by auto
  then obtain l S where R: "R = add_mset (x, l) S" by (force dest: multi_member_split)
  have "x \<le> a" "l \<le> M" using assms(2,3) R by auto
  moreover obtain u where "a = x + u" using \<open>x \<le> a\<close> le_Suc_ex by blast
  moreover obtain v where "M = l + v" using \<open>l \<le> M\<close> le_Suc_ex by blast
  ultimately have "x * M + a * l \<le> a * M + x * l" by (simp add: algebra_simps)
  then show ?thesis using R by (intro exI [of _ "add_mset (a, l) S"]) simp
qed auto

lemma fits_lengths: "image_mset snd P = image_mset snd Q \<Longrightarrow> fits L P = fits L Q"
proof -
  assume a: "image_mset snd P = image_mset snd Q"
  have "space L X = (\<Sum>l \<in># image_mset snd X. 2 ^ (L - l))" for X
    by (simp add: space_def image_mset.compositionality comp_def)
  moreover have "(\<forall>p \<in># X. snd p \<le> L) = (\<forall>l \<in># image_mset snd X. l \<le> L)" for X :: "(nat \<times> nat) multiset" by auto
  ultimately show ?thesis by (simp only: fits_def a)
qed

theorem huff_optimal: "huff F c \<Longrightarrow> image_mset fst P = F \<Longrightarrow> fits L P \<Longrightarrow> c \<le> cost P"
proof (induction F c arbitrary: P rule: huff.induct)
  case (huff_merge x y F c)
  have "size P = size (image_mset fst P)" by simp
  then have "size P \<ge> 2" unfolding huff_merge.prems(1) by simp
  then obtain a b M R where p: "image_mset fst (add_mset (a, M) (add_mset (b, M) R)) = add_mset x (add_mset y F)"
    "fits L (add_mset (a, M) (add_mset (b, M) R))" "cost (add_mset (a, M) (add_mset (b, M) R)) \<le> cost P"
    "1 \<le> M" "\<forall>p \<in># R. snd p \<le> M"
    using deepest_pair [OF huff_merge.prems(2)] huff_merge.prems(1) by metis
  have low: "\<forall>z \<in># add_mset x (add_mset y F). x \<le> z" "\<forall>z \<in># add_mset y F. y \<le> z"
    using huff_merge.hyps(2,3) by (auto intro: order_trans)
  obtain R1 where r1: "image_mset fst (add_mset (x, M) R1) = add_mset x (add_mset y F)"
    "image_mset snd R1 = image_mset snd (add_mset (b, M) R)"
    "cost (add_mset (x, M) R1) \<le> cost (add_mset (a, M) (add_mset (b, M) R))"
    using exchange [of x a M "add_mset (b, M) R", unfolded p(1), OF _ low(1)] p(5) by auto
  have "M \<in># image_mset snd R1" unfolding r1(2) by simp
  then have "M \<in> snd ` set_mset R1" by simp
  then obtain d R2 where d: "R1 = add_mset (d, M) R2" by (force dest: multi_member_split)
  have s2: "image_mset snd R2 = image_mset snd R" using r1(2) d by simp
  then have "snd ` set_mset R2 = snd ` set_mset R" by (simp only: flip: set_image_mset)
  then have le2: "\<forall>p \<in># R2. snd p \<le> M" using p(5) by force
  have f2: "image_mset fst (add_mset (d, M) R2) = add_mset y F" using r1(1) d by simp
  obtain R3 where r3: "image_mset fst (add_mset (y, M) R3) = add_mset y F"
    "image_mset snd R3 = image_mset snd R2" "cost (add_mset (y, M) R3) \<le> cost (add_mset (d, M) R2)"
    using exchange [of y d M R2, unfolded f2, OF _ low(2) le2] by auto
  let ?Q = "add_mset (x + y, M - 1) R3"
  have "fits L (add_mset (x, M) (add_mset (y, M) R3))"
    using fits_lengths [of "add_mset (x, M) (add_mset (y, M) R3)" "add_mset (a, M) (add_mset (b, M) R)" L]
      p(2) r3(2) s2 by simp
  moreover then have "2 ^ (L - (M - 1)) = 2 ^ (L - M) + (2 ^ (L - M) :: nat)"
    using p(4) by (simp add: fits_def Suc_diff_le)
  ultimately have "fits L ?Q" using p(4) by (auto simp: fits_def)
  moreover have "image_mset fst ?Q = add_mset (x + y) F" using r3(1) by simp
  ultimately have "c \<le> cost ?Q" by (intro huff_merge.IH)
  moreover have "x + y + cost ?Q = cost (add_mset (x, M) (add_mset (y, M) R3))"
    using p(4) by (cases M) (simp_all add: algebra_simps)
  ultimately show ?case using r3(3) r1(3) p(3) d by simp
qed simp

end
