(* ===== verification/HuffRun.thy ===== *)
theory HuffRun
  imports HuffOptimal
begin

text \<open>
  The array passes of \<open>tdefl_calculate_minimum_redundancy\<close> are a run of the algorithm of Huffman.  The
  nodes are taken in the order of their weights; the history records the weight taken at each
  position and the positions of the internal nodes and of the leaves, so that the node a position
  was merged into is half of it.
\<close>

subsection \<open>The history of a run\<close>

definition history :: "nat \<Rightarrow> (nat \<Rightarrow> nat) \<Rightarrow> (nat \<Rightarrow> nat) \<Rightarrow> nat \<Rightarrow> (nat \<Rightarrow> nat) \<Rightarrow> (nat \<Rightarrow> nat) \<Rightarrow> (nat \<Rightarrow> nat) \<Rightarrow> nat \<Rightarrow> nat \<Rightarrow> bool" where
  "history n f w next' q pos lpos root leaf \<longleftrightarrow>
     (\<forall>a b. a \<le> b \<and> b < root + leaf \<longrightarrow> q a \<le> q b)
     \<and> (\<forall>a j. a < root + leaf \<and> leaf \<le> j \<and> j < n \<longrightarrow> q a \<le> f j)
     \<and> (\<forall>a k. a < root + leaf \<and> root \<le> k \<and> k < next' \<longrightarrow> q a \<le> w k)
     \<and> (\<forall>i < root. pos i < root + leaf \<and> q (pos i) = w i)
     \<and> (\<forall>j < leaf. lpos j < root + leaf \<and> q (lpos j) = f j)
     \<and> (\<forall>j j'. j \<le> j' \<and> j' < leaf \<longrightarrow> lpos j \<le> lpos j')
     \<and> (\<forall>k k'. k \<le> k' \<and> k' < next' \<longrightarrow> w k \<le> w k')
     \<and> (\<forall>g :: nat \<Rightarrow> nat. (\<Sum>i<root. g (pos i)) + (\<Sum>j<leaf. g (lpos j)) = (\<Sum>p<root + leaf. g p))"

lemma historyD:
  assumes "history n f w next' q pos lpos root leaf"
  shows "a \<le> b \<Longrightarrow> b < root + leaf \<Longrightarrow> q a \<le> q b"
    "a < root + leaf \<Longrightarrow> leaf \<le> j \<Longrightarrow> j < n \<Longrightarrow> q a \<le> f j"
    "a < root + leaf \<Longrightarrow> root \<le> k \<Longrightarrow> k < next' \<Longrightarrow> q a \<le> w k"
    "i < root \<Longrightarrow> pos i < root + leaf" "i < root \<Longrightarrow> q (pos i) = w i"
    "j < leaf \<Longrightarrow> lpos j < root + leaf" "j < leaf \<Longrightarrow> q (lpos j) = f j"
    "j \<le> j' \<Longrightarrow> j' < leaf \<Longrightarrow> lpos j \<le> lpos j'" "k \<le> k' \<Longrightarrow> k' < next' \<Longrightarrow> w k \<le> w k'"
    "(\<Sum>i<root. g (pos i)) + (\<Sum>j<leaf. g (lpos j)) = (\<Sum>p<root + leaf. g p :: nat)"
  using assms by (simp_all add: history_def)

lemma history_leaf:
  assumes h: "history n f w next' q pos lpos root leaf" and leaf: "leaf < n"
    and f: "\<And>j j'. j \<le> j' \<Longrightarrow> j' < n \<Longrightarrow> f j \<le> f j'" and low: "\<And>k. root \<le> k \<Longrightarrow> k < next' \<Longrightarrow> f leaf \<le> w k"
  shows "history n f w next' (q(root + leaf := f leaf)) pos (lpos(leaf := root + leaf)) root (Suc leaf)"
proof -
  note d = historyD [OF h]
  have ne: "i < root \<Longrightarrow> pos i \<noteq> root + leaf" "j < leaf \<Longrightarrow> lpos j \<noteq> root + leaf" for i j
    using d(4) [of i] d(6) [of j] by simp_all
  have "(\<Sum>i<root. g (pos i)) + (\<Sum>j<Suc leaf. g ((lpos(leaf := root + leaf)) j)) = (\<Sum>p<root + Suc leaf. g p)"
    for g :: "nat \<Rightarrow> nat"
    using d(10) [of g] by simp
  then show ?thesis
    unfolding history_def using d(1-9) ne leaf f low
    by (auto simp: less_Suc_eq less_imp_le dest: le_neq_implies_less)
qed

lemma history_node:
  assumes h: "history n f w next' q pos lpos root leaf" and root: "root < next'"
    and low: "\<And>j. leaf \<le> j \<Longrightarrow> j < n \<Longrightarrow> w root \<le> f j"
  shows "history n f w next' (q(root + leaf := w root)) (pos(root := root + leaf)) lpos (Suc root) leaf"
proof -
  note d = historyD [OF h]
  have ne: "i < root \<Longrightarrow> pos i \<noteq> root + leaf" "j < leaf \<Longrightarrow> lpos j \<noteq> root + leaf" for i j
    using d(4) [of i] d(6) [of j] by simp_all
  have "(\<Sum>i<Suc root. g ((pos(root := root + leaf)) i)) + (\<Sum>j<leaf. g (lpos j)) = (\<Sum>p<Suc root + leaf. g p)"
    for g :: "nat \<Rightarrow> nat"
    using d(10) [of g] by simp
  then show ?thesis
    unfolding history_def using d(1-9) ne root low
    by (auto simp: less_Suc_eq less_imp_le dest: le_neq_implies_less)
qed

lemma history_new:
  assumes h: "history n f w next' q pos lpos root leaf" and "root \<le> next'"
    and "\<And>a. a < root + leaf \<Longrightarrow> q a \<le> x" "\<And>k. k < next' \<Longrightarrow> w k \<le> x"
  shows "history n f (w(next' := x)) (Suc next') q pos lpos root leaf"
  unfolding history_def using historyD [OF h] assms(2-4) by (auto simp: less_Suc_eq)

subsection \<open>The array during a run\<close>

definition keys_ok :: "nat \<Rightarrow> (nat \<Rightarrow> nat) \<Rightarrow> (nat \<Rightarrow> nat) \<Rightarrow> nat \<Rightarrow> (nat \<Rightarrow> nat) \<Rightarrow> sym_freq list \<Rightarrow> nat \<Rightarrow> nat \<Rightarrow> bool" where
  "keys_ok n f w next' pos A root leaf \<longleftrightarrow>
     length A = n \<and> (\<forall>i < root. par_of A i = pos i div 2)
     \<and> (\<forall>k. root \<le> k \<and> k < next' \<longrightarrow> par_of A k = w k) \<and> (\<forall>j. leaf \<le> j \<and> j < n \<longrightarrow> par_of A j = f j)"

definition rest :: "nat \<Rightarrow> (nat \<Rightarrow> nat) \<Rightarrow> (nat \<Rightarrow> nat) \<Rightarrow> nat \<Rightarrow> nat \<Rightarrow> nat \<Rightarrow> nat multiset" where
  "rest n f w next' root leaf = mset (map f [leaf..<n]) + mset (map w [root..<next'])"

lemma rest_leaf: "leaf < n \<Longrightarrow> rest n f w next' root leaf = add_mset (f leaf) (rest n f w next' root (Suc leaf))"
  by (simp add: rest_def upt_conv_Cons)

lemma rest_node: "root < next' \<Longrightarrow> rest n f w next' root leaf = add_mset (w root) (rest n f w next' (Suc root) leaf)"
  by (simp add: rest_def upt_conv_Cons)

lemma rest_new: "root \<le> next' \<Longrightarrow> rest n f (w(next' := x)) (Suc next') root leaf = add_mset x (rest n f w next' root leaf)"
  by (simp add: rest_def)

lemma rest_least:
  assumes "history n f w next' q pos lpos root leaf" "a < root + leaf" "z \<in># rest n f w next' root leaf"
  shows "q a \<le> z"
  using assms historyD(2,3) [OF assms(1)] by (auto simp: rest_def)

text \<open>What one pick does: it takes a least weight \<open>x\<close> of the rest and adds it to the new node.\<close>

definition picked :: "nat \<Rightarrow> (nat \<Rightarrow> nat) \<Rightarrow> (nat \<Rightarrow> nat) \<Rightarrow> nat \<Rightarrow> (nat \<Rightarrow> nat) \<Rightarrow> nat \<Rightarrow> nat \<Rightarrow> nat
    \<Rightarrow> nat \<Rightarrow> (nat \<Rightarrow> nat) \<Rightarrow> (nat \<Rightarrow> nat) \<Rightarrow> (nat \<Rightarrow> nat) \<Rightarrow> sym_freq list \<Rightarrow> nat \<Rightarrow> nat \<Rightarrow> bool" where
  "picked n f w next' q root leaf acc x q' pos' lpos' B r l \<longleftrightarrow>
     history n f w next' q' pos' lpos' r l \<and> keys_ok n f w next' pos' B r l \<and> r + l = Suc (root + leaf)
     \<and> q' (root + leaf) = x \<and> (\<forall>p < root + leaf. q' p = q p) \<and> par_of B next' = acc + x
     \<and> rest n f w next' root leaf = add_mset x (rest n f w next' r l) \<and> l \<le> n \<and> r \<le> next'"

lemma pick_leaf:
  assumes h: "history n f w next' q pos lpos root leaf" and k: "keys_ok n f w next' pos A root leaf"
    and f: "\<And>j j'. j \<le> j' \<Longrightarrow> j' < n \<Longrightarrow> f j \<le> f j'" and leaf: "leaf < n" "next' < leaf" "root \<le> next'"
    and low: "root < next' \<Longrightarrow> f leaf \<le> w root" and v: "unat v = acc + f leaf"
  shows "picked n f w next' q root leaf acc (f leaf) (q(root + leaf := f leaf)) pos (lpos(leaf := root + leaf))
    (set_key A next' v) root (leaf + 1)"
proof -
  have "f leaf \<le> w k" if "root \<le> k" "k < next'" for k
    using low historyD(9) [OF h that] that by simp
  then have "history n f w next' (q(root + leaf := f leaf)) pos (lpos(leaf := root + leaf)) root (Suc leaf)"
    using leaf f by (intro history_leaf [OF h]) auto
  then show ?thesis
    using k leaf v rest_leaf [OF leaf(1)] by (auto simp: picked_def keys_ok_def key_at_set_key)
qed

lemma pick_node:
  assumes h: "history n f w next' q pos lpos root leaf" and k: "keys_ok n f w next' pos A root leaf"
    and f: "\<And>j j'. j \<le> j' \<Longrightarrow> j' < n \<Longrightarrow> f j \<le> f j'" and root: "root < next'" "next' < leaf" "leaf \<le> n" "n < 65536"
    and low: "leaf < n \<Longrightarrow> w root \<le> f leaf" and v: "unat v = acc + w root" and even: "root + leaf = 2 * next' \<or> root + leaf = 2 * next' + 1"
  shows "picked n f w next' q root leaf acc (w root) (q(root + leaf := w root)) (pos(root := root + leaf)) lpos
    (set_key (set_key A next' v) root (of_nat next')) (root + 1) leaf"
proof -
  have "w root \<le> f j" if "leaf \<le> j" "j < n" for j
    using low f [OF that] that by simp
  then have "history n f w next' (q(root + leaf := w root)) (pos(root := root + leaf)) lpos (Suc root) leaf"
    by (intro history_node [OF h root(1)]) auto
  moreover have "(root + leaf) div 2 = next'" using even by auto
  ultimately show ?thesis
    using k root v rest_node [OF root(1)] by (auto simp: picked_def keys_ok_def key_at_set_key of_nat_u16)
qed

lemma first_picked:
  assumes h: "history n f w next' q pos lpos root leaf" and k: "keys_ok n f w next' pos A root leaf"
    and f: "\<And>j j'. j \<le> j' \<Longrightarrow> j' < n \<Longrightarrow> f j \<le> f j'" and b: "root < next'" "leaf \<le> n" "root + leaf = 2 * next'" "n < 65536"
    and B: "take_first n next' (A, root, leaf) = (B, r, l)"
  shows "\<exists>x q' pos' lpos'. picked n f w next' q root leaf 0 x q' pos' lpos' B r l"
proof (cases "leaf \<ge> n \<or> key_at A root < key_at A leaf")
  case True
  have "w root \<le> f leaf" if "leaf < n"
    using True that k b by (simp add: keys_ok_def word_less_nat_alt)
  moreover have "unat (key_at A root) = 0 + w root" using k b by (simp add: keys_ok_def)
  ultimately have "picked n f w next' q root leaf 0 (w root) (q(root + leaf := w root)) (pos(root := root + leaf)) lpos
      (set_key (set_key A next' (key_at A root)) root (of_nat next')) (root + 1) leaf"
    using b by (intro pick_node [OF h k f]) auto
  then show ?thesis using True B by (auto simp: take_first_def Let_def)
next
  case False
  have "par_of A leaf = f leaf" using False k by (simp add: keys_ok_def)
  then have "f leaf \<le> w root" using False k b by (simp add: keys_ok_def word_less_nat_alt)
  moreover have "unat (key_at A leaf) = 0 + f leaf" using k False by (simp add: keys_ok_def)
  ultimately have "picked n f w next' q root leaf 0 (f leaf) (q(root + leaf := f leaf)) pos (lpos(leaf := root + leaf))
      (set_key A next' (key_at A leaf)) root (leaf + 1)"
    using b False by (intro pick_leaf [OF h k f]) auto
  then show ?thesis using False B by (auto simp: take_first_def)
qed

lemma second_picked:
  assumes h: "history n f w next' q pos lpos root leaf" and k: "keys_ok n f w next' pos A root leaf"
    and f: "\<And>j j'. j \<le> j' \<Longrightarrow> j' < n \<Longrightarrow> f j \<le> f j'"
    and b: "root \<le> next'" "leaf \<le> n" "root + leaf = 2 * next' + 1" "next' + 1 < n" "n < 65536"
    and x: "par_of A next' = x" and small: "\<And>z. z \<in># rest n f w next' root leaf \<Longrightarrow> x + z < 65536"
    and B: "take_second n next' (A, root, leaf) = (B, r, l)"
  shows "\<exists>y q' pos' lpos'. picked n f w next' q root leaf x y q' pos' lpos' B r l"
proof (cases "leaf \<ge> n \<or> (root < next' \<and> key_at A root < key_at A leaf)")
  case True
  then have root: "root < next'" using b by auto
  have "w root \<le> f leaf" if "leaf < n"
    using True that k root by (simp add: keys_ok_def word_less_nat_alt)
  moreover have "unat (key_at A next' + key_at A root) = x + w root"
    using k root x small [of "w root"] rest_node [OF root, of n f w leaf] by (simp add: keys_ok_def unat_word_ariths)
  ultimately have "picked n f w next' q root leaf x (w root) (q(root + leaf := w root)) (pos(root := root + leaf)) lpos
      (set_key (set_key A next' (key_at A next' + key_at A root)) root (of_nat next')) (root + 1) leaf"
    using b root by (intro pick_node [OF h k f]) auto
  then show ?thesis using True B by (auto simp: take_second_def Let_def)
next
  case False
  then have leaf: "leaf < n" by simp
  have "par_of A leaf = f leaf" using leaf k by (simp add: keys_ok_def)
  then have "f leaf \<le> w root" if "root < next'" using k False that by (simp add: keys_ok_def word_less_nat_alt)
  moreover have "unat (key_at A next' + key_at A leaf) = x + f leaf"
    using k leaf x small [of "f leaf"] rest_leaf [OF leaf, of f w next' root] by (simp add: keys_ok_def unat_word_ariths)
  ultimately have "picked n f w next' q root leaf x (f leaf) (q(root + leaf := f leaf)) pos (lpos(leaf := root + leaf))
      (set_key A next' (key_at A next' + key_at A leaf)) root (leaf + 1)"
    using b leaf by (intro pick_leaf [OF h k f]) auto
  moreover have "B = set_key A next' (key_at A next' + key_at A leaf)" "r = root" "l = leaf + 1"
    using False B by (auto simp: take_second_def)
  ultimately show ?thesis by blast
qed

definition run_inv :: "nat \<Rightarrow> (nat \<Rightarrow> nat) \<Rightarrow> nat \<Rightarrow> sym_freq list \<times> nat \<times> nat \<Rightarrow> bool" where
  "run_inv n f next' s \<longleftrightarrow> merge_inv n next' s \<and>
     (case s of (A, root, leaf) \<Rightarrow>
        \<exists>w q pos lpos. history n f w next' q pos lpos root leaf \<and> keys_ok n f w next' pos A root leaf
          \<and> (\<forall>k < next'. w k = q (2 * k) + q (2 * k + 1)) \<and> \<Sum>\<^sub># (rest n f w next' root leaf) < 65536
          \<and> (\<forall>c. huff (rest n f w next' root leaf) c \<longrightarrow> huff (mset (map f [0..<n])) ((\<Sum>k<next'. w k) + c)))"

lemma run_step:
  assumes inv: "run_inv n f next' s" and f: "\<And>j j'. j \<le> j' \<Longrightarrow> j' < n \<Longrightarrow> f j \<le> f j'" and b: "next' < n - 1" "n < 65536"
  shows "run_inv n f (Suc next') (take_second n next' (take_first n next' s))"
proof -
  obtain A root leaf where s: "s = (A, root, leaf)" by (cases s)
  obtain B r l where B: "take_first n next' s = (B, r, l)" by (cases "take_first n next' s")
  obtain C r' l' where C: "take_second n next' (B, r, l) = (C, r', l')" by (cases "take_second n next' (B, r, l)")
  have m: "root + leaf = 2 * next'" "root < next'" "leaf \<le> n"
    using inv by (auto simp: run_inv_def merge_inv_def s)
  have step: "merge_inv n (Suc next') (C, r', l')"
    using merge_step [OF _ b, of s] inv by (simp add: run_inv_def B C)
  obtain w q pos lpos where h: "history n f w next' q pos lpos root leaf" and k: "keys_ok n f w next' pos A root leaf"
    and w: "\<And>k. k < next' \<Longrightarrow> w k = q (2 * k) + q (2 * k + 1)" and small: "\<Sum>\<^sub># (rest n f w next' root leaf) < 65536"
    and run: "\<And>c. huff (rest n f w next' root leaf) c \<Longrightarrow> huff (mset (map f [0..<n])) ((\<Sum>k<next'. w k) + c)"
    using inv by (auto simp: run_inv_def s)
  obtain x q1 pos1 lpos1 where p1: "history n f w next' q1 pos1 lpos1 r l" "keys_ok n f w next' pos1 B r l"
    "r + l = Suc (root + leaf)" "q1 (root + leaf) = x" "\<And>p. p < root + leaf \<Longrightarrow> q1 p = q p" "par_of B next' = x"
    "rest n f w next' root leaf = add_mset x (rest n f w next' r l)" "l \<le> n" "r \<le> next'"
    using first_picked [OF h k f m(2,3,1) b(2) B [unfolded s]] by (auto simp: picked_def)
  have "x + z < 65536" if "z \<in># rest n f w next' r l" for z
    using that small p1(7) by (auto dest!: multi_member_split)
  then obtain y q2 pos2 lpos2 where p2: "history n f w next' q2 pos2 lpos2 r' l'" "keys_ok n f w next' pos2 C r' l'"
    "r' + l' = Suc (r + l)" "q2 (r + l) = y" "\<And>p. p < r + l \<Longrightarrow> q2 p = q1 p" "par_of C next' = x + y"
    "rest n f w next' r l = add_mset y (rest n f w next' r' l')" "l' \<le> n" "r' \<le> next'"
    using second_picked [OF p1(1,2) f p1(9,8) _ _ b(2) p1(6) _ C] p1(3) m(1) b(1) by (fastforce simp: picked_def)
  let ?w = "w(next' := x + y)"
  have q2: "q2 p = q p" if "p < 2 * next'" for p using that p1(3,5) p2(5) m(1) by simp
  have qx: "q2 (2 * next') = x" and qy: "q2 (2 * next' + 1) = y" using p1(3,4) p2(3-5) m(1) by simp_all
  have le: "q2 a \<le> q2 c" if "a \<le> c" "c < 2 * next' + 2" for a c
    using that historyD(1) [OF p2(1), of a c] p1(3) p2(3) m(1) by simp
  have wk: "w k \<le> x + y" if "k < next'" for k
    using that w [OF that] le [of "2 * k" "2 * next'"] le [of "2 * k + 1" "2 * next' + 1"] q2 [of "2 * k"] q2 [of "2 * k + 1"] qx qy
    by simp
  have "q2 a \<le> x + y" if "a < r' + l'" for a
    using that le [of a "2 * next' + 1"] qy p1(3) p2(3) m(1) by simp
  then have hist: "history n f ?w (Suc next') q2 pos2 lpos2 r' l'"
    using history_new [OF p2(1,9)] wk by blast
  have keys: "keys_ok n f ?w (Suc next') pos2 C r' l'"
    using p2(2,6) by (auto simp: keys_ok_def less_Suc_eq)
  have new: "?w k = q2 (2 * k) + q2 (2 * k + 1)" if "k < Suc next'" for k
    using that w [of k] q2 [of "2 * k"] q2 [of "2 * k + 1"] qx qy by (cases "k = next'") simp_all
  have rest: "rest n f ?w (Suc next') r' l' = add_mset (x + y) (rest n f w next' r' l')"
    by (rule rest_new [OF p2(9)])
  have sum: "\<Sum>\<^sub># (rest n f ?w (Suc next') r' l') < 65536"
    using small p1(7) p2(7) unfolding rest by simp
  have "huff (mset (map f [0..<n])) ((\<Sum>k<Suc next'. ?w k) + c)" if "huff (rest n f ?w (Suc next') r' l') c" for c
  proof -
    have "x \<le> y" using le [of "2 * next'" "2 * next' + 1"] qx qy by simp
    moreover have "\<forall>z \<in># rest n f w next' r' l'. y \<le> z"
      using rest_least [OF p2(1), of "r + l"] p2(3,4) by simp
    ultimately have "huff (rest n f w next' root leaf) (x + y + c)"
      using that huff_merge [of x y _ c] unfolding rest p1(7) p2(7) by blast
    then show ?thesis using run [of "x + y + c"] by (simp add: algebra_simps)
  qed
  then show ?thesis
    using step hist keys new sum unfolding run_inv_def B C by blast
qed

lemma merge_loop_run:
  assumes "run_inv n f next' s" "\<And>j j'. j \<le> j' \<Longrightarrow> j' < n \<Longrightarrow> f j \<le> f j'" "next' \<le> n - 1" "n < 65536"
  shows "run_inv n f (n - 1) (merge_loop n next' s)"
  using assms
proof (induction n next' s rule: merge_loop.induct)
  case (1 n next' s)
  show ?case
  proof (cases "next' < n - 1")
    case True
    then have "run_inv n f (n - 1) (merge_loop n (next' + 1) (take_second n next' (take_first n next' s)))"
      using run_step [OF "1.prems"(1,2) True "1.prems"(4)] by (intro "1.IH" "1.prems") simp_all
    then show ?thesis using True by (subst merge_loop.simps) simp
  next
    case False
    then show ?thesis using "1.prems" by (subst merge_loop.simps) simp
  qed
qed

lemma run_start:
  assumes "length A = n" "2 \<le> n" "\<And>j j'. j \<le> j' \<Longrightarrow> j' < n \<Longrightarrow> par_of A j \<le> par_of A j'" "(\<Sum>j<n. par_of A j) < 65536"
  shows "run_inv n (par_of A) 1 (set_key A 0 (key_at A 0 + key_at A 1), 0, 2)"
proof -
  let ?f = "par_of A" and ?B = "set_key A 0 (key_at A 0 + key_at A 1)"
  let ?w = "\<lambda>_. ?f 0 + ?f 1"
  have upt: "[0..<n] = 0 # 1 # [2..<n]" using assms(2) by (simp add: upt_conv_Cons numeral_2_eq_2)
  have "(\<Sum>j<n. ?f j) = sum_list (map ?f [0..<n])"
    by (simp add: interv_sum_list_conv_sum_set_nat atLeast0LessThan)
  then have total: "?f 0 + ?f 1 + sum_list (map ?f [2..<n]) < 65536" using assms(4) by (simp add: upt)
  then have "unat (key_at A 0 + key_at A 1) = ?f 0 + ?f 1" by (simp add: unat_word_ariths)
  then have keys: "keys_ok n ?f ?w 1 id ?B 0 2"
    using assms(1,2) by (auto simp: keys_ok_def key_at_set_key)
  have "history n ?f ?w 1 ?f id id 0 2"
    unfolding history_def using assms(2,3) by (auto simp: less_Suc_eq numeral_2_eq_2 le_add1)
  note hist = this
  have r: "rest n ?f ?w 1 0 2 = add_mset (?f 0 + ?f 1) (mset (map ?f [2..<n]))"
    by (simp add: rest_def)
  have huff: "huff (mset (map ?f [0..<n])) ((\<Sum>k<(1 :: nat). ?w k) + c)" if "huff (rest n ?f ?w 1 0 2) c" for c
  proof -
    have "?f 0 \<le> ?f 1" "\<forall>z \<in># mset (map ?f [2..<n]). ?f 1 \<le> z" using assms(2,3) by auto
    then have "huff (add_mset (?f 0) (add_mset (?f 1) (mset (map ?f [2..<n])))) (?f 0 + ?f 1 + c)"
      using that unfolding r by (intro huff_merge)
    then show ?thesis by (simp only: upt list.map mset.simps) simp
  qed
  have inv: "merge_inv n 1 (?B, 0, 2)"
    using assms(1,2) by (simp add: merge_inv_def parents_ok_def)
  have sum: "\<Sum>\<^sub># (rest n ?f ?w 1 0 2) < 65536" using total unfolding r by (simp only: sum_mset.add_mset sum_mset_sum_list)
  have "\<forall>k < 1. ?w k = ?f (2 * k) + ?f (2 * k + 1)" by simp
  then show ?thesis
    unfolding run_inv_def prod.case using inv hist keys sum huff by blast
qed

subsection \<open>What the lengths cost\<close>

lemma sum_pairs: "(\<Sum>p<2 * M. h p) = (\<Sum>k<M. h (2 * k) + h (2 * k + 1) :: nat)" for M :: nat
  by (induction M) simp_all

text \<open>The depth of a leaf in the tree of the run.\<close>

definition tree_depth :: "(nat \<Rightarrow> nat) \<Rightarrow> (nat \<Rightarrow> nat) \<Rightarrow> nat \<Rightarrow> nat" where
  "tree_depth d lpos j = Suc (d (lpos j div 2))"

lemma tree_cost:
  assumes h: "history n f w (Suc m) q pos lpos m n" and n: "n = m + 2"
    and par: "\<And>i. i < m \<Longrightarrow> par i = pos i div 2" and d: "depths_ok m par d"
    and w: "\<And>k. k < Suc m \<Longrightarrow> w k = q (2 * k) + q (2 * k + 1)"
  shows "(\<Sum>j<n. f j * tree_depth d lpos j) = (\<Sum>k<Suc m. w k)"
proof -
  let ?g = "\<lambda>p. q p * Suc (d (p div 2))"
  have "(\<Sum>i<m. ?g (pos i)) = (\<Sum>i<m. w i * d i)"
    using historyD(5) [OF h] par d by (intro sum.cong) (simp_all add: depths_ok_def)
  moreover have "(\<Sum>j<n. ?g (lpos j)) = (\<Sum>j<n. f j * tree_depth d lpos j)"
    using historyD(7) [OF h] by (intro sum.cong) (simp_all add: tree_depth_def)
  moreover have "(\<Sum>p<m + n. ?g p) = (\<Sum>k<Suc m. w k * Suc (d k))"
  proof -
    have "m + n = 2 * Suc m" using n by simp
    then have "(\<Sum>p<m + n. ?g p) = (\<Sum>k<Suc m. ?g (2 * k) + ?g (2 * k + 1))" by (simp only: sum_pairs)
    also have "\<dots> = (\<Sum>k<Suc m. w k * Suc (d k))"
    proof (rule sum.cong)
      fix k assume "k \<in> {..<Suc m}"
      then have "w k = q (2 * k) + q (2 * k + 1)" using w by simp
      then show "?g (2 * k) + ?g (2 * k + 1) = w k * Suc (d k)" by (simp add: algebra_simps)
    qed simp
    finally show ?thesis .
  qed
  moreover have "(\<Sum>k<Suc m. w k * Suc (d k)) = (\<Sum>k<Suc m. w k) + (\<Sum>i<m. w i * d i)"
    using d by (simp add: sum.distrib depths_ok_def)
  ultimately show ?thesis using historyD(10) [OF h, of ?g] by simp
qed

lemma tree_count:
  assumes h: "history n f w (Suc m) q pos lpos m n" and n: "n = m + 2"
    and par: "\<And>i. i < m \<Longrightarrow> par i = pos i div 2" and d: "depths_ok m par d"
  shows "card {j. j < n \<and> tree_depth d lpos j = k} + card (level_set m d k) = slots m d k"
proof (cases k)
  case 0
  then show ?thesis using level_set_0 [OF d] by (simp add: tree_depth_def slots_def)
next
  case (Suc k')
  let ?g = "\<lambda>p. of_bool (d (p div 2) = k') :: nat"
  have count: "(\<Sum>i<M. of_bool (P i)) = card {i. i < M \<and> P i}" for M :: nat and P
    by (induction M) (auto simp: less_Suc_eq conj_disj_distribR Collect_disj_eq Collect_conv_if)
  have "(\<Sum>i<m. ?g (pos i)) = (\<Sum>i<m. of_bool (d i = k))"
    using par d Suc by (intro sum.cong) (simp_all add: depths_ok_def)
  moreover have "{i. i < m \<and> d i = k} = level_set m d k"
    using d Suc by (auto simp: level_set_def depths_ok_def le_less)
  moreover have "(\<Sum>j<n. ?g (lpos j)) = card {j. j < n \<and> tree_depth d lpos j = k}"
    unfolding count by (simp add: tree_depth_def Suc)
  moreover have "(\<Sum>p<m + n. ?g p) = 2 * card {i. i < Suc m \<and> d i = k'}"
  proof -
    have "m + n = 2 * Suc m" using n by simp
    then have "(\<Sum>p<m + n. ?g p) = (\<Sum>i<Suc m. 2 * of_bool (d i = k'))"
      by (simp only: sum_pairs) (intro sum.cong, simp_all)
    then show ?thesis by (simp only: count flip: sum_distrib_left)
  qed
  moreover have "{i. i < Suc m \<and> d i = k'} = level_set m d k'" by (auto simp: level_set_def)
  ultimately show ?thesis using historyD(10) [OF h, of ?g] Suc by (simp add: count slots_def)
qed

text \<open>The code lengths are the depths in the tree: both never increase and occur equally often.\<close>

lemma nonincreasing_unique:
  fixes xs ys :: "nat list"
  assumes "sorted (rev xs)" "sorted (rev ys)" "\<And>k. count_list xs k = count_list ys k"
  shows "xs = ys"
proof -
  have "mset xs = mset ys" using assms(3) by (simp add: multiset_eq_iff count_mset)
  then have "mset (rev xs) = mset (rev ys)" by simp
  then have "rev xs = rev ys" using properties_for_sort [OF _ assms(1)] properties_for_sort [OF _ assms(2)] by metis
  then show ?thesis by simp
qed

lemma count_list_card: "count_list xs k = card {j. j < length xs \<and> xs ! j = k}"
  by (simp add: count_list_eq_length_filter length_filter_conv_card eq_commute [of k])

lemma minimum_redundancy_run:
  assumes "length A = m + 2" "m + 2 < 65536" "\<And>j j'. j \<le> j' \<Longrightarrow> j' < m + 2 \<Longrightarrow> par_of A j \<le> par_of A j'"
    "(\<Sum>j<m + 2. par_of A j) < 65536"
  shows "\<exists>B w q pos lpos par d. tdefl_calculate_minimum_redundancy A = Some B \<and> length B = m + 2
    \<and> history (m + 2) (par_of A) w (Suc m) q pos lpos m (m + 2) \<and> (\<forall>i < m. par i = pos i div 2)
    \<and> parents_ok par m (Suc m) \<and> depths_ok m par d
    \<and> (\<forall>k < Suc m. w k = q (2 * k) + q (2 * k + 1)) \<and> w m < 65536
    \<and> huff (mset (map (par_of A) [0..<m + 2])) (\<Sum>k<Suc m. w k)
    \<and> (\<forall>j < m + 2. par_of B j = tree_depth d lpos j)"
proof -
  let ?n = "m + 2"
  obtain B A2 d where B: "tdefl_calculate_minimum_redundancy A = Some B" "length B = ?n" "leaves_ok m ?n (-1) B"
    and loop: "merge_loop ?n 1 (set_key A 0 (key_at A 0 + key_at A 1), 0, 2) = (A2, m, ?n)"
    and par: "parents_ok (par_of A2) m (Suc m)" and d: "depths_ok m (par_of A2) d"
    and counts: "\<And>k. leaf_count m (-1) B k + card (level_set m d k) = slots m d k"
    using minimum_redundancy_lengths [OF assms(1,2)] by blast
  have "run_inv ?n (par_of A) (?n - 1) (A2, m, ?n)"
    unfolding loop [symmetric] using assms
    by (intro merge_loop_run run_start) simp_all
  then obtain w q pos lpos where h: "history ?n (par_of A) w (Suc m) q pos lpos m ?n"
    and keys: "keys_ok ?n (par_of A) w (Suc m) pos A2 m ?n" and w: "\<forall>k < Suc m. w k = q (2 * k) + q (2 * k + 1)"
    and small: "\<Sum>\<^sub># (rest ?n (par_of A) w (Suc m) m ?n) < 65536"
    and run: "\<And>c. huff (rest ?n (par_of A) w (Suc m) m ?n) c \<Longrightarrow> huff (mset (map (par_of A) [0..<?n])) ((\<Sum>k<Suc m. w k) + c)"
    by (auto simp: run_inv_def)
  have r: "rest ?n (par_of A) w (Suc m) m ?n = {#w m#}" by (simp add: rest_def)
  have huff: "huff (mset (map (par_of A) [0..<?n])) (\<Sum>k<Suc m. w k)"
    using run [of 0] huff_done [of "{#w m#}"] unfolding r by simp
  have par_pos: "par_of A2 i = pos i div 2" if "i < m" for i using keys that by (simp add: keys_ok_def)
  let ?t = "map (tree_depth d lpos) [0..<?n]"
  have mono: "tree_depth d lpos j' \<le> tree_depth d lpos j" if "j \<le> j'" "j' < ?n" for j j'
  proof -
    have "lpos j div 2 \<le> lpos j' div 2" using historyD(8) [OF h that] by (rule div_le_mono)
    moreover have "lpos j' div 2 \<le> m" using historyD(6) [OF h that(2)] by simp
    ultimately show ?thesis using depths_mono [OF par d] by (simp add: tree_depth_def)
  qed
  have "code_lengths B = ?t"
  proof (rule nonincreasing_unique)
    show "sorted (rev (code_lengths B))"
      using B(2,3) by (simp add: sorted_rev_iff_nth_mono leaves_ok_def)
    show "sorted (rev ?t)" using mono by (simp add: sorted_rev_iff_nth_mono del: upt_Suc)
    fix k
    have "count_list (code_lengths B) k = leaf_count m (-1) B k"
      using B(2) unfolding count_list_card leaf_count_def by (intro arg_cong [of _ _ card]) auto
    moreover have "count_list ?t k = card {j. j < ?n \<and> tree_depth d lpos j = k}"
      unfolding count_list_card by (intro arg_cong [of _ _ card]) (auto simp del: upt_Suc)
    ultimately show "count_list (code_lengths B) k = count_list ?t k"
      using counts [of k] tree_count [OF h refl par_pos d, of k] by simp
  qed
  then have lens: "\<forall>j < ?n. par_of B j = tree_depth d lpos j"
    using B(2) by (auto simp: list_eq_iff_nth_eq simp del: upt_Suc)
  have "\<forall>i < m. par_of A2 i = pos i div 2" using par_pos by blast
  moreover have "w m < 65536" using small unfolding r by simp
  ultimately show ?thesis
    using B(1,2) h par d w huff lens
    by - (rule exI [of _ B], rule exI [of _ w], rule exI [of _ q], rule exI [of _ pos], rule exI [of _ lpos],
        rule exI [of _ "par_of A2"], rule exI [of _ d], intro conjI; assumption)
qed

subsection \<open>Minimum redundancy and the greatest length\<close>

text \<open>Before the routine the keys are frequencies, after it they are lengths.\<close>

abbreviation frequencies :: "sym_freq list \<Rightarrow> nat list" where
  "frequencies \<equiv> code_lengths"

definition code_cost :: "nat list \<Rightarrow> nat list \<Rightarrow> nat" where
  "code_cost fs ls = (\<Sum>j<length fs. fs ! j * ls ! j)"

definition pairing :: "nat list \<Rightarrow> nat list \<Rightarrow> (nat \<times> nat) multiset" where
  "pairing fs ls = mset (zip fs ls)"

lemma pairing_facts:
  assumes "length ls = length fs"
  shows "image_mset fst (pairing fs ls) = mset fs" "cost (pairing fs ls) = code_cost fs ls"
    "kraft L ls \<le> 2 ^ L \<Longrightarrow> \<forall>l \<in> set ls. l \<le> L \<Longrightarrow> fits L (pairing fs ls)"
proof -
  show "image_mset fst (pairing fs ls) = mset fs"
    using assms by (simp add: pairing_def flip: mset_map)
  show "cost (pairing fs ls) = code_cost fs ls"
    using assms by (simp add: pairing_def cost_def code_cost_def sum_mset_sum_list sum_list_sum_nth atLeast0LessThan flip: mset_map)
  have "space L (pairing fs ls) = kraft L ls"
    using assms by (simp add: pairing_def space_def kraft_nth sum_mset_sum_list sum_list_sum_nth atLeast0LessThan flip: mset_map)
  then show "kraft L ls \<le> 2 ^ L \<Longrightarrow> \<forall>l \<in> set ls. l \<le> L \<Longrightarrow> fits L (pairing fs ls)"
    by (auto simp: fits_def pairing_def dest: set_zip_rightD)
qed

lemma frequencies_facts:
  assumes "sorted (frequencies A)" "sum_list (frequencies A) < 65536" "length A = m + 2"
  shows "j \<le> j' \<Longrightarrow> j' < m + 2 \<Longrightarrow> par_of A j \<le> par_of A j'" "(\<Sum>j<m + 2. par_of A j) < 65536"
    "map (par_of A) [0..<m + 2] = frequencies A"
proof -
  show map: "map (par_of A) [0..<m + 2] = frequencies A"
    using assms(3) by (intro nth_equalityI) (simp_all del: upt_Suc)
  show "j \<le> j' \<Longrightarrow> j' < m + 2 \<Longrightarrow> par_of A j \<le> par_of A j'"
    using sorted_nth_mono [OF assms(1), of j j'] assms(3) by simp
  have "(\<Sum>j<m + 2. par_of A j) = sum_list (map (par_of A) [0..<m + 2])"
    by (simp only: interv_sum_list_conv_sum_set_nat atLeast0LessThan set_upt)
  then show "(\<Sum>j<m + 2. par_of A j) < 65536" using assms(2) by (simp only: map)
qed

text \<open>C8: the code lengths \<open>tdefl_calculate_minimum_redundancy\<close> computes for sorted frequencies whose sum
  fits 16 bits are of minimum redundancy: no lengths that leave room for a prefix code, that is with
  a sum of \<open>2 ^ -length\<close> of at most 1, give the symbols a smaller total length.\<close>

theorem minimum_redundancy_optimal:
  assumes "2 \<le> length A" "length A < 65536" "sorted (frequencies A)" "sum_list (frequencies A) < 65536"
    and "length ls = length A" "\<forall>l \<in> set ls. l \<le> L" "kraft L ls \<le> 2 ^ L"
  shows "\<exists>B. tdefl_calculate_minimum_redundancy A = Some B
    \<and> code_cost (frequencies A) (code_lengths B) \<le> code_cost (frequencies A) ls"
proof -
  obtain m where m: "length A = m + 2" using assms(1) by (metis add.commute le_Suc_ex)
  note f = frequencies_facts [OF assms(3,4) m]
  obtain B w q pos lpos par d where B: "tdefl_calculate_minimum_redundancy A = Some B" "length B = m + 2"
    and h: "history (m + 2) (par_of A) w (Suc m) q pos lpos m (m + 2)" and par: "\<forall>i < m. par i = pos i div 2"
    and d: "depths_ok m par d" and w: "\<forall>k < Suc m. w k = q (2 * k) + q (2 * k + 1)"
    and huff: "huff (mset (map (par_of A) [0..<m + 2])) (\<Sum>k<Suc m. w k)"
    and lens: "\<forall>j < m + 2. par_of B j = tree_depth d lpos j"
    using minimum_redundancy_run [OF m _ f(1,2)] assms(2) m by auto
  have "code_cost (frequencies A) (code_lengths B) = (\<Sum>j<m + 2. par_of A j * tree_depth d lpos j)"
    unfolding code_cost_def using m B(2) lens by (intro sum.cong) simp_all
  also have "\<dots> = (\<Sum>k<Suc m. w k)" using tree_cost [OF h refl _ d] par w by blast
  also have "\<dots> \<le> cost (pairing (frequencies A) ls)"
  proof (rule huff_optimal [OF huff])
    show "image_mset fst (pairing (frequencies A) ls) = mset (map (par_of A) [0..<m + 2])"
      using assms(5) by (simp only: f(3) pairing_facts(1) code_lengths_length)
    show "fits L (pairing (frequencies A) ls)" using assms(5-7) by (intro pairing_facts) simp_all
  qed
  also have "\<dots> = code_cost (frequencies A) ls" using assms(5) by (intro pairing_facts) simp
  finally show ?thesis using B(1) by blast
qed

lemma minimum_redundancy_optimal_witness:
  "\<exists>B. tdefl_calculate_minimum_redundancy
     [\<lparr>m_key = 1, m_sym_index = 7\<rparr>, \<lparr>m_key = 2, m_sym_index = 3\<rparr>, \<lparr>m_key = 4, m_sym_index = 5\<rparr>] = Some B
   \<and> code_cost [1, 2, 4] (code_lengths B) \<le> code_cost [1, 2, 4] [2, 2, 2]"
  using minimum_redundancy_optimal
    [of "[\<lparr>m_key = 1, m_sym_index = 7\<rparr>, \<lparr>m_key = 2, m_sym_index = 3\<rparr>, \<lparr>m_key = 4, m_sym_index = 5\<rparr>]" "[2, 2, 2]" 2]
  by (simp add: code_lengths_def kraft_def)

text \<open>The weights along a path grow like the numbers of Fibonacci.\<close>

fun fibo :: "nat \<Rightarrow> nat" where
  "fibo 0 = 0"
| "fibo (Suc 0) = 1"
| "fibo (Suc (Suc n)) = fibo (Suc n) + fibo n"

lemma fibo_add: "fibo (Suc (n + k)) = fibo (Suc n) * fibo (Suc k) + fibo n * fibo k"
  by (induction n arbitrary: k rule: fibo.induct) (simp_all add: algebra_simps)

lemma fibo_values: "fibo 21 = 10946" "fibo 22 = 17711"
proof -
  have v: "fibo 10 = 55" "fibo 11 = 89" by (simp_all add: numeral_eq_Suc)
  then have "fibo 12 = 144" using fibo.simps(3) [of 10] by simp
  then show "fibo 21 = 10946" "fibo 22 = 17711"
    using v fibo_add [of 10 10] fibo_add [of 10 11] by simp_all
qed

lemma fibo_mono: "i \<le> j \<Longrightarrow> fibo i \<le> fibo j"
proof (rule lift_Suc_mono_le [of fibo])
  show "fibo n \<le> fibo (Suc n)" for n by (cases n) simp_all
qed

lemma path_weight:
  assumes par: "parents_ok par m (Suc m)" and d: "depths_ok m par d"
    and chain: "\<And>i. i < m \<Longrightarrow> par i < m \<Longrightarrow> w (par i) + w i \<le> w (par (par i))"
  shows "i < m \<Longrightarrow> fibo (d i) * w (par i) + fibo (d i - 1) * w i \<le> w m"
proof (induction "m - i" arbitrary: i rule: less_induct)
  case less
  have i: "i < par i" "par i \<le> m" "d i = Suc (d (par i))"
    using parents_okD(1,2) [OF par less.prems] d less.prems by (auto simp: depths_ok_def)
  show ?case
  proof (cases "par i = m")
    case True
    then show ?thesis using d i by (simp add: depths_ok_def)
  next
    case False
    let ?a = "par i"
    have a: "?a < m" using False i by simp
    then have IH: "fibo (d ?a) * w (par ?a) + fibo (d ?a - 1) * w ?a \<le> w m"
      using less.hyps [of ?a] i less.prems by simp
    obtain e where e: "d ?a = Suc e" using d a by (auto simp: depths_ok_def)
    have "fibo (Suc e) * (w ?a + w i) \<le> fibo (Suc e) * w (par ?a)"
      using chain [OF less.prems a] by (rule mult_le_mono2)
    then show ?thesis using IH i(3) e by (simp add: algebra_simps)
  qed
qed

lemma depth_bound:
  assumes h: "history (m + 2) f w (Suc m) q pos lpos m (m + 2)" and pp: "\<And>i. i < m \<Longrightarrow> par i = pos i div 2"
    and par: "parents_ok par m (Suc m)" and d: "depths_ok m par d"
    and w: "\<And>k. k < Suc m \<Longrightarrow> w k = q (2 * k) + q (2 * k + 1)"
    and f: "\<And>j. j < m + 2 \<Longrightarrow> 1 \<le> f j" and small: "w m < 65536" and i: "i < m"
  shows "d i \<le> 21"
proof -
  have le: "q a \<le> q b" if "a \<le> b" "b < 2 * m + 2" for a b using historyD(1) [OF h, of a b] that by simp
  have "(\<Sum>i<m. of_bool (pos i = 0)) + (\<Sum>j<m + 2. of_bool (lpos j = 0)) = (1 :: nat)"
    unfolding historyD(10) [OF h, of "\<lambda>p. of_bool (p = 0)"] by (simp add: of_bool_def sum.delta del: sum.lessThan_Suc)
  moreover have "pos i \<noteq> 0" if "i < m" for i using parents_okD(1) [OF par that] pp [OF that] by auto
  then have "(\<Sum>i<m. of_bool (pos i = 0)) = (0 :: nat)" by (intro sum.neutral) auto
  ultimately have one: "(\<Sum>j<m + 2. of_bool (lpos j = 0)) = (1 :: nat)" by simp
  have "\<exists>j < m + 2. lpos j = 0"
  proof (rule ccontr)
    assume "\<not> (\<exists>j < m + 2. lpos j = 0)"
    then have "(\<Sum>j<m + 2. of_bool (lpos j = 0)) = (0 :: nat)" by (intro sum.neutral) auto
    then show False using one by simp
  qed
  then obtain j where "j < m + 2" "lpos j = 0" by blast
  then have pos: "1 \<le> q p" if "p < 2 * m + 2" for p
    using le [of 0 p] that f [of j] historyD(7) [OF h, of j] by simp
  have other: "w (par k) \<ge> w k + q b" if "k < m" "pos k \<noteq> b" "b div 2 = par k" for k b
  proof -
    have "par k < Suc m" using parents_okD(2) [OF par that(1)] .
    moreover have "pos k = 2 * par k \<and> b = 2 * par k + 1 \<or> pos k = 2 * par k + 1 \<and> b = 2 * par k"
      using pp [OF that(1)] that(2,3) by linarith
    ultimately show ?thesis using w [of "par k"] historyD(5) [OF h that(1)] by auto
  qed
  have sibling: "\<exists>b. p \<noteq> b \<and> b div 2 = k" for p k :: nat
  proof (cases "p = 2 * k")
    case True
    then show ?thesis by (intro exI [of _ "2 * k + 1"]) simp
  next
    case False
    then show ?thesis by (intro exI [of _ "2 * k"]) simp
  qed
  have chain: "w (par k) + w k \<le> w (par (par k))" if k: "k < m" "par k < m" for k
  proof -
    obtain b where b: "pos (par k) \<noteq> b" "b div 2 = par (par k)" using sibling by blast
    have "par k < par (par k)" "par (par k) < Suc m" using parents_okD(1,2) [OF par k(2)] by simp_all
    then have "pos k \<le> b" "b < 2 * m + 2" using pp [OF k(1)] b(2) by auto
    then have "w k \<le> q b" using le historyD(5) [OF h k(1)] by metis
    then show ?thesis using other [OF k(2) b] by simp
  qed
  show ?thesis
  proof (rule ccontr)
    assume "\<not> d i \<le> 21"
    then have "fibo 22 \<le> fibo (d i)" "fibo 21 \<le> fibo (d i - 1)" by (auto intro: fibo_mono)
    then have fib: "17711 \<le> fibo (d i)" "10946 \<le> fibo (d i - 1)" by (simp_all only: fibo_values)
    have wi: "2 \<le> w i" using w [of i] pos [of "2 * i"] pos [of "2 * i + 1"] i by simp
    obtain b where b: "pos i \<noteq> b" "b div 2 = par i" using sibling by blast
    have "b < 2 * m + 2" using b(2) parents_okD(2) [OF par i] by auto
    then have "3 \<le> w (par i)" using other [OF i b] pos [of b] wi by simp
    then have "17711 * 3 + 10946 * 2 \<le> fibo (d i) * w (par i) + fibo (d i - 1) * w i"
      using fib wi by (intro add_mono mult_le_mono)
    also have "\<dots> \<le> w m" using path_weight [OF par d, of w i] chain i by blast
    finally show False using small by simp
  qed
qed

lemma lengths_short:
  assumes m: "length A = m + 2" "m + 2 < 65536" "\<And>j j'. j \<le> j' \<Longrightarrow> j' < m + 2 \<Longrightarrow> par_of A j \<le> par_of A j'"
    "(\<Sum>j<m + 2. par_of A j) < 65536" and pos: "\<And>j. j < m + 2 \<Longrightarrow> 1 \<le> par_of A j"
  shows "\<exists>B. tdefl_calculate_minimum_redundancy A = Some B \<and> (\<forall>l \<in> set (code_lengths B). l \<le> 22)"
proof -
  obtain B w q pos' lpos par d where B: "tdefl_calculate_minimum_redundancy A = Some B" "length B = m + 2"
    and h: "history (m + 2) (par_of A) w (Suc m) q pos' lpos m (m + 2)" and pp: "\<forall>i < m. par i = pos' i div 2"
    and par: "parents_ok par m (Suc m)" and d: "depths_ok m par d" and w: "\<forall>k < Suc m. w k = q (2 * k) + q (2 * k + 1)"
    and small: "w m < 65536" and lens: "\<forall>j < m + 2. par_of B j = tree_depth d lpos j"
    using minimum_redundancy_run [OF m] by auto
  have bound: "d i \<le> 21" if "i < m + 1" for i
    using that depth_bound [OF h _ par d _ pos small, of i] pp w d by (cases "i = m") (auto simp: depths_ok_def)
  have "par_of B j \<le> 22" if "j < m + 2" for j
  proof -
    have "lpos j div 2 < m + 1" using historyD(6) [OF h that] by simp
    then show ?thesis using lens that bound [of "lpos j div 2"] by (simp add: tree_depth_def)
  qed
  then show ?thesis using B by (fastforce simp: in_set_conv_nth)
qed

text \<open>For positive sorted frequencies whose sum fits 16 bits no code length exceeds 22: the lengths
  index the array of 33 counts of \<open>tdefl_optimize_huffman_table\<close> within its bounds.  The bound holds
  for one symbol and for none as well.\<close>

theorem minimum_redundancy_depth:
  assumes "length A < 65536" "sorted (frequencies A)" "sum_list (frequencies A) < 65536" "\<forall>f \<in> set (frequencies A). 1 \<le> f"
  shows "\<exists>B. tdefl_calculate_minimum_redundancy A = Some B \<and> (\<forall>l \<in> set (code_lengths B). l \<le> 22)"
proof (cases "2 \<le> length A")
  case True
  then obtain m where m: "length A = m + 2" by (metis add.commute le_Suc_ex)
  note f = frequencies_facts [OF assms(2,3) m]
  have pos: "1 \<le> par_of A j" if "j < m + 2" for j
    using assms(4) that m nth_mem [of j "frequencies A"] by simp
  show ?thesis using lengths_short [OF m _ f(1,2) pos] assms(1) m by simp
next
  case False
  then have "length A < 2" by simp
  then have "A = [] \<or> length A = 1" by (auto simp only: less_2_cases_iff length_0_conv One_nat_def)
  then show ?thesis
    by (auto simp: tdefl_calculate_minimum_redundancy_def code_lengths_def length_Suc_conv set_key_def)
qed

lemma minimum_redundancy_depth_witness:
  "\<exists>B. tdefl_calculate_minimum_redundancy
     [\<lparr>m_key = 1, m_sym_index = 7\<rparr>, \<lparr>m_key = 2, m_sym_index = 3\<rparr>, \<lparr>m_key = 4, m_sym_index = 5\<rparr>] = Some B
   \<and> (\<forall>l \<in> set (code_lengths B). l \<le> 22)"
  by (rule minimum_redundancy_depth) (simp_all add: code_lengths_def)

end
