(* ===== verification/HuffTable.thy ===== *)
theory HuffTable
  imports HuffRun "HOL-Library.Sublist"
begin

text \<open>
  The Huffman tables of the compressor (src/packages/miniz/src/main/c/miniz.c): the limit on code
  sizes (\<open>tdefl_huffman_enforce_max_code_size\<close>) and \<open>tdefl_optimize_huffman_table\<close>, which turns the
  counts of a table into sizes and bit-reversed canonical codes.  The record holds the members of
  \<open>tdefl_compressor\<close> that the modelled functions use; pointers into its buffers are indices.
\<close>

unbundle bit_operations_syntax

subsection \<open>The compressor\<close>

abbreviation TDEFL_MAX_SUPPORTED_HUFF_CODESIZE :: nat where
  "TDEFL_MAX_SUPPORTED_HUFF_CODESIZE \<equiv> 32"

definition TDEFL_MAX_HUFF_SYMBOLS :: nat where "TDEFL_MAX_HUFF_SYMBOLS = 288"

record tdefl_compressor =
  m_huff_count :: "u16 list list"
  m_huff_codes :: "u16 list list"
  m_huff_code_sizes :: "u8 list list"
  m_lz_code_buf :: "u8 list"
  m_pLZ_code_buf :: nat
  m_pLZ_flags :: nat
  m_num_flags_left :: u32
  m_total_lz_bytes :: u32
  m_bits_in :: u32
  m_bit_buffer :: u32
  m_output_buf :: "u8 list"
  m_pOutput_buf :: nat
  m_pOutput_buf_end :: nat

subsection \<open>Limiting the code size\<close>

text \<open>The codes longer than the limit are counted at the limit.\<close>

definition clamp_sizes :: "nat \<Rightarrow> int list \<Rightarrow> int list" where
  "clamp_sizes max_code_size pNum_codes =
     fold (\<lambda>i num. num[max_code_size := num ! max_code_size + num ! i])
       [max_code_size + 1..<TDEFL_MAX_SUPPORTED_HUFF_CODESIZE + 1] pNum_codes"

definition size_total :: "nat \<Rightarrow> int list \<Rightarrow> u32" where
  "size_total max_code_size pNum_codes =
     fold (\<lambda>i tot. tot + push_bit (max_code_size - i) (of_int (pNum_codes ! i))) (rev [1..<max_code_size + 1]) 0"

fun lengthen :: "nat \<Rightarrow> int list \<Rightarrow> int list" where
  "lengthen 0 num = num"
| "lengthen (Suc i) num =
     (if num ! Suc i \<noteq> 0 then
        (let num = num[Suc i := num ! Suc i - 1] in num[Suc i + 1 := num ! (Suc i + 1) + 2])
      else lengthen i num)"

partial_function (option) enforce_loop :: "nat \<Rightarrow> int list \<Rightarrow> u32 \<Rightarrow> int list option" where
  "enforce_loop max_code_size num tot =
     (if (ucast tot :: u64) \<noteq> push_bit max_code_size 1 then
        enforce_loop max_code_size (lengthen (max_code_size - 1) (num[max_code_size := num ! max_code_size - 1])) (tot - 1)
      else Some num)"

definition tdefl_huffman_enforce_max_code_size :: "int list \<Rightarrow> nat \<Rightarrow> nat \<Rightarrow> int list option" where
  "tdefl_huffman_enforce_max_code_size pNum_codes code_list_len max_code_size =
     (if code_list_len \<le> 1 then Some pNum_codes
      else
        let num = clamp_sizes max_code_size pNum_codes in
        enforce_loop max_code_size num (size_total max_code_size num))"

subsection \<open>Tables\<close>

definition used_syms :: "nat \<Rightarrow> u16 list \<Rightarrow> sym_freq list" where
  "used_syms table_len pSym_count =
     map (\<lambda>i. \<lparr>m_key = pSym_count ! i, m_sym_index = of_nat i\<rparr>) (filter (\<lambda>i. pSym_count ! i \<noteq> 0) [0..<table_len])"

text \<open>The counts of the sizes: an array of 33 entries, indexed by a size.  Sizes are at most 32, see
  \<open>minimum_redundancy_depth\<close>; a greater one would be out of the array, where this definition does nothing.\<close>

definition count_sizes :: "nat list \<Rightarrow> int list" where
  "count_sizes ls = fold (\<lambda>l num. num[l := num ! l + 1]) ls (replicate (TDEFL_MAX_SUPPORTED_HUFF_CODESIZE + 1) 0)"

text \<open>Sizes are handed out from the most frequent symbol down.\<close>

fun give_size :: "nat \<Rightarrow> nat \<Rightarrow> sym_freq list \<Rightarrow> nat \<times> u8 list \<Rightarrow> (nat \<times> u8 list) option" where
  "give_size i 0 pSyms (j, sizes) = Some (j, sizes)"
| "give_size i (Suc l) pSyms (j, sizes) =
     (if j = 0 then None
      else give_size i l pSyms (j - 1, sizes[unat (m_sym_index (pSyms ! (j - 1))) := of_nat i]))"

fun give_sizes :: "nat list \<Rightarrow> int list \<Rightarrow> sym_freq list \<Rightarrow> nat \<times> u8 list \<Rightarrow> (nat \<times> u8 list) option" where
  "give_sizes [] num pSyms s = Some s"
| "give_sizes (i # is) num pSyms s =
     (case give_size i (nat (num ! i)) pSyms s of None \<Rightarrow> None | Some s \<Rightarrow> give_sizes is num pSyms s)"

definition first_codes :: "nat \<Rightarrow> int list \<Rightarrow> u32 list" where
  "first_codes code_size_limit num =
     fst (fold (\<lambda>i (next_code, j). let j = push_bit 1 (j + of_int (num ! (i - 1))) in (next_code[i := j], j))
       [2..<code_size_limit + 1] (replicate (TDEFL_MAX_SUPPORTED_HUFF_CODESIZE + 1) 0, 0))"

fun reverse_code :: "nat \<Rightarrow> u32 \<Rightarrow> u32 \<Rightarrow> u32" where
  "reverse_code 0 code rev_code = rev_code"
| "reverse_code (Suc l) code rev_code = reverse_code l (drop_bit 1 code) (push_bit 1 rev_code OR (code AND 1))"

definition give_code :: "u8 list \<Rightarrow> nat \<Rightarrow> u32 list \<times> u16 list \<Rightarrow> u32 list \<times> u16 list" where
  "give_code sizes i s =
     (case s of (next_code, codes) \<Rightarrow>
        let code_size = unat (sizes ! i) in
        if code_size = 0 then (next_code, codes)
        else
          let code = next_code ! code_size; next_code = next_code[code_size := code + 1]
          in (next_code, codes[i := ucast (reverse_code code_size code 0)]))"

definition tdefl_optimize_huffman_table ::
  "tdefl_compressor \<Rightarrow> nat \<Rightarrow> nat \<Rightarrow> nat \<Rightarrow> bool \<Rightarrow> tdefl_compressor option" where
  "tdefl_optimize_huffman_table d table_num table_len code_size_limit static_table =
     (case
        (if static_table then
           Some (count_sizes (map (\<lambda>i. unat (m_huff_code_sizes d ! table_num ! i)) [0..<table_len]),
             m_huff_code_sizes d ! table_num, m_huff_codes d ! table_num)
         else
           let syms0 = used_syms table_len (m_huff_count d ! table_num);
               syms1 = replicate (length syms0) \<lparr>m_key = 0, m_sym_index = 0\<rparr> in
           case tdefl_calculate_minimum_redundancy (tdefl_radix_sort_syms syms0 syms1) of
             None \<Rightarrow> None
           | Some pSyms \<Rightarrow>
             (case tdefl_huffman_enforce_max_code_size (count_sizes (map (\<lambda>s. unat (m_key s)) pSyms))
                     (length pSyms) code_size_limit of
                None \<Rightarrow> None
              | Some num_codes \<Rightarrow>
                (case give_sizes [1..<code_size_limit + 1] num_codes pSyms
                        (length pSyms, replicate TDEFL_MAX_HUFF_SYMBOLS 0) of
                   None \<Rightarrow> None
                 | Some (j, sizes) \<Rightarrow> Some (num_codes, sizes, replicate TDEFL_MAX_HUFF_SYMBOLS 0))))
      of None \<Rightarrow> None
       | Some (num_codes, sizes, codes) \<Rightarrow>
         let (next_code, codes) = fold (give_code sizes) [0..<table_len] (first_codes code_size_limit num_codes, codes)
         in Some (d\<lparr>m_huff_code_sizes := (m_huff_code_sizes d)[table_num := sizes],
                    m_huff_codes := (m_huff_codes d)[table_num := codes]\<rparr>))"

subsection \<open>The limit keeps the code complete\<close>

text \<open>Number and space of the codes of sizes 1 to \<open>M\<close>.\<close>

definition num_sum :: "nat \<Rightarrow> int list \<Rightarrow> int" where
  "num_sum M num = (\<Sum>i=1..M. num ! i)"

definition num_space :: "nat \<Rightarrow> nat \<Rightarrow> int list \<Rightarrow> int" where
  "num_space L M num = (\<Sum>i=1..M. num ! i * 2 ^ (L - i))"

lemma lengthen_length [simp]: "length (lengthen i num) = length num"
  by (induction i num rule: lengthen.induct) (simp_all add: Let_def)

text \<open>Making one code longer frees half its space for a second one.\<close>

lemma num_sum_update: "i \<in> {1..M} \<Longrightarrow> i < length num \<Longrightarrow> num_sum M (num[i := x]) = num_sum M num - num ! i + x"
  unfolding num_sum_def by (simp add: sum.remove [of _ i] nth_list_update)

lemma num_space_update:
  "i \<in> {1..M} \<Longrightarrow> i < length num \<Longrightarrow> num_space L M (num[i := x]) = num_space L M num + (x - num ! i) * 2 ^ (L - i)"
  unfolding num_space_def by (simp add: sum.remove [of _ i] nth_list_update algebra_simps)

lemma lengthen_step:
  assumes "k < M" "M < length num" "\<exists>i \<in> {1..k}. num ! i \<noteq> 0" "\<forall>i \<in> {1..M}. 0 \<le> num ! i"
  shows "num_sum M (lengthen k num) = num_sum M num + 1
    \<and> num_space M M (lengthen k num) = num_space M M num
    \<and> num ! M \<le> lengthen k num ! M \<and> (\<forall>i \<in> {1..M}. 0 \<le> lengthen k num ! i)"
  using assms
proof (induction k num rule: lengthen.induct)
  case (2 i num)
  show ?case
  proof (cases "num ! Suc i = 0")
    case True
    then have "\<exists>i' \<in> {1..i}. num ! i' \<noteq> 0" using "2.prems"(3) by (auto simp: le_Suc_eq)
    then show ?thesis using 2 True by simp
  next
    case False
    let ?a = "num[Suc i := num ! Suc i - 1]"
    have r: "lengthen (Suc i) num = ?a[Suc i + 1 := num ! (Suc i + 1) + 2]"
      using False by (simp add: Let_def)
    have l: "Suc i < length num" "Suc i + 1 < length num" "Suc i \<in> {1..M}" "Suc i + 1 \<in> {1..M}"
      using "2.prems" by auto
    have "M - Suc i = Suc (M - (Suc i + 1))" using "2.prems"(1) by simp
    then have p: "2 ^ (M - Suc i) = 2 * (2 ^ (M - (Suc i + 1)) :: int)" by simp
    have "0 < num ! Suc i" using False "2.prems"(4) l(3) by force
    then show ?thesis
      using "2.prems"(4) l p unfolding r
      by (auto simp: num_sum_update num_space_update nth_list_update algebra_simps)
  qed
qed auto

lemma enforce_guard: "M < 32 \<Longrightarrow> ((ucast (tot :: u32) :: u64) \<noteq> push_bit M 1) = (unat tot \<noteq> 2 ^ M)"
proof -
  assume "M < 32"
  then have "unat (push_bit M 1 :: u64) = 2 ^ M" 
    by (simp only: unsigned_push_bit_eq unsigned_1) (simp add: take_bit_nat_eq_self push_bit_eq_mult)
  moreover have "unat (ucast tot :: u64) = unat tot"
    using unsigned_less [where w = tot and 'a = nat] by (simp add: unsigned_ucast_eq take_bit_eq_mod)
  ultimately show ?thesis by (simp add: word_unat_eq_iff)
qed

lemma only_longest:
  assumes "1 \<le> M" "\<forall>i \<in> {1..M - 1}. num ! i = 0"
  shows "num_space M M num = num ! M" "num_sum M num = num ! M"
proof -
  have M: "{1..M} = insert M {1..M - 1}" using assms(1) by auto
  show "num_space M M num = num ! M" "num_sum M num = num ! M"
    using assms unfolding num_space_def num_sum_def M by simp_all
qed

lemma enforce_loop_spec:
  assumes "1 \<le> M" "M < 32" "length num = 33" "int (unat tot) = num_space M M num" "\<forall>i \<in> {1..M}. 0 \<le> num ! i"
    "2 ^ M \<le> num_space M M num" "num_sum M num \<le> 2 ^ M"
    "2 ^ M < num_space M M num \<Longrightarrow> num_space M M num - 2 ^ M < num ! M"
  shows "\<exists>num'. enforce_loop M num tot = Some num' \<and> length num' = 33 \<and> num_space M M num' = 2 ^ M
    \<and> num_sum M num' = num_sum M num \<and> (\<forall>i \<in> {1..M}. 0 \<le> num' ! i)"
  using assms
proof (induction "nat (num_space M M num - 2 ^ M)" arbitrary: num tot)
  case 0
  then have "int (unat tot) = int (2 ^ M)" by simp
  then have "unat tot = 2 ^ M" by (simp only: of_nat_eq_iff)
  then have "enforce_loop M num tot = Some num"
    using "0.prems"(2) by (subst enforce_loop.simps) (simp only: enforce_guard simp_thms if_False)
  then show ?case using 0 by simp
next
  case (Suc e)
  then have big: "2 ^ M < num_space M M num" by simp
  let ?a = "num[M := num ! M - 1]"
  let ?num = "lengthen (M - 1) ?a"
  have "unat tot \<noteq> 2 ^ M"
  proof
    assume "unat tot = 2 ^ M"
    then have "int (unat tot) = 2 ^ M" by (simp only: of_nat_power of_nat_numeral)
    then show False using Suc.prems(4) big by linarith
  qed
  then have run: "enforce_loop M num tot = enforce_loop M ?num (tot - 1)"
    using Suc.prems(2) by (subst enforce_loop.simps) (simp only: enforce_guard simp_thms if_True)
  have nM: "num_space M M num - 2 ^ M < num ! M" using Suc.prems(8) big .
  have M: "M \<in> {1..M}" "M < length num" using Suc.prems(1-3) by auto
  have "\<exists>i \<in> {1..M - 1}. num ! i \<noteq> 0"
  proof (rule ccontr)
    assume "\<not> (\<exists>i \<in> {1..M - 1}. num ! i \<noteq> 0)"
    then show False using only_longest [OF Suc.prems(1), of num] Suc.prems(7) big by auto
  qed
  then have "\<exists>i \<in> {1..M - 1}. ?a ! i \<noteq> 0" using Suc.prems(1) by (auto intro!: bexI)
  moreover have "\<forall>i \<in> {1..M}. 0 \<le> ?a ! i" using Suc.prems(5) nM big M by (auto simp: nth_list_update)
  ultimately have step: "num_sum M ?num = num_sum M ?a + 1 \<and> num_space M M ?num = num_space M M ?a
      \<and> ?a ! M \<le> ?num ! M \<and> (\<forall>i \<in> {1..M}. 0 \<le> ?num ! i)"
    using Suc.prems(1) M by (intro lengthen_step) simp_all
  have a: "num_sum M ?a = num_sum M num - 1" "num_space M M ?a = num_space M M num - 1" "?a ! M = num ! M - 1"
    using M by (simp_all add: num_sum_update num_space_update)
  have "(0 :: int) < 2 ^ M" by simp
  then have "0 < int (unat tot)" using Suc.prems(4) big by linarith
  then have "0 < unat tot" by (simp only: of_nat_0_less_iff)
  then have "unat (tot - 1) = unat tot - 1" by (simp add: unat_minus_one unat_gt_0)
  then have tot: "int (unat (tot - 1)) = num_space M M ?num"
    using Suc.prems(4) step a \<open>0 < unat tot\<close> by (simp add: of_nat_diff)
  have "\<exists>num'. enforce_loop M ?num (tot - 1) = Some num' \<and> length num' = 33 \<and> num_space M M num' = 2 ^ M
      \<and> num_sum M num' = num_sum M ?num \<and> (\<forall>i \<in> {1..M}. 0 \<le> num' ! i)"
    using Suc.prems Suc.hyps(2) step a tot nM big by (intro Suc.hyps(1)) auto
  then show ?case using run step a by simp
qed

text \<open>Clamping adds the counts above the limit to the count at the limit.\<close>

lemma clamp_fold:
  "M < length num \<Longrightarrow> \<forall>i \<in> set is. i \<noteq> M \<Longrightarrow>
    fold (\<lambda>i num. num[M := num ! M + num ! i]) is num = num[M := num ! M + (\<Sum>i \<leftarrow> is. num ! i)]"
proof (induction "is" arbitrary: num)
  case (Cons i "is")
  have "(\<Sum>j \<leftarrow> is. num[M := num ! M + num ! i] ! j) = (\<Sum>j \<leftarrow> is. num ! j)"
    using Cons.prems by (intro arg_cong [of _ _ sum_list] map_cong refl) (auto simp: nth_list_update)
  then show ?case using Cons by (simp add: add.assoc)
qed simp

lemma size_total_spec:
  assumes "\<forall>i \<in> {1..M}. 0 \<le> num ! i" "num_space M M num < 2 ^ 32"
  shows "int (unat (size_total M num)) = num_space M M num"
proof -
  let ?f = "\<lambda>i. push_bit (M - i) (of_int (num ! i)) :: u32"
  have "fold (\<lambda>i tot. tot + ?f i) is c = c + (\<Sum>i \<leftarrow> is. ?f i)" for "is" c
    by (induction "is" arbitrary: c) (simp_all add: algebra_simps)
  then have "size_total M num = (\<Sum>i \<leftarrow> rev [1..<M + 1]. ?f i)" by (simp add: size_total_def)
  also have "\<dots> = (\<Sum>i=1..M. ?f i)"
    by (simp add: interv_sum_list_conv_sum_set_nat atLeastLessThanSuc_atLeastAtMost rev_map [symmetric] sum_list_rev
        del: sum.op_ivl_Suc upt_Suc)
  also have "\<dots> = of_int (num_space M M num)"
    by (simp add: num_space_def push_bit_eq_mult algebra_simps)
  finally have "size_total M num = of_int (num_space M M num)" .
  moreover have "0 \<le> num_space M M num" unfolding num_space_def using assms(1) by (intro sum_nonneg) simp
  ultimately show ?thesis using assms(2) by (simp add: uint_word_of_int_eq take_bit_int_eq_self)
qed

lemma enforce_spec:
  assumes M: "1 \<le> M" "M < 32" and len: "length num = 33" and pos: "\<forall>i \<in> {1..32}. 0 \<le> num ! i"
    and full: "num_space 32 32 num = 2 ^ 32" and few: "num_sum 32 num \<le> 2 ^ M" and n: "1 < n"
  shows "\<exists>num'. tdefl_huffman_enforce_max_code_size num n M = Some num' \<and> length num' = 33 \<and> num_space M M num' = 2 ^ M
    \<and> num_sum M num' = num_sum 32 num \<and> (\<forall>i \<in> {1..M}. 0 \<le> num' ! i)"
proof -
  let ?c = "\<Sum>i=M + 1..32. num ! i" and ?s = "\<Sum>i=M + 1..32. num ! i * 2 ^ (32 - i)"
  let ?num = "num[M := num ! M + ?c]"
  have "{M + 1..<33} = {M + 1..32}" by auto
  then have clamp: "clamp_sizes M num = ?num"
    using M len unfolding clamp_sizes_def
    by (subst clamp_fold) (auto simp: interv_sum_list_conv_sum_set_nat)
  have split: "(\<Sum>i=1..32. f i) = (\<Sum>i=1..M. f i) + (\<Sum>i=M + 1..32. f i)" for f :: "nat \<Rightarrow> int"
  proof -
    have "{1..32} = {1..M} \<union> {M + 1..32}" "{1..M} \<inter> {M + 1..32} = {}" using M by auto
    then show ?thesis by (simp add: sum.union_disjoint)
  qed
  have sum: "num_sum M ?num = num_sum 32 num"
  proof -
    have "num_sum 32 num = num_sum M num + ?c" unfolding num_sum_def by (rule split)
    then show ?thesis using M len by (simp add: num_sum_update)
  qed
  have c0: "0 \<le> ?c" using pos by (intro sum_nonneg) auto
  have nn: "\<forall>i \<in> {1..M}. 0 \<le> ?num ! i" using pos c0 M len by (auto simp: nth_list_update)
  have sp: "num_space M M ?num = num_space M M num + ?c" using M len by (simp add: num_space_update)
  let ?k = "2 ^ (32 - M) :: int"
  have "num_space M M num * ?k = (\<Sum>i=1..M. num ! i * 2 ^ (32 - i))"
    unfolding num_space_def sum_distrib_right
  proof (intro sum.cong refl)
    fix i assume "i \<in> {1..M}"
    then have "32 - i = (M - i) + (32 - M)" using M by auto
    then show "num ! i * 2 ^ (M - i) * ?k = num ! i * 2 ^ (32 - i)" by (simp only: power_add mult.assoc)
  qed
  then have scaled: "num_space M M num * ?k + ?s = 2 ^ M * ?k"
    using full split [of "\<lambda>i. num ! i * 2 ^ (32 - i)"] M by (simp add: num_space_def flip: power_add)
  have s0: "0 \<le> ?s" using pos by (intro sum_nonneg) auto
  have s1: "?s \<le> ?c * (?k - 1)"
    unfolding sum_distrib_right
  proof (intro sum_mono)
    fix i assume i: "i \<in> {M + 1..32}"
    have "32 - M = Suc (31 - M)" using M by simp
    then have "?k = 2 * 2 ^ (31 - M)" by (simp only: power_Suc)
    moreover have "(2 :: int) ^ (32 - i) \<le> 2 ^ (31 - M)" using i by (intro power_increasing) auto
    moreover have "(1 :: int) \<le> 2 ^ (31 - M)" by simp
    ultimately have "2 ^ (32 - i) \<le> ?k - 1" by linarith
    then show "num ! i * 2 ^ (32 - i) \<le> num ! i * (?k - 1)" using pos i by (intro mult_left_mono) auto
  qed
  have s2: "?c \<le> ?s"
  proof (intro sum_mono)
    fix i assume i: "i \<in> {M + 1..32}"
    then have "0 \<le> num ! i" using pos by simp
    then show "num ! i \<le> num ! i * 2 ^ (32 - i)"
      using mult_left_mono [of 1 "2 ^ (32 - i)" "num ! i"] by simp
  qed
  note s = s1 s2
  have k: "0 < ?k" by simp
  let ?K = "num_space M M num"
  have "2 ^ M \<le> ?K + ?c"
  proof -
    have "2 ^ M * ?k \<le> (?K + ?c) * ?k" using scaled s(1) c0 by (simp add: algebra_simps)
    then show ?thesis using k by (simp only: mult_le_cancel_right_pos)
  qed
  moreover have excess: "?K + ?c < 2 ^ M + ?c \<or> ?c = 0 \<and> ?K = 2 ^ M"
  proof (cases "?c = 0")
    case True
    then have "?K * ?k = 2 ^ M * ?k" using scaled s by simp
    then show ?thesis using True k by simp
  next
    case False
    then have "?K * ?k < 2 ^ M * ?k" using scaled s(2) c0 by linarith
    then show ?thesis using k by simp
  qed
  moreover have "?c \<le> num_sum M ?num"
  proof -
    have "0 \<le> num_sum M num" unfolding num_sum_def using pos M by (intro sum_nonneg) auto
    then show ?thesis using M len by (simp add: num_sum_update)
  qed
  then have c: "?c \<le> 2 ^ M" using few sum by simp
  moreover have "(2 :: int) ^ M \<le> 2 ^ 31" using M by (intro power_increasing) auto
  ultimately have bounds: "2 ^ M \<le> num_space M M ?num" "num_space M M ?num < 2 ^ 32"
    "2 ^ M < num_space M M ?num \<Longrightarrow> num_space M M ?num - 2 ^ M < ?c"
    unfolding sp by auto
  have "?c \<le> ?num ! M" using M len pos by simp
  then have "2 ^ M < num_space M M ?num \<Longrightarrow> num_space M M ?num - 2 ^ M < ?num ! M" using bounds(3) by linarith
  then show ?thesis
    using enforce_loop_spec [OF M, of ?num "size_total M ?num"] size_total_spec [OF nn bounds(2)] bounds(1) nn few sum len n
    by (simp add: tdefl_huffman_enforce_max_code_size_def clamp Let_def)
qed

subsection \<open>The sizes of a table\<close>

lemma count_sizes_spec:
  "\<forall>l \<in> set ls. l \<le> 32 \<Longrightarrow> length (count_sizes ls) = 33 \<and> (\<forall>k \<le> 32. count_sizes ls ! k = int (count_list ls k))"
proof -
  have "\<forall>l \<in> set ls. l < length num \<Longrightarrow> length (fold (\<lambda>l num. num[l := num ! l + 1]) ls num) = length num
      \<and> (\<forall>k < length num. fold (\<lambda>l num. num[l := num ! l + 1]) ls num ! k = num ! k + int (count_list ls k))" for num
    by (induction ls arbitrary: num) (auto simp: nth_list_update)
  from this [of "replicate 33 0"] show "\<forall>l \<in> set ls. l \<le> 32 \<Longrightarrow> ?thesis"
    by (fastforce simp: count_sizes_def)
qed

lemma sum_count_list:
  fixes ls :: "nat list"
  assumes "\<forall>l \<in> set ls. 1 \<le> l \<and> l \<le> M"
  shows "(\<Sum>i=1..M. int (count_list ls i) * f i) = (\<Sum>l \<leftarrow> ls. f l)"
  using assms
proof (induction ls)
  case (Cons l ls)
  have "(\<Sum>i=1..M. int (count_list (l # ls) i) * f i) = (\<Sum>i=1..M. (if i = l then f i else 0) + int (count_list ls i) * f i)"
    by (intro sum.cong) (auto simp: algebra_simps)
  also have "\<dots> = f l + (\<Sum>l \<leftarrow> ls. f l)"
    using Cons by (simp add: sum.distrib)
  finally show ?case by simp
qed simp

lemma kraft_int: "int (kraft N ls) = (\<Sum>l \<leftarrow> ls. 2 ^ (N - l))"
  by (induction ls) (simp_all add: kraft_def)

lemma kraft_change:
  assumes "\<forall>l \<in> set ls. l \<le> M \<and> l \<le> N"
  shows "kraft M ls * 2 ^ N = kraft N ls * 2 ^ M"
  using assms
proof (induction ls)
  case (Cons l ls)
  have "(2 :: nat) ^ (M - l) * 2 ^ N = 2 ^ (N - l) * 2 ^ M"
    using Cons.prems by (simp flip: power_add)
  then show ?case using Cons by (simp add: kraft_def algebra_simps)
qed (simp add: kraft_def)

text \<open>The counts the limit starts from are those of a complete code.\<close>

lemma count_sizes_complete:
  assumes "\<forall>l \<in> set ls. 1 \<le> l \<and> l \<le> 32" "kraft 32 ls = 2 ^ 32"
  shows "num_space 32 32 (count_sizes ls) = 2 ^ 32" "num_sum 32 (count_sizes ls) = int (length ls)"
    "\<forall>i \<in> {1..32}. 0 \<le> count_sizes ls ! i"
proof -
  have c: "count_sizes ls ! i = int (count_list ls i)" if "i \<in> {1..32}" for i
    using count_sizes_spec [of ls] assms(1) that by auto
  have "num_space 32 32 (count_sizes ls) = (\<Sum>i=1..32. int (count_list ls i) * 2 ^ (32 - i))"
    unfolding num_space_def by (intro sum.cong refl) (simp add: c)
  then show "num_space 32 32 (count_sizes ls) = 2 ^ 32"
    unfolding sum_count_list [OF assms(1)] using assms(2) kraft_int [of 32 ls] by simp
  have "num_sum 32 (count_sizes ls) = (\<Sum>i=1..32. int (count_list ls i) * 1)"
    unfolding num_sum_def by (intro sum.cong refl) (simp add: c)
  then show "num_sum 32 (count_sizes ls) = int (length ls)"
    unfolding sum_count_list [OF assms(1)] by (simp add: sum_list_triv)
  show "\<forall>i \<in> {1..32}. 0 \<le> count_sizes ls ! i" using c by simp
qed

text \<open>Handing out sizes: a list of sizes for the symbols from the last one down.\<close>

lemma give_size_spec:
  assumes "l \<le> j"
  shows "give_size i l p (j, s)
    = Some (j - l, fold (\<lambda>q s. s[unat (m_sym_index (p ! q)) := of_nat i]) (rev [j - l..<j]) s)"
  using assms
proof (induction i l p "(j, s)" arbitrary: j s rule: give_size.induct)
  case (2 i l p j s)
  obtain j' where j': "j = Suc j'" using "2.prems" by (cases j) auto
  then show ?case using 2 by simp
qed simp

definition sizes_from :: "int list \<Rightarrow> nat list \<Rightarrow> nat list" where
  "sizes_from num is = concat (map (\<lambda>i. replicate (nat (num ! i)) i) is)"

lemma give_sizes_spec:
  assumes "length (sizes_from num is) \<le> j"
  shows "give_sizes is num p (j, s) = Some (j - length (sizes_from num is),
    fold (\<lambda>(q, i) s. s[unat (m_sym_index (p ! q)) := of_nat i])
      (zip (rev [j - length (sizes_from num is)..<j]) (sizes_from num is)) s)"
  using assms
proof (induction "is" arbitrary: j s)
  case Nil
  then show ?case by (simp add: sizes_from_def)
next
  case (Cons i "is")
  let ?l = "nat (num ! i)" and ?T = "length (sizes_from num is)"
  let ?f = "\<lambda>(q, i) s. s[unat (m_sym_index (p ! q)) := of_nat i]"
  have e: "sizes_from num (i # is) = replicate ?l i @ sizes_from num is" by (simp add: sizes_from_def)
  have le: "?l \<le> j" "?T \<le> j - ?l" using Cons.prems unfolding e by simp_all
  have "[j - (?l + ?T)..<j] = [j - (?l + ?T)..<j - ?l] @ [j - ?l..<j]"
    using upt_add_eq_append [of "j - (?l + ?T)" "j - ?l" ?l] le by simp
  then have r: "rev [j - (?l + ?T)..<j] = rev [j - ?l..<j] @ rev [j - ?l - ?T..<j - ?l]" by (simp add: diff_diff_left)
  have "fold ?f (zip (rev [j - ?l..<j]) (replicate ?l i)) s
      = fold (\<lambda>q s. s[unat (m_sym_index (p ! q)) := of_nat i]) (rev [j - ?l..<j]) s"
  proof -
    have "zip xs (replicate (length xs) i) = map (\<lambda>q. (q, i)) xs" for xs by (induction xs) auto
    from this [of "rev [j - ?l..<j]"] show ?thesis using le(1) by (simp add: fold_map comp_def)
  qed
  then show ?case
    using give_size_spec [OF le(1), of i p s] Cons.IH [OF le(2)] le
    unfolding e length_append length_replicate r by (simp add: zip_append)
qed

lemma fold_updates:
  assumes "distinct (map fst ps)" "y < length s"
  shows "fold (\<lambda>(x, v) s. s[x := v]) ps s ! y = (case map_of ps y of Some v \<Rightarrow> v | None \<Rightarrow> s ! y)"
  using assms
proof (induction ps arbitrary: s)
  case (Cons a ps)
  obtain x v where a: "a = (x, v)" by (cases a)
  show ?case
  proof (cases "y = x")
    case True
    then have "map_of ps y = None" using Cons.prems(1) a by (simp add: map_of_eq_None_iff)
    then show ?thesis using Cons a True by simp
  next
    case False
    then have "fold (\<lambda>(x, v) s. s[x := v]) (a # ps) s ! y = (case map_of ps y of Some v \<Rightarrow> v | None \<Rightarrow> s[x := v] ! y)"
      using Cons a by simp
    also have "s[x := v] ! y = s ! y" using False by simp
    finally show ?thesis using False a by simp
  qed
qed simp

lemma fold_updates_length [simp]: "length (fold (\<lambda>(x, v) s. s[x := v]) ps s) = length s"
  by (induction ps arbitrary: s) auto

text \<open>The sizes array holds the sizes of the list, each at its symbol, and 0 elsewhere.\<close>

lemma sizes_of_symbols:
  fixes xs :: "nat list" and vs :: "u8 list"
  assumes "distinct xs" "length vs = length xs" "\<forall>x \<in> set xs. x < M" "M \<le> N" "\<forall>v \<in> set vs. v \<noteq> 0"
    and s: "s = fold (\<lambda>(x, v) s. s[x := v]) (zip xs vs) (replicate N 0)"
  shows "i < M \<Longrightarrow> (s ! i \<noteq> 0) = (i \<in> set xs)" "i < M \<Longrightarrow> s ! i \<in> insert 0 (set vs)"
    "mset (filter (\<lambda>l. l \<noteq> 0) (map (\<lambda>i. s ! i) [0..<M])) = mset vs"
proof -
  have at: "s ! i = (case map_of (zip xs vs) i of Some v \<Rightarrow> v | None \<Rightarrow> 0)" if "i < M" for i
    using assms(1,2,4) that unfolding s by (subst fold_updates) (auto split: option.split dest: set_zip_leftD)
  have get: "map_of (zip xs vs) (xs ! k) = Some (vs ! k)" if "k < length xs" for k
    using that assms(1,2) by (intro map_of_zip_nth) simp_all
  show nz: "(s ! i \<noteq> 0) = (i \<in> set xs)" if "i < M" for i
  proof (cases "i \<in> set xs")
    case True
    then obtain k where k: "k < length xs" "xs ! k = i" by (auto simp: in_set_conv_nth)
    then have "s ! i = vs ! k" using at [OF that] get [of k] by simp
    then show ?thesis using True k assms(2,5) by simp
  next
    case False
    then have "map_of (zip xs vs) i = None" using assms(2) by (simp add: map_of_zip_is_None)
    then show ?thesis using False at [OF that] by simp
  qed
  show "s ! i \<in> insert 0 (set vs)" if "i < M" for i
    using at [OF that] by (auto split: option.splits dest: map_of_SomeD set_zip_rightD)
  have "filter (\<lambda>l. l \<noteq> 0) (map (\<lambda>i. s ! i) [0..<M]) = map (\<lambda>i. s ! i) (filter (\<lambda>i. i \<in> set xs) [0..<M])"
    unfolding filter_map comp_def by (intro arg_cong [of _ _ "map (\<lambda>i. s ! i)"] filter_cong) (auto simp: nz)
  moreover have "mset (filter (\<lambda>i. i \<in> set xs) [0..<M]) = mset xs"
    using assms(1,3) by (intro set_eq_iff_mset_eq_distinct [THEN iffD1]) auto
  then have "mset (map (\<lambda>i. s ! i) (filter (\<lambda>i. i \<in> set xs) [0..<M])) = mset (map (\<lambda>i. s ! i) xs)" by simp
  moreover have "map (\<lambda>i. s ! i) xs = vs"
    using at get assms(2,3) by (intro nth_equalityI) simp_all
  ultimately show "mset (filter (\<lambda>l. l \<noteq> 0) (map (\<lambda>i. s ! i) [0..<M])) = mset vs" by simp
qed

subsection \<open>Canonical codes\<close>

text \<open>The first code of a size follows the last one of the size before, shifted.\<close>

fun fcode :: "(nat \<Rightarrow> nat) \<Rightarrow> nat \<Rightarrow> nat" where
  "fcode c 0 = 0"
| "fcode c (Suc k) = (if k = 0 then 0 else 2 * (fcode c k + c k))"

lemma fcode_step: "1 \<le> k \<Longrightarrow> k < t \<Longrightarrow> (fcode c k + c k) * 2 ^ (t - k) \<le> fcode c t"
proof (induction t)
  case (Suc t)
  show ?case
  proof (cases "k = t")
    case False
    then have "(fcode c k + c k) * 2 ^ (t - k) \<le> fcode c t" using Suc by simp
    then show ?thesis using Suc.prems False by (simp add: Suc_diff_le)
  qed (use Suc.prems in simp)
qed simp

lemma fcode_space: "k \<le> L \<Longrightarrow> fcode c k * 2 ^ (L - k) = (\<Sum>i=1..<k. c i * 2 ^ (L - i))"
proof (induction k)
  case (Suc k)
  have "L - k = Suc (L - Suc k)" using Suc.prems by simp
  then have "2 * 2 ^ (L - Suc k) = (2 ^ (L - k) :: nat)" by simp
  then have "fcode c (Suc k) * 2 ^ (L - Suc k) = (if k = 0 then 0 else fcode c k * 2 ^ (L - k) + c k * 2 ^ (L - k))"
    by (simp add: algebra_simps)
  then show ?case using Suc by (cases "k = 0") simp_all
qed simp

lemma first_codes_spec:
  assumes "L \<le> 32" "\<forall>k \<in> {1..L}. num ! k = int (c k)"
  shows "length (first_codes L num) = 33 \<and> (\<forall>k \<in> {1..L}. first_codes L num ! k = of_nat (fcode c k))"
proof -
  let ?f = "\<lambda>i (next_code, j). let j = push_bit 1 (j + of_int (num ! (i - 1))) in (next_code[i := j :: u32], j)"
  define st where "st m = fold ?f [2..<m + 1] (replicate 33 0, 0)" for m
  have "length (fst (st m)) = 33 \<and> (\<forall>k \<in> {1..m}. fst (st m) ! k = of_nat (fcode c k)) \<and> snd (st m) = of_nat (fcode c m)"
    if "1 \<le> m" "m \<le> L" for m
    using that
  proof (induction m)
    case (Suc m)
    show ?case
    proof (cases "m = 0")
      case True
      then show ?thesis by (simp add: st_def)
    next
      case False
      obtain nc j where nj: "st m = (nc, j)" by (cases "st m")
      then have IH: "length nc = 33" "\<forall>k \<in> {1..m}. nc ! k = of_nat (fcode c k)" "j = of_nat (fcode c m)"
        using Suc False by simp_all
      have "[2..<Suc m + 1] = [2..<m + 1] @ [Suc m]" using False by simp
      then have "st (Suc m) = ?f (Suc m) (st m)" by (simp add: st_def del: upt_Suc)
      moreover have "push_bit 1 (j + of_int (num ! m)) = of_nat (fcode c (Suc m))"
        using IH(3) False assms(2) Suc.prems by (simp add: push_bit_eq_mult algebra_simps)
      ultimately have "st (Suc m) = (nc[Suc m := of_nat (fcode c (Suc m))], of_nat (fcode c (Suc m)))"
        unfolding nj by (simp only: prod.case Let_def diff_Suc_1)
      then show ?thesis using IH Suc.prems assms(1) by (auto simp: nth_list_update le_Suc_eq)
    qed
  qed simp
  then show ?thesis
    by (cases "L = 0") (auto simp: first_codes_def st_def)
qed

text \<open>The code of symbol \<open>i\<close>: the first of its size plus the number of symbols of this size before it.\<close>

definition code_of :: "nat list \<Rightarrow> nat \<Rightarrow> nat" where
  "code_of ls i = fcode (count_list ls) (ls ! i) + count_list (take i ls) (ls ! i)"

lemma count_take_less:
  assumes "i < length ls"
  shows "count_list (take i ls) (ls ! i) < count_list ls (ls ! i)"
proof -
  have "count_list ls (ls ! i) = count_list (take i ls @ ls ! i # drop (Suc i) ls) (ls ! i)"
    using id_take_nth_drop [OF assms] by (rule arg_cong)
  also have "\<dots> = count_list (take i ls) (ls ! i) + Suc (count_list (drop (Suc i) ls) (ls ! i))"
    by (simp only: count_list_append count_list.simps if_True add_Suc_right add_0_right) simp
  finally show ?thesis by simp
qed

lemma count_take_mono: "i \<le> j \<Longrightarrow> count_list (take i ls) k \<le> count_list (take j ls) k"
proof -
  assume "i \<le> j"
  then have "take j ls = take i ls @ take (j - i) (drop i ls)" by (metis le_add_diff_inverse take_add)
  then show ?thesis by simp
qed

text \<open>Within the code space a code fits its size.\<close>

lemma code_of_fits:
  assumes i: "i < length ls" "1 \<le> ls ! i" and le: "\<forall>l \<in> set ls. l \<le> L" and space: "kraft L (filter (\<lambda>l. l \<noteq> 0) ls) \<le> 2 ^ L"
  shows "code_of ls i < 2 ^ (ls ! i)"
proof -
  let ?k = "ls ! i" and ?c = "count_list ls"
  have k: "?k \<le> L" using le i(1) by simp
  let ?us = "filter (\<lambda>l. l \<noteq> 0) ls"
  have cu: "count_list ?us j = ?c j" if "1 \<le> j" for j using that by (induction ls) auto
  have "int (\<Sum>j=1..L. ?c j * 2 ^ (L - j)) = (\<Sum>j=1..L. int (count_list ?us j) * 2 ^ (L - j))"
    unfolding of_nat_sum of_nat_mult of_nat_power of_nat_numeral
    by (intro sum.cong refl) (simp only: cu atLeastAtMost_iff)
  also have "\<dots> = int (kraft L ?us)"
    unfolding kraft_int using le by (intro sum_count_list) auto
  finally have total: "(\<Sum>j=1..L. ?c j * 2 ^ (L - j)) = kraft L ?us" by (simp only: of_nat_eq_iff)
  have "(code_of ls i + 1) * 2 ^ (L - ?k) \<le> (fcode ?c ?k + ?c ?k) * 2 ^ (L - ?k)"
    using count_take_less [OF i(1)] by (intro mult_le_mono1) (simp add: code_of_def)
  also have "\<dots> = (\<Sum>j=1..<Suc ?k. ?c j * 2 ^ (L - j))"
    using i(2) k by (simp add: fcode_space algebra_simps)
  also have "\<dots> \<le> (\<Sum>j=1..L. ?c j * 2 ^ (L - j))" using k by (intro sum_mono2) auto
  also have "\<dots> \<le> 2 ^ ?k * 2 ^ (L - ?k)" using space total k by (simp flip: power_add)
  finally have "code_of ls i + 1 \<le> 2 ^ ?k" by (simp only: mult_le_cancel2) simp
  then show ?thesis by simp
qed

text \<open>No code is the beginning of another.\<close>

lemma code_of_prefix_free:
  assumes ij: "i < length ls" "j < length ls" "i \<noteq> j" and le: "1 \<le> ls ! i" "ls ! i \<le> ls ! j"
  shows "code_of ls j div 2 ^ (ls ! j - ls ! i) \<noteq> code_of ls i"
proof (cases "ls ! i = ls ! j")
  case True
  have "count_list (take a ls) (ls ! a) < count_list (take b ls) (ls ! a)" if "a < b" "b < length ls" for a b
  proof -
    have "count_list (take (Suc a) ls) (ls ! a) = Suc (count_list (take a ls) (ls ! a))"
      using that by (simp add: take_Suc_conv_app_nth)
    then show ?thesis using count_take_mono [of "Suc a" b ls "ls ! a"] that by simp
  qed
  from this [of i j] this [of j i] show ?thesis
    using ij True by (cases "i < j") (auto simp: code_of_def)
next
  case False
  then have lt: "ls ! i < ls ! j" using le(2) by simp
  have "(code_of ls i + 1) * 2 ^ (ls ! j - ls ! i)
      \<le> (fcode (count_list ls) (ls ! i) + count_list ls (ls ! i)) * 2 ^ (ls ! j - ls ! i)"
    using count_take_less [OF ij(1)] by (intro mult_le_mono1) (simp add: code_of_def)
  also have "\<dots> \<le> code_of ls j" using fcode_step [OF le(1) lt, of "count_list ls"] by (simp add: code_of_def)
  finally have "code_of ls i + 1 \<le> code_of ls j div 2 ^ (ls ! j - ls ! i)"
    by (simp add: less_eq_div_iff_mult_less_eq)
  then show ?thesis by simp
qed

lemma reverse_code_bit:
  "b < 32 \<Longrightarrow> l \<le> 32 \<Longrightarrow> bit (reverse_code l code r) b = (if b < l then bit code (l - 1 - b) else bit r (b - l))"
proof (induction l code r rule: reverse_code.induct)
  case (2 l code r)
  have one: "bit (code AND 1) n = (n = 0 \<and> bit code 0)" for n
    by (cases "n = 0") (simp_all only: bit_and_iff bit_1_iff simp_thms)
  have new: "bit (push_bit 1 r OR (code AND 1)) n = (if n = 0 then bit code 0 else bit r (n - 1))" if "n < 32" for n
    using that by (cases "n = 0") (simp_all only: bit_or_iff bit_push_bit_iff one, simp_all)
  have IH: "bit (reverse_code (Suc l) code r) b
      = (if b < l then bit (drop_bit 1 code) (l - 1 - b) else bit (push_bit 1 r OR (code AND 1)) (b - l))"
    using 2 by simp
  show ?case
  proof (cases b l rule: linorder_cases)
    case less
    then show ?thesis unfolding IH by (simp add: bit_drop_bit_eq Suc_diff_Suc)
  next
    case equal
    then show ?thesis unfolding IH by (simp only: new) simp
  next
    case greater
    then show ?thesis unfolding IH using "2.prems" by (simp only: new) simp
  qed
qed simp

subsection \<open>The codes of a table\<close>

text \<open>The bits of a symbol in the order in which they are written, from the lowest of its code.\<close>

definition code_bits :: "u16 \<Rightarrow> nat \<Rightarrow> bool list" where
  "code_bits code size' = map (bit code) [0..<size']"

lemma give_codes_spec:
  fixes sizes :: "u8 list" and n :: nat
  defines "ls \<equiv> map (\<lambda>i. unat (sizes ! i)) [0..<n]"
  assumes L: "L \<le> 32" and le: "\<forall>l \<in> set ls. l \<le> L" and num: "\<forall>k \<in> {1..L}. num ! k = int (count_list ls k)"
    and n: "n \<le> length codes"
  shows "i < n \<Longrightarrow> ls ! i \<noteq> 0 \<Longrightarrow> snd (fold (give_code sizes) [0..<n] (first_codes L num, codes)) ! i
    = ucast (reverse_code (ls ! i) (of_nat (code_of ls i)) 0)"
proof -
  define st where "st m = fold (give_code sizes) [0..<m] (first_codes L num, codes)" for m
  have len: "length ls = n" by (simp add: ls_def)
  have "length (fst (st m)) = 33 \<and> length (snd (st m)) = length codes
      \<and> (\<forall>k \<in> {1..L}. fst (st m) ! k = of_nat (fcode (count_list ls) k + count_list (take m ls) k))
      \<and> (\<forall>i < m. ls ! i \<noteq> 0 \<longrightarrow> snd (st m) ! i = ucast (reverse_code (ls ! i) (of_nat (code_of ls i)) 0))"
    if "m \<le> n" for m
    using that
  proof (induction m)
    case 0
    then show ?case using first_codes_spec [OF L num] by (auto simp: st_def)
  next
    case (Suc m)
    obtain nc cs where nc: "st m = (nc, cs)" by (cases "st m")
    have IH: "length nc = 33" "length cs = length codes"
      "\<And>k. k \<in> {1..L} \<Longrightarrow> nc ! k = of_nat (fcode (count_list ls) k + count_list (take m ls) k)"
      "\<And>i. i < m \<Longrightarrow> ls ! i \<noteq> 0 \<Longrightarrow> cs ! i = ucast (reverse_code (ls ! i) (of_nat (code_of ls i)) 0)"
      using Suc nc by simp_all
    have run: "st (Suc m) = give_code sizes m (nc, cs)" using nc by (simp add: st_def)
    have lm: "unat (sizes ! m) = ls ! m" using Suc.prems by (simp add: ls_def)
    have take: "take (Suc m) ls = take m ls @ [ls ! m]" using Suc.prems len by (simp add: take_Suc_conv_app_nth)
    show ?case
    proof (cases "ls ! m = 0")
      case True
      then have "st (Suc m) = (nc, cs)" using run lm by (simp add: give_code_def)
      then show ?thesis using IH True by (auto simp: take less_Suc_eq)
    next
      case False
      then have k: "ls ! m \<in> {1..L}" using le Suc.prems len nth_mem [of m ls] by auto
      then have code: "nc ! (ls ! m) = of_nat (code_of ls m)" using IH(3) by (simp add: code_of_def)
      have "st (Suc m) = (nc[ls ! m := of_nat (code_of ls m) + 1],
          cs[m := ucast (reverse_code (ls ! m) (of_nat (code_of ls m)) 0)])"
        using run lm False code by (simp add: give_code_def Let_def)
      then show ?thesis
        using IH k L Suc.prems n by (auto simp: take nth_list_update less_Suc_eq code_of_def)
    qed
  qed
  then show "i < n \<Longrightarrow> ls ! i \<noteq> 0 \<Longrightarrow> snd (fold (give_code sizes) [0..<n] (first_codes L num, codes)) ! i
    = ucast (reverse_code (ls ! i) (of_nat (code_of ls i)) 0)"
    by (simp add: st_def)
qed

lemma code_bits_reversed:
  assumes "s \<le> 16" "c < 2 ^ s"
  shows "code_bits (ucast (reverse_code s (of_nat c) 0)) s = map (\<lambda>b. bit c (s - 1 - b)) [0..<s]"
  unfolding code_bits_def
proof (rule map_cong)
  fix b assume "b \<in> set [0..<s]"
  then have b: "b < s" by simp
  have "bit (ucast (reverse_code s (of_nat c) 0) :: u16) b = bit (reverse_code s (of_nat c) 0) b"
    using b assms(1) by (simp add: bit_ucast_iff)
  also have "\<dots> = bit (of_nat c :: u32) (s - 1 - b)" using b assms(1) by (subst reverse_code_bit) simp_all
  also have "\<dots> = bit (unat (of_nat c :: u32)) (s - 1 - b)" by (simp only: bit_unsigned_iff possible_bit_nat simp_thms)
  also have "unat (of_nat c :: u32) = c"
  proof -
    have "(2 :: nat) ^ s \<le> 2 ^ 16" using assms(1) by (intro power_increasing) simp_all
    then have "c < 2 ^ 32" using assms(2) by simp
    then show ?thesis by (simp add: unat_of_nat take_bit_nat_eq_self)
  qed
  finally show "bit (ucast (reverse_code s (of_nat c) 0) :: u16) b = bit c (s - 1 - b)" .
qed simp

lemma reversed_prefix:
  fixes u v :: nat
  assumes p: "prefix (map (\<lambda>b. bit u (s - 1 - b)) [0..<s]) (map (\<lambda>b. bit v (t - 1 - b)) [0..<t])"
    and u: "u < 2 ^ s" and v: "v < 2 ^ t"
  shows "s \<le> t \<and> v div 2 ^ (t - s) = u"
proof -
  have le: "s \<le> t" using prefix_length_le [OF p] by simp
  have eq: "bit u (s - 1 - b) = bit v (t - 1 - b)" if "b < s" for b
    using p that le by (auto simp: prefix_def list_eq_iff_nth_eq nth_append)
  have "drop_bit (t - s) v = u"
  proof (rule bit_eqI)
    fix n
    show "bit (drop_bit (t - s) v) n = bit u n"
    proof (cases "n < s")
      case True
      then show ?thesis using eq [of "s - 1 - n"] le by (simp add: bit_drop_bit_eq)
    next
      case False
      have high: "\<not> bit x m" if "x < 2 ^ k" "k \<le> m" for x k m :: nat
        using that by (metis bit_take_bit_iff not_less take_bit_nat_eq_self)
      show ?thesis using high [OF u, of n] high [OF v, of "n + (t - s)"] False le by (simp add: bit_drop_bit_eq add.commute)
    qed
  qed
  then show ?thesis using le by (simp add: drop_bit_eq_div)
qed

lemma table_prefix_free:
  fixes sizes :: "u8 list" and n :: nat
  defines "ls \<equiv> map (\<lambda>i. unat (sizes ! i)) [0..<n]"
  assumes L: "L \<le> 16" and le: "\<forall>l \<in> set ls. l \<le> L" and num: "\<forall>k \<in> {1..L}. num ! k = int (count_list ls k)"
    and n: "n \<le> length codes" and space: "kraft L (filter (\<lambda>l. l \<noteq> 0) ls) \<le> 2 ^ L"
    and ij: "i < n" "j < n" "i \<noteq> j" "sizes ! i \<noteq> 0" "sizes ! j \<noteq> 0"
    and cs: "cs = snd (fold (give_code sizes) [0..<n] (first_codes L num, codes))"
  shows "\<not> prefix (code_bits (cs ! i) (unat (sizes ! i))) (code_bits (cs ! j) (unat (sizes ! j)))"
proof -
  have b: "code_bits (cs ! k) (unat (sizes ! k)) = map (\<lambda>b. bit (code_of ls k) (ls ! k - 1 - b)) [0..<ls ! k]"
    "code_of ls k < 2 ^ (ls ! k)" "1 \<le> ls ! k" if k: "k < n" "sizes ! k \<noteq> 0" for k
  proof -
    have lk: "ls ! k = unat (sizes ! k)" using k(1) by (simp add: ls_def)
    then show pos: "1 \<le> ls ! k" using k(2) by (simp add: unat_gt_0 Suc_le_eq)
    then show fits: "code_of ls k < 2 ^ (ls ! k)"
      using k(1) by (intro code_of_fits [OF _ _ le space]) (simp_all add: ls_def)
    have "ls ! k \<le> 16" using le L nth_mem [of k ls] k(1) by (force simp: ls_def)
    moreover have "cs ! k = ucast (reverse_code (ls ! k) (of_nat (code_of ls k)) 0)"
      unfolding cs ls_def using L le num n k(1) pos by (intro give_codes_spec) (simp_all add: ls_def)
    ultimately show "code_bits (cs ! k) (unat (sizes ! k)) = map (\<lambda>b. bit (code_of ls k) (ls ! k - 1 - b)) [0..<ls ! k]"
      using code_bits_reversed [OF _ fits] by (simp only: lk [symmetric])
  qed
  show ?thesis
  proof
    assume "prefix (code_bits (cs ! i) (unat (sizes ! i))) (code_bits (cs ! j) (unat (sizes ! j)))"
    then have "ls ! i \<le> ls ! j \<and> code_of ls j div 2 ^ (ls ! j - ls ! i) = code_of ls i"
      using reversed_prefix b ij by metis
    then show False
      using code_of_prefix_free [of i ls j] ij b(3) [of i] by (simp add: ls_def)
  qed
qed

subsection \<open>From counts to a prefix code\<close>

lemma sizes_from_facts:
  assumes nn: "\<forall>i \<in> {1..L}. 0 \<le> num ! i"
  shows "int (length (sizes_from num [1..<L + 1])) = num_sum L num" "set (sizes_from num [1..<L + 1]) \<subseteq> {1..L}"
    "k \<in> {1..L} \<Longrightarrow> int (count_list (sizes_from num [1..<L + 1]) k) = num ! k"
    "int (kraft L (sizes_from num [1..<L + 1])) = num_space L L num"
proof -
  have "int (length (sizes_from num [1..<m + 1])) = num_sum m num \<and> set (sizes_from num [1..<m + 1]) \<subseteq> {1..m}
      \<and> (\<forall>k \<in> {1..m}. int (count_list (sizes_from num [1..<m + 1]) k) = num ! k)
      \<and> int (kraft L (sizes_from num [1..<m + 1])) = num_space L m num" if "m \<le> L" for m
    using that
  proof (induction m)
    case (Suc m)
    have split: "sizes_from num [1..<Suc m + 1] = sizes_from num [1..<m + 1] @ replicate (nat (num ! Suc m)) (Suc m)"
      by (simp add: sizes_from_def)
    have pos: "0 \<le> num ! Suc m" using nn Suc.prems by simp
    have c: "count_list (replicate k x) y = (if x = y then k else 0)" for k and x y :: nat by (induction k) auto
    have kr: "int (kraft L (replicate k x)) = int k * 2 ^ (L - x)" for k x by (simp add: kraft_int sum_list_replicate)
    have zero: "count_list (sizes_from num [1..<m + 1]) (Suc m) = 0"
      using Suc by (auto simp: count_list_0_iff)
    have ka: "kraft L (xs @ ys) = kraft L xs + kraft L ys" for xs ys by (simp add: kraft_def)
    show ?case
      using Suc pos zero nn unfolding split
      by (auto simp: c kr ka num_sum_def num_space_def le_Suc_eq)
  qed (simp_all add: sizes_from_def num_sum_def num_space_def kraft_def)
  then show "int (length (sizes_from num [1..<L + 1])) = num_sum L num" "set (sizes_from num [1..<L + 1]) \<subseteq> {1..L}"
    "k \<in> {1..L} \<Longrightarrow> int (count_list (sizes_from num [1..<L + 1]) k) = num ! k"
    "int (kraft L (sizes_from num [1..<L + 1])) = num_space L L num"
    by blast+
qed

text \<open>The counts after the limit, for any number of symbols.\<close>

lemma limited_counts:
  assumes L: "1 \<le> L" "L < 32" and few: "length ls \<le> 2 ^ L" and le: "\<forall>l \<in> set ls. 1 \<le> l \<and> l \<le> 32"
    and full: "2 \<le> length ls \<Longrightarrow> kraft 32 ls = 2 ^ 32" and one: "length ls = 1 \<Longrightarrow> ls = [1]"
  shows "\<exists>num. tdefl_huffman_enforce_max_code_size (count_sizes ls) (length ls) L = Some num
    \<and> (\<forall>i \<in> {1..L}. 0 \<le> num ! i) \<and> num_sum L num = int (length ls) \<and> num_space L L num \<le> 2 ^ L
    \<and> (2 \<le> length ls \<longrightarrow> num_space L L num = 2 ^ L)"
proof (cases "2 \<le> length ls")
  case True
  have "int (length ls) \<le> 2 ^ L" using few by (simp flip: of_nat_le_iff)
  then show ?thesis
    using enforce_spec [OF L, of "count_sizes ls" "length ls"] count_sizes_complete [OF le full [OF True]]
      count_sizes_spec [of ls] le True by auto
next
  case False
  let ?num = "count_sizes ls"
  have "length ls = 0 \<or> length ls = 1" using False by linarith
  then have "ls = [] \<or> ls = [1]" using one by auto
  then have c: "?num ! i = (if ls = [1] \<and> i = 1 then 1 else 0)" if "i \<le> 32" for i
    using count_sizes_spec [of ls] that by auto
  then have cL: "?num ! i = (if ls = [1] \<and> i = 1 then 1 else 0)" if "i \<in> {1..L}" for i using that L by auto
  have "num_sum L ?num = (\<Sum>i=1..L. if i = 1 then of_bool (ls = [1]) else 0)"
    unfolding num_sum_def by (intro sum.cong refl) (simp add: cL)
  moreover have "num_space L L ?num = (\<Sum>i=1..L. if i = 1 then of_bool (ls = [1]) * 2 ^ (L - 1) else 0)"
    unfolding num_space_def by (intro sum.cong refl) (simp add: cL)
  moreover have "(2 :: int) ^ (L - 1) \<le> 2 ^ L" by (intro power_increasing) simp_all
  ultimately show ?thesis
    using False L cL \<open>ls = [] \<or> ls = [1]\<close>
    by (auto simp: tdefl_huffman_enforce_max_code_size_def)
qed

lemma lengths_of_symbols:
  assumes "length A < 65536" "sorted (frequencies A)" "sum_list (frequencies A) < 65536" "\<forall>f \<in> set (frequencies A). 1 \<le> f"
  shows "\<exists>B. tdefl_calculate_minimum_redundancy A = Some B \<and> map m_sym_index B = map m_sym_index A
    \<and> (\<forall>l \<in> set (code_lengths B). 1 \<le> l \<and> l \<le> 32) \<and> (2 \<le> length B \<longrightarrow> kraft 32 (code_lengths B) = 2 ^ 32)
    \<and> (length B = 1 \<longrightarrow> code_lengths B = [1])"
proof (cases "2 \<le> length A")
  case True
  obtain m where m: "length A = m + 2" using True by (metis add.commute le_Suc_ex)
  note f = frequencies_facts [OF assms(2,3) m]
  have pos: "1 \<le> par_of A j" if "j < m + 2" for j
    using assms(4) that m nth_mem [of j "frequencies A"] by simp
  obtain B where B: "tdefl_calculate_minimum_redundancy A = Some B" "map m_sym_index B = map m_sym_index A"
    "\<forall>l \<in> set (code_lengths B). 1 \<le> l \<and> l < length A" "kraft (length A - 1) (code_lengths B) = 2 ^ (length A - 1)"
    using lengths_facts [OF m] assms(1) m by auto
  have short: "\<forall>l \<in> set (code_lengths B). l \<le> 22"
    using lengths_short [OF m _ f(1,2) pos] B(1) assms(1) m by auto
  have "kraft 32 (code_lengths B) * 2 ^ (length A - 1) = 2 ^ (length A - 1) * 2 ^ 32"
    using kraft_change [of "code_lengths B" 32 "length A - 1"] B(3,4) short by force
  then have "kraft 32 (code_lengths B) = 2 ^ 32" by simp
  moreover have "length B = length A" using B(2) by (rule map_eq_imp_length_eq)
  ultimately show ?thesis using B(1-3) short m by fastforce
next
  case False
  then have "length A < 2" by simp
  then have "A = [] \<or> length A = 1" by (auto simp only: less_2_cases_iff length_0_conv One_nat_def)
  then show ?thesis
    by (auto simp: tdefl_calculate_minimum_redundancy_def code_lengths_def length_Suc_conv set_key_def)
qed

lemma used_syms_facts:
  assumes "n \<le> 288"
  shows "\<forall>f \<in> set (frequencies (used_syms n c)). 1 \<le> f" "distinct (map (\<lambda>s. unat (m_sym_index s)) (used_syms n c))"
    "map (\<lambda>s. unat (m_sym_index s)) (used_syms n c) = filter (\<lambda>i. c ! i \<noteq> 0) [0..<n]"
    "sum_list (frequencies (used_syms n c)) = (\<Sum>i<n. unat (c ! i))"
proof -
  show "\<forall>f \<in> set (frequencies (used_syms n c)). 1 \<le> f"
    by (auto simp: code_lengths_def used_syms_def unat_gt_0 Suc_le_eq)
  have "map (\<lambda>i. unat (of_nat i :: u16)) (filter (\<lambda>i. c ! i \<noteq> 0) [0..<n]) = filter (\<lambda>i. c ! i \<noteq> 0) [0..<n]"
    using assms by (intro map_idI) (simp add: of_nat_u16)
  then show m: "map (\<lambda>s. unat (m_sym_index s)) (used_syms n c) = filter (\<lambda>i. c ! i \<noteq> 0) [0..<n]"
    by (simp add: used_syms_def comp_def)
  show "distinct (map (\<lambda>s. unat (m_sym_index s)) (used_syms n c))" unfolding m by simp
  have "sum_list (map (\<lambda>i. unat (c ! i)) (filter (\<lambda>i. c ! i \<noteq> 0) [0..<n])) = sum_list (map (\<lambda>i. unat (c ! i)) [0..<n])"
    by (induction n) auto
  then show "sum_list (frequencies (used_syms n c)) = (\<Sum>i<n. unat (c ! i))"
    by (simp add: code_lengths_def used_syms_def comp_def interv_sum_list_conv_sum_set_nat atLeast0LessThan)
qed

text \<open>What a call leaves: sizes for the symbols that occur, and the codes of these sizes.\<close>

lemma optimize_dynamic:
  assumes n: "n \<le> 288" and L: "1 \<le> L" "L \<le> 15" and t: "t < length (m_huff_count d)" "n \<le> length (m_huff_count d ! t)"
    and total: "(\<Sum>i<n. unat (m_huff_count d ! t ! i)) < 65536" and few: "length (used_syms n (m_huff_count d ! t)) \<le> 2 ^ L"
  defines "ls s \<equiv> map (\<lambda>i. unat (s ! i)) [0..<n]"
  shows "\<exists>num s cs. tdefl_optimize_huffman_table d t n L False
      = Some (d\<lparr>m_huff_code_sizes := (m_huff_code_sizes d)[t := s], m_huff_codes := (m_huff_codes d)[t := cs]\<rparr>)
    \<and> cs = snd (fold (give_code s) [0..<n] (first_codes L num, replicate TDEFL_MAX_HUFF_SYMBOLS 0))
    \<and> (\<forall>i < n. (s ! i \<noteq> 0) = (m_huff_count d ! t ! i \<noteq> 0)) \<and> (\<forall>l \<in> set (ls s). l \<le> L)
    \<and> (\<forall>k \<in> {1..L}. num ! k = int (count_list (ls s) k)) \<and> kraft L (filter (\<lambda>l. l \<noteq> 0) (ls s)) \<le> 2 ^ L
    \<and> (2 \<le> length (used_syms n (m_huff_count d ! t)) \<longrightarrow> kraft L (filter (\<lambda>l. l \<noteq> 0) (ls s)) = 2 ^ L)
    \<and> length s = TDEFL_MAX_HUFF_SYMBOLS"
proof -
  let ?u = "used_syms n (m_huff_count d ! t)"
  let ?A = "sort_key (\<lambda>s. unat (m_key s)) ?u"
  note u = used_syms_facts [OF n, of "m_huff_count d ! t"]
  have perm: "mset (frequencies ?A) = mset (frequencies ?u)" by (simp add: code_lengths_def)
  have "length ?u \<le> n" using length_filter_le [of "\<lambda>i. m_huff_count d ! t ! i \<noteq> 0" "[0..<n]"] by (simp add: used_syms_def)
  then have len: "length ?A < 65536" using n by simp
  have "sum_list (frequencies ?A) < 65536" using u(4) total perm by (metis sum_mset_sum_list)
  moreover have "\<forall>f \<in> set (frequencies ?A). 1 \<le> f" using u(1) mset_eq_setD [OF perm] by simp
  moreover have "sorted (frequencies ?A)" by (simp add: code_lengths_def)
  ultimately obtain B where B: "tdefl_calculate_minimum_redundancy ?A = Some B" "map m_sym_index B = map m_sym_index ?A"
    "\<forall>l \<in> set (code_lengths B). 1 \<le> l \<and> l \<le> 32" "2 \<le> length B \<longrightarrow> kraft 32 (code_lengths B) = 2 ^ 32"
    "length B = 1 \<longrightarrow> code_lengths B = [1]"
    using lengths_of_symbols [OF len] by blast
  have lB: "length B = length ?u" using map_eq_imp_length_eq [OF B(2)] by simp
  obtain num where num: "tdefl_huffman_enforce_max_code_size (count_sizes (code_lengths B)) (length B) L = Some num"
    "\<forall>i \<in> {1..L}. 0 \<le> num ! i" "num_sum L num = int (length B)" "num_space L L num \<le> 2 ^ L"
    "2 \<le> length B \<longrightarrow> num_space L L num = 2 ^ L"
    using limited_counts [OF L(1), of "code_lengths B"] L(2) B(3-5) few lB by auto
  let ?sl = "sizes_from num [1..<L + 1]"
  note sl = sizes_from_facts [OF num(2)]
  have lsl: "length ?sl = length B" using sl(1) num(3) by simp
  let ?xs = "rev (map (\<lambda>s. unat (m_sym_index s)) B)" and ?vs = "map of_nat ?sl :: u8 list"
  define s where "s = fold (\<lambda>(x, v) s. s[x := v]) (zip ?xs ?vs) (replicate TDEFL_MAX_HUFF_SYMBOLS 0)"
  have give: "give_sizes [1..<L + 1] num B (length B, replicate TDEFL_MAX_HUFF_SYMBOLS 0) = Some (0, s)"
  proof -
    have "zip ?xs ?vs = map (\<lambda>(q, i). (unat (m_sym_index (B ! q)), of_nat i)) (zip (rev [0..<length B]) ?sl)"
    proof (rule nth_equalityI)
      show "length (zip ?xs ?vs) = length (map (\<lambda>(q, i). (unat (m_sym_index (B ! q)), of_nat i)) (zip (rev [0..<length B]) ?sl))"
        using lsl by simp
      fix k assume "k < length (zip ?xs ?vs)"
      then have "k < length B" using lsl by simp
      then show "zip ?xs ?vs ! k = map (\<lambda>(q, i). (unat (m_sym_index (B ! q)), of_nat i :: u8)) (zip (rev [0..<length B]) ?sl) ! k"
        using lsl by (simp add: rev_nth)
    qed
    then have "s = fold (\<lambda>(q, i) s. s[unat (m_sym_index (B ! q)) := of_nat i]) (zip (rev [0..<length B]) ?sl) (replicate TDEFL_MAX_HUFF_SYMBOLS 0)"
      unfolding s_def by (simp only: fold_map comp_def) (intro arg_cong2 [where f = "\<lambda>f x. fold f x _"] ext; simp split: prod.splits)
    then show ?thesis using give_sizes_spec [of num "[1..<L + 1]" "length B" B] lsl by simp
  qed
  have symsB: "mset (map (\<lambda>s. unat (m_sym_index s)) B) = mset (filter (\<lambda>i. m_huff_count d ! t ! i \<noteq> 0) [0..<n])"
  proof -
    have "map (\<lambda>s. unat (m_sym_index s)) B = map unat (map m_sym_index B)" by (simp add: comp_def)
    also have "\<dots> = map (\<lambda>s. unat (m_sym_index s)) ?A" unfolding B(2) by (simp add: comp_def)
    finally show ?thesis using u(3) by (metis mset_map mset_sort)
  qed
  have xs: "distinct ?xs" "set ?xs = {i. i < n \<and> m_huff_count d ! t ! i \<noteq> 0}"
    using mset_eq_imp_distinct_iff [OF symsB] mset_eq_setD [OF symsB] by auto
  have small: "l \<le> 15" "1 \<le> l" if "l \<in> set ?sl" for l using sl(2) that L(2) by auto
  have unat: "unat (of_nat l :: u8) = l" if "l \<in> set ?sl" for l
    using small [OF that] by (simp add: unat_of_nat take_bit_nat_eq_self)
  have vs: "\<forall>v \<in> set ?vs. v \<noteq> 0"
  proof
    fix v assume "v \<in> set ?vs"
    then obtain l where l: "l \<in> set ?sl" "v = of_nat l" by auto
    then have "unat v = l" using unat by simp
    then show "v \<noteq> 0" using small(2) [OF l(1)] by auto
  qed
  have lvs: "length ?vs = length ?xs" using lsl by simp
  have bnd: "\<forall>x \<in> set ?xs. x < n" unfolding xs(2) by simp
  have MN: "n \<le> TDEFL_MAX_HUFF_SYMBOLS" using n by (simp add: TDEFL_MAX_HUFF_SYMBOLS_def)
  note sz = sizes_of_symbols [OF xs(1) lvs bnd MN vs s_def]
  have nz: "\<forall>i < n. (s ! i \<noteq> 0) = (m_huff_count d ! t ! i \<noteq> 0)"
  proof (intro allI impI)
    fix i assume "i < n"
    then show "(s ! i \<noteq> 0) = (m_huff_count d ! t ! i \<noteq> 0)" using sz(1) [of i] unfolding xs(2) by simp
  qed
  note sz(3)
  then have "mset (map unat (filter (\<lambda>l. l \<noteq> 0) (map (\<lambda>i. s ! i) [0..<n]))) = mset (map unat ?vs)" by (simp only: mset_map)
  moreover have "map unat (filter (\<lambda>l. l \<noteq> 0) (map (\<lambda>i. s ! i) [0..<n])) = filter (\<lambda>l. l \<noteq> 0) (ls s)"
    by (simp add: ls_def filter_map comp_def unat_gt_0)
  moreover have "map unat ?vs = ?sl" using unat by (simp add: map_idI)
  ultimately have perm': "mset (filter (\<lambda>l. l \<noteq> 0) (ls s)) = mset ?sl" by (simp only:)
  have kr: "kraft L (filter (\<lambda>l. l \<noteq> 0) (ls s)) = kraft L ?sl"
  proof -
    have sum: "(\<Sum>l \<leftarrow> xs. g l) = (\<Sum>l \<in># mset xs. g l)" for g :: "nat \<Rightarrow> nat" and xs
      by (simp flip: sum_mset_sum_list)
    show ?thesis unfolding kraft_def sum perm' by (rule refl)
  qed
  have cnt: "\<forall>k \<in> {1..L}. num ! k = int (count_list (ls s) k)"
  proof
    fix k assume k: "k \<in> {1..L}"
    have "count_list xs k = count_list (filter (\<lambda>l. l \<noteq> 0) xs) k" for xs using k by (induction xs) auto
    then have "count_list (ls s) k = count_list (filter (\<lambda>l. l \<noteq> 0) (ls s)) k" .
    also have "\<dots> = count_list ?sl k" using perm' by (metis count_mset)
    finally show "num ! k = int (count_list (ls s) k)" using sl(3) [OF k] by simp
  qed
  have le: "\<forall>l \<in> set (ls s). l \<le> L"
  proof
    fix l assume "l \<in> set (ls s)"
    then have "l = 0 \<or> l \<in> set (filter (\<lambda>l. l \<noteq> 0) (ls s))" by auto
    then have "l = 0 \<or> l \<in> set ?sl" by (simp only: mset_eq_setD [OF perm'])
    then have "l = 0 \<or> l \<in> {1..L}" using sl(2) by blast
    then show "l \<le> L" by auto
  qed
  have "tdefl_radix_sort_syms ?u (replicate (length ?u) \<lparr>m_key = 0, m_sym_index = 0\<rparr>) = ?A"
    by (rule radix_sort_sorts) simp
  then have "tdefl_optimize_huffman_table d t n L False
      = Some (d\<lparr>m_huff_code_sizes := (m_huff_code_sizes d)[t := s],
         m_huff_codes := (m_huff_codes d)[t := snd (fold (give_code s) [0..<n] (first_codes L num, replicate TDEFL_MAX_HUFF_SYMBOLS 0))]\<rparr>)"
    using B(1) num(1) give
    by (simp add: tdefl_optimize_huffman_table_def Let_def code_lengths_def split: prod.split)
  moreover have "int (kraft L ?sl) \<le> int (2 ^ L)" unfolding sl(4) using num(4) by simp
  then have "kraft L (filter (\<lambda>l. l \<noteq> 0) (ls s)) \<le> 2 ^ L" unfolding kr by (simp only: of_nat_le_iff)
  moreover have "kraft L (filter (\<lambda>l. l \<noteq> 0) (ls s)) = 2 ^ L" if "2 \<le> length ?u"
  proof -
    have "int (kraft L ?sl) = int (2 ^ L)" unfolding sl(4) using num(5) lB that by simp
    then show ?thesis unfolding kr by (simp only: of_nat_eq_iff)
  qed
  moreover have "length s = TDEFL_MAX_HUFF_SYMBOLS" by (simp add: s_def)
  ultimately show ?thesis
    using nz le cnt
    by - (rule exI [of _ num], rule exI [of _ s], rule exI, intro conjI, assumption, rule refl, (assumption | blast)+)
qed

text \<open>The bits \<open>tdefl_compress_lz_codes\<close> writes for a symbol.\<close>

definition symbol_bits :: "tdefl_compressor \<Rightarrow> nat \<Rightarrow> nat \<Rightarrow> bool list" where
  "symbol_bits d t i = code_bits (m_huff_codes d ! t ! i) (unat (m_huff_code_sizes d ! t ! i))"

text \<open>C7: from the counts of a block \<open>tdefl_optimize_huffman_table\<close> makes a prefix code: it ends,
  exactly the symbols that occur get a size, no size exceeds the limit, and the bits of no symbol are
  the beginning of those of another; with two symbols or more the code is complete, so no bit pattern
  is wasted.  Radix sort, minimum redundancy, the limit and the canonical codes meet here.\<close>

theorem optimize_huffman_table_prefix_code:
  assumes "n \<le> 288" "1 \<le> L" "L \<le> 15" "n \<le> 2 ^ L" "t < length (m_huff_count d)" "n \<le> length (m_huff_count d ! t)"
    and "t < length (m_huff_codes d)" "t < length (m_huff_code_sizes d)" "(\<Sum>i<n. unat (m_huff_count d ! t ! i)) < 65536"
  shows "\<exists>d'. tdefl_optimize_huffman_table d t n L False = Some d'
    \<and> (\<forall>i < n. (symbol_bits d' t i \<noteq> []) = (m_huff_count d ! t ! i \<noteq> 0) \<and> length (symbol_bits d' t i) \<le> L)
    \<and> (\<forall>i < n. \<forall>j < n. i \<noteq> j \<and> m_huff_count d ! t ! i \<noteq> 0 \<and> m_huff_count d ! t ! j \<noteq> 0 \<longrightarrow>
         \<not> prefix (symbol_bits d' t i) (symbol_bits d' t j))
    \<and> (2 \<le> card {i. i < n \<and> m_huff_count d ! t ! i \<noteq> 0} \<longrightarrow>
         kraft L (filter (\<lambda>l. l \<noteq> 0) (map (\<lambda>i. length (symbol_bits d' t i)) [0..<n])) = 2 ^ L)"
proof -
  have used: "length (used_syms n (m_huff_count d ! t)) = card {i. i < n \<and> m_huff_count d ! t ! i \<noteq> 0}"
  proof -
    have "{i. i < n \<and> m_huff_count d ! t ! i \<noteq> 0} = set (filter (\<lambda>i. m_huff_count d ! t ! i \<noteq> 0) [0..<n])" by auto
    then show ?thesis by (simp only: used_syms_def length_map distinct_card distinct_filter distinct_upt)
  qed
  have "length (used_syms n (m_huff_count d ! t)) \<le> n"
    using length_filter_le [of "\<lambda>i. m_huff_count d ! t ! i \<noteq> 0" "[0..<n]"] by (simp add: used_syms_def)
  then have few: "length (used_syms n (m_huff_count d ! t)) \<le> 2 ^ L" using assms(4) by simp
  let ?ls = "\<lambda>s :: u8 list. map (\<lambda>i. unat (s ! i)) [0..<n]"
  obtain num s cs where o: "tdefl_optimize_huffman_table d t n L False
      = Some (d\<lparr>m_huff_code_sizes := (m_huff_code_sizes d)[t := s], m_huff_codes := (m_huff_codes d)[t := cs]\<rparr>)"
    "cs = snd (fold (give_code s) [0..<n] (first_codes L num, replicate TDEFL_MAX_HUFF_SYMBOLS 0))"
    "\<forall>i < n. (s ! i \<noteq> 0) = (m_huff_count d ! t ! i \<noteq> 0)" "\<forall>l \<in> set (?ls s). l \<le> L"
    "\<forall>k \<in> {1..L}. num ! k = int (count_list (?ls s) k)" "kraft L (filter (\<lambda>l. l \<noteq> 0) (?ls s)) \<le> 2 ^ L"
    "2 \<le> length (used_syms n (m_huff_count d ! t)) \<longrightarrow> kraft L (filter (\<lambda>l. l \<noteq> 0) (?ls s)) = 2 ^ L"
    using optimize_dynamic [OF assms(1-3,5,6,9) few] by blast
  let ?d = "d\<lparr>m_huff_code_sizes := (m_huff_code_sizes d)[t := s], m_huff_codes := (m_huff_codes d)[t := cs]\<rparr>"
  have bits: "symbol_bits ?d t i = code_bits (cs ! i) (unat (s ! i))" for i
    using assms(7,8) by (simp add: symbol_bits_def)
  have lens: "length (symbol_bits ?d t i) = unat (s ! i)" for i by (simp add: bits code_bits_def)
  have "(symbol_bits ?d t i \<noteq> []) = (m_huff_count d ! t ! i \<noteq> 0) \<and> length (symbol_bits ?d t i) \<le> L" if "i < n" for i
    using o(3,4) that lens [of i] by (auto simp: unat_eq_zero simp flip: length_0_conv)
  moreover have "\<not> prefix (symbol_bits ?d t i) (symbol_bits ?d t j)"
    if "i < n" "j < n" "i \<noteq> j" "m_huff_count d ! t ! i \<noteq> 0" "m_huff_count d ! t ! j \<noteq> 0" for i j
    unfolding bits using that o(3) assms(1,3)
    by (intro table_prefix_free [OF _ o(4,5) _ o(6) _ _ _ _ _ o(2)]) (simp_all add: TDEFL_MAX_HUFF_SYMBOLS_def)
  moreover have "kraft L (filter (\<lambda>l. l \<noteq> 0) (map (\<lambda>i. length (symbol_bits ?d t i)) [0..<n])) = 2 ^ L"
    if "2 \<le> card {i. i < n \<and> m_huff_count d ! t ! i \<noteq> 0}"
    using o(7) that unfolding used lens by simp
  ultimately show ?thesis using o(1) by blast
qed

definition demo_table :: tdefl_compressor where
  "demo_table = \<lparr>m_huff_count = [[5, 1, 2], [], []], m_huff_codes = [[], [], []], m_huff_code_sizes = [[], [], []],
    m_lz_code_buf = [], m_pLZ_code_buf = 1, m_pLZ_flags = 0, m_num_flags_left = 8, m_total_lz_bytes = 0,
    m_bits_in = 0, m_bit_buffer = 0, m_output_buf = [], m_pOutput_buf = 0, m_pOutput_buf_end = 0\<rparr>"

lemma optimize_huffman_table_prefix_code_witness:
  "\<exists>d'. tdefl_optimize_huffman_table demo_table 0 3 2 False = Some d'
    \<and> \<not> prefix (symbol_bits d' 0 0) (symbol_bits d' 0 1) \<and> length (symbol_bits d' 0 2) \<le> 2"
proof -
  have "(\<Sum>i<3. unat (m_huff_count demo_table ! 0 ! i)) < 65536"
    by (simp add: demo_table_def numeral_3_eq_3)
  then obtain d' where d': "tdefl_optimize_huffman_table demo_table 0 3 2 False = Some d'"
    and size: "\<And>i. i < 3 \<Longrightarrow> length (symbol_bits d' 0 i) \<le> 2"
    and pf: "\<And>i j. i < 3 \<Longrightarrow> j < 3 \<Longrightarrow> i \<noteq> j \<and> m_huff_count demo_table ! 0 ! i \<noteq> 0 \<and> m_huff_count demo_table ! 0 ! j \<noteq> 0
      \<Longrightarrow> \<not> prefix (symbol_bits d' 0 i) (symbol_bits d' 0 j)"
    using optimize_huffman_table_prefix_code [of 3 2 0 demo_table] by (simp add: demo_table_def) blast
  have "\<not> prefix (symbol_bits d' 0 0) (symbol_bits d' 0 1)" by (rule pf) (simp_all add: demo_table_def)
  then show ?thesis using d' size [of 2] by simp
qed

end
