(* ===== verification/DeflBits.thy ===== *)
theory DeflBits
  imports HuffTable
begin

text \<open>
  The bit writer of the compressor, the macro \<open>TDEFL_PUT_BITS\<close> of
  src/packages/miniz/src/main/c/miniz.c: bits are collected in a 32-bit buffer, lowest first, and moved
  to the output byte by byte; a byte for which there is no room is dropped.  Its abstraction is the
  list of the bits written so far.  The assertion of the macro is a condition of its properties.
\<close>

unbundle bit_operations_syntax

text \<open>Each round of the loop moves a byte out.\<close>

definition put_out_byte :: "tdefl_compressor \<Rightarrow> tdefl_compressor" where
  "put_out_byte d =
     (let d = (if m_pOutput_buf d < m_pOutput_buf_end d then
                 d\<lparr>m_output_buf := (m_output_buf d)[m_pOutput_buf d := ucast (m_bit_buffer d)],
                   m_pOutput_buf := m_pOutput_buf d + 1\<rparr>
               else d)
      in d\<lparr>m_bit_buffer := drop_bit 8 (m_bit_buffer d), m_bits_in := m_bits_in d - 8\<rparr>)"

function put_bytes :: "tdefl_compressor \<Rightarrow> tdefl_compressor" where
  "put_bytes d = (if m_bits_in d \<ge> 8 then put_bytes (put_out_byte d) else d)"
  by pat_completeness auto
termination
proof (relation "measure (\<lambda>d. unat (m_bits_in d))", goal_cases)
  case (2 d)
  then show ?case by (auto simp: put_out_byte_def word_le_nat_alt unat_sub)
qed simp

declare put_bytes.simps [simp del]

definition TDEFL_PUT_BITS :: "u32 \<Rightarrow> u32 \<Rightarrow> tdefl_compressor \<Rightarrow> tdefl_compressor" where
  "TDEFL_PUT_BITS b l d =
     put_bytes (d\<lparr>m_bit_buffer := m_bit_buffer d OR push_bit (unat (m_bits_in d)) b, m_bits_in := m_bits_in d + l\<rparr>)"

subsection \<open>The bits written\<close>

definition nat_bits :: "nat \<Rightarrow> nat \<Rightarrow> bool list" where
  "nat_bits x l = map (bit x) [0..<l]"

definition byte_bits :: "u8 list \<Rightarrow> bool list" where
  "byte_bits bs = concat (map (\<lambda>b. nat_bits (unat b) 8) bs)"

definition out_bits :: "tdefl_compressor \<Rightarrow> bool list" where
  "out_bits d = byte_bits (take (m_pOutput_buf d) (m_output_buf d)) @ nat_bits (unat (m_bit_buffer d)) (unat (m_bits_in d))"

text \<open>Between writes fewer than 8 bits wait, and none above them.\<close>

definition bits_ok :: "tdefl_compressor \<Rightarrow> bool" where
  "bits_ok d \<longleftrightarrow> unat (m_bits_in d) < 8 \<and> unat (m_bit_buffer d) < 2 ^ unat (m_bits_in d)
     \<and> m_pOutput_buf d \<le> m_pOutput_buf_end d \<and> m_pOutput_buf_end d \<le> length (m_output_buf d)"

text \<open>What writing changes: only the output and the buffer; the position never goes back, and what is before it stays.\<close>

definition output_only :: "tdefl_compressor \<Rightarrow> tdefl_compressor \<Rightarrow> bool" where
  "output_only d d' \<longleftrightarrow>
     d'\<lparr>m_output_buf := m_output_buf d, m_pOutput_buf := m_pOutput_buf d, m_bit_buffer := m_bit_buffer d, m_bits_in := m_bits_in d\<rparr> = d
     \<and> m_pOutput_buf d \<le> m_pOutput_buf d' \<and> length (m_output_buf d') = length (m_output_buf d)
     \<and> take (m_pOutput_buf d) (m_output_buf d') = take (m_pOutput_buf d) (m_output_buf d)"

lemma output_only_refl [simp]: "output_only d d"
  by (simp add: output_only_def)

lemma take_take_eq: "p \<le> q \<Longrightarrow> take q xs = take q ys \<Longrightarrow> take p xs = take p ys"
  by (metis min_absorb1 take_take)

lemma output_only_trans: "output_only a b \<Longrightarrow> output_only b c \<Longrightarrow> output_only a c"
proof -
  assume o: "output_only a b" "output_only b c"
  have "take (m_pOutput_buf a) (m_output_buf c) = take (m_pOutput_buf a) (m_output_buf b)"
    by (rule take_take_eq) (use o in \<open>auto simp: output_only_def\<close>)
  then show ?thesis using o by (cases a; cases b; cases c) (simp add: output_only_def)
qed

lemma output_only_fields:
  assumes "output_only d d'"
  shows "m_huff_count d' = m_huff_count d" "m_huff_codes d' = m_huff_codes d" "m_huff_code_sizes d' = m_huff_code_sizes d"
    "m_lz_code_buf d' = m_lz_code_buf d" "m_pLZ_code_buf d' = m_pLZ_code_buf d" "m_pLZ_flags d' = m_pLZ_flags d"
    "m_num_flags_left d' = m_num_flags_left d" "m_total_lz_bytes d' = m_total_lz_bytes d"
    "m_pOutput_buf_end d' = m_pOutput_buf_end d" "m_pOutput_buf d \<le> m_pOutput_buf d'"
    "length (m_output_buf d') = length (m_output_buf d)"
    "take (m_pOutput_buf d) (m_output_buf d') = take (m_pOutput_buf d) (m_output_buf d)"
  using assms by (cases d; cases d'; simp add: output_only_def)+

lemma put_out_byte_output_only: "output_only d (put_out_byte d)"
  by (simp add: output_only_def put_out_byte_def)

lemma put_bytes_output_only: "output_only d (put_bytes d)"
proof (induction d rule: put_bytes.induct)
  case (1 d)
  show ?case
    using 1 output_only_trans [OF put_out_byte_output_only, of d] by (subst put_bytes.simps) simp
qed

lemma put_bits_output_only: "output_only d (TDEFL_PUT_BITS b l d)"
  unfolding TDEFL_PUT_BITS_def
  by (rule output_only_trans [OF _ put_bytes_output_only]) (simp add: output_only_def)

lemmas put_bits_fields [simp] = output_only_fields(1-9,11) [OF put_bits_output_only]

lemma nat_bits_length [simp]: "length (nat_bits x l) = l"
  by (simp add: nat_bits_def)

lemma nat_bits_0 [simp]: "nat_bits x 0 = []"
  by (simp add: nat_bits_def)

lemma nat_bits_nth [simp]: "i < l \<Longrightarrow> nat_bits x l ! i = bit x i"
  by (simp add: nat_bits_def)

lemma nat_bits_split:
  assumes "k \<le> n"
  shows "nat_bits x n = nat_bits (x mod 2 ^ k) k @ nat_bits (x div 2 ^ k) (n - k)"
proof (rule nth_equalityI)
  show "length (nat_bits x n) = length (nat_bits (x mod 2 ^ k) k @ nat_bits (x div 2 ^ k) (n - k))"
    using assms by simp
  fix i assume "i < length (nat_bits x n)"
  then have i: "i < n" by simp
  show "nat_bits x n ! i = (nat_bits (x mod 2 ^ k) k @ nat_bits (x div 2 ^ k) (n - k)) ! i"
  proof (cases "i < k")
    case True
    have "bit (take_bit k x) i = bit x i" using True by (simp only: bit_take_bit_iff simp_thms)
    then have "bit (x mod 2 ^ k) i = bit x i" by (simp only: take_bit_eq_mod)
    then show ?thesis using True i by (simp only: nth_append nat_bits_length if_True nat_bits_nth)
  next
    case False
    then have ik: "i - k < n - k" "k + (i - k) = i" using i by simp_all
    have "bit (drop_bit k x) (i - k) = bit x (k + (i - k))" by (simp only: bit_drop_bit_eq comp_def)
    then have "bit (x div 2 ^ k) (i - k) = bit x i" by (simp only: drop_bit_eq_div ik)
    then show ?thesis using False i ik(1) by (simp only: nth_append nat_bits_length if_False nat_bits_nth)
  qed
qed

lemma byte_bits_append: "byte_bits (xs @ ys) = byte_bits xs @ byte_bits ys"
  by (simp add: byte_bits_def)

lemma byte_bits_length [simp]: "length (byte_bits xs) = 8 * length xs"
  by (induction xs) (simp_all add: byte_bits_def)

lemma unat_bit_less:
  fixes w :: u32
  shows "(unat w < 2 ^ k) = (\<forall>i < 32. k \<le> i \<longrightarrow> \<not> bit w i)"
proof -
  have b: "bit (unat w) i = (i < 32 \<and> bit w i)" for i by (auto simp: bit_unsigned_iff dest: bit_imp_le_length)
  have "(unat w < 2 ^ k) = (take_bit k (unat w) = unat w)" by (simp add: take_bit_nat_eq_self_iff)
  also have "\<dots> = (\<forall>i. bit (take_bit k (unat w)) i = bit (unat w) i)" by (simp only: bit_eq_iff possible_bit_nat simp_thms)
  also have "\<dots> = (\<forall>i. (i < k \<and> i < 32 \<and> bit w i) = (i < 32 \<and> bit w i))" by (simp only: bit_take_bit_iff b)
  also have "\<dots> = (\<forall>i < 32. k \<le> i \<longrightarrow> \<not> bit w i)"
  proof -
    have "(\<forall>i. (i < k \<and> P i) = P i) = (\<forall>i. P i \<longrightarrow> i < k)" for P :: "nat \<Rightarrow> bool" by blast
    then show ?thesis by (simp only: not_le [symmetric]) blast
  qed
  finally show ?thesis .
qed

lemma put_out_byte_fields:
  "m_bit_buffer (put_out_byte d) = drop_bit 8 (m_bit_buffer d)" "m_bits_in (put_out_byte d) = m_bits_in d - 8"
  "m_pOutput_buf d < m_pOutput_buf_end d \<Longrightarrow> m_pOutput_buf (put_out_byte d) = m_pOutput_buf d + 1"
  "m_pOutput_buf d < m_pOutput_buf_end d \<Longrightarrow> m_output_buf (put_out_byte d) = (m_output_buf d)[m_pOutput_buf d := ucast (m_bit_buffer d)]"
  by (simp_all add: put_out_byte_def)

lemma put_out_byte_spec:
  assumes n8: "8 \<le> unat (m_bits_in d)" and B: "unat (m_bit_buffer d) < 2 ^ unat (m_bits_in d)"
    and le: "m_pOutput_buf d \<le> m_pOutput_buf_end d" "m_pOutput_buf_end d \<le> length (m_output_buf d)"
  shows "unat (m_bit_buffer (put_out_byte d)) < 2 ^ unat (m_bits_in (put_out_byte d))"
    "m_pOutput_buf (put_out_byte d) \<le> m_pOutput_buf_end (put_out_byte d)"
    "m_pOutput_buf d < m_pOutput_buf_end d \<Longrightarrow> out_bits (put_out_byte d) = out_bits d"
proof -
  let ?n = "unat (m_bits_in d)" and ?B = "unat (m_bit_buffer d)"
  have fn: "unat (m_bits_in d - 8) = ?n - 8" using n8 by (simp add: unat_sub word_le_nat_alt)
  have fB: "unat (drop_bit 8 (m_bit_buffer d)) = ?B div 2 ^ 8" by (simp add: drop_bit_eq_div unat_div_distrib)
  have "(2 :: nat) ^ ((?n - 8) + 8) = 2 ^ (?n - 8) * 2 ^ 8" by (simp only: power_add)
  then have "(2 :: nat) ^ ?n = 2 ^ (?n - 8) * 2 ^ 8" using n8 by (simp only: le_add_diff_inverse2)
  then have "?B div 2 ^ 8 < 2 ^ (?n - 8)" using B by (simp only: less_mult_imp_div_less)
  then show "unat (m_bit_buffer (put_out_byte d)) < 2 ^ unat (m_bits_in (put_out_byte d))"
    by (simp only: put_out_byte_fields fn fB)
  show "m_pOutput_buf (put_out_byte d) \<le> m_pOutput_buf_end (put_out_byte d)" using le by (simp add: put_out_byte_def)
  assume room: "m_pOutput_buf d < m_pOutput_buf_end d"
  have uc: "unat (ucast (m_bit_buffer d) :: u8) = ?B mod 2 ^ 8" by (simp add: unsigned_ucast_eq take_bit_eq_mod)
  have len: "m_pOutput_buf d < length (m_output_buf d)" using room le by simp
  have one: "byte_bits [b] = nat_bits (unat b) 8" for b by (simp add: byte_bits_def)
  have tk: "take (m_pOutput_buf d + 1) ((m_output_buf d)[m_pOutput_buf d := ucast (m_bit_buffer d)])
      = take (m_pOutput_buf d) (m_output_buf d) @ [ucast (m_bit_buffer d)]"
    using len by (simp add: take_Suc_conv_app_nth)
  have "out_bits (put_out_byte d) = byte_bits (take (m_pOutput_buf d) (m_output_buf d)) @ nat_bits (?B mod 2 ^ 8) 8 @ nat_bits (?B div 2 ^ 8) (?n - 8)"
    by (simp only: out_bits_def put_out_byte_fields(1,2) put_out_byte_fields(3,4) [OF room] fn fB tk byte_bits_append one uc append_assoc)
  then show "out_bits (put_out_byte d) = out_bits d" by (simp only: out_bits_def nat_bits_split [OF n8, of ?B])
qed

lemma put_bytes_spec:
  assumes "unat (m_bit_buffer d) < 2 ^ unat (m_bits_in d)" "m_pOutput_buf d \<le> m_pOutput_buf_end d"
    "m_pOutput_buf_end d \<le> length (m_output_buf d)"
  shows "bits_ok (put_bytes d) \<and> (m_pOutput_buf (put_bytes d) < m_pOutput_buf_end d \<longrightarrow> out_bits (put_bytes d) = out_bits d)"
  using assms
proof (induction d rule: put_bytes.induct)
  case (1 d)
  note f = output_only_fields [OF put_out_byte_output_only, of d]
  show ?case
  proof (cases "m_bits_in d \<ge> 8")
    case True
    then have n8: "8 \<le> unat (m_bits_in d)" by (simp add: word_le_nat_alt)
    note step = put_out_byte_spec [OF n8 "1.prems"]
    have run: "put_bytes d = put_bytes (put_out_byte d)" using True by (subst put_bytes.simps) (simp only: if_True)
    have IH: "bits_ok (put_bytes (put_out_byte d))"
        "m_pOutput_buf (put_bytes (put_out_byte d)) < m_pOutput_buf_end d \<longrightarrow> out_bits (put_bytes (put_out_byte d)) = out_bits (put_out_byte d)"
      using "1.IH" [OF True step(1,2)] "1.prems"(3) f(9,11) by simp_all
    have "m_pOutput_buf d \<le> m_pOutput_buf (put_bytes (put_out_byte d))"
      using f(10) output_only_fields(10) [OF put_bytes_output_only, of "put_out_byte d"] by (rule le_trans)
    then show ?thesis using IH step(3) unfolding run by simp
  next
    case False
    then have "put_bytes d = d" by (subst put_bytes.simps) simp
    moreover have "unat (m_bits_in d) < 8" using False by (simp add: word_le_nat_alt)
    ultimately show ?thesis using "1.prems" by (simp add: bits_ok_def)
  qed
qed

text \<open>Writing \<open>l\<close> bits appends them, unless the output is full afterwards.\<close>

lemma put_bits_spec:
  assumes ok: "bits_ok d" and l: "unat l \<le> 16" and b: "unat b < 2 ^ unat l"
  shows "bits_ok (TDEFL_PUT_BITS b l d)"
    "m_pOutput_buf (TDEFL_PUT_BITS b l d) < m_pOutput_buf_end d \<Longrightarrow> out_bits (TDEFL_PUT_BITS b l d) = out_bits d @ nat_bits (unat b) (unat l)"
proof -
  let ?n = "unat (m_bits_in d)" and ?l = "unat l"
  let ?w = "m_bit_buffer d OR push_bit ?n b"
  let ?d = "d\<lparr>m_bit_buffer := ?w, m_bits_in := m_bits_in d + l\<rparr>"
  have n: "?n < 8" "unat (m_bit_buffer d) < 2 ^ ?n" using ok by (simp_all add: bits_ok_def)
  have nl: "unat (m_bits_in d + l) = ?n + ?l" using n(1) l by (simp add: unat_word_ariths)
  have bit: "bit ?w i = (if i < ?n then bit (m_bit_buffer d) i else bit b (i - ?n))" if "i < 32" for i
    using n(2) that unfolding unat_bit_less by (auto simp: bit_or_iff bit_push_bit_iff)
  have high: "\<not> bit b i" if "?l \<le> i" for i
    using b that unfolding unat_bit_less by (cases "i < 32") (auto dest: bit_imp_le_length)
  have "unat ?w < 2 ^ (?n + ?l)" unfolding unat_bit_less using bit high by simp
  then have "bits_ok (put_bytes ?d) \<and> (m_pOutput_buf (put_bytes ?d) < m_pOutput_buf_end ?d \<longrightarrow> out_bits (put_bytes ?d) = out_bits ?d)"
    using ok nl by (intro put_bytes_spec) (simp_all add: bits_ok_def)
  moreover have "nat_bits (unat ?w) (?n + ?l) = nat_bits (unat (m_bit_buffer d)) ?n @ nat_bits (unat b) ?l"
    using n(1) l bit by (intro nth_equalityI) (auto simp: nat_bits_def nth_append bit_unsigned_iff)
  then have "out_bits ?d = out_bits d @ nat_bits (unat b) ?l" using nl by (simp add: out_bits_def)
  ultimately show "bits_ok (TDEFL_PUT_BITS b l d)"
    "m_pOutput_buf (TDEFL_PUT_BITS b l d) < m_pOutput_buf_end d \<Longrightarrow> out_bits (TDEFL_PUT_BITS b l d) = out_bits d @ nat_bits (unat b) ?l"
    by (simp_all add: TDEFL_PUT_BITS_def)
qed

text \<open>How far the output has got, in bits; bytes that are dropped do not count.\<close>

definition progress :: "tdefl_compressor \<Rightarrow> nat" where
  "progress d = 8 * m_pOutput_buf d + unat (m_bits_in d)"

lemma put_bytes_progress: "progress (put_bytes d) \<le> progress d"
proof (induction d rule: put_bytes.induct)
  case (1 d)
  show ?case
  proof (cases "m_bits_in d \<ge> 8")
    case True
    then have "unat (m_bits_in d - 8) + 8 = unat (m_bits_in d)" by (simp add: unat_sub word_le_nat_alt)
    then have "progress (put_out_byte d) \<le> progress d" by (simp add: progress_def put_out_byte_def)
    then show ?thesis using 1 [OF True] True by (subst put_bytes.simps) simp
  next
    case False
    then show ?thesis by (subst put_bytes.simps) simp
  qed
qed

lemma put_bits_progress:
  assumes "bits_ok d" "unat l \<le> 16"
  shows "progress (TDEFL_PUT_BITS b l d) \<le> progress d + unat l"
proof -
  have "unat (m_bits_in d + l) = unat (m_bits_in d) + unat l"
    using assms by (subst unat_add_small) (simp_all add: bits_ok_def)
  then show ?thesis
    unfolding TDEFL_PUT_BITS_def by (intro order_trans [OF put_bytes_progress]) (simp add: progress_def)
qed

text \<open>A step that writes the bits \<open>bs\<close>: they follow those written before, as long as the output has room.\<close>

definition writes :: "tdefl_compressor \<Rightarrow> tdefl_compressor \<Rightarrow> bool list \<Rightarrow> bool" where
  "writes d d' bs \<longleftrightarrow> output_only d d' \<and> bits_ok d'
     \<and> (m_pOutput_buf d' < m_pOutput_buf_end d \<longrightarrow> out_bits d' = out_bits d @ bs) \<and> progress d' \<le> progress d + length bs"

lemma writes_bits_ok: "writes d d' bs \<Longrightarrow> bits_ok d'"
  by (simp add: writes_def)

lemma writes_output_only: "writes d d' bs \<Longrightarrow> output_only d d'"
  by (simp add: writes_def)

lemma writes_Nil: "bits_ok d \<Longrightarrow> writes d d []"
  by (simp add: writes_def)

lemma writes_trans:
  assumes "writes a b xs" "writes b c ys"
  shows "writes a c (xs @ ys)"
proof -
  have "output_only a b" "output_only b c" using assms by (simp_all add: writes_def)
  then show ?thesis
    using assms output_only_trans [of a b c] output_only_fields(9,10) [of a b] output_only_fields(10) [of b c]
    by (simp add: writes_def)
qed

lemma put_bits_writes:
  assumes "bits_ok d" "unat l \<le> 16" "unat b < 2 ^ unat l"
  shows "writes d (TDEFL_PUT_BITS b l d) (nat_bits (unat b) (unat l))"
  using put_bits_spec [OF assms] put_bits_output_only [of d b l] put_bits_progress [OF assms(1,2), of b]
  by (simp add: writes_def)

end
