(* ===== verification/DeflTables.thy ===== *)
theory DeflTables
  imports HuffTable
begin

text \<open>
  The tables of src/packages/miniz/src/main/c/miniz.c that turn the length and distance of a match
  into a symbol and extra bits, and the tables of the decompressor that turn them back.
\<close>

unbundle bit_operations_syntax

subsection \<open>The tables of the compressor\<close>

definition s_tdefl_len_sym :: "u16 list" where
  "s_tdefl_len_sym = [
    257, 258, 259, 260, 261, 262, 263, 264, 265, 265, 266, 266, 267, 267, 268, 268, 269, 269, 269, 269, 270, 270,
    270, 270, 271, 271, 271, 271, 272, 272, 272, 272, 273, 273, 273, 273, 273, 273, 273, 273, 274, 274, 274, 274,
    274, 274, 274, 274, 275, 275, 275, 275, 275, 275, 275, 275, 276, 276, 276, 276, 276, 276, 276, 276, 277, 277,
    277, 277, 277, 277, 277, 277, 277, 277, 277, 277, 277, 277, 277, 277, 278, 278, 278, 278, 278, 278, 278, 278,
    278, 278, 278, 278, 278, 278, 278, 278, 279, 279, 279, 279, 279, 279, 279, 279, 279, 279, 279, 279, 279, 279,
    279, 279, 280, 280, 280, 280, 280, 280, 280, 280, 280, 280, 280, 280, 280, 280, 280, 280, 281, 281, 281, 281,
    281, 281, 281, 281, 281, 281, 281, 281, 281, 281, 281, 281, 281, 281, 281, 281, 281, 281, 281, 281, 281, 281,
    281, 281, 281, 281, 281, 281, 282, 282, 282, 282, 282, 282, 282, 282, 282, 282, 282, 282, 282, 282, 282, 282,
    282, 282, 282, 282, 282, 282, 282, 282, 282, 282, 282, 282, 282, 282, 282, 282, 283, 283, 283, 283, 283, 283,
    283, 283, 283, 283, 283, 283, 283, 283, 283, 283, 283, 283, 283, 283, 283, 283, 283, 283, 283, 283, 283, 283,
    283, 283, 283, 283, 284, 284, 284, 284, 284, 284, 284, 284, 284, 284, 284, 284, 284, 284, 284, 284, 284, 284,
    284, 284, 284, 284, 284, 284, 284, 284, 284, 284, 284, 284, 284, 285]"

definition s_tdefl_len_extra :: "u8 list" where
  "s_tdefl_len_extra = [
    0, 0, 0, 0, 0, 0, 0, 0, 1, 1, 1, 1, 1, 1, 1, 1, 2, 2, 2, 2, 2, 2, 2, 2, 2, 2, 2, 2, 2, 2, 2, 2, 3, 3, 3, 3, 3, 3,
    3, 3, 3, 3, 3, 3, 3, 3, 3, 3, 3, 3, 3, 3, 3, 3, 3, 3, 3, 3, 3, 3, 3, 3, 3, 3, 4, 4, 4, 4, 4, 4, 4, 4, 4, 4, 4, 4,
    4, 4, 4, 4, 4, 4, 4, 4, 4, 4, 4, 4, 4, 4, 4, 4, 4, 4, 4, 4, 4, 4, 4, 4, 4, 4, 4, 4, 4, 4, 4, 4, 4, 4, 4, 4, 4, 4,
    4, 4, 4, 4, 4, 4, 4, 4, 4, 4, 4, 4, 4, 4, 5, 5, 5, 5, 5, 5, 5, 5, 5, 5, 5, 5, 5, 5, 5, 5, 5, 5, 5, 5, 5, 5, 5, 5,
    5, 5, 5, 5, 5, 5, 5, 5, 5, 5, 5, 5, 5, 5, 5, 5, 5, 5, 5, 5, 5, 5, 5, 5, 5, 5, 5, 5, 5, 5, 5, 5, 5, 5, 5, 5, 5, 5,
    5, 5, 5, 5, 5, 5, 5, 5, 5, 5, 5, 5, 5, 5, 5, 5, 5, 5, 5, 5, 5, 5, 5, 5, 5, 5, 5, 5, 5, 5, 5, 5, 5, 5, 5, 5, 5, 5,
    5, 5, 5, 5, 5, 5, 5, 5, 5, 5, 5, 5, 5, 5, 5, 5, 5, 5, 5, 5, 5, 5, 5, 5, 5, 5, 5, 0]"

definition s_tdefl_small_dist_sym :: "u8 list" where
  "s_tdefl_small_dist_sym = [
    0, 1, 2, 3, 4, 4, 5, 5, 6, 6, 6, 6, 7, 7, 7, 7, 8, 8, 8, 8, 8, 8, 8, 8, 9, 9, 9, 9, 9, 9, 9, 9, 10, 10, 10, 10,
    10, 10, 10, 10, 10, 10, 10, 10, 10, 10, 10, 10, 11, 11, 11, 11, 11, 11, 11, 11, 11, 11, 11, 11, 11, 11, 11, 11,
    12, 12, 12, 12, 12, 12, 12, 12, 12, 12, 12, 12, 12, 12, 12, 12, 12, 12, 12, 12, 12, 12, 12, 12, 12, 12, 12, 12,
    12, 12, 12, 12, 13, 13, 13, 13, 13, 13, 13, 13, 13, 13, 13, 13, 13, 13, 13, 13, 13, 13, 13, 13, 13, 13, 13, 13,
    13, 13, 13, 13, 13, 13, 13, 13, 14, 14, 14, 14, 14, 14, 14, 14, 14, 14, 14, 14, 14, 14, 14, 14, 14, 14, 14, 14,
    14, 14, 14, 14, 14, 14, 14, 14, 14, 14, 14, 14, 14, 14, 14, 14, 14, 14, 14, 14, 14, 14, 14, 14, 14, 14, 14, 14,
    14, 14, 14, 14, 14, 14, 14, 14, 14, 14, 14, 14, 14, 14, 14, 14, 15, 15, 15, 15, 15, 15, 15, 15, 15, 15, 15, 15,
    15, 15, 15, 15, 15, 15, 15, 15, 15, 15, 15, 15, 15, 15, 15, 15, 15, 15, 15, 15, 15, 15, 15, 15, 15, 15, 15, 15,
    15, 15, 15, 15, 15, 15, 15, 15, 15, 15, 15, 15, 15, 15, 15, 15, 15, 15, 15, 15, 15, 15, 15, 15, 16, 16, 16, 16,
    16, 16, 16, 16, 16, 16, 16, 16, 16, 16, 16, 16, 16, 16, 16, 16, 16, 16, 16, 16, 16, 16, 16, 16, 16, 16, 16, 16,
    16, 16, 16, 16, 16, 16, 16, 16, 16, 16, 16, 16, 16, 16, 16, 16, 16, 16, 16, 16, 16, 16, 16, 16, 16, 16, 16, 16,
    16, 16, 16, 16, 16, 16, 16, 16, 16, 16, 16, 16, 16, 16, 16, 16, 16, 16, 16, 16, 16, 16, 16, 16, 16, 16, 16, 16,
    16, 16, 16, 16, 16, 16, 16, 16, 16, 16, 16, 16, 16, 16, 16, 16, 16, 16, 16, 16, 16, 16, 16, 16, 16, 16, 16, 16,
    16, 16, 16, 16, 16, 16, 16, 16, 16, 16, 16, 16, 17, 17, 17, 17, 17, 17, 17, 17, 17, 17, 17, 17, 17, 17, 17, 17,
    17, 17, 17, 17, 17, 17, 17, 17, 17, 17, 17, 17, 17, 17, 17, 17, 17, 17, 17, 17, 17, 17, 17, 17, 17, 17, 17, 17,
    17, 17, 17, 17, 17, 17, 17, 17, 17, 17, 17, 17, 17, 17, 17, 17, 17, 17, 17, 17, 17, 17, 17, 17, 17, 17, 17, 17,
    17, 17, 17, 17, 17, 17, 17, 17, 17, 17, 17, 17, 17, 17, 17, 17, 17, 17, 17, 17, 17, 17, 17, 17, 17, 17, 17, 17,
    17, 17, 17, 17, 17, 17, 17, 17, 17, 17, 17, 17, 17, 17, 17, 17, 17, 17, 17, 17, 17, 17, 17, 17, 17, 17, 17, 17]"

definition s_tdefl_small_dist_extra :: "u8 list" where
  "s_tdefl_small_dist_extra = [
    0, 0, 0, 0, 1, 1, 1, 1, 2, 2, 2, 2, 2, 2, 2, 2, 3, 3, 3, 3, 3, 3, 3, 3, 3, 3, 3, 3, 3, 3, 3, 3, 4, 4, 4, 4, 4, 4,
    4, 4, 4, 4, 4, 4, 4, 4, 4, 4, 4, 4, 4, 4, 4, 4, 4, 4, 4, 4, 4, 4, 4, 4, 4, 4, 5, 5, 5, 5, 5, 5, 5, 5, 5, 5, 5, 5,
    5, 5, 5, 5, 5, 5, 5, 5, 5, 5, 5, 5, 5, 5, 5, 5, 5, 5, 5, 5, 5, 5, 5, 5, 5, 5, 5, 5, 5, 5, 5, 5, 5, 5, 5, 5, 5, 5,
    5, 5, 5, 5, 5, 5, 5, 5, 5, 5, 5, 5, 5, 5, 6, 6, 6, 6, 6, 6, 6, 6, 6, 6, 6, 6, 6, 6, 6, 6, 6, 6, 6, 6, 6, 6, 6, 6,
    6, 6, 6, 6, 6, 6, 6, 6, 6, 6, 6, 6, 6, 6, 6, 6, 6, 6, 6, 6, 6, 6, 6, 6, 6, 6, 6, 6, 6, 6, 6, 6, 6, 6, 6, 6, 6, 6,
    6, 6, 6, 6, 6, 6, 6, 6, 6, 6, 6, 6, 6, 6, 6, 6, 6, 6, 6, 6, 6, 6, 6, 6, 6, 6, 6, 6, 6, 6, 6, 6, 6, 6, 6, 6, 6, 6,
    6, 6, 6, 6, 6, 6, 6, 6, 6, 6, 6, 6, 6, 6, 6, 6, 6, 6, 6, 6, 6, 6, 6, 6, 6, 6, 6, 6, 7, 7, 7, 7, 7, 7, 7, 7, 7, 7,
    7, 7, 7, 7, 7, 7, 7, 7, 7, 7, 7, 7, 7, 7, 7, 7, 7, 7, 7, 7, 7, 7, 7, 7, 7, 7, 7, 7, 7, 7, 7, 7, 7, 7, 7, 7, 7, 7,
    7, 7, 7, 7, 7, 7, 7, 7, 7, 7, 7, 7, 7, 7, 7, 7, 7, 7, 7, 7, 7, 7, 7, 7, 7, 7, 7, 7, 7, 7, 7, 7, 7, 7, 7, 7, 7, 7,
    7, 7, 7, 7, 7, 7, 7, 7, 7, 7, 7, 7, 7, 7, 7, 7, 7, 7, 7, 7, 7, 7, 7, 7, 7, 7, 7, 7, 7, 7, 7, 7, 7, 7, 7, 7, 7, 7,
    7, 7, 7, 7, 7, 7, 7, 7, 7, 7, 7, 7, 7, 7, 7, 7, 7, 7, 7, 7, 7, 7, 7, 7, 7, 7, 7, 7, 7, 7, 7, 7, 7, 7, 7, 7, 7, 7,
    7, 7, 7, 7, 7, 7, 7, 7, 7, 7, 7, 7, 7, 7, 7, 7, 7, 7, 7, 7, 7, 7, 7, 7, 7, 7, 7, 7, 7, 7, 7, 7, 7, 7, 7, 7, 7, 7,
    7, 7, 7, 7, 7, 7, 7, 7, 7, 7, 7, 7, 7, 7, 7, 7, 7, 7, 7, 7, 7, 7, 7, 7, 7, 7, 7, 7, 7, 7, 7, 7, 7, 7, 7, 7, 7, 7,
    7, 7, 7, 7, 7, 7, 7, 7, 7, 7, 7, 7, 7, 7, 7, 7, 7, 7]"

definition s_tdefl_large_dist_sym :: "u8 list" where
  "s_tdefl_large_dist_sym = [
    0, 0, 18, 19, 20, 20, 21, 21, 22, 22, 22, 22, 23, 23, 23, 23, 24, 24, 24, 24, 24, 24, 24, 24, 25, 25, 25, 25, 25,
    25, 25, 25, 26, 26, 26, 26, 26, 26, 26, 26, 26, 26, 26, 26, 26, 26, 26, 26, 27, 27, 27, 27, 27, 27, 27, 27, 27,
    27, 27, 27, 27, 27, 27, 27, 28, 28, 28, 28, 28, 28, 28, 28, 28, 28, 28, 28, 28, 28, 28, 28, 28, 28, 28, 28, 28,
    28, 28, 28, 28, 28, 28, 28, 28, 28, 28, 28, 29, 29, 29, 29, 29, 29, 29, 29, 29, 29, 29, 29, 29, 29, 29, 29, 29,
    29, 29, 29, 29, 29, 29, 29, 29, 29, 29, 29, 29, 29, 29, 29]"

definition s_tdefl_large_dist_extra :: "u8 list" where
  "s_tdefl_large_dist_extra = [
    0, 0, 8, 8, 9, 9, 9, 9, 10, 10, 10, 10, 10, 10, 10, 10, 11, 11, 11, 11, 11, 11, 11, 11, 11, 11, 11, 11, 11, 11,
    11, 11, 12, 12, 12, 12, 12, 12, 12, 12, 12, 12, 12, 12, 12, 12, 12, 12, 12, 12, 12, 12, 12, 12, 12, 12, 12, 12,
    12, 12, 12, 12, 12, 12, 13, 13, 13, 13, 13, 13, 13, 13, 13, 13, 13, 13, 13, 13, 13, 13, 13, 13, 13, 13, 13, 13,
    13, 13, 13, 13, 13, 13, 13, 13, 13, 13, 13, 13, 13, 13, 13, 13, 13, 13, 13, 13, 13, 13, 13, 13, 13, 13, 13, 13,
    13, 13, 13, 13, 13, 13, 13, 13, 13, 13, 13, 13, 13, 13]"

definition mz_bitmasks :: "u32 list" where
  "mz_bitmasks = [
    0, 1, 3, 7, 15, 31, 63, 127, 255, 511, 1023, 2047, 4095, 8191, 16383, 32767, 65535]"

subsection \<open>The tables of the decompressor\<close>

definition s_length_base :: "u16 list" where
  "s_length_base = [
    3, 4, 5, 6, 7, 8, 9, 10, 11, 13, 15, 17, 19, 23, 27, 31, 35, 43, 51, 59, 67, 83, 99, 115, 131, 163, 195, 227,
    258, 0, 0]"

definition s_length_extra :: "u8 list" where
  "s_length_extra = [
    0, 0, 0, 0, 0, 0, 0, 0, 1, 1, 1, 1, 2, 2, 2, 2, 3, 3, 3, 3, 4, 4, 4, 4, 5, 5, 5, 5, 0, 0, 0]"

definition s_dist_base :: "u16 list" where
  "s_dist_base = [
    1, 2, 3, 4, 5, 7, 9, 13, 17, 25, 33, 49, 65, 97, 129, 193, 257, 385, 513, 769, 1025, 1537, 2049, 3073, 4097,
    6145, 8193, 12289, 16385, 24577, 0, 0]"

definition s_dist_extra :: "u8 list" where
  "s_dist_extra = [
    0, 0, 0, 0, 1, 1, 2, 2, 3, 3, 4, 4, 5, 5, 6, 6, 7, 7, 8, 8, 9, 9, 10, 10, 11, 11, 12, 12, 13, 13, 0, 0]"


subsection \<open>Choosing symbols, and reading them\<close>

text \<open>\<open>match_len\<close> is the length less 3 and \<open>match_dist\<close> the distance less 1, as the code buffer has them.
  A symbol comes with its number of extra bits; the extra bits are the low bits of the value.\<close>

definition len_code :: "u32 \<Rightarrow> u16 \<times> u8" where
  "len_code match_len = (s_tdefl_len_sym ! unat match_len, s_tdefl_len_extra ! unat match_len)"

definition dist_code :: "u32 \<Rightarrow> u8 \<times> u8" where
  "dist_code match_dist =
     (if match_dist < 512 then
        (s_tdefl_small_dist_sym ! unat match_dist, s_tdefl_small_dist_extra ! unat match_dist)
      else
        (s_tdefl_large_dist_sym ! unat (drop_bit 8 match_dist), s_tdefl_large_dist_extra ! unat (drop_bit 8 match_dist)))"

definition inflate_length :: "nat \<Rightarrow> u32 \<Rightarrow> u32" where
  "inflate_length code extra_bits =
     (let num_extra = s_length_extra ! (code - 257); counter = ucast (s_length_base ! (code - 257))
      in if num_extra \<noteq> 0 then counter + extra_bits else counter)"

definition inflate_dist :: "nat \<Rightarrow> u32 \<Rightarrow> u32" where
  "inflate_dist code extra_bits =
     (let num_extra = s_dist_extra ! code; dist = ucast (s_dist_base ! code)
      in if num_extra \<noteq> 0 then dist + extra_bits else dist)"

subsection \<open>The tables agree\<close>

lemma bitmasks: "n \<le> 16 \<Longrightarrow> mz_bitmasks ! n = mask n"
proof -
  have "list_all (\<lambda>n. mz_bitmasks ! n = mask n) [0..<17]" by code_simp
  then show "n \<le> 16 \<Longrightarrow> mz_bitmasks ! n = mask n" by (simp add: list_all_iff del: upt_rec_numeral)
qed

lemma low_bits: "n \<le> 16 \<Longrightarrow> unat (m AND mz_bitmasks ! n) = unat m mod 2 ^ n"
proof -
  have "unat (take_bit n m) = take_bit n (unat m)" by (simp only: unsigned_take_bit_eq)
  then show "n \<le> 16 \<Longrightarrow> unat (m AND mz_bitmasks ! n) = unat m mod 2 ^ n"
    by (simp only: bitmasks take_bit_eq_mask [symmetric] take_bit_eq_mod [of n "unat m"])
qed

text \<open>A row of a table: the base of the symbol is the value without its extra bits.\<close>

definition len_row :: "int \<Rightarrow> u16 \<Rightarrow> u8 \<Rightarrow> bool" where
  "len_row i s e \<longleftrightarrow> 257 \<le> uint s \<and> uint s \<le> 285 \<and> uint e \<le> 5
     \<and> s_length_extra ! nat (uint s - 257) = e
     \<and> uint (s_length_base ! nat (uint s - 257)) = 3 + i div 2 ^ unat e * 2 ^ unat e"

definition dist_row :: "int \<Rightarrow> u8 \<Rightarrow> u8 \<Rightarrow> bool" where
  "dist_row m s e \<longleftrightarrow> uint s < 30 \<and> uint e \<le> 13 \<and> s_dist_extra ! nat (uint s) = e
     \<and> uint (s_dist_base ! nat (uint s)) = 1 + m div 2 ^ unat e * 2 ^ unat e"

lemma len_rows: "list_all (\<lambda>(i, s, e). len_row i s e) (zip [0..255] (zip s_tdefl_len_sym s_tdefl_len_extra))"
  by code_simp

lemma small_dist_rows:
  "list_all (\<lambda>(i, s, e). dist_row i s e) (zip [0..511] (zip s_tdefl_small_dist_sym s_tdefl_small_dist_extra))"
  by code_simp

lemma large_dist_rows:
  "list_all (\<lambda>(i, s, e). i < 2 \<or> 8 \<le> uint e \<and> dist_row (256 * i) s e)
     (zip [0..127] (zip s_tdefl_large_dist_sym s_tdefl_large_dist_extra))"
  by code_simp

lemma table_lengths [simp]:
  "length s_tdefl_len_sym = 256" "length s_tdefl_len_extra = 256"
  "length s_tdefl_small_dist_sym = 512" "length s_tdefl_small_dist_extra = 512"
  "length s_tdefl_large_dist_sym = 128" "length s_tdefl_large_dist_extra = 128"
  by (simp_all add: s_tdefl_len_sym_def s_tdefl_len_extra_def s_tdefl_small_dist_sym_def s_tdefl_small_dist_extra_def
      s_tdefl_large_dist_sym_def s_tdefl_large_dist_extra_def)

lemma rows_nth:
  assumes "list_all (\<lambda>(i, s, e). P i s e) (zip [0..int n - 1] (zip xs ys))" "length xs = n" "length ys = n" "i < n"
  shows "P (int i) (xs ! i) (ys ! i)"
proof -
  have "(int i, xs ! i, ys ! i) = zip [0..int n - 1] (zip xs ys) ! i" using assms(2-4) by (simp add: nth_upto)
  then have "(int i, xs ! i, ys ! i) \<in> set (zip [0..int n - 1] (zip xs ys))"
    using assms(2-4) nth_mem [of i "zip [0..int n - 1] (zip xs ys)"] by simp
  then show ?thesis using assms(1) unfolding list_all_iff by blast
qed

lemma len_code_row:
  assumes "unat match_len < 256"
  shows "len_row (int (unat match_len)) (fst (len_code match_len)) (snd (len_code match_len))"
  using rows_nth [of len_row 256 s_tdefl_len_sym s_tdefl_len_extra "unat match_len"] len_rows assms
  by (simp add: len_code_def)

lemma block_div:
  fixes m :: int
  assumes "8 \<le> e"
  shows "256 * (m div 256) div 2 ^ e = m div 2 ^ e"
proof -
  have e: "(2 :: int) ^ e = 256 * 2 ^ (e - 8)" using assms power_add [of "2 :: int" 8 "e - 8"] by simp
  have "256 * (m div 256) div (256 * 2 ^ (e - 8)) = m div 256 div 2 ^ (e - 8)" by (rule div_mult_mult1) simp
  then show ?thesis unfolding e by (simp add: zdiv_zmult2_eq)
qed

lemma dist_code_row:
  assumes "unat match_dist < 32768"
  shows "dist_row (int (unat match_dist)) (fst (dist_code match_dist)) (snd (dist_code match_dist))"
proof (cases "match_dist < 512")
  case True
  then have "unat match_dist < 512" by (simp add: word_less_nat_alt)
  then have "dist_row (int (unat match_dist)) (s_tdefl_small_dist_sym ! unat match_dist) (s_tdefl_small_dist_extra ! unat match_dist)"
    using rows_nth [of dist_row 512 s_tdefl_small_dist_sym s_tdefl_small_dist_extra "unat match_dist"] small_dist_rows by simp
  then show ?thesis using True unfolding dist_code_def by (simp only: if_True fst_conv snd_conv)
next
  case False
  let ?h = "unat match_dist div 256"
  let ?s = "s_tdefl_large_dist_sym ! ?h" and ?e = "s_tdefl_large_dist_extra ! ?h"
  have h: "unat (drop_bit 8 match_dist) = ?h" by (simp add: drop_bit_eq_div unat_div_distrib)
  have "\<not> ?h < 2" "?h < 128" using False assms by (auto simp: word_less_nat_alt)
  then have "\<not> int ?h < 2" and row: "8 \<le> uint ?e" "dist_row (256 * int ?h) ?s ?e"
    using rows_nth [of "\<lambda>i s e. i < 2 \<or> 8 \<le> uint e \<and> dist_row (256 * i) s e" 128
        s_tdefl_large_dist_sym s_tdefl_large_dist_extra ?h] large_dist_rows
    by simp_all
  have "8 \<le> unat ?e" using row(1) by (simp add: unat_eq_nat_uint le_nat_iff del: nat_uint_eq)
  then have "256 * (int (unat match_dist) div 256) div 2 ^ unat ?e = int (unat match_dist) div 2 ^ unat ?e"
    by (rule block_div)
  moreover have "int ?h = int (unat match_dist) div 256" by (simp only: zdiv_int) simp
  ultimately have "dist_row (int (unat match_dist)) ?s ?e" using row(2) by (simp only: dist_row_def)
  then show ?thesis using False unfolding dist_code_def by (simp only: if_False fst_conv snd_conv h)
qed

lemma len_code_bounds:
  assumes "unat match_len < 256"
  shows "257 \<le> unat (fst (len_code match_len))" "unat (fst (len_code match_len)) \<le> 285" "unat (snd (len_code match_len)) \<le> 5"
  using len_code_row [OF assms] unfolding len_row_def
  by (simp_all add: unat_eq_nat_uint nat_le_iff le_nat_iff del: nat_uint_eq)

lemma dist_code_bounds:
  assumes "unat match_dist < 32768"
  shows "unat (fst (dist_code match_dist)) < 30" "unat (snd (dist_code match_dist)) \<le> 13"
  using dist_code_row [OF assms] unfolding dist_row_def
  by (simp_all add: unat_eq_nat_uint nat_le_iff nat_less_iff del: nat_uint_eq)

lemma base_plus_low:
  fixes b :: u16 and m :: u32
  assumes "uint b = c + int (unat m) div 2 ^ n * 2 ^ n" "n \<le> 16"
  shows "ucast b + (m AND mz_bitmasks ! n) = of_int c + m"
proof -
  have "int (unat (m AND mz_bitmasks ! n)) = int (unat m) mod 2 ^ n" by (simp only: low_bits [OF assms(2)] zmod_int) simp
  then have "of_int (int (unat m) mod 2 ^ n) = (of_nat (unat (m AND mz_bitmasks ! n)) :: u32)"
    by (simp only: of_int_of_nat_eq flip: \<open>int _ = _\<close>)
  then have low: "of_int (int (unat m) mod 2 ^ n) = m AND mz_bitmasks ! n" by (simp only: of_nat_unat ucast_id)
  have "ucast b = (of_int (uint b) :: u32)" by simp
  then have "ucast b = (of_int (c + int (unat m) div 2 ^ n * 2 ^ n) :: u32)" by (simp only: assms(1))
  then have "ucast b + (m AND mz_bitmasks ! n) = of_int (c + (int (unat m) div 2 ^ n * 2 ^ n + int (unat m) mod 2 ^ n))"
    by (simp only: low [symmetric] of_int_add add.assoc)
  then show ?thesis by (simp only: div_mult_mod_eq of_int_add) simp
qed

lemma inflate_symbols:
  assumes l: "unat l < 256" and q: "unat q < 32768" and c: "len_code l = (s, e)" "dist_code q = (t, f)"
  shows "inflate_length (unat s) (l AND mz_bitmasks ! unat e) = l + 3" "s_length_extra ! (unat s - 257) = e"
    "inflate_dist (unat t) (q AND mz_bitmasks ! unat f) = q + 1" "s_dist_extra ! unat t = f"
proof -
  note lr = len_code_row [OF l, unfolded c fst_conv snd_conv len_row_def]
  note qr = dist_code_row [OF q, unfolded c fst_conv snd_conv dist_row_def]
  have n: "nat (uint s - 257) = unat s - 257" "nat (uint t) = unat t" "unat e \<le> 16" "unat f \<le> 16"
    using lr qr by (simp_all add: unat_eq_nat_uint nat_le_iff nat_diff_distrib' del: nat_uint_eq)
  have zero: "m AND mz_bitmasks ! 0 = 0" for m by (simp add: mz_bitmasks_def)
  have a: "ucast (s_length_base ! (unat s - 257)) + (l AND mz_bitmasks ! unat e) = of_int 3 + l"
    using lr n(3) by (intro base_plus_low) (simp_all add: n(1) [symmetric])
  have b: "ucast (s_dist_base ! unat t) + (q AND mz_bitmasks ! unat f) = of_int 1 + q"
    using qr n(4) by (intro base_plus_low) simp_all
  show x: "s_length_extra ! (unat s - 257) = e" "s_dist_extra ! unat t = f" using lr qr n by simp_all
  show "inflate_length (unat s) (l AND mz_bitmasks ! unat e) = l + 3"
    using a x by (cases "e = 0") (simp_all add: inflate_length_def Let_def zero)
  show "inflate_dist (unat t) (q AND mz_bitmasks ! unat f) = q + 1"
    using b x by (cases "f = 0") (simp_all add: inflate_dist_def Let_def zero)
qed

text \<open>C39: the decompressor undoes the compressor's choice of symbols: for every length from 3 to 258
  and every distance from 1 to 32768, the base of the chosen symbol and the extra bits give the length
  and the distance back, with as many extra bits as the decompressor reads.\<close>

theorem match_symbols_roundtrip:
  assumes "3 \<le> l" "l \<le> 258" "1 \<le> q" "q \<le> 32768"
    and "len_code (l - 3) = (s, e)" "dist_code (q - 1) = (t, f)"
  shows "inflate_length (unat s) ((l - 3) AND mz_bitmasks ! unat e) = l \<and> s_length_extra ! (unat s - 257) = e
    \<and> inflate_dist (unat t) ((q - 1) AND mz_bitmasks ! unat f) = q \<and> s_dist_extra ! unat t = f"
proof -
  have "unat (l - 3) < 256" "unat (q - 1) < 32768"
    using assms(1-4) by (simp_all add: unat_sub word_le_nat_alt)
  then show ?thesis using inflate_symbols [OF _ _ assms(5,6)] by simp
qed

lemma match_symbols_roundtrip_witness:
  "inflate_length 279 (((100 :: u32) - 3) AND mz_bitmasks ! 4) = 100 \<and> s_dist_extra ! 19 = 8"
  using match_symbols_roundtrip [of 100 1000 279 4 19 8]
  by (simp add: len_code_def dist_code_def s_tdefl_len_sym_def s_tdefl_len_extra_def s_tdefl_large_dist_sym_def
      s_tdefl_large_dist_extra_def)

end
