(* ===== verification/DeflLz.thy ===== *)
theory DeflLz
  imports DeflBits DeflTables
begin

text \<open>
  The code buffer of the compressor (src/packages/miniz/src/main/c/miniz.c): \<open>tdefl_record_literal\<close> and
  \<open>tdefl_record_match\<close> append to it, one flag byte before every eight codes, and
  \<open>tdefl_compress_lz_codes\<close> (the variant for targets without unaligned loads, which is the one that is
  compiled) reads it back and writes the symbols.  Shown: what was recorded is what is written.
\<close>

unbundle bit_operations_syntax

subsection \<open>Recording\<close>

text \<open>The end of both functions: the flag of the code, and a new flag byte after eight.\<close>

definition record_flag :: "u8 \<Rightarrow> tdefl_compressor \<Rightarrow> tdefl_compressor" where
  "record_flag mark d =
     (let d = d\<lparr>m_lz_code_buf := (m_lz_code_buf d)[m_pLZ_flags d := drop_bit 1 (m_lz_code_buf d ! m_pLZ_flags d) OR mark],
                m_num_flags_left := m_num_flags_left d - 1\<rparr>
      in if m_num_flags_left d = 0 then
           d\<lparr>m_num_flags_left := 8, m_pLZ_flags := m_pLZ_code_buf d, m_pLZ_code_buf := m_pLZ_code_buf d + 1\<rparr>
         else d)"

definition bump :: "nat \<Rightarrow> nat \<Rightarrow> tdefl_compressor \<Rightarrow> tdefl_compressor" where
  "bump t i d = d\<lparr>m_huff_count := (m_huff_count d)[t := (m_huff_count d ! t)[i := m_huff_count d ! t ! i + 1]]\<rparr>"

definition tdefl_record_literal :: "u8 \<Rightarrow> tdefl_compressor \<Rightarrow> tdefl_compressor" where
  "tdefl_record_literal lit d =
     (let d = d\<lparr>m_total_lz_bytes := m_total_lz_bytes d + 1\<rparr>;
          d = d\<lparr>m_lz_code_buf := (m_lz_code_buf d)[m_pLZ_code_buf d := lit], m_pLZ_code_buf := m_pLZ_code_buf d + 1\<rparr>;
          d = record_flag 0 d
      in bump 0 (unat lit) d)"

definition tdefl_record_match :: "u32 \<Rightarrow> u32 \<Rightarrow> tdefl_compressor \<Rightarrow> tdefl_compressor" where
  "tdefl_record_match match_len match_dist d =
     (let d = d\<lparr>m_total_lz_bytes := m_total_lz_bytes d + match_len\<rparr>;
          p = m_pLZ_code_buf d;
          match_dist = match_dist - 1;
          d = d\<lparr>m_lz_code_buf := (m_lz_code_buf d)[p := ucast (match_len - 3), p + 1 := ucast (match_dist AND 255),
                  p + 2 := ucast (drop_bit 8 match_dist)], m_pLZ_code_buf := p + 3\<rparr>;
          d = record_flag 128 d;
          s0 = s_tdefl_small_dist_sym ! unat (match_dist AND 511);
          s1 = s_tdefl_large_dist_sym ! unat (drop_bit 8 match_dist AND 127);
          d = bump 1 (unat (if match_dist < 512 then s0 else s1)) d
      in bump 0 (unat (s_tdefl_len_sym ! unat (match_len - 3))) d)"

text \<open>The beginning of \<open>tdefl_flush_block\<close>: the last flag byte is moved into place, or dropped if it is unused.\<close>

definition flush_flags :: "tdefl_compressor \<Rightarrow> tdefl_compressor" where
  "flush_flags d =
     d\<lparr>m_lz_code_buf := (m_lz_code_buf d)[m_pLZ_flags d := drop_bit (unat (m_num_flags_left d)) (m_lz_code_buf d ! m_pLZ_flags d)],
       m_pLZ_code_buf := m_pLZ_code_buf d - (if m_num_flags_left d = 8 then 1 else 0)\<rparr>"

subsection \<open>Writing\<close>

definition put_symbol :: "nat \<Rightarrow> nat \<Rightarrow> tdefl_compressor \<Rightarrow> tdefl_compressor" where
  "put_symbol t i d = TDEFL_PUT_BITS (ucast (m_huff_codes d ! t ! i)) (ucast (m_huff_code_sizes d ! t ! i)) d"

definition put_match :: "u32 \<Rightarrow> u32 \<Rightarrow> tdefl_compressor \<Rightarrow> tdefl_compressor" where
  "put_match match_len match_dist d =
     (let (len_sym, len_extra) = len_code match_len;
          d = put_symbol 0 (unat len_sym) d;
          d = TDEFL_PUT_BITS (match_len AND mz_bitmasks ! unat len_extra) (ucast len_extra) d;
          (dist_sym, num_extra_bits) = dist_code match_dist;
          d = put_symbol 1 (unat dist_sym) d
      in TDEFL_PUT_BITS (match_dist AND mz_bitmasks ! unat num_extra_bits) (ucast num_extra_bits) d)"

text \<open>One code, from the position \<open>p\<close>; the result has the position after it.\<close>

definition put_code :: "u32 \<Rightarrow> nat \<Rightarrow> tdefl_compressor \<Rightarrow> nat \<times> tdefl_compressor" where
  "put_code flags p d =
     (let pLZ_codes = m_lz_code_buf d in
      if flags AND 1 \<noteq> 0 then
        (p + 3, put_match (ucast (pLZ_codes ! p))
                  (ucast (pLZ_codes ! (p + 1)) OR push_bit 8 (ucast (pLZ_codes ! (p + 2)))) d)
      else (p + 1, put_symbol 0 (unat (pLZ_codes ! p)) d))"

lemma put_match_output_only: "output_only d (put_match l q d)"
  unfolding put_match_def put_symbol_def Let_def
  by (auto split: prod.split intro!: output_only_trans [OF _ put_bits_output_only])

lemma put_code_output_only: "output_only d (snd (put_code flags p d))"
  by (simp add: put_code_def Let_def put_match_output_only put_symbol_def put_bits_output_only)

lemma put_code_advances: "p < fst (put_code flags p d)"
  by (simp add: put_code_def Let_def)

function lz_codes_loop :: "u32 \<Rightarrow> nat \<Rightarrow> tdefl_compressor \<Rightarrow> tdefl_compressor" where
  "lz_codes_loop flags p d =
     (if p < m_pLZ_code_buf d then
        let (flags, p) = (if flags = 1 then (ucast (m_lz_code_buf d ! p) OR 256, p + 1) else (flags, p));
            (p, d) = put_code flags p d
        in lz_codes_loop (drop_bit 1 flags) p d
      else d)"
  by pat_completeness auto
termination
proof (relation "measure (\<lambda>(flags, p, d). m_pLZ_code_buf d - p)", goal_cases)
  case (2 flags p d x flags' p' y p'' d')
  have y: "p'' = fst (put_code flags' p' d)" "d' = snd (put_code flags' p' d)" using 2(4,5) by (metis fst_conv, metis snd_conv)
  have "m_pLZ_code_buf d' = m_pLZ_code_buf d"
    unfolding y by (rule output_only_fields(5) [OF put_code_output_only])
  moreover have "p' < p''" unfolding y by (rule put_code_advances)
  moreover have "p \<le> p'" using 2(2,3) by (auto split: if_splits)
  ultimately show ?case using 2(1) by simp
qed simp

declare lz_codes_loop.simps [simp del]

definition tdefl_compress_lz_codes :: "tdefl_compressor \<Rightarrow> tdefl_compressor \<times> bool" where
  "tdefl_compress_lz_codes d =
     (let d = lz_codes_loop 1 0 d; d = put_symbol 0 256 d in (d, m_pOutput_buf d < m_pOutput_buf_end d))"

subsection \<open>The code buffer as a list of codes\<close>

text \<open>A code as the buffer holds it: the length less 3, the distance less 1.\<close>

datatype lz_code = Literal u8 | Match u32 u32

fun is_match :: "lz_code \<Rightarrow> bool" where
  "is_match (Literal b) = False"
| "is_match (Match l q) = True"

fun code_ok :: "lz_code \<Rightarrow> bool" where
  "code_ok (Literal b) = True"
| "code_ok (Match l q) = (unat l < 256 \<and> unat q < 32768)"

fun code_bytes :: "lz_code \<Rightarrow> u8 list" where
  "code_bytes (Literal b) = [b]"
| "code_bytes (Match l q) = [ucast l, ucast (q AND 255), ucast (drop_bit 8 q)]"

definition codes_bytes :: "lz_code list \<Rightarrow> u8 list" where
  "codes_bytes ts = concat (map code_bytes ts)"

definition flag_byte :: "lz_code list \<Rightarrow> u8" where
  "flag_byte ts = horner_sum of_bool 2 (map is_match ts)"

fun lz_bytes :: "lz_code list \<Rightarrow> u8 list" where
  "lz_bytes [] = []"
| "lz_bytes (t # ts) = flag_byte (take 8 (t # ts)) # codes_bytes (take 8 (t # ts)) @ lz_bytes (drop 8 (t # ts))"

declare lz_bytes.simps(2) [simp del]

lemma lz_bytes_rec: "ts \<noteq> [] \<Longrightarrow> lz_bytes ts = flag_byte (take 8 ts) # codes_bytes (take 8 ts) @ lz_bytes (drop 8 ts)"
  by (cases ts) (simp_all add: lz_bytes.simps(2))

lemma lz_bytes_append: "8 dvd length xs \<Longrightarrow> lz_bytes (xs @ ys) = lz_bytes xs @ lz_bytes ys"
proof (induction xs rule: lz_bytes.induct)
  case (2 t ts)
  have n: "8 \<le> length (t # ts)" using 2(2) dvd_imp_le by blast
  then have "8 dvd length (drop 8 (t # ts))" using 2(2) by (simp only: length_drop dvd_minus_self) simp
  then have IH: "lz_bytes (drop 8 (t # ts) @ ys) = lz_bytes (drop 8 (t # ts)) @ lz_bytes ys" by (rule 2(1))
  have "lz_bytes ((t # ts) @ ys) = flag_byte (take 8 (t # ts)) # codes_bytes (take 8 (t # ts)) @ lz_bytes (drop 8 (t # ts) @ ys)"
    using n by (subst lz_bytes_rec) simp_all
  also have "\<dots> = lz_bytes (t # ts) @ lz_bytes ys" by (simp only: IH lz_bytes.simps(2) append_Cons append_assoc)
  finally show ?case .
qed simp

lemma flag_byte_bit: "length ts \<le> 8 \<Longrightarrow> bit (flag_byte ts) i = (i < length ts \<and> is_match (ts ! i))"
  by (auto simp: flag_byte_def bit_horner_sum_bit_iff possible_bit_word)

subsection \<open>Reading the buffer back\<close>

text \<open>What is done for a code, and the bits it stands for.\<close>

fun put_lz_code :: "tdefl_compressor \<Rightarrow> lz_code \<Rightarrow> tdefl_compressor" where
  "put_lz_code d (Literal b) = put_symbol 0 (unat b) d"
| "put_lz_code d (Match l q) = put_match l q d"

lemma put_lz_code_output_only: "output_only d (put_lz_code d t)"
  by (cases t) (simp_all add: put_match_output_only put_symbol_def put_bits_output_only)

lemma bytes_value:
  fixes q :: u32
  assumes "unat q < 65536"
  shows "ucast (ucast (q AND 255) :: u8) OR push_bit 8 (ucast (ucast (drop_bit 8 q) :: u8)) = q"
proof (rule bit_word_eqI)
  fix n assume "n < LENGTH(32)"
  then have n: "n < 32" by simp
  have "(255 :: u32) = mask 8" by (simp add: mask_eq_exp_minus_1)
  then have lo: "bit (q AND 255) k = (bit q k \<and> k < 8)" for k
    by (cases "k < 8") (simp_all only: bit_and_iff bit_mask_iff possible_bit_word, simp_all)
  have hi: "\<not> bit q n" if "16 \<le> n"
  proof -
    have "unat q < 2 ^ 16" using assms by simp
    then show ?thesis unfolding unat_bit_less using that n by blast
  qed
  consider "n < 8" | "8 \<le> n" "n < 16" | "16 \<le> n" by linarith
  then show "bit (ucast (ucast (q AND 255) :: u8) OR push_bit 8 (ucast (ucast (drop_bit 8 q) :: u8)) :: u32) n = bit q n"
    using n hi by cases (simp_all only: bit_or_iff bit_push_bit_iff bit_ucast_iff lo bit_drop_bit_eq possible_bit_word, auto)
qed

lemma put_code_reads:
  assumes "drop p (take e (m_lz_code_buf d)) = code_bytes t @ rst" "code_ok t" "(flags AND 1 \<noteq> 0) = is_match t"
  shows "put_code flags p d = (p + length (code_bytes t), put_lz_code d t)"
proof -
  let ?b = "m_lz_code_buf d"
  have nth: "?b ! (p + k) = (code_bytes t @ rst) ! k" if "k < length (code_bytes t)" for k
  proof -
    have "k < length (drop p (take e ?b))" using that by (simp only: assms(1) length_append)
    then have "p \<le> length (take e ?b)" "p + k < e" by (simp_all only: length_drop length_take min_def split: if_splits)
    then have "drop p (take e ?b) ! k = ?b ! (p + k)" by simp
    then show ?thesis using assms(1) by simp
  qed
  show ?thesis
  proof (cases t)
    case (Literal b)
    then show ?thesis using nth [of 0] assms(3) by (simp add: put_code_def)
  next
    case (Match l q)
    have "?b ! p = ucast l" "?b ! (p + 1) = ucast (q AND 255)" "?b ! (p + 2) = ucast (drop_bit 8 q)"
      using nth [of 0] nth [of 1] nth [of 2] Match by simp_all
    moreover have "ucast (ucast l :: u8) = l"
    proof -
      have "unat l < 256" using assms(2) Match by simp
      then have "unat (ucast (ucast l :: u8) :: u32) = unat l" by (simp add: unsigned_ucast_eq unsigned_take_bit_eq take_bit_nat_eq_self)
      then show ?thesis by (simp only: word_unat_eq_iff)
    qed
    moreover have "ucast (ucast (q AND 255) :: u8) OR push_bit 8 (ucast (ucast (drop_bit 8 q) :: u8)) = q"
      using assms(2) Match by (intro bytes_value) simp
    ultimately show ?thesis using assms(3) Match by (simp only: put_code_def Let_def is_match.simps if_True put_lz_code.simps) simp
  qed
qed

text \<open>The flags with \<open>r\<close> of the current eight codes to go: one bit for each code, and the end mark.\<close>

definition flags_ok :: "u32 \<Rightarrow> nat \<Rightarrow> lz_code list \<Rightarrow> bool" where
  "flags_ok flags r ts \<longleftrightarrow> length ts \<le> r \<and> r \<le> 8
     \<and> (\<forall>i < length ts. bit flags i = is_match (ts ! i)) \<and> (\<forall>i. r \<le> i \<longrightarrow> bit flags i = (i = r))"

lemma flags_ok_1: "flags_ok flags r ts \<Longrightarrow> (flags = 1) = (r = 0)"
proof -
  assume f: "flags_ok flags r ts"
  have one: "bit (1 :: u32) n = (n = 0)" for n by (cases n) (simp_all add: bit_1_iff)
  show ?thesis
  proof
    assume "flags = 1"
    then have "bit (1 :: u32) r" using f by (simp only: flags_ok_def)
    then show "r = 0" by (simp only: one)
  next
    assume "r = 0"
    then have "bit flags i = (i = 0)" for i using f by (simp only: flags_ok_def)
    then show "flags = 1" by (intro bit_word_eqI) (simp only: one)
  qed
qed

lemma flags_ok_Cons:
  assumes "flags_ok flags r (t # ts)"
  shows "(flags AND 1 \<noteq> 0) = is_match t" "flags_ok (drop_bit 1 flags) (r - 1) ts"
proof -
  have b: "bit flags 0 = is_match t" "1 \<le> r" using assms by (auto simp: flags_ok_def)
  have "(flags AND 1 \<noteq> 0) = bit flags 0" by (simp add: bit_0 and_one_eq mod_2_eq_odd)
  then show "(flags AND 1 \<noteq> 0) = is_match t" using b by simp
  have d: "bit (drop_bit 1 flags) i = bit flags (Suc i)" for i by (simp only: bit_drop_bit_eq comp_def plus_1_eq_Suc)
  have "bit flags (Suc i) = is_match (ts ! i)" if "i < length ts" for i
    using assms that unfolding flags_ok_def by (metis Suc_less_eq length_Cons nth_Cons_Suc)
  moreover have "bit flags (Suc i) = (i = r - 1)" if "r - 1 \<le> i" for i
    using assms that b(2) unfolding flags_ok_def by (metis Suc_le_mono Suc_pred' diff_Suc_1 less_eq_Suc_le One_nat_def)
  moreover have "length ts \<le> r - 1" "r - 1 \<le> 8" using assms by (auto simp: flags_ok_def)
  ultimately show "flags_ok (drop_bit 1 flags) (r - 1) ts" unfolding flags_ok_def d by blast
qed

lemma flags_ok_byte:
  assumes "length ts \<le> 8"
  shows "flags_ok (ucast (flag_byte ts) OR 256) 8 ts"
proof -
  have "bit (2 ^ 8 :: u32) n = (n = 8)" for n by (simp only: bit_exp_iff possible_bit_word) auto
  moreover have "(2 ^ 8 :: u32) = 256" by simp
  ultimately have b: "bit (256 :: u32) n = (n = 8)" for n by (simp only:)
  have "bit (ucast (flag_byte ts) :: u32) n = (n < 32 \<and> bit (flag_byte ts) n)" for n
    by (simp only: bit_ucast_iff possible_bit_word) simp
  then have "bit (ucast (flag_byte ts) OR 256 :: u32) n = (n < 32 \<and> n < length ts \<and> is_match (ts ! n) \<or> n = 8)" for n
    by (simp only: bit_or_iff b flag_byte_bit [OF assms])
  then show ?thesis using assms unfolding flags_ok_def by (simp only:) auto
qed

lemma lz_codes_loop_spec:
  assumes "drop p (take (m_pLZ_code_buf d) (m_lz_code_buf d)) = codes_bytes ts @ lz_bytes us" "p \<le> m_pLZ_code_buf d"
    "m_pLZ_code_buf d \<le> length (m_lz_code_buf d)" "flags_ok flags r ts" "us \<noteq> [] \<longrightarrow> length ts = r"
    "list_all code_ok (ts @ us)"
  shows "lz_codes_loop flags p d = foldl put_lz_code d (ts @ us)"
  using assms
proof (induction "ts @ us" arbitrary: ts us flags r p d)
  case Nil
  then have "\<not> p < m_pLZ_code_buf d" by (simp add: codes_bytes_def)
  then show ?case using Nil(1) by (subst lz_codes_loop.simps) simp
next
  case (Cons t qs)
  let ?e = "m_pLZ_code_buf d" and ?b = "m_lz_code_buf d"
  obtain flags' p' r' ts' us' where s: "(if flags = 1 then (ucast (?b ! p) OR 256, p + 1) else (flags, p)) = (flags', p')"
    "drop p' (take ?e ?b) = code_bytes t @ codes_bytes ts' @ lz_bytes us'" "flags_ok flags' r' (t # ts')"
    "us' \<noteq> [] \<longrightarrow> Suc (length ts') = r'" "qs = ts' @ us'" "p < ?e"
  proof (cases ts)
    case (Cons t' ts')
    then have t: "t' = t" "qs = ts' @ us" using \<open>t # qs = ts @ us\<close> by simp_all
    have "r \<noteq> 0" using Cons Cons.prems(4) by (auto simp: flags_ok_def)
    then have "flags \<noteq> 1" using flags_ok_1 [OF Cons.prems(4)] by simp
    moreover have "code_bytes t' \<noteq> []" by (cases t') simp_all
    then have "drop p (take ?e ?b) \<noteq> []" using Cons.prems(1) Cons by (simp add: codes_bytes_def)
    then have "p < ?e" by simp
    ultimately show ?thesis
      using that [of flags p ts' us r] Cons.prems Cons t by (simp add: codes_bytes_def)
  next
    case Nil
    then have us: "us = t # qs" using \<open>t # qs = ts @ us\<close> by simp
    then have "flags = 1" using flags_ok_1 [OF Cons.prems(4)] Nil Cons.prems(5) by simp
    have d: "drop p (take ?e ?b) = flag_byte (take 8 us) # codes_bytes (take 8 us) @ lz_bytes (drop 8 us)"
      using Cons.prems(1) Nil us lz_bytes_rec [of us] by (simp add: codes_bytes_def)
    then have "drop p (take ?e ?b) \<noteq> []" by simp
    then have p: "p < ?e" "p < length ?b" by simp_all
    have "?b ! p = drop p (take ?e ?b) ! 0" using p by simp
    then have fb: "?b ! p = flag_byte (take 8 us)" using d by simp
    have "drop (p + 1) (take ?e ?b) = drop 1 (drop p (take ?e ?b))" by simp
    then have "drop (p + 1) (take ?e ?b) = codes_bytes (take 8 us) @ lz_bytes (drop 8 us)" using d by simp
    then show ?thesis
      using that [of "ucast (?b ! p) OR 256" "p + 1" "take 7 qs" "drop 7 qs" 8] \<open>flags = 1\<close> p(1) us
        flags_ok_byte [of "take 8 us"] by (simp add: fb codes_bytes_def)
  qed
  let ?d = "put_lz_code d t" and ?p = "p' + length (code_bytes t)"
  have ok: "code_ok t" "list_all code_ok (ts' @ us')" using Cons.prems(6) s(5) by (simp_all flip: \<open>t # qs = ts @ us\<close>)
  note f = output_only_fields [OF put_lz_code_output_only, of d t]
  have put: "put_code flags' p' d = (?p, ?d)"
    using s(2) ok(1) flags_ok_Cons(1) [OF s(3)] by (rule put_code_reads)
  have run: "lz_codes_loop flags p d = lz_codes_loop (drop_bit 1 flags') ?p ?d"
    using s(6) by (subst lz_codes_loop.simps) (simp only: s(1) put if_True Let_def prod.case)
  have "drop ?p (take ?e ?b) = drop (length (code_bytes t)) (drop p' (take ?e ?b))" by (simp add: add.commute)
  then have rest': "drop ?p (take ?e ?b) = codes_bytes ts' @ lz_bytes us'" by (simp add: s(2))
  have "length (code_bytes t) \<le> length (drop p' (take ?e ?b))" by (simp add: s(2))
  moreover have "code_bytes t \<noteq> []" by (cases t) simp_all
  ultimately have "?p \<le> ?e" by (simp add: Suc_le_eq flip: length_greater_0_conv)
  moreover have "us' \<noteq> [] \<longrightarrow> length ts' = r' - 1" using s(4) by auto
  ultimately have "lz_codes_loop (drop_bit 1 flags') ?p ?d = foldl put_lz_code ?d (ts' @ us')"
    using rest' Cons.prems(3) ok(2) flags_ok_Cons(2) [OF s(3)]
    by (intro Cons.hyps(1) [OF s(5), where r = "r' - 1"]) (simp_all add: f)
  then show ?case by (simp only: run Cons.hyps(2) [symmetric] s(5) foldl_Cons)
qed

subsection \<open>The bits of the codes\<close>

text \<open>The bits of a code under the tables of \<open>d\<close>: its symbols, each followed by its extra bits.\<close>

fun lz_code_bits :: "tdefl_compressor \<Rightarrow> lz_code \<Rightarrow> bool list" where
  "lz_code_bits d (Literal b) = symbol_bits d 0 (unat b)"
| "lz_code_bits d (Match l q) =
     (case (len_code l, dist_code q) of ((s, e), (t, f)) \<Rightarrow>
        symbol_bits d 0 (unat s) @ nat_bits (unat l mod 2 ^ unat e) (unat e)
        @ symbol_bits d 1 (unat t) @ nat_bits (unat q mod 2 ^ unat f) (unat f))"

text \<open>The codes of the tables fit their sizes.\<close>

definition table_fits :: "tdefl_compressor \<Rightarrow> nat \<Rightarrow> nat \<Rightarrow> bool" where
  "table_fits d t n \<longleftrightarrow> (\<forall>i < n. unat (m_huff_code_sizes d ! t ! i) \<le> 15
     \<and> unat (m_huff_codes d ! t ! i) < 2 ^ unat (m_huff_code_sizes d ! t ! i))"

lemma output_only_tables:
  assumes "output_only d d'"
  shows "symbol_bits d' t i = symbol_bits d t i" "table_fits d' t n = table_fits d t n" "lz_code_bits d' c = lz_code_bits d c"
proof -
  have s: "symbol_bits d' t i = symbol_bits d t i" for t i
    using output_only_fields [OF assms] by (simp add: symbol_bits_def)
  then show "symbol_bits d' t i = symbol_bits d t i" .
  show "table_fits d' t n = table_fits d t n" using output_only_fields [OF assms] by (simp add: table_fits_def)
  show "lz_code_bits d' c = lz_code_bits d c" by (cases c) (simp_all add: s)
qed

lemma unat_ucast_u8: "unat (ucast (x :: u8) :: u32) = unat x"
proof -
  have "unat x < 2 ^ LENGTH(8)" by (rule unsigned_less)
  then show ?thesis by (simp add: unsigned_ucast_eq take_bit_nat_eq_self)
qed

lemma unat_ucast_u16: "unat (ucast (x :: u16) :: u32) = unat x"
proof -
  have "unat x < 2 ^ LENGTH(16)" by (rule unsigned_less)
  then show ?thesis by (simp add: unsigned_ucast_eq take_bit_nat_eq_self)
qed

lemma code_bits_nat: "code_bits c n = nat_bits (unat c) n"
proof (cases "n \<le> 16")
  case True
  have "bit c i = bit (unat c) i" for i
    by (cases "i < 16") (simp_all only: bit_unsigned_iff possible_bit_nat simp_thms)
  then show ?thesis by (simp add: code_bits_def nat_bits_def)
next
  case False
  have "bit c i = bit (unat c) i" for i by (simp only: bit_unsigned_iff possible_bit_nat simp_thms)
  then show ?thesis by (simp add: code_bits_def nat_bits_def)
qed

lemma put_symbol_writes:
  assumes "bits_ok d" "table_fits d t n" "i < n"
  shows "writes d (put_symbol t i d) (symbol_bits d t i)"
proof -
  let ?s = "m_huff_code_sizes d ! t ! i" and ?c = "m_huff_codes d ! t ! i"
  have u: "unat (ucast ?s :: u32) = unat ?s" "unat (ucast ?c :: u32) = unat ?c" by (simp_all only: unat_ucast_u8 unat_ucast_u16)
  have f: "unat ?s \<le> 15" "unat ?c < 2 ^ unat ?s" using assms(2,3) by (simp_all add: table_fits_def)
  have "writes d (TDEFL_PUT_BITS (ucast ?c) (ucast ?s) d) (nat_bits (unat (ucast ?c :: u32)) (unat (ucast ?s :: u32)))"
    using f assms(1) by (intro put_bits_writes) (simp_all only: u)
  then show ?thesis by (simp only: put_symbol_def symbol_bits_def code_bits_nat u)
qed

lemma put_extra_writes:
  assumes "bits_ok d" "unat e \<le> 16"
  shows "writes d (TDEFL_PUT_BITS (x AND mz_bitmasks ! unat e) (ucast e) d) (nat_bits (unat x mod 2 ^ unat e) (unat (e :: u8)))"
proof -
  have u: "unat (ucast e :: u32) = unat e" by (simp only: unat_ucast_u8)
  have "writes d (TDEFL_PUT_BITS (x AND mz_bitmasks ! unat e) (ucast e) d)
      (nat_bits (unat (x AND mz_bitmasks ! unat e)) (unat (ucast e :: u32)))"
    using assms by (intro put_bits_writes) (simp_all only: u low_bits, simp_all)
  then show ?thesis by (simp only: u low_bits [OF assms(2)])
qed

lemma put_match_writes:
  assumes "bits_ok d" "table_fits d 0 288" "table_fits d 1 32" "unat l < 256" "unat q < 32768"
  shows "writes d (put_match l q d) (lz_code_bits d (Match l q))"
proof -
  obtain s e t f where c: "len_code l = (s, e)" "dist_code q = (t, f)" by (metis surj_pair)
  note lb = len_code_bounds [OF assms(4), unfolded c fst_conv snd_conv] and qb = dist_code_bounds [OF assms(5), unfolded c fst_conv snd_conv]
  let ?d1 = "put_symbol 0 (unat s) d"
  let ?d2 = "TDEFL_PUT_BITS (l AND mz_bitmasks ! unat e) (ucast e) ?d1"
  let ?d3 = "put_symbol 1 (unat t) ?d2"
  have w1: "writes d ?d1 (symbol_bits d 0 (unat s))" using lb by (intro put_symbol_writes [OF assms(1,2)]) simp
  have w2: "writes ?d1 ?d2 (nat_bits (unat l mod 2 ^ unat e) (unat e))"
    using lb by (intro put_extra_writes writes_bits_ok [OF w1]) simp
  note w12 = writes_trans [OF w1 w2] and same = output_only_tables [OF writes_output_only [OF writes_trans [OF w1 w2]]]
  have w3: "writes ?d2 ?d3 (symbol_bits d 1 (unat t))"
    using put_symbol_writes [OF writes_bits_ok [OF w2], of 1 32 "unat t"] assms(3) qb by (simp add: same)
  have w4: "writes ?d3 (TDEFL_PUT_BITS (q AND mz_bitmasks ! unat f) (ucast f) ?d3) (nat_bits (unat q mod 2 ^ unat f) (unat f))"
    using qb by (intro put_extra_writes writes_bits_ok [OF w3]) simp
  show ?thesis
    using writes_trans [OF w12 writes_trans [OF w3 w4]] by (simp add: put_match_def Let_def c)
qed

lemma put_lz_code_writes:
  assumes "bits_ok d" "table_fits d 0 288" "table_fits d 1 32" "code_ok c"
  shows "writes d (put_lz_code d c) (lz_code_bits d c)"
proof (cases c)
  case (Literal b)
  have "unat b < 2 ^ LENGTH(8)" by (rule unsigned_less)
  then have "unat b < 288" by simp
  then show ?thesis using Literal put_symbol_writes [OF assms(1,2)] by simp
next
  case (Match l q)
  then show ?thesis using put_match_writes [OF assms(1-3)] assms(4) by simp
qed

lemma put_lz_codes_writes:
  assumes "bits_ok d" "table_fits d 0 288" "table_fits d 1 32" "list_all code_ok cs"
  shows "writes d (foldl put_lz_code d cs) (concat (map (lz_code_bits d) cs))"
  using assms
proof (induction cs arbitrary: d)
  case Nil
  then show ?case by (simp add: writes_Nil)
next
  case (Cons c cs)
  have w: "writes d (put_lz_code d c) (lz_code_bits d c)" using Cons.prems by (intro put_lz_code_writes) simp_all
  note same = output_only_tables [OF writes_output_only [OF w]]
  have "writes (put_lz_code d c) (foldl put_lz_code (put_lz_code d c) cs) (concat (map (lz_code_bits (put_lz_code d c)) cs))"
    using Cons.prems by (intro Cons.IH writes_bits_ok [OF w]) (simp_all add: same)
  then show ?case using writes_trans [OF w] by (simp add: same(3) [abs_def] cong: map_cong)
qed

text \<open>A buffer that holds the codes \<open>cs\<close> is written as their bits and the end of block.\<close>

definition holds_codes :: "tdefl_compressor \<Rightarrow> lz_code list \<Rightarrow> bool" where
  "holds_codes d cs \<longleftrightarrow> take (m_pLZ_code_buf d) (m_lz_code_buf d) = lz_bytes cs
     \<and> m_pLZ_code_buf d \<le> length (m_lz_code_buf d) \<and> list_all code_ok cs"

lemma compress_lz_codes_writes:
  assumes "bits_ok d" "table_fits d 0 288" "table_fits d 1 32" "holds_codes d cs"
  shows "writes d (fst (tdefl_compress_lz_codes d)) (concat (map (lz_code_bits d) cs) @ symbol_bits d 0 256)"
    "snd (tdefl_compress_lz_codes d) = (m_pOutput_buf (fst (tdefl_compress_lz_codes d)) < m_pOutput_buf_end d)"
proof -
  let ?d = "foldl put_lz_code d cs"
  have f: "flags_ok 1 0 []"
  proof -
    have "bit (1 :: u32) n = (n = 0)" for n by (cases n) (simp_all add: bit_1_iff)
    then show ?thesis unfolding flags_ok_def by (simp only:) simp
  qed
  have run: "lz_codes_loop 1 0 d = ?d"
    using lz_codes_loop_spec [of 0 d "[]" cs 1 0] f assms(4) by (simp add: holds_codes_def codes_bytes_def)
  have w: "writes d ?d (concat (map (lz_code_bits d) cs))"
    using assms by (intro put_lz_codes_writes) (simp_all add: holds_codes_def)
  note same = output_only_tables [OF writes_output_only [OF w]]
  have "writes ?d (put_symbol 0 256 ?d) (symbol_bits d 0 256)"
    using put_symbol_writes [OF writes_bits_ok [OF w], of 0 288 256] assms(2) by (simp add: same)
  then have w': "writes d (put_symbol 0 256 ?d) (concat (map (lz_code_bits d) cs) @ symbol_bits d 0 256)"
    by (rule writes_trans [OF w])
  moreover have result: "tdefl_compress_lz_codes d = (put_symbol 0 256 ?d, m_pOutput_buf (put_symbol 0 256 ?d) < m_pOutput_buf_end (put_symbol 0 256 ?d))"
    by (simp only: tdefl_compress_lz_codes_def run Let_def)
  ultimately show "writes d (fst (tdefl_compress_lz_codes d)) (concat (map (lz_code_bits d) cs) @ symbol_bits d 0 256)"
    by (simp only: fst_conv)
  show "snd (tdefl_compress_lz_codes d) = (m_pOutput_buf (fst (tdefl_compress_lz_codes d)) < m_pOutput_buf_end d)"
    by (simp only: result fst_conv snd_conv output_only_fields(9) [OF writes_output_only [OF w']])
qed

subsection \<open>What was recorded\<close>

text \<open>The flags of the current codes \<open>ps\<close> are the top bits of the flag byte.\<close>

definition marks :: "u8 \<Rightarrow> lz_code list \<Rightarrow> bool" where
  "marks b ps \<longleftrightarrow> (\<forall>i < length ps. bit b (8 - length ps + i) = is_match (ps ! i))"

definition recorded :: "tdefl_compressor \<Rightarrow> lz_code list \<Rightarrow> bool" where
  "recorded d cs \<longleftrightarrow> list_all code_ok cs \<and> (\<exists>fs ps. cs = fs @ ps \<and> 8 dvd length fs \<and> length ps < 8
     \<and> unat (m_num_flags_left d) = 8 - length ps \<and> m_pLZ_flags d = length (lz_bytes fs)
     \<and> m_pLZ_code_buf d = m_pLZ_flags d + 1 + length (codes_bytes ps) \<and> m_pLZ_code_buf d \<le> length (m_lz_code_buf d)
     \<and> take (m_pLZ_flags d) (m_lz_code_buf d) = lz_bytes fs
     \<and> drop (m_pLZ_flags d + 1) (take (m_pLZ_code_buf d) (m_lz_code_buf d)) = codes_bytes ps
     \<and> marks (m_lz_code_buf d ! m_pLZ_flags d) ps)"

definition mark_of :: "lz_code \<Rightarrow> u8" where
  "mark_of c = (if is_match c then 128 else 0)"

lemma bit_mark_of: "bit (mark_of c) n = (n = 7 \<and> is_match c)"
proof -
  have "bit (2 ^ 7 :: u8) n = (n = 7)" by (simp only: bit_exp_iff possible_bit_word) auto
  moreover have "(2 ^ 7 :: u8) = 128" by simp
  ultimately have "bit (128 :: u8) n = (n = 7)" by (simp only:)
  then show ?thesis by (cases "is_match c") (simp_all only: mark_of_def if_True if_False simp_thms bit_0_eq bot_fun_def bot_bool_def)
qed

lemma marks_step:
  assumes "marks b ps" "length ps < 8"
  shows "marks (drop_bit 1 b OR mark_of c) (ps @ [c])"
proof -
  have b: "bit (drop_bit 1 b OR mark_of c) n = (bit b (Suc n) \<or> n = 7 \<and> is_match c)" for n
    by (simp only: bit_or_iff bit_drop_bit_eq bit_mark_of comp_def plus_1_eq_Suc)
  have hi: "\<not> bit b 8" using bit_imp_le_length [of b 8] by auto
  have "bit (drop_bit 1 b OR mark_of c) (8 - length (ps @ [c]) + i) = is_match ((ps @ [c]) ! i)" if "i < length (ps @ [c])" for i
  proof (cases "i < length ps")
    case True
    then have "Suc (8 - length (ps @ [c]) + i) = 8 - length ps + i" "8 - length (ps @ [c]) + i \<noteq> 7" using assms(2) by auto
    then have "bit (drop_bit 1 b OR mark_of c) (8 - length (ps @ [c]) + i) = bit b (8 - length ps + i)" by (simp only: b simp_thms)
    then show ?thesis using assms(1) True by (simp add: marks_def nth_append)
  next
    case False
    then have i: "i = length ps" using that by simp
    then have "8 - length (ps @ [c]) + i = 7" using assms(2) by simp
    then have "bit (drop_bit 1 b OR mark_of c) (8 - length (ps @ [c]) + i) = (bit b (Suc 7) \<or> is_match c)" by (simp only: b simp_thms)
    then show ?thesis using hi i by simp
  qed
  then show ?thesis unfolding marks_def by blast
qed

lemma marks_flag_byte:
  assumes "marks b ps" "length ps \<le> 8"
  shows "drop_bit (8 - length ps) b = flag_byte ps"
proof (rule bit_word_eqI)
  fix n assume "n < LENGTH(8)"
  have d: "bit (drop_bit (8 - length ps) b) n = bit b (8 - length ps + n)" by (simp only: bit_drop_bit_eq comp_def)
  have "\<not> bit b (8 - length ps + n)" if "length ps \<le> n" using that bit_imp_le_length [of b "8 - length ps + n"] by auto
  then show "bit (drop_bit (8 - length ps) b) n = bit (flag_byte ps) n"
    using assms by (cases "n < length ps") (simp_all only: d flag_byte_bit marks_def, auto)
qed

lemma codes_bytes_append: "codes_bytes (xs @ ys) = codes_bytes xs @ codes_bytes ys"
  by (simp add: codes_bytes_def)

lemma codes_bytes_single [simp]: "codes_bytes [c] = code_bytes c"
  by (simp add: codes_bytes_def)

lemma lz_bytes_chunk: "ps \<noteq> [] \<Longrightarrow> length ps \<le> 8 \<Longrightarrow> lz_bytes ps = flag_byte ps # codes_bytes ps"
  by (subst lz_bytes_rec) simp_all

lemma recorded_step:
  assumes r: "recorded d cs" and ok: "code_ok c"
    and room: "m_pLZ_code_buf d + length (code_bytes c) < length (m_lz_code_buf d)"
    and e: "m_pLZ_flags e = m_pLZ_flags d" "m_num_flags_left e = m_num_flags_left d"
      "m_pLZ_code_buf e = m_pLZ_code_buf d + length (code_bytes c)" "length (m_lz_code_buf e) = length (m_lz_code_buf d)"
      "take (m_pLZ_code_buf e) (m_lz_code_buf e) = take (m_pLZ_code_buf d) (m_lz_code_buf d) @ code_bytes c"
  shows "recorded (record_flag (mark_of c) e) (cs @ [c])"
proof -
  obtain fs ps where cs: "cs = fs @ ps" "8 dvd length fs" "length ps < 8" "unat (m_num_flags_left d) = 8 - length ps"
    and fl: "m_pLZ_flags d = length (lz_bytes fs)" and pc: "m_pLZ_code_buf d = m_pLZ_flags d + 1 + length (codes_bytes ps)"
    and ple: "m_pLZ_code_buf d \<le> length (m_lz_code_buf d)"
    and tk: "take (m_pLZ_flags d) (m_lz_code_buf d) = lz_bytes fs"
      "drop (m_pLZ_flags d + 1) (take (m_pLZ_code_buf d) (m_lz_code_buf d)) = codes_bytes ps"
    and mk: "marks (m_lz_code_buf d ! m_pLZ_flags d) ps" and all: "list_all code_ok cs"
    using r unfolding recorded_def by blast
  let ?f = "m_pLZ_flags d" and ?p = "m_pLZ_code_buf e"
  let ?b = "(m_lz_code_buf e)[?f := drop_bit 1 (m_lz_code_buf e ! ?f) OR mark_of c]"
  have fp: "?f < m_pLZ_code_buf d" using pc by simp
  have same: "take (m_pLZ_code_buf d) (m_lz_code_buf e) = take (m_pLZ_code_buf d) (m_lz_code_buf d)"
  proof -
    have "take (m_pLZ_code_buf d) (m_lz_code_buf e) = take (m_pLZ_code_buf d) (take ?p (m_lz_code_buf e))" using e(3) by (simp add: min_def)
    then show ?thesis using ple by (simp add: e(5))
  qed
  have "m_lz_code_buf e ! ?f = take (m_pLZ_code_buf d) (m_lz_code_buf e) ! ?f" using fp by simp
  then have byte: "m_lz_code_buf e ! ?f = m_lz_code_buf d ! ?f" using fp by (simp add: same)
  have bf: "?b ! ?f = drop_bit 1 (m_lz_code_buf d ! ?f) OR mark_of c" using fp ple e(4) by (simp add: byte)
  have "take ?f (m_lz_code_buf e) = take ?f (take (m_pLZ_code_buf d) (m_lz_code_buf e))" using fp by (simp add: min_def)
  then have b1: "take ?f ?b = lz_bytes fs" using fp tk(1) by (simp add: same min_def)
  have b2: "drop (?f + 1) (take ?p ?b) = codes_bytes (ps @ [c])"
  proof -
    have "drop (?f + 1) (take ?p ?b) = drop (?f + 1) (take ?p (m_lz_code_buf e))" by (simp add: drop_take)
    also have "\<dots> = drop (?f + 1) (take (m_pLZ_code_buf d) (m_lz_code_buf d)) @ code_bytes c" using fp ple by (simp add: e(5))
    finally show ?thesis by (simp only: tk(2) codes_bytes_append codes_bytes_single)
  qed
  have mk': "marks (?b ! ?f) (ps @ [c])" unfolding bf by (rule marks_step [OF mk cs(3)])
  have len: "?p < length ?b" "length ?b = length (m_lz_code_buf d)" "?p = ?f + 1 + length (codes_bytes (ps @ [c]))"
    using room e(3,4) pc by (simp_all add: codes_bytes_append)
  have n: "unat (m_num_flags_left d - 1) = 8 - length (ps @ [c])" using cs(3,4) by (simp add: unat_sub word_le_nat_alt)
  show ?thesis
  proof (cases "length ps = 7")
    case False
    then have "unat (m_num_flags_left d - 1) \<noteq> 0" using n cs(3) by simp
    then have "m_num_flags_left d - 1 \<noteq> 0" by (metis unat_0)
    then have "record_flag (mark_of c) e = e\<lparr>m_lz_code_buf := ?b, m_num_flags_left := m_num_flags_left d - 1\<rparr>"
      by (simp add: record_flag_def e)
    then show ?thesis
      using False cs(1-3) n fl len b1 b2 mk' all ok e
      unfolding recorded_def by (intro conjI exI [of _ fs] exI [of _ "ps @ [c]"]) simp_all
  next
    case True
    then have "unat (m_num_flags_left d - 1) = 0" using n by simp
    then have "m_num_flags_left d - 1 = 0" by (simp only: unat_eq_0)
    then have run: "record_flag (mark_of c) e
        = e\<lparr>m_lz_code_buf := ?b, m_num_flags_left := 8, m_pLZ_flags := ?p, m_pLZ_code_buf := ?p + 1\<rparr>"
      by (simp add: record_flag_def e)
    have "?b ! ?f = flag_byte (ps @ [c])" using marks_flag_byte [OF mk'] True by simp
    moreover have "?f < ?p" using fp e(3) by simp
    ultimately have "take ?p ?b = lz_bytes fs @ flag_byte (ps @ [c]) # codes_bytes (ps @ [c])"
      using id_take_nth_drop [of ?f "take ?p ?b"] len(1) b1 b2 by (simp add: min_def)
    also have "\<dots> = lz_bytes (fs @ (ps @ [c]))"
      using True lz_bytes_append [OF cs(2), of "ps @ [c]"] lz_bytes_chunk [of "ps @ [c]"] by simp
    finally have full: "take ?p ?b = lz_bytes (cs @ [c])" by (simp add: cs(1))
    have "length (take ?p ?b) = ?p" using len(1) by simp
    then have lp: "?p = length (lz_bytes (cs @ [c]))" unfolding full by simp
    have "8 dvd length (cs @ [c])" using cs True by simp
    then show ?thesis
      using full lp len all ok unfolding recorded_def run
      by (intro conjI exI [of _ "cs @ [c]"] exI [of _ "[]"]) (simp_all add: codes_bytes_def marks_def)
  qed
qed

lemma recorded_bump: "recorded (bump t i d) cs = recorded d cs"
  by (simp add: recorded_def bump_def)

lemma recorded_start:
  assumes "m_pLZ_flags d = 0" "m_pLZ_code_buf d = 1" "m_num_flags_left d = 8" "1 \<le> length (m_lz_code_buf d)"
  shows "recorded d []"
  using assms unfolding recorded_def by (intro conjI exI [of _ "[]"]) (simp_all add: codes_bytes_def marks_def)

lemma record_literal_recorded:
  assumes "recorded d cs" "m_pLZ_code_buf d + 1 < length (m_lz_code_buf d)"
  shows "recorded (tdefl_record_literal lit d) (cs @ [Literal lit])"
proof -
  let ?e = "d\<lparr>m_total_lz_bytes := m_total_lz_bytes d + 1,
    m_lz_code_buf := (m_lz_code_buf d)[m_pLZ_code_buf d := lit], m_pLZ_code_buf := m_pLZ_code_buf d + 1\<rparr>"
  have "recorded (record_flag (mark_of (Literal lit)) ?e) (cs @ [Literal lit])"
    using assms by (intro recorded_step [OF assms(1)]) (simp_all add: take_Suc_conv_app_nth)
  then show ?thesis by (simp add: tdefl_record_literal_def Let_def recorded_bump mark_of_def)
qed

lemma record_match_recorded:
  assumes "recorded d cs" "m_pLZ_code_buf d + 3 < length (m_lz_code_buf d)"
    and "unat (l - 3) < 256" "unat (q - 1) < 32768"
  shows "recorded (tdefl_record_match l q d) (cs @ [Match (l - 3) (q - 1)])"
proof -
  let ?p = "m_pLZ_code_buf d"
  let ?e = "d\<lparr>m_total_lz_bytes := m_total_lz_bytes d + l,
    m_lz_code_buf := (m_lz_code_buf d)[?p := ucast (l - 3), ?p + 1 := ucast ((q - 1) AND 255),
                  ?p + 2 := ucast (drop_bit 8 (q - 1))], m_pLZ_code_buf := ?p + 3\<rparr>"
  have three: "take (?p + 3) (xs[?p := a, ?p + 1 := b, ?p + 2 := c]) = take ?p xs @ [a, b, c]"
    if "?p + 3 < length xs" for xs :: "u8 list" and a b c
    using that by (simp add: numeral_3_eq_3 take_Suc_conv_app_nth)
  have "recorded (record_flag (mark_of (Match (l - 3) (q - 1))) ?e) (cs @ [Match (l - 3) (q - 1)])"
    using assms(2-4) three [of "m_lz_code_buf d"] by (intro recorded_step [OF assms(1)]) simp_all
  then show ?thesis by (simp add: tdefl_record_match_def Let_def recorded_bump mark_of_def)
qed

text \<open>After the flag byte is moved into place the buffer holds the recorded codes.\<close>

lemma flush_flags_holds:
  assumes "recorded d cs"
  shows "holds_codes (flush_flags d) cs"
proof -
  obtain fs ps where cs: "cs = fs @ ps" "8 dvd length fs" "length ps < 8" "unat (m_num_flags_left d) = 8 - length ps"
    and fl: "m_pLZ_flags d = length (lz_bytes fs)" and pc: "m_pLZ_code_buf d = m_pLZ_flags d + 1 + length (codes_bytes ps)"
    and ple: "m_pLZ_code_buf d \<le> length (m_lz_code_buf d)"
    and tk: "take (m_pLZ_flags d) (m_lz_code_buf d) = lz_bytes fs"
      "drop (m_pLZ_flags d + 1) (take (m_pLZ_code_buf d) (m_lz_code_buf d)) = codes_bytes ps"
    and mk: "marks (m_lz_code_buf d ! m_pLZ_flags d) ps" and all: "list_all code_ok cs"
    using assms unfolding recorded_def by blast
  let ?f = "m_pLZ_flags d" and ?p = "m_pLZ_code_buf d"
  let ?b = "(m_lz_code_buf d)[?f := drop_bit (unat (m_num_flags_left d)) (m_lz_code_buf d ! ?f)]"
  have eight: "(m_num_flags_left d = 8) = (ps = [])"
  proof -
    have "(m_num_flags_left d = 8) = (unat (m_num_flags_left d) = 8)" by (simp add: word_unat_eq_iff)
    also have "\<dots> = (length ps = 0)" using cs(3,4) by arith
    finally show ?thesis by simp
  qed
  have b1: "take ?f ?b = lz_bytes fs" by (simp add: tk(1))
  show ?thesis
  proof (cases "ps = []")
    case True
    then have "?p - 1 = ?f" using pc by (simp add: codes_bytes_def)
    then show ?thesis
      using True eight all cs(1) b1 ple pc unfolding holds_codes_def flush_flags_def by simp
  next
    case False
    have fp: "?f < ?p" using pc by simp
    have "?b ! ?f = flag_byte ps" using marks_flag_byte [OF mk] cs(3,4) fp ple by simp
    moreover have "drop (?f + 1) (take ?p ?b) = codes_bytes ps" using tk(2) by (simp add: drop_take)
    ultimately have "take ?p ?b = lz_bytes fs @ flag_byte ps # codes_bytes ps"
      using id_take_nth_drop [of ?f "take ?p ?b"] fp ple b1 by (simp add: min_def)
    also have "\<dots> = lz_bytes cs"
      using cs(1,3) lz_bytes_append [OF cs(2), of ps] lz_bytes_chunk [OF False] by simp
    finally show ?thesis using False eight all ple by (simp add: holds_codes_def flush_flags_def)
  qed
qed

text \<open>The functions the parser records with, as one operation, and a whole block.\<close>

fun record_code :: "tdefl_compressor \<Rightarrow> lz_code \<Rightarrow> tdefl_compressor" where
  "record_code d (Literal b) = tdefl_record_literal b d"
| "record_code d (Match l q) = tdefl_record_match (l + 3) (q + 1) d"

lemma record_code_room: "length (m_lz_code_buf (record_code d c)) = length (m_lz_code_buf d)"
  "m_pLZ_code_buf (record_code d c) \<le> m_pLZ_code_buf d + 4"
  by (cases c; simp add: tdefl_record_literal_def tdefl_record_match_def record_flag_def bump_def Let_def)+

lemma record_code_recorded:
  assumes "recorded d cs" "m_pLZ_code_buf d + 3 < length (m_lz_code_buf d)" "code_ok c"
  shows "recorded (record_code d c) (cs @ [c])"
proof (cases c)
  case (Literal b)
  then show ?thesis using assms record_literal_recorded [OF assms(1)] by simp
next
  case (Match l q)
  then show ?thesis using assms(3) record_match_recorded [OF assms(1,2), of "l + 3" "q + 1"] by simp
qed

lemma record_codes_recorded:
  "recorded d bs \<Longrightarrow> m_pLZ_code_buf d + 4 * length cs \<le> length (m_lz_code_buf d) \<Longrightarrow> list_all code_ok cs
    \<Longrightarrow> recorded (foldl record_code d cs) (bs @ cs)"
proof (induction cs arbitrary: d bs)
  case (Cons c cs)
  have "recorded (record_code d c) (bs @ [c])" using Cons.prems by (intro record_code_recorded) simp_all
  then show ?case using Cons.IH [of "record_code d c" "bs @ [c]"] Cons.prems record_code_room [of d c] by simp
qed simp

lemma tables_of_code_buffer:
  assumes "m_huff_codes e = m_huff_codes d" "m_huff_code_sizes e = m_huff_code_sizes d"
  shows "symbol_bits e t i = symbol_bits d t i" "table_fits e t n = table_fits d t n" "lz_code_bits e c = lz_code_bits d c"
proof -
  have s: "symbol_bits e t i = symbol_bits d t i" for t i using assms by (simp add: symbol_bits_def)
  then show "symbol_bits e t i = symbol_bits d t i" .
  show "table_fits e t n = table_fits d t n" using assms by (simp add: table_fits_def)
  show "lz_code_bits e c = lz_code_bits d c" by (cases c) (simp_all add: s)
qed

lemma flush_flags_writer:
  "bits_ok (flush_flags d) = bits_ok d" "out_bits (flush_flags d) = out_bits d"
  "m_pOutput_buf_end (flush_flags d) = m_pOutput_buf_end d"
  "m_huff_codes (flush_flags d) = m_huff_codes d" "m_huff_code_sizes (flush_flags d) = m_huff_code_sizes d"
  by (simp_all add: flush_flags_def bits_ok_def out_bits_def)

text \<open>What the parser recorded is what the block contains: after any sequence of literals and
  matches has been recorded, \<open>tdefl_compress_lz_codes\<close>, when it reports success, has appended to the
  output exactly the symbols and extra bits of that sequence, in its order, and the end-of-block symbol.\<close>

theorem compress_lz_codes_writes_recorded:
  assumes "m_pLZ_flags d = 0" "m_pLZ_code_buf d = 1" "m_num_flags_left d = 8"
    and "1 + 4 * length cs \<le> length (m_lz_code_buf d)" "list_all code_ok cs"
    and "e = flush_flags (foldl record_code d cs)" "bits_ok e" "table_fits e 0 288" "table_fits e 1 32"
    and "tdefl_compress_lz_codes e = (d', True)"
  shows "bits_ok d' \<and> out_bits d' = out_bits e @ concat (map (lz_code_bits e) cs) @ symbol_bits e 0 256"
proof -
  have "recorded (foldl record_code d cs) ([] @ cs)"
    using assms(1-5) by (intro record_codes_recorded recorded_start) simp_all
  then have "holds_codes e cs" using assms(6) flush_flags_holds by simp
  note w = compress_lz_codes_writes [OF assms(7-9) this]
  then show ?thesis using assms(10) unfolding writes_def by simp
qed

definition demo_codes :: tdefl_compressor where
  "demo_codes = \<lparr>m_huff_count = [replicate 288 0, replicate 288 0, []],
    m_huff_codes = [replicate 288 1, replicate 288 1, []], m_huff_code_sizes = [replicate 288 1, replicate 288 1, []],
    m_lz_code_buf = [0, 0, 0, 0, 0, 0, 0, 0, 0, 0], m_pLZ_code_buf = 1, m_pLZ_flags = 0, m_num_flags_left = 8,
    m_total_lz_bytes = 0, m_bits_in = 0, m_bit_buffer = 0, m_output_buf = [0, 0, 0], m_pOutput_buf = 0, m_pOutput_buf_end = 3\<rparr>"

lemma compress_lz_codes_writes_recorded_witness:
  "\<exists>d'. tdefl_compress_lz_codes (flush_flags (foldl record_code demo_codes [Literal 65, Match 2 0])) = (d', True)
    \<and> out_bits d' = [True, True, True, True]"
proof -
  let ?cs = "[Literal 65, Match 2 0]"
  let ?e = "flush_flags (foldl record_code demo_codes ?cs)"
  have "snd (tdefl_compress_lz_codes ?e)" by code_simp
  then obtain d' where d': "tdefl_compress_lz_codes ?e = (d', True)" by (metis surjective_pairing)
  have tabs: "m_huff_codes ?e = m_huff_codes demo_codes" "m_huff_code_sizes ?e = m_huff_code_sizes demo_codes"
    by (code_simp, code_simp)
  have fits: "table_fits ?e 0 288" "table_fits ?e 1 32"
    unfolding table_fits_def tabs by (simp_all add: demo_codes_def)
  have bo: "bits_ok ?e" by (simp add: bits_ok_def) code_simp
  have "out_bits ?e = []" by code_simp
  moreover have "concat (map (lz_code_bits ?e) ?cs) @ symbol_bits ?e 0 256 = [True, True, True, True]" by code_simp
  moreover have "bits_ok d' \<and> out_bits d' = out_bits ?e @ concat (map (lz_code_bits ?e) ?cs) @ symbol_bits ?e 0 256"
    using bo fits d' by (intro compress_lz_codes_writes_recorded [where d = demo_codes and cs = ?cs]) (simp_all add: demo_codes_def)
  ultimately show ?thesis using d' by simp
qed

end
