(* ===== verification/DeflRle.thy ===== *)
theory DeflRle
  imports DeflLz
begin

text \<open>
  The run lengths of the code sizes in the header of a dynamic block
  (src/packages/miniz/src/main/c/miniz.c): the macros \<open>TDEFL_RLE_PREV_CODE_SIZE\<close> and
  \<open>TDEFL_RLE_ZERO_CODE_SIZE\<close>, the loop of \<open>tdefl_start_dynamic_block\<close> around them, and the loop of the
  decompressor that expands what they pack.
\<close>

subsection \<open>Packing\<close>

text \<open>The local variables of the loop; \<open>packed_code_sizes\<close> is as long as \<open>num_packed_code_sizes\<close> says, and
  \<open>rle_counts\<close> is \<open>m_huff_count[2]\<close>.\<close>

record rle =
  rle_counts :: "u16 list"
  packed_code_sizes :: "u8 list"
  rle_z_count :: u32
  rle_repeat_count :: u32
  prev_code_size :: u8

definition add_count :: "nat \<Rightarrow> u16 \<Rightarrow> rle \<Rightarrow> rle" where
  "add_count i n s = s\<lparr>rle_counts := (rle_counts s)[i := rle_counts s ! i + n]\<rparr>"

definition pack :: "u8 list \<Rightarrow> rle \<Rightarrow> rle" where
  "pack bs s = s\<lparr>packed_code_sizes := packed_code_sizes s @ bs\<rparr>"

definition TDEFL_RLE_PREV_CODE_SIZE :: "rle \<Rightarrow> rle" where
  "TDEFL_RLE_PREV_CODE_SIZE s =
     (if rle_repeat_count s \<noteq> 0 then
        (let n = rle_repeat_count s;
             s = (if n < 3 then
                    pack (replicate (unat n) (prev_code_size s)) (add_count (unat (prev_code_size s)) (ucast n) s)
                  else pack [16, ucast (n - 3)] (add_count 16 1 s))
         in s\<lparr>rle_repeat_count := 0\<rparr>)
      else s)"

definition TDEFL_RLE_ZERO_CODE_SIZE :: "rle \<Rightarrow> rle" where
  "TDEFL_RLE_ZERO_CODE_SIZE s =
     (if rle_z_count s \<noteq> 0 then
        (let n = rle_z_count s;
             s = (if n < 3 then pack (replicate (unat n) 0) (add_count 0 (ucast n) s)
                  else if n \<le> 10 then pack [17, ucast (n - 3)] (add_count 17 1 s)
                  else pack [18, ucast (n - 11)] (add_count 18 1 s))
         in s\<lparr>rle_z_count := 0\<rparr>)
      else s)"

definition rle_step :: "u8 \<Rightarrow> rle \<Rightarrow> rle" where
  "rle_step code_size s =
     (let s =
        (if code_size = 0 then
           (let s = TDEFL_RLE_PREV_CODE_SIZE s; s = s\<lparr>rle_z_count := rle_z_count s + 1\<rparr>
            in if rle_z_count s = 138 then TDEFL_RLE_ZERO_CODE_SIZE s else s)
         else
           (let s = TDEFL_RLE_ZERO_CODE_SIZE s in
            if code_size \<noteq> prev_code_size s then
              pack [code_size] (add_count (unat code_size) 1 (TDEFL_RLE_PREV_CODE_SIZE s))
            else
              (let s = s\<lparr>rle_repeat_count := rle_repeat_count s + 1\<rparr>
               in if rle_repeat_count s = 6 then TDEFL_RLE_PREV_CODE_SIZE s else s)))
      in s\<lparr>prev_code_size := code_size\<rparr>)"

definition pack_code_sizes :: "u16 list \<Rightarrow> u8 list \<Rightarrow> rle" where
  "pack_code_sizes counts code_sizes_to_pack =
     (let s = fold rle_step code_sizes_to_pack
                \<lparr>rle_counts = counts, packed_code_sizes = [], rle_z_count = 0, rle_repeat_count = 0, prev_code_size = 255\<rparr>
      in if rle_repeat_count s \<noteq> 0 then TDEFL_RLE_PREV_CODE_SIZE s else TDEFL_RLE_ZERO_CODE_SIZE s)"

subsection \<open>Unpacking\<close>

text \<open>The loop of the decompressor, on the symbols and extra bits it reads: \<open>n\<close> sizes are expected, \<open>len_codes\<close>
  are those read.  The result has the input that is left.\<close>

function inflate_code_sizes :: "nat \<Rightarrow> u8 list \<Rightarrow> u8 list \<Rightarrow> (u8 list \<times> u8 list) option" where
  "inflate_code_sizes n input len_codes =
     (if length len_codes < n then
        (case input of
           [] \<Rightarrow> None
         | s # input \<Rightarrow>
           if s < 16 then inflate_code_sizes n input (len_codes @ [s])
           else if s = 16 \<and> len_codes = [] then None
           else
             (case input of
                [] \<Rightarrow> None
              | extra # input \<Rightarrow>
                inflate_code_sizes n input
                  (len_codes @ replicate (unat extra + [3, 3, 11] ! unat (s - 16)) (if s = 16 then last len_codes else 0))))
      else if length len_codes = n then Some (len_codes, input) else None)"
  by pat_completeness auto
termination by (relation "measure (\<lambda>(n, input, len_codes). length input)") auto

declare inflate_code_sizes.simps [simp del]

subsection \<open>Packed sizes as a list of items\<close>

text \<open>An item is a symbol of the code-size alphabet and its extra bits.\<close>

fun item_bytes :: "nat \<times> nat \<Rightarrow> u8 list" where
  "item_bytes (s, e) = (if s < 16 then [of_nat s] else [of_nat s, of_nat e])"

text \<open>How many extra bits a symbol has.\<close>

definition extra_of :: "nat \<Rightarrow> nat" where
  "extra_of s = (if s < 16 then 0 else [2, 3, 7] ! (s - 16))"

inductive expands :: "(nat \<times> nat) list \<Rightarrow> u8 list \<Rightarrow> bool" where
  none: "expands [] []"
| size: "expands its out \<Longrightarrow> s < 16 \<Longrightarrow> expands (its @ [(s, 0)]) (out @ [of_nat s])"
| repeat: "expands its out \<Longrightarrow> out \<noteq> [] \<Longrightarrow> e < 4 \<Longrightarrow> expands (its @ [(16, e)]) (out @ replicate (e + 3) (last out))"
| zeros: "expands its out \<Longrightarrow> e < 8 \<Longrightarrow> expands (its @ [(17, e)]) (out @ replicate (e + 3) 0)"
| many: "expands its out \<Longrightarrow> e < 128 \<Longrightarrow> expands (its @ [(18, e)]) (out @ replicate (e + 11) 0)"

definition items_bytes :: "(nat \<times> nat) list \<Rightarrow> u8 list" where
  "items_bytes its = concat (map item_bytes its)"

lemma items_bytes_simps [simp]: "items_bytes [] = []" "items_bytes (its @ [i]) = items_bytes its @ item_bytes i"
  by (simp_all add: items_bytes_def)

lemma expands_items:
  "expands its out \<Longrightarrow> length its \<le> length out \<and> (\<forall>(s, e) \<in> set its. s < 19 \<and> e < 2 ^ extra_of s) \<and> length (items_bytes its) \<le> length out"
  by (induction rule: expands.induct) (auto simp: extra_of_def)

text \<open>The decompressor expands the items.\<close>

lemma inflate_expands:
  "expands its out \<Longrightarrow> length out \<le> n \<Longrightarrow> inflate_code_sizes n (items_bytes its @ rst) [] = inflate_code_sizes n rst out"
proof (induction arbitrary: rst rule: expands.induct)
  case (size its out s)
  have "(of_nat s :: u8) < 16" using size.hyps by (simp add: word_less_nat_alt unat_of_nat)
  then have "inflate_code_sizes n (of_nat s # rst) out = inflate_code_sizes n rst (out @ [of_nat s])"
    using size.prems by (subst inflate_code_sizes.simps) simp
  then show ?case using size by simp
next
  case (repeat its out e)
  have "unat (of_nat e :: u8) = e" using repeat.hyps by (simp add: unat_of_nat)
  then have "inflate_code_sizes n (16 # of_nat e # rst) out = inflate_code_sizes n rst (out @ replicate (e + 3) (last out))"
    using repeat.prems repeat.hyps by (subst inflate_code_sizes.simps) simp
  then show ?case using repeat by simp
next
  case (zeros its out e)
  have "unat (of_nat e :: u8) = e" using zeros.hyps by (simp add: unat_of_nat)
  then have "inflate_code_sizes n (17 # of_nat e # rst) out = inflate_code_sizes n rst (out @ replicate (e + 3) 0)"
    using zeros.prems by (subst inflate_code_sizes.simps) simp
  then show ?case using zeros by simp
next
  case (many its out e)
  have "unat (of_nat e :: u8) = e" using many.hyps by (simp add: unat_of_nat)
  then have "inflate_code_sizes n (18 # of_nat e # rst) out = inflate_code_sizes n rst (out @ replicate (e + 11) 0)"
    using many.prems by (subst inflate_code_sizes.simps) simp
  then show ?case using many by simp
qed simp

subsection \<open>What the loop packs\<close>

text \<open>The bytes packed so far are the items \<open>its\<close>, which expand to \<open>out\<close> and are counted.\<close>

definition packs :: "u16 list \<Rightarrow> rle \<Rightarrow> (nat \<times> nat) list \<Rightarrow> u8 list \<Rightarrow> bool" where
  "packs c s its out \<longleftrightarrow> expands its out \<and> packed_code_sizes s = items_bytes its \<and> 19 \<le> length c
     \<and> length (rle_counts s) = length c
     \<and> (\<forall>i < length c. rle_counts s ! i = c ! i + of_nat (count_list (map fst its) i))"

lemma packs_rest [simp]:
  "packs c (s\<lparr>rle_z_count := z\<rparr>) its out = packs c s its out"
  "packs c (s\<lparr>rle_repeat_count := r\<rparr>) its out = packs c s its out"
  "packs c (s\<lparr>prev_code_size := p\<rparr>) its out = packs c s its out"
  by (simp_all add: packs_def)

lemma pack_fields [simp]:
  "rle_z_count (pack bs s) = rle_z_count s" "rle_repeat_count (pack bs s) = rle_repeat_count s"
  "prev_code_size (pack bs s) = prev_code_size s" "rle_z_count (add_count i n s) = rle_z_count s"
  "rle_repeat_count (add_count i n s) = rle_repeat_count s" "prev_code_size (add_count i n s) = prev_code_size s"
  by (simp_all add: pack_def add_count_def)

lemma expands_sizes: "expands its out \<Longrightarrow> k < 16 \<Longrightarrow> expands (its @ replicate n (k, 0)) (out @ replicate n (of_nat k))"
proof (induction n)
  case (Suc n)
  then have "expands ((its @ replicate n (k, 0)) @ [(k, 0)]) ((out @ replicate n (of_nat k)) @ [of_nat k])"
    by (intro expands.size) simp_all
  then show ?case by (simp only: append_assoc replicate_append_same replicate_Suc)
qed simp

lemma count_list_replicate: "count_list (replicate n x) y = (if y = x then n else 0)"
  by (induction n) auto

lemma packs_sizes:
  assumes "packs c s its out" "v < 16"
  shows "\<exists>its'. packs c (pack (replicate n v) (add_count (unat v) (of_nat n) s)) its' (out @ replicate n v)"
proof (rule exI)
  let ?its = "its @ replicate n (unat v, 0)"
  have v: "unat v < 16" "of_nat (unat v) = v" using assms(2) by (simp_all add: word_less_nat_alt)
  have "expands ?its (out @ replicate n v)"
    using expands_sizes [of its out "unat v" n] assms(1) v by (simp add: packs_def)
  moreover have "items_bytes ?its = items_bytes its @ replicate n v"
    using v by (simp add: items_bytes_def concat_replicate_trivial flip: map_replicate_const)
  ultimately show "packs c (pack (replicate n v) (add_count (unat v) (of_nat n) s)) ?its (out @ replicate n v)"
    using assms(1) v(1) by (simp add: packs_def pack_def add_count_def nth_list_update count_list_replicate)
qed

lemma packs_item:
  assumes "packs c s its out" "expands (its @ [(k, e)]) out'" "16 \<le> k" "k < 19"
  shows "\<exists>its'. packs c (pack [of_nat k, of_nat e] (add_count k 1 s)) its' out'"
  using assms by (intro exI [of _ "its @ [(k, e)]"]) (simp add: packs_def pack_def add_count_def nth_list_update)

lemma prev_fields [simp]:
  "rle_repeat_count (TDEFL_RLE_PREV_CODE_SIZE s) = 0" "rle_z_count (TDEFL_RLE_PREV_CODE_SIZE s) = rle_z_count s"
  "prev_code_size (TDEFL_RLE_PREV_CODE_SIZE s) = prev_code_size s"
  by (simp_all add: TDEFL_RLE_PREV_CODE_SIZE_def Let_def)

lemma zero_fields [simp]:
  "rle_z_count (TDEFL_RLE_ZERO_CODE_SIZE s) = 0" "rle_repeat_count (TDEFL_RLE_ZERO_CODE_SIZE s) = rle_repeat_count s"
  "prev_code_size (TDEFL_RLE_ZERO_CODE_SIZE s) = prev_code_size s"
  by (simp_all add: TDEFL_RLE_ZERO_CODE_SIZE_def Let_def)

lemma prev_flush:
  assumes p: "packs c s its out" and r: "unat (rle_repeat_count s) \<le> 6"
    and l: "rle_repeat_count s \<noteq> 0 \<longrightarrow> prev_code_size s < 16 \<and> out \<noteq> [] \<and> last out = prev_code_size s"
  shows "\<exists>its'. packs c (TDEFL_RLE_PREV_CODE_SIZE s) its' (out @ replicate (unat (rle_repeat_count s)) (prev_code_size s))"
proof -
  let ?n = "rle_repeat_count s" and ?p = "prev_code_size s"
  consider "?n = 0" | "?n \<noteq> 0" "?n < 3" | "?n \<noteq> 0" "\<not> ?n < 3" by blast
  then show ?thesis
  proof cases
    case 1
    then show ?thesis using p by (auto simp: TDEFL_RLE_PREV_CODE_SIZE_def)
  next
    case 2
    have "ucast ?n = (of_nat (unat ?n) :: u16)" by simp
    then show ?thesis using 2 l packs_sizes [OF p, of ?p "unat ?n"] by (simp add: TDEFL_RLE_PREV_CODE_SIZE_def Let_def)
  next
    case 3
    then have n3: "3 \<le> unat ?n" by (simp add: word_less_nat_alt not_less)
    then have n: "unat (?n - 3) = unat ?n - 3" by (simp add: unat_sub word_le_nat_alt)
    have "expands (its @ [(16, unat ?n - 3)]) (out @ replicate (unat ?n - 3 + 3) (last out))"
      using p l 3 r by (intro expands.repeat) (auto simp: packs_def)
    then have "\<exists>its'. packs c (pack [of_nat 16, of_nat (unat ?n - 3)] (add_count 16 1 s)) its' (out @ replicate (unat ?n) ?p)"
      using l 3 n3 by (intro packs_item [OF p]) simp_all
    then show ?thesis using 3 by (simp add: TDEFL_RLE_PREV_CODE_SIZE_def Let_def flip: n)
  qed
qed

lemma zero_flush:
  assumes p: "packs c s its out" and z: "unat (rle_z_count s) \<le> 138"
  shows "\<exists>its'. packs c (TDEFL_RLE_ZERO_CODE_SIZE s) its' (out @ replicate (unat (rle_z_count s)) 0)"
proof -
  let ?n = "rle_z_count s"
  consider "?n = 0" | "?n \<noteq> 0" "?n < 3" | "\<not> ?n < 3" "?n \<le> 10" | "\<not> ?n < 3" "\<not> ?n \<le> 10" by blast
  then show ?thesis
  proof cases
    case 1
    then show ?thesis using p by (auto simp: TDEFL_RLE_ZERO_CODE_SIZE_def)
  next
    case 2
    then show ?thesis using packs_sizes [OF p, of 0 "unat ?n"] by (simp add: TDEFL_RLE_ZERO_CODE_SIZE_def Let_def)
  next
    case 3
    then have n3: "3 \<le> unat ?n" "unat ?n \<le> 10" by (simp_all add: word_less_nat_alt word_le_nat_alt not_less)
    then have n: "unat (?n - 3) = unat ?n - 3" by (simp add: unat_sub word_le_nat_alt)
    have "expands (its @ [(17, unat ?n - 3)]) (out @ replicate (unat ?n - 3 + 3) 0)"
      using p n3 by (intro expands.zeros) (auto simp: packs_def)
    then have "\<exists>its'. packs c (pack [of_nat 17, of_nat (unat ?n - 3)] (add_count 17 1 s)) its' (out @ replicate (unat ?n) 0)"
      using n3 by (intro packs_item [OF p]) simp_all
    moreover have "?n \<noteq> 0" using 3 by auto
    ultimately show ?thesis using 3 by (simp add: TDEFL_RLE_ZERO_CODE_SIZE_def Let_def flip: n)
  next
    case 4
    then have n3: "11 \<le> unat ?n" by (simp add: word_less_nat_alt word_le_nat_alt not_le)
    then have n: "unat (?n - 11) = unat ?n - 11" by (simp add: unat_sub word_le_nat_alt)
    have "expands (its @ [(18, unat ?n - 11)]) (out @ replicate (unat ?n - 11 + 11) 0)"
      using p n3 z by (intro expands.many) (auto simp: packs_def)
    then have "\<exists>its'. packs c (pack [of_nat 18, of_nat (unat ?n - 11)] (add_count 18 1 s)) its' (out @ replicate (unat ?n) 0)"
      using n3 by (intro packs_item [OF p]) simp_all
    moreover have "?n \<noteq> 0" using 4 by auto
    ultimately show ?thesis using 4 by (simp add: TDEFL_RLE_ZERO_CODE_SIZE_def Let_def flip: n)
  qed
qed

text \<open>Between two steps: what is packed, and a run that is not packed yet, make up the sizes \<open>xs\<close> seen.\<close>

definition rle_inv :: "u16 list \<Rightarrow> u8 list \<Rightarrow> rle \<Rightarrow> bool" where
  "rle_inv c xs s \<longleftrightarrow> (\<exists>its out. packs c s its out
     \<and> xs = out @ replicate (unat (rle_z_count s)) 0 @ replicate (unat (rle_repeat_count s)) (prev_code_size s))
     \<and> unat (rle_z_count s) < 138 \<and> unat (rle_repeat_count s) < 6
     \<and> prev_code_size s = (if xs = [] then 255 else last xs)
     \<and> (rle_z_count s \<noteq> 0 \<longrightarrow> prev_code_size s = 0) \<and> (rle_repeat_count s \<noteq> 0 \<longrightarrow> prev_code_size s \<noteq> 0)
     \<and> (rle_repeat_count s \<noteq> 0 \<longrightarrow> (\<exists>ys. xs = ys @ replicate (Suc (unat (rle_repeat_count s))) (prev_code_size s)))
     \<and> (\<forall>x \<in> set xs. x < 16)"

text \<open>A run is either of zeros or of another size, and its size is packed already.\<close>

lemma rle_inv_run:
  assumes "rle_inv c xs s"
  obtains its out where "packs c s its out"
    "xs = out @ replicate (unat (rle_z_count s)) 0 @ replicate (unat (rle_repeat_count s)) (prev_code_size s)"
    "rle_z_count s = 0 \<or> rle_repeat_count s = 0"
    "rle_repeat_count s \<noteq> 0 \<longrightarrow> prev_code_size s < 16 \<and> out \<noteq> [] \<and> last out = prev_code_size s"
proof -
  let ?n = "unat (rle_repeat_count s)" and ?p = "prev_code_size s"
  obtain its out where i: "packs c s its out" "xs = out @ replicate (unat (rle_z_count s)) 0 @ replicate ?n ?p"
    using assms unfolding rle_inv_def by blast
  have z: "rle_z_count s = 0 \<or> rle_repeat_count s = 0" using assms unfolding rle_inv_def by blast
  moreover have "?p < 16 \<and> out \<noteq> [] \<and> last out = ?p" if r: "rle_repeat_count s \<noteq> 0"
  proof -
    obtain ys where "xs = ys @ replicate (Suc ?n) ?p" using assms r unfolding rle_inv_def by blast
    then have "xs = (ys @ [?p]) @ replicate ?n ?p" by (simp add: replicate_append_same)
    then have out: "out = ys @ [?p]" using i(2) z r by simp
    then have "?p \<in> set xs" using i(2) by simp
    then show ?thesis using out assms unfolding rle_inv_def by simp
  qed
  ultimately show ?thesis using that i by blast
qed

lemma unat_u32_Suc: "unat n < 200 \<Longrightarrow> unat (n + 1 :: u32) = Suc (unat n)"
  by (simp add: unat_word_ariths)

lemma rle_step_inv:
  assumes inv: "rle_inv c xs s" and x: "x < 16"
  shows "rle_inv c (xs @ [x]) (rle_step x s)"
proof -
  obtain its out where i: "packs c s its out"
    "xs = out @ replicate (unat (rle_z_count s)) 0 @ replicate (unat (rle_repeat_count s)) (prev_code_size s)"
    and zr: "rle_z_count s = 0 \<or> rle_repeat_count s = 0"
    and l: "rle_repeat_count s \<noteq> 0 \<longrightarrow> prev_code_size s < 16 \<and> out \<noteq> [] \<and> last out = prev_code_size s"
    by (rule rle_inv_run [OF inv])
  have b: "unat (rle_z_count s) < 138" "unat (rle_repeat_count s) < 6" "\<forall>x \<in> set xs. x < 16"
    "prev_code_size s = (if xs = [] then 255 else last xs)"
    "rle_z_count s \<noteq> 0 \<longrightarrow> prev_code_size s = 0" using inv unfolding rle_inv_def by blast+
  have xs': "\<forall>y \<in> set (xs @ [x]). y < 16" using b(3) x by simp
  show ?thesis
  proof (cases "x = 0")
    case True
    let ?s1 = "TDEFL_RLE_PREV_CODE_SIZE s"
    obtain its1 where p1: "packs c ?s1 its1 (out @ replicate (unat (rle_repeat_count s)) (prev_code_size s))"
      using prev_flush [OF i(1) _ l] b(2) by auto
    let ?out1 = "out @ replicate (unat (rle_repeat_count s)) (prev_code_size s)"
    let ?s2 = "?s1\<lparr>rle_z_count := rle_z_count s + 1\<rparr>"
    have sz: "unat (rle_z_count s + 1) = Suc (unat (rle_z_count s))" using b(1) by (intro unat_u32_Suc) simp
    have x1: "xs @ [x] = ?out1 @ replicate (unat (rle_z_count ?s2)) 0"
      using i(2) zr True sz by (auto simp: replicate_append_same)
    show ?thesis
    proof (cases "rle_z_count s + 1 = 138")
      case False
      have "unat (rle_z_count s + 1) \<noteq> 138" using False by (simp add: word_unat_eq_iff)
      then have "unat (rle_z_count ?s2) < 138" using sz b(1) by simp
      moreover have "rle_step x s = ?s2\<lparr>prev_code_size := 0\<rparr>" using True False by (simp add: rle_step_def Let_def)
      moreover have "\<exists>its out. packs c ?s2 its out \<and> xs @ [0] = out @ replicate (unat (rle_z_count ?s2)) 0"
        using p1 x1 True by (intro exI [of _ its1] exI [of _ ?out1]) simp
      ultimately show ?thesis using xs' True unfolding rle_inv_def by simp
    next
      case full: True
      obtain its2 where "packs c (TDEFL_RLE_ZERO_CODE_SIZE ?s2) its2 (?out1 @ replicate (unat (rle_z_count ?s2)) 0)"
        using zero_flush [of c ?s2 its1 ?out1] p1 sz b(1) by auto
      moreover have "rle_step x s = (TDEFL_RLE_ZERO_CODE_SIZE ?s2)\<lparr>prev_code_size := 0\<rparr>"
        using True full by (simp add: rle_step_def Let_def)
      moreover from calculation have "\<exists>its out. packs c (TDEFL_RLE_ZERO_CODE_SIZE ?s2) its out \<and> xs @ [0] = out"
        using x1 True by (intro exI [of _ its2]) simp
      ultimately show ?thesis using xs' True unfolding rle_inv_def by simp
    qed
  next
    case False
    let ?s1 = "TDEFL_RLE_ZERO_CODE_SIZE s" and ?out1 = "out @ replicate (unat (rle_z_count s)) 0"
    obtain its1 where p1: "packs c ?s1 its1 ?out1" using zero_flush [OF i(1)] b(1) by auto
    have l1: "rle_repeat_count s \<noteq> 0 \<longrightarrow> prev_code_size s < 16 \<and> ?out1 \<noteq> [] \<and> last ?out1 = prev_code_size s"
      using l zr by auto
    show ?thesis
    proof (cases "x = prev_code_size s")
      case new: False
      let ?s2 = "TDEFL_RLE_PREV_CODE_SIZE ?s1" and ?out2 = "?out1 @ replicate (unat (rle_repeat_count s)) (prev_code_size s)"
      obtain its2 where p2: "packs c ?s2 its2 ?out2"
        using prev_flush [OF p1] l1 b(2) by auto
      obtain its3 where "packs c (pack [x] (add_count (unat x) 1 ?s2)) its3 (?out2 @ [x])"
        using packs_sizes [OF p2 x, of 1] by auto
      moreover have "rle_step x s = (pack [x] (add_count (unat x) 1 ?s2))\<lparr>prev_code_size := x\<rparr>"
        using False new by (simp add: rle_step_def Let_def)
      moreover from calculation have "\<exists>its out. packs c (pack [x] (add_count (unat x) 1 ?s2)) its out \<and> xs @ [x] = out"
        using i(2) by (intro exI [of _ its3]) simp
      ultimately show ?thesis using xs' unfolding rle_inv_def by simp
    next
      case same: True
      then have z0: "rle_z_count s = 0" using b(5) False by auto
      have ne: "xs \<noteq> []" "last xs = x" using b(4) same x by (auto split: if_splits)
      let ?s2 = "?s1\<lparr>rle_repeat_count := rle_repeat_count s + 1\<rparr>"
      have sr: "unat (rle_repeat_count s + 1) = Suc (unat (rle_repeat_count s))" using b(2) by (intro unat_u32_Suc) simp
      have nz: "rle_repeat_count s + 1 \<noteq> 0" using sr by (metis unat_0 nat.simps(3))
      have x1: "xs @ [x] = ?out1 @ replicate (unat (rle_repeat_count s + 1)) x"
        using i(2) z0 same sr by (simp add: replicate_append_same)
      have run: "\<exists>ys. xs @ [x] = ys @ replicate (Suc (unat (rle_repeat_count s + 1))) x"
      proof (cases "rle_repeat_count s = 0")
        case True
        then have "xs @ [x] = butlast xs @ replicate (Suc (unat (rle_repeat_count s + 1))) x"
          using ne sr append_butlast_last_id [OF ne(1)] by simp
        then show ?thesis by blast
      next
        case False
        then obtain ys where "xs = ys @ replicate (Suc (unat (rle_repeat_count s))) x"
          using inv same unfolding rle_inv_def by blast
        then show ?thesis using sr by (auto simp: replicate_append_same)
      qed
      have l2: "prev_code_size s < 16 \<and> out \<noteq> [] \<and> last out = prev_code_size s"
      proof (cases "rle_repeat_count s = 0")
        case True
        then show ?thesis using ne i(2) z0 same x by simp
      qed (use l in blast)
      show ?thesis
      proof (cases "rle_repeat_count s + 1 = 6")
        case False
        have "unat (rle_repeat_count s + 1) \<noteq> 6" using False by (simp add: word_unat_eq_iff)
        then have "unat (rle_repeat_count s + 1) < 6" using sr b(2) by simp
        moreover have "rle_step x s = ?s2\<lparr>prev_code_size := x\<rparr>" using \<open>x \<noteq> 0\<close> same False by (simp add: rle_step_def Let_def)
        moreover have "\<exists>its out. packs c ?s2 its out \<and> xs @ [x] = out @ replicate (unat (rle_repeat_count s + 1)) x"
          using p1 x1 by (intro exI [of _ its1] exI [of _ ?out1]) simp
        ultimately show ?thesis using xs' run \<open>x \<noteq> 0\<close> unfolding rle_inv_def by simp
      next
        case True
        have "unat (rle_repeat_count ?s2) \<le> 6" using True by simp
        then obtain its2 where "packs c (TDEFL_RLE_PREV_CODE_SIZE ?s2) its2 (?out1 @ replicate (unat (rle_repeat_count ?s2)) x)"
          using prev_flush [of c ?s2 its1 ?out1] p1 l2 same z0 by auto
        moreover have "rle_step x s = (TDEFL_RLE_PREV_CODE_SIZE ?s2)\<lparr>prev_code_size := x\<rparr>"
          using \<open>x \<noteq> 0\<close> same True by (simp add: rle_step_def Let_def)
        moreover from calculation have "\<exists>its out. packs c (TDEFL_RLE_PREV_CODE_SIZE ?s2) its out \<and> xs @ [x] = out"
          using x1 by (intro exI [of _ its2]) simp
        ultimately show ?thesis using xs' unfolding rle_inv_def by simp
      qed
    qed
  qed
qed

lemma rle_fold_inv: "rle_inv c xs s \<Longrightarrow> \<forall>y \<in> set ys. y < 16 \<Longrightarrow> rle_inv c (xs @ ys) (fold rle_step ys s)"
proof (induction ys arbitrary: xs s)
  case (Cons y ys)
  have "rle_inv c ((xs @ [y]) @ ys) (fold rle_step ys (rle_step y s))"
    using Cons.prems by (intro Cons.IH rle_step_inv) simp_all
  then show ?case by simp
qed simp

lemma pack_code_sizes_items:
  assumes c: "19 \<le> length c" and xs: "\<forall>x \<in> set xs. x < 16"
  shows "\<exists>its. packs c (pack_code_sizes c xs) its xs"
proof -
  let ?init = "\<lparr>rle_counts = c, packed_code_sizes = [], rle_z_count = 0, rle_repeat_count = 0, prev_code_size = 255\<rparr>"
  let ?s = "fold rle_step xs ?init"
  have "packs c ?init [] []" using c expands.none by (simp add: packs_def)
  then have "rle_inv c [] ?init" by (auto simp: rle_inv_def)
  then have inv: "rle_inv c ([] @ xs) ?s" using xs by (rule rle_fold_inv)
  obtain its out where i: "packs c ?s its out"
    "[] @ xs = out @ replicate (unat (rle_z_count ?s)) 0 @ replicate (unat (rle_repeat_count ?s)) (prev_code_size ?s)"
    and zr: "rle_z_count ?s = 0 \<or> rle_repeat_count ?s = 0"
    and l: "rle_repeat_count ?s \<noteq> 0 \<longrightarrow> prev_code_size ?s < 16 \<and> out \<noteq> [] \<and> last out = prev_code_size ?s"
    by (rule rle_inv_run [OF inv])
  have b: "unat (rle_z_count ?s) \<le> 138" "unat (rle_repeat_count ?s) \<le> 6" using inv unfolding rle_inv_def by linarith+
  show ?thesis
  proof (cases "rle_repeat_count ?s = 0")
    case True
    then have "pack_code_sizes c xs = TDEFL_RLE_ZERO_CODE_SIZE ?s" by (simp add: pack_code_sizes_def)
    then show ?thesis using zero_flush [OF i(1) b(1)] i(2) True by simp
  next
    case False
    then have "pack_code_sizes c xs = TDEFL_RLE_PREV_CODE_SIZE ?s" by (simp add: pack_code_sizes_def)
    then show ?thesis using prev_flush [OF i(1) b(2) l] i(2) False zr by simp
  qed
qed

text \<open>C37: run-length packing of code sizes is undone by the decompressor: whatever the sizes (below 16, as
  all are), expanding what the loop of \<open>tdefl_start_dynamic_block\<close> packed gives them back and stops
  exactly at the end of the packed bytes; these are never more than the sizes, so the array of 320 bytes
  is not exceeded.\<close>

theorem pack_code_sizes_roundtrip:
  assumes "19 \<le> length counts" "\<forall>x \<in> set xs. x < 16"
  shows "inflate_code_sizes (length xs) (packed_code_sizes (pack_code_sizes counts xs) @ rst) [] = Some (xs, rst)
    \<and> length (packed_code_sizes (pack_code_sizes counts xs)) \<le> length xs"
proof -
  obtain its where "packs counts (pack_code_sizes counts xs) its xs" using pack_code_sizes_items [OF assms] by blast
  then have its: "expands its xs" "packed_code_sizes (pack_code_sizes counts xs) = items_bytes its" by (simp_all add: packs_def)
  have "inflate_code_sizes (length xs) (items_bytes its @ rst) [] = inflate_code_sizes (length xs) rst xs"
    by (rule inflate_expands [OF its(1)]) simp
  then show ?thesis using expands_items [OF its(1)] its(2) by (simp add: inflate_code_sizes.simps)
qed

lemma pack_code_sizes_roundtrip_witness:
  "packed_code_sizes (pack_code_sizes (replicate 19 0) [8, 8, 8, 8, 8, 0, 0, 0, 7]) = [8, 16, 1, 17, 0, 7]
    \<and> inflate_code_sizes 9 [8, 16, 1, 17, 0, 7] [] = Some ([8, 8, 8, 8, 8, 0, 0, 0, 7], [])"
proof -
  let ?xs = "[8, 8, 8, 8, 8, 0, 0, 0, 7] :: u8 list"
  have p: "packed_code_sizes (pack_code_sizes (replicate 19 0) ?xs) = [8, 16, 1, 17, 0, 7]" by code_simp
  have l: "length ?xs = 9" by simp
  have "inflate_code_sizes (length ?xs) (packed_code_sizes (pack_code_sizes (replicate 19 0) ?xs) @ []) [] = Some (?xs, [])"
    by (rule pack_code_sizes_roundtrip [THEN conjunct1]) simp_all
  then show ?thesis using p unfolding l p append_Nil2 by blast
qed

end
