(* ===== verification/DeflBlock.thy ===== *)
theory DeflBlock
  imports DeflRle
begin

text \<open>
  The headers of the blocks of the compressor (src/packages/miniz/src/main/c/miniz.c):
  \<open>tdefl_start_static_block\<close> makes the fixed tables of RFC 1951, \<open>tdefl_start_dynamic_block\<close> makes
  tables for the counts of the block and writes their sizes, and \<open>tdefl_compress_block\<close> adds the codes.
\<close>

unbundle bit_operations_syntax

subsection \<open>Headers\<close>

definition fill :: "nat \<Rightarrow> nat \<Rightarrow> 'a \<Rightarrow> 'a list \<Rightarrow> 'a list" where
  "fill i j v xs = fold (\<lambda>k xs. xs[k := v]) [i..<j] xs"

definition tdefl_start_static_block :: "tdefl_compressor \<Rightarrow> tdefl_compressor option" where
  "tdefl_start_static_block d =
     (let p = fill 0 144 8 (m_huff_code_sizes d ! 0);
          p = fill 144 256 9 p;
          p = fill 256 280 7 p;
          p = fill 280 288 8 p;
          d = d\<lparr>m_huff_code_sizes := (m_huff_code_sizes d)[0 := p, 1 := fill 0 32 5 (m_huff_code_sizes d ! 1)]\<rparr>
      in case tdefl_optimize_huffman_table d 0 288 15 True of
           None \<Rightarrow> None
         | Some d \<Rightarrow>
           (case tdefl_optimize_huffman_table d 1 32 15 True of
              None \<Rightarrow> None
            | Some d \<Rightarrow> Some (TDEFL_PUT_BITS 1 2 d)))"

text \<open>The number of code sizes to send: trailing zeros above \<open>lo\<close> are left out.\<close>

fun num_codes_used :: "nat \<Rightarrow> u8 list \<Rightarrow> nat \<Rightarrow> nat" where
  "num_codes_used lo sizes 0 = 0"
| "num_codes_used lo sizes (Suc n) = (if lo < Suc n then if sizes ! n \<noteq> 0 then Suc n else num_codes_used lo sizes n else Suc n)"

definition s_tdefl_packed_code_size_syms_swizzle :: "u8 list" where
  "s_tdefl_packed_code_size_syms_swizzle = [16, 17, 18, 0, 8, 7, 9, 6, 10, 5, 11, 4, 12, 3, 13, 2, 14, 1, 15]"

text \<open>\<open>bit_lengths n\<close> is \<open>num_bit_lengths + 1\<close> after the loop down from \<open>n - 1\<close>.\<close>

fun bit_lengths :: "u8 list \<Rightarrow> nat \<Rightarrow> nat" where
  "bit_lengths sizes 0 = 0"
| "bit_lengths sizes (Suc n) =
     (if sizes ! unat (s_tdefl_packed_code_size_syms_swizzle ! n) \<noteq> 0 then Suc n else bit_lengths sizes n)"

definition put_bit_lengths :: "nat \<Rightarrow> tdefl_compressor \<Rightarrow> tdefl_compressor" where
  "put_bit_lengths num_bit_lengths d =
     fold (\<lambda>i d. TDEFL_PUT_BITS (ucast (m_huff_code_sizes d ! 2 ! unat (s_tdefl_packed_code_size_syms_swizzle ! i))) 3 d)
       [0..<num_bit_lengths] d"

fun put_packed :: "u8 list \<Rightarrow> tdefl_compressor \<Rightarrow> tdefl_compressor" where
  "put_packed [] d = d"
| "put_packed (code # packed) d =
     (let d = put_symbol 2 (unat code) d in
      if code \<ge> 16 then
        (case packed of
           [] \<Rightarrow> d
         | extra # packed \<Rightarrow> put_packed packed (TDEFL_PUT_BITS (ucast extra) ([2, 3, 7] ! (unat code - 16)) d))
      else put_packed packed d)"

definition tdefl_start_dynamic_block :: "tdefl_compressor \<Rightarrow> tdefl_compressor option" where
  "tdefl_start_dynamic_block d =
     (let d = d\<lparr>m_huff_count := (m_huff_count d)[0 := (m_huff_count d ! 0)[256 := 1]]\<rparr> in
      case tdefl_optimize_huffman_table d 0 288 15 False of
        None \<Rightarrow> None
      | Some d \<Rightarrow>
        (case tdefl_optimize_huffman_table d 1 32 15 False of
           None \<Rightarrow> None
         | Some d \<Rightarrow>
           let num_lit_codes = num_codes_used 257 (m_huff_code_sizes d ! 0) 286;
               num_dist_codes = num_codes_used 1 (m_huff_code_sizes d ! 1) 30;
               code_sizes_to_pack = take num_lit_codes (m_huff_code_sizes d ! 0) @ take num_dist_codes (m_huff_code_sizes d ! 1);
               s = pack_code_sizes (fill 0 19 0 (m_huff_count d ! 2)) code_sizes_to_pack;
               d = d\<lparr>m_huff_count := (m_huff_count d)[2 := rle_counts s]\<rparr>
           in case tdefl_optimize_huffman_table d 2 19 7 False of
                None \<Rightarrow> None
              | Some d \<Rightarrow>
                let d = TDEFL_PUT_BITS 2 2 d;
                    d = TDEFL_PUT_BITS (of_nat (num_lit_codes - 257)) 5 d;
                    d = TDEFL_PUT_BITS (of_nat (num_dist_codes - 1)) 5 d;
                    num_bit_lengths = max 4 (bit_lengths (m_huff_code_sizes d ! 2) 19);
                    d = TDEFL_PUT_BITS (of_nat (num_bit_lengths - 4)) 4 d;
                    d = put_bit_lengths num_bit_lengths d
                in Some (put_packed (packed_code_sizes s) d)))"

definition tdefl_compress_block :: "tdefl_compressor \<Rightarrow> bool \<Rightarrow> (tdefl_compressor \<times> bool) option" where
  "tdefl_compress_block d static_block =
     (case (if static_block then tdefl_start_static_block d else tdefl_start_dynamic_block d) of
        None \<Rightarrow> None
      | Some d \<Rightarrow> Some (tdefl_compress_lz_codes d))"

subsection \<open>Steps that write and change tables\<close>

definition emits :: "tdefl_compressor \<Rightarrow> tdefl_compressor \<Rightarrow> bool list \<Rightarrow> bool" where
  "emits d d' bs \<longleftrightarrow> bits_ok d' \<and> m_pOutput_buf_end d' = m_pOutput_buf_end d \<and> m_pOutput_buf d \<le> m_pOutput_buf d'
     \<and> (m_pOutput_buf d' < m_pOutput_buf_end d \<longrightarrow> out_bits d' = out_bits d @ bs) \<and> progress d' \<le> progress d + length bs"

lemma writes_emits: "writes d d' bs \<Longrightarrow> emits d d' bs"
  unfolding writes_def emits_def using output_only_fields(9,10) by blast

lemma emits_trans: "emits a b xs \<Longrightarrow> emits b c ys \<Longrightarrow> emits a c (xs @ ys)"
  by (simp add: emits_def)

lemma emits_bits_ok: "emits a b xs \<Longrightarrow> bits_ok b"
  by (simp add: emits_def)

lemma out_bits_length: "bits_ok d \<Longrightarrow> length (out_bits d) = progress d"
  by (simp add: out_bits_def bits_ok_def progress_def min_def)

text \<open>What fits is written.\<close>

lemma emits_room:
  assumes "emits d d' bs" "progress d + length bs < 8 * m_pOutput_buf_end d"
  shows "m_pOutput_buf d' < m_pOutput_buf_end d'"
  using assms by (simp add: emits_def progress_def)

text \<open>Changing tables and counts writes nothing.\<close>

lemma emits_tables:
  "bits_ok d \<Longrightarrow> emits d (d\<lparr>m_huff_code_sizes := s, m_huff_codes := c\<rparr>) []"
  "bits_ok d \<Longrightarrow> emits d (d\<lparr>m_huff_code_sizes := s\<rparr>) []"
  "bits_ok d \<Longrightarrow> emits d (d\<lparr>m_huff_count := h\<rparr>) []"
  by (simp_all add: emits_def bits_ok_def out_bits_def progress_def)

subsection \<open>The codes of a table\<close>

lemma give_codes_unused: "sizes ! i = 0 \<Longrightarrow> snd (fold (give_code sizes) js s) ! i = snd s ! i"
proof (induction js arbitrary: s)
  case (Cons j js)
  have "snd (give_code sizes j s) ! i = snd s ! i"
    using Cons.prems by (cases "i = j") (simp_all add: give_code_def Let_def split: prod.split)
  then show ?case using Cons by simp
qed simp

text \<open>The bits of a number from the highest.\<close>

definition msb_bits :: "nat \<Rightarrow> nat \<Rightarrow> bool list" where
  "msb_bits n c = map (\<lambda>b. bit c (n - 1 - b)) [0..<n]"

text \<open>The canonical codes of a list of sizes, and a table that has them.\<close>

definition table_bits :: "nat list \<Rightarrow> nat \<Rightarrow> bool list" where
  "table_bits ls i = (if ls ! i = 0 then [] else msb_bits (ls ! i) (code_of ls i))"

definition sizes_of :: "tdefl_compressor \<Rightarrow> nat \<Rightarrow> nat \<Rightarrow> nat list" where
  "sizes_of d t n = map (\<lambda>i. unat (m_huff_code_sizes d ! t ! i)) [0..<n]"

definition canonical :: "tdefl_compressor \<Rightarrow> nat \<Rightarrow> nat \<Rightarrow> bool" where
  "canonical d t n \<longleftrightarrow> (\<forall>i < n. symbol_bits d t i = table_bits (sizes_of d t n) i)"

lemma table_codes:
  fixes sizes :: "u8 list" and n :: nat
  defines "ls \<equiv> map (\<lambda>i. unat (sizes ! i)) [0..<n]"
  assumes L: "L \<le> 16" and le: "\<forall>l \<in> set ls. l \<le> L" and num: "\<forall>k \<in> {1..L}. num ! k = int (count_list ls k)"
    and n: "n \<le> length codes" and space: "kraft L (filter (\<lambda>l. l \<noteq> 0) ls) \<le> 2 ^ L"
    and i: "i < n" "sizes ! i \<noteq> 0"
    and cs: "cs = snd (fold (give_code sizes) [0..<n] (first_codes L num, codes))"
  shows "code_bits (cs ! i) (unat (sizes ! i)) = msb_bits (unat (sizes ! i)) (code_of ls i)"
    "unat (cs ! i) < 2 ^ unat (sizes ! i)"
proof -
  have li: "ls ! i = unat (sizes ! i)" using i(1) by (simp add: ls_def)
  then have pos: "1 \<le> ls ! i" using i(2) by (simp add: unat_gt_0 Suc_le_eq)
  then have fits: "code_of ls i < 2 ^ (ls ! i)"
    using i(1) by (intro code_of_fits [OF _ _ le space]) (simp_all add: ls_def)
  have l16: "ls ! i \<le> 16" using le L nth_mem [of i ls] i(1) by (force simp: ls_def)
  have c: "cs ! i = ucast (reverse_code (ls ! i) (of_nat (code_of ls i)) 0)"
    unfolding cs ls_def using L le num n i(1) pos by (intro give_codes_spec) (simp_all add: ls_def)
  then show "code_bits (cs ! i) (unat (sizes ! i)) = msb_bits (unat (sizes ! i)) (code_of ls i)"
    using code_bits_reversed [OF l16 fits] by (simp only: li [symmetric] msb_bits_def)
  have "\<not> bit (cs ! i) k" if "ls ! i \<le> k" for k
  proof (cases "k < 16")
    case True
    then have "bit (cs ! i) k = bit (reverse_code (ls ! i) (of_nat (code_of ls i)) 0) k"
      unfolding c by (simp only: bit_ucast_iff possible_bit_word) simp
    also have "\<dots> = False" using True that l16 by (subst reverse_code_bit) simp_all
    finally show ?thesis by simp
  next
    case False
    then show ?thesis by (auto dest: bit_imp_le_length)
  qed
  then have "\<forall>k < 32. ls ! i \<le> k \<longrightarrow> \<not> bit (ucast (cs ! i) :: u32) k" by (simp only: bit_ucast_iff) blast
  then have "unat (ucast (cs ! i) :: u32) < 2 ^ (ls ! i)" by (simp only: unat_bit_less)
  then show "unat (cs ! i) < 2 ^ unat (sizes ! i)" by (simp only: unat_ucast_u16 li)
qed

subsection \<open>The static block\<close>

lemma fill_length [simp]: "length (fill i j v xs) = length xs"
proof -
  have "length (fold (\<lambda>k xs. xs[k := v]) ks xs) = length xs" for ks by (induction ks arbitrary: xs) simp_all
  then show ?thesis by (simp add: fill_def)
qed

lemma fill_nth: "k < length xs \<Longrightarrow> fill i j v xs ! k = (if i \<le> k \<and> k < j then v else xs ! k)"
proof -
  have "fold (\<lambda>k xs. xs[k := v]) ks xs ! k = (if k \<in> set ks then v else xs ! k)" if "k < length xs" for ks
    using that by (induction ks arbitrary: xs) (auto simp: nth_list_update)
  then show "k < length xs \<Longrightarrow> ?thesis" by (auto simp: fill_def)
qed

text \<open>The fixed codes of RFC 1951, 3.2.6: lengths and values of literals and lengths.\<close>

definition fixed_size :: "nat \<Rightarrow> nat" where
  "fixed_size i = (if i < 144 then 8 else if i < 256 then 9 else if i < 280 then 7 else 8)"

definition fixed_code :: "nat \<Rightarrow> nat" where
  "fixed_code i = (if i < 144 then 48 + i else if i < 256 then 400 + (i - 144) else if i < 280 then i - 256 else 192 + (i - 280))"

definition fixed_sizes :: "nat list" where
  "fixed_sizes = replicate 144 8 @ replicate 112 9 @ replicate 24 7 @ replicate 8 8"

lemma fixed_sizes_nth: "i < 288 \<Longrightarrow> fixed_sizes ! i = fixed_size i"
  by (auto simp: fixed_sizes_def fixed_size_def nth_append)

lemma fixed_sizes_map: "map fixed_size [0..<288] = fixed_sizes"
  by (rule nth_equalityI) (simp_all add: fixed_sizes_nth fixed_sizes_def [THEN arg_cong [of _ _ length]])

lemma fixed_counts:
  "count_list fixed_sizes k = (if k = 7 then 24 else if k = 8 then 152 else if k = 9 then 112 else 0)"
  by (simp add: fixed_sizes_def count_list_replicate)

lemma fixed_fcode: "fcode (count_list fixed_sizes) 7 = 0" "fcode (count_list fixed_sizes) 8 = 48" "fcode (count_list fixed_sizes) 9 = 400"
proof -
  let ?c = "count_list fixed_sizes"
  have s: "Suc 7 = 8" "Suc 8 = 9" by simp_all
  have z: "fcode ?c k = 0" if "k \<le> 7" for k
    using that by (induction k) (auto simp: fixed_counts)
  show "fcode ?c 7 = 0" by (simp add: z)
  have "fcode ?c (Suc 7) = 48" by (simp only: fcode.simps z fixed_counts) simp
  then show e: "fcode ?c 8 = 48" by (simp only: s)
  have "fcode ?c (Suc 8) = 400" by (simp only: fcode.simps e fixed_counts) simp
  then show "fcode ?c 9 = 400" by (simp only: s)
qed

lemma fixed_code_of:
  assumes "i < 288"
  shows "code_of fixed_sizes i = fixed_code i"
proof -
  consider "i < 144" | "144 \<le> i" "i < 256" | "256 \<le> i" "i < 280" | "280 \<le> i" "i < 288" using assms by linarith
  then show ?thesis
    using fixed_fcode
    by cases (simp_all add: code_of_def fixed_sizes_nth fixed_size_def fixed_code_def,
        simp_all add: fixed_sizes_def count_list_replicate min_def)
qed

lemma optimize_static:
  assumes ls: "map (\<lambda>i. unat (m_huff_code_sizes d ! t ! i)) [0..<n] = ls" and l: "\<forall>l \<in> set ls. 1 \<le> l \<and> l \<le> 15"
    and space: "kraft 15 ls \<le> 2 ^ 15" and n: "n \<le> length (m_huff_codes d ! t)"
  shows "\<exists>cs. tdefl_optimize_huffman_table d t n 15 True
      = Some (d\<lparr>m_huff_codes := (m_huff_codes d)[t := cs]\<rparr>)
    \<and> length cs = length (m_huff_codes d ! t)
    \<and> (\<forall>i < n. code_bits (cs ! i) (ls ! i) = msb_bits (ls ! i) (code_of ls i) \<and> unat (cs ! i) < 2 ^ (ls ! i))
    \<and> (\<forall>i < n. \<forall>j < n. i \<noteq> j \<longrightarrow> \<not> prefix (code_bits (cs ! i) (ls ! i)) (code_bits (cs ! j) (ls ! j)))"
proof -
  let ?r = "m_huff_code_sizes d ! t"
  let ?num = "count_sizes ls"
  define cs where "cs = snd (fold (give_code ?r) [0..<n] (first_codes 15 ?num, m_huff_codes d ! t))"
  have run: "tdefl_optimize_huffman_table d t n 15 True
      = Some (d\<lparr>m_huff_codes := (m_huff_codes d)[t := cs]\<rparr>)"
    unfolding tdefl_optimize_huffman_table_def ls cs_def by (simp add: Let_def split: prod.split)
  have le: "\<forall>l \<in> set (map (\<lambda>i. unat (?r ! i)) [0..<n]). l \<le> 15" unfolding ls using l by blast
  have num: "\<forall>k \<in> {1..15}. ?num ! k = int (count_list (map (\<lambda>i. unat (?r ! i)) [0..<n]) k)"
    unfolding ls using count_sizes_spec [of ls] l by fastforce
  have "filter (\<lambda>l. l \<noteq> 0) ls = ls" using l by (intro filter_True) fastforce
  then have sp: "kraft 15 (filter (\<lambda>l. l \<noteq> 0) (map (\<lambda>i. unat (?r ! i)) [0..<n])) \<le> 2 ^ 15" unfolding ls using space by simp
  have "code_bits (cs ! i) (ls ! i) = msb_bits (ls ! i) (code_of ls i) \<and> unat (cs ! i) < 2 ^ (ls ! i)" if i: "i < n" for i
  proof -
    have li: "ls ! i = unat (?r ! i)" using i by (simp flip: ls)
    have "ls ! i \<in> set ls" using i by (simp flip: ls)
    then have "?r ! i \<noteq> 0" using l li by fastforce
    note c = table_codes [OF _ le num n sp i this cs_def]
    show ?thesis using c unfolding ls li by simp
  qed
  moreover have "\<not> prefix (code_bits (cs ! i) (ls ! i)) (code_bits (cs ! j) (ls ! j))" if ij: "i < n" "j < n" "i \<noteq> j" for i j
  proof -
    have lk: "ls ! k = unat (?r ! k)" "?r ! k \<noteq> 0" if "k < n" for k
    proof -
      show k: "ls ! k = unat (?r ! k)" using that by (simp flip: ls)
      have "ls ! k \<in> set ls" using that by (simp flip: ls)
      then show "?r ! k \<noteq> 0" using l k by fastforce
    qed
    show ?thesis
      unfolding lk(1) [OF ij(1)] lk(1) [OF ij(2)]
      using ij lk by (intro table_prefix_free [OF _ le num n sp _ _ _ _ _ cs_def]) simp_all
  qed
  moreover have "length cs = length (m_huff_codes d ! t)"
  proof -
    have "length (snd (fold (give_code ?r) js s)) = length (snd s)" for js s
    proof (induction js arbitrary: s)
      case (Cons j js)
      have "length (snd (give_code ?r j s)) = length (snd s)" by (simp add: give_code_def Let_def split: prod.split)
      then show ?case using Cons by simp
    qed simp
    then show ?thesis by (simp add: cs_def)
  qed
  ultimately show ?thesis using run by blast
qed

text \<open>The bits of no symbol begin those of another.\<close>

definition prefix_table :: "tdefl_compressor \<Rightarrow> nat \<Rightarrow> nat \<Rightarrow> bool" where
  "prefix_table d t n \<longleftrightarrow> (\<forall>i < n. \<forall>j < n. i \<noteq> j \<and> symbol_bits d t i \<noteq> [] \<and> symbol_bits d t j \<noteq> []
     \<longrightarrow> \<not> prefix (symbol_bits d t i) (symbol_bits d t j))"

lemma start_static_block:
  assumes "length (m_huff_code_sizes d) = 3" "length (m_huff_codes d) = 3"
    and "288 \<le> length (m_huff_code_sizes d ! 0)" "32 \<le> length (m_huff_code_sizes d ! 1)"
    and "288 \<le> length (m_huff_codes d ! 0)" "32 \<le> length (m_huff_codes d ! 1)" and "bits_ok d"
  shows "\<exists>d'. tdefl_start_static_block d = Some d'
    \<and> (\<forall>i < 288. symbol_bits d' 0 i = msb_bits (fixed_size i) (fixed_code i)) \<and> (\<forall>i < 32. symbol_bits d' 1 i = msb_bits 5 i)
    \<and> table_fits d' 0 288 \<and> table_fits d' 1 32 \<and> emits d d' [True, False]
    \<and> m_lz_code_buf d' = m_lz_code_buf d \<and> m_pLZ_code_buf d' = m_pLZ_code_buf d
    \<and> prefix_table d' 0 288 \<and> prefix_table d' 1 32"
proof -
  define p where "p = fill 280 288 8 (fill 256 280 7 (fill 144 256 9 (fill 0 144 (8 :: u8) (m_huff_code_sizes d ! 0))))"
  define q where "q = fill 0 32 (5 :: u8) (m_huff_code_sizes d ! 1)"
  let ?d1 = "d\<lparr>m_huff_code_sizes := (m_huff_code_sizes d)[0 := p, 1 := q]\<rparr>"
  have p: "unat (p ! i) = fixed_size i" if "i < 288" for i
    using that assms(3) by (simp add: p_def fill_nth fixed_size_def)
  have q: "unat (q ! i) = 5" if "i < 32" for i using that assms(4) by (simp add: q_def fill_nth)
  have lp: "map (\<lambda>i. unat (m_huff_code_sizes ?d1 ! 0 ! i)) [0..<288] = fixed_sizes"
    unfolding fixed_sizes_map [symmetric] using assms(1) p by (intro map_cong) simp_all
  have lf: "\<forall>l \<in> set fixed_sizes. 1 \<le> l \<and> l \<le> 15" by (simp add: fixed_sizes_def)
  have kf: "kraft 15 fixed_sizes \<le> 2 ^ 15" by (simp add: kraft_def fixed_sizes_def sum_list_replicate)
  obtain cs where o1: "tdefl_optimize_huffman_table ?d1 0 288 15 True
      = Some (?d1\<lparr>m_huff_codes := (m_huff_codes ?d1)[0 := cs]\<rparr>)"
    and c: "\<forall>i < 288. code_bits (cs ! i) (fixed_sizes ! i) = msb_bits (fixed_sizes ! i) (code_of fixed_sizes i)
      \<and> unat (cs ! i) < 2 ^ (fixed_sizes ! i)"
    and pf: "\<forall>i < 288. \<forall>j < 288. i \<noteq> j \<longrightarrow> \<not> prefix (code_bits (cs ! i) (fixed_sizes ! i)) (code_bits (cs ! j) (fixed_sizes ! j))"
    using optimize_static [OF lp lf kf] assms(5) by auto
  let ?d2 = "?d1\<lparr>m_huff_codes := (m_huff_codes d)[0 := cs]\<rparr>"
  have o1': "tdefl_optimize_huffman_table ?d1 0 288 15 True = Some ?d2" using o1 by simp
  have lq: "map (\<lambda>i. unat (m_huff_code_sizes ?d2 ! 1 ! i)) [0..<32] = replicate 32 5"
    using assms(1) q by (intro nth_equalityI) simp_all
  have lf2: "\<forall>l \<in> set (replicate 32 (5 :: nat)). 1 \<le> l \<and> l \<le> 15" by simp
  have kf2: "kraft 15 (replicate 32 5) \<le> 2 ^ 15" by (simp add: kraft_def sum_list_replicate)
  obtain cs2 where o2: "tdefl_optimize_huffman_table ?d2 1 32 15 True
      = Some (?d2\<lparr>m_huff_codes := (m_huff_codes ?d2)[1 := cs2]\<rparr>)"
    and c2: "\<forall>i < 32. code_bits (cs2 ! i) (replicate 32 5 ! i) = msb_bits (replicate 32 5 ! i) (code_of (replicate 32 5) i)
      \<and> unat (cs2 ! i) < 2 ^ (replicate 32 5 ! i)"
    and pf2: "\<forall>i < 32. \<forall>j < 32. i \<noteq> j \<longrightarrow> \<not> prefix (code_bits (cs2 ! i) (replicate 32 5 ! i)) (code_bits (cs2 ! j) (replicate 32 5 ! j))"
    using optimize_static [OF lq lf2 kf2] assms(2,6) by auto
  let ?d3 = "?d1\<lparr>m_huff_codes := (m_huff_codes d)[0 := cs, 1 := cs2]\<rparr>"
  have o2': "tdefl_optimize_huffman_table ?d2 1 32 15 True = Some ?d3" using o2 by simp
  let ?d' = "TDEFL_PUT_BITS 1 2 ?d3"
  have run: "tdefl_start_static_block d = Some ?d'"
    unfolding tdefl_start_static_block_def Let_def p_def [symmetric] q_def [symmetric] o1' o2' option.case by (rule refl)
  have e3: "emits d ?d3 []" using assms(7) by (simp add: emits_def bits_ok_def out_bits_def progress_def)
  have w: "writes ?d3 ?d' (nat_bits (unat (1 :: u32)) (unat (2 :: u32)))" by (rule put_bits_writes [OF emits_bits_ok [OF e3]]) simp_all
  have "nat_bits (unat (1 :: u32)) (unat (2 :: u32)) = [True, False]" by (simp add: nat_bits_def upt_rec bit_0)
  then have e: "emits d ?d' [True, False]" using emits_trans [OF e3 writes_emits [OF w]] by simp
  note same = output_only_tables [OF writes_output_only [OF w]] and f = output_only_fields [OF writes_output_only [OF w]]
  have code5: "code_of (replicate 32 5) i = i" if "i < 32" for i
  proof -
    have "fcode (count_list (replicate 32 5)) k = 0" if "k \<le> 5" for k
      using that by (induction k) (auto simp: count_list_replicate)
    then show ?thesis using that by (simp add: code_of_def count_list_replicate min_def)
  qed
  have s0: "symbol_bits ?d3 0 i = msb_bits (fixed_size i) (fixed_code i)" if "i < 288" for i
    using that c assms(1,2) p by (simp add: symbol_bits_def fixed_sizes_nth fixed_code_of)
  have s1: "symbol_bits ?d3 1 i = msb_bits 5 i" if "i < 32" for i
    using that c2 assms(1,2) q code5 by (simp add: symbol_bits_def)
  have t0: "table_fits ?d3 0 288"
    using c assms(1,2) p by (simp add: table_fits_def fixed_sizes_nth) (simp add: fixed_size_def)
  have t1: "table_fits ?d3 1 32" using c2 assms(1,2) q by (simp add: table_fits_def)
  have p0: "prefix_table ?d3 0 288"
    using pf assms(1,2) p by (simp add: prefix_table_def symbol_bits_def fixed_sizes_nth)
  have p1: "prefix_table ?d3 1 32"
    using pf2 assms(1,2) q by (simp add: prefix_table_def symbol_bits_def)
  have p0': "prefix_table ?d' 0 288" and p1': "prefix_table ?d' 1 32" using p0 p1 unfolding prefix_table_def same by blast+
  show ?thesis
    using run e s0 s1 t0 t1 p0' p1' by (intro exI [of _ ?d'] conjI) (simp_all add: same f del: One_nat_def)
qed

text \<open>C38: a static block has the codes of RFC 1951: the tables \<open>tdefl_start_static_block\<close> makes assign to
  every literal and length symbol and to every distance symbol exactly the code the standard fixes, from
  its highest bit, and the header written is the block type 01.\<close>

theorem start_static_block_fixed:
  assumes "length (m_huff_code_sizes d) = 3" "length (m_huff_codes d) = 3"
    and "288 \<le> length (m_huff_code_sizes d ! 0)" "32 \<le> length (m_huff_code_sizes d ! 1)"
    and "288 \<le> length (m_huff_codes d ! 0)" "32 \<le> length (m_huff_codes d ! 1)" and "bits_ok d"
  shows "\<exists>d'. tdefl_start_static_block d = Some d'
    \<and> (\<forall>i < 288. symbol_bits d' 0 i = msb_bits (fixed_size i) (fixed_code i)) \<and> (\<forall>i < 32. symbol_bits d' 1 i = msb_bits 5 i)
    \<and> table_fits d' 0 288 \<and> table_fits d' 1 32 \<and> emits d d' [True, False]
    \<and> m_lz_code_buf d' = m_lz_code_buf d \<and> m_pLZ_code_buf d' = m_pLZ_code_buf d"
  using start_static_block [OF assms] by blast

lemma start_static_block_fixed_witness:
  "\<exists>d'. tdefl_start_static_block demo_codes = Some d' \<and> symbol_bits d' 0 256 = replicate 7 False \<and> symbol_bits d' 1 3 = msb_bits 5 3"
proof -
  have "\<exists>d'. tdefl_start_static_block demo_codes = Some d'
    \<and> (\<forall>i < 288. symbol_bits d' 0 i = msb_bits (fixed_size i) (fixed_code i)) \<and> (\<forall>i < 32. symbol_bits d' 1 i = msb_bits 5 i)
    \<and> table_fits d' 0 288 \<and> table_fits d' 1 32 \<and> emits demo_codes d' [True, False]
    \<and> m_lz_code_buf d' = m_lz_code_buf demo_codes \<and> m_pLZ_code_buf d' = m_pLZ_code_buf demo_codes"
    by (rule start_static_block_fixed) (simp_all add: demo_codes_def bits_ok_def)
  then obtain d' where d': "tdefl_start_static_block demo_codes = Some d'"
    "\<forall>i < 288. symbol_bits d' 0 i = msb_bits (fixed_size i) (fixed_code i)" "\<forall>i < 32. symbol_bits d' 1 i = msb_bits 5 i"
    by blast
  have "symbol_bits d' 0 256 = msb_bits (fixed_size 256) (fixed_code 256)" using d'(2) by simp
  also have "\<dots> = replicate 7 False" by code_simp
  finally show ?thesis using d'(1,3) by simp
qed

subsection \<open>The dynamic block\<close>

lemma symbol_bits_Nil: "(symbol_bits d t i = []) = (m_huff_code_sizes d ! t ! i = 0)"
  by (simp add: symbol_bits_def code_bits_def unat_eq_zero)

lemma optimize_table:
  assumes n: "n \<le> 288" and L: "1 \<le> L" "L \<le> 15" "n \<le> 2 ^ L"
    and t: "t < length (m_huff_count d)" "n \<le> length (m_huff_count d ! t)"
    and total: "(\<Sum>i<n. unat (m_huff_count d ! t ! i)) < 65536"
  shows "\<exists>s cs. tdefl_optimize_huffman_table d t n L False
      = Some (d\<lparr>m_huff_code_sizes := (m_huff_code_sizes d)[t := s], m_huff_codes := (m_huff_codes d)[t := cs]\<rparr>)
    \<and> length s = 288 \<and> (\<forall>i < n. (s ! i \<noteq> 0) = (m_huff_count d ! t ! i \<noteq> 0))
    \<and> (\<forall>i < n. unat (s ! i) \<le> L \<and> unat (cs ! i) < 2 ^ unat (s ! i))
    \<and> (\<forall>i < n. \<forall>j < n. i \<noteq> j \<and> s ! i \<noteq> 0 \<and> s ! j \<noteq> 0
        \<longrightarrow> \<not> prefix (code_bits (cs ! i) (unat (s ! i))) (code_bits (cs ! j) (unat (s ! j))))
    \<and> (\<forall>i < n. code_bits (cs ! i) (unat (s ! i)) = table_bits (map (\<lambda>i. unat (s ! i)) [0..<n]) i)"
proof -
  have "length (used_syms n (m_huff_count d ! t)) \<le> n"
    using length_filter_le [of "\<lambda>i. m_huff_count d ! t ! i \<noteq> 0" "[0..<n]"] by (simp add: used_syms_def)
  then have few: "length (used_syms n (m_huff_count d ! t)) \<le> 2 ^ L" using L(3) by simp
  let ?ls = "\<lambda>s :: u8 list. map (\<lambda>i. unat (s ! i)) [0..<n]"
  obtain num s cs where o: "tdefl_optimize_huffman_table d t n L False
      = Some (d\<lparr>m_huff_code_sizes := (m_huff_code_sizes d)[t := s], m_huff_codes := (m_huff_codes d)[t := cs]\<rparr>)"
    "cs = snd (fold (give_code s) [0..<n] (first_codes L num, replicate TDEFL_MAX_HUFF_SYMBOLS 0))"
    "\<forall>i < n. (s ! i \<noteq> 0) = (m_huff_count d ! t ! i \<noteq> 0)" "\<forall>l \<in> set (?ls s). l \<le> L"
    "\<forall>k \<in> {1..L}. num ! k = int (count_list (?ls s) k)" "kraft L (filter (\<lambda>l. l \<noteq> 0) (?ls s)) \<le> 2 ^ L"
    "length s = TDEFL_MAX_HUFF_SYMBOLS"
    using optimize_dynamic [OF n L(1,2) t total few] by blast
  have L16: "L \<le> 16" and nc: "n \<le> length (replicate TDEFL_MAX_HUFF_SYMBOLS (0 :: u16))"
    using L n by (simp_all add: TDEFL_MAX_HUFF_SYMBOLS_def)
  have "unat (s ! i) \<le> L \<and> unat (cs ! i) < 2 ^ unat (s ! i)" if i: "i < n" for i
  proof (cases "s ! i = 0")
    case True
    then have "cs ! i = 0" using give_codes_unused [OF True] o(2) i n by (simp add: TDEFL_MAX_HUFF_SYMBOLS_def)
    then show ?thesis using True by simp
  next
    case False
    then show ?thesis using table_codes(2) [OF L16 o(4,5) nc o(6) i False o(2)] o(4) i by simp
  qed
  moreover have "\<not> prefix (code_bits (cs ! i) (unat (s ! i))) (code_bits (cs ! j) (unat (s ! j)))"
    if "i < n" "j < n" "i \<noteq> j" "s ! i \<noteq> 0" "s ! j \<noteq> 0" for i j
    by (rule table_prefix_free [OF L16 o(4,5) nc o(6) that o(2)])
  moreover have "length s = 288" using o(7) by (simp add: TDEFL_MAX_HUFF_SYMBOLS_def)
  moreover have "code_bits (cs ! i) (unat (s ! i)) = table_bits (?ls s) i" if i: "i < n" for i
  proof (cases "s ! i = 0")
    case False
    then show ?thesis using table_codes(1) [OF L16 o(4,5) nc o(6) i False o(2)] i by (simp add: table_bits_def unat_eq_zero)
  qed (use i in \<open>simp add: table_bits_def code_bits_def\<close>)
  ultimately show ?thesis using o(1,3) by blast
qed

lemma num_codes_used:
  "lo \<le> n \<Longrightarrow> lo \<le> num_codes_used lo sizes n \<and> num_codes_used lo sizes n \<le> n
    \<and> (\<forall>i. num_codes_used lo sizes n \<le> i \<and> i < n \<longrightarrow> sizes ! i = 0)"
proof (induction n)
  case (Suc n)
  show ?case
  proof (cases "lo < Suc n \<and> sizes ! n = 0")
    case True
    then have "num_codes_used lo sizes (Suc n) = num_codes_used lo sizes n" by simp
    then show ?thesis using Suc.IH True by (metis le_SucI less_Suc_eq less_Suc_eq_le)
  next
    case False
    then have "num_codes_used lo sizes (Suc n) = Suc n" by simp
    then show ?thesis using Suc.prems by auto
  qed
qed simp

lemma bit_lengths:
  "bit_lengths sizes n \<le> n
    \<and> (\<forall>i. bit_lengths sizes n \<le> i \<and> i < n \<longrightarrow> sizes ! unat (s_tdefl_packed_code_size_syms_swizzle ! i) = 0)"
proof (induction n)
  case (Suc n)
  show ?case
  proof (cases "sizes ! unat (s_tdefl_packed_code_size_syms_swizzle ! n) = 0")
    case True
    then have "bit_lengths sizes (Suc n) = bit_lengths sizes n" by simp
    then show ?thesis using Suc.IH True by (metis le_SucI less_Suc_eq)
  qed auto
qed simp

text \<open>The bits of the packed sizes.\<close>

fun item_bits :: "tdefl_compressor \<Rightarrow> nat \<times> nat \<Rightarrow> bool list" where
  "item_bits d (s, e) = symbol_bits d 2 s @ nat_bits e (extra_of s)"

lemma put_packed_writes:
  assumes "bits_ok d" "table_fits d 2 19" "\<forall>(s, e) \<in> set its. s < 19 \<and> e < 2 ^ extra_of s"
  shows "writes d (put_packed (items_bytes its) d) (concat (map (item_bits d) its))"
  using assms
proof (induction its arbitrary: d)
  case Nil
  then show ?case by (simp add: items_bytes_def writes_Nil)
next
  case (Cons i its)
  obtain s e where i: "i = (s, e)" "s < 19" "e < 2 ^ extra_of s" using Cons.prems(3) by (cases i) auto
  have us: "unat (of_nat s :: u8) = s" using i(2) by (simp add: unat_of_nat)
  let ?d1 = "put_symbol 2 s d"
  have w1: "writes d ?d1 (symbol_bits d 2 s)" by (rule put_symbol_writes [OF Cons.prems(1,2) i(2)])
  have step: "writes d (put_packed (items_bytes its) d') (concat (map (item_bits d) (i # its)))"
    if w: "writes d d' (item_bits d i)" for d'
  proof -
    note same = output_only_tables [OF writes_output_only [OF w]]
    have ib: "item_bits d' = item_bits d" by (rule ext) (auto simp: same)
    have "writes d' (put_packed (items_bytes its) d') (concat (map (item_bits d') its))"
      using Cons.prems by (intro Cons.IH writes_bits_ok [OF w]) (simp_all add: same)
    then show ?thesis using writes_trans [OF w] by (simp add: ib)
  qed
  show ?case
  proof (cases "s < 16")
    case True
    then have "(of_nat s :: u8) < 16" by (simp add: word_less_nat_alt us)
    then have "put_packed (items_bytes (i # its)) d = put_packed (items_bytes its) ?d1"
      using True i(1) by (simp add: items_bytes_def us Let_def not_le [symmetric])
    moreover have "writes d ?d1 (item_bits d i)" using w1 i True by (simp add: extra_of_def)
    ultimately show ?thesis using step by simp
  next
    case False
    then have "\<not> (of_nat s :: u8) < 16" by (simp add: word_less_nat_alt us)
    then have ge: "(of_nat s :: u8) \<ge> 16" by simp
    have ex: "extra_of s \<le> 7" "[2, 3, 7] ! (s - 16) = (of_nat (extra_of s) :: u32)"
    proof -
      have "s = 16 \<or> s = 17 \<or> s = 18" using False i(2) by arith
      then show "extra_of s \<le> 7" "[2, 3, 7] ! (s - 16) = (of_nat (extra_of s) :: u32)" by (auto simp: extra_of_def)
    qed
    have "(2 :: nat) ^ extra_of s \<le> 2 ^ 7" using ex(1) by (intro power_increasing) simp_all
    then have e: "e < 128" using i(3) by simp
    then have ue: "unat (ucast (of_nat e :: u8) :: u32) = e" by (simp add: unat_ucast_u8 unat_of_nat)
    have ux: "unat (of_nat (extra_of s) :: u32) = extra_of s" using ex(1) by (simp add: unat_of_nat)
    let ?d2 = "TDEFL_PUT_BITS (ucast (of_nat e :: u8)) ([2, 3, 7] ! (s - 16)) ?d1"
    have run: "put_packed (items_bytes (i # its)) d = put_packed (items_bytes its) ?d2"
      using False i(1) ge by (simp add: items_bytes_def us Let_def)
    have "writes ?d1 ?d2 (nat_bits e (extra_of s))"
      using put_bits_writes [OF writes_bits_ok [OF w1], of "of_nat (extra_of s)" "ucast (of_nat e :: u8)"] i(3) ex ue ux by simp
    then have "writes d ?d2 (item_bits d i)" using writes_trans [OF w1] i(1) by simp
    then show ?thesis using step run by simp
  qed
qed

lemma swizzle_less: "i < 19 \<Longrightarrow> unat (s_tdefl_packed_code_size_syms_swizzle ! i) < 19"
proof -
  have "list_all (\<lambda>x. unat x < 19) s_tdefl_packed_code_size_syms_swizzle" by code_simp
  moreover have "length s_tdefl_packed_code_size_syms_swizzle = 19" by (simp add: s_tdefl_packed_code_size_syms_swizzle_def)
  ultimately show "i < 19 \<Longrightarrow> ?thesis" by (simp add: list_all_length)
qed

lemma put_bit_lengths_writes:
  assumes "bits_ok d" "n \<le> 19" "\<forall>i < 19. unat (m_huff_code_sizes d ! 2 ! i) \<le> 7"
  shows "writes d (put_bit_lengths n d)
    (concat (map (\<lambda>i. nat_bits (unat (m_huff_code_sizes d ! 2 ! unat (s_tdefl_packed_code_size_syms_swizzle ! i))) 3) [0..<n]))"
  using assms(2)
proof (induction n)
  case 0
  then show ?case using assms(1) by (simp add: put_bit_lengths_def writes_Nil)
next
  case (Suc n)
  let ?e = "put_bit_lengths n d" and ?s = "unat (s_tdefl_packed_code_size_syms_swizzle ! n)"
  have w: "writes d ?e (concat (map (\<lambda>i. nat_bits (unat (m_huff_code_sizes d ! 2 ! unat (s_tdefl_packed_code_size_syms_swizzle ! i))) 3) [0..<n]))"
    using Suc by simp
  have same: "m_huff_code_sizes ?e = m_huff_code_sizes d" using output_only_fields [OF writes_output_only [OF w]] by simp
  let ?v = "m_huff_code_sizes d ! 2 ! ?s"
  have "unat ?v \<le> 7" using assms(3) swizzle_less [of n] Suc.prems by simp
  then have v: "unat (ucast ?v :: u32) < 2 ^ unat (3 :: u32)" by (simp add: unat_ucast_u8)
  have "writes ?e (TDEFL_PUT_BITS (ucast ?v) 3 ?e) (nat_bits (unat (ucast ?v :: u32)) (unat (3 :: u32)))"
    by (rule put_bits_writes [OF writes_bits_ok [OF w] _ v]) simp
  then have "writes d (TDEFL_PUT_BITS (ucast ?v) 3 ?e)
      (concat (map (\<lambda>i. nat_bits (unat (m_huff_code_sizes d ! 2 ! unat (s_tdefl_packed_code_size_syms_swizzle ! i))) 3) [0..<n])
       @ nat_bits (unat ?v) 3)"
    using writes_trans [OF w] by (simp add: unat_ucast_u8)
  then show ?case by (simp add: put_bit_lengths_def same [unfolded put_bit_lengths_def])
qed

text \<open>The header of a dynamic block, RFC 1951, 3.2.7: the block type, the numbers of sizes sent, the sizes of
  the code-size alphabet and the packed sizes.\<close>

definition dynamic_header :: "tdefl_compressor \<Rightarrow> nat \<Rightarrow> nat \<Rightarrow> nat \<Rightarrow> (nat \<times> nat) list \<Rightarrow> bool list" where
  "dynamic_header d num_lit num_dist num_len its =
     nat_bits 2 2 @ nat_bits (num_lit - 257) 5 @ nat_bits (num_dist - 1) 5 @ nat_bits (num_len - 4) 4
     @ concat (map (\<lambda>i. nat_bits (unat (m_huff_code_sizes d ! 2 ! unat (s_tdefl_packed_code_size_syms_swizzle ! i))) 3) [0..<num_len])
     @ concat (map (item_bits d) its)"

text \<open>What a header has to say of the tables: all their sizes can be read from it.\<close>

definition header_describes :: "tdefl_compressor \<Rightarrow> nat \<Rightarrow> nat \<Rightarrow> nat \<Rightarrow> (nat \<times> nat) list \<Rightarrow> bool" where
  "header_describes d num_lit num_dist num_len its \<longleftrightarrow>
     257 \<le> num_lit \<and> num_lit \<le> 286 \<and> 1 \<le> num_dist \<and> num_dist \<le> 30 \<and> 4 \<le> num_len \<and> num_len \<le> 19
     \<and> (\<forall>i. num_lit \<le> i \<and> i < 286 \<longrightarrow> m_huff_code_sizes d ! 0 ! i = 0)
     \<and> (\<forall>i. num_dist \<le> i \<and> i < 30 \<longrightarrow> m_huff_code_sizes d ! 1 ! i = 0)
     \<and> (\<forall>i. num_len \<le> i \<and> i < 19 \<longrightarrow> m_huff_code_sizes d ! 2 ! unat (s_tdefl_packed_code_size_syms_swizzle ! i) = 0)
     \<and> expands its (take num_lit (m_huff_code_sizes d ! 0) @ take num_dist (m_huff_code_sizes d ! 1))
     \<and> (\<forall>(s, e) \<in> set its. s < 19 \<and> symbol_bits d 2 s \<noteq> [])"

lemma sum_counts_le: "(\<Sum>i<n. count_list xs i) \<le> length (xs :: nat list)"
proof (induction xs)
  case (Cons x xs)
  have "(\<Sum>i<n. count_list (x # xs) i) = (\<Sum>i<n. (if i = x then 1 else 0) + count_list xs i)" by (intro sum.cong) auto
  also have "\<dots> \<le> 1 + (\<Sum>i<n. count_list xs i)" by (simp add: sum.distrib)
  finally show ?case using Cons by simp
qed simp

lemma sum_of_nat_counts:
  fixes xs :: "nat list"
  shows "(\<Sum>i<n. unat (of_nat (count_list xs i) :: u16)) \<le> length xs"
proof -
  have "unat (of_nat k :: u16) \<le> k" for k by (simp add: unat_of_nat take_bit_nat_eq_self_iff take_bit_nat_less_eq_self)
  then have "(\<Sum>i<n. unat (of_nat (count_list xs i) :: u16)) \<le> (\<Sum>i<n. count_list xs i)" by (intro sum_mono)
  then show ?thesis using sum_counts_le [of xs n] by simp
qed

text \<open>The part of the header that follows the first two tables.\<close>

definition put_header :: "nat \<Rightarrow> nat \<Rightarrow> nat \<Rightarrow> u8 list \<Rightarrow> tdefl_compressor \<Rightarrow> tdefl_compressor" where
  "put_header num_lit num_dist num_len packed d =
     put_packed packed (put_bit_lengths num_len (TDEFL_PUT_BITS (of_nat (num_len - 4)) 4
       (TDEFL_PUT_BITS (of_nat (num_dist - 1)) 5 (TDEFL_PUT_BITS (of_nat (num_lit - 257)) 5 (TDEFL_PUT_BITS 2 2 d)))))"

lemma put_header_writes:
  assumes "bits_ok d" "257 \<le> nl" "nl \<le> 286" "1 \<le> nd" "nd \<le> 30" "4 \<le> nb" "nb \<le> 19"
    "\<forall>i < 19. unat (m_huff_code_sizes d ! 2 ! i) \<le> 7" "table_fits d 2 19"
    "\<forall>(s, e) \<in> set its. s < 19 \<and> e < 2 ^ extra_of s"
  shows "writes d (put_header nl nd nb (items_bytes its) d) (dynamic_header d nl nd nb its)"
proof -
  let ?d1 = "TDEFL_PUT_BITS 2 2 d"
  let ?d2 = "TDEFL_PUT_BITS (of_nat (nl - 257)) 5 ?d1"
  let ?d3 = "TDEFL_PUT_BITS (of_nat (nd - 1)) 5 ?d2"
  let ?d4 = "TDEFL_PUT_BITS (of_nat (nb - 4)) 4 ?d3"
  let ?d5 = "put_bit_lengths nb ?d4"
  have put: "writes e (TDEFL_PUT_BITS (of_nat v) l e) (nat_bits v (unat l))"
    if "bits_ok e" "unat l \<le> 16" "v < 2 ^ unat l" "v < 65536" for e v and l :: u32
  proof -
    have "unat (of_nat v :: u32) = v" using that(4) by (simp add: unat_of_nat take_bit_nat_eq_self)
    then show ?thesis using put_bits_writes [of e l "of_nat v"] that by simp
  qed
  have w1: "writes d ?d1 (nat_bits 2 2)" using put [OF assms(1), of 2 2] by simp
  have w2: "writes ?d1 ?d2 (nat_bits (nl - 257) 5)" using put [OF writes_bits_ok [OF w1], of 5 "nl - 257"] assms(2,3) by simp
  have w3: "writes ?d2 ?d3 (nat_bits (nd - 1) 5)" using put [OF writes_bits_ok [OF w2], of 5 "nd - 1"] assms(4,5) by simp
  have w4: "writes ?d3 ?d4 (nat_bits (nb - 4) 4)" using put [OF writes_bits_ok [OF w3], of 4 "nb - 4"] assms(6,7) by simp
  have sizes: "m_huff_code_sizes ?d4 = m_huff_code_sizes d" by simp
  have w5: "writes ?d4 ?d5 (concat (map (\<lambda>i. nat_bits (unat (m_huff_code_sizes d ! 2 ! unat (s_tdefl_packed_code_size_syms_swizzle ! i))) 3) [0..<nb]))"
    using put_bit_lengths_writes [OF writes_bits_ok [OF w4] assms(7)] assms(8) by (simp only: sizes)
  note w15 = writes_trans [OF w1 writes_trans [OF w2 writes_trans [OF w3 writes_trans [OF w4 w5]]]]
  note same = output_only_tables [OF writes_output_only [OF w15]]
  have "item_bits ?d5 i = item_bits d i" for i by (cases i) (simp only: item_bits.simps same)
  then have ib: "item_bits ?d5 = item_bits d" by (rule ext)
  have "writes ?d5 (put_packed (items_bytes its) ?d5) (concat (map (item_bits ?d5) its))"
    using assms(9,10) by (intro put_packed_writes writes_bits_ok [OF w15]) (simp_all only: same)
  then show ?thesis
    using writes_trans [OF w15] unfolding ib by (simp add: put_header_def dynamic_header_def)
qed

lemma start_dynamic_block:
  assumes shape: "length (m_huff_count d) = 3" "length (m_huff_codes d) = 3" "length (m_huff_code_sizes d) = 3"
      "288 \<le> length (m_huff_count d ! 0)" "32 \<le> length (m_huff_count d ! 1)" "19 \<le> length (m_huff_count d ! 2)"
    and lits: "counts = (m_huff_count d ! 0)[256 := 1]" "(\<Sum>i<288. unat (counts ! i)) < 65536"
    and dists: "(\<Sum>i<32. unat (m_huff_count d ! 1 ! i)) < 65536"
    and ok: "bits_ok d"
  shows "\<exists>d' num_lit num_dist num_len its. tdefl_start_dynamic_block d = Some d'
    \<and> (\<forall>i < 288. (symbol_bits d' 0 i \<noteq> []) = (counts ! i \<noteq> 0)) \<and> prefix_table d' 0 288 \<and> table_fits d' 0 288
    \<and> (\<forall>i < 32. (symbol_bits d' 1 i \<noteq> []) = (m_huff_count d ! 1 ! i \<noteq> 0)) \<and> prefix_table d' 1 32 \<and> table_fits d' 1 32
    \<and> prefix_table d' 2 19 \<and> header_describes d' num_lit num_dist num_len its
    \<and> emits d d' (dynamic_header d' num_lit num_dist num_len its)
    \<and> m_lz_code_buf d' = m_lz_code_buf d \<and> m_pLZ_code_buf d' = m_pLZ_code_buf d
    \<and> canonical d' 0 288 \<and> canonical d' 1 32 \<and> canonical d' 2 19 \<and> (\<forall>i < 19. unat (m_huff_code_sizes d' ! 2 ! i) < 8)"
proof -
  let ?d0 = "d\<lparr>m_huff_count := (m_huff_count d)[0 := counts]\<rparr>"
  obtain s0 c0 where o0: "tdefl_optimize_huffman_table ?d0 0 288 15 False
      = Some (?d0\<lparr>m_huff_code_sizes := (m_huff_code_sizes ?d0)[0 := s0], m_huff_codes := (m_huff_codes ?d0)[0 := c0]\<rparr>)"
    and s0: "length s0 = 288" "\<forall>i < 288. (s0 ! i \<noteq> 0) = (counts ! i \<noteq> 0)"
      "\<forall>i < 288. unat (s0 ! i) \<le> 15 \<and> unat (c0 ! i) < 2 ^ unat (s0 ! i)"
      "\<forall>i < 288. \<forall>j < 288. i \<noteq> j \<and> s0 ! i \<noteq> 0 \<and> s0 ! j \<noteq> 0
        \<longrightarrow> \<not> prefix (code_bits (c0 ! i) (unat (s0 ! i))) (code_bits (c0 ! j) (unat (s0 ! j)))"
      "\<forall>i < 288. code_bits (c0 ! i) (unat (s0 ! i)) = table_bits (map (\<lambda>i. unat (s0 ! i)) [0..<288]) i"
    using optimize_table [of 288 15 0 ?d0] shape lits by auto
  let ?d1 = "?d0\<lparr>m_huff_code_sizes := (m_huff_code_sizes d)[0 := s0], m_huff_codes := (m_huff_codes d)[0 := c0]\<rparr>"
  have o0': "tdefl_optimize_huffman_table ?d0 0 288 15 False = Some ?d1" using o0 by simp
  obtain s1 c1 where o1: "tdefl_optimize_huffman_table ?d1 1 32 15 False
      = Some (?d1\<lparr>m_huff_code_sizes := (m_huff_code_sizes ?d1)[1 := s1], m_huff_codes := (m_huff_codes ?d1)[1 := c1]\<rparr>)"
    and s1: "length s1 = 288" "\<forall>i < 32. (s1 ! i \<noteq> 0) = (m_huff_count d ! 1 ! i \<noteq> 0)"
      "\<forall>i < 32. unat (s1 ! i) \<le> 15 \<and> unat (c1 ! i) < 2 ^ unat (s1 ! i)"
      "\<forall>i < 32. \<forall>j < 32. i \<noteq> j \<and> s1 ! i \<noteq> 0 \<and> s1 ! j \<noteq> 0
        \<longrightarrow> \<not> prefix (code_bits (c1 ! i) (unat (s1 ! i))) (code_bits (c1 ! j) (unat (s1 ! j)))"
      "\<forall>i < 32. code_bits (c1 ! i) (unat (s1 ! i)) = table_bits (map (\<lambda>i. unat (s1 ! i)) [0..<32]) i"
    using optimize_table [of 32 15 1 ?d1] shape dists by auto
  let ?d2 = "?d0\<lparr>m_huff_code_sizes := (m_huff_code_sizes d)[0 := s0, 1 := s1], m_huff_codes := (m_huff_codes d)[0 := c0, 1 := c1]\<rparr>"
  have o1': "tdefl_optimize_huffman_table ?d1 1 32 15 False = Some ?d2" using o1 by simp
  define nl where "nl = num_codes_used 257 s0 286"
  define nd where "nd = num_codes_used 1 s1 30"
  have nl: "257 \<le> nl" "nl \<le> 286" "\<forall>i. nl \<le> i \<and> i < 286 \<longrightarrow> s0 ! i = 0"
    using num_codes_used [of 257 286 s0] by (simp_all add: nl_def)
  have nd: "1 \<le> nd" "nd \<le> 30" "\<forall>i. nd \<le> i \<and> i < 30 \<longrightarrow> s1 ! i = 0"
    using num_codes_used [of 1 30 s1] by (simp_all add: nd_def)
  let ?xs = "take nl s0 @ take nd s1"
  let ?z = "fill 0 19 0 (m_huff_count d ! 2)"
  have "x < 16" if x: "x \<in> set ?xs" for x
  proof -
    have small: "unat x \<le> 15" if x: "x \<in> set (take n s)" "n \<le> m" "m \<le> length s" "\<forall>i < m. unat (s ! i) \<le> 15" for n m s
      using x by (auto simp: in_set_conv_nth)
    from x consider "x \<in> set (take nl s0)" | "x \<in> set (take nd s1)" by auto
    then have "unat x \<le> 15"
      by cases (use small [of nl s0 288] small [of nd s1 32] nl(2) nd(2) s0(1,3) s1(1,3) in auto)
    then show "x < 16" by (simp add: word_less_nat_alt)
  qed
  then obtain its where its: "packs ?z (pack_code_sizes ?z ?xs) its ?xs"
    using pack_code_sizes_items [of ?z ?xs] shape(6) by auto
  define s where "s = pack_code_sizes ?z ?xs"
  have it: "expands its ?xs" "packed_code_sizes s = items_bytes its" "length (rle_counts s) = length (m_huff_count d ! 2)"
    "\<forall>i < 19. rle_counts s ! i = of_nat (count_list (map fst its) i)"
    using its shape(6) by (simp_all add: packs_def s_def fill_nth)
  have itx: "length its \<le> length ?xs" "\<forall>(s, e) \<in> set its. s < 19 \<and> e < 2 ^ extra_of s" using expands_items [OF it(1)] by blast+
  have few: "length its < 65536" using itx(1) nl(2) nd(2) by simp
  let ?d3 = "?d2\<lparr>m_huff_count := (m_huff_count d)[0 := counts, 2 := rle_counts s]\<rparr>"
  have "(\<Sum>i<19. unat (rle_counts s ! i)) \<le> length its"
    using sum_of_nat_counts [of "map fst its" 19] it(4) by simp
  then have total: "(\<Sum>i<19. unat (m_huff_count ?d3 ! 2 ! i)) < 65536" using few shape by simp
  obtain s2 c2 where o2: "tdefl_optimize_huffman_table ?d3 2 19 7 False
      = Some (?d3\<lparr>m_huff_code_sizes := (m_huff_code_sizes ?d3)[2 := s2], m_huff_codes := (m_huff_codes ?d3)[2 := c2]\<rparr>)"
    and s2: "length s2 = 288" "\<forall>i < 19. (s2 ! i \<noteq> 0) = (rle_counts s ! i \<noteq> 0)"
      "\<forall>i < 19. unat (s2 ! i) \<le> 7 \<and> unat (c2 ! i) < 2 ^ unat (s2 ! i)"
      "\<forall>i < 19. \<forall>j < 19. i \<noteq> j \<and> s2 ! i \<noteq> 0 \<and> s2 ! j \<noteq> 0
        \<longrightarrow> \<not> prefix (code_bits (c2 ! i) (unat (s2 ! i))) (code_bits (c2 ! j) (unat (s2 ! j)))"
      "\<forall>i < 19. code_bits (c2 ! i) (unat (s2 ! i)) = table_bits (map (\<lambda>i. unat (s2 ! i)) [0..<19]) i"
    using optimize_table [of 19 7 2 ?d3] shape it(3) total by auto
  let ?d4 = "?d3\<lparr>m_huff_code_sizes := (m_huff_code_sizes d)[0 := s0, 1 := s1, 2 := s2],
    m_huff_codes := (m_huff_codes d)[0 := c0, 1 := c1, 2 := c2]\<rparr>"
  have o2': "tdefl_optimize_huffman_table ?d3 2 19 7 False = Some ?d4" using o2 by simp
  have sz: "m_huff_code_sizes ?d4 ! 0 = s0" "m_huff_code_sizes ?d4 ! 1 = s1" "m_huff_code_sizes ?d4 ! 2 = s2"
    "m_huff_codes ?d4 ! 0 = c0" "m_huff_codes ?d4 ! 1 = c1" "m_huff_codes ?d4 ! 2 = c2" using shape by simp_all
  define nb where "nb = max 4 (bit_lengths s2 19)"
  have nb: "4 \<le> nb" "nb \<le> 19" "\<forall>i. nb \<le> i \<and> i < 19 \<longrightarrow> s2 ! unat (s_tdefl_packed_code_size_syms_swizzle ! i) = 0"
    using bit_lengths [of s2 19] by (simp_all add: nb_def)
  let ?d' = "put_header nl nd nb (items_bytes its) ?d4"
  have run: "tdefl_start_dynamic_block d = Some ?d'"
  proof -
    have c: "(m_huff_count d)[0 := (m_huff_count d ! 0)[256 := 1]] = (m_huff_count d)[0 := counts]" by (simp only: lits(1))
    have e2: "m_huff_code_sizes ?d2 ! 0 = s0" "m_huff_code_sizes ?d2 ! 1 = s1" "m_huff_count ?d2 ! 2 = m_huff_count d ! 2"
      "?d2\<lparr>m_huff_count := (m_huff_count ?d2)[2 := rle_counts s]\<rparr> = ?d3"
      using shape by simp_all
    show ?thesis
      unfolding tdefl_start_dynamic_block_def
      by (simp only: Let_def c o0' o1' option.case e2 nl_def [symmetric] nd_def [symmetric] s_def [symmetric] o2' put_bits_fields sz(3)
          nb_def [symmetric] put_header_def it(2))
  qed
  have fits: "table_fits ?d4 0 288" "table_fits ?d4 1 32" "table_fits ?d4 2 19"
    unfolding table_fits_def sz using s0(3) s1(3) s2(3) by (blast, blast, fastforce)
  have bits: "symbol_bits ?d4 0 i = code_bits (c0 ! i) (unat (s0 ! i))" "symbol_bits ?d4 1 i = code_bits (c1 ! i) (unat (s1 ! i))"
    "symbol_bits ?d4 2 i = code_bits (c2 ! i) (unat (s2 ! i))" for i by (simp_all only: symbol_bits_def sz)
  have nil: "(symbol_bits ?d4 0 i = []) = (s0 ! i = 0)" "(symbol_bits ?d4 1 i = []) = (s1 ! i = 0)"
    "(symbol_bits ?d4 2 i = []) = (s2 ! i = 0)" for i by (simp_all only: symbol_bits_Nil sz)
  have pt: "prefix_table ?d4 0 288" "prefix_table ?d4 1 32" "prefix_table ?d4 2 19"
    unfolding prefix_table_def nil unfolding bits using s0(4) s1(4) s2(4) by blast+
  have e4: "emits d ?d4 []" using ok by (simp add: emits_def bits_ok_def out_bits_def progress_def)
  have w: "writes ?d4 ?d' (dynamic_header ?d4 nl nd nb its)"
    using nl nd nb itx(2) fits(3) s2(3) by (intro put_header_writes emits_bits_ok [OF e4]) (simp_all only: sz, auto)
  note same = output_only_tables [OF writes_output_only [OF w]] and f = output_only_fields [OF writes_output_only [OF w]]
  have hd: "dynamic_header ?d' nl nd nb its = dynamic_header ?d4 nl nd nb its"
  proof -
    have "item_bits ?d' i = item_bits ?d4 i" for i by (cases i) (simp only: item_bits.simps same)
    then have "item_bits ?d' = item_bits ?d4" by (rule ext)
    then show ?thesis by (simp only: dynamic_header_def f)
  qed
  have e: "emits d ?d' (dynamic_header ?d' nl nd nb its)"
    unfolding hd using emits_trans [OF e4 writes_emits [OF w]] by (simp only: append_Nil)
  have used: "symbol_bits ?d4 2 (fst i) \<noteq> [] \<and> fst i < 19" if i: "i \<in> set its" for i
  proof -
    have l: "fst i < 19" using itx(2) i by auto
    have "count_list (map fst its) (fst i) \<noteq> 0" using i by (simp add: count_list_0_iff)
    moreover have "count_list (map fst its) (fst i) < 65536" using count_le_length [of "map fst its" "fst i"] few by simp
    ultimately have "unat (of_nat (count_list (map fst its) (fst i)) :: u16) \<noteq> unat (0 :: u16)" by (simp add: of_nat_u16)
    then have "(of_nat (count_list (map fst its) (fst i)) :: u16) \<noteq> 0" by (simp only: word_unat_eq_iff) simp
    then have "s2 ! fst i \<noteq> 0" using s2(2) it(4) l by simp
    then show ?thesis using l nil(3) by blast
  qed
  have hdesc: "header_describes ?d' nl nd nb its"
    using nl nd nb it(1) used unfolding header_describes_def same f sz by auto
  have lz: "m_lz_code_buf ?d' = m_lz_code_buf d" "m_pLZ_code_buf ?d' = m_pLZ_code_buf d"
    unfolding f by simp_all
  have u: "\<forall>i < 288. (symbol_bits ?d' 0 i \<noteq> []) = (counts ! i \<noteq> 0)"
    "\<forall>i < 32. (symbol_bits ?d' 1 i \<noteq> []) = (m_huff_count d ! 1 ! i \<noteq> 0)"
    unfolding same nil by (rule s0(2), rule s1(2))
  have pt': "prefix_table ?d' 0 288" "prefix_table ?d' 1 32" "prefix_table ?d' 2 19"
    using pt unfolding prefix_table_def same by blast+
  have fits': "table_fits ?d' 0 288" "table_fits ?d' 1 32" unfolding same by (rule fits)+
  have can: "canonical ?d' 0 288" "canonical ?d' 1 32" "canonical ?d' 2 19"
    unfolding canonical_def sizes_of_def same f sz bits by (rule s0(5), rule s1(5), rule s2(5))
  have seven: "\<forall>i < 19. unat (m_huff_code_sizes ?d' ! 2 ! i) < 8" unfolding f sz using s2(3) by auto
  show ?thesis
    by (rule exI [of _ ?d'], rule exI [of _ nl], rule exI [of _ nd], rule exI [of _ nb], rule exI [of _ its])
      (intro conjI run u pt' fits' hdesc e lz can seven)
qed

text \<open>C6: \<open>tdefl_start_dynamic_block\<close> ends, makes for each of the two alphabets a prefix code for exactly the
  symbols that occur, the end of block among them, and writes a header from which the decompressor can
  read all code sizes: the sizes not sent are 0, the packed ones expand to the sizes of both tables, and
  every symbol of the packed sizes has a code.\<close>

theorem start_dynamic_block_describes_tables:
  assumes shape: "length (m_huff_count d) = 3" "length (m_huff_codes d) = 3" "length (m_huff_code_sizes d) = 3"
      "288 \<le> length (m_huff_count d ! 0)" "32 \<le> length (m_huff_count d ! 1)" "19 \<le> length (m_huff_count d ! 2)"
    and lits: "counts = (m_huff_count d ! 0)[256 := 1]" "(\<Sum>i<288. unat (counts ! i)) < 65536"
    and dists: "(\<Sum>i<32. unat (m_huff_count d ! 1 ! i)) < 65536"
    and ok: "bits_ok d"
  shows "\<exists>d' num_lit num_dist num_len its. tdefl_start_dynamic_block d = Some d'
    \<and> (\<forall>i < 288. (symbol_bits d' 0 i \<noteq> []) = (counts ! i \<noteq> 0)) \<and> prefix_table d' 0 288 \<and> table_fits d' 0 288
    \<and> (\<forall>i < 32. (symbol_bits d' 1 i \<noteq> []) = (m_huff_count d ! 1 ! i \<noteq> 0)) \<and> prefix_table d' 1 32 \<and> table_fits d' 1 32
    \<and> prefix_table d' 2 19 \<and> header_describes d' num_lit num_dist num_len its
    \<and> emits d d' (dynamic_header d' num_lit num_dist num_len its)
    \<and> m_lz_code_buf d' = m_lz_code_buf d \<and> m_pLZ_code_buf d' = m_pLZ_code_buf d"
  using start_dynamic_block [OF assms] by (elim exE conjE) (intro exI conjI)

definition demo_block :: tdefl_compressor where
  "demo_block = demo_codes\<lparr>m_huff_count := [replicate 288 0, replicate 288 0, replicate 288 0]\<rparr>"

lemma demo_block_counts: "(\<Sum>i<288. unat (((m_huff_count demo_block ! 0)[256 := 1]) ! i)) = 1"
proof -
  have "(\<Sum>i<288. unat (((m_huff_count demo_block ! 0)[256 := 1]) ! i)) = (\<Sum>i<(288 :: nat). if i = 256 then 1 else 0)"
    by (intro sum.cong) (auto simp: demo_block_def nth_list_update)
  then show ?thesis by simp
qed

lemma start_dynamic_block_describes_tables_witness:
  "\<exists>d'. tdefl_start_dynamic_block demo_block = Some d' \<and> symbol_bits d' 0 256 \<noteq> [] \<and> symbol_bits d' 0 65 = []"
proof -
  let ?counts = "(m_huff_count demo_block ! 0)[256 := 1]"
  have "\<exists>d' num_lit num_dist num_len its. tdefl_start_dynamic_block demo_block = Some d'
    \<and> (\<forall>i < 288. (symbol_bits d' 0 i \<noteq> []) = (?counts ! i \<noteq> 0)) \<and> prefix_table d' 0 288 \<and> table_fits d' 0 288
    \<and> (\<forall>i < 32. (symbol_bits d' 1 i \<noteq> []) = (m_huff_count demo_block ! 1 ! i \<noteq> 0)) \<and> prefix_table d' 1 32 \<and> table_fits d' 1 32
    \<and> prefix_table d' 2 19 \<and> header_describes d' num_lit num_dist num_len its
    \<and> emits demo_block d' (dynamic_header d' num_lit num_dist num_len its)
    \<and> m_lz_code_buf d' = m_lz_code_buf demo_block \<and> m_pLZ_code_buf d' = m_pLZ_code_buf demo_block"
  proof (rule start_dynamic_block_describes_tables [OF _ _ _ _ _ _ refl])
    show "(\<Sum>i<288. unat (?counts ! i)) < 65536" by (simp only: demo_block_counts)
  qed (simp_all add: demo_block_def demo_codes_def bits_ok_def)
  then obtain d' where d': "tdefl_start_dynamic_block demo_block = Some d'"
    "\<forall>i < 288. (symbol_bits d' 0 i \<noteq> []) = (?counts ! i \<noteq> 0)" by blast
  have "?counts ! 256 = 1" "?counts ! 65 = 0" by (simp_all add: demo_block_def)
  then show ?thesis using d'(1) d'(2) [rule_format, of 256] d'(2) [rule_format, of 65] by simp
qed

end
