(* ===== verification/DeflDecode.thy ===== *)
theory DeflDecode
  imports DeflBlock
begin

text \<open>
  A reader of the codes of a block, as RFC 1951 defines them, and what it reads from the blocks that the
  compressor writes: the codes the parser recorded.  Here recording, tables, headers and the bit writer
  of the compressor meet the length and distance tables of the decompressor.
\<close>

unbundle bit_operations_syntax

subsection \<open>The reader\<close>

text \<open>A symbol is one whose bits come next; extra bits have the lowest first.\<close>

definition read_symbol :: "(nat \<Rightarrow> bool list) \<Rightarrow> nat \<Rightarrow> bool list \<Rightarrow> (nat \<times> bool list) option" where
  "read_symbol tab n bs =
     (case filter (\<lambda>i. tab i \<noteq> [] \<and> prefix (tab i) bs) [0..<n] of
        [] \<Rightarrow> None
      | i # is \<Rightarrow> Some (i, drop (length (tab i)) bs))"

definition read_bits :: "nat \<Rightarrow> bool list \<Rightarrow> nat \<times> bool list" where
  "read_bits n bs = (horner_sum of_bool 2 (take n bs), drop n bs)"

lemma read_symbol_shorter: "read_symbol tab n bs = Some (i, rs) \<Longrightarrow> length rs < length bs"
proof -
  assume r: "read_symbol tab n bs = Some (i, rs)"
  let ?P = "\<lambda>i. tab i \<noteq> [] \<and> prefix (tab i) bs"
  obtain "is" where f: "filter ?P [0..<n] = i # is" "rs = drop (length (tab i)) bs"
    using r by (auto simp: read_symbol_def split: list.splits)
  then have "i \<in> set (filter ?P [0..<n])" by simp
  then have "tab i \<noteq> []" "prefix (tab i) bs" by simp_all
  then have "0 < length (tab i)" "length (tab i) \<le> length bs" by (simp_all add: prefix_length_le)
  then show ?thesis unfolding f(2) length_drop by linarith
qed

lemma read_symbol_cong: "(\<And>i. i < n \<Longrightarrow> tab i = tab' i) \<Longrightarrow> read_symbol tab n bs = read_symbol tab' n bs"
proof -
  assume eq: "\<And>i. i < n \<Longrightarrow> tab i = tab' i"
  have f: "filter (\<lambda>i. tab i \<noteq> [] \<and> prefix (tab i) bs) [0..<n] = filter (\<lambda>i. tab' i \<noteq> [] \<and> prefix (tab' i) bs) [0..<n]"
    using eq by (intro filter_cong) auto
  show ?thesis
  proof (cases "filter (\<lambda>i. tab i \<noteq> [] \<and> prefix (tab i) bs) [0..<n]")
    case Nil
    then show ?thesis using f by (simp add: read_symbol_def)
  next
    case (Cons i js)
    then have "i \<in> set (filter (\<lambda>i. tab i \<noteq> [] \<and> prefix (tab i) bs) [0..<n])" by simp
    then have "i < n" by simp
    then show ?thesis unfolding read_symbol_def f [symmetric] Cons using eq by simp
  qed
qed

text \<open>Codes up to the end of the block, in the form of the code buffer, and the bits after it; \<open>lit\<close> and \<open>dist\<close>
  are the two tables.\<close>

function read_codes :: "(nat \<Rightarrow> bool list) \<Rightarrow> (nat \<Rightarrow> bool list) \<Rightarrow> bool list \<Rightarrow> (lz_code list \<times> bool list) option" where
  "read_codes lit dist bs =
     (case read_symbol lit 288 bs of
        None \<Rightarrow> None
      | Some (s, bs1) \<Rightarrow>
        if s < 256 then map_option (\<lambda>(cs, r). (Literal (of_nat s) # cs, r)) (read_codes lit dist bs1)
        else if s = 256 then Some ([], bs1)
        else
          (let (x, bs2) = read_bits (unat (s_length_extra ! (s - 257))) bs1 in
           case read_symbol dist 32 bs2 of
             None \<Rightarrow> None
           | Some (t, bs3) \<Rightarrow>
             let (y, bs4) = read_bits (unat (s_dist_extra ! t)) bs3
             in map_option (\<lambda>(cs, r). (Match (inflate_length s (of_nat x) - 3) (inflate_dist t (of_nat y) - 1) # cs, r))
                  (read_codes lit dist bs4)))"
  by pat_completeness auto
termination
  by (relation "measure (\<lambda>(lit, dist, bs). length bs)")
    (auto simp: read_bits_def dest!: read_symbol_shorter)

declare read_codes.simps [simp del]

abbreviation block_codes :: "tdefl_compressor \<Rightarrow> bool list \<Rightarrow> (lz_code list \<times> bool list) option" where
  "block_codes d \<equiv> read_codes (symbol_bits d 0) (symbol_bits d 1)"

subsection \<open>Reading what was written\<close>

lemma read_symbol_written:
  assumes "prefix_table d t n" "i < n" "symbol_bits d t i \<noteq> []"
  shows "read_symbol (symbol_bits d t) n (symbol_bits d t i @ rst) = Some (i, rst)"
proof -
  let ?P = "\<lambda>j. symbol_bits d t j \<noteq> [] \<and> prefix (symbol_bits d t j) (symbol_bits d t i @ rst)"
  have P: "?P j = (j = i)" if "j < n" for j
  proof
    assume j: "?P j"
    have "prefix (symbol_bits d t i) (symbol_bits d t i @ rst)" by simp
    then have "prefix (symbol_bits d t j) (symbol_bits d t i) \<or> prefix (symbol_bits d t i) (symbol_bits d t j)"
      using j prefix_same_cases by blast
    then show "j = i" using assms j that unfolding prefix_table_def by blast
  qed (use assms in simp)
  have "filter ?P [0..<n] = filter (\<lambda>j. j = i) [0..<n]" using P by (intro filter_cong) auto
  also have "\<dots> = [i]" using assms(2)
  proof (induction n)
    case (Suc n)
    have "filter (\<lambda>j. j = n) [0..<n] = []" by (simp add: filter_empty_conv)
    then show ?case using Suc by (cases "i = n") simp_all
  qed simp
  finally show ?thesis by (simp add: read_symbol_def)
qed

lemma read_bits_written: "n = length bs \<Longrightarrow> read_bits n (bs @ rst) = (horner_sum of_bool 2 bs, rst)"
  by (simp add: read_bits_def)

lemma nat_bits_value: "horner_sum of_bool 2 (nat_bits x n) = x mod 2 ^ n"
  by (simp only: nat_bits_def horner_sum_bit_eq_take_bit take_bit_eq_mod)

text \<open>The symbols of a code.\<close>

fun lit_symbol :: "lz_code \<Rightarrow> nat" where
  "lit_symbol (Literal b) = unat b"
| "lit_symbol (Match l q) = unat (fst (len_code l))"

fun dist_symbols :: "lz_code \<Rightarrow> nat list" where
  "dist_symbols (Literal b) = []"
| "dist_symbols (Match l q) = [unat (fst (dist_code q))]"

definition has_codes :: "tdefl_compressor \<Rightarrow> lz_code \<Rightarrow> bool" where
  "has_codes d c \<longleftrightarrow> symbol_bits d 0 (lit_symbol c) \<noteq> [] \<and> (\<forall>t \<in> set (dist_symbols c). symbol_bits d 1 t \<noteq> [])"

lemma low_bits_word:
  fixes m :: u32
  assumes "n \<le> 16"
  shows "of_nat (unat m mod 2 ^ n) = (m AND mz_bitmasks ! n)"
proof -
  have "of_nat (unat (m AND mz_bitmasks ! n)) = (m AND mz_bitmasks ! n)" by (simp only: of_nat_unat ucast_id)
  then show ?thesis by (simp only: low_bits [OF assms])
qed

lemma inflate_code:
  assumes l: "unat l < 256" and q: "unat q < 32768"
    and c: "len_code l = (s, e)" "dist_code q = (t, f)"
  shows "inflate_length (unat s) (of_nat (unat l mod 2 ^ unat e)) - 3 = l" "s_length_extra ! (unat s - 257) = e"
    "inflate_dist (unat t) (of_nat (unat q mod 2 ^ unat f)) - 1 = q" "s_dist_extra ! unat t = f"
proof -
  note i = inflate_symbols [OF l q c]
  have n: "unat e \<le> 16" "unat f \<le> 16" using len_code_bounds(3) [OF l] dist_code_bounds(2) [OF q] c by simp_all
  show "inflate_length (unat s) (of_nat (unat l mod 2 ^ unat e)) - 3 = l" by (simp only: low_bits_word [OF n(1)] i) simp
  show "inflate_dist (unat t) (of_nat (unat q mod 2 ^ unat f)) - 1 = q" by (simp only: low_bits_word [OF n(2)] i) simp
  show "s_length_extra ! (unat s - 257) = e" "s_dist_extra ! unat t = f" by (rule i)+
qed

lemma read_code_written:
  assumes t: "prefix_table d 0 288" "prefix_table d 1 32" and c: "code_ok c" "has_codes d c"
    and r: "block_codes d rst = Some (cs, end')"
  shows "block_codes d (lz_code_bits d c @ rst) = Some (c # cs, end')"
proof (cases c)
  case (Literal b)
  have b: "unat b < 2 ^ LENGTH(8)" by (rule unsigned_less)
  then have s: "read_symbol (symbol_bits d 0) 288 (symbol_bits d 0 (unat b) @ rst) = Some (unat b, rst)"
    using c(2) Literal by (intro read_symbol_written [OF t(1)]) (simp_all add: has_codes_def)
  have "unat b < 256" using b by simp
  then show ?thesis
    using r Literal by (subst read_codes.simps) (simp add: s)
next
  case (Match l q)
  obtain s e t' f where k: "len_code l = (s, e)" "dist_code q = (t', f)" by (metis surj_pair)
  have l: "unat l < 256" and q: "unat q < 32768" using c(1) Match by simp_all
  note i = inflate_code [OF l q k]
  have sb: "257 \<le> unat s" "unat s \<le> 285" "unat t' < 30"
    using len_code_bounds [OF l] dist_code_bounds [OF q] k by simp_all
  let ?l = "nat_bits (unat l mod 2 ^ unat e) (unat e)" and ?q = "nat_bits (unat q mod 2 ^ unat f) (unat f)"
  let ?r3 = "?q @ rst" let ?r2 = "symbol_bits d 1 (unat t') @ ?r3" let ?r1 = "?l @ ?r2"
  have bits: "lz_code_bits d c @ rst = symbol_bits d 0 (unat s) @ ?r1" using Match k by simp
  have s1: "read_symbol (symbol_bits d 0) 288 (symbol_bits d 0 (unat s) @ ?r1) = Some (unat s, ?r1)"
    using c(2) Match k sb by (intro read_symbol_written [OF t(1)]) (simp_all add: has_codes_def)
  have s2: "read_bits (unat (s_length_extra ! (unat s - 257))) ?r1 = (unat l mod 2 ^ unat e, ?r2)"
    unfolding i(2) by (subst read_bits_written) (simp_all only: nat_bits_length nat_bits_value mod_mod_trivial)
  have s3: "read_symbol (symbol_bits d 1) 32 ?r2 = Some (unat t', ?r3)"
    using c(2) Match k sb by (intro read_symbol_written [OF t(2)]) (simp_all add: has_codes_def)
  have s4: "read_bits (unat (s_dist_extra ! unat t')) ?r3 = (unat q mod 2 ^ unat f, rst)"
    unfolding i(4) by (subst read_bits_written) (simp_all only: nat_bits_length nat_bits_value mod_mod_trivial)
  have "\<not> unat s < 256" "unat s \<noteq> 256" using sb by simp_all
  then show ?thesis
    unfolding bits by (subst read_codes.simps)
      (simp only: s1 option.case prod.case if_False s2 Let_def s3 s4 r option.map i(1,3) Match)
qed

lemma read_codes_written:
  assumes "prefix_table d 0 288" "prefix_table d 1 32" "list_all code_ok cs" "list_all (has_codes d) cs" "symbol_bits d 0 256 \<noteq> []"
  shows "block_codes d (concat (map (lz_code_bits d) cs) @ symbol_bits d 0 256 @ rst) = Some (cs, rst)"
  using assms(3,4)
proof (induction cs)
  case Nil
  have "read_symbol (symbol_bits d 0) 288 (symbol_bits d 0 256 @ rst) = Some (256, rst)"
    by (rule read_symbol_written [OF assms(1) _ assms(5)]) simp
  then show ?case by (subst read_codes.simps) simp
next
  case (Cons c cs)
  then show ?case using read_code_written [OF assms(1,2)] by simp
qed

subsection \<open>The counts of what was recorded\<close>

definition counts_codes :: "tdefl_compressor \<Rightarrow> lz_code list \<Rightarrow> bool" where
  "counts_codes d cs \<longleftrightarrow> length (m_huff_count d) = 3 \<and> length (m_huff_count d ! 0) = 288 \<and> length (m_huff_count d ! 1) = 288
     \<and> length (m_huff_count d ! 2) = 288
     \<and> (\<forall>i < 288. m_huff_count d ! 0 ! i = of_nat (count_list (map lit_symbol cs) i))
     \<and> (\<forall>i < 32. m_huff_count d ! 1 ! i = of_nat (count_list (concat (map dist_symbols cs)) i))"

lemma record_flag_fields [simp]:
  "m_huff_count (record_flag b d) = m_huff_count d" "m_huff_codes (record_flag b d) = m_huff_codes d"
  "m_huff_code_sizes (record_flag b d) = m_huff_code_sizes d" "m_bits_in (record_flag b d) = m_bits_in d"
  "m_bit_buffer (record_flag b d) = m_bit_buffer d" "m_output_buf (record_flag b d) = m_output_buf d"
  "m_pOutput_buf (record_flag b d) = m_pOutput_buf d" "m_pOutput_buf_end (record_flag b d) = m_pOutput_buf_end d"
  by (simp_all add: record_flag_def Let_def)

lemma record_code_fields:
  "m_huff_codes (record_code d c) = m_huff_codes d" "m_huff_code_sizes (record_code d c) = m_huff_code_sizes d"
  "m_bits_in (record_code d c) = m_bits_in d" "m_bit_buffer (record_code d c) = m_bit_buffer d"
  "m_output_buf (record_code d c) = m_output_buf d" "m_pOutput_buf (record_code d c) = m_pOutput_buf d"
  "m_pOutput_buf_end (record_code d c) = m_pOutput_buf_end d"
  by (cases c; simp add: tdefl_record_literal_def tdefl_record_match_def bump_def Let_def)+

lemma mask_511: "(511 :: u32) = mask 9" and mask_127: "(127 :: u32) = mask 7"
  by (simp_all add: mask_eq_exp_minus_1)

lemma recorded_dist_symbol:
  assumes q: "unat (q :: u32) < 32768"
  shows "(if q < 512 then s_tdefl_small_dist_sym ! unat (q AND 511) else s_tdefl_large_dist_sym ! unat (drop_bit 8 q AND 127))
    = fst (dist_code q)"
proof -
  have small: "q AND 511 = q" if "q < 512"
  proof -
    have "unat q < 2 ^ 9" using that by (simp add: word_less_nat_alt)
    then have "unat (take_bit 9 q) = unat q" by (simp only: unsigned_take_bit_eq take_bit_nat_eq_self)
    then show ?thesis by (simp only: mask_511 take_bit_eq_mask [symmetric] word_unat_eq_iff)
  qed
  have large: "drop_bit 8 q AND 127 = drop_bit 8 q"
  proof -
    have "unat (drop_bit 8 q) = unat q div 256" by (simp add: drop_bit_eq_div unat_div_distrib)
    then have "unat (drop_bit 8 q) < 2 ^ 7" using q by simp
    then have "unat (take_bit 7 (drop_bit 8 q)) = unat (drop_bit 8 q)" by (simp only: unsigned_take_bit_eq take_bit_nat_eq_self)
    then show ?thesis by (simp only: mask_127 take_bit_eq_mask [symmetric] word_unat_eq_iff)
  qed
  show ?thesis using small large by (simp add: dist_code_def)
qed

lemma record_code_counts:
  assumes "counts_codes d cs" "code_ok c"
  shows "counts_codes (record_code d c) (cs @ [c])"
proof (cases c)
  case (Literal b)
  have "unat b < 2 ^ LENGTH(8)" by (rule unsigned_less)
  then have "unat b < 288" by simp
  then show ?thesis
    using assms(1) Literal
    by (simp add: counts_codes_def tdefl_record_literal_def bump_def Let_def nth_list_update)
next
  case (Match l q)
  have l: "unat l < 256" and q: "unat q < 32768" using assms(2) Match by simp_all
  let ?t = "unat (fst (dist_code q))" and ?s = "unat (fst (len_code l))"
  have b: "?t < 30" "?s < 288" using dist_code_bounds [OF q] len_code_bounds [OF l] by simp_all
  have run: "m_huff_count (record_code d c)
      = (let h = (m_huff_count d)[1 := (m_huff_count d ! 1)[?t := m_huff_count d ! 1 ! ?t + 1]]
         in h[0 := (h ! 0)[?s := h ! 0 ! ?s + 1]])"
    using recorded_dist_symbol [OF q] Match
    by (simp add: tdefl_record_match_def bump_def Let_def len_code_def split del: if_split)
  then show ?thesis
    using assms(1) Match b by (simp add: counts_codes_def Let_def nth_list_update)
qed

lemma record_codes_counts:
  "counts_codes d bs \<Longrightarrow> list_all code_ok cs \<Longrightarrow> counts_codes (foldl record_code d cs) (bs @ cs)"
proof (induction cs arbitrary: d bs)
  case (Cons c cs)
  have "counts_codes (foldl record_code (record_code d c) cs) ((bs @ [c]) @ cs)"
    using Cons.prems by (intro Cons.IH record_code_counts) simp_all
  then show ?case by simp
qed simp

lemma record_codes_fields:
  "m_huff_codes (foldl record_code d cs) = m_huff_codes d" "m_huff_code_sizes (foldl record_code d cs) = m_huff_code_sizes d"
  "m_bits_in (foldl record_code d cs) = m_bits_in d" "m_bit_buffer (foldl record_code d cs) = m_bit_buffer d"
  "m_output_buf (foldl record_code d cs) = m_output_buf d" "m_pOutput_buf (foldl record_code d cs) = m_pOutput_buf d"
  "m_pOutput_buf_end (foldl record_code d cs) = m_pOutput_buf_end d"
  by (induction cs arbitrary: d) (simp_all add: record_code_fields)

subsection \<open>A block\<close>

text \<open>The compressor between two blocks: nothing recorded, nothing counted.\<close>

definition fresh_block :: "tdefl_compressor \<Rightarrow> bool" where
  "fresh_block d \<longleftrightarrow> m_pLZ_flags d = 0 \<and> m_pLZ_code_buf d = 1 \<and> m_num_flags_left d = 8 \<and> counts_codes d []
     \<and> length (m_huff_codes d) = 3 \<and> length (m_huff_codes d ! 0) = 288 \<and> length (m_huff_codes d ! 1) = 288
     \<and> length (m_huff_code_sizes d) = 3 \<and> length (m_huff_code_sizes d ! 0) = 288 \<and> length (m_huff_code_sizes d ! 1) = 288"

text \<open>The tables of a static block.\<close>

definition fixed_tables :: "tdefl_compressor \<Rightarrow> bool" where
  "fixed_tables d \<longleftrightarrow> (\<forall>i < 288. symbol_bits d 0 i = msb_bits (fixed_size i) (fixed_code i)) \<and> (\<forall>i < 32. symbol_bits d 1 i = msb_bits 5 i)"

lemma symbol_less: "code_ok c \<Longrightarrow> lit_symbol c < 288 \<and> lit_symbol c \<noteq> 256 \<and> (\<forall>t \<in> set (dist_symbols c). t < 30)"
proof (cases c)
  case (Literal b)
  have "unat b < 2 ^ LENGTH(8)" by (rule unsigned_less)
  then show ?thesis using Literal by simp
next
  case (Match l q)
  assume "code_ok c"
  then show ?thesis using Match len_code_bounds [of l] dist_code_bounds [of q] by auto
qed

lemma lit_symbol_less: "code_ok c \<Longrightarrow> lit_symbol c < 286"
proof (cases c)
  case (Literal b)
  have "unat b < 2 ^ LENGTH(8)" by (rule unsigned_less)
  then show ?thesis using Literal by simp
next
  case (Match l q)
  assume "code_ok c"
  then show ?thesis using Match len_code_bounds [of l] by auto
qed

lemma of_nat_count_nonzero:
  assumes "x \<in> set xs" "length (xs :: nat list) < 65536"
  shows "(of_nat (count_list xs x) :: u16) \<noteq> 0"
proof -
  have "count_list xs x \<noteq> 0" "count_list xs x < 65536"
    using assms count_le_length [of xs x] by (simp_all add: count_list_0_iff)
  then have "unat (of_nat (count_list xs x) :: u16) \<noteq> unat (0 :: u16)" by (simp add: of_nat_u16)
  then show ?thesis by (simp only: word_unat_eq_iff) simp
qed

lemma dist_symbols_length: "length (concat (map dist_symbols cs)) \<le> length cs"
proof (induction cs)
  case (Cons c cs)
  then show ?case by (cases c) simp_all
qed simp

text \<open>How many bits a block can take: at most 48 a code.\<close>

lemma lz_code_bits_length:
  assumes "table_fits d 0 288" "table_fits d 1 32" "code_ok c"
  shows "length (lz_code_bits d c) \<le> 48"
proof (cases c)
  case (Literal b)
  have "unat b < 2 ^ LENGTH(8)" by (rule unsigned_less)
  then have "unat b < 288" by simp
  then have "unat (m_huff_code_sizes d ! 0 ! unat b) \<le> 15" using assms(1) unfolding table_fits_def by blast
  then show ?thesis using Literal by (simp add: symbol_bits_def code_bits_def)
next
  case (Match l q)
  obtain s e t f where k: "len_code l = (s, e)" "dist_code q = (t, f)" by (metis surj_pair)
  have l: "unat l < 256" and q: "unat q < 32768" using assms(3) Match by simp_all
  have b: "unat s < 288" "unat e \<le> 5" "unat t < 32" "unat f \<le> 13"
    using len_code_bounds [OF l] dist_code_bounds [OF q] k by simp_all
  then have "unat (m_huff_code_sizes d ! 0 ! unat s) \<le> 15" "unat (m_huff_code_sizes d ! 1 ! unat t) \<le> 15"
    using assms(1,2) unfolding table_fits_def by blast+
  then show ?thesis using Match k b by (simp add: symbol_bits_def code_bits_def)
qed

lemma block_body_length:
  assumes "table_fits d 0 288" "table_fits d 1 32" "list_all code_ok cs"
  shows "length (concat (map (lz_code_bits d) cs) @ symbol_bits d 0 256) \<le> 15 + 48 * length cs"
proof -
  have "length (concat (map (lz_code_bits d) cs)) \<le> 48 * length cs"
    using assms(3)
  proof (induction cs)
    case (Cons c cs)
    then show ?case using lz_code_bits_length [OF assms(1,2), of c] by simp
  qed simp
  moreover have "unat (m_huff_code_sizes d ! 0 ! 256) \<le> 15" using assms(1) unfolding table_fits_def by simp
  then have "length (symbol_bits d 0 256) \<le> 15" by (simp add: symbol_bits_def code_bits_def)
  ultimately show ?thesis by simp
qed

lemma dynamic_header_length:
  assumes h: "header_describes d nl nd nb its" and s: "\<forall>i < 19. unat (m_huff_code_sizes d ! 2 ! i) < 8"
  shows "length (dynamic_header d nl nd nb its) \<le> 4497"
proof -
  note h = h [unfolded header_describes_def]
  have ex: "extra_of a \<le> 7" if "a < 19" for a
  proof -
    have "a < 16 \<or> a = 16 \<or> a = 17 \<or> a = 18" using that by linarith
    then show ?thesis by (auto simp: extra_of_def)
  qed
  have it: "length (item_bits d i) \<le> 14" if "i \<in> set its" for i
  proof -
    obtain a b where i: "i = (a, b)" by (cases i)
    then have a: "a < 19" using h that by auto
    then have "unat (m_huff_code_sizes d ! 2 ! a) \<le> 7" using s by fastforce
    then show ?thesis using i ex [OF a] by (simp add: symbol_bits_def code_bits_def)
  qed
  have "length (concat (map (item_bits d) js)) \<le> 14 * length js" if "set js \<subseteq> set its" for js
    using that
  proof (induction js)
    case (Cons j js)
    then show ?case using it [of j] by simp
  qed simp
  moreover have "length its \<le> 316" using expands_items h by fastforce
  moreover have "length (concat (map (\<lambda>i. nat_bits (w i) 3) [0..<nb])) = 3 * nb" for w by (induction nb) simp_all
  ultimately show ?thesis using h unfolding dynamic_header_def by fastforce
qed

text \<open>After a header, the codes and the end of block.\<close>

lemma block_body:
  assumes h: "holds_codes d cs" "table_fits d 0 288" "table_fits d 1 32" "bits_ok d"
    and t: "prefix_table d 0 288" "prefix_table d 1 32" "list_all (has_codes d) cs" "symbol_bits d 0 256 \<noteq> []"
  obtains d' where "tdefl_compress_lz_codes d = (d', m_pOutput_buf d' < m_pOutput_buf_end d)" "output_only d d'"
    "emits d d' (concat (map (lz_code_bits d) cs) @ symbol_bits d 0 256)"
    "\<And>rst. block_codes d' ((concat (map (lz_code_bits d) cs) @ symbol_bits d 0 256) @ rst) = Some (cs, rst)"
proof -
  let ?d' = "fst (tdefl_compress_lz_codes d)"
  note w = compress_lz_codes_writes [OF h(4,2,3,1)]
  note same = output_only_tables [OF writes_output_only [OF w(1)]]
  have lb: "lz_code_bits ?d' = lz_code_bits d" by (rule ext) (rule same(3))
  have hc: "has_codes ?d' = has_codes d" by (rule ext) (simp only: has_codes_def same)
  have "block_codes ?d' (concat (map (lz_code_bits ?d') cs) @ symbol_bits ?d' 0 256 @ rst) = Some (cs, rst)" for rst
    using t h(1) by (intro read_codes_written) (simp_all add: prefix_table_def same hc holds_codes_def)
  then have rd: "block_codes ?d' ((concat (map (lz_code_bits d) cs) @ symbol_bits d 0 256) @ rst) = Some (cs, rst)" for rst
    unfolding lb same(1) by (simp only: append_assoc)
  have "tdefl_compress_lz_codes d = (?d', m_pOutput_buf ?d' < m_pOutput_buf_end d)"
    using w(2) by (simp add: prod_eq_iff)
  then show ?thesis using that [of ?d'] rd writes_emits [OF w(1)] writes_output_only [OF w(1)] by blast
qed

lemma header_tables:
  assumes "output_only d d'"
  shows "header_describes d' nl nd nb its = header_describes d nl nd nb its"
    "dynamic_header d' nl nd nb its = dynamic_header d nl nd nb its" "fixed_tables d' = fixed_tables d"
proof -
  note same = output_only_tables [OF assms] and f = output_only_fields [OF assms]
  show "header_describes d' nl nd nb its = header_describes d nl nd nb its" by (simp only: header_describes_def same f)
  have "item_bits d' i = item_bits d i" for i by (cases i) (simp only: item_bits.simps same)
  then have "item_bits d' = item_bits d" by (rule ext)
  then show "dynamic_header d' nl nd nb its = dynamic_header d nl nd nb its" by (simp only: dynamic_header_def f)
  show "fixed_tables d' = fixed_tables d" by (simp only: fixed_tables_def same)
qed

lemma recorded_block:
  assumes d: "fresh_block d" "bits_ok d" and cs: "list_all code_ok cs" "1 + 4 * length cs \<le> length (m_lz_code_buf d)"
    and e: "e = flush_flags (foldl record_code d cs)"
  shows "holds_codes e cs" "counts_codes e cs" "bits_ok e" "out_bits e = out_bits d" "m_pOutput_buf_end e = m_pOutput_buf_end d"
    "m_huff_codes e = m_huff_codes d" "m_huff_code_sizes e = m_huff_code_sizes d"
proof -
  have "recorded (foldl record_code d cs) ([] @ cs)"
    using d cs by (intro record_codes_recorded recorded_start) (simp_all add: fresh_block_def)
  then show "holds_codes e cs" unfolding e by (intro flush_flags_holds) simp
  have "counts_codes (foldl record_code d cs) ([] @ cs)" using d cs(1) by (intro record_codes_counts) (simp_all add: fresh_block_def)
  then show "counts_codes e cs" by (simp add: e counts_codes_def flush_flags_def)
  have "length (m_output_buf (foldl record_code d cs)) = length (m_output_buf d)" by (simp add: record_codes_fields)
  then show "bits_ok e" "out_bits e = out_bits d" "m_pOutput_buf_end e = m_pOutput_buf_end d"
      "m_huff_codes e = m_huff_codes d" "m_huff_code_sizes e = m_huff_code_sizes d"
    using d(2) by (simp_all add: e flush_flags_def bits_ok_def out_bits_def record_codes_fields)
qed

text \<open>The arrays of the compressor have their lengths.\<close>

definition has_tables :: "tdefl_compressor \<Rightarrow> bool" where
  "has_tables d \<longleftrightarrow> length (m_huff_codes d) = 3 \<and> length (m_huff_codes d ! 0) = 288 \<and> length (m_huff_codes d ! 1) = 288
     \<and> length (m_huff_code_sizes d) = 3 \<and> length (m_huff_code_sizes d ! 0) = 288 \<and> length (m_huff_code_sizes d ! 1) = 288"

text \<open>What is in the code buffer is what a static block contains.\<close>

lemma static_block_written:
  assumes r: "holds_codes e cs" "bits_ok e" "has_tables e"
  shows "\<exists>d' body. tdefl_compress_block e True = Some (d', m_pOutput_buf d' < m_pOutput_buf_end d')
    \<and> emits e d' ([True, False] @ body) \<and> fixed_tables d' \<and> (\<forall>rst. block_codes d' (body @ rst) = Some (cs, rst))
    \<and> length body \<le> 15 + 48 * length cs"
proof -
  have cs: "list_all code_ok cs" using r(1) by (simp add: holds_codes_def)
  obtain d1 where d1: "tdefl_start_static_block e = Some d1" "fixed_tables d1" "table_fits d1 0 288" "table_fits d1 1 32"
    "emits e d1 [True, False]" "m_lz_code_buf d1 = m_lz_code_buf e" "m_pLZ_code_buf d1 = m_pLZ_code_buf e"
    "prefix_table d1 0 288" "prefix_table d1 1 32"
    using start_static_block [of e] r unfolding fixed_tables_def has_tables_def by auto
  have ne: "msb_bits (fixed_size i) x \<noteq> []" "msb_bits 5 y \<noteq> []" for i x y
    by (simp_all add: msb_bits_def fixed_size_def)
  have "has_codes d1 c" if "code_ok c" for c
  proof -
    have "lit_symbol c < 288" "\<forall>t \<in> set (dist_symbols c). t < 32" using symbol_less [OF that] by auto
    then show ?thesis using d1(2) ne unfolding has_codes_def fixed_tables_def by simp
  qed
  then have hc: "list_all (has_codes d1) cs" using cs by (simp add: list_all_iff)
  have eob: "symbol_bits d1 0 256 \<noteq> []" using d1(2) ne unfolding fixed_tables_def by simp
  have "holds_codes d1 cs" using r(1) d1(6,7) by (simp add: holds_codes_def)
  then obtain d' where d': "tdefl_compress_lz_codes d1 = (d', m_pOutput_buf d' < m_pOutput_buf_end d1)" "output_only d1 d'"
    "emits d1 d' (concat (map (lz_code_bits d1) cs) @ symbol_bits d1 0 256)"
    "\<And>rst. block_codes d' ((concat (map (lz_code_bits d1) cs) @ symbol_bits d1 0 256) @ rst) = Some (cs, rst)"
    using block_body [OF _ d1(3,4) emits_bits_ok [OF d1(5)] d1(8,9) hc eob] by blast
  have "emits e d' ([True, False] @ concat (map (lz_code_bits d1) cs) @ symbol_bits d1 0 256)"
    by (rule emits_trans [OF d1(5) d'(3)])
  moreover have "tdefl_compress_block e True = Some (d', m_pOutput_buf d' < m_pOutput_buf_end d')"
    using d1(1) d'(1) output_only_fields(9) [OF d'(2)] by (simp add: tdefl_compress_block_def)
  moreover have "fixed_tables d'" using header_tables(3) [OF d'(2)] d1(2) by simp
  ultimately show ?thesis using d'(4) block_body_length [OF d1(3,4) cs] by blast
qed

text \<open>\<open>tables_canonical\<close>: the codes of the three tables are the canonical ones of their sizes, and symbols that
  cannot be sent have none.\<close>

definition tables_canonical :: "tdefl_compressor \<Rightarrow> bool" where
  "tables_canonical d \<longleftrightarrow> canonical d 0 288 \<and> canonical d 1 32 \<and> canonical d 2 19 \<and> prefix_table d 2 19
     \<and> (\<forall>i < 19. unat (m_huff_code_sizes d ! 2 ! i) < 8)
     \<and> m_huff_code_sizes d ! 0 ! 286 = 0 \<and> m_huff_code_sizes d ! 0 ! 287 = 0
     \<and> m_huff_code_sizes d ! 1 ! 30 = 0 \<and> m_huff_code_sizes d ! 1 ! 31 = 0"

lemma dynamic_block_written:
  assumes r: "holds_codes e cs" "counts_codes e cs" "bits_ok e" "has_tables e" and few: "length cs < 65535"
  shows "\<exists>d' body nl nd nb its. tdefl_compress_block e False = Some (d', m_pOutput_buf d' < m_pOutput_buf_end d')
    \<and> emits e d' (dynamic_header d' nl nd nb its @ body) \<and> header_describes d' nl nd nb its
    \<and> (\<forall>rst. block_codes d' (body @ rst) = Some (cs, rst)) \<and> tables_canonical d' \<and> length body \<le> 15 + 48 * length cs"
proof -
  have cs: "list_all code_ok cs" using r(1) by (simp add: holds_codes_def)
  let ?counts = "(m_huff_count e ! 0)[256 := 1]"
  let ?ls = "map lit_symbol cs @ [256]" and ?ts = "concat (map dist_symbols cs)"
  have cc: "length (m_huff_count e) = 3" "length (m_huff_count e ! 0) = 288" "length (m_huff_count e ! 1) = 288"
    "length (m_huff_count e ! 2) = 288" "\<forall>i < 288. m_huff_count e ! 0 ! i = of_nat (count_list (map lit_symbol cs) i)"
    "\<forall>i < 32. m_huff_count e ! 1 ! i = of_nat (count_list ?ts i)"
    using r(2) by (simp_all add: counts_codes_def)
  have sl: "lit_symbol c < 288" "lit_symbol c \<noteq> 256" "\<forall>t \<in> set (dist_symbols c). t < 30" if "c \<in> set cs" for c
    using symbol_less [of c] cs that by (auto simp: list_all_iff)
  have c0: "?counts ! i = of_nat (count_list ?ls i)" if "i < 288" for i
  proof (cases "i = 256")
    case True
    have "256 \<notin> set (map lit_symbol cs)" using sl(2) by force
    then have "count_list (map lit_symbol cs) 256 = 0" by (simp add: count_list_0_iff)
    then show ?thesis using True cc(2) by simp
  qed (use that cc(2,5) in simp)
  have "(\<Sum>i<288. unat (?counts ! i)) = (\<Sum>i<288. unat (of_nat (count_list ?ls i) :: u16))"
    by (intro sum.cong) (simp_all only: c0 lessThan_iff)
  also have "\<dots> \<le> length ?ls" by (rule sum_of_nat_counts)
  finally have lits: "(\<Sum>i<288. unat (?counts ! i)) < 65536" using few by simp
  have "(\<Sum>i<32. unat (m_huff_count e ! 1 ! i)) = (\<Sum>i<32. unat (of_nat (count_list ?ts i) :: u16))"
    using cc(6) by (intro sum.cong) simp_all
  also have "\<dots> \<le> length ?ts" by (rule sum_of_nat_counts)
  finally have dists: "(\<Sum>i<32. unat (m_huff_count e ! 1 ! i)) < 65536" using few dist_symbols_length [of cs] by simp
  have shape: "length (m_huff_codes e) = 3" "length (m_huff_code_sizes e) = 3" using r(4) by (simp_all add: has_tables_def)
  obtain d1 nl nd nb its where d1: "tdefl_start_dynamic_block e = Some d1"
    "\<forall>i < 288. (symbol_bits d1 0 i \<noteq> []) = (?counts ! i \<noteq> 0)" "prefix_table d1 0 288" "table_fits d1 0 288"
    "\<forall>i < 32. (symbol_bits d1 1 i \<noteq> []) = (m_huff_count e ! 1 ! i \<noteq> 0)" "prefix_table d1 1 32" "table_fits d1 1 32"
    "header_describes d1 nl nd nb its" "emits e d1 (dynamic_header d1 nl nd nb its)"
    "m_lz_code_buf d1 = m_lz_code_buf e" "m_pLZ_code_buf d1 = m_pLZ_code_buf e"
    "canonical d1 0 288" "canonical d1 1 32" "canonical d1 2 19" "prefix_table d1 2 19" "\<forall>i < 19. unat (m_huff_code_sizes d1 ! 2 ! i) < 8"
    using start_dynamic_block [OF cc(1) shape _ _ _ refl lits dists r(3)] cc(2-4) by auto
  have "has_codes d1 c" if c: "c \<in> set cs" for c
  proof -
    have "?counts ! lit_symbol c \<noteq> 0"
      unfolding c0 [OF sl(1) [OF c]] using c few by (intro of_nat_count_nonzero) simp_all
    then have "symbol_bits d1 0 (lit_symbol c) \<noteq> []" using d1(2) sl(1) [OF c] by blast
    moreover have "symbol_bits d1 1 t \<noteq> []" if t: "t \<in> set (dist_symbols c)" for t
    proof -
      have "t < 32" using sl(3) [OF c] t by fastforce
      moreover have "m_huff_count e ! 1 ! t \<noteq> 0"
        unfolding cc(6) [rule_format, OF \<open>t < 32\<close>]
        using c t few dist_symbols_length [of cs] by (intro of_nat_count_nonzero) auto
      ultimately show ?thesis using d1(5) by blast
    qed
    ultimately show ?thesis unfolding has_codes_def by blast
  qed
  then have hc: "list_all (has_codes d1) cs" by (simp add: list_all_iff)
  have "?counts ! 256 \<noteq> 0" using cc(2) by simp
  then have eob: "symbol_bits d1 0 256 \<noteq> []" using d1(2) by simp
  have "holds_codes d1 cs" using r(1) d1(10,11) by (simp add: holds_codes_def)
  then obtain d' where d': "tdefl_compress_lz_codes d1 = (d', m_pOutput_buf d' < m_pOutput_buf_end d1)" "output_only d1 d'"
    "emits d1 d' (concat (map (lz_code_bits d1) cs) @ symbol_bits d1 0 256)"
    "\<And>rst. block_codes d' ((concat (map (lz_code_bits d1) cs) @ symbol_bits d1 0 256) @ rst) = Some (cs, rst)"
    using block_body [OF _ d1(4,7) emits_bits_ok [OF d1(9)] d1(3,6) hc eob] by blast
  note hd = header_tables [OF d'(2)]
  note same = output_only_tables [OF d'(2)] and f = output_only_fields [OF d'(2)]
  have "emits e d' (dynamic_header d1 nl nd nb its @ concat (map (lz_code_bits d1) cs) @ symbol_bits d1 0 256)"
    by (rule emits_trans [OF d1(9) d'(3)])
  then have em: "emits e d' (dynamic_header d' nl nd nb its @ concat (map (lz_code_bits d1) cs) @ symbol_bits d1 0 256)"
    by (simp only: hd)
  have "tdefl_compress_block e False = Some (d', m_pOutput_buf d' < m_pOutput_buf_end d')"
    using d1(1) d'(1) f by (simp add: tdefl_compress_block_def)
  moreover have "header_describes d' nl nd nb its" using hd(1) d1(8) by simp
  moreover have "tables_canonical d'"
  proof -
    have "i \<notin> set ?ls" if "286 \<le> i" for i
      using that lit_symbol_less cs by (fastforce simp: list_all_iff)
    then have "?counts ! 286 = 0" "?counts ! 287 = 0" using c0 [of 286] c0 [of 287] by (simp_all add: count_list_0_iff)
    then have z0: "symbol_bits d1 0 286 = []" "symbol_bits d1 0 287 = []" using d1(2) by auto
    have "i \<notin> set ?ts" if "30 \<le> i" for i using that sl(3) by fastforce
    then have "m_huff_count e ! 1 ! 30 = 0" "m_huff_count e ! 1 ! 31 = 0" using cc(6) by (simp_all add: count_list_0_iff)
    then have z1: "symbol_bits d1 1 30 = []" "symbol_bits d1 1 31 = []" using d1(5) by auto
    show ?thesis
      using d1(12-16) z0 z1 unfolding tables_canonical_def canonical_def sizes_of_def prefix_table_def same f symbol_bits_Nil by blast
  qed
  ultimately show ?thesis using em d'(4) block_body_length [OF d1(4,7) cs] by blast
qed

lemma recorded_tables: "fresh_block d \<Longrightarrow> e = flush_flags (foldl record_code d cs) \<Longrightarrow> has_tables e"
  by (simp add: fresh_block_def has_tables_def flush_flags_def record_codes_fields)

end
