(* ===== verification/DeflMatch.thy ===== *)
theory DeflMatch
  imports DeflDecode
begin

text \<open>
  The dictionary of the compressor and its match finder (src/packages/miniz/src/main/c/miniz.c):
  \<open>tdefl_find_match\<close>, the variant without unaligned loads, with its chain of earlier positions, and the
  loops of \<open>tdefl_compress_normal\<close> that take in source bytes.  Whatever the chains hold, a match that is
  found is one: the bytes at the distance are those ahead.
\<close>

unbundle bit_operations_syntax

subsection \<open>The state of the parser\<close>

text \<open>The members of \<open>tdefl_compressor\<close> that the block writer does not use; those it uses are in \<open>blk\<close>.\<close>

record tdefl_parser =
  blk :: tdefl_compressor
  m_flags :: u32
  m_max_probes :: "u32 list"
  m_greedy_parsing :: bool
  m_lookahead_pos :: u32
  m_lookahead_size :: u32
  m_dict_size :: u32
  m_saved_match_dist :: u32
  m_saved_match_len :: u32
  m_saved_lit :: u32
  m_dict :: "u8 list"
  m_next :: "u16 list"
  m_hash :: "u16 list"

definition TDEFL_LZ_DICT_SIZE :: u32 where "TDEFL_LZ_DICT_SIZE = 32768"
definition TDEFL_LZ_DICT_SIZE_MASK :: u32 where "TDEFL_LZ_DICT_SIZE_MASK = TDEFL_LZ_DICT_SIZE - 1"
definition TDEFL_MIN_MATCH_LEN :: u32 where "TDEFL_MIN_MATCH_LEN = 3"
definition TDEFL_MAX_MATCH_LEN :: u32 where "TDEFL_MAX_MATCH_LEN = 258"

subsection \<open>The match finder\<close>

text \<open>One probe: the end of the search, a candidate with its distance and position, or the next position.\<close>

datatype probe_result = Stop | Candidate u32 nat | Next nat

definition TDEFL_PROBE :: "'a tdefl_parser_scheme \<Rightarrow> u32 \<Rightarrow> u32 \<Rightarrow> nat \<Rightarrow> nat \<Rightarrow> nat \<Rightarrow> probe_result" where
  "TDEFL_PROBE d lookahead_pos max_dist pos match_len probe_pos =
     (let next_probe_pos = ucast (m_next d ! probe_pos) :: u32; dist = ucast (ucast (lookahead_pos - next_probe_pos) :: u16) in
      if next_probe_pos = 0 \<or> dist > max_dist then Stop
      else
        (let probe_pos = unat (next_probe_pos AND TDEFL_LZ_DICT_SIZE_MASK) in
         if m_dict d ! (probe_pos + match_len) = m_dict d ! (pos + match_len)
            \<and> m_dict d ! (probe_pos + match_len - 1) = m_dict d ! (pos + match_len - 1) then Candidate dist probe_pos
         else Next probe_pos))"

text \<open>The inner loop: three probes for each step of \<open>num_probes_left\<close>.\<close>

definition probe_three :: "'a tdefl_parser_scheme \<Rightarrow> u32 \<Rightarrow> u32 \<Rightarrow> nat \<Rightarrow> nat \<Rightarrow> nat \<Rightarrow> probe_result" where
  "probe_three d lookahead_pos max_dist pos match_len probe_pos =
     (case TDEFL_PROBE d lookahead_pos max_dist pos match_len probe_pos of
        Next p \<Rightarrow>
          (case TDEFL_PROBE d lookahead_pos max_dist pos match_len p of
             Next p \<Rightarrow> TDEFL_PROBE d lookahead_pos max_dist pos match_len p
           | r \<Rightarrow> r)
      | r \<Rightarrow> r)"

lemma probes_decrease: "(n :: u32) - 1 \<noteq> 0 \<Longrightarrow> unat (n - 1 - 1) < unat (n - 1)"
  by (metis measure_unat)

function probe_loop :: "'a tdefl_parser_scheme \<Rightarrow> u32 \<Rightarrow> u32 \<Rightarrow> nat \<Rightarrow> nat \<Rightarrow> u32 \<Rightarrow> nat \<Rightarrow> (u32 \<times> nat \<times> u32) option" where
  "probe_loop d lookahead_pos max_dist pos match_len num_probes_left probe_pos =
     (if num_probes_left - 1 = 0 then None
      else
        (case probe_three d lookahead_pos max_dist pos match_len probe_pos of
           Stop \<Rightarrow> None
         | Candidate dist p \<Rightarrow> Some (dist, p, num_probes_left - 1)
         | Next p \<Rightarrow> probe_loop d lookahead_pos max_dist pos match_len (num_probes_left - 1) p))"
  by pat_completeness auto

termination
proof (relation "measure (\<lambda>(d, lp, md, pos, ml, n, p). unat (n - 1))", goal_cases)
  case (2 d lp md pos ml n p p')
  show ?case using probes_decrease [OF 2(1)] by (simp only: in_measure prod.case)
qed simp

declare probe_loop.simps [simp del]

fun match_run :: "u8 list \<Rightarrow> nat \<Rightarrow> nat \<Rightarrow> nat \<Rightarrow> nat" where
  "match_run dict p q 0 = 0"
| "match_run dict p q (Suc n) = (if dict ! p \<noteq> dict ! q then 0 else Suc (match_run dict (p + 1) (q + 1) n))"

lemma probe_loop_left: "probe_loop d lp md pos ml n p = Some (dist, p', n') \<Longrightarrow> unat (n' - 1) < unat (n - 1)"
proof (induction d lp md pos ml n p rule: probe_loop.induct)
  case (1 d lp md pos ml n p)
  from 1(2) have n1: "n - 1 \<noteq> 0" by (subst (asm) probe_loop.simps) (simp split: if_splits)
  show ?case
  proof (cases "probe_three d lp md pos ml p")
    case Stop
    then show ?thesis using 1(2) n1 by (subst (asm) probe_loop.simps) simp
  next
    case (Candidate x y)
    then have "n' = n - 1" using 1(2) n1 by (subst (asm) probe_loop.simps) simp
    then show ?thesis using probes_decrease [OF n1] by simp
  next
    case (Next y)
    then have "probe_loop d lp md pos ml (n - 1) y = Some (dist, p', n')" using 1(2) n1 by (subst (asm) probe_loop.simps) simp
    then have "unat (n' - 1) < unat (n - 1 - 1)" by (rule 1(1) [OF n1 Next])
    then show ?thesis using probes_decrease [OF n1] by simp
  qed
qed

text \<open>The outer loop; the last pair is \<open>*pMatch_dist\<close> and \<open>*pMatch_len\<close>.\<close>

function match_loop :: "'a tdefl_parser_scheme \<Rightarrow> u32 \<Rightarrow> u32 \<Rightarrow> nat \<Rightarrow> nat \<Rightarrow> u32 \<Rightarrow> nat \<Rightarrow> u32 \<times> nat \<Rightarrow> u32 \<times> nat" where
  "match_loop d lookahead_pos max_dist max_match_len pos num_probes_left probe_pos (dist, match_len) =
     (case probe_loop d lookahead_pos max_dist pos match_len num_probes_left probe_pos of
        None \<Rightarrow> (dist, match_len)
      | Some (dist', probe_pos, num_probes_left) \<Rightarrow>
        if dist' = 0 then (dist, match_len)
        else
          (let probe_len = match_run (m_dict d) pos probe_pos max_match_len in
           if probe_len > match_len then
             if probe_len = max_match_len then (dist', probe_len)
             else match_loop d lookahead_pos max_dist max_match_len pos num_probes_left probe_pos (dist', probe_len)
           else match_loop d lookahead_pos max_dist max_match_len pos num_probes_left probe_pos (dist, match_len)))"
  by pat_completeness auto
termination
  by (relation "measure (\<lambda>(d, lp, md, ml, pos, n, p, r). unat (n - 1))") (auto dest: probe_loop_left)

declare match_loop.simps [simp del]

definition tdefl_find_match :: "'a tdefl_parser_scheme \<Rightarrow> u32 \<Rightarrow> u32 \<Rightarrow> u32 \<Rightarrow> u32 \<times> u32 \<Rightarrow> u32 \<times> u32" where
  "tdefl_find_match d lookahead_pos max_dist max_match_len r =
     (case r of (pMatch_dist, pMatch_len) \<Rightarrow>
        let pos = unat (lookahead_pos AND TDEFL_LZ_DICT_SIZE_MASK);
            num_probes_left = m_max_probes d ! (if pMatch_len \<ge> 32 then 1 else 0)
        in if max_match_len \<le> pMatch_len then (pMatch_dist, pMatch_len)
           else
             (let (dist, match_len) = match_loop d lookahead_pos max_dist (unat max_match_len) pos num_probes_left pos
                                        (pMatch_dist, unat pMatch_len)
              in (dist, of_nat match_len)))"

subsection \<open>What the dictionary holds\<close>

text \<open>\<open>inp\<close> is all of the input taken in so far: the last bytes before the position, as many as
  \<open>m_dict_size\<close>, and those ahead are in the dictionary, at their positions modulo its size, and the first ones
  of it also behind its end.\<close>

definition dict_from :: "nat \<Rightarrow> u8 list \<Rightarrow> u8 list \<Rightarrow> bool" where
  "dict_from lo dict inp \<longleftrightarrow> length dict = 33025 \<and> length inp \<le> lo + 32768
     \<and> (\<forall>k j. lo \<le> k \<and> k < length inp \<and> j < 33025 \<and> j mod 32768 = k mod 32768 \<longrightarrow> dict ! j = inp ! k)"

text \<open>A match: the bytes at the distance are the bytes ahead.\<close>

definition is_match_at :: "u8 list \<Rightarrow> nat \<Rightarrow> nat \<Rightarrow> nat \<Rightarrow> bool" where
  "is_match_at inp p dist len \<longleftrightarrow> 1 \<le> dist \<and> dist \<le> p \<and> p + len \<le> length inp \<and> (\<forall>i < len. inp ! (p + i) = inp ! (p - dist + i))"

lemma match_run_le: "match_run dict p q n \<le> n"
  by (induction dict p q n rule: match_run.induct) auto

lemma match_run_equal: "i < match_run dict p q n \<Longrightarrow> dict ! (p + i) = dict ! (q + i)"
proof (induction dict p q n arbitrary: i rule: match_run.induct)
  case (2 dict p q n)
  then show ?case by (cases i) (auto split: if_splits)
qed simp

lemma probe_spec:
  "TDEFL_PROBE d lp md pos ml p = Candidate dist p' \<Longrightarrow> dist \<le> md \<and> (\<exists>nx :: u32. dist = ucast (ucast (lp - nx) :: u16) \<and> p' = unat (nx AND TDEFL_LZ_DICT_SIZE_MASK))"
  by (auto simp: TDEFL_PROBE_def Let_def split: if_splits)

lemma probe_three_spec:
  "probe_three d lp md pos ml p = Candidate dist p' \<Longrightarrow> dist \<le> md \<and> (\<exists>nx :: u32. dist = ucast (ucast (lp - nx) :: u16) \<and> p' = unat (nx AND TDEFL_LZ_DICT_SIZE_MASK))"
proof -
  assume "probe_three d lp md pos ml p = Candidate dist p'"
  then have "\<exists>q. TDEFL_PROBE d lp md pos ml q = Candidate dist p'" by (auto simp: probe_three_def split: probe_result.splits)
  then show ?thesis using probe_spec by blast
qed

lemma probe_loop_spec:
  "probe_loop d lp md pos ml n p = Some (dist, p', n')
   \<Longrightarrow> dist \<le> md \<and> (\<exists>nx :: u32. dist = ucast (ucast (lp - nx) :: u16) \<and> p' = unat (nx AND TDEFL_LZ_DICT_SIZE_MASK))"
proof (induction d lp md pos ml n p rule: probe_loop.induct)
  case (1 d lp md pos ml n p)
  from 1(2) have n1: "n - 1 \<noteq> 0" by (subst (asm) probe_loop.simps) (simp split: if_splits)
  show ?case
  proof (cases "probe_three d lp md pos ml p")
    case Stop
    then show ?thesis using 1(2) n1 by (subst (asm) probe_loop.simps) simp
  next
    case (Candidate x y)
    then have "x = dist" "y = p'" using 1(2) n1 by (subst (asm) probe_loop.simps, simp)+
    then show ?thesis using probe_three_spec Candidate by blast
  next
    case (Next y)
    then have "probe_loop d lp md pos ml (n - 1) y = Some (dist, p', n')" using 1(2) n1 by (subst (asm) probe_loop.simps) simp
    then show ?thesis by (rule 1(1) [OF n1 Next])
  qed
qed

lemma mask_position: "unat (x AND TDEFL_LZ_DICT_SIZE_MASK) = unat x mod 32768"
proof -
  have "TDEFL_LZ_DICT_SIZE_MASK = mask 15" by (simp add: TDEFL_LZ_DICT_SIZE_MASK_def TDEFL_LZ_DICT_SIZE_def mask_eq_exp_minus_1)
  then have "x AND TDEFL_LZ_DICT_SIZE_MASK = take_bit 15 x" by (simp only: take_bit_eq_mask)
  then have "unat (x AND TDEFL_LZ_DICT_SIZE_MASK) = take_bit 15 (unat x)" by (simp only: unsigned_take_bit_eq)
  then show ?thesis by (simp add: take_bit_eq_mod)
qed

text \<open>The position of a candidate is the one its distance says, although the chain has 16 bits of it.\<close>

lemma candidate_position:
  fixes lp nx dist :: u32
  assumes d: "dist = ucast (ucast (lp - nx) :: u16)" and le: "unat dist \<le> unat lp"
  shows "unat (nx AND TDEFL_LZ_DICT_SIZE_MASK) = (unat lp - unat dist) mod 32768"
proof -
  let ?q = "unat (lp - nx) div 65536"
  have "unat dist = unat (ucast (lp - nx) :: u16)" by (simp only: d unat_ucast_u16)
  also have "\<dots> = unat (lp - nx) mod 2 ^ 16" by (simp add: unsigned_ucast_eq take_bit_eq_mod)
  finally have "unat dist = unat (lp - nx) mod 65536" by simp
  then have dq: "unat (lp - nx) = unat dist + 65536 * ?q" by simp
  have "unat nx < 2 ^ LENGTH(32)" by (rule unsigned_less)
  then have "unat (lp - nx) + unat nx = unat lp \<or> unat (lp - nx) + unat nx = unat lp + 2 ^ 32" by (simp add: unat_sub_if')
  then have "unat lp - unat dist = unat nx + 32768 * (2 * ?q) \<or> unat lp - unat dist + 32768 * 131072 = unat nx + 32768 * (2 * ?q)"
  proof -
    have w: "(2 :: nat) ^ 32 = 32768 * 131072" by simp
    obtain a where a: "unat lp = unat dist + a" using le le_Suc_ex by blast
    assume "unat (lp - nx) + unat nx = unat lp \<or> unat (lp - nx) + unat nx = unat lp + 2 ^ 32"
    then show ?thesis using dq unfolding w a by (elim disjE) (simp_all only: add_diff_cancel_left', linarith+)
  qed
  then have "(unat lp - unat dist) mod 32768 = unat nx mod 32768"
    by (metis mod_mult_self2)
  then show ?thesis by (simp only: mask_position)
qed

text \<open>Equal bytes in the dictionary are equal bytes of the input.\<close>

lemma dict_match:
  assumes dict: "dict_from lo dict inp" and p: "p < length inp" and d: "1 \<le> dist" "lo + dist \<le> p"
    and n: "n \<le> 258" "p + n \<le> length inp" and m: "len \<le> match_run dict (p mod 32768) ((p - dist) mod 32768) n"
  shows "is_match_at inp p dist len"
proof -
  let ?r = "match_run dict (p mod 32768) ((p - dist) mod 32768) n"
  have ln: "len \<le> n" using m match_run_le [of dict "p mod 32768" "(p - dist) mod 32768" n] by simp
  have at: "dict ! (k mod 32768 + i) = inp ! (k + i)" if "lo \<le> k" "k + i < length inp" "i < 258" for k i
  proof -
    have "k mod 32768 < 32768" by simp
    then have "k mod 32768 + i < 33025" using that(3) by linarith
    moreover have "(k mod 32768 + i) mod 32768 = (k + i) mod 32768" by (simp add: mod_add_left_eq)
    ultimately show ?thesis using dict that unfolding dict_from_def by (meson le_add1 le_trans)
  qed
  have "inp ! (p + i) = inp ! (p - dist + i)" if i: "i < len" for i
  proof -
    have "dict ! (p mod 32768 + i) = dict ! ((p - dist) mod 32768 + i)"
      using match_run_equal i m by (meson less_le_trans)
    then show ?thesis using at [of p i] at [of "p - dist" i] i ln n d by simp
  qed
  then show ?thesis using d n ln by (simp add: is_match_at_def)
qed

lemma match_loop_spec:
  assumes dict: "dict_from lo (m_dict d) inp" and p: "unat lp < length inp" "unat lp + mx \<le> length inp" "mx \<le> 258"
    and md: "lo + unat md \<le> unat lp" and r: "match_loop d lp md mx (unat lp mod 32768) n pp (d0, l0) = (d', l')"
  shows "(d', l') = (d0, l0) \<or> l0 < l' \<and> l' \<le> mx \<and> unat d' \<le> unat md \<and> is_match_at inp (unat lp) (unat d') l'"
  using assms
proof (induction d lp md mx "unat lp mod 32768" n pp "(d0, l0)" arbitrary: d0 l0 rule: match_loop.induct)
  case (1 d lp md mx n pp d0 l0)
  note dict = "1.prems"(1) and p = "1.prems"(2-4) and md = "1.prems"(5) and run = "1.prems"(6)
  show ?case
  proof (cases "probe_loop d lp md (unat lp mod 32768) l0 n pp")
    case None
    then show ?thesis using run by (subst (asm) match_loop.simps) simp
  next
    case (Some x)
    then obtain dist q n' where x: "probe_loop d lp md (unat lp mod 32768) l0 n pp = Some (dist, q, n')" by (cases x) auto
    let ?len = "match_run (m_dict d) (unat lp mod 32768) q mx"
    obtain nx :: u32 where nx: "dist \<le> md" "dist = ucast (ucast (lp - nx) :: u16)" "q = unat (nx AND TDEFL_LZ_DICT_SIZE_MASK)"
      using probe_loop_spec [OF x] by blast
    have le: "unat dist \<le> unat md" using nx(1) by (simp add: word_le_nat_alt)
    then have q: "q = (unat lp - unat dist) mod 32768" using candidate_position [OF nx(2)] md nx(3) by simp
    have match: "is_match_at inp (unat lp) (unat dist) ?len" if "dist \<noteq> 0"
      unfolding q using that le md p by (intro dict_match [OF dict, where n = mx]) (simp_all add: unat_gt_0 Suc_le_eq)
    have lmx: "?len \<le> mx" by (rule match_run_le)
    consider "dist = 0" | "dist \<noteq> 0" "l0 < ?len" "?len = mx" | "dist \<noteq> 0" "l0 < ?len" "?len \<noteq> mx" | "dist \<noteq> 0" "\<not> l0 < ?len"
      by blast
    then show ?thesis
    proof cases
      case 1
      then show ?thesis using run x by (subst (asm) match_loop.simps) simp
    next
      case 2
      then have "d' = dist" "l' = ?len" using run x by (subst (asm) match_loop.simps, simp)+
      then show ?thesis using match [OF 2(1)] 2 le by simp
    next
      case 3
      then have "match_loop d lp md mx (unat lp mod 32768) n' q (dist, ?len) = (d', l')"
        using run x by (subst (asm) match_loop.simps) (simp add: Let_def)
      then have "(d', l') = (dist, ?len) \<or> ?len < l' \<and> l' \<le> mx \<and> unat d' \<le> unat md \<and> is_match_at inp (unat lp) (unat d') l'"
        using 3 by (intro "1.hyps"(1) [OF x refl refl] dict p md) simp_all
      then show ?thesis using match [OF 3(1)] 3 le lmx by auto
    next
      case 4
      then have "match_loop d lp md mx (unat lp mod 32768) n' q (d0, l0) = (d', l')"
        using run x by (subst (asm) match_loop.simps) (simp add: Let_def)
      then show ?thesis using 4 by (intro "1.hyps"(2) [OF x refl refl] dict p md) simp_all
    qed
  qed
qed

lemma find_match_spec:
  assumes dict: "dict_from lo (m_dict d) inp" and p: "unat lp < length inp" "unat lp + unat mx \<le> length inp" "unat mx \<le> 258"
    and md: "lo + unat md \<le> unat lp" and r: "tdefl_find_match d lp md mx (d0, l0) = (d', l')"
  shows "(d', l') = (d0, l0) \<or> unat l0 < unat l' \<and> unat l' \<le> unat mx \<and> unat d' \<le> unat md
    \<and> is_match_at inp (unat lp) (unat d') (unat l')"
proof (cases "mx \<le> l0")
  case True
  then show ?thesis using r by (simp add: tdefl_find_match_def Let_def)
next
  case False
  let ?n = "m_max_probes d ! (if l0 \<ge> 32 then 1 else 0)"
  obtain x y where xy: "match_loop d lp md (unat mx) (unat lp mod 32768) ?n (unat lp mod 32768) (d0, unat l0) = (x, y)"
    by (cases "match_loop d lp md (unat mx) (unat lp mod 32768) ?n (unat lp mod 32768) (d0, unat l0)")
  have d': "d' = x" "l' = of_nat y" using r False xy by (simp_all add: tdefl_find_match_def Let_def mask_position)
  have s: "(x, y) = (d0, unat l0) \<or> unat l0 < y \<and> y \<le> unat mx \<and> unat x \<le> unat md \<and> is_match_at inp (unat lp) (unat x) y"
    by (rule match_loop_spec [OF dict p md xy])
  have "unat (of_nat y :: u32) = y" if "y \<le> unat mx" using that p(3) by (simp add: unat_of_nat take_bit_nat_eq_self)
  then show ?thesis using s unfolding d' by auto
qed

text \<open>C5: what the match finder finds is a match, whatever the hash chains hold: when the dictionary has
  the input from \<open>lo\<close> on, \<open>tdefl_find_match\<close> either leaves distance and length as they were or returns
  a longer match, within the largest length and distance it was given, whose bytes are those ahead.  The
  chains may have stale positions, of which 16 bits are kept.\<close>

theorem tdefl_find_match_finds_match:
  assumes "dict_from lo (m_dict d) inp" "unat lp < length inp" "unat lp + unat mx \<le> length inp" "unat mx \<le> 258"
    and "lo + unat md \<le> unat lp" "tdefl_find_match d lp md mx (d0, l0) = (d', l')"
  shows "(d', l') = (d0, l0) \<or> unat l0 < unat l' \<and> unat l' \<le> unat mx \<and> unat d' \<le> unat md
    \<and> is_match_at inp (unat lp) (unat d') (unat l')"
  by (rule find_match_spec [OF assms])

definition demo_parser :: tdefl_parser where
  "demo_parser = \<lparr>blk = demo_codes, m_flags = 0, m_max_probes = [2, 2], m_greedy_parsing = False, m_lookahead_pos = 2,
    m_lookahead_size = 4, m_dict_size = 2, m_saved_match_dist = 0, m_saved_match_len = 0, m_saved_lit = 0,
    m_dict = replicate 33025 7, m_next = [0, 0, 1], m_hash = []\<rparr>"

lemma tdefl_find_match_finds_match_witness:
  "tdefl_find_match demo_parser 2 2 4 (0, 2) = (1, 4) \<and> is_match_at (replicate 6 7) 2 1 4"
proof -
  have four: "(4 :: nat) = Suc (Suc (Suc (Suc 0)))" by simp
  have "match_run (m_dict demo_parser) 2 1 (Suc (Suc (Suc (Suc 0)))) = 4" by (simp add: demo_parser_def)
  then have m: "match_run (m_dict demo_parser) 2 1 4 = 4" by (simp only: four)
  have "TDEFL_PROBE demo_parser 2 2 2 2 2 = Candidate 1 1"
    by (simp add: TDEFL_PROBE_def Let_def demo_parser_def mask_position)
  then have "probe_loop demo_parser 2 2 2 2 2 2 = Some (1, 1, 1)"
    by (subst probe_loop.simps) (simp add: probe_three_def)
  then have "match_loop demo_parser 2 2 4 2 2 2 (0, 2) = (1, 4)"
    using m by (subst match_loop.simps) (simp add: Let_def)
  moreover have "m_max_probes demo_parser ! (if (2 :: u32) \<ge> 32 then 1 else 0) = 2" by (simp add: demo_parser_def)
  ultimately have r: "tdefl_find_match demo_parser 2 2 4 (0, 2) = (1, 4)"
    by (simp add: tdefl_find_match_def mask_position Let_def)
  have "((1, 4) :: u32 \<times> u32) = (0, 2) \<or> unat (2 :: u32) < unat (4 :: u32) \<and> unat (4 :: u32) \<le> unat (4 :: u32)
    \<and> unat (1 :: u32) \<le> unat (2 :: u32) \<and> is_match_at (replicate 6 7) (unat (2 :: u32)) (unat (1 :: u32)) (unat (4 :: u32))"
    by (rule tdefl_find_match_finds_match [OF _ _ _ _ _ r, of 0]) (simp_all add: dict_from_def demo_parser_def)
  then show ?thesis using r by simp
qed

end
