(* ===== verification/DeflParse.thy ===== *)
theory DeflParse
  imports DeflMatch
begin

text \<open>
  The parser of the compressor (src/packages/miniz/src/main/c/miniz.c), the loop body of
  \<open>tdefl_compress_normal\<close>: source bytes are taken into the dictionary and the hash chains, a match is looked
  for at the current position, and by the lazy or greedy rule a literal or a match is recorded or saved
  for the next round.  Its meaning: the codes recorded so far expand to the input before the position.
\<close>

unbundle bit_operations_syntax

subsection \<open>Constants\<close>

definition TDEFL_LZ_HASH_SHIFT :: nat where "TDEFL_LZ_HASH_SHIFT = (15 + 2) div 3"
definition TDEFL_LZ_HASH_SIZE :: u32 where "TDEFL_LZ_HASH_SIZE = push_bit 15 1"
definition TDEFL_LZ_CODE_BUF_SIZE :: nat where "TDEFL_LZ_CODE_BUF_SIZE = 64 * 1024"

definition TDEFL_RLE_MATCHES :: u32 where "TDEFL_RLE_MATCHES = 0x10000"
definition TDEFL_FILTER_MATCHES :: u32 where "TDEFL_FILTER_MATCHES = 0x20000"
definition TDEFL_FORCE_ALL_STATIC_BLOCKS :: u32 where "TDEFL_FORCE_ALL_STATIC_BLOCKS = 0x40000"
definition TDEFL_FORCE_ALL_RAW_BLOCKS :: u32 where "TDEFL_FORCE_ALL_RAW_BLOCKS = 0x80000"

definition has_flag :: "'z tdefl_parser_scheme \<Rightarrow> u32 \<Rightarrow> bool" where
  "has_flag d f \<longleftrightarrow> m_flags d AND f \<noteq> 0"

subsection \<open>Taking in the source\<close>

text \<open>A byte goes to its place in the dictionary, and the first ones also behind its end.\<close>

definition put_dict :: "u32 \<Rightarrow> u8 \<Rightarrow> 'z tdefl_parser_scheme \<Rightarrow> 'z tdefl_parser_scheme" where
  "put_dict dst_pos c d =
     (let d = d\<lparr>m_dict := (m_dict d)[unat dst_pos := c]\<rparr> in
      if dst_pos < TDEFL_MAX_MATCH_LEN - 1 then d\<lparr>m_dict := (m_dict d)[unat (TDEFL_LZ_DICT_SIZE + dst_pos) := c]\<rparr> else d)"

definition link_position :: "u32 \<Rightarrow> u32 \<Rightarrow> 'z tdefl_parser_scheme \<Rightarrow> 'z tdefl_parser_scheme" where
  "link_position ins_pos hash d =
     d\<lparr>m_next := (m_next d)[unat (ins_pos AND TDEFL_LZ_DICT_SIZE_MASK) := m_hash d ! unat hash],
       m_hash := (m_hash d)[unat hash := ucast ins_pos]\<rparr>"

definition dict_at :: "'z tdefl_parser_scheme \<Rightarrow> u32 \<Rightarrow> u32" where
  "dict_at d pos = ucast (m_dict d ! unat (pos AND TDEFL_LZ_DICT_SIZE_MASK))"

text \<open>The loop of the usual case, with the hash kept rolling.\<close>

fun take_in :: "u32 \<Rightarrow> u32 \<Rightarrow> u32 \<Rightarrow> u8 list \<Rightarrow> 'z tdefl_parser_scheme \<Rightarrow> 'z tdefl_parser_scheme" where
  "take_in dst_pos ins_pos hash [] d = d"
| "take_in dst_pos ins_pos hash (c # cs) d =
     (let d = put_dict dst_pos c d;
          hash = (push_bit TDEFL_LZ_HASH_SHIFT hash XOR ucast c) AND (TDEFL_LZ_HASH_SIZE - 1);
          d = link_position ins_pos hash d
      in take_in ((dst_pos + 1) AND TDEFL_LZ_DICT_SIZE_MASK) (ins_pos + 1) hash cs d)"

text \<open>The loop of the first bytes, for which there is no hash yet.\<close>

fun take_in_first :: "u8 list \<Rightarrow> 'z tdefl_parser_scheme \<Rightarrow> 'z tdefl_parser_scheme \<times> u8 list" where
  "take_in_first [] d = (d, [])"
| "take_in_first (c # src) d =
     (if m_lookahead_size d < TDEFL_MAX_MATCH_LEN then
        let d = put_dict ((m_lookahead_pos d + m_lookahead_size d) AND TDEFL_LZ_DICT_SIZE_MASK) c d;
            d = d\<lparr>m_lookahead_size := m_lookahead_size d + 1\<rparr>;
            ins_pos = m_lookahead_pos d + (m_lookahead_size d - 1) - 2;
            hash = (push_bit (TDEFL_LZ_HASH_SHIFT * 2) (dict_at d ins_pos) XOR push_bit TDEFL_LZ_HASH_SHIFT (dict_at d (ins_pos + 1))
                    XOR ucast c) AND (TDEFL_LZ_HASH_SIZE - 1)
        in take_in_first src
             (if m_lookahead_size d + m_dict_size d \<ge> TDEFL_MIN_MATCH_LEN then link_position ins_pos hash d else d)
      else (d, c # src))"

definition take_in_source :: "u8 list \<Rightarrow> 'z tdefl_parser_scheme \<Rightarrow> 'z tdefl_parser_scheme \<times> u8 list" where
  "take_in_source src d =
     (let (d, src) =
        (if m_lookahead_size d + m_dict_size d \<ge> TDEFL_MIN_MATCH_LEN - 1 then
           let dst_pos = (m_lookahead_pos d + m_lookahead_size d) AND TDEFL_LZ_DICT_SIZE_MASK;
               ins_pos = m_lookahead_pos d + m_lookahead_size d - 2;
               hash = push_bit TDEFL_LZ_HASH_SHIFT (dict_at d ins_pos) XOR dict_at d (ins_pos + 1);
               num_bytes_to_process = min (length src) (unat (TDEFL_MAX_MATCH_LEN - m_lookahead_size d));
               d = d\<lparr>m_lookahead_size := m_lookahead_size d + of_nat num_bytes_to_process\<rparr>
           in (take_in dst_pos ins_pos hash (take num_bytes_to_process src) d, drop num_bytes_to_process src)
         else take_in_first src d)
      in (d\<lparr>m_dict_size := min (TDEFL_LZ_DICT_SIZE - m_lookahead_size d) (m_dict_size d)\<rparr>, src))"

subsection \<open>The step of the parser\<close>

text \<open>The number of bytes from the position on that equal \<open>c\<close>.\<close>

fun rle_run :: "u8 list \<Rightarrow> nat \<Rightarrow> u8 \<Rightarrow> nat \<Rightarrow> nat" where
  "rle_run dict p c 0 = 0"
| "rle_run dict p c (Suc n) = (if dict ! p \<noteq> c then 0 else Suc (rle_run dict (p + 1) c n))"

text \<open>\<open>cur_match_dist\<close> and \<open>cur_match_len\<close>.\<close>

definition find_cur_match :: "'z tdefl_parser_scheme \<Rightarrow> u32 \<times> u32" where
  "find_cur_match d =
     (let cur_match_len = (if m_saved_match_len d \<noteq> 0 then m_saved_match_len d else TDEFL_MIN_MATCH_LEN - 1);
          cur_pos = m_lookahead_pos d AND TDEFL_LZ_DICT_SIZE_MASK;
          (cur_match_dist, cur_match_len) =
            (if has_flag d (TDEFL_RLE_MATCHES OR TDEFL_FORCE_ALL_RAW_BLOCKS) then
               if m_dict_size d \<noteq> 0 \<and> \<not> has_flag d TDEFL_FORCE_ALL_RAW_BLOCKS then
                 let c = m_dict d ! unat ((cur_pos - 1) AND TDEFL_LZ_DICT_SIZE_MASK);
                     run = of_nat (rle_run (m_dict d) (unat cur_pos) c (unat (m_lookahead_size d)))
                 in if run < TDEFL_MIN_MATCH_LEN then (0, 0) else (1, run)
               else (0, cur_match_len)
             else tdefl_find_match d (m_lookahead_pos d) (m_dict_size d) (m_lookahead_size d) (0, cur_match_len))
      in if cur_match_len = TDEFL_MIN_MATCH_LEN \<and> cur_match_dist \<ge> 8 * 1024 \<or> cur_pos = cur_match_dist
            \<or> has_flag d TDEFL_FILTER_MATCHES \<and> cur_match_len \<le> 5
         then (0, 0) else (cur_match_dist, cur_match_len))"

definition record_lit :: "u8 \<Rightarrow> 'z tdefl_parser_scheme \<Rightarrow> 'z tdefl_parser_scheme" where
  "record_lit lit d = d\<lparr>blk := tdefl_record_literal lit (blk d)\<rparr>"

definition record_mat :: "u32 \<Rightarrow> u32 \<Rightarrow> 'z tdefl_parser_scheme \<Rightarrow> 'z tdefl_parser_scheme" where
  "record_mat len dist d = d\<lparr>blk := tdefl_record_match len dist (blk d)\<rparr>"

definition save_match :: "u8 \<Rightarrow> u32 \<Rightarrow> u32 \<Rightarrow> 'z tdefl_parser_scheme \<Rightarrow> 'z tdefl_parser_scheme" where
  "save_match lit dist len d = d\<lparr>m_saved_lit := ucast lit, m_saved_match_dist := dist, m_saved_match_len := len\<rparr>"

text \<open>The state machine; the second component is \<open>len_to_move\<close>.\<close>

definition parse_step :: "'z tdefl_parser_scheme \<Rightarrow> 'z tdefl_parser_scheme \<times> u32" where
  "parse_step d =
     (let cur_pos = m_lookahead_pos d AND TDEFL_LZ_DICT_SIZE_MASK;
          (cur_match_dist, cur_match_len) = find_cur_match d
      in if m_saved_match_len d \<noteq> 0 then
           if cur_match_len > m_saved_match_len d then
             let d = record_lit (ucast (m_saved_lit d)) d in
             if cur_match_len \<ge> 128 then
               ((record_mat cur_match_len cur_match_dist d)\<lparr>m_saved_match_len := 0\<rparr>, cur_match_len)
             else (save_match (m_dict d ! unat cur_pos) cur_match_dist cur_match_len d, 1)
           else
             ((record_mat (m_saved_match_len d) (m_saved_match_dist d) d)\<lparr>m_saved_match_len := 0\<rparr>, m_saved_match_len d - 1)
         else if cur_match_dist = 0 then (record_lit (m_dict d ! min (unat cur_pos) (33025 - 1)) d, 1)
         else if m_greedy_parsing d \<or> has_flag d TDEFL_RLE_MATCHES \<or> cur_match_len \<ge> 128 then
           (record_mat cur_match_len cur_match_dist d, cur_match_len)
         else (save_match (m_dict d ! min (unat cur_pos) (33025 - 1)) cur_match_dist cur_match_len d, 1))"

definition move_lookahead :: "u32 \<Rightarrow> 'z tdefl_parser_scheme \<Rightarrow> 'z tdefl_parser_scheme" where
  "move_lookahead len_to_move d =
     d\<lparr>m_lookahead_pos := m_lookahead_pos d + len_to_move, m_lookahead_size := m_lookahead_size d - len_to_move,
       m_dict_size := min (m_dict_size d + len_to_move) TDEFL_LZ_DICT_SIZE\<rparr>"

text \<open>Is it time to flush the codes?\<close>

definition time_to_flush :: "'z tdefl_parser_scheme \<Rightarrow> bool" where
  "time_to_flush d \<longleftrightarrow> m_pLZ_code_buf (blk d) > TDEFL_LZ_CODE_BUF_SIZE - 8
     \<or> m_total_lz_bytes (blk d) > 31 * 1024
       \<and> (drop_bit 7 (of_nat (m_pLZ_code_buf (blk d)) * 115) \<ge> m_total_lz_bytes (blk d) \<or> has_flag d TDEFL_FORCE_ALL_RAW_BLOCKS)"

subsection \<open>What is taken in\<close>

text \<open>Input, dictionary and positions agree: the dictionary has what lies behind the position and ahead of it.\<close>

definition parser_ok :: "'z tdefl_parser_scheme \<Rightarrow> u8 list \<Rightarrow> bool" where
  "parser_ok d inp \<longleftrightarrow> length inp < 2 ^ 32 \<and> unat (m_lookahead_pos d) + unat (m_lookahead_size d) = length inp
     \<and> unat (m_lookahead_size d) \<le> 258 \<and> unat (m_dict_size d) \<le> unat (m_lookahead_pos d)
     \<and> unat (m_dict_size d) + unat (m_lookahead_size d) \<le> 32768
     \<and> dict_from (unat (m_lookahead_pos d) - unat (m_dict_size d)) (m_dict d) inp"

lemma dict_from_mono: "dict_from lo dict inp \<Longrightarrow> lo \<le> lo' \<Longrightarrow> dict_from lo' dict inp"
  unfolding dict_from_def by (meson le_trans add_le_mono1)

lemma put_dict_fields [simp]:
  "m_lookahead_pos (put_dict p c d) = m_lookahead_pos d" "m_lookahead_size (put_dict p c d) = m_lookahead_size d"
  "m_dict_size (put_dict p c d) = m_dict_size d"
  by (simp_all add: put_dict_def Let_def)

lemma dict_index:
  assumes "(j :: nat) < 33025"
  shows "j = j mod 32768 \<or> j = 32768 + j mod 32768 \<and> j mod 32768 < 257"
proof (cases "j < 32768")
  case False
  then have "j mod 32768 = j - 32768" using assms by (simp add: mod_if)
  then show ?thesis using False assms by linarith
qed simp

lemma mod_window: "k mod n = l mod n \<Longrightarrow> l < k + n \<Longrightarrow> \<not> k < (l :: nat)"
proof
  assume a: "k mod n = l mod n" "l < k + n" "k < l"
  then have "n dvd l - k" by (metis less_imp_le_nat mod_eq_dvd_iff_nat)
  then have "n \<le> l - k" using a(3) by (intro dvd_imp_le) simp_all
  then show False using a(2,3) by linarith
qed

lemma put_dict_snoc:
  assumes dict: "dict_from lo (m_dict d) inp" and p: "unat p = length inp mod 32768" and lo: "length inp + 1 \<le> lo' + 32768" "lo \<le> lo'"
  shows "dict_from lo' (m_dict (put_dict p c d)) (inp @ [c])"
proof -
  let ?p = "length inp mod 32768"
  have len: "length (m_dict d) = 33025" using dict by (simp add: dict_from_def)
  have p257: "(p < TDEFL_MAX_MATCH_LEN - 1) = (?p < 257)"
    using p by (simp add: TDEFL_MAX_MATCH_LEN_def word_less_nat_alt)
  have up: "unat (TDEFL_LZ_DICT_SIZE + p) = 32768 + ?p" if "?p < 257"
    using that p by (subst unat_add_small) (simp_all add: TDEFL_LZ_DICT_SIZE_def)
  have dict': "m_dict (put_dict p c d) = (if ?p < 257 then (m_dict d)[?p := c, 32768 + ?p := c] else (m_dict d)[?p := c])"
    using p p257 up by (simp add: put_dict_def Let_def)
  have "m_dict (put_dict p c d) ! j = (inp @ [c]) ! k"
    if k: "lo' \<le> k" "k < length (inp @ [c])" "j < 33025" "j mod 32768 = k mod 32768" for k j
  proof (cases "k = length inp")
    case True
    then have "j = ?p \<or> j = 32768 + ?p \<and> ?p < 257" using k(3,4) dict_index [of j] by simp
    then show ?thesis unfolding dict' using True len by (auto simp: nth_list_update)
  next
    case False
    then have kl: "k < length inp" using k(2) by simp
    have "k mod 32768 \<noteq> ?p"
    proof
      assume "k mod 32768 = ?p"
      moreover have "length inp < k + 32768" using lo k(1) by simp
      ultimately show False using kl mod_window by blast
    qed
    then have "j \<noteq> ?p" "j \<noteq> 32768 + ?p" using k(4) by auto
    then have "m_dict (put_dict p c d) ! j = m_dict d ! j" unfolding dict' by simp
    also have "\<dots> = inp ! k" using dict k kl lo(2) unfolding dict_from_def by (meson le_trans)
    finally show ?thesis using kl by (simp add: nth_append)
  qed
  then show ?thesis using len lo unfolding dict_from_def by (simp add: dict')
qed

lemma link_position_fields [simp]:
  "m_dict (link_position i h d) = m_dict d" "m_lookahead_pos (link_position i h d) = m_lookahead_pos d"
  "m_lookahead_size (link_position i h d) = m_lookahead_size d" "m_dict_size (link_position i h d) = m_dict_size d"
  by (simp_all add: link_position_def)

text \<open>What taking in leaves alone.\<close>

definition taken_only :: "'z tdefl_parser_scheme \<Rightarrow> 'z tdefl_parser_scheme \<Rightarrow> bool" where
  "taken_only d d' \<longleftrightarrow> d'\<lparr>m_lookahead_size := m_lookahead_size d, m_dict_size := m_dict_size d, m_dict := m_dict d,
     m_next := m_next d, m_hash := m_hash d\<rparr> = d"

lemma taken_only_refl [simp]: "taken_only d d"
  by (simp add: taken_only_def)

lemma taken_only_trans: "taken_only a b \<Longrightarrow> taken_only b c \<Longrightarrow> taken_only a c"
  by (cases a; cases b; cases c) (simp add: taken_only_def)

lemma taken_only_step [simp]:
  "taken_only d (put_dict p c d)" "taken_only d (link_position i h d)" "taken_only d (d\<lparr>m_lookahead_size := n\<rparr>)"
  "taken_only d (d\<lparr>m_dict_size := n\<rparr>)"
  by (simp_all add: taken_only_def put_dict_def link_position_def Let_def)

lemma take_in_fields [simp]:
  "m_lookahead_pos (take_in p i h cs d) = m_lookahead_pos d" "m_lookahead_size (take_in p i h cs d) = m_lookahead_size d"
  "m_dict_size (take_in p i h cs d) = m_dict_size d"
  by (induction p i h cs d rule: take_in.induct) (simp_all add: Let_def)

lemma take_in_only: "taken_only d (take_in p i h cs d)"
proof (induction p i h cs d rule: take_in.induct)
  case (2 p i h c cs d)
  have "taken_only d (link_position i ((push_bit TDEFL_LZ_HASH_SHIFT h XOR ucast c) AND (TDEFL_LZ_HASH_SIZE - 1)) (put_dict p c d))"
    by (rule taken_only_trans [OF taken_only_step(1) taken_only_step(2)])
  then show ?case using taken_only_trans "2.IH" [OF refl refl refl] by (simp only: take_in.simps Let_def) blast
qed simp

lemma take_in_dict:
  assumes "dict_from lo (m_dict d) inp" "unat p = length inp mod 32768" "length inp + length cs \<le> lo' + 32768" "lo \<le> lo'"
    "length cs \<le> 32768"
  shows "dict_from lo' (m_dict (take_in p i h cs d)) (inp @ cs)"
  using assms
proof (induction p i h cs d arbitrary: inp lo rule: take_in.induct)
  case (1 p i h d inp lo)
  then show ?case by (simp add: dict_from_mono)
next
  case (2 p i h c cs d inp lo)
  let ?lo = "max lo (length inp + 1 - 32768)"
  have "dict_from ?lo (m_dict (put_dict p c d)) (inp @ [c])" by (rule put_dict_snoc [OF "2.prems"(1,2)]) (simp_all add: le_max_iff_disj)
  moreover have "unat ((p + 1) AND TDEFL_LZ_DICT_SIZE_MASK) = length (inp @ [c]) mod 32768"
  proof -
    have "unat p < 32768" using "2.prems"(2) by simp
    then have "unat (p + 1) = unat p + 1" by (subst unat_add_small) simp_all
    then show ?thesis using "2.prems"(2) by (simp add: mask_position mod_Suc_eq)
  qed
  ultimately show ?case
    using "2.prems"(3-5) "2.IH" [OF refl refl refl, of ?lo "inp @ [c]"] by (simp add: Let_def)
qed

lemma taken_only_fields:
  assumes "taken_only d d'"
  shows "blk d' = blk d" "m_flags d' = m_flags d" "m_max_probes d' = m_max_probes d" "m_greedy_parsing d' = m_greedy_parsing d"
    "m_lookahead_pos d' = m_lookahead_pos d" "m_saved_match_dist d' = m_saved_match_dist d"
    "m_saved_match_len d' = m_saved_match_len d" "m_saved_lit d' = m_saved_lit d"
    "tdefl_parser.more d' = tdefl_parser.more d"
  using assms by (cases d; cases d'; simp add: taken_only_def)+

text \<open>The position of the next byte in the dictionary.\<close>

lemma next_place:
  assumes "unat (a :: u32) + unat (b :: u32) = n" "n < 2 ^ 32"
  shows "unat ((a + b) AND TDEFL_LZ_DICT_SIZE_MASK) = n mod 32768"
proof -
  have "unat (a + b) = n" using assms by (subst unat_add_small) simp_all
  then show ?thesis by (simp only: mask_position)
qed

lemma take_in_first_spec:
  fixes d :: "'z tdefl_parser_scheme"
  assumes "unat (m_lookahead_pos d) + unat (m_lookahead_size d) = length inp" "unat (m_lookahead_size d) \<le> 258"
    "dict_from lo (m_dict d) inp" "length inp + length src < 2 ^ 32"
    "unat (m_lookahead_pos d) \<le> lo + unat (m_dict_size d)" "unat (m_dict_size d) < 2"
    "take_in_first src d = (d', src')" "n = min (length src) (258 - unat (m_lookahead_size d))"
  shows "src' = drop n src \<and> unat (m_lookahead_size d') = unat (m_lookahead_size d) + n \<and> m_dict_size d' = m_dict_size d
    \<and> taken_only d d' \<and> dict_from lo (m_dict d') (inp @ take n src)"
  using assms
proof (induction src arbitrary: d inp n)
  case (Cons c src)
  let ?L = "m_lookahead_size d"
  have L258: "(?L < TDEFL_MAX_MATCH_LEN) = (unat ?L < 258)" by (simp add: TDEFL_MAX_MATCH_LEN_def word_less_nat_alt)
  show ?case
  proof (cases "unat ?L < 258")
    case False
    then show ?thesis using Cons.prems L258 by auto
  next
    case True
    define i where "i = m_lookahead_pos d + (?L + 1 - 1) - 2"
    define h where "h = (\<lambda>d :: 'z tdefl_parser_scheme. (push_bit (TDEFL_LZ_HASH_SHIFT * 2) (dict_at d i)
                    XOR push_bit TDEFL_LZ_HASH_SHIFT (dict_at d (i + 1)) XOR ucast c) AND (TDEFL_LZ_HASH_SIZE - 1))"
    let ?d1 = "(put_dict ((m_lookahead_pos d + ?L) AND TDEFL_LZ_DICT_SIZE_MASK) c d)\<lparr>m_lookahead_size := ?L + 1\<rparr>"
    let ?d2 = "if ?L + 1 + m_dict_size d \<ge> TDEFL_MIN_MATCH_LEN then link_position i (h ?d1) ?d1 else ?d1"
    have run: "take_in_first src ?d2 = (d', src')"
      using Cons.prems(7) True L258 by (simp add: Let_def i_def h_def cong: if_cong split del: if_split)
    have L1: "unat (?L + 1) = unat ?L + 1" using True by (subst unat_add_small) simp_all
    have place: "unat ((m_lookahead_pos d + ?L) AND TDEFL_LZ_DICT_SIZE_MASK) = length inp mod 32768"
      using Cons.prems(1,4) by (intro next_place) simp_all
    have dict: "dict_from lo (m_dict ?d2) (inp @ [c])"
      using put_dict_snoc [OF Cons.prems(3) place, of lo c] Cons.prems(1,5,6) True by simp
    have f: "m_lookahead_pos ?d2 = m_lookahead_pos d" "m_lookahead_size ?d2 = ?L + 1" "m_dict_size ?d2 = m_dict_size d" by simp_all
    have only: "taken_only d ?d2"
    proof -
      have "taken_only d ?d1" by (rule taken_only_trans [OF taken_only_step(1) taken_only_step(3)])
      then show ?thesis
        using taken_only_trans [OF _ taken_only_step(2)] by (cases "?L + 1 + m_dict_size d \<ge> TDEFL_MIN_MATCH_LEN") (simp_all only: if_True if_False)
    qed
    have n: "n = Suc (min (length src) (258 - unat (m_lookahead_size ?d2)))" unfolding f L1 using Cons.prems(8) True by simp
    let ?n = "min (length src) (258 - unat (m_lookahead_size ?d2))"
    have "src' = drop ?n src \<and> unat (m_lookahead_size d') = unat (m_lookahead_size ?d2) + ?n \<and> m_dict_size d' = m_dict_size ?d2
        \<and> taken_only ?d2 d' \<and> dict_from lo (m_dict d') ((inp @ [c]) @ take ?n src)"
      using Cons.prems(1-6) True by (intro Cons.IH [OF _ _ dict _ _ _ run refl]) (simp_all only: f L1, simp_all)
    then show ?thesis using taken_only_trans [OF only] unfolding n f L1 by auto
  qed
qed simp

lemma take_in_source_spec:
  assumes ok: "parser_ok d inp" and len: "length inp + length src < 2 ^ 32" and run: "take_in_source src d = (d', src')"
    and n: "n = min (length src) (258 - unat (m_lookahead_size d))"
  shows "src' = drop n src \<and> unat (m_lookahead_size d') = unat (m_lookahead_size d) + n
    \<and> taken_only d d' \<and> parser_ok d' (inp @ take n src)"
proof -
  let ?P = "unat (m_lookahead_pos d)" and ?L = "unat (m_lookahead_size d)" and ?D = "unat (m_dict_size d)"
  note o = ok [unfolded parser_ok_def]
  obtain d1 where d1: "d' = d1\<lparr>m_dict_size := min (TDEFL_LZ_DICT_SIZE - m_lookahead_size d1) (m_dict_size d1)\<rparr>"
    "src' = drop n src" "unat (m_lookahead_size d1) = ?L + n" "m_dict_size d1 = m_dict_size d" "taken_only d d1"
    "dict_from (max (?P - ?D) (length inp + n - 32768)) (m_dict d1) (inp @ take n src)"
  proof (cases "m_lookahead_size d + m_dict_size d \<ge> TDEFL_MIN_MATCH_LEN - 1")
    case True
    define p i h where "p = (m_lookahead_pos d + m_lookahead_size d) AND TDEFL_LZ_DICT_SIZE_MASK"
      and "i = m_lookahead_pos d + m_lookahead_size d - 2"
      and "h = push_bit TDEFL_LZ_HASH_SHIFT (dict_at d i) XOR dict_at d (i + 1)"
    have m: "unat (TDEFL_MAX_MATCH_LEN - m_lookahead_size d) = 258 - ?L"
      using o by (subst unat_sub_small) (simp_all add: TDEFL_MAX_MATCH_LEN_def word_le_nat_alt)
    let ?d0 = "d\<lparr>m_lookahead_size := m_lookahead_size d + of_nat n\<rparr>"
    let ?d1 = "take_in p i h (take n src) ?d0"
    have "take_in_source src d = (?d1\<lparr>m_dict_size := min (TDEFL_LZ_DICT_SIZE - m_lookahead_size ?d1) (m_dict_size ?d1)\<rparr>, drop n src)"
      unfolding take_in_source_def using True m n by (simp add: Let_def p_def i_def h_def)
    moreover have "unat (m_lookahead_size d + of_nat n) = ?L + n"
    proof -
      have "unat (of_nat n :: u32) = n" using n by (intro unat_of_nat_small) simp
      moreover have "n \<le> 258 - ?L" "?L \<le> 258" using n o by simp_all
      ultimately show ?thesis by (subst unat_add_small) simp_all
    qed
    moreover have "taken_only d ?d1" by (rule taken_only_trans [OF taken_only_step(3) take_in_only])
    moreover have "dict_from (max (?P - ?D) (length inp + n - 32768)) (m_dict ?d1) (inp @ take n src)"
    proof (rule take_in_dict)
      show "dict_from (?P - ?D) (m_dict ?d0) inp" using o by simp
      show "unat p = length inp mod 32768" unfolding p_def using o by (intro next_place) simp_all
    qed (use n in \<open>simp_all add: le_max_iff_disj\<close>)
    ultimately show ?thesis using that [of ?d1] run by simp
  next
    case False
    have "unat (m_lookahead_size d + m_dict_size d) = ?L + ?D" using o by (subst unat_add_small) simp_all
    then have few: "?L + ?D < 2" using False by (simp add: TDEFL_MIN_MATCH_LEN_def word_le_nat_alt)
    obtain e src1 where e: "take_in_first src d = (e, src1)" by (metis surj_pair)
    have s: "src1 = drop n src \<and> unat (m_lookahead_size e) = ?L + n \<and> m_dict_size e = m_dict_size d
        \<and> taken_only d e \<and> dict_from (?P - ?D) (m_dict e) (inp @ take n src)"
      using o len few by (intro take_in_first_spec [OF _ _ _ _ _ _ e n]) simp_all
    have "n \<le> 258" using n by simp
    then have "length inp + n - 32768 \<le> ?P - ?D" using o few by linarith
    then have "max (?P - ?D) (length inp + n - 32768) = ?P - ?D" by simp
    moreover have "(d', src') = (e\<lparr>m_dict_size := min (TDEFL_LZ_DICT_SIZE - m_lookahead_size e) (m_dict_size e)\<rparr>, src1)"
      using run False e by (simp add: take_in_source_def)
    ultimately show ?thesis using that [of e] s by simp
  qed
  let ?L' = "?L + n"
  have "n \<le> 258 - ?L" "?L \<le> 258" using n o by simp_all
  then have L': "?L' \<le> 258" by simp
  have sub: "unat (TDEFL_LZ_DICT_SIZE - m_lookahead_size d1) = 32768 - ?L'"
    using d1(3) L' by (subst unat_sub_small) (simp_all add: TDEFL_LZ_DICT_SIZE_def word_le_nat_alt)
  have D': "unat (m_dict_size d') = min (32768 - ?L') ?D"
    unfolding d1(1) using sub d1(4) by (simp add: min_def word_le_nat_alt)
  note tf = taken_only_fields [OF d1(5)]
  have f: "m_lookahead_pos d' = m_lookahead_pos d" "unat (m_lookahead_size d') = ?L'" "m_dict d' = m_dict d1"
    using d1(3) tf by (simp_all add: d1(1))
  have lo: "?P - unat (m_dict_size d') = max (?P - ?D) (length inp + n - 32768)"
  proof -
    have "?P + ?L = length inp" using o by simp
    then show ?thesis unfolding D' using L' by (simp add: min_def max_def) arith
  qed
  have "parser_ok d' (inp @ take n src)"
  proof -
    have "unat (m_dict_size d') \<le> 32768 - ?L'" "unat (m_dict_size d') \<le> ?D" by (simp_all add: D')
    then have "unat (m_dict_size d') + ?L' \<le> 32768" "unat (m_dict_size d') \<le> ?P" using L' o by linarith+
    moreover have "length (inp @ take n src) = length inp + n" using n by simp
    moreover have "n \<le> length src" using n by simp
    ultimately show ?thesis unfolding parser_ok_def f lo using d1(6) o len L' by simp
  qed
  moreover have "taken_only d d'" unfolding d1(1) by (rule taken_only_trans [OF d1(5) taken_only_step(4)])
  ultimately show ?thesis using d1(2) f(2) by simp
qed

subsection \<open>What codes stand for\<close>

text \<open>A reader of codes: a match copies bytes it has already written, one after the other, so that it may
  overlap itself; a distance beyond the beginning is an error.\<close>

fun copy_bytes :: "u8 list \<Rightarrow> nat \<Rightarrow> nat \<Rightarrow> u8 list" where
  "copy_bytes out dist 0 = out"
| "copy_bytes out dist (Suc n) = copy_bytes (out @ [out ! (length out - dist)]) dist n"

fun expand :: "u8 list \<Rightarrow> lz_code list \<Rightarrow> u8 list option" where
  "expand out [] = Some out"
| "expand out (Literal b # cs) = expand (out @ [b]) cs"
| "expand out (Match l q # cs) =
     (if length out < unat q + 1 then None else expand (copy_bytes out (unat q + 1) (unat l + 3)) cs)"

lemma expand_append: "expand out (xs @ ys) = Option.bind (expand out xs) (\<lambda>out. expand out ys)"
  by (induction out xs rule: expand.induct) auto

lemma copy_match:
  assumes m: "is_match_at inp p dist len" and n: "i + n \<le> len"
  shows "copy_bytes (take (p + i) inp) dist n = take (p + i + n) inp"
  using n
proof (induction n arbitrary: i)
  case (Suc n)
  have l: "p + i < length inp" "1 \<le> dist" "dist \<le> p" "length (take (p + i) inp) = p + i"
    using m Suc.prems by (simp_all add: is_match_at_def)
  have e: "inp ! (p + i) = inp ! (p - dist + i)" using m Suc.prems by (simp add: is_match_at_def)
  have pi: "p - dist + i = p + i - dist" using l by simp
  then have "take (p + i) inp ! (p + i - dist) = inp ! (p + i - dist)" using l by simp
  then have "take (p + i) inp ! (p + i - dist) = inp ! (p + i)" using e pi by simp
  then have "copy_bytes (take (p + i) inp) dist (Suc n) = copy_bytes (take (p + Suc i) inp) dist n"
    using l by (simp add: take_Suc_conv_app_nth)
  also have "\<dots> = take (p + Suc i + n) inp" using Suc.prems by (intro Suc.IH) simp
  finally show ?case by simp
qed simp

lemma expand_match:
  assumes "is_match_at inp p (unat dist) (unat len)" "3 \<le> unat (len :: u32)" "unat (dist :: u32) \<le> 32768"
  shows "expand (take p inp) (Match (len - 3) (dist - 1) # cs) = expand (take (p + unat len) inp) cs"
proof -
  have b: "1 \<le> unat dist" "unat dist \<le> p" "p \<le> length inp" using assms(1) by (simp_all add: is_match_at_def)
  have l: "unat (len - 3) + 3 = unat len" using assms(2) by (subst unat_sub_small) (simp_all add: word_le_nat_alt)
  have q: "unat (dist - 1) + 1 = unat dist" using b by (subst unat_sub_small) (simp_all add: word_le_nat_alt)
  have "copy_bytes (take (p + 0) inp) (unat dist) (unat len) = take (p + 0 + unat len) inp"
    by (rule copy_match [OF assms(1)]) simp
  then show ?thesis using b unfolding expand.simps l q by simp
qed

subsection \<open>What is found and recorded\<close>

lemma dict_reads:
  assumes "dict_from lo dict inp" "lo \<le> k" "k + i < length inp" "i < 258"
  shows "dict ! (k mod 32768 + i) = inp ! (k + i)"
proof -
  have "k mod 32768 < 32768" by simp
  then have "k mod 32768 + i < 33025" using assms(4) by linarith
  moreover have "(k mod 32768 + i) mod 32768 = (k + i) mod 32768" by (simp add: mod_add_left_eq)
  ultimately show ?thesis using assms unfolding dict_from_def by (meson le_add1 le_trans)
qed

lemma rle_run_le: "rle_run dict p c n \<le> n"
  by (induction dict p c n rule: rle_run.induct) auto

lemma rle_run_equal: "i < rle_run dict p c n \<Longrightarrow> dict ! (p + i) = c"
proof (induction dict p c n arbitrary: i rule: rle_run.induct)
  case (2 dict p c n)
  then show ?case by (cases i) (auto split: if_splits)
qed simp

text \<open>A saved match and its literal are one position back.\<close>

definition pending :: "'z tdefl_parser_scheme \<Rightarrow> nat" where
  "pending d = (if m_saved_match_len d = 0 then 0 else 1)"

definition saved_ok :: "'z tdefl_parser_scheme \<Rightarrow> u8 list \<Rightarrow> bool" where
  "saved_ok d inp \<longleftrightarrow> (m_saved_match_len d \<noteq> 0 \<longrightarrow>
     1 \<le> unat (m_lookahead_pos d) \<and> 3 \<le> unat (m_saved_match_len d) \<and> unat (m_saved_match_len d) \<le> 258
     \<and> unat (m_saved_match_dist d) \<le> 32768
     \<and> is_match_at inp (unat (m_lookahead_pos d) - 1) (unat (m_saved_match_dist d)) (unat (m_saved_match_len d))
     \<and> ucast (m_saved_lit d) = inp ! (unat (m_lookahead_pos d) - 1))"

text \<open>A match at the position, as the parser may record it.\<close>

definition found_ok :: "'z tdefl_parser_scheme \<Rightarrow> u8 list \<Rightarrow> u32 \<Rightarrow> u32 \<Rightarrow> bool" where
  "found_ok d inp dist len \<longleftrightarrow> 3 \<le> unat len \<and> unat len \<le> unat (m_lookahead_size d) \<and> unat dist \<le> 32768
     \<and> is_match_at inp (unat (m_lookahead_pos d)) (unat dist) (unat len)"

lemma rle_match:
  assumes ok: "parser_ok d inp" and p: "unat (m_lookahead_pos d) < length inp" and D: "m_dict_size d \<noteq> 0"
    and n: "n = rle_run (m_dict d) (unat (m_lookahead_pos d) mod 32768)
      (m_dict d ! unat (((m_lookahead_pos d AND TDEFL_LZ_DICT_SIZE_MASK) - 1) AND TDEFL_LZ_DICT_SIZE_MASK)) (unat (m_lookahead_size d))"
  shows "is_match_at inp (unat (m_lookahead_pos d)) 1 n"
proof -
  let ?P = "unat (m_lookahead_pos d)" and ?x = "m_lookahead_pos d AND TDEFL_LZ_DICT_SIZE_MASK"
  note o = ok [unfolded parser_ok_def]
  have D1: "1 \<le> unat (m_dict_size d)" using D by (simp add: unat_gt_0 Suc_le_eq)
  then have P1: "1 \<le> ?P" using o by linarith
  have x: "unat ?x = ?P mod 32768" by (rule mask_position)
  have "unat ((?x - 1) AND TDEFL_LZ_DICT_SIZE_MASK) = (?P - 1) mod 32768"
  proof (cases "?x = 0")
    case True
    then have "?P mod 32768 = 0" using x by simp
    then obtain k where k: "?P = 32768 * k" by (metis dvd_def mod_0_imp_dvd)
    then obtain j where "k = Suc j" using P1 by (cases k) simp_all
    then have "?P - 1 = 32767 + 32768 * j" using k by simp
    then have "(?P - 1) mod 32768 = 32767" by (simp only: mod_mult_self2) simp
    moreover have "unat ((- 1 :: u32)) mod 32768 = 32767" by (simp add: unsigned_minus_1_eq_mask mask_eq_exp_minus_1)
    ultimately show ?thesis using True by (simp add: TDEFL_LZ_DICT_SIZE_MASK_def TDEFL_LZ_DICT_SIZE_def)
  next
    case False
    then have pos: "0 < ?P mod 32768" using x by (simp add: unat_gt_0 flip: x)
    have "unat (?x - 1) = unat ?x - 1" using False by (subst unat_sub_small) (simp_all add: word_le_nat_alt unat_gt_0 Suc_le_eq)
    moreover have "(?P - 1) mod 32768 = ?P mod 32768 - 1"
    proof -
      obtain a b where ab: "?P = a * 32768 + b" "b < 32768" "?P mod 32768 = b"
        by (metis div_mult_mod_eq mod_less_divisor zero_less_numeral)
      then have "?P - 1 = (b - 1) + 32768 * a" using pos by simp
      then show ?thesis using ab by (simp only: mod_mult_self2) simp
    qed
    ultimately show ?thesis using x by (simp only: mask_position) simp
  qed
  then have c: "m_dict d ! unat ((?x - 1) AND TDEFL_LZ_DICT_SIZE_MASK) = inp ! (?P - 1)"
    using dict_reads [of "?P - unat (m_dict_size d)" "m_dict d" inp "?P - 1" 0] o D1 P1 p by simp
  have nL: "n \<le> unat (m_lookahead_size d)" unfolding n by (rule rle_run_le)
  have all: "inp ! (?P + i) = inp ! (?P - 1)" if "i < n" for i
    using rle_run_equal [of i "m_dict d" "?P mod 32768"] that dict_reads [of "?P - unat (m_dict_size d)" "m_dict d" inp ?P i] o nL n c by simp
  have "inp ! (?P + i) = inp ! (?P - 1 + i)" if "i < n" for i
  proof (cases i)
    case (Suc j)
    then show ?thesis using all [of i] all [of j] that P1 by simp
  qed (use all [of 0] that in simp)
  then show ?thesis using P1 nL o by (simp add: is_match_at_def)
qed

lemma find_cur_match_spec:
  assumes ok: "parser_ok d inp" and p: "1 \<le> unat (m_lookahead_size d)" and s: "saved_ok d inp"
    and r: "find_cur_match d = (dist, len)"
  shows "dist = 0 \<and> (m_saved_match_len d \<noteq> 0 \<longrightarrow> len \<le> m_saved_match_len d) \<or> dist \<noteq> 0 \<and> found_ok d inp dist len"
proof -
  let ?P = "unat (m_lookahead_pos d)" and ?L = "unat (m_lookahead_size d)" and ?D = "unat (m_dict_size d)"
  note o = ok [unfolded parser_ok_def]
  let ?c = "if m_saved_match_len d \<noteq> 0 then m_saved_match_len d else TDEFL_MIN_MATCH_LEN - 1"
  let ?good = "\<lambda>dist len. dist = 0 \<and> (len = 0 \<or> len = ?c) \<or> dist \<noteq> 0 \<and> found_ok d inp dist len"
  have c2: "2 \<le> unat ?c" using s by (auto simp: saved_ok_def TDEFL_MIN_MATCH_LEN_def)
  have P: "?P < length inp" "?P + ?L \<le> length inp" "?L \<le> 258" using o p by linarith+
  have search: "?good a b" if r: "tdefl_find_match d (m_lookahead_pos d) (m_dict_size d) (m_lookahead_size d) (0, ?c) = (a, b)" for a b
  proof -
    have md: "?P - ?D + ?D \<le> ?P" using o by simp
    have "(a, b) = (0, ?c) \<or> unat ?c < unat b \<and> unat b \<le> ?L \<and> unat a \<le> ?D \<and> is_match_at inp ?P (unat a) (unat b)"
      using o by (intro find_match_spec [OF _ P md r]) simp
    then show ?thesis
    proof
      assume m: "unat ?c < unat b \<and> unat b \<le> ?L \<and> unat a \<le> ?D \<and> is_match_at inp ?P (unat a) (unat b)"
      then have "1 \<le> unat a" by (simp add: is_match_at_def)
      then have "a \<noteq> 0" by (metis unat_0 not_one_le_zero)
      moreover have "?D \<le> 32768" using o by simp
      ultimately show ?thesis using m c2 by (simp add: found_ok_def)
    qed simp
  qed
  let ?n = "rle_run (m_dict d) (?P mod 32768)
      (m_dict d ! unat (((m_lookahead_pos d AND TDEFL_LZ_DICT_SIZE_MASK) - 1) AND TDEFL_LZ_DICT_SIZE_MASK)) ?L"
  have run: "?good 1 (of_nat ?n)" if D: "m_dict_size d \<noteq> 0" and n: "\<not> of_nat ?n < TDEFL_MIN_MATCH_LEN"
  proof -
    have nL: "?n \<le> ?L" by (rule rle_run_le)
    then have u: "unat (of_nat ?n :: u32) = ?n" using P(3) by (intro unat_of_nat_small) simp
    then have "3 \<le> ?n" using n by (simp add: TDEFL_MIN_MATCH_LEN_def word_less_nat_alt)
    moreover have "is_match_at inp ?P 1 ?n" by (rule rle_match [OF ok P(1) D refl])
    ultimately show ?thesis using nL by (simp add: found_ok_def u)
  qed
  let ?found = "if has_flag d (TDEFL_RLE_MATCHES OR TDEFL_FORCE_ALL_RAW_BLOCKS) then
      if m_dict_size d \<noteq> 0 \<and> \<not> has_flag d TDEFL_FORCE_ALL_RAW_BLOCKS then
        if (of_nat ?n :: u32) < TDEFL_MIN_MATCH_LEN then (0, 0) else (1, of_nat ?n)
      else (0, ?c)
    else tdefl_find_match d (m_lookahead_pos d) (m_dict_size d) (m_lookahead_size d) (0, ?c)"
  obtain a b where ab: "?found = (a, b)" by (metis surj_pair)
  have good: "?good a b"
  proof (cases "has_flag d (TDEFL_RLE_MATCHES OR TDEFL_FORCE_ALL_RAW_BLOCKS)")
    case True
    then show ?thesis using ab run by (auto split: if_splits)
  next
    case False
    then show ?thesis using ab search by simp
  qed
  have "(dist, len) = (a, b) \<or> (dist, len) = (0, 0)"
    using r ab unfolding find_cur_match_def Let_def mask_position by (simp split: if_splits prod.splits)
  then show ?thesis
  proof
    assume e: "(dist, len) = (a, b)"
    show ?thesis
    proof (cases "a = 0")
      case True
      then show ?thesis using good e by auto
    qed (use good e in simp)
  qed simp
qed

subsection \<open>A step\<close>

text \<open>What a step leaves alone.\<close>

definition step_only :: "'z tdefl_parser_scheme \<Rightarrow> 'z tdefl_parser_scheme \<Rightarrow> bool" where
  "step_only d d' \<longleftrightarrow> d'\<lparr>blk := blk d, m_saved_match_dist := m_saved_match_dist d, m_saved_match_len := m_saved_match_len d,
     m_saved_lit := m_saved_lit d\<rparr> = d"

lemma step_only_steps [simp]:
  "step_only d (record_lit b d)" "step_only d (record_mat l q d)" "step_only d (save_match b q l d)"
  "step_only d ((record_mat l q d)\<lparr>m_saved_match_len := 0\<rparr>)"
  "step_only d ((record_mat l q (record_lit b d))\<lparr>m_saved_match_len := 0\<rparr>)"
  "step_only d (save_match b q l (record_lit c d))"
  by (simp_all add: step_only_def record_lit_def record_mat_def save_match_def)

lemma step_only_fields:
  assumes "step_only d d'"
  shows "m_flags d' = m_flags d" "m_max_probes d' = m_max_probes d" "m_greedy_parsing d' = m_greedy_parsing d"
    "m_lookahead_pos d' = m_lookahead_pos d" "m_lookahead_size d' = m_lookahead_size d" "m_dict_size d' = m_dict_size d"
    "m_dict d' = m_dict d" "m_next d' = m_next d" "m_hash d' = m_hash d" "tdefl_parser.more d' = tdefl_parser.more d"
  using assms by (cases d; cases d'; simp add: step_only_def)+

text \<open>The codes recorded, and that they reach from the end of what was recorded before to the end of what
  is recorded after \<open>n\<close> more bytes.\<close>

definition advances :: "'z tdefl_parser_scheme \<Rightarrow> u8 list \<Rightarrow> 'z tdefl_parser_scheme \<Rightarrow> nat \<Rightarrow> lz_code list \<Rightarrow> bool" where
  "advances d inp d' n new \<longleftrightarrow>
     (let P = unat (m_lookahead_pos d) in
      step_only d d' \<and> blk d' = foldl record_code (blk d) new \<and> list_all code_ok new \<and> length new \<le> 2
      \<and> 1 \<le> n \<and> n \<le> unat (m_lookahead_size d)
      \<and> (\<forall>cs. expand (take (P - pending d) inp) (new @ cs) = expand (take (P + n - pending d') inp) cs)
      \<and> (m_saved_match_len d' \<noteq> 0 \<longrightarrow> n = 1 \<and> 3 \<le> unat (m_saved_match_len d') \<and> unat (m_saved_match_len d') \<le> 258
           \<and> unat (m_saved_match_dist d') \<le> 32768 \<and> is_match_at inp P (unat (m_saved_match_dist d')) (unat (m_saved_match_len d'))
           \<and> ucast (m_saved_lit d') = inp ! P))"

lemma code_of_match:
  fixes len dist :: u32
  assumes "3 \<le> unat len" "unat len \<le> 258" "1 \<le> unat dist" "unat dist \<le> 32768"
  shows "code_ok (Match (len - 3) (dist - 1))" "record_code e (Match (len - 3) (dist - 1)) = tdefl_record_match len dist e"
proof -
  have "unat (len - 3) = unat len - 3" "unat (dist - 1) = unat dist - 1"
    using assms by (subst unat_sub_small; simp add: word_le_nat_alt)+
  then show "code_ok (Match (len - 3) (dist - 1))" using assms by (simp only: code_ok.simps) linarith
qed simp

lemma expand_literal: "p < length inp \<Longrightarrow> expand (take p inp) (Literal (inp ! p) # cs) = expand (take (Suc p) inp) cs"
  by (simp add: take_Suc_conv_app_nth)

lemma byte_cast [simp]: "ucast (ucast (b :: u8) :: u32) = b"
  by (rule bit_word_eqI) (auto simp: bit_ucast_iff possible_bit_word)

lemma parse_step_advances:
  assumes ok: "parser_ok d inp" and L: "1 \<le> unat (m_lookahead_size d)" and s: "saved_ok d inp" and r: "parse_step d = (d', n)"
  shows "\<exists>new. advances d inp d' (unat n) new"
proof -
  let ?P = "unat (m_lookahead_pos d)" and ?L = "unat (m_lookahead_size d)"
  let ?sl = "m_saved_match_len d" and ?sd = "m_saved_match_dist d"
  note o = ok [unfolded parser_ok_def]
  have P: "?P < length inp" using o L by linarith
  obtain dist len where f: "find_cur_match d = (dist, len)" by (metis surj_pair)
  note spec = find_cur_match_spec [OF ok L s f]
  have x: "unat (m_lookahead_pos d AND TDEFL_LZ_DICT_SIZE_MASK) = ?P mod 32768" by (rule mask_position)
  have lit: "m_dict d ! (?P mod 32768) = inp ! ?P"
    using dict_reads [of "?P - unat (m_dict_size d)" "m_dict d" inp ?P 0] o P by simp
  have "?P mod 32768 < 32768" by simp
  then have "?P mod 32768 \<le> 33024" by linarith
  then have mn: "min (?P mod 32768) (33025 - 1) = ?P mod 32768" by (simp add: min_def)
  have found: "3 \<le> unat len" "unat len \<le> ?L" "unat len \<le> 258" "1 \<le> unat dist" "unat dist \<le> 32768"
      "is_match_at inp ?P (unat dist) (unat len)" if "found_ok d inp dist len"
    using that o by (auto simp: found_ok_def is_match_at_def)
  show ?thesis
  proof (cases "?sl = 0")
    case False
    have S: "1 \<le> ?P" "3 \<le> unat ?sl" "unat ?sl \<le> 258" "unat ?sd \<le> 32768" "is_match_at inp (?P - 1) (unat ?sd) (unat ?sl)"
      "ucast (m_saved_lit d) = inp ! (?P - 1)"
      using s False by (simp_all add: saved_ok_def)
    have e1: "expand (take (?P - 1) inp) (Literal (inp ! (?P - 1)) # cs) = expand (take ?P inp) cs" for cs
      using expand_literal [of "?P - 1" inp cs] S(1) P by simp
    show ?thesis
    proof (cases "len > ?sl")
      case True
      then have fo: "found_ok d inp dist len" using spec False by auto
      note m = found [OF fo]
      show ?thesis
      proof (cases "len \<ge> 128")
        case big: True
        then have d': "d' = (record_mat len dist (record_lit (inp ! (?P - 1)) d))\<lparr>m_saved_match_len := 0\<rparr>" "n = len"
          using r False True f S(6) by (auto simp: parse_step_def)
        let ?new = "[Literal (inp ! (?P - 1)), Match (len - 3) (dist - 1)]"
        have "expand (take (?P - 1) inp) (?new @ cs) = expand (take (?P + unat len) inp) cs" for cs
          by (simp only: append_Cons append_Nil e1 expand_match [OF m(6,1,5)])
        then have "advances d inp d' (unat n) ?new"
          using False m code_of_match [OF m(1,3,4,5)]
          by (simp add: advances_def d' pending_def record_lit_def record_mat_def Let_def del: expand.simps record_code.simps(2) step_only_steps)
            (simp add: step_only_def)
        then show ?thesis by blast
      next
        case small: False
        then have d': "d' = save_match (inp ! ?P) dist len (record_lit (inp ! (?P - 1)) d)" "n = 1"
          using r False True f S(6) x lit by (simp_all add: parse_step_def record_lit_def)
        have "len \<noteq> 0" using m(1) by auto
        then have "advances d inp d' (unat n) [Literal (inp ! (?P - 1))]"
          using False m L e1 by (simp add: advances_def d' pending_def save_match_def record_lit_def Let_def del: expand.simps)
            (simp add: step_only_def)
        then show ?thesis by blast
      qed
    next
      case le: False
      then have d': "d' = (record_mat ?sl ?sd d)\<lparr>m_saved_match_len := 0\<rparr>" "n = ?sl - 1"
        using r False f by (simp_all add: parse_step_def)
      have n: "unat (?sl - 1) = unat ?sl - 1" using S(2) by (subst unat_sub_small) (simp_all add: word_le_nat_alt)
      have sd1: "1 \<le> unat ?sd" and sL: "unat ?sl - 1 \<le> ?L" using S(1,2,5) o by (auto simp: is_match_at_def)
      have "?P - 1 + unat ?sl = ?P + (unat ?sl - 1)" using S(1,2) by linarith
      then have "expand (take (?P - 1) inp) (Match (?sl - 3) (?sd - 1) # cs) = expand (take (?P + (unat ?sl - 1)) inp) cs" for cs
        using expand_match [OF S(5,2,4)] by simp
      then have "advances d inp d' (unat n) [Match (?sl - 3) (?sd - 1)]"
        using False S(2) sL n code_of_match [OF S(2,3) sd1 S(4)]
        by (simp add: advances_def d' pending_def record_mat_def Let_def del: expand.simps record_code.simps(2))
          (simp add: step_only_def)
      then show ?thesis by blast
    qed
  next
    case True
    show ?thesis
    proof (cases "dist = 0")
      case z: True
      then have d': "d' = record_lit (inp ! ?P) d" "n = 1"
        using r True f x lit mn by (simp_all add: parse_step_def)
      have "advances d inp d' (unat n) [Literal (inp ! ?P)]"
        using True L expand_literal [OF P] by (simp add: advances_def d' pending_def record_lit_def Let_def del: expand.simps)
          (simp add: step_only_def)
      then show ?thesis by blast
    next
      case nz: False
      then have fo: "found_ok d inp dist len" using spec by blast
      note m = found [OF fo]
      show ?thesis
      proof (cases "m_greedy_parsing d \<or> has_flag d TDEFL_RLE_MATCHES \<or> len \<ge> 128")
        case rec: True
        then have d': "d' = record_mat len dist d" "n = len" using r True nz f by (auto simp: parse_step_def)
        have "advances d inp d' (unat n) [Match (len - 3) (dist - 1)]"
          using True m code_of_match [OF m(1,3,4,5)] expand_match [OF m(6,1,5)]
          by (simp add: advances_def d' pending_def record_mat_def Let_def del: expand.simps record_code.simps(2))
            (simp add: step_only_def)
        then show ?thesis by blast
      next
        case False
        then have d': "d' = save_match (inp ! ?P) dist len d" "n = 1"
          using r True nz f x lit mn by (simp_all add: parse_step_def)
        have "len \<noteq> 0" using m(1) by auto
        then have "advances d inp d' (unat n) []"
          using True m L by (simp add: advances_def d' pending_def save_match_def Let_def) (simp add: step_only_def)
        then show ?thesis by blast
      qed
    qed
  qed
qed

subsection \<open>A round\<close>

text \<open>The codes \<open>cs\<close> recorded so far stand for the input up to the position, or to the saved literal.\<close>

definition coded :: "'z tdefl_parser_scheme \<Rightarrow> u8 list \<Rightarrow> lz_code list \<Rightarrow> bool" where
  "coded d inp cs \<longleftrightarrow> parser_ok d inp \<and> saved_ok d inp
     \<and> expand [] cs = Some (take (unat (m_lookahead_pos d) - pending d) inp)"

lemma move_lookahead_fields [simp]:
  "blk (move_lookahead n d) = blk d" "m_flags (move_lookahead n d) = m_flags d" "m_dict (move_lookahead n d) = m_dict d"
  "m_saved_match_len (move_lookahead n d) = m_saved_match_len d" "m_saved_match_dist (move_lookahead n d) = m_saved_match_dist d"
  "m_saved_lit (move_lookahead n d) = m_saved_lit d" "pending (move_lookahead n d) = pending d"
  "m_lookahead_pos (move_lookahead n d) = m_lookahead_pos d + n"
  "tdefl_parser.more (move_lookahead n d) = tdefl_parser.more d"
  by (simp_all add: move_lookahead_def pending_def)

lemma move_lookahead_ok:
  assumes ok: "parser_ok d inp" and n: "unat n \<le> unat (m_lookahead_size d)"
  shows "parser_ok (move_lookahead n d) inp" "unat (m_lookahead_pos (move_lookahead n d)) = unat (m_lookahead_pos d) + unat n"
    "unat (m_lookahead_size (move_lookahead n d)) = unat (m_lookahead_size d) - unat n"
proof -
  let ?P = "unat (m_lookahead_pos d)" and ?L = "unat (m_lookahead_size d)" and ?D = "unat (m_dict_size d)" and ?n = "unat n"
  note o = ok [unfolded parser_ok_def]
  show p: "unat (m_lookahead_pos (move_lookahead n d)) = ?P + ?n"
    using o n by (simp, subst unat_add_small) simp_all
  show l: "unat (m_lookahead_size (move_lookahead n d)) = ?L - ?n"
    using n by (simp add: move_lookahead_def, subst unat_sub_small) (simp_all add: word_le_nat_alt)
  have "unat (m_dict_size d + n) = ?D + ?n" using o n by (subst unat_add_small) simp_all
  then have D: "unat (m_dict_size (move_lookahead n d)) = min (?D + ?n) 32768"
    by (simp add: move_lookahead_def TDEFL_LZ_DICT_SIZE_def min_def word_le_nat_alt)
  have b: "?P + ?L = length inp" "?D \<le> ?P" "?D + ?L \<le> 32768" "?L \<le> 258" using o by simp_all
  have m: "min (?D + ?n) 32768 \<le> ?D + ?n" "min (?D + ?n) 32768 \<le> 32768" by simp_all
  have "?P - ?D \<le> ?P + ?n - min (?D + ?n) 32768" using m(1) b(2) by linarith
  then have lo: "dict_from (?P + ?n - min (?D + ?n) 32768) (m_dict d) inp"
    using o dict_from_mono by blast
  show "parser_ok (move_lookahead n d) inp"
    unfolding parser_ok_def p l D using o lo b n m by (simp only: move_lookahead_fields) linarith
qed

lemma parse_round:
  assumes c: "coded d inp cs" and L: "m_lookahead_size d \<noteq> 0" and r: "parse_step d = (d', n)"
  shows "\<exists>new. coded (move_lookahead n d') inp (cs @ new) \<and> blk d' = foldl record_code (blk d) new \<and> list_all code_ok new
    \<and> length new \<le> 2 \<and> 1 \<le> unat n \<and> unat n \<le> unat (m_lookahead_size d) \<and> step_only d d'"
proof -
  let ?P = "unat (m_lookahead_pos d)" and ?d = "move_lookahead n d'"
  have L1: "1 \<le> unat (m_lookahead_size d)" using L by (simp add: unat_gt_0 Suc_le_eq)
  have ok: "parser_ok d inp" "saved_ok d inp" using c by (simp_all add: coded_def)
  obtain new where a: "advances d inp d' (unat n) new" using parse_step_advances [OF ok(1) L1 ok(2) r] by blast
  note a = a [unfolded advances_def Let_def]
  have only: "step_only d d'" using a by blast
  note sf = step_only_fields [OF only]
  have ok': "parser_ok d' inp" using ok(1) by (simp add: parser_ok_def sf)
  have nL: "unat n \<le> unat (m_lookahead_size d')" using a sf by simp
  note mv = move_lookahead_ok [OF ok' nL]
  have P': "unat (m_lookahead_pos ?d) = ?P + unat n" using mv(2) sf by simp
  have "saved_ok ?d inp" using a unfolding saved_ok_def P' by simp
  moreover have "expand [] (cs @ new) = Some (take (unat (m_lookahead_pos ?d) - pending ?d) inp)"
  proof -
    have "expand (take (?P - pending d) inp) (new @ []) = expand (take (?P + unat n - pending d') inp) []" using a by blast
    then show ?thesis using c unfolding P' by (simp add: coded_def expand_append)
  qed
  ultimately have "coded ?d inp (cs @ new)" using mv(1) by (simp add: coded_def)
  then show ?thesis using a by blast
qed

lemma taken_coded:
  assumes c: "coded d inp cs" and len: "length inp + length src < 2 ^ 32" and r: "take_in_source src d = (d', src')"
  shows "\<exists>n. n = min (length src) (258 - unat (m_lookahead_size d)) \<and> src' = drop n src
    \<and> coded d' (inp @ take n src) cs \<and> blk d' = blk d \<and> taken_only d d' \<and> unat (m_lookahead_size d') = unat (m_lookahead_size d) + n"
proof -
  let ?n = "min (length src) (258 - unat (m_lookahead_size d))"
  have ok: "parser_ok d inp" "saved_ok d inp" using c by (simp_all add: coded_def)
  have t: "src' = drop ?n src" "unat (m_lookahead_size d') = unat (m_lookahead_size d) + ?n" "taken_only d d'"
      "parser_ok d' (inp @ take ?n src)"
    using take_in_source_spec [OF ok(1) len r refl] by blast+
  note tf = taken_only_fields [OF t(3)]
  let ?P = "unat (m_lookahead_pos d)"
  have P: "?P \<le> length inp" using ok(1) by (simp add: parser_ok_def)
  have m: "is_match_at (inp @ xs) p q l" if "is_match_at inp p q l" for xs p q l
    using that by (auto simp: is_match_at_def nth_append)
  have "saved_ok d' (inp @ take ?n src)"
    using ok(2) m P by (auto simp: saved_ok_def tf nth_append)
  moreover have "expand [] cs = Some (take (?P - pending d) (inp @ take ?n src))"
    using c P by (simp add: coded_def)
  ultimately show ?thesis using t by (simp add: coded_def tf pending_def)
qed

text \<open>C4: the parser loses nothing: when the codes recorded so far expand to the input before the
  position, they still do after a round that takes in source bytes, looks for a match and records by the lazy
  or greedy rule; the position moves by at least one byte, and by no more than were ahead.  Expanding is what
  a decompressor does: literals are appended and matches copied from what was expanded.\<close>

theorem parse_round_expands:
  assumes "coded d inp cs" "length inp + length src < 2 ^ 32" "take_in_source src d = (d1, src')"
    and "m_lookahead_size d1 \<noteq> 0" "parse_step d1 = (d2, n)" "d3 = move_lookahead n d2"
  shows "\<exists>taken new. src = taken @ src' \<and> coded d3 (inp @ taken) (cs @ new) \<and> blk d3 = foldl record_code (blk d) new
    \<and> list_all code_ok new \<and> unat (m_lookahead_pos d) < unat (m_lookahead_pos d3)
    \<and> unat (m_lookahead_pos d3) \<le> length (inp @ taken)"
proof -
  obtain k where t: "src' = drop k src" "coded d1 (inp @ take k src) cs" "blk d1 = blk d" "taken_only d d1"
    using taken_coded [OF assms(1-3)] by blast
  obtain new where p: "coded d3 (inp @ take k src) (cs @ new)" "blk d2 = foldl record_code (blk d1) new" "list_all code_ok new"
    "1 \<le> unat n" "unat n \<le> unat (m_lookahead_size d1)" "step_only d1 d2"
    using parse_round [OF t(2) assms(4,5)] assms(6) by blast
  have ok: "parser_ok d1 (inp @ take k src)" "parser_ok d3 (inp @ take k src)" using t(2) p(1) by (simp_all add: coded_def)
  have "parser_ok d2 (inp @ take k src)" using ok(1) by (simp add: parser_ok_def step_only_fields [OF p(6)])
  then have "unat (m_lookahead_pos d3) = unat (m_lookahead_pos d) + unat n"
    using move_lookahead_ok(2) [of d2] p(5) assms(6) by (simp add: step_only_fields [OF p(6)] taken_only_fields [OF t(4)])
  moreover have "unat (m_lookahead_pos d3) \<le> length (inp @ take k src)" using ok(2) unfolding parser_ok_def by linarith
  ultimately show ?thesis
    using t p assms(6) by (intro exI [of _ "take k src"] exI [of _ new]) simp
qed

definition demo_start :: tdefl_parser where
  "demo_start = demo_parser\<lparr>m_lookahead_pos := 0, m_lookahead_size := 0, m_dict_size := 0\<rparr>"

lemma parse_round_expands_witness:
  "\<exists>d1 src' d2 n new. take_in_source [7] demo_start = (d1, src') \<and> parse_step d1 = (d2, n)
    \<and> coded (move_lookahead n d2) [7] new \<and> unat (m_lookahead_pos (move_lookahead n d2)) = 1"
proof -
  have c: "coded demo_start [] []"
    by (simp add: coded_def parser_ok_def saved_ok_def dict_from_def demo_start_def demo_parser_def pending_def)
  obtain d1 src' d2 n where r: "take_in_source [7] demo_start = (d1, src')" "parse_step d1 = (d2, n)" by (metis surj_pair)
  have L: "m_lookahead_size d1 \<noteq> 0" and s: "src' = []"
    using taken_coded [OF c _ r(1)] by (auto simp: demo_start_def)
  obtain taken new where t: "[7] = taken @ src'" "coded (move_lookahead n d2) ([] @ taken) ([] @ new)"
    "unat (m_lookahead_pos demo_start) < unat (m_lookahead_pos (move_lookahead n d2))"
    "unat (m_lookahead_pos (move_lookahead n d2)) \<le> length ([] @ taken)"
    using parse_round_expands [OF c _ r(1) L r(2) refl] by auto
  have "taken = [7]" using t(1) s by simp
  then show ?thesis using r t(2-4) by (auto intro!: exI [of _ new])
qed

end
