(* ===== verification/DeflFrame.thy ===== *)
theory DeflFrame
  imports DeflDecode
begin

text \<open>
  What writing a block leaves as it was (src/packages/miniz/src/main/c/miniz.c): \<open>tdefl_compress_block\<close>
  changes tables, counts and output, and keeps the lengths of all arrays, the code buffer and its
  positions.
\<close>

text \<open>The arrays of counts, codes and sizes have their lengths.\<close>

definition rows :: "'a list list \<Rightarrow> bool" where
  "rows xss \<longleftrightarrow> length xss = 3 \<and> (\<forall>xs \<in> set xss. length xs = 288)"

definition shaped :: "tdefl_compressor \<Rightarrow> bool" where
  "shaped d \<longleftrightarrow> rows (m_huff_count d) \<and> rows (m_huff_codes d) \<and> rows (m_huff_code_sizes d)"

lemma shape_row: "rows xss \<Longrightarrow> i < 3 \<Longrightarrow> length (xss ! i) = 288"
  by (simp add: rows_def)

lemma rows_update: "rows xss \<Longrightarrow> length xs = 288 \<Longrightarrow> rows (xss[i := xs])"
  using set_update_subset_insert [of xss i xs] by (auto simp: rows_def)

definition keeps :: "tdefl_compressor \<Rightarrow> tdefl_compressor \<Rightarrow> bool" where
  "keeps d d' \<longleftrightarrow> d'\<lparr>m_huff_count := m_huff_count d, m_huff_codes := m_huff_codes d, m_huff_code_sizes := m_huff_code_sizes d,
       m_output_buf := m_output_buf d, m_pOutput_buf := m_pOutput_buf d, m_bit_buffer := m_bit_buffer d, m_bits_in := m_bits_in d\<rparr> = d
     \<and> length (m_output_buf d') = length (m_output_buf d) \<and> m_pOutput_buf d \<le> m_pOutput_buf d'
     \<and> take (m_pOutput_buf d) (m_output_buf d') = take (m_pOutput_buf d) (m_output_buf d) \<and> (shaped d \<longrightarrow> shaped d')"

lemma keeps_refl [simp]: "keeps d d"
  by (simp add: keeps_def)

lemma keeps_trans: "keeps a b \<Longrightarrow> keeps b c \<Longrightarrow> keeps a c"
proof -
  assume k: "keeps a b" "keeps b c"
  have "take (m_pOutput_buf a) (m_output_buf c) = take (m_pOutput_buf a) (m_output_buf b)"
    by (rule take_take_eq) (use k in \<open>auto simp: keeps_def\<close>)
  then show ?thesis using k by (cases a; cases b; cases c) (simp add: keeps_def)
qed

lemma keeps_fields:
  assumes "keeps d d'"
  shows "m_lz_code_buf d' = m_lz_code_buf d" "m_pLZ_code_buf d' = m_pLZ_code_buf d" "m_pLZ_flags d' = m_pLZ_flags d"
    "m_num_flags_left d' = m_num_flags_left d" "m_total_lz_bytes d' = m_total_lz_bytes d"
    "m_pOutput_buf_end d' = m_pOutput_buf_end d" "length (m_output_buf d') = length (m_output_buf d)" "shaped d \<Longrightarrow> shaped d'"
    "m_pOutput_buf d \<le> m_pOutput_buf d'" "take (m_pOutput_buf d) (m_output_buf d') = take (m_pOutput_buf d) (m_output_buf d)"
  using assms by (cases d; cases d'; simp add: keeps_def)+

lemma output_only_keeps: "output_only d d' \<Longrightarrow> keeps d d'"
  by (cases d; cases d') (simp add: output_only_def keeps_def shaped_def)

lemma fill_shape: "length (fill i j v xs) = length xs"
  by (simp add: fill_def) (induction j, simp_all)

lemma give_size_length: "give_size i k p s = Some s' \<Longrightarrow> length (snd s') = length (snd s)"
  by (induction i k p s rule: give_size.induct) (auto split: if_splits)

lemma give_sizes_length: "give_sizes is num p s = Some s' \<Longrightarrow> length (snd s') = length (snd s)"
proof (induction "is" num p s rule: give_sizes.induct)
  case (2 i "is" num p s)
  then show ?case by (auto split: option.splits dest: give_size_length)
qed simp

lemma give_code_length: "length (snd (fold (give_code sizes) js s)) = length (snd s)"
proof (induction js arbitrary: s)
  case (Cons j js)
  have "length (snd (give_code sizes j s)) = length (snd s)" by (simp add: give_code_def Let_def split: prod.split)
  then show ?case using Cons by simp
qed simp

lemma optimize_keeps:
  assumes r: "tdefl_optimize_huffman_table d t n L st = Some d'" and t: "t < 3"
  shows "keeps d d'"
proof -
  obtain num s c where s: "d' = d\<lparr>m_huff_code_sizes := (m_huff_code_sizes d)[t := s],
      m_huff_codes := (m_huff_codes d)[t := snd (fold (give_code s) [0..<n] (first_codes L num, c))]\<rparr>"
    "s = m_huff_code_sizes d ! t \<or> length s = 288" "c = m_huff_codes d ! t \<or> length c = 288"
  proof (cases st)
    case True
    then show ?thesis
      using r that [of "m_huff_code_sizes d ! t" "count_sizes (map (\<lambda>i. unat (m_huff_code_sizes d ! t ! i)) [0..<n])" "m_huff_codes d ! t"]
      by (auto simp: tdefl_optimize_huffman_table_def Let_def split: prod.splits)
  next
    case False
    let ?p = "tdefl_radix_sort_syms (used_syms n (m_huff_count d ! t)) (replicate (length (used_syms n (m_huff_count d ! t))) \<lparr>m_key = 0, m_sym_index = 0\<rparr>)"
    obtain p num s where p: "tdefl_calculate_minimum_redundancy ?p = Some p"
      "tdefl_huffman_enforce_max_code_size (count_sizes (map (\<lambda>s. unat (m_key s)) p)) (length p) L = Some num"
      "give_sizes [1..<L + 1] num p (length p, replicate TDEFL_MAX_HUFF_SYMBOLS 0) = Some s"
      using r False by (auto simp: tdefl_optimize_huffman_table_def Let_def split: option.splits prod.splits)
    have "length (snd s) = 288" using give_sizes_length [OF p(3)] by (simp add: TDEFL_MAX_HUFF_SYMBOLS_def)
    then show ?thesis
      using r False p that [of "snd s" num "replicate TDEFL_MAX_HUFF_SYMBOLS 0"]
      by (auto simp: tdefl_optimize_huffman_table_def Let_def TDEFL_MAX_HUFF_SYMBOLS_def split: prod.splits)
  qed
  have len: "length (snd (fold (give_code s) [0..<n] (first_codes L num, c))) = length c" by (simp add: give_code_length)
  have "shaped d'" if "shaped d"
    using that s(2,3) len shape_row [OF _ t, of "m_huff_codes d"] shape_row [OF _ t, of "m_huff_code_sizes d"] unfolding s(1) shaped_def by (auto intro!: rows_update)
  then show ?thesis by (simp add: keeps_def s(1))
qed

lemma rle_counts_length:
  "length (rle_counts (TDEFL_RLE_PREV_CODE_SIZE s)) = length (rle_counts s)"
  "length (rle_counts (TDEFL_RLE_ZERO_CODE_SIZE s)) = length (rle_counts s)"
  "length (rle_counts (rle_step x s)) = length (rle_counts s)"
  by (simp_all add: TDEFL_RLE_PREV_CODE_SIZE_def TDEFL_RLE_ZERO_CODE_SIZE_def rle_step_def add_count_def pack_def Let_def)

lemma pack_counts_length: "length (rle_counts (pack_code_sizes counts xs)) = length counts"
proof -
  have "length (rle_counts (fold rle_step xs s)) = length (rle_counts s)" for s
    by (induction xs arbitrary: s) (simp_all add: rle_counts_length)
  then show ?thesis by (simp add: pack_code_sizes_def Let_def rle_counts_length)
qed

lemma start_static_keeps: "tdefl_start_static_block d = Some d' \<Longrightarrow> keeps d d'"
proof -
  let ?p = "fill 280 288 8 (fill 256 280 7 (fill 144 256 9 (fill 0 144 8 (m_huff_code_sizes d ! 0))))"
  let ?d0 = "d\<lparr>m_huff_code_sizes := (m_huff_code_sizes d)[0 := ?p, 1 := fill 0 32 5 (m_huff_code_sizes d ! 1)]\<rparr>"
  assume "tdefl_start_static_block d = Some d'"
  then obtain d1 d2 where r: "tdefl_optimize_huffman_table ?d0 0 288 15 True = Some d1"
    "tdefl_optimize_huffman_table d1 1 32 15 True = Some d2" "d' = TDEFL_PUT_BITS 1 2 d2"
    by (auto simp: tdefl_start_static_block_def Let_def split: option.splits)
  have "shaped d \<Longrightarrow> shaped ?d0" by (simp add: shaped_def rows_update shape_row fill_shape)
  then have "keeps d ?d0" by (simp add: keeps_def)
  moreover have "keeps ?d0 d1" "keeps d1 d2" using optimize_keeps [OF r(1)] optimize_keeps [OF r(2)] by simp_all
  moreover have "keeps d2 d'" unfolding r(3) by (rule output_only_keeps [OF put_bits_output_only])
  ultimately show ?thesis using keeps_trans by blast
qed

lemma put_packed_output_only: "output_only d (put_packed ps d)"
proof (induction ps d rule: put_packed.induct)
  case (2 c ps d)
  have s: "output_only d (put_symbol 2 (unat c) d)" by (simp add: put_symbol_def put_bits_output_only)
  show ?case
  proof (cases "c \<ge> 16")
    case False
    then show ?thesis using output_only_trans [OF s "2.IH"(2)] by (simp add: Let_def)
  next
    case True
    show ?thesis
    proof (cases ps)
      case Nil
      then show ?thesis using True s by (simp add: Let_def)
    next
      case (Cons e qs)
      then show ?thesis
        using True output_only_trans [OF output_only_trans [OF s put_bits_output_only] "2.IH"(1) [OF refl True Cons]] by (simp add: Let_def)
    qed
  qed
qed simp

lemma put_bit_lengths_output_only: "output_only d (put_bit_lengths n d)"
proof (induction n)
  case (Suc n)
  have "put_bit_lengths (Suc n) d = TDEFL_PUT_BITS (ucast (m_huff_code_sizes (put_bit_lengths n d) ! 2
      ! unat (s_tdefl_packed_code_size_syms_swizzle ! n))) 3 (put_bit_lengths n d)"
    by (simp add: put_bit_lengths_def)
  then show ?case using output_only_trans [OF Suc put_bits_output_only] by simp
qed (simp add: put_bit_lengths_def)

lemma option_caseE:
  assumes "(case x of None \<Rightarrow> None | Some y \<Rightarrow> f y) = Some z"
  obtains y where "x = Some y" "f y = Some z"
  using assms by (cases x) simp_all

lemma start_dynamic_keeps: "tdefl_start_dynamic_block d = Some d' \<Longrightarrow> keeps d d'"
proof -
  let ?d0 = "d\<lparr>m_huff_count := (m_huff_count d)[0 := (m_huff_count d ! 0)[256 := 1]]\<rparr>"
  assume "tdefl_start_dynamic_block d = Some d'"
  then obtain d1 d2 xs d3 where r: "tdefl_optimize_huffman_table ?d0 0 288 15 False = Some d1"
    "tdefl_optimize_huffman_table d1 1 32 15 False = Some d2"
    "tdefl_optimize_huffman_table (d2\<lparr>m_huff_count := (m_huff_count d2)[2 := rle_counts (pack_code_sizes (fill 0 19 0 (m_huff_count d2 ! 2)) xs)]\<rparr>)
       2 19 7 False = Some d3" "\<exists>nl nd nb its. d' = put_header nl nd nb its d3"
    unfolding tdefl_start_dynamic_block_def Let_def put_header_def by (elim option_caseE) blast
  then obtain nl nd nb its where hd: "d' = put_header nl nd nb its d3" by blast
  have k0: "keeps d ?d0" by (auto simp: keeps_def shaped_def shape_row intro!: rows_update)
  have k2: "keeps d2 (d2\<lparr>m_huff_count := (m_huff_count d2)[2 := rle_counts (pack_code_sizes (fill 0 19 0 (m_huff_count d2 ! 2)) xs)]\<rparr>)"
    by (auto simp: keeps_def shaped_def shape_row pack_counts_length fill_shape intro!: rows_update)
  have "output_only d3 d'"
    unfolding hd put_header_def
    by (intro output_only_trans [OF _ put_packed_output_only] output_only_trans [OF _ put_bit_lengths_output_only]
        output_only_trans [OF _ put_bits_output_only] output_only_refl)
  then have k4: "keeps d3 d'" by (rule output_only_keeps)
  have k1: "keeps ?d0 d1" "keeps d1 d2" using optimize_keeps [OF r(1)] optimize_keeps [OF r(2)] by simp_all
  have k3: "keeps (d2\<lparr>m_huff_count := (m_huff_count d2)[2 := rle_counts (pack_code_sizes (fill 0 19 0 (m_huff_count d2 ! 2)) xs)]\<rparr>) d3"
    using optimize_keeps [OF r(3)] by simp
  show ?thesis by (rule keeps_trans [OF k0 keeps_trans [OF k1(1) keeps_trans [OF k1(2) keeps_trans [OF k2 keeps_trans [OF k3 k4]]]]])
qed

lemma lz_codes_loop_output_only: "output_only d (lz_codes_loop flags p d)"
proof (induction flags p d rule: lz_codes_loop.induct)
  case (1 flags p d)
  show ?case
  proof (cases "p < m_pLZ_code_buf d")
    case False
    then show ?thesis by (subst lz_codes_loop.simps) simp
  next
    case True
    obtain f q where f: "(if flags = 1 then (ucast (m_lz_code_buf d ! p) OR 256, p + 1) else (flags, p)) = (f, q)" by (metis surj_pair)
    obtain q' d' where c: "put_code f q d = (q', d')" by (metis surj_pair)
    have "output_only d d'" using put_code_output_only [of d f q] c by simp
    moreover have "output_only d' (lz_codes_loop (drop_bit 1 f) q' d')"
      using "1.IH" [OF True f [symmetric] refl c [symmetric] refl] by blast
    ultimately have "output_only d (lz_codes_loop (drop_bit 1 f) q' d')" by (rule output_only_trans)
    then show ?thesis using True f c by (subst lz_codes_loop.simps) (simp only: if_True Let_def prod.case)
  qed
qed

lemma compress_block_keeps:
  assumes "tdefl_compress_block d static_block = Some (d', ok)"
  shows "keeps d d'"
proof -
  obtain d1 where d1: "(if static_block then tdefl_start_static_block d else tdefl_start_dynamic_block d) = Some d1"
    "d' = put_symbol 0 256 (lz_codes_loop 1 0 d1)"
    using assms by (auto simp: tdefl_compress_block_def tdefl_compress_lz_codes_def Let_def split: option.splits)
  have k: "keeps d d1" using d1(1) start_static_keeps start_dynamic_keeps by (cases static_block) auto
  have "output_only d1 d'" unfolding d1(2) put_symbol_def by (rule output_only_trans [OF lz_codes_loop_output_only put_bits_output_only])
  then show ?thesis by (rule keeps_trans [OF k output_only_keeps])
qed

end
