(* ===== verification/Inflate.thy ===== *)
theory Inflate
  imports DeflFrame
begin

text \<open>
  A reader of the static and dynamic blocks of the deflate format, as RFC 1951 defines it, on a list of bits:
  the tables come from the sizes in the block's header, with the canonical codes, and nothing from the
  compressor.  It is the specification the blocks of src/packages/miniz/src/main/c/miniz.c are proved
  against, and it uses the length and distance tables of that file's decompressor.
\<close>

unbundle bit_operations_syntax

subsection \<open>The header of a dynamic block\<close>

text \<open>The sizes of the code-size alphabet come in their own order; those not sent are 0.\<close>

definition size_sizes :: "nat \<Rightarrow> bool list \<Rightarrow> nat list" where
  "size_sizes n bs =
     fold (\<lambda>i ls. ls[unat (s_tdefl_packed_code_size_syms_swizzle ! i) := fst (read_bits 3 (drop (3 * i) bs))]) [0..<n] (replicate 19 0)"

text \<open>The sizes of both tables, run by run.\<close>

function read_sizes :: "(nat \<Rightarrow> bool list) \<Rightarrow> nat \<Rightarrow> u8 list \<Rightarrow> bool list \<Rightarrow> (u8 list \<times> bool list) option" where
  "read_sizes tab n acc bs =
     (if length acc < n then
        (case read_symbol tab 19 bs of
           None \<Rightarrow> None
         | Some (s, bs) \<Rightarrow>
           let (e, bs) = read_bits (extra_of s) bs in
           if s < 16 then read_sizes tab n (acc @ [of_nat s]) bs
           else if s = 16 then
             if acc = [] then None else read_sizes tab n (acc @ replicate (e + 3) (last acc)) bs
           else read_sizes tab n (acc @ replicate (e + (if s = 17 then 3 else 11)) 0) bs)
      else if length acc = n then Some (acc, bs) else None)"
  by pat_completeness auto
termination
  by (relation "measure (\<lambda>(tab, n, acc, bs). length bs)") (auto simp: read_bits_def dest!: read_symbol_shorter)

declare read_sizes.simps [simp del]

text \<open>The two tables of a dynamic block.\<close>

definition pad_sizes :: "nat \<Rightarrow> u8 list \<Rightarrow> nat list" where
  "pad_sizes n xs = map unat xs @ replicate (n - length xs) 0"

definition read_tables :: "bool list \<Rightarrow> ((nat \<Rightarrow> bool list) \<times> (nat \<Rightarrow> bool list) \<times> bool list) option" where
  "read_tables bs =
     (let (hlit, bs) = read_bits 5 bs; (hdist, bs) = read_bits 5 bs; (hclen, bs) = read_bits 4 bs;
          nl = hlit + 257; nd = hdist + 1; nb = hclen + 4
      in case read_sizes (table_bits (size_sizes nb bs)) (nl + nd) [] (drop (3 * nb) bs) of
           None \<Rightarrow> None
         | Some (xs, bs) \<Rightarrow> Some (table_bits (pad_sizes 288 (take nl xs)), table_bits (pad_sizes 32 (drop nl xs)), bs))"

definition fixed_lit :: "nat \<Rightarrow> bool list" where
  "fixed_lit i = msb_bits (fixed_size i) (fixed_code i)"

definition fixed_dist :: "nat \<Rightarrow> bool list" where
  "fixed_dist i = msb_bits 5 i"

subsection \<open>Blocks\<close>

text \<open>The codes of a static or dynamic block, after its first bit.\<close>

definition read_block_codes :: "bool list \<Rightarrow> (lz_code list \<times> bool list) option" where
  "read_block_codes bs =
     (case bs of
        True # False # bs \<Rightarrow> read_codes fixed_lit fixed_dist bs
      | False # True # bs \<Rightarrow> Option.bind (read_tables bs) (\<lambda>(lit, dist, bs). read_codes lit dist bs)
      | _ \<Rightarrow> None)"

lemma read_codes_shorter: "read_codes lit dist bs = Some (cs, r) \<Longrightarrow> length r \<le> length bs"
proof (induction lit dist bs arbitrary: cs r rule: read_codes.induct)
  case (1 lit dist bs)
  from "1.prems" obtain s bs1 where s: "read_symbol lit 288 bs = Some (s, bs1)"
    by (subst (asm) read_codes.simps) (auto split: option.splits)
  note l1 = read_symbol_shorter [OF s]
  consider "s < 256" | "s = 256" | "\<not> s < 256" "s \<noteq> 256" by blast
  then show ?case
  proof cases
    case 1
    then obtain cs' where "read_codes lit dist bs1 = Some (cs', r)"
      using "1.prems" s by (subst (asm) read_codes.simps) auto
    then show ?thesis using "1.IH"(1) [OF s refl 1] l1 by fastforce
  next
    case 2
    then show ?thesis using "1.prems" s l1 by (subst (asm) read_codes.simps) auto
  next
    case 3
    let ?n = "unat (s_length_extra ! (s - 257))"
    have rb: "(fst (read_bits ?n bs1), drop ?n bs1) = read_bits ?n bs1" by (simp add: read_bits_def)
    obtain t bs3 where t: "read_symbol dist 32 (drop ?n bs1) = Some (t, bs3)"
      using "1.prems" s 3 by (subst (asm) read_codes.simps) (auto simp: read_bits_def Let_def split: option.splits)
    note l2 = read_symbol_shorter [OF t]
    have rb': "(fst (read_bits (unat (s_dist_extra ! t)) bs3), drop (unat (s_dist_extra ! t)) bs3) = read_bits (unat (s_dist_extra ! t)) bs3"
      by (simp add: read_bits_def)
    obtain cs' where "read_codes lit dist (drop (unat (s_dist_extra ! t)) bs3) = Some (cs', r)"
      using "1.prems" s 3 t by (subst (asm) read_codes.simps) (auto simp: read_bits_def Let_def)
    then have "length r \<le> length (drop (unat (s_dist_extra ! t)) bs3)"
      by (rule "1.IH"(2) [OF s refl 3 refl rb t refl refl rb'])
    then show ?thesis using l1 l2 by simp
  qed
qed

lemma read_sizes_shorter: "read_sizes tab n acc bs = Some (xs, r) \<Longrightarrow> length r \<le> length bs"
proof (induction tab n acc bs rule: read_sizes.induct)
  case (1 tab n acc bs)
  show ?case
  proof (cases "length acc < n")
    case False
    then show ?thesis using "1.prems" by (subst (asm) read_sizes.simps) (simp split: if_splits)
  next
    case True
    then obtain s bs1 where s: "read_symbol tab 19 bs = Some (s, bs1)"
      using "1.prems" by (subst (asm) read_sizes.simps) (auto split: option.splits)
    obtain e q where rb: "read_bits (extra_of s) bs1 = (e, q)" "length q \<le> length bs1"
      by (simp add: read_bits_def)
    have run: "(if s < 16 then read_sizes tab n (acc @ [of_nat s]) q
        else if s = 16 then if acc = [] then None else read_sizes tab n (acc @ replicate (e + 3) (last acc)) q
        else read_sizes tab n (acc @ replicate (e + (if s = 17 then 3 else 11)) 0) q) = Some (xs, r)"
      using "1.prems" True s by (subst (asm) read_sizes.simps) (simp only: if_True option.case prod.case Let_def rb(1))
    note IH = "1.IH" [OF True s refl refl rb(1) [symmetric]]
    consider "s < 16" | "\<not> s < 16" "s = 16" "acc \<noteq> []" | "\<not> s < 16" "s \<noteq> 16" using run by (auto split: if_splits)
    then have "length r \<le> length q"
    proof cases
      case 1
      have "read_sizes tab n (acc @ [of_nat s]) q = Some (xs, r)" using run 1 by (simp only: if_True)
      then show ?thesis by (rule IH(1) [OF 1])
    next
      case 2
      have "read_sizes tab n (acc @ replicate (e + 3) (last acc)) q = Some (xs, r)" using run 2(1,3) unfolding 2(2) by simp
      then show ?thesis by (rule IH(2) [OF 2])
    next
      case 3
      have "read_sizes tab n (acc @ replicate (e + (if s = 17 then 3 else 11)) 0) q = Some (xs, r)"
        using run 3 by (simp only: if_False)
      then show ?thesis by (rule IH(3) [OF 3])
    qed
    then show ?thesis using read_symbol_shorter [OF s] rb(2) by simp
  qed
qed

lemma read_tables_shorter: "read_tables bs = Some (lit, dist, r) \<Longrightarrow> length r \<le> length bs"
proof -
  assume "read_tables bs = Some (lit, dist, r)"
  then obtain tab n xs where "read_sizes tab n [] (drop (3 * (fst (read_bits 4 (drop 5 (drop 5 bs))) + 4)) (drop 4 (drop 5 (drop 5 bs)))) = Some (xs, r)"
    by (auto simp: read_tables_def read_bits_def Let_def split: option.splits)
  then have "length r \<le> length (drop (3 * (fst (read_bits 4 (drop 5 (drop 5 bs))) + 4)) (drop 4 (drop 5 (drop 5 bs))))"
    by (rule read_sizes_shorter)
  then show ?thesis by simp
qed

lemma read_block_codes_shorter:
  assumes "read_block_codes bs = Some (cs, r)"
  shows "length r \<le> length bs"
proof -
  consider b where "bs = True # False # b" | b where "bs = False # True # b"
    using assms by (auto simp: read_block_codes_def split: list.splits bool.splits)
  then show ?thesis
  proof cases
    case 1
    then show ?thesis using assms read_codes_shorter [of fixed_lit fixed_dist b] by (fastforce simp: read_block_codes_def)
  next
    case 2
    then obtain lit dist q where "read_tables b = Some (lit, dist, q)" "read_codes lit dist q = Some (cs, r)"
      using assms by (auto simp: read_block_codes_def split: bind_splits)
    then show ?thesis using 2 read_tables_shorter read_codes_shorter by fastforce
  qed
qed

subsection \<open>Reading what was written\<close>

text \<open>Static and dynamic blocks, with the tables of the compressor.\<close>

lemma read_codes_cong:
  assumes "\<And>i. i < 288 \<Longrightarrow> lit i = lit' i" "\<And>i. i < 32 \<Longrightarrow> dist i = dist' i"
  shows "read_codes lit dist bs = read_codes lit' dist' bs"
  using assms
proof (induction lit dist bs rule: read_codes.induct)
  case (1 lit dist bs)
  have s: "read_symbol lit' 288 b = read_symbol lit 288 b" "read_symbol dist' 32 b = read_symbol dist 32 b" for b
    using "1.prems" by (intro read_symbol_cong; simp)+
  note e = read_codes.simps [of lit dist bs] read_codes.simps [of lit' dist' bs]
  show ?case
  proof (cases "read_symbol lit 288 bs")
    case None
    then show ?thesis unfolding e s by simp
  next
    case (Some p)
    obtain x bs1 where p: "p = (x, bs1)" by (cases p)
    consider "x < 256" | "x = 256" | "\<not> x < 256" "x \<noteq> 256" by blast
    then show ?thesis
    proof cases
      case 1
      then have "read_codes lit dist bs1 = read_codes lit' dist' bs1" using "1.IH"(1) [OF Some p [symmetric]] "1.prems" by blast
      then show ?thesis unfolding e s Some p using 1 by simp
    next
      case 2
      then show ?thesis unfolding e s Some p by simp
    next
      case 3
      obtain v bs2 where v: "read_bits (unat (s_length_extra ! (x - 257))) bs1 = (v, bs2)" by (metis surj_pair)
      show ?thesis
      proof (cases "read_symbol dist 32 bs2")
        case None
        then show ?thesis unfolding e s Some p using 3 v by simp
      next
        case t: (Some q)
        obtain y bs3 where q: "q = (y, bs3)" by (cases q)
        obtain w bs4 where w: "read_bits (unat (s_dist_extra ! y)) bs3 = (w, bs4)" by (metis surj_pair)
        have "read_codes lit dist bs4 = read_codes lit' dist' bs4"
          using "1.IH"(2) [OF Some p [symmetric] 3 refl v [symmetric] t q [symmetric] refl w [symmetric]] "1.prems" by blast
        then show ?thesis unfolding e s Some p using 3 v t q w by simp
      qed
    qed
  qed
qed

lemma read_sizes_items:
  assumes tab: "\<And>s e rst. (s, e) \<in> set its \<Longrightarrow> read_symbol tab 19 (tab s @ rst) = Some (s, rst)"
    and its: "expands its xs" "length xs \<le> n"
  shows "read_sizes tab n [] (concat (map (\<lambda>(s, e). tab s @ nat_bits e (extra_of s)) its) @ rst) = read_sizes tab n xs rst"
  using its tab
proof (induction arbitrary: rst rule: expands.induct)
  case none
  then show ?case by simp
next
  case (size its out s)
  have "read_sizes tab n out (tab s @ rst) = read_sizes tab n (out @ [of_nat s]) rst"
    using size.prems(1) size.hyps(2) size.prems(2) [of s 0 rst] by (subst read_sizes.simps) (simp add: extra_of_def read_bits_def)
  moreover have "read_sizes tab n [] (concat (map (\<lambda>(s, e). tab s @ nat_bits e (extra_of s)) its) @ r) = read_sizes tab n out r" for r
    by (rule size.IH) (use size.prems in auto)
  ultimately show ?case using size.hyps(2) by (simp add: extra_of_def)
next
  case (repeat its out e)
  have r: "read_bits 2 (nat_bits e 2 @ rst) = (e, rst)"
    using repeat.hyps(3) by (subst read_bits_written) (simp_all only: nat_bits_length nat_bits_value mod_less, simp)
  have "read_sizes tab n out (tab 16 @ nat_bits e 2 @ rst) = read_sizes tab n (out @ replicate (e + 3) (last out)) rst"
    using repeat.prems(1) repeat.hyps repeat.prems(2) [of 16 e] by (subst read_sizes.simps) (simp add: extra_of_def r)
  moreover have "read_sizes tab n [] (concat (map (\<lambda>(s, e). tab s @ nat_bits e (extra_of s)) its) @ r) = read_sizes tab n out r" for r
    by (rule repeat.IH) (use repeat.prems in auto)
  ultimately show ?case by (simp add: extra_of_def)
next
  case (zeros its out e)
  have r: "read_bits 3 (nat_bits e 3 @ rst) = (e, rst)"
    using zeros.hyps(2) by (subst read_bits_written) (simp_all only: nat_bits_length nat_bits_value mod_less, simp)
  have "read_sizes tab n out (tab 17 @ nat_bits e 3 @ rst) = read_sizes tab n (out @ replicate (e + 3) 0) rst"
    using zeros.prems(1) zeros.hyps zeros.prems(2) [of 17 e] by (subst read_sizes.simps) (simp add: extra_of_def r)
  moreover have "read_sizes tab n [] (concat (map (\<lambda>(s, e). tab s @ nat_bits e (extra_of s)) its) @ r) = read_sizes tab n out r" for r
    by (rule zeros.IH) (use zeros.prems in auto)
  ultimately show ?case by (simp add: extra_of_def)
next
  case (many its out e)
  have r: "read_bits 7 (nat_bits e 7 @ rst) = (e, rst)"
    using many.hyps(2) by (subst read_bits_written) (simp_all only: nat_bits_length nat_bits_value mod_less, simp)
  have "read_sizes tab n out (tab 18 @ nat_bits e 7 @ rst) = read_sizes tab n (out @ replicate (e + 11) 0) rst"
    using many.prems(1) many.hyps many.prems(2) [of 18 e] by (subst read_sizes.simps) (simp add: extra_of_def r)
  moreover have "read_sizes tab n [] (concat (map (\<lambda>(s, e). tab s @ nat_bits e (extra_of s)) its) @ r) = read_sizes tab n out r" for r
    by (rule many.IH) (use many.prems in auto)
  ultimately show ?case by (simp add: extra_of_def)
qed

lemma size_sizes_written:
  fixes v :: "nat \<Rightarrow> nat"
  defines "f \<equiv> \<lambda>i. unat (s_tdefl_packed_code_size_syms_swizzle ! i)"
  assumes v: "\<And>j. v j < 8" and n: "n \<le> 19" and z: "\<And>i. n \<le> i \<Longrightarrow> i < 19 \<Longrightarrow> v (f i) = 0"
  shows "size_sizes n (concat (map (\<lambda>i. nat_bits (v (f i)) 3) [0..<n]) @ rst) = map v [0..<19]"
proof -
  let ?c = "\<lambda>n. concat (map (\<lambda>i. nat_bits (v (f i)) 3) [0..<n])"
  have len: "length (?c k) = 3 * k" for k by (induction k) simp_all
  have f19: "f i < 19" if "i < 19" for i using swizzle_less [OF that] by (simp add: f_def)
  have inj: "distinct (map f [0..<19])" "set (map f [0..<19]) = {0..<19}"
    unfolding f_def by code_simp+
  have rd: "fst (read_bits 3 (drop (3 * i) (?c n @ rst))) = v (f i)" if "i < n" for i
  proof -
    have "[0..<n] = [0..<i] @ i # [Suc i..<n]" using that by (metis upt_add_eq_append upt_conv_Cons le_add_diff_inverse less_imp_le zero_le)
    then have "?c n @ rst = ?c i @ (nat_bits (v (f i)) 3 @ concat (map (\<lambda>i. nat_bits (v (f i)) 3) [Suc i..<n]) @ rst)" by simp
    then have "drop (3 * i) (?c n @ rst) = nat_bits (v (f i)) 3 @ concat (map (\<lambda>i. nat_bits (v (f i)) 3) [Suc i..<n]) @ rst"
      using len [of i] by simp
    then show ?thesis using v [of "f i"] by (simp only:) (subst read_bits_written, simp_all only: nat_bits_length nat_bits_value fst_conv, simp)
  qed
  let ?step = "\<lambda>i ls. ls[f i := fst (read_bits 3 (drop (3 * i) (?c n @ rst)))]"
  have upd: "length (fold ?step [0..<k] (replicate 19 0)) = 19
      \<and> (\<forall>j < 19. fold ?step [0..<k] (replicate 19 0) ! j = (if j \<in> f ` {0..<k} then v j else 0))" if "k \<le> n" for k
    using that
  proof (induction k)
    case (Suc k)
    then show ?case using rd [of k] f19 [of k] n by (auto simp: nth_list_update atLeast0_lessThan_Suc)
  qed simp
  have "fold ?step [0..<n] (replicate 19 0) = map v [0..<19]"
  proof (rule nth_equalityI)
    fix j assume "j < length (fold ?step [0..<n] (replicate 19 0))"
    then have j: "j < 19" using upd [of n] by simp
    then obtain i where i: "j = f i" "i < 19" using inj(2) by fastforce
    have "v j = 0" if "j \<notin> f ` {0..<n}" using z [of i] i that by force
    then show "fold ?step [0..<n] (replicate 19 0) ! j = map v [0..<19] ! j" using upd [of n] j by simp
  qed (use upd [of n] in simp)
  then show ?thesis by (simp add: size_sizes_def f_def)
qed

lemma read_static_written:
  assumes "fixed_tables d" "block_codes d (body @ rst) = Some (cs, rst)"
  shows "read_block_codes (([True, False] @ body) @ rst) = Some (cs, rst)"
proof -
  have "read_codes fixed_lit fixed_dist (body @ rst) = block_codes d (body @ rst)"
    using assms(1) by (intro read_codes_cong) (simp_all add: fixed_tables_def fixed_lit_def fixed_dist_def)
  then show ?thesis using assms(2) by (simp add: read_block_codes_def)
qed

lemma sizes_of_padded:
  assumes "length row = 288" "n \<le> m" "m \<le> 288" "\<And>i. n \<le> i \<Longrightarrow> i < m \<Longrightarrow> row ! i = 0"
  shows "pad_sizes m (take n row) = map (\<lambda>i. unat (row ! i)) [0..<m]"
  using assms by (intro nth_equalityI) (auto simp: pad_sizes_def nth_append min_def)

lemma read_tables_written:
  assumes d: "header_describes d nl nd nb its" "tables_canonical d" "shaped d"
  obtains lit dist where "\<And>rst. read_tables (drop 2 (dynamic_header d nl nd nb its) @ rst) = Some (lit, dist, rst)"
    "\<And>i. i < 288 \<Longrightarrow> lit i = symbol_bits d 0 i" "\<And>i. i < 32 \<Longrightarrow> dist i = symbol_bits d 1 i"
proof -
  let ?s0 = "m_huff_code_sizes d ! 0" and ?s1 = "m_huff_code_sizes d ! 1" and ?s2 = "m_huff_code_sizes d ! 2"
  note h = d(1) [unfolded header_describes_def] and c = d(2) [unfolded tables_canonical_def]
  have row: "length ?s0 = 288" "length ?s1 = 288" "length ?s2 = 288" using d(3) by (simp_all add: shaped_def shape_row)
  define sizes where "sizes = concat (map (\<lambda>i. nat_bits (unat (?s2 ! unat (s_tdefl_packed_code_size_syms_swizzle ! i))) 3) [0..<nb])"
  define items where "items = concat (map (item_bits d) its)"
  let ?xs = "take nl ?s0 @ take nd ?s1"
  let ?lit = "table_bits (pad_sizes 288 (take nl ?s0))" and ?dist = "table_bits (pad_sizes 32 (take nd ?s1))"
  have sz: "size_sizes nb (sizes @ rst) = sizes_of d 2 19" for rst
  proof -
    have v: "(if j < 19 then unat (?s2 ! j) else 0) < 8" for j using c by simp
    have z: "(if unat (s_tdefl_packed_code_size_syms_swizzle ! i) < 19 then unat (?s2 ! unat (s_tdefl_packed_code_size_syms_swizzle ! i)) else 0) = 0"
      if "nb \<le> i" "i < 19" for i using h that by simp
    have "sizes = concat (map (\<lambda>i. nat_bits (if unat (s_tdefl_packed_code_size_syms_swizzle ! i) < 19
        then unat (?s2 ! unat (s_tdefl_packed_code_size_syms_swizzle ! i)) else 0) 3) [0..<nb])"
      using swizzle_less h unfolding sizes_def by (intro arg_cong [of _ _ concat] map_cong) auto
    then have "size_sizes nb (sizes @ rst) = map (\<lambda>j. if j < 19 then unat (?s2 ! j) else 0) [0..<19]"
      using size_sizes_written [of "\<lambda>j. if j < 19 then unat (?s2 ! j) else 0" nb rst] v z h by simp
    then show ?thesis by (simp add: sizes_of_def)
  qed
  have ls: "length sizes = 3 * nb"
    unfolding sizes_def by (induction nb) simp_all
  have its: "read_sizes (table_bits (sizes_of d 2 19)) (nl + nd) [] (items @ rst) = Some (?xs, rst)" for rst
  proof -
    let ?tab = "table_bits (sizes_of d 2 19)"
    have tab: "?tab i = symbol_bits d 2 i" if "i < 19" for i using c that by (simp add: canonical_def)
    have used: "s < 19 \<and> symbol_bits d 2 s \<noteq> []" if "(s, e) \<in> set its" for s e using h that by auto
    have rd: "read_symbol ?tab 19 (?tab s @ r) = Some (s, r)" if i: "(s, e) \<in> set its" for s e r
    proof -
      have "read_symbol ?tab 19 b = read_symbol (symbol_bits d 2) 19 b" for b using tab by (rule read_symbol_cong)
      moreover have "read_symbol (symbol_bits d 2) 19 (symbol_bits d 2 s @ r) = Some (s, r)"
        using used [OF i] c by (intro read_symbol_written) blast+
      ultimately show ?thesis using tab used [OF i] by simp
    qed
    have "map (item_bits d) its = map (\<lambda>(s, e). ?tab s @ nat_bits e (extra_of s)) its"
      using used tab by (intro map_cong) auto
    then have "read_sizes ?tab (nl + nd) [] (items @ rst) = read_sizes ?tab (nl + nd) ?xs rst"
      unfolding items_def using h row by (simp only:) (rule read_sizes_items [OF rd], auto)
    also have "\<dots> = Some (?xs, rst)" using h row by (subst read_sizes.simps) simp
    finally show ?thesis .
  qed
  have num: "read_bits n (nat_bits v n @ rst) = (v, rst)" if "v < 2 ^ n" for v n rst
    using that by (subst read_bits_written) (simp_all only: nat_bits_length nat_bits_value mod_less)
  have n2: "length (nat_bits 2 2) = 2" by simp
  have hd: "drop 2 (dynamic_header d nl nd nb its) @ rst
      = nat_bits (nl - 257) 5 @ nat_bits (nd - 1) 5 @ nat_bits (nb - 4) 4 @ sizes @ items @ rst" for rst
    by (simp add: dynamic_header_def sizes_def items_def)
  have rt: "read_tables (drop 2 (dynamic_header d nl nd nb its) @ rst) = Some (?lit, ?dist, rst)" for rst
  proof -
    have b: "nl - 257 < 2 ^ 5" "nd - 1 < 2 ^ 5" "nb - 4 < 2 ^ 4" "nl - 257 + 257 = nl" "nd - 1 + 1 = nd" "nb - 4 + 4 = nb"
      using h by (simp_all del: One_nat_def) linarith+
    have dr: "drop (3 * nb) (sizes @ items @ rst) = items @ rst" using ls by simp
    have tk: "take nl ?xs = take nl ?s0" "drop nl ?xs = take nd ?s1" using h row by simp_all
    show ?thesis
      unfolding read_tables_def hd by (simp only: num [OF b(1)] num [OF b(2)] num [OF b(3)] prod.case Let_def b(4-6) sz dr its option.case tk)
  qed
  moreover have "?lit i = symbol_bits d 0 i" if "i < 288" for i
  proof -
    have "?s0 ! i = 0" if "nl \<le> i" "i < 288" for i
    proof -
      have "i < 286 \<or> i = 286 \<or> i = 287" using that by linarith
      then show ?thesis using h c that by auto
    qed
    then have "pad_sizes 288 (take nl ?s0) = sizes_of d 0 288" unfolding sizes_of_def using row h by (intro sizes_of_padded) auto
    then show ?thesis using c that by (simp add: canonical_def)
  qed
  moreover have "?dist i = symbol_bits d 1 i" if "i < 32" for i
  proof -
    have "?s1 ! i = 0" if "nd \<le> i" "i < 32" for i
    proof -
      have "i < 30 \<or> i = 30 \<or> i = 31" using that by linarith
      then show ?thesis using h c that by auto
    qed
    then have "pad_sizes 32 (take nd ?s1) = sizes_of d 1 32" unfolding sizes_of_def using row h by (intro sizes_of_padded) auto
    then show ?thesis using c that by (simp add: canonical_def)
  qed
  ultimately show ?thesis using that by blast
qed

lemma read_dynamic_written:
  assumes "header_describes d nl nd nb its" "tables_canonical d" "shaped d"
    and "block_codes d (body @ rst) = Some (cs, rst)"
  shows "read_block_codes ((dynamic_header d nl nd nb its @ body) @ rst) = Some (cs, rst)"
proof -
  obtain lit dist where t: "\<And>rst. read_tables (drop 2 (dynamic_header d nl nd nb its) @ rst) = Some (lit, dist, rst)"
    "\<And>i. i < 288 \<Longrightarrow> lit i = symbol_bits d 0 i" "\<And>i. i < 32 \<Longrightarrow> dist i = symbol_bits d 1 i"
    using read_tables_written [OF assms(1-3)] by blast
  have "read_codes lit dist (body @ rst) = Some (cs, rst)"
    using read_codes_cong [of lit "symbol_bits d 0" dist "symbol_bits d 1"] t(2,3) assms(4) by simp
  then have "read_block_codes (False # True # (drop 2 (dynamic_header d nl nd nb its) @ body @ rst)) = Some (cs, rst)"
    using t(1) by (simp add: read_block_codes_def)
  moreover have "(dynamic_header d nl nd nb its @ body) @ rst
      = False # True # (drop 2 (dynamic_header d nl nd nb its) @ body @ rst)"
  proof -
    have "nat_bits 2 2 = [False, True]" by (simp add: nat_bits_def upt_rec bit_0 bit_Suc)
    then show ?thesis by (simp add: dynamic_header_def)
  qed
  ultimately show ?thesis by (simp only:)
qed

lemma recorded_shaped:
  assumes "shaped d" "counts_codes e cs" "m_huff_codes e = m_huff_codes d" "m_huff_code_sizes e = m_huff_code_sizes d"
  shows "shaped e"
proof -
  have "rows (m_huff_count e)"
    using assms(2) by (auto simp: rows_def counts_codes_def in_set_conv_nth less_Suc_eq numeral_3_eq_3 numeral_2_eq_2)
  then show ?thesis using assms(1,3,4) by (simp add: shaped_def)
qed

text \<open>What is in the code buffer is written as a block that is read back.\<close>

lemma block_written:
  assumes r: "holds_codes e cs" "counts_codes e cs" "bits_ok e" "has_tables e" "shaped e" and few: "length cs < 65535"
  shows "\<exists>d' block. tdefl_compress_block e static_block = Some (d', m_pOutput_buf d' < m_pOutput_buf_end d')
    \<and> emits e d' block \<and> keeps e d' \<and> take 2 block = [static_block, \<not> static_block] \<and> length block \<le> 4512 + 48 * length cs
    \<and> (\<forall>rst. read_block_codes (block @ rst) = Some (cs, rst))"
proof (cases static_block)
  case True
  obtain d' body where d': "tdefl_compress_block e True = Some (d', m_pOutput_buf d' < m_pOutput_buf_end d')"
    "emits e d' ([True, False] @ body)" "fixed_tables d'" "\<And>rst. block_codes d' (body @ rst) = Some (cs, rst)"
    "length body \<le> 15 + 48 * length cs"
    using static_block_written [OF r(1,3,4)] by blast
  have "read_block_codes (([True, False] @ body) @ rst) = Some (cs, rst)" for rst
    by (rule read_static_written [OF d'(3,4)])
  then show ?thesis
    using True d'(1,2,5) compress_block_keeps [OF d'(1)] by (intro exI [of _ d'] exI [of _ "[True, False] @ body"]) simp
next
  case False
  obtain d' body nl nd nb its where d': "tdefl_compress_block e False = Some (d', m_pOutput_buf d' < m_pOutput_buf_end d')"
    "emits e d' (dynamic_header d' nl nd nb its @ body)" "header_describes d' nl nd nb its"
    "\<And>rst. block_codes d' (body @ rst) = Some (cs, rst)" "tables_canonical d'" "length body \<le> 15 + 48 * length cs"
    using dynamic_block_written [OF r(1-4) few] by blast
  have k: "keeps e d'" by (rule compress_block_keeps [OF d'(1)])
  have sh: "shaped d'" using k r(5) by (simp add: keeps_def)
  have "read_block_codes ((dynamic_header d' nl nd nb its @ body) @ rst) = Some (cs, rst)" for rst
    by (rule read_dynamic_written [OF d'(3,5) sh d'(4)])
  moreover have "length (dynamic_header d' nl nd nb its) \<le> 4497"
    using d'(5) by (intro dynamic_header_length [OF d'(3)]) (simp add: tables_canonical_def)
  moreover have "nat_bits 2 2 = [False, True]" by (simp add: nat_bits_def upt_rec bit_0 bit_Suc)
  then have "take 2 (dynamic_header d' nl nd nb its @ body) = [False, True]" by (simp add: dynamic_header_def)
  ultimately show ?thesis
    using False d'(1,2,6) k by (intro exI [of _ d'] exI [of _ "dynamic_header d' nl nd nb its @ body"]) simp
qed

text \<open>C3: a block can be read back: whatever literals and matches the parser has recorded,
  \<open>tdefl_compress_block\<close>, static or dynamic, ends with a block of at most 4512 bits and 48 more a code; it
  reports success when the output has room for the block, and when it does, the bits it has appended are
  such that a reader of the deflate format, which knows nothing of the compressor's tables and takes
  the codes from the block's own header, reads exactly the recorded codes and stops at its end.\<close>

theorem compress_block_decodes:
  assumes "fresh_block d" "shaped d" "bits_ok d" "list_all code_ok cs" "1 + 4 * length cs \<le> length (m_lz_code_buf d)"
    and "length cs < 65535" and "e = flush_flags (foldl record_code d cs)"
  shows "\<exists>d' ok block. tdefl_compress_block e static_block = Some (d', ok) \<and> bits_ok d'
    \<and> take 2 block = [static_block, \<not> static_block] \<and> length block \<le> 4512 + 48 * length cs
    \<and> (\<forall>rst. read_block_codes (block @ rst) = Some (cs, rst))
    \<and> (length (out_bits d) + length block < 8 * m_pOutput_buf_end d \<longrightarrow> ok)
    \<and> (ok \<longrightarrow> out_bits d' = out_bits d @ block)"
proof -
  note r = recorded_block [OF assms(1,3-5,7)]
  have tab: "has_tables e" using recorded_tables [OF assms(1,7)] .
  have sh: "shaped e" by (rule recorded_shaped [OF assms(2) r(2,6,7)])
  obtain d' block where d': "tdefl_compress_block e static_block = Some (d', m_pOutput_buf d' < m_pOutput_buf_end d')"
    "emits e d' block" "take 2 block = [static_block, \<not> static_block]" "length block \<le> 4512 + 48 * length cs"
    "\<forall>rst. read_block_codes (block @ rst) = Some (cs, rst)"
    using block_written [OF r(1-3) tab sh assms(6)] by blast
  have p: "progress e = length (out_bits d)" using out_bits_length [OF r(3)] r(4) by simp
  have "m_pOutput_buf d' < m_pOutput_buf_end d'" if "length (out_bits d) + length block < 8 * m_pOutput_buf_end d"
    using that unfolding p [symmetric] r(5) [symmetric] by (rule emits_room [OF d'(2)])
  moreover have "out_bits d' = out_bits d @ block" if "m_pOutput_buf d' < m_pOutput_buf_end d'"
    using d'(2) that unfolding emits_def r(4) by simp
  moreover have "bits_ok d'" by (rule emits_bits_ok [OF d'(2)])
  ultimately show ?thesis
    using d'(1,3-5) by (intro exI [of _ d'] exI [of _ "m_pOutput_buf d' < m_pOutput_buf_end d'"] exI [of _ block] conjI) blast+
qed

text \<open>A compressor between blocks, with room for a thousand bytes.\<close>

definition demo_fresh :: tdefl_compressor where
  "demo_fresh = demo_block\<lparr>m_huff_codes := [replicate 288 0, replicate 288 0, replicate 288 0],
    m_huff_code_sizes := [replicate 288 0, replicate 288 0, replicate 288 0],
    m_output_buf := replicate 1000 0, m_pOutput_buf_end := 1000\<rparr>"

lemma compress_block_decodes_witness:
  "\<forall>static_block. \<exists>d'. tdefl_compress_block (flush_flags (foldl record_code demo_fresh [Literal 65, Match 2 0])) static_block
        = Some (d', True)
      \<and> take 2 (out_bits d') = [static_block, \<not> static_block] \<and> read_block_codes (out_bits d') = Some ([Literal 65, Match 2 0], [])"
proof
  fix static_block
  let ?cs = "[Literal 65, Match 2 0]"
  let ?e = "flush_flags (foldl record_code demo_fresh ?cs)"
  have fresh: "fresh_block demo_fresh" "shaped demo_fresh" "bits_ok demo_fresh"
    by (simp_all add: fresh_block_def shaped_def rows_def counts_codes_def bits_ok_def demo_fresh_def demo_block_def demo_codes_def)
  have cs: "list_all code_ok ?cs" "1 + 4 * length ?cs \<le> length (m_lz_code_buf demo_fresh)" "length ?cs < 65535"
    by (simp_all add: demo_fresh_def demo_block_def demo_codes_def)
  have out: "out_bits demo_fresh = []" "m_pOutput_buf_end demo_fresh = 1000"
    by (simp_all add: out_bits_def byte_bits_def demo_fresh_def demo_block_def demo_codes_def)
  obtain d' ok block where d': "tdefl_compress_block ?e static_block = Some (d', ok)" "take 2 block = [static_block, \<not> static_block]"
    "length block \<le> 4512 + 48 * length ?cs" "\<And>rst. read_block_codes (block @ rst) = Some (?cs, rst)"
    "length (out_bits demo_fresh) + length block < 8 * m_pOutput_buf_end demo_fresh \<longrightarrow> ok"
    "ok \<longrightarrow> out_bits d' = out_bits demo_fresh @ block"
    using compress_block_decodes [OF fresh cs refl, of static_block] by blast
  have ok using d'(3,5) out by simp
  then have "out_bits d' = block" using d'(6) out by simp
  then show "\<exists>d'. tdefl_compress_block ?e static_block = Some (d', True)
      \<and> take 2 (out_bits d') = [static_block, \<not> static_block] \<and> read_block_codes (out_bits d') = Some (?cs, [])"
    using d'(1,2) d'(4) [of "[]"] \<open>ok\<close> by auto
qed

end
