(* ===== verification/Spec2Isabelle.thy ===== *)
theory Spec2Isabelle
  imports StatusProps PhysProps KernelProps KernelInitProps FormatProps OstreamProps DisplayProps EfiMain
    VectorProps StringProps Logging Checksum DeflParse Inflate
begin

text \<open>
  \<^bold>\<open>A verification development of os0x, an experimental operating system for x86-64.\<close>

  \<^bold>\<open>The program.\<close>  A UEFI application (\<^verbatim>\<open>src/efi\<close>) is started by the firmware.  It finds the frame
  buffer, reads the ram disk \<^verbatim>\<open>initrd.img\<close>, looks \<^verbatim>\<open>kernel.elf\<close> up in this cpio archive
  (\<^verbatim>\<open>include/packages/efi/bootinfo.h\<close>), builds four-level page tables
  (\<^verbatim>\<open>efi/src/main/cpp/virtual.cpp\<close>), loads the segments of the kernel and enters it with a boot
  information block.  The kernel (\<^verbatim>\<open>src/kernel\<close>) checks the block, makes its context from it, among
  others a bootstrapper that reads the firmware's memory map (\<^verbatim>\<open>src/packages/efi_shim\<close>), starts the
  bitmap allocator of physical pages and maps pages through the recursive mapping of its tables
  (\<^verbatim>\<open>include/kernel/paging.h\<close>, \<^verbatim>\<open>kernel/src/main/cpp/paging.cpp\<close>).  Both parts and the tests use a core
  library (\<^verbatim>\<open>src/core\<close>, \<^verbatim>\<open>include/core\<close>): status codes, owning pointers, vectors, strings, formatted
  output, streams and logging.  Characters are drawn by \<^verbatim>\<open>include/packages/simpletext\<close> on a frame
  buffer.

  \<^bold>\<open>The theories\<close>, from the bottom up; a definition has the name of the function or type it models
  wherever HOL leaves it free, and C and C++ integers are words of their width, so that they wrap
  around as in the source.

  \<^item> \<open>Prelude\<close>: word types, the collections \<open>masks\<close> and \<open>page_simps\<close>, shared lemmas.  \<open>Memory\<close>: flat
    memory, one byte per 64-bit address, quadwords, \<open>memset\<close>, \<open>memcpy\<close>; blocks of addresses.
  \<^item> \<open>Status\<close>, \<open>StatusProps\<close>: \<open>StatusCode\<close>, its texts, and \<open>StatusOr\<close> (\<^verbatim>\<open>include/core/status.h\<close>); the union of
    a \<open>StatusOr\<close> is a tagged slot, so reading the wrong member is \<open>None\<close>.
  \<^item> \<open>PageEntry\<close>, \<open>Paging\<close>: the bit fields of a page table entry, page sizes, layouts, levels and indices.
    \<open>PageTree\<close>: the walk of four levels of tables, its frame and update lemmas, behind the locale
    \<open>quad_memory\<close>; it is what the loader's and the kernel's tables are both read by.
  \<^item> \<open>Elf\<close>: headers and constants of the 64-bit ELF format, its symbol hash.  \<open>Minc\<close>: the loader's C functions
    and the archive lookup \<open>find_cpio_file\<close>.
  \<^item> \<open>Boot\<close>, \<open>BootProps\<close>, \<open>SelfMap\<close>: the loader's page tables, \<open>map_page\<close>, \<open>map_pages\<close>, \<open>map_new_pages\<close>,
    \<open>check_addr\<close>, and the entry that maps the tables into themselves.  \<open>BootLoad\<close>, \<open>KernelLoad\<close>,
    \<open>KernelProps\<close>: \<open>map_kernel\<close> and its segments, the address space, the hand-over.  \<open>EfiMain\<close>: \<open>efi_main\<close>.
  \<^item> \<open>PhysAlloc\<close>, \<open>PhysProps\<close>: the bitmap allocator of the kernel.  \<open>FrameAlloc\<close>: what the page tables need of an
    allocator, the locales \<open>frame_allocator\<close> and \<open>frame_reserve\<close>, and that the bitmap allocator meets it while the
    pages at its lowest free page are free.  \<open>UefiShim\<close>, \<open>UefiProps\<close>: the memory map, the
    bootstrap allocator, the enumeration of free ranges.  \<open>VirtualMem\<close>, \<open>KernelMap\<close>, \<open>KernelMapProps\<close>: memory seen
    through the tables, \<open>RecursivePageTables\<close> on it, the kernel's context.  \<open>KernelInitProps\<close>: \<open>init\<close>, which
    sizes, backs, maps and fills the bitmap; here allocator, bootstrapper and tables meet.
  \<^item> \<open>UniquePtr\<close>, \<open>Vector\<close>, \<open>VectorProps\<close>: \<open>unique_ptr\<close> and \<open>vector\<close> on a heap of arrays; the locale \<open>list_buffer\<close> is
    what a vector promises.  \<open>CString\<close>, \<open>Strings\<close>, \<open>StringProps\<close>: the C string functions, and \<open>rtk::string\<close> byte
    by byte in flat memory, with its short buffer in a union.
  \<^item> \<open>Format\<close>, \<open>FormatProps\<close>: the printf formatter.  \<open>Ostream\<close>, \<open>OstreamProps\<close>: stream flags, manipulators and the
    output of numbers.  \<open>Logging\<close>: levels and messages over the formatter.
  \<^item> \<open>Display\<close>, \<open>DisplayProps\<close>: frame buffer, font, renderer and the text console.
  \<^item> Of the compression library \<^verbatim>\<open>src/packages/miniz\<close>: \<open>Checksum\<close>, Adler-32 and CRC-32; \<open>RadixSort\<close>, the sort of the
    symbols of a Huffman table; \<open>HuffLengths\<close>, the code lengths computed in the sorted array; \<open>HuffOptimal\<close> and
    \<open>HuffRun\<close>, that they are a run of Huffman's algorithm and optimal; \<open>HuffTable\<close>, the limit on the sizes and
    the codes of a table; \<open>DeflBits\<close>, the bit writer, whose abstraction is the list of bits written;
    \<open>DeflTables\<close>, the symbols of lengths and distances and the decompressor's inverse of them; \<open>DeflLz\<close>, the
    buffer of literals and matches as a list of codes, recorded and written; \<open>DeflRle\<close>, the run lengths of code
    sizes, packed and expanded; \<open>DeflBlock\<close>, the headers of static and dynamic blocks; \<open>DeflDecode\<close>, a reader of
    the codes of a block; \<open>DeflFrame\<close>, what writing a block keeps; \<open>Inflate\<close>, a reader of whole blocks, RFC 1951, that
    takes the codes from their headers, and the theorem that it reads what was recorded; \<open>DeflMatch\<close>, the dictionary and the match finder: what
    is found is a match whatever the chains hold; \<open>DeflParse\<close>, a round of the parser: the codes it records expand to
    the input.

  \<^bold>\<open>State and effects.\<close>  State is passed and returned.  The loader's state \<open>'f boot\<close> is its memory, its message
  level and the firmware's own state \<open>'f\<close>; the firmware's services are parameters (records of functions)
  whose documented behaviour is a named hypothesis where a property needs it.  The processor is a
  parameter only through the walk of the tables: a read or write of an unmapped address is \<open>None\<close>, a page
  fault.  Where \<open>new\<close> places a block is a parameter, 0 when memory is exhausted.  \<open>None\<close> stands for undefined
  behaviour or for a loop that does not end; errors the source reports are values of its own types.

  \<^bold>\<open>Termination.\<close>  Loops of the source with a counter are recursions on what is left of it.  Loops without an
  evident bound (\<open>alloc_loop\<close>, \<open>find_cpio_loop\<close>, \<open>strlen_loop\<close>, \<open>range_loop\<close>, the digits of a number) are partial
  functions whose \<open>None\<close> is not ending, and the properties prove that they end; the format loop is a total
  function by the length of the format.  The constructors \<open>move_construct\<close> and \<open>str_move_construct\<close> do not end.

  \<^bold>\<open>What the lemmas show\<close>, by group: the loader's tables (\<open>map_page_correct\<close>, \<open>map_pages_correct\<close>,
  \<open>create_page_tables_correct\<close>, \<open>PT_ENTRY_reaches_entry\<close>) map exactly what was asked and
  keep the invariant; the kernel image is loaded as its program headers say (\<open>map_kernel_correct\<close>); the archive
  lookup returns the first entry that matches in the way the code compares (\<open>find_cpio_file_first_prefix\<close>); the
  bitmap allocator marks what an algorithm on sets of pages marks, and what its addresses are; \<open>init\<close> is
  correct for a bitmap of one page near the kernel's base with tables present, and fails without them or
  farther up (\<open>init_small_memory_correct\<close>, \<open>init_needs_tables\<close>, \<open>init_misreads_tables\<close>); the kernel's \<open>map\<close>, on
  the bitmap allocator, is correct on 512 GiB boundaries and loses mappings elsewhere
  (\<open>kernel_map_correct\<close>, \<open>kernel_map_drops_mappings\<close>); \<open>StatusOr\<close>, vectors and strings refine sums and lists;
  formatted output is what a reference renderer gives; characters are drawn in their cells.  Several
  theorems state what the code does where that is not what it means to do; the manifest lists them
  as findings.

  \<^bold>\<open>Bounds.\<close>  Memory maps are such that no descriptor wraps around the address space; vectors in the refinement
  have fewer than \<open>2 ^ 31\<close> elements, the range of the loop counter of \<open>grow\<close>, and strings that \<open>rtk::strlen\<close>
  measures fewer than \<open>2 ^ 31\<close> characters, the range of its counter.

  \<^bold>\<open>Not modelled.\<close>  Assembly and port access, the flush of the processor's translations, the multiprocessor
  service, build files and tests; dependency injection glue (\<^verbatim>\<open>di.h\<close>, \<^verbatim>\<open>runtime.h\<close>), type traits, and the C++
  runtime support, which have no behaviour of their own; \<open>virtual_unique_ptr\<close>; of the compression
  library \<^verbatim>\<open>miniz\<close> what the theories above do not name, the loop around
  the parser, the buffer interface and the coroutine of the decompressor foremost (its
  zlib-like, archive and file interfaces are compiled out).
\<close>

end
